(* ===== verification/Prelude.thy ===== *)
theory Prelude
  imports Complex_Main "HOL-Library.AList" "HOL-Library.Monad_Syntax"
begin

text \<open>
  Shared vocabulary of the development: the JavaScript values the TypeScript sources
  receive as \<open>unknown\<close> (\<open>json\<close>), the string operations the sources use
  (\<open>trim\<close>, \<open>slice\<close>, \<open>startsWith\<close>, \<open>split\<close>), JavaScript's insertion-ordered
  \<open>Map\<close> as an association list (\<open>AList.update\<close> replaces in place and appends a
  new key at the end, as \<open>Map.set\<close> does), and results with an error value.
  A string is a list of code units; the 256 values of \<open>char\<close> stand for the code
  units, and white space is the part of ECMAScript's \<open>WhiteSpace\<close> and
  \<open>LineTerminator\<close> that lies in that range.
\<close>

named_theorems js_simps \<open>unfolding rules of the JavaScript primitives\<close>
named_theorems res_splits \<open>case rules for results with an error value\<close>

section \<open>JavaScript values\<close>

text \<open>A number as the sources can observe it: finite, an infinity, or NaN.\<close>

datatype jsnum = Fin rat | PosInf | NegInf | NaN

datatype json =
    JNull
  | JBool bool
  | JNum jsnum
  | JStr string
  | JArr "json list"
  | JObj "(string \<times> json) list"

type_synonym unknown = "json option" \<comment> \<open>\<open>None\<close> is \<open>undefined\<close>\<close>

text \<open>Property access \<open>entry.key\<close> on an object; any other value has no own key.\<close>

fun prop_of :: "json \<Rightarrow> string \<Rightarrow> unknown" where
  "prop_of (JObj kvs) k = map_of kvs k"
| "prop_of _ _ = None"

text \<open>JavaScript truthiness, as \<open>!value\<close> and \<open>if (value)\<close> use it.\<close>

fun truthy :: "unknown \<Rightarrow> bool" where
  "truthy None = False"
| "truthy (Some JNull) = False"
| "truthy (Some (JBool b)) = b"
| "truthy (Some (JNum NaN)) = False"
| "truthy (Some (JNum (Fin q))) = (q \<noteq> 0)"
| "truthy (Some (JNum PosInf)) = True"
| "truthy (Some (JNum NegInf)) = True"
| "truthy (Some (JStr s)) = (s \<noteq> [])"
| "truthy (Some (JArr _)) = True"
| "truthy (Some (JObj _)) = True"

text \<open>\<open>JSON.stringify\<close> writes a non-finite number as \<open>null\<close>; apart from that it
  is injective on ordered JSON trees, so two values print alike exactly when their
  normal forms are equal.\<close>

fun json_norm :: "json \<Rightarrow> json" where
  "json_norm (JNum (Fin q)) = JNum (Fin q)"
| "json_norm (JNum _) = JNull"
| "json_norm (JArr xs) = JArr (map json_norm xs)"
| "json_norm (JObj kvs) = JObj (map (\<lambda>(k, v). (k, json_norm v)) kvs)"
| "json_norm v = v"

section \<open>Strings\<close>

abbreviation LF :: char where "LF \<equiv> CHR 0x0A"

definition js_space :: "char \<Rightarrow> bool" where
  "js_space c \<longleftrightarrow> c \<in> {CHR 0x09, CHR 0x0A, CHR 0x0B, CHR 0x0C, CHR 0x0D, CHR 0x20, CHR 0xA0}"

definition trim_start :: "string \<Rightarrow> string" where
  "trim_start = dropWhile js_space"

definition trim_end :: "string \<Rightarrow> string" where
  "trim_end s = rev (dropWhile js_space (rev s))"

definition trim :: "string \<Rightarrow> string" where
  "trim s = trim_end (trim_start s)"

definition starts_with :: "string \<Rightarrow> string \<Rightarrow> bool" where
  "starts_with s p \<longleftrightarrow> take (length p) s = p"

text \<open>\<open>text.split('\n')[0]\<close>: the text before the first line feed.\<close>

definition first_segment :: "string \<Rightarrow> string" where
  "first_segment = takeWhile (\<lambda>c. c \<noteq> LF)"

fun digit_char :: "nat \<Rightarrow> char" where
  "digit_char n = char_of (48 + n mod 10)"

text \<open>Decimal rendering of a non-negative integer in a template literal.\<close>

fun show_nat :: "nat \<Rightarrow> string" where
  "show_nat n = (if n < 10 then [digit_char n] else show_nat (n div 10) @ [digit_char n])"

declare show_nat.simps [simp del]

definition show_int :: "int \<Rightarrow> string" where
  "show_int n = (if n < 0 then ''-'' @ show_nat (nat (- n)) else show_nat (nat n))"

fun hex_digit :: "nat \<Rightarrow> char" where
  "hex_digit n = (if n < 10 then char_of (48 + n) else char_of (87 + n))"

text \<open>\<open>Buffer.toString('hex')\<close> of a list of bytes.\<close>

definition to_hex :: "nat list \<Rightarrow> string" where
  "to_hex bs = concat (map (\<lambda>b. [hex_digit (b div 16 mod 16), hex_digit (b mod 16)]) bs)"

definition is_digit :: "char \<Rightarrow> bool" where
  "is_digit c \<longleftrightarrow> (of_char c :: nat) \<in> {48..57}"

definition is_alnum :: "char \<Rightarrow> bool" where
  "is_alnum c \<longleftrightarrow> (of_char c :: nat) \<in> {48..57} \<union> {65..90} \<union> {97..122}"

lemma is_alnum_code [code]:
  "is_alnum c = (let n = (of_char c :: nat) in 48 \<le> n \<and> n \<le> 57 \<or> 65 \<le> n \<and> n \<le> 90 \<or> 97 \<le> n \<and> n \<le> 122)"
  by (auto simp: is_alnum_def Let_def)

section \<open>Results with an error value\<close>

type_synonym ('e, 'a) result = "'e + 'a"

fun rbind :: "('e, 'a) result \<Rightarrow> ('a \<Rightarrow> ('e, 'b) result) \<Rightarrow> ('e, 'b) result" where
  "rbind (Inl e) f = Inl e"
| "rbind (Inr x) f = f x"

text \<open>\<open>list.map((entry, index) => ...)\<close> with a callback that may throw: the first
  error stops the traversal.\<close>

fun map_res :: "('a \<Rightarrow> nat \<Rightarrow> ('e, 'b) result) \<Rightarrow> nat \<Rightarrow> 'a list \<Rightarrow> ('e, 'b list) result" where
  "map_res f i [] = Inr []"
| "map_res f i (x # xs) = rbind (f x i) (\<lambda>y. rbind (map_res f (Suc i) xs) (\<lambda>ys. Inr (y # ys)))"

section \<open>Lemmas on the primitives\<close>

lemma rbind_Inr_iff [simp]: "rbind r f = Inr y \<longleftrightarrow> (\<exists>x. r = Inr x \<and> f x = Inr y)"
  by (cases r) auto

lemma rbind_Inl_iff [simp]: "rbind r f = Inl e \<longleftrightarrow> r = Inl e \<or> (\<exists>x. r = Inr x \<and> f x = Inl e)"
  by (cases r) auto

lemma map_res_Inr:
  "map_res f i xs = Inr ys \<longleftrightarrow>
     length ys = length xs \<and> (\<forall>n < length xs. f (xs ! n) (i + n) = Inr (ys ! n))"
proof (induction xs arbitrary: i ys)
  case Nil
  then show ?case by auto
next
  case (Cons x xs)
  show ?case
    by (cases ys) (auto simp: Cons.IH All_less_Suc2)
qed

lemma length_show_nat_le: "n < 10 ^ Suc k \<Longrightarrow> length (show_nat n) \<le> Suc k"
proof (induction k arbitrary: n)
  case 0
  then show ?case by (subst show_nat.simps) simp
next
  case (Suc k)
  have "n div 10 < 10 ^ Suc k" using Suc.prems by (simp add: div_less_iff_less_mult mult.commute)
  then show ?case using Suc.IH [of "n div 10"] by (subst show_nat.simps) simp
qed

lemma show_nat_nonempty [simp]: "show_nat n \<noteq> []"
  by (subst show_nat.simps) simp

lemma show_nat_digits: "c \<in> set (show_nat n) \<Longrightarrow> (of_char c :: nat) \<in> {48..57}"
proof (induction n rule: show_nat.induct)
  case (1 n)
  then show ?case
    by (subst (asm) (2) show_nat.simps) (auto split: if_splits)
qed

lemma digit_char_eq: "digit_char m = digit_char n \<longleftrightarrow> m mod 10 = n mod 10"
proof
  assume "digit_char m = digit_char n"
  then have "(of_char (char_of (48 + m mod 10) :: char) :: nat) = of_char (char_of (48 + n mod 10) :: char)" by simp
  then show "m mod 10 = n mod 10" by (simp add: mod_less_divisor less_trans [OF mod_less_divisor])
qed simp

lemma show_nat_inj [simp]: "show_nat m = show_nat n \<longleftrightarrow> m = n"
proof
  show "m = n" if "show_nat m = show_nat n"
    using that
  proof (induction m arbitrary: n rule: show_nat.induct)
    case (1 m)
    have m: "show_nat m = (if m < 10 then [] else show_nat (m div 10)) @ [digit_char m]" for m
      by (subst show_nat.simps) simp
    have "digit_char m = digit_char n" "m < 10 \<longleftrightarrow> n < 10" "\<not> m < 10 \<Longrightarrow> show_nat (m div 10) = show_nat (n div 10)"
      using 1(2) m [of m] m [of n] show_nat_nonempty [of "n div 10", symmetric] by (auto split: if_splits)
    then have "m mod 10 = n mod 10" "m div 10 = n div 10"
      using 1(1) [of "n div 10"] by (auto simp: digit_char_eq simp del: digit_char.simps)
    then show ?case by (metis div_mult_mod_eq)
  qed
qed simp

lemma show_int_inj [simp]: "show_int m = show_int n \<longleftrightarrow> m = n"
proof -
  have "show_nat k \<noteq> CHR ''-'' # s" for k s
    using show_nat_digits [of "CHR ''-''" k] by auto
  then show ?thesis by (auto simp: show_int_def dest: sym)
qed

lemma show_int_chars: "c \<in> set (show_int n) \<Longrightarrow> c = CHR ''-'' \<or> (of_char c :: nat) \<in> {48..57}"
  by (auto simp: show_int_def split: if_splits dest: show_nat_digits)

lemma is_alnum_digit: "(of_char c :: nat) \<in> {48..57} \<Longrightarrow> is_alnum c"
  by (simp add: is_alnum_def)

lemma hex_digit_alnum: "n < 16 \<Longrightarrow> is_alnum (hex_digit n)"
  by (auto simp: is_alnum_def)

lemma to_hex_alnum: "c \<in> set (to_hex bs) \<Longrightarrow> is_alnum c"
  by (auto simp: to_hex_def intro!: hex_digit_alnum simp del: hex_digit.simps)

lemma length_to_hex [simp]: "length (to_hex bs) = 2 * length bs"
  by (induction bs) (simp_all add: to_hex_def)

lemma trim_start_eq_Nil [simp]: "trim_start s = [] \<longleftrightarrow> (\<forall>c \<in> set s. js_space c)"
  by (simp add: trim_start_def)

lemma length_trim_start: "length (trim_start s) \<le> length s"
  by (simp add: trim_start_def length_dropWhile_le)

lemma starts_with_append [simp]: "starts_with (p @ s) p"
  by (simp add: starts_with_def)

end
