(* ===== verification/Queue_Item.thy ===== *)
theory Queue_Item
  imports Prelude
begin

text \<open>
  The message-queue item (\<open>server/queue/queue-item.ts\<close>): its data, the parser that
  admits an item sent by a client, the payload comparison of an idempotent retry, and the
  public projection with its preview. The clock and \<open>randomBytes\<close> are the record
  \<open>parse_env\<close>; a thrown error is \<open>Inl\<close>.
\<close>

section \<open>Data\<close>

definition QUEUE_CONTENT_MAX_CHARS :: nat where
  "QUEUE_CONTENT_MAX_CHARS = 200000"

definition QUEUE_CONTEXT_PREVIEW_MAX_CHARS :: nat where
  "QUEUE_CONTEXT_PREVIEW_MAX_CHARS = 103"

definition QUEUE_SNAPSHOT_PREVIEW_MAX_CHARS :: nat where
  "QUEUE_SNAPSHOT_PREVIEW_MAX_CHARS = 100"

text \<open>\<open>[A-Za-z0-9._:-]\<close>, the tail class of the identifier pattern.\<close>

definition id_tail_char :: "char \<Rightarrow> bool" where
  "id_tail_char c \<longleftrightarrow> is_alnum c \<or> c \<in> {CHR ''.'', CHR ''_'', CHR '':'', CHR ''-''}"

fun QUEUE_ITEM_ID_PATTERN :: "string \<Rightarrow> bool" where
  "QUEUE_ITEM_ID_PATTERN [] = False"
| "QUEUE_ITEM_ID_PATTERN (c # cs) = (is_alnum c \<and> length cs \<le> 127 \<and> list_all id_tail_char cs)"

datatype AttachmentSource = Local | Server | Vscode

record Attachment =
  att_id :: string
  filename :: string
  mimeType :: string
  att_size :: rat
  att_source :: AttachmentSource
  serverPath :: "string option"
  dataUrl :: string

datatype ContextPart =
    CtxContext string json "string option" \<comment> \<open>text, metadata, instructions\<close>
  | CtxInstruction string
  | CtxSynthetic string

record SendConfig =
  providerID :: string
  modelID :: string
  agent :: "string option"
  variant :: "string option"

record QueueItem =
  item_id :: string
  createdAt :: rat
  content :: string
  item_text :: string
  agentMention :: "string option"
  attachments :: "Attachment list"
  ctx :: "ContextPart list"
  contextPreview :: "string option"
  sendConfig :: SendConfig

datatype queue_error = QueueItemValidationError string | QueueItemConflictError string

type_synonym 'a qresult = "(queue_error, 'a) result"

text \<open>What one call of the parser draws from the environment: \<open>Date.now()\<close>, the seven
  bytes of the item id and the nine bytes of attachment \<open>i\<close>'s id.\<close>

record parse_env =
  now_ms :: nat
  id_bytes :: "nat list"
  att_bytes :: "nat \<Rightarrow> nat list"

section \<open>Parsing\<close>

definition newQueueItemId :: "parse_env \<Rightarrow> string" where
  "newQueueItemId env = ''queued-'' @ show_nat (now_ms env) @ ''-'' @ take 7 (to_hex (id_bytes env))"

definition trimNewlineEdges :: "string \<Rightarrow> string" where
  "trimNewlineEdges s = rev (dropWhile (\<lambda>c. c = LF) (rev (dropWhile (\<lambda>c. c = LF) s)))"

definition fail :: "string \<Rightarrow> 'a qresult" where
  "fail message = Inl (QueueItemValidationError message)"

fun requireString :: "unknown \<Rightarrow> string \<Rightarrow> string qresult" where
  "requireString (Some (JStr s)) field = Inr s"
| "requireString _ field = fail (field @ '' must be a string'')"

fun optionalString :: "unknown \<Rightarrow> string \<Rightarrow> (string option) qresult" where
  "optionalString None field = Inr None"
| "optionalString (Some JNull) field = Inr None"
| "optionalString v field =
     rbind (requireString v field) (\<lambda>t. Inr (if trim t = [] then None else Some t))"

fun asObject :: "unknown \<Rightarrow> string \<Rightarrow> json qresult" where
  "asObject (Some (JObj kvs)) field = Inr (JObj kvs)"
| "asObject _ field = fail (field @ '' must be an object'')"

definition parseAttachmentSource :: "unknown \<Rightarrow> AttachmentSource" where
  "parseAttachmentSource v =
     (if v = Some (JStr ''server'') then Server
      else if v = Some (JStr ''vscode'') then Vscode else Local)"

definition shortRandom :: "nat \<Rightarrow> nat list \<Rightarrow> string" where
  "shortRandom n bytes = take n (to_hex bytes)"

fun finite_or :: "unknown \<Rightarrow> rat \<Rightarrow> rat" where
  "finite_or (Some (JNum (Fin q))) d = q"
| "finite_or _ d = d"

definition idx_field :: "string \<Rightarrow> nat \<Rightarrow> string \<Rightarrow> string" where
  "idx_field base i suffix = base @ ''['' @ show_nat i @ '']'' @ suffix"

definition parseAttachment :: "parse_env \<Rightarrow> json \<Rightarrow> nat \<Rightarrow> Attachment qresult" where
  "parseAttachment env raw i =
     (let f = idx_field ''attachments'' i in
      rbind (asObject (Some raw) (f '''')) (\<lambda>entry.
      rbind (optionalString (prop_of entry ''id'') (f ''.id'')) (\<lambda>aid.
      rbind (requireString (prop_of entry ''filename'') (f ''.filename'')) (\<lambda>fname.
      rbind (requireString (prop_of entry ''mimeType'') (f ''.mimeType'')) (\<lambda>mime.
      rbind (requireString (prop_of entry ''dataUrl'') (f ''.dataUrl'')) (\<lambda>url.
      rbind (optionalString (prop_of entry ''serverPath'') (f ''.serverPath'')) (\<lambda>spath.
      Inr \<lparr>att_id = (case aid of Some t \<Rightarrow> t | None \<Rightarrow> ''att-'' @ shortRandom 7 (att_bytes env i)),
           filename = fname, mimeType = mime,
           att_size = finite_or (prop_of entry ''size'') 0,
           att_source = parseAttachmentSource (prop_of entry ''source''),
           serverPath = spath, dataUrl = url\<rparr>)))))))"

definition parseContextEntry :: "json \<Rightarrow> nat \<Rightarrow> ContextPart qresult" where
  "parseContextEntry raw i =
     (let f = idx_field ''context'' i in
      rbind (asObject (Some raw) (f '''')) (\<lambda>entry.
      rbind (requireString (prop_of entry ''text'') (f ''.text'')) (\<lambda>t.
      (let kind = prop_of entry ''kind'' in
       if kind = Some (JStr ''instruction'') then Inr (CtxInstruction t)
       else if kind = Some (JStr ''synthetic'') then Inr (CtxSynthetic t)
       else if kind = Some (JStr ''context'') then
         rbind (asObject (prop_of entry ''metadata'') (f ''.metadata'')) (\<lambda>metadata.
         rbind (optionalString (prop_of entry ''instructions'') (f ''.instructions'')) (\<lambda>instr.
         Inr (CtxContext t metadata instr)))
       else fail (f ''.kind must be context|instruction|synthetic'')))))"

definition parseSendConfig :: "unknown \<Rightarrow> SendConfig qresult" where
  "parseSendConfig raw =
     rbind (asObject raw ''sendConfig'') (\<lambda>entry.
     rbind (requireString (prop_of entry ''providerID'') ''sendConfig.providerID'') (\<lambda>p.
     rbind (requireString (prop_of entry ''modelID'') ''sendConfig.modelID'') (\<lambda>m.
     (if trim p = [] \<or> trim m = [] then fail ''sendConfig requires providerID and modelID''
      else
        rbind (optionalString (prop_of entry ''agent'') ''sendConfig.agent'') (\<lambda>a.
        rbind (optionalString (prop_of entry ''variant'') ''sendConfig.variant'') (\<lambda>v.
        Inr \<lparr>providerID = trim p, modelID = trim m, agent = a, variant = v\<rparr>))))))"

text \<open>\<open>/^@([^\s@]+)\s?/u\<close>: the name is the longest run of characters that are neither
  white space nor \<open>@\<close>; one white-space character after it belongs to the match.\<close>

definition stripAgentMention :: "string \<Rightarrow> string \<times> string option" where
  "stripAgentMention text =
     (case text of
        [] \<Rightarrow> (text, None)
      | c # rest \<Rightarrow>
          (let name = takeWhile (\<lambda>x. \<not> js_space x \<and> x \<noteq> CHR ''@'') rest;
               after = drop (length name) rest
           in if c \<noteq> CHR ''@'' \<or> name = [] then (text, None)
              else (trim_start
                      (case after of [] \<Rightarrow> [] | d # ds \<Rightarrow> if js_space d then ds else after),
                    Some name)))"

definition array_of :: "unknown \<Rightarrow> json list" where
  "array_of v = (case v of Some (JArr xs) \<Rightarrow> xs | _ \<Rightarrow> [])"

definition parseQueuedItemInput :: "parse_env \<Rightarrow> unknown \<Rightarrow> QueueItem qresult" where
  "parseQueuedItemInput env raw =
     rbind (asObject raw ''item'') (\<lambda>body.
     rbind (requireString (prop_of body ''content'') ''content'') (\<lambda>rawContent.
     (let cont = trimNewlineEdges rawContent in
      if length cont > QUEUE_CONTENT_MAX_CHARS then
        fail (''content exceeds '' @ show_nat QUEUE_CONTENT_MAX_CHARS @ '' chars'')
      else
        rbind (optionalString (prop_of body ''text'') ''text'') (\<lambda>suppliedText.
        (let stripped =
               stripAgentMention (trimNewlineEdges (case suppliedText of Some t \<Rightarrow> t | None \<Rightarrow> cont)) in
         rbind (map_res (parseAttachment env) 0 (array_of (prop_of body ''attachments''))) (\<lambda>atts.
         rbind (map_res parseContextEntry 0 (array_of (prop_of body ''context''))) (\<lambda>parts.
         (if fst stripped = [] \<and> atts = [] \<and> parts = [] then
            fail ''queued item requires text, attachments, or context''
          else if \<not> truthy (prop_of body ''sendConfig'') then
            fail ''sendConfig with providerID+modelID is required''
          else
            rbind (optionalString (prop_of body ''id'') ''id'') (\<lambda>suppliedId.
            (if (case suppliedId of Some i \<Rightarrow> \<not> QUEUE_ITEM_ID_PATTERN i | None \<Rightarrow> False) then
               fail ''id must be a bounded item identifier''
             else
               rbind (parseSendConfig (prop_of body ''sendConfig'')) (\<lambda>cfg.
               rbind (optionalString (prop_of body ''contextPreview'') ''contextPreview'') (\<lambda>cp.
               Inr \<lparr>item_id = (case suppliedId of Some i \<Rightarrow> i | None \<Rightarrow> newQueueItemId env),
                    createdAt = finite_or (prop_of body ''createdAt'') (of_nat (now_ms env)),
                    content = cont, item_text = fst stripped, agentMention = snd stripped,
                    attachments = atts, ctx = parts,
                    contextPreview = map_option (take QUEUE_CONTEXT_PREVIEW_MAX_CHARS) cp,
                    sendConfig = cfg\<rparr>))))))))))))"

section \<open>Payload comparison\<close>

fun json_opt :: "string option \<Rightarrow> json" where
  "json_opt None = JNull"
| "json_opt (Some s) = JStr s"

fun json_source :: "AttachmentSource \<Rightarrow> json" where
  "json_source Local = JStr ''local''"
| "json_source Server = JStr ''server''"
| "json_source Vscode = JStr ''vscode''"

fun json_context :: "ContextPart \<Rightarrow> json" where
  "json_context (CtxContext t md instr) =
     JObj ([(''kind'', JStr ''context''), (''text'', JStr t), (''metadata'', md)]
           @ (case instr of None \<Rightarrow> [] | Some i \<Rightarrow> [(''instructions'', JStr i)]))"
| "json_context (CtxInstruction t) = JObj [(''kind'', JStr ''instruction''), (''text'', JStr t)]"
| "json_context (CtxSynthetic t) = JObj [(''kind'', JStr ''synthetic''), (''text'', JStr t)]"

definition json_sendConfig :: "SendConfig \<Rightarrow> json" where
  "json_sendConfig c =
     JObj ([(''providerID'', JStr (providerID c)), (''modelID'', JStr (modelID c))]
           @ (case agent c of None \<Rightarrow> [] | Some a \<Rightarrow> [(''agent'', JStr a)])
           @ (case variant c of None \<Rightarrow> [] | Some v \<Rightarrow> [(''variant'', JStr v)]))"

definition queue_project :: "QueueItem \<Rightarrow> json" where
  "queue_project item =
     JObj [(''content'', JStr (content item)), (''text'', JStr (item_text item)),
           (''agentMention'', json_opt (agentMention item)),
           (''attachments'', JArr (map (\<lambda>a.
              JObj [(''id'', JStr (att_id a)), (''filename'', JStr (filename a)),
                    (''mimeType'', JStr (mimeType a)), (''size'', JNum (Fin (att_size a))),
                    (''source'', json_source (att_source a)),
                    (''serverPath'', json_opt (serverPath a)), (''dataUrl'', JStr (dataUrl a))])
              (attachments item))),
           (''context'', JArr (map json_context (ctx item))),
           (''sendConfig'', json_sendConfig (sendConfig item)),
           (''contextPreview'', json_opt (contextPreview item))]"

definition sameQueuePayload :: "QueueItem \<Rightarrow> QueueItem \<Rightarrow> bool" where
  "sameQueuePayload left right \<longleftrightarrow> json_norm (queue_project left) = json_norm (queue_project right)"

section \<open>Public projection\<close>

definition firstLine :: "string \<Rightarrow> string" where
  "firstLine text = trim (first_segment text)"

fun part_text :: "ContextPart \<Rightarrow> string" where
  "part_text (CtxContext t _ _) = t"
| "part_text (CtxInstruction t) = t"
| "part_text (CtxSynthetic t) = t"

fun is_instruction :: "ContextPart \<Rightarrow> bool" where
  "is_instruction (CtxInstruction _) = True"
| "is_instruction _ = False"

fun metadata_text :: "ContextPart \<Rightarrow> unknown" where
  "metadata_text (CtxContext _ md _) = prop_of md ''text''"
| "metadata_text _ = None"

fun nonblank_string :: "unknown \<Rightarrow> string option" where
  "nonblank_string (Some (JStr s)) = (if trim s = [] then None else Some s)"
| "nonblank_string _ = None"

text \<open>\<open>commentText ?? contextEntries[0]?.text ?? firstLine(item.text).slice(0, max)\<close>.\<close>

definition preview_fallback :: "ContextPart list \<Rightarrow> string \<Rightarrow> string" where
  "preview_fallback entries text =
     (case List.map_filter (\<lambda>p. nonblank_string (metadata_text p)) entries of
        t # _ \<Rightarrow> t
      | [] \<Rightarrow> (case entries of
                p # _ \<Rightarrow> part_text p
              | [] \<Rightarrow> take QUEUE_SNAPSHOT_PREVIEW_MAX_CHARS (firstLine text)))"

definition deriveSnapshotPreview :: "QueueItem \<Rightarrow> string" where
  "deriveSnapshotPreview item =
     (let head = firstLine (content item); lim = QUEUE_SNAPSHOT_PREVIEW_MAX_CHARS in
      if head \<noteq> [] then
        (if length head > lim \<or> trimNewlineEdges (drop (length head) (content item)) \<noteq> []
         then take lim head @ ''...'' else head)
      else
        (let fallback = preview_fallback (filter (\<lambda>p. \<not> is_instruction p) (ctx item)) (item_text item)
         in if trim fallback = [] then []
            else if length fallback > lim then take lim fallback @ ''...'' else fallback))"

record PublicAttachment =
  pub_att_id :: string
  pub_filename :: string
  pub_mimeType :: string
  pub_size :: rat
  pub_source :: AttachmentSource
  pub_serverPath :: "string option"

record PublicQueueItem =
  pub_id :: string
  pub_createdAt :: rat
  pub_content :: string
  pub_text :: string
  pub_agentMention :: "string option"
  pub_attachments :: "PublicAttachment list"
  pub_contextPreview :: "string option"
  pub_preview :: string
  pub_sendConfig :: SendConfig

text \<open>The conditional spreads and assignments drop an empty string; \<open>nonempty\<close> is that test.\<close>

definition nonempty :: "string option \<Rightarrow> string option" where
  "nonempty s = (if s = Some [] then None else s)"

definition publicAttachment :: "Attachment \<Rightarrow> PublicAttachment" where
  "publicAttachment a =
     \<lparr>pub_att_id = att_id a, pub_filename = filename a, pub_mimeType = mimeType a,
      pub_size = att_size a, pub_source = att_source a, pub_serverPath = nonempty (serverPath a)\<rparr>"

definition publicQueueItem :: "QueueItem \<Rightarrow> PublicQueueItem" where
  "publicQueueItem item =
     \<lparr>pub_id = item_id item, pub_createdAt = createdAt item, pub_content = content item,
      pub_text = item_text item, pub_agentMention = nonempty (agentMention item),
      pub_attachments = map publicAttachment (attachments item),
      pub_contextPreview = nonempty (contextPreview item),
      pub_preview = deriveSnapshotPreview item, pub_sendConfig = sendConfig item\<rparr>"


section \<open>Lemmas\<close>

lemma fail_neq_Inr [simp]: "fail m \<noteq> Inr x"
  by (simp add: fail_def)

lemma requireString_Inr [simp]: "requireString v f = Inr s \<longleftrightarrow> v = Some (JStr s)"
  by (induction v f rule: requireString.induct) auto

lemma optionalString_Inr:
  "optionalString v f = Inr r \<longleftrightarrow>
     (r = None \<and> (v = None \<or> v = Some JNull \<or> (\<exists>s. v = Some (JStr s) \<and> trim s = []))) \<or>
     (\<exists>s. r = Some s \<and> v = Some (JStr s) \<and> trim s \<noteq> [])"
  by (induction v f rule: optionalString.induct) auto

lemma asObject_Inr [simp]: "asObject v f = Inr j \<longleftrightarrow> v = Some j \<and> (\<exists>kvs. j = JObj kvs)"
  by (induction v f rule: asObject.induct) auto

lemma trim_nonempty_imp: "trim s \<noteq> [] \<Longrightarrow> s \<noteq> []"
  by (auto simp: trim_def trim_start_def trim_end_def)

lemma newQueueItemId_pattern:
  assumes "now_ms env < 10 ^ 100"
  shows "QUEUE_ITEM_ID_PATTERN (newQueueItemId env)"
proof -
  have len: "length (show_nat (now_ms env)) \<le> 100"
    using length_show_nat_le [of "now_ms env" 99] assms by simp
  have digits: "list_all id_tail_char (show_nat (now_ms env))"
    by (auto simp: list_all_iff id_tail_char_def dest!: show_nat_digits intro: is_alnum_digit)
  have hex: "list_all id_tail_char (take 7 (to_hex (id_bytes env)))"
    by (auto simp: list_all_iff id_tail_char_def dest!: in_set_takeD intro: to_hex_alnum)
  show ?thesis
    using len digits hex
    by (auto simp: newQueueItemId_def id_tail_char_def is_alnum_def)
qed

text \<open>What every admitted item satisfies, whatever the client sent.\<close>

definition item_ok :: "QueueItem \<Rightarrow> bool" where
  "item_ok item \<longleftrightarrow>
     QUEUE_ITEM_ID_PATTERN (item_id item) \<and>
     length (content item) \<le> QUEUE_CONTENT_MAX_CHARS \<and>
     (item_text item \<noteq> [] \<or> attachments item \<noteq> [] \<or> ctx item \<noteq> []) \<and>
     providerID (sendConfig item) \<noteq> [] \<and> modelID (sendConfig item) \<noteq> [] \<and>
     (\<forall>p \<in> set (ctx item). \<forall>t md i. p = CtxContext t md i \<longrightarrow> (\<exists>kvs. md = JObj kvs)) \<and>
     (\<forall>s. contextPreview item = Some s \<longrightarrow> length s \<le> QUEUE_CONTEXT_PREVIEW_MAX_CHARS)"

lemma parseContextEntry_metadata:
  "parseContextEntry raw i = Inr (CtxContext t md instr) \<Longrightarrow> \<exists>kvs. md = JObj kvs"
  by (auto simp: parseContextEntry_def Let_def split: if_splits)

lemma parseSendConfig_nonempty:
  "parseSendConfig raw = Inr c \<Longrightarrow> providerID c \<noteq> [] \<and> modelID c \<noteq> []"
  by (auto simp: parseSendConfig_def split: if_splits)

text \<open>The result of a successful parse, field by field.\<close>

lemma parseQueuedItemInput_Inr:
  assumes "parseQueuedItemInput env raw = Inr item"
  obtains body c0 supplied sid where
    "raw = Some body" "prop_of body ''content'' = Some (JStr c0)"
    "content item = trimNewlineEdges c0" "length (content item) \<le> QUEUE_CONTENT_MAX_CHARS"
    "optionalString (prop_of body ''text'') ''text'' = Inr supplied"
    "stripAgentMention (trimNewlineEdges (case supplied of Some t \<Rightarrow> t | None \<Rightarrow> trimNewlineEdges c0))
       = (item_text item, agentMention item)"
    "map_res (parseAttachment env) 0 (array_of (prop_of body ''attachments'')) = Inr (attachments item)"
    "map_res parseContextEntry 0 (array_of (prop_of body ''context'')) = Inr (ctx item)"
    "item_text item \<noteq> [] \<or> attachments item \<noteq> [] \<or> ctx item \<noteq> []"
    "optionalString (prop_of body ''id'') ''id'' = Inr sid"
    "(case sid of Some i \<Rightarrow> QUEUE_ITEM_ID_PATTERN i \<and> item_id item = i
               | None \<Rightarrow> item_id item = newQueueItemId env)"
    "parseSendConfig (prop_of body ''sendConfig'') = Inr (sendConfig item)"
    "\<exists>cp. optionalString (prop_of body ''contextPreview'') ''contextPreview'' = Inr cp \<and>
         contextPreview item = map_option (take QUEUE_CONTEXT_PREVIEW_MAX_CHARS) cp"
  using assms unfolding parseQueuedItemInput_def Let_def
  by (auto split: if_splits option.splits)

lemma parse_item_ok:
  assumes "parseQueuedItemInput env raw = Inr item" "now_ms env < 10 ^ 100"
  shows "item_ok item"
  using assms(1)
proof (cases rule: parseQueuedItemInput_Inr)
  case (1 body c0 supplied sid)
  have "QUEUE_ITEM_ID_PATTERN (item_id item)"
    using 1(11) newQueueItemId_pattern [OF assms(2)] by (auto split: option.splits)
  moreover have "\<exists>kvs. md = JObj kvs" if "CtxContext t md i \<in> set (ctx item)" for t md i
    using 1(8) that by (auto simp: map_res_Inr in_set_conv_nth dest!: parseContextEntry_metadata)
  moreover have "length s \<le> QUEUE_CONTEXT_PREVIEW_MAX_CHARS" if "contextPreview item = Some s" for s
    using 1(13) that by (auto simp: map_option_case split: option.splits)
  ultimately show ?thesis
    using 1(4,9) parseSendConfig_nonempty [OF 1(12)] by (auto simp: item_ok_def)
qed

text \<open>Only a missing attachment id makes the parse of an attachment depend on the environment.\<close>

definition has_own_id :: "json \<Rightarrow> bool" where
  "has_own_id e \<longleftrightarrow> (\<exists>s. prop_of e ''id'' = Some (JStr s) \<and> trim s \<noteq> [])"

lemma parseAttachment_env:
  "has_own_id e \<Longrightarrow> parseAttachment env e i = parseAttachment env' e i"
  by (cases e) (auto simp: parseAttachment_def has_own_id_def Let_def)

lemma map_res_cong:
  "(\<And>x i. x \<in> set xs \<Longrightarrow> f x i = g x i) \<Longrightarrow> map_res f n xs = map_res g n xs"
  by (induction xs arbitrary: n) auto

lemma map_res_parseAttachment_env:
  "\<forall>e \<in> set es. has_own_id e \<Longrightarrow>
   map_res (parseAttachment env) n es = map_res (parseAttachment env') n es"
  by (intro map_res_cong parseAttachment_env) auto

lemma length_trim_start_le: "length (trim s) \<le> length s"
proof -
  have "length (trim_end t) \<le> length t" for t
    unfolding trim_end_def using length_dropWhile_le [of js_space "rev t"] by simp
  then show ?thesis
    unfolding trim_def using length_trim_start order_trans by blast
qed

lemma trimNewlineEdges_edges:
  assumes "trimNewlineEdges s \<noteq> []"
  shows "hd (trimNewlineEdges s) \<noteq> LF \<and> last (trimNewlineEdges s) \<noteq> LF"
proof -
  define d where "d = dropWhile (\<lambda>c. c = LF) s"
  define r where "r = dropWhile (\<lambda>c. c = LF) (rev d)"
  have t: "trimNewlineEdges s = rev r" by (simp add: trimNewlineEdges_def d_def r_def)
  have r: "r \<noteq> []" using assms t by simp
  have "hd r \<noteq> LF" using r hd_dropWhile [of "\<lambda>c. c = LF" "rev d"] by (simp add: r_def)
  moreover have "d \<noteq> []" using r by (auto simp: r_def)
  then have "hd d \<noteq> LF" using hd_dropWhile [of "\<lambda>c. c = LF" s] by (simp add: d_def)
  moreover obtain pre where "rev d = pre @ r"
    unfolding r_def by (metis takeWhile_dropWhile_id)
  then have "last r = hd d" using r \<open>d \<noteq> []\<close> by (metis hd_rev last_appendR rev_rev_ident)
  ultimately show ?thesis using t r by (simp add: hd_rev last_rev)
qed

text \<open>Two parses of the same body, at different times and with different random bytes, are
  the same payload when every attachment carries an id.\<close>

lemma same_body_same_payload:
  assumes "parseQueuedItemInput env (Some body) = Inr a"
    and "parseQueuedItemInput env' (Some body) = Inr b"
    and "\<forall>e \<in> set (array_of (prop_of body ''attachments'')). has_own_id e"
  shows "sameQueuePayload a b"
proof -
  note ma = map_res_parseAttachment_env [OF assms(3), of env 0 env']
  obtain "content a = content b" "item_text a = item_text b" "agentMention a = agentMention b"
    "attachments a = attachments b" "ctx a = ctx b" "sendConfig a = sendConfig b"
    "contextPreview a = contextPreview b"
    using assms(1,2) ma by (elim parseQueuedItemInput_Inr) auto
  then show ?thesis by (simp add: sameQueuePayload_def queue_project_def)
qed

lemma same_payload_trans:
  "sameQueuePayload a b \<Longrightarrow> sameQueuePayload b c \<Longrightarrow> sameQueuePayload a c"
  by (simp add: sameQueuePayload_def)

lemma same_payload_sym: "sameQueuePayload a b = sameQueuePayload b a"
  by (auto simp: sameQueuePayload_def)

section \<open>Properties\<close>

text \<open>
  An item the parser admits is deliverable: its id obeys the bounded identifier
  pattern whether supplied or generated, its content is bounded and has no newline at an
  edge, it carries text, an attachment or a context part, it names a provider and a model,
  each context part has an object as metadata, and every attachment and context entry the
  client sent is in it (the item is rejected as a whole otherwise).\<close>

theorem parse_admits_deliverable_items:
  assumes "parseQueuedItemInput env (Some body) = Inr item" "now_ms env < 10 ^ 100"
  shows "item_ok item \<and>
    (content item \<noteq> [] \<longrightarrow> hd (content item) \<noteq> LF \<and> last (content item) \<noteq> LF) \<and>
    length (attachments item) = length (array_of (prop_of body ''attachments'')) \<and>
    length (ctx item) = length (array_of (prop_of body ''context''))"
  using assms(1) parse_item_ok [OF assms]
  by (auto elim!: parseQueuedItemInput_Inr simp: map_res_Inr dest: trimNewlineEdges_edges)

text \<open>A body a client could send, and two environments that differ in what they draw.\<close>

definition sample_body :: "string option \<Rightarrow> json" where
  "sample_body aid =
     JObj [(''content'', JStr (LF # ''@reviewer  look at this'')), (''id'', JStr ''queued-7''),
           (''attachments'', JArr [JObj
              ((case aid of None \<Rightarrow> [] | Some i \<Rightarrow> [(''id'', JStr i)]) @
               [(''filename'', JStr ''a.txt''), (''mimeType'', JStr ''text/plain''),
                (''dataUrl'', JStr ''data:,x'')])]),
           (''sendConfig'', JObj [(''providerID'', JStr '' local ''), (''modelID'', JStr ''m'')])]"

definition sample_env :: "nat \<Rightarrow> parse_env" where
  "sample_env n = \<lparr>now_ms = n, id_bytes = replicate 7 n, att_bytes = (\<lambda>_. replicate 9 n)\<rparr>"

definition sample_item :: "string \<Rightarrow> rat \<Rightarrow> QueueItem" where
  "sample_item aid created =
     \<lparr>item_id = ''queued-7'', createdAt = created, content = ''@reviewer  look at this'',
      item_text = ''look at this'', agentMention = Some ''reviewer'',
      attachments = [\<lparr>att_id = aid, filename = ''a.txt'', mimeType = ''text/plain'', att_size = 0,
                      att_source = Local, serverPath = None, dataUrl = ''data:,x''\<rparr>],
      ctx = [], contextPreview = None,
      sendConfig = \<lparr>providerID = ''local'', modelID = ''m'', agent = None, variant = None\<rparr>\<rparr>"

lemmas parse_eval =
  parseQueuedItemInput_def sample_body_def sample_env_def sample_item_def trimNewlineEdges_def
  stripAgentMention_def array_of_def parseAttachment_def parseSendConfig_def trim_def trim_start_def
  trim_end_def js_space_def QUEUE_CONTENT_MAX_CHARS_def id_tail_char_def is_alnum_def Let_def
  idx_field_def parseAttachmentSource_def shortRandom_def to_hex_def

lemma sample_parse:
  "parseQueuedItemInput (sample_env n) (Some (sample_body (Some ''att-1''))) =
     Inr (sample_item ''att-1'' (of_nat n))"
  by (simp add: parse_eval)

lemma sample_parse_no_id:
  "parseQueuedItemInput (sample_env n) (Some (sample_body None)) =
     Inr (sample_item (''att-'' @ take 7 (to_hex (replicate 9 n))) (of_nat n))"
  by (simp add: parse_eval)

theorem parse_admits_deliverable_items_witness:
  "parseQueuedItemInput (sample_env 5) (Some (sample_body (Some ''att-1''))) =
     Inr (sample_item ''att-1'' 5) \<and> now_ms (sample_env 5) < 10 ^ 100 \<and> item_ok (sample_item ''att-1'' 5)"
proof -
  have p: "parseQueuedItemInput (sample_env 5) (Some (sample_body (Some ''att-1''))) =
     Inr (sample_item ''att-1'' 5)"
    using sample_parse [of 5] by simp
  have n: "now_ms (sample_env 5) < 10 ^ 100"
    by (simp add: sample_env_def)
  show ?thesis using p n parse_admits_deliverable_items [OF p n] by blast
qed

text \<open>
  Without an attachment id the retry is not recognised: the server invents a fresh
  random id at each parse, so the same body sent twice under one item id compares as a
  different payload.\<close>

theorem retry_without_attachment_id_differs:
  "\<exists>a b. parseQueuedItemInput (sample_env 1) (Some (sample_body None)) = Inr a \<and>
         parseQueuedItemInput (sample_env 2) (Some (sample_body None)) = Inr b \<and>
         item_id a = item_id b \<and> \<not> sameQueuePayload a b"
proof -
  have "take 7 (to_hex (replicate 9 1)) \<noteq> take 7 (to_hex (replicate 9 2))" by code_simp
  then show ?thesis
    unfolding sample_parse_no_id
    by (simp add: sameQueuePayload_def queue_project_def sample_item_def)
qed

text \<open>
  The public projection never carries attachment bytes: it is the same for
  any two items that differ only in their data URLs.\<close>

theorem public_projection_ignores_data_urls:
  "publicQueueItem (item\<lparr>attachments := map (\<lambda>a. a\<lparr>dataUrl := f a\<rparr>) (attachments item)\<rparr>) =
     publicQueueItem item"
proof -
  have "deriveSnapshotPreview (item\<lparr>attachments := as\<rparr>) = deriveSnapshotPreview item" for as
    by (simp add: deriveSnapshotPreview_def Let_def)
  then show ?thesis by (simp add: publicQueueItem_def publicAttachment_def)
qed

text \<open>
  The preview is bounded: at most 100 characters of text and three dots.\<close>

theorem preview_bounded:
  "length (deriveSnapshotPreview item) \<le> QUEUE_SNAPSHOT_PREVIEW_MAX_CHARS + 3"
  by (auto simp: deriveSnapshotPreview_def Let_def)

text \<open>
  A one-line content with leading blanks is marked as narrowed although nothing was
  cut: the dots come from slicing the untrimmed content at the length of the trimmed line.\<close>

theorem preview_marks_uncut_line:
  "deriveSnapshotPreview (sample_item ''a'' 0 \<lparr>content := ''  hi''\<rparr>) = ''hi...''"
  by (simp add: deriveSnapshotPreview_def firstLine_def first_segment_def trim_def trim_start_def
      trim_end_def js_space_def trimNewlineEdges_def QUEUE_SNAPSHOT_PREVIEW_MAX_CHARS_def Let_def)

end
