(* ===== verification/Queue_Store.thy ===== *)
theory Queue_Store
  imports Queue_Item "HOL-Library.Multiset"
begin

text \<open>
  The persisted queue store (\<open>server/queue/queue-store.ts\<close>). The JavaScript \<open>Map\<close> of
  sessions is an association list in insertion order. The queue file, and the files set
  aside as corrupt, are part of the state; whether a rename or a write succeeds is an
  argument. The serialized write chain is the number of writes waiting: each of them writes
  the memory it finds when it runs, so running the chain is one write of the current memory.
\<close>

section \<open>State\<close>

definition QUEUE_MAX_ITEMS_PER_SESSION :: nat where
  "QUEUE_MAX_ITEMS_PER_SESSION = 20"

definition QUEUE_MAX_SESSIONS :: nat where
  "QUEUE_MAX_SESSIONS = 50"

record QueueSessionEntry =
  directory :: string
  items :: "QueueItem list"

text \<open>The file as \<open>readQueueDoc\<close> can find it. Session values are cast, not validated:
  an entry is either no object (skipped by \<open>load\<close>) or taken as it is.\<close>

datatype raw_sessions = BadSessions unknown | SessionsObj "(string \<times> QueueSessionEntry option) list"

record raw_doc =
  raw_version :: unknown
  raw_revision :: unknown
  raw_sess :: raw_sessions

datatype disk_file =
    FileMissing
  | FileUnreadable
  | FileNotJson string
  | FileNotObject json
  | FileDoc raw_doc

datatype LoadedQueueDoc =
    DocMissing
  | DocMalformed
  | DocHardFailure
  | DocLoaded rat "(string \<times> QueueSessionEntry option) list"

record store =
  sessions :: "(string \<times> QueueSessionEntry) list"
  revision :: rat
  writesDisabled :: bool
  pendingWrites :: nat
  stampCounter :: nat
  disk :: disk_file
  setAside :: "disk_file list"

datatype load_result = LLoaded | LMissing | LQuarantined | LDisabled

section \<open>Reading and writing the file\<close>

fun readQueueDoc :: "disk_file \<Rightarrow> LoadedQueueDoc" where
  "readQueueDoc FileMissing = DocMissing"
| "readQueueDoc FileUnreadable = DocHardFailure"
| "readQueueDoc (FileNotJson _) = DocMalformed"
| "readQueueDoc (FileNotObject _) = DocMalformed"
| "readQueueDoc (FileDoc d) =
     (if raw_version d \<noteq> Some (JNum (Fin 1)) then DocMalformed
      else (case raw_revision d of
              Some (JNum (Fin r)) \<Rightarrow>
                if r < 0 then DocMalformed
                else (case raw_sess d of
                        BadSessions _ \<Rightarrow> DocMalformed
                      | SessionsObj ss \<Rightarrow> DocLoaded r ss)
            | _ \<Rightarrow> DocMalformed))"

definition quarantineCorruptFile :: "bool \<Rightarrow> store \<Rightarrow> store" where
  "quarantineCorruptFile rename_ok st =
     (if disk st = FileMissing \<or> \<not> rename_ok then st
      else st\<lparr>disk := FileMissing, setAside := disk st # setAside st\<rparr>)"

fun loaded_entries :: "(string \<times> QueueSessionEntry option) list \<Rightarrow> (string \<times> QueueSessionEntry) list" where
  "loaded_entries [] = []"
| "loaded_entries ((k, None) # ss) = loaded_entries ss"
| "loaded_entries ((k, Some e) # ss) = (k, e) # loaded_entries ss"

definition load :: "bool \<Rightarrow> store \<Rightarrow> load_result \<times> store" where
  "load rename_ok st =
     (case readQueueDoc (disk st) of
        DocHardFailure \<Rightarrow> (LDisabled, st\<lparr>writesDisabled := True\<rparr>)
      | DocMalformed \<Rightarrow>
          (LQuarantined, (quarantineCorruptFile rename_ok st)\<lparr>sessions := [], revision := 0\<rparr>)
      | DocMissing \<Rightarrow> (LMissing, st\<lparr>writesDisabled := False, sessions := [], revision := 0\<rparr>)
      | DocLoaded r ss \<Rightarrow>
          (LLoaded, st\<lparr>writesDisabled := False, sessions := loaded_entries ss, revision := r\<rparr>))"

definition has_session :: "store \<Rightarrow> string \<Rightarrow> bool" where
  "has_session st sid \<longleftrightarrow> map_of (sessions st) sid \<noteq> None"

definition readd :: "(string \<times> QueueSessionEntry) \<Rightarrow> store \<Rightarrow> store" where
  "readd kv st =
     (if has_session st (fst kv) then st
      else st\<lparr>sessions := AList.update (fst kv) (snd kv) (sessions st)\<rparr>)"

definition refreshPreservingEmpty :: "bool \<Rightarrow> store \<Rightarrow> load_result \<times> store" where
  "refreshPreservingEmpty rename_ok st =
     (let empties = filter (\<lambda>(k, e). items e = []) (sessions st);
          loaded = load rename_ok st
      in (fst loaded, fold readd empties (snd loaded)))"

definition recoverWrites :: "bool \<Rightarrow> store \<Rightarrow> bool \<times> store" where
  "recoverWrites rename_ok st =
     (if \<not> writesDisabled st then (True, st)
      else case readQueueDoc (disk st) of
             DocHardFailure \<Rightarrow> (False, st)
           | DocMalformed \<Rightarrow> (True, (quarantineCorruptFile rename_ok st)\<lparr>writesDisabled := False\<rparr>)
           | _ \<Rightarrow> (True, st\<lparr>writesDisabled := False, pendingWrites := Suc (pendingWrites st)\<rparr>))"

definition persisted :: "store \<Rightarrow> raw_doc" where
  "persisted st =
     \<lparr>raw_version = Some (JNum (Fin 1)), raw_revision = Some (JNum (Fin (revision st))),
      raw_sess = SessionsObj (map (\<lambda>(k, e). (k, Some e)) (filter (\<lambda>(k, e). items e \<noteq> []) (sessions st)))\<rparr>"

definition writeNow :: "bool \<Rightarrow> store \<Rightarrow> store" where
  "writeNow write_ok st = (if write_ok then st\<lparr>disk := FileDoc (persisted st)\<rparr> else st)"

definition scheduleWrite :: "store \<Rightarrow> store" where
  "scheduleWrite st =
     (if writesDisabled st then st
      else st\<lparr>stampCounter := Suc (stampCounter st), pendingWrites := Suc (pendingWrites st)\<rparr>)"

definition flushWrites :: "bool \<Rightarrow> store \<Rightarrow> store" where
  "flushWrites write_ok st =
     (if pendingWrites st = 0 then st else (writeNow write_ok st)\<lparr>pendingWrites := 0\<rparr>)"

definition commit :: "store \<Rightarrow> store" where
  "commit st = scheduleWrite (st\<lparr>revision := revision st + 1\<rparr>)"

section \<open>Reading the memory\<close>

definition entryOf :: "store \<Rightarrow> string \<Rightarrow> QueueSessionEntry option" where
  "entryOf st sid = map_of (sessions st) sid"

definition findItem :: "store \<Rightarrow> string \<Rightarrow> string \<Rightarrow> QueueItem option" where
  "findItem st sid iid =
     (case entryOf st sid of None \<Rightarrow> None | Some e \<Rightarrow> find (\<lambda>i. item_id i = iid) (items e))"

definition directoryOf :: "store \<Rightarrow> string \<Rightarrow> string option" where
  "directoryOf st sid = map_option directory (entryOf st sid)"

definition nonEmptyEntries :: "store \<Rightarrow> (string \<times> QueueSessionEntry) list" where
  "nonEmptyEntries st = filter (\<lambda>(k, e). items e \<noteq> []) (sessions st)"

record QueueSessionSnapshot =
  snap_sessionId :: string
  snap_directory :: string
  snap_items :: "PublicQueueItem list"
  snap_sendingId :: "string option"

definition snapshot :: "(string \<Rightarrow> string option) \<Rightarrow> store \<Rightarrow> QueueSessionSnapshot list" where
  "snapshot sendingId st =
     map (\<lambda>(k, e). \<lparr>snap_sessionId = k, snap_directory = directory e,
                    snap_items = map publicQueueItem (items e), snap_sendingId = sendingId k\<rparr>)
         (nonEmptyEntries st)"

section \<open>Changing the memory\<close>

definition age_key :: "string \<times> QueueSessionEntry \<Rightarrow> rat" where
  "age_key kv = (case items (snd kv) of [] \<Rightarrow> -1 | i # _ \<Rightarrow> createdAt i)"

definition evict_candidates ::
  "(string \<Rightarrow> string option) \<Rightarrow> string \<Rightarrow> (string \<times> QueueSessionEntry) list \<Rightarrow> (string \<times> QueueSessionEntry) list"
where
  "evict_candidates inFlightId protect ss =
     sort_key age_key (filter (\<lambda>(k, e). k \<noteq> protect \<and> inFlightId k = None) ss)"

lemma evict_candidates_in: "kv \<in> set (evict_candidates f p ss) \<Longrightarrow> kv \<in> set ss"
  by (simp add: evict_candidates_def)

lemma length_delete_less: "kv \<in> set ss \<Longrightarrow> length (AList.delete (fst kv) ss) < length ss"
  unfolding AList.delete_eq by (induction ss) (auto simp: le_imp_less_Suc)

function evictOldestSessions ::
  "(string \<Rightarrow> string option) \<Rightarrow> string \<Rightarrow> (string \<times> QueueSessionEntry) list \<Rightarrow> (string \<times> QueueSessionEntry) list"
where
  "evictOldestSessions inFlightId protect ss =
     (if length ss > QUEUE_MAX_SESSIONS then
        (case evict_candidates inFlightId protect ss of
           [] \<Rightarrow> ss
         | victim # _ \<Rightarrow> evictOldestSessions inFlightId protect (AList.delete (fst victim) ss))
      else ss)"
  by pat_completeness auto
termination
proof (relation "measure (\<lambda>(f, p, ss). length ss)", goal_cases)
  case (2 f p ss victim rest)
  then have "victim \<in> set ss" using evict_candidates_in [of victim f p ss] by simp
  then show ?case by (simp add: length_delete_less)
qed simp

declare evictOldestSessions.simps [simp del]

text \<open>The trimming loop of \<open>enqueue\<close>. \<open>splice(head, 1)\<close> removes one element; when
  \<open>head\<close> has passed the end nothing is removed any more and the loop never ends.\<close>

partial_function (option) trimItems :: "string option \<Rightarrow> nat \<Rightarrow> QueueItem list \<Rightarrow> QueueItem list option"
where
  "trimItems inFlight head its =
     (if length its > QUEUE_MAX_ITEMS_PER_SESSION then
        (if head < length its \<and> Some (item_id (its ! head)) \<noteq> inFlight
         then trimItems inFlight head (take head its @ drop (Suc head) its)
         else trimItems inFlight (Suc head) its)
      else Some its)"

definition enqueue ::
  "string \<Rightarrow> string \<Rightarrow> QueueItem \<Rightarrow> (string \<Rightarrow> string option) \<Rightarrow> store \<Rightarrow> store option"
where
  "enqueue sid dir item inFlightId st =
     (let old = (case entryOf st sid of Some e \<Rightarrow> items e | None \<Rightarrow> []) in
      case trimItems (inFlightId sid) 0 (old @ [item]) of
        None \<Rightarrow> None
      | Some its \<Rightarrow>
          Some (commit (st\<lparr>sessions :=
            evictOldestSessions inFlightId sid
              (AList.update sid \<lparr>directory = dir, items = its\<rparr> (sessions st))\<rparr>)))"

definition set_items :: "string \<Rightarrow> QueueItem list \<Rightarrow> store \<Rightarrow> store" where
  "set_items sid its st =
     (case entryOf st sid of
        None \<Rightarrow> st
      | Some e \<Rightarrow> st\<lparr>sessions := AList.update sid (e\<lparr>items := its\<rparr>) (sessions st)\<rparr>)"

text \<open>\<open>findIndex\<close> and \<open>splice(index, 1)\<close>: the first item with the id leaves the list.\<close>

fun remove_first :: "string \<Rightarrow> QueueItem list \<Rightarrow> QueueItem list" where
  "remove_first iid [] = []"
| "remove_first iid (x # xs) = (if item_id x = iid then xs else x # remove_first iid xs)"

definition removeItem :: "string \<Rightarrow> string \<Rightarrow> store \<Rightarrow> QueueItem option \<times> store" where
  "removeItem sid iid st =
     (case findItem st sid iid of
        None \<Rightarrow> (None, st)
      | Some it \<Rightarrow>
          (case entryOf st sid of
             None \<Rightarrow> (None, st)
           | Some e \<Rightarrow> (Some it, set_items sid (remove_first iid (items e)) st)))"

definition takeAllExcept :: "string \<Rightarrow> string option \<Rightarrow> store \<Rightarrow> QueueItem list \<times> store" where
  "takeAllExcept sid keepId st =
     (case entryOf st sid of
        None \<Rightarrow> ([], st)
      | Some e \<Rightarrow>
          (filter (\<lambda>i. Some (item_id i) \<noteq> keepId) (items e),
           set_items sid (if keepId = None then []
                          else filter (\<lambda>i. Some (item_id i) = keepId) (items e)) st))"

datatype reorder_result = Applied | Incomplete | Missing | InFlight

text \<open>\<open>new Map(entry.items.map((item) => [item.id, item]))\<close>: the last item of an id wins.\<close>

definition by_id :: "QueueItem list \<Rightarrow> string \<Rightarrow> QueueItem option" where
  "by_id its = map_of (rev (map (\<lambda>i. (item_id i, i)) its))"

definition reorder :: "string \<Rightarrow> string list \<Rightarrow> string option \<Rightarrow> store \<Rightarrow> reorder_result \<times> store" where
  "reorder sid ids pinned st =
     (case entryOf st sid of
        None \<Rightarrow> (Missing, st)
      | Some e \<Rightarrow>
          if length ids \<noteq> length (items e) then (Incomplete, st)
          else if \<not> distinct ids then (Incomplete, st)
          else if \<exists>i \<in> set ids. \<not> (\<exists>it \<in> set (items e). item_id it = i) then (Incomplete, st)
          else if pinned \<noteq> None \<and> (if ids = [] then None else Some (hd ids)) \<noteq> pinned then (InFlight, st)
          else (Applied, set_items sid (map (\<lambda>i. the (by_id (items e) i)) ids) st))"

definition dropSession :: "string \<Rightarrow> store \<Rightarrow> bool \<times> store" where
  "dropSession sid st = (has_session st sid, st\<lparr>sessions := AList.delete sid (sessions st)\<rparr>)"

definition forgetDirectoryMemory :: "string \<Rightarrow> store \<Rightarrow> store" where
  "forgetDirectoryMemory sid st =
     (case entryOf st sid of
        Some e \<Rightarrow> if items e = [] then st\<lparr>sessions := AList.delete sid (sessions st)\<rparr> else st
      | None \<Rightarrow> st)"

section \<open>Invariant and views\<close>

definition queue_of :: "store \<Rightarrow> string \<Rightarrow> QueueItem list" where
  "queue_of st sid = (case entryOf st sid of Some e \<Rightarrow> items e | None \<Rightarrow> [])"

definition store_wf :: "store \<Rightarrow> bool" where
  "store_wf st \<longleftrightarrow>
     distinct (map fst (sessions st)) \<and>
     (\<forall>sid. distinct (map item_id (queue_of st sid)) \<and>
            length (queue_of st sid) \<le> QUEUE_MAX_ITEMS_PER_SESSION)"

text \<open>The first \<open>n\<close> items that are not the pinned one leave the list.\<close>

fun drop_unpinned :: "string option \<Rightarrow> nat \<Rightarrow> QueueItem list \<Rightarrow> QueueItem list" where
  "drop_unpinned f n [] = []"
| "drop_unpinned f 0 (x # xs) = x # xs"
| "drop_unpinned f (Suc n) (x # xs) =
     (if Some (item_id x) = f then x # drop_unpinned f (Suc n) xs else drop_unpinned f n xs)"

section \<open>Lemmas: trimming and eviction\<close>

abbreviation pinned_count :: "string option \<Rightarrow> QueueItem list \<Rightarrow> nat" where
  "pinned_count f its \<equiv> length (filter (\<lambda>i. Some (item_id i) = f) its)"

lemma drop_unpinned_0 [simp]: "drop_unpinned f 0 xs = xs"
  by (cases xs) auto

lemma trimItems_from:
  "length ps + pinned_count f ys \<le> QUEUE_MAX_ITEMS_PER_SESSION \<Longrightarrow>
   trimItems f (length ps) (ps @ ys) =
     Some (ps @ drop_unpinned f (length (ps @ ys) - QUEUE_MAX_ITEMS_PER_SESSION) ys)"
proof (induction ys arbitrary: ps)
  case Nil
  then show ?case by (simp add: trimItems.simps)
next
  case (Cons y ys)
  show ?case
  proof (cases "length (ps @ y # ys) > QUEUE_MAX_ITEMS_PER_SESSION")
    case False
    then show ?thesis by (simp add: trimItems.simps)
  next
    case long: True
    then obtain n where n: "length (ps @ y # ys) - QUEUE_MAX_ITEMS_PER_SESSION = Suc n"
      by (metis Suc_pred zero_less_diff)
    show ?thesis
    proof (cases "Some (item_id y) = f")
      case True
      with Cons.IH [of "ps @ [y]"] Cons.prems long n show ?thesis
        by (subst trimItems.simps) simp
    next
      case False
      have "length (ps @ ys) - QUEUE_MAX_ITEMS_PER_SESSION = n" using n by simp
      with False Cons.IH [of ps] Cons.prems long n show ?thesis
        by (subst trimItems.simps) auto
    qed
  qed
qed

lemma trimItems_eq:
  "pinned_count f its \<le> QUEUE_MAX_ITEMS_PER_SESSION \<Longrightarrow>
   trimItems f 0 its = Some (drop_unpinned f (length its - QUEUE_MAX_ITEMS_PER_SESSION) its)"
  using trimItems_from [of "[]" f its] by simp

lemma pinned_count_splice:
  assumes "h < length its" "Some (item_id (its ! h)) \<noteq> f"
  shows "pinned_count f (take h its) + pinned_count f (drop (Suc h) its) = pinned_count f its"
proof -
  have "pinned_count f its = pinned_count f (take h its @ its ! h # drop (Suc h) its)"
    by (rule arg_cong [OF id_take_nth_drop [OF assms(1)]])
  then show ?thesis using assms(2) by simp
qed

lemma trimItems_keeps_pinned:
  assumes "trimItems f h its = Some r"
  shows "pinned_count f r = pinned_count f its \<and> length r \<le> QUEUE_MAX_ITEMS_PER_SESSION"
proof (rule trimItems.raw_induct
    [where P = "\<lambda>f h its r. pinned_count f r = pinned_count f its \<and>
       length r \<le> QUEUE_MAX_ITEMS_PER_SESSION", OF _ assms])
  fix loop f h its r
  assume IH: "\<And>f h its r. loop f h its = Some r \<Longrightarrow>
      pinned_count f r = pinned_count f its \<and> length r \<le> QUEUE_MAX_ITEMS_PER_SESSION"
    and eq: "(if length its > QUEUE_MAX_ITEMS_PER_SESSION then
        (if h < length its \<and> Some (item_id (its ! h)) \<noteq> f
         then loop f h (take h its @ drop (Suc h) its) else loop f (Suc h) its)
      else Some its) = Some r"
  show "pinned_count f r = pinned_count f its \<and> length r \<le> QUEUE_MAX_ITEMS_PER_SESSION"
    using eq by (auto split: if_splits dest!: IH simp: pinned_count_splice)
qed

lemma distinct_pinned_count: "distinct (map item_id its) \<Longrightarrow> pinned_count f its \<le> 1"
proof (induction its)
  case (Cons x xs)
  have "f = Some (item_id x) \<Longrightarrow> pinned_count f xs = 0"
    using Cons.prems by (auto simp: filter_empty_conv) (metis imageI)
  then show ?case using Cons by auto
qed simp

lemma set_drop_unpinned: "set (drop_unpinned f n its) \<subseteq> set its"
  by (induction f n its rule: drop_unpinned.induct) auto

lemma distinct_drop_unpinned:
  "distinct (map item_id its) \<Longrightarrow> distinct (map item_id (drop_unpinned f n its))"
proof (induction f n its rule: drop_unpinned.induct)
  case (3 f n x xs)
  then show ?case using set_drop_unpinned [of f "Suc n" xs] by auto
qed auto

lemma drop_unpinned_pinned:
  "it \<in> set its \<Longrightarrow> Some (item_id it) = f \<Longrightarrow> it \<in> set (drop_unpinned f n its)"
  by (induction f n its rule: drop_unpinned.induct) auto

lemma last_drop_unpinned:
  "n + pinned_count f its < length its \<Longrightarrow> drop_unpinned f n (its @ [x]) = drop_unpinned f n its @ [x]"
  by (induction f n its rule: drop_unpinned.induct) auto

lemma evict_step:
  "length ss > QUEUE_MAX_SESSIONS \<Longrightarrow> evict_candidates f p ss = v # vs \<Longrightarrow>
   evictOldestSessions f p ss = evictOldestSessions f p (AList.delete (fst v) ss)"
  by (subst evictOldestSessions.simps) simp

lemma evict_stop:
  "length ss \<le> QUEUE_MAX_SESSIONS \<or> evict_candidates f p ss = [] \<Longrightarrow> evictOldestSessions f p ss = ss"
  by (subst evictOldestSessions.simps) (auto split: list.splits)

text \<open>Case analysis of one round, for inductions over the loop.\<close>

lemma evict_induct [case_names stop step]:
  assumes "\<And>ss. length ss \<le> QUEUE_MAX_SESSIONS \<or> evict_candidates f p ss = [] \<Longrightarrow> P ss"
    and "\<And>ss v vs. length ss > QUEUE_MAX_SESSIONS \<Longrightarrow> evict_candidates f p ss = v # vs \<Longrightarrow>
           P (AList.delete (fst v) ss) \<Longrightarrow> P ss"
  shows "P ss"
proof (induction "length ss" arbitrary: ss rule: less_induct)
  case less
  show ?case
  proof (cases "evict_candidates f p ss")
    case Nil
    then show ?thesis using assms(1) by blast
  next
    case (Cons v vs)
    then have "v \<in> set ss" using evict_candidates_in [of v f p ss] by simp
    then have "P (AList.delete (fst v) ss)" using less length_delete_less by blast
    then show ?thesis using assms Cons by (meson not_le)
  qed
qed

lemma evict_candidates_mem:
  "kv \<in> set (evict_candidates f p ss) \<longleftrightarrow> kv \<in> set ss \<and> fst kv \<noteq> p \<and> f (fst kv) = None"
  by (auto simp: evict_candidates_def)

lemma evict_head:
  assumes "evict_candidates f p ss = v # vs"
  shows "v \<in> set ss" "fst v \<noteq> p" "f (fst v) = None"
    "kv \<in> set ss \<Longrightarrow> fst kv \<noteq> p \<Longrightarrow> f (fst kv) = None \<Longrightarrow> age_key v \<le> age_key kv"
proof -
  show "v \<in> set ss" "fst v \<noteq> p" "f (fst v) = None"
    using assms evict_candidates_mem [of v f p ss] by auto
  assume "kv \<in> set ss" "fst kv \<noteq> p" "f (fst kv) = None"
  then have "kv \<in> set (v # vs)" using assms evict_candidates_mem [of kv f p ss] by simp
  moreover have "sorted (map age_key (v # vs))"
    unfolding assms [symmetric] evict_candidates_def by simp
  ultimately show "age_key v \<le> age_key kv" by auto
qed

lemma evict_subset: "set (evictOldestSessions f p ss) \<subseteq> set ss"
proof (induction ss rule: evict_induct [of f p])
  case (stop ss)
  then show ?case by (simp add: evict_stop)
next
  case (step ss v vs)
  then show ?case by (auto simp: evict_step AList.delete_eq)
qed

lemma evict_distinct:
  "distinct (map fst ss) \<Longrightarrow> distinct (map fst (evictOldestSessions f p ss))"
proof (induction ss rule: evict_induct [of f p])
  case (stop ss)
  then show ?case by (simp add: evict_stop)
next
  case (step ss v vs)
  then show ?case by (simp add: evict_step distinct_delete)
qed

lemma evict_keeps:
  "kv \<in> set ss \<Longrightarrow> fst kv = p \<or> f (fst kv) \<noteq> None \<Longrightarrow> kv \<in> set (evictOldestSessions f p ss)"
proof (induction ss rule: evict_induct [of f p])
  case (stop ss)
  then show ?case by (simp add: evict_stop)
next
  case (step ss v vs)
  have "fst kv \<noteq> fst v" using evict_head [OF step(2)] step.prems by metis
  then have "kv \<in> set (AList.delete (fst v) ss)" using step.prems(1) by (auto simp: AList.delete_eq)
  then show ?case using step by (simp add: evict_step)
qed

lemma evict_bound:
  "length (evictOldestSessions f p ss) \<le> QUEUE_MAX_SESSIONS \<or>
   (\<forall>kv \<in> set (evictOldestSessions f p ss). fst kv = p \<or> f (fst kv) \<noteq> None)"
proof (induction ss rule: evict_induct [of f p])
  case (stop ss)
  then show ?case using evict_candidates_mem [of _ f p ss] by (force simp: evict_stop)
next
  case (step ss v vs)
  then show ?case by (simp add: evict_step)
qed

lemma evict_oldest_first:
  assumes "kv \<in> set ss" "kv \<notin> set (evictOldestSessions f p ss)" "distinct (map fst ss)"
    and "kv' \<in> set (evictOldestSessions f p ss)" "fst kv' \<noteq> p" "f (fst kv') = None"
  shows "age_key kv \<le> age_key kv'"
  using assms
proof (induction ss rule: evict_induct [of f p])
  case (stop ss)
  then show ?case by (simp add: evict_stop)
next
  case (step ss v vs)
  have sub: "kv' \<in> set (AList.delete (fst v) ss)"
    using step(1,2,7) evict_subset by (auto simp: evict_step)
  show ?case
  proof (cases "kv = v")
    case True
    then show ?thesis
      using evict_head(4) [OF step(2)] sub step.prems by (auto simp: AList.delete_eq)
  next
    case False
    then have "fst kv \<noteq> fst v"
      using step.prems(1,3) evict_head(1) [OF step(2)] by (metis eq_key_imp_eq_value prod.collapse)
    then have "kv \<in> set (AList.delete (fst v) ss)" using step.prems(1) by (auto simp: AList.delete_eq)
    then show ?thesis using step by (simp add: evict_step distinct_delete)
  qed
qed

section \<open>Lemmas: the view after each operation\<close>

named_theorems queue_view \<open>what each operation does to the queue of a session\<close>

lemma sessions_commit [simp]: "sessions (commit st) = sessions st"
  by (simp add: commit_def scheduleWrite_def)

lemma revision_commit [simp]: "revision (commit st) = revision st + 1"
  by (simp add: commit_def scheduleWrite_def)

lemma entryOf_commit [queue_view]: "entryOf (commit st) = entryOf st"
  by (simp add: entryOf_def fun_eq_iff)

lemma queue_of_commit [queue_view]: "queue_of (commit st) = queue_of st"
  by (simp add: queue_of_def fun_eq_iff queue_view)

lemma store_wf_commit [simp]: "store_wf (commit st) = store_wf st"
  by (simp add: store_wf_def queue_view)

lemma entryOf_set_items [queue_view]:
  "entryOf (set_items sid its st) sid' =
     (if sid' = sid then map_option (\<lambda>e. e\<lparr>items := its\<rparr>) (entryOf st sid) else entryOf st sid')"
  by (auto simp: set_items_def entryOf_def update_conv split: option.splits)

lemma queue_of_set_items [queue_view]:
  "queue_of (set_items sid its st) sid' =
     (if sid' = sid \<and> entryOf st sid \<noteq> None then its else queue_of st sid')"
  by (auto simp: queue_of_def queue_view split: option.splits)

lemma distinct_set_items:
  "distinct (map fst (sessions st)) \<Longrightarrow> distinct (map fst (sessions (set_items sid its st)))"
  by (auto simp: set_items_def intro: distinct_update split: option.splits)

lemma store_wf_set_items:
  "store_wf st \<Longrightarrow> distinct (map item_id its) \<Longrightarrow> length its \<le> QUEUE_MAX_ITEMS_PER_SESSION \<Longrightarrow>
   store_wf (set_items sid its st)"
  by (auto simp: store_wf_def queue_view distinct_set_items)

lemma set_remove_first: "set (remove_first iid xs) \<subseteq> set xs"
  by (induction xs) auto

lemma length_remove_first_le: "length (remove_first iid xs) \<le> length xs"
  by (induction xs) auto

lemma distinct_remove_first:
  "distinct (map item_id xs) \<Longrightarrow> distinct (map item_id (remove_first iid xs))"
  by (induction xs) (auto dest: subsetD [OF set_remove_first])

lemma remove_first_absent: "find (\<lambda>i. item_id i = iid) xs = None \<Longrightarrow> remove_first iid xs = xs"
  by (induction xs) (auto split: if_splits)

lemma in_remove_first: "it \<in> set xs \<Longrightarrow> item_id it \<noteq> iid \<Longrightarrow> it \<in> set (remove_first iid xs)"
  by (induction xs) auto

lemma queue_of_removeItem [queue_view]:
  "queue_of (snd (removeItem sid iid st)) sid' =
     (if sid' = sid then remove_first iid (queue_of st sid) else queue_of st sid')"
  by (auto simp: removeItem_def findItem_def queue_view queue_of_def remove_first_absent
      split: option.splits)

lemma store_wf_removeItem: "store_wf st \<Longrightarrow> store_wf (snd (removeItem sid iid st))"
proof (cases "fst (removeItem sid iid st)")
  case None
  then show "store_wf st \<Longrightarrow> ?thesis" by (auto simp: removeItem_def split: option.splits)
next
  case (Some it)
  assume wf: "store_wf st"
  from Some obtain e where e: "entryOf st sid = Some e"
    and eq: "snd (removeItem sid iid st) = set_items sid (remove_first iid (items e)) st"
    by (auto simp: removeItem_def split: option.splits)
  have q: "queue_of st sid = items e" using e by (simp add: queue_of_def)
  have "distinct (map item_id (items e))" "length (items e) \<le> QUEUE_MAX_ITEMS_PER_SESSION"
    using wf q unfolding store_wf_def by metis+
  then show ?thesis
    unfolding eq using wf length_remove_first_le [of iid "items e"]
    by (auto intro!: store_wf_set_items distinct_remove_first)
qed

lemma queue_of_takeAllExcept [queue_view]:
  "queue_of (snd (takeAllExcept sid keep st)) sid' =
     (if sid' = sid then filter (\<lambda>i. Some (item_id i) = keep) (queue_of st sid) else queue_of st sid')"
  by (auto simp: takeAllExcept_def queue_view queue_of_def split: option.splits)

lemma taken_takeAllExcept:
  "fst (takeAllExcept sid keep st) = filter (\<lambda>i. Some (item_id i) \<noteq> keep) (queue_of st sid)"
  by (auto simp: takeAllExcept_def queue_of_def split: option.splits)

lemma distinct_map_filter_id: "distinct (map item_id xs) \<Longrightarrow> distinct (map item_id (filter P xs))"
  by (induction xs) auto

lemma store_wf_takeAllExcept: "store_wf st \<Longrightarrow> store_wf (snd (takeAllExcept sid keep st))"
proof -
  assume wf: "store_wf st"
  show ?thesis
  proof (cases "entryOf st sid")
    case None
    then show ?thesis using wf by (simp add: takeAllExcept_def)
  next
    case (Some e)
    then have q: "queue_of st sid = items e" by (simp add: queue_of_def)
    have "distinct (map item_id (items e))" "length (items e) \<le> QUEUE_MAX_ITEMS_PER_SESSION"
      using wf q unfolding store_wf_def by metis+
    then show ?thesis
      using wf Some length_filter_le [of "\<lambda>i. Some (item_id i) = keep" "items e"]
      by (auto simp: takeAllExcept_def intro!: store_wf_set_items distinct_map_filter_id
          order_trans [OF length_filter_le])
  qed
qed

lemma by_id_mem:
  "\<exists>it \<in> set its. item_id it = i \<Longrightarrow> \<exists>it. by_id its i = Some it \<and> it \<in> set its \<and> item_id it = i"
proof -
  assume "\<exists>it \<in> set its. item_id it = i"
  then have "i \<in> fst ` set (rev (map (\<lambda>it. (item_id it, it)) its))" by force
  then obtain it where m: "by_id its i = Some it"
    unfolding by_id_def by (metis domIff dom_map_of_conv_image_fst not_Some_eq)
  then have "(i, it) \<in> set (rev (map (\<lambda>it. (item_id it, it)) its))"
    unfolding by_id_def by (rule map_of_SomeD)
  with m show ?thesis by auto
qed

text \<open>The checks of \<open>reorder\<close> leave only permutations: as many distinct known ids as items.\<close>

lemma reorder_Applied:
  assumes "reorder sid ids pinned st = (Applied, st')"
  shows "mset (queue_of st' sid) = mset (queue_of st sid)"
    and "map item_id (queue_of st' sid) = ids"
    and "distinct (map item_id (queue_of st sid))"
    and "pinned \<noteq> None \<Longrightarrow> ids \<noteq> [] \<Longrightarrow> pinned = Some (hd ids)"
    and "sid' \<noteq> sid \<Longrightarrow> queue_of st' sid' = queue_of st sid'"
    and "\<exists>e. entryOf st sid = Some e"
    and "st' = set_items sid (queue_of st' sid) st"
proof -
  obtain e where e: "entryOf st sid = Some e" "length ids = length (items e)" "distinct ids"
    and known: "\<forall>i \<in> set ids. \<exists>it \<in> set (items e). item_id it = i"
    and pin: "pinned \<noteq> None \<Longrightarrow> (if ids = [] then None else Some (hd ids)) = pinned"
    and st': "st' = set_items sid (map (\<lambda>i. the (by_id (items e) i)) ids) st"
    using assms by (auto simp: reorder_def split: option.splits if_splits)
  let ?new = "map (\<lambda>i. the (by_id (items e) i)) ids"
  have q: "queue_of st sid = items e" "queue_of st' sid = ?new"
    using e st' by (simp_all add: queue_of_def queue_view)
  have look: "the (by_id (items e) i) \<in> set (items e)" "item_id (the (by_id (items e) i)) = i"
    if "i \<in> set ids" for i
    using by_id_mem [of "items e" i] known that by force+
  have ids: "map item_id ?new = ids" using look(2) by (simp add: map_idI)
  have sub: "set ?new \<subseteq> set (items e)" using look(1) by auto
  have dn: "distinct ?new" using ids e(3) by (metis distinct_map)
  have "card (set ?new) = length (items e)" using distinct_card [OF dn] e(2) by simp
  then have "set ?new = set (items e)" "distinct (items e)"
    using sub by (metis List.finite_set card_length card_mono card_subset_eq le_antisym)
      (metis List.finite_set card_distinct card_length card_mono le_antisym sub
        \<open>card (set ?new) = length (items e)\<close>)
  then show "mset (queue_of st' sid) = mset (queue_of st sid)"
    unfolding q using dn set_eq_iff_mset_eq_distinct by blast
  then have "mset (map item_id (queue_of st sid)) = mset ids"
    unfolding q by (metis ids mset_map)
  then show "distinct (map item_id (queue_of st sid))"
    using e(3) by (metis mset_eq_imp_distinct_iff)
  show "map item_id (queue_of st' sid) = ids" unfolding q by (rule ids)
  show "pinned \<noteq> None \<Longrightarrow> ids \<noteq> [] \<Longrightarrow> pinned = Some (hd ids)" using pin by auto
  show "sid' \<noteq> sid \<Longrightarrow> queue_of st' sid' = queue_of st sid'" using st' by (simp add: queue_view)
  show "\<exists>e. entryOf st sid = Some e" using e by blast
  show "st' = set_items sid (queue_of st' sid) st" using q st' by simp
qed

lemma reorder_other: "fst (reorder sid ids pinned st) \<noteq> Applied \<Longrightarrow> snd (reorder sid ids pinned st) = st"
  by (auto simp: reorder_def split: option.splits if_splits)

lemma map_of_mem_iff:
  "distinct (map fst ss) \<Longrightarrow> map_of ss k = Some e \<longleftrightarrow> (k, e) \<in> set ss"
  by (metis map_of_SomeD map_of_is_SomeI)

lemma queue_of_evicted:
  assumes "distinct (map fst (sessions st))"
  shows "queue_of (st\<lparr>sessions := evictOldestSessions f p (sessions st)\<rparr>) sid =
           (if map_of (evictOldestSessions f p (sessions st)) sid = None then [] else queue_of st sid)"
    and "sid = p \<or> f sid \<noteq> None \<Longrightarrow>
         queue_of (st\<lparr>sessions := evictOldestSessions f p (sessions st)\<rparr>) sid = queue_of st sid"
proof -
  let ?ss = "evictOldestSessions f p (sessions st)"
  have same: "map_of (sessions st) sid = Some e" if "map_of ?ss sid = Some e" for e
    by (rule map_of_is_SomeI [OF assms subsetD [OF evict_subset map_of_SomeD [OF that]]])
  then show "queue_of (st\<lparr>sessions := ?ss\<rparr>) sid = (if map_of ?ss sid = None then [] else queue_of st sid)"
    by (auto simp: queue_of_def entryOf_def split: option.splits)
  assume stays: "sid = p \<or> f sid \<noteq> None"
  have keep: "map_of ?ss sid = Some e" if "map_of (sessions st) sid = Some e" for e
  proof (rule map_of_is_SomeI [OF evict_distinct [OF assms]])
    show "(sid, e) \<in> set ?ss" by (rule evict_keeps) (use stays that in \<open>auto dest: map_of_SomeD\<close>)
  qed
  have "map_of ?ss sid = map_of (sessions st) sid"
    by (metis same keep not_Some_eq)
  then show "queue_of (st\<lparr>sessions := ?ss\<rparr>) sid = queue_of st sid"
    by (simp add: queue_of_def entryOf_def)
qed

text \<open>The queue a session is left with after an item was added.\<close>

definition queue_after :: "string option \<Rightarrow> QueueItem list \<Rightarrow> QueueItem \<Rightarrow> QueueItem list" where
  "queue_after f its item =
     drop_unpinned f (Suc (length its) - QUEUE_MAX_ITEMS_PER_SESSION) (its @ [item])"

lemma length_drop_unpinned:
  "n + pinned_count f its \<le> length its \<Longrightarrow> length (drop_unpinned f n its) = length its - n"
proof (induction f n its rule: drop_unpinned.induct)
  case (3 f n x xs)
  show ?case
  proof (cases "Some (item_id x) = f")
    case True
    with 3 show ?thesis by (cases "length xs") auto
  next
    case False
    with 3 show ?thesis by auto
  qed
qed auto

lemma enqueue_view:
  assumes wf: "store_wf st" and fresh: "item_id item \<notin> item_id ` set (queue_of st sid)"
  obtains st' where "enqueue sid dir item f st = Some st'" "store_wf st'"
    "queue_of st' sid = queue_after (f sid) (queue_of st sid) item"
    "\<forall>s. s \<noteq> sid \<longrightarrow> queue_of st' s = queue_of st s \<or> queue_of st' s = [] \<and> f s = None"
    "revision st' = revision st + 1"
    "length (sessions st') \<le> QUEUE_MAX_SESSIONS \<or> (\<forall>kv \<in> set (sessions st'). fst kv = sid \<or> f (fst kv) \<noteq> None)"
proof -
  let ?its = "queue_of st sid"
  have dist: "distinct (map item_id (?its @ [item]))" and len: "length ?its \<le> QUEUE_MAX_ITEMS_PER_SESSION"
    using wf fresh by (auto simp: store_wf_def)
  have pc: "pinned_count (f sid) (?its @ [item]) \<le> 1" by (rule distinct_pinned_count [OF dist])
  have trim: "trimItems (f sid) 0 (?its @ [item]) = Some (queue_after (f sid) ?its item)"
    using pc by (simp add: trimItems_eq queue_after_def QUEUE_MAX_ITEMS_PER_SESSION_def)
  define base where "base = st\<lparr>sessions := AList.update sid
      \<lparr>directory = dir, items = queue_after (f sid) ?its item\<rparr> (sessions st)\<rparr>"
  define st' where "st' = commit (base\<lparr>sessions := evictOldestSessions f sid (sessions base)\<rparr>)"
  have enq: "enqueue sid dir item f st = Some st'"
    using trim by (simp add: enqueue_def queue_of_def base_def st'_def)
  have db: "distinct (map fst (sessions base))"
    using wf by (simp add: base_def store_wf_def distinct_update)
  have qb: "queue_of base s = (if s = sid then queue_after (f sid) ?its item else queue_of st s)" for s
    by (simp add: base_def queue_of_def entryOf_def update_conv)
  have qsid: "queue_of st' sid = queue_after (f sid) ?its item"
    using queue_of_evicted(2) [OF db, of sid sid f] qb by (simp add: st'_def queue_view)
  have other: "queue_of st' s = queue_of st s \<or> queue_of st' s = [] \<and> f s = None" if "s \<noteq> sid" for s
    using queue_of_evicted [OF db, where sid = s and p = sid and f = f] qb that
    by (auto simp: st'_def queue_view split: if_splits)
  have "length (queue_after (f sid) ?its item) \<le> QUEUE_MAX_ITEMS_PER_SESSION"
    using pc len unfolding queue_after_def
    by (subst length_drop_unpinned) (auto simp: QUEUE_MAX_ITEMS_PER_SESSION_def)
  moreover have "distinct (map item_id (queue_after (f sid) ?its item))"
    unfolding queue_after_def by (rule distinct_drop_unpinned [OF dist])
  ultimately have wf': "store_wf st'"
    using wf qsid other evict_distinct [OF db] unfolding store_wf_def
    by (auto simp: st'_def) (metis other distinct.simps(1) list.map(1) qsid
        le0 list.size(3) st'_def)+
  show ?thesis
    using that [OF enq wf' qsid] other evict_bound [of f sid "sessions base"]
    by (simp add: st'_def base_def)
qed

lemma enqueue_viewD:
  assumes "store_wf st" "item_id item \<notin> item_id ` set (queue_of st sid)"
    and "enqueue sid dir item f st = Some st'"
  shows "store_wf st'"
    and "queue_of st' sid = queue_after (f sid) (queue_of st sid) item"
    and "s \<noteq> sid \<Longrightarrow> queue_of st' s = queue_of st s \<or> queue_of st' s = [] \<and> f s = None"
    and "revision st' = revision st + 1"
    and "length (sessions st') \<le> QUEUE_MAX_SESSIONS \<or>
         (\<forall>kv \<in> set (sessions st'). fst kv = sid \<or> f (fst kv) \<noteq> None)"
proof -
  obtain s2 where s2: "enqueue sid dir item f st = Some s2" "store_wf s2"
    "queue_of s2 sid = queue_after (f sid) (queue_of st sid) item"
    "\<forall>s. s \<noteq> sid \<longrightarrow> queue_of s2 s = queue_of st s \<or> queue_of s2 s = [] \<and> f s = None"
    "revision s2 = revision st + 1"
    "length (sessions s2) \<le> QUEUE_MAX_SESSIONS \<or> (\<forall>kv \<in> set (sessions s2). fst kv = sid \<or> f (fst kv) \<noteq> None)"
    by (rule enqueue_view [OF assms(1,2), where dir = dir and f = f]) blast
  have "s2 = st'" using assms(3) s2(1) by simp
  note r = s2(2-6) [unfolded this]
  show "store_wf st'" "queue_of st' sid = queue_after (f sid) (queue_of st sid) item"
    "revision st' = revision st + 1"
    "length (sessions st') \<le> QUEUE_MAX_SESSIONS \<or>
         (\<forall>kv \<in> set (sessions st'). fst kv = sid \<or> f (fst kv) \<noteq> None)"
    by (rule r)+
  show "s \<noteq> sid \<Longrightarrow> queue_of st' s = queue_of st s \<or> queue_of st' s = [] \<and> f s = None"
    using r(3) by blast
qed

section \<open>The interface the runtime relies on\<close>

text \<open>Per-session queues with a pinned item: what the runtime may assume of the store when
  an item is being sent.\<close>

locale pinned_queues =
  fixes invar :: "'s \<Rightarrow> bool"
    and queue :: "'s \<Rightarrow> string \<Rightarrow> QueueItem list"
    and add :: "string \<Rightarrow> string \<Rightarrow> QueueItem \<Rightarrow> (string \<Rightarrow> string option) \<Rightarrow> 's \<Rightarrow> 's option"
    and remove :: "string \<Rightarrow> string \<Rightarrow> 's \<Rightarrow> 's"
    and take_all :: "string \<Rightarrow> string option \<Rightarrow> 's \<Rightarrow> 's"
    and permute :: "string \<Rightarrow> string list \<Rightarrow> string option \<Rightarrow> 's \<Rightarrow> 's"
  assumes add_total: "invar s \<Longrightarrow> item_id i \<notin> item_id ` set (queue s sid) \<Longrightarrow> \<exists>s'. add sid d i f s = Some s'"
    and add_invar: "invar s \<Longrightarrow> item_id i \<notin> item_id ` set (queue s sid) \<Longrightarrow> add sid d i f s = Some s' \<Longrightarrow> invar s'"
    and add_queue: "invar s \<Longrightarrow> item_id i \<notin> item_id ` set (queue s sid) \<Longrightarrow> add sid d i f s = Some s' \<Longrightarrow>
        queue s' sid = queue_after (f sid) (queue s sid) i"
    and add_other: "invar s \<Longrightarrow> item_id i \<notin> item_id ` set (queue s sid) \<Longrightarrow> add sid d i f s = Some s' \<Longrightarrow>
        t \<noteq> sid \<Longrightarrow> f t \<noteq> None \<Longrightarrow> queue s' t = queue s t"
    and remove_invar: "invar s \<Longrightarrow> invar (remove sid iid s)"
    and remove_queue: "queue (remove sid iid s) t = (if t = sid then remove_first iid (queue s sid) else queue s t)"
    and take_all_invar: "invar s \<Longrightarrow> invar (take_all sid keep s)"
    and take_all_queue: "queue (take_all sid keep s) t =
        (if t = sid then filter (\<lambda>i. Some (item_id i) = keep) (queue s sid) else queue s t)"
    and permute_invar: "invar s \<Longrightarrow> invar (permute sid ids pin s)"
    and permute_queue: "mset (queue (permute sid ids pin s) t) = mset (queue s t)"
begin

lemma add_keeps_pinned:
  assumes "invar s" "item_id i \<notin> item_id ` set (queue s sid)" "add sid d i f s = Some s'"
    and "it \<in> set (queue s t)" "Some (item_id it) = f t"
  shows "it \<in> set (queue s' t)"
proof (cases "t = sid")
  case True
  then show ?thesis
    using add_queue [OF assms(1-3)] assms(4,5) by (auto simp: queue_after_def intro: drop_unpinned_pinned)
next
  case False
  then show ?thesis using add_other [OF assms(1-3)] assms(4,5) by (metis option.distinct(1))
qed

lemma remove_keeps_pinned:
  "it \<in> set (queue s t) \<Longrightarrow> t = sid \<longrightarrow> item_id it \<noteq> iid \<Longrightarrow> it \<in> set (queue (remove sid iid s) t)"
  by (auto simp: remove_queue intro: in_remove_first)

lemma take_all_keeps_pinned:
  "it \<in> set (queue s t) \<Longrightarrow> t = sid \<longrightarrow> Some (item_id it) = keep \<Longrightarrow> it \<in> set (queue (take_all sid keep s) t)"
  by (auto simp: take_all_queue)

lemma permute_keeps: "it \<in> set (queue s t) \<Longrightarrow> it \<in> set (queue (permute sid ids pin s) t)"
  using permute_queue by (metis mset_eq_setD)

end

interpretation sq: pinned_queues store_wf queue_of enqueue
  "\<lambda>sid iid st. snd (removeItem sid iid st)" "\<lambda>sid keep st. snd (takeAllExcept sid keep st)"
  "\<lambda>sid ids pin st. snd (reorder sid ids pin st)"
proof (unfold_locales, goal_cases)
  case (1 s i sid d f)
  show ?case by (rule enqueue_view [OF 1, where dir = d and f = f]) blast
next
  case (2 s i sid d f s')
  show ?case by (rule enqueue_viewD [OF 2])
next
  case (3 s i sid d f s')
  show ?case by (rule enqueue_viewD [OF 3])
next
  case (4 s i sid d f s' t)
  then show ?case using enqueue_viewD(3) [OF 4(1-4)] by auto
next
  case (9 s sid ids pin)
  show ?case
  proof (cases "fst (reorder sid ids pin s) = Applied")
    case True
    then have r: "reorder sid ids pin s = (Applied, snd (reorder sid ids pin s))" by (metis prod.collapse)
    note m = reorder_Applied(1) [OF r]
    have "mset (map item_id (queue_of (snd (reorder sid ids pin s)) sid)) = mset (map item_id (queue_of s sid))"
      by (simp add: m)
    then have "distinct (map item_id (queue_of (snd (reorder sid ids pin s)) sid))"
      using reorder_Applied(3) [OF r] mset_eq_imp_distinct_iff by blast
    moreover have "length (queue_of s sid) \<le> QUEUE_MAX_ITEMS_PER_SESSION"
      using 9 by (simp add: store_wf_def)
    ultimately show ?thesis
      using mset_eq_length [OF m] 9
      by (subst reorder_Applied(7) [OF r]) (simp add: store_wf_set_items)
  next
    case False
    then show ?thesis using 9 by (simp add: reorder_other)
  qed
next
  case (10 sid ids pin s t)
  then show ?case
    by (cases "fst (reorder sid ids pin s) = Applied")
       (metis prod.collapse reorder_Applied(1,5), simp add: reorder_other)
qed (simp_all add: queue_view store_wf_removeItem store_wf_takeAllExcept)

section \<open>Persistence lemmas\<close>

lemma loaded_entries_Some [simp]: "loaded_entries (map (\<lambda>(k, e). (k, Some e)) xs) = xs"
  by (induction xs) auto

lemma read_persisted:
  "0 \<le> revision st \<Longrightarrow>
   readQueueDoc (FileDoc (persisted st)) =
     DocLoaded (revision st) (map (\<lambda>(k, e). (k, Some e)) (nonEmptyEntries st))"
  by (simp add: persisted_def nonEmptyEntries_def)

lemma readd_sessions:
  "map_of (sessions (readd kv st)) =
     (if has_session st (fst kv) then map_of (sessions st) else (map_of (sessions st))(fst kv \<mapsto> snd kv))"
  by (auto simp: readd_def update_conv')

lemma fold_readd:
  "distinct (map fst kvs) \<Longrightarrow>
   map_of (sessions (fold readd kvs st)) k =
     (if has_session st k then map_of (sessions st) k else map_of kvs k)"
proof (induction kvs arbitrary: st)
  case Nil
  then show ?case by (auto simp: has_session_def)
next
  case (Cons kv kvs)
  then have "map_of kvs (fst kv) = None" by (auto simp: map_of_eq_None_iff)
  then show ?case using Cons by (cases kv) (auto simp: readd_sessions has_session_def)
qed

lemma map_of_split_empty:
  assumes "distinct (map fst ss)"
  shows "(if map_of (filter (\<lambda>(k, e). items e \<noteq> []) ss) k \<noteq> None
          then map_of (filter (\<lambda>(k, e). items e \<noteq> []) ss) k
          else map_of (filter (\<lambda>(k, e). items e = []) ss) k) = map_of ss k"
  using assms
proof (induction ss)
  case (Cons kv ss)
  have "map_of ss (fst kv) = None" using Cons.prems by (auto simp: map_of_eq_None_iff)
  then have "map_of (filter P ss) (fst kv) = None" for P
    by (auto simp: map_of_eq_None_iff)
  then show ?case using Cons by (cases kv) auto
qed simp

lemma fold_readd_rest:
  "revision (fold readd kvs st) = revision st \<and> writesDisabled (fold readd kvs st) = writesDisabled st"
  by (induction kvs arbitrary: st) (auto simp: readd_def)

section \<open>Properties\<close>

text \<open>A store with one queued item and one emptied session, for the witnesses.\<close>

definition sample_store :: "disk_file \<Rightarrow> nat \<Rightarrow> store" where
  "sample_store file pending =
     \<lparr>sessions = [(''s1'', \<lparr>directory = ''/w'', items = [sample_item ''a'' 1]\<rparr>),
                  (''s0'', \<lparr>directory = ''/v'', items = []\<rparr>)],
      revision = 3, writesDisabled = False, pendingWrites = pending, stampCounter = 0,
      disk = file, setAside = []\<rparr>"

abbreviation sample_item2 :: QueueItem where
  "sample_item2 \<equiv> sample_item ''b'' 2 \<lparr>item_id := ''q2''\<rparr>"

lemma sample_queue: "queue_of (sample_store file n) sid = (if sid = ''s1'' then [sample_item ''a'' 1] else [])"
  by (simp add: queue_of_def entryOf_def sample_store_def)

lemma sample_store_wf: "store_wf (sample_store file n)"
  by (simp add: store_wf_def sample_queue QUEUE_MAX_ITEMS_PER_SESSION_def) (simp add: sample_store_def)

text \<open>
  The trimming loop of \<open>enqueue\<close> returns exactly when at most twenty items carry
  the in-flight id, and it then drops the oldest items that are not in flight until twenty
  are left. In particular it always returns when the ids of a session are distinct.\<close>

theorem trim_loop_returns_iff:
  "(trimItems f 0 its \<noteq> None \<longleftrightarrow> pinned_count f its \<le> QUEUE_MAX_ITEMS_PER_SESSION) \<and>
   (\<forall>r. trimItems f 0 its = Some r \<longrightarrow>
      r = drop_unpinned f (length its - QUEUE_MAX_ITEMS_PER_SESSION) its \<and>
      length r \<le> QUEUE_MAX_ITEMS_PER_SESSION \<and> pinned_count f r = pinned_count f its)"
proof -
  have le: "pinned_count f r \<le> length r" for r by (rule length_filter_le)
  have "pinned_count f its \<le> QUEUE_MAX_ITEMS_PER_SESSION" if "trimItems f 0 its = Some r" for r
    using trimItems_keeps_pinned [OF that] le [of r] by linarith
  then have iff: "trimItems f 0 its \<noteq> None \<longleftrightarrow> pinned_count f its \<le> QUEUE_MAX_ITEMS_PER_SESSION"
    using trimItems_eq [of f its] by (metis not_Some_eq)
  have "r = drop_unpinned f (length its - QUEUE_MAX_ITEMS_PER_SESSION) its"
    if "trimItems f 0 its = Some r" for r
    using trimItems_eq [of f its] iff that by force
  with iff show ?thesis using trimItems_keeps_pinned by blast
qed

theorem trim_loop_returns_iff_witness:
  "trimItems (Some ''queued-7'') 0 (replicate 21 (sample_item ''a'' 1)) = None \<and>
   trimItems (Some ''queued-7'') 0 (sample_item ''a'' 1 # replicate 20 sample_item2) =
     Some (sample_item ''a'' 1 # replicate 19 sample_item2)"
proof
  have "pinned_count (Some ''queued-7'') (replicate 21 (sample_item ''a'' 1)) = 21"
    by (simp add: filter_replicate sample_item_def)
  then show "trimItems (Some ''queued-7'') 0 (replicate 21 (sample_item ''a'' 1)) = None"
    using trim_loop_returns_iff [of "Some ''queued-7''" "replicate 21 (sample_item ''a'' 1)"]
    by (simp add: QUEUE_MAX_ITEMS_PER_SESSION_def)
  let ?its = "sample_item ''a'' 1 # replicate 20 sample_item2"
  have "pinned_count (Some ''queued-7'') ?its = 1"
    by (simp add: filter_replicate sample_item_def)
  then obtain r where r: "trimItems (Some ''queued-7'') 0 ?its = Some r"
    using trim_loop_returns_iff [of "Some ''queued-7''" ?its]
    by (auto simp: QUEUE_MAX_ITEMS_PER_SESSION_def)
  moreover have "drop_unpinned (Some ''queued-7'') 1 ?its = sample_item ''a'' 1 # replicate 19 sample_item2"
    by (simp add: numeral_eq_Suc sample_item_def)
  ultimately show "trimItems (Some ''queued-7'') 0 ?its = Some (sample_item ''a'' 1 # replicate 19 sample_item2)"
    using trim_loop_returns_iff [of "Some ''queued-7''" ?its]
    by (simp add: QUEUE_MAX_ITEMS_PER_SESSION_def)
qed

text \<open>C40.
  Adding an item under a fresh id keeps the store well formed and returns. The
  session's queue ends with the new item, holds at most twenty items and still holds the
  item in flight; every session with an item in flight keeps its queue, and more than fifty
  sessions remain only if all the others have an item in flight.\<close>

theorem enqueue_keeps_invariant_and_pinned:
  assumes "store_wf st" and "item_id item \<notin> item_id ` set (queue_of st sid)"
    and "f sid \<noteq> Some (item_id item)"
  shows "\<exists>st'. enqueue sid dir item f st = Some st' \<and> store_wf st' \<and>
     queue_of st' sid \<noteq> [] \<and> last (queue_of st' sid) = item \<and>
     (\<forall>it \<in> set (queue_of st sid). Some (item_id it) = f sid \<longrightarrow> it \<in> set (queue_of st' sid)) \<and>
     (\<forall>t. t \<noteq> sid \<and> f t \<noteq> None \<longrightarrow> queue_of st' t = queue_of st t) \<and>
     revision st' = revision st + 1 \<and>
     (length (sessions st') \<le> QUEUE_MAX_SESSIONS \<or>
      (\<forall>kv \<in> set (sessions st'). fst kv = sid \<or> f (fst kv) \<noteq> None))"
proof -
  obtain st' where enq: "enqueue sid dir item f st = Some st'"
    using sq.add_total [OF assms(1,2)] by blast
  note v = enqueue_viewD [OF assms(1,2) enq]
  let ?n = "Suc (length (queue_of st sid)) - QUEUE_MAX_ITEMS_PER_SESSION"
  have "length (queue_of st sid) \<le> QUEUE_MAX_ITEMS_PER_SESSION"
    "pinned_count (f sid) (queue_of st sid) \<le> 1"
    using assms(1) distinct_pinned_count [of "queue_of st sid" "f sid"] by (auto simp: store_wf_def)
  then have "queue_of st' sid = drop_unpinned (f sid) ?n (queue_of st sid) @ [item]"
    unfolding v(2) queue_after_def
    by (cases "?n = 0") (auto intro!: last_drop_unpinned simp: QUEUE_MAX_ITEMS_PER_SESSION_def)
  moreover have "it \<in> set (queue_of st' sid)"
    if "it \<in> set (queue_of st sid)" "Some (item_id it) = f sid" for it
    using sq.add_keeps_pinned [OF assms(1,2) enq] that by blast
  moreover have "queue_of st' t = queue_of st t" if "t \<noteq> sid" "f t \<noteq> None" for t
    using v(3) [OF that(1)] that(2) by auto
  ultimately show ?thesis using enq v(1,4,5) by auto
qed

theorem enqueue_keeps_invariant_and_pinned_witness:
  "\<exists>st'. enqueue ''s1'' ''/w'' sample_item2 (\<lambda>s. Some ''queued-7'') (sample_store FileMissing 0) = Some st' \<and>
     store_wf st' \<and> last (queue_of st' ''s1'') = sample_item2 \<and> sample_item ''a'' 1 \<in> set (queue_of st' ''s1'')"
proof -
  have "item_id sample_item2 \<notin> item_id ` set (queue_of (sample_store FileMissing 0) ''s1'')"
    by (simp add: sample_queue sample_item_def)
  then show ?thesis
    using enqueue_keeps_invariant_and_pinned
      [OF sample_store_wf, of sample_item2 FileMissing 0 "''s1''" "\<lambda>s. Some ''queued-7''" "''/w''"]
    by (auto simp: sample_queue) (auto simp: sample_item_def)
qed

text \<open>
  Eviction takes the oldest sessions first: a session that was dropped is no younger
  than any evictable session that stayed, and neither the session being written nor one with
  an item in flight is ever dropped.\<close>

theorem eviction_is_oldest_first:
  assumes "distinct (map fst ss)"
    and "dropped \<in> set ss" "dropped \<notin> set (evictOldestSessions f p ss)"
  shows "fst dropped \<noteq> p \<and> f (fst dropped) = None \<and>
     (\<forall>kept \<in> set (evictOldestSessions f p ss).
        fst kept \<noteq> p \<and> f (fst kept) = None \<longrightarrow> age_key dropped \<le> age_key kept)"
proof -
  have "fst dropped \<noteq> p \<and> f (fst dropped) = None"
    using assms(2,3) evict_keeps [of dropped ss p f] by blast
  then show ?thesis using evict_oldest_first [OF assms(2,3,1)] by blast
qed

definition sample_sessions :: "(string \<times> QueueSessionEntry) list" where
  "sample_sessions = map (\<lambda>n. (show_nat n, \<lparr>directory = [], items = []\<rparr>)) [0..<51]"

lemma sample_sessions_distinct: "distinct (map fst sample_sessions)" "length sample_sessions = 51"
  by code_simp+

theorem eviction_is_oldest_first_witness:
  "\<exists>d \<in> set sample_sessions. d \<notin> set (evictOldestSessions (\<lambda>_. None) ''0'' sample_sessions) \<and> fst d \<noteq> ''0''"
proof -
  let ?ev = "evictOldestSessions (\<lambda>_. None) ''0'' sample_sessions"
  have "length ?ev \<le> 50 \<or> (\<forall>kv \<in> set ?ev. fst kv = ''0'')"
    using evict_bound [of "\<lambda>_. None" "''0''" sample_sessions] by (simp add: QUEUE_MAX_SESSIONS_def)
  moreover have "set sample_sessions \<subseteq> set ?ev \<Longrightarrow> 51 \<le> length ?ev"
    using sample_sessions_distinct
    by (metis card_length card_mono distinct_card distinct_map List.finite_set le_trans)
  moreover have "(''1'', \<lparr>directory = [], items = []\<rparr>) \<in> set sample_sessions"
    by code_simp
  ultimately obtain d where d: "d \<in> set sample_sessions" "d \<notin> set ?ev"
    by fastforce
  then show ?thesis
    using eviction_is_oldest_first [OF sample_sessions_distinct(1) d] by blast
qed

text \<open>
  \<open>reorder\<close> applies only permutations: the same items, in the order of the
  request, with the pinned item at the head; any other outcome leaves the store untouched.\<close>

theorem reorder_is_permutation:
  assumes "reorder sid ids pinned st = (res, st')"
  shows "(res = Applied \<longrightarrow>
       mset (queue_of st' sid) = mset (queue_of st sid) \<and> map item_id (queue_of st' sid) = ids \<and>
       (\<forall>p. pinned = Some p \<and> ids \<noteq> [] \<longrightarrow> hd ids = p) \<and>
       (\<forall>t. t \<noteq> sid \<longrightarrow> queue_of st' t = queue_of st t)) \<and>
     (res \<noteq> Applied \<longrightarrow> st' = st)"
  using reorder_Applied [of sid ids pinned st st'] reorder_other [of sid ids pinned st] assms
  by (cases res) auto

theorem reorder_is_permutation_witness:
  "reorder ''s1'' [''queued-7''] (Some ''queued-7'') (sample_store FileMissing 0) =
     (Applied, sample_store FileMissing 0) \<and>
   mset (queue_of (sample_store FileMissing 0) ''s1'') = {#sample_item ''a'' 1#}"
proof -
  have r: "reorder ''s1'' [''queued-7''] (Some ''queued-7'') (sample_store FileMissing 0) =
     (Applied, sample_store FileMissing 0)"
    by (simp add: reorder_def entryOf_def sample_store_def set_items_def by_id_def sample_item_def)
  then show ?thesis using reorder_is_permutation [OF r] by (simp add: sample_queue)
qed

text \<open>
  What a flush writes, a load reads back: the non-empty queues in order and the
  revision; a refresh under the lock after a flush changes no session's queue or directory,
  emptied ones included.\<close>

theorem flush_then_refresh_is_identity:
  assumes "0 < pendingWrites st" "0 \<le> revision st" "distinct (map fst (sessions st))"
  shows "fst (load rn (flushWrites True st)) = LLoaded \<and>
     sessions (snd (load rn (flushWrites True st))) = nonEmptyEntries st \<and>
     revision (snd (load rn (flushWrites True st))) = revision st \<and>
     (\<forall>sid. entryOf (snd (refreshPreservingEmpty rn (flushWrites True st))) sid = entryOf st sid) \<and>
     revision (snd (refreshPreservingEmpty rn (flushWrites True st))) = revision st"
proof -
  let ?fl = "flushWrites True st"
  have rd: "readQueueDoc (disk ?fl) = DocLoaded (revision st) (map (\<lambda>(k, e). (k, Some e)) (nonEmptyEntries st))"
    using assms(1,2) by (simp add: flushWrites_def writeNow_def read_persisted del: readQueueDoc.simps)
  have ss: "sessions ?fl = sessions st" by (simp add: flushWrites_def writeNow_def)
  have ld: "load rn ?fl = (LLoaded, ?fl\<lparr>writesDisabled := False, sessions := nonEmptyEntries st, revision := revision st\<rparr>)"
    by (simp add: load_def rd)
  have "distinct (map fst (filter (\<lambda>(k, e). items e = []) (sessions st)))"
    using assms(3) by (metis distinct_map_filter)
  then have "entryOf (snd (refreshPreservingEmpty rn ?fl)) sid = entryOf st sid" for sid
    using map_of_split_empty [OF assms(3), of sid]
    by (auto simp: refreshPreservingEmpty_def ld entryOf_def ss fold_readd has_session_def
        nonEmptyEntries_def Let_def split: if_splits)
  then show ?thesis by (simp add: ld refreshPreservingEmpty_def fold_readd_rest Let_def)
qed

theorem flush_then_refresh_is_identity_witness:
  "fst (load True (flushWrites True (sample_store FileMissing 1))) = LLoaded \<and>
   directoryOf (snd (refreshPreservingEmpty True (flushWrites True (sample_store FileMissing 1)))) ''s0'' = Some ''/v''"
proof -
  have h: "0 < pendingWrites (sample_store FileMissing 1)" "0 \<le> revision (sample_store FileMissing 1)"
    "distinct (map fst (sessions (sample_store FileMissing 1)))"
    by (simp_all add: sample_store_def)
  have "entryOf (sample_store FileMissing 1) ''s0'' = Some \<lparr>directory = ''/v'', items = []\<rparr>"
    by (simp add: sample_store_def entryOf_def)
  then show ?thesis
    using flush_then_refresh_is_identity [OF h, of True] by (simp add: directoryOf_def)
qed

text \<open>
  An unreadable file never turns into an empty queue: a hard read failure keeps the
  whole memory, disables writes, and a mutation after it advances the revision and
  leaves the file alone.\<close>

theorem hard_failure_keeps_memory_and_file:
  assumes "disk st = FileUnreadable" "pendingWrites st = 0"
  shows "load rn st = (LDisabled, st\<lparr>writesDisabled := True\<rparr>) \<and>
     disk (flushWrites wr (commit (snd (load rn st)))) = FileUnreadable \<and>
     sessions (flushWrites wr (commit (snd (load rn st)))) = sessions st \<and>
     revision (flushWrites wr (commit (snd (load rn st)))) = revision st + 1"
  using assms
  by (simp add: load_def commit_def scheduleWrite_def flushWrites_def)

theorem hard_failure_keeps_memory_and_file_witness:
  "disk (flushWrites True (commit (snd (load True (sample_store FileUnreadable 0))))) = FileUnreadable"
proof -
  have h: "disk (sample_store FileUnreadable 0) = FileUnreadable" "pendingWrites (sample_store FileUnreadable 0) = 0"
    by (simp_all add: sample_store_def)
  show ?thesis using hard_failure_keeps_memory_and_file [OF h, of True True] by blast
qed

text \<open>
  A malformed file is set aside before the empty start when the rename succeeds: its
  content is kept among the files set aside whatever is written later. When the rename fails
  the next write replaces it.\<close>

theorem malformed_file_set_aside:
  assumes "readQueueDoc (disk st) = DocMalformed" "\<not> writesDisabled st"
  shows "disk st \<in> set (setAside (flushWrites wr (commit (snd (load True st))))) \<and>
     disk (snd (load True st)) = FileMissing \<and>
     setAside (flushWrites True (commit (snd (load False st)))) = setAside st \<and>
     disk (flushWrites True (commit (snd (load False st)))) \<noteq> disk st"
proof -
  have nm: "disk st \<noteq> FileMissing" using assms(1) by auto
  have "readQueueDoc (FileDoc (persisted s)) \<noteq> DocMalformed" if "revision s = 1" for s
    using that by (simp add: read_persisted del: readQueueDoc.simps)
  then have new: "FileDoc (persisted s) \<noteq> disk st" if "revision s = 1" for s
    using assms(1) that by metis
  show ?thesis
    using assms nm new
    by (auto simp: load_def quarantineCorruptFile_def commit_def scheduleWrite_def flushWrites_def writeNow_def)
qed

theorem malformed_file_set_aside_witness:
  "FileNotJson ''{'' \<in> set (setAside (flushWrites True (commit (snd (load True (sample_store (FileNotJson ''{'') 0))))))"
proof -
  have h: "readQueueDoc (disk (sample_store (FileNotJson ''{'') 0)) = DocMalformed"
    "\<not> writesDisabled (sample_store (FileNotJson ''{'') 0)" "disk (sample_store (FileNotJson ''{'') 0) = FileNotJson ''{''"
    by (simp_all add: sample_store_def)
  show ?thesis using malformed_file_set_aside [OF h(1,2), of True] h(3) by metis
qed

end
