(* ===== verification/Queue_Claims.thy ===== *)
theory Queue_Claims
  imports Prelude
begin

text \<open>
  Cross-process dispatch claims (\<open>server/queue/queue-dispatch-claims.ts\<close>): one file per
  session says which process is sending which queue head. The files are a map from paths;
  the clock, the process liveness test, the random token, the process id and the SHA-256
  digest are arguments. Creating a claim file and writing its document is one step here;
  a file another process has created but not written is \<open>ClaimPartial\<close>. Removing a file
  succeeds.
\<close>

section \<open>Data\<close>

record DispatchClaimDocument =
  doc_pid :: int
  doc_token :: string
  doc_itemId :: string
  doc_at :: int

datatype claim_file =
    ClaimDoc DispatchClaimDocument
  | ClaimPartial int \<comment> \<open>no valid document; the modification time\<close>

type_synonym claim_fs = "string \<rightharpoonup> claim_file"

record DispatchClaim =
  claim_path :: string
  claim_token :: string

text \<open>The claims object of one process; \<open>released\<close> collects the tokens whose
  \<open>release()\<close> has run.\<close>

record QueueDispatchClaims =
  queueFile :: string
  claims :: "(string \<times> DispatchClaim) list"
  released :: "string list"

record claim_env =
  env_now :: int
  env_alive :: "int \<Rightarrow> bool"
  env_digest :: "string \<Rightarrow> string"
  env_pid :: int

section \<open>Operations\<close>

definition readDispatchClaim :: "claim_env \<Rightarrow> string \<Rightarrow> claim_fs \<Rightarrow> DispatchClaimDocument option \<times> claim_fs" where
  "readDispatchClaim env path fs =
     (case fs path of
        None \<Rightarrow> (None, fs)
      | Some (ClaimDoc d) \<Rightarrow>
          if env_alive env (doc_pid d) then (Some d, fs) else (None, fs(path := None))
      | Some (ClaimPartial mtime) \<Rightarrow>
          (None, if env_now env - mtime > 5000 then fs(path := None) else fs))"

definition pathFor :: "claim_env \<Rightarrow> QueueDispatchClaims \<Rightarrow> string \<Rightarrow> string" where
  "pathFor env c sid = queueFile c @ ''.dispatch-'' @ env_digest env sid @ ''.claim''"

definition inFlightIdOf ::
  "claim_env \<Rightarrow> QueueDispatchClaims \<Rightarrow> (string \<Rightarrow> string option) \<Rightarrow> string \<Rightarrow> string option \<Rightarrow> claim_fs \<Rightarrow> string option \<times> claim_fs"
where
  "inFlightIdOf env c currentHeadId sid localSendingId fs =
     (case localSendingId of
        Some (x # xs) \<Rightarrow> (Some (x # xs), fs)
      | _ \<Rightarrow>
          (let path = pathFor env c sid; r = readDispatchClaim env path fs in
           case fst r of
             Some d \<Rightarrow> (Some (doc_itemId d), snd r)
           | None \<Rightarrow> (if snd r path \<noteq> None then currentHeadId sid else None, snd r)))"

definition acquire ::
  "claim_env \<Rightarrow> string \<Rightarrow> QueueDispatchClaims \<Rightarrow> string \<Rightarrow> string \<Rightarrow> claim_fs \<Rightarrow> DispatchClaim option \<times> claim_fs"
where
  "acquire env token c sid iid fs =
     (let path = pathFor env c sid;
          doc = ClaimDoc \<lparr>doc_pid = env_pid env, doc_token = token, doc_itemId = iid, doc_at = env_now env\<rparr>;
          created = (\<lambda>g. (Some \<lparr>claim_path = path, claim_token = token\<rparr>, g(path \<mapsto> doc)))
      in if fs path = None then created fs
         else (let r = readDispatchClaim env path fs in
               if fst r \<noteq> None then (None, snd r)
               else if snd r path = None then created (snd r) else (None, snd r)))"

text \<open>The closure \<open>release()\<close> of a claim.\<close>

definition release_claim ::
  "claim_env \<Rightarrow> DispatchClaim \<Rightarrow> QueueDispatchClaims \<times> claim_fs \<Rightarrow> QueueDispatchClaims \<times> claim_fs"
where
  "release_claim env cl s =
     (if claim_token cl \<in> set (released (fst s)) then s
      else (let c = (fst s)\<lparr>released := claim_token cl # released (fst s)\<rparr>;
                r = readDispatchClaim env (claim_path cl) (snd s)
            in (c, if map_option doc_token (fst r) = Some (claim_token cl)
                   then (snd r)(claim_path cl := None) else snd r)))"

definition get_claim :: "QueueDispatchClaims \<Rightarrow> string \<Rightarrow> DispatchClaim option" where
  "get_claim c sid = map_of (claims c) sid"

definition set_claim :: "string \<Rightarrow> DispatchClaim \<Rightarrow> QueueDispatchClaims \<Rightarrow> QueueDispatchClaims" where
  "set_claim sid cl c = c\<lparr>claims := AList.update sid cl (claims c)\<rparr>"

definition owns :: "QueueDispatchClaims \<Rightarrow> string \<Rightarrow> DispatchClaim option \<Rightarrow> bool" where
  "owns c sid cl \<longleftrightarrow> cl \<noteq> None \<and> get_claim c sid = cl"

definition release ::
  "claim_env \<Rightarrow> string \<Rightarrow> DispatchClaim option \<Rightarrow> QueueDispatchClaims \<times> claim_fs \<Rightarrow> QueueDispatchClaims \<times> claim_fs"
where
  "release env sid expected s =
     (case get_claim (fst s) sid of
        Some cur \<Rightarrow>
          if expected = None \<or> expected = Some cur
          then release_claim env cur ((fst s)\<lparr>claims := AList.delete sid (claims (fst s))\<rparr>, snd s)
          else (case expected of Some e \<Rightarrow> release_claim env e s | None \<Rightarrow> s)
      | None \<Rightarrow> (case expected of Some e \<Rightarrow> release_claim env e s | None \<Rightarrow> s))"

definition releaseAll :: "claim_env \<Rightarrow> QueueDispatchClaims \<times> claim_fs \<Rightarrow> QueueDispatchClaims \<times> claim_fs" where
  "releaseAll env s = fold (\<lambda>(sid, cl) t. release env sid (Some cl) t) (claims (fst s)) s"

section \<open>The view of a claim file\<close>

text \<open>What every process makes of a file: nothing (absent, or stale and reclaimed by the next
  reader), a live document, or a publication in progress.\<close>

datatype claim_view = Free | Owned DispatchClaimDocument | Publishing

definition view :: "claim_env \<Rightarrow> claim_fs \<Rightarrow> string \<Rightarrow> claim_view" where
  "view env fs path =
     (case fs path of
        None \<Rightarrow> Free
      | Some (ClaimDoc d) \<Rightarrow> if env_alive env (doc_pid d) then Owned d else Free
      | Some (ClaimPartial mtime) \<Rightarrow> if env_now env - mtime > 5000 then Free else Publishing)"

named_theorems claim_simps \<open>the operations seen through the view\<close>

lemma read_fst [claim_simps]:
  "fst (readDispatchClaim env path fs) = (case view env fs path of Owned d \<Rightarrow> Some d | _ \<Rightarrow> None)"
  by (auto simp: readDispatchClaim_def view_def split: option.splits claim_file.splits)

lemma read_view [claim_simps]: "view env (snd (readDispatchClaim env path fs)) = view env fs"
  by (auto simp: readDispatchClaim_def view_def fun_eq_iff split: option.splits claim_file.splits)

lemma read_exists [claim_simps]:
  "snd (readDispatchClaim env path fs) path = None \<longleftrightarrow> view env fs path = Free"
  by (auto simp: readDispatchClaim_def view_def split: option.splits claim_file.splits)

lemma read_other: "p \<noteq> path \<Longrightarrow> snd (readDispatchClaim env path fs) p = fs p"
  by (auto simp: readDispatchClaim_def split: option.splits claim_file.splits)

lemma read_owned:
  "view env fs path = Owned d \<Longrightarrow> snd (readDispatchClaim env path fs) = fs"
  by (auto simp: readDispatchClaim_def view_def split: option.splits claim_file.splits if_splits)

lemma view_Owned_file: "view env fs path = Owned d \<Longrightarrow> fs path = Some (ClaimDoc d)"
  by (auto simp: view_def split: option.splits claim_file.splits if_splits)

lemma view_upd: "view env (fs(p := x)) q = (if q = p then view env (\<lambda>_. x) p else view env fs q)"
  by (simp add: view_def)

text \<open>The two attempts of \<open>acquire\<close> are one: read the file, reclaim it when stale, and create
  it when it is then absent.\<close>

lemma acquire_eq:
  "acquire env token c sid iid fs =
     (let path = pathFor env c sid; g = snd (readDispatchClaim env path fs) in
      if view env fs path = Free
      then (Some \<lparr>claim_path = path, claim_token = token\<rparr>,
            g(path \<mapsto> ClaimDoc \<lparr>doc_pid = env_pid env, doc_token = token, doc_itemId = iid, doc_at = env_now env\<rparr>))
      else (None, g))"
proof (cases "fs (pathFor env c sid)")
  case None
  then show ?thesis by (simp add: acquire_def Let_def readDispatchClaim_def view_def)
next
  case (Some f)
  then show ?thesis
    by (auto simp: acquire_def Let_def claim_simps split: claim_view.splits)
qed

lemma view_acquire:
  assumes "env_alive env (env_pid env)"
  shows "view env (snd (acquire env token c sid iid fs)) =
    (if view env fs (pathFor env c sid) = Free
     then (view env fs)(pathFor env c sid :=
            Owned \<lparr>doc_pid = env_pid env, doc_token = token, doc_itemId = iid, doc_at = env_now env\<rparr>)
     else view env fs)"
proof -
  have new: "view env (\<lambda>_. Some (ClaimDoc d)) p = Owned d" if "doc_pid d = env_pid env" for d p
    using assms that by (simp add: view_def)
  show ?thesis
    by (auto simp: acquire_eq Let_def claim_simps view_upd new fun_eq_iff)
qed

lemma fst_acquire:
  "fst (acquire env token c sid iid fs) =
     (if view env fs (pathFor env c sid) = Free
      then Some \<lparr>claim_path = pathFor env c sid, claim_token = token\<rparr> else None)"
  by (simp add: acquire_eq Let_def)

lemma inFlight_view:
  "fst (inFlightIdOf env c hd_of sid None fs) =
     (case view env fs (pathFor env c sid) of
        Owned d \<Rightarrow> Some (doc_itemId d) | Publishing \<Rightarrow> hd_of sid | Free \<Rightarrow> None)"
  by (simp add: inFlightIdOf_def Let_def claim_simps split: claim_view.splits)

lemma inFlight_files: "view env (snd (inFlightIdOf env c hd_of sid loc fs)) = view env fs"
  by (auto simp: inFlightIdOf_def Let_def claim_simps split: option.splits list.splits)

section \<open>Several processes over one directory\<close>

record claim_sys =
  files :: claim_fs
  procs :: "int \<Rightarrow> QueueDispatchClaims"
  alive :: "int \<Rightarrow> bool"
  clock :: int
  used_tokens :: "string set"

definition env_of :: "(string \<Rightarrow> string) \<Rightarrow> claim_sys \<Rightarrow> int \<Rightarrow> claim_env" where
  "env_of digest s p = \<lparr>env_now = clock s, env_alive = alive s, env_digest = digest, env_pid = p\<rparr>"

definition init_claims :: "string \<Rightarrow> QueueDispatchClaims" where
  "init_claims qf = \<lparr>queueFile = qf, claims = [], released = []\<rparr>"

text \<open>Any files may lie around when the processes start.\<close>

definition init_sys :: "string \<Rightarrow> claim_fs \<Rightarrow> int set \<Rightarrow> claim_sys" where
  "init_sys qf fs ps =
     \<lparr>files = fs, procs = (\<lambda>_. init_claims qf), alive = (\<lambda>p. p \<in> ps), clock = 0, used_tokens = {}\<rparr>"

inductive claim_step :: "(string \<Rightarrow> string) \<Rightarrow> claim_sys \<Rightarrow> claim_sys \<Rightarrow> bool" for digest where
  acquire_ok: "\<lbrakk>alive s p; token \<notin> used_tokens s; get_claim (procs s p) sid = None;
      acquire (env_of digest s p) token (procs s p) sid iid (files s) = (Some cl, fs')\<rbrakk> \<Longrightarrow>
    claim_step digest s (s\<lparr>files := fs', procs := (procs s)(p := set_claim sid cl (procs s p)),
                           used_tokens := insert token (used_tokens s)\<rparr>)"
| acquire_busy: "\<lbrakk>alive s p; token \<notin> used_tokens s;
      acquire (env_of digest s p) token (procs s p) sid iid (files s) = (None, fs')\<rbrakk> \<Longrightarrow>
    claim_step digest s (s\<lparr>files := fs'\<rparr>)"
| release_held: "\<lbrakk>alive s p; release (env_of digest s p) sid None (procs s p, files s) = (c', fs')\<rbrakk> \<Longrightarrow>
    claim_step digest s (s\<lparr>files := fs', procs := (procs s)(p := c')\<rparr>)"
| look: "\<lbrakk>alive s p; inFlightIdOf (env_of digest s p) (procs s p) hd_of sid loc (files s) = (r, fs')\<rbrakk> \<Longrightarrow>
    claim_step digest s (s\<lparr>files := fs'\<rparr>)"
| die: "claim_step digest s (s\<lparr>alive := (alive s)(p := False), procs := (procs s)(p := init_claims (queueFile (procs s p)))\<rparr>)"
| pass: "0 \<le> d \<Longrightarrow> claim_step digest s (s\<lparr>clock := clock s + d\<rparr>)"

inductive claim_reach :: "(string \<Rightarrow> string) \<Rightarrow> claim_sys \<Rightarrow> claim_sys \<Rightarrow> bool" for digest s0 where
  start: "claim_reach digest s0 s0"
| step: "claim_reach digest s0 s \<Longrightarrow> claim_step digest s t \<Longrightarrow> claim_reach digest s0 t"

text \<open>A claim a live process holds is the one its file records.\<close>

definition holds_file :: "(string \<Rightarrow> string) \<Rightarrow> claim_sys \<Rightarrow> int \<Rightarrow> string \<Rightarrow> DispatchClaim \<Rightarrow> bool" where
  "holds_file digest s p sid cl \<longleftrightarrow>
     claim_path cl = pathFor (env_of digest s p) (procs s p) sid \<and>
     claim_token cl \<notin> set (released (procs s p)) \<and>
     (\<exists>d. files s (claim_path cl) = Some (ClaimDoc d) \<and> doc_pid d = p \<and> doc_token d = claim_token cl)"

definition claim_inv :: "(string \<Rightarrow> string) \<Rightarrow> claim_sys \<Rightarrow> bool" where
  "claim_inv digest s \<longleftrightarrow>
     (\<forall>p sid cl. get_claim (procs s p) sid = Some cl \<longrightarrow>
        alive s p \<and> holds_file digest s p sid cl \<and> claim_token cl \<in> used_tokens s) \<and>
     (\<forall>p sid sid' cl cl'. get_claim (procs s p) sid = Some cl \<and> get_claim (procs s p) sid' = Some cl' \<and>
        claim_token cl = claim_token cl' \<longrightarrow> sid = sid') \<and>
     (\<forall>p. set (released (procs s p)) \<subseteq> used_tokens s) \<and>
     (\<exists>qf. \<forall>p. queueFile (procs s p) = qf)"

lemma claim_invI:
  assumes "\<And>p sid cl. get_claim (procs s p) sid = Some cl \<Longrightarrow>
      alive s p \<and> holds_file digest s p sid cl \<and> claim_token cl \<in> used_tokens s"
    and "\<And>p sid sid' cl cl'. \<lbrakk>get_claim (procs s p) sid = Some cl; get_claim (procs s p) sid' = Some cl';
      claim_token cl = claim_token cl'\<rbrakk> \<Longrightarrow> sid = sid'"
    and "\<And>p. set (released (procs s p)) \<subseteq> used_tokens s"
    and "\<exists>qf. \<forall>p. queueFile (procs s p) = qf"
  shows "claim_inv digest s"
  using assms unfolding claim_inv_def by blast

lemma claim_invD:
  assumes "claim_inv digest s"
  shows "get_claim (procs s p) sid = Some cl \<Longrightarrow> alive s p"
    and "get_claim (procs s p) sid = Some cl \<Longrightarrow> holds_file digest s p sid cl"
    and "get_claim (procs s p) sid = Some cl \<Longrightarrow> claim_token cl \<in> used_tokens s"
    and "\<lbrakk>get_claim (procs s p) sid = Some cl; get_claim (procs s p) sid' = Some cl';
      claim_token cl = claim_token cl'\<rbrakk> \<Longrightarrow> sid = sid'"
    and "set (released (procs s p)) \<subseteq> used_tokens s"
    and "queueFile (procs s p) = queueFile (procs s q)"
  using assms unfolding claim_inv_def by (blast, blast, blast, blast, blast, metis)

text \<open>Two claims on one file belong to one process and one session.\<close>

lemma holder_unique:
  assumes "claim_inv digest s" "get_claim (procs s p) sid = Some cl" "get_claim (procs s q) sid' = Some cl'"
    and "claim_path cl = claim_path cl'"
  shows "p = q \<and> sid = sid'"
proof -
  from assms have "holds_file digest s p sid cl" "holds_file digest s q sid' cl'"
    unfolding claim_inv_def by blast+
  then have "p = q" "claim_token cl = claim_token cl'"
    using assms(4) by (auto simp: holds_file_def)
  with assms show ?thesis unfolding claim_inv_def by blast
qed

lemma pathFor_env_of [simp]:
  "pathFor (env_of digest s p) c sid = queueFile c @ ''.dispatch-'' @ digest sid @ ''.claim''"
  by (simp add: pathFor_def env_of_def)

lemma env_of_sel [simp]:
  "env_pid (env_of digest s p) = p" "env_alive (env_of digest s p) = alive s"
  "env_now (env_of digest s p) = clock s"
  by (simp_all add: env_of_def)

lemma held_view:
  assumes "claim_inv digest s" "get_claim (procs s q) sid = Some cl"
  shows "\<exists>d. view (env_of digest s p) (files s) (claim_path cl) = Owned d \<and>
     doc_pid d = q \<and> doc_token d = claim_token cl \<and> files s (claim_path cl) = Some (ClaimDoc d)"
  using assms by (auto simp: claim_inv_def holds_file_def view_def) fastforce

text \<open>Files that agree at the path of every held claim keep the invariant.\<close>

lemma claim_inv_files:
  assumes "claim_inv digest s"
    and "\<And>p sid cl. get_claim (procs s p) sid = Some cl \<Longrightarrow> fs' (claim_path cl) = files s (claim_path cl)"
  shows "claim_inv digest (s\<lparr>files := fs'\<rparr>)"
  using assms unfolding claim_inv_def holds_file_def
  by (auto simp: env_of_def pathFor_def) metis+

lemma read_held:
  assumes "claim_inv digest s" "get_claim (procs s q) sid = Some cl"
  shows "snd (readDispatchClaim (env_of digest s p) path (files s)) (claim_path cl) = files s (claim_path cl)"
proof (cases "path = claim_path cl")
  case True
  then show ?thesis using held_view [OF assms, of p] by (auto simp: read_owned)
next
  case False
  then show ?thesis by (simp add: read_other)
qed

lemma get_set_claim [simp]:
  "get_claim (set_claim sid cl c) sid' = (if sid' = sid then Some cl else get_claim c sid')"
  by (simp add: get_claim_def set_claim_def update_conv)

lemma set_claim_sel [simp]:
  "released (set_claim sid cl c) = released c" "queueFile (set_claim sid cl c) = queueFile c"
  by (simp_all add: set_claim_def)

lemma inv_acquire:
  assumes inv: "claim_inv digest s" and al: "alive s p" and fresh: "token \<notin> used_tokens s"
    and acq: "acquire (env_of digest s p) token (procs s p) sid iid (files s) = (Some cl, fs')"
  shows "claim_inv digest (s\<lparr>files := fs', procs := (procs s)(p := set_claim sid cl (procs s p)),
                              used_tokens := insert token (used_tokens s)\<rparr>)"
    (is "claim_inv digest ?t")
proof -
  let ?path = "pathFor (env_of digest s p) (procs s p) sid"
  let ?g = "snd (readDispatchClaim (env_of digest s p) ?path (files s))"
  have free: "view (env_of digest s p) (files s) ?path = Free"
    and cl: "cl = \<lparr>claim_path = ?path, claim_token = token\<rparr>"
    and fs': "fs' = ?g(?path \<mapsto> ClaimDoc \<lparr>doc_pid = p, doc_token = token, doc_itemId = iid, doc_at = clock s\<rparr>)"
    using acq by (auto simp: acquire_eq Let_def split: if_splits)
  have old: "claim_path cl' \<noteq> ?path" "fs' (claim_path cl') = files s (claim_path cl')"
    if "get_claim (procs s q) sid' = Some cl'" for q sid' cl'
  proof -
    show ne: "claim_path cl' \<noteq> ?path" using held_view [OF inv that, of p] free by auto
    show "fs' (claim_path cl') = files s (claim_path cl')"
      using read_held [OF inv that, of p ?path] ne by (simp add: fs')
  qed
  have held: "get_claim (procs ?t q) sid' = Some cl' \<longleftrightarrow>
      (if q = p \<and> sid' = sid then cl' = cl else get_claim (procs s q) sid' = Some cl')" for q sid' cl'
    by auto
  have h: "holds_file digest ?t q sid' cl'" if "get_claim (procs ?t q) sid' = Some cl'" for q sid' cl'
  proof (cases "q = p \<and> sid' = sid")
    case True
    then have "cl' = cl" using that by simp
    moreover have "token \<notin> set (released (procs s p))" using inv fresh by (auto simp: claim_inv_def)
    ultimately show ?thesis using True by (simp add: holds_file_def cl fs')
  next
    case False
    then have was: "get_claim (procs s q) sid' = Some cl'" using that held by simp
    then have "holds_file digest s q sid' cl'" using inv by (auto simp: claim_inv_def)
    then show ?thesis using old(2) [OF was] by (auto simp: holds_file_def)
  qed
  show ?thesis
  proof (rule claim_invI)
    show "alive ?t q \<and> holds_file digest ?t q sid' cl' \<and> claim_token cl' \<in> used_tokens ?t"
      if "get_claim (procs ?t q) sid' = Some cl'" for q sid' cl'
      using h [OF that] that claim_invD(1,3) [OF inv] al by (auto simp: cl split: if_splits)
    show "sid' = sid''" if "get_claim (procs ?t q) sid' = Some c1" "get_claim (procs ?t q) sid'' = Some c2"
        "claim_token c1 = claim_token c2" for q sid' sid'' c1 c2
      using that claim_invD(3,4) [OF inv] fresh by (auto simp: cl split: if_splits)
    show "set (released (procs ?t q)) \<subseteq> used_tokens ?t" for q
      using claim_invD(5) [OF inv] by auto
    show "\<exists>qf. \<forall>q. queueFile (procs ?t q) = qf"
      using claim_invD(6) [OF inv] by (intro exI [of _ "queueFile (procs s p)"]) auto
  qed
qed

lemma release_claim_eq:
  "release_claim env cl (c, fs) =
     (if claim_token cl \<in> set (released c) then (c, fs)
      else (c\<lparr>released := claim_token cl # released c\<rparr>,
            case view env fs (claim_path cl) of
              Owned d \<Rightarrow> if doc_token d = claim_token cl then fs(claim_path cl := None) else fs
            | _ \<Rightarrow> snd (readDispatchClaim env (claim_path cl) fs)))"
  by (auto simp: release_claim_def Let_def claim_simps read_owned split: claim_view.splits)

lemma inv_claim_release:
  assumes inv: "claim_inv digest s" and al: "alive s p"
    and rel: "release (env_of digest s p) sid None (procs s p, files s) = (c', fs')"
  shows "claim_inv digest (s\<lparr>files := fs', procs := (procs s)(p := c')\<rparr>)" (is "claim_inv digest ?t")
proof (cases "get_claim (procs s p) sid")
  case None
  then have "c' = procs s p" "fs' = files s" using rel by (simp_all add: release_def)
  then show ?thesis using inv by simp
next
  case (Some cl)
  obtain d where d: "view (env_of digest s p) (files s) (claim_path cl) = Owned d" "doc_token d = claim_token cl"
    using held_view [OF inv Some, of p] by blast
  have "claim_token cl \<notin> set (released (procs s p))"
    using claim_invD(2) [OF inv Some] by (simp add: holds_file_def)
  then have c': "c' = (procs s p)\<lparr>claims := AList.delete sid (claims (procs s p)), released := claim_token cl # released (procs s p)\<rparr>"
    and fs': "fs' = (files s)(claim_path cl := None)"
    using rel Some d by (auto simp: release_def release_claim_eq)
  have was: "get_claim (procs s q) sid' = Some cl' \<and> (q = p \<longrightarrow> sid' \<noteq> sid)"
    if "get_claim (procs ?t q) sid' = Some cl'" for q sid' cl'
    using that by (auto simp: c' get_claim_def AList.delete_conv' split: if_splits)
  have keep: "claim_path cl' \<noteq> claim_path cl"
    if "get_claim (procs ?t q) sid' = Some cl'" for q sid' cl'
    using holder_unique [OF inv Some, of q sid' cl'] was [OF that] by auto
  have relt: "claim_token cl' \<notin> set (released (procs ?t q))"
    if "get_claim (procs ?t q) sid' = Some cl'" for q sid' cl'
    using was [OF that] claim_invD(2) [OF inv] claim_invD(4) [OF inv Some] by (auto simp: c' holds_file_def)
  show ?thesis
  proof (rule claim_invI)
    show "alive ?t q \<and> holds_file digest ?t q sid' cl' \<and> claim_token cl' \<in> used_tokens ?t"
      if "get_claim (procs ?t q) sid' = Some cl'" for q sid' cl'
      using was [OF that] keep [OF that] relt [OF that] claim_invD(1,2,3) [OF inv, of q sid' cl']
      by (auto simp: holds_file_def fs') (auto simp: c')
    show "sid' = sid''" if "get_claim (procs ?t q) sid' = Some c1" "get_claim (procs ?t q) sid'' = Some c2"
        "claim_token c1 = claim_token c2" for q sid' sid'' c1 c2
      using was [OF that(1)] was [OF that(2)] that(3) claim_invD(4) [OF inv] by blast
    show "set (released (procs ?t q)) \<subseteq> used_tokens ?t" for q
      using claim_invD(5) [OF inv] claim_invD(3) [OF inv Some] by (auto simp: c')
    show "\<exists>qf. \<forall>q. queueFile (procs ?t q) = qf"
      using claim_invD(6) [OF inv] by (intro exI [of _ "queueFile (procs s p)"]) (auto simp: c')
  qed
qed

lemma inv_step: "claim_step digest s t \<Longrightarrow> claim_inv digest s \<Longrightarrow> claim_inv digest t"
proof (induction rule: claim_step.induct)
  case (acquire_ok s p token sid iid cl fs')
  then show ?case by (intro inv_acquire)
next
  case (acquire_busy s p token sid iid fs')
  then show ?case
    by (intro claim_inv_files) (auto simp: acquire_eq Let_def read_held split: if_splits)
next
  case (release_held s p sid c' fs')
  then show ?case by (intro inv_claim_release)
next
  case (look s p hd_of sid loc r fs')
  then show ?case
    by (intro claim_inv_files)
       (auto simp: inFlightIdOf_def Let_def read_held split: option.splits list.splits)
next
  case (die s p)
  have none: "get_claim (init_claims qf) sid = None" for qf sid
    by (simp add: init_claims_def get_claim_def)
  show ?case
  proof (rule claim_invI)
    fix q sid cl
    let ?t = "s\<lparr>alive := (alive s)(p := False), procs := (procs s)(p := init_claims (queueFile (procs s p)))\<rparr>"
    assume "get_claim (procs ?t q) sid = Some cl"
    then have "q \<noteq> p" "get_claim (procs s q) sid = Some cl" by (auto simp: none split: if_splits)
    then show "alive ?t q \<and> holds_file digest ?t q sid cl \<and> claim_token cl \<in> used_tokens ?t"
      using claim_invD(1-3) [OF die, of q sid cl] by (auto simp: holds_file_def)
  qed (use claim_invD(4,5) [OF die] claim_invD(6) [OF die, of _ p] in
        \<open>auto simp: none init_claims_def get_claim_def split: if_splits\<close>)
next
  case (pass d s)
  have "holds_file digest (s\<lparr>clock := clock s + d\<rparr>) = holds_file digest s"
    by (simp add: holds_file_def fun_eq_iff)
  then show ?case using pass by (simp add: claim_inv_def)
qed

lemma inv_init: "claim_inv digest (init_sys qf fs ps)"
  by (simp add: claim_inv_def init_sys_def init_claims_def get_claim_def)

lemma inv_reach: "claim_reach digest (init_sys qf fs ps) s \<Longrightarrow> claim_inv digest s"
  by (induction rule: claim_reach.induct) (auto intro: inv_init inv_step)

section \<open>Properties\<close>


abbreviation two_procs :: claim_sys where
  "two_procs \<equiv> init_sys ''q'' Map.empty {1, 2}"

definition one_held :: claim_sys where
  "one_held = two_procs\<lparr>
     files := [''q.dispatch-s.claim'' \<mapsto>
       ClaimDoc \<lparr>doc_pid = 1, doc_token = ''t'', doc_itemId = ''i'', doc_at = 0\<rparr>],
     procs := (procs two_procs)(1 := set_claim ''s'' \<lparr>claim_path = ''q.dispatch-s.claim'', claim_token = ''t''\<rparr> (init_claims ''q'')),
     used_tokens := {''t''}\<rparr>"

lemma one_held_reach: "claim_reach (\<lambda>x. x) two_procs one_held"
proof (rule claim_reach.step [OF claim_reach.start])
  have "acquire (env_of (\<lambda>x. x) two_procs 1) ''t'' (procs two_procs 1) ''s'' ''i'' (files two_procs) =
    (Some \<lparr>claim_path = ''q.dispatch-s.claim'', claim_token = ''t''\<rparr>,
     [''q.dispatch-s.claim'' \<mapsto> ClaimDoc \<lparr>doc_pid = 1, doc_token = ''t'', doc_itemId = ''i'', doc_at = 0\<rparr>])"
    by (simp add: acquire_def init_sys_def init_claims_def Let_def)
  moreover have "alive two_procs 1" "''t'' \<notin> used_tokens two_procs" "get_claim (procs two_procs 1) ''s'' = None"
    by (simp_all add: init_sys_def init_claims_def get_claim_def)
  ultimately show "claim_step (\<lambda>x. x) two_procs one_held"
    using claim_step.acquire_ok [of two_procs 1 "''t''" "''s''" "\<lambda>x. x" "''i''"]
    by (simp add: one_held_def) (simp add: init_sys_def)
qed

lemma one_held_claim:
  "get_claim (procs one_held 1) ''s'' = Some \<lparr>claim_path = ''q.dispatch-s.claim'', claim_token = ''t''\<rparr>"
  by (simp add: one_held_def)


text \<open>
  While a process holds the claim of a session, every other live process fails to
  acquire it, and every process that looks sees the same in-flight item, the one the claim
  file names; neither the failed attempt nor the look disturbs the claim.\<close>

theorem held_claim_blocks_and_is_seen:
  assumes "claim_reach digest (init_sys qf fs ps) s" "get_claim (procs s p) sid = Some cl"
  shows "\<exists>d. files s (claim_path cl) = Some (ClaimDoc d) \<and> doc_pid d = p \<and>
     (\<forall>q token iid. fst (acquire (env_of digest s q) token (procs s q) sid iid (files s)) = None \<and>
        snd (acquire (env_of digest s q) token (procs s q) sid iid (files s)) (claim_path cl) = Some (ClaimDoc d)) \<and>
     (\<forall>q hd_of. fst (inFlightIdOf (env_of digest s q) (procs s q) hd_of sid None (files s)) = Some (doc_itemId d))"
proof -
  note inv = inv_reach [OF assms(1)]
  obtain d where d: "files s (claim_path cl) = Some (ClaimDoc d)" "doc_pid d = p"
    and v: "\<And>q. view (env_of digest s q) (files s) (claim_path cl) = Owned d"
    using held_view [OF inv assms(2)] by (metis (no_types) view_Owned_file claim_file.inject(1) option.inject)
  have path: "pathFor (env_of digest s q) (procs s q) sid = claim_path cl" for q
    using claim_invD(2) [OF inv assms(2)] claim_invD(6) [OF inv, of p q] by (simp add: holds_file_def)
  have "fst (acquire (env_of digest s q) token (procs s q) sid iid (files s)) = None \<and>
        snd (acquire (env_of digest s q) token (procs s q) sid iid (files s)) (claim_path cl) = Some (ClaimDoc d)" for q token iid
    using v [of q] d by (simp only: acquire_eq Let_def path) (simp add: read_owned)
  moreover have "fst (inFlightIdOf (env_of digest s q) (procs s q) hd_of sid None (files s)) = Some (doc_itemId d)" for q hd_of
    using v [of q] by (simp only: inFlight_view path) simp
  ultimately show ?thesis using d by blast
qed

theorem held_claim_blocks_and_is_seen_witness:
  "fst (acquire (env_of (\<lambda>x. x) one_held 2) ''u'' (procs one_held 2) ''s'' ''j'' (files one_held)) = None"
  using held_claim_blocks_and_is_seen [OF one_held_reach one_held_claim] by blast

end
