(* ===== verification/Queue_Expansion.thy ===== *)
theory Queue_Expansion
  imports Prelude
begin

text \<open>
  Expansion of a slash command's template (\<open>server/queue/queue-expansion.ts\<close>). The
  regular expressions are written out as scanners; \<open>String.replaceAll\<close> with a string
  replacement interprets \<open>$$\<close>, \<open>$&\<close>, dollar-backtick and dollar-quote in that replacement
  (ECMAScript's GetSubstitution without captures), and so does the model.
\<close>

section \<open>Definitions\<close>

definition digits_val :: "string \<Rightarrow> nat" where
  "digits_val ds = foldl (\<lambda>n c. 10 * n + (of_char c - 48)) 0 ds"

abbreviation DQ :: char where "DQ \<equiv> CHR 0x22"
abbreviation SQ :: char where "SQ \<equiv> CHR 0x27"
abbreviation BQ :: char where "BQ \<equiv> CHR 0x60"

text \<open>\<open>q([^q]*)q\<close> at the head of the input: the quoted text and what follows it.\<close>

definition quoted :: "char \<Rightarrow> string \<Rightarrow> (string \<times> string) option" where
  "quoted q s =
     (case s of
        [] \<Rightarrow> None
      | c # rest \<Rightarrow>
          (let body = takeWhile (\<lambda>x. x \<noteq> q) rest; after = dropWhile (\<lambda>x. x \<noteq> q) rest
           in if c = q \<and> after \<noteq> [] then Some (body, tl after) else None))"

lemma quoted_shorter: "quoted q s = Some (w, rest) \<Longrightarrow> length rest < length s"
  using length_dropWhile_le [of "\<lambda>x. x \<noteq> q" "tl s"]
  by (auto simp: quoted_def Let_def split: list.splits if_splits)

text \<open>\<open>args.matchAll(/"([^"]*)"|'([^']*)'|(\S+)/gu)\<close>: alternatives in order at each
  position, one character skipped where none matches.\<close>

function splitCommandArgs :: "string \<Rightarrow> string list" where
  "splitCommandArgs args =
     (case args of
        [] \<Rightarrow> []
      | c # rest \<Rightarrow>
          (case quoted DQ args of
             Some (w, after) \<Rightarrow> w # splitCommandArgs after
           | None \<Rightarrow>
               (case quoted SQ args of
                  Some (w, after) \<Rightarrow> w # splitCommandArgs after
                | None \<Rightarrow>
                    if js_space c then splitCommandArgs rest
                    else takeWhile (\<lambda>x. \<not> js_space x) args
                         # splitCommandArgs (dropWhile (\<lambda>x. \<not> js_space x) args))))"
  by pat_completeness auto
termination
  by (relation "measure length")
     (auto dest!: quoted_shorter simp: le_imp_less_Suc length_dropWhile_le)

declare splitCommandArgs.simps [simp del]

definition ARGUMENTS :: string where
  "ARGUMENTS = ''$ARGUMENTS''"

text \<open>\<open>\$(\d+)\<close> at the head of the input: the digits and what follows.\<close>

definition placeholder :: "string \<Rightarrow> (string \<times> string) option" where
  "placeholder s =
     (case s of
        [] \<Rightarrow> None
      | c # rest \<Rightarrow>
          if c = CHR ''$'' \<and> takeWhile is_digit rest \<noteq> []
          then Some (takeWhile is_digit rest, dropWhile is_digit rest) else None)"

fun str_includes :: "string \<Rightarrow> string \<Rightarrow> bool" where
  "str_includes [] pat = (pat = [])"
| "str_includes (c # cs) pat = (starts_with (c # cs) pat \<or> str_includes cs pat)"

fun has_positional :: "string \<Rightarrow> bool" where
  "has_positional [] = False"
| "has_positional (c # cs) = (placeholder (c # cs) \<noteq> None \<or> has_positional cs)"

definition hasPlaceholders :: "string \<Rightarrow> bool" where
  "hasPlaceholders template \<longleftrightarrow> str_includes template ARGUMENTS \<or> has_positional template"

lemma placeholder_shorter: "placeholder s = Some (ds, rest) \<Longrightarrow> length rest < length s"
  using length_dropWhile_le [of is_digit "tl s"]
  by (auto simp: placeholder_def split: list.splits if_splits)

text \<open>The positions a template names, in order.\<close>

function positions :: "string \<Rightarrow> nat list" where
  "positions s =
     (case s of
        [] \<Rightarrow> []
      | c # rest \<Rightarrow>
          (case placeholder s of
             Some (ds, after) \<Rightarrow> digits_val ds # positions after
           | None \<Rightarrow> positions rest))"
  by pat_completeness auto
termination
  by (relation "measure length") (auto dest!: placeholder_shorter)

declare positions.simps [simp del]

fun join_sp :: "string list \<Rightarrow> string" where
  "join_sp [] = []"
| "join_sp [w] = w"
| "join_sp (w # ws) = w @ '' '' @ join_sp ws"

text \<open>The replacement callback of \<open>applyPositional\<close>.\<close>

definition positional_word :: "nat \<Rightarrow> string list \<Rightarrow> nat \<Rightarrow> string" where
  "positional_word highest words position =
     (if position < 1 \<or> position > length words then []
      else if position < highest then words ! (position - 1)
      else join_sp (drop (position - 1) words))"

function subst_positional :: "(nat \<Rightarrow> string) \<Rightarrow> string \<Rightarrow> string" where
  "subst_positional f s =
     (case s of
        [] \<Rightarrow> []
      | c # rest \<Rightarrow>
          (case placeholder s of
             Some (ds, after) \<Rightarrow> f (digits_val ds) @ subst_positional f after
           | None \<Rightarrow> c # subst_positional f rest))"
  by pat_completeness auto
termination
  by (relation "measure (\<lambda>(f, s). length s)") (auto dest!: placeholder_shorter)

declare subst_positional.simps [simp del]

definition applyPositional :: "string \<Rightarrow> string list \<Rightarrow> string" where
  "applyPositional template words =
     (let highest = foldl max 0 (positions template)
      in subst_positional (positional_word highest words) template)"

text \<open>GetSubstitution for a string pattern: \<open>matched\<close> is the pattern, \<open>pre\<close> and
  \<open>post\<close> the subject before and after the match.\<close>

fun get_substitution :: "string \<Rightarrow> string \<Rightarrow> string \<Rightarrow> string \<Rightarrow> string" where
  "get_substitution matched pre post (a # b # rest) =
     (if a = CHR ''$'' \<and> b = CHR ''$'' then CHR ''$'' # get_substitution matched pre post rest
      else if a = CHR ''$'' \<and> b = CHR ''&'' then matched @ get_substitution matched pre post rest
      else if a = CHR ''$'' \<and> b = BQ then pre @ get_substitution matched pre post rest
      else if a = CHR ''$'' \<and> b = SQ then post @ get_substitution matched pre post rest
      else a # get_substitution matched pre post (b # rest))"
| "get_substitution matched pre post rep = rep"

text \<open>\<open>subject.replaceAll(pat, rep)\<close> for a non-empty string pattern; \<open>pre\<close> is the part
  of the subject already passed.\<close>

function replace_all :: "string \<Rightarrow> string \<Rightarrow> string \<Rightarrow> string \<Rightarrow> string" where
  "replace_all pat rep pre s =
     (case s of
        [] \<Rightarrow> []
      | c # rest \<Rightarrow>
          if pat \<noteq> [] \<and> starts_with s pat
          then get_substitution pat pre (drop (length pat) s) rep
               @ replace_all pat rep (pre @ pat) (drop (length pat) s)
          else c # replace_all pat rep (pre @ [c]) rest)"
  by pat_completeness auto
termination
  by (relation "measure (\<lambda>(pat, rep, pre, s). length s)") auto

declare replace_all.simps [simp del]

definition expandCommandTemplate :: "string \<Rightarrow> string \<Rightarrow> string" where
  "expandCommandTemplate template args =
     (if \<not> hasPlaceholders template then
        (if trim args = [] then template else template @ '' '' @ trim args)
      else if str_includes template ARGUMENTS then replace_all ARGUMENTS args [] template
      else applyPositional template (splitCommandArgs args))"

text \<open>\<open>/^\/([^\s/]+)/u\<close> on the first line.\<close>

definition commandNameOf :: "string \<Rightarrow> string option" where
  "commandNameOf text =
     (case first_segment text of
        [] \<Rightarrow> None
      | c # rest \<Rightarrow>
          (let name = takeWhile (\<lambda>x. \<not> js_space x \<and> x \<noteq> CHR ''/'') rest
           in if c = CHR ''/'' \<and> name \<noteq> [] then Some name else None))"

definition commandArgsOf :: "string \<Rightarrow> string \<Rightarrow> string" where
  "commandArgsOf text name =
     (let separator = CHR ''/'' # name
      in if starts_with text separator
         then dropWhile (\<lambda>c. c = CHR 0x20 \<or> c = CHR 0x09) (drop (length separator) text)
         else [])"

section \<open>Lemmas\<close>

text \<open>A replacement without a dollar sign is inserted as it is.\<close>

lemma get_substitution_verbatim:
  "CHR ''$'' \<notin> set rep \<Longrightarrow> get_substitution matched pre post rep = rep"
  by (induction matched pre post rep rule: get_substitution.induct) auto

text \<open>The plain reference: every occurrence of the pattern replaced by the text itself.\<close>

function replace_plain :: "string \<Rightarrow> string \<Rightarrow> string \<Rightarrow> string" where
  "replace_plain pat rep s =
     (case s of
        [] \<Rightarrow> []
      | c # rest \<Rightarrow>
          if pat \<noteq> [] \<and> starts_with s pat
          then rep @ replace_plain pat rep (drop (length pat) s)
          else c # replace_plain pat rep rest)"
  by pat_completeness auto
termination
  by (relation "measure (\<lambda>(pat, rep, s). length s)") auto

declare replace_plain.simps [simp del]

lemma replace_all_plain:
  "CHR ''$'' \<notin> set rep \<Longrightarrow> replace_all pat rep pre s = replace_plain pat rep s"
proof (induction pat rep pre s rule: replace_all.induct)
  case (1 pat rep pre s)
  then show ?case
    by (subst replace_all.simps, subst replace_plain.simps)
       (auto simp: get_substitution_verbatim split: list.split)
qed

lemma starts_with_iff: "starts_with s p \<longleftrightarrow> (\<exists>t. s = p @ t)"
proof
  assume "starts_with s p"
  then show "\<exists>t. s = p @ t" unfolding starts_with_def by (metis append_take_drop_id)
qed (auto simp: starts_with_def)

lemma first_segment_prefix: "\<exists>t. text = first_segment text @ t"
  unfolding first_segment_def by (metis takeWhile_dropWhile_id)

section \<open>Properties\<close>

text \<open>
  A template with \<open>$ARGUMENTS\<close> receives the whole argument string at every
  occurrence, unchanged, when the arguments hold no dollar sign.\<close>

theorem arguments_inserted_verbatim:
  assumes "CHR ''$'' \<notin> set args" and "str_includes template ARGUMENTS"
  shows "expandCommandTemplate template args = replace_plain ARGUMENTS args template"
  using assms by (simp add: expandCommandTemplate_def hasPlaceholders_def replace_all_plain)

theorem arguments_inserted_verbatim_witness:
  "expandCommandTemplate ''run $ARGUMENTS now'' ''a b'' = ''run a b now''"
proof -
  have "expandCommandTemplate ''run $ARGUMENTS now'' ''a b''
      = replace_plain ARGUMENTS ''a b'' ''run $ARGUMENTS now''"
    by (rule arguments_inserted_verbatim) (simp_all add: ARGUMENTS_def starts_with_def)
  also have "\<dots> = ''run a b now''"
    by (simp add: replace_plain.simps ARGUMENTS_def starts_with_def)
  finally show ?thesis .
qed

text \<open>
  With a dollar sign in the arguments the text is not inserted verbatim:
  \<open>replaceAll\<close> reads \<open>$$\<close> and \<open>$&\<close> in the user's arguments as substitution
  patterns, so a price loses a sign and the placeholder itself reappears.\<close>

theorem arguments_with_dollar_are_rewritten:
  "expandCommandTemplate ''pay $ARGUMENTS'' ''$$5'' = ''pay $5'' \<and>
   expandCommandTemplate ''pay $ARGUMENTS'' ''$&'' = ''pay $ARGUMENTS''"
  by (simp add: expandCommandTemplate_def hasPlaceholders_def ARGUMENTS_def starts_with_def
      replace_all.simps)

text \<open>
  Reading a slash command loses nothing: the text is the slash, the name, a run of
  blanks and the arguments \<open>commandArgsOf\<close> returns.\<close>

theorem command_text_splits:
  assumes "commandNameOf cmd = Some name"
  shows "\<exists>blanks. cmd = CHR ''/'' # name @ blanks @ commandArgsOf cmd name \<and>
           (\<forall>c \<in> set blanks. c = CHR 0x20 \<or> c = CHR 0x09)"
proof -
  obtain rest where seg: "first_segment cmd = CHR ''/'' # rest"
    and name: "name = takeWhile (\<lambda>x. \<not> js_space x \<and> x \<noteq> CHR ''/'') rest"
    using assms by (auto simp: commandNameOf_def Let_def split: list.splits if_splits)
  obtain r where "rest = name @ r" using name by (metis takeWhile_dropWhile_id)
  then obtain t where cmd_eq: "cmd = (CHR ''/'' # name) @ t"
    using seg first_segment_prefix [of cmd] by (metis append.assoc append_Cons)
  let ?blank = "\<lambda>c. c = CHR 0x20 \<or> c = CHR 0x09"
  have "t = takeWhile ?blank t @ commandArgsOf cmd name"
    by (simp add: cmd_eq commandArgsOf_def starts_with_def Let_def)
  with cmd_eq have "cmd = CHR ''/'' # name @ takeWhile ?blank t @ commandArgsOf cmd name" by simp
  moreover have "\<forall>c \<in> set (takeWhile ?blank t). ?blank c" by (auto dest: set_takeWhileD)
  ultimately show ?thesis by blast
qed

theorem command_text_splits_witness:
  "commandNameOf ''/fix  a b'' = Some ''fix'' \<and> commandArgsOf ''/fix  a b'' ''fix'' = ''a b'' \<and>
   (\<exists>blanks. ''/fix  a b'' = CHR ''/'' # ''fix'' @ blanks @ commandArgsOf ''/fix  a b'' ''fix'')"
proof -
  have n: "commandNameOf ''/fix  a b'' = Some ''fix''"
    by (simp add: commandNameOf_def first_segment_def js_space_def)
  moreover have "commandArgsOf ''/fix  a b'' ''fix'' = ''a b''"
    by (simp add: commandArgsOf_def starts_with_def)
  ultimately show ?thesis using command_text_splits [OF n] by blast
qed

end
