(* ===== verification/Queue_Dispatch.thy ===== *)
theory Queue_Dispatch
  imports Queue_Item Queue_Expansion
begin

text \<open>
  Delivery of one queue head (\<open>server/queue/queue-dispatch.ts\<close>): slash resolution against
  the skill inventory and the command catalog the harness serves, the parts of the prompt in
  their fixed order, and the posted body. What the harness and the knowledge provider answer
  are arguments (\<open>harness_view\<close>); a failed fetch is an absent answer, as
  \<open>callHarnessJson\<close> returns \<open>null\<close>.
\<close>

section \<open>Data\<close>

datatype SlashResolution = SlashSkill string | SlashExpanded string "string option"

datatype DeliveryOutcome = Delivered | Rejected nat string

datatype knowledge_answer = KnowledgeText string | KnowledgeNone | KnowledgeThrows

datatype prompt_part =
    PartText string bool "json option" \<comment> \<open>text, synthetic, metadata\<close>
  | PartFile string string string \<comment> \<open>mime, filename, url\<close>
  | PartAgent string

record prompt_body =
  body_provider :: string
  body_model :: string
  body_parts :: "prompt_part list"
  body_messageID :: "string option"
  body_agent :: "string option"

record harness_view =
  skills_json :: "json option"
  catalog_json :: "json option"
  knowledge :: knowledge_answer
  post_status :: nat

section \<open>Definitions\<close>

definition skillInstruction :: "string \<Rightarrow> string" where
  "skillInstruction name =
     ''The user explicitly invoked the '' @ name @
     '' skill. Use the corresponding skill tool to handle this request.''"

definition asRecord :: "unknown \<Rightarrow> json option" where
  "asRecord v = (case v of Some (JObj kvs) \<Rightarrow> Some (JObj kvs) | _ \<Rightarrow> None)"

fun first_named :: "string \<Rightarrow> string \<Rightarrow> json list \<Rightarrow> json option" where
  "first_named key name [] = None"
| "first_named key name (e # es) =
     (case asRecord (Some e) of
        Some r \<Rightarrow> if prop_of r key = Some (JStr name) then Some r else first_named key name es
      | None \<Rightarrow> first_named key name es)"

definition commandEntryOf :: "unknown \<Rightarrow> string \<Rightarrow> (unknown \<times> unknown) option" where
  "commandEntryOf catalog name =
     (case catalog of
        Some (JArr es) \<Rightarrow>
          map_option (\<lambda>r. (prop_of r ''source'', prop_of r ''template'')) (first_named ''name'' name es)
      | _ \<Rightarrow> None)"

definition skillEntryOf :: "unknown \<Rightarrow> string \<Rightarrow> bool" where
  "skillEntryOf skills name =
     (case asRecord skills of
        Some inventory \<Rightarrow>
          (case prop_of inventory ''skills'' of
             Some (JArr es) \<Rightarrow> first_named ''id'' name es \<noteq> None
           | _ \<Rightarrow> False)
      | None \<Rightarrow> False)"

definition resolveSlash :: "harness_view \<Rightarrow> QueueItem \<Rightarrow> SlashResolution option" where
  "resolveSlash h item =
     (if \<not> starts_with (item_text item) ''/'' then None
      else case commandNameOf (item_text item) of
             None \<Rightarrow> None
           | Some name \<Rightarrow>
               if skillEntryOf (skills_json h) name then Some (SlashSkill name)
               else case commandEntryOf (catalog_json h) name of
                      None \<Rightarrow> None
                    | Some (source, template) \<Rightarrow>
                        (let tpl = (case template of
                                      Some (JStr t) \<Rightarrow> if t \<noteq> [] then Some t else None
                                    | _ \<Rightarrow> None)
                         in if source = Some (JStr ''skill'') then Some (SlashSkill name)
                            else Some (SlashExpanded name tpl)))"

definition resolveKnowledge :: "harness_view \<Rightarrow> string option" where
  "resolveKnowledge h =
     (case knowledge h of
        KnowledgeText t \<Rightarrow> if trim t \<noteq> [] then Some t else None
      | _ \<Rightarrow> None)"

fun context_parts :: "ContextPart \<Rightarrow> prompt_part list" where
  "context_parts (CtxContext t md instr) =
     (case instr of
        Some (c # cs) \<Rightarrow> [PartText (c # cs) True None]
      | _ \<Rightarrow> []) @ [PartText t True (Some md)]"
| "context_parts (CtxInstruction t) = [PartText t True None]"
| "context_parts (CtxSynthetic t) = [PartText t True None]"

definition opt_part :: "(string \<Rightarrow> prompt_part) \<Rightarrow> string option \<Rightarrow> prompt_part list" where
  "opt_part mk s = (case s of Some (c # cs) \<Rightarrow> [mk (c # cs)] | _ \<Rightarrow> [])"

definition assemblePromptParts ::
  "QueueItem \<Rightarrow> string \<Rightarrow> string option \<Rightarrow> string option \<Rightarrow> prompt_part list"
where
  "assemblePromptParts item deliveredText skillText knowledgeText =
     (if trim deliveredText \<noteq> [] then [PartText deliveredText False None] else [])
     @ map (\<lambda>a. PartFile (mimeType a) (filename a) (dataUrl a)) (attachments item)
     @ concat (map context_parts (ctx item))
     @ opt_part (\<lambda>t. PartText t True None) skillText
     @ opt_part (\<lambda>t. PartText t True None) knowledgeText
     @ opt_part PartAgent (agentMention item)"

definition deliveredTextOf :: "QueueItem \<Rightarrow> SlashResolution option \<Rightarrow> string" where
  "deliveredTextOf item slash =
     (case slash of
        Some (SlashExpanded name (Some template)) \<Rightarrow>
          expandCommandTemplate template (commandArgsOf (item_text item) name)
      | _ \<Rightarrow> item_text item)"

definition promptBody :: "QueueItem \<Rightarrow> SlashResolution option \<Rightarrow> string option \<Rightarrow> prompt_body" where
  "promptBody item slash knowledgeText =
     \<lparr>body_provider = providerID (sendConfig item), body_model = modelID (sendConfig item),
      body_parts = assemblePromptParts item (deliveredTextOf item slash)
        (case slash of Some (SlashSkill name) \<Rightarrow> Some (skillInstruction name) | _ \<Rightarrow> None)
        knowledgeText,
      body_messageID = (if QUEUE_ITEM_ID_PATTERN (item_id item) then Some (item_id item) else None),
      body_agent = nonempty (agent (sendConfig item))\<rparr>"

text \<open>\<open>Response.ok\<close> is a status in 200..299.\<close>

definition postSession :: "harness_view \<Rightarrow> string \<Rightarrow> DeliveryOutcome" where
  "postSession h route =
     (if 200 \<le> post_status h \<and> post_status h \<le> 299 then Delivered
      else Rejected (post_status h) (route @ '' rejected with '' @ show_nat (post_status h)))"

text \<open>\<open>encodeURIComponent\<close>: unreserved characters stay, others become their UTF-8 bytes.\<close>

definition uri_unreserved :: "char \<Rightarrow> bool" where
  "uri_unreserved c \<longleftrightarrow> is_alnum c \<or> c \<in> set ''-_.!~*()'' \<or> c = CHR 0x27"

definition hex_upper :: "nat \<Rightarrow> char" where
  "hex_upper n = (if n < 10 then char_of (48 + n) else char_of (55 + n))"

definition percent :: "nat \<Rightarrow> string" where
  "percent b = [CHR ''%'', hex_upper (b div 16), hex_upper (b mod 16)]"

definition encodeURIComponent :: "string \<Rightarrow> string" where
  "encodeURIComponent s =
     concat (map (\<lambda>c. if uri_unreserved c then [c]
                      else if (of_char c :: nat) < 128 then percent (of_char c)
                      else percent (192 + of_char c div 64) @ percent (128 + of_char c mod 64)) s)"

definition promptRoute :: "string \<Rightarrow> string" where
  "promptRoute sid = ''/session/'' @ encodeURIComponent sid @ ''/prompt_async''"

text \<open>One delivery: the body posted, the outcome, and whether the knowledge was recorded.\<close>

definition deliverHead :: "harness_view \<Rightarrow> string \<Rightarrow> QueueItem \<Rightarrow> prompt_body \<times> DeliveryOutcome \<times> bool" where
  "deliverHead h sid item =
     (let slash = resolveSlash h item;
          knowledgeText = resolveKnowledge h;
          outcome = postSession h (promptRoute sid)
      in (promptBody item slash knowledgeText, outcome, outcome = Delivered \<and> knowledgeText \<noteq> None))"

section \<open>Properties\<close>

fun is_file :: "prompt_part \<Rightarrow> bool" where
  "is_file (PartFile _ _ _) = True"
| "is_file _ = False"

fun is_agent :: "prompt_part \<Rightarrow> bool" where
  "is_agent (PartAgent _) = True"
| "is_agent _ = False"

fun is_synthetic :: "prompt_part \<Rightarrow> bool" where
  "is_synthetic (PartText _ sy _) = sy"
| "is_synthetic _ = False"

lemma context_parts_synthetic: "p \<in> set (concat (map context_parts cs)) \<Longrightarrow> is_synthetic p"
proof -
  have "p \<in> set (context_parts c) \<Longrightarrow> is_synthetic p" for c
    by (cases c) (auto split: option.splits list.splits)
  then show "p \<in> set (concat (map context_parts cs)) \<Longrightarrow> is_synthetic p" by auto
qed

text \<open>
  Every delivered prompt has its parts in the fixed order: at most one user text, the
  files of the item in order, then only synthetic parts, then at most one agent mention;
  nothing but the files and the agent is outside those groups.\<close>

theorem prompt_parts_order:
  "\<exists>user files synthetic agents.
     body_parts (fst (deliverHead h sid item)) = user @ files @ synthetic @ agents \<and>
     length user \<le> 1 \<and> (\<forall>p \<in> set user. \<not> is_synthetic p \<and> \<not> is_file p \<and> \<not> is_agent p) \<and>
     files = map (\<lambda>a. PartFile (mimeType a) (filename a) (dataUrl a)) (attachments item) \<and>
     (\<forall>p \<in> set synthetic. is_synthetic p) \<and>
     agents = opt_part PartAgent (agentMention item) \<and> length agents \<le> 1"
proof -
  let ?slash = "resolveSlash h item"
  let ?user = "if trim (deliveredTextOf item ?slash) \<noteq> [] then [PartText (deliveredTextOf item ?slash) False None] else []"
  let ?skill = "opt_part (\<lambda>t. PartText t True None)
     (case ?slash of Some (SlashSkill name) \<Rightarrow> Some (skillInstruction name) | _ \<Rightarrow> None)"
  let ?know = "opt_part (\<lambda>t. PartText t True None) (resolveKnowledge h)"
  let ?syn = "concat (map context_parts (ctx item)) @ ?skill @ ?know"
  let ?files = "map (\<lambda>a. PartFile (mimeType a) (filename a) (dataUrl a)) (attachments item)"
  let ?agents = "opt_part PartAgent (agentMention item)"
  have syn: "\<forall>p \<in> set ?syn. is_synthetic p"
    using context_parts_synthetic by (auto simp: opt_part_def split: option.splits list.splits)
  have agents: "length ?agents \<le> 1"
    by (auto simp: opt_part_def split: option.splits list.splits)
  have user: "length ?user \<le> 1" "\<forall>p \<in> set ?user. \<not> is_synthetic p \<and> \<not> is_file p \<and> \<not> is_agent p"
    by simp_all
  have parts: "body_parts (fst (deliverHead h sid item)) = ?user @ ?files @ ?syn @ ?agents"
    by (simp add: deliverHead_def promptBody_def assemblePromptParts_def Let_def)
  show ?thesis
    by (rule exI [of _ ?user], rule exI [of _ ?files], rule exI [of _ ?syn], rule exI [of _ ?agents],
        intro conjI parts user syn agents refl)
qed

definition sample_harness :: "nat \<Rightarrow> harness_view" where
  "sample_harness status =
     \<lparr>skills_json = None, catalog_json = None, knowledge = KnowledgeText ''k'', post_status = status\<rparr>"

lemma sample_parts:
  "body_parts (fst (deliverHead (sample_harness n) ''s'' (sample_item ''a'' 1))) =
   [PartText ''look at this'' False None, PartFile ''text/plain'' ''a.txt'' ''data:,x'',
    PartText ''k'' True None, PartAgent ''reviewer'']"
proof -
  have r: "resolveSlash (sample_harness n) (sample_item ''a'' 1) = None"
    by (simp add: resolveSlash_def sample_item_def starts_with_def)
  have k: "resolveKnowledge (sample_harness n) = Some ''k''"
    by (simp add: resolveKnowledge_def sample_harness_def trim_def trim_start_def trim_end_def js_space_def)
  have t: "trim ''look at this'' = ''look at this''" by code_simp
  show ?thesis
    by (simp add: deliverHead_def promptBody_def r k Let_def assemblePromptParts_def deliveredTextOf_def)
       (simp add: sample_item_def opt_part_def t)
qed

theorem prompt_parts_order_witness:
  "\<exists>user files synthetic agents.
     [PartText ''look at this'' False None, PartFile ''text/plain'' ''a.txt'' ''data:,x'',
      PartText ''k'' True None, PartAgent ''reviewer''] = user @ files @ synthetic @ agents \<and>
     length user \<le> 1 \<and> length agents \<le> 1"
  using prompt_parts_order [of "sample_harness 204" "''s''" "sample_item ''a'' 1"]
  unfolding sample_parts by blast

text \<open>
  The knowledge delivery is recorded only after an accepted prompt that carried it, and
  an accepted retry carries the same idempotency identity: the body names the item id as
  its message id whenever the item came through the parser.\<close>

theorem knowledge_recorded_only_after_acceptance:
  assumes "item_ok item"
  shows "(snd (snd (deliverHead h sid item)) \<longrightarrow>
       fst (snd (deliverHead h sid item)) = Delivered \<and> resolveKnowledge h \<noteq> None) \<and>
     (fst (snd (deliverHead h sid item)) = Delivered \<longleftrightarrow> 200 \<le> post_status h \<and> post_status h \<le> 299) \<and>
     body_messageID (fst (deliverHead h sid item)) = Some (item_id item)"
  using assms by (auto simp: deliverHead_def promptBody_def postSession_def Let_def item_ok_def)

theorem knowledge_recorded_only_after_acceptance_witness:
  "body_messageID (fst (deliverHead (sample_harness 500) ''s'' (sample_item ''att-1'' 5))) = Some ''queued-7''"
proof -
  have "item_ok (sample_item ''att-1'' 5)"
    using parse_item_ok [OF sample_parse [of 5]] by (simp add: sample_env_def)
  moreover have "item_id (sample_item ''att-1'' 5) = ''queued-7''" by (simp add: sample_item_def)
  ultimately show ?thesis using knowledge_recorded_only_after_acceptance by metis
qed

end
