(* ===== verification/Queue_Runtime.thy ===== *)
theory Queue_Runtime
  imports Queue_Store Queue_Claims Queue_Dispatch
begin

text \<open>
  The message-queue runtime (\<open>server/queue/queue-runtime.ts\<close>, with
  \<open>queue-runtime-timing.ts\<close> and \<open>queue-runtime-utils.ts\<close>). Timers are the times they
  are due. \<open>tick\<close> is an asynchronous function: the model cuts it at its awaits, and
  \<open>ticking\<close> holds for each session the await it is suspended at (\<open>tick_phase\<close>), so that
  every other operation can run in between. A mutation under \<open>withSharedQueue\<close> (file
  lock, refresh, mutation, flush) is one step. Looking for the in-flight id may unlink a stale
  claim file; no reader can tell (lemma \<open>inFlight_files\<close>), and the model leaves it. The
  notification \<open>notifyPromptSent\<close> of a delivery goes to other components and is left out.
\<close>

section \<open>State\<close>

record QueueTiming =
  quietMs :: int
  verifyBackoffMs :: int
  abortHoldMs :: int
  backoffBaseMs :: int
  backoffMaxMs :: int
  holdDefaultMs :: int
  holdMaxMs :: int

definition QUEUE_TIMING :: QueueTiming where
  "QUEUE_TIMING =
     \<lparr>quietMs = 500, verifyBackoffMs = 2000, abortHoldMs = 2000, backoffBaseMs = 2000,
      backoffMaxMs = 60000, holdDefaultMs = 5 * 60000, holdMaxMs = 10 * 60000\<rparr>"

record BackoffRecord =
  bo_itemId :: string
  bo_failures :: int
  bo_nextAttemptAt :: int

text \<open>The awaits of one tick: the first idleness check, the re-check of the head under the
  lock, the second idleness check, the delivery, and the lock for the settlement.\<close>

datatype tick_phase =
    PVerify QueueItem string
  | PStillHead QueueItem string DispatchClaim
  | PVerify2 QueueItem string DispatchClaim
  | PDeliver QueueItem string DispatchClaim
  | PSettle QueueItem string DispatchClaim bool

record runtime =
  rt_store :: store
  arms :: "string \<rightharpoonup> int"
  holdWakes :: "string \<rightharpoonup> int"
  holds :: "string \<rightharpoonup> int"
  sending :: "string \<rightharpoonup> string"
  activeDeliveries :: "string set"
  dispatchClaims :: QueueDispatchClaims
  backoffs :: "string \<rightharpoonup> BackoffRecord"
  aborts :: "string \<rightharpoonup> int"
  ticking :: "string \<rightharpoonup> tick_phase"
  stopped :: bool
  pendingDrops :: "string list"
  announced :: "(rat \<times> string) list"
  claimFiles :: claim_fs
  now :: int

record rt_env =
  timing :: QueueTiming
  re_alive :: "int \<Rightarrow> bool"
  re_digest :: "string \<Rightarrow> string"
  re_pid :: int
  rename_ok :: bool
  write_ok :: bool

definition cenv :: "rt_env \<Rightarrow> runtime \<Rightarrow> claim_env" where
  "cenv env rt = \<lparr>env_now = now rt, env_alive = re_alive env, env_digest = re_digest env, env_pid = re_pid env\<rparr>"

section \<open>Helpers of queue-runtime-utils.ts\<close>

definition failureDelayMs :: "int \<Rightarrow> QueueTiming \<Rightarrow> int" where
  "failureDelayMs failures t =
     (let exponent = max 0 (min failures 32 - 1)
      in min (backoffBaseMs t * 2 ^ nat exponent) (backoffMaxMs t))"

definition optionalPropertyString :: "json \<Rightarrow> string \<Rightarrow> string option" where
  "optionalPropertyString props key =
     (case prop_of props key of Some (JStr (c # cs)) \<Rightarrow> Some (c # cs) | _ \<Rightarrow> None)"

definition errorNameOf :: "unknown \<Rightarrow> string option" where
  "errorNameOf v =
     (case asRecord v of
        Some r \<Rightarrow> (case prop_of r ''name'' of Some (JStr s) \<Rightarrow> Some s | _ \<Rightarrow> None)
      | None \<Rightarrow> None)"

fun is_number :: "unknown \<Rightarrow> bool" where
  "is_number (Some (JNum _)) = True"
| "is_number _ = False"

definition prop_opt :: "json option \<Rightarrow> string \<Rightarrow> unknown" where
  "prop_opt r key = (case r of Some j \<Rightarrow> prop_of j key | None \<Rightarrow> None)"

definition tailUnfinishedAssistant :: "json \<Rightarrow> bool" where
  "tailUnfinishedAssistant entry =
     (case asRecord (prop_of entry ''info'') of
        None \<Rightarrow> False
      | Some info \<Rightarrow>
          if prop_of info ''role'' \<noteq> Some (JStr ''assistant'') then False
          else \<not> is_number (prop_opt (asRecord (prop_of info ''time'')) ''completed''))"

section \<open>Timers and holds\<close>

definition arm :: "string \<Rightarrow> int \<Rightarrow> runtime \<Rightarrow> runtime" where
  "arm sid delayMs rt =
     (let due = now rt + max 0 delayMs in
      case arms rt sid of
        Some existing \<Rightarrow> if existing \<le> due then rt else rt\<lparr>arms := (arms rt)(sid \<mapsto> due)\<rparr>
      | None \<Rightarrow> rt\<lparr>arms := (arms rt)(sid \<mapsto> due)\<rparr>)"

definition clearArm :: "string \<Rightarrow> runtime \<Rightarrow> runtime" where
  "clearArm sid rt = rt\<lparr>arms := (arms rt)(sid := None)\<rparr>"

definition clearHoldWake :: "string \<Rightarrow> runtime \<Rightarrow> runtime" where
  "clearHoldWake sid rt = rt\<lparr>holdWakes := (holdWakes rt)(sid := None)\<rparr>"

definition armHoldWake :: "string \<Rightarrow> int \<Rightarrow> runtime \<Rightarrow> runtime" where
  "armHoldWake sid expiresAt rt =
     (let rt1 = clearHoldWake sid rt in rt1\<lparr>holdWakes := (holdWakes rt1)(sid \<mapsto> expiresAt)\<rparr>)"

definition heldExpiryOf :: "string \<Rightarrow> runtime \<Rightarrow> int option \<times> runtime" where
  "heldExpiryOf sid rt =
     (case holds rt sid of
        None \<Rightarrow> (None, rt)
      | Some expiresAt \<Rightarrow>
          if now rt \<ge> expiresAt then (None, rt\<lparr>holds := (holds rt)(sid := None)\<rparr>)
          else (Some expiresAt, rt))"

definition armQuiet :: "rt_env \<Rightarrow> string \<Rightarrow> runtime \<Rightarrow> runtime" where
  "armQuiet env sid rt =
     (let h = heldExpiryOf sid rt in
      if fst h \<noteq> None then snd h else arm sid (quietMs (timing env)) (snd h))"

text \<open>\<open>Number.isSafeInteger(ttlMs) && ttlMs > 0\<close>.\<close>

definition positive_safe_int :: "jsnum option \<Rightarrow> int option" where
  "positive_safe_int n =
     (case n of
        Some (Fin q) \<Rightarrow>
          if q = of_int \<lfloor>q\<rfloor> \<and> 0 < q \<and> q \<le> 2 ^ 53 - 1 then Some \<lfloor>q\<rfloor> else None
      | _ \<Rightarrow> None)"

definition setHold :: "rt_env \<Rightarrow> string \<Rightarrow> bool \<Rightarrow> jsnum option \<Rightarrow> runtime \<Rightarrow> int option \<times> runtime" where
  "setHold env sid held ttlMs rt =
     (if \<not> held then
        (None, armQuiet env sid (clearHoldWake sid (rt\<lparr>holds := (holds rt)(sid := None)\<rparr>)))
      else
        (let requested = (case positive_safe_int ttlMs of Some t \<Rightarrow> t | None \<Rightarrow> holdDefaultMs (timing env));
             expiresAt = now rt + min requested (holdMaxMs (timing env))
         in (Some expiresAt,
             armHoldWake sid expiresAt (clearArm sid (rt\<lparr>holds := (holds rt)(sid \<mapsto> expiresAt)\<rparr>)))))"

section \<open>Queue operations\<close>

definition currentHeadId :: "runtime \<Rightarrow> string \<Rightarrow> string option" where
  "currentHeadId rt sid =
     (case queue_of (rt_store rt) sid of [] \<Rightarrow> None | i # _ \<Rightarrow> Some (item_id i))"

definition inFlight :: "rt_env \<Rightarrow> runtime \<Rightarrow> string \<Rightarrow> string option" where
  "inFlight env rt sid =
     fst (inFlightIdOf (cenv env rt) (dispatchClaims rt) (currentHeadId rt) sid (sending rt sid) (claimFiles rt))"

definition announceWithRevision :: "string \<Rightarrow> rat \<Rightarrow> runtime \<Rightarrow> runtime" where
  "announceWithRevision dir n rt = rt\<lparr>announced := announced rt @ [(n, dir)]\<rparr>"

definition announce :: "string \<Rightarrow> runtime \<Rightarrow> runtime" where
  "announce dir rt = announceWithRevision dir (revision (rt_store rt)) rt"

definition commit_announce :: "string \<Rightarrow> runtime \<Rightarrow> runtime" where
  "commit_announce dir rt =
     (let st = commit (rt_store rt) in announceWithRevision dir (revision st) (rt\<lparr>rt_store := st\<rparr>))"

text \<open>Refresh under the lock, mutate, and wait for the file to be replaced.\<close>

definition refreshed :: "rt_env \<Rightarrow> runtime \<Rightarrow> runtime" where
  "refreshed env rt = rt\<lparr>rt_store := snd (refreshPreservingEmpty (rename_ok env) (rt_store rt))\<rparr>"

definition flushed :: "rt_env \<Rightarrow> runtime \<Rightarrow> runtime" where
  "flushed env rt = rt\<lparr>rt_store := flushWrites (write_ok env) (rt_store rt)\<rparr>"

definition withSharedQueue :: "rt_env \<Rightarrow> (runtime \<Rightarrow> 'a \<times> runtime) \<Rightarrow> runtime \<Rightarrow> 'a \<times> runtime" where
  "withSharedQueue env mutate rt =
     (let r = mutate (refreshed env rt) in (fst r, flushed env (snd r)))"

datatype enqueue_result = EnqOk rat string bool | EnqError queue_error | EnqDiverges

definition enqueueItem ::
  "rt_env \<Rightarrow> parse_env \<Rightarrow> string \<Rightarrow> string \<Rightarrow> unknown \<Rightarrow> runtime \<Rightarrow> enqueue_result \<times> runtime"
where
  "enqueueItem env penv sid dir raw rt =
     (case parseQueuedItemInput penv raw of
        Inl e \<Rightarrow> (EnqError e, rt)
      | Inr item \<Rightarrow>
          (case findItem (rt_store rt) sid (item_id item) of
             Some prior \<Rightarrow>
               if sameQueuePayload prior item then (EnqOk (revision (rt_store rt)) (item_id item) True, rt)
               else (EnqError (QueueItemConflictError
                       (''queued item '' @ item_id item @ '' already exists with a different payload'')), rt)
           | None \<Rightarrow>
               (case enqueue sid dir item (inFlight env rt) (rt_store rt) of
                  None \<Rightarrow> (EnqDiverges, rt)
                | Some st \<Rightarrow>
                    (EnqOk (revision st) (item_id item) False,
                     armQuiet env sid (announceWithRevision dir (revision st) (rt\<lparr>rt_store := st\<rparr>))))))"

datatype take_result = Taken QueueItem rat string | TakeInFlight | TakeUnknown

definition takeItem :: "rt_env \<Rightarrow> string \<Rightarrow> string \<Rightarrow> runtime \<Rightarrow> take_result \<times> runtime" where
  "takeItem env sid iid rt =
     (if inFlight env rt sid = Some iid then (TakeInFlight, rt)
      else (let r = removeItem sid iid (rt_store rt) in
            case (fst r, directoryOf (rt_store rt) sid) of
              (Some item, Some dir) \<Rightarrow>
                (let rt1 = commit_announce dir (rt\<lparr>rt_store := snd r\<rparr>)
                 in (Taken item (revision (rt_store rt1)) dir, armQuiet env sid rt1))
            | _ \<Rightarrow> (TakeUnknown, rt\<lparr>rt_store := snd r\<rparr>)))"

datatype take_all_result = TakenAll "QueueItem list" rat string | TakeAllUnknown

definition takeAllItems :: "rt_env \<Rightarrow> string \<Rightarrow> runtime \<Rightarrow> take_all_result \<times> runtime" where
  "takeAllItems env sid rt =
     (case directoryOf (rt_store rt) sid of
        None \<Rightarrow> (TakeAllUnknown, rt)
      | Some dir \<Rightarrow>
          (let r = takeAllExcept sid (inFlight env rt sid) (rt_store rt);
               rt0 = rt\<lparr>rt_store := snd r\<rparr>
           in if fst r = [] then (TakenAll [] (revision (rt_store rt)) dir, rt0)
              else (let rt1 = commit_announce dir rt0 in (TakenAll (fst r) (revision (rt_store rt1)) dir, rt1))))"

datatype reorder_outcome = RApplied | RNoop | RIncomplete | RUnknown | RInFlight

definition reorderItems :: "rt_env \<Rightarrow> string \<Rightarrow> string list \<Rightarrow> runtime \<Rightarrow> reorder_outcome \<times> runtime" where
  "reorderItems env sid ids rt =
     (case entryOf (rt_store rt) sid of
        None \<Rightarrow> (RUnknown, rt)
      | Some e \<Rightarrow>
          if items e = [] \<or> ids = [] then (RNoop, rt)
          else (let r = reorder sid ids (inFlight env rt sid) (rt_store rt) in
                if fst r = InFlight then (RInFlight, rt)
                else if fst r \<noteq> Applied then (RIncomplete, rt)
                else (RApplied, commit_announce (directory e) (rt\<lparr>rt_store := snd r\<rparr>))))"

datatype delete_result = Deleted rat string | DeleteInFlight | DeleteUnknown

definition deleteItem :: "rt_env \<Rightarrow> string \<Rightarrow> string \<Rightarrow> runtime \<Rightarrow> delete_result \<times> runtime" where
  "deleteItem env sid iid rt =
     (if inFlight env rt sid = Some iid then (DeleteInFlight, rt)
      else (let r = removeItem sid iid (rt_store rt) in
            case (fst r, directoryOf (rt_store rt) sid) of
              (Some _, Some dir) \<Rightarrow>
                (let rt1 = commit_announce dir (rt\<lparr>rt_store := snd r\<rparr>)
                 in (Deleted (revision (rt_store rt1)) dir, rt1))
            | _ \<Rightarrow> (DeleteUnknown, rt\<lparr>rt_store := snd r\<rparr>)))"

datatype clear_result = Cleared rat string | ClearUnknown

definition deleteSessionQueue :: "rt_env \<Rightarrow> string \<Rightarrow> runtime \<Rightarrow> clear_result \<times> runtime" where
  "deleteSessionQueue env sid rt =
     (case directoryOf (rt_store rt) sid of
        None \<Rightarrow> (ClearUnknown, rt)
      | Some dir \<Rightarrow>
          (let r = takeAllExcept sid (inFlight env rt sid) (rt_store rt);
               rt0 = rt\<lparr>rt_store := snd r\<rparr>;
               rt1 = (if fst r \<noteq> [] then commit_announce dir rt0 else rt0)
           in (Cleared (revision (rt_store rt1)) dir, rt1)))"

definition release_session :: "rt_env \<Rightarrow> string \<Rightarrow> DispatchClaim option \<Rightarrow> runtime \<Rightarrow> runtime" where
  "release_session env sid expected rt =
     (let r = release (cenv env rt) sid expected (dispatchClaims rt, claimFiles rt)
      in rt\<lparr>dispatchClaims := fst r, claimFiles := snd r\<rparr>)"

definition forgetTransientState :: "rt_env \<Rightarrow> string \<Rightarrow> runtime \<Rightarrow> runtime" where
  "forgetTransientState env sid rt =
     (let rt1 = rt\<lparr>sending := (sending rt)(sid := None)\<rparr>;
          rt2 = (if sid \<in> activeDeliveries rt then rt1 else release_session env sid None rt1);
          rt3 = rt2\<lparr>backoffs := (backoffs rt2)(sid := None), aborts := (aborts rt2)(sid := None),
                    holds := (holds rt2)(sid := None)\<rparr>
      in clearHoldWake sid (clearArm sid rt3))"

definition dropQueuedSession :: "rt_env \<Rightarrow> string \<Rightarrow> runtime \<Rightarrow> string option \<times> runtime" where
  "dropQueuedSession env sid rt =
     (case directoryOf (rt_store rt) sid of
        None \<Rightarrow> (None, forgetTransientState env sid rt)
      | Some dir \<Rightarrow>
          (let rt1 = forgetTransientState env sid rt;
               rt2 = rt1\<lparr>rt_store := snd (dropSession sid (rt_store rt1))\<rparr>
           in (Some dir, commit_announce dir rt2)))"

section \<open>Events of the harness\<close>

definition onSessionStatus :: "rt_env \<Rightarrow> string \<Rightarrow> unknown \<Rightarrow> bool \<Rightarrow> runtime \<Rightarrow> runtime" where
  "onSessionStatus env sid status queued rt =
     (let ty = prop_opt (asRecord status) ''type'' in
      if \<not> queued then rt
      else if ty = Some (JStr ''idle'') then armQuiet env sid rt
      else if ty = Some (JStr ''busy'') \<or> ty = Some (JStr ''retry'') then clearArm sid rt
      else rt)"

definition onMessageUpdated :: "rt_env \<Rightarrow> string \<Rightarrow> unknown \<Rightarrow> bool \<Rightarrow> runtime \<Rightarrow> runtime" where
  "onMessageUpdated env sid info queued rt =
     (case asRecord info of
        None \<Rightarrow> rt
      | Some record \<Rightarrow>
          if prop_of record ''role'' \<noteq> Some (JStr ''assistant'') then rt
          else if errorNameOf (prop_of record ''error'') = Some ''MessageAbortedError''
          then rt\<lparr>aborts := (aborts rt)(sid \<mapsto> now rt)\<rparr>
          else if is_number (prop_opt (asRecord (prop_of record ''time'')) ''completed'') \<and> queued \<and> arms rt sid = None
          then armQuiet env sid rt else rt)"

text \<open>\<open>session.deleted\<close> starts the drop under the lock; it runs as a step of its own.\<close>

definition onEnvelope :: "rt_env \<Rightarrow> string \<Rightarrow> unknown \<Rightarrow> runtime \<Rightarrow> runtime" where
  "onEnvelope env ty properties rt =
     (if stopped rt then rt
      else (let props = (case asRecord properties of Some r \<Rightarrow> r | None \<Rightarrow> JObj []);
                sid = (case optionalPropertyString props ''sessionID'' of
                         Some s \<Rightarrow> Some s | None \<Rightarrow> optionalPropertyString props ''sessionId'')
            in case sid of
                 None \<Rightarrow> rt
               | Some s \<Rightarrow>
                   (let queued = (entryOf (rt_store rt) s \<noteq> None) in
                    if ty = ''session.deleted'' then rt\<lparr>pendingDrops := pendingDrops rt @ [s]\<rparr>
                    else if ty = ''session.status'' then onSessionStatus env s (prop_of props ''status'') queued rt
                    else if ty = ''message.updated'' then onMessageUpdated env s (prop_of props ''info'') queued rt
                    else rt)))"

fun reconcile_one :: "rt_env \<Rightarrow> string \<Rightarrow> runtime \<Rightarrow> runtime" where
  "reconcile_one env sid rt =
     (if sending rt sid \<noteq> None \<or> arms rt sid \<noteq> None then rt else armQuiet env sid rt)"

definition reconcileAll :: "rt_env \<Rightarrow> runtime \<Rightarrow> runtime" where
  "reconcileAll env rt =
     (if stopped rt then rt
      else (let rt1 = rt\<lparr>rt_store := snd (recoverWrites (rename_ok env) (rt_store rt))\<rparr>
            in fold (reconcile_one env) (map fst (nonEmptyEntries (rt_store rt1))) rt1))"

definition dispose :: "rt_env \<Rightarrow> runtime \<Rightarrow> runtime" where
  "dispose env rt =
     (let r = releaseAll (cenv env rt) (dispatchClaims rt, claimFiles rt)
      in rt\<lparr>stopped := True, dispatchClaims := fst r, claimFiles := snd r,
            arms := Map.empty, holdWakes := Map.empty\<rparr>)"

definition start :: "rt_env \<Rightarrow> runtime \<Rightarrow> runtime" where
  "start env rt = reconcileAll env (rt\<lparr>rt_store := snd (load (rename_ok env) (rt_store rt))\<rparr>)"

definition snapshotSessions :: "rt_env \<Rightarrow> runtime \<Rightarrow> QueueSessionSnapshot list" where
  "snapshotSessions env rt = snapshot (inFlight env rt) (rt_store rt)"

definition snapshotSessionsShared :: "rt_env \<Rightarrow> runtime \<Rightarrow> (rat \<times> QueueSessionSnapshot list) \<times> runtime" where
  "snapshotSessionsShared env rt =
     withSharedQueue env (\<lambda>x. ((revision (rt_store x), snapshotSessions env x), x)) rt"

definition abortAtOf :: "runtime \<Rightarrow> string \<Rightarrow> int option" where
  "abortAtOf rt sid = aborts rt sid"

section \<open>The tick, await by await\<close>

datatype idleness = Idle | NotIdle | IdleUnknown

text \<open>The verdict from the two answers; \<open>None\<close> is a failed fetch.\<close>

definition verifyIdle :: "string \<Rightarrow> json option \<Rightarrow> json option \<Rightarrow> idleness" where
  "verifyIdle sid statusMap messages =
     (case asRecord statusMap of
        None \<Rightarrow> IdleUnknown
      | Some m \<Rightarrow>
          if prop_of m sid \<noteq> None then NotIdle
          else (case messages of
                  Some (JArr es) \<Rightarrow>
                    if es \<noteq> [] \<and> tailUnfinishedAssistant (last es) then NotIdle else Idle
                | _ \<Rightarrow> IdleUnknown))"

definition end_tick :: "string \<Rightarrow> runtime \<Rightarrow> runtime" where
  "end_tick sid rt = rt\<lparr>ticking := (ticking rt)(sid := None)\<rparr>"

definition await :: "string \<Rightarrow> tick_phase \<Rightarrow> runtime \<Rightarrow> runtime" where
  "await sid ph rt = rt\<lparr>ticking := (ticking rt)(sid \<mapsto> ph)\<rparr>"

text \<open>The \<open>finally\<close> block of \<open>dispatchHead\<close>, then that of \<open>tick\<close>.\<close>

definition finish_dispatch :: "rt_env \<Rightarrow> string \<Rightarrow> DispatchClaim option \<Rightarrow> runtime \<Rightarrow> runtime" where
  "finish_dispatch env sid claim rt =
     (let rt1 = rt\<lparr>sending := (sending rt)(sid := None), activeDeliveries := activeDeliveries rt - {sid}\<rparr>
      in end_tick sid (case claim of Some c \<Rightarrow> release_session env sid (Some c) rt1 | None \<Rightarrow> rt1))"

text \<open>\<open>tickVerified\<close> up to its first await: the stop window, then the backoff record.\<close>

definition tickVerified :: "rt_env \<Rightarrow> string \<Rightarrow> QueueItem \<Rightarrow> string \<Rightarrow> runtime \<Rightarrow> runtime" where
  "tickVerified env sid head dir rt =
     (let stopUntil = map_option (\<lambda>a. a + abortHoldMs (timing env)) (aborts rt sid) in
      if (case stopUntil of Some u \<Rightarrow> now rt < u | None \<Rightarrow> False)
      then arm sid (the stopUntil - now rt) rt
      else (let rt1 = rt\<lparr>aborts := (aborts rt)(sid := None)\<rparr> in
            case backoffs rt1 sid of
              None \<Rightarrow> await sid (PVerify head dir) rt1
            | Some r \<Rightarrow>
                if bo_itemId r \<noteq> item_id head
                then await sid (PVerify head dir) (rt1\<lparr>backoffs := (backoffs rt1)(sid := None)\<rparr>)
                else if bo_nextAttemptAt r > now rt1
                then arm sid (bo_nextAttemptAt r - now rt1) rt1
                else await sid (PVerify head dir) rt1))"

definition tick :: "rt_env \<Rightarrow> string \<Rightarrow> runtime \<Rightarrow> runtime" where
  "tick env sid rt =
     (if stopped rt \<or> ticking rt sid \<noteq> None then rt
      else case entryOf (rt_store rt) sid of
             None \<Rightarrow> rt
           | Some e \<Rightarrow>
               (case items e of
                  [] \<Rightarrow> rt
                | head # _ \<Rightarrow>
                    if sending rt sid \<noteq> None then rt
                    else (let h = heldExpiryOf sid rt in
                          if fst h \<noteq> None then snd h
                          else tickVerified env sid head (directory e) (snd h))))"

text \<open>\<open>dispatchHead\<close> up to its first await. \<open>token\<close> is the claim's \<open>randomUUID()\<close>.\<close>

definition dispatchHead :: "rt_env \<Rightarrow> string \<Rightarrow> string \<Rightarrow> QueueItem \<Rightarrow> string \<Rightarrow> runtime \<Rightarrow> runtime" where
  "dispatchHead env token sid head dir rt =
     (case get_claim (dispatchClaims rt) sid of
        Some claim \<Rightarrow>
          if stopped rt then finish_dispatch env sid (Some claim) rt
          else await sid (PVerify2 head dir claim) rt
      | None \<Rightarrow>
          (let r = acquire (cenv env rt) token (dispatchClaims rt) sid (item_id head) (claimFiles rt);
               rt1 = rt\<lparr>claimFiles := snd r\<rparr>
           in case fst r of
                None \<Rightarrow> finish_dispatch env sid None (arm sid (verifyBackoffMs (timing env)) rt1)
              | Some claim \<Rightarrow>
                  await sid (PStillHead head dir claim)
                    (rt1\<lparr>dispatchClaims := set_claim sid claim (dispatchClaims rt1)\<rparr>)))"

text \<open>After the first idleness check.\<close>

definition afterVerify :: "rt_env \<Rightarrow> string \<Rightarrow> idleness \<Rightarrow> string \<Rightarrow> QueueItem \<Rightarrow> string \<Rightarrow> runtime \<Rightarrow> runtime" where
  "afterVerify env token v sid head dir rt =
     (if v \<noteq> Idle then
        end_tick sid (if v = IdleUnknown then arm sid (verifyBackoffMs (timing env)) rt else rt)
      else (case queue_of (rt_store rt) sid of
              [] \<Rightarrow> end_tick sid rt
            | cur # _ \<Rightarrow>
                if item_id cur \<noteq> item_id head then end_tick sid rt
                else dispatchHead env token sid cur dir rt))"

text \<open>After the re-check of the head under the lock.\<close>

definition afterStillHead :: "rt_env \<Rightarrow> string \<Rightarrow> QueueItem \<Rightarrow> string \<Rightarrow> DispatchClaim \<Rightarrow> runtime \<Rightarrow> runtime" where
  "afterStillHead env sid head dir claim rt =
     (let r = withSharedQueue env (\<lambda>x. (currentHeadId x sid = Some (item_id head), x)) rt in
      if \<not> fst r \<or> stopped (snd r) then finish_dispatch env sid (Some claim) (snd r)
      else await sid (PVerify2 head dir claim) (snd r))"

text \<open>After the second idleness check: the in-flight mark and its broadcast come first.\<close>

definition afterVerify2 :: "rt_env \<Rightarrow> idleness \<Rightarrow> string \<Rightarrow> QueueItem \<Rightarrow> string \<Rightarrow> DispatchClaim \<Rightarrow> runtime \<Rightarrow> runtime" where
  "afterVerify2 env v sid head dir claim rt =
     (if v \<noteq> Idle then finish_dispatch env sid (Some claim) (arm sid (verifyBackoffMs (timing env)) rt)
      else if \<not> owns (dispatchClaims rt) sid (Some claim) then finish_dispatch env sid (Some claim) rt
      else await sid (PDeliver head dir claim)
             (announce dir (rt\<lparr>sending := (sending rt)(sid \<mapsto> item_id head),
                              activeDeliveries := insert sid (activeDeliveries rt)\<rparr>)))"

text \<open>After the delivery: a disposed runtime changes nothing any more.\<close>

definition afterDeliver :: "rt_env \<Rightarrow> bool \<Rightarrow> string \<Rightarrow> QueueItem \<Rightarrow> string \<Rightarrow> DispatchClaim \<Rightarrow> runtime \<Rightarrow> runtime" where
  "afterDeliver env ok sid head dir claim rt =
     (if stopped rt then finish_dispatch env sid (Some claim) rt
      else await sid (PSettle head dir claim ok) rt)"

definition onDelivered :: "QueueItem \<Rightarrow> string \<Rightarrow> string \<Rightarrow> runtime \<Rightarrow> runtime" where
  "onDelivered item sid dir rt =
     (let r = removeItem sid (item_id item) (rt_store rt);
          rt0 = rt\<lparr>rt_store := snd r\<rparr>;
          rt1 = (if fst r \<noteq> None then commit_announce dir rt0 else rt0)
      in rt1\<lparr>backoffs := (backoffs rt1)(sid := None)\<rparr>)"

definition onRejected :: "rt_env \<Rightarrow> QueueItem \<Rightarrow> string \<Rightarrow> string \<Rightarrow> runtime \<Rightarrow> runtime" where
  "onRejected env item sid dir rt =
     (let failures = (case backoffs rt sid of
                        Some p \<Rightarrow> if bo_itemId p = item_id item then bo_failures p + 1 else 1
                      | None \<Rightarrow> 1);
          delay = failureDelayMs failures (timing env)
      in arm sid delay (announce dir (rt\<lparr>backoffs := (backoffs rt)(sid \<mapsto>
           \<lparr>bo_itemId = item_id item, bo_failures = failures, bo_nextAttemptAt = now rt + delay\<rparr>)\<rparr>)))"

text \<open>The settlement under the lock, then the \<open>finally\<close> blocks; a rejected head that is
  still the head keeps the claim for its backoff.\<close>

definition afterSettle :: "rt_env \<Rightarrow> string \<Rightarrow> QueueItem \<Rightarrow> string \<Rightarrow> DispatchClaim \<Rightarrow> bool \<Rightarrow> runtime \<Rightarrow> runtime" where
  "afterSettle env sid head dir claim ok rt =
     (if ok then
        finish_dispatch env sid (Some claim)
          (snd (withSharedQueue env (\<lambda>x. ((), onDelivered head sid dir x)) rt))
      else
        (let r = withSharedQueue env (\<lambda>x.
               if currentHeadId x sid \<noteq> Some (item_id head) then (False, x)
               else (True, onRejected env head sid dir x)) rt
         in finish_dispatch env sid (if fst r then None else Some claim) (snd r)))"

text \<open>An exception inside \<open>dispatchHead\<close> (the \<open>catch\<close> block).\<close>

definition dispatchThrows :: "rt_env \<Rightarrow> string \<Rightarrow> DispatchClaim \<Rightarrow> runtime \<Rightarrow> runtime" where
  "dispatchThrows env sid claim rt =
     finish_dispatch env sid (Some claim)
       (if stopped rt then rt else arm sid (verifyBackoffMs (timing env)) rt)"

end
