(* ===== verification/Queue_Delivery.thy ===== *)
theory Queue_Delivery
  imports Queue_Runtime
begin

text \<open>
  The runtime as a state machine: every way its state can change is a step
  (\<open>rt_step\<close>), with the awaits of a tick interleaved with all other operations. The
  invariant ties the in-flight marks, the claim files and the suspended ticks to the heads of
  the queues, for one process whose file writes succeed.
\<close>

section \<open>Stores that agree with their file\<close>

definition disk_matches :: "store \<Rightarrow> bool" where
  "disk_matches st \<longleftrightarrow>
     readQueueDoc (disk st) = DocLoaded (revision st) (map (\<lambda>(k, e). (k, Some e)) (nonEmptyEntries st)) \<or>
     disk st = FileMissing \<and> nonEmptyEntries st = [] \<and> revision st = 0"

text \<open>Well formed, with usable ids, writable, and saved unless a write is waiting.\<close>

definition store_good :: "store \<Rightarrow> bool" where
  "store_good st \<longleftrightarrow>
     store_wf st \<and> (\<forall>sid. [] \<notin> item_id ` set (queue_of st sid)) \<and>
     0 \<le> revision st \<and> \<not> writesDisabled st \<and> (pendingWrites st = 0 \<longrightarrow> disk_matches st)"

lemma update_absent: "k \<notin> fst ` set al \<Longrightarrow> AList.update k v al = al @ [(k, v)]"
  by (induction al) auto

lemma fold_readd_append:
  "distinct (map fst kvs) \<Longrightarrow>
   sessions (fold readd kvs st) = sessions st @ filter (\<lambda>kv. \<not> has_session st (fst kv)) kvs"
proof (induction kvs arbitrary: st)
  case (Cons kv kvs)
  have eq: "sessions (readd kv st) = sessions st @ (if has_session st (fst kv) then [] else [kv])"
    by (cases kv) (auto simp: readd_def has_session_def update_absent map_of_eq_None_iff)
  have "filter (\<lambda>x. \<not> has_session (readd kv st) (fst x)) kvs = filter (\<lambda>x. \<not> has_session st (fst x)) kvs"
  proof (rule filter_cong [OF refl])
    fix x assume "x \<in> set kvs"
    then have "fst x \<noteq> fst kv" using Cons.prems by (auto simp: image_iff)
    then show "(\<not> has_session (readd kv st) (fst x)) = (\<not> has_session st (fst x))"
      by (simp add: has_session_def readd_sessions)
  qed
  then show ?case using Cons eq by simp
qed simp

lemma fold_readd_disk:
  "disk (fold readd kvs st) = disk st \<and> pendingWrites (fold readd kvs st) = pendingWrites st"
  by (induction kvs arbitrary: st) (auto simp: readd_def)

lemma load_matching:
  assumes "disk_matches st"
  shows "sessions (snd (load rn st)) = nonEmptyEntries st" "revision (snd (load rn st)) = revision st"
    "\<not> writesDisabled (snd (load rn st))" "disk (snd (load rn st)) = disk st"
    "pendingWrites (snd (load rn st)) = pendingWrites st"
  using assms by (auto simp: disk_matches_def load_def)

text \<open>A refresh of a saved store moves the emptied sessions to the end and changes nothing
  else.\<close>

lemma refresh_matching:
  fixes rn st
  assumes good: "store_good st" and saved: "pendingWrites st = 0"
  defines "r \<equiv> snd (refreshPreservingEmpty rn st)"
  shows "entryOf r = entryOf st" "store_good r" "pendingWrites r = 0" "revision r = revision st"
proof -
  have dist: "distinct (map fst (sessions st))" and dm: "disk_matches st"
    using good saved by (auto simp: store_good_def store_wf_def)
  let ?empty = "filter (\<lambda>(k, e). items e = []) (sessions st)"
  let ?l = "snd (load rn st)"
  have r: "r = fold readd ?empty ?l" by (simp add: r_def refreshPreservingEmpty_def Let_def)
  have de: "distinct (map fst ?empty)" using dist by (metis distinct_map_filter)
  have eo: "entryOf r sid = entryOf st sid" for sid
    using map_of_split_empty [OF dist, of sid] load_matching(1) [OF dm, of rn]
    by (auto simp: entryOf_def r fold_readd [OF de] has_session_def nonEmptyEntries_def split: if_splits)
  then show e: "entryOf r = entryOf st" by (simp add: fun_eq_iff)
  have "fst ` set (filter (\<lambda>kv. \<not> has_session ?l (fst kv)) ?empty) \<inter> fst ` set (sessions ?l) = {}"
    by (auto simp: has_session_def map_of_eq_None_iff)
  then have ds: "distinct (map fst (sessions r))"
    using de dist load_matching(1) [OF dm, of rn]
    by (auto simp: r fold_readd_append [OF de] nonEmptyEntries_def distinct_map_filter)
  have q: "queue_of r = queue_of st" by (simp add: queue_of_def fun_eq_iff e)
  have ne: "nonEmptyEntries r = nonEmptyEntries st"
    using load_matching(1) [OF dm, of rn]
    by (auto simp: nonEmptyEntries_def r fold_readd_append [OF de] filter_empty_conv)
  show rev: "revision r = revision st" and pw: "pendingWrites r = 0"
    using load_matching [OF dm, of rn] saved by (simp_all add: r fold_readd_rest fold_readd_disk)
  have "disk r = disk st" "\<not> writesDisabled r"
    using load_matching [OF dm, of rn] by (simp_all add: r fold_readd_rest fold_readd_disk)
  then show "store_good r"
    using good ds q ne rev pw dm by (simp add: store_good_def store_wf_def disk_matches_def)
qed

lemma flush_good:
  assumes "store_good st"
  shows "store_good (flushWrites True st)" "pendingWrites (flushWrites True st) = 0"
    "entryOf (flushWrites True st) = entryOf st" "revision (flushWrites True st) = revision st"
proof -
  have q: "queue_of (flushWrites True st) = queue_of st"
    by (simp add: queue_of_def entryOf_def flushWrites_def writeNow_def fun_eq_iff)
  have ne: "nonEmptyEntries (st\<lparr>disk := d, pendingWrites := n\<rparr>) = nonEmptyEntries st" for d n
    by (simp add: nonEmptyEntries_def)
  show "store_good (flushWrites True st)"
    using assms q unfolding store_good_def store_wf_def
    by (auto simp: flushWrites_def writeNow_def disk_matches_def read_persisted ne simp del: readQueueDoc.simps)
qed (simp_all add: flushWrites_def writeNow_def entryOf_def fun_eq_iff)

section \<open>The invariant\<close>

fun phase_item :: "tick_phase \<Rightarrow> QueueItem" where
  "phase_item (PVerify i d) = i"
| "phase_item (PStillHead i d c) = i"
| "phase_item (PVerify2 i d c) = i"
| "phase_item (PDeliver i d c) = i"
| "phase_item (PSettle i d c ok) = i"

fun phase_claim :: "tick_phase \<Rightarrow> DispatchClaim option" where
  "phase_claim (PVerify i d) = None"
| "phase_claim (PStillHead i d c) = Some c"
| "phase_claim (PVerify2 i d c) = Some c"
| "phase_claim (PDeliver i d c) = Some c"
| "phase_claim (PSettle i d c ok) = Some c"

fun delivering :: "tick_phase \<Rightarrow> bool" where
  "delivering (PDeliver i d c) = True"
| "delivering (PSettle i d c ok) = True"
| "delivering _ = False"

abbreviation claim_of :: "runtime \<Rightarrow> string \<Rightarrow> DispatchClaim option" where
  "claim_of rt sid \<equiv> get_claim (dispatchClaims rt) sid"

text \<open>A claim the process holds is the one its file records.\<close>

definition held_ok :: "rt_env \<Rightarrow> runtime \<Rightarrow> string \<Rightarrow> bool" where
  "held_ok env rt sid \<longleftrightarrow> (\<forall>c. claim_of rt sid = Some c \<longrightarrow>
     claim_path c = pathFor (cenv env rt) (dispatchClaims rt) sid \<and>
     claim_token c \<notin> set (released (dispatchClaims rt)) \<and>
     (\<exists>d. claimFiles rt (claim_path c) = Some (ClaimDoc d) \<and> doc_pid d = re_pid env \<and> doc_token d = claim_token c))"

definition claimed :: "runtime \<Rightarrow> string \<Rightarrow> string option" where
  "claimed rt sid =
     (case claim_of rt sid of
        None \<Rightarrow> None
      | Some c \<Rightarrow> (case claimFiles rt (claim_path c) of Some (ClaimDoc d) \<Rightarrow> Some (doc_itemId d) | _ \<Rightarrow> None))"

text \<open>The item being sent, and the item a claim names, is the head of its queue; after the
  session was dropped during a delivery the claim outlives its item.\<close>

definition head_ok :: "runtime \<Rightarrow> string \<Rightarrow> bool" where
  "head_ok rt sid \<longleftrightarrow>
     (\<forall>i. sending rt sid = Some i \<longrightarrow> currentHeadId rt sid = Some i \<and> sid \<in> activeDeliveries rt) \<and>
     (\<forall>i. claimed rt sid = Some i \<longrightarrow> sid \<in> activeDeliveries rt \<and> sending rt sid = None \<or> currentHeadId rt sid = Some i)"

text \<open>A suspended tick still holds its claim, on its item, or the claim has been released.\<close>

definition phase_ok :: "runtime \<Rightarrow> string \<Rightarrow> bool" where
  "phase_ok rt sid \<longleftrightarrow>
     (\<forall>ph c. ticking rt sid = Some ph \<and> phase_claim ph = Some c \<longrightarrow>
        claim_of rt sid = Some c \<and> claimed rt sid = Some (item_id (phase_item ph)) \<or>
        claim_of rt sid = None \<and> claim_token c \<in> set (released (dispatchClaims rt))) \<and>
     (sid \<in> activeDeliveries rt \<longleftrightarrow> (\<exists>ph. ticking rt sid = Some ph \<and> delivering ph)) \<and>
     (\<forall>i ph. sending rt sid = Some i \<and> ticking rt sid = Some ph \<longrightarrow> item_id (phase_item ph) = i)"

definition claims_ok :: "rt_env \<Rightarrow> runtime \<Rightarrow> bool" where
  "claims_ok env rt \<longleftrightarrow>
     distinct (map fst (claims (dispatchClaims rt))) \<and> (\<forall>sid. held_ok env rt sid) \<and>
     (\<forall>s s' c c'. claim_of rt s = Some c \<and> claim_of rt s' = Some c' \<and> claim_token c = claim_token c' \<longrightarrow> s = s')"

text \<open>The invariant, with the sessions of \<open>X\<close> exempt from \<open>head_ok\<close>.\<close>

definition rt_inv_ex :: "rt_env \<Rightarrow> string set \<Rightarrow> runtime \<Rightarrow> bool" where
  "rt_inv_ex env X rt \<longleftrightarrow>
     store_good (rt_store rt) \<and> pendingWrites (rt_store rt) = 0 \<and> claims_ok env rt \<and>
     (\<forall>sid. phase_ok rt sid) \<and> (\<forall>sid. sid \<notin> X \<longrightarrow> head_ok rt sid)"

abbreviation rt_inv :: "rt_env \<Rightarrow> runtime \<Rightarrow> bool" where
  "rt_inv env rt \<equiv> rt_inv_ex env {} rt"

text \<open>The fields the invariant reads.\<close>

definition core where
  "core rt = (rt_store rt, sending rt, activeDeliveries rt, dispatchClaims rt, claimFiles rt, ticking rt)"

lemma pathFor_cenv: "pathFor (cenv env rt) c sid = queueFile c @ ''.dispatch-'' @ re_digest env sid @ ''.claim''"
  by (simp add: pathFor_def cenv_def)

lemma rt_inv_core:
  assumes "core rt = core rt'"
  shows "rt_inv_ex env X rt = rt_inv_ex env X rt'"
proof -
  have eqs: "rt_store rt = rt_store rt'" "sending rt = sending rt'" "activeDeliveries rt = activeDeliveries rt'"
    "dispatchClaims rt = dispatchClaims rt'" "claimFiles rt = claimFiles rt'" "ticking rt = ticking rt'"
    using assms by (simp_all add: core_def)
  show ?thesis
    unfolding rt_inv_ex_def claims_ok_def held_ok_def phase_ok_def head_ok_def claimed_def
      currentHeadId_def pathFor_cenv eqs ..
qed

lemma core_timers [simp]:
  "core (arm sid d rt) = core rt" "core (clearArm sid rt) = core rt" "core (clearHoldWake sid rt) = core rt"
  "core (armHoldWake sid e rt) = core rt" "core (snd (heldExpiryOf sid rt)) = core rt"
  by (auto simp: core_def arm_def clearArm_def clearHoldWake_def armHoldWake_def heldExpiryOf_def Let_def
      split: option.splits)

lemma core_armQuiet [simp]: "core (armQuiet env sid rt) = core rt"
  by (simp add: armQuiet_def Let_def)

lemma core_setHold [simp]: "core (snd (setHold env sid h ttl rt)) = core rt"
proof -
  have "core (rt\<lparr>holds := f\<rparr>) = core rt" for f by (simp add: core_def)
  then show ?thesis by (simp add: setHold_def Let_def)
qed

lemma core_onEnvelope [simp]: "core (onEnvelope env ty props rt) = core rt"
proof -
  have "core (rt\<lparr>aborts := f\<rparr>) = core rt" "core (rt\<lparr>pendingDrops := g\<rparr>) = core rt" for f g
    by (simp_all add: core_def)
  then show ?thesis
    by (auto simp: onEnvelope_def onSessionStatus_def onMessageUpdated_def Let_def split: option.splits)
qed

lemma core_reconcileAll [simp]:
  assumes "\<not> writesDisabled (rt_store rt)"
  shows "core (reconcileAll env rt) = core rt"
proof -
  have one: "core (reconcile_one env sid x) = core x" for sid x by simp
  have "core (fold (reconcile_one env) ss x) = core x" for ss x
    by (induction ss arbitrary: x) (simp_all only: fold_simps one id_apply comp_apply)
  moreover have "rt\<lparr>rt_store := snd (recoverWrites (rename_ok env) (rt_store rt))\<rparr> = rt"
    using assms by (simp add: recoverWrites_def)
  ultimately show ?thesis by (simp add: reconcileAll_def Let_def)
qed

text \<open>What the in-flight lookup answers for an item that is being sent or claimed.\<close>

lemma inFlight_sending: "sending rt sid = Some i \<Longrightarrow> i \<noteq> [] \<Longrightarrow> inFlight env rt sid = Some i"
  by (cases i) (simp_all add: inFlight_def inFlightIdOf_def)

lemma inFlight_claimed:
  assumes "held_ok env rt sid" "re_alive env (re_pid env)" "claimed rt sid = Some i"
    and "sending rt sid = None"
  shows "inFlight env rt sid = Some i"
proof -
  obtain c d where c: "claim_of rt sid = Some c" "claimFiles rt (claim_path c) = Some (ClaimDoc d)" "i = doc_itemId d"
    using assms(3) by (auto simp: claimed_def split: option.splits claim_file.splits)
  then have "claim_path c = pathFor (cenv env rt) (dispatchClaims rt) sid" "doc_pid d = re_pid env"
    using assms(1) by (auto simp: held_ok_def)
  then have "view (cenv env rt) (claimFiles rt) (pathFor (cenv env rt) (dispatchClaims rt) sid) = Owned d"
    using c assms(2) by (simp add: view_def cenv_def)
  then show ?thesis using assms(4) c(3) by (simp add: inFlight_def inFlight_view)
qed

section \<open>Mutations under the file lock\<close>

definition marks where
  "marks rt = (sending rt, activeDeliveries rt, dispatchClaims rt, claimFiles rt, ticking rt)"

lemma inv_marks:
  assumes inv: "rt_inv_ex env X rt" and alive: "re_alive env (re_pid env)" and m: "marks rt' = marks rt"
    and st: "store_good (rt_store rt')" "pendingWrites (rt_store rt') = 0"
    and heads: "\<And>sid i. sid \<notin> Y \<Longrightarrow> inFlight env rt sid = Some i \<Longrightarrow> currentHeadId rt sid = Some i \<Longrightarrow>
                 currentHeadId rt' sid = Some i"
    and sub: "X \<subseteq> Y"
  shows "rt_inv_ex env Y rt'"
proof -
  have eqs: "sending rt' = sending rt" "activeDeliveries rt' = activeDeliveries rt"
    "dispatchClaims rt' = dispatchClaims rt" "claimFiles rt' = claimFiles rt" "ticking rt' = ticking rt"
    using m by (simp_all add: marks_def)
  have ho: "held_ok env rt' sid = held_ok env rt sid" and cl: "claimed rt' sid = claimed rt sid"
    and ph: "phase_ok rt' sid = phase_ok rt sid" for sid
    unfolding phase_ok_def held_ok_def claimed_def pathFor_cenv eqs by (rule refl)+
  have co: "claims_ok env rt'" using inv unfolding rt_inv_ex_def claims_ok_def ho eqs by blast
  have "head_ok rt' sid" if "sid \<notin> Y" for sid
  proof -
    have h: "head_ok rt sid" and held: "held_ok env rt sid"
      using inv that sub by (auto simp: rt_inv_ex_def claims_ok_def)
    have "[] \<notin> item_id ` set (queue_of (rt_store rt) sid)"
      using inv unfolding rt_inv_ex_def store_good_def by blast
    then have ne: "currentHeadId rt sid \<noteq> Some []"
      by (auto simp: currentHeadId_def split: list.splits)
    have "currentHeadId rt' sid = Some i" if "sending rt sid = Some i" for i
      using h that ne heads [OF \<open>sid \<notin> Y\<close>] inFlight_sending [of rt sid i env] by (auto simp: head_ok_def)
    moreover have "currentHeadId rt' sid = Some i"
      if "claimed rt sid = Some i" "currentHeadId rt sid = Some i" "sending rt sid = None" for i
      using that heads [OF \<open>sid \<notin> Y\<close>] inFlight_claimed [OF held alive] by blast
    ultimately show ?thesis
      using h unfolding head_ok_def eqs cl by (metis option.exhaust option.inject)
  qed
  then show ?thesis using inv co st ph by (auto simp: rt_inv_ex_def)
qed

text \<open>What a mutation promises: it touches neither the marks nor the claims, keeps the store
  good, and keeps the head of a session while that head is in flight.\<close>

locale shared_mutation =
  fixes env :: rt_env and mutate :: "runtime \<Rightarrow> 'a \<times> runtime"
  assumes keeps_marks: "marks (snd (mutate rt)) = marks rt"
    and keeps_store: "store_good (rt_store rt) \<Longrightarrow> store_good (rt_store (snd (mutate rt)))"
    and keeps_heads: "store_good (rt_store rt) \<Longrightarrow> inFlight env rt sid = Some i \<Longrightarrow>
          currentHeadId rt sid = Some i \<Longrightarrow> currentHeadId (snd (mutate rt)) sid = Some i"
begin

lemma shared_inv:
  assumes inv: "rt_inv_ex env X rt" and env: "re_alive env (re_pid env)" "write_ok env"
  shows "rt_inv_ex env X (snd (withSharedQueue env mutate rt))"
proof -
  let ?r = "refreshed env rt"
  let ?m = "snd (mutate ?r)"
  have good: "store_good (rt_store rt)" "pendingWrites (rt_store rt) = 0" using inv by (auto simp: rt_inv_ex_def)
  note r = refresh_matching [OF good, of "rename_ok env"]
  have hd: "currentHeadId ?r = currentHeadId rt"
    using r(1) by (simp add: fun_eq_iff currentHeadId_def queue_of_def refreshed_def)
  have hr: "currentHeadId ?r = currentHeadId rt" "inFlight env ?r = inFlight env rt" "marks ?r = marks rt"
    using hd by (simp_all add: fun_eq_iff inFlight_def hd) (simp_all add: refreshed_def cenv_def marks_def)
  have sg: "store_good (rt_store ?r)" using r(2) by (simp add: refreshed_def)
  have res: "snd (withSharedQueue env mutate rt) = flushed env ?m"
    by (simp add: withSharedQueue_def Let_def)
  note f = flush_good [OF keeps_store [OF sg]]
  have hf: "currentHeadId (flushed env x) = currentHeadId x" "marks (flushed env x) = marks x" for x
    by (simp_all add: fun_eq_iff currentHeadId_def queue_of_def entryOf_def flushed_def flushWrites_def
        writeNow_def marks_def)
  show ?thesis
    unfolding res
  proof (rule inv_marks [OF inv env(1)])
    show "marks (flushed env ?m) = marks rt" by (simp add: hf keeps_marks hr)
    show "store_good (rt_store (flushed env ?m))" "pendingWrites (rt_store (flushed env ?m)) = 0"
      using f(1,2) env(2) by (simp_all add: flushed_def)
    show "currentHeadId (flushed env ?m) sid = Some i"
      if "inFlight env rt sid = Some i" "currentHeadId rt sid = Some i" for sid i
      using keeps_heads [OF sg, of sid i] that by (simp add: hf hr)
  qed simp
qed

end

text \<open>Ingredients of the interpretations.\<close>

lemma marks_upd [simp]:
  "marks (rt\<lparr>rt_store := st\<rparr>) = marks rt" "marks (announceWithRevision dir n rt) = marks rt"
  "marks (arm sid d rt) = marks rt" "marks (rt\<lparr>backoffs := b\<rparr>) = marks rt"
  by (auto simp: marks_def announceWithRevision_def arm_def Let_def split: option.splits)

lemma marks_armQuiet [simp]: "marks (armQuiet env sid rt) = marks rt"
  using core_armQuiet [of env sid rt] by (auto simp: marks_def core_def)

lemma store_armQuiet [simp]: "rt_store (armQuiet env sid rt) = rt_store rt"
  using core_armQuiet [of env sid rt] by (auto simp: core_def)

lemma store_arm [simp]: "rt_store (arm sid d rt) = rt_store rt"
  using core_timers(1) [of sid d rt] by (simp add: core_def)

lemma marks_commit_announce [simp]: "marks (commit_announce dir rt) = marks rt"
  by (simp add: commit_announce_def Let_def)

lemma store_announce [simp]:
  "rt_store (announceWithRevision dir n rt) = rt_store rt"
  "rt_store (commit_announce dir rt) = commit (rt_store rt)"
  by (simp_all add: announceWithRevision_def commit_announce_def Let_def)

lemma currentHeadId_store: "rt_store rt' = rt_store rt \<Longrightarrow> currentHeadId rt' sid = currentHeadId rt sid"
  by (simp add: currentHeadId_def)

lemma head_of_queue:
  "currentHeadId rt sid = Some i \<longleftrightarrow> (\<exists>it rest. queue_of (rt_store rt) sid = it # rest \<and> item_id it = i)"
  by (auto simp: currentHeadId_def split: list.splits)

lemma good_commit:
  assumes "store_wf st'" "\<And>sid. item_id ` set (queue_of st' sid) \<subseteq> item_id ` set (queue_of st sid) \<union> A"
    and "store_good st" "revision st' = revision st" "writesDisabled st' = writesDisabled st" "[] \<notin> A"
  shows "store_good (commit st')"
proof -
  have "queue_of (commit st') = queue_of st'" by (simp add: queue_view)
  moreover have "[] \<notin> item_id ` set (queue_of st' sid)" for sid
    using assms(2) [of sid] assms(3,6) by (auto simp: store_good_def)
  moreover have "0 < pendingWrites (commit st')" "\<not> writesDisabled (commit st')"
    using assms(3,5) by (simp_all add: commit_def scheduleWrite_def store_good_def)
  ultimately show ?thesis
    using assms(1,3,4) by (simp add: store_good_def)
qed

lemma set_items_rest [simp]:
  "revision (set_items sid its st) = revision st" "writesDisabled (set_items sid its st) = writesDisabled st"
  "pendingWrites (set_items sid its st) = pendingWrites st" "disk (set_items sid its st) = disk st"
  by (auto simp: set_items_def split: option.splits)

lemma removeItem_rest [simp]:
  "revision (snd (removeItem sid iid st)) = revision st"
  "writesDisabled (snd (removeItem sid iid st)) = writesDisabled st"
  by (auto simp: removeItem_def split: option.splits)

lemma takeAllExcept_rest [simp]:
  "revision (snd (takeAllExcept sid k st)) = revision st"
  "writesDisabled (snd (takeAllExcept sid k st)) = writesDisabled st"
  by (auto simp: takeAllExcept_def split: option.splits)

lemma good_removeItem: "store_good st \<Longrightarrow> store_good (commit (snd (removeItem sid iid st)))"
  by (rule good_commit [where A = "{}"])
     (use set_remove_first [of iid "queue_of st sid"] in
       \<open>auto simp: store_good_def store_wf_removeItem queue_view\<close>)

lemma good_takeAllExcept: "store_good st \<Longrightarrow> store_good (commit (snd (takeAllExcept sid k st)))"
  by (rule good_commit [where A = "{}"]) (auto simp: store_good_def store_wf_takeAllExcept queue_view)

lemma removeItem_None: "fst (removeItem sid iid st) = None \<Longrightarrow> snd (removeItem sid iid st) = st"
  by (auto simp: removeItem_def split: option.splits)

lemma removeItem_Some_dir: "fst (removeItem sid iid st) = Some it \<Longrightarrow> \<exists>dir. directoryOf st sid = Some dir"
  by (auto simp: removeItem_def directoryOf_def split: option.splits)

lemma takeAllExcept_none:
  assumes "fst (takeAllExcept sid k st) = []"
  shows "snd (takeAllExcept sid k st) = st"
proof (cases "entryOf st sid")
  case (Some e)
  then have all: "\<forall>i \<in> set (items e). Some (item_id i) = k"
    using assms by (simp add: takeAllExcept_def filter_empty_conv)
  then have "filter (\<lambda>i. Some (item_id i) = k) (items e) = items e" by (simp add: filter_id_conv)
  moreover have "items e = []" if "k = None" using all that by (cases "items e") auto
  ultimately have "snd (takeAllExcept sid k st) = set_items sid (items e) st"
    using Some by (auto simp: takeAllExcept_def)
  also have "\<dots> = st" using Some by (simp add: set_items_def entryOf_def AList.update_triv)
  finally show ?thesis .
qed (simp add: takeAllExcept_def)

lemma takeItem_cases:
  obtains "snd (takeItem env sid iid rt) = rt"
  | "inFlight env rt sid \<noteq> Some iid"
    "rt_store (snd (takeItem env sid iid rt)) = commit (snd (removeItem sid iid (rt_store rt)))"
    "marks (snd (takeItem env sid iid rt)) = marks rt"
proof (cases "inFlight env rt sid = Some iid \<or> fst (removeItem sid iid (rt_store rt)) = None")
  case True
  then have "snd (takeItem env sid iid rt) = rt"
    by (auto simp: takeItem_def Let_def removeItem_None split: option.splits)
  then show ?thesis using that by blast
next
  case False
  then obtain it dir where r: "fst (removeItem sid iid (rt_store rt)) = Some it" "directoryOf (rt_store rt) sid = Some dir"
    using removeItem_Some_dir by blast
  then show ?thesis
    using that(2) False by (simp add: takeItem_def Let_def)
qed

lemma deleteItem_cases:
  obtains "snd (deleteItem env sid iid rt) = rt"
  | "inFlight env rt sid \<noteq> Some iid"
    "rt_store (snd (deleteItem env sid iid rt)) = commit (snd (removeItem sid iid (rt_store rt)))"
    "marks (snd (deleteItem env sid iid rt)) = marks rt"
proof (cases "inFlight env rt sid = Some iid \<or> fst (removeItem sid iid (rt_store rt)) = None")
  case True
  then have "snd (deleteItem env sid iid rt) = rt"
    by (auto simp: deleteItem_def Let_def removeItem_None split: option.splits)
  then show ?thesis using that by blast
next
  case False
  then obtain it dir where r: "fst (removeItem sid iid (rt_store rt)) = Some it" "directoryOf (rt_store rt) sid = Some dir"
    using removeItem_Some_dir by blast
  then show ?thesis
    using that(2) False by (simp add: deleteItem_def Let_def)
qed

text \<open>Removing another item than the head keeps the head.\<close>

lemma head_removeItem:
  assumes "currentHeadId rt sid = Some i" "t = sid \<longrightarrow> iid \<noteq> i"
    and "rt_store rt' = commit (snd (removeItem t iid (rt_store rt)))"
  shows "currentHeadId rt' sid = Some i"
  using assms by (auto simp: head_of_queue queue_view)

lemma head_takeAll:
  assumes "currentHeadId rt sid = Some i" "t = sid \<longrightarrow> k = Some i"
    and "rt_store rt' = commit (snd (takeAllExcept t k (rt_store rt)))"
  shows "currentHeadId rt' sid = Some i"
  using assms by (auto simp: head_of_queue queue_view)

interpretation take: shared_mutation env "takeItem env sid iid" for env sid iid
proof (unfold_locales, goal_cases)
  case (1 rt)
  show ?case by (rule takeItem_cases [of env sid iid rt]) simp_all
next
  case (2 rt)
  show ?case by (rule takeItem_cases [of env sid iid rt]) (use 2 in \<open>simp_all add: good_removeItem\<close>)
next
  case (3 rt s i)
  show ?case by (rule takeItem_cases [of env sid iid rt]) (use 3 in \<open>auto intro: head_removeItem\<close>)
qed

interpretation delete: shared_mutation env "deleteItem env sid iid" for env sid iid
proof (unfold_locales, goal_cases)
  case (1 rt)
  show ?case by (rule deleteItem_cases [of env sid iid rt]) simp_all
next
  case (2 rt)
  show ?case by (rule deleteItem_cases [of env sid iid rt]) (use 2 in \<open>simp_all add: good_removeItem\<close>)
next
  case (3 rt s i)
  show ?case by (rule deleteItem_cases [of env sid iid rt]) (use 3 in \<open>auto intro: head_removeItem\<close>)
qed

lemma takeAllItems_cases:
  obtains "snd (takeAllItems env sid rt) = rt"
  | "rt_store (snd (takeAllItems env sid rt)) = commit (snd (takeAllExcept sid (inFlight env rt sid) (rt_store rt)))"
    "marks (snd (takeAllItems env sid rt)) = marks rt"
proof (cases "directoryOf (rt_store rt) sid")
  case None
  then show ?thesis using that by (simp add: takeAllItems_def)
next
  case (Some dir)
  then show ?thesis
    using that takeAllExcept_none [of sid "inFlight env rt sid" "rt_store rt"]
    by (cases "fst (takeAllExcept sid (inFlight env rt sid) (rt_store rt)) = []")
       (simp_all add: takeAllItems_def Let_def)
qed

lemma deleteSessionQueue_cases:
  obtains "snd (deleteSessionQueue env sid rt) = rt"
  | "rt_store (snd (deleteSessionQueue env sid rt)) = commit (snd (takeAllExcept sid (inFlight env rt sid) (rt_store rt)))"
    "marks (snd (deleteSessionQueue env sid rt)) = marks rt"
proof (cases "directoryOf (rt_store rt) sid")
  case None
  then show ?thesis using that by (simp add: deleteSessionQueue_def)
next
  case (Some dir)
  then show ?thesis
    using that takeAllExcept_none [of sid "inFlight env rt sid" "rt_store rt"]
    by (cases "fst (takeAllExcept sid (inFlight env rt sid) (rt_store rt)) = []")
       (simp_all add: deleteSessionQueue_def Let_def)
qed


interpretation take_all: shared_mutation env "takeAllItems env sid" for env sid
proof (unfold_locales, goal_cases)
  case (1 rt)
  show ?case by (rule takeAllItems_cases [of env sid rt]) simp_all
next
  case (2 rt)
  show ?case by (rule takeAllItems_cases [of env sid rt]) (use 2 in \<open>simp_all add: good_takeAllExcept\<close>)
next
  case (3 rt s i)
  show ?case by (rule takeAllItems_cases [of env sid rt]) (use 3 in \<open>auto intro: head_takeAll\<close>)
qed

interpretation clear: shared_mutation env "deleteSessionQueue env sid" for env sid
proof (unfold_locales, goal_cases)
  case (1 rt)
  show ?case by (rule deleteSessionQueue_cases [of env sid rt]) simp_all
next
  case (2 rt)
  show ?case by (rule deleteSessionQueue_cases [of env sid rt]) (use 2 in \<open>simp_all add: good_takeAllExcept\<close>)
next
  case (3 rt s i)
  show ?case by (rule deleteSessionQueue_cases [of env sid rt]) (use 3 in \<open>auto intro: head_takeAll\<close>)
qed

lemma reorderItems_cases:
  obtains "snd (reorderItems env sid ids rt) = rt"
  | st where "reorder sid ids (inFlight env rt sid) (rt_store rt) = (Applied, st)" "ids \<noteq> []"
    "rt_store (snd (reorderItems env sid ids rt)) = commit st"
    "marks (snd (reorderItems env sid ids rt)) = marks rt"
proof (cases "\<exists>e. entryOf (rt_store rt) sid = Some e \<and> items e \<noteq> [] \<and> ids \<noteq> [] \<and>
    fst (reorder sid ids (inFlight env rt sid) (rt_store rt)) = Applied")
  case True
  then obtain e st where "entryOf (rt_store rt) sid = Some e" "items e \<noteq> []" "ids \<noteq> []"
    "reorder sid ids (inFlight env rt sid) (rt_store rt) = (Applied, st)"
    by (metis prod.collapse)
  then show ?thesis using that(2) [of st] by (simp add: reorderItems_def Let_def)
next
  case False
  then have "snd (reorderItems env sid ids rt) = rt"
    by (auto simp: reorderItems_def Let_def split: option.splits)
  then show ?thesis using that by blast
qed

interpretation reorder: shared_mutation env "reorderItems env sid ids" for env sid ids
proof (unfold_locales, goal_cases)
  case (1 rt)
  show ?case by (rule reorderItems_cases [of env sid ids rt]) simp_all
next
  case (2 rt)
  show ?case
  proof (rule reorderItems_cases [of env sid ids rt])
    fix st assume r: "reorder sid ids (inFlight env rt sid) (rt_store rt) = (Applied, st)"
      and eq: "rt_store (snd (reorderItems env sid ids rt)) = commit st"
    have st: "st = snd (reorder sid ids (inFlight env rt sid) (rt_store rt))" using r by simp
    have "set (queue_of st s) = set (queue_of (rt_store rt) s)" for s
      using sq.permute_queue [of sid ids "inFlight env rt sid" "rt_store rt" s] st by (metis mset_eq_setD)
    moreover have "store_wf st" using sq.permute_invar 2 st by (simp add: store_good_def)
    moreover have "revision st = revision (rt_store rt)" "writesDisabled st = writesDisabled (rt_store rt)"
      by (subst reorder_Applied(7) [OF r], simp)+
    ultimately show ?thesis unfolding eq by (intro good_commit [OF _ _ 2, where A = "{}"]) auto
  qed (use 2 in simp)
next
  case (3 rt s i)
  show ?case
  proof (rule reorderItems_cases [of env sid ids rt])
    fix st assume r: "reorder sid ids (inFlight env rt sid) (rt_store rt) = (Applied, st)" "ids \<noteq> []"
      and eq: "rt_store (snd (reorderItems env sid ids rt)) = commit st"
    show ?thesis
    proof (cases "s = sid")
      case True
      then have "ids = i # tl ids" using reorder_Applied(4) [OF r(1) _ r(2)] 3(2) r(2) by (cases ids) auto
      then show ?thesis using reorder_Applied(2) [OF r(1)] True
        by (auto simp: head_of_queue eq queue_view map_eq_Cons_conv)
    next
      case False
      then show ?thesis using reorder_Applied(5) [OF r(1) False] 3(3)
        by (simp add: head_of_queue eq queue_view)
    qed
  qed (use 3 in simp)
qed

lemma parsed_id_nonempty: "parseQueuedItemInput penv raw = Inr item \<Longrightarrow> item_id item \<noteq> []"
  by (erule parseQueuedItemInput_Inr) (auto simp: newQueueItemId_def split: option.splits)

lemma parsed_id:
  assumes "parseQueuedItemInput penv (Some body) = Inr item"
    and "optionalString (prop_of body ''id'') ''id'' = Inr (Some i)"
  shows "item_id item = i"
  using assms(1) by (rule parseQueuedItemInput_Inr) (use assms(2) in simp)

lemma findItem_None: "findItem st sid iid = None \<Longrightarrow> iid \<notin> item_id ` set (queue_of st sid)"
  by (auto simp: findItem_def queue_of_def find_None_iff split: option.splits)

lemma enqueueItem_cases:
  obtains "snd (enqueueItem env penv sid dir raw rt) = rt"
  | item st where "parseQueuedItemInput penv raw = Inr item"
    "item_id item \<notin> item_id ` set (queue_of (rt_store rt) sid)"
    "enqueue sid dir item (inFlight env rt) (rt_store rt) = Some st"
    "rt_store (snd (enqueueItem env penv sid dir raw rt)) = st"
    "marks (snd (enqueueItem env penv sid dir raw rt)) = marks rt"
proof (cases "\<exists>item st. parseQueuedItemInput penv raw = Inr item \<and>
    findItem (rt_store rt) sid (item_id item) = None \<and>
    enqueue sid dir item (inFlight env rt) (rt_store rt) = Some st")
  case True
  then show ?thesis using that(2) by (auto simp: enqueueItem_def findItem_None)
next
  case False
  then have "snd (enqueueItem env penv sid dir raw rt) = rt"
    by (auto simp: enqueueItem_def split: sum.splits option.splits)
  then show ?thesis using that by blast
qed

lemma head_queue_after:
  "its = it # rest \<Longrightarrow> f = Some (item_id it) \<Longrightarrow> \<exists>r. queue_after f its item = it # r"
  by (cases "Suc (length its) - QUEUE_MAX_ITEMS_PER_SESSION") (auto simp: queue_after_def)

lemma enqueue_shape: "enqueue sid dir item f st = Some st' \<Longrightarrow> \<exists>ss. st' = commit (st\<lparr>sessions := ss\<rparr>)"
  by (auto simp: enqueue_def Let_def split: option.splits)

lemma enqueue_good:
  assumes good: "store_good st" and fresh: "item_id item \<notin> item_id ` set (queue_of st sid)"
    and enq: "enqueue sid dir item f st = Some st'" and ne: "item_id item \<noteq> []"
  shows "store_good st'"
proof -
  have wf: "store_wf st" using good by (simp add: store_good_def)
  note v = enqueue_viewD [OF wf fresh enq]
  obtain ss where st': "st' = commit (st\<lparr>sessions := ss\<rparr>)"
    using enqueue_shape [OF enq] by blast
  have q: "queue_of st' = queue_of (st\<lparr>sessions := ss\<rparr>)" by (simp add: st' queue_view)
  have "set (queue_of st' s) \<subseteq> set (queue_of st s) \<union> {item}" for s
  proof (cases "s = sid")
    case True
    then show ?thesis
      using v(2) set_drop_unpinned [of "f sid" _ "queue_of st sid @ [item]"] by (auto simp: queue_after_def)
  qed (use v(3) [of s] in auto)
  then have "item_id ` set (queue_of (st\<lparr>sessions := ss\<rparr>) s) \<subseteq> item_id ` set (queue_of st s) \<union> {item_id item}" for s
    unfolding q by blast
  moreover have "store_wf (st\<lparr>sessions := ss\<rparr>)" using v(1) by (simp add: st')
  ultimately show ?thesis
    unfolding st' by (intro good_commit [OF _ _ good, where A = "{item_id item}"]) (use ne in auto)
qed

interpretation enqueue: shared_mutation env "enqueueItem env penv sid dir raw" for env penv sid dir raw
proof (unfold_locales, goal_cases)
  case (1 rt)
  show ?case by (rule enqueueItem_cases [of env penv sid dir raw rt]) simp_all
next
  case (2 rt)
  show ?case
    by (rule enqueueItem_cases [of env penv sid dir raw rt])
       (use 2 in \<open>auto intro: enqueue_good dest: parsed_id_nonempty\<close>)
next
  case (3 rt s i)
  show ?case
  proof (rule enqueueItem_cases [of env penv sid dir raw rt])
    fix item st
    assume fresh: "item_id item \<notin> item_id ` set (queue_of (rt_store rt) sid)"
      and enq: "enqueue sid dir item (inFlight env rt) (rt_store rt) = Some st"
      and eq: "rt_store (snd (enqueueItem env penv sid dir raw rt)) = st"
    have wf: "store_wf (rt_store rt)" using 3 by (simp add: store_good_def)
    note v = enqueue_viewD [OF wf fresh enq]
    obtain it rest where it: "queue_of (rt_store rt) s = it # rest" "item_id it = i"
      using 3(3) by (auto simp: head_of_queue)
    show ?thesis
    proof (cases "s = sid")
      case True
      then show ?thesis using v(2) it 3(2) head_queue_after [OF it(1), of "inFlight env rt s" item]
        by (auto simp: head_of_queue eq)
    next
      case False
      then show ?thesis using v(3) [OF False] it 3(2) by (auto simp: head_of_queue eq)
    qed
  qed (use 3 in simp)
qed

text \<open>The re-check of the head and the rejection of a delivery are mutations of that kind.\<close>

interpretation still_head: shared_mutation env "\<lambda>x. (P x, x)" for env P
  by unfold_locales simp_all

lemma marks_onRejected [simp]: "marks (onRejected env item sid dir rt) = marks rt"
  by (simp add: onRejected_def Let_def announce_def)

lemma store_onRejected [simp]: "rt_store (onRejected env item sid dir rt) = rt_store rt"
  by (simp add: onRejected_def Let_def announce_def)

definition reject_body :: "rt_env \<Rightarrow> QueueItem \<Rightarrow> string \<Rightarrow> string \<Rightarrow> runtime \<Rightarrow> bool \<times> runtime" where
  "reject_body env head sid dir x =
     (if currentHeadId x sid \<noteq> Some (item_id head) then (False, x) else (True, onRejected env head sid dir x))"

interpretation reject: shared_mutation env "reject_body env head sid dir" for env head sid dir
  by unfold_locales (auto simp: reject_body_def currentHeadId_def)

section \<open>Claims of the runtime\<close>

lemma inv_mono: "rt_inv_ex env X rt \<Longrightarrow> X \<subseteq> Y \<Longrightarrow> rt_inv_ex env Y rt"
  by (auto simp: rt_inv_ex_def)

lemma claims_okD:
  assumes "claims_ok env rt" "claim_of rt sid = Some c"
  obtains d where "claim_path c = queueFile (dispatchClaims rt) @ ''.dispatch-'' @ re_digest env sid @ ''.claim''"
    "claim_token c \<notin> set (released (dispatchClaims rt))"
    "claimFiles rt (claim_path c) = Some (ClaimDoc d)" "doc_pid d = re_pid env" "doc_token d = claim_token c"
    "claimed rt sid = Some (doc_itemId d)"
proof -
  have "held_ok env rt sid" using assms(1) by (simp add: claims_ok_def)
  then show ?thesis using assms(2) that by (auto simp: held_ok_def pathFor_cenv claimed_def)
qed

lemma claims_ok_token:
  "claims_ok env rt \<Longrightarrow> claim_of rt s = Some c \<Longrightarrow> claim_of rt s' = Some c' \<Longrightarrow>
   claim_token c = claim_token c' \<Longrightarrow> s = s'"
  unfolding claims_ok_def by blast

lemma claims_ok_path:
  assumes "claims_ok env rt" "claim_of rt s = Some c" "claim_of rt s' = Some c'" "claim_path c = claim_path c'"
  shows "s = s'"
proof -
  obtain d where d: "claimFiles rt (claim_path c) = Some (ClaimDoc d)" "doc_token d = claim_token c"
    by (rule claims_okD [OF assms(1,2)])
  obtain d' where d': "claimFiles rt (claim_path c') = Some (ClaimDoc d')" "doc_token d' = claim_token c'"
    by (rule claims_okD [OF assms(1,3)])
  have "d = d'" using d d' assms(4) by simp
  then have "claim_token c = claim_token c'" using d(2) d'(2) by simp
  then show ?thesis using assms(1-3) unfolding claims_ok_def by blast
qed

text \<open>Releasing a held claim removes its file and its entry; a second release does nothing.\<close>

definition released_state :: "string \<Rightarrow> DispatchClaim \<Rightarrow> runtime \<Rightarrow> runtime" where
  "released_state sid c rt =
     rt\<lparr>dispatchClaims := (dispatchClaims rt)\<lparr>claims := AList.delete sid (claims (dispatchClaims rt)),
           released := claim_token c # released (dispatchClaims rt)\<rparr>,
        claimFiles := (claimFiles rt)(claim_path c := None)\<rparr>"

lemma release_held_session:
  assumes ok: "claims_ok env rt" and alive: "re_alive env (re_pid env)" and c: "claim_of rt sid = Some c"
    and e: "expected = None \<or> expected = Some c"
  shows "release_session env sid expected rt = released_state sid c rt"
proof -
  obtain d where d: "claimFiles rt (claim_path c) = Some (ClaimDoc d)" "doc_pid d = re_pid env"
    "doc_token d = claim_token c" "claim_token c \<notin> set (released (dispatchClaims rt))"
    by (rule claims_okD [OF ok c])
  have "view (cenv env rt) (claimFiles rt) (claim_path c) = Owned d"
    using d alive by (simp add: view_def cenv_def)
  then show ?thesis
    using c e d by (auto simp: release_session_def release_def Let_def release_claim_eq released_state_def)
qed

lemma release_gone_session:
  assumes "claim_of rt sid = None" "claim_token c \<in> set (released (dispatchClaims rt))"
  shows "release_session env sid (Some c) rt = rt"
  using assms by (simp add: release_session_def release_def release_claim_def)

lemma claim_of_released:
  "claim_of (released_state sid c rt) s = (if s = sid then None else claim_of rt s)"
  by (simp add: released_state_def get_claim_def AList.delete_conv')

lemma claimed_released:
  assumes "claims_ok env rt" "claim_of rt sid = Some c"
  shows "claimed (released_state sid c rt) s = (if s = sid then None else claimed rt s)"
proof (cases "s = sid \<or> claim_of rt s = None")
  case True
  then show ?thesis by (auto simp: claimed_def claim_of_released)
next
  case False
  then obtain c' where c': "claim_of rt s = Some c'" by blast
  then have "claim_path c' \<noteq> claim_path c" using claims_ok_path [OF assms(1) c' assms(2)] False by blast
  then show ?thesis using False c' by (simp add: claimed_def claim_of_released) (simp add: released_state_def)
qed

lemma claims_ok_released:
  assumes ok: "claims_ok env rt" and c: "claim_of rt sid = Some c"
  shows "claims_ok env (released_state sid c rt)"
proof -
  let ?r = "released_state sid c rt"
  have "held_ok env ?r s" for s
    unfolding held_ok_def
  proof (intro allI impI)
    fix c' assume "claim_of ?r s = Some c'"
    then have c': "claim_of rt s = Some c'" "s \<noteq> sid" by (auto simp: claim_of_released split: if_splits)
    then have ne: "claim_path c' \<noteq> claim_path c" "claim_token c' \<noteq> claim_token c"
      using claims_ok_path [OF ok c'(1) c] ok c unfolding claims_ok_def by blast+
    show "claim_path c' = pathFor (cenv env ?r) (dispatchClaims ?r) s \<and>
        claim_token c' \<notin> set (released (dispatchClaims ?r)) \<and>
        (\<exists>d. claimFiles ?r (claim_path c') = Some (ClaimDoc d) \<and> doc_pid d = re_pid env \<and> doc_token d = claim_token c')"
      by (rule claims_okD [OF ok c'(1)]) (use ne in \<open>simp add: released_state_def pathFor_cenv\<close>)
  qed
  moreover have "distinct (map fst (claims (dispatchClaims ?r)))"
    using ok by (simp add: released_state_def claims_ok_def distinct_delete)
  ultimately show ?thesis
    using ok unfolding claims_ok_def claim_of_released by (auto split: if_splits)
qed

lemma released_state_sel [simp]:
  "rt_store (released_state sid c rt) = rt_store rt" "sending (released_state sid c rt) = sending rt"
  "activeDeliveries (released_state sid c rt) = activeDeliveries rt" "ticking (released_state sid c rt) = ticking rt"
  "set (released (dispatchClaims (released_state sid c rt))) = insert (claim_token c) (set (released (dispatchClaims rt)))"
  "currentHeadId (released_state sid c rt) = currentHeadId rt"
  by (simp_all add: released_state_def currentHeadId_def fun_eq_iff)

lemma inv_released:
  assumes inv: "rt_inv_ex env X rt" and c: "claim_of rt sid = Some c"
  shows "rt_inv_ex env X (released_state sid c rt)"
proof -
  have ok: "claims_ok env rt" using inv by (simp add: rt_inv_ex_def)
  have "phase_ok (released_state sid c rt) s" if "phase_ok rt s" for s
    using that c unfolding phase_ok_def claimed_released [OF ok c] claim_of_released released_state_sel
    by (cases "s = sid") auto
  moreover have "head_ok (released_state sid c rt) s" if "head_ok rt s" for s
    using that unfolding head_ok_def claimed_released [OF ok c] released_state_sel by simp
  ultimately show ?thesis
    using inv claims_ok_released [OF ok c] by (simp add: rt_inv_ex_def)
qed

lemma inv_release:
  assumes "rt_inv_ex env X rt" "re_alive env (re_pid env)"
    and "claim_of rt sid = Some c \<or> claim_of rt sid = None \<and> claim_token c \<in> set (released (dispatchClaims rt))"
  shows "rt_inv_ex env X (release_session env sid (Some c) rt) \<and> claim_of (release_session env sid (Some c) rt) sid = None"
  using assms release_held_session [of env rt sid c "Some c"] release_gone_session [of rt sid c env]
    inv_released [OF assms(1), of sid c] claim_of_released [of sid c rt sid]
  by (auto simp: rt_inv_ex_def)

lemma claimed_cong:
  "dispatchClaims rt' = dispatchClaims rt \<Longrightarrow> claimFiles rt' = claimFiles rt \<Longrightarrow> claimed rt' = claimed rt"
  by (rule ext, simp only: claimed_def)

lemma claims_ok_cong:
  assumes "dispatchClaims rt' = dispatchClaims rt" "claimFiles rt' = claimFiles rt"
  shows "claims_ok env rt' = claims_ok env rt"
  unfolding claims_ok_def held_ok_def pathFor_cenv assms ..

text \<open>The end of a tick clears the marks of its session.\<close>

definition cleared :: "string \<Rightarrow> runtime \<Rightarrow> runtime" where
  "cleared sid rt = rt\<lparr>sending := (sending rt)(sid := None), activeDeliveries := activeDeliveries rt - {sid},
     ticking := (ticking rt)(sid := None)\<rparr>"

lemma inv_cleared:
  assumes inv: "rt_inv_ex env {sid} rt" and head: "\<And>i. claimed rt sid = Some i \<Longrightarrow> currentHeadId rt sid = Some i"
  shows "rt_inv env (cleared sid rt)"
proof -
  have c: "claimed (cleared sid rt) = claimed rt" "currentHeadId (cleared sid rt) = currentHeadId rt"
    "dispatchClaims (cleared sid rt) = dispatchClaims rt"
    by (rule claimed_cong) (simp_all add: currentHeadId_def cleared_def fun_eq_iff)
  have "phase_ok (cleared sid rt) s \<and> head_ok (cleared sid rt) s" for s
    using inv head unfolding rt_inv_ex_def phase_ok_def head_ok_def c
    by (cases "s = sid") (auto simp: cleared_def)
  moreover have "claims_ok env (cleared sid rt) = claims_ok env rt"
    by (rule claims_ok_cong) (simp_all add: cleared_def)
  ultimately show ?thesis using inv by (simp add: rt_inv_ex_def cleared_def)
qed

lemma finish_dispatch_eq:
  "finish_dispatch env sid (Some c) rt = cleared sid (release_session env sid (Some c) rt)"
  "finish_dispatch env sid None rt = cleared sid rt"
  by (simp_all add: finish_dispatch_def cleared_def end_tick_def release_session_def cenv_def Let_def)

lemma inv_finish:
  assumes "rt_inv_ex env {sid} rt" "re_alive env (re_pid env)"
    and "claim_of rt sid = Some c \<or> claim_of rt sid = None \<and> claim_token c \<in> set (released (dispatchClaims rt))"
  shows "rt_inv env (finish_dispatch env sid (Some c) rt)"
  unfolding finish_dispatch_eq
  by (rule inv_cleared) (use inv_release [OF assms] in \<open>auto simp: claimed_def\<close>)

section \<open>The awaits of a tick\<close>

lemma await_sel [simp]:
  "rt_store (await sid ph rt) = rt_store rt" "sending (await sid ph rt) = sending rt"
  "activeDeliveries (await sid ph rt) = activeDeliveries rt" "dispatchClaims (await sid ph rt) = dispatchClaims rt"
  "claimFiles (await sid ph rt) = claimFiles rt" "ticking (await sid ph rt) = (ticking rt)(sid \<mapsto> ph)"
  "currentHeadId (await sid ph rt) = currentHeadId rt"
  by (simp_all add: await_def currentHeadId_def fun_eq_iff)

lemma claimed_await [simp]: "claimed (await sid ph rt) = claimed rt"
  by (rule claimed_cong) simp_all

text \<open>Moving the tick of a session to another await: the invariant asks only for the new
  phase.\<close>

lemma inv_await:
  assumes "rt_inv_ex env X rt"
    and "\<And>c. phase_claim ph = Some c \<Longrightarrow>
        claim_of rt sid = Some c \<and> claimed rt sid = Some (item_id (phase_item ph)) \<or>
        claim_of rt sid = None \<and> claim_token c \<in> set (released (dispatchClaims rt))"
    and "sid \<in> activeDeliveries rt \<longleftrightarrow> delivering ph"
    and "\<And>i. sending rt sid = Some i \<Longrightarrow> item_id (phase_item ph) = i"
  shows "rt_inv_ex env X (await sid ph rt)"
proof -
  have "phase_ok (await sid ph rt) s" if "phase_ok rt s" for s
    using that assms(2-4) by (cases "s = sid") (auto simp: phase_ok_def)
  moreover have "head_ok (await sid ph rt) s = head_ok rt s" for s by (simp add: head_ok_def)
  moreover have "claims_ok env (await sid ph rt) = claims_ok env rt"
    by (rule claims_ok_cong) simp_all
  ultimately show ?thesis using assms(1) by (simp add: rt_inv_ex_def)
qed

lemma phase_okD:
  assumes "rt_inv_ex env X rt" "ticking rt sid = Some ph"
  shows "phase_claim ph = Some c \<Longrightarrow>
      claim_of rt sid = Some c \<and> claimed rt sid = Some (item_id (phase_item ph)) \<or>
      claim_of rt sid = None \<and> claim_token c \<in> set (released (dispatchClaims rt))"
    and "sid \<in> activeDeliveries rt \<longleftrightarrow> delivering ph"
    and "sending rt sid = Some i \<Longrightarrow> item_id (phase_item ph) = i"
proof -
  have "phase_ok rt sid" using assms(1) by (simp add: rt_inv_ex_def)
  then show "phase_claim ph = Some c \<Longrightarrow>
      claim_of rt sid = Some c \<and> claimed rt sid = Some (item_id (phase_item ph)) \<or>
      claim_of rt sid = None \<and> claim_token c \<in> set (released (dispatchClaims rt))"
    "sid \<in> activeDeliveries rt \<longleftrightarrow> delivering ph"
    "sending rt sid = Some i \<Longrightarrow> item_id (phase_item ph) = i"
    using assms(2) by (auto simp: phase_ok_def)
qed

lemma not_sending:
  assumes "rt_inv env rt" "sid \<notin> activeDeliveries rt"
  shows "sending rt sid = None"
  using assms unfolding rt_inv_ex_def head_ok_def by (metis empty_iff not_Some_eq)

lemma claimed_head:
  assumes "rt_inv env rt" "sid \<notin> activeDeliveries rt" "claimed rt sid = Some i"
  shows "currentHeadId rt sid = Some i"
  using assms unfolding rt_inv_ex_def head_ok_def by blast

lemma not_active: "rt_inv_ex env X rt \<Longrightarrow> ticking rt sid = None \<Longrightarrow> sid \<notin> activeDeliveries rt"
  unfolding rt_inv_ex_def phase_ok_def by auto

lemma inv_end_tick:
  assumes "rt_inv env rt" "sid \<notin> activeDeliveries rt"
  shows "rt_inv env (end_tick sid rt)"
proof -
  have "end_tick sid rt = cleared sid rt"
    using assms not_sending [OF assms]
    by (simp add: end_tick_def cleared_def fun_upd_idem)
  then show ?thesis using inv_cleared [OF inv_mono [OF assms(1)]] claimed_head [OF assms] by simp
qed

lemma inv_tick:
  assumes "rt_inv env rt"
  shows "rt_inv env (tick env sid rt)"
proof -
  have core: "rt_inv env x" if "core x = core rt" for x using assms rt_inv_core [OF that] by simp
  have aw: "rt_inv env (await sid (PVerify i d) x)" if "core x = core rt" "ticking rt sid = None" for x i d
  proof (rule inv_await [OF core [OF that(1)]])
    have "ticking x sid = None" using that by (simp add: core_def)
    then have "sid \<notin> activeDeliveries x" by (rule not_active [OF core [OF that(1)]])
    then show "(sid \<in> activeDeliveries x) = delivering (PVerify i d)"
      "\<And>j. sending x sid = Some j \<Longrightarrow> item_id (phase_item (PVerify i d)) = j"
      using not_sending [OF core [OF that(1)]] by simp_all
  qed simp
  have upd: "core (x\<lparr>aborts := a\<rparr>) = core x" "core (x\<lparr>backoffs := b\<rparr>) = core x" for x a b
    by (simp_all add: core_def)
  show ?thesis
    by (auto simp: tick_def tickVerified_def Let_def assms split: option.splits list.splits)
       ((rule aw core; simp add: upd)+)
qed

definition fresh_token :: "string \<Rightarrow> runtime \<Rightarrow> bool" where
  "fresh_token token rt \<longleftrightarrow>
     token \<notin> set (released (dispatchClaims rt)) \<and> token \<notin> claim_token ` snd ` set (claims (dispatchClaims rt))"

text \<open>Looking at or creating a claim file leaves the files of held claims alone.\<close>

lemma acquire_held:
  assumes ok: "claims_ok env rt" and alive: "re_alive env (re_pid env)" and c: "claim_of rt s = Some c"
  shows "snd (acquire (cenv env rt) token (dispatchClaims rt) sid iid (claimFiles rt)) (claim_path c) =
      claimFiles rt (claim_path c)"
    and "claim_path c = pathFor (cenv env rt) (dispatchClaims rt) sid \<Longrightarrow>
      fst (acquire (cenv env rt) token (dispatchClaims rt) sid iid (claimFiles rt)) = None"
proof -
  let ?p = "pathFor (cenv env rt) (dispatchClaims rt) sid"
  obtain d where d: "claimFiles rt (claim_path c) = Some (ClaimDoc d)" "doc_pid d = re_pid env"
    by (rule claims_okD [OF ok c])
  then have v: "view (cenv env rt) (claimFiles rt) (claim_path c) = Owned d"
    using alive by (simp add: view_def cenv_def)
  then show "claim_path c = ?p \<Longrightarrow>
      fst (acquire (cenv env rt) token (dispatchClaims rt) sid iid (claimFiles rt)) = None"
    by (simp add: fst_acquire)
  show "snd (acquire (cenv env rt) token (dispatchClaims rt) sid iid (claimFiles rt)) (claim_path c) =
      claimFiles rt (claim_path c)"
    using v by (cases "claim_path c = ?p") (auto simp: acquire_eq Let_def read_owned read_other)
qed

lemma inv_files:
  assumes inv: "rt_inv_ex env X rt"
    and same: "\<And>s c. claim_of rt s = Some c \<Longrightarrow> fs (claim_path c) = claimFiles rt (claim_path c)"
  shows "rt_inv_ex env X (rt\<lparr>claimFiles := fs\<rparr>)"
proof -
  have c: "claimed (rt\<lparr>claimFiles := fs\<rparr>) s = claimed rt s" for s
    using same [of s] by (cases "claim_of rt s") (simp_all add: claimed_def)
  have "held_ok env (rt\<lparr>claimFiles := fs\<rparr>) s = held_ok env rt s" for s
    using same [of s] by (cases "claim_of rt s") (simp_all add: held_ok_def pathFor_cenv)
  then have "claims_ok env (rt\<lparr>claimFiles := fs\<rparr>) = claims_ok env rt" by (simp add: claims_ok_def)
  moreover have "phase_ok (rt\<lparr>claimFiles := fs\<rparr>) s = phase_ok rt s" "head_ok (rt\<lparr>claimFiles := fs\<rparr>) s = head_ok rt s" for s
    unfolding phase_ok_def head_ok_def c by (simp_all add: currentHeadId_def)
  ultimately show ?thesis using inv by (simp add: rt_inv_ex_def)
qed

lemma inv_acquired:
  assumes inv: "rt_inv env rt" and alive: "re_alive env (re_pid env)" and fresh: "fresh_token token rt"
    and none: "claim_of rt sid = None" and act: "sid \<notin> activeDeliveries rt" "ticking rt sid = Some (PVerify i0 d0)"
    and head: "currentHeadId rt sid = Some (item_id itm)"
    and acq: "acquire (cenv env rt) token (dispatchClaims rt) sid (item_id itm) (claimFiles rt) = (Some c, fs)"
  shows "rt_inv env (await sid (PStillHead itm dir c)
           (rt\<lparr>claimFiles := fs, dispatchClaims := set_claim sid c (dispatchClaims rt)\<rparr>))"
    (is "rt_inv env (await sid ?ph ?t)")
proof -
  have ok: "claims_ok env rt" using inv by (simp add: rt_inv_ex_def)
  let ?path = "pathFor (cenv env rt) (dispatchClaims rt) sid"
  have c: "c = \<lparr>claim_path = ?path, claim_token = token\<rparr>"
    and fl: "fs ?path = Some (ClaimDoc \<lparr>doc_pid = re_pid env, doc_token = token, doc_itemId = item_id itm, doc_at = now rt\<rparr>)"
    using acq by (auto simp: acquire_eq Let_def cenv_def split: if_splits)
  have other: "fs (claim_path c') = claimFiles rt (claim_path c')" if "claim_of rt s = Some c'" for s c'
    using acquire_held(1) [OF ok alive that, of token sid "item_id itm"] acq by simp
  have tok: "claim_token c' \<noteq> token" if "claim_of rt s = Some c'" for s c'
    using that fresh by (force simp: fresh_token_def get_claim_def dest: map_of_SomeD)
  have cl: "claim_of ?t s = (if s = sid then Some c else claim_of rt s)" for s by simp
  have cm: "claimed ?t s = (if s = sid then Some (item_id itm) else claimed rt s)" for s
    using other [of s] fl by (cases "claim_of rt s") (auto simp: claimed_def c)
  have "held_ok env ?t s" for s
  proof (cases "s = sid")
    case True
    then show ?thesis using fl fresh by (simp add: held_ok_def c pathFor_cenv fresh_token_def)
  next
    case False
    have "held_ok env rt s" using ok by (simp add: claims_ok_def)
    then show ?thesis using other [of s] False by (auto simp: held_ok_def pathFor_cenv)
  qed
  moreover have "distinct (map fst (claims (dispatchClaims ?t)))"
    using ok by (simp add: claims_ok_def set_claim_def distinct_update)
  moreover have "s = s'" if "claim_of ?t s = Some c1" "claim_of ?t s' = Some c2" "claim_token c1 = claim_token c2" for s s' c1 c2
    using that tok [of s c1] tok [of s' c2] claims_ok_token [OF ok, of s c1 s' c2] unfolding cl
    by (cases "s = sid"; cases "s' = sid") (simp_all add: c, (metis DispatchClaim.select_convs(2))+)
  ultimately have ok': "claims_ok env ?t" unfolding claims_ok_def by blast
  have h: "head_ok ?t s" for s
    using inv head not_sending [OF inv act(1)]
    unfolding rt_inv_ex_def head_ok_def cm by (cases "s = sid") (auto simp: currentHeadId_def)
  have p: "phase_ok ?t s" for s
  proof (cases "s = sid")
    case True
    then show ?thesis using act not_sending [OF inv act(1)] by (simp add: phase_ok_def)
  next
    case False
    have "phase_ok rt s" using inv by (simp add: rt_inv_ex_def)
    then show ?thesis using False unfolding phase_ok_def cm cl by simp
  qed
  have it: "rt_inv env ?t"
    using inv ok' h p by (simp add: rt_inv_ex_def)
  show ?thesis
    by (rule inv_await [OF it]) (use act cm [of sid] not_sending [OF inv act(1)] in auto)
qed

lemma dispatchHead_inv:
  assumes inv: "rt_inv env rt" and alive: "re_alive env (re_pid env)" and fresh: "fresh_token token rt"
    and ph: "ticking rt sid = Some (PVerify i0 d0)" and head: "currentHeadId rt sid = Some (item_id itm)"
  shows "rt_inv env (dispatchHead env token sid itm dir rt)"
proof (cases "claim_of rt sid")
  case (Some c)
  have act: "sid \<notin> activeDeliveries rt" using phase_okD(2) [OF inv ph] by simp
  have ok: "claims_ok env rt" using inv by (simp add: rt_inv_ex_def)
  have "claimed rt sid = Some (item_id itm)"
    using claimed_head [OF inv act] head by (rule_tac claims_okD [OF ok Some]) simp
  then have "rt_inv env (await sid (PVerify2 itm dir c) rt)"
    using Some act not_sending [OF inv act] by (intro inv_await [OF inv]) auto
  moreover have "rt_inv env (finish_dispatch env sid (Some c) rt)"
    using Some by (intro inv_finish [OF inv_mono [OF inv] alive]) auto
  ultimately show ?thesis using Some by (simp add: dispatchHead_def)
next
  case None
  have act: "sid \<notin> activeDeliveries rt" using phase_okD(2) [OF inv ph] by simp
  have ok: "claims_ok env rt" using inv by (simp add: rt_inv_ex_def)
  obtain r fs where acq: "acquire (cenv env rt) token (dispatchClaims rt) sid (item_id itm) (claimFiles rt) = (r, fs)"
    by fastforce
  show ?thesis
  proof (cases r)
    case (Some c)
    then show ?thesis
      using inv_acquired [OF inv alive fresh None act ph head, of c fs dir] acq None
      by (simp add: dispatchHead_def Let_def)
  next
    case r: None
    have "rt_inv env (rt\<lparr>claimFiles := fs\<rparr>)"
      by (rule inv_files [OF inv]) (use acquire_held(1) [OF ok alive, of _ _ token sid "item_id itm"] acq in simp)
    then have i: "rt_inv env (arm sid t (rt\<lparr>claimFiles := fs\<rparr>))" for t
      using rt_inv_core [OF core_timers(1)] by blast
    have "claimed (arm sid t (rt\<lparr>claimFiles := fs\<rparr>)) sid = None" for t
      using None by (simp add: claimed_def arm_def Let_def split: option.splits)
    then have "rt_inv env (cleared sid (arm sid t (rt\<lparr>claimFiles := fs\<rparr>)))" for t
      by (intro inv_cleared inv_mono [OF i]) auto
    then show ?thesis using None acq r by (simp add: dispatchHead_def Let_def finish_dispatch_eq)
  qed
qed

lemma inv_arm: "rt_inv_ex env X rt \<Longrightarrow> rt_inv_ex env X (arm sid d rt)"
  using rt_inv_core [OF core_timers(1)] by blast

lemma inv_finish_phase:
  assumes "rt_inv env rt" "re_alive env (re_pid env)" "ticking rt sid = Some ph" "phase_claim ph = Some c"
  shows "rt_inv env (finish_dispatch env sid (Some c) rt)"
  using phase_okD(1) [OF assms(1,3,4)] by (intro inv_finish inv_mono [OF assms(1)] assms(2)) auto

lemma afterVerify_inv:
  assumes inv: "rt_inv env rt" and alive: "re_alive env (re_pid env)" and fresh: "fresh_token token rt"
    and ph: "ticking rt sid = Some (PVerify itm dir)"
  shows "rt_inv env (afterVerify env token v sid itm dir rt)"
proof -
  have act: "sid \<notin> activeDeliveries rt" using phase_okD(2) [OF inv ph] by simp
  have act': "sid \<notin> activeDeliveries (arm sid d rt)" for d
    using act core_timers(1) [of sid d rt] by (simp add: core_def)
  have "rt_inv env (dispatchHead env token sid cur dir rt)" if "queue_of (rt_store rt) sid = cur # rest" for cur rest
    by (rule dispatchHead_inv [OF inv alive fresh ph]) (simp add: currentHeadId_def that)
  then show ?thesis
    using inv_end_tick [OF inv act] inv_end_tick [OF inv_arm [OF inv] act']
    by (auto simp: afterVerify_def split: list.splits)
qed

lemma marks_shared:
  "(\<And>x. marks (snd (m x)) = marks x) \<Longrightarrow> marks (snd (withSharedQueue env m rt)) = marks rt"
  by (simp add: withSharedQueue_def Let_def flushed_def refreshed_def)

lemma ticking_shared:
  "(\<And>x. marks (snd (m x)) = marks x) \<Longrightarrow> ticking (snd (withSharedQueue env m rt)) = ticking rt"
  using marks_shared [of m env rt] by (simp add: marks_def)

lemma afterStillHead_inv:
  assumes inv: "rt_inv env rt" and env: "re_alive env (re_pid env)" "write_ok env"
    and ph: "ticking rt sid = Some (PStillHead itm dir c)"
  shows "rt_inv env (afterStillHead env sid itm dir c rt)"
proof -
  let ?P = "\<lambda>x. currentHeadId x sid = Some (item_id itm)"
  let ?r = "snd (withSharedQueue env (\<lambda>x. (?P x, x)) rt)"
  have i: "rt_inv env ?r" by (rule still_head.shared_inv [OF inv env])
  have t: "ticking ?r sid = Some (PStillHead itm dir c)" using ph by (simp add: ticking_shared)
  have "rt_inv env (await sid (PVerify2 itm dir c) ?r)"
    using phase_okD [OF i t] by (intro inv_await [OF i]) auto
  then show ?thesis
    using inv_finish_phase [OF i env(1) t] by (simp add: afterStillHead_def Let_def)
qed

lemma afterVerify2_inv:
  assumes inv: "rt_inv env rt" and alive: "re_alive env (re_pid env)"
    and ph: "ticking rt sid = Some (PVerify2 itm dir c)"
  shows "rt_inv env (afterVerify2 env v sid itm dir c rt)"
proof -
  have act: "sid \<notin> activeDeliveries rt" using phase_okD(2) [OF inv ph] by simp
  have t: "ticking (arm sid d rt) sid = Some (PVerify2 itm dir c)" for d
    using ph core_timers(1) [of sid d rt] by (simp add: core_def)
  have fin: "rt_inv env (finish_dispatch env sid (Some c) rt)"
    "rt_inv env (finish_dispatch env sid (Some c) (arm sid d rt))" for d
    using inv_finish_phase [OF inv alive ph] inv_finish_phase [OF inv_arm [OF inv] alive t] by simp_all
  let ?s = "rt\<lparr>sending := (sending rt)(sid \<mapsto> item_id itm), activeDeliveries := insert sid (activeDeliveries rt)\<rparr>"
  let ?t = "await sid (PDeliver itm dir c) (announce dir ?s)"
  have "rt_inv env ?t" if own: "owns (dispatchClaims rt) sid (Some c)"
  proof -
    have c: "claim_of rt sid = Some c" using own by (simp add: owns_def)
    then have cm: "claimed rt sid = Some (item_id itm)" using phase_okD(1) [OF inv ph, of c] by simp
    then have hd: "currentHeadId rt sid = Some (item_id itm)" by (rule claimed_head [OF inv act])
    have eq: "claimed ?t = claimed rt" "currentHeadId ?t = currentHeadId rt" "dispatchClaims ?t = dispatchClaims rt"
      "claims_ok env ?t = claims_ok env rt" "rt_store ?t = rt_store rt"
      by (rule claimed_cong claims_ok_cong | simp add: announce_def announceWithRevision_def currentHeadId_def fun_eq_iff)+
    have "phase_ok ?t s \<and> head_ok ?t s" for s
    proof (cases "s = sid")
      case True
      then show ?thesis
        using c cm hd unfolding phase_ok_def head_ok_def eq by (simp add: announce_def announceWithRevision_def)
    next
      case False
      have "phase_ok rt s" "head_ok rt s" using inv by (simp_all add: rt_inv_ex_def)
      then show ?thesis
        using False unfolding phase_ok_def head_ok_def eq by (simp add: announce_def announceWithRevision_def)
    qed
    then show ?thesis using inv unfolding rt_inv_ex_def eq by blast
  qed
  then show ?thesis using fin by (simp add: afterVerify2_def)
qed

lemma afterDeliver_inv:
  assumes inv: "rt_inv env rt" and alive: "re_alive env (re_pid env)"
    and ph: "ticking rt sid = Some (PDeliver itm dir c)"
  shows "rt_inv env (afterDeliver env ok sid itm dir c rt)"
proof -
  have "rt_inv env (await sid (PSettle itm dir c ok) rt)"
    using phase_okD [OF inv ph] by (intro inv_await [OF inv]) auto
  then show ?thesis using inv_finish_phase [OF inv alive ph] by (simp add: afterDeliver_def)
qed

text \<open>The settlement: a delivered head leaves the queue and the claim is released with it.\<close>

lemma inv_refreshed:
  assumes inv: "rt_inv_ex env X rt" and alive: "re_alive env (re_pid env)"
  shows "rt_inv_ex env X (refreshed env rt)" "currentHeadId (refreshed env rt) = currentHeadId rt"
    "marks (refreshed env rt) = marks rt"
proof -
  have good: "store_good (rt_store rt)" "pendingWrites (rt_store rt) = 0" using inv by (auto simp: rt_inv_ex_def)
  note r = refresh_matching [OF good, of "rename_ok env"]
  show m: "marks (refreshed env rt) = marks rt" by (simp add: refreshed_def)
  show h: "currentHeadId (refreshed env rt) = currentHeadId rt"
    using r(1) by (simp add: fun_eq_iff currentHeadId_def queue_of_def refreshed_def)
  show "rt_inv_ex env X (refreshed env rt)"
    by (rule inv_marks [OF inv alive m]) (use r in \<open>auto simp: h\<close>, simp_all add: refreshed_def)
qed

lemma flushed_sel:
  "currentHeadId (flushed env x) = currentHeadId x" "marks (flushed env x) = marks x"
  by (simp_all add: fun_eq_iff currentHeadId_def queue_of_def entryOf_def flushed_def flushWrites_def writeNow_def)

lemma inv_flushed_marks:
  assumes inv: "rt_inv_ex env X rt" and env: "re_alive env (re_pid env)" "write_ok env"
    and m: "marks x = marks rt" and good: "store_good (rt_store x)"
    and heads: "\<And>s. s \<noteq> sid \<Longrightarrow> currentHeadId x s = currentHeadId rt s" and sub: "X \<subseteq> {sid}"
  shows "rt_inv_ex env {sid} (flushed env x)"
proof (rule inv_marks [OF inv env(1) _ _ _ _ sub])
  show "marks (flushed env x) = marks rt" by (simp add: flushed_sel m)
  show "store_good (rt_store (flushed env x))" "pendingWrites (rt_store (flushed env x)) = 0"
    using flush_good [OF good] env(2) by (simp_all add: flushed_def)
qed (simp add: flushed_sel heads)

lemma onDelivered_sel:
  assumes "store_good (rt_store x)"
  shows "marks (onDelivered itm sid dir x) = marks x" "store_good (rt_store (onDelivered itm sid dir x))"
    "s \<noteq> sid \<Longrightarrow> currentHeadId (onDelivered itm sid dir x) s = currentHeadId x s"
  using assms removeItem_None [of sid "item_id itm" "rt_store x"]
  by (auto simp: onDelivered_def Let_def good_removeItem currentHeadId_def queue_view)

lemma afterSettle_inv:
  assumes inv: "rt_inv env rt" and env: "re_alive env (re_pid env)" "write_ok env"
    and ph: "ticking rt sid = Some (PSettle itm dir c ok)"
  shows "rt_inv env (afterSettle env sid itm dir c ok rt)"
proof (cases ok)
  case True
  let ?m = "\<lambda>x. ((), onDelivered itm sid dir x)"
  let ?r = "refreshed env rt"
  let ?x = "snd (withSharedQueue env ?m rt)"
  note r = inv_refreshed [OF inv env(1)]
  have good: "store_good (rt_store ?r)" using r(1) by (simp add: rt_inv_ex_def)
  have "?x = flushed env (onDelivered itm sid dir ?r)" by (simp add: withSharedQueue_def Let_def)
  then have i: "rt_inv_ex env {sid} ?x"
    using inv_flushed_marks [OF r(1) env, of "onDelivered itm sid dir ?r" sid] onDelivered_sel [OF good] by simp
  have "marks ?x = marks rt"
    using onDelivered_sel(1) [OF good] r(3) by (simp add: withSharedQueue_def Let_def flushed_sel)
  then have eq: "ticking ?x = ticking rt" "dispatchClaims ?x = dispatchClaims rt" by (simp_all add: marks_def)
  have "rt_inv env (finish_dispatch env sid (Some c) ?x)"
    using phase_okD(1) [OF inv ph, of c] by (intro inv_finish [OF i env(1)]) (auto simp: eq)
  then show ?thesis using True by (simp add: afterSettle_def)
next
  case False
  let ?x = "snd (withSharedQueue env (reject_body env itm sid dir) rt)"
  have i: "rt_inv env ?x" by (rule reject.shared_inv [OF inv env])
  have "marks ?x = marks rt"
    by (rule marks_shared) (rule reject.keeps_marks)
  then have t: "ticking ?x sid = Some (PSettle itm dir c ok)" using ph by (simp add: marks_def)
  have fin: "rt_inv env (finish_dispatch env sid (Some c) ?x)"
    by (rule inv_finish_phase [OF i env(1) t]) simp
  have "rt_inv env (finish_dispatch env sid None ?x)" if ok: "fst (withSharedQueue env (reject_body env itm sid dir) rt)"
  proof -
    have "currentHeadId (refreshed env rt) sid = Some (item_id itm)"
      using ok by (simp add: withSharedQueue_def Let_def reject_body_def split: if_splits)
    then have "currentHeadId ?x sid = Some (item_id itm)"
      by (simp add: withSharedQueue_def Let_def flushed_sel reject_body_def) (simp add: currentHeadId_def)
    then show ?thesis
      unfolding finish_dispatch_eq
      using phase_okD(1) [OF i t, of c] by (intro inv_cleared inv_mono [OF i]) (auto simp: claimed_def)
  qed
  moreover have "afterSettle env sid itm dir c ok rt =
      finish_dispatch env sid (if fst (withSharedQueue env (reject_body env itm sid dir) rt) then None else Some c) ?x"
    using False by (simp add: afterSettle_def Let_def reject_body_def [abs_def])
  ultimately show ?thesis using fin by simp
qed

section \<open>Dropping a session, disposal\<close>

lemma inv_unsend:
  assumes "rt_inv env rt"
  shows "rt_inv_ex env {sid} (rt\<lparr>sending := (sending rt)(sid := None)\<rparr>)" (is "rt_inv_ex env {sid} ?t")
proof -
  have eq: "claimed ?t = claimed rt" "currentHeadId ?t = currentHeadId rt" "claims_ok env ?t = claims_ok env rt"
    "rt_store ?t = rt_store rt"
    by (rule claimed_cong claims_ok_cong | simp add: currentHeadId_def fun_eq_iff)+
  have "phase_ok ?t s" if "phase_ok rt s" for s using that unfolding phase_ok_def eq by simp
  moreover have "head_ok ?t s" if "head_ok rt s" "s \<noteq> sid" for s using that unfolding head_ok_def eq by simp
  ultimately show ?thesis using assms unfolding rt_inv_ex_def eq by blast
qed

lemma inv_forget:
  assumes inv: "rt_inv env rt" and alive: "re_alive env (re_pid env)"
  shows "rt_inv_ex env {sid} (forgetTransientState env sid rt) \<and>
     sending (forgetTransientState env sid rt) sid = None \<and>
     (claimed (forgetTransientState env sid rt) sid \<noteq> None \<longrightarrow> sid \<in> activeDeliveries (forgetTransientState env sid rt)) \<and>
     rt_store (forgetTransientState env sid rt) = rt_store rt"
proof -
  let ?u = "rt\<lparr>sending := (sending rt)(sid := None)\<rparr>"
  let ?v = "if sid \<in> activeDeliveries rt then ?u else release_session env sid None ?u"
  note u = inv_unsend [OF inv, of sid]
  have ok: "claims_ok env ?u" using u by (simp add: rt_inv_ex_def)
  have v: "rt_inv_ex env {sid} ?v \<and> (claimed ?v sid \<noteq> None \<longrightarrow> sid \<in> activeDeliveries ?v) \<and>
      sending ?v sid = None \<and> rt_store ?v = rt_store rt"
  proof (cases "claim_of ?u sid")
    case None
    then have "release_session env sid None ?u = ?u" by (simp add: release_session_def release_def)
    then show ?thesis using u None by (auto simp: claimed_def)
  next
    case (Some c)
    then show ?thesis
      using u release_held_session [OF ok alive Some, of None] inv_released [OF u Some] claimed_released [OF ok Some]
      by simp
  qed
  have "core (forgetTransientState env sid rt) = core ?v"
    unfolding forgetTransientState_def Let_def by simp (simp add: core_def)
  then show ?thesis using v rt_inv_core [of "forgetTransientState env sid rt" ?v env "{sid}"]
      claimed_cong [of "forgetTransientState env sid rt" ?v]
    by (simp add: core_def)
qed

lemma good_dropSession:
  assumes "store_good st"
  shows "store_good (commit (snd (dropSession sid st)))"
    "s \<noteq> sid \<Longrightarrow> queue_of (commit (snd (dropSession sid st))) s = queue_of st s"
proof -
  let ?d = "snd (dropSession sid st)"
  have q: "queue_of ?d s = (if s = sid then [] else queue_of st s)" for s
    by (simp add: dropSession_def queue_of_def entryOf_def AList.delete_conv')
  have "store_wf ?d"
    using assms q by (simp add: store_good_def store_wf_def) (simp add: dropSession_def distinct_delete)
  then show "store_good (commit ?d)"
    by (intro good_commit [OF _ _ assms, where A = "{}"]) (auto simp: q, simp_all add: dropSession_def)
  show "s \<noteq> sid \<Longrightarrow> queue_of (commit ?d) s = queue_of st s" by (simp add: queue_view q)
qed

lemma dropQueuedSession_inv:
  assumes inv: "rt_inv env rt" and env: "re_alive env (re_pid env)" "write_ok env"
  shows "rt_inv env (snd (withSharedQueue env (dropQueuedSession env sid) rt))"
proof -
  let ?r = "refreshed env rt"
  let ?f = "forgetTransientState env sid ?r"
  let ?d = "snd (dropQueuedSession env sid ?r)"
  note f = inv_forget [OF inv_refreshed(1) [OF inv env(1)] env(1), of sid]
  have good: "store_good (rt_store ?f)" using f unfolding rt_inv_ex_def by blast
  note dr = good_dropSession [OF good, where sid = sid]
  have d: "marks ?d = marks ?f \<and> store_good (rt_store ?d) \<and>
      (\<forall>s. s \<noteq> sid \<longrightarrow> currentHeadId ?d s = currentHeadId ?f s)"
    using f good dr by (auto simp: dropQueuedSession_def Let_def currentHeadId_def split: option.splits)
  have "rt_inv_ex env {sid} (flushed env ?d)"
    using d f by (intro inv_flushed_marks [of env "{sid}" ?f]) (auto simp: env)
  moreover have "head_ok (flushed env ?d) sid"
  proof -
    have m: "marks (flushed env ?d) = marks ?f" using d by (simp add: flushed_sel)
    then have "claimed (flushed env ?d) = claimed ?f" by (intro claimed_cong) (simp_all add: marks_def)
    then show ?thesis using f m by (auto simp: head_ok_def marks_def)
  qed
  ultimately show ?thesis
    by (auto simp: rt_inv_ex_def withSharedQueue_def Let_def)
qed

lemma release_all_inv:
  assumes "rt_inv env rt" "re_alive env (re_pid env)" "distinct (map fst xs)"
    and "\<And>s c. (s, c) \<in> set xs \<Longrightarrow> claim_of rt s = Some c"
  shows "rt_inv env (fold (\<lambda>(s, c) x. release_session env s (Some c) x) xs rt)"
  using assms
proof (induction xs arbitrary: rt)
  case (Cons x xs)
  obtain s c where x: "x = (s, c)" by fastforce
  have c: "claim_of rt s = Some c" using Cons.prems(4) x by simp
  have ok: "claims_ok env rt" using Cons.prems(1) by (simp add: rt_inv_ex_def)
  have eq: "release_session env s (Some c) rt = released_state s c rt"
    by (rule release_held_session [OF ok Cons.prems(2) c]) simp
  have "claim_of (released_state s c rt) s' = Some c'" if "(s', c') \<in> set xs" for s' c'
    using that Cons.prems(3,4) x by (force simp: claim_of_released)
  then show ?case
    using Cons.IH [OF inv_released [OF Cons.prems(1) c] Cons.prems(2)] Cons.prems(3) by (simp add: x eq)
qed simp

lemma dispose_inv:
  assumes inv: "rt_inv env rt" and alive: "re_alive env (re_pid env)"
  shows "rt_inv env (dispose env rt)"
proof -
  let ?xs = "claims (dispatchClaims rt)"
  have dist: "distinct (map fst ?xs)" using inv by (simp add: rt_inv_ex_def claims_ok_def)
  have step: "fold (\<lambda>(s, c) x. release_session env s (Some c) x) xs x =
      x\<lparr>dispatchClaims := fst (fold (\<lambda>(sid, cl) t. release (cenv env x) sid (Some cl) t) xs (dispatchClaims x, claimFiles x)),
        claimFiles := snd (fold (\<lambda>(sid, cl) t. release (cenv env x) sid (Some cl) t) xs (dispatchClaims x, claimFiles x))\<rparr>" for xs x
    by (induction xs arbitrary: x) (auto simp: release_session_def Let_def cenv_def)
  have "rt_inv env (fold (\<lambda>(s, c) x. release_session env s (Some c) x) ?xs rt)"
    by (rule release_all_inv [OF inv alive dist]) (simp add: get_claim_def dist)
  moreover have "core (dispose env rt) = core (fold (\<lambda>(s, c) x. release_session env s (Some c) x) ?xs rt)"
    unfolding step by (simp add: dispose_def releaseAll_def Let_def core_def)
  ultimately show ?thesis using rt_inv_core by blast
qed

section \<open>Steps\<close>

inductive rt_step :: "rt_env \<Rightarrow> runtime \<Rightarrow> runtime \<Rightarrow> bool" for env where
  enqueueItemShared: "rt_step env rt (snd (withSharedQueue env (enqueueItem env penv sid dir raw) rt))"
| takeItemShared: "rt_step env rt (snd (withSharedQueue env (takeItem env sid iid) rt))"
| takeAllItemsShared: "rt_step env rt (snd (withSharedQueue env (takeAllItems env sid) rt))"
| reorderItemsShared: "rt_step env rt (snd (withSharedQueue env (reorderItems env sid ids) rt))"
| deleteItemShared: "rt_step env rt (snd (withSharedQueue env (deleteItem env sid iid) rt))"
| deleteSessionQueueShared: "rt_step env rt (snd (withSharedQueue env (deleteSessionQueue env sid) rt))"
| dropQueuedSessionShared: "pendingDrops rt = ds @ sid # ds' \<Longrightarrow>
    rt_step env rt (snd (withSharedQueue env (dropQueuedSession env sid) (rt\<lparr>pendingDrops := ds @ ds'\<rparr>)))"
| snapshotShared: "rt_step env rt (snd (snapshotSessionsShared env rt))"
| hold: "rt_step env rt (snd (setHold env sid held ttl rt))"
| event: "rt_step env rt (onEnvelope env ty props rt)"
| reconnect: "rt_step env rt (reconcileAll env rt)"
| stop: "rt_step env rt (dispose env rt)"
| timer: "arms rt sid = Some due \<Longrightarrow> due \<le> now rt \<Longrightarrow> rt_step env rt (tick env sid (clearArm sid rt))"
| wake: "holdWakes rt sid = Some due \<Longrightarrow> due < now rt \<Longrightarrow> rt_step env rt (tick env sid (clearHoldWake sid rt))"
| verified: "ticking rt sid = Some (PVerify itm dir) \<Longrightarrow> fresh_token token rt \<Longrightarrow>
    rt_step env rt (afterVerify env token (verifyIdle sid status messages) sid itm dir rt)"
| rechecked: "ticking rt sid = Some (PStillHead itm dir c) \<Longrightarrow> rt_step env rt (afterStillHead env sid itm dir c rt)"
| verified2: "ticking rt sid = Some (PVerify2 itm dir c) \<Longrightarrow>
    rt_step env rt (afterVerify2 env (verifyIdle sid status messages) sid itm dir c rt)"
| answered: "ticking rt sid = Some (PDeliver itm dir c) \<Longrightarrow> rt_step env rt (afterDeliver env ok sid itm dir c rt)"
| settled: "ticking rt sid = Some (PSettle itm dir c ok) \<Longrightarrow> rt_step env rt (afterSettle env sid itm dir c ok rt)"
| failed: "ticking rt sid = Some ph \<Longrightarrow> phase_claim ph = Some c \<Longrightarrow> rt_step env rt (dispatchThrows env sid c rt)"
| passing: "0 \<le> d \<Longrightarrow> rt_step env rt (rt\<lparr>now := now rt + d\<rparr>)"

inductive rt_reach :: "rt_env \<Rightarrow> runtime \<Rightarrow> runtime \<Rightarrow> bool" for env rt0 where
  begin_reach: "rt_reach env rt0 rt0"
| next_reach: "rt_reach env rt0 rt \<Longrightarrow> rt_step env rt rt' \<Longrightarrow> rt_reach env rt0 rt'"

definition start_runtime :: "store \<Rightarrow> string \<Rightarrow> claim_fs \<Rightarrow> int \<Rightarrow> runtime" where
  "start_runtime st qf fs t =
     \<lparr>rt_store = st, arms = Map.empty, holdWakes = Map.empty, holds = Map.empty, sending = Map.empty,
      activeDeliveries = {}, dispatchClaims = init_claims qf, backoffs = Map.empty, aborts = Map.empty,
      ticking = Map.empty, stopped = False, pendingDrops = [], announced = [], claimFiles = fs, now = t\<rparr>"

lemma step_inv:
  assumes "rt_step env rt rt'" "rt_inv env rt" "re_alive env (re_pid env)" "write_ok env"
  shows "rt_inv env rt'"
  using assms
proof (induction rule: rt_step.induct)
  case (dropQueuedSessionShared rt ds sid ds')
  have "rt_inv env (rt\<lparr>pendingDrops := ds @ ds'\<rparr>)"
    using dropQueuedSessionShared rt_inv_core [of "rt\<lparr>pendingDrops := ds @ ds'\<rparr>" rt] by (simp add: core_def)
  then show ?case using dropQueuedSessionShared by (intro dropQueuedSession_inv)
next
  case (hold rt sid held ttl)
  then show ?case using rt_inv_core [OF core_setHold] by blast
next
  case (event rt ty props)
  then show ?case using rt_inv_core [OF core_onEnvelope] by blast
next
  case (reconnect rt)
  then have "core (reconcileAll env rt) = core rt" by (intro core_reconcileAll) (simp add: rt_inv_ex_def store_good_def)
  then show ?case using reconnect rt_inv_core by blast
next
  case (timer rt sid due)
  then show ?case using rt_inv_core [OF core_timers(2)] by (blast intro: inv_tick)
next
  case (wake rt sid due)
  then show ?case using rt_inv_core [OF core_timers(3)] by (blast intro: inv_tick)
next
  case (failed rt sid ph c)
  have "ticking (arm sid d rt) sid = Some ph" for d
    using failed core_timers(1) [of sid d rt] by (simp add: core_def)
  then have "rt_inv env (finish_dispatch env sid (Some c) (arm sid d rt))" for d
    using failed by (intro inv_finish_phase [OF inv_arm]) auto
  then show ?case using failed inv_finish_phase [of env rt sid ph c] by (simp add: dispatchThrows_def)
next
  case (passing d rt)
  then show ?case using rt_inv_core [of "rt\<lparr>now := now rt + d\<rparr>" rt] by (simp add: core_def)
qed (simp_all add: snapshotSessionsShared_def still_head.shared_inv enqueue.shared_inv take.shared_inv take_all.shared_inv reorder.shared_inv delete.shared_inv
    clear.shared_inv dispose_inv afterVerify_inv afterStillHead_inv afterVerify2_inv afterDeliver_inv afterSettle_inv)

lemma start_inv:
  assumes "store_good st" "pendingWrites st = 0"
  shows "rt_inv env (start_runtime st qf fs t)"
  using assms
  by (simp add: rt_inv_ex_def claims_ok_def held_ok_def head_ok_def phase_ok_def claimed_def start_runtime_def
      init_claims_def get_claim_def)

lemma reach_inv:
  assumes "rt_reach env (start_runtime st qf fs t) rt" "store_good st" "pendingWrites st = 0"
    and "re_alive env (re_pid env)" "write_ok env"
  shows "rt_inv env rt"
  using assms by (induction rule: rt_reach.induct) (auto intro: start_inv step_inv)

section \<open>Properties\<close>

text \<open>A run for the witnesses: one saved item, from the start to its delivery.\<close>

definition demo_env :: rt_env where
  "demo_env = \<lparr>timing = QUEUE_TIMING, re_alive = (\<lambda>p. p = 1), re_digest = (\<lambda>s. s), re_pid = 1,
     rename_ok = True, write_ok = True\<rparr>"

definition demo_store :: store where
  "demo_store = flushWrites True (sample_store FileMissing 1)"

definition demo0 :: runtime where "demo0 = start_runtime demo_store ''q'' Map.empty 0"
definition demo1 :: runtime where "demo1 = reconcileAll demo_env demo0"
definition demo2 :: runtime where "demo2 = demo1\<lparr>now := now demo1 + 500\<rparr>"
definition demo3 :: runtime where "demo3 = tick demo_env ''s1'' (clearArm ''s1'' demo2)"

abbreviation demo_idle :: idleness where
  "demo_idle \<equiv> verifyIdle ''s1'' (Some (JObj [])) (Some (JArr []))"

abbreviation demo_item :: QueueItem where "demo_item \<equiv> sample_item ''a'' 1"

abbreviation demo_claim :: DispatchClaim where
  "demo_claim \<equiv> \<lparr>claim_path = ''q.dispatch-s1.claim'', claim_token = ''t''\<rparr>"

definition demo4 :: runtime where "demo4 = afterVerify demo_env ''t'' demo_idle ''s1'' demo_item ''/w'' demo3"
definition demo5 :: runtime where "demo5 = afterStillHead demo_env ''s1'' demo_item ''/w'' demo_claim demo4"
definition demo6 :: runtime where "demo6 = afterVerify2 demo_env demo_idle ''s1'' demo_item ''/w'' demo_claim demo5"
definition demo7 :: "bool \<Rightarrow> runtime" where "demo7 ok = afterDeliver demo_env ok ''s1'' demo_item ''/w'' demo_claim demo6"

lemma demo_store_good: "store_good demo_store" "pendingWrites demo_store = 0"
proof -
  have "store_good (sample_store FileMissing 1)"
    by (auto simp: store_good_def sample_store_wf sample_queue) (simp_all add: sample_store_def sample_item_def)
  then show "store_good demo_store" "pendingWrites demo_store = 0"
    using flush_good by (simp_all add: demo_store_def)
qed

lemma demo_refresh: "refreshed demo_env (x\<lparr>rt_store := demo_store\<rparr>) = x\<lparr>rt_store := demo_store\<rparr>"
proof -
  have "refreshPreservingEmpty True demo_store = (LLoaded, demo_store)" by code_simp
  then show ?thesis by (simp add: refreshed_def demo_env_def)
qed

lemma demo_flush: "flushed demo_env (x\<lparr>rt_store := demo_store\<rparr>) = x\<lparr>rt_store := demo_store\<rparr>"
  by (simp add: flushed_def flushWrites_def demo_store_good)

lemma demo_entry:
  "entryOf demo_store ''s1'' = Some \<lparr>directory = ''/w'', items = [demo_item]\<rparr>"
  "queue_of demo_store ''s1'' = [demo_item]" "writesDisabled demo_store = False"
  "nonEmptyEntries demo_store = [(''s1'', \<lparr>directory = ''/w'', items = [demo_item]\<rparr>)]"
  "item_id demo_item = ''queued-7''"
  by (simp_all add: demo_store_def sample_store_def flushWrites_def writeNow_def entryOf_def queue_of_def
      nonEmptyEntries_def sample_item_def)

lemma demo_idle_eq: "demo_idle = Idle"
  by (simp add: verifyIdle_def asRecord_def)

lemma demo1_eq: "demo1 = demo0\<lparr>arms := [''s1'' \<mapsto> 500]\<rparr>"
  by (simp add: demo1_def demo0_def start_runtime_def reconcileAll_def recoverWrites_def demo_entry armQuiet_def
      heldExpiryOf_def arm_def Let_def demo_env_def QUEUE_TIMING_def)

lemma demo3_eq: "demo3 = demo0\<lparr>now := 500, ticking := [''s1'' \<mapsto> PVerify demo_item ''/w'']\<rparr>"
  by (simp add: demo3_def demo2_def demo1_eq demo0_def start_runtime_def clearArm_def tick_def demo_entry
      heldExpiryOf_def tickVerified_def await_def Let_def)

definition demo_claims :: QueueDispatchClaims where
  "demo_claims = set_claim ''s1'' demo_claim (init_claims ''q'')"

definition demo_files :: claim_fs where
  "demo_files = [''q.dispatch-s1.claim'' \<mapsto>
     ClaimDoc \<lparr>doc_pid = 1, doc_token = ''t'', doc_itemId = ''queued-7'', doc_at = 500\<rparr>]"

definition demo_base :: "tick_phase \<Rightarrow> runtime" where
  "demo_base ph = demo0\<lparr>now := 500, ticking := [''s1'' \<mapsto> ph], dispatchClaims := demo_claims, claimFiles := demo_files\<rparr>"

lemma demo4_eq: "demo4 = demo_base (PStillHead demo_item ''/w'' demo_claim)"
proof -
  have "acquire (cenv demo_env demo3) ''t'' (dispatchClaims demo3) ''s1'' ''queued-7'' (claimFiles demo3) =
      (Some demo_claim, demo_files)"
    by (simp add: acquire_def pathFor_def cenv_def demo_env_def demo3_eq demo0_def start_runtime_def
        init_claims_def Let_def demo_files_def)
  moreover have "rt_store demo3 = demo_store" "dispatchClaims demo3 = init_claims ''q''"
    by (simp_all add: demo3_eq demo0_def start_runtime_def)
  moreover have "get_claim (init_claims ''q'') ''s1'' = None" by (simp add: init_claims_def get_claim_def)
  ultimately have "demo4 = await ''s1'' (PStillHead demo_item ''/w'' demo_claim)
      (demo3\<lparr>claimFiles := demo_files, dispatchClaims := demo_claims\<rparr>)"
    by (simp add: demo4_def demo_idle_eq afterVerify_def dispatchHead_def Let_def demo_entry demo_claims_def)
  then show ?thesis by (simp add: demo3_eq demo_base_def await_def demo0_def start_runtime_def)
qed

lemma demo5_eq: "demo5 = demo_base (PVerify2 demo_item ''/w'' demo_claim)"
proof -
  have b: "demo_base ph = (demo_base ph)\<lparr>rt_store := demo_store\<rparr>" for ph
    by (simp add: demo_base_def demo0_def start_runtime_def)
  have r: "refreshed demo_env (demo_base ph) = demo_base ph" "flushed demo_env (demo_base ph) = demo_base ph" for ph
    by (subst (2) b, subst b, simp only: demo_refresh demo_flush)+
  show ?thesis
    by (simp add: demo5_def demo4_eq afterStillHead_def withSharedQueue_def r Let_def)
       (simp add: demo_base_def demo0_def start_runtime_def await_def currentHeadId_def demo_entry)
qed

lemma demo6_eq:
  "demo6 = (demo_base (PDeliver demo_item ''/w'' demo_claim))\<lparr>sending := [''s1'' \<mapsto> ''queued-7''],
     activeDeliveries := {''s1''}, announced := [(3, ''/w'')]\<rparr>"
proof -
  have "owns demo_claims ''s1'' (Some demo_claim)" by (simp add: owns_def demo_claims_def)
  moreover have "revision demo_store = 3"
    by (simp add: demo_store_def flushWrites_def writeNow_def sample_store_def)
  ultimately show ?thesis
    by (simp add: demo6_def demo_idle_eq demo5_eq afterVerify2_def demo_base_def demo0_def start_runtime_def
        await_def announce_def announceWithRevision_def demo_entry)
qed

lemma demo_facts:
  "arms demo2 ''s1'' = Some 500" "now demo2 = 500"
  "ticking demo3 ''s1'' = Some (PVerify demo_item ''/w'')" "fresh_token ''t'' demo3"
  "ticking demo4 ''s1'' = Some (PStillHead demo_item ''/w'' demo_claim)"
  "ticking demo5 ''s1'' = Some (PVerify2 demo_item ''/w'' demo_claim)"
  "ticking demo6 ''s1'' = Some (PDeliver demo_item ''/w'' demo_claim)"
  "ticking (demo7 ok) ''s1'' = Some (PSettle demo_item ''/w'' demo_claim ok)"
  "sending demo6 ''s1'' = Some ''queued-7''" "sending (demo7 ok) ''s1'' = Some ''queued-7''"
proof -
  note base = demo_base_def demo0_def start_runtime_def
  show "arms demo2 ''s1'' = Some 500" "now demo2 = 500" by (simp_all add: demo2_def demo1_eq base)
  show "ticking demo3 ''s1'' = Some (PVerify demo_item ''/w'')" "fresh_token ''t'' demo3"
    by (simp_all add: demo3_eq base fresh_token_def init_claims_def)
  show "ticking demo4 ''s1'' = Some (PStillHead demo_item ''/w'' demo_claim)"
    "ticking demo5 ''s1'' = Some (PVerify2 demo_item ''/w'' demo_claim)"
    "ticking demo6 ''s1'' = Some (PDeliver demo_item ''/w'' demo_claim)"
    "sending demo6 ''s1'' = Some ''queued-7''"
    by (simp_all add: demo4_eq demo5_eq demo6_eq base)
  have "stopped demo6 = False" "sending demo6 ''s1'' = Some ''queued-7''" by (simp_all add: demo6_eq base)
  then show "ticking (demo7 ok) ''s1'' = Some (PSettle demo_item ''/w'' demo_claim ok)"
    "sending (demo7 ok) ''s1'' = Some ''queued-7''"
    by (simp_all add: demo7_def afterDeliver_def)
qed

lemma demo_reach: "rt_reach demo_env demo0 demo6" "rt_reach demo_env demo0 (demo7 ok)"
proof -
  have "rt_reach demo_env demo0 demo1"
    unfolding demo1_def by (rule next_reach [OF begin_reach]) (rule rt_step.reconnect)
  then have "rt_reach demo_env demo0 demo2"
    unfolding demo2_def by (rule next_reach) (rule rt_step.passing, simp)
  then have "rt_reach demo_env demo0 demo3"
    unfolding demo3_def by (rule next_reach) (rule rt_step.timer [OF demo_facts(1)], simp add: demo_facts)
  then have "rt_reach demo_env demo0 demo4"
    unfolding demo4_def by (rule next_reach) (rule rt_step.verified [OF demo_facts(3,4)])
  then have "rt_reach demo_env demo0 demo5"
    unfolding demo5_def by (rule next_reach) (rule rt_step.rechecked [OF demo_facts(5)])
  then show r6: "rt_reach demo_env demo0 demo6"
    unfolding demo6_def by (rule next_reach) (rule rt_step.verified2 [OF demo_facts(6)])
  show "rt_reach demo_env demo0 (demo7 ok)"
    unfolding demo7_def by (rule next_reach [OF r6]) (rule rt_step.answered [OF demo_facts(7)])
qed

lemma demo_env_ok: "re_alive demo_env (re_pid demo_env)" "write_ok demo_env" "timing demo_env = QUEUE_TIMING"
  by (simp_all add: demo_env_def)



lemma finish_sel:
  "rt_store (finish_dispatch env sid co rt) = rt_store rt" "announced (finish_dispatch env sid co rt) = announced rt"
  "backoffs (finish_dispatch env sid co rt) = backoffs rt" "arms (finish_dispatch env sid co rt) = arms rt"
  "sending (finish_dispatch env sid co rt) = (sending rt)(sid := None)"
  "ticking (finish_dispatch env sid co rt) = (ticking rt)(sid := None)"
  by (auto simp: finish_dispatch_def end_tick_def release_session_def Let_def split: option.splits)

lemma refreshed_sel:
  assumes "rt_inv env rt"
  shows "queue_of (rt_store (refreshed env rt)) = queue_of (rt_store rt)"
    "revision (rt_store (refreshed env rt)) = revision (rt_store rt)"
    "announced (refreshed env rt) = announced rt" "backoffs (refreshed env rt) = backoffs rt"
    "arms (refreshed env rt) = arms rt" "now (refreshed env rt) = now rt"
proof -
  have good: "store_good (rt_store rt)" "pendingWrites (rt_store rt) = 0" using assms by (auto simp: rt_inv_ex_def)
  note r = refresh_matching [OF good, of "rename_ok env"]
  show "queue_of (rt_store (refreshed env rt)) = queue_of (rt_store rt)"
    "revision (rt_store (refreshed env rt)) = revision (rt_store rt)"
    using r(1,4) by (simp_all add: refreshed_def queue_of_def fun_eq_iff)
qed (simp_all add: refreshed_def)

lemma flushed_rest:
  "queue_of (rt_store (flushed env x)) = queue_of (rt_store x)"
  "revision (rt_store (flushed env x)) = revision (rt_store x)"
  "announced (flushed env x) = announced x" "backoffs (flushed env x) = backoffs x" "arms (flushed env x) = arms x"
  by (simp_all add: flushed_def flushWrites_def writeNow_def queue_of_def entryOf_def fun_eq_iff)

lemma find_head: "queue_of st sid = it # rest \<Longrightarrow> fst (removeItem sid (item_id it) st) = Some it"
  by (auto simp: removeItem_def findItem_def queue_of_def split: option.splits)

text \<open>The queue and the claim of the tick that settles.\<close>

lemma settling:
  assumes inv: "rt_inv env rt" and s: "sending rt sid = Some (item_id itm)"
  obtains it rest where "queue_of (rt_store rt) sid = it # rest" "item_id it = item_id itm"
  using assms unfolding rt_inv_ex_def head_ok_def head_of_queue by blast

text \<open>
  A delivered item leaves the queue exactly once, durably: the settlement removes the
  head and nothing else, raises the revision by one and announces it, forgets the backoff, the
  in-flight mark and the claim, and the queue file already records the shorter queue, so a
  restarted server does not send the item again.\<close>

theorem delivered_item_leaves_queue_and_file:
  assumes "rt_reach env (start_runtime st qf fs t) rt" "store_good st" "pendingWrites st = 0"
    and "re_alive env (re_pid env)" "write_ok env"
    and "ticking rt sid = Some (PSettle itm dir c True)" "sending rt sid = Some (item_id itm)"
  defines "rt' \<equiv> afterSettle env sid itm dir c True rt"
  shows "queue_of (rt_store rt') sid = tl (queue_of (rt_store rt) sid) \<and>
     item_id (hd (queue_of (rt_store rt) sid)) = item_id itm \<and>
     (\<forall>s. s \<noteq> sid \<longrightarrow> queue_of (rt_store rt') s = queue_of (rt_store rt) s) \<and>
     revision (rt_store rt') = revision (rt_store rt) + 1 \<and>
     announced rt' = announced rt @ [(revision (rt_store rt'), dir)] \<and>
     sending rt' sid = None \<and> ticking rt' sid = None \<and> backoffs rt' sid = None \<and> claim_of rt' sid = None \<and>
     readQueueDoc (disk (rt_store rt')) =
       DocLoaded (revision (rt_store rt')) (map (\<lambda>(k, e). (k, Some e)) (nonEmptyEntries (rt_store rt')))"
proof -
  note inv = reach_inv [OF assms(1-5)]
  let ?r = "refreshed env rt"
  obtain it rest where q: "queue_of (rt_store rt) sid = it # rest" "item_id it = item_id itm"
    by (rule settling [OF inv assms(7)])
  note rs = refreshed_sel [OF inv]
  let ?d = "onDelivered itm sid dir ?r"
  have rt': "rt' = finish_dispatch env sid (Some c) (flushed env ?d)"
    by (simp add: rt'_def afterSettle_def withSharedQueue_def Let_def)
  have "fst (removeItem sid (item_id itm) (rt_store ?r)) = Some it" using find_head q rs(1) by metis
  then have d: "rt_store ?d = commit (snd (removeItem sid (item_id itm) (rt_store ?r)))"
    "announced ?d = announced rt @ [(revision (rt_store rt) + 1, dir)]" "backoffs ?d sid = None"
    by (simp_all add: onDelivered_def Let_def) (simp_all add: commit_announce_def announceWithRevision_def rs Let_def)
  have good: "store_good (rt_store ?r)" using inv_refreshed(1) [OF inv assms(4)] by (simp add: rt_inv_ex_def)
  have pend: "0 < pendingWrites (rt_store ?d)" "\<not> writesDisabled (rt_store ?r)" "0 \<le> revision (rt_store ?d)"
    using good by (simp_all add: d commit_def scheduleWrite_def store_good_def)
  have "readQueueDoc (disk (rt_store (flushed env ?d))) =
       DocLoaded (revision (rt_store ?d)) (map (\<lambda>(k, e). (k, Some e)) (nonEmptyEntries (rt_store ?d)))"
    using pend assms(5) by (simp add: flushed_def flushWrites_def writeNow_def read_persisted del: readQueueDoc.simps)
  moreover have "nonEmptyEntries (rt_store (flushed env ?d)) = nonEmptyEntries (rt_store ?d)"
    by (simp add: flushed_def flushWrites_def writeNow_def nonEmptyEntries_def)
  moreover have "claim_of rt' sid = None"
  proof -
    have m: "marks (flushed env ?d) = marks rt"
      using onDelivered_sel(1) [OF good] inv_refreshed(3) [OF inv assms(4)] by (simp add: flushed_sel)
    have e: "dispatchClaims (flushed env ?d) = dispatchClaims rt" "claimFiles (flushed env ?d) = claimFiles rt"
      using m by (simp_all add: marks_def)
    have "claims_ok env (flushed env ?d)" using inv claims_ok_cong [OF e] by (simp add: rt_inv_ex_def)
    then show ?thesis
      using phase_okD(1) [OF inv assms(6), of c] release_held_session [OF _ assms(4), of "flushed env ?d" sid c "Some c"]
        release_gone_session [of "flushed env ?d" sid c env] claim_of_released [of sid c "flushed env ?d" sid]
      by (auto simp: rt' finish_dispatch_eq e) (auto simp: cleared_def e)
  qed
  ultimately show ?thesis
    using q by (simp add: rt' finish_sel flushed_rest d queue_view rs)
qed

theorem delivered_item_leaves_queue_and_file_witness:
  "queue_of (rt_store (afterSettle demo_env ''s1'' demo_item ''/w'' demo_claim True (demo7 True))) ''s1'' =
     tl (queue_of (rt_store (demo7 True)) ''s1'') \<and>
   item_id (hd (queue_of (rt_store (demo7 True)) ''s1'')) = ''queued-7''"
  using delivered_item_leaves_queue_and_file [OF demo_reach(2) [of True, unfolded demo0_def] demo_store_good
      demo_env_ok(1,2) demo_facts(8)] demo_facts(10) [of True]
  by (simp add: demo_entry)

text \<open>
  A rejected item stays and is retried later: every queue and the revision are as
  before, the claim is kept, the failure count of this item grows by one (or starts at one), the
  next attempt is due after the exponential delay, and a timer is armed no later than that.\<close>

theorem rejected_item_stays_and_backs_off:
  assumes "rt_reach env (start_runtime st qf fs t) rt" "store_good st" "pendingWrites st = 0"
    and "re_alive env (re_pid env)" "write_ok env"
    and "ticking rt sid = Some (PSettle itm dir c False)" "sending rt sid = Some (item_id itm)"
  defines "rt' \<equiv> afterSettle env sid itm dir c False rt"
    and "n \<equiv> (case backoffs rt sid of
                 Some b \<Rightarrow> if bo_itemId b = item_id itm then bo_failures b + 1 else 1 | None \<Rightarrow> 1)"
  shows "(\<forall>s. queue_of (rt_store rt') s = queue_of (rt_store rt) s) \<and>
     revision (rt_store rt') = revision (rt_store rt) \<and> claim_of rt' sid = claim_of rt sid \<and>
     sending rt' sid = None \<and> ticking rt' sid = None \<and>
     backoffs rt' sid = Some \<lparr>bo_itemId = item_id itm, bo_failures = n,
                              bo_nextAttemptAt = now rt + failureDelayMs n (timing env)\<rparr> \<and>
     (\<exists>due. arms rt' sid = Some due \<and> due \<le> now rt + max 0 (failureDelayMs n (timing env)))"
proof -
  note inv = reach_inv [OF assms(1-5)]
  let ?r = "refreshed env rt"
  let ?x = "onRejected env itm sid dir ?r"
  note rs = refreshed_sel [OF inv]
  have h: "currentHeadId ?r sid = Some (item_id itm)"
    by (rule settling [OF inv assms(7)]) (simp add: currentHeadId_def rs)
  then have rt': "rt' = finish_dispatch env sid None (flushed env ?x)"
    by (simp add: rt'_def afterSettle_def withSharedQueue_def Let_def)
  have a: "\<exists>due. arms (arm sid d y) sid = Some due \<and> due \<le> now y + max 0 d" "backoffs (arm sid d y) = backoffs y" for d y
    by (auto simp: arm_def Let_def split: option.splits)
  have b: "backoffs ?x sid = Some \<lparr>bo_itemId = item_id itm, bo_failures = n,
        bo_nextAttemptAt = now rt + failureDelayMs n (timing env)\<rparr>"
    by (simp add: onRejected_def Let_def a announce_def announceWithRevision_def n_def rs cong: option.case_cong)
  have "\<exists>y. ?x = arm sid (failureDelayMs n (timing env)) y \<and> now y = now rt"
    unfolding onRejected_def Let_def n_def rs
    by (rule exI, rule conjI, rule refl) (simp add: announce_def announceWithRevision_def rs)
  then have x: "\<exists>due. arms ?x sid = Some due \<and> due \<le> now rt + max 0 (failureDelayMs n (timing env))"
    using a(1) [of "failureDelayMs n (timing env)"] by metis
  have "dispatchClaims ?x = dispatchClaims rt"
    using marks_onRejected [of env itm sid dir ?r] inv_refreshed(3) [OF inv assms(4)] by (simp add: marks_def)
  then have "claim_of rt' sid = claim_of rt sid"
    using flushed_sel(2) [of env ?x] by (simp add: rt' finish_dispatch_eq cleared_def marks_def)
  then show ?thesis
    using x b by (simp add: rt' finish_sel flushed_rest rs)
qed

theorem rejected_item_stays_and_backs_off_witness:
  "queue_of (rt_store (afterSettle demo_env ''s1'' demo_item ''/w'' demo_claim False (demo7 False))) ''s1'' =
     queue_of (rt_store (demo7 False)) ''s1''"
  using rejected_item_stays_and_backs_off [OF demo_reach(2) [of False, unfolded demo0_def] demo_store_good
      demo_env_ok(1,2) demo_facts(8)] demo_facts(10) [of False]
  by (simp add: demo_entry)

text \<open>
  The retry delay doubles from two seconds with each failure and is capped at one
  minute, which it reaches at the sixth failure; it never shrinks as failures accumulate.\<close>

theorem retry_delay_doubles_to_cap:
  assumes "1 \<le> n"
  shows "failureDelayMs n QUEUE_TIMING = min (2000 * 2 ^ nat (n - 1)) 60000 \<and>
     2000 \<le> failureDelayMs n QUEUE_TIMING \<and> (6 \<le> n \<longleftrightarrow> failureDelayMs n QUEUE_TIMING = 60000) \<and>
     (\<forall>m. n \<le> m \<longrightarrow> failureDelayMs n QUEUE_TIMING \<le> failureDelayMs m QUEUE_TIMING)"
proof -
  have big: "(60000::int) < 2000 * 2 ^ nat k" if "5 \<le> k" for k :: int
  proof -
    have "(2::int) ^ 5 \<le> 2 ^ nat k" by (rule power_increasing) (use that in auto)
    then show ?thesis by simp
  qed
  have small: "2000 * (2::int) ^ nat k \<le> 2000 * 2 ^ 4" if "k < 5" for k :: int
    using power_increasing [of "nat k" 4 "2::int"] that by auto
  have eq: "failureDelayMs k QUEUE_TIMING = min (2000 * 2 ^ nat (k - 1)) 60000" if "1 \<le> k" for k
    using that big [of "k - 1"] big [of 31]
    by (cases "k \<le> 32") (auto simp: failureDelayMs_def QUEUE_TIMING_def Let_def)
  have mono: "min (2000 * 2 ^ nat (n - 1)) 60000 \<le> min (2000 * (2::int) ^ nat (m - 1)) 60000" if "n \<le> m" for m
    using power_increasing [of "nat (n - 1)" "nat (m - 1)" "2::int"] that by linarith
  have one: "(1::int) \<le> 2 ^ nat (n - 1)" by simp
  have "6 \<le> n \<longleftrightarrow> min (2000 * 2 ^ nat (n - 1)) 60000 = (60000::int)"
    using big [of "n - 1"] small [of "n - 1"] by (cases "6 \<le> n") auto
  then show ?thesis using assms eq mono one by auto
qed

theorem retry_delay_doubles_to_cap_witness: "failureDelayMs 3 QUEUE_TIMING = 8000"
  using retry_delay_doubles_to_cap [of 3] by (simp add: numeral_eq_Suc)

text \<open>
  A hold is bounded and effective: whatever lifetime the client asks for, it ends
  within ten minutes, at a wake that is already scheduled; until then no dispatch timer is left
  and a tick of the session changes nothing, and from then on the tick sees no hold.\<close>

theorem hold_bounded_and_blocks_ticks:
  assumes "timing env = QUEUE_TIMING"
  shows "\<exists>e rt'. setHold env sid True ttl rt = (Some e, rt') \<and> now rt < e \<and> e \<le> now rt + 600000 \<and>
     arms rt' sid = None \<and> holdWakes rt' sid = Some e \<and> core rt' = core rt \<and>
     (\<forall>u. now rt \<le> u \<and> u < e \<longrightarrow> tick env sid (rt'\<lparr>now := u\<rparr>) = rt'\<lparr>now := u\<rparr> \<and>
            armQuiet env sid (rt'\<lparr>now := u\<rparr>) = rt'\<lparr>now := u\<rparr>) \<and>
     (\<forall>u. e \<le> u \<longrightarrow> fst (heldExpiryOf sid (rt'\<lparr>now := u\<rparr>)) = None)"
proof -
  define req where "req = (case positive_safe_int ttl of Some x \<Rightarrow> x | None \<Rightarrow> 300000)"
  define e where "e = now rt + min req 600000"
  define rt' where "rt' = armHoldWake sid e (clearArm sid (rt\<lparr>holds := (holds rt)(sid \<mapsto> e)\<rparr>))"
  have "x > 0" if "positive_safe_int ttl = Some x" for x
    using that by (auto simp: positive_safe_int_def split: option.splits jsnum.splits if_splits)
  then have req: "0 < req" by (auto simp: req_def split: option.splits)
  have eq: "setHold env sid True ttl rt = (Some e, rt')"
    using assms by (simp add: setHold_def Let_def e_def rt'_def req_def QUEUE_TIMING_def cong: option.case_cong)
  have held: "holds rt' sid = Some e" "arms rt' sid = None" "holdWakes rt' sid = Some e"
    by (simp_all add: rt'_def armHoldWake_def clearArm_def clearHoldWake_def Let_def)
  have "core rt' = core rt" using core_setHold [of env sid True ttl rt] eq by simp
  moreover have h: "heldExpiryOf sid (rt'\<lparr>now := u\<rparr>) = (Some e, rt'\<lparr>now := u\<rparr>)" if "u < e" for u
    using held that by (simp add: heldExpiryOf_def)
  moreover have "tick env sid (rt'\<lparr>now := u\<rparr>) = rt'\<lparr>now := u\<rparr>" if "u < e" for u
    using h [OF that] by (auto simp: tick_def Let_def split: option.splits list.splits)
  moreover have "fst (heldExpiryOf sid (rt'\<lparr>now := u\<rparr>)) = None" if "e \<le> u" for u
    using held that by (simp add: heldExpiryOf_def)
  ultimately show ?thesis
    using eq held req by (auto simp: e_def armQuiet_def)
qed

theorem hold_bounded_and_blocks_ticks_witness:
  "\<exists>e rt'. setHold demo_env ''s1'' True (Some (Fin 1)) demo0 = (Some e, rt') \<and> holdWakes rt' ''s1'' = Some e"
  using hold_bounded_and_blocks_ticks [OF demo_env_ok(3), of "''s1''" "Some (Fin 1)" demo0] by blast

lemma added_item_found:
  assumes wf: "store_wf st" and fresh: "item_id item \<notin> item_id ` set (queue_of st sid)"
    and enq: "enqueue sid dir item f st = Some st'"
  shows "findItem st' sid (item_id item) = Some item"
proof -
  note v = enqueue_viewD [OF wf fresh enq]
  let ?n = "Suc (length (queue_of st sid)) - QUEUE_MAX_ITEMS_PER_SESSION"
  have len: "length (queue_of st sid) \<le> QUEUE_MAX_ITEMS_PER_SESSION" "pinned_count (f sid) (queue_of st sid) \<le> 1"
    using wf distinct_pinned_count [of "queue_of st sid" "f sid"] by (auto simp: store_wf_def)
  then have "?n = 0 \<or> ?n + pinned_count (f sid) (queue_of st sid) < length (queue_of st sid)"
    by (auto simp: QUEUE_MAX_ITEMS_PER_SESSION_def)
  then have "queue_of st' sid = drop_unpinned (f sid) ?n (queue_of st sid) @ [item]"
    unfolding v(2) queue_after_def by (elim disjE) (auto intro: last_drop_unpinned)
  moreover have "distinct (map item_id (queue_of st' sid))" using v(1) by (simp add: store_wf_def)
  ultimately have "item \<in> set (queue_of st' sid)" "distinct (map item_id (queue_of st' sid))" by auto
  moreover have "find (\<lambda>i. item_id i = item_id item) xs = Some item"
    if "item \<in> set xs" "distinct (map item_id xs)" for xs
    using that by (induction xs) (auto simp: image_iff)
  moreover obtain e where "entryOf st' sid = Some e" "items e = queue_of st' sid"
    using calculation(1) by (cases "entryOf st' sid") (auto simp: queue_of_def)
  ultimately show ?thesis by (simp add: findItem_def)
qed

text \<open>
  Enqueueing is idempotent across a lost acknowledgement: a body with an id for
  itself and for each attachment, sent again after it was accepted (at any later time, with
  whatever the server draws), is answered as a duplicate with the current revision and changes
  nothing.\<close>

theorem enqueue_retry_is_idempotent:
  assumes "store_wf (rt_store rt)"
    and "parseQueuedItemInput p1 (Some body) = Inr a" "parseQueuedItemInput p2 (Some body) = Inr b"
    and "optionalString (prop_of body ''id'') ''id'' = Inr (Some i)"
    and "\<forall>e \<in> set (array_of (prop_of body ''attachments'')). has_own_id e"
    and "enqueueItem env p1 sid dir (Some body) rt = (EnqOk n i d, rt1)"
  shows "enqueueItem env p2 sid dir (Some body) rt1 = (EnqOk (revision (rt_store rt1)) i True, rt1)"
proof -
  have ids: "item_id a = i" "item_id b = i"
    using parsed_id [OF assms(2,4)] parsed_id [OF assms(3,4)] by simp_all
  have ab: "sameQueuePayload a b" by (rule same_body_same_payload [OF assms(2,3,5)])
  have "\<exists>p. findItem (rt_store rt1) sid i = Some p \<and> sameQueuePayload p b"
  proof (cases "findItem (rt_store rt) sid i")
    case (Some p)
    then have "rt1 = rt" "sameQueuePayload p a"
      using assms(2,6) ids by (auto simp: enqueueItem_def split: if_splits)
    then show ?thesis using Some same_payload_trans [OF _ ab] by auto
  next
    case None
    then obtain st where enq: "enqueue sid dir a (inFlight env rt) (rt_store rt) = Some st" "rt_store rt1 = st"
      using assms(2,6) ids by (auto simp: enqueueItem_def split: option.splits)
    have "i \<notin> item_id ` set (queue_of (rt_store rt) sid)" by (rule findItem_None [OF None])
    then show ?thesis using added_item_found [OF assms(1) _ enq(1)] enq(2) ab ids by auto
  qed
  then show ?thesis using assms(3) ids by (auto simp: enqueueItem_def)
qed

lemma demo_enqueue:
  "\<exists>n d rt1. enqueueItem demo_env (sample_env 5) ''s1'' ''/w'' (Some (sample_body (Some ''a''))) demo0 =
     (EnqOk n ''queued-7'' d, rt1)"
proof -
  have p: "parseQueuedItemInput (sample_env 5) (Some (sample_body (Some ''a''))) = Inr (sample_item ''a'' 5)"
    by (simp add: parse_eval)
  have f: "findItem (rt_store demo0) ''s1'' ''queued-7'' = Some demo_item"
    by (simp add: findItem_def demo0_def start_runtime_def demo_entry)
  have "sameQueuePayload demo_item (sample_item ''a'' 5)"
    by (simp add: sameQueuePayload_def queue_project_def sample_item_def)
  moreover have "item_id (sample_item ''a'' 5) = ''queued-7''" by (simp add: sample_item_def)
  ultimately have "enqueueItem demo_env (sample_env 5) ''s1'' ''/w'' (Some (sample_body (Some ''a''))) demo0 =
      (EnqOk (revision (rt_store demo0)) ''queued-7'' True, demo0)"
    using p f by (simp add: enqueueItem_def)
  then show ?thesis by blast
qed

theorem enqueue_retry_is_idempotent_witness:
  "\<exists>rt1. enqueueItem demo_env (sample_env 9) ''s1'' ''/w'' (Some (sample_body (Some ''a''))) rt1 =
     (EnqOk (revision (rt_store rt1)) ''queued-7'' True, rt1)"
proof -
  obtain n d rt1 where e: "enqueueItem demo_env (sample_env 5) ''s1'' ''/w'' (Some (sample_body (Some ''a''))) demo0 =
     (EnqOk n ''queued-7'' d, rt1)"
    using demo_enqueue by blast
  have p: "parseQueuedItemInput (sample_env k) (Some (sample_body (Some ''a''))) = Inr (sample_item ''a'' (of_nat k))" for k
    by (simp add: parse_eval)
  have wf: "store_wf (rt_store demo0)" using demo_store_good(1) by (simp add: demo0_def start_runtime_def store_good_def)
  have i: "optionalString (prop_of (sample_body (Some ''a'')) ''id'') ''id'' = Inr (Some ''queued-7'')"
    by (simp add: sample_body_def trim_def trim_start_def trim_end_def js_space_def)
  have "\<forall>e \<in> set (array_of (prop_of (sample_body (Some ''a'')) ''attachments'')). has_own_id e"
    by (simp add: sample_body_def array_of_def has_own_id_def trim_def trim_start_def trim_end_def js_space_def)
  then show ?thesis using enqueue_retry_is_idempotent [OF wf p p i _ e] by blast
qed

text \<open>A refresh shows the queues the file records, whatever the memory held.\<close>

lemma refresh_shows_file:
  assumes dm: "disk_matches st0" and dist: "distinct (map fst (sessions st0))" "distinct (map fst (sessions st))"
    and disk: "disk st = disk st0"
  shows "queue_of (snd (refreshPreservingEmpty rn st)) s = queue_of st0 s"
proof -
  let ?empty = "filter (\<lambda>(k, e). items e = []) (sessions st)"
  let ?l = "snd (load rn st)"
  have l: "sessions ?l = nonEmptyEntries st0"
    using dm disk by (auto simp: disk_matches_def load_def)
  have de: "distinct (map fst ?empty)" using dist(2) by (metis distinct_map_filter)
  have new: "map_of (sessions (snd (refreshPreservingEmpty rn st))) s =
      (if map_of (nonEmptyEntries st0) s \<noteq> None then map_of (nonEmptyEntries st0) s else map_of ?empty s)"
    by (simp add: refreshPreservingEmpty_def Let_def fold_readd [OF de] has_session_def l)
  have emp: "items e = []" if "map_of (filter (\<lambda>(k, e). items e = []) xs) s = Some e" for e xs
    using map_of_SomeD [OF that] by auto
  have old: "map_of (sessions st0) s = (if map_of (nonEmptyEntries st0) s \<noteq> None then map_of (nonEmptyEntries st0) s
      else map_of (filter (\<lambda>(k, e). items e = []) (sessions st0)) s)"
    unfolding nonEmptyEntries_def by (rule map_of_split_empty [OF dist(1), symmetric])
  show ?thesis
    unfolding queue_of_def entryOf_def new old by (auto dest!: emp split: option.splits)
qed

text \<open>
  A failed file write goes unnoticed: the enqueue is acknowledged and announced, the
  item is in memory, and the next operation under the lock, which first refreshes from the
  file, no longer finds it.\<close>

theorem acknowledged_item_lost_after_failed_write:
  assumes "store_good (rt_store rt)" "pendingWrites (rt_store rt) = 0" "\<not> write_ok env"
    and "withSharedQueue env (enqueueItem env penv sid dir raw) rt = (EnqOk n i False, rt1)"
  shows "i \<in> item_id ` set (queue_of (rt_store rt1) sid) \<and>
     (\<forall>s. queue_of (rt_store (refreshed env rt1)) s = queue_of (rt_store rt) s) \<and>
     i \<notin> item_id ` set (queue_of (rt_store (refreshed env rt1)) sid)"
proof -
  let ?r = "refreshed env rt"
  note r = refresh_matching [OF assms(1,2), of "rename_ok env"]
  have good: "store_good (rt_store ?r)" "pendingWrites (rt_store ?r) = 0" using r by (simp_all add: refreshed_def)
  have q: "queue_of (rt_store ?r) = queue_of (rt_store rt)"
    using r(1) by (simp add: refreshed_def queue_of_def fun_eq_iff)
  obtain item where p: "parseQueuedItemInput penv raw = Inr item" "item_id item = i"
      "findItem (rt_store ?r) sid i = None"
    and e: "enqueue sid dir item (inFlight env ?r) (rt_store ?r) = Some (rt_store (snd (enqueueItem env penv sid dir raw ?r)))"
    and rt1: "rt1 = flushed env (snd (enqueueItem env penv sid dir raw ?r))"
    using assms(4)
    by (auto simp: withSharedQueue_def enqueueItem_def Let_def split: sum.splits option.splits if_splits)
  note new = findItem_None [OF p(3)]
  let ?st = "rt_store (snd (enqueueItem env penv sid dir raw ?r))"
  have wf: "store_wf (rt_store ?r)" using good by (simp add: store_good_def)
  have wf': "store_wf ?st" by (rule enqueue_viewD(1) [OF wf _ e]) (use new p in simp)
  have found: "findItem ?st sid i = Some item"
    using added_item_found [OF wf _ e] new p(2) by simp
  obtain ss where ss: "?st = commit ((rt_store ?r)\<lparr>sessions := ss\<rparr>)"
    using enqueue_shape [OF e] by blast
  have s1: "rt_store rt1 = ?st\<lparr>pendingWrites := 0\<rparr>"
    using assms(3) by (simp add: rt1 flushed_def flushWrites_def writeNow_def)
  have "disk ?st = disk (rt_store ?r)" by (simp add: ss commit_def scheduleWrite_def)
  then have "queue_of (rt_store (refreshed env rt1)) s = queue_of (rt_store ?r) s" for s
    using good wf wf' unfolding refreshed_def s1 store_good_def store_wf_def
    by simp (rule refresh_shows_file, auto)
  moreover have "queue_of (rt_store rt1) sid = queue_of ?st sid"
    by (simp add: s1 queue_of_def entryOf_def)
  moreover have "i \<in> item_id ` set (queue_of ?st sid)"
    using found findItem_None [of ?st sid i] by (auto simp: findItem_def queue_of_def find_Some_iff split: option.splits)
  ultimately show ?thesis using q new by simp
qed

theorem acknowledged_item_lost_after_failed_write_witness:
  "\<exists>n rt1. withSharedQueue (demo_env\<lparr>write_ok := False\<rparr>)
       (enqueueItem (demo_env\<lparr>write_ok := False\<rparr>) (sample_env 5) ''s9'' ''/w'' (Some (sample_body (Some ''a'')))) demo0 =
       (EnqOk n ''queued-7'' False, rt1) \<and>
     queue_of (rt_store (refreshed (demo_env\<lparr>write_ok := False\<rparr>) rt1)) ''s9'' = []"
proof -
  let ?env = "demo_env\<lparr>write_ok := False\<rparr>"
  let ?op = "enqueueItem ?env (sample_env 5) ''s9'' ''/w'' (Some (sample_body (Some ''a'')))"
  have g: "store_good (rt_store demo0)" "pendingWrites (rt_store demo0) = 0" "\<not> write_ok ?env"
    using demo_store_good by (simp_all add: demo0_def start_runtime_def)
  let ?r = "refreshed ?env demo0"
  note r = refresh_matching [OF g(1,2), of True]
  have e9: "entryOf (rt_store ?r) ''s9'' = None"
    using r(1) by (simp add: refreshed_def demo_env_def) (simp add: demo0_def start_runtime_def demo_store_def
      flushWrites_def writeNow_def sample_store_def entryOf_def)
  have wf: "store_wf (rt_store ?r)" using r(2) by (simp add: refreshed_def demo_env_def store_good_def)
  have p: "parseQueuedItemInput (sample_env 5) (Some (sample_body (Some ''a''))) = Inr (sample_item ''a'' 5)"
    by (simp add: parse_eval)
  have q9: "queue_of (rt_store ?r) ''s9'' = []" by (simp add: queue_of_def e9)
  then have "item_id (sample_item ''a'' 5) \<notin> item_id ` set (queue_of (rt_store ?r) ''s9'')" by simp
  then obtain st where "enqueue ''s9'' ''/w'' (sample_item ''a'' 5) (inFlight ?env ?r) (rt_store ?r) = Some st"
    using sq.add_total [OF wf] by blast
  then have "\<exists>n rt1. withSharedQueue ?env ?op demo0 = (EnqOk n ''queued-7'' False, rt1)"
    using p e9 by (simp add: withSharedQueue_def enqueueItem_def Let_def findItem_def) (simp add: sample_item_def)
  then obtain n rt1 where w: "withSharedQueue ?env ?op demo0 = (EnqOk n ''queued-7'' False, rt1)" by blast
  have "queue_of (rt_store demo0) ''s9'' = []"
    by (simp add: demo0_def start_runtime_def demo_store_def flushWrites_def writeNow_def sample_store_def
        queue_of_def entryOf_def)
  then show ?thesis using acknowledged_item_lost_after_failed_write [OF g w] w by auto
qed

end
