(* ===== verification/Sched_Time.thy ===== *)
theory Sched_Time
  imports Prelude "HOL-Library.Char_ord" "HOL-Library.List_Lexorder"
begin

text \<open>
  Next-run computation of scheduled tasks (\<open>server/scheduled/next-run.ts\<close>). Instants are
  milliseconds since the epoch. The UTC calendar (\<open>Date.UTC\<close> and the \<open>getUTC\<close> accessors)
  is defined here; the time-zone database behind \<open>Intl\<close> is an argument, the offset of a
  zone's wall clock at each instant, and so are the occurrences of a cron expression.
\<close>

section \<open>The UTC calendar\<close>

definition leap :: "int \<Rightarrow> bool" where
  "leap y \<longleftrightarrow> 4 dvd y \<and> (\<not> 100 dvd y \<or> 400 dvd y)"

text \<open>Days from 0000-01-01 to the first day of the year.\<close>

definition days_before_year :: "int \<Rightarrow> int" where
  "days_before_year y = 365 * y + (y + 3) div 4 - (y + 99) div 100 + (y + 399) div 400"

definition month_starts :: "bool \<Rightarrow> int list" where
  "month_starts lp =
     (if lp then [0, 31, 60, 91, 121, 152, 182, 213, 244, 274, 305, 335]
      else [0, 31, 59, 90, 120, 151, 181, 212, 243, 273, 304, 334])"

definition year_days :: "int \<Rightarrow> int" where
  "year_days y = (if leap y then 366 else 365)"

text \<open>Days since the epoch of a date; the day of the month may run over.\<close>

definition days_of_date :: "int \<Rightarrow> int \<Rightarrow> int \<Rightarrow> int" where
  "days_of_date y mo d =
     days_before_year y - 719528 + (month_starts (leap y) ! nat (mo - 1)) + (d - 1)"

definition year_of_day :: "int \<Rightarrow> int" where
  "year_of_day n =
     (let e = n + 719528; y = (400 * e) div 146097
      in if e < days_before_year y then y - 1 else if days_before_year (y + 1) \<le> e then y + 1 else y)"

text \<open>The month (from one) a day of the year lies in.\<close>

definition month_of :: "bool \<Rightarrow> int \<Rightarrow> int" where
  "month_of lp n = int (length (filter (\<lambda>s. s \<le> n) (month_starts lp)))"

definition date_of_day :: "int \<Rightarrow> int \<times> int \<times> int" where
  "date_of_day n =
     (let y = year_of_day n; r = n + 719528 - days_before_year y; mo = month_of (leap y) r
      in (y, mo, r - month_starts (leap y) ! nat (mo - 1) + 1))"

definition day_ms :: int where "day_ms = 86400000"

definition minute_ms :: int where "minute_ms = 60000"

text \<open>\<open>Date.UTC(y, mo - 1, d, h, mi)\<close>; years 0 to 99 mean the twentieth century.\<close>

definition date_UTC :: "int \<Rightarrow> int \<Rightarrow> int \<Rightarrow> int \<Rightarrow> int \<Rightarrow> int" where
  "date_UTC y mo d h mi =
     days_of_date (if 0 \<le> y \<and> y \<le> 99 then 1900 + y else y) mo d * day_ms + h * 3600000 + mi * minute_ms"

definition utc_day :: "int \<Rightarrow> int" where
  "utc_day n = (n + 4) mod 7"

record WallClock =
  w_y :: int
  w_mo :: int
  w_d :: int
  w_h :: int
  w_mi :: int
  w_weekday :: int

text \<open>The UTC fields of an instant.\<close>

definition utc_fields :: "int \<Rightarrow> WallClock" where
  "utc_fields t =
     (let n = t div day_ms; m = (t mod day_ms) div minute_ms; dt = date_of_day n
      in \<lparr>w_y = fst dt, w_mo = fst (snd dt), w_d = snd (snd dt), w_h = m div 60, w_mi = m mod 60,
          w_weekday = utc_day n\<rparr>)"

section \<open>Zones, schedules\<close>

definition TASK_DUE_SLACK_MS :: int where "TASK_DUE_SLACK_MS = 5000"
definition TASK_CANDIDATE_DAYS :: nat where "TASK_CANDIDATE_DAYS = 14"
definition TASK_CRON_MAX :: nat where "TASK_CRON_MAX = 200"

text \<open>\<open>zoneOffset\<close> is the offset of the wall clock, in milliseconds; \<open>cronTimes\<close> the
  successive answers of the cron iterator, \<open>None\<close> where it throws.\<close>

record zone_env =
  zoneValid :: "string \<Rightarrow> bool"
  zoneOffset :: "string \<Rightarrow> int \<Rightarrow> int"
  cronTimes :: "string \<Rightarrow> string \<Rightarrow> int \<Rightarrow> nat \<Rightarrow> int option"

datatype Schedule =
    Daily "string list" string
  | Weekly "string list" "rat list" string
  | Once string string string
  | Cron string string

fun timezone :: "Schedule \<Rightarrow> string" where
  "timezone (Daily _ z) = z"
| "timezone (Weekly _ _ z) = z"
| "timezone (Once _ _ z) = z"
| "timezone (Cron _ z) = z"

abbreviation isValidZone :: "zone_env \<Rightarrow> string \<Rightarrow> bool" where
  "isValidZone env zone \<equiv> zoneValid env zone"

definition digit_val :: "char \<Rightarrow> int" where
  "digit_val c = int (of_char c) - 48"

fun HH_MM :: "string \<Rightarrow> bool" where
  "HH_MM [a, b, c, e, f] \<longleftrightarrow>
     (a \<in> {CHR ''0'', CHR ''1''} \<and> is_digit b \<or> a = CHR ''2'' \<and> b \<in> {CHR ''0'', CHR ''1'', CHR ''2'', CHR ''3''}) \<and>
     c = CHR '':'' \<and> e \<in> {CHR ''0'', CHR ''1'', CHR ''2'', CHR ''3'', CHR ''4'', CHR ''5''} \<and> is_digit f"
| "HH_MM _ = False"

fun ISO_DATE :: "string \<Rightarrow> bool" where
  "ISO_DATE [y1, y2, y3, y4, s, m1, m2, t, d1, d2] \<longleftrightarrow>
     list_all is_digit [y1, y2, y3, y4, m2, d2] \<and> s = CHR ''-'' \<and> t = CHR ''-'' \<and>
     (m1 = CHR ''0'' \<and> m2 \<noteq> CHR ''0'' \<or> m1 = CHR ''1'' \<and> m2 \<in> {CHR ''0'', CHR ''1'', CHR ''2''}) \<and>
     (d1 = CHR ''0'' \<and> d2 \<noteq> CHR ''0'' \<or> d1 \<in> {CHR ''1'', CHR ''2''} \<or> d1 = CHR ''3'' \<and> d2 \<in> {CHR ''0'', CHR ''1''})"
| "ISO_DATE _ = False"

text \<open>\<open>time.split(':').map(Number)\<close> on a string the pattern accepts.\<close>

fun hhmm :: "string \<Rightarrow> int \<times> int" where
  "hhmm [a, b, c, e, f] = (10 * digit_val a + digit_val b, 10 * digit_val e + digit_val f)"
| "hhmm _ = (0, 0)"

fun ymd :: "string \<Rightarrow> int \<times> int \<times> int" where
  "ymd [y1, y2, y3, y4, s, m1, m2, t, d1, d2] =
     (1000 * digit_val y1 + 100 * digit_val y2 + 10 * digit_val y3 + digit_val y4,
      10 * digit_val m1 + digit_val m2, 10 * digit_val d1 + digit_val d2)"
| "ymd _ = (0, 0, 0)"

section \<open>next-run.ts\<close>

fun cron_loop :: "(nat \<Rightarrow> int option) \<Rightarrow> int \<Rightarrow> nat \<Rightarrow> nat \<Rightarrow> int option" where
  "cron_loop it now 0 i = (case it i of Some t \<Rightarrow> if t > now + TASK_DUE_SLACK_MS then Some t else None | None \<Rightarrow> None)"
| "cron_loop it now (Suc guard) i =
     (case it i of
        None \<Rightarrow> None
      | Some t \<Rightarrow> if t \<le> now + TASK_DUE_SLACK_MS then cron_loop it now guard (Suc i) else Some t)"

definition cronNextAt :: "zone_env \<Rightarrow> string \<Rightarrow> string \<Rightarrow> int \<Rightarrow> int option" where
  "cronNextAt env expression zone now =
     (if expression = [] \<or> length expression > TASK_CRON_MAX \<or> \<not> isValidZone env zone then None
      else cron_loop (cronTimes env expression zone now) now 8 0)"

definition parts :: "zone_env \<Rightarrow> int \<Rightarrow> string \<Rightarrow> WallClock" where
  "parts env epochMs zone = utc_fields (epochMs + zoneOffset env zone epochMs)"

definition offsetMs :: "zone_env \<Rightarrow> int \<Rightarrow> string \<Rightarrow> int" where
  "offsetMs env epochMs zone =
     (let wall = parts env epochMs zone
      in date_UTC (w_y wall) (w_mo wall) (w_d wall) (w_h wall) (w_mi wall) - epochMs)"

record wall_target =
  t_y :: int
  t_mo :: int
  t_d :: int
  t_h :: int
  t_mi :: int

definition matches :: "zone_env \<Rightarrow> string \<Rightarrow> wall_target \<Rightarrow> int \<Rightarrow> bool" where
  "matches env zone target epoch =
     (let wall = parts env epoch zone
      in w_y wall = t_y target \<and> w_mo wall = t_mo target \<and> w_d wall = t_d target \<and>
         w_h wall = t_h target \<and> w_mi wall = t_mi target)"

fun step_back :: "(int \<Rightarrow> bool) \<Rightarrow> nat \<Rightarrow> int \<Rightarrow> int" where
  "step_back P 0 t = t"
| "step_back P (Suc n) t = (if P (t - minute_ms) then step_back P n (t - minute_ms) else t)"

definition epochOfWall :: "zone_env \<Rightarrow> wall_target \<Rightarrow> string \<Rightarrow> int option" where
  "epochOfWall env target zone =
     (let base = date_UTC (t_y target) (t_mo target) (t_d target) (t_h target) (t_mi target);
          best = base - offsetMs env (base - offsetMs env base zone) zone
      in if \<not> matches env zone target best then None
         else Some (step_back (matches env zone target) 120 best))"

definition minuteSet :: "string list \<Rightarrow> string list" where
  "minuteSet slots = sort (remdups (filter HH_MM slots))"

fun first_time :: "zone_env \<Rightarrow> string \<Rightarrow> int \<Rightarrow> int \<Rightarrow> string list \<Rightarrow> int option" where
  "first_time env zone now day [] = None"
| "first_time env zone now day (time # ts) =
     (let dt = date_of_day day; hm = hhmm time;
          instant = epochOfWall env \<lparr>t_y = fst dt, t_mo = fst (snd dt), t_d = snd (snd dt),
                                    t_h = fst hm, t_mi = snd hm\<rparr> zone
      in case instant of
           Some t \<Rightarrow> if t > now + TASK_DUE_SLACK_MS then Some t else first_time env zone now day ts
         | None \<Rightarrow> first_time env zone now day ts)"

text \<open>The stamp is noon UTC of the day, so it is kept as the day number.\<close>

fun walk_days :: "zone_env \<Rightarrow> string list \<Rightarrow> int list option \<Rightarrow> string \<Rightarrow> int \<Rightarrow> nat \<Rightarrow> int \<Rightarrow> int option" where
  "walk_days env slots weekdays zone now 0 day = None"
| "walk_days env slots weekdays zone now (Suc left) day =
     (case (if (case weekdays of None \<Rightarrow> True | Some ws \<Rightarrow> utc_day day \<in> set ws)
            then first_time env zone now day slots else None) of
        Some t \<Rightarrow> Some t
      | None \<Rightarrow> walk_days env slots weekdays zone now left (day + 1))"

definition nextCandidate :: "zone_env \<Rightarrow> string list \<Rightarrow> int list option \<Rightarrow> string \<Rightarrow> int \<Rightarrow> int option" where
  "nextCandidate env slots weekdays zone now =
     (let start = parts env now zone
      in walk_days env slots weekdays zone now (Suc TASK_CANDIDATE_DAYS)
           (date_UTC (w_y start) (w_mo start) (w_d start) 12 0 div day_ms))"

definition parseOnceSlot :: "string \<Rightarrow> string \<Rightarrow> wall_target option" where
  "parseOnceSlot date time =
     (if \<not> ISO_DATE date \<or> \<not> HH_MM time then None
      else Some \<lparr>t_y = fst (ymd date), t_mo = fst (snd (ymd date)), t_d = snd (snd (ymd date)),
                 t_h = fst (hhmm time), t_mi = snd (hhmm time)\<rparr>)"

text \<open>The integers from 0 to 6 among the values given.\<close>

definition week_set :: "rat list \<Rightarrow> int list" where
  "week_set ws = sort (map floor (filter (\<lambda>w. w = of_int \<lfloor>w\<rfloor> \<and> 0 \<le> w \<and> w \<le> 6) (remdups ws)))"

definition computeNextRunAt :: "zone_env \<Rightarrow> Schedule option \<Rightarrow> bool \<Rightarrow> int \<Rightarrow> int option" where
  "computeNextRunAt env schedule enabled now =
     (case schedule of
        None \<Rightarrow> None
      | Some s \<Rightarrow>
          if \<not> enabled \<or> \<not> isValidZone env (timezone s) then None
          else (case s of
                  Daily slots zone \<Rightarrow>
                    if minuteSet slots = [] then None else nextCandidate env (minuteSet slots) None zone now
                | Weekly slots days zone \<Rightarrow>
                    if minuteSet slots = [] \<or> week_set days = [] then None
                    else nextCandidate env (minuteSet slots) (Some (week_set days)) zone now
                | Once date time zone \<Rightarrow>
                    (case parseOnceSlot date time of
                       None \<Rightarrow> None
                     | Some slot \<Rightarrow>
                         (case epochOfWall env slot zone of
                            Some t \<Rightarrow> if t > now + TASK_DUE_SLACK_MS then Some t else None
                          | None \<Rightarrow> None))
                | Cron expression zone \<Rightarrow> cronNextAt env expression zone now))"

section \<open>The calendar is right\<close>

text \<open>A year has the days its leap rule gives, and the day numbers of a date and of its
  calendar fields determine each other.\<close>

lemma ceil_step:
  fixes k y :: int
  assumes "0 < k"
  shows "(y + k) div k - (y + (k - 1)) div k = (if k dvd y then 1 else 0)"
proof -
  define q r where "q = y div k" and "r = y mod k"
  have y: "y = r + q * k" and r: "0 \<le> r" "r < k" using assms by (simp_all add: q_def r_def)
  have "(y + k) div k = q + 1" using assms by (simp add: q_def)
  moreover have "(y + (k - 1)) div k = q + (r + (k - 1)) div k"
    using assms div_mult_self1 [of k "r + (k - 1)" q] by (simp add: y algebra_simps)
  moreover have "(r + (k - 1)) div k = (if r = 0 then 0 else 1)"
    using r assms by (auto simp: div_pos_pos_trivial intro!: int_div_pos_eq [where r = "r - 1"])
  moreover have "k dvd y \<longleftrightarrow> r = 0" by (simp add: r_def dvd_eq_mod_eq_0)
  ultimately show ?thesis by simp
qed

lemma ceil_bounds:
  fixes k y :: int
  assumes "0 < k"
  shows "y \<le> k * ((y + (k - 1)) div k)" "k * ((y + (k - 1)) div k) \<le> y + (k - 1)"
proof -
  have "k * ((y + (k - 1)) div k) + (y + (k - 1)) mod k = y + (k - 1)" by simp
  moreover have "0 \<le> (y + (k - 1)) mod k" "(y + (k - 1)) mod k < k" using assms by simp_all
  ultimately show "y \<le> k * ((y + (k - 1)) div k)" "k * ((y + (k - 1)) div k) \<le> y + (k - 1)" by linarith+
qed

lemma days_before_year_step: "days_before_year (y + 1) = days_before_year y + year_days y"
proof -
  have step: "(y + k) div k = (y + j) div k + of_bool (k dvd y)" if "0 < k" "j = k - 1" for j k
    using ceil_step [OF that(1), of y] unfolding that(2) by (simp only: diff_eq_eq of_bool_def add.commute)
  have s: "(y + 4) div 4 = (y + 3) div 4 + of_bool (4 dvd y)"
    "(y + 100) div 100 = (y + 99) div 100 + of_bool (100 dvd y)"
    "(y + 400) div 400 = (y + 399) div 400 + of_bool (400 dvd y)"
    by (rule step; simp)+
  have e: "y + 1 + 3 = y + 4" "y + 1 + 99 = y + 100" "y + 1 + 399 = y + 400" by simp_all
  have sum: "365 * (y + 1) + (a + p) - (b + q) + (c + r) = 365 * y + a - b + c + (365 + p - q + r)"
    for a b c p q r :: int by simp
  have "days_before_year (y + 1) =
      days_before_year y + (365 + of_bool (4 dvd y) - of_bool (100 dvd y) + of_bool (400 dvd y))"
    unfolding days_before_year_def e s sum by (rule refl)
  moreover have "400 dvd y \<Longrightarrow> 100 dvd y" "100 dvd y \<Longrightarrow> 4 dvd y"
    using dvd_trans [of 100 400 y] dvd_trans [of 4 100 y] by simp_all
  then have "365 + of_bool (4 dvd y) - of_bool (100 dvd y) + of_bool (400 dvd y) = year_days y"
    unfolding year_days_def leap_def by (cases "4 dvd y"; cases "100 dvd y"; cases "400 dvd y") simp_all
  ultimately show ?thesis by simp
qed

lemma days_before_year_bounds:
  "146097 * y - 396 \<le> 400 * days_before_year y" "400 * days_before_year y \<le> 146097 * y + 699"
proof -
  show "146097 * y - 396 \<le> 400 * days_before_year y" "400 * days_before_year y \<le> 146097 * y + 699"
    using ceil_bounds [of 4 y] ceil_bounds [of 100 y] ceil_bounds [of 400 y]
    unfolding days_before_year_def by simp_all
qed

lemma year_of_day_correct:
  "days_before_year (year_of_day n) \<le> n + 719528 \<and> n + 719528 < days_before_year (year_of_day n + 1)"
proof -
  define e where "e = n + 719528"
  define y where "y = (400 * e) div 146097"
  have y: "146097 * y \<le> 400 * e" "400 * e < 146097 * (y + 1)"
    using mult_div_mod_eq [of 146097 "400 * e"] pos_mod_bound [of 146097 "400 * e"] pos_mod_sign [of 146097 "400 * e"]
    unfolding y_def distrib_left by linarith+
  have "days_before_year (y - 1) \<le> e" using days_before_year_bounds(2) [of "y - 1"] y unfolding right_diff_distrib by linarith
  moreover have "e < days_before_year (y + 2)" using days_before_year_bounds(1) [of "y + 2"] y unfolding distrib_left by linarith
  moreover have "year_of_day n = (if e < days_before_year y then y - 1 else if days_before_year (y + 1) \<le> e then y + 1 else y)"
    by (simp add: year_of_day_def Let_def e_def y_def)
  ultimately show ?thesis by (auto simp: e_def add.assoc)
qed

lemma month_of_correct:
  assumes "0 \<le> r" "r < (if lp then 366 else 365)"
  shows "month_of lp r \<in> {1..12} \<and> month_starts lp ! nat (month_of lp r - 1) \<le> r \<and>
    r < (month_starts lp @ [if lp then 366 else 365]) ! nat (month_of lp r)"
proof (cases lp)
  case True
  then have "r < 31 \<or> (31 \<le> r \<and> r < 60) \<or> (60 \<le> r \<and> r < 91) \<or> (91 \<le> r \<and> r < 121) \<or> (121 \<le> r \<and> r < 152) \<or>
     (152 \<le> r \<and> r < 182) \<or> (182 \<le> r \<and> r < 213) \<or> (213 \<le> r \<and> r < 244) \<or> (244 \<le> r \<and> r < 274) \<or>
     (274 \<le> r \<and> r < 305) \<or> (305 \<le> r \<and> r < 335) \<or> (335 \<le> r \<and> r < 366)"
    using assms by (simp del: disj_not1) linarith
  then show ?thesis
    using True assms(1) by (elim disjE conjE) (simp_all add: month_of_def month_starts_def)
next
  case False
  then have "r < 31 \<or> (31 \<le> r \<and> r < 59) \<or> (59 \<le> r \<and> r < 90) \<or> (90 \<le> r \<and> r < 120) \<or> (120 \<le> r \<and> r < 151) \<or>
     (151 \<le> r \<and> r < 181) \<or> (181 \<le> r \<and> r < 212) \<or> (212 \<le> r \<and> r < 243) \<or> (243 \<le> r \<and> r < 273) \<or>
     (273 \<le> r \<and> r < 304) \<or> (304 \<le> r \<and> r < 334) \<or> (334 \<le> r \<and> r < 365)"
    using assms by (simp del: disj_not1) linarith
  then show ?thesis
    using False assms(1) by (elim disjE conjE) (simp_all add: month_of_def month_starts_def)
qed

lemma days_of_date_of_day: "(case date_of_day n of (y, mo, d) \<Rightarrow> days_of_date y mo d) = n"
  by (simp add: date_of_day_def days_of_date_def Let_def)

lemma date_of_day_inj: "date_of_day m = date_of_day n \<Longrightarrow> m = n"
  using days_of_date_of_day by metis

lemma modern_year:
  assumes "0 \<le> n"
  shows "1900 < year_of_day n"
proof (rule ccontr)
  assume "\<not> 1900 < year_of_day n"
  then have "year_of_day n + 1 \<le> 1901" by simp
  then have "146097 * (year_of_day n + 1) \<le> 146097 * 1901" by (rule mult_left_mono) simp
  then have "400 * days_before_year (year_of_day n + 1) \<le> 146097 * 1901 + 699"
    using days_before_year_bounds(2) [of "year_of_day n + 1"] by linarith
  then show False using year_of_day_correct [of n] assms by linarith
qed

lemma date_UTC_of_day:
  assumes "0 \<le> n"
  shows "date_UTC (fst (date_of_day n)) (fst (snd (date_of_day n))) (snd (snd (date_of_day n))) h mi =
    n * day_ms + h * 3600000 + mi * minute_ms"
proof -
  have "fst (date_of_day n) = year_of_day n" by (simp add: date_of_day_def Let_def)
  then show ?thesis
    using days_of_date_of_day [of n] modern_year [OF assms] by (simp add: date_UTC_def split_beta)
qed

lemma minute_split: "t div 60000 = 1440 * (t div 86400000) + (t mod 86400000) div 60000" for t :: int
proof -
  have "t div 60000 = (t mod 86400000 + 60000 * (1440 * (t div 86400000))) div 60000"
    using div_mult_mod_eq [of t 86400000] by (simp add: algebra_simps)
  then show ?thesis by (simp only: div_mult_self2)
qed

text \<open>The fields of an instant, to the minute, give the instant back.\<close>

lemma date_UTC_fields:
  assumes "0 \<le> t"
  shows "date_UTC (w_y (utc_fields t)) (w_mo (utc_fields t)) (w_d (utc_fields t)) (w_h (utc_fields t)) (w_mi (utc_fields t))
    = t div minute_ms * minute_ms"
proof -
  have n: "0 \<le> t div day_ms" using assms by (simp add: day_ms_def)
  define m where "m = (t mod day_ms) div minute_ms"
  have "date_UTC (w_y (utc_fields t)) (w_mo (utc_fields t)) (w_d (utc_fields t)) (w_h (utc_fields t)) (w_mi (utc_fields t))
      = t div day_ms * day_ms + (m div 60) * 3600000 + (m mod 60) * minute_ms"
    using date_UTC_of_day [OF n] by (simp add: utc_fields_def Let_def m_def)
  also have "\<dots> = t div day_ms * day_ms + m * minute_ms"
    using div_mult_mod_eq [of m 60] unfolding minute_ms_def by linarith
  also have "\<dots> = t div minute_ms * minute_ms"
    unfolding m_def day_ms_def minute_ms_def
    using div_mult_mod_eq [of t 86400000] minute_split [of t] by linarith
  finally show ?thesis .
qed

section \<open>Every answer is a slot\<close>

lemma step_back_holds: "P t \<Longrightarrow> P (step_back P n t)"
  by (induction n arbitrary: t) auto

lemma epochOfWall_matches: "epochOfWall env target zone = Some t \<Longrightarrow> matches env zone target t"
  by (auto simp: epochOfWall_def Let_def step_back_holds split: if_splits)

abbreviation day_target :: "int \<Rightarrow> string \<Rightarrow> wall_target" where
  "day_target day time \<equiv> \<lparr>t_y = fst (date_of_day day), t_mo = fst (snd (date_of_day day)),
     t_d = snd (snd (date_of_day day)), t_h = fst (hhmm time), t_mi = snd (hhmm time)\<rparr>"

lemma first_time_Some:
  "first_time env zone now day slots = Some t \<Longrightarrow>
   now + TASK_DUE_SLACK_MS < t \<and> (\<exists>time \<in> set slots. matches env zone (day_target day time) t)"
  by (induction slots) (auto simp: Let_def epochOfWall_matches split: option.splits if_splits)

lemma walk_days_Some:
  "walk_days env slots ws zone now left day = Some t \<Longrightarrow>
   \<exists>d. first_time env zone now d slots = Some t \<and> (\<forall>l. ws = Some l \<longrightarrow> utc_day d \<in> set l)"
  by (induction left arbitrary: day) (auto split: option.splits if_splits)

lemma nextCandidate_Some:
  assumes "nextCandidate env slots ws zone now = Some t"
  shows "now + TASK_DUE_SLACK_MS < t \<and>
     (\<exists>time \<in> set slots. hhmm time = (w_h (parts env t zone), w_mi (parts env t zone))) \<and>
     (\<forall>l. ws = Some l \<longrightarrow> w_weekday (parts env t zone) \<in> set l)"
proof -
  obtain d where d: "first_time env zone now d slots = Some t" "\<forall>l. ws = Some l \<longrightarrow> utc_day d \<in> set l"
    using walk_days_Some [OF assms [unfolded nextCandidate_def Let_def]] by blast
  obtain time where time: "time \<in> set slots" "matches env zone (day_target d time) t" "now + TASK_DUE_SLACK_MS < t"
    using first_time_Some [OF d(1)] by blast
  let ?u = "t + zoneOffset env zone t"
  have "date_of_day (?u div day_ms) = date_of_day d"
    using time(2) by (simp add: matches_def parts_def utc_fields_def Let_def prod_eq_iff)
  then have "w_weekday (parts env t zone) = utc_day d"
    using date_of_day_inj by (auto simp: parts_def utc_fields_def Let_def)
  moreover have "hhmm time = (w_h (parts env t zone), w_mi (parts env t zone))"
    using time(2) by (simp add: matches_def Let_def prod_eq_iff)
  ultimately show ?thesis using d(2) time by metis
qed

lemma set_minuteSet: "set (minuteSet slots) = {s \<in> set slots. HH_MM s}"
  by (auto simp: minuteSet_def)

lemma set_week_set: "set (week_set ws) = {i. of_int i \<in> set ws \<and> 0 \<le> i \<and> i \<le> 6}"
proof -
  have "i \<in> set (week_set ws) \<longleftrightarrow> of_int i \<in> set ws \<and> 0 \<le> i \<and> i \<le> 6" for i
  proof
    assume "i \<in> set (week_set ws)"
    then obtain w where "w \<in> set ws" "w = of_int \<lfloor>w\<rfloor>" "0 \<le> w" "w \<le> 6" "i = \<lfloor>w\<rfloor>"
      by (auto simp: week_set_def)
    then show "of_int i \<in> set ws \<and> 0 \<le> i \<and> i \<le> 6" by (auto simp: le_floor_iff floor_le_iff)
  next
    assume "of_int i \<in> set ws \<and> 0 \<le> i \<and> i \<le> 6"
    then have "of_int i \<in> {w \<in> set ws. w = of_int \<lfloor>w\<rfloor> \<and> 0 \<le> w \<and> w \<le> 6}" by simp
    then show "i \<in> set (week_set ws)" by (force simp: week_set_def)
  qed
  then show ?thesis by blast
qed

lemma cron_loop_Some:
  "cron_loop it now g i = Some t \<Longrightarrow> now + TASK_DUE_SLACK_MS < t \<and> (\<exists>k \<le> g. it (i + k) = Some t)"
proof (induction g arbitrary: i)
  case 0
  then show ?case by (auto split: option.splits if_splits)
next
  case (Suc g)
  show ?case
  proof (cases "\<exists>x. it i = Some x \<and> x \<le> now + TASK_DUE_SLACK_MS")
    case True
    then have "cron_loop it now g (Suc i) = Some t" using Suc.prems by auto
    then have "now + TASK_DUE_SLACK_MS < t \<and> (\<exists>k \<le> g. it (Suc i + k) = Some t)" by (rule Suc.IH)
    then show ?thesis by (metis Suc_le_mono add_Suc add_Suc_right)
  next
    case False
    then show ?thesis using Suc.prems by (intro conjI exI [of _ 0]) (auto split: option.splits if_splits)
  qed
qed

text \<open>C37.
  The next run is a slot of the schedule: strictly more than the slack of five
  seconds ahead, at a wall-clock time the schedule names in its own zone, on a weekday it names,
  on its date, or an occurrence of its cron expression; a wall time that does not exist (a
  spring-forward gap) is never answered.\<close>

theorem next_run_is_a_slot:
  assumes "computeNextRunAt env (Some s) enabled now = Some t"
  shows "enabled \<and> zoneValid env (timezone s) \<and> now + 5000 < t \<and>
    (let wall = parts env t (timezone s) in
     case s of
       Daily slots zone \<Rightarrow> \<exists>time \<in> set slots. HH_MM time \<and> hhmm time = (w_h wall, w_mi wall)
     | Weekly slots days zone \<Rightarrow>
         (\<exists>time \<in> set slots. HH_MM time \<and> hhmm time = (w_h wall, w_mi wall)) \<and> of_int (w_weekday wall) \<in> set days
     | Once date time zone \<Rightarrow>
         (w_y wall, w_mo wall, w_d wall) = ymd date \<and> (w_h wall, w_mi wall) = hhmm time
     | Cron expression zone \<Rightarrow> \<exists>i \<le> 8. cronTimes env expression zone now i = Some t)"
proof (cases s)
  case (Daily slots zone)
  then have "nextCandidate env (minuteSet slots) None zone now = Some t" "enabled" "zoneValid env zone"
    using assms by (auto simp: computeNextRunAt_def split: if_splits)
  then show ?thesis
    using nextCandidate_Some [of env "minuteSet slots" None zone now t] Daily
    by (auto simp: set_minuteSet TASK_DUE_SLACK_MS_def Let_def)
next
  case (Weekly slots days zone)
  then have "nextCandidate env (minuteSet slots) (Some (week_set days)) zone now = Some t" "enabled" "zoneValid env zone"
    using assms by (auto simp: computeNextRunAt_def split: if_splits)
  then show ?thesis
    using nextCandidate_Some [of env "minuteSet slots" "Some (week_set days)" zone now t] Weekly
    by (auto simp: set_minuteSet set_week_set TASK_DUE_SLACK_MS_def Let_def)
next
  case (Once date time zone)
  then have "enabled" "zoneValid env zone" "now + TASK_DUE_SLACK_MS < t"
    "\<exists>slot. parseOnceSlot date time = Some slot \<and> epochOfWall env slot zone = Some t"
    using assms by (auto simp: computeNextRunAt_def split: if_splits option.splits)
  then show ?thesis
    using Once by (auto simp: parseOnceSlot_def matches_def Let_def prod_eq_iff TASK_DUE_SLACK_MS_def
        split: if_splits dest!: epochOfWall_matches)
next
  case (Cron expression zone)
  then have "enabled" "zoneValid env zone" "cron_loop (cronTimes env expression zone now) now 8 0 = Some t"
    using assms by (auto simp: computeNextRunAt_def cronNextAt_def split: if_splits)
  then show ?thesis
    using cron_loop_Some [of "cronTimes env expression zone now" now 8 0 t] Cron by (auto simp: TASK_DUE_SLACK_MS_def)
qed

text \<open>A zone two hours ahead, for the witnesses.\<close>

definition plus_two :: zone_env where
  "plus_two = \<lparr>zoneValid = (\<lambda>z. z = ''E''), zoneOffset = (\<lambda>z t. 7200000), cronTimes = (\<lambda>e z n i. None)\<rparr>"

lemma plus_two_daily:
  "computeNextRunAt plus_two (Some (Daily [''09:30'', ''02:00''] ''E'')) True 0 = Some 27000000"
  by code_simp

theorem next_run_is_a_slot_witness:
  "\<exists>time \<in> set [''09:30'', ''02:00'']. HH_MM time \<and>
     hhmm time = (w_h (parts plus_two 27000000 ''E''), w_mi (parts plus_two 27000000 ''E''))"
  using next_run_is_a_slot [OF plus_two_daily] by (simp add: Let_def)

section \<open>The earliest slot in a zone of fixed offset\<close>

text \<open>Minutes of the day of a time string.\<close>

definition mins :: "string \<Rightarrow> int" where
  "mins time = 60 * fst (hhmm time) + snd (hhmm time)"

lemma HH_MM_cases:
  assumes "HH_MM s"
  obtains a b c d where "s = [a, b, CHR '':'', c, d]" "digit_val a \<in> {0, 1, 2}" "digit_val b \<in> {0..9}"
    "digit_val a = 2 \<longrightarrow> digit_val b \<le> 3" "digit_val c \<in> {0..5}" "digit_val d \<in> {0..9}"
proof -
  obtain a b c e f where s: "s = [a, b, c, e, f]"
    using assms by (cases s rule: HH_MM.cases) auto
  then show ?thesis using assms that [of a b e f] by (auto simp: digit_val_def is_digit_def)
qed

lemma HH_MM_bounds:
  assumes "HH_MM s"
  shows "0 \<le> fst (hhmm s)" "fst (hhmm s) < 24" "0 \<le> snd (hhmm s)" "snd (hhmm s) < 60"
proof -
  obtain a b c d where s: "s = [a, b, CHR '':'', c, d]" "digit_val a \<in> {0, 1, 2}" "digit_val b \<in> {0..9}"
    "digit_val a = 2 \<longrightarrow> digit_val b \<le> 3" "digit_val c \<in> {0..5}" "digit_val d \<in> {0..9}"
    by (rule HH_MM_cases [OF assms])
  then show "0 \<le> fst (hhmm s)" "fst (hhmm s) < 24" "0 \<le> snd (hhmm s)" "snd (hhmm s) < 60" by auto
qed

lemma mins_bounds: "HH_MM s \<Longrightarrow> 0 \<le> mins s \<and> mins s < 1440"
  using HH_MM_bounds [of s] by (simp add: mins_def)

lemma char_less_digit: "a < b \<longleftrightarrow> digit_val a < digit_val b"
  by (simp add: digit_val_def less_char_def)

lemma char_eq_digit: "a = b \<longleftrightarrow> digit_val a = digit_val b"
  by (auto simp: digit_val_def)

lemma mins_mono:
  assumes "HH_MM s" "HH_MM t" "s \<le> t"
  shows "mins s \<le> mins t"
proof -
  obtain a b c d where s: "s = [a, b, CHR '':'', c, d]" "digit_val b \<in> {0..9}"
    "digit_val c \<in> {0..5}" "digit_val d \<in> {0..9}"
    by (rule HH_MM_cases [OF assms(1)])
  obtain a' b' c' d' where t: "t = [a', b', CHR '':'', c', d']" "digit_val b' \<in> {0..9}"
    "digit_val c' \<in> {0..5}" "digit_val d' \<in> {0..9}"
    by (rule HH_MM_cases [OF assms(2)])
  have "digit_val a < digit_val a' \<or> digit_val a = digit_val a' \<and>
      (digit_val b < digit_val b' \<or> digit_val b = digit_val b' \<and>
       (digit_val c < digit_val c' \<or> digit_val c = digit_val c' \<and> digit_val d \<le> digit_val d'))"
    using assms(3) unfolding s(1) t(1)
    by (simp add: le_less char_less_digit) (metis char_eq_digit order_le_less)
  then show ?thesis using s t by (auto simp: mins_def)
qed

definition fixed_offset :: "zone_env \<Rightarrow> string \<Rightarrow> int \<Rightarrow> bool" where
  "fixed_offset env zone c \<longleftrightarrow>
     zoneValid env zone \<and> minute_ms dvd c \<and> \<bar>c\<bar> \<le> day_ms \<and> (\<forall>t. zoneOffset env zone t = c)"

text \<open>The instant of a time string on a day, in wall-clock milliseconds.\<close>

definition wall_ms :: "int \<Rightarrow> string \<Rightarrow> int" where
  "wall_ms day time = day * day_ms + mins time * minute_ms"

lemma wall_ms_fields:
  assumes "HH_MM time"
  shows "utc_fields (wall_ms day time) = \<lparr>w_y = fst (date_of_day day), w_mo = fst (snd (date_of_day day)),
     w_d = snd (snd (date_of_day day)), w_h = fst (hhmm time), w_mi = snd (hhmm time), w_weekday = utc_day day\<rparr>"
proof -
  have m: "0 \<le> mins time * minute_ms" "mins time * minute_ms < day_ms"
    using mins_bounds [OF assms] by (simp_all add: minute_ms_def day_ms_def)
  then have d: "wall_ms day time div day_ms = day" "wall_ms day time mod day_ms = mins time * minute_ms"
    by (simp_all add: wall_ms_def day_ms_def)
  have "mins time div 60 = fst (hhmm time)" "mins time mod 60 = snd (hhmm time)"
    using HH_MM_bounds [OF assms] by (simp_all add: mins_def)
  then show ?thesis by (simp add: utc_fields_def Let_def d) (simp add: minute_ms_def)
qed

lemma date_UTC_wall:
  assumes "HH_MM time" "0 \<le> day"
  shows "date_UTC (fst (date_of_day day)) (fst (snd (date_of_day day))) (snd (snd (date_of_day day)))
     (fst (hhmm time)) (snd (hhmm time)) = wall_ms day time"
  using date_UTC_of_day [OF assms(2)] by (simp add: wall_ms_def mins_def minute_ms_def)

lemma minute_dvd_wall: "minute_ms dvd wall_ms day time"
  by (simp add: wall_ms_def minute_ms_def day_ms_def)

text \<open>In such a zone each wall time is one instant.\<close>

lemma fixed_epochOfWall:
  assumes fx: "fixed_offset env zone c" and hm: "HH_MM time" and day: "1 \<le> day"
  shows "epochOfWall env (day_target day time) zone = Some (wall_ms day time - c)"
proof -
  let ?w = "wall_ms day time"
  have off: "zoneOffset env zone t = c" for t using fx by (simp add: fixed_offset_def)
  have c: "minute_ms dvd c" "\<bar>c\<bar> \<le> day_ms" using fx by (simp_all add: fixed_offset_def)
  have w: "day_ms \<le> ?w"
    using mins_bounds [OF hm] day unfolding wall_ms_def minute_ms_def day_ms_def by linarith
  have fl: "t div minute_ms * minute_ms = t" if "minute_ms dvd t" for t using that by simp
  have o: "offsetMs env u zone = c" if "0 \<le> u + c" "minute_ms dvd u" for u
    using date_UTC_fields [OF that(1)] fl [of "u + c"] that(2) c(1)
    by (simp add: offsetMs_def parts_def off Let_def)
  have "offsetMs env ?w zone = c" by (rule o) (use w c in \<open>auto simp: minute_dvd_wall\<close>)
  moreover have "offsetMs env (?w - c) zone = c"
    by (rule o) (use w c minute_dvd_wall in \<open>auto simp: day_ms_def\<close>)
  moreover have m: "matches env zone (day_target day time) (?w - c)"
    by (simp add: matches_def parts_def off wall_ms_fields [OF hm] Let_def)
  moreover have "\<not> matches env zone (day_target day time) (?w - c - minute_ms)"
  proof
    assume "matches env zone (day_target day time) (?w - c - minute_ms)"
    then have "date_UTC (w_y (utc_fields (?w - minute_ms))) (w_mo (utc_fields (?w - minute_ms))) (w_d (utc_fields (?w - minute_ms)))
        (w_h (utc_fields (?w - minute_ms))) (w_mi (utc_fields (?w - minute_ms))) = ?w"
      using date_UTC_wall [OF hm] day by (simp add: matches_def parts_def off Let_def)
    moreover have "0 \<le> ?w - minute_ms" using w by (simp add: day_ms_def minute_ms_def)
    ultimately have "?w - minute_ms = ?w"
      using date_UTC_fields [of "?w - minute_ms"] fl [of "?w - minute_ms"] minute_dvd_wall by simp
    then show False by (simp add: minute_ms_def)
  qed
  moreover have "step_back P 120 u = u" if "\<not> P (u - minute_ms)" for P u
    using that by (simp add: numeral_eq_Suc)
  ultimately show ?thesis
    using date_UTC_wall [OF hm] day by (simp add: epochOfWall_def Let_def)
qed

text \<open>The walk finds the first day that has a time, and the first time of that day.\<close>

lemma first_time_least:
  assumes fx: "fixed_offset env zone c" and day: "1 \<le> day"
    and slots: "sorted slots" "\<And>s. s \<in> set slots \<Longrightarrow> HH_MM s"
    and some: "s \<in> set slots" "now + TASK_DUE_SLACK_MS < wall_ms day s - c"
  shows "\<exists>t. first_time env zone now day slots = Some t \<and> t \<le> wall_ms day s - c"
  using slots some
proof (induction slots)
  case (Cons x xs)
  have e: "epochOfWall env (day_target day x) zone = Some (wall_ms day x - c)"
    using Cons.prems by (intro fixed_epochOfWall [OF fx _ day]) simp
  show ?case
  proof (cases "now + TASK_DUE_SLACK_MS < wall_ms day x - c")
    case True
    have "mins x \<le> mins s" using Cons.prems by (auto intro: mins_mono)
    then show ?thesis using e True by (simp add: Let_def wall_ms_def minute_ms_def)
  next
    case False
    then have "s \<in> set xs" using Cons.prems(3,4) by auto
    then show ?thesis using Cons False e by (simp add: Let_def)
  qed
qed simp

lemma first_time_on_day:
  assumes fx: "fixed_offset env zone c" and day: "1 \<le> day" and hm: "\<And>s. s \<in> set slots \<Longrightarrow> HH_MM s"
    and t: "first_time env zone now day slots = Some t"
  shows "\<exists>s \<in> set slots. t = wall_ms day s - c"
  using hm t
proof (induction slots)
  case (Cons x xs)
  have e: "epochOfWall env (day_target day x) zone = Some (wall_ms day x - c)"
    using Cons.prems by (intro fixed_epochOfWall [OF fx _ day]) simp
  show ?case using Cons e by (auto simp: Let_def split: if_splits)
qed simp

lemma wall_ms_less:
  assumes "HH_MM s" "HH_MM s'" "d < d'"
  shows "wall_ms d s < wall_ms d' s'"
proof -
  have "(d + 1) * day_ms \<le> d' * day_ms" using assms(3) by (simp add: day_ms_def)
  then show ?thesis
    using mins_bounds [OF assms(1)] mins_bounds [OF assms(2)]
    unfolding wall_ms_def minute_ms_def day_ms_def distrib_right by linarith
qed

lemma walk_days_least:
  assumes fx: "fixed_offset env zone c" and slots: "sorted slots" "\<And>s. s \<in> set slots \<Longrightarrow> HH_MM s"
    and day: "1 \<le> day" and d: "day \<le> d" "d < day + int left"
    and some: "s \<in> set slots" "now + TASK_DUE_SLACK_MS < wall_ms d s - c"
  shows "\<exists>t. walk_days env slots None zone now left day = Some t \<and> t \<le> wall_ms d s - c"
  using day d
proof (induction left arbitrary: day)
  case (Suc left)
  show ?case
  proof (cases "first_time env zone now day slots")
    case (Some t)
    obtain s' where s': "s' \<in> set slots" "t = wall_ms day s' - c"
      using first_time_on_day [OF fx Suc.prems(1) slots(2) Some] by blast
    have "t \<le> wall_ms d s - c"
    proof (cases "day = d")
      case True
      then show ?thesis using first_time_least [OF fx Suc.prems(1) slots some(1), of now] some(2) Some by auto
    next
      case False
      then show ?thesis using wall_ms_less [of s' s day d] slots(2) s' some(1) Suc.prems(2) by force
    qed
    then show ?thesis using Some by simp
  next
    case None
    then have "day \<noteq> d" using first_time_least [OF fx Suc.prems(1) slots some(1), of now] some(2) by auto
    then show ?thesis using None Suc by simp
  qed
qed simp

lemma fixed_start_day:
  assumes "fixed_offset env zone c" "0 \<le> now + c"
  shows "date_UTC (w_y (parts env now zone)) (w_mo (parts env now zone)) (w_d (parts env now zone)) 12 0 div day_ms
     = (now + c) div day_ms"
proof -
  have n: "0 \<le> (now + c) div day_ms" using assms(2) by (simp add: day_ms_def)
  have "date_UTC (w_y (parts env now zone)) (w_mo (parts env now zone)) (w_d (parts env now zone)) 12 0
      = (now + c) div day_ms * day_ms + 12 * 3600000 + 0 * minute_ms"
    using assms(1) date_UTC_of_day [OF n, of 12 0]
    by (simp add: parts_def utc_fields_def fixed_offset_def Let_def)
  then show ?thesis by (simp add: day_ms_def)
qed

lemma sorted_minuteSet: "sorted (minuteSet slots)"
  by (simp add: minuteSet_def)

text \<open>A minute-aligned instant whose wall clock shows a time string is that string's instant.\<close>

lemma wall_ms_of_fields:
  assumes "minute_ms dvd w" "hhmm time = (w_h (utc_fields w), w_mi (utc_fields w))"
  shows "w = wall_ms (w div day_ms) time"
proof -
  define m where "m = (w mod day_ms) div minute_ms"
  have "mins time = m" using assms(2) by (simp add: mins_def utc_fields_def Let_def m_def)
  moreover have "minute_ms dvd w mod day_ms" using assms(1) by (simp add: day_ms_def minute_ms_def dvd_mod)
  then have "m * minute_ms = w mod day_ms" by (simp add: m_def)
  ultimately show ?thesis by (simp add: wall_ms_def)
qed

text \<open>
  In a zone of fixed offset a daily task never misses a day: a task with at least one
  valid time always has a next run, at most a day and the slack ahead, and no minute in between
  shows one of its times on the wall clock.\<close>

theorem daily_next_run_is_earliest:
  assumes "fixed_offset env zone c" "minuteSet slots \<noteq> []" "3 * day_ms \<le> now"
  shows "\<exists>t. computeNextRunAt env (Some (Daily slots zone)) True now = Some t \<and> t \<le> now + 5000 + day_ms \<and>
    (\<forall>u. now + 5000 < u \<and> u < t \<and> minute_ms dvd u \<longrightarrow>
       \<not> (\<exists>time \<in> set slots. HH_MM time \<and> hhmm time = (w_h (parts env u zone), w_mi (parts env u zone))))"
proof -
  let ?ms = "minuteSet slots"
  define D where "D = (now + c) div day_ms"
  have c: "\<bar>c\<bar> \<le> day_ms" "minute_ms dvd c" "zoneValid env zone" "\<And>t. zoneOffset env zone t = c"
    using assms(1) by (auto simp: fixed_offset_def)
  have "now + c \<ge> 2 * day_ms" using assms(3) c(1) by linarith
  then have D1: "1 \<le> D" and nn: "0 \<le> now + c" unfolding D_def day_ms_def by linarith+
  have hm: "\<And>s. s \<in> set ?ms \<Longrightarrow> HH_MM s" by (simp add: set_minuteSet)
  have run: "computeNextRunAt env (Some (Daily slots zone)) True now = walk_days env ?ms None zone now 15 D"
    using c(3) assms(2) fixed_start_day [OF assms(1) nn]
    by (simp add: computeNextRunAt_def nextCandidate_def TASK_CANDIDATE_DAYS_def D_def Let_def)
  have least: "\<exists>t. walk_days env ?ms None zone now 15 D = Some t \<and> t \<le> wall_ms d s - c"
    if "D \<le> d" "d < D + 15" "s \<in> set ?ms" "now + TASK_DUE_SLACK_MS < wall_ms d s - c" for d s
    using walk_days_least [OF assms(1) sorted_minuteSet, of slots D d 15 s now] hm D1 that by simp
  obtain s where s: "s \<in> set ?ms" using assms(2) by (cases ?ms) auto
  have ms: "0 \<le> mins s * minute_ms" "mins s * minute_ms < day_ms"
    using mins_bounds [OF hm [OF s]] by (simp_all add: minute_ms_def day_ms_def)
  define N where "N = (now + TASK_DUE_SLACK_MS + c - mins s * minute_ms) div day_ms + 1"
  have N: "now + TASK_DUE_SLACK_MS < wall_ms N s - c" "wall_ms N s - c \<le> now + TASK_DUE_SLACK_MS + day_ms"
    unfolding wall_ms_def N_def day_ms_def distrib_right
    using div_mult_mod_eq [of "now + TASK_DUE_SLACK_MS + c - mins s * minute_ms" 86400000]
      pos_mod_bound [of 86400000 "now + TASK_DUE_SLACK_MS + c - mins s * minute_ms"]
      pos_mod_sign [of 86400000 "now + TASK_DUE_SLACK_MS + c - mins s * minute_ms"] by linarith+
  have dd: "now + c = D * day_ms + (now + c) mod day_ms" "0 \<le> (now + c) mod day_ms" "(now + c) mod day_ms < day_ms"
    by (simp_all add: D_def day_ms_def)
  have "D * day_ms < (N + 1) * day_ms" "N * day_ms < (D + 3) * day_ms"
    using N ms dd unfolding wall_ms_def TASK_DUE_SLACK_MS_def distrib_right by (simp_all add: day_ms_def)
  then have "D \<le> N" "N < D + 15" by (simp_all add: day_ms_def)
  then obtain t where t: "walk_days env ?ms None zone now 15 D = Some t" "t \<le> wall_ms N s - c"
    using least [OF _ _ s N(1)] by auto
  have "\<not> (\<exists>time \<in> set slots. HH_MM time \<and> hhmm time = (w_h (parts env u zone), w_mi (parts env u zone)))"
    if u: "now + 5000 < u" "u < t" "minute_ms dvd u" for u
  proof
    assume "\<exists>time \<in> set slots. HH_MM time \<and> hhmm time = (w_h (parts env u zone), w_mi (parts env u zone))"
    then obtain time where time: "time \<in> set ?ms" "hhmm time = (w_h (utc_fields (u + c)), w_mi (utc_fields (u + c)))"
      by (auto simp: set_minuteSet parts_def c(4))
    define d where "d = (u + c) div day_ms"
    have w: "u + c = wall_ms d time" unfolding d_def by (rule wall_ms_of_fields) (use u c time in auto)
    have "u \<le> now + 5000 + day_ms" using u t(2) N(2) by (simp add: TASK_DUE_SLACK_MS_def)
    then have "D * day_ms < (d + 1) * day_ms" "d * day_ms < (D + 3) * day_ms"
      using dd u(1) mins_bounds [OF hm [OF time(1)]] w
      unfolding wall_ms_def distrib_right day_ms_def minute_ms_def by linarith+
    then have "D \<le> d" "d < D + 15" by (simp_all add: day_ms_def)
    then have "t \<le> wall_ms d time - c"
      using least [OF _ _ time(1), of d] t(1) u(1) w by (auto simp: TASK_DUE_SLACK_MS_def)
    then show False using w u(2) by simp
  qed
  then show ?thesis using run t N(2) by (auto simp: TASK_DUE_SLACK_MS_def)
qed

theorem daily_next_run_is_earliest_witness:
  "\<exists>t. computeNextRunAt plus_two (Some (Daily [''09:30'', ''02:00''] ''E'')) True (3 * day_ms) = Some t \<and>
     t \<le> 3 * day_ms + 5000 + day_ms"
proof -
  have "fixed_offset plus_two ''E'' 7200000" by (simp add: fixed_offset_def plus_two_def minute_ms_def day_ms_def)
  moreover have "minuteSet [''09:30'', ''02:00''] \<noteq> []" by code_simp
  ultimately show ?thesis using daily_next_run_is_earliest [of plus_two "''E''" 7200000 "[''09:30'', ''02:00'']" "3 * day_ms"]
    by blast
qed

end
