(* ===== verification/Sched_Claims.thy ===== *)
theory Sched_Claims
  imports Sched_Time
begin

text \<open>
  The occurrence-claim contract of scheduled tasks (\<open>server/scheduled/scheduled-claims.ts\<close>)
  and the state patches of the task store (\<open>applyStatePatch\<close> and \<open>patchState\<close> of
  \<open>task-config.ts\<close>). A stored task is the JSON object of the config file; a patch is a
  list of keys whose value may be \<open>undefined\<close>, which clears the key. The process id, the
  liveness of processes and the SHA-256 digest are arguments.
\<close>

section \<open>JSON objects\<close>

type_synonym obj = "(string \<times> json) list"
type_synonym RawTask = obj
type_synonym StatePatch = "(string \<times> unknown) list"

text \<open>\<open>record(value)\<close>: a plain object, or nothing.\<close>

fun record_of :: "unknown \<Rightarrow> obj option" where
  "record_of (Some (JObj kvs)) = Some kvs"
| "record_of _ = None"

abbreviation field :: "obj \<Rightarrow> string \<Rightarrow> unknown" where
  "field o1 k \<equiv> map_of o1 k"

fun finite_num :: "unknown \<Rightarrow> rat option" where
  "finite_num (Some (JNum (Fin q))) = Some q"
| "finite_num _ = None"

fun nonempty_str :: "unknown \<Rightarrow> string option" where
  "nonempty_str (Some (JStr (c # cs))) = Some (c # cs)"
| "nonempty_str _ = None"

abbreviation JInt :: "int \<Rightarrow> json" where
  "JInt n \<equiv> JNum (Fin (of_int n))"

section \<open>Dispatch records\<close>

datatype OccurrencePhase = PhClaimed | PhCreating | PhSessionCreated | PhAccepted

fun phase_name :: "OccurrencePhase \<Rightarrow> string" where
  "phase_name PhClaimed = ''claimed''"
| "phase_name PhCreating = ''creating''"
| "phase_name PhSessionCreated = ''session-created''"
| "phase_name PhAccepted = ''accepted''"

definition OCCURRENCE_PHASES :: "OccurrencePhase list" where
  "OCCURRENCE_PHASES = [PhClaimed, PhCreating, PhSessionCreated, PhAccepted]"

fun phase_of :: "unknown \<Rightarrow> OccurrencePhase option" where
  "phase_of (Some (JStr s)) = find (\<lambda>p. phase_name p = s) OCCURRENCE_PHASES"
| "phase_of _ = None"

record OccurrenceDispatch =
  od_scheduledFor :: rat
  od_operationId :: string
  od_phase :: OccurrencePhase
  od_sessionId :: "string option"
  od_pid :: "int option"
  od_updatedAt :: rat

definition stateOf :: "RawTask \<Rightarrow> obj" where
  "stateOf task = (case record_of (field task ''state'') of Some s \<Rightarrow> s | None \<Rightarrow> [])"

definition safe_pid :: "unknown \<Rightarrow> int option" where
  "safe_pid v =
     (case finite_num v of
        Some q \<Rightarrow> if q = of_int \<lfloor>q\<rfloor> \<and> 0 \<le> q \<and> q \<le> 2 ^ 53 - 1 then Some \<lfloor>q\<rfloor> else None
      | None \<Rightarrow> None)"

definition dispatchOf :: "RawTask \<Rightarrow> OccurrenceDispatch option" where
  "dispatchOf task =
     (case record_of (field (stateOf task) ''dispatch'') of
        None \<Rightarrow> None
      | Some value \<Rightarrow>
          (case (nonempty_str (field value ''operationId''), finite_num (field value ''scheduledFor''),
                 phase_of (field value ''phase'')) of
             (Some op, Some slot, Some ph) \<Rightarrow>
               Some \<lparr>od_scheduledFor = slot, od_operationId = op, od_phase = ph,
                     od_sessionId = nonempty_str (field value ''sessionId''),
                     od_pid = safe_pid (field value ''pid''),
                     od_updatedAt = (case finite_num (field value ''updatedAt'') of Some u \<Rightarrow> u | None \<Rightarrow> 0)\<rparr>
           | _ \<Rightarrow> None))"

definition ownedByLiveProcess :: "int \<Rightarrow> (int \<Rightarrow> bool) \<Rightarrow> OccurrenceDispatch \<Rightarrow> bool" where
  "ownedByLiveProcess my_pid isAlive d =
     (case od_pid d of None \<Rightarrow> False | Some p \<Rightarrow> p = my_pid \<or> isAlive p)"

section \<open>Predicates and patches\<close>

definition canClaimOccurrence :: "int \<Rightarrow> RawTask \<Rightarrow> bool" where
  "canClaimOccurrence scheduledFor task =
     (if field task ''enabled'' = Some (JBool False) then False
      else (case finite_num (field (stateOf task) ''lastScheduledFor'') of
              None \<Rightarrow> True
            | Some prev \<Rightarrow> \<bar>prev - of_int scheduledFor\<bar> > of_int TASK_DUE_SLACK_MS))"

text \<open>\<open>{ scheduledFor, operationId, phase, sessionId?, pid, updatedAt }\<close>.\<close>

definition dispatch_obj :: "int \<Rightarrow> string \<Rightarrow> OccurrencePhase \<Rightarrow> string option \<Rightarrow> int \<Rightarrow> int \<Rightarrow> obj" where
  "dispatch_obj scheduledFor operationId phase sessionId pid updatedAt =
     [(''scheduledFor'', JInt scheduledFor), (''operationId'', JStr operationId), (''phase'', JStr (phase_name phase))] @
     (case sessionId of Some (c # cs) \<Rightarrow> [(''sessionId'', JStr (c # cs))] | _ \<Rightarrow> []) @
     [(''pid'', JInt pid), (''updatedAt'', JInt updatedAt)]"

definition opt_int :: "int option \<Rightarrow> unknown" where
  "opt_int n = map_option JInt n"

definition buildClaimPatch :: "int \<Rightarrow> int \<Rightarrow> string \<Rightarrow> int \<Rightarrow> int option \<Rightarrow> int \<Rightarrow> StatePatch" where
  "buildClaimPatch pid scheduledFor operationId lastRunAt nextRunAt updatedAt =
     [(''lastScheduledFor'', Some (JInt scheduledFor)), (''lastRunAt'', Some (JInt lastRunAt)),
      (''lastStatus'', Some (JStr ''running'')), (''lastError'', None),
      (''dispatch'', Some (JObj (dispatch_obj scheduledFor operationId PhClaimed None pid updatedAt))),
      (''nextRunAt'', opt_int nextRunAt), (''updatedAt'', Some (JInt updatedAt))]"

definition buildManualStartPatch :: "int \<Rightarrow> StatePatch" where
  "buildManualStartPatch now =
     [(''lastRunAt'', Some (JInt now)), (''lastStatus'', Some (JStr ''running'')), (''updatedAt'', Some (JInt now))]"

fun EXPECTED_PHASE_BEFORE :: "OccurrencePhase \<Rightarrow> OccurrencePhase option" where
  "EXPECTED_PHASE_BEFORE PhCreating = Some PhClaimed"
| "EXPECTED_PHASE_BEFORE PhSessionCreated = Some PhCreating"
| "EXPECTED_PHASE_BEFORE PhAccepted = Some PhSessionCreated"
| "EXPECTED_PHASE_BEFORE PhClaimed = None"

definition canAdvanceDispatch :: "string \<Rightarrow> OccurrencePhase \<Rightarrow> RawTask \<Rightarrow> bool" where
  "canAdvanceDispatch operationId target task =
     (case dispatchOf task of
        None \<Rightarrow> False
      | Some d \<Rightarrow> od_operationId d = operationId \<and> Some (od_phase d) = EXPECTED_PHASE_BEFORE target)"

definition buildDispatchPhasePatch ::
  "int \<Rightarrow> int \<Rightarrow> string \<Rightarrow> OccurrencePhase \<Rightarrow> string option \<Rightarrow> int \<Rightarrow> StatePatch"
where
  "buildDispatchPhasePatch pid scheduledFor operationId phase sessionId now =
     [(''dispatch'', Some (JObj (dispatch_obj scheduledFor operationId phase sessionId pid now))),
      (''updatedAt'', Some (JInt now))]"

definition operationIdForOccurrence :: "(string \<Rightarrow> string) \<Rightarrow> string \<Rightarrow> int \<Rightarrow> string" where
  "operationIdForOccurrence sha256 taskId scheduledFor =
     ''schrun_'' @ take 64 (sha256 (taskId @ CHR 0x00 # show_int scheduledFor))"

definition buildClaimFailurePatch :: "string \<Rightarrow> int \<Rightarrow> StatePatch" where
  "buildClaimFailurePatch message now =
     [(''lastStatus'', Some (JStr ''error'')), (''lastError'', Some (JStr (''Scheduled claim failed: '' @ message))),
      (''updatedAt'', Some (JInt now))]"

datatype run_status = RunSuccess | RunError

fun status_name :: "run_status \<Rightarrow> string" where
  "status_name RunSuccess = ''success''"
| "status_name RunError = ''error''"

definition buildCompletionPatch ::
  "run_status \<Rightarrow> string option \<Rightarrow> string option \<Rightarrow> int \<Rightarrow> int option \<Rightarrow> int \<Rightarrow> StatePatch"
where
  "buildCompletionPatch status lastError sessionID durationMs nextRunAt updatedAt =
     [(''lastStatus'', Some (JStr (status_name status))), (''lastDurationMs'', Some (JInt durationMs)),
      (''dispatch'', None), (''nextRunAt'', opt_int nextRunAt), (''updatedAt'', Some (JInt updatedAt))] @
     (if status = RunError
      then [(''lastError'', Some (JStr (case lastError of Some e \<Rightarrow> e | None \<Rightarrow> ''scheduled task run failed'')))]
      else [(''lastSessionId'', map_option JStr sessionID)])"

section \<open>State patches of the store\<close>

text \<open>\<open>patch.updatedAt ?? Date.now()\<close>.\<close>

definition stamp_of :: "int \<Rightarrow> StatePatch \<Rightarrow> json" where
  "stamp_of now patch =
     (case map_of patch ''updatedAt'' of Some (Some JNull) \<Rightarrow> JInt now | Some (Some v) \<Rightarrow> v | _ \<Rightarrow> JInt now)"

fun apply_key :: "json \<Rightarrow> string \<times> unknown \<Rightarrow> obj \<Rightarrow> obj" where
  "apply_key stamp (k, v) s =
     (if k = ''updatedAt'' then AList.update k stamp s
      else (case v of Some j \<Rightarrow> AList.update k j s | None \<Rightarrow> AList.delete k s))"

definition applyStatePatch :: "int \<Rightarrow> RawTask \<Rightarrow> StatePatch \<Rightarrow> RawTask" where
  "applyStatePatch now stored patch =
     (let stamp = stamp_of now patch
      in AList.update ''state''
           (JObj (AList.update ''updatedAt'' stamp (fold (apply_key stamp) patch (stateOf stored)))) stored)"

text \<open>The config file of a project.\<close>

datatype config_file = CfgMissing | CfgMalformed | CfgDoc obj

definition tasksIn :: "obj \<Rightarrow> json list" where
  "tasksIn doc = (case field doc ''scheduledTasks'' of Some (JArr es) \<Rightarrow> es | _ \<Rightarrow> [])"

definition withTasks :: "obj \<Rightarrow> json list \<Rightarrow> bool \<Rightarrow> obj" where
  "withTasks doc next bumpVersion =
     (let out = AList.update ''scheduledTasks'' (JArr next) doc
      in if bumpVersion \<and> field out ''version'' = None then AList.update ''version'' (JInt 1) out else out)"

definition has_id :: "string \<Rightarrow> json \<Rightarrow> bool" where
  "has_id taskId e \<longleftrightarrow> (\<exists>t. record_of (Some e) = Some t \<and> field t ''id'' = Some (JStr taskId))"

lemma has_id_code [code]:
  "has_id taskId e = (case record_of (Some e) of Some t \<Rightarrow> field t ''id'' = Some (JStr taskId) | None \<Rightarrow> False)"
  by (auto simp: has_id_def split: option.splits)

fun findIndex :: "json list \<Rightarrow> string \<Rightarrow> nat option" where
  "findIndex [] taskId = None"
| "findIndex (e # es) taskId = (if has_id taskId e then Some 0 else map_option Suc (findIndex es taskId))"

text \<open>\<open>patchState\<close> under the config lock: whether it updated, and the task it saw or wrote.\<close>

definition patchState ::
  "int \<Rightarrow> string \<Rightarrow> StatePatch \<Rightarrow> (RawTask \<Rightarrow> bool) \<Rightarrow> config_file \<Rightarrow> (bool \<times> RawTask option) \<times> config_file"
where
  "patchState now taskId patch predicate cfg =
     (case cfg of
        CfgDoc doc \<Rightarrow>
          (case findIndex (tasksIn doc) taskId of
             None \<Rightarrow> ((False, None), cfg)
           | Some i \<Rightarrow>
               (case record_of (Some (tasksIn doc ! i)) of
                  None \<Rightarrow> ((False, None), cfg)
                | Some stored \<Rightarrow>
                    if \<not> predicate stored then ((False, Some stored), cfg)
                    else (let task = applyStatePatch now stored patch
                          in ((True, Some task), CfgDoc (withTasks doc ((tasksIn doc)[i := JObj task]) False)))))
      | _ \<Rightarrow> ((False, None), cfg))"

definition updateScheduledTaskState :: "int \<Rightarrow> string \<Rightarrow> StatePatch \<Rightarrow> config_file \<Rightarrow> bool \<times> config_file" where
  "updateScheduledTaskState now taskId patch cfg =
     (let r = patchState now taskId patch (\<lambda>_. True) cfg in (fst (fst r), snd r))"

definition updateScheduledTaskStateIf ::
  "int \<Rightarrow> string \<Rightarrow> (RawTask \<Rightarrow> bool) \<Rightarrow> StatePatch \<Rightarrow> config_file \<Rightarrow> (bool \<times> RawTask option) \<times> config_file"
where
  "updateScheduledTaskStateIf now taskId predicate patch cfg = patchState now taskId patch predicate cfg"

section \<open>Views of the stored record\<close>

named_theorems sched_view \<open>what a patch leaves in the fields the claims read\<close>

definition storedTask :: "string \<Rightarrow> config_file \<Rightarrow> RawTask option" where
  "storedTask taskId cfg =
     (case cfg of
        CfgDoc doc \<Rightarrow> (case findIndex (tasksIn doc) taskId of
                        None \<Rightarrow> None | Some i \<Rightarrow> record_of (Some (tasksIn doc ! i)))
      | _ \<Rightarrow> None)"

abbreviation slotOf :: "RawTask \<Rightarrow> rat option" where
  "slotOf task \<equiv> finite_num (field (stateOf task) ''lastScheduledFor'')"

lemma stateOf_update [simp]: "stateOf (AList.update ''state'' (JObj s) task) = s"
  by (simp add: stateOf_def update_conv)

lemma field_apply_key:
  "field (apply_key stamp kv s) k =
     (if k = fst kv then (if k = ''updatedAt'' then Some stamp else snd kv) else field s k)"
  by (cases kv) (auto simp: update_conv AList.delete_conv' split: option.splits)

text \<open>A key the patch names once ends with its value; any other key keeps its own.\<close>

lemma field_fold_apply:
  assumes "distinct (map fst patch)"
  shows "field (fold (apply_key stamp) patch s) k =
    (if k \<in> fst ` set patch then (if k = ''updatedAt'' then Some stamp else the (map_of patch k)) else field s k)"
  using assms
proof (induction patch arbitrary: s)
  case (Cons kv patch)
  have out: "k \<notin> fst ` set patch" if "k = fst kv" using Cons.prems that by simp
  show ?case
    using Cons.prems out by (cases kv) (auto simp: Cons.IH field_apply_key simp del: apply_key.simps)
qed simp

lemma state_applyStatePatch:
  assumes "distinct (map fst patch)"
  shows "field (stateOf (applyStatePatch now stored patch)) k =
    (if k = ''updatedAt'' then Some (stamp_of now patch)
     else if k \<in> fst ` set patch then the (map_of patch k) else field (stateOf stored) k)"
  using field_fold_apply [OF assms] by (simp add: applyStatePatch_def Let_def update_conv)

lemma field_applyStatePatch:
  "k \<noteq> ''state'' \<Longrightarrow> field (applyStatePatch now stored patch) k = field stored k"
  by (simp add: applyStatePatch_def Let_def update_conv)

lemma patch_keys_distinct [simp]:
  "distinct (map fst (buildClaimPatch pid slot op run nxt upd))"
  "distinct (map fst (buildDispatchPhasePatch pid slot op ph sess now))"
  "distinct (map fst (buildCompletionPatch st err sess dur nxt upd))"
  "distinct (map fst (buildManualStartPatch now))"
  by (simp_all add: buildClaimPatch_def buildDispatchPhasePatch_def buildCompletionPatch_def buildManualStartPatch_def)

lemma find_phase_name [simp]: "find (\<lambda>p. phase_name p = phase_name ph) OCCURRENCE_PHASES = Some ph"
  by (cases ph) (simp_all add: OCCURRENCE_PHASES_def)

text \<open>A record a claim or an advance writes reads back as itself.\<close>

definition dispatch_rec :: "int \<Rightarrow> string \<Rightarrow> OccurrencePhase \<Rightarrow> string option \<Rightarrow> int \<Rightarrow> int \<Rightarrow> OccurrenceDispatch" where
  "dispatch_rec slot op ph sess pid upd =
     \<lparr>od_scheduledFor = of_int slot, od_operationId = op, od_phase = ph,
      od_sessionId = (case sess of Some (c # cs) \<Rightarrow> Some (c # cs) | _ \<Rightarrow> None), od_pid = Some pid,
      od_updatedAt = of_int upd\<rparr>"

definition pid_ok :: "int \<Rightarrow> bool" where
  "pid_ok p \<longleftrightarrow> 0 \<le> p \<and> p \<le> 2 ^ 53 - 1"

lemma dispatchOf_obj:
  assumes "field (stateOf task) ''dispatch'' = Some (JObj (dispatch_obj slot op ph sess pid upd))"
    and "op \<noteq> []" "pid_ok pid"
  shows "dispatchOf task = Some (dispatch_rec slot op ph sess pid upd)"
proof -
  have "(of_int pid :: rat) \<le> of_int (2 ^ 53 - 1)" "(0 :: rat) \<le> of_int pid"
    using assms(3) unfolding pid_ok_def of_int_le_iff of_int_0_le_iff by blast+
  then have "safe_pid (Some (JInt pid)) = Some pid" by (simp add: safe_pid_def)
  moreover have "nonempty_str (Some (JStr op)) = Some op" using assms(2) by (cases op) simp_all
  moreover define v where "v = dispatch_obj slot op ph sess pid upd"
  have "field v ''operationId'' = Some (JStr op)" "field v ''scheduledFor'' = Some (JInt slot)"
    "field v ''phase'' = Some (JStr (phase_name ph))" "field v ''pid'' = Some (JInt pid)"
    "field v ''updatedAt'' = Some (JInt upd)"
    "field v ''sessionId'' = (case sess of Some (c # cs) \<Rightarrow> Some (JStr (c # cs)) | _ \<Rightarrow> None)"
    by (auto simp: v_def dispatch_obj_def split: option.split list.split)
  moreover have "nonempty_str (case sess of Some (c # cs) \<Rightarrow> Some (JStr (c # cs)) | _ \<Rightarrow> None) =
      (case sess of Some (c # cs) \<Rightarrow> Some (c # cs) | _ \<Rightarrow> None)"
    by (simp split: option.split list.split)
  ultimately show ?thesis
    using assms(1) [folded v_def] by (simp add: dispatchOf_def dispatch_rec_def)
qed

lemma dispatchOf_cleared: "field (stateOf task) ''dispatch'' = None \<Longrightarrow> dispatchOf task = None"
  by (simp add: dispatchOf_def)

lemma dispatchOf_cong:
  "field (stateOf t) ''dispatch'' = field (stateOf t') ''dispatch'' \<Longrightarrow> dispatchOf t = dispatchOf t'"
  by (simp add: dispatchOf_def)

lemma claim_patch_view [sched_view]:
  assumes "op \<noteq> []" "pid_ok pid"
  shows "dispatchOf (applyStatePatch now t (buildClaimPatch pid slot op run nxt upd)) = Some (dispatch_rec slot op PhClaimed None pid upd)"
    "slotOf (applyStatePatch now t (buildClaimPatch pid slot op run nxt upd)) = Some (of_int slot)"
proof -
  have f: "field (stateOf (applyStatePatch now t (buildClaimPatch pid slot op run nxt upd))) k =
      (if k = ''updatedAt'' then Some (stamp_of now (buildClaimPatch pid slot op run nxt upd))
       else if k \<in> fst ` set (buildClaimPatch pid slot op run nxt upd)
       then the (map_of (buildClaimPatch pid slot op run nxt upd) k) else field (stateOf t) k)" for k
    by (rule state_applyStatePatch) simp
  show "dispatchOf (applyStatePatch now t (buildClaimPatch pid slot op run nxt upd)) = Some (dispatch_rec slot op PhClaimed None pid upd)"
    by (rule dispatchOf_obj [OF _ assms]) (simp add: f, simp add: buildClaimPatch_def)
  show "slotOf (applyStatePatch now t (buildClaimPatch pid slot op run nxt upd)) = Some (of_int slot)"
    by (simp add: f) (simp add: buildClaimPatch_def)
qed

lemma phase_patch_view [sched_view]:
  assumes "op \<noteq> []" "pid_ok pid"
  shows "dispatchOf (applyStatePatch now t (buildDispatchPhasePatch pid slot op ph sess upd)) = Some (dispatch_rec slot op ph sess pid upd)"
    "slotOf (applyStatePatch now t (buildDispatchPhasePatch pid slot op ph sess upd)) = slotOf t"
proof -
  let ?p = "buildDispatchPhasePatch pid slot op ph sess upd"
  have f: "field (stateOf (applyStatePatch now t ?p)) k =
      (if k = ''updatedAt'' then Some (stamp_of now ?p)
       else if k \<in> fst ` set ?p then the (map_of ?p k) else field (stateOf t) k)" for k
    by (rule state_applyStatePatch) simp
  show "dispatchOf (applyStatePatch now t ?p) = Some (dispatch_rec slot op ph sess pid upd)"
    by (rule dispatchOf_obj [OF _ assms]) (simp add: f, simp add: buildDispatchPhasePatch_def)
  show "slotOf (applyStatePatch now t ?p) = slotOf t"
    by (simp add: f) (simp add: buildDispatchPhasePatch_def)
qed

lemma completion_patch_view [sched_view]:
  "dispatchOf (applyStatePatch now t (buildCompletionPatch st err sess dur nxt upd)) = None"
  "slotOf (applyStatePatch now t (buildCompletionPatch st err sess dur nxt upd)) = slotOf t"
proof -
  let ?p = "buildCompletionPatch st err sess dur nxt upd"
  have f: "field (stateOf (applyStatePatch now t ?p)) k =
      (if k = ''updatedAt'' then Some (stamp_of now ?p)
       else if k \<in> fst ` set ?p then the (map_of ?p k) else field (stateOf t) k)" for k
    by (rule state_applyStatePatch) simp
  show "dispatchOf (applyStatePatch now t ?p) = None"
    by (rule dispatchOf_cleared) (simp add: f, simp add: buildCompletionPatch_def)
  show "slotOf (applyStatePatch now t ?p) = slotOf t"
    by (simp add: f) (simp add: buildCompletionPatch_def)
qed

text \<open>Patches that name neither field leave both alone.\<close>

lemma other_patch_view:
  assumes "distinct (map fst patch)" "''dispatch'' \<notin> fst ` set patch" "''lastScheduledFor'' \<notin> fst ` set patch"
  shows "dispatchOf (applyStatePatch now t patch) = dispatchOf t" "slotOf (applyStatePatch now t patch) = slotOf t"
  using state_applyStatePatch [OF assms(1), of now t] assms(2,3) by (auto intro: dispatchOf_cong)

section \<open>The store updates one task\<close>

lemma findIndex_Some: "findIndex es tid = Some i \<Longrightarrow> i < length es \<and> has_id tid (es ! i)"
  by (induction es arbitrary: i) (auto split: if_splits)

lemma findIndex_update:
  assumes "findIndex es tid = Some i" "has_id tid e" "\<And>s. has_id s (es ! i) \<longleftrightarrow> has_id s e"
  shows "findIndex (es[i := e]) s = findIndex es s"
  using assms by (induction es arbitrary: i) (auto split: if_splits nat.splits)

lemma has_id_applyStatePatch: "has_id tid (JObj (applyStatePatch now t patch)) = has_id tid (JObj t)"
  by (simp add: has_id_def field_applyStatePatch)

lemma tasksIn_withTasks [simp]: "tasksIn (withTasks doc next b) = next"
  by (auto simp: tasksIn_def withTasks_def Let_def update_conv)

lemma patchState_stored:
  assumes "storedTask tid cfg = Some t"
  shows "patchState now tid patch P cfg =
    (if P t then ((True, Some (applyStatePatch now t patch)), snd (patchState now tid patch P cfg))
     else ((False, Some t), cfg))"
    and "storedTask s (snd (patchState now tid patch P cfg)) =
    (if s = tid \<and> P t then Some (applyStatePatch now t patch) else storedTask s cfg)"
proof -
  obtain doc i where d: "cfg = CfgDoc doc" "findIndex (tasksIn doc) tid = Some i" "record_of (Some (tasksIn doc ! i)) = Some t"
    using assms by (auto simp: storedTask_def split: config_file.splits option.splits)
  have e: "tasksIn doc ! i = JObj t" using d(3) by (cases "tasksIn doc ! i") auto
  note fi = findIndex_Some [OF d(2)]
  show "patchState now tid patch P cfg =
    (if P t then ((True, Some (applyStatePatch now t patch)), snd (patchState now tid patch P cfg))
     else ((False, Some t), cfg))"
    using d by (auto simp: patchState_def Let_def)
  have upd: "findIndex ((tasksIn doc)[i := JObj (applyStatePatch now t patch)]) s = findIndex (tasksIn doc) s" for s
    by (rule findIndex_update [OF d(2)]) (use fi e in \<open>auto simp: has_id_applyStatePatch\<close>)
  have only: "s = tid" if "findIndex (tasksIn doc) s = Some i"
    using findIndex_Some [OF that] fi by (auto simp: has_id_def)
  show "storedTask s (snd (patchState now tid patch P cfg)) =
    (if s = tid \<and> P t then Some (applyStatePatch now t patch) else storedTask s cfg)"
  proof (cases "P t")
    case True
    then have new: "snd (patchState now tid patch P cfg) =
        CfgDoc (withTasks doc ((tasksIn doc)[i := JObj (applyStatePatch now t patch)]) False)"
      using d by (simp add: patchState_def Let_def)
    show ?thesis
    proof (cases "s = tid")
      case True
      then show ?thesis using \<open>P t\<close> d(2) fi by (simp add: storedTask_def new upd)
    next
      case False
      then have "findIndex (tasksIn doc) s \<noteq> Some i" using only by blast
      then show ?thesis
        using False unfolding storedTask_def new unfolding d(1)
        by (cases "findIndex (tasksIn doc) s") (simp_all add: upd)
    qed
  next
    case False
    then show ?thesis using d by (simp add: patchState_def)
  qed
qed

lemma patchState_absent:
  assumes "storedTask tid cfg = None"
  shows "patchState now tid patch P cfg = ((False, None), cfg)"
  using assms by (auto simp: patchState_def storedTask_def split: config_file.splits option.splits)

end
