(* ===== verification/Sched_Run.thy ===== *)
theory Sched_Run
  imports Sched_Claims
begin

text \<open>
  Claiming, dispatching, resuming and settling one occurrence of a scheduled task
  (\<open>server/scheduled/scheduled-occurrence.ts\<close>, \<open>scheduled-settle.ts\<close> and the
  session part of \<open>scheduled-pipeline.ts\<close>). The flows are asynchronous: each is cut at its
  calls to the store and to the harness, and a run is the stage it has reached (\<open>run_pc\<close>).
  Several processes share the config file; a process may die at any stage, and a booted one
  resumes from a record it has read at any earlier time. A store call may also fail.
\<close>

section \<open>Stages\<close>

record sched_env =
  se_sha :: "string \<Rightarrow> string"
  se_alive :: "int \<Rightarrow> bool"

record WatchedResult =
  wr_sessionID :: "string option"
  wr_status :: run_status
  wr_lastError :: "string option"

definition error_result :: "string \<Rightarrow> WatchedResult" where
  "error_result message = \<lparr>wr_sessionID = None, wr_status = RunError, wr_lastError = Some message\<rparr>"

text \<open>\<open>ok\<close> is whether the store call goes through.\<close>

definition advanceDispatch ::
  "int \<Rightarrow> string \<Rightarrow> string \<Rightarrow> OccurrencePhase \<Rightarrow> int \<Rightarrow> string option \<Rightarrow> int \<Rightarrow> bool \<Rightarrow> config_file \<Rightarrow> bool \<times> config_file"
where
  "advanceDispatch pid tid op phase slot sess now ok cfg =
     (if \<not> ok then (False, cfg)
      else (let r = updateScheduledTaskStateIf now tid (canAdvanceDispatch op phase)
                      (buildDispatchPhasePatch pid slot op phase sess now) cfg
            in (fst (fst r), snd r)))"

definition claimOccurrence ::
  "sched_env \<Rightarrow> int \<Rightarrow> string \<Rightarrow> int \<Rightarrow> int option \<Rightarrow> int \<Rightarrow> config_file \<Rightarrow> string option \<times> config_file"
where
  "claimOccurrence se pid tid slot nextAfterClaim now cfg =
     (let op = operationIdForOccurrence (se_sha se) tid slot;
          r = updateScheduledTaskStateIf now tid (canClaimOccurrence slot)
                (buildClaimPatch pid slot op now nextAfterClaim now) cfg
      in (if fst (fst r) then Some op else None, snd r))"

text \<open>What \<open>resumeOccurrence\<close> does with the record it has in memory.\<close>

datatype resume_action =
    ResumeSkip string
  | ResumeSettle OccurrencePhase WatchedResult
  | ResumeDispatch "string option"

definition resumeOccurrence :: "sched_env \<Rightarrow> int \<Rightarrow> bool \<Rightarrow> OccurrenceDispatch option \<Rightarrow> int option \<Rightarrow> resume_action" where
  "resumeOccurrence se pid enabled dispatch scheduledFor =
     (case dispatch of
        None \<Rightarrow> ResumeSkip ''resume-record-absent''
      | Some d \<Rightarrow>
          if scheduledFor = None then ResumeSkip ''resume-record-absent''
          else if ownedByLiveProcess pid (se_alive se) d then ResumeSkip ''resume-owned-elsewhere''
          else (case od_phase d of
                  PhCreating \<Rightarrow> ResumeSettle PhCreating
                    (error_result (''session create outcome unknown after restart (operation '' @ od_operationId d @ '')''))
                | PhClaimed \<Rightarrow>
                    if \<not> enabled then ResumeSettle PhClaimed (error_result ''user stop before dispatch (occurrence not submitted)'')
                    else ResumeDispatch None
                | PhAccepted \<Rightarrow> ResumeSettle PhAccepted
                    \<lparr>wr_sessionID = od_sessionId d, wr_status = RunSuccess, wr_lastError = None\<rparr>
                | PhSessionCreated \<Rightarrow>
                    (case od_sessionId d of
                       Some (c # cs) \<Rightarrow> ResumeDispatch (Some (c # cs))
                     | _ \<Rightarrow> ResumeSettle PhSessionCreated
                         (error_result (''occurrence session identity missing (operation '' @ od_operationId d @ '')'')))))"

text \<open>The guard of \<open>settleResumed\<close>.\<close>

definition settle_guard :: "string \<Rightarrow> OccurrencePhase \<Rightarrow> RawTask \<Rightarrow> bool" where
  "settle_guard op phase raw =
     (case dispatchOf raw of None \<Rightarrow> False | Some d \<Rightarrow> od_operationId d = op \<and> od_phase d = phase)"

text \<open>The completion patch of \<open>finishRun\<close>, unguarded or guarded.\<close>

definition persistCompletion ::
  "string \<Rightarrow> WatchedResult \<Rightarrow> int \<Rightarrow> int option \<Rightarrow> int \<Rightarrow> (RawTask \<Rightarrow> bool) option \<Rightarrow> bool \<Rightarrow> config_file \<Rightarrow> config_file"
where
  "persistCompletion tid res startedAt nextAt now guard ok cfg =
     (if \<not> ok then cfg
      else (let patch = buildCompletionPatch (wr_status res) (wr_lastError res) (wr_sessionID res) (now - startedAt) nextAt now
            in case guard of
                 None \<Rightarrow> snd (updateScheduledTaskState now tid patch cfg)
               | Some g \<Rightarrow> snd (updateScheduledTaskStateIf now tid g patch cfg)))"

datatype run_pc =
    Claiming int
  | Advancing int string
  | Resuming int "OccurrenceDispatch option" bool
  | ResumeAdvancing int string
  | Piping int string "string option" bool
  | SessionMade int string string bool
  | Prompting int string string bool
  | Accepting int string string bool
  | Finishing int string WatchedResult "OccurrencePhase option"

record sched_sys =
  cfg :: config_file
  runs :: "(int \<times> run_pc) list"
  won :: "int list" \<comment> \<open>the slots of the claims that were won, the last one first\<close>
  created :: "string list" \<comment> \<open>operation ids of the session-create calls\<close>
  prompts :: "(string \<times> string) list" \<comment> \<open>operation id and session of the prompts sent\<close>

definition set_run :: "nat \<Rightarrow> run_pc \<Rightarrow> sched_sys \<Rightarrow> sched_sys" where
  "set_run i pc s = s\<lparr>runs := (runs s)[i := (fst (runs s ! i), pc)]\<rparr>"

definition end_run :: "nat \<Rightarrow> sched_sys \<Rightarrow> sched_sys" where
  "end_run i s = s\<lparr>runs := take i (runs s) @ drop (Suc i) (runs s)\<rparr>"

text \<open>The watchdog: a pipeline that is no longer watched ends without a trace.\<close>

definition pipeline_done :: "nat \<Rightarrow> int \<Rightarrow> string \<Rightarrow> bool \<Rightarrow> WatchedResult \<Rightarrow> sched_sys \<Rightarrow> sched_sys" where
  "pipeline_done i slot op watched res s = (if watched then set_run i (Finishing slot op res None) s else end_run i s)"

fun unwatch :: "run_pc \<Rightarrow> run_pc" where
  "unwatch (Piping slot op res w) = Piping slot op res False"
| "unwatch (SessionMade slot op sess w) = SessionMade slot op sess False"
| "unwatch (Prompting slot op sess w) = Prompting slot op sess False"
| "unwatch (Accepting slot op sess w) = Accepting slot op sess False"
| "unwatch pc = pc"

fun watched_of :: "run_pc \<Rightarrow> (int \<times> string) option" where
  "watched_of (Piping slot op res w) = (if w then Some (slot, op) else None)"
| "watched_of (SessionMade slot op sess w) = (if w then Some (slot, op) else None)"
| "watched_of (Prompting slot op sess w) = (if w then Some (slot, op) else None)"
| "watched_of (Accepting slot op sess w) = (if w then Some (slot, op) else None)"
| "watched_of _ = None"

abbreviation at_stage :: "sched_sys \<Rightarrow> nat \<Rightarrow> int \<Rightarrow> run_pc \<Rightarrow> bool" where
  "at_stage s i pid pc \<equiv> i < length (runs s) \<and> runs s ! i = (pid, pc)"

text \<open>Patches of the store that concern other matters: the next slot, a manual start, a claim
  failure.\<close>

definition other_patch :: "StatePatch \<Rightarrow> bool" where
  "other_patch patch \<longleftrightarrow> distinct (map fst patch) \<and> ''dispatch'' \<notin> fst ` set patch \<and> ''lastScheduledFor'' \<notin> fst ` set patch"

definition set_enabled :: "string \<Rightarrow> bool \<Rightarrow> config_file \<Rightarrow> config_file" where
  "set_enabled tid b c =
     (case c of
        CfgDoc doc \<Rightarrow>
          CfgDoc (withTasks doc (map (\<lambda>e. if has_id tid e
             then (case e of JObj t \<Rightarrow> JObj (AList.update ''enabled'' (JBool b) t) | _ \<Rightarrow> e) else e) (tasksIn doc)) False)
      | _ \<Rightarrow> c)"

text \<open>The steps for the runs of one task, of whatever slots.\<close>

inductive sched_step :: "sched_env \<Rightarrow> string \<Rightarrow> sched_sys \<Rightarrow> sched_sys \<Rightarrow> bool" for se tid where
  due: "sched_step se tid s (s\<lparr>runs := (pid, Claiming slot) # runs s\<rparr>)"
| boot: "sched_step se tid s (s\<lparr>runs := (pid, Resuming slot snapshot enabled) # runs s\<rparr>)"
| claim_won: "at_stage s i pid (Claiming slot) \<Longrightarrow> pid_ok pid \<Longrightarrow>
    claimOccurrence se pid tid slot nxt now (cfg s) = (Some op, c) \<Longrightarrow>
    sched_step se tid s (set_run i (Advancing slot op) (s\<lparr>cfg := c, won := slot # won s\<rparr>))"
| claim_lost: "at_stage s i pid (Claiming slot) \<Longrightarrow>
    claimOccurrence se pid tid slot nxt now (cfg s) = (None, c) \<Longrightarrow>
    sched_step se tid s (end_run i (s\<lparr>cfg := c\<rparr>))"
| advanced: "at_stage s i pid (Advancing slot op) \<Longrightarrow> pid_ok pid \<Longrightarrow>
    advanceDispatch pid tid op PhCreating slot None now ok (cfg s) = (went, c) \<Longrightarrow>
    sched_step se tid s
      (set_run i (if went then Piping slot op None True
                  else Finishing slot op (error_result ''occurrence dispatch record was unavailable; the run was not dispatched'') None)
         (s\<lparr>cfg := c\<rparr>))"
| resume_skip: "at_stage s i pid (Resuming slot snapshot enabled) \<Longrightarrow>
    resumeOccurrence se pid enabled snapshot (Some slot) = ResumeSkip why \<Longrightarrow>
    sched_step se tid s (end_run i s)"
| resume_settle: "at_stage s i pid (Resuming slot (Some d) enabled) \<Longrightarrow>
    resumeOccurrence se pid enabled (Some d) (Some slot) = ResumeSettle ph res \<Longrightarrow>
    sched_step se tid s (set_run i (Finishing slot (od_operationId d) res (Some ph)) s)"
| resume_known: "at_stage s i pid (Resuming slot (Some d) enabled) \<Longrightarrow>
    resumeOccurrence se pid enabled (Some d) (Some slot) = ResumeDispatch (Some sess) \<Longrightarrow>
    sched_step se tid s (set_run i (Piping slot (od_operationId d) (Some sess) True) s)"
| resume_claimed: "at_stage s i pid (Resuming slot (Some d) enabled) \<Longrightarrow>
    resumeOccurrence se pid enabled (Some d) (Some slot) = ResumeDispatch None \<Longrightarrow>
    sched_step se tid s (set_run i (ResumeAdvancing slot (od_operationId d)) s)"
| resume_advanced: "at_stage s i pid (ResumeAdvancing slot op) \<Longrightarrow> pid_ok pid \<Longrightarrow>
    advanceDispatch pid tid op PhCreating slot None now ok (cfg s) = (went, c) \<Longrightarrow>
    sched_step se tid s
      (if went then set_run i (Piping slot op None True) (s\<lparr>cfg := c\<rparr>) else end_run i (s\<lparr>cfg := c\<rparr>))"
| pipeline_fails: "at_stage s i pid (Piping slot op res w) \<Longrightarrow>
    sched_step se tid s (pipeline_done i slot op w (error_result message) s)"
| session_created: "at_stage s i pid (Piping slot op None w) \<Longrightarrow>
    sched_step se tid s (set_run i (SessionMade slot op sess w) (s\<lparr>created := op # created s\<rparr>))"
| session_create_fails: "at_stage s i pid (Piping slot op None w) \<Longrightarrow>
    sched_step se tid s (pipeline_done i slot op w (error_result message) (s\<lparr>created := op # created s\<rparr>))"
| session_known: "at_stage s i pid (Piping slot op (Some sess) w) \<Longrightarrow>
    sched_step se tid s (set_run i (Prompting slot op sess w) s)"
| session_recorded: "at_stage s i pid (SessionMade slot op sess w) \<Longrightarrow> pid_ok pid \<Longrightarrow>
    advanceDispatch pid tid op PhSessionCreated slot (Some sess) now ok (cfg s) = (went, c) \<Longrightarrow>
    sched_step se tid s
      (if went then set_run i (Prompting slot op sess w) (s\<lparr>cfg := c\<rparr>)
       else pipeline_done i slot op w (error_result ''occurrence dispatch record refused the session-create phase'') (s\<lparr>cfg := c\<rparr>))"
| prompt_sent: "at_stage s i pid (Prompting slot op sess w) \<Longrightarrow>
    sched_step se tid s (set_run i (Accepting slot op sess w) (s\<lparr>prompts := (op, sess) # prompts s\<rparr>))"
| prompt_rejected: "at_stage s i pid (Prompting slot op sess w) \<Longrightarrow>
    sched_step se tid s (pipeline_done i slot op w (error_result message) s)"
| accepted: "at_stage s i pid (Accepting slot op sess w) \<Longrightarrow> pid_ok pid \<Longrightarrow>
    advanceDispatch pid tid op PhAccepted slot (Some sess) now ok (cfg s) = (went, c) \<Longrightarrow>
    sched_step se tid s
      (pipeline_done i slot op w \<lparr>wr_sessionID = Some sess, wr_status = RunSuccess, wr_lastError = None\<rparr> (s\<lparr>cfg := c\<rparr>))"
| timed_out: "i < length (runs s) \<Longrightarrow> runs s ! i = (pid, pc) \<Longrightarrow> watched_of pc = Some (slot, op) \<Longrightarrow>
    sched_step se tid s ((set_run i (unwatch pc) s)\<lparr>runs :=
      (pid, Finishing slot op (error_result ''scheduled task run timed out'') None) # runs (set_run i (unwatch pc) s)\<rparr>)"
| finished: "at_stage s i pid (Finishing slot op res ph) \<Longrightarrow>
    sched_step se tid s (end_run i (s\<lparr>cfg :=
      persistCompletion tid res startedAt nextAt now (map_option (settle_guard op) ph) ok (cfg s)\<rparr>))"
| manual_finished: "sched_step se tid s
      (s\<lparr>cfg := persistCompletion tid res startedAt nextAt now None ok (cfg s)\<rparr>)"
| other_write: "other_patch patch \<Longrightarrow>
    sched_step se tid s (s\<lparr>cfg := snd (updateScheduledTaskState now tid patch (cfg s))\<rparr>)"
| toggled: "sched_step se tid s (s\<lparr>cfg := set_enabled tid b (cfg s)\<rparr>)"
| died: "sched_step se tid s (s\<lparr>runs := filter (\<lambda>r. fst r \<noteq> pid) (runs s)\<rparr>)"

inductive sched_reach :: "sched_env \<Rightarrow> string \<Rightarrow> sched_sys \<Rightarrow> sched_sys \<Rightarrow> bool" for se tid s0 where
  sched_start: "sched_reach se tid s0 s0"
| sched_next: "sched_reach se tid s0 s \<Longrightarrow> sched_step se tid s t \<Longrightarrow> sched_reach se tid s0 t"

section \<open>What the stages do to the record\<close>

definition in_phase :: "string \<Rightarrow> OccurrencePhase \<Rightarrow> RawTask \<Rightarrow> bool" where
  "in_phase op ph t \<longleftrightarrow> (\<exists>d. dispatchOf t = Some d \<and> od_operationId d = op \<and> od_phase d = ph)"

text \<open>A write that leaves the claimed slot and puts no occurrence back to \<open>claimed\<close>.\<close>

definition no_worse :: "string \<Rightarrow> string \<Rightarrow> config_file \<Rightarrow> config_file \<Rightarrow> bool" where
  "no_worse tid op c c' \<longleftrightarrow>
     (\<forall>t'. storedTask tid c' = Some t' \<longrightarrow> (\<exists>t. storedTask tid c = Some t \<and>
        slotOf t' = slotOf t \<and> (in_phase op PhClaimed t' \<longrightarrow> in_phase op PhClaimed t)))"

lemma no_worse_refl [simp]: "no_worse tid op c c"
  by (auto simp: no_worse_def)

lemma no_worse_patch:
  assumes "\<And>t. P t \<Longrightarrow> storedTask tid c = Some t \<Longrightarrow>
      slotOf (applyStatePatch now t patch) = slotOf t \<and>
      (in_phase op PhClaimed (applyStatePatch now t patch) \<longrightarrow> in_phase op PhClaimed t)"
  shows "no_worse tid op c (snd (patchState now tid patch P c))"
proof (cases "storedTask tid c")
  case None
  then show ?thesis by (simp add: patchState_absent)
next
  case (Some t)
  then show ?thesis
    using assms [of t] patchState_stored(2) [OF Some, of tid now patch P] by (auto simp: no_worse_def split: if_splits)
qed

lemma no_worse_completion: "no_worse tid op c (persistCompletion tid res st nx now g ok c)"
proof -
  have *: "no_worse tid op c (snd (patchState now tid (buildCompletionPatch a b d e f h) P c))" for a b d e f h P
    by (rule no_worse_patch) (simp add: in_phase_def completion_patch_view)
  show ?thesis
    by (auto simp: persistCompletion_def Let_def updateScheduledTaskState_def updateScheduledTaskStateIf_def *
        split: option.splits)
qed

lemma no_worse_other:
  assumes "other_patch patch"
  shows "no_worse tid op c (snd (updateScheduledTaskState now tid patch c))"
proof -
  have "no_worse tid op c (snd (patchState now tid patch (\<lambda>_. True) c))"
    by (rule no_worse_patch)
       (use assms in \<open>simp add: other_patch_def in_phase_def other_patch_view\<close>)
  then show ?thesis by (simp add: updateScheduledTaskState_def Let_def)
qed

lemma findIndex_map:
  "(\<And>e. has_id s (f e) = has_id s e) \<Longrightarrow> findIndex (map f es) s = findIndex es s"
  by (induction es) auto

lemma no_worse_toggle: "no_worse tid op c (set_enabled tid b c)"
proof (cases c)
  case (CfgDoc doc)
  define f where "f = (\<lambda>e. if has_id tid e
    then (case e of JObj t \<Rightarrow> JObj (AList.update ''enabled'' (JBool b) t) | _ \<Rightarrow> e) else e)"
  have id: "has_id s (f e) = has_id s e" for s e
    by (auto simp: f_def has_id_def update_conv split: json.splits)
  have "set_enabled tid b c = CfgDoc (withTasks doc (map f (tasksIn doc)) False)"
    by (simp add: set_enabled_def CfgDoc f_def)
  then have new: "storedTask tid (set_enabled tid b c) =
      (case findIndex (tasksIn doc) tid of None \<Rightarrow> None | Some i \<Rightarrow> record_of (Some (map f (tasksIn doc) ! i)))"
    by (simp only: storedTask_def config_file.case tasksIn_withTasks findIndex_map [of tid f, OF id])
  show ?thesis
  proof (cases "findIndex (tasksIn doc) tid")
    case None
    then show ?thesis by (simp add: no_worse_def new)
  next
    case (Some i)
    note fi = findIndex_Some [OF Some]
    obtain t where t: "tasksIn doc ! i = JObj t" using fi by (cases "tasksIn doc ! i") (auto simp: has_id_def)
    have "storedTask tid c = Some t" using Some t by (simp add: storedTask_def CfgDoc)
    moreover have "storedTask tid (set_enabled tid b c) = Some (AList.update ''enabled'' (JBool b) t)"
      using fi t by (simp add: new Some f_def)
    moreover have "stateOf (AList.update ''enabled'' (JBool b) t) = stateOf t" by (simp add: stateOf_def update_conv)
    ultimately show ?thesis
      by (simp add: no_worse_def in_phase_def dispatchOf_def)
  qed
qed (simp_all add: no_worse_def set_enabled_def)

lemma canAdvance_nonempty: "canAdvanceDispatch op ph t \<Longrightarrow> op \<noteq> []"
proof -
  have "nonempty_str v = Some s \<Longrightarrow> s \<noteq> []" for v s by (cases v rule: nonempty_str.cases) auto
  then show "canAdvanceDispatch op ph t \<Longrightarrow> op \<noteq> []"
    by (auto simp: canAdvanceDispatch_def dispatchOf_def split: option.splits)
qed

lemma advance_effect:
  assumes adv: "advanceDispatch pid tid op' ph slot sess now ok c = (went, c')" and pid: "pid_ok pid" and ph: "ph \<noteq> PhClaimed"
  shows "no_worse tid op c c'"
    and "went \<Longrightarrow> \<exists>t. storedTask tid c = Some t \<and> canAdvanceDispatch op' ph t \<and>
           storedTask tid c' = Some (applyStatePatch now t (buildDispatchPhasePatch pid slot op' ph sess now))"
proof -
  let ?patch = "buildDispatchPhasePatch pid slot op' ph sess now"
  have view: "slotOf (applyStatePatch now t ?patch) = slotOf t"
    "\<not> in_phase op PhClaimed (applyStatePatch now t ?patch)" if "canAdvanceDispatch op' ph t" for t
    using phase_patch_view [OF canAdvance_nonempty [OF that] pid, where now = now and t = t and slot = slot and ph = ph and sess = sess and upd = now] ph
    by (auto simp: in_phase_def dispatch_rec_def)
  have "no_worse tid op c (snd (patchState now tid ?patch (canAdvanceDispatch op' ph) c))"
    by (rule no_worse_patch) (use view in blast)
  then show "no_worse tid op c c'"
    using adv by (auto simp: advanceDispatch_def updateScheduledTaskStateIf_def Let_def split: if_splits)
  show "\<exists>t. storedTask tid c = Some t \<and> canAdvanceDispatch op' ph t \<and>
           storedTask tid c' = Some (applyStatePatch now t ?patch)" if went
  proof -
    have ok: "patchState now tid ?patch (canAdvanceDispatch op' ph) c = ((True, snd (fst (patchState now tid ?patch (canAdvanceDispatch op' ph) c))), c')"
      using adv that by (auto simp: advanceDispatch_def updateScheduledTaskStateIf_def Let_def prod_eq_iff split: if_splits)
    then obtain t where t: "storedTask tid c = Some t"
      using patchState_absent [of tid c now ?patch "canAdvanceDispatch op' ph"] by (cases "storedTask tid c") auto
    then show ?thesis
      using ok patchState_stored [OF t, where now = now and patch = ?patch and P = "canAdvanceDispatch op' ph"]
      by (metis (no_types, lifting) Pair_inject snd_conv)
  qed
qed

lemma operationId_nonempty [simp]: "operationIdForOccurrence sha tid slot \<noteq> []"
  by (simp add: operationIdForOccurrence_def)

text \<open>A claimed slot is further than the slack from the slot claimed before.\<close>

definition apart :: "RawTask \<Rightarrow> int \<Rightarrow> bool" where
  "apart t slot \<longleftrightarrow> (case slotOf t of None \<Rightarrow> True | Some q \<Rightarrow> \<bar>q - of_int slot\<bar> > of_int TASK_DUE_SLACK_MS)"

lemma claim_effect:
  assumes cl: "claimOccurrence se pid tid slot nxt now c = (r, c')" and pid: "r \<noteq> None \<Longrightarrow> pid_ok pid"
  shows "r = None \<Longrightarrow> c' = c"
    and "r = Some op \<Longrightarrow> op = operationIdForOccurrence (se_sha se) tid slot \<and>
       (\<exists>t t'. storedTask tid c = Some t \<and> apart t slot \<and> storedTask tid c' = Some t' \<and> slotOf t' = Some (of_int slot) \<and>
          (\<forall>op'. in_phase op' PhClaimed t' \<longrightarrow> op' = op))"
proof -
  let ?op = "operationIdForOccurrence (se_sha se) tid slot"
  let ?patch = "buildClaimPatch pid slot ?op now nxt now"
  let ?r = "patchState now tid ?patch (canClaimOccurrence slot) c"
  have r: "r = (if fst (fst ?r) then Some ?op else None)" "c' = snd ?r"
    using cl by (simp_all add: claimOccurrence_def updateScheduledTaskStateIf_def Let_def)
  have free: "canClaimOccurrence slot t \<Longrightarrow> apart t slot" for t
    by (auto simp: canClaimOccurrence_def apart_def split: if_splits option.splits)
  show "r = None \<Longrightarrow> c' = c"
  proof (cases "storedTask tid c")
    case (Some t)
    assume "r = None"
    then show "c' = c" using r patchState_stored(1) [OF Some, of now ?patch "canClaimOccurrence slot"]
      by (metis option.distinct(1) fst_conv snd_conv)
  qed (use r in \<open>simp add: patchState_absent\<close>)
  show "op = ?op \<and> (\<exists>t t'. storedTask tid c = Some t \<and> apart t slot \<and> storedTask tid c' = Some t' \<and> slotOf t' = Some (of_int slot) \<and>
          (\<forall>op'. in_phase op' PhClaimed t' \<longrightarrow> op' = op))"
    if "r = Some op"
  proof -
    have won: "fst (fst ?r)" "op = ?op" using that r(1) by (auto split: if_splits)
    then obtain t where t: "storedTask tid c = Some t"
      using patchState_absent [of tid c now ?patch] by (cases "storedTask tid c") auto
    have can: "canClaimOccurrence slot t"
      using won(1) patchState_stored(1) [OF t, of now ?patch "canClaimOccurrence slot"] by (metis fst_conv)
    have "storedTask tid c' = Some (applyStatePatch now t ?patch)"
      using can r(2) patchState_stored(2) [OF t, of tid now ?patch "canClaimOccurrence slot"] by simp
    moreover have "slotOf (applyStatePatch now t ?patch) = Some (of_int slot)"
      "\<forall>op'. in_phase op' PhClaimed (applyStatePatch now t ?patch) \<longrightarrow> op' = op"
      using claim_patch_view [of ?op pid now t slot now nxt now] pid that won(2)
      by (auto simp: in_phase_def dispatch_rec_def)
    ultimately show ?thesis using t free [OF can] won(2) by blast
  qed
qed

section \<open>One session create for a won claim\<close>

fun may_create :: "string \<Rightarrow> run_pc \<Rightarrow> bool" where
  "may_create op (Piping slot op' None w) \<longleftrightarrow> op' = op"
| "may_create op _ \<longleftrightarrow> False"

definition creations :: "string \<Rightarrow> sched_sys \<Rightarrow> nat" where
  "creations op s = length (filter (\<lambda>r. may_create op (snd r)) (runs s)) + count_list (created s) op"

text \<open>The won claims of an operation id.\<close>

definition claims_of :: "sched_env \<Rightarrow> string \<Rightarrow> string \<Rightarrow> sched_sys \<Rightarrow> nat" where
  "claims_of se tid op s = length (filter (\<lambda>slot. operationIdForOccurrence (se_sha se) tid slot = op) (won s))"

definition claims_apart :: "int list \<Rightarrow> bool" where
  "claims_apart slots \<longleftrightarrow> (\<forall>i. Suc i < length slots \<longrightarrow> \<bar>slots ! i - slots ! Suc i\<bar> > TASK_DUE_SLACK_MS)"

definition sched_inv :: "sched_env \<Rightarrow> string \<Rightarrow> string \<Rightarrow> sched_sys \<Rightarrow> bool" where
  "sched_inv se tid op s \<longleftrightarrow> creations op s \<le> claims_of se tid op s \<and> claims_apart (won s) \<and>
     (\<forall>t. storedTask tid (cfg s) = Some t \<longrightarrow>
        (won s \<noteq> [] \<longrightarrow> slotOf t = Some (of_int (hd (won s)))) \<and>
        (in_phase op PhClaimed t \<longrightarrow> creations op s < claims_of se tid op s))"

lemma claims_apart_Cons: "claims_apart (x # xs) \<longleftrightarrow> claims_apart xs \<and> (xs \<noteq> [] \<longrightarrow> \<bar>x - hd xs\<bar> > TASK_DUE_SLACK_MS)"
  by (cases xs) (auto simp: claims_apart_def nth_Cons split: nat.splits)

lemma sched_inv_quiet:
  assumes "sched_inv se tid op s" "no_worse tid op (cfg s) (cfg s')" "creations op s' \<le> creations op s" "won s' = won s"
  shows "sched_inv se tid op s'"
proof -
  have same: "claims_of se tid op s' = claims_of se tid op s" by (simp add: claims_of_def assms(4))
  have "\<exists>t. storedTask tid (cfg s) = Some t \<and> slotOf t' = slotOf t \<and> (in_phase op PhClaimed t' \<longrightarrow> in_phase op PhClaimed t)"
    if "storedTask tid (cfg s') = Some t'" for t'
    using assms(2) that by (auto simp: no_worse_def)
  then show ?thesis
    using assms(1,3,4) same by (fastforce simp: sched_inv_def)
qed

lemma filter_update_length:
  "i < length xs \<Longrightarrow>
     length (filter P (xs[i := x])) + of_bool (P (xs ! i)) = length (filter P xs) + of_bool (P x)"
proof (induction xs arbitrary: i)
  case (Cons y ys)
  show ?case
  proof (cases i)
    case (Suc j)
    then show ?thesis using Cons.IH [of j] Cons.prems by (cases "P y") simp_all
  qed simp
qed simp

lemma filter_drop_length:
  "i < length xs \<Longrightarrow>
     length (filter P (take i xs @ drop (Suc i) xs)) + of_bool (P (xs ! i)) = length (filter P xs)"
proof (induction xs arbitrary: i)
  case (Cons x xs)
  then show ?case by (cases i) auto
qed simp

lemma creations_set_run:
  assumes "i < length (runs s)"
  shows "creations op (set_run i pc s) + of_bool (may_create op (snd (runs s ! i))) = creations op s + of_bool (may_create op pc)"
  using filter_update_length [OF assms, of "\<lambda>r. may_create op (snd r)" "(fst (runs s ! i), pc)"]
  by (simp add: creations_def set_run_def)

lemma creations_end_run:
  assumes "i < length (runs s)"
  shows "creations op (end_run i s) + of_bool (may_create op (snd (runs s ! i))) = creations op s"
  using filter_drop_length [OF assms, of "\<lambda>r. may_create op (snd r)"] by (simp add: creations_def end_run_def)

lemma creations_cfg [simp]: "creations op (s\<lparr>cfg := c\<rparr>) = creations op s" "creations op (s\<lparr>prompts := p\<rparr>) = creations op s"
  by (simp_all add: creations_def)

lemma creations_created [simp]: "creations op (s\<lparr>created := x # created s\<rparr>) = creations op s + of_bool (x = op)"
  by (simp add: creations_def)

lemma creations_more_runs [simp]:
  "\<not> may_create op pc \<Longrightarrow> creations op (s\<lparr>runs := (pid, pc) # runs s\<rparr>) = creations op s"
  by (simp add: creations_def)

lemma cfg_run [simp]:
  "cfg (set_run i pc s) = cfg s" "cfg (end_run i s) = cfg s" "cfg (pipeline_done i sl op w res s) = cfg s"
  by (simp_all add: set_run_def end_run_def pipeline_done_def)

lemma creations_pipeline_done:
  assumes "i < length (runs s)"
  shows "creations op (pipeline_done i sl op' w res s) + of_bool (may_create op (snd (runs s ! i))) = creations op s"
  using creations_set_run [OF assms, of op "Finishing sl op' res None"] creations_end_run [OF assms, of op]
  by (simp add: pipeline_done_def)

lemma may_create_unwatch [simp]: "may_create op (unwatch pc) = may_create op pc"
  by (cases pc rule: may_create.cases [of "(op, pc)" for op pc, simplified]; cases pc) (auto split: option.splits)

lemma won_run [simp]:
  "won (set_run i pc s) = won s" "won (end_run i s) = won s" "won (pipeline_done i sl op w res s) = won s"
  by (simp_all add: set_run_def end_run_def pipeline_done_def)

lemma creations_won [simp]: "creations op (s\<lparr>cfg := c, won := x\<rparr>) = creations op s"
  by (simp add: creations_def)

lemma sched_inv_advanced:
  assumes inv: "sched_inv se tid op s" and adv: "advanceDispatch pid tid op' PhCreating slot None now ok (cfg s) = (True, c)"
    and pid: "pid_ok pid" and new: "cfg s' = c" "creations op s' \<le> creations op s + of_bool (op' = op)" "won s' = won s"
  shows "sched_inv se tid op s'"
proof -
  obtain t where t: "storedTask tid (cfg s) = Some t" "canAdvanceDispatch op' PhCreating t"
    and t': "storedTask tid c = Some (applyStatePatch now t (buildDispatchPhasePatch pid slot op' PhCreating None now))"
    using advance_effect(2) [OF adv pid] by auto
  note nw = advance_effect(1) [OF adv pid, of op]
  show ?thesis
  proof (cases "op' = op")
    case True
    have "in_phase op PhClaimed t" using t(2) True
      by (auto simp: canAdvanceDispatch_def in_phase_def split: option.splits)
    then have free: "creations op s < claims_of se tid op s" using inv t(1) by (auto simp: sched_inv_def)
    note view = phase_patch_view [OF canAdvance_nonempty [OF t(2)] pid, where now = now and t = t and slot = slot and ph = PhCreating and sess = None and upd = now]
    have "creations op s' \<le> claims_of se tid op s'" using new(2,3) free True by (simp add: claims_of_def)
    then show ?thesis using inv t(1) t' new(1,3) view by (auto simp: sched_inv_def in_phase_def dispatch_rec_def)
  next
    case False
    then show ?thesis using sched_inv_quiet [OF inv] nw new by simp
  qed
qed

lemma sched_inv_claimed:
  assumes inv: "sched_inv se tid op s" and cl: "claimOccurrence se pid tid slot nxt now (cfg s) = (Some op', c)"
    and pid: "pid_ok pid" and new: "cfg s' = c" "creations op s' \<le> creations op s" "won s' = slot # won s"
  shows "sched_inv se tid op s'"
proof -
  obtain t t' where t: "op' = operationIdForOccurrence (se_sha se) tid slot" "storedTask tid (cfg s) = Some t" "apart t slot"
    "storedTask tid c = Some t'" "slotOf t' = Some (of_int slot)" "\<forall>o'. in_phase o' PhClaimed t' \<longrightarrow> o' = op'"
    using claim_effect(2) [OF cl, of op'] pid by auto
  have claims: "claims_of se tid op s' = claims_of se tid op s + of_bool (op' = op)"
    by (simp add: claims_of_def new(3) t(1))
  have "\<bar>slot - hd (won s)\<bar> > TASK_DUE_SLACK_MS" if "won s \<noteq> []"
  proof -
    have "slotOf t = Some (of_int (hd (won s)))" using inv t(2) that by (simp add: sched_inv_def)
    then have "\<bar>(of_int (hd (won s)) :: rat) - of_int slot\<bar> > of_int TASK_DUE_SLACK_MS" using t(3) by (simp add: apart_def)
    moreover have "\<bar>(of_int (hd (won s)) :: rat) - of_int slot\<bar> = of_int \<bar>hd (won s) - slot\<bar>" by simp
    ultimately show ?thesis by (simp add: abs_minus_commute del: of_int_abs of_int_diff)
  qed
  then have "claims_apart (won s')" using inv by (simp add: new(3) claims_apart_Cons sched_inv_def)
  moreover have "creations op s' < claims_of se tid op s'" if "in_phase op PhClaimed t'"
    using that t(6) inv claims new(2) by (auto simp: sched_inv_def)
  moreover have "creations op s' \<le> claims_of se tid op s'" using inv claims new(2) by (simp add: sched_inv_def)
  ultimately show ?thesis using t(4,5) new(1,3) by (auto simp: sched_inv_def)
qed

lemma sched_step_inv:
  assumes "sched_step se tid s s'" "sched_inv se tid op s"
  shows "sched_inv se tid op s'"
  using assms(1)
proof cases
  case (claim_won i pid slot nxt now op' c)
  show ?thesis
    by (rule sched_inv_claimed [OF assms(2) claim_won(4) claim_won(3)])
       (use creations_set_run [of i "s\<lparr>cfg := c, won := slot # won s\<rparr>" op "Advancing slot op'"] claim_won in simp_all)
next
  case (claim_lost i pid slot nxt now c)
  have "c = cfg s" using claim_effect(1) [OF claim_lost(3)] by simp
  then show ?thesis
    using sched_inv_quiet [OF assms(2), of s'] claim_lost creations_end_run [of i "s\<lparr>cfg := c\<rparr>" op] by simp
next
  case (advanced i pid slot op' now ok went c)
  show ?thesis
  proof (cases went)
    case True
    then show ?thesis
      using sched_inv_advanced [OF assms(2), where pid = pid and op' = op' and slot = slot and now = now and ok = ok and c = c and s' = s'] advanced
        creations_set_run [of i "s\<lparr>cfg := c\<rparr>" op "Piping slot op' None True"] by simp
  next
    case False
    then show ?thesis
      using sched_inv_quiet [OF assms(2), of s'] advance_effect(1) [OF advanced(4,3)] advanced
        creations_set_run [of i "s\<lparr>cfg := c\<rparr>" op] by simp
  qed
next
  case (resume_advanced i pid slot op' now ok went c)
  show ?thesis
  proof (cases went)
    case True
    then show ?thesis
      using sched_inv_advanced [OF assms(2), where pid = pid and op' = op' and slot = slot and now = now and ok = ok and c = c and s' = s'] resume_advanced
        creations_set_run [of i "s\<lparr>cfg := c\<rparr>" op "Piping slot op' None True"] by simp
  next
    case False
    then show ?thesis
      using sched_inv_quiet [OF assms(2), of s'] advance_effect(1) [OF resume_advanced(4,3)] resume_advanced
        creations_end_run [of i "s\<lparr>cfg := c\<rparr>" op] by simp
  qed
next
  case (session_recorded i pid slot op' sess w now ok went c)
  then show ?thesis
    using sched_inv_quiet [OF assms(2), of s'] advance_effect(1) [OF session_recorded(4,3)]
      creations_set_run [of i "s\<lparr>cfg := c\<rparr>" op "Prompting slot op' sess w"]
      creations_pipeline_done [of i "s\<lparr>cfg := c\<rparr>" op slot op' w] by (simp split: if_splits)
next
  case (accepted i pid slot op' sess w now ok went c)
  then show ?thesis
    using sched_inv_quiet [OF assms(2), of s'] advance_effect(1) [OF accepted(4,3)]
      creations_pipeline_done [of i "s\<lparr>cfg := c\<rparr>" op slot op' w] by simp
next
  case (timed_out i pid pc slot op')
  then show ?thesis
    using sched_inv_quiet [OF assms(2), of s'] creations_set_run [of i s op "unwatch pc"] by simp
next
  case (finished i pid slot op' res ph startedAt nextAt now ok)
  then show ?thesis
    using sched_inv_quiet [OF assms(2), of s'] no_worse_completion creations_end_run [of i "s\<lparr>cfg := c\<rparr>" op for c] by simp
next
  case (died pid)
  have "creations op s' \<le> creations op s"
    using length_filter_le [of "\<lambda>r. fst r \<noteq> pid" "filter (\<lambda>r. may_create op (snd r)) (runs s)"]
    by (simp add: died creations_def filter_filter conj_commute)
  then show ?thesis using sched_inv_quiet [OF assms(2), of s'] died by simp
next
  case (session_created i pid slot op' w sess)
  then show ?thesis
    using sched_inv_quiet [OF assms(2), of s']
      creations_set_run [of i "s\<lparr>created := op' # created s\<rparr>" op "SessionMade slot op' sess w"] by simp
next
  case (session_create_fails i pid slot op' w message)
  then show ?thesis
    using sched_inv_quiet [OF assms(2), of s']
      creations_pipeline_done [of i "s\<lparr>created := op' # created s\<rparr>" op slot op' w] by simp
next
  case (prompt_sent i pid slot op' sess w)
  then show ?thesis
    using sched_inv_quiet [OF assms(2), of s']
      creations_set_run [of i "s\<lparr>prompts := (op', sess) # prompts s\<rparr>" op "Accepting slot op' sess w"] by simp
next
  case (resume_skip i pid slot snapshot enabled why)
  then show ?thesis
    using sched_inv_quiet [OF assms(2), of s'] creations_end_run [of i s op] by simp
next
  case (resume_settle i pid slot d enabled ph res)
  then show ?thesis
    using sched_inv_quiet [OF assms(2), of s'] creations_set_run [of i s op "Finishing slot (od_operationId d) res (Some ph)"] by simp
next
  case (resume_known i pid slot d enabled sess)
  then show ?thesis
    using sched_inv_quiet [OF assms(2), of s'] creations_set_run [of i s op "Piping slot (od_operationId d) (Some sess) True"] by simp
next
  case (resume_claimed i pid slot d enabled)
  then show ?thesis
    using sched_inv_quiet [OF assms(2), of s'] creations_set_run [of i s op "ResumeAdvancing slot (od_operationId d)"] by simp
next
  case (pipeline_fails i pid slot op' res w message)
  then show ?thesis
    using sched_inv_quiet [OF assms(2), of s'] creations_pipeline_done [of i s op slot op' w "error_result message"]
    by simp
next
  case (prompt_rejected i pid slot op' sess w message)
  then show ?thesis
    using sched_inv_quiet [OF assms(2), of s'] creations_pipeline_done [of i s op slot op' w] by simp
next
  case (session_known i pid slot op' sess w)
  then show ?thesis
    using sched_inv_quiet [OF assms(2), of s'] creations_set_run [of i s op "Prompting slot op' sess w"] by simp
qed (use sched_inv_quiet [OF assms(2), of s'] in
      \<open>simp_all add: no_worse_completion no_worse_other no_worse_toggle\<close>)

lemma sched_reach_inv:
  "sched_reach se tid s0 s \<Longrightarrow> sched_inv se tid op s0 \<Longrightarrow> sched_inv se tid op s"
  by (induction rule: sched_reach.induct) (auto intro: sched_step_inv)

section \<open>A run without faults\<close>

lemma patchState_won:
  "storedTask tid c = Some t \<Longrightarrow> P t \<Longrightarrow> fst (fst (patchState now tid patch P c))"
  using patchState_stored(1) [of tid c t now patch P] by (metis fst_conv)

lemma patchState_refused:
  "storedTask tid c = Some t \<Longrightarrow> \<not> P t \<Longrightarrow> patchState now tid patch P c = ((False, Some t), c)"
  using patchState_stored(1) [of tid c t now patch P] by metis

lemma claim_won_intro:
  assumes "storedTask tid c = Some t" "canClaimOccurrence slot t"
  shows "\<exists>c'. claimOccurrence se pid tid slot nxt now c = (Some (operationIdForOccurrence (se_sha se) tid slot), c') \<and>
    storedTask tid c' =
      Some (applyStatePatch now t (buildClaimPatch pid slot (operationIdForOccurrence (se_sha se) tid slot) now nxt now))"
proof -
  let ?patch = "buildClaimPatch pid slot (operationIdForOccurrence (se_sha se) tid slot) now nxt now"
  have "fst (fst (patchState now tid ?patch (canClaimOccurrence slot) c))"
    by (rule patchState_won [OF assms(1)]) (rule assms(2))
  then show ?thesis
    using assms(2) patchState_stored(2) [OF assms(1), of tid now ?patch "canClaimOccurrence slot"]
    by (simp add: claimOccurrence_def updateScheduledTaskStateIf_def Let_def)
qed

lemma advance_won_intro:
  assumes "storedTask tid c = Some t" "canAdvanceDispatch op ph t"
  shows "\<exists>c'. advanceDispatch pid tid op ph slot sess now True c = (True, c') \<and>
    storedTask tid c' = Some (applyStatePatch now t (buildDispatchPhasePatch pid slot op ph sess now))"
proof -
  let ?patch = "buildDispatchPhasePatch pid slot op ph sess now"
  have "fst (fst (patchState now tid ?patch (canAdvanceDispatch op ph) c))"
    by (rule patchState_won [OF assms(1)]) (rule assms(2))
  then show ?thesis
    using assms(2) patchState_stored(2) [OF assms(1), of tid now ?patch "canAdvanceDispatch op ph"]
    by (simp add: advanceDispatch_def updateScheduledTaskStateIf_def Let_def)
qed

lemma completion_stored:
  assumes "storedTask tid c = Some t"
  shows "storedTask tid (persistCompletion tid res st nx now None True c) =
    Some (applyStatePatch now t (buildCompletionPatch (wr_status res) (wr_lastError res) (wr_sessionID res) (now - st) nx now))"
  using patchState_stored(2) [OF assms, of tid now _ "\<lambda>_. True"]
  by (simp add: persistCompletion_def updateScheduledTaskState_def Let_def)

lemma can_advance_next:
  assumes "op \<noteq> []" "pid_ok pid" "EXPECTED_PHASE_BEFORE ph' = Some ph"
  shows "canAdvanceDispatch op ph' (applyStatePatch now t (buildDispatchPhasePatch pid slot op ph sess upd))"
  using phase_patch_view(1) [OF assms(1,2)] assms(3) by (simp add: canAdvanceDispatch_def dispatch_rec_def)

lemma canClaim_far:
  assumes "slotOf t = Some (of_int q)" "field t ''enabled'' \<noteq> Some (JBool False)"
  shows "canClaimOccurrence slot t \<longleftrightarrow> \<bar>q - slot\<bar> > TASK_DUE_SLACK_MS"
proof -
  have "\<bar>(of_int q :: rat) - of_int slot\<bar> = of_int \<bar>q - slot\<bar>" by simp
  then show ?thesis using assms by (simp add: canClaimOccurrence_def del: of_int_abs of_int_diff)
qed

lemma not_canClaim_claimed:
  "slotOf t = Some (of_int slot) \<Longrightarrow> \<not> canClaimOccurrence slot t"
  by (simp add: canClaimOccurrence_def TASK_DUE_SLACK_MS_def)

text \<open>C35.
  At most one session is created for a claim of an occurrence. Take every state reachable from
  one where the stored task has no dispatch record, with runs of all its slots that interleave in any
  way: timers of several processes fire, claims and phase writes fail, processes die at any stage,
  booted processes resume from any record they once read, pipelines outlive their watchdog, manual
  runs complete and the user toggles the task. Then under every operation id the create call was made
  at most as often as a claim of its slot was won, and claims that follow each other are for slots
  further apart than the slack. So as long as the slots are won in order, at most one session is
  created for each, unless operation ids collide. (Out of order a slot can be won twice: see
  \<open>older_slot_is_claimed_twice\<close>.)
\<close>

theorem at_most_one_session_create:
  assumes "sched_reach se tid s0 s" "runs s0 = []" "created s0 = []" "won s0 = []"
    and "\<forall>t. storedTask tid (cfg s0) = Some t \<longrightarrow> dispatchOf t = None"
  shows "count_list (created s) op \<le> claims_of se tid op s \<and> claims_apart (won s) \<and>
    (sorted_wrt (>) (won s) \<longrightarrow> inj_on (operationIdForOccurrence (se_sha se) tid) (insert slot (set (won s))) \<longrightarrow>
       count_list (created s) (operationIdForOccurrence (se_sha se) tid slot) \<le> 1)"
proof -
  have inv: "sched_inv se tid op s" for op
    by (rule sched_reach_inv [OF assms(1)])
       (use assms(2-5) in \<open>auto simp: sched_inv_def creations_def claims_of_def claims_apart_def in_phase_def\<close>)
  then have created: "count_list (created s) op \<le> claims_of se tid op s" for op
    by (simp add: sched_inv_def creations_def) (meson add_leD2)
  let ?id = "operationIdForOccurrence (se_sha se) tid"
  have "count_list (created s) (?id slot) \<le> 1" if "sorted_wrt (>) (won s)" "inj_on ?id (insert slot (set (won s)))"
  proof -
    have "filter (\<lambda>q. ?id q = ?id slot) (won s) = filter (\<lambda>q. q = slot) (won s)"
      using that(2) by (intro filter_cong) (auto simp: inj_on_def)
    moreover have "length (filter (\<lambda>q. q = slot) xs) \<le> 1" if "sorted_wrt (>) xs" for xs :: "int list"
      using that by (induction xs) (auto simp: filter_empty_conv)
    ultimately show ?thesis using created [of "?id slot"] that(1) by (simp add: claims_of_def) (meson le_trans)
  qed
  then show ?thesis using created inv by (auto simp: sched_inv_def)
qed

definition sched_demo_env :: sched_env where
  "sched_demo_env = \<lparr>se_sha = (\<lambda>_. ''ab''), se_alive = (\<lambda>_. False)\<rparr>"

definition sched_demo_task :: RawTask where
  "sched_demo_task = [(''id'', JStr ''t''), (''enabled'', JBool True)]"

definition sched_demo_cfg :: config_file where
  "sched_demo_cfg = CfgDoc [(''scheduledTasks'', JArr [JObj sched_demo_task])]"

definition sched_demo_sys :: sched_sys where
  "sched_demo_sys = \<lparr>cfg = sched_demo_cfg, runs = [], won = [], created = [], prompts = []\<rparr>"

lemma sched_demo_stored: "storedTask ''t'' sched_demo_cfg = Some sched_demo_task"
  by (simp add: storedTask_def sched_demo_cfg_def tasksIn_def has_id_def sched_demo_task_def)

lemma sched_demo_views: "canClaimOccurrence slot sched_demo_task" "dispatchOf sched_demo_task = None" "field sched_demo_task ''enabled'' = Some (JBool True)"
  by (simp_all add: canClaimOccurrence_def dispatchOf_def stateOf_def sched_demo_task_def)

text \<open>C36.
  An occurrence that meets no fault runs to its end: the claim of a claimable slot is won, each
  phase is written in order, and the completion clears the dispatch record and leaves the slot
  claimed, so it is not claimed again.
\<close>

theorem fault_free_occurrence_settles:
  assumes "storedTask tid c = Some t" "canClaimOccurrence slot t" "pid_ok pid"
    and op: "op = operationIdForOccurrence (se_sha se) tid slot"
  shows "\<exists>c1 c2 c3 c4 t5. claimOccurrence se pid tid slot nxt n0 c = (Some op, c1) \<and>
    advanceDispatch pid tid op PhCreating slot None n1 True c1 = (True, c2) \<and>
    advanceDispatch pid tid op PhSessionCreated slot (Some sess) n2 True c2 = (True, c3) \<and>
    advanceDispatch pid tid op PhAccepted slot (Some sess) n3 True c3 = (True, c4) \<and>
    storedTask tid (persistCompletion tid res n0 nx n4 None True c4) = Some t5 \<and>
    dispatchOf t5 = None \<and> \<not> canClaimOccurrence slot t5"
proof -
  have ne: "op \<noteq> []" by (simp add: op)
  note claim_view = claim_patch_view [OF ne assms(3)]
  note view = phase_patch_view [OF ne assms(3)]
  obtain c1 where c1: "claimOccurrence se pid tid slot nxt n0 c = (Some op, c1)"
    "storedTask tid c1 = Some (applyStatePatch n0 t (buildClaimPatch pid slot op n0 nxt n0))" (is "_ = Some ?t1")
    using claim_won_intro [OF assms(1,2)] op by blast
  have "canAdvanceDispatch op PhCreating ?t1" using claim_view(1) by (simp add: canAdvanceDispatch_def dispatch_rec_def)
  then obtain c2 where c2: "advanceDispatch pid tid op PhCreating slot None n1 True c1 = (True, c2)"
    "storedTask tid c2 = Some (applyStatePatch n1 ?t1 (buildDispatchPhasePatch pid slot op PhCreating None n1))" (is "_ = Some ?t2")
    using advance_won_intro [OF c1(2)] by blast
  obtain c3 where c3: "advanceDispatch pid tid op PhSessionCreated slot (Some sess) n2 True c2 = (True, c3)"
    "storedTask tid c3 = Some (applyStatePatch n2 ?t2 (buildDispatchPhasePatch pid slot op PhSessionCreated (Some sess) n2))" (is "_ = Some ?t3")
    using advance_won_intro [OF c2(2) can_advance_next [OF ne assms(3), of PhSessionCreated]] by fastforce
  obtain c4 where c4: "advanceDispatch pid tid op PhAccepted slot (Some sess) n3 True c3 = (True, c4)"
    "storedTask tid c4 = Some (applyStatePatch n3 ?t3 (buildDispatchPhasePatch pid slot op PhAccepted (Some sess) n3))" (is "_ = Some ?t4")
    using advance_won_intro [OF c3(2) can_advance_next [OF ne assms(3), of PhAccepted]] by fastforce
  have "slotOf ?t4 = Some (of_int slot)" by (simp add: view(2) claim_view(2))
  then show ?thesis
    using c1(1) c2(1) c3(1) c4(1) completion_stored [OF c4(2)] completion_patch_view not_canClaim_claimed by metis
qed

theorem fault_free_occurrence_settles_witness:
  "\<exists>c1 c2 c3 c4 t5. claimOccurrence sched_demo_env 7 ''t'' 60000 None 60001 sched_demo_cfg = (Some ''schrun_ab'', c1) \<and>
    advanceDispatch 7 ''t'' ''schrun_ab'' PhCreating 60000 None 60002 True c1 = (True, c2) \<and>
    advanceDispatch 7 ''t'' ''schrun_ab'' PhSessionCreated 60000 (Some ''s1'') 60003 True c2 = (True, c3) \<and>
    advanceDispatch 7 ''t'' ''schrun_ab'' PhAccepted 60000 (Some ''s1'') 60004 True c3 = (True, c4) \<and>
    storedTask ''t'' (persistCompletion ''t'' (error_result ''e'') 60001 None 60005 None True c4) = Some t5 \<and>
    dispatchOf t5 = None \<and> \<not> canClaimOccurrence 60000 t5"
  by (rule fault_free_occurrence_settles [OF sched_demo_stored sched_demo_views(1)])
     (simp_all add: pid_ok_def operationIdForOccurrence_def sched_demo_env_def)

theorem at_most_one_session_create_witness:
  "\<exists>s. sched_reach sched_demo_env ''t'' sched_demo_sys s \<and> created s = [''schrun_ab''] \<and>
     count_list (created s) (operationIdForOccurrence (se_sha sched_demo_env) ''t'' 60000) \<le> 1"
proof -
  have op: "operationIdForOccurrence (se_sha sched_demo_env) ''t'' 60000 = ''schrun_ab''"
    by (simp add: operationIdForOccurrence_def sched_demo_env_def)
  have ok: "pid_ok 7" by (simp add: pid_ok_def)
  obtain c1 where c1: "claimOccurrence sched_demo_env 7 ''t'' 60000 None 60001 sched_demo_cfg = (Some ''schrun_ab'', c1)"
    "storedTask ''t'' c1 = Some (applyStatePatch 60001 sched_demo_task (buildClaimPatch 7 60000 ''schrun_ab'' 60001 None 60001))"
    using claim_won_intro [OF sched_demo_stored sched_demo_views(1), of sched_demo_env 7 60000 None 60001] unfolding op by blast
  have "canAdvanceDispatch ''schrun_ab'' PhCreating (applyStatePatch 60001 sched_demo_task (buildClaimPatch 7 60000 ''schrun_ab'' 60001 None 60001))"
    using claim_patch_view(1) [OF _ ok, of "''schrun_ab''"] by (simp add: canAdvanceDispatch_def dispatch_rec_def)
  then obtain c2 where c2: "advanceDispatch 7 ''t'' ''schrun_ab'' PhCreating 60000 None 60002 True c1 = (True, c2)"
    using advance_won_intro [OF c1(2)] by blast
  let ?s = "sched_demo_sys\<lparr>cfg := c2, runs := [(7, SessionMade 60000 ''schrun_ab'' ''s1'' True)], won := [60000], created := [''schrun_ab'']\<rparr>"
  have a: "sched_reach sched_demo_env ''t'' sched_demo_sys (sched_demo_sys\<lparr>runs := [(7, Claiming 60000)]\<rparr>)"
    using sched_next [OF sched_start due [of sched_demo_env "''t''" sched_demo_sys 7 60000]] by (simp add: sched_demo_sys_def)
  have b: "sched_reach sched_demo_env ''t'' sched_demo_sys (sched_demo_sys\<lparr>cfg := c1, runs := [(7, Advancing 60000 ''schrun_ab'')], won := [60000]\<rparr>)"
    using sched_next [OF a claim_won [where i = 0, OF _ ok]] c1(1) by (fastforce simp: sched_demo_sys_def set_run_def)
  have c: "sched_reach sched_demo_env ''t'' sched_demo_sys (sched_demo_sys\<lparr>cfg := c2, runs := [(7, Piping 60000 ''schrun_ab'' None True)], won := [60000]\<rparr>)"
    using sched_next [OF b advanced [where i = 0 and went = True, OF _ ok]] c2 by (fastforce simp: sched_demo_sys_def set_run_def)
  have d: "sched_reach sched_demo_env ''t'' sched_demo_sys ?s"
    using sched_next [OF c session_created [where i = 0 and pid = 7 and w = True and op = "''schrun_ab''" and sess = "''s1''"]]
    by (simp add: sched_demo_sys_def set_run_def)
  have "count_list (created ?s) (operationIdForOccurrence (se_sha sched_demo_env) ''t'' 60000) \<le> 1"
    using at_most_one_session_create [OF d, of "''schrun_ab''" 60000] by (simp add: sched_demo_sys_def sched_demo_stored sched_demo_views)
  then show ?thesis using d by (intro exI [of _ ?s]) simp
qed

section \<open>What the record does not protect\<close>

text \<open>
  The store remembers only the last claimed slot. After a later slot of the same task has been
  claimed, an older slot that already ran is claimable again, so a process whose timer for it
  fires late runs it a second time under the same operation id.
\<close>

theorem older_slot_is_claimed_twice:
  assumes "storedTask tid c = Some t" "canClaimOccurrence slot t" "pid_ok pid"
    and "\<bar>later - slot\<bar> > TASK_DUE_SLACK_MS" "field t ''enabled'' \<noteq> Some (JBool False)"
  shows "\<exists>c1 c2 c3. claimOccurrence se pid tid slot nxt n0 c = (Some (operationIdForOccurrence (se_sha se) tid slot), c1) \<and>
    claimOccurrence se pid tid later nxt' n1
      (persistCompletion tid res n0 nx n0' None True c1) = (Some (operationIdForOccurrence (se_sha se) tid later), c2) \<and>
    claimOccurrence se pid' tid slot nxt'' n2 c2 = (Some (operationIdForOccurrence (se_sha se) tid slot), c3)"
proof -
  note view = claim_patch_view [OF operationId_nonempty assms(3)]
  obtain c1 where c1: "claimOccurrence se pid tid slot nxt n0 c = (Some (operationIdForOccurrence (se_sha se) tid slot), c1)"
    "storedTask tid c1 = Some (applyStatePatch n0 t (buildClaimPatch pid slot (operationIdForOccurrence (se_sha se) tid slot) n0 nxt n0))"
      (is "_ = Some ?t1")
    using claim_won_intro [OF assms(1,2)] by blast
  obtain t2 where t2: "storedTask tid (persistCompletion tid res n0 nx n0' None True c1) = Some t2"
    "slotOf t2 = Some (of_int slot)" "field t2 ''enabled'' = field t ''enabled''"
    using completion_stored [OF c1(2)] by (simp add: completion_patch_view view(2) field_applyStatePatch)
  have "canClaimOccurrence later t2"
    using canClaim_far [OF t2(2)] t2(3) assms(4,5) by (simp add: abs_minus_commute)
  then obtain c2 where c2: "claimOccurrence se pid tid later nxt' n1
      (persistCompletion tid res n0 nx n0' None True c1) = (Some (operationIdForOccurrence (se_sha se) tid later), c2)"
    "storedTask tid c2 = Some (applyStatePatch n1 t2 (buildClaimPatch pid later (operationIdForOccurrence (se_sha se) tid later) n1 nxt' n1))"
      (is "_ = Some ?t3")
    using claim_won_intro [OF t2(1)] by blast
  have "canClaimOccurrence slot ?t3"
    using canClaim_far [OF view(2), of n1 t2 later] assms(4,5) t2(3) by (simp add: field_applyStatePatch)
  then show ?thesis using c1(1) c2(1) claim_won_intro [OF c2(2)] by blast
qed

theorem older_slot_is_claimed_twice_witness:
  "\<exists>c1 c2 c3. claimOccurrence sched_demo_env 7 ''t'' 60000 None 60001 sched_demo_cfg = (Some (operationIdForOccurrence (se_sha sched_demo_env) ''t'' 60000), c1) \<and>
    claimOccurrence sched_demo_env 7 ''t'' 120000 None 120001
      (persistCompletion ''t'' (error_result ''e'') 60001 None 61000 None True c1) = (Some (operationIdForOccurrence (se_sha sched_demo_env) ''t'' 120000), c2) \<and>
    claimOccurrence sched_demo_env 8 ''t'' 60000 None 125000 c2 = (Some (operationIdForOccurrence (se_sha sched_demo_env) ''t'' 60000), c3)"
  by (rule older_slot_is_claimed_twice [OF sched_demo_stored sched_demo_views(1)])
     (simp_all add: pid_ok_def TASK_DUE_SLACK_MS_def sched_demo_views(3))

text \<open>
  A phase write lands only on the record of its own operation in the phase just before its own;
  on any other record, a newer occurrence's included, it changes nothing. The completion of a
  scheduled run that was not resumed carries no such guard: it clears whatever record is
  stored, even one of another operation.
\<close>

theorem phase_writes_guarded_completion_not:
  assumes "storedTask tid c = Some t" "dispatchOf t = Some d" "od_operationId d \<noteq> op"
  shows "advanceDispatch pid tid op ph slot sess now ok c = (False, c) \<and>
    persistCompletion tid res st nx now (Some (settle_guard op ph')) True c = c \<and>
    (\<exists>t'. storedTask tid (persistCompletion tid res st nx now None True c) = Some t' \<and> dispatchOf t' = None)"
proof -
  have "\<not> canAdvanceDispatch op ph t" "\<not> settle_guard op ph' t"
    using assms(2,3) by (simp_all add: canAdvanceDispatch_def settle_guard_def)
  then show ?thesis
    using completion_stored [OF assms(1)]
    by (simp add: completion_patch_view patchState_refused [OF assms(1)] advanceDispatch_def
        persistCompletion_def [where guard = "Some g" for g] updateScheduledTaskStateIf_def Let_def)
qed

theorem phase_writes_guarded_completion_not_witness:
  "\<exists>c t d. storedTask ''t'' c = Some t \<and> dispatchOf t = Some d \<and> od_operationId d = ''schrun_ab'' \<and>
     advanceDispatch 8 ''t'' ''schrun_old'' PhAccepted 0 (Some ''s'') 70000 True c = (False, c) \<and>
     (\<exists>t'. storedTask ''t'' (persistCompletion ''t'' (error_result ''scheduled task run timed out'') 0 None 70001 None True c) = Some t' \<and>
        dispatchOf t' = None)"
proof -
  let ?t = "applyStatePatch 60001 sched_demo_task (buildClaimPatch 7 60000 ''schrun_ab'' 60001 None 60001)"
  let ?d = "dispatch_rec 60000 ''schrun_ab'' PhClaimed None 7 60001"
  obtain c where c: "storedTask ''t'' c = Some ?t"
    using claim_won_intro [OF sched_demo_stored sched_demo_views(1), of sched_demo_env 7 60000 None 60001]
    by (auto simp: operationIdForOccurrence_def sched_demo_env_def)
  have d: "dispatchOf ?t = Some ?d" by (rule claim_patch_view(1)) (simp_all add: pid_ok_def)
  have "od_operationId ?d \<noteq> ''schrun_old''" by (simp add: dispatch_rec_def)
  from phase_writes_guarded_completion_not [OF c d this] show ?thesis
    using c d by (intro exI [of _ c] exI [of _ ?t] exI [of _ ?d]) (simp add: dispatch_rec_def)
qed

end
