(* ===== verification/Goal_Constants.thy ===== *)
theory Goal_Constants
  imports Prelude
begin

text \<open>
  The limits and the reason strings of session goals (\<open>goal-constants.ts\<close>). The
  scheduler's schema uses the token budget bound; the goal theories use the rest.
\<close>

definition IDLE_QUIET_MS :: int where "IDLE_QUIET_MS = 15000"
definition KICKOFF_QUIET_MS :: int where "KICKOFF_QUIET_MS = 3000"
definition RESUME_KICKOFF_MS :: int where "RESUME_KICKOFF_MS = 250"
definition MAX_AUTO_TURNS :: int where "MAX_AUTO_TURNS = 20"
definition BLOCKED_STREAK_LIMIT :: int where "BLOCKED_STREAK_LIMIT = 3"
definition AUDIT_FAIL_LIMIT :: int where "AUDIT_FAIL_LIMIT = 2"
definition GOAL_OBJECTIVE_CHAR_LIMIT :: nat where "GOAL_OBJECTIVE_CHAR_LIMIT = 5000"
definition TRANSCRIPT_PART_CHAR_LIMIT :: nat where "TRANSCRIPT_PART_CHAR_LIMIT = 6000"
definition NOTE_CHAR_LIMIT :: nat where "NOTE_CHAR_LIMIT = 280"
definition REASON_CHAR_LIMIT :: nat where "REASON_CHAR_LIMIT = 200"
definition MESSAGE_FETCH_LIMIT :: int where "MESSAGE_FETCH_LIMIT = 40"
definition TOKEN_BUDGET_MAX :: int where "TOKEN_BUDGET_MAX = 100000000"
definition DISTILLED_OBJECTIVE_CHAR_LIMIT :: nat where "DISTILLED_OBJECTIVE_CHAR_LIMIT = 4000"

text \<open>\<open>GOAL_REASONS\<close>, written verbatim into the status reason of a goal.\<close>

definition verifiedByAudit :: string where "verifiedByAudit = ''verified by audit''"
definition blockedPerAudit :: string where "blockedPerAudit = ''blocked per audit''"
definition auditUnavailable :: string where "auditUnavailable = ''progress audit unavailable''"
definition assistantTurnFailed :: string where "assistantTurnFailed = ''assistant turn failed''"
definition budgetReached :: string where "budgetReached = ''token budget reached''"
definition turnLimit :: string where "turnLimit = ''auto-continuation limit reached''"
definition evidenceUnavailable :: string where "evidenceUnavailable = ''goal turn evidence unavailable''"
definition evidenceGap :: string where "evidenceGap = ''goal turn evidence cursor missing''"
definition usageUnavailable :: string where "usageUnavailable = ''goal token usage unavailable''"
definition pausedAfterAbort :: string where "pausedAfterAbort = ''paused after abort''"
definition reason_resumed :: string where "reason_resumed = ''resumed''"

lemmas goal_reason_defs = verifiedByAudit_def blockedPerAudit_def auditUnavailable_def assistantTurnFailed_def
  budgetReached_def turnLimit_def evidenceUnavailable_def evidenceGap_def usageUnavailable_def
  pausedAfterAbort_def reason_resumed_def

lemmas goal_limit_defs = GOAL_OBJECTIVE_CHAR_LIMIT_def NOTE_CHAR_LIMIT_def REASON_CHAR_LIMIT_def TOKEN_BUDGET_MAX_def

end
