(* ===== verification/Sched_Schema.thy ===== *)
theory Sched_Schema
  imports Sched_Claims Goal_Constants
begin

text \<open>
  Normalization of stored scheduled tasks (\<open>server/scheduled/task-schema.ts\<close>). Tasks,
  schedules, executions and states stay JSON objects, because unknown fields survive on each of
  them; \<open>put\<close> is the assignment of a key that may be \<open>undefined\<close>, which the code writes
  as an assignment or a \<open>delete\<close>.
\<close>

section \<open>Objects\<close>

definition put :: "string \<Rightarrow> unknown \<Rightarrow> obj \<Rightarrow> obj" where
  "put k v o1 = (case v of Some j \<Rightarrow> AList.update k j o1 | None \<Rightarrow> AList.delete k o1)"

lemma field_put [simp]: "field (put k v o1) k' = (if k' = k then v else field o1 k')"
  by (auto simp: put_def update_conv AList.delete_conv' split: option.splits)

lemma update_same: "field o1 k = Some v \<Longrightarrow> AList.update k v o1 = o1"
  by (induction o1) auto

lemma put_same: "field o1 k = v \<Longrightarrow> put k v o1 = o1"
  by (cases v) (simp_all add: put_def update_same map_of_eq_None_iff AList.delete_id)

section \<open>Field checks\<close>

definition TASK_ID_MAX :: nat where "TASK_ID_MAX = 128"
definition TASK_NAME_MAX :: nat where "TASK_NAME_MAX = 80"
definition TASK_PROMPT_MAX :: nat where "TASK_PROMPT_MAX = 20000"
definition TASK_LAST_ERROR_MAX :: nat where "TASK_LAST_ERROR_MAX = 2000"
definition TASK_ROUTE_ID_MAX :: nat where "TASK_ROUTE_ID_MAX = 256"

record NormalizeOptions =
  opt_now :: int
  opt_serverZone :: string

definition id_char :: "char \<Rightarrow> bool" where
  "id_char c \<longleftrightarrow> is_alnum c \<or> c \<in> {CHR ''.'', CHR ''_'', CHR '':'', CHR ''-''}"

definition TASK_ID :: "string \<Rightarrow> bool" where
  "TASK_ID s \<longleftrightarrow> list_all id_char s \<and> 1 \<le> length s \<and> length s \<le> 127"

definition LAST_STATUSES :: "string list" where
  "LAST_STATUSES = [''idle'', ''running'', ''success'', ''error'']"

fun boundedString :: "unknown \<Rightarrow> nat \<Rightarrow> string option" where
  "boundedString (Some (JStr s)) m = (if s = [] \<or> length s > m then None else Some s)"
| "boundedString _ m = None"

definition validRealDate :: "string \<Rightarrow> bool" where
  "validRealDate date \<longleftrightarrow> ISO_DATE date \<and>
     date_of_day (date_UTC (fst (ymd date)) (fst (snd (ymd date))) (snd (snd (ymd date))) 12 0 div day_ms) = ymd date"

definition zoneOrDefault :: "zone_env \<Rightarrow> unknown \<Rightarrow> NormalizeOptions \<Rightarrow> string" where
  "zoneOrDefault env v opts =
     (let fallback = (if isValidZone env (opt_serverZone opts) then opt_serverZone opts else ''UTC'')
      in case v of Some (JStr z) \<Rightarrow> if isValidZone env z then z else fallback | _ \<Rightarrow> fallback)"

fun str_of :: "unknown \<Rightarrow> string option" where
  "str_of (Some (JStr s)) = Some s"
| "str_of _ = None"

text \<open>An array of strings the pattern accepts, or nothing.\<close>

fun time_list :: "json list \<Rightarrow> string list option" where
  "time_list [] = Some []"
| "time_list (JStr s # js) = (if HH_MM s then map_option ((#) s) (time_list js) else None)"
| "time_list (_ # js) = None"

definition realTimes :: "obj \<Rightarrow> (string list \<times> string option) option" where
  "realTimes raw =
     (let legacy = (case str_of (field raw ''time'') of Some s \<Rightarrow> if HH_MM s then Some s else None | None \<Rightarrow> None)
      in case field raw ''times'' of
           Some (JArr js) \<Rightarrow> map_option (\<lambda>ts. (sort (remdups ts), legacy)) (time_list js)
         | _ \<Rightarrow> map_option (\<lambda>s. ([s], Some s)) legacy)"

text \<open>\<open>Number.isInteger(day) && day >= 0 && day <= 6\<close>, once each, in order.\<close>

fun weekday_of :: "json \<Rightarrow> int option" where
  "weekday_of (JNum (Fin q)) = (if q = of_int \<lfloor>q\<rfloor> \<and> 0 \<le> q \<and> q \<le> 6 then Some \<lfloor>q\<rfloor> else None)"
| "weekday_of _ = None"

definition weekdays_of :: "unknown \<Rightarrow> int list" where
  "weekdays_of v = (case v of Some (JArr js) \<Rightarrow> sort (remdups (List.map_filter weekday_of js)) | _ \<Rightarrow> [])"

section \<open>Schedules\<close>

definition normalizeSchedule :: "zone_env \<Rightarrow> unknown \<Rightarrow> NormalizeOptions \<Rightarrow> obj option" where
  "normalizeSchedule env raw opts =
     (case record_of raw of
        None \<Rightarrow> None
      | Some shape \<Rightarrow>
          let zone = zoneOrDefault env (field shape ''timezone'') opts;
              base = put ''timezone'' (Some (JStr zone)) shape;
              kind = str_of (field shape ''kind'')
          in if kind = Some ''daily'' then
               map_option (\<lambda>(ts, time).
                 put ''time'' (if length ts = 1 \<and> time \<noteq> None \<and> field shape ''times'' = None then map_option JStr time else None)
                   (put ''times'' (Some (JArr (map JStr ts))) (put ''kind'' (Some (JStr ''daily'')) base)))
                 (realTimes shape)
             else if kind = Some ''weekly'' then
               (let days = weekdays_of (field shape ''weekdays'')
                in case realTimes shape of
                     None \<Rightarrow> None
                   | Some (ts, time) \<Rightarrow>
                       if days = [] then None
                       else Some (put ''weekdays'' (Some (JArr (map JInt days)))
                              (put ''times'' (Some (JArr (map JStr ts))) (put ''kind'' (Some (JStr ''weekly'')) base))))
             else if kind = Some ''once'' then
               (case (str_of (field shape ''date''), str_of (field shape ''time'')) of
                  (Some date, Some time) \<Rightarrow>
                    if \<not> validRealDate date \<or> \<not> HH_MM time \<or> parseOnceSlot date time = None then None
                    else Some (put ''time'' (Some (JStr time)) (put ''date'' (Some (JStr date)) (put ''kind'' (Some (JStr ''once'')) base)))
                | _ \<Rightarrow> None)
             else if kind = Some ''cron'' then
               (case str_of (field shape ''cron'') of
                  None \<Rightarrow> None
                | Some cron \<Rightarrow>
                    if cron = [] \<or> length cron > TASK_CRON_MAX \<or> cronNextAt env cron zone (opt_now opts) = None then None
                    else Some (put ''cron'' (Some (JStr cron)) (put ''kind'' (Some (JStr ''cron'')) base)))
             else None)"

section \<open>Executions and states\<close>

fun bool_of :: "unknown \<Rightarrow> bool option" where
  "bool_of (Some (JBool b)) = Some b"
| "bool_of _ = None"

definition budget_of :: "unknown \<Rightarrow> rat option" where
  "budget_of v =
     (case finite_num v of
        Some q \<Rightarrow> if q = of_int \<lfloor>q\<rfloor> \<and> 0 \<le> q \<and> q \<le> of_int TOKEN_BUDGET_MAX then Some q else None
      | None \<Rightarrow> None)"

abbreviation JRat :: "rat \<Rightarrow> json" where
  "JRat q \<equiv> JNum (Fin q)"

definition normalizeExecution :: "unknown \<Rightarrow> obj option" where
  "normalizeExecution raw =
     (case record_of raw of
        None \<Rightarrow> None
      | Some shape \<Rightarrow>
          (case (boundedString (field shape ''prompt'') TASK_PROMPT_MAX,
                 boundedString (field shape ''providerID'') TASK_ROUTE_ID_MAX,
                 boundedString (field shape ''modelID'') TASK_ROUTE_ID_MAX) of
             (Some prompt, Some providerID, Some modelID) \<Rightarrow>
               let goal = bool_of (field shape ''goalEnabled'');
                   e1 = put ''modelID'' (Some (JStr modelID)) (put ''providerID'' (Some (JStr providerID)) (put ''prompt'' (Some (JStr prompt)) shape));
                   e2 = put ''variant'' (map_option JStr (boundedString (field shape ''variant'') TASK_ROUTE_ID_MAX)) e1;
                   e3 = put ''agent'' (map_option JStr (boundedString (field shape ''agent'') TASK_ROUTE_ID_MAX)) e2;
                   e4 = put ''goalEnabled'' (map_option JBool goal) e3;
                   e5 = put ''goalTokenBudget''
                          (if goal = Some True then map_option JRat (budget_of (field shape ''goalTokenBudget'')) else None) e4
               in Some (put ''permissionAutoAccept'' None e5)
           | _ \<Rightarrow> None))"

text \<open>\<open>String(value)\<close> is one of the statuses: the string itself, or an array that holds
  nothing else.\<close>

fun status_text :: "json \<Rightarrow> string option" where
  "status_text (JStr s) = Some s"
| "status_text (JArr [j]) = status_text j"
| "status_text _ = None"

definition status_ok :: "unknown \<Rightarrow> bool" where
  "status_ok v \<longleftrightarrow> (case v of Some j \<Rightarrow> (case status_text j of Some s \<Rightarrow> s \<in> set LAST_STATUSES | None \<Rightarrow> False) | None \<Rightarrow> False)"

definition stamp_or :: "unknown \<Rightarrow> int \<Rightarrow> json" where
  "stamp_or v now = (case finite_num v of Some q \<Rightarrow> if q \<ge> 0 then JRat q else JInt now | None \<Rightarrow> JInt now)"

definition dispatch_json :: "OccurrenceDispatch \<Rightarrow> obj" where
  "dispatch_json d =
     [(''scheduledFor'', JRat (od_scheduledFor d)), (''operationId'', JStr (od_operationId d)),
      (''phase'', JStr (phase_name (od_phase d)))] @
     (case od_sessionId d of Some s \<Rightarrow> [(''sessionId'', JStr s)] | None \<Rightarrow> []) @
     (case od_pid d of Some p \<Rightarrow> [(''pid'', JInt p)] | None \<Rightarrow> []) @
     [(''updatedAt'', JRat (od_updatedAt d))]"

definition normalizeState :: "unknown \<Rightarrow> NormalizeOptions \<Rightarrow> obj" where
  "normalizeState raw opts =
     (let shape = (case record_of raw of Some s \<Rightarrow> s | None \<Rightarrow> []);
          num = (\<lambda>k. map_option JRat (finite_num (field shape k)));
          s1 = put ''createdAt'' (Some (stamp_or (field shape ''createdAt'') (opt_now opts))) shape;
          s2 = put ''updatedAt'' (Some (stamp_or (field shape ''updatedAt'') (opt_now opts))) s1;
          s3 = put ''lastStatus'' (if status_ok (field shape ''lastStatus'') then field shape ''lastStatus'' else Some (JStr ''idle'')) s2;
          s4 = put ''lastRunAt'' (num ''lastRunAt'') s3;
          s5 = put ''lastDurationMs''
                 (case finite_num (field shape ''lastDurationMs'') of Some q \<Rightarrow> if q \<ge> 0 then Some (JRat q) else None | None \<Rightarrow> None) s4;
          s6 = put ''lastSessionId'' (map_option JStr (boundedString (field shape ''lastSessionId'') TASK_ID_MAX)) s5;
          s7 = put ''nextRunAt'' (num ''nextRunAt'') s6;
          s8 = put ''lastScheduledFor'' (num ''lastScheduledFor'') s7;
          s9 = put ''lastError'' (map_option JStr (boundedString (field shape ''lastError'') TASK_LAST_ERROR_MAX)) s8
      in put ''dispatch'' (map_option (\<lambda>d. JObj (dispatch_json d)) (dispatchOf [(''state'', JObj shape)])) s9)"

section \<open>Tasks\<close>

text \<open>\<open>base\<close> is the id of the stored task of an update.\<close>

definition normalizeTaskForStorage ::
  "zone_env \<Rightarrow> unknown \<Rightarrow> NormalizeOptions \<Rightarrow> unknown option \<Rightarrow> (string, obj) result"
where
  "normalizeTaskForStorage env raw opts base =
     (case record_of raw of
        None \<Rightarrow> Inl ''task must be a JSON object''
      | Some shape \<Rightarrow>
          (case str_of (field shape ''id'') of
             None \<Rightarrow> Inl ''task id is missing or malformed''
           | Some tid \<Rightarrow>
               if \<not> TASK_ID tid then Inl ''task id is missing or malformed''
               else if (case base of Some b \<Rightarrow> Some (JStr tid) \<noteq> b | None \<Rightarrow> False) then Inl ''task id is immutable''
               else (case str_of (field shape ''name'') of
                       None \<Rightarrow> Inl ''task name is required''
                     | Some nm \<Rightarrow>
                         if trim nm = [] \<or> length (trim nm) > TASK_NAME_MAX then Inl ''task name must be 1..80 characters''
                         else (case bool_of (field shape ''enabled'') of
                                 None \<Rightarrow> Inl ''task enabled flag is required''
                               | Some enabled \<Rightarrow>
                                   (case normalizeSchedule env (field shape ''schedule'') opts of
                                      None \<Rightarrow> Inl ''task schedule is invalid''
                                    | Some schedule \<Rightarrow>
                                        (case normalizeExecution (field shape ''execution'') of
                                           None \<Rightarrow> Inl ''task execution is invalid''
                                         | Some execution \<Rightarrow>
                                             let t1 = put ''id'' (Some (JStr tid)) shape;
                                                 t2 = put ''name'' (Some (JStr (trim nm))) t1;
                                                 t3 = put ''enabled'' (Some (JBool enabled)) t2;
                                                 t4 = put ''schedule'' (Some (JObj schedule)) t3;
                                                 t5 = put ''execution'' (Some (JObj execution)) t4;
                                                 t6 = put ''state'' (Some (JObj (normalizeState (field shape ''state'') opts))) t5
                                             in Inr (put ''loopFile'' (map_option JStr (boundedString (field shape ''loopFile'') 1024)) t6)))))))"

section \<open>Normal forms are fixed points\<close>

named_theorems schema_fix \<open>a check applied to what it returned\<close>

lemma boundedString_fix [schema_fix]:
  "boundedString (map_option JStr (boundedString v m)) m = boundedString v m"
  "boundedString v m = Some s \<Longrightarrow> boundedString (Some (JStr s)) m = Some s"
  by (cases "(v, m)" rule: boundedString.cases; simp split: if_splits)+

lemma finite_num_fix [schema_fix]: "finite_num (map_option JRat (finite_num v)) = finite_num v"
  by (cases v rule: finite_num.cases) simp_all

lemma bool_of_fix [schema_fix]: "bool_of (map_option JBool (bool_of v)) = bool_of v"
  by (cases v rule: bool_of.cases) simp_all

lemma budget_of_fix [schema_fix]: "budget_of (map_option JRat (budget_of v)) = budget_of v"
  by (auto simp: budget_of_def split: option.splits)

lemma stamp_or_fix [schema_fix]: "stamp_or (Some (stamp_or v now)) now = stamp_or v now"
  by (auto simp: stamp_or_def split: option.splits)

lemma zoneOrDefault_fix [schema_fix]: "zoneOrDefault env (Some (JStr (zoneOrDefault env v opts))) opts = zoneOrDefault env v opts"
  by (auto simp: zoneOrDefault_def Let_def split: option.splits json.splits)

lemma trim_start_fix: "s \<noteq> [] \<Longrightarrow> \<not> js_space (List.hd s) \<Longrightarrow> trim_start s = s"
  by (cases s) (simp_all add: trim_start_def)

lemma trim_end_split: "\<exists>ws. s = trim_end s @ ws"
proof -
  have "rev s = takeWhile js_space (rev s) @ dropWhile js_space (rev s)" by simp
  then have "s = rev (dropWhile js_space (rev s)) @ rev (takeWhile js_space (rev s))"
    by (metis rev_append rev_rev_ident)
  then show ?thesis unfolding trim_end_def by blast
qed

lemma trim_fix [schema_fix]: "trim (trim s) = trim s"
proof (cases "trim s = []")
  case False
  obtain ws where ws: "trim_start s = trim s @ ws" using trim_end_split [of "trim_start s"] by (auto simp: trim_def)
  have "trim_start s \<noteq> []" using False ws by simp
  then have "\<not> js_space (List.hd (trim_start s))" unfolding trim_start_def by (rule hd_dropWhile)
  then have "trim_start (trim s) = trim s" using trim_start_fix [OF False] ws False by simp
  moreover have "trim_end (trim_end r) = trim_end r" for r
    by (simp add: trim_end_def)
  ultimately show ?thesis by (metis trim_def)
next
  case True
  have "trim [] = []" by (simp add: trim_def trim_start_def trim_end_def)
  then show ?thesis using True by simp
qed

lemma time_list_map: "list_all HH_MM ts \<Longrightarrow> time_list (map JStr ts) = Some ts"
  by (induction ts) auto

lemma time_list_HH_MM: "time_list js = Some ts \<Longrightarrow> list_all HH_MM ts"
  by (induction js arbitrary: ts rule: time_list.induct) (auto split: if_splits)

lemma realTimes_ok: "realTimes raw = Some (ts, time) \<Longrightarrow> list_all HH_MM ts \<and> sorted ts \<and> distinct ts"
  by (auto simp: realTimes_def Let_def list_all_iff dest!: time_list_HH_MM split: option.splits json.splits if_splits)

lemma realTimes_fix:
  assumes "field raw ''times'' = Some (JArr (map JStr ts))" "list_all HH_MM ts" "sorted ts" "distinct ts"
  shows "\<exists>time. realTimes raw = Some (ts, time)"
  using assms by (simp add: realTimes_def Let_def time_list_map distinct_remdups_id sorted_sort_id)

lemma weekdays_of_ok: "sorted (weekdays_of v) \<and> distinct (weekdays_of v) \<and> (\<forall>d \<in> set (weekdays_of v). 0 \<le> d \<and> d \<le> 6)"
proof -
  have "0 \<le> d \<and> d \<le> 6" if "weekday_of j = Some d" for j d
    using that by (cases j rule: weekday_of.cases) (auto split: if_splits simp: floor_le_iff)
  then show ?thesis by (auto simp: weekdays_of_def map_filter_def split: option.splits json.splits)
qed

lemma weekday_of_JInt: "0 \<le> d \<Longrightarrow> d \<le> 6 \<Longrightarrow> weekday_of (JInt d) = Some d"
  by simp

lemma map_filter_weekdays: "\<forall>d \<in> set ds. 0 \<le> d \<and> d \<le> 6 \<Longrightarrow> List.map_filter weekday_of (map JInt ds) = ds"
  by (induction ds) (auto simp: map_filter_def)

lemma dispatchOf_state: "dispatchOf task = dispatchOf [(''state'', JObj (stateOf task))]"
  by (simp add: dispatchOf_def stateOf_def)

lemma dispatch_json_fix:
  assumes "dispatchOf task = Some d" "field s ''dispatch'' = Some (JObj (dispatch_json d))"
  shows "dispatchOf [(''state'', JObj s)] = Some d"
proof -
  have ne: "nonempty_str (map_option JStr (nonempty_str v)) = nonempty_str v" for v
    by (cases v rule: nonempty_str.cases) simp_all
  have pid: "safe_pid (map_option JInt (safe_pid v)) = safe_pid v" for v
    by (auto simp: safe_pid_def split: option.splits)
  obtain w where w: "nonempty_str (field w ''operationId'') = Some (od_operationId d)"
    "od_sessionId d = nonempty_str (field w ''sessionId'')" "od_pid d = safe_pid (field w ''pid'')"
    using assms(1) by (auto simp: dispatchOf_def split: option.splits)
  define v where "v = dispatch_json d"
  have f: "field v ''operationId'' = Some (JStr (od_operationId d))" "field v ''scheduledFor'' = Some (JRat (od_scheduledFor d))"
    "field v ''phase'' = Some (JStr (phase_name (od_phase d)))" "field v ''updatedAt'' = Some (JRat (od_updatedAt d))"
    "field v ''sessionId'' = map_option JStr (od_sessionId d)" "field v ''pid'' = map_option JInt (od_pid d)"
    by (auto simp: v_def dispatch_json_def split: option.split)
  have "nonempty_str (field v ''operationId'') = Some (od_operationId d)"
    "nonempty_str (field v ''sessionId'') = od_sessionId d" "safe_pid (field v ''pid'') = od_pid d"
    using ne [of "field w ''operationId''"] w ne pid unfolding f by simp_all
  then show ?thesis using assms(2) f by (simp add: dispatchOf_def stateOf_def flip: v_def)
qed

lemma normalizeExecution_fix:
  assumes "normalizeExecution raw = Some e"
  shows "normalizeExecution (Some (JObj e)) = Some e"
proof -
  obtain shape p pr m where sh: "record_of raw = Some shape"
    and b: "boundedString (field shape ''prompt'') TASK_PROMPT_MAX = Some p"
      "boundedString (field shape ''providerID'') TASK_ROUTE_ID_MAX = Some pr"
      "boundedString (field shape ''modelID'') TASK_ROUTE_ID_MAX = Some m"
    using assms by (auto simp: normalizeExecution_def split: option.splits)
  define goal where "goal = bool_of (field shape ''goalEnabled'')"
  define bud where "bud = (if goal = Some True then map_option JRat (budget_of (field shape ''goalTokenBudget'')) else None)"
  have e: "e = put ''permissionAutoAccept'' None (put ''goalTokenBudget'' bud (put ''goalEnabled'' (map_option JBool goal)
      (put ''agent'' (map_option JStr (boundedString (field shape ''agent'') TASK_ROUTE_ID_MAX))
      (put ''variant'' (map_option JStr (boundedString (field shape ''variant'') TASK_ROUTE_ID_MAX))
      (put ''modelID'' (Some (JStr m)) (put ''providerID'' (Some (JStr pr)) (put ''prompt'' (Some (JStr p)) shape)))))))"
    using assms sh b by (simp add: normalizeExecution_def Let_def goal_def bud_def)
  have f: "field e ''prompt'' = Some (JStr p)" "field e ''providerID'' = Some (JStr pr)" "field e ''modelID'' = Some (JStr m)"
    "field e ''variant'' = map_option JStr (boundedString (field shape ''variant'') TASK_ROUTE_ID_MAX)"
    "field e ''agent'' = map_option JStr (boundedString (field shape ''agent'') TASK_ROUTE_ID_MAX)"
    "field e ''goalEnabled'' = map_option JBool goal" "field e ''goalTokenBudget'' = bud" "field e ''permissionAutoAccept'' = None"
    by (simp_all add: e)
  have g: "bool_of (map_option JBool goal) = goal" by (simp only: goal_def bool_of_fix)
  have bud: "(if goal = Some True then map_option JRat (budget_of bud) else None) = bud"
    by (simp add: bud_def budget_of_fix)
  have "boundedString (field e ''prompt'') TASK_PROMPT_MAX = Some p" "boundedString (field e ''providerID'') TASK_ROUTE_ID_MAX = Some pr"
    "boundedString (field e ''modelID'') TASK_ROUTE_ID_MAX = Some m" using b by (simp_all only: f boundedString_fix(2))
  then show ?thesis
    using f bud by (cases "goal = Some True") (simp_all add: normalizeExecution_def Let_def put_same boundedString_fix g)
qed

lemma normalizeState_fix: "normalizeState (Some (JObj (normalizeState raw opts))) opts = normalizeState raw opts"
proof -
  define shape where "shape = (case record_of raw of Some s \<Rightarrow> s | None \<Rightarrow> [])"
  define s where "s = normalizeState raw opts"
  define dur where "dur = (\<lambda>v. case finite_num v of Some q \<Rightarrow> if q \<ge> 0 then Some (JRat q) else None | None \<Rightarrow> None)"
  define st where "st = (\<lambda>v. if status_ok v then v else Some (JStr ''idle''))"
  have dur_fix: "dur (dur v) = dur v" for v by (auto simp: dur_def split: option.splits)
  have st_fix: "st (st v) = st v" for v by (auto simp: st_def status_ok_def LAST_STATUSES_def split: option.splits)
  have view: "field s ''createdAt'' = Some (stamp_or (field shape ''createdAt'') (opt_now opts))"
    "field s ''updatedAt'' = Some (stamp_or (field shape ''updatedAt'') (opt_now opts))"
    "field s ''lastStatus'' = st (field shape ''lastStatus'')"
    "field s ''lastRunAt'' = map_option JRat (finite_num (field shape ''lastRunAt''))"
    "field s ''lastDurationMs'' = dur (field shape ''lastDurationMs'')"
    "field s ''lastSessionId'' = map_option JStr (boundedString (field shape ''lastSessionId'') TASK_ID_MAX)"
    "field s ''nextRunAt'' = map_option JRat (finite_num (field shape ''nextRunAt''))"
    "field s ''lastScheduledFor'' = map_option JRat (finite_num (field shape ''lastScheduledFor''))"
    "field s ''lastError'' = map_option JStr (boundedString (field shape ''lastError'') TASK_LAST_ERROR_MAX)"
    "field s ''dispatch'' = map_option (\<lambda>d. JObj (dispatch_json d)) (dispatchOf [(''state'', JObj shape)])"
    by (simp_all add: s_def normalizeState_def Let_def dur_def st_def flip: shape_def)
  have disp: "dispatchOf [(''state'', JObj s)] = dispatchOf [(''state'', JObj shape)]"
  proof (cases "dispatchOf [(''state'', JObj shape)]")
    case None
    then show ?thesis using view(10) by (simp add: dispatchOf_def stateOf_def)
  next
    case (Some d)
    then show ?thesis using view(10) dispatch_json_fix [OF Some] by simp
  qed
  have "normalizeState (Some (JObj s)) opts =
    put ''dispatch'' (map_option (\<lambda>d. JObj (dispatch_json d)) (dispatchOf [(''state'', JObj s)]))
    (put ''lastError'' (map_option JStr (boundedString (field s ''lastError'') TASK_LAST_ERROR_MAX))
    (put ''lastScheduledFor'' (map_option JRat (finite_num (field s ''lastScheduledFor'')))
    (put ''nextRunAt'' (map_option JRat (finite_num (field s ''nextRunAt'')))
    (put ''lastSessionId'' (map_option JStr (boundedString (field s ''lastSessionId'') TASK_ID_MAX))
    (put ''lastDurationMs'' (dur (field s ''lastDurationMs''))
    (put ''lastRunAt'' (map_option JRat (finite_num (field s ''lastRunAt'')))
    (put ''lastStatus'' (st (field s ''lastStatus''))
    (put ''updatedAt'' (Some (stamp_or (field s ''updatedAt'') (opt_now opts)))
    (put ''createdAt'' (Some (stamp_or (field s ''createdAt'') (opt_now opts))) s)))))))))"
    by (simp add: normalizeState_def Let_def dur_def st_def)
  also have "\<dots> = s"
    using view disp by (simp add: put_same schema_fix dur_fix st_fix)
  finally show ?thesis by (simp add: s_def)
qed

definition times_ok :: "obj \<Rightarrow> bool" where
  "times_ok s \<longleftrightarrow> (\<exists>ts. field s ''times'' = Some (JArr (map JStr ts)) \<and> list_all HH_MM ts \<and> sorted ts \<and> distinct ts)"

definition weekdays_ok :: "obj \<Rightarrow> bool" where
  "weekdays_ok s \<longleftrightarrow> (\<exists>ds. field s ''weekdays'' = Some (JArr (map JInt ds)) \<and> ds \<noteq> [] \<and> sorted ds \<and> distinct ds \<and>
     (\<forall>d \<in> set ds. 0 \<le> d \<and> d \<le> 6))"

definition once_ok :: "obj \<Rightarrow> bool" where
  "once_ok s \<longleftrightarrow> (\<exists>date time. field s ''date'' = Some (JStr date) \<and> field s ''time'' = Some (JStr time) \<and>
     validRealDate date \<and> HH_MM time \<and> parseOnceSlot date time \<noteq> None)"

definition cron_ok :: "zone_env \<Rightarrow> string \<Rightarrow> int \<Rightarrow> obj \<Rightarrow> bool" where
  "cron_ok env z now s \<longleftrightarrow> (\<exists>cron. field s ''cron'' = Some (JStr cron) \<and> cron \<noteq> [] \<and> length cron \<le> TASK_CRON_MAX \<and>
     cronNextAt env cron z now \<noteq> None)"

definition schedule_ok :: "zone_env \<Rightarrow> NormalizeOptions \<Rightarrow> obj \<Rightarrow> bool" where
  "schedule_ok env opts s \<longleftrightarrow> (\<exists>z kind. field s ''timezone'' = Some (JStr z) \<and> zoneOrDefault env (Some (JStr z)) opts = z \<and>
     field s ''kind'' = Some (JStr kind) \<and>
     (kind = ''daily'' \<and> times_ok s \<or> kind = ''weekly'' \<and> times_ok s \<and> weekdays_ok s \<or>
      kind = ''once'' \<and> once_ok s \<or> kind = ''cron'' \<and> cron_ok env z (opt_now opts) s))"

lemma times_ok_put: "realTimes raw = Some (ts, time) \<Longrightarrow> field s ''times'' = Some (JArr (map JStr ts)) \<Longrightarrow> times_ok s"
  using realTimes_ok unfolding times_ok_def by blast

lemma weekdays_ok_put:
  "weekdays_of v \<noteq> [] \<Longrightarrow> field s ''weekdays'' = Some (JArr (map JInt (weekdays_of v))) \<Longrightarrow> weekdays_ok s"
  using weekdays_of_ok unfolding weekdays_ok_def by blast

lemma normalizeSchedule_ok:
  assumes "normalizeSchedule env raw opts = Some s"
  shows "schedule_ok env opts s"
proof -
  obtain shape where sh: "record_of raw = Some shape" using assms by (auto simp: normalizeSchedule_def split: option.splits)
  define z where "z = zoneOrDefault env (field shape ''timezone'') opts"
  have z: "zoneOrDefault env (Some (JStr z)) opts = z" by (simp add: z_def zoneOrDefault_fix)
  have eq: "normalizeSchedule env (Some (JObj shape)) opts = Some s"
    using assms sh by (simp add: normalizeSchedule_def)
  have ok: "schedule_ok env opts s"
    if "field s ''timezone'' = Some (JStr z)" "field s ''kind'' = Some (JStr kind)"
      "kind = ''daily'' \<and> times_ok s \<or> kind = ''weekly'' \<and> times_ok s \<and> weekdays_ok s \<or>
       kind = ''once'' \<and> once_ok s \<or> kind = ''cron'' \<and> cron_ok env z (opt_now opts) s" for kind
    unfolding schedule_ok_def using that z by blast
  consider "str_of (field shape ''kind'') = Some ''daily''" | "str_of (field shape ''kind'') = Some ''weekly''"
    | "str_of (field shape ''kind'') = Some ''once''" | "str_of (field shape ''kind'') = Some ''cron''"
    using eq by (auto simp: normalizeSchedule_def Let_def split: if_splits)
  then show ?thesis
  proof cases
    case 1
    then obtain ts time where rt: "realTimes shape = Some (ts, time)"
      and s: "s = put ''time'' (if length ts = 1 \<and> time \<noteq> None \<and> field shape ''times'' = None then map_option JStr time else None)
                   (put ''times'' (Some (JArr (map JStr ts))) (put ''kind'' (Some (JStr ''daily'')) (put ''timezone'' (Some (JStr z)) shape)))"
      using eq by (auto simp: normalizeSchedule_def Let_def z_def)
    have "times_ok s" by (rule times_ok_put [OF rt]) (simp add: s)
    then show ?thesis by (intro ok [of "''daily''"]) (simp_all add: s)
  next
    case 2
    then obtain ts time where rt: "realTimes shape = Some (ts, time)" and w: "weekdays_of (field shape ''weekdays'') \<noteq> []"
      and s: "s = put ''weekdays'' (Some (JArr (map JInt (weekdays_of (field shape ''weekdays'')))))
                   (put ''times'' (Some (JArr (map JStr ts))) (put ''kind'' (Some (JStr ''weekly'')) (put ''timezone'' (Some (JStr z)) shape)))"
      using eq by (auto simp: normalizeSchedule_def Let_def z_def split: option.splits if_splits)
    have "times_ok s" by (rule times_ok_put [OF rt]) (simp add: s)
    moreover have "weekdays_ok s" by (rule weekdays_ok_put [OF w]) (simp add: s)
    ultimately show ?thesis by (intro ok [of "''weekly''"]) (simp_all add: s)
  next
    case 3
    then obtain date time where "validRealDate date" "HH_MM time" "parseOnceSlot date time \<noteq> None"
      and s: "s = put ''time'' (Some (JStr time)) (put ''date'' (Some (JStr date))
                   (put ''kind'' (Some (JStr ''once'')) (put ''timezone'' (Some (JStr z)) shape)))"
      using eq by (auto simp: normalizeSchedule_def Let_def z_def split: option.splits if_splits)
    then show ?thesis by (intro ok [of "''once''"]) (simp_all add: once_ok_def)
  next
    case 4
    then obtain cron where "cron \<noteq> []" "length cron \<le> TASK_CRON_MAX" "cronNextAt env cron z (opt_now opts) \<noteq> None"
      and s: "s = put ''cron'' (Some (JStr cron)) (put ''kind'' (Some (JStr ''cron'')) (put ''timezone'' (Some (JStr z)) shape))"
      using eq by (auto simp: normalizeSchedule_def Let_def z_def split: option.splits if_splits)
    then show ?thesis by (intro ok [of "''cron''"]) (simp_all add: cron_ok_def)
  qed
qed

definition legacy_time :: "obj \<Rightarrow> bool" where
  "legacy_time s \<longleftrightarrow> field s ''kind'' = Some (JStr ''daily'') \<and> field s ''time'' \<noteq> None"

lemma times_ok_again: "times_ok s \<Longrightarrow> \<exists>ts time. field s ''times'' = Some (JArr (map JStr ts)) \<and> realTimes s = Some (ts, time)"
  using realTimes_fix unfolding times_ok_def by blast

lemma weekdays_ok_again:
  assumes "weekdays_ok s"
  shows "\<exists>ds. field s ''weekdays'' = Some (JArr (map JInt ds)) \<and> ds \<noteq> [] \<and> weekdays_of (field s ''weekdays'') = ds"
proof -
  obtain ds where ds: "field s ''weekdays'' = Some (JArr (map JInt ds))" "ds \<noteq> []" "sorted ds" "distinct ds" "\<forall>d \<in> set ds. 0 \<le> d \<and> d \<le> 6"
    using assms unfolding weekdays_ok_def by blast
  then have "weekdays_of (Some (JArr (map JInt ds))) = ds"
    by (simp add: weekdays_of_def map_filter_weekdays distinct_remdups_id sorted_sort_id del: weekday_of.simps)
  then show ?thesis using ds by auto
qed

lemma normalizeSchedule_again:
  assumes "schedule_ok env opts s"
  shows "normalizeSchedule env (Some (JObj s)) opts = Some (if legacy_time s then put ''time'' None s else s)"
proof -
  obtain z kind where z: "field s ''timezone'' = Some (JStr z)" "zoneOrDefault env (Some (JStr z)) opts = z"
    and kind: "field s ''kind'' = Some (JStr kind)"
    and cases: "kind = ''daily'' \<and> times_ok s \<or> kind = ''weekly'' \<and> times_ok s \<and> weekdays_ok s \<or>
       kind = ''once'' \<and> once_ok s \<or> kind = ''cron'' \<and> cron_ok env z (opt_now opts) s"
    using assms unfolding schedule_ok_def by blast
  note step = normalizeSchedule_def Let_def z kind put_same legacy_time_def
  from cases consider "kind = ''daily''" "times_ok s" | "kind = ''weekly''" "times_ok s" "weekdays_ok s"
    | "kind = ''once''" "once_ok s" | "kind = ''cron''" "cron_ok env z (opt_now opts) s" by blast
  then show ?thesis
  proof cases
    case 1
    then show ?thesis using times_ok_again [OF 1(2)] by (auto simp: step)
  next
    case 2
    then obtain ds where "field s ''weekdays'' = Some (JArr (map JInt ds))" "ds \<noteq> []" "weekdays_of (field s ''weekdays'') = ds"
      using weekdays_ok_again by blast
    then show ?thesis using times_ok_again [OF 2(2)] 2(1) by (auto simp: step)
  next
    case 3
    then show ?thesis by (auto simp: step once_ok_def)
  next
    case 4
    then show ?thesis by (auto simp: step cron_ok_def)
  qed
qed

section \<open>Whole tasks\<close>

definition task_of :: "obj \<Rightarrow> string \<Rightarrow> string \<Rightarrow> bool \<Rightarrow> obj \<Rightarrow> obj \<Rightarrow> obj \<Rightarrow> unknown \<Rightarrow> obj" where
  "task_of shape tid nm enabled schedule execution state loopFile =
     put ''loopFile'' loopFile (put ''state'' (Some (JObj state)) (put ''execution'' (Some (JObj execution))
       (put ''schedule'' (Some (JObj schedule)) (put ''enabled'' (Some (JBool enabled))
       (put ''name'' (Some (JStr nm)) (put ''id'' (Some (JStr tid)) shape))))))"

lemma normalizeTask_Inr:
  assumes "normalizeTaskForStorage env raw opts base = Inr t"
  obtains shape tid nm enabled schedule execution where
    "record_of raw = Some shape" "field shape ''id'' = Some (JStr tid)" "TASK_ID tid"
    "\<forall>b. base = Some b \<longrightarrow> b = Some (JStr tid)"
    "field shape ''name'' = Some (JStr nm)" "trim nm \<noteq> []" "length (trim nm) \<le> TASK_NAME_MAX"
    "field shape ''enabled'' = Some (JBool enabled)"
    "normalizeSchedule env (field shape ''schedule'') opts = Some schedule"
    "normalizeExecution (field shape ''execution'') = Some execution"
    "t = task_of shape tid (trim nm) enabled schedule execution (normalizeState (field shape ''state'') opts)
           (map_option JStr (boundedString (field shape ''loopFile'') 1024))"
proof -
  have str: "str_of v = Some x \<Longrightarrow> v = Some (JStr x)" for v x by (cases v rule: str_of.cases) auto
  have bool: "bool_of v = Some b \<Longrightarrow> v = Some (JBool b)" for v b by (cases v rule: bool_of.cases) auto
  obtain shape where shape: "record_of raw = Some shape"
    using assms by (auto simp: normalizeTaskForStorage_def split: option.splits)
  then obtain tid where tid: "str_of (field shape ''id'') = Some tid" "TASK_ID tid" "\<forall>b. base = Some b \<longrightarrow> b = Some (JStr tid)"
    using assms by (cases "str_of (field shape ''id'')"; cases base) (auto simp: normalizeTaskForStorage_def split: if_splits)
  then have base: "\<not> (case base of Some b \<Rightarrow> Some (JStr tid) \<noteq> b | None \<Rightarrow> False)" by (auto split: option.splits)
  obtain nm where nm: "str_of (field shape ''name'') = Some nm" "trim nm \<noteq> []" "length (trim nm) \<le> TASK_NAME_MAX"
    using assms shape tid(1,2) base
    by (cases "str_of (field shape ''name'')") (auto simp: normalizeTaskForStorage_def split: if_splits)
  obtain enabled where en: "bool_of (field shape ''enabled'') = Some enabled"
    using assms shape tid(1,2) base nm by (cases "bool_of (field shape ''enabled'')") (auto simp: normalizeTaskForStorage_def)
  obtain schedule where sch: "normalizeSchedule env (field shape ''schedule'') opts = Some schedule"
    using assms shape tid(1,2) base nm en
    by (cases "normalizeSchedule env (field shape ''schedule'') opts") (auto simp: normalizeTaskForStorage_def)
  obtain execution where ex: "normalizeExecution (field shape ''execution'') = Some execution"
    using assms shape tid(1,2) base nm en sch
    by (cases "normalizeExecution (field shape ''execution'')") (auto simp: normalizeTaskForStorage_def)
  have "t = task_of shape tid (trim nm) enabled schedule execution (normalizeState (field shape ''state'') opts)
           (map_option JStr (boundedString (field shape ''loopFile'') 1024))"
    using assms shape tid(1,2) base nm en sch ex by (simp add: normalizeTaskForStorage_def Let_def task_of_def)
  with that shape str [OF tid(1)] tid(2,3) str [OF nm(1)] nm(2,3) bool [OF en] sch ex show thesis by blast
qed

lemma field_task_of:
  "field (task_of shape tid nm enabled schedule execution state loopFile) k =
     (if k = ''loopFile'' then loopFile else if k = ''state'' then Some (JObj state)
      else if k = ''execution'' then Some (JObj execution) else if k = ''schedule'' then Some (JObj schedule)
      else if k = ''enabled'' then Some (JBool enabled) else if k = ''name'' then Some (JStr nm)
      else if k = ''id'' then Some (JStr tid) else field shape k)"
  by (simp add: task_of_def)

lemma task_of_same:
  assumes "t = task_of shape tid nm enabled schedule execution state loopFile"
  shows "task_of t tid nm enabled schedule' execution state loopFile = put ''schedule'' (Some (JObj schedule')) t"
proof -
  have f: "field t k = (if k = ''loopFile'' then loopFile else if k = ''state'' then Some (JObj state)
      else if k = ''execution'' then Some (JObj execution) else if k = ''schedule'' then Some (JObj schedule)
      else if k = ''enabled'' then Some (JBool enabled) else if k = ''name'' then Some (JStr nm)
      else if k = ''id'' then Some (JStr tid) else field shape k)" for k
    unfolding assms by (rule field_task_of)
  show ?thesis by (simp add: task_of_def put_same f)
qed

lemma normalizeTask_again:
  assumes "normalizeTaskForStorage env raw opts base = Inr t"
  shows "\<exists>schedule. field t ''schedule'' = Some (JObj schedule) \<and>
    normalizeTaskForStorage env (Some (JObj t)) opts (Some (field t ''id'')) =
      Inr (if legacy_time schedule then put ''schedule'' (Some (JObj (put ''time'' None schedule))) t else t)"
proof -
  from assms obtain shape tid nm enabled schedule execution where
    p: "record_of raw = Some shape" "field shape ''id'' = Some (JStr tid)" "TASK_ID tid"
    "\<forall>b. base = Some b \<longrightarrow> b = Some (JStr tid)"
    "field shape ''name'' = Some (JStr nm)" "trim nm \<noteq> []" "length (trim nm) \<le> TASK_NAME_MAX"
    "field shape ''enabled'' = Some (JBool enabled)"
    "normalizeSchedule env (field shape ''schedule'') opts = Some schedule"
    "normalizeExecution (field shape ''execution'') = Some execution"
    and t: "t = task_of shape tid (trim nm) enabled schedule execution (normalizeState (field shape ''state'') opts)
           (map_option JStr (boundedString (field shape ''loopFile'') 1024))"
    by (rule normalizeTask_Inr)
  let ?s = "if legacy_time schedule then put ''time'' None schedule else schedule"
  have f: "field t ''id'' = Some (JStr tid)" "field t ''name'' = Some (JStr (trim nm))" "field t ''enabled'' = Some (JBool enabled)"
    "field t ''schedule'' = Some (JObj schedule)" "field t ''execution'' = Some (JObj execution)"
    "field t ''state'' = Some (JObj (normalizeState (field shape ''state'') opts))"
    "field t ''loopFile'' = map_option JStr (boundedString (field shape ''loopFile'') 1024)"
    by (simp_all add: t field_task_of)
  have "normalizeTaskForStorage env (Some (JObj t)) opts (Some (field t ''id'')) =
      Inr (task_of t tid (trim nm) enabled ?s execution (normalizeState (field shape ''state'') opts)
        (map_option JStr (boundedString (field shape ''loopFile'') 1024)))"
    using p(3,6,7) normalizeSchedule_again [OF normalizeSchedule_ok [OF p(9)]] normalizeExecution_fix [OF p(10)]
    by (simp add: normalizeTaskForStorage_def f Let_def trim_fix normalizeState_fix boundedString_fix(1) flip: task_of_def)
  also have "\<dots> = Inr (put ''schedule'' (Some (JObj ?s)) t)" by (simp only: task_of_same [OF t])
  finally show ?thesis using f(4) by (auto simp: put_same)
qed

text \<open>The bounds of an execution, and the fields each part of a task knows.\<close>

definition text_within :: "obj \<Rightarrow> string \<Rightarrow> nat \<Rightarrow> bool" where
  "text_within o1 k m \<longleftrightarrow> (\<exists>s. field o1 k = Some (JStr s) \<and> s \<noteq> [] \<and> length s \<le> m)"

definition execution_ok :: "obj \<Rightarrow> bool" where
  "execution_ok e \<longleftrightarrow> text_within e ''prompt'' 20000 \<and> text_within e ''providerID'' 256 \<and> text_within e ''modelID'' 256 \<and>
     (field e ''variant'' = None \<or> text_within e ''variant'' 256) \<and> (field e ''agent'' = None \<or> text_within e ''agent'' 256) \<and>
     (field e ''goalEnabled'' = None \<or> (\<exists>b. field e ''goalEnabled'' = Some (JBool b))) \<and>
     (field e ''goalTokenBudget'' = None \<or> field e ''goalEnabled'' = Some (JBool True) \<and>
        (\<exists>n. field e ''goalTokenBudget'' = Some (JInt n) \<and> 0 \<le> n \<and> n \<le> TOKEN_BUDGET_MAX)) \<and>
     field e ''permissionAutoAccept'' = None"

definition TASK_FIELDS :: "string set" where
  "TASK_FIELDS = {''id'', ''name'', ''enabled'', ''schedule'', ''execution'', ''state'', ''loopFile''}"

definition SCHEDULE_FIELDS :: "string set" where
  "SCHEDULE_FIELDS = {''kind'', ''timezone'', ''times'', ''time'', ''weekdays'', ''date'', ''cron''}"

definition EXECUTION_FIELDS :: "string set" where
  "EXECUTION_FIELDS = {''prompt'', ''providerID'', ''modelID'', ''variant'', ''agent'', ''goalEnabled'', ''goalTokenBudget'', ''permissionAutoAccept''}"

definition STATE_FIELDS :: "string set" where
  "STATE_FIELDS = {''createdAt'', ''updatedAt'', ''lastStatus'', ''lastRunAt'', ''lastDurationMs'', ''lastSessionId'', ''nextRunAt'',
     ''lastScheduledFor'', ''lastError'', ''dispatch''}"

definition unknown_kept :: "string set \<Rightarrow> unknown \<Rightarrow> obj \<Rightarrow> bool" where
  "unknown_kept known raw kept \<longleftrightarrow>
     (\<forall>k. k \<notin> known \<longrightarrow> field kept k = (case record_of raw of Some shape \<Rightarrow> field shape k | None \<Rightarrow> None))"

lemma boundedString_within: "text_within o1 k m" if "field o1 k = Some (JStr s)" "boundedString v m = Some s"
  using that by (cases "(v, m)" rule: boundedString.cases) (auto simp: text_within_def split: if_splits)

lemma execution_checked:
  assumes "normalizeExecution raw = Some e"
  shows "execution_ok e" "unknown_kept EXECUTION_FIELDS raw e"
proof -
  obtain shape p pr m where sh: "record_of raw = Some shape"
    and b: "boundedString (field shape ''prompt'') TASK_PROMPT_MAX = Some p"
      "boundedString (field shape ''providerID'') TASK_ROUTE_ID_MAX = Some pr"
      "boundedString (field shape ''modelID'') TASK_ROUTE_ID_MAX = Some m"
    using assms by (auto simp: normalizeExecution_def split: option.splits)
  define goal where "goal = bool_of (field shape ''goalEnabled'')"
  have e: "e = put ''permissionAutoAccept'' None (put ''goalTokenBudget''
        (if goal = Some True then map_option JRat (budget_of (field shape ''goalTokenBudget'')) else None)
      (put ''goalEnabled'' (map_option JBool goal)
      (put ''agent'' (map_option JStr (boundedString (field shape ''agent'') TASK_ROUTE_ID_MAX))
      (put ''variant'' (map_option JStr (boundedString (field shape ''variant'') TASK_ROUTE_ID_MAX))
      (put ''modelID'' (Some (JStr m)) (put ''providerID'' (Some (JStr pr)) (put ''prompt'' (Some (JStr p)) shape)))))))"
    using assms sh b by (simp add: normalizeExecution_def Let_def goal_def)
  have f: "field e ''prompt'' = Some (JStr p)" "field e ''providerID'' = Some (JStr pr)" "field e ''modelID'' = Some (JStr m)"
    "field e ''variant'' = map_option JStr (boundedString (field shape ''variant'') TASK_ROUTE_ID_MAX)"
    "field e ''agent'' = map_option JStr (boundedString (field shape ''agent'') TASK_ROUTE_ID_MAX)"
    "field e ''goalEnabled'' = map_option JBool goal" "field e ''permissionAutoAccept'' = None"
    "field e ''goalTokenBudget'' = (if goal = Some True then map_option JRat (budget_of (field shape ''goalTokenBudget'')) else None)"
    by (simp_all add: e)
  have opt: "field e k = None \<or> text_within e k TASK_ROUTE_ID_MAX"
    if "field e k = map_option JStr (boundedString v TASK_ROUTE_ID_MAX)" for k v
    using that boundedString_within by (cases "boundedString v TASK_ROUTE_ID_MAX") auto
  have bud: "\<exists>n. q = of_int n \<and> 0 \<le> n \<and> n \<le> TOKEN_BUDGET_MAX" if "budget_of v = Some q" for v q
    using that by (auto simp: budget_of_def split: option.splits if_splits)
  have "field e ''goalTokenBudget'' = None \<or> field e ''goalEnabled'' = Some (JBool True) \<and>
      (\<exists>n. field e ''goalTokenBudget'' = Some (JInt n) \<and> 0 \<le> n \<and> n \<le> TOKEN_BUDGET_MAX)"
  proof (cases "goal = Some True")
    case True
    then show ?thesis using f(6,8) bud by (cases "budget_of (field shape ''goalTokenBudget'')") auto
  qed (simp add: f(8))
  then show "execution_ok e"
    using boundedString_within [OF f(1) b(1)] boundedString_within [OF f(2) b(2)] boundedString_within [OF f(3) b(3)]
      opt [OF f(4)] opt [OF f(5)] f(6,7)
    by (cases goal) (simp_all add: execution_ok_def TASK_PROMPT_MAX_def TASK_ROUTE_ID_MAX_def)
  show "unknown_kept EXECUTION_FIELDS raw e" unfolding unknown_kept_def EXECUTION_FIELDS_def sh by (simp add: e)
qed

lemma schedule_unknown_kept:
  assumes "normalizeSchedule env raw opts = Some s"
  shows "unknown_kept SCHEDULE_FIELDS raw s"
proof -
  obtain shape where sh: "record_of raw = Some shape" using assms by (auto simp: normalizeSchedule_def split: option.splits)
  have "field s k = field shape k" if "k \<notin> SCHEDULE_FIELDS" for k
    using assms sh that
    by (auto simp: normalizeSchedule_def Let_def SCHEDULE_FIELDS_def split: if_splits option.splits)
  then show ?thesis by (simp add: unknown_kept_def sh)
qed

lemma state_unknown_kept: "unknown_kept STATE_FIELDS raw (normalizeState raw opts)"
  by (cases "record_of raw") (simp_all add: unknown_kept_def STATE_FIELDS_def normalizeState_def Let_def)

text \<open>C33.
  A normalized task checks out: its id is a legal id (the stored one, on an update), its name is
  trimmed and of 1 to 80 characters, its schedule names real times, days, dates or a live cron
  expression in a zone that reads back; its prompt has 1 to 20000 characters, provider, model and,
  where given, variant and agent 1 to 256, and a token budget is a whole number within its bound
  that comes with an enabled goal. Every field the scheduler does not know is kept as it was, in
  the task and in its schedule, execution and state.
\<close>

theorem normalized_task_is_checked_and_keeps_unknown_fields:
  assumes "normalizeTaskForStorage env raw opts base = Inr t"
  shows "\<exists>shape tid nm schedule execution state. record_of raw = Some shape \<and>
    field t ''id'' = Some (JStr tid) \<and> TASK_ID tid \<and> (\<forall>b. base = Some b \<longrightarrow> b = field t ''id'') \<and>
    field t ''name'' = Some (JStr nm) \<and> trim nm = nm \<and> nm \<noteq> [] \<and> length nm \<le> 80 \<and>
    field t ''schedule'' = Some (JObj schedule) \<and> schedule_ok env opts schedule \<and>
    field t ''execution'' = Some (JObj execution) \<and> execution_ok execution \<and>
    normalizeExecution (Some (JObj execution)) = Some execution \<and>
    field t ''state'' = Some (JObj state) \<and>
    unknown_kept TASK_FIELDS raw t \<and> unknown_kept SCHEDULE_FIELDS (field shape ''schedule'') schedule \<and>
    unknown_kept EXECUTION_FIELDS (field shape ''execution'') execution \<and> unknown_kept STATE_FIELDS (field shape ''state'') state"
proof -
  from assms obtain shape tid nm enabled schedule execution where
    p: "record_of raw = Some shape" "field shape ''id'' = Some (JStr tid)" "TASK_ID tid"
    "\<forall>b. base = Some b \<longrightarrow> b = Some (JStr tid)"
    "field shape ''name'' = Some (JStr nm)" "trim nm \<noteq> []" "length (trim nm) \<le> TASK_NAME_MAX"
    "field shape ''enabled'' = Some (JBool enabled)"
    "normalizeSchedule env (field shape ''schedule'') opts = Some schedule"
    "normalizeExecution (field shape ''execution'') = Some execution"
    and t: "t = task_of shape tid (trim nm) enabled schedule execution (normalizeState (field shape ''state'') opts)
           (map_option JStr (boundedString (field shape ''loopFile'') 1024))"
    by (rule normalizeTask_Inr)
  have "unknown_kept TASK_FIELDS raw t" by (simp add: unknown_kept_def TASK_FIELDS_def p(1) t field_task_of)
  then show ?thesis
    using p normalizeSchedule_ok [OF p(9)] normalizeExecution_fix [OF p(10)] trim_fix [of nm] execution_checked [OF p(10)]
      schedule_unknown_kept [OF p(9)] state_unknown_kept
    by (intro exI [of _ shape] exI [of _ tid] exI [of _ "trim nm"] exI [of _ schedule] exI [of _ execution]
        exI [of _ "normalizeState (field shape ''state'') opts"])
       (simp add: t field_task_of TASK_NAME_MAX_def)
qed

text \<open>
  A stored task stays readable: normalizing a normalized task succeeds and returns the same
  task, field for field and in the same order, but for the old \<open>time\<close> field of a daily
  schedule, which the first pass keeps beside \<open>times\<close> and the second removes.
\<close>

theorem normalized_task_reads_back:
  assumes "normalizeTaskForStorage env raw opts base = Inr t"
  shows "\<exists>schedule. field t ''schedule'' = Some (JObj schedule) \<and>
    normalizeTaskForStorage env (Some (JObj t)) opts (Some (field t ''id'')) =
      Inr (if legacy_time schedule then put ''schedule'' (Some (JObj (put ''time'' None schedule))) t else t)"
  by (rule normalizeTask_again [OF assms])

section \<open>A sample task\<close>

definition sample_opts :: NormalizeOptions where
  "sample_opts = \<lparr>opt_now = 1000, opt_serverZone = ''UTC''\<rparr>"

definition sample_zone :: zone_env where
  "sample_zone = \<lparr>zoneValid = (\<lambda>z. z = ''UTC''), zoneOffset = (\<lambda>_ _. 0), cronTimes = (\<lambda>_ _ _ _. None)\<rparr>"

definition sample_raw :: obj where
  "sample_raw = [(''id'', JStr ''t1''), (''name'', JStr '' daily ''), (''color'', JStr ''red''), (''enabled'', JBool True),
     (''schedule'', JObj [(''kind'', JStr ''daily''), (''times'', JArr [JStr ''09:30'', JStr ''08:00'', JStr ''09:30''])]),
     (''execution'', JObj [(''prompt'', JStr ''go''), (''providerID'', JStr ''p''), (''modelID'', JStr ''m'')])]"

definition sample_task :: obj where
  "sample_task = [(''id'', JStr ''t1''), (''name'', JStr ''daily''), (''color'', JStr ''red''), (''enabled'', JBool True),
     (''schedule'', JObj [(''kind'', JStr ''daily''), (''times'', JArr [JStr ''08:00'', JStr ''09:30'']), (''timezone'', JStr ''UTC'')]),
     (''execution'', JObj [(''prompt'', JStr ''go''), (''providerID'', JStr ''p''), (''modelID'', JStr ''m'')]),
     (''state'', JObj [(''createdAt'', JInt 1000), (''updatedAt'', JInt 1000), (''lastStatus'', JStr ''idle'')])]"

lemma sample_schedule:
  "normalizeSchedule sample_zone (Some (JObj [(''kind'', JStr ''daily''), (''times'', JArr [JStr ''09:30'', JStr ''08:00'', JStr ''09:30''])])) sample_opts =
     Some [(''kind'', JStr ''daily''), (''times'', JArr [JStr ''08:00'', JStr ''09:30'']), (''timezone'', JStr ''UTC'')]"
proof -
  have f: "HH_MM ''09:30''" "HH_MM ''08:00''" by (simp_all add: is_digit_def)
  have "sort (remdups [''09:30'', ''08:00'', ''09:30'']) = [''08:00'', ''09:30'']" by simp
  then show ?thesis
    using f by (simp add: normalizeSchedule_def zoneOrDefault_def sample_zone_def sample_opts_def realTimes_def put_def
        del: HH_MM.simps remdups.simps sort_key_simps)
qed

lemma sample_execution:
  "normalizeExecution (Some (JObj [(''prompt'', JStr ''go''), (''providerID'', JStr ''p''), (''modelID'', JStr ''m'')])) =
     Some [(''prompt'', JStr ''go''), (''providerID'', JStr ''p''), (''modelID'', JStr ''m'')]"
  by (simp add: normalizeExecution_def put_def TASK_PROMPT_MAX_def TASK_ROUTE_ID_MAX_def)

lemma sample_state:
  "normalizeState None sample_opts = [(''createdAt'', JInt 1000), (''updatedAt'', JInt 1000), (''lastStatus'', JStr ''idle'')]"
  by code_simp

lemma sample_id: "TASK_ID ''t1''"
  by (simp add: TASK_ID_def id_char_def is_alnum_def)

lemma sample_normalizes: "normalizeTaskForStorage sample_zone (Some (JObj sample_raw)) sample_opts None = Inr sample_task"
proof -
  have "trim '' daily '' = ''daily''" by (simp add: trim_def trim_start_def trim_end_def js_space_def)
  then show ?thesis
    using sample_id sample_schedule sample_execution sample_state
    by (simp add: normalizeTaskForStorage_def sample_raw_def sample_task_def TASK_NAME_MAX_def put_def)
qed

theorem normalized_task_is_checked_and_keeps_unknown_fields_witness:
  "TASK_ID ''t1'' \<and> field sample_task ''color'' = Some (JStr ''red'') \<and>
    schedule_ok sample_zone sample_opts
      [(''kind'', JStr ''daily''), (''times'', JArr [JStr ''08:00'', JStr ''09:30'']), (''timezone'', JStr ''UTC'')] \<and>
    (\<exists>execution. field sample_task ''execution'' = Some (JObj execution) \<and> text_within execution ''prompt'' 20000)"
  using normalized_task_is_checked_and_keeps_unknown_fields [OF sample_normalizes]
  by (auto simp: sample_raw_def sample_task_def unknown_kept_def TASK_FIELDS_def execution_ok_def)

theorem normalized_task_reads_back_witness:
  "normalizeTaskForStorage sample_zone (Some (JObj sample_task)) sample_opts (Some (Some (JStr ''t1''))) = Inr sample_task"
  using normalized_task_reads_back [OF sample_normalizes] by (auto simp: sample_task_def legacy_time_def)

end
