(* ===== verification/Sched_Loops.thy ===== *)
theory Sched_Loops
  imports Sched_Schema
begin

text \<open>
  Loop files (\<open>server/scheduled/loops.ts\<close>): scheduled tasks defined by markdown files with
  a flat frontmatter, their discovery in the user scope and in the ancestors of the project, and
  the rewrite of the \<open>enabled\<close> key. The file system (\<open>readdir\<close>, \<open>readFile\<close>,
  the presence of \<open>.git\<close>), the platform's path functions and the collation behind
  \<open>localeCompare\<close> are arguments.
\<close>

section \<open>Lines\<close>

abbreviation CR :: char where "CR \<equiv> CHR 0x0D"

fun head_cons :: "char \<Rightarrow> string list \<Rightarrow> string list" where
  "head_cons c (l # ls) = (c # l) # ls"
| "head_cons c [] = [[c]]"

text \<open>\<open>text.split(/\r?\n/u)\<close>.\<close>

fun split_lines :: "string \<Rightarrow> string list" where
  "split_lines [] = [[]]"
| "split_lines (c # cs) =
     (if c = LF then [] # split_lines cs
      else if c = CR \<and> cs \<noteq> [] \<and> List.hd cs = LF then [] # split_lines (tl cs)
      else head_cons c (split_lines cs))"

fun join_lines :: "string \<Rightarrow> string list \<Rightarrow> string" where
  "join_lines eol [] = []"
| "join_lines eol [l] = l"
| "join_lines eol (l # ls) = l @ eol @ join_lines eol ls"

definition fence :: "string \<Rightarrow> bool" where
  "fence line \<longleftrightarrow> trim line = ''---''"

text \<open>The index of the closing fence: the first from 1 on, at 256 at most.\<close>

definition fence_end :: "string list \<Rightarrow> nat option" where
  "fence_end ls =
     (if ls = [] \<or> \<not> fence (ls ! 0) then None
      else find (\<lambda>i. fence (ls ! i)) [1 ..< min (length ls) 257])"

section \<open>Frontmatter\<close>

definition LOOP_TASK_ID_PATTERN :: "string \<Rightarrow> bool" where
  "LOOP_TASK_ID_PATTERN s \<longleftrightarrow> starts_with s ''loop:user:'' \<or> starts_with s ''loop:project:''"

definition LOOP_NAME_LEGAL :: "string \<Rightarrow> bool" where
  "LOOP_NAME_LEGAL s \<longleftrightarrow> s \<noteq> [] \<and> list_all (\<lambda>c. is_alnum c \<or> c \<in> {CHR ''.'', CHR ''_'', CHR ''-''}) s"

definition stripQuotes :: "string \<Rightarrow> string" where
  "stripQuotes v =
     (if length v \<ge> 2 \<and> (List.hd v = CHR 0x22 \<and> List.last v = CHR 0x22 \<or> List.hd v = CHR 0x27 \<and> List.last v = CHR 0x27)
      then butlast (tl v) else v)"

text \<open>The key and value of a line, when its first colon is not its first character.\<close>

definition meta_entry :: "string \<Rightarrow> (string \<times> string) option" where
  "meta_entry line =
     (let key = takeWhile (\<lambda>c. c \<noteq> CHR '':'') line
      in if key = [] \<or> length key = length line then None
         else Some (trim key, stripQuotes (trim (drop (Suc (length key)) line))))"

definition set_entry :: "string \<Rightarrow> (string \<times> string) list \<Rightarrow> (string \<times> string) list" where
  "set_entry line m = (case meta_entry line of None \<Rightarrow> m | Some (k, v) \<Rightarrow> AList.update k v m)"

definition meta_of :: "string list \<Rightarrow> (string \<times> string) list" where
  "meta_of ls = fold set_entry ls []"

definition splitFrontmatter :: "string \<Rightarrow> ((string \<times> string) list \<times> string) option" where
  "splitFrontmatter doc =
     (let ls = split_lines doc
      in case fence_end ls of
           None \<Rightarrow> None
         | Some e \<Rightarrow> Some (meta_of (take (e - 1) (drop 1 ls)), trim (join_lines [LF] (drop (Suc e) ls))))"

section \<open>Loop definitions\<close>

datatype loop_scope = UserScope | ProjectScope

record LoopDefinition =
  ld_name :: string
  ld_cron :: string
  ld_timezone :: string
  ld_prompt :: string
  ld_providerID :: string
  ld_modelID :: string
  ld_agent :: "string option"
  ld_enabled :: bool

record DiscoveredLoop =
  dl_name :: string
  dl_file :: string
  dl_scope :: loop_scope
  dl_definition :: "LoopDefinition option"
  dl_reason :: "string option"

definition loopZoneOrDefault :: "zone_env \<Rightarrow> string option \<Rightarrow> NormalizeOptions \<Rightarrow> string" where
  "loopZoneOrDefault env v opts =
     (case v of Some z \<Rightarrow> if isValidZone env z then z else opt_serverZone opts | None \<Rightarrow> opt_serverZone opts)"

definition boundedAgent :: "string option \<Rightarrow> string option" where
  "boundedAgent v = (case v of Some a \<Rightarrow> if a \<noteq> [] \<and> length a \<le> TASK_ROUTE_ID_MAX then Some a else None | None \<Rightarrow> None)"

definition get_or_empty :: "(string \<times> string) list \<Rightarrow> string \<Rightarrow> string" where
  "get_or_empty m k = (case map_of m k of Some v \<Rightarrow> v | None \<Rightarrow> [])"

text \<open>The model split at its first slash; a slash in front gives nothing.\<close>

definition model_parts :: "string \<Rightarrow> string \<times> string" where
  "model_parts model =
     (let provider = takeWhile (\<lambda>c. c \<noteq> CHR ''/'') model
      in if provider = [] \<or> length provider = length model then ([], [])
         else (provider, drop (Suc (length provider)) model))"

definition loop_fail :: "string \<Rightarrow> string \<Rightarrow> DiscoveredLoop" where
  "loop_fail nm reason =
     \<lparr>dl_name = nm, dl_file = [], dl_scope = ProjectScope, dl_definition = None, dl_reason = Some reason\<rparr>"

definition parseLoopFile :: "zone_env \<Rightarrow> string \<Rightarrow> NormalizeOptions \<Rightarrow> DiscoveredLoop" where
  "parseLoopFile env doc opts =
     (case splitFrontmatter doc of
        None \<Rightarrow> loop_fail [] ''loop file has no frontmatter block''
      | Some (m, body) \<Rightarrow>
          let nm = trim (get_or_empty m ''name'');
              cron = trim (get_or_empty m ''schedule'');
              zone = loopZoneOrDefault env (map_of m ''timezone'') opts;
              (providerID, modelID) = model_parts (get_or_empty m ''model'')
          in if nm = [] \<or> length nm > TASK_NAME_MAX then loop_fail [] ''loop name must be 1..80 characters''
             else if \<not> LOOP_NAME_LEGAL nm then loop_fail nm ''loop name is not a legal task id segment''
             else if cron = [] \<or> length cron > TASK_CRON_MAX then loop_fail nm ''loop schedule is missing or too long''
             else if cronNextAt env cron zone (opt_now opts) = None
               then loop_fail nm ''loop schedule is not a valid cron expression''
             else if providerID = [] \<or> length providerID > TASK_ROUTE_ID_MAX \<or> modelID = [] \<or> length modelID > TASK_ROUTE_ID_MAX
               then loop_fail nm ''loop model must be a providerID/modelID pair split on the first slash''
             else if body = [] \<or> length body > TASK_PROMPT_MAX then loop_fail nm ''loop body (the prompt) is required''
             else \<lparr>dl_name = nm, dl_file = [], dl_scope = ProjectScope,
                   dl_definition = Some \<lparr>ld_name = nm, ld_cron = cron, ld_timezone = zone, ld_prompt = body,
                     ld_providerID = providerID, ld_modelID = modelID, ld_agent = boundedAgent (map_of m ''agent''),
                     ld_enabled = (map_of m ''enabled'' = Some ''true'')\<rparr>,
                   dl_reason = None\<rparr>)"

fun scope_name :: "loop_scope \<Rightarrow> string" where
  "scope_name UserScope = ''user''"
| "scope_name ProjectScope = ''project''"

definition loopTaskId :: "DiscoveredLoop \<Rightarrow> string" where
  "loopTaskId l = ''loop:'' @ scope_name (dl_scope l) @ '':'' @ dl_name l"

definition loopStoredRecord :: "unknown \<Rightarrow> obj" where
  "loopStoredRecord v = (case record_of v of Some kvs \<Rightarrow> kvs | None \<Rightarrow> [])"

text \<open>The task a loop drives; \<open>None\<close> where the code throws.\<close>

definition loopTaskInput :: "DiscoveredLoop \<Rightarrow> unknown \<Rightarrow> string option \<Rightarrow> obj option" where
  "loopTaskInput l stored tid =
     (case dl_definition l of
        None \<Rightarrow> None
      | Some d \<Rightarrow>
          let base = loopStoredRecord stored;
              e1 = put ''modelID'' (Some (JStr (ld_modelID d))) (put ''providerID'' (Some (JStr (ld_providerID d)))
                     (put ''prompt'' (Some (JStr (ld_prompt d))) (loopStoredRecord (field base ''execution''))));
              execution = (case ld_agent d of Some a \<Rightarrow> put ''agent'' (Some (JStr a)) e1 | None \<Rightarrow> e1);
              schedule = [(''kind'', JStr ''cron''), (''cron'', JStr (ld_cron d)), (''timezone'', JStr (ld_timezone d))]
          in Some (put ''loopFile'' (Some (JStr (dl_file l))) (put ''execution'' (Some (JObj execution))
               (put ''schedule'' (Some (JObj schedule)) (put ''enabled'' (Some (JBool (ld_enabled d)))
               (put ''name'' (Some (JStr (ld_name d)))
               (put ''id'' (Some (JStr (case tid of Some i \<Rightarrow> i | None \<Rightarrow> loopTaskId l))) base)))))))"

section \<open>Discovery\<close>

record loop_fs =
  fs_hasGit :: "string \<Rightarrow> bool"
  fs_dirname :: "string \<Rightarrow> string"
  fs_join :: "string \<Rightarrow> string \<Rightarrow> string"
  fs_readdir :: "string \<Rightarrow> string list option"
  fs_readFile :: "string \<Rightarrow> string option"
  fs_collate :: "string \<Rightarrow> string \<Rightarrow> int"

fun loop_ancestors :: "loop_fs \<Rightarrow> nat \<Rightarrow> string \<Rightarrow> string list" where
  "loop_ancestors fs 0 current = []"
| "loop_ancestors fs (Suc n) current =
     current # (if fs_hasGit fs current \<or> fs_dirname fs current = current then []
                else loop_ancestors fs n (fs_dirname fs current))"

definition projectLoopAncestors :: "loop_fs \<Rightarrow> string \<Rightarrow> string list" where
  "projectLoopAncestors fs path = loop_ancestors fs 96 path"

record RawLoop =
  rl_file :: string
  rl_scope :: loop_scope
  rl_text :: string

definition ends_with :: "string \<Rightarrow> string \<Rightarrow> bool" where
  "ends_with s p \<longleftrightarrow> starts_with (rev s) (rev p)"

definition scanLoopDir :: "loop_fs \<Rightarrow> string \<Rightarrow> loop_scope \<Rightarrow> RawLoop list" where
  "scanLoopDir fs dir scope =
     (case fs_readdir fs dir of
        None \<Rightarrow> []
      | Some names \<Rightarrow>
          List.map_filter (\<lambda>entry. map_option (\<lambda>doc. \<lparr>rl_file = fs_join fs dir entry, rl_scope = scope, rl_text = doc\<rparr>)
              (fs_readFile fs (fs_join fs dir entry)))
            (sort (filter (\<lambda>entry. ends_with entry ''.md'') names)))"

definition ranked_loops :: "loop_fs \<Rightarrow> string option \<Rightarrow> string \<Rightarrow> RawLoop list" where
  "ranked_loops fs path userLoopsDir =
     scanLoopDir fs userLoopsDir UserScope @
     concat (map (\<lambda>a. scanLoopDir fs (fs_join fs (fs_join fs a ''.agents'') ''loops'') ProjectScope)
       (rev (case path of Some p \<Rightarrow> projectLoopAncestors fs p | None \<Rightarrow> [])))"

definition parse_raw :: "zone_env \<Rightarrow> NormalizeOptions \<Rightarrow> RawLoop \<Rightarrow> DiscoveredLoop" where
  "parse_raw env opts raw = (parseLoopFile env (rl_text raw) opts)\<lparr>dl_file := rl_file raw, dl_scope := rl_scope raw\<rparr>"

definition by_name :: "DiscoveredLoop list \<Rightarrow> (string \<times> DiscoveredLoop) list" where
  "by_name ls = fold (\<lambda>l m. if dl_name l = [] then m else AList.update (dl_name l) l m) ls []"

text \<open>\<open>a.name.localeCompare(b.name) || a.file.localeCompare(b.file)\<close>.\<close>

definition loop_before :: "loop_fs \<Rightarrow> DiscoveredLoop \<Rightarrow> DiscoveredLoop \<Rightarrow> bool" where
  "loop_before fs a b =
     (let n = fs_collate fs (dl_name a) (dl_name b)
      in (if n \<noteq> 0 then n else fs_collate fs (dl_file a) (dl_file b)) \<le> 0)"

fun insert_by :: "('a \<Rightarrow> 'a \<Rightarrow> bool) \<Rightarrow> 'a \<Rightarrow> 'a list \<Rightarrow> 'a list" where
  "insert_by le x [] = [x]"
| "insert_by le x (y # ys) = (if le x y then x # y # ys else y # insert_by le x ys)"

definition discoverLoops :: "zone_env \<Rightarrow> loop_fs \<Rightarrow> string option \<Rightarrow> NormalizeOptions \<Rightarrow> string \<Rightarrow> DiscoveredLoop list" where
  "discoverLoops env fs path opts userLoopsDir =
     foldr (insert_by (loop_before fs))
       (map snd (by_name (map (parse_raw env opts) (ranked_loops fs path userLoopsDir)))) []"

section \<open>The enabled toggle\<close>

definition enabled_line :: "string \<Rightarrow> bool" where
  "enabled_line line \<longleftrightarrow> starts_with line ''enabled'' \<and> starts_with (dropWhile js_space (drop 7 line)) '':''"

definition flag_line :: "bool \<Rightarrow> string" where
  "flag_line enabled = ''enabled: '' @ (if enabled then ''true'' else ''false'')"

fun has_crlf :: "string \<Rightarrow> bool" where
  "has_crlf (a # b # cs) \<longleftrightarrow> a = CR \<and> b = LF \<or> has_crlf (b # cs)"
| "has_crlf _ \<longleftrightarrow> False"

definition rewrite_lines :: "bool \<Rightarrow> nat \<Rightarrow> string list \<Rightarrow> string list" where
  "rewrite_lines enabled e ls =
     (case find (\<lambda>i. enabled_line (ls ! i)) [1 ..< e] of
        Some i \<Rightarrow> ls[i := flag_line enabled]
      | None \<Rightarrow> take e ls @ flag_line enabled # drop e ls)"

definition writeLoopEnabled :: "string \<Rightarrow> bool \<Rightarrow> string option" where
  "writeLoopEnabled doc enabled =
     (let ls = split_lines doc
      in case fence_end ls of
           None \<Rightarrow> None
         | Some e \<Rightarrow> Some (join_lines (if has_crlf doc then [CR, LF] else [LF]) (rewrite_lines enabled e ls)))"

section \<open>Splitting and joining lines\<close>

lemma head_cons_eq [simp]: "ls \<noteq> [] \<Longrightarrow> head_cons c ls = (c # List.hd ls) # tl ls"
  by (cases ls) simp_all

lemma split_lines_nonempty [simp]: "split_lines s \<noteq> []"
  by (induction s rule: split_lines.induct) auto

lemma split_lines_LF_free: "l \<in> set (split_lines s) \<Longrightarrow> LF \<notin> set l"
proof (induction s arbitrary: l rule: split_lines.induct)
  case (2 c cs)
  have ne: "List.hd (split_lines cs) \<in> set (split_lines cs)" "set (tl (split_lines cs)) \<subseteq> set (split_lines cs)"
    by (simp_all add: list.set_sel(2) subsetI)
  show ?case
    using 2 ne by (auto split: if_splits simp: subset_iff)
qed simp

lemma split_line_LF:
  "LF \<notin> set l \<Longrightarrow> l = [] \<or> List.last l \<noteq> CR \<Longrightarrow> split_lines (l @ LF # r) = l # split_lines r"
proof (induction l)
  case (Cons c l)
  then have IH: "split_lines (l @ LF # r) = l # split_lines r" by (cases l) auto
  have "\<not> (c = CR \<and> List.hd (l @ LF # r) = LF)" using Cons.prems by (cases l) auto
  then show ?case using Cons.prems(1) IH by auto
qed simp

lemma split_line_CRLF: "LF \<notin> set l \<Longrightarrow> split_lines (l @ CR # LF # r) = l # split_lines r"
proof (induction l)
  case (Cons c l)
  have "List.hd (l @ CR # LF # r) \<noteq> LF" using Cons.prems by (cases l) auto
  then show ?case using Cons by auto
qed simp

lemma split_line_only: "LF \<notin> set l \<Longrightarrow> split_lines l = [l]"
proof (induction l)
  case (Cons c l)
  then have "\<not> (l \<noteq> [] \<and> List.hd l = LF)" by (cases l) auto
  then show ?case using Cons by auto
qed simp

lemma split_join:
  assumes "ls \<noteq> []" "\<forall>l \<in> set ls. LF \<notin> set l"
    and "eol = [CR, LF] \<or> eol = [LF] \<and> (\<forall>l \<in> set (butlast ls). l = [] \<or> List.last l \<noteq> CR)"
  shows "split_lines (join_lines eol ls) = ls"
  using assms
proof (induction eol ls rule: join_lines.induct)
  case (3 eol l l' ls)
  from 3(4) show ?case
  proof
    assume e: "eol = [CR, LF]"
    then show ?thesis using 3(1,3) split_line_CRLF [of l "join_lines eol (l' # ls)"] by simp
  next
    assume e: "eol = [LF] \<and> (\<forall>x \<in> set (butlast (l # l' # ls)). x = [] \<or> List.last x \<noteq> CR)"
    then have "split_lines (join_lines eol (l' # ls)) = l' # ls" using 3(1,3) by (auto split: if_splits)
    then show ?thesis using e 3(3) split_line_LF [of l "join_lines eol (l' # ls)"] by simp
  qed
qed (simp_all add: split_line_only)

lemma has_crlf_Cons: "has_crlf (c # cs) \<longleftrightarrow> c = CR \<and> cs \<noteq> [] \<and> List.hd cs = LF \<or> has_crlf cs"
  by (cases cs) simp_all

lemma split_lines_first_empty:
  "split_lines s = [] # ls \<Longrightarrow> ls \<noteq> [] \<Longrightarrow> \<exists>r. s = LF # r \<or> s = CR # LF # r"
  by (cases s) (auto split: if_splits, metis list.exhaust_sel)

lemma split_lines_no_CR:
  assumes "\<not> has_crlf s" "l \<in> set (butlast (split_lines s))"
  shows "l = [] \<or> List.last l \<noteq> CR"
  using assms
proof (induction s arbitrary: l rule: split_lines.induct)
  case (2 c cs)
  have nc: "\<not> has_crlf cs" "\<not> (c = CR \<and> cs \<noteq> [] \<and> List.hd cs = LF)" using 2(4) by (auto simp: has_crlf_Cons)
  show ?case
  proof (cases "c = LF")
    case True
    then show ?thesis using 2(1) [OF True nc(1)] 2(5) by (auto split: if_splits)
  next
    case False
    obtain f fs where ls: "split_lines cs = f # fs" by (cases "split_lines cs") auto
    note IH = 2(3) [OF False nc(2) nc(1)]
    have mem: "l \<in> set (butlast ((c # f) # fs))" using 2(5) False nc(2) ls by (auto split: if_splits)
    show ?thesis
    proof (cases "fs = []")
      case True
      then show ?thesis using mem by simp
    next
      case fs: False
      have "c \<noteq> CR" if "f = []" using split_lines_first_empty [of cs fs] ls fs that nc by (auto simp: has_crlf_Cons)
      then show ?thesis using mem IH [of f] IH [of l] ls fs by (auto split: if_splits)
    qed
  qed
qed simp

section \<open>The toggle rewrites one key\<close>

lemma find_upt:
  "find P [a ..< b] = Some i \<longleftrightarrow> a \<le> i \<and> i < b \<and> P i \<and> (\<forall>j. a \<le> j \<and> j < i \<longrightarrow> \<not> P j)"
proof (induction "b - a" arbitrary: a)
  case (Suc n)
  have up: "[a ..< b] = a # [Suc a ..< b]" using Suc(2) by (simp add: upt_conv_Cons)
  have IH: "find P [Suc a ..< b] = Some i \<longleftrightarrow> Suc a \<le> i \<and> i < b \<and> P i \<and> (\<forall>j. Suc a \<le> j \<and> j < i \<longrightarrow> \<not> P j)"
    by (rule Suc(1)) (use Suc(2) in simp)
  have split: "(\<forall>j. a \<le> j \<and> j < i \<longrightarrow> \<not> P j) \<longleftrightarrow> (a < i \<longrightarrow> \<not> P a) \<and> (\<forall>j. Suc a \<le> j \<and> j < i \<longrightarrow> \<not> P j)"
  proof -
    have "a \<le> j \<and> j < i \<longleftrightarrow> j = a \<and> a < i \<or> Suc a \<le> j \<and> j < i" for j by linarith
    then show ?thesis by (simp only:) blast
  qed
  show ?case
  proof (cases "P a")
    case True
    then show ?thesis using Suc(2) by (auto simp: up)
  next
    case False
    then show ?thesis using IH split by (auto simp: up Suc_le_eq le_less)
  qed
qed auto

lemma fence_end_Some:
  "fence_end ls = Some e \<longleftrightarrow> ls \<noteq> [] \<and> fence (ls ! 0) \<and> 1 \<le> e \<and> e < length ls \<and> e \<le> 256 \<and> fence (ls ! e) \<and>
     (\<forall>i. 1 \<le> i \<and> i < e \<longrightarrow> \<not> fence (ls ! i))"
  by (auto simp: fence_end_def find_upt)

lemma flag_facts:
  "\<not> fence (flag_line b)" "LF \<notin> set (flag_line b)" "List.last (flag_line b) \<noteq> CR"
  "meta_entry (flag_line b) = Some (''enabled'', if b then ''true'' else ''false'')"
  by (cases b; simp add: flag_line_def fence_def trim_def trim_start_def trim_end_def js_space_def meta_entry_def
      stripQuotes_def)+

definition sets_key :: "string \<Rightarrow> string \<Rightarrow> string option" where
  "sets_key k line = (case meta_entry line of Some (k', v) \<Rightarrow> if k' = k then Some v else None | None \<Rightarrow> None)"

lemma starts_with_split: "starts_with s p \<Longrightarrow> s = p @ drop (length p) s"
  by (metis append_take_drop_id starts_with_def)

lemma enabled_line_sets:
  assumes "enabled_line line"
  shows "sets_key ''enabled'' line \<noteq> None"
proof -
  define r where "r = drop 7 line"
  have r: "line = ''enabled'' @ r" "starts_with (dropWhile js_space r) '':''"
    using assms starts_with_split [of line "''enabled''"] by (simp_all add: enabled_line_def r_def numeral_eq_Suc)
  obtain q where q: "dropWhile js_space r = CHR '':'' # q"
    using r(2) by (cases "dropWhile js_space r") (auto simp: starts_with_def)
  define ws where "ws = takeWhile js_space r"
  have ws: "\<forall>c \<in> set ws. js_space c" "r = ws @ CHR '':'' # q"
    unfolding ws_def q [symmetric] by (blast dest: set_takeWhileD, rule takeWhile_dropWhile_id [symmetric])
  have "\<not> js_space (CHR '':'')" by (simp add: js_space_def)
  then have nocolon: "\<forall>c \<in> set ws. c \<noteq> CHR '':''" using ws(1) by metis
  then have key: "takeWhile (\<lambda>c. c \<noteq> CHR '':'') line = ''enabled'' @ ws"
    unfolding r(1) ws(2) by simp
  have "dropWhile js_space (rev ws @ x) = dropWhile js_space x" for x
    using ws(1) by (intro dropWhile_append2) auto
  then have "trim (''enabled'' @ ws) = ''enabled''"
    by (simp add: trim_def trim_start_def trim_end_def js_space_def)
  then show ?thesis using key by (simp add: sets_key_def meta_entry_def Let_def r(1) ws(2))
qed

lemma map_of_meta:
  "map_of (fold set_entry ls m) k = fold (\<lambda>l acc. case sets_key k l of Some v \<Rightarrow> Some v | None \<Rightarrow> acc) ls (map_of m k)"
  by (induction ls arbitrary: m) (auto simp: set_entry_def sets_key_def update_conv split: option.splits)

lemma fold_quiet:
  "\<forall>l \<in> set ls. sets_key k l = None \<Longrightarrow>
     fold (\<lambda>l acc. case sets_key k l of Some v \<Rightarrow> Some v | None \<Rightarrow> acc) ls acc = acc"
  by (induction ls) auto

text \<open>The metadata after a rewrite in place and after a line added at the end.\<close>

lemma meta_replaced:
  assumes "\<forall>l \<in> set (A @ B). sets_key ''enabled'' l = None" "sets_key ''enabled'' old \<noteq> None"
    and "meta_entry new = Some (''enabled'', v)"
  shows "map_of (meta_of (A @ new # B)) k = (if k = ''enabled'' then Some v else map_of (meta_of (A @ old # B)) k)"
proof (cases "k = ''enabled''")
  case True
  have "sets_key ''enabled'' new = Some v" using assms(3) by (simp add: sets_key_def)
  then show ?thesis using True assms(1) unfolding meta_of_def map_of_meta by (simp add: fold_quiet)
next
  case False
  then have "sets_key k old = None" "sets_key k new = None"
    using assms(2,3) by (auto simp: sets_key_def split: option.splits if_splits)
  then show ?thesis using False unfolding meta_of_def map_of_meta by simp
qed

lemma meta_appended:
  assumes "meta_entry new = Some (''enabled'', v)"
  shows "map_of (meta_of (ls @ [new])) k = (if k = ''enabled'' then Some v else map_of (meta_of ls) k)"
  using assms by (simp add: meta_of_def set_entry_def update_conv)

lemma rewrite_keeps_lines:
  assumes "e < length ls"
  shows "set (butlast (rewrite_lines b e ls)) \<subseteq> insert (flag_line b) (set (butlast ls))"
    and "set (rewrite_lines b e ls) \<subseteq> insert (flag_line b) (set ls)" "rewrite_lines b e ls \<noteq> []"
proof -
  let ?f = "flag_line b"
  have up: "set (ls[i := ?f]) \<subseteq> insert ?f (set ls)" "set (butlast (ls[i := ?f])) \<subseteq> insert ?f (set (butlast ls))" for i
    by (simp_all add: butlast_list_update set_update_subset_insert subset_insertI)
  have ne: "drop e ls \<noteq> []" using assms by simp
  have "butlast (take e ls @ ?f # drop e ls) = take e ls @ ?f # butlast (drop e ls)" using ne by (simp add: butlast_append)
  moreover have "set (butlast ls) = set (take e ls) \<union> set (butlast (drop e ls))"
    using ne by (metis append_take_drop_id butlast_append set_append)
  moreover have "set ls = set (take e ls) \<union> set (drop e ls)" by (metis append_take_drop_id set_append)
  ultimately have ins: "set (take e ls @ ?f # drop e ls) \<subseteq> insert ?f (set ls)"
    "set (butlast (take e ls @ ?f # drop e ls)) \<subseteq> insert ?f (set (butlast ls))" by simp_all
  have "ls \<noteq> []" using assms by auto
  then show "set (butlast (rewrite_lines b e ls)) \<subseteq> insert ?f (set (butlast ls))"
    "set (rewrite_lines b e ls) \<subseteq> insert ?f (set ls)" "rewrite_lines b e ls \<noteq> []"
    using up ins by (simp_all add: rewrite_lines_def split: option.split)
qed

lemma split_written:
  assumes "writeLoopEnabled doc b = Some doc'" "fence_end (split_lines doc) = Some e"
  shows "split_lines doc' = rewrite_lines b e (split_lines doc)"
proof -
  let ?ls = "split_lines doc" and ?eol = "if has_crlf doc then [CR, LF] else [LF]"
  have e: "e < length ?ls" using assms(2) by (simp add: fence_end_Some)
  note keep = rewrite_keeps_lines [OF e, of b]
  have doc': "doc' = join_lines ?eol (rewrite_lines b e ?ls)" using assms by (simp add: writeLoopEnabled_def Let_def)
  have "LF \<notin> set l" if "l \<in> set (rewrite_lines b e ?ls)" for l
    using subsetD [OF keep(2) that] flag_facts(2) split_lines_LF_free [of l doc] by auto
  moreover have "List.last l \<noteq> CR \<or> l = []" if "\<not> has_crlf doc" "l \<in> set (butlast (rewrite_lines b e ?ls))" for l
    using subsetD [OF keep(1) that(2)] flag_facts(3) split_lines_no_CR [OF that(1), of l] by auto
  ultimately show ?thesis
    unfolding doc' by (intro split_join keep(3)) auto
qed

lemma rewrite_front:
  assumes "fence_end ls = Some e" "length (filter (\<lambda>l. sets_key ''enabled'' l \<noteq> None) (take (e - 1) (drop 1 ls))) \<le> 1" "e < 256"
  shows "\<exists>e'. fence_end (rewrite_lines b e ls) = Some e' \<and> drop (Suc e') (rewrite_lines b e ls) = drop (Suc e) ls \<and>
    (\<forall>k. map_of (meta_of (take (e' - 1) (drop 1 (rewrite_lines b e ls)))) k =
       (if k = ''enabled'' then Some (if b then ''true'' else ''false'') else map_of (meta_of (take (e - 1) (drop 1 ls))) k))"
proof -
  note e = assms(1) [unfolded fence_end_Some]
  let ?M = "take (e - 1) (drop 1 ls)"
  show ?thesis
  proof (cases "find (\<lambda>i. enabled_line (ls ! i)) [1 ..< e]")
    case None
    have new: "rewrite_lines b e ls = take e ls @ flag_line b # drop e ls"
      by (simp only: rewrite_lines_def None option.case)
    have "fence_end (rewrite_lines b e ls) = Some (Suc e)"
      unfolding fence_end_Some new using e assms(3) flag_facts(1) by (auto simp: nth_append nth_Cons' less_Suc_eq)
    moreover have "take (Suc e - 1) (drop 1 (rewrite_lines b e ls)) = ?M @ [flag_line b]"
      using e unfolding new by (cases ls; cases e) (auto simp: take_drop)
    moreover have "drop (Suc (Suc e)) (rewrite_lines b e ls) = drop (Suc e) ls"
      using e unfolding new by simp
    ultimately show ?thesis using meta_appended [OF flag_facts(4)] by (intro exI [of _ "Suc e"]) simp
  next
    case (Some i)
    then have i: "1 \<le> i" "i < e" "enabled_line (ls ! i)" by (auto simp: find_upt)
    have new: "rewrite_lines b e ls = ls[i := flag_line b]" by (simp only: rewrite_lines_def Some option.case)
    have "fence_end (rewrite_lines b e ls) = Some e"
      unfolding fence_end_Some new using e i flag_facts(1) by (auto simp: nth_list_update)
    moreover have "drop (Suc e) (rewrite_lines b e ls) = drop (Suc e) ls" using i unfolding new by simp
    moreover
    define A B where "A = take (i - 1) ?M" and "B = drop (Suc (i - 1)) ?M"
    have len: "i - 1 < length ?M" using e i by (auto simp: less_diff_conv)
    have at: "?M ! (i - 1) = ls ! i" using e i by (simp del: drop_take)
    have M: "?M = A @ ls ! i # B"
      unfolding A_def B_def at [symmetric] by (rule id_take_nth_drop [OF len])
    have "take (e - 1) (drop 1 (rewrite_lines b e ls)) = ?M[i - 1 := flag_line b]"
      unfolding new using i by (simp only: drop_update_swap take_update_swap)
    then have M': "take (e - 1) (drop 1 (rewrite_lines b e ls)) = A @ flag_line b # B"
      unfolding A_def B_def by (simp only: upd_conv_take_nth_drop [OF len])
    have "\<forall>l \<in> set (A @ B). sets_key ''enabled'' l = None"
      using assms(2) enabled_line_sets [OF i(3)] unfolding M by (auto simp: filter_empty_conv)
    then have "map_of (meta_of (A @ flag_line b # B)) k =
        (if k = ''enabled'' then Some (if b then ''true'' else ''false'') else map_of (meta_of (A @ ls ! i # B)) k)" for k
      by (rule meta_replaced [OF _ enabled_line_sets [OF i(3)] flag_facts(4)])
    ultimately show ?thesis unfolding M by (intro exI [of _ e] conjI allI) (simp_all only: M')
  qed
qed

text \<open>The metadata lines of a document.\<close>

definition meta_lines :: "string \<Rightarrow> string list" where
  "meta_lines doc = (case fence_end (split_lines doc) of None \<Rightarrow> [] | Some e \<Rightarrow> take (e - 1) (drop 1 (split_lines doc)))"

lemma front_written:
  assumes "writeLoopEnabled doc b = Some doc'" "fence_end (split_lines doc) \<noteq> Some 256"
    and "length (filter (\<lambda>l. sets_key ''enabled'' l \<noteq> None) (meta_lines doc)) \<le> 1"
  shows "\<exists>m m' body. splitFrontmatter doc = Some (m, body) \<and> splitFrontmatter doc' = Some (m', body) \<and>
    (\<forall>k. map_of m' k = (if k = ''enabled'' then Some (if b then ''true'' else ''false'') else map_of m k))"
proof -
  obtain e where e: "fence_end (split_lines doc) = Some e"
    using assms(1) by (auto simp: writeLoopEnabled_def Let_def split: option.splits)
  moreover have "e < 256" using e assms(2) by (auto simp: fence_end_Some)
  ultimately obtain e' where "fence_end (split_lines doc') = Some e'" "drop (Suc e') (split_lines doc') = drop (Suc e) (split_lines doc)"
    "\<forall>k. map_of (meta_of (take (e' - 1) (drop 1 (split_lines doc')))) k =
       (if k = ''enabled'' then Some (if b then ''true'' else ''false'') else map_of (meta_of (take (e - 1) (drop 1 (split_lines doc)))) k)"
    using rewrite_front [OF e _ \<open>e < 256\<close>, of b] assms(3) split_written [OF assms(1) e] by (auto simp: meta_lines_def)
  then show ?thesis using e by (simp add: splitFrontmatter_def Let_def)
qed

text \<open>
  Rewriting the \<open>enabled\<close> key of a loop file reads back: the rewritten document parses to the
  same loop with only the flag changed, its other keys, its body and its line ends kept, when
  at most one metadata line sets the key and the block has room for one more line.
\<close>

theorem loop_toggle_reads_back:
  assumes "writeLoopEnabled doc b = Some doc'" "fence_end (split_lines doc) \<noteq> Some 256"
    and "length (filter (\<lambda>l. sets_key ''enabled'' l \<noteq> None) (meta_lines doc)) \<le> 1"
  shows "parseLoopFile env doc' opts =
    (parseLoopFile env doc opts)\<lparr>dl_definition := map_option (\<lambda>d. d\<lparr>ld_enabled := b\<rparr>) (dl_definition (parseLoopFile env doc opts))\<rparr>"
proof -
  obtain m m' body where s: "splitFrontmatter doc = Some (m, body)" "splitFrontmatter doc' = Some (m', body)"
    and k: "\<And>k. map_of m' k = (if k = ''enabled'' then Some (if b then ''true'' else ''false'') else map_of m k)"
    using front_written [OF assms] by blast
  have g: "k \<noteq> ''enabled'' \<Longrightarrow> get_or_empty m' k = get_or_empty m k" for k by (simp add: get_or_empty_def k)
  show ?thesis
    by (simp add: parseLoopFile_def s Let_def g k loop_fail_def split: prod.split)
qed

definition loop_doc :: string where
  "loop_doc = ''---'' @ LF # ''name: tidy'' @ LF # ''schedule: daily'' @ LF # ''model: a/b'' @ LF # ''enabled : true'' @ LF # ''---'' @ LF # ''Do it.''"

definition loop_zone :: zone_env where
  "loop_zone = \<lparr>zoneValid = (\<lambda>z. z = ''UTC''), zoneOffset = (\<lambda>_ _. 0), cronTimes = (\<lambda>_ _ now _. Some (now + 60000))\<rparr>"

theorem loop_toggle_reads_back_witness:
  "\<exists>doc'. writeLoopEnabled loop_doc False = Some doc' \<and>
     map_option ld_enabled (dl_definition (parseLoopFile loop_zone loop_doc sample_opts)) = Some True \<and>
     map_option ld_enabled (dl_definition (parseLoopFile loop_zone doc' sample_opts)) = Some False"
proof -
  have w: "writeLoopEnabled loop_doc False \<noteq> None" "fence_end (split_lines loop_doc) \<noteq> Some 256"
    "length (filter (\<lambda>l. sets_key ''enabled'' l \<noteq> None) (meta_lines loop_doc)) \<le> 1"
    "map_option ld_enabled (dl_definition (parseLoopFile loop_zone loop_doc sample_opts)) = Some True"
    by code_simp+
  then obtain doc' where d: "writeLoopEnabled loop_doc False = Some doc'" by blast
  show ?thesis using loop_toggle_reads_back [OF d w(2,3), of loop_zone sample_opts] d w(4) by auto
qed

text \<open>
  With two \<open>enabled\<close> lines the rewrite changes the first and the parser reads the last, so a
  loop switched off in the panel keeps running.
\<close>

theorem loop_toggle_misses_duplicate:
  "\<exists>doc'. writeLoopEnabled (''---'' @ LF # ''enabled: true'' @ LF # ''name: tidy'' @ LF # ''schedule: daily'' @ LF # ''model: a/b'' @
       LF # ''enabled: true'' @ LF # ''---'' @ LF # ''Do it.'') False = Some doc' \<and>
     map_option ld_enabled (dl_definition (parseLoopFile loop_zone doc' sample_opts)) = Some True"
proof -
  define doc where "doc = ''---'' @ LF # ''enabled: true'' @ LF # ''name: tidy'' @ LF # ''schedule: daily'' @ LF # ''model: a/b'' @
       LF # ''enabled: true'' @ LF # ''---'' @ LF # ''Do it.''"
  have "(case writeLoopEnabled doc False of None \<Rightarrow> False
     | Some doc' \<Rightarrow> map_option ld_enabled (dl_definition (parseLoopFile loop_zone doc' sample_opts)) = Some True)"
    unfolding doc_def by code_simp
  then show ?thesis unfolding doc_def by (auto split: option.splits)
qed

section \<open>What discovery returns\<close>

lemma set_insert_by [simp]: "set (insert_by le x xs) = insert x (set xs)"
  by (induction xs) auto

lemma mset_foldr_insert_by: "set (foldr (insert_by le) xs []) = set xs"
  by (induction xs) auto

lemma distinct_insert_by:
  "f x \<notin> f ` set xs \<Longrightarrow> distinct (map f xs) \<Longrightarrow> distinct (map f (insert_by le x xs))"
  by (induction xs) auto

lemma distinct_sorted_loops: "distinct (map f xs) \<Longrightarrow> distinct (map f (foldr (insert_by le) xs []))"
  by (induction xs) (auto intro!: distinct_insert_by simp: mset_foldr_insert_by)

lemma by_name_snoc:
  "by_name (ls @ [l]) = (if dl_name l = [] then by_name ls else AList.update (dl_name l) l (by_name ls))"
  by (simp add: by_name_def)

lemma distinct_by_name: "distinct (map fst (by_name ls))"
  by (induction ls rule: rev_induct) (simp_all add: by_name_snoc distinct_update, simp add: by_name_def)

lemma by_name_lookup:
  "map_of (by_name ls) k = Some l \<longleftrightarrow>
     k = dl_name l \<and> k \<noteq> [] \<and> (\<exists>A B. ls = A @ l # B \<and> k \<notin> dl_name ` set B)"
proof (induction ls rule: rev_induct)
  case (snoc x ls)
  have last: "(\<exists>A B. ls @ [x] = A @ l # B \<and> k \<notin> dl_name ` set B) \<longleftrightarrow>
      x = l \<or> dl_name x \<noteq> k \<and> (\<exists>A B. ls = A @ l # B \<and> k \<notin> dl_name ` set B)" (is "?L \<longleftrightarrow> ?R")
  proof
    assume ?L
    then obtain A B where AB: "ls @ [x] = A @ l # B" "k \<notin> dl_name ` set B" by blast
    then show ?R by (cases B rule: rev_cases) auto
  next
    assume ?R
    then show ?L
    proof
      assume "x = l"
      then show ?L by (intro exI [of _ ls] exI [of _ "[]"]) simp
    next
      assume "dl_name x \<noteq> k \<and> (\<exists>A B. ls = A @ l # B \<and> k \<notin> dl_name ` set B)"
      then obtain A B where "dl_name x \<noteq> k" "ls = A @ l # B" "k \<notin> dl_name ` set B" by blast
      then show ?L by (intro exI [of _ A] exI [of _ "B @ [x]"]) simp
    qed
  qed
  show ?case unfolding last using snoc by (auto simp: by_name_snoc update_conv)
qed (simp add: by_name_def)

text \<open>
  Discovery returns one loop for each name, the last file in scan order that bears it: a project
  file wins over the user's, a nearer ancestor over a farther one. A file with a usable name and
  an unusable definition still takes its name.
\<close>

theorem discovery_nearest_file_wins:
  "distinct (map dl_name (discoverLoops env fs path opts userDir)) \<and>
   (l \<in> set (discoverLoops env fs path opts userDir) \<longleftrightarrow>
     dl_name l \<noteq> [] \<and> (\<exists>A B. map (parse_raw env opts) (ranked_loops fs path userDir) = A @ l # B \<and>
       dl_name l \<notin> dl_name ` set B))"
proof -
  define bn where "bn = by_name (map (parse_raw env opts) (ranked_loops fs path userDir))"
  have mem: "(k, x) \<in> set bn \<longleftrightarrow> map_of bn k = Some x" for k x
    using distinct_by_name unfolding bn_def by simp
  have names: "map dl_name (map snd bn) = map fst bn"
    using mem by (auto simp: bn_def by_name_lookup)
  have d: "distinct (map dl_name (map snd bn))" unfolding names unfolding bn_def by (rule distinct_by_name)
  have "x \<in> snd ` set bn \<longleftrightarrow> (\<exists>k. map_of bn k = Some x)" for x using mem by force
  then show ?thesis
    using distinct_sorted_loops [OF d] unfolding discoverLoops_def bn_def [symmetric]
    by (auto simp: mset_foldr_insert_by bn_def by_name_lookup)
qed

section \<open>Parsed loops are storable\<close>

lemma parseLoopFile_definition:
  assumes "dl_definition (parseLoopFile env doc opts) = Some d"
  shows "ld_name d = dl_name (parseLoopFile env doc opts) \<and> trim (ld_name d) = ld_name d \<and> LOOP_NAME_LEGAL (ld_name d) \<and>
    length (ld_name d) \<le> TASK_NAME_MAX \<and> ld_cron d \<noteq> [] \<and> length (ld_cron d) \<le> TASK_CRON_MAX \<and>
    cronNextAt env (ld_cron d) (ld_timezone d) (opt_now opts) \<noteq> None \<and>
    ld_providerID d \<noteq> [] \<and> length (ld_providerID d) \<le> TASK_ROUTE_ID_MAX \<and>
    ld_modelID d \<noteq> [] \<and> length (ld_modelID d) \<le> TASK_ROUTE_ID_MAX \<and>
    ld_prompt d \<noteq> [] \<and> length (ld_prompt d) \<le> TASK_PROMPT_MAX"
proof -
  obtain m body where s: "splitFrontmatter doc = Some (m, body)"
    using assms by (auto simp: parseLoopFile_def loop_fail_def split: option.splits)
  obtain pr mo where pm: "model_parts (get_or_empty m ''model'') = (pr, mo)" by fastforce
  define nm cron where "nm = trim (get_or_empty m ''name'')" and "cron = trim (get_or_empty m ''schedule'')"
  have nm: "trim nm = nm" by (simp add: nm_def trim_fix)
  note eq = parseLoopFile_def [of env doc opts, unfolded s option.case prod.case pm Let_def, folded nm_def cron_def]
  have ok: "\<not> (nm = [] \<or> length nm > TASK_NAME_MAX)" "LOOP_NAME_LEGAL nm" "\<not> (cron = [] \<or> length cron > TASK_CRON_MAX)"
    "cronNextAt env cron (loopZoneOrDefault env (map_of m ''timezone'') opts) (opt_now opts) \<noteq> None"
    "\<not> (pr = [] \<or> length pr > TASK_ROUTE_ID_MAX \<or> mo = [] \<or> length mo > TASK_ROUTE_ID_MAX)"
    "\<not> (body = [] \<or> length body > TASK_PROMPT_MAX)"
    using assms unfolding eq by (simp_all add: loop_fail_def split: if_splits)
  then show ?thesis using assms unfolding eq by (auto simp: nm)
qed

lemma loop_id_legal:
  assumes "LOOP_NAME_LEGAL nm" "length nm \<le> TASK_NAME_MAX"
  shows "TASK_ID (''loop:'' @ scope_name sc @ '':'' @ nm)"
  using assms by (cases sc) (auto simp: LOOP_NAME_LEGAL_def TASK_ID_def TASK_NAME_MAX_def list_all_iff id_char_def is_alnum_def)

text \<open>
  Every loop file that parses gives a task the store accepts, under the loop's own id and with
  the file's switch, so a discovered loop is never refused by the normalization that follows.
\<close>

theorem parsed_loop_is_storable:
  assumes "dl_definition (parse_raw env opts raw) = Some d"
    and "loopTaskInput (parse_raw env opts raw) None None = Some input"
  shows "\<exists>t. normalizeTaskForStorage env (Some (JObj input)) opts None = Inr t \<and>
    field t ''id'' = Some (JStr (loopTaskId (parse_raw env opts raw))) \<and>
    field t ''enabled'' = Some (JBool (ld_enabled d))"
proof -
  let ?l = "parse_raw env opts raw"
  have d: "dl_definition (parseLoopFile env (rl_text raw) opts) = Some d" using assms(1) by (simp add: parse_raw_def)
  note p = parseLoopFile_definition [OF d]
  have nm: "dl_name ?l = ld_name d" using p by (simp add: parse_raw_def)
  have tid: "TASK_ID (loopTaskId ?l)" unfolding loopTaskId_def nm by (rule loop_id_legal) (use p in auto)
  have zone: "isValidZone env (ld_timezone d)" using p by (auto simp: cronNextAt_def split: if_splits)
  define e where "e = (case ld_agent d of Some a \<Rightarrow> put ''agent'' (Some (JStr a)) | None \<Rightarrow> id)
    (put ''modelID'' (Some (JStr (ld_modelID d))) (put ''providerID'' (Some (JStr (ld_providerID d))) (put ''prompt'' (Some (JStr (ld_prompt d))) [])))"
  define sch where "sch = [(''kind'', JStr ''cron''), (''cron'', JStr (ld_cron d)), (''timezone'', JStr (ld_timezone d))]"
  have input: "field input ''id'' = Some (JStr (loopTaskId ?l))" "field input ''name'' = Some (JStr (ld_name d))"
    "field input ''enabled'' = Some (JBool (ld_enabled d))" "field input ''schedule'' = Some (JObj sch)" "field input ''execution'' = Some (JObj e)"
    using assms by (auto simp: loopTaskInput_def Let_def loopStoredRecord_def e_def sch_def split: option.splits)
  have "normalizeSchedule env (Some (JObj sch)) opts \<noteq> None"
    using p zone by (auto simp: normalizeSchedule_def sch_def Let_def zoneOrDefault_def)
  moreover have "field e ''prompt'' = Some (JStr (ld_prompt d))" "field e ''providerID'' = Some (JStr (ld_providerID d))"
    "field e ''modelID'' = Some (JStr (ld_modelID d))"
    by (auto simp: e_def split: option.splits)
  then have "normalizeExecution (Some (JObj e)) \<noteq> None" using p by (simp add: normalizeExecution_def Let_def)
  moreover have "ld_name d \<noteq> []" using p by (auto simp: LOOP_NAME_LEGAL_def)
  ultimately show ?thesis
    using p tid input by (auto simp: normalizeTaskForStorage_def Let_def)
qed

theorem parsed_loop_is_storable_witness:
  "\<exists>input t. loopTaskInput (parse_raw loop_zone sample_opts \<lparr>rl_file = ''/r/l.md'', rl_scope = ProjectScope, rl_text = loop_doc\<rparr>) None None = Some input \<and>
     normalizeTaskForStorage loop_zone (Some (JObj input)) sample_opts None = Inr t \<and>
     field t ''id'' = Some (JStr ''loop:project:tidy'')"
proof -
  let ?l = "parse_raw loop_zone sample_opts \<lparr>rl_file = ''/r/l.md'', rl_scope = ProjectScope, rl_text = loop_doc\<rparr>"
  have l: "dl_definition ?l \<noteq> None" "loopTaskInput ?l None None \<noteq> None" "loopTaskId ?l = ''loop:project:tidy''" by code_simp+
  then obtain d input where d: "dl_definition ?l = Some d" "loopTaskInput ?l None None = Some input" by blast
  show ?thesis using parsed_loop_is_storable [OF d] d(2) l(3) by auto
qed

end
