(* ===== verification/Sched_Store.thy ===== *)
theory Sched_Store
  imports Sched_Loops
begin

text \<open>
  The per-project task store (\<open>server/scheduled/task-config.ts\<close>): loading, upserting and
  removing tasks, and the reconciliation with the discovered loop files. The operations run
  under the project's config lock, so each is one step on the file and on the files set aside.
  Whether a read and a rename go through is an argument.
\<close>

section \<open>The file\<close>

definition PROJECT_ID_PATTERN :: "string \<Rightarrow> bool" where
  "PROJECT_ID_PATTERN s \<longleftrightarrow> s \<noteq> [] \<and> list_all (\<lambda>c. is_alnum c \<or> c \<in> {CHR ''_'', CHR ''-''}) s"

text \<open>\<open>None\<close> where the code throws.\<close>

definition scheduledConfigPath :: "string \<Rightarrow> string \<Rightarrow> string option" where
  "scheduledConfigPath projectsDir projectId =
     (if PROJECT_ID_PATTERN projectId then Some (projectsDir @ ''/'' @ projectId @ ''.json'') else None)"

datatype cfg_file = NoFile | BadFile string | DocFile obj

record cfg_disk =
  cd_file :: cfg_file
  cd_aside :: "cfg_file list"

definition readRawDoc :: "bool \<Rightarrow> cfg_file \<Rightarrow> config_file" where
  "readRawDoc readable f =
     (case f of
        NoFile \<Rightarrow> CfgMissing
      | BadFile _ \<Rightarrow> CfgMalformed
      | DocFile doc \<Rightarrow> if readable then CfgDoc doc else CfgMalformed)"

definition writeDocAtomic :: "obj \<Rightarrow> cfg_disk \<Rightarrow> cfg_disk" where
  "writeDocAtomic doc d = d\<lparr>cd_file := DocFile doc\<rparr>"

definition renameAsideMalformed :: "bool \<Rightarrow> cfg_disk \<Rightarrow> cfg_disk" where
  "renameAsideMalformed ok d = (if ok then d\<lparr>cd_file := NoFile, cd_aside := cd_file d # cd_aside d\<rparr> else d)"

text \<open>The write that ends an upsert and a reconciliation.\<close>

definition write_tasks :: "bool \<Rightarrow> config_file \<Rightarrow> json list \<Rightarrow> cfg_disk \<Rightarrow> cfg_disk" where
  "write_tasks rename_ok raw next d =
     (case raw of
        CfgMalformed \<Rightarrow> writeDocAtomic (withTasks [] next True) (renameAsideMalformed rename_ok d)
      | CfgDoc doc \<Rightarrow> writeDocAtomic (withTasks doc next True) d
      | CfgMissing \<Rightarrow> writeDocAtomic (withTasks [] next True) d)"

section \<open>Loading, upserting, removing\<close>

fun parseTasks :: "zone_env \<Rightarrow> NormalizeOptions \<Rightarrow> json list \<Rightarrow> obj list \<times> string list" where
  "parseTasks env opts [] = ([], [])"
| "parseTasks env opts (e # es) =
     (case normalizeTaskForStorage env (Some e) opts None of
        Inr t \<Rightarrow> (t # fst (parseTasks env opts es), snd (parseTasks env opts es))
      | Inl reason \<Rightarrow> (fst (parseTasks env opts es), reason # snd (parseTasks env opts es)))"

definition loadScheduledTasks :: "zone_env \<Rightarrow> NormalizeOptions \<Rightarrow> bool \<Rightarrow> cfg_disk \<Rightarrow> obj list \<times> string list" where
  "loadScheduledTasks env opts readable d =
     (case readRawDoc readable (cd_file d) of
        CfgDoc doc \<Rightarrow> parseTasks env opts (tasksIn doc)
      | CfgMalformed \<Rightarrow> ([], [''project config is malformed''])
      | CfgMissing \<Rightarrow> ([], []))"

definition entries_of :: "config_file \<Rightarrow> json list" where
  "entries_of raw = (case raw of CfgDoc doc \<Rightarrow> tasksIn doc | _ \<Rightarrow> [])"

definition upsertScheduledTask ::
  "zone_env \<Rightarrow> unknown \<Rightarrow> NormalizeOptions \<Rightarrow> bool \<Rightarrow> bool \<Rightarrow> cfg_disk \<Rightarrow> (string, obj) result \<times> cfg_disk"
where
  "upsertScheduledTask env input opts readable rename_ok d =
     (let raw = readRawDoc readable (cd_file d);
          entries = entries_of raw;
          index = (case record_of input of
                     Some o1 \<Rightarrow> (case str_of (field o1 ''id'') of Some tid \<Rightarrow> findIndex entries tid | None \<Rightarrow> None)
                   | None \<Rightarrow> None);
          base = (case index of Some i \<Rightarrow> map_option (\<lambda>e. field e ''id'') (record_of (Some (entries ! i))) | None \<Rightarrow> None)
      in case normalizeTaskForStorage env input opts base of
           Inl reason \<Rightarrow> (Inl reason, d)
         | Inr task \<Rightarrow>
             let next = (case index of Some i \<Rightarrow> entries[i := JObj task] | None \<Rightarrow> entries @ [JObj task])
             in (Inr task, write_tasks rename_ok raw next d))"

definition removeScheduledTask :: "string \<Rightarrow> bool \<Rightarrow> cfg_disk \<Rightarrow> bool \<times> cfg_disk" where
  "removeScheduledTask taskId readable d =
     (case readRawDoc readable (cd_file d) of
        CfgDoc doc \<Rightarrow>
          if findIndex (tasksIn doc) taskId = None then (False, d)
          else (True, writeDocAtomic (withTasks doc (filter (\<lambda>e. \<not> has_id taskId e) (tasksIn doc)) False) d)
      | _ \<Rightarrow> (False, d))"

text \<open>\<open>consumeOnce\<close> of the service: the task in memory, switched off.\<close>

definition consumeOnce :: "zone_env \<Rightarrow> obj \<Rightarrow> NormalizeOptions \<Rightarrow> bool \<Rightarrow> bool \<Rightarrow> cfg_disk \<Rightarrow> cfg_disk" where
  "consumeOnce env task opts readable rename_ok d =
     snd (upsertScheduledTask env (Some (JObj (put ''enabled'' (Some (JBool False)) task))) opts readable rename_ok d)"

section \<open>Loop reconciliation\<close>

definition loopFile_of :: "json \<Rightarrow> string option" where
  "loopFile_of e = (case record_of (Some e) of Some o1 \<Rightarrow> str_of (field o1 ''loopFile'') | None \<Rightarrow> None)"

definition loopFileIndex :: "json list \<Rightarrow> (string \<times> nat list) list" where
  "loopFileIndex entries =
     fold (\<lambda>i m. case loopFile_of (entries ! i) of
                   Some (c # cs) \<Rightarrow> AList.update (c # cs) ((case map_of m (c # cs) of Some is \<Rightarrow> is | None \<Rightarrow> []) @ [i]) m
                 | _ \<Rightarrow> m) [0 ..< length entries] []"

definition duplicatePointers :: "(string \<times> nat list) list \<Rightarrow> nat list" where
  "duplicatePointers index = concat (map (\<lambda>(f, is). case is of [] \<Rightarrow> [] | k # rest \<Rightarrow> filter (\<lambda>i. i \<noteq> k) rest) index)"

definition name_or_id :: "DiscoveredLoop \<Rightarrow> json \<Rightarrow> bool" where
  "name_or_id l e =
     (case record_of (Some e) of
        None \<Rightarrow> False
      | Some o1 \<Rightarrow> str_of (field o1 ''loopFile'') = None \<and>
          (field o1 ''name'' = Some (JStr (dl_name l)) \<or> field o1 ''id'' = Some (JStr (loopTaskId l))))"

definition loopTarget :: "json list \<Rightarrow> DiscoveredLoop \<Rightarrow> nat list \<Rightarrow> nat option \<times> bool" where
  "loopTarget entries l drops =
     (case find (\<lambda>i. i \<notin> set drops \<and> loopFile_of (entries ! i) = Some (dl_file l)) [0 ..< length entries] of
        Some i \<Rightarrow> (Some i, True)
      | None \<Rightarrow> (find (\<lambda>i. i \<notin> set drops \<and> name_or_id l (entries ! i)) [0 ..< length entries], False))"

text \<open>The task written for a loop, with its place.\<close>

definition loop_revive ::
  "zone_env \<Rightarrow> NormalizeOptions \<Rightarrow> json list \<Rightarrow> nat list \<Rightarrow> DiscoveredLoop \<Rightarrow> (nat option \<times> obj) option"
where
  "loop_revive env opts entries drops l =
     (if dl_definition l = None then None
      else
        let target = loopTarget entries l drops;
            stored = (case fst target of Some i \<Rightarrow> map_option JObj (record_of (Some (entries ! i))) | None \<Rightarrow> None);
            storedField = (\<lambda>k. case record_of stored of Some o1 \<Rightarrow> str_of (field o1 k) | None \<Rightarrow> None);
            refreshed = (case storedField ''id'' of
                           None \<Rightarrow> None
                         | Some sid \<Rightarrow>
                             let renamed = (case storedField ''name'' of Some n \<Rightarrow> n \<noteq> dl_name l | None \<Rightarrow> False)
                             in Some (if snd target \<and> sid \<noteq> loopTaskId l \<and> (renamed \<or> LOOP_TASK_ID_PATTERN sid)
                                      then loopTaskId l else sid))
        in case loopTaskInput l stored refreshed of
             None \<Rightarrow> None
           | Some input \<Rightarrow>
               (case normalizeTaskForStorage env (Some (JObj input)) opts None of
                  Inl _ \<Rightarrow> None
                | Inr task \<Rightarrow> Some (fst target, task)))"

definition place :: "(nat option \<times> obj) option \<Rightarrow> json list \<Rightarrow> json list" where
  "place r next =
     (case r of
        None \<Rightarrow> next
      | Some (None, task) \<Rightarrow> next @ [JObj task]
      | Some (Some i, task) \<Rightarrow> next[i := JObj task])"

definition drop_list :: "json list \<Rightarrow> DiscoveredLoop list \<Rightarrow> nat list" where
  "drop_list entries loops =
     (let index = loopFileIndex entries; dup = duplicatePointers index
      in dup @ List.map_filter (\<lambda>(f, is). case is of k # _ \<Rightarrow> if f \<notin> dl_file ` set loops then Some k else None | [] \<Rightarrow> None) index)"

text \<open>The entries after reconciliation, and whether they are the original array.\<close>

definition applyLoopEntries ::
  "zone_env \<Rightarrow> json list \<Rightarrow> DiscoveredLoop list \<Rightarrow> NormalizeOptions \<Rightarrow> json list \<times> bool"
where
  "applyLoopEntries env entries loops opts =
     (let dup = duplicatePointers (loopFileIndex entries);
          revived = map (loop_revive env opts entries dup) loops;
          next = fold place revived entries;
          drops = drop_list entries loops
      in if list_all (\<lambda>r. r = None) revived \<and> drops = [] then (entries, True)
         else (map (\<lambda>i. next ! i) (filter (\<lambda>i. i \<notin> set drops) [0 ..< length next]), False))"

definition reconcileLoopTasks ::
  "zone_env \<Rightarrow> DiscoveredLoop list \<Rightarrow> NormalizeOptions \<Rightarrow> bool \<Rightarrow> bool \<Rightarrow> cfg_disk \<Rightarrow> (obj list \<times> string list) \<times> cfg_disk"
where
  "reconcileLoopTasks env loops opts readable rename_ok d =
     (let raw = readRawDoc readable (cd_file d);
          entries = entries_of raw;
          r = applyLoopEntries env entries loops opts
      in if snd r then (parseTasks env opts entries, d)
         else (parseTasks env opts (fst r), write_tasks rename_ok raw (fst r) d))"

section \<open>Stored tasks\<close>

lemma normalizeTask_id:
  assumes "normalizeTaskForStorage env raw opts base = Inr t"
  obtains o1 tid where "record_of raw = Some o1" "field o1 ''id'' = Some (JStr tid)" "field t ''id'' = Some (JStr tid)"
proof -
  from assms show thesis
    by (rule normalizeTask_Inr) (rule that, auto simp: field_task_of)
qed

lemma has_id_same: "field t ''id'' = Some (JStr tid) \<Longrightarrow> has_id s (JObj t) \<longleftrightarrow> s = tid"
  by (auto simp: has_id_def)

lemma has_id_fun: "has_id tid e \<Longrightarrow> has_id s e \<longleftrightarrow> s = tid"
  by (auto simp: has_id_def)

lemma findIndex_append:
  "findIndex (es @ [e]) s = (case findIndex es s of Some i \<Rightarrow> Some i | None \<Rightarrow> if has_id s e then Some (length es) else None)"
  by (induction es) (auto split: option.splits)

lemma storedTask_entries:
  "storedTask s raw = (case findIndex (entries_of raw) s of None \<Rightarrow> None | Some i \<Rightarrow> record_of (Some (entries_of raw ! i)))"
  by (cases raw) (simp_all add: storedTask_def entries_of_def cong: option.case_cong)

lemma write_tasks_file: "\<exists>doc. cd_file (write_tasks rn raw next d) = DocFile doc \<and> tasksIn doc = next \<and>
    (\<forall>old k. raw = CfgDoc old \<longrightarrow> k \<notin> {''scheduledTasks'', ''version''} \<longrightarrow> field doc k = field old k)"
  by (cases raw) (auto simp: write_tasks_def writeDocAtomic_def withTasks_def tasksIn_def Let_def update_conv)

lemma upsert_Inr:
  assumes "upsertScheduledTask env input opts rd rn d = (Inr task, d')"
  obtains o1 tid base where "record_of input = Some o1" "field o1 ''id'' = Some (JStr tid)" "field task ''id'' = Some (JStr tid)"
    "normalizeTaskForStorage env input opts base = Inr task"
    "d' = write_tasks rn (readRawDoc rd (cd_file d))
       (case findIndex (entries_of (readRawDoc rd (cd_file d))) tid of
          Some i \<Rightarrow> (entries_of (readRawDoc rd (cd_file d)))[i := JObj task]
        | None \<Rightarrow> entries_of (readRawDoc rd (cd_file d)) @ [JObj task]) d"
proof -
  from assms obtain base where n: "normalizeTaskForStorage env input opts base = Inr task"
    by (auto simp: upsertScheduledTask_def Let_def split: sum.splits)
  then obtain o1 tid where o: "record_of input = Some o1" "field o1 ''id'' = Some (JStr tid)" "field task ''id'' = Some (JStr tid)"
    by (rule normalizeTask_id)
  have "d' = write_tasks rn (readRawDoc rd (cd_file d))
       (case findIndex (entries_of (readRawDoc rd (cd_file d))) tid of
          Some i \<Rightarrow> (entries_of (readRawDoc rd (cd_file d)))[i := JObj task]
        | None \<Rightarrow> entries_of (readRawDoc rd (cd_file d)) @ [JObj task]) d"
    using assms o by (auto simp: upsertScheduledTask_def Let_def split: sum.splits)
  with o n that show thesis by blast
qed

lemma stored_after_put:
  assumes "field task ''id'' = Some (JStr tid)" and es: "es' = (case findIndex es tid of Some i \<Rightarrow> es[i := JObj task] | None \<Rightarrow> es @ [JObj task])"
    and doc: "tasksIn doc = es'" and raw: "entries_of raw = es"
  shows "storedTask s (CfgDoc doc) = (if s = tid then Some task else storedTask s raw)" "JObj task \<in> set es'"
proof -
  have id: "has_id s (JObj task) \<longleftrightarrow> s = tid" for s by (rule has_id_same [OF assms(1)])
  have doc': "entries_of (CfgDoc doc) = es'" by (simp add: entries_of_def doc)
  have both: "storedTask s (CfgDoc doc) = (if s = tid then Some task else storedTask s raw) \<and> JObj task \<in> set es'"
  proof (cases "findIndex es tid")
    case None
    then have new: "es' = es @ [JObj task]" using es by simp
    show ?thesis
    proof (cases "s = tid")
      case True
      then show ?thesis using None by (simp add: storedTask_entries doc' new findIndex_append id)
    next
      case False
      then have "findIndex es' s = findIndex es s" by (simp add: new findIndex_append id split: option.split)
      then show ?thesis using False findIndex_Some [of es s]
        by (auto simp: storedTask_entries doc' raw new nth_append split: option.split)
    qed
  next
    case (Some i)
    then have new: "es' = es[i := JObj task]" using es by simp
    note fi = findIndex_Some [OF Some]
    have upd: "findIndex es' s = findIndex es s" for s
      unfolding new by (rule findIndex_update [OF Some]) (use fi has_id_fun [of tid] id in auto)
    have "findIndex es s \<noteq> Some i" if "s \<noteq> tid" using findIndex_Some [of es s i] fi has_id_fun that by blast
    then show ?thesis using fi Some unfolding storedTask_entries doc' raw upd
      by (auto simp: new set_update_memI split: option.split)
  qed
  then show "storedTask s (CfgDoc doc) = (if s = tid then Some task else storedTask s raw)" "JObj task \<in> set es'" by simp_all
qed

lemma parseTasks_mem:
  "e \<in> set es \<Longrightarrow> normalizeTaskForStorage env (Some e) opts None = Inr t \<Longrightarrow> t \<in> set (fst (parseTasks env opts es))"
  by (induction es) (auto split: sum.splits)

lemma normalize_base_irrelevant:
  "normalizeTaskForStorage env raw opts (Some b) = Inr t \<Longrightarrow> normalizeTaskForStorage env raw opts None = Inr t"
  by (auto simp: normalizeTaskForStorage_def split: option.splits if_splits)

text \<open>
  What an upsert accepts the store holds: under the task's id the file has exactly the
  normalized task, every other task and every other key of the config document are as before,
  and the next load returns a task with that id.
\<close>

theorem upsert_stores_exactly_one_task:
  assumes "upsertScheduledTask env input opts True rn d = (Inr task, d')"
  shows "\<exists>doc tid t'. field task ''id'' = Some (JStr tid) \<and> cd_file d' = DocFile doc \<and>
    (\<forall>s. storedTask s (CfgDoc doc) = (if s = tid then Some task else storedTask s (readRawDoc True (cd_file d)))) \<and>
    (\<forall>old k. cd_file d = DocFile old \<longrightarrow> k \<notin> {''scheduledTasks'', ''version''} \<longrightarrow> field doc k = field old k) \<and>
    t' \<in> set (fst (loadScheduledTasks env opts True d')) \<and> field t' ''id'' = Some (JStr tid)"
proof -
  from assms obtain o1 tid base where tid: "field task ''id'' = Some (JStr tid)"
    and n: "normalizeTaskForStorage env input opts base = Inr task"
    and d': "d' = write_tasks rn (readRawDoc True (cd_file d))
       (case findIndex (entries_of (readRawDoc True (cd_file d))) tid of
          Some i \<Rightarrow> (entries_of (readRawDoc True (cd_file d)))[i := JObj task]
        | None \<Rightarrow> entries_of (readRawDoc True (cd_file d)) @ [JObj task]) d" (is "_ = write_tasks _ ?raw ?es d")
    by (rule upsert_Inr)
  obtain doc where doc: "cd_file d' = DocFile doc" "tasksIn doc = ?es"
    and keys: "\<forall>old k. ?raw = CfgDoc old \<longrightarrow> k \<notin> {''scheduledTasks'', ''version''} \<longrightarrow> field doc k = field old k"
    using write_tasks_file [of rn ?raw ?es d] d' by auto
  note st = stored_after_put [OF tid refl doc(2) refl]
  obtain t' where t': "normalizeTaskForStorage env (Some (JObj task)) opts (Some (field task ''id'')) = Inr t'"
    "field t' ''id'' = field task ''id''"
    using normalizeTask_again [OF n] by auto
  have "t' \<in> set (fst (loadScheduledTasks env opts True d'))"
    using parseTasks_mem [OF st(2) normalize_base_irrelevant [OF t'(1)]] doc
    by (simp add: loadScheduledTasks_def readRawDoc_def)
  then show ?thesis
    using tid doc(1) st(1) keys t'(2) by (intro exI [of _ doc] exI [of _ tid] exI [of _ t']) (simp add: readRawDoc_def)
qed

definition empty_disk :: cfg_disk where
  "empty_disk = \<lparr>cd_file = NoFile, cd_aside = []\<rparr>"

lemma sample_upsert:
  "upsertScheduledTask sample_zone (Some (JObj sample_raw)) sample_opts True True empty_disk =
     (Inr sample_task, empty_disk\<lparr>cd_file := DocFile (withTasks [] [JObj sample_task] True)\<rparr>)"
proof -
  have "field sample_raw ''id'' = Some (JStr ''t1'')" by (simp add: sample_raw_def)
  then show ?thesis
    using sample_normalizes by (simp add: upsertScheduledTask_def Let_def readRawDoc_def empty_disk_def entries_of_def write_tasks_def writeDocAtomic_def)
qed

theorem upsert_stores_exactly_one_task_witness:
  "\<exists>doc t'. upsertScheduledTask sample_zone (Some (JObj sample_raw)) sample_opts True True empty_disk =
      (Inr sample_task, empty_disk\<lparr>cd_file := DocFile doc\<rparr>) \<and> storedTask ''t1'' (CfgDoc doc) = Some sample_task \<and>
    t' \<in> set (fst (loadScheduledTasks sample_zone sample_opts True (empty_disk\<lparr>cd_file := DocFile doc\<rparr>))) \<and>
    field t' ''id'' = Some (JStr ''t1'')"
  using upsert_stores_exactly_one_task [OF sample_upsert] sample_upsert by (auto simp: sample_task_def)

text \<open>
  Removing a task leaves no entry with its id and every other entry in its order; without such an
  entry nothing is written.
\<close>

theorem remove_takes_only_that_task:
  assumes "cd_file d = DocFile doc" "removeScheduledTask tid True d = (removed, d')"
  shows "(\<exists>doc'. cd_file d' = DocFile doc' \<and> tasksIn doc' = filter (\<lambda>e. \<not> has_id tid e) (tasksIn doc) \<and>
      storedTask tid (CfgDoc doc') = None \<and> (\<forall>k. k \<noteq> ''scheduledTasks'' \<longrightarrow> field doc' k = field doc k)) \<and>
    (removed \<longleftrightarrow> storedTask tid (CfgDoc doc) \<noteq> None) \<and> (\<not> removed \<longrightarrow> d' = d)"
proof -
  have none: "findIndex es tid = None \<longleftrightarrow> (\<forall>e \<in> set es. \<not> has_id tid e)" for es by (induction es) auto
  have stored: "storedTask tid (CfgDoc doc) \<noteq> None \<longleftrightarrow> findIndex (tasksIn doc) tid \<noteq> None"
    using findIndex_Some [of "tasksIn doc" tid]
    by (auto simp: storedTask_def has_id_def split: option.splits)
  show ?thesis
  proof (cases "findIndex (tasksIn doc) tid = None")
    case True
    then have "filter (\<lambda>e. \<not> has_id tid e) (tasksIn doc) = tasksIn doc" by (simp add: none filter_id_conv)
    then show ?thesis using True assms stored by (auto simp: removeScheduledTask_def readRawDoc_def)
  next
    case False
    let ?es = "filter (\<lambda>e. \<not> has_id tid e) (tasksIn doc)"
    have "findIndex ?es tid = None" by (simp add: none)
    then have "storedTask tid (CfgDoc (withTasks doc ?es False)) = None" by (simp add: storedTask_def)
    moreover have "k \<noteq> ''scheduledTasks'' \<Longrightarrow> field (withTasks doc ?es False) k = field doc k" for k
      by (simp add: withTasks_def update_conv)
    ultimately show ?thesis using False assms stored
      by (auto simp: removeScheduledTask_def readRawDoc_def writeDocAtomic_def)
  qed
qed

definition two_tasks :: cfg_disk where
  "two_tasks = empty_disk\<lparr>cd_file := DocFile [(''theme'', JStr ''dark''), (''scheduledTasks'',
     JArr [JObj [(''id'', JStr ''a'')], JObj [(''id'', JStr ''b'')]])]\<rparr>"

theorem remove_takes_only_that_task_witness:
  "\<exists>doc' d'. removeScheduledTask ''a'' True two_tasks = (True, d') \<and> cd_file d' = DocFile doc' \<and>
     tasksIn doc' = [JObj [(''id'', JStr ''b'')]] \<and> storedTask ''a'' (CfgDoc doc') = None"
proof -
  have f: "cd_file two_tasks = DocFile [(''theme'', JStr ''dark''), (''scheduledTasks'',
     JArr [JObj [(''id'', JStr ''a'')], JObj [(''id'', JStr ''b'')]])]" by (simp add: two_tasks_def)
  obtain removed d' where r: "removeScheduledTask ''a'' True two_tasks = (removed, d')" by fastforce
  show ?thesis
    using remove_takes_only_that_task [OF f r] r
    by (auto simp: tasksIn_def has_id_def storedTask_def)
qed

section \<open>Ways to lose what is stored\<close>

text \<open>
  Any read error but a missing file counts as a malformed file. An upsert that meets one on a
  good config sets the document aside and starts a new one with the single task, so the other
  tasks and keys are gone from the config; when the rename fails too, they are overwritten.
\<close>

theorem read_error_on_upsert_replaces_config:
  assumes "cd_file d = DocFile doc" "upsertScheduledTask env input opts False rn d = (Inr task, d')"
  shows "cd_file d' = DocFile [(''scheduledTasks'', JArr [JObj task]), (''version'', JInt 1)] \<and>
    cd_aside d' = (if rn then DocFile doc # cd_aside d else cd_aside d)"
proof -
  from assms(2) obtain o1 tid base where
    "d' = write_tasks rn (readRawDoc False (cd_file d))
       (case findIndex (entries_of (readRawDoc False (cd_file d))) tid of
          Some i \<Rightarrow> (entries_of (readRawDoc False (cd_file d)))[i := JObj task]
        | None \<Rightarrow> entries_of (readRawDoc False (cd_file d)) @ [JObj task]) d"
    by (rule upsert_Inr)
  then show ?thesis
    using assms(1) by (simp add: readRawDoc_def entries_of_def write_tasks_def writeDocAtomic_def renameAsideMalformed_def withTasks_def)
qed

theorem read_error_on_upsert_replaces_config_witness:
  "\<exists>d'. upsertScheduledTask sample_zone (Some (JObj sample_raw)) sample_opts False False two_tasks = (Inr sample_task, d') \<and>
     cd_file d' = DocFile [(''scheduledTasks'', JArr [JObj sample_task]), (''version'', JInt 1)] \<and> cd_aside d' = []"
proof -
  have "field sample_raw ''id'' = Some (JStr ''t1'')" by (simp add: sample_raw_def)
  then have "fst (upsertScheduledTask sample_zone (Some (JObj sample_raw)) sample_opts False False two_tasks) = Inr sample_task"
    using sample_normalizes by (simp add: upsertScheduledTask_def Let_def readRawDoc_def two_tasks_def empty_disk_def entries_of_def)
  then obtain d' where u: "upsertScheduledTask sample_zone (Some (JObj sample_raw)) sample_opts False False two_tasks = (Inr sample_task, d')"
    by (metis prod.collapse)
  have f: "cd_file two_tasks = DocFile [(''theme'', JStr ''dark''), (''scheduledTasks'',
     JArr [JObj [(''id'', JStr ''a'')], JObj [(''id'', JStr ''b'')]])]" by (simp add: two_tasks_def)
  show ?thesis
    using read_error_on_upsert_replaces_config [OF f u] u by (simp add: two_tasks_def empty_disk_def)
qed

text \<open>
  Settling a one-time run writes back the task the run started with. An edit that was saved
  while the run was going on, a new date for instance, is undone by it, and so is the claim
  the run itself had recorded.
\<close>

theorem once_consumption_reverts_edit:
  assumes "upsertScheduledTask env edited opts True rn d = (Inr saved, d1)"
    and "field saved ''id'' = Some (JStr tid)" "field task ''id'' = Some (JStr tid)"
    and "normalizeTaskForStorage env (Some (JObj (put ''enabled'' (Some (JBool False)) task))) opts (Some (Some (JStr tid))) = Inr old"
  shows "\<exists>doc. cd_file (consumeOnce env task opts True rn d1) = DocFile doc \<and> storedTask tid (CfgDoc doc) = Some old"
proof -
  from assms(1) obtain o1 tid' base where tid': "field saved ''id'' = Some (JStr tid')"
    and d1: "d1 = write_tasks rn (readRawDoc True (cd_file d))
       (case findIndex (entries_of (readRawDoc True (cd_file d))) tid' of
          Some i \<Rightarrow> (entries_of (readRawDoc True (cd_file d)))[i := JObj saved]
        | None \<Rightarrow> entries_of (readRawDoc True (cd_file d)) @ [JObj saved]) d" (is "_ = write_tasks _ ?raw ?es d")
    by (rule upsert_Inr)
  have [simp]: "tid' = tid" using tid' assms(2) by simp
  obtain doc where doc: "cd_file d1 = DocFile doc" "tasksIn doc = ?es"
    using write_tasks_file [of rn ?raw ?es d] d1 by auto
  let ?in = "put ''enabled'' (Some (JBool False)) task"
  have old: "field old ''id'' = Some (JStr tid)"
    using assms(3,4) by (auto elim!: normalizeTask_id)
  have "storedTask tid (CfgDoc doc) = Some saved"
    using stored_after_put(1) [OF assms(2) _ doc(2) refl, where s = tid] by simp
  then obtain i where i: "findIndex (tasksIn doc) tid = Some i" "record_of (Some (tasksIn doc ! i)) = Some saved"
    by (auto simp: storedTask_def split: option.splits)
  have "consumeOnce env task opts True rn d1 = write_tasks rn (CfgDoc doc) ((tasksIn doc)[i := JObj old]) d1"
    using assms(2,3,4) i doc(1) by (simp add: consumeOnce_def upsertScheduledTask_def Let_def readRawDoc_def entries_of_def)
  moreover obtain doc' where "cd_file (write_tasks rn (CfgDoc doc) ((tasksIn doc)[i := JObj old]) d1) = DocFile doc'"
    "tasksIn doc' = (tasksIn doc)[i := JObj old]"
    using write_tasks_file [of rn "CfgDoc doc"] by blast
  moreover have "storedTask tid (CfgDoc doc') = Some old"
    using stored_after_put(1) [OF old _ calculation(3), where es = "tasksIn doc" and raw = "CfgDoc doc" and s = tid] i(1) by (simp add: entries_of_def)
  ultimately show ?thesis by auto
qed

definition started_task :: obj where
  "started_task = put ''name'' (Some (JStr ''before'')) sample_raw"

theorem once_consumption_reverts_edit_witness:
  "\<exists>d1 doc old. upsertScheduledTask sample_zone (Some (JObj sample_raw)) sample_opts True True empty_disk = (Inr sample_task, d1) \<and>
     field sample_task ''name'' = Some (JStr ''daily'') \<and>
     cd_file (consumeOnce sample_zone started_task sample_opts True True d1) = DocFile doc \<and>
     storedTask ''t1'' (CfgDoc doc) = Some old \<and> field old ''name'' = Some (JStr ''before'')"
proof -
  have "trim ''before'' = ''before''" by (simp add: trim_def trim_start_def trim_end_def js_space_def)
  then obtain old where n: "normalizeTaskForStorage sample_zone (Some (JObj (put ''enabled'' (Some (JBool False)) started_task))) sample_opts
      (Some (Some (JStr ''t1''))) = Inr old" and old: "field old ''name'' = Some (JStr ''before'')"
    using sample_id sample_schedule sample_execution sample_state
    by (simp add: normalizeTaskForStorage_def started_task_def sample_raw_def TASK_NAME_MAX_def put_def)
  have f: "field sample_task ''id'' = Some (JStr ''t1'')" "field started_task ''id'' = Some (JStr ''t1'')"
    "field sample_task ''name'' = Some (JStr ''daily'')"
    by (simp_all add: sample_task_def started_task_def sample_raw_def)
  show ?thesis using once_consumption_reverts_edit [OF sample_upsert f(1,2) n] sample_upsert f(3) old by auto
qed

section \<open>What reconciliation keeps\<close>

abbreviation pointers :: "json list \<Rightarrow> string \<Rightarrow> nat \<Rightarrow> nat list" where
  "pointers es f n \<equiv> filter (\<lambda>i. loopFile_of (es ! i) = Some f) [0 ..< n]"

definition add_pointer :: "json list \<Rightarrow> nat \<Rightarrow> (string \<times> nat list) list \<Rightarrow> (string \<times> nat list) list" where
  "add_pointer es i m =
     (case loopFile_of (es ! i) of
        Some (c # cs) \<Rightarrow> AList.update (c # cs) ((case map_of m (c # cs) of Some is \<Rightarrow> is | None \<Rightarrow> []) @ [i]) m
      | _ \<Rightarrow> m)"

lemma loopFileIndex_add: "loopFileIndex es = fold (add_pointer es) [0 ..< length es] []"
  unfolding loopFileIndex_def add_pointer_def by simp

lemma index_upto:
  "map_of (fold (add_pointer es) [0 ..< n] []) f = (if f = [] \<or> pointers es f n = [] then None else Some (pointers es f n)) \<and>
   distinct (map fst (fold (add_pointer es) [0 ..< n] []))"
proof (induction n)
  case (Suc n)
  show ?case
  proof (cases "loopFile_of (es ! n)")
    case None
    then show ?thesis using Suc by (simp add: add_pointer_def)
  next
    case (Some g)
    then show ?thesis using Suc by (cases g) (auto simp: add_pointer_def update_conv distinct_update)
  qed
qed simp

lemma index_mem:
  "(f, is) \<in> set (loopFileIndex es) \<longleftrightarrow> f \<noteq> [] \<and> is \<noteq> [] \<and> is = pointers es f (length es)"
proof -
  have "distinct (map fst (loopFileIndex es))" using index_upto by (simp add: loopFileIndex_add)
  then have "(f, is) \<in> set (loopFileIndex es) \<longleftrightarrow> map_of (loopFileIndex es) f = Some is" by simp
  then show ?thesis using index_upto [of es "length es" f] by (auto simp: loopFileIndex_add split: if_splits)
qed

lemma pointers_split:
  assumes "pointers es f n = k # rest"
  shows "i \<in> set rest \<and> i \<noteq> k \<longleftrightarrow> i < n \<and> loopFile_of (es ! i) = Some f \<and> (\<exists>j < i. loopFile_of (es ! j) = Some f)"
    and "k < n \<and> loopFile_of (es ! k) = Some f \<and> (\<forall>j < k. loopFile_of (es ! j) \<noteq> Some f)"
proof -
  have "sorted_wrt (<) (pointers es f n)" by (simp add: sorted_wrt_filter)
  then have lt: "\<forall>x \<in> set rest. k < x" unfolding assms by simp
  have "set (k # rest) = {i. i < n \<and> loopFile_of (es ! i) = Some f}" unfolding assms [symmetric] by auto
  then have mem: "\<And>x. x = k \<or> x \<in> set rest \<longleftrightarrow> x < n \<and> loopFile_of (es ! x) = Some f" by auto
  have first: "\<forall>j < k. loopFile_of (es ! j) \<noteq> Some f"
  proof (intro allI impI notI)
    fix j assume j: "j < k" "loopFile_of (es ! j) = Some f"
    then have "j = k \<or> j \<in> set rest" using mem [of j] mem [of k] by simp
    then show False using j(1) lt by auto
  qed
  then show "k < n \<and> loopFile_of (es ! k) = Some f \<and> (\<forall>j < k. loopFile_of (es ! j) \<noteq> Some f)" using mem by blast
  show "i \<in> set rest \<and> i \<noteq> k \<longleftrightarrow> i < n \<and> loopFile_of (es ! i) = Some f \<and> (\<exists>j < i. loopFile_of (es ! j) = Some f)" (is "?L \<longleftrightarrow> ?R")
  proof
    assume l: ?L
    then have "k < i" "loopFile_of (es ! k) = Some f" "i < n \<and> loopFile_of (es ! i) = Some f" using lt mem by blast+
    then show ?R by blast
  next
    assume ?R
    then have "i \<noteq> k" "i = k \<or> i \<in> set rest" using first mem by blast+
    then show ?L by blast
  qed
qed

lemma ex_pointer_list:
  "(\<exists>f is. (f \<noteq> [] \<and> is \<noteq> [] \<and> is = P f) \<and> (\<exists>k rest. is = k # rest \<and> Q f k rest)) \<longleftrightarrow>
     (\<exists>f. f \<noteq> [] \<and> (\<exists>k rest. P f = k # rest \<and> Q f k rest))"
  by (metis list.distinct(1))

definition repeated :: "json list \<Rightarrow> nat \<Rightarrow> bool" where
  "repeated es i \<longleftrightarrow> (\<exists>j < i. loopFile_of (es ! j) = loopFile_of (es ! i))"

lemma duplicate_mem:
  "i \<in> set (duplicatePointers (loopFileIndex es)) \<longleftrightarrow>
     i < length es \<and> loopFile_of (es ! i) \<notin> {None, Some []} \<and> repeated es i"
proof -
  have "i \<in> set (duplicatePointers (loopFileIndex es)) \<longleftrightarrow>
      (\<exists>f. f \<noteq> [] \<and> (\<exists>k rest. pointers es f (length es) = k # rest \<and> i \<in> set rest \<and> i \<noteq> k))"
  proof -
    have "i \<in> set (duplicatePointers (loopFileIndex es)) \<longleftrightarrow>
        (\<exists>f is. (f, is) \<in> set (loopFileIndex es) \<and> (\<exists>k rest. is = k # rest \<and> i \<in> set rest \<and> i \<noteq> k))"
      by (fastforce simp: duplicatePointers_def split: list.splits)
    then show ?thesis unfolding index_mem ex_pointer_list by blast
  qed
  also have "\<dots> \<longleftrightarrow> (\<exists>f. f \<noteq> [] \<and> i < length es \<and> loopFile_of (es ! i) = Some f \<and> (\<exists>j < i. loopFile_of (es ! j) = Some f))"
  proof -
    have "(\<exists>k rest. pointers es f (length es) = k # rest \<and> i \<in> set rest \<and> i \<noteq> k) \<longleftrightarrow>
        i < length es \<and> loopFile_of (es ! i) = Some f \<and> (\<exists>j < i. loopFile_of (es ! j) = Some f)" for f
    proof (cases "pointers es f (length es)")
      case Nil
      then show ?thesis by (auto simp: filter_empty_conv)
    next
      case (Cons k rest)
      then show ?thesis using pointers_split(1) [OF Cons, of i] by simp
    qed
    then show ?thesis by simp
  qed
  also have "\<dots> \<longleftrightarrow> i < length es \<and> loopFile_of (es ! i) \<notin> {None, Some []} \<and> repeated es i"
    by (auto simp: repeated_def)
  finally show ?thesis .
qed

lemma set_map_filter_iff: "y \<in> set (List.map_filter g xs) \<longleftrightarrow> (\<exists>x \<in> set xs. g x = Some y)"
  by (force simp: map_filter_def)

lemma drop_mem:
  "i \<in> set (drop_list es loops) \<longleftrightarrow>
     i < length es \<and> (\<exists>f. f \<noteq> [] \<and> loopFile_of (es ! i) = Some f \<and> (repeated es i \<or> f \<notin> dl_file ` set loops))"
proof -
  have orphan: "i \<in> set (List.map_filter (\<lambda>(f, is). case is of k # _ \<Rightarrow> if f \<notin> dl_file ` set loops then Some k else None | [] \<Rightarrow> None)
      (loopFileIndex es)) \<longleftrightarrow>
      (\<exists>f. f \<noteq> [] \<and> (\<exists>rest. pointers es f (length es) = i # rest) \<and> f \<notin> dl_file ` set loops)"
  proof -
    have "i \<in> set (List.map_filter (\<lambda>(f, is). case is of k # _ \<Rightarrow> if f \<notin> dl_file ` set loops then Some k else None | [] \<Rightarrow> None)
        (loopFileIndex es)) \<longleftrightarrow>
        (\<exists>f is. (f, is) \<in> set (loopFileIndex es) \<and> (\<exists>k rest. is = k # rest \<and> i = k \<and> f \<notin> dl_file ` set loops))"
    proof -
      have "(case is of k # _ \<Rightarrow> if f \<notin> dl_file ` set loops then Some k else None | [] \<Rightarrow> None) = Some i \<longleftrightarrow>
          (\<exists>k rest. is = k # rest \<and> i = k \<and> f \<notin> dl_file ` set loops)" for f "is"
        by (cases "is") auto
      then show ?thesis unfolding set_map_filter_iff by (simp add: split_beta Bex_def split_paired_Ex)
    qed
    then show ?thesis unfolding index_mem ex_pointer_list by blast
  qed
  have "(\<exists>rest. pointers es f (length es) = i # rest) \<longleftrightarrow> i < length es \<and> loopFile_of (es ! i) = Some f \<and> \<not> repeated es i" for f
  proof
    assume "\<exists>rest. pointers es f (length es) = i # rest"
    then obtain rest where "pointers es f (length es) = i # rest" by blast
    from pointers_split(2) [OF this] show "i < length es \<and> loopFile_of (es ! i) = Some f \<and> \<not> repeated es i"
      by (simp add: repeated_def)
  next
    assume i: "i < length es \<and> loopFile_of (es ! i) = Some f \<and> \<not> repeated es i"
    then obtain k rest where k: "pointers es f (length es) = k # rest"
      by (cases "pointers es f (length es)") (auto simp: filter_empty_conv)
    note sp = pointers_split(2) [OF k]
    have "i \<in> set (k # rest)" using i unfolding k [symmetric] by simp
    then have "i = k" using pointers_split(1) [OF k, of i] i by (auto simp: repeated_def)
    then show "\<exists>rest. pointers es f (length es) = i # rest" using k by blast
  qed
  then show ?thesis unfolding drop_list_def Let_def set_append Un_iff orphan duplicate_mem by auto
qed

lemma loop_revive_Some:
  assumes "loop_revive env opts es dup l = Some (tgt, task)"
  shows "tgt = fst (loopTarget es l dup)" "loopFile_of (JObj task) \<in> {None, Some (dl_file l)}"
proof -
  obtain stored tid input where i: "loopTaskInput l stored tid = Some input" and
    n: "normalizeTaskForStorage env (Some (JObj input)) opts None = Inr task" and t: "tgt = fst (loopTarget es l dup)"
    using assms by (auto simp: loop_revive_def Let_def split: if_splits option.splits sum.splits)
  show "tgt = fst (loopTarget es l dup)" by (rule t)
  have "field input ''loopFile'' = Some (JStr (dl_file l))"
    using i by (auto simp: loopTaskInput_def Let_def split: option.splits)
  with n have "field task ''loopFile'' \<in> {None, Some (JStr (dl_file l))}"
    by (auto elim!: normalizeTask_Inr simp: field_task_of split: if_splits)
  then show "loopFile_of (JObj task) \<in> {None, Some (dl_file l)}" by (auto simp: loopFile_of_def)
qed

lemma loopTarget_Some:
  assumes "fst (loopTarget es l dup) = Some i"
  shows "i < length es \<and> i \<notin> set dup \<and> (loopFile_of (es ! i) = Some (dl_file l) \<or> name_or_id l (es ! i))"
  using assms by (auto simp: loopTarget_def find_upt split: option.splits)

lemma loopTarget_pointer:
  assumes "dup = duplicatePointers (loopFileIndex es)" "a < length es" "loopFile_of (es ! a) = Some (dl_file l)"
    "dl_file l \<noteq> []" "\<not> repeated es a"
  shows "fst (loopTarget es l dup) = Some a"
proof -
  have "find (\<lambda>i. i \<notin> set dup \<and> loopFile_of (es ! i) = Some (dl_file l)) [0 ..< length es] = Some a"
    unfolding find_upt using assms by (auto simp: duplicate_mem repeated_def)
  then show ?thesis by (simp add: loopTarget_def)
qed

definition pushed :: "(nat option \<times> obj) option \<Rightarrow> obj option" where
  "pushed r = (case r of Some (None, t) \<Rightarrow> Some t | _ \<Rightarrow> None)"

lemma fold_place:
  assumes "\<And>l i t. g l = Some (Some i, t) \<Longrightarrow> i < length es"
  shows "length es \<le> length (fold place (map g ls) es) \<and>
    drop (length es) (fold place (map g ls) es) = map JObj (List.map_filter (\<lambda>l. pushed (g l)) ls) \<and>
    (\<forall>i < length es. fold place (map g ls) es ! i = es ! i \<or>
       (\<exists>l \<in> set ls. \<exists>t. g l = Some (Some i, t) \<and> fold place (map g ls) es ! i = JObj t))"
proof (induction ls rule: rev_induct)
  case Nil
  then show ?case by (simp add: map_filter_def)
next
  case (snoc l ls)
  let ?n = "fold place (map g ls) es"
  show ?case
  proof (cases "g l")
    case None
    then show ?thesis using snoc by (auto simp: place_def map_filter_def pushed_def)
  next
    case (Some r)
    obtain tgt t where r: "r = (tgt, t)" by fastforce
    show ?thesis
    proof (cases tgt)
      case None
      then show ?thesis using snoc Some r by (auto simp: place_def map_filter_def pushed_def nth_append)
    next
      case (Some i)
      then have "g l = Some (Some i, t)" using \<open>g l = Some r\<close> r by simp
      then show ?thesis using snoc assms [of l i t]
        by (auto simp: place_def map_filter_def pushed_def nth_list_update)
    qed
  qed
qed

lemma pushed_unique:
  assumes "distinct (map dl_file ls)" "\<And>l t. pushed (g l) = Some t \<Longrightarrow> loopFile_of (JObj t) \<in> {None, Some (dl_file l)}"
    and "a < b" "b < length (List.map_filter (\<lambda>l. pushed (g l)) ls)"
    and "loopFile_of (JObj (List.map_filter (\<lambda>l. pushed (g l)) ls ! a)) = Some f"
  shows "loopFile_of (JObj (List.map_filter (\<lambda>l. pushed (g l)) ls ! b)) \<noteq> Some f"
  using assms
proof (induction ls arbitrary: a b)
  case Nil
  then show ?case by (simp add: map_filter_def)
next
  case (Cons l ls)
  let ?m = "List.map_filter (\<lambda>l. pushed (g l))"
  show ?case
  proof (cases "pushed (g l)")
    case None
    then have "?m (l # ls) = ?m ls" by (simp add: map_filter_def)
    then show ?thesis using Cons by simp
  next
    case (Some t)
    then have m: "?m (l # ls) = t # ?m ls" by (simp add: map_filter_def)
    obtain b' where b: "b = Suc b'" using Cons.prems(3) by (cases b) auto
    show ?thesis
    proof (cases a)
      case 0
      have f: "f = dl_file l" using Cons.prems(2) [OF Some] Cons.prems(5) 0 m by auto
      have "?m ls ! b' \<in> set (?m ls)" using Cons.prems(4) m b by simp
      then obtain l' where l': "l' \<in> set ls" "pushed (g l') = Some (?m ls ! b')" by (auto simp: set_map_filter_iff)
      have "dl_file l' \<noteq> f" using l'(1) Cons.prems(1) f by (metis distinct.simps(2) imageI list.set_map list.simps(9))
      then show ?thesis unfolding m b using Cons.prems(2) [OF l'(2)] by auto
    next
      case (Suc a')
      then show ?thesis using Cons.IH [of a' b'] Cons.prems b m by auto
    qed
  qed
qed

lemma applyLoopEntries_eq:
  assumes "next = fold place (map (loop_revive env opts es (duplicatePointers (loopFileIndex es))) loops) es"
  shows "fst (applyLoopEntries env es loops opts) =
    map ((!) next) (filter (\<lambda>i. i \<notin> set (drop_list es loops)) [0 ..< length next])"
proof -
  have "fold place rs es = es" if "list_all (\<lambda>r. r = None) rs" for rs
    using that by (induction rs) (auto simp: place_def)
  then show ?thesis unfolding assms by (auto simp: applyLoopEntries_def Let_def map_nth)
qed

lemma reconcile_next:
  assumes "next = fold place (map (loop_revive env opts es (duplicatePointers (loopFileIndex es))) loops) es"
  shows "drop (length es) next =
      map JObj (List.map_filter (\<lambda>l. pushed (loop_revive env opts es (duplicatePointers (loopFileIndex es)) l)) loops)"
    and "length es \<le> length next"
    and "i < length es \<Longrightarrow> next ! i = es ! i \<or>
      (\<exists>l \<in> set loops. \<exists>t. loop_revive env opts es (duplicatePointers (loopFileIndex es)) l = Some (Some i, t) \<and> next ! i = JObj t)"
proof -
  have lt: "loop_revive env opts es (duplicatePointers (loopFileIndex es)) l = Some (Some i, t) \<Longrightarrow> i < length es" for l i t
    using loop_revive_Some(1) [of env opts es _ l "Some i" t] loopTarget_Some [of es l _ i] by metis
  note fp = fold_place [of "loop_revive env opts es (duplicatePointers (loopFileIndex es))" es loops, OF lt, folded assms]
  show "drop (length es) next =
      map JObj (List.map_filter (\<lambda>l. pushed (loop_revive env opts es (duplicatePointers (loopFileIndex es)) l)) loops)"
    "length es \<le> length next" using fp by simp_all
  show "i < length es \<Longrightarrow> next ! i = es ! i \<or>
      (\<exists>l \<in> set loops. \<exists>t. loop_revive env opts es (duplicatePointers (loopFileIndex es)) l = Some (Some i, t) \<and> next ! i = JObj t)"
    using fp by simp
qed

lemma nth_pushed:
  assumes "drop k xs = map JObj ys" "\<not> c < k" "c < length xs"
  shows "xs ! c = JObj (ys ! (c - k)) \<and> c - k < length ys"
proof -
  have "length xs - k = length ys" using assms(1) by (metis length_drop length_map)
  then have len: "c - k < length ys" using assms(2,3) by linarith
  then have "drop k xs ! (c - k) = JObj (ys ! (c - k))" by (simp add: assms(1))
  then show ?thesis using assms(2,3) len by simp
qed

text \<open>Where a pointer to a loop file in the new entries comes from.\<close>

lemma reconcile_owner:
  assumes n: "next = fold place (map (loop_revive env opts es (duplicatePointers (loopFileIndex es))) loops) es"
    and x: "x < length next" "loopFile_of (next ! x) = Some f"
  shows "x < length es \<and> next ! x = es ! x \<or>
    (\<exists>l \<in> set loops. dl_file l = f \<and> fst (loopTarget es l (duplicatePointers (loopFileIndex es))) = (if x < length es then Some x else None))"
proof -
  let ?dup = "duplicatePointers (loopFileIndex es)"
  let ?g = "loop_revive env opts es ?dup"
  have owned: "dl_file l = f" if "?g l = Some (tgt, t)" "next ! x = JObj t" for l tgt t
    using loop_revive_Some(2) [OF that(1)] x(2) that(2) by auto
  show ?thesis
  proof (cases "x < length es")
    case True
    then show ?thesis
    proof (cases "next ! x = es ! x")
      case False
      then obtain l t where l: "l \<in> set loops" "?g l = Some (Some x, t)" "next ! x = JObj t" using reconcile_next(3) [OF n True] by blast
      then show ?thesis using True owned [OF l(2,3)] loop_revive_Some(1) [OF l(2)] by auto
    qed simp
  next
    case False
    let ?k = "x - length es" and ?m = "List.map_filter (\<lambda>l. pushed (?g l)) loops"
    have at: "next ! x = JObj (?m ! ?k)" "?k < length ?m" using nth_pushed [OF reconcile_next(1) [OF n] False x(1)] by simp_all
    obtain l where l: "l \<in> set loops" "pushed (?g l) = Some (?m ! ?k)"
      using nth_mem [OF at(2)] by (auto simp: set_map_filter_iff)
    then have g: "?g l = Some (None, ?m ! ?k)" by (auto simp: pushed_def split: option.splits)
    then show ?thesis using False l(1) owned [OF g at(1)] loop_revive_Some(1) [OF g] by auto
  qed
qed

lemma reconcile_unique:
  assumes n: "next = fold place (map (loop_revive env opts es (duplicatePointers (loopFileIndex es))) loops) es"
    and d: "distinct (map dl_file loops)" and ab: "a < b" "b < length next" and f: "f \<noteq> []"
    and kept: "a \<notin> set (drop_list es loops)" "b \<notin> set (drop_list es loops)"
    and both: "loopFile_of (next ! a) = Some f" "loopFile_of (next ! b) = Some f"
  shows False
proof -
  let ?dup = "duplicatePointers (loopFileIndex es)"
  let ?g = "loop_revive env opts es ?dup"
  let ?tgt = "\<lambda>l. fst (loopTarget es l ?dup)"
  have own: "c < length next \<Longrightarrow> loopFile_of (next ! c) = Some f \<Longrightarrow> c \<notin> set (drop_list es loops) \<Longrightarrow>
     c < length es \<and> loopFile_of (es ! c) = Some f \<and> \<not> repeated es c \<or>
     (\<exists>l \<in> set loops. dl_file l = f \<and> ?tgt l = (if c < length es then Some c else None))" for c
    using reconcile_owner [OF n, of c f] f by (auto simp: drop_mem)
  have a: "a < length es \<and> loopFile_of (es ! a) = Some f \<and> \<not> repeated es a \<or>
     (\<exists>l \<in> set loops. dl_file l = f \<and> ?tgt l = (if a < length es then Some a else None))"
    using own [of a] ab both(1) kept(1) by simp
  have b: "b < length es \<and> loopFile_of (es ! b) = Some f \<and> \<not> repeated es b \<or>
     (\<exists>l \<in> set loops. dl_file l = f \<and> ?tgt l = (if b < length es then Some b else None))"
    using own [of b] ab both(2) kept(2) by simp
  have same: "l = l'" if "l \<in> set loops" "l' \<in> set loops" "dl_file l = f" "dl_file l' = f" for l l'
    using d that by (simp add: distinct_map inj_on_def)
  have ptr: "?tgt l = Some c" if "dl_file l = f" "c < length es" "loopFile_of (es ! c) = Some f" "\<not> repeated es c" for l c
    using loopTarget_pointer [OF refl that(2)] that f by simp
  have push: "\<not> a < length es \<and> \<not> b < length es"
  proof (cases "\<exists>l \<in> set loops. dl_file l = f \<and> ?tgt l = (if a < length es then Some a else None)")
    case True
    then obtain l where l: "l \<in> set loops" "dl_file l = f" "?tgt l = (if a < length es then Some a else None)" by blast
    have "\<not> (b < length es \<and> loopFile_of (es ! b) = Some f \<and> \<not> repeated es b)"
      using ptr [OF l(2), of b] l(3) ab(1) by (auto split: if_splits)
    then have "?tgt l = (if b < length es then Some b else None)" using b l same by blast
    then show ?thesis using l(3) ab(1) by (auto split: if_splits)
  next
    case False
    then have orig: "a < length es" "loopFile_of (es ! a) = Some f" "\<not> repeated es a" using a by blast+
    have "\<not> (b < length es \<and> loopFile_of (es ! b) = Some f \<and> \<not> repeated es b)"
      using orig ab(1) by (auto simp: repeated_def)
    then obtain l where l: "dl_file l = f" "?tgt l = (if b < length es then Some b else None)" using b by blast
    then show ?thesis using ptr [OF l(1) orig] ab(1) by (auto split: if_splits)
  qed
  let ?m = "List.map_filter (\<lambda>l. pushed (?g l)) loops"
  note at = nth_pushed [OF reconcile_next(1) [OF n]]
  have lf: "pushed (?g l) = Some t \<Longrightarrow> loopFile_of (JObj t) \<in> {None, Some (dl_file l)}" for l t
    using loop_revive_Some(2) [of env opts es ?dup l None t] by (auto simp: pushed_def split: option.splits)
  have "a - length es < b - length es" using push ab(1) by linarith
  from pushed_unique [of loops ?g, OF d lf this, of f] show False
    using at [of a] at [of b] push ab both by simp
qed

text \<open>
  Reconciliation keeps the store consistent with the loop files: every task that points at a
  loop file points at a discovered one, no two tasks point at the same file, and a task with no
  loop file is neither dropped nor changed unless a discovered loop bears its name or its id.
\<close>

theorem reconcile_consistent_with_files:
  assumes "distinct (map dl_file loops)"
  shows "(\<forall>e \<in> set (fst (applyLoopEntries env es loops opts)). \<forall>f. loopFile_of e = Some f \<longrightarrow> f \<noteq> [] \<longrightarrow> f \<in> dl_file ` set loops) \<and>
    (\<forall>i j f. i < j \<longrightarrow> j < length (fst (applyLoopEntries env es loops opts)) \<longrightarrow> f \<noteq> [] \<longrightarrow>
       loopFile_of (fst (applyLoopEntries env es loops opts) ! i) = Some f \<longrightarrow>
       loopFile_of (fst (applyLoopEntries env es loops opts) ! j) \<noteq> Some f) \<and>
    (\<forall>e \<in> set es. loopFile_of e = None \<longrightarrow> (\<forall>l \<in> set loops. \<not> name_or_id l e) \<longrightarrow>
       e \<in> set (fst (applyLoopEntries env es loops opts)))"
proof (intro conjI ballI allI impI)
  define nx where "nx = fold place (map (loop_revive env opts es (duplicatePointers (loopFileIndex es))) loops) es"
  define ix where "ix = filter (\<lambda>i. i \<notin> set (drop_list es loops)) [0 ..< length nx]"
  have r: "fst (applyLoopEntries env es loops opts) = map ((!) nx) ix"
    unfolding ix_def by (rule applyLoopEntries_eq [OF nx_def])
  {
    fix e f assume "e \<in> set (fst (applyLoopEntries env es loops opts))" "loopFile_of e = Some f" "f \<noteq> []"
    then obtain i where i: "i < length nx" "i \<notin> set (drop_list es loops)" "loopFile_of (nx ! i) = Some f" unfolding r ix_def by auto
    then show "f \<in> dl_file ` set loops" using reconcile_owner [OF nx_def i(1,3)] \<open>f \<noteq> []\<close> by (auto simp: drop_mem)
  next
    fix i j f assume a: "i < j" "j < length (fst (applyLoopEntries env es loops opts))" "f \<noteq> []"
      "loopFile_of (fst (applyLoopEntries env es loops opts) ! i) = Some f"
    have "sorted_wrt (<) ix" by (simp add: ix_def sorted_wrt_filter)
    then have lt: "ix ! i < ix ! j" using a(1,2) r by (simp add: sorted_wrt_nth_less)
    have mem: "ix ! i \<in> set ix" "ix ! j \<in> set ix" using a(1,2) r by simp_all
    show "loopFile_of (fst (applyLoopEntries env es loops opts) ! j) \<noteq> Some f"
      using reconcile_unique [OF nx_def assms lt _ a(3)] mem a r by (auto simp: ix_def)
  next
    fix e assume e: "e \<in> set es" "loopFile_of e = None" "\<forall>l \<in> set loops. \<not> name_or_id l e"
    then obtain i where i: "i < length es" "es ! i = e" by (auto simp: in_set_conv_nth)
    have "nx ! i = e"
    proof (rule ccontr)
      assume "nx ! i \<noteq> e"
      then obtain l t where l: "l \<in> set loops" "loop_revive env opts es (duplicatePointers (loopFileIndex es)) l = Some (Some i, t)"
        using reconcile_next(3) [OF nx_def i(1)] i(2) by blast
      then show False using loopTarget_Some [OF loop_revive_Some(1) [OF l(2), symmetric]] e(2,3) i(2) by auto
    qed
    moreover have "i \<in> set ix" using i e(2) reconcile_next(2) [OF nx_def] by (simp add: ix_def drop_mem)
    ultimately show "e \<in> set (fst (applyLoopEntries env es loops opts))" unfolding r by force
  }
qed

theorem reconcile_consistent_with_files_witness:
  "\<exists>r. r = fst (applyLoopEntries sample_zone
       [JObj [(''id'', JStr ''a''), (''name'', JStr ''hand'')], JObj [(''id'', JStr ''x''), (''loopFile'', JStr ''/gone.md'')],
        JObj [(''id'', JStr ''y''), (''loopFile'', JStr ''/gone.md'')]] [loop_fail ''tidy'' ''bad''] sample_opts) \<and>
     JObj [(''id'', JStr ''a''), (''name'', JStr ''hand'')] \<in> set r \<and>
     (\<forall>e \<in> set r. \<forall>f. loopFile_of e = Some f \<longrightarrow> f = [])"
proof -
  let ?es = "[JObj [(''id'', JStr ''a''), (''name'', JStr ''hand'')], JObj [(''id'', JStr ''x''), (''loopFile'', JStr ''/gone.md'')],
        JObj [(''id'', JStr ''y''), (''loopFile'', JStr ''/gone.md'')]]"
  let ?ls = "[loop_fail ''tidy'' ''bad'']"
  have d: "distinct (map dl_file ?ls)" by simp
  note c = reconcile_consistent_with_files [OF d, of sample_zone ?es sample_opts]
  have "\<not> name_or_id (loop_fail ''tidy'' ''bad'') (JObj [(''id'', JStr ''a''), (''name'', JStr ''hand'')])"
    "loopFile_of (JObj [(''id'', JStr ''a''), (''name'', JStr ''hand'')]) = None"
    by (simp_all add: name_or_id_def loop_fail_def loopFile_of_def loopTaskId_def)
  then have "JObj [(''id'', JStr ''a''), (''name'', JStr ''hand'')] \<in> set (fst (applyLoopEntries sample_zone ?es ?ls sample_opts))"
    using c by simp
  moreover have "f = []" if "e \<in> set (fst (applyLoopEntries sample_zone ?es ?ls sample_opts))" "loopFile_of e = Some f" for e f
  proof (rule ccontr)
    assume "f \<noteq> []"
    then have "f \<in> dl_file ` set ?ls" using c that by blast
    then show False using \<open>f \<noteq> []\<close> by (simp add: loop_fail_def)
  qed
  ultimately show ?thesis by blast
qed

end
