(* ===== verification/Sched_Pump.thy ===== *)
theory Sched_Pump
  imports Sched_Claims
begin

text \<open>
  The in-process scheduling state and run control of scheduled tasks
  (\<open>server/scheduled/scheduled-state.ts\<close>, \<open>scheduled-run.ts\<close> and
  \<open>scheduled-runtime.ts\<close>): task maps, due timers that re-arm beyond the range of
  \<open>setTimeout\<close>, the run queue and the slot counters. A \<open>Set\<close> is a list without
  repetition, a \<open>Map\<close> an association list. The handlers are functions on the state; what a
  run does between its start and its settlement is left open here.
\<close>

section \<open>State\<close>

definition MAX_TIMEOUT_MS :: int where "MAX_TIMEOUT_MS = 2147483647"

datatype run_reason = Scheduled | Manual | Resume

record RunRequest =
  rq_projectId :: string
  rq_taskId :: string
  rq_reason :: run_reason
  rq_scheduledFor :: "int option"

record mem_task =
  mt_id :: string
  mt_enabled :: bool
  mt_schedule :: "Schedule option"
  mt_dispatch :: "OccurrenceDispatch option"

text \<open>\<open>te_rearm\<close>: the callback arms again instead of enqueueing.\<close>

record TimerEntry =
  te_projectId :: string
  te_task :: mem_task
  te_dueAt :: int
  te_fireAt :: int
  te_rearm :: bool

record RuntimeLimits =
  maxGlobalConcurrency :: nat
  maxProjectConcurrency :: nat

definition default_limits :: RuntimeLimits where
  "default_limits = \<lparr>maxGlobalConcurrency = 4, maxProjectConcurrency = 2\<rparr>"

record ScheduledState =
  inert :: bool
  tasksByProject :: "(string \<times> (string \<times> mem_task) list) list"
  timers :: "(string \<times> TimerEntry) list"
  queue :: "RunRequest list"
  queued :: "string list"
  running :: "string list"
  globalRunning :: int
  projectRunning :: "(string \<times> int) list"

definition keyOf :: "string \<Rightarrow> string \<Rightarrow> string" where
  "keyOf projectId taskId = projectId @ '':'' @ taskId"

abbreviation key_of :: "RunRequest \<Rightarrow> string" where
  "key_of r \<equiv> keyOf (rq_projectId r) (rq_taskId r)"

definition init_state :: ScheduledState where
  "init_state = \<lparr>inert = False, tasksByProject = [], timers = [], queue = [], queued = [], running = [],
     globalRunning = 0, projectRunning = []\<rparr>"

definition memoryTask :: "string \<Rightarrow> string \<Rightarrow> ScheduledState \<Rightarrow> mem_task option" where
  "memoryTask projectId taskId s =
     (case map_of (tasksByProject s) projectId of Some m \<Rightarrow> map_of m taskId | None \<Rightarrow> None)"

definition remember :: "string \<Rightarrow> mem_task \<Rightarrow> ScheduledState \<Rightarrow> ScheduledState" where
  "remember projectId task s =
     (case map_of (tasksByProject s) projectId of
        None \<Rightarrow> s
      | Some m \<Rightarrow> s\<lparr>tasksByProject := AList.update projectId (AList.update (mt_id task) task m) (tasksByProject s)\<rparr>)"

definition projectSlots :: "string \<Rightarrow> ScheduledState \<Rightarrow> int" where
  "projectSlots projectId s = (case map_of (projectRunning s) projectId of Some n \<Rightarrow> n | None \<Rightarrow> 0)"

section \<open>Timers\<close>

definition clearTimer :: "string \<Rightarrow> string \<Rightarrow> ScheduledState \<Rightarrow> ScheduledState" where
  "clearTimer projectId taskId s = s\<lparr>timers := AList.delete (keyOf projectId taskId) (timers s)\<rparr>"

text \<open>\<open>dueAt\<close> is \<open>None\<close> where the code has no finite number.\<close>

definition scheduleFutureRun :: "int \<Rightarrow> int \<Rightarrow> string \<Rightarrow> mem_task \<Rightarrow> int option \<Rightarrow> ScheduledState \<Rightarrow> ScheduledState" where
  "scheduleFutureRun now jitter projectId task dueAt s =
     (let s1 = clearTimer projectId (mt_id task) s
      in case dueAt of
           None \<Rightarrow> s1
         | Some due \<Rightarrow>
             if inert s \<or> \<not> mt_enabled task \<or> due \<le> now then s1
             else
               let delay = max 0 (due - now + jitter);
                   far = delay > MAX_TIMEOUT_MS
               in s1\<lparr>timers := AList.update (keyOf projectId (mt_id task))
                    \<lparr>te_projectId = projectId, te_task = task, te_dueAt = due,
                     te_fireAt = now + (if far then MAX_TIMEOUT_MS else delay), te_rearm = far\<rparr> (timers s1)\<rparr>)"

section \<open>Queue and slots\<close>

definition take_slot :: "string \<Rightarrow> string \<Rightarrow> ScheduledState \<Rightarrow> ScheduledState" where
  "take_slot projectId key s =
     s\<lparr>running := List.insert key (running s), globalRunning := globalRunning s + 1,
       projectRunning := AList.update projectId (projectSlots projectId s + 1) (projectRunning s)\<rparr>"

definition free_slot :: "string \<Rightarrow> string \<Rightarrow> ScheduledState \<Rightarrow> ScheduledState" where
  "free_slot projectId key s =
     s\<lparr>running := removeAll key (running s), globalRunning := globalRunning s - 1,
       projectRunning := AList.update projectId (projectSlots projectId s - 1) (projectRunning s)\<rparr>"

text \<open>The pump: the runs it starts, in order, and the state after.\<close>

function pump :: "RuntimeLimits \<Rightarrow> ScheduledState \<Rightarrow> RunRequest list \<times> ScheduledState" where
  "pump L s =
     (if globalRunning s \<ge> int (maxGlobalConcurrency L) then ([], s)
      else (case queue s of
              [] \<Rightarrow> ([], s)
            | next # rest \<Rightarrow>
                if projectSlots (rq_projectId next) s \<ge> int (maxProjectConcurrency L) then ([], s)
                else
                  let r = pump L (take_slot (rq_projectId next) (key_of next)
                            (s\<lparr>queue := rest, queued := removeAll (key_of next) (queued s)\<rparr>))
                  in (next # fst r, snd r)))"
  by pat_completeness auto
termination
  by (relation "measure (\<lambda>(L, s). length (queue s))") (auto simp: take_slot_def)

declare pump.simps [simp del]

definition enqueueRun :: "RuntimeLimits \<Rightarrow> RunRequest \<Rightarrow> ScheduledState \<Rightarrow> bool \<times> RunRequest list \<times> ScheduledState" where
  "enqueueRun L request s =
     (if inert s \<or> key_of request \<in> set (queued s) \<or> key_of request \<in> set (running s) then (False, [], s)
      else (True, pump L (s\<lparr>queued := queued s @ [key_of request], queue := queue s @ [request]\<rparr>)))"

definition onDue :: "RuntimeLimits \<Rightarrow> string \<Rightarrow> string \<Rightarrow> int \<Rightarrow> ScheduledState \<Rightarrow> RunRequest list \<times> ScheduledState" where
  "onDue L projectId taskId scheduledFor s =
     (case memoryTask projectId taskId s of
        None \<Rightarrow> ([], s)
      | Some task \<Rightarrow>
          if \<not> mt_enabled task then ([], s)
          else snd (enqueueRun L \<lparr>rq_projectId = projectId, rq_taskId = taskId, rq_reason = Scheduled,
                                 rq_scheduledFor = Some scheduledFor\<rparr> s))"

text \<open>A timer's callback, at the time it runs.\<close>

definition fire :: "RuntimeLimits \<Rightarrow> int \<Rightarrow> int \<Rightarrow> string \<Rightarrow> ScheduledState \<Rightarrow> RunRequest list \<times> ScheduledState" where
  "fire L now jitter key s =
     (case map_of (timers s) key of
        None \<Rightarrow> ([], s)
      | Some e \<Rightarrow>
          let s1 = s\<lparr>timers := AList.delete key (timers s)\<rparr>
          in if te_rearm e then ([], scheduleFutureRun now jitter (te_projectId e) (te_task e) (Some (te_dueAt e)) s1)
             else onDue L (te_projectId e) (mt_id (te_task e)) (te_dueAt e) s1)"

definition settle :: "RuntimeLimits \<Rightarrow> RunRequest \<Rightarrow> ScheduledState \<Rightarrow> RunRequest list \<times> ScheduledState" where
  "settle L request s = pump L (free_slot (rq_projectId request) (key_of request) s)"

datatype run_now = TaskBusy | CapacityExhausted | Started

definition runNow :: "RuntimeLimits \<Rightarrow> string \<Rightarrow> string \<Rightarrow> ScheduledState \<Rightarrow> run_now \<times> ScheduledState" where
  "runNow L projectId taskId s =
     (let key = keyOf projectId taskId
      in if key \<in> set (queued s) \<or> key \<in> set (running s) then (TaskBusy, s)
         else if globalRunning s \<ge> int (maxGlobalConcurrency L) \<or> projectSlots projectId s \<ge> int (maxProjectConcurrency L)
           then (CapacityExhausted, s)
         else (Started, take_slot projectId key s))"

section \<open>Projects, start and stop\<close>

definition project_part :: "string \<Rightarrow> string" where
  "project_part key = takeWhile (\<lambda>c. c \<noteq> CHR '':'') key"

definition dropProjectsNotIn :: "string list \<Rightarrow> ScheduledState \<Rightarrow> ScheduledState" where
  "dropProjectsNotIn known s =
     (let gone = filter (\<lambda>(key, e). project_part key \<notin> set known) (timers s)
      in s\<lparr>timers := filter (\<lambda>(key, e). project_part key \<in> set known) (timers s),
           tasksByProject := filter (\<lambda>(p, m). p \<notin> (\<lambda>(key, e). project_part key) ` set gone) (tasksByProject s)\<rparr>)"

definition dropTasksNotIn :: "string \<Rightarrow> string list \<Rightarrow> ScheduledState \<Rightarrow> ScheduledState" where
  "dropTasksNotIn projectId knownIds s =
     (let prefix = projectId @ '':''
      in s\<lparr>timers := filter (\<lambda>(key, e). \<not> (starts_with key prefix \<and> drop (length prefix) key \<notin> set knownIds)) (timers s)\<rparr>)"

definition clearForStop :: "ScheduledState \<Rightarrow> ScheduledState" where
  "clearForStop s = s\<lparr>timers := [], queue := [], queued := []\<rparr>"

definition stop :: "ScheduledState \<Rightarrow> ScheduledState" where
  "stop s = clearForStop (s\<lparr>inert := True\<rparr>)"

text \<open>\<open>env\<close> gives the zones, \<open>alive\<close> the processes that run; the list of tasks is what
  the store load returned.\<close>

definition sync_task ::
  "RuntimeLimits \<Rightarrow> zone_env \<Rightarrow> int \<Rightarrow> (int \<Rightarrow> bool) \<Rightarrow> int \<Rightarrow> int \<Rightarrow> string \<Rightarrow> mem_task \<Rightarrow> ScheduledState \<Rightarrow> ScheduledState"
where
  "sync_task L env pid alive now jitter projectId task s =
     (let s1 = scheduleFutureRun now jitter projectId task (computeNextRunAt env (mt_schedule task) (mt_enabled task) now) s
      in case mt_dispatch task of
           Some d \<Rightarrow>
             if ownedByLiveProcess pid alive d then s1
             else snd (snd (enqueueRun L \<lparr>rq_projectId = projectId, rq_taskId = mt_id task, rq_reason = Resume,
                                         rq_scheduledFor = Some \<lfloor>od_scheduledFor d\<rfloor>\<rparr> s1))
         | None \<Rightarrow> s1)"

definition syncScheduledProject ::
  "RuntimeLimits \<Rightarrow> zone_env \<Rightarrow> int \<Rightarrow> (int \<Rightarrow> bool) \<Rightarrow> int \<Rightarrow> int \<Rightarrow> string \<Rightarrow> mem_task list \<Rightarrow> ScheduledState \<Rightarrow> ScheduledState"
where
  "syncScheduledProject L env pid alive now jitter projectId tasks s =
     (let m = fold (\<lambda>t m. AList.update (mt_id t) t m) tasks [];
          s1 = s\<lparr>tasksByProject := AList.update projectId m (tasksByProject s)\<rparr>;
          s2 = dropTasksNotIn projectId (map fst m) s1
      in fold (sync_task L env pid alive now jitter projectId) (map snd m) s2)"

text \<open>\<open>start()\<close>: the projects whose load succeeded are synced, the others skipped.\<close>

definition syncAllScheduledProjects ::
  "RuntimeLimits \<Rightarrow> zone_env \<Rightarrow> int \<Rightarrow> (int \<Rightarrow> bool) \<Rightarrow> int \<Rightarrow> int \<Rightarrow> string list \<Rightarrow> (string \<Rightarrow> mem_task list option) \<Rightarrow>
    ScheduledState \<Rightarrow> ScheduledState"
where
  "syncAllScheduledProjects L env pid alive now jitter projects loaded s =
     fold (\<lambda>p s. case loaded p of Some tasks \<Rightarrow> syncScheduledProject L env pid alive now jitter p tasks s | None \<Rightarrow> s)
       projects (dropProjectsNotIn projects (s\<lparr>inert := False\<rparr>))"

section \<open>Counters and capacity\<close>

text \<open>What the slot bookkeeping promises: the counters count the running keys, no limit is
  exceeded, a key is queued once, in the queue's order, and never both queued and running.\<close>

definition project_keys :: "string \<Rightarrow> string list \<Rightarrow> nat" where
  "project_keys p ks = length (filter (\<lambda>k. project_part k = p) ks)"

definition legal_project :: "string \<Rightarrow> bool" where
  "legal_project p \<longleftrightarrow> CHR '':'' \<notin> set p"

definition slot_inv :: "RuntimeLimits \<Rightarrow> ScheduledState \<Rightarrow> bool" where
  "slot_inv L s \<longleftrightarrow>
     distinct (running s) \<and> distinct (queued s) \<and> map key_of (queue s) = queued s \<and> set (queued s) \<inter> set (running s) = {} \<and>
     globalRunning s = int (length (running s)) \<and> (\<forall>p. legal_project p \<longrightarrow> projectSlots p s = int (project_keys p (running s))) \<and>
     length (running s) \<le> maxGlobalConcurrency L \<and> (\<forall>p. legal_project p \<longrightarrow> project_keys p (running s) \<le> maxProjectConcurrency L) \<and>
     (\<forall>r \<in> set (queue s). legal_project (rq_projectId r))"

lemma project_part_keyOf [simp]: "legal_project p \<Longrightarrow> project_part (keyOf p t) = p"
  by (simp add: project_part_def keyOf_def legal_project_def takeWhile_append)

lemma projectSlots_update:
  "projectSlots q (s\<lparr>projectRunning := AList.update p n m\<rparr>) = (if q = p then n else (case map_of m q of Some k \<Rightarrow> k | None \<Rightarrow> 0))"
  by (auto simp: projectSlots_def update_conv)

lemma take_slot_sel [simp]:
  "queue (take_slot p k s) = queue s" "queued (take_slot p k s) = queued s" "running (take_slot p k s) = List.insert k (running s)"
  "globalRunning (take_slot p k s) = globalRunning s + 1"
  "projectSlots q (take_slot p k s) = projectSlots q s + (if q = p then 1 else 0)"
  by (auto simp: take_slot_def projectSlots_def update_conv)

lemma free_slot_sel [simp]:
  "queue (free_slot p k s) = queue s" "queued (free_slot p k s) = queued s" "running (free_slot p k s) = removeAll k (running s)"
  "globalRunning (free_slot p k s) = globalRunning s - 1"
  "projectSlots q (free_slot p k s) = projectSlots q s - (if q = p then 1 else 0)"
  by (auto simp: free_slot_def projectSlots_def update_conv)

lemma slots_queue [simp]: "projectSlots q (s\<lparr>queue := a, queued := b\<rparr>) = projectSlots q s"
  "projectSlots q (s\<lparr>queued := b, queue := a\<rparr>) = projectSlots q s"
  by (simp_all add: projectSlots_def)

lemma project_keys_insert:
  "k \<notin> set ks \<Longrightarrow> project_keys p (k # ks) = project_keys p ks + of_bool (project_part k = p)"
  by (simp add: project_keys_def)

lemma project_keys_remove:
  assumes "distinct ks" "k \<in> set ks"
  shows "project_keys p (removeAll k ks) + of_bool (project_part k = p) = project_keys p ks"
  using assms by (induction ks) (auto simp: project_keys_def)

lemma length_removeAll_distinct: "distinct xs \<Longrightarrow> x \<in> set xs \<Longrightarrow> length (removeAll x xs) + 1 = length xs"
  by (induction xs) auto

lemma take_slot_inv:
  assumes "slot_inv L s" "legal_project p" "keyOf p t \<notin> set (running s)" "keyOf p t \<notin> set (queued s)"
    and "globalRunning s < int (maxGlobalConcurrency L)" "projectSlots p s < int (maxProjectConcurrency L)"
  shows "slot_inv L (take_slot p (keyOf p t) s)"
  using assms unfolding slot_inv_def
  by (auto simp: List.insert_def project_keys_insert)

lemma free_slot_inv:
  assumes "slot_inv L s" "legal_project p" "keyOf p t \<in> set (running s)"
  shows "slot_inv L (free_slot p (keyOf p t) s)"
proof -
  have d: "distinct (running s)" using assms(1) by (simp add: slot_inv_def)
  have len: "length (removeAll (keyOf p t) (running s)) + 1 = length (running s)"
    by (rule length_removeAll_distinct [OF d assms(3)])
  have keys: "project_keys q (removeAll (keyOf p t) (running s)) + of_bool (p = q) = project_keys q (running s)" for q
    using project_keys_remove [OF d assms(3), of q] assms(2) by simp
  have slots: "projectSlots q s - (if q = p then 1 else 0) = int (project_keys q (removeAll (keyOf p t) (running s)))" if "legal_project q" for q
    using keys [of q] assms(1) that by (auto simp: slot_inv_def)
  show ?thesis
    using assms(1) len keys slots unfolding slot_inv_def
    by (auto simp: distinct_removeAll) (metis add_leD1)
qed

lemma pop_inv:
  assumes "slot_inv L s" "queue s = r # rest"
  shows "slot_inv L (s\<lparr>queue := rest, queued := removeAll (key_of r) (queued s)\<rparr>)"
    and "key_of r \<notin> set (running s)" "legal_project (rq_projectId r)"
proof -
  have q: "queued s = key_of r # map key_of rest" "distinct (queued s)" using assms by (auto simp: slot_inv_def)
  then have "removeAll (key_of r) (queued s) = map key_of rest" by (metis distinct.simps(2) removeAll.simps(2) removeAll_id)
  then show "slot_inv L (s\<lparr>queue := rest, queued := removeAll (key_of r) (queued s)\<rparr>)"
    using assms q by (auto simp: slot_inv_def)
  show "key_of r \<notin> set (running s)" "legal_project (rq_projectId r)" using assms q by (auto simp: slot_inv_def)
qed

lemma pump_inv: "slot_inv L s \<Longrightarrow> slot_inv L (snd (pump L s))"
proof (induction L s rule: pump.induct)
  case (1 L s)
  show ?case
  proof (cases "globalRunning s \<ge> int (maxGlobalConcurrency L) \<or> queue s = []")
    case True
    then show ?thesis using 1(2) by (auto simp: pump.simps [of L s])
  next
    case False
    then obtain r rest where q: "queue s = r # rest" by (cases "queue s") auto
    show ?thesis
    proof (cases "projectSlots (rq_projectId r) s \<ge> int (maxProjectConcurrency L)")
      case True
      then show ?thesis using 1(2) q by (simp add: pump.simps [of L s])
    next
      case open_slot: False
      let ?s = "s\<lparr>queue := rest, queued := removeAll (key_of r) (queued s)\<rparr>"
      note pop = pop_inv [OF 1(2) q]
      have "slot_inv L (take_slot (rq_projectId r) (key_of r) ?s)"
        by (rule take_slot_inv [OF pop(1,3)]) (use pop(2) False open_slot in auto)
      then show ?thesis using 1(1) [OF _ q open_slot] False q open_slot by (simp add: pump.simps [of L s] Let_def)
    qed
  qed
qed

section \<open>Every handler keeps the counters\<close>

definition timers_ok :: "ScheduledState \<Rightarrow> bool" where
  "timers_ok s \<longleftrightarrow> (\<forall>(k, e) \<in> set (timers s). legal_project (te_projectId e) \<and> k = keyOf (te_projectId e) (mt_id (te_task e)))"

definition rt_ok :: "RuntimeLimits \<Rightarrow> ScheduledState \<Rightarrow> bool" where
  "rt_ok L s \<longleftrightarrow> slot_inv L s \<and> timers_ok s"

lemma slot_inv_timers [simp]:
  "slot_inv L (s\<lparr>timers := t\<rparr>) = slot_inv L s" "slot_inv L (s\<lparr>tasksByProject := m\<rparr>) = slot_inv L s" "slot_inv L (s\<lparr>inert := b\<rparr>) = slot_inv L s"
  by (simp_all add: slot_inv_def projectSlots_def)

lemma timers_ok_slots [simp]:
  "timers_ok (take_slot p k s) = timers_ok s" "timers_ok (free_slot p k s) = timers_ok s"
  "timers_ok (s\<lparr>queue := a, queued := b\<rparr>) = timers_ok s" "timers_ok (s\<lparr>queued := b, queue := a\<rparr>) = timers_ok s"
  "timers_ok (s\<lparr>tasksByProject := m\<rparr>) = timers_ok s" "timers_ok (s\<lparr>inert := i\<rparr>) = timers_ok s"
  by (simp_all add: timers_ok_def take_slot_def free_slot_def)

lemma timers_pump [simp]: "timers (snd (pump L s)) = timers s"
proof (induction L s rule: pump.induct)
  case (1 L s)
  then show ?case by (cases "queue s") (auto simp: pump.simps [of L s] Let_def take_slot_def)
qed

lemma rt_ok_pump: "rt_ok L s \<Longrightarrow> rt_ok L (snd (pump L s))"
  by (simp add: rt_ok_def pump_inv timers_ok_def)

lemma rt_ok_enqueue:
  assumes "rt_ok L s" "legal_project (rq_projectId r)"
  shows "rt_ok L (snd (snd (enqueueRun L r s)))"
proof -
  have "rt_ok L (s\<lparr>queued := queued s @ [key_of r], queue := queue s @ [r]\<rparr>)"
    if "key_of r \<notin> set (queued s)" "key_of r \<notin> set (running s)"
    using assms that by (auto simp: rt_ok_def slot_inv_def)
  then show ?thesis using assms by (simp add: enqueueRun_def rt_ok_pump)
qed

lemma timers_ok_mono: "set t \<subseteq> set (timers s) \<Longrightarrow> timers_ok s \<Longrightarrow> timers_ok (s\<lparr>timers := t\<rparr>)"
  unfolding timers_ok_def by simp blast

lemma rt_ok_delete_timer:
  assumes "rt_ok L s"
  shows "rt_ok L (s\<lparr>timers := AList.delete k (timers s)\<rparr>)"
proof -
  have "set (AList.delete k (timers s)) \<subseteq> set (timers s)" by (auto simp: AList.delete_eq)
  then show ?thesis using assms timers_ok_mono by (simp add: rt_ok_def)
qed

lemma rt_ok_schedule:
  assumes "rt_ok L s" "legal_project p"
  shows "rt_ok L (scheduleFutureRun now jitter p task due s)"
proof -
  have del: "rt_ok L (clearTimer p (mt_id task) s)" using rt_ok_delete_timer [OF assms(1)] by (simp add: clearTimer_def)
  have "rt_ok L (s1\<lparr>timers := AList.update (keyOf p (mt_id task)) e (timers s1)\<rparr>)"
    if "rt_ok L s1" "te_projectId e = p" "te_task e = task" for s1 e
  proof -
    have "set (AList.update k e xs) \<subseteq> insert (k, e) (set xs)" for k and xs :: "(string \<times> TimerEntry) list"
      by (induction xs) auto
    then show ?thesis using that assms(2) by (fastforce simp: rt_ok_def timers_ok_def)
  qed
  then show ?thesis using del by (simp add: scheduleFutureRun_def Let_def split: option.split)
qed

lemma rt_ok_onDue: "rt_ok L s \<Longrightarrow> legal_project p \<Longrightarrow> rt_ok L (snd (onDue L p t due s))"
  by (auto simp: onDue_def rt_ok_enqueue split: option.split)

lemma rt_ok_fire:
  assumes "rt_ok L s"
  shows "rt_ok L (snd (fire L now jitter key s))"
proof (cases "map_of (timers s) key")
  case (Some e)
  then have "legal_project (te_projectId e)" using assms map_of_SomeD [OF Some] by (auto simp: rt_ok_def timers_ok_def)
  then show ?thesis using Some rt_ok_delete_timer [OF assms]
    by (simp add: fire_def Let_def rt_ok_schedule rt_ok_onDue)
qed (simp add: fire_def assms)

text \<open>A handler with an argument that keeps the bookkeeping, and its repetition.\<close>

locale slot_keeping =
  fixes L :: RuntimeLimits and f :: "'x \<Rightarrow> ScheduledState \<Rightarrow> ScheduledState" and ok :: "'x \<Rightarrow> bool"
  assumes keeps: "rt_ok L s \<Longrightarrow> ok x \<Longrightarrow> rt_ok L (f x s)"
begin

lemma fold_keeps: "rt_ok L s \<Longrightarrow> \<forall>x \<in> set xs. ok x \<Longrightarrow> rt_ok L (fold f xs s)"
  by (induction xs arbitrary: s) (auto intro: keeps)

end

interpretation sync_task: slot_keeping L "\<lambda>(p, task). sync_task L env pid alive now jitter p task" "\<lambda>(p, task). legal_project p"
  for L env pid alive now jitter
  by unfold_locales
     (auto simp: sync_task_def Let_def rt_ok_schedule intro!: rt_ok_enqueue split: option.split)

lemma rt_ok_dropTasks: "rt_ok L s \<Longrightarrow> rt_ok L (dropTasksNotIn p ids s)"
  by (auto simp: rt_ok_def dropTasksNotIn_def Let_def timers_ok_def)

lemma rt_ok_dropProjects: "rt_ok L s \<Longrightarrow> rt_ok L (dropProjectsNotIn known s)"
  by (auto simp: rt_ok_def dropProjectsNotIn_def Let_def timers_ok_def)

lemma rt_ok_sync:
  assumes "rt_ok L s" "legal_project p"
  shows "rt_ok L (syncScheduledProject L env pid alive now jitter p tasks s)"
proof -
  define m where "m = fold (\<lambda>t m. AList.update (mt_id t) t m) tasks []"
  let ?s = "dropTasksNotIn p (map fst m) (s\<lparr>tasksByProject := AList.update p m (tasksByProject s)\<rparr>)"
  have "rt_ok L ?s" using assms(1) by (intro rt_ok_dropTasks) (simp add: rt_ok_def)
  then have "rt_ok L (fold (\<lambda>(p, task). sync_task L env pid alive now jitter p task) (map (Pair p) (map snd m)) ?s)"
    by (rule sync_task.fold_keeps) (use assms(2) in auto)
  then show ?thesis by (simp add: syncScheduledProject_def Let_def m_def fold_map comp_def)
qed

interpretation sync_project: slot_keeping L
  "\<lambda>p s. case loaded p of Some tasks \<Rightarrow> syncScheduledProject L env pid alive now jitter p tasks s | None \<Rightarrow> s" legal_project
  for L env pid alive now jitter loaded
  by unfold_locales (auto simp: rt_ok_sync split: option.split)

section \<open>The runtime\<close>

inductive pump_step :: "RuntimeLimits \<Rightarrow> ScheduledState \<Rightarrow> ScheduledState \<Rightarrow> bool" for L where
  fired: "pump_step L s (snd (fire L now jitter key s))"
| enqueued: "legal_project (rq_projectId r) \<Longrightarrow> pump_step L s (snd (snd (enqueueRun L r s)))"
| ran_now: "legal_project p \<Longrightarrow> pump_step L s (snd (runNow L p t s))"
| settled: "legal_project (rq_projectId r) \<Longrightarrow> key_of r \<in> set (running s) \<Longrightarrow> pump_step L s (snd (settle L r s))"
| rearmed: "legal_project p \<Longrightarrow> pump_step L s (scheduleFutureRun now jitter p task due s)"
| remembered: "pump_step L s (remember p task s)"
| stopped: "pump_step L s (stop s)"
| synced: "legal_project p \<Longrightarrow> pump_step L s (syncScheduledProject L env pid alive now jitter p tasks s)"
| started: "\<forall>p \<in> set projects. legal_project p \<Longrightarrow>
    pump_step L s (syncAllScheduledProjects L env pid alive now jitter projects loaded s)"

inductive pump_reach :: "RuntimeLimits \<Rightarrow> ScheduledState \<Rightarrow> bool" for L where
  pump_init: "pump_reach L init_state"
| pump_next: "pump_reach L s \<Longrightarrow> pump_step L s t \<Longrightarrow> pump_reach L t"

lemma pump_step_ok:
  assumes "pump_step L s t" "rt_ok L s"
  shows "rt_ok L t"
  using assms(1)
proof cases
  case (ran_now p t)
  then show ?thesis using assms(2) take_slot_inv [of L s p t]
    by (auto simp: runNow_def Let_def rt_ok_def)
next
  case (settled r)
  have "rt_ok L (free_slot (rq_projectId r) (key_of r) s)"
    using free_slot_inv [of L s "rq_projectId r" "rq_taskId r"] settled assms(2) by (simp add: rt_ok_def)
  then show ?thesis using settled by (simp add: settle_def rt_ok_pump)
next
  case (remembered p task)
  then show ?thesis using assms(2) by (auto simp: remember_def rt_ok_def split: option.split)
next
  case stopped
  then show ?thesis using assms(2) by (auto simp: stop_def clearForStop_def rt_ok_def slot_inv_def timers_ok_def projectSlots_def)
next
  case (started projects env pid alive now jitter loaded)
  have "rt_ok L (dropProjectsNotIn projects (s\<lparr>inert := False\<rparr>))"
    using assms(2) by (intro rt_ok_dropProjects) (simp add: rt_ok_def)
  then show ?thesis
    using sync_project.fold_keeps started by (simp add: syncAllScheduledProjects_def)
qed (use assms(2) in \<open>simp_all add: rt_ok_fire rt_ok_enqueue rt_ok_schedule rt_ok_sync\<close>)

lemma pump_reach_ok: "pump_reach L s \<Longrightarrow> rt_ok L s"
proof (induction rule: pump_reach.induct)
  case pump_init
  then show ?case by (simp add: rt_ok_def slot_inv_def timers_ok_def init_state_def project_keys_def projectSlots_def)
qed (rule pump_step_ok)

text \<open>C34.
  The slot bookkeeping never drifts. In every state of the runtime, whatever timers fire, runs
  settle, tasks are run by hand, projects are synced or the scheduler is stopped and started, the
  counters equal the runs going on, in all and per project, and stay within the limits; no task
  runs twice at a time, waits twice, or waits while it runs.
\<close>

theorem slots_never_exceed_limits:
  assumes "pump_reach L s"
  shows "globalRunning s = int (length (running s)) \<and> length (running s) \<le> maxGlobalConcurrency L \<and>
    (\<forall>p. legal_project p \<longrightarrow> projectSlots p s = int (project_keys p (running s)) \<and> project_keys p (running s) \<le> maxProjectConcurrency L) \<and>
    distinct (running s) \<and> distinct (map key_of (queue s)) \<and> set (map key_of (queue s)) \<inter> set (running s) = {}"
  using pump_reach_ok [OF assms] by (simp add: rt_ok_def slot_inv_def)

definition pump_demo :: ScheduledState where
  "pump_demo = snd (runNow default_limits ''proj'' ''t'' init_state)"

lemma pump_demo_reach: "pump_reach default_limits pump_demo"
  unfolding pump_demo_def by (intro pump_next [OF pump_init] ran_now) (simp add: legal_project_def)

theorem slots_never_exceed_limits_witness:
  "globalRunning pump_demo = 1 \<and> running pump_demo = [''proj:t''] \<and> projectSlots ''proj'' pump_demo = 1"
proof -
  have r: "running pump_demo = [''proj:t'']"
    by (simp add: pump_demo_def runNow_def Let_def init_state_def default_limits_def keyOf_def projectSlots_def)
  then show ?thesis
    using slots_never_exceed_limits [OF pump_demo_reach]
    by (auto simp: legal_project_def project_keys_def project_part_def)
qed

text \<open>
  The pump starts runs strictly in queue order and stops only for a reason: what it starts is a
  prefix of the queue, the rest stays queued, and afterwards the queue is empty, all slots are
  taken, or the project of the first waiting run has no slot left, so a second pump starts
  nothing.
\<close>

theorem pump_is_fifo_and_exhaustive:
  "queue s = fst (pump L s) @ queue (snd (pump L s)) \<and>
   (globalRunning (snd (pump L s)) \<ge> int (maxGlobalConcurrency L) \<or>
    (case queue (snd (pump L s)) of [] \<Rightarrow> True
     | r # _ \<Rightarrow> projectSlots (rq_projectId r) (snd (pump L s)) \<ge> int (maxProjectConcurrency L))) \<and>
   pump L (snd (pump L s)) = ([], snd (pump L s))"
proof (induction L s rule: pump.induct)
  case (1 L s)
  show ?case
  proof (cases "globalRunning s \<ge> int (maxGlobalConcurrency L) \<or>
      (case queue s of [] \<Rightarrow> True | r # _ \<Rightarrow> projectSlots (rq_projectId r) s \<ge> int (maxProjectConcurrency L))")
    case True
    then have p: "pump L s = ([], s)" by (auto simp: pump.simps [of L s] split: list.splits)
    show ?thesis unfolding p snd_conv fst_conv using True by (simp add: p)
  next
    case False
    then obtain r rest where q: "queue s = r # rest" and free: "\<not> projectSlots (rq_projectId r) s \<ge> int (maxProjectConcurrency L)"
      by (auto split: list.splits)
    let ?s = "take_slot (rq_projectId r) (key_of r) (s\<lparr>queue := rest, queued := removeAll (key_of r) (queued s)\<rparr>)"
    have p: "pump L s = (r # fst (pump L ?s), snd (pump L ?s))"
      using False q free by (simp add: pump.simps [of L s] Let_def)
    show ?thesis unfolding p snd_conv fst_conv using 1 [OF _ q free] False q by simp
  qed
qed

text \<open>
  An armed timer never fires before its slot: it fires within the jitter after the slot or, when
  the delay exceeds the range of \<open>setTimeout\<close>, before the slot and only to arm again; the
  delay given to \<open>setTimeout\<close> is always in range.
\<close>

theorem armed_timer_is_on_time:
  assumes "map_of (timers (scheduleFutureRun now jitter p task (Some due) s)) (keyOf p (mt_id task)) = Some e" "0 \<le> jitter"
  shows "te_dueAt e = due \<and> now < due \<and> mt_enabled task \<and> 0 \<le> te_fireAt e - now \<and> te_fireAt e - now \<le> MAX_TIMEOUT_MS \<and>
    (if te_rearm e then te_fireAt e < due + jitter else te_fireAt e = due + jitter)"
  using assms
  by (auto simp: scheduleFutureRun_def clearTimer_def Let_def update_conv AList.delete_conv' MAX_TIMEOUT_MS_def split: if_splits)

theorem armed_timer_is_on_time_witness:
  "\<exists>e. map_of (timers (scheduleFutureRun 0 5 ''proj'' \<lparr>mt_id = ''t'', mt_enabled = True, mt_schedule = None, mt_dispatch = None\<rparr>
      (Some 3000000000) init_state)) ''proj:t'' = Some e \<and> te_rearm e \<and> te_fireAt e = 2147483647 \<and> te_fireAt e < 3000000005"
proof -
  let ?t = "\<lparr>mt_id = ''t'', mt_enabled = True, mt_schedule = None, mt_dispatch = None\<rparr>"
  let ?s = "scheduleFutureRun 0 5 ''proj'' ?t (Some 3000000000) init_state"
  obtain e where e: "map_of (timers ?s) (keyOf ''proj'' (mt_id ?t)) = Some e" "te_rearm e" "te_fireAt e = 2147483647"
    by (simp add: scheduleFutureRun_def clearTimer_def init_state_def keyOf_def MAX_TIMEOUT_MS_def)
  show ?thesis using armed_timer_is_on_time [OF e(1)] e by (auto simp: keyOf_def)
qed

text \<open>
  A far slot is lost when its re-arm comes late: a timer that was to arm again and runs after the
  slot (a machine that slept) neither enqueues the run nor arms anything, so the task has no timer
  left, while a plain timer that fires late enqueues its exact slot.
\<close>

theorem late_rearm_loses_the_slot:
  assumes "map_of (timers s) key = Some e" "te_rearm e" "te_dueAt e \<le> now" "key = keyOf (te_projectId e) (mt_id (te_task e))"
  shows "fst (fire L now jitter key s) = [] \<and> queue (snd (fire L now jitter key s)) = queue s \<and>
    map_of (timers (snd (fire L now jitter key s))) key = None"
  using assms
  by (simp add: fire_def Let_def scheduleFutureRun_def clearTimer_def AList.delete_conv')

theorem late_rearm_loses_the_slot_witness:
  "\<exists>s. map_of (timers s) ''proj:t'' \<noteq> None \<and>
     map_of (timers (snd (fire default_limits 3000000001 0 ''proj:t'' s))) ''proj:t'' = None \<and>
     queue (snd (fire default_limits 3000000001 0 ''proj:t'' s)) = []"
proof -
  let ?t = "\<lparr>mt_id = ''t'', mt_enabled = True, mt_schedule = None, mt_dispatch = None\<rparr>"
  let ?s = "scheduleFutureRun 0 5 ''proj'' ?t (Some 3000000000) init_state"
  obtain e where e: "map_of (timers ?s) ''proj:t'' = Some e" "te_rearm e" "te_dueAt e = 3000000000" "te_projectId e = ''proj''" "te_task e = ?t"
    by (simp add: scheduleFutureRun_def clearTimer_def init_state_def keyOf_def MAX_TIMEOUT_MS_def)
  have q: "queue ?s = []" by (simp add: scheduleFutureRun_def clearTimer_def init_state_def Let_def)
  show ?thesis
    using late_rearm_loses_the_slot [OF e(1,2), of 3000000001] e q
    by (intro exI [of _ ?s]) (simp add: keyOf_def)
qed

end
