(* ===== verification/Sched_Lock.thy ===== *)
theory Sched_Lock
  imports Prelude
begin

text \<open>
  The cross-process config lock of the task store (\<open>server/scheduled/config-lock.ts\<close>): an
  exclusively created file that names its owner, stolen when it is old. The lock file is known
  with the process that created it, because a write to a descriptor whose file was unlinked
  does not reach the path. Acquisition is cut at its file-system calls, which is where other
  processes come in between.
\<close>

section \<open>The file and the decisions on it\<close>

definition CONFIG_LOCK_WAIT_MS :: int where "CONFIG_LOCK_WAIT_MS = 10000"
definition CONFIG_LOCK_STALE_MS :: int where "CONFIG_LOCK_STALE_MS = 60000"

record LockDocument =
  ld_pid :: int
  ld_at :: int

datatype lock_file = NoLock | LockFile (lock_creator: int) "LockDocument option" int

definition lockPathFor :: "string \<Rightarrow> string" where
  "lockPathFor configPath = configPath @ ''.lock''"

fun readLock :: "lock_file \<Rightarrow> LockDocument option" where
  "readLock NoLock = None"
| "readLock (LockFile c doc mtime) = doc"

fun isStaleUnreadable :: "lock_file \<Rightarrow> int \<Rightarrow> bool" where
  "isStaleUnreadable NoLock now = False"
| "isStaleUnreadable (LockFile c doc mtime) now = (now - mtime > 5000)"

definition may_steal :: "lock_file \<Rightarrow> int \<Rightarrow> bool" where
  "may_steal f now =
     (case readLock f of
        Some held \<Rightarrow> now - ld_at held > CONFIG_LOCK_STALE_MS
      | None \<Rightarrow> isStaleUnreadable f now)"

text \<open>\<open>openSync(lockPath, 'wx')\<close>: \<open>None\<close> is \<open>EEXIST\<close>.\<close>

definition open_wx :: "int \<Rightarrow> int \<Rightarrow> lock_file \<Rightarrow> lock_file option" where
  "open_wx pid now f = (if f = NoLock then Some (LockFile pid None now) else None)"

text \<open>The write through the descriptor.\<close>

definition write_lock :: "int \<Rightarrow> int \<Rightarrow> lock_file \<Rightarrow> lock_file" where
  "write_lock pid now f =
     (case f of
        LockFile c doc mtime \<Rightarrow> if c = pid then LockFile c (Some \<lparr>ld_pid = pid, ld_at = now\<rparr>) now else f
      | NoLock \<Rightarrow> NoLock)"

definition steal :: "lock_file \<Rightarrow> lock_file" where
  "steal f = NoLock"

definition releaseLock :: "int \<Rightarrow> lock_file \<Rightarrow> lock_file" where
  "releaseLock pid f = (case readLock f of Some doc \<Rightarrow> if ld_pid doc = pid then NoLock else f | None \<Rightarrow> f)"

section \<open>Processes\<close>

datatype lock_stage = LIdle | LWaiting int | LCreated int | LHolding | LStealing int

record lock_sys =
  lk_file :: lock_file
  lk_stage :: "int \<Rightarrow> lock_stage"
  lk_now :: int

definition stage_to :: "int \<Rightarrow> lock_stage \<Rightarrow> lock_sys \<Rightarrow> lock_sys" where
  "stage_to p st s = s\<lparr>lk_stage := (lk_stage s)(p := st)\<rparr>"

inductive lock_step :: "lock_sys \<Rightarrow> lock_sys \<Rightarrow> bool" where
  passed: "0 \<le> d \<Longrightarrow> lock_step s (s\<lparr>lk_now := lk_now s + d\<rparr>)"
| begun: "lk_stage s p = LIdle \<Longrightarrow> lock_step s (stage_to p (LWaiting (lk_now s + CONFIG_LOCK_WAIT_MS)) s)"
| opened: "lk_stage s p = LWaiting deadline \<Longrightarrow> open_wx p (lk_now s) (lk_file s) = Some f \<Longrightarrow>
    lock_step s (stage_to p (LCreated deadline) (s\<lparr>lk_file := f\<rparr>))"
| written: "lk_stage s p = LCreated deadline \<Longrightarrow>
    lock_step s (stage_to p LHolding (s\<lparr>lk_file := write_lock p (lk_now s) (lk_file s)\<rparr>))"
| expired: "lk_stage s p = LWaiting deadline \<Longrightarrow> lk_file s \<noteq> NoLock \<Longrightarrow> lk_now s \<ge> deadline \<Longrightarrow> lock_step s (stage_to p LIdle s)"
| found_stale: "lk_stage s p = LWaiting deadline \<Longrightarrow> lk_now s < deadline \<Longrightarrow> may_steal (lk_file s) (lk_now s) \<Longrightarrow>
    lock_step s (stage_to p (LStealing deadline) s)"
| stolen: "lk_stage s p = LStealing deadline \<Longrightarrow>
    lock_step s (stage_to p (LWaiting deadline) (s\<lparr>lk_file := steal (lk_file s)\<rparr>))"
| released: "lk_stage s p = LHolding \<Longrightarrow> lock_step s (stage_to p LIdle (s\<lparr>lk_file := releaseLock p (lk_file s)\<rparr>))"
| died: "lock_step s (stage_to p LIdle s)"

text \<open>Reachability with a set of processes that must not turn to stealing.\<close>

inductive lock_reach :: "int set \<Rightarrow> lock_sys \<Rightarrow> lock_sys \<Rightarrow> bool" for calm s0 where
  lock_start: "lock_reach calm s0 s0"
| lock_next: "lock_reach calm s0 s \<Longrightarrow> lock_step s t \<Longrightarrow> (\<forall>p \<in> calm. \<forall>d. lk_stage t p \<noteq> LStealing d) \<Longrightarrow> lock_reach calm s0 t"

inductive_cases lock_stepE: "lock_step s t"

definition lock_inv :: "lock_sys \<Rightarrow> bool" where
  "lock_inv s \<longleftrightarrow> (\<forall>p d. lk_stage s p \<noteq> LStealing d) \<and>
     (\<forall>p d. lk_stage s p = LCreated d \<longrightarrow> (\<exists>m. lk_file s = LockFile p None m)) \<and>
     (\<forall>p. lk_stage s p = LHolding \<longrightarrow> (\<exists>t m. lk_file s = LockFile p (Some \<lparr>ld_pid = p, ld_at = t\<rparr>) m))"

lemma lock_step_inv:
  assumes "lock_step s t" "lock_inv s" "\<forall>p d. lk_stage t p \<noteq> LStealing d"
  shows "lock_inv t"
  using assms(1)
proof cases
  case (opened p deadline f)
  then have "lk_file s = NoLock" by (simp add: open_wx_def split: if_splits)
  then show ?thesis using opened assms(2) by (auto simp: lock_inv_def stage_to_def open_wx_def)
next
  case (written p deadline)
  then obtain m where "lk_file s = LockFile p None m" using assms(2) by (auto simp: lock_inv_def)
  then show ?thesis using written assms(2,3) by (auto simp: lock_inv_def stage_to_def write_lock_def)
next
  case (stolen p deadline)
  then show ?thesis using assms(2) by (simp add: lock_inv_def)
next
  case (released p)
  then obtain t' m where "lk_file s = LockFile p (Some \<lparr>ld_pid = p, ld_at = t'\<rparr>) m" using assms(2) by (auto simp: lock_inv_def)
  note f = this
  have "lk_stage s q \<noteq> LHolding" "lk_stage s q \<noteq> LCreated d" if "q \<noteq> p" for q d
    using assms(2) f that by (auto simp: lock_inv_def)
  then show ?thesis using released(1) assms(3) unfolding lock_inv_def by (simp add: stage_to_def)
qed (use assms(2,3) in \<open>auto simp: lock_inv_def stage_to_def\<close>)

lemma lock_reach_inv:
  "lock_reach UNIV s0 s \<Longrightarrow> (\<forall>p. lk_stage s0 p = LIdle) \<Longrightarrow> lock_inv s"
proof (induction rule: lock_reach.induct)
  case lock_start
  then show ?case by (simp add: lock_inv_def)
next
  case (lock_next s t)
  then show ?case using lock_step_inv by simp
qed

text \<open>
  The config lock excludes: from any state in which nobody holds or waits for it, whatever lock
  file a dead process left, as long as no process finds a lock old enough to steal, two
  processes never hold it at once and the file names the holder.
\<close>

theorem config_lock_excludes_without_stealing:
  assumes "lock_reach UNIV s0 s" "\<forall>p. lk_stage s0 p = LIdle" "lk_stage s p = LHolding"
  shows "(\<forall>q. lk_stage s q = LHolding \<longrightarrow> q = p) \<and> map_option ld_pid (readLock (lk_file s)) = Some p"
proof -
  have inv: "lock_inv s" by (rule lock_reach_inv [OF assms(1,2)])
  then obtain t m where "lk_file s = LockFile p (Some \<lparr>ld_pid = p, ld_at = t\<rparr>) m" using assms(3) by (auto simp: lock_inv_def)
  then show ?thesis using inv by (auto simp: lock_inv_def)
qed

definition idle_lock :: "lock_file \<Rightarrow> lock_sys" where
  "idle_lock f = \<lparr>lk_file = f, lk_stage = (\<lambda>_. LIdle), lk_now = 70000\<rparr>"

text \<open>One process on its way to the lock.\<close>

lemma lock_run:
  assumes "lock_reach calm s0 s" "lk_stage s p = LWaiting d" "lk_file s = NoLock" "\<forall>q \<in> calm. \<forall>d. lk_stage s q \<noteq> LStealing d"
  shows "\<exists>f. lock_reach calm s0 (s\<lparr>lk_file := f, lk_stage := (lk_stage s)(p := LHolding)\<rparr>)"
proof -
  have a: "lock_reach calm s0 (stage_to p (LCreated d) (s\<lparr>lk_file := LockFile p None (lk_now s)\<rparr>))"
    by (rule lock_next [OF assms(1) opened [OF assms(2)]]) (use assms(3,4) in \<open>auto simp: open_wx_def stage_to_def\<close>)
  have "lock_reach calm s0 (stage_to p LHolding ((stage_to p (LCreated d) (s\<lparr>lk_file := LockFile p None (lk_now s)\<rparr>))\<lparr>lk_file :=
      write_lock p (lk_now s) (LockFile p None (lk_now s))\<rparr>))"
    using lock_next [OF a written [of _ p d]] assms(4) by (auto simp: stage_to_def)
  then show ?thesis by (auto simp: stage_to_def)
qed

theorem config_lock_excludes_without_stealing_witness:
  "\<exists>s. lock_reach UNIV (idle_lock NoLock) s \<and> lk_stage s 1 = LHolding \<and> map_option ld_pid (readLock (lk_file s)) = Some 1"
proof -
  have w: "lock_reach UNIV (idle_lock NoLock) (stage_to 1 (LWaiting 80000) (idle_lock NoLock))"
    using lock_next [OF lock_start begun [of "idle_lock NoLock" 1]] by (simp add: idle_lock_def CONFIG_LOCK_WAIT_MS_def stage_to_def)
  have "\<exists>f. lock_reach UNIV (idle_lock NoLock)
      ((stage_to 1 (LWaiting 80000) (idle_lock NoLock))\<lparr>lk_file := f, lk_stage := (lk_stage (stage_to 1 (LWaiting 80000) (idle_lock NoLock)))(1 := LHolding)\<rparr>)"
    by (rule lock_run [OF w]) (simp_all add: stage_to_def idle_lock_def)
  then obtain f where r: "lock_reach UNIV (idle_lock NoLock)
      ((stage_to 1 (LWaiting 80000) (idle_lock NoLock))\<lparr>lk_file := f, lk_stage := (lk_stage (stage_to 1 (LWaiting 80000) (idle_lock NoLock)))(1 := LHolding)\<rparr>)"
    by blast
  have idle: "\<forall>p. lk_stage (idle_lock NoLock) p = LIdle" by (simp add: idle_lock_def)
  have hold: "lk_stage ((stage_to 1 (LWaiting 80000) (idle_lock NoLock))\<lparr>lk_file := f,
      lk_stage := (lk_stage (stage_to 1 (LWaiting 80000) (idle_lock NoLock)))(1 := LHolding)\<rparr>) 1 = LHolding" by simp
  from config_lock_excludes_without_stealing [OF r idle hold] show ?thesis using r hold by blast
qed

text \<open>
  The steal is not atomic with the check. Two waiting processes that have both found the same
  old lock can both remove what is at the path: the second removes the fresh lock of the first,
  creates its own, and both hold the lock.
\<close>

theorem stale_lock_race_gives_two_holders:
  "\<exists>s0 s. (\<forall>p. lk_stage s0 p = LIdle) \<and> lock_reach {} s0 s \<and> lk_stage s 1 = LHolding \<and> lk_stage s 2 = LHolding"
proof -
  define old where "old = LockFile 9 (Some \<lparr>ld_pid = 9, ld_at = 0\<rparr>) 0"
  define sys where "sys = (\<lambda>a b f. \<lparr>lk_file = f, lk_stage = (\<lambda>_. LIdle)(1 := a, 2 := b), lk_now = 70000\<rparr>)"
  let ?R = "lock_reach {} (idle_lock old)"
  have st: "stage_to 1 x (sys a b f) = sys x b f" "stage_to 2 x (sys a b f) = sys a x f" for x a b f
    by (auto simp: sys_def stage_to_def fun_eq_iff)
  have sel: "lk_stage (sys a b f) 1 = a" "lk_stage (sys a b f) 2 = b" "lk_file (sys a b f) = f" "lk_now (sys a b f) = 70000"
    "(sys a b f)\<lparr>lk_file := g\<rparr> = sys a b g" for a b f g by (simp_all add: sys_def)
  have step: "?R s \<Longrightarrow> lock_step s t \<Longrightarrow> ?R t" for s t by (rule lock_next) auto
  let ?W = "LWaiting 80000" and ?S = "LStealing 80000"
  have stale: "may_steal old 70000" by (simp add: may_steal_def old_def CONFIG_LOCK_STALE_MS_def)
  have "idle_lock old = sys LIdle LIdle old" by (auto simp: idle_lock_def sys_def fun_eq_iff)
  then have "?R (sys LIdle LIdle old)" using lock_start [of "{}"] by metis
  then have "?R (sys ?W LIdle old)" by (rule step) (use begun [of "sys LIdle LIdle old" 1] in \<open>simp add: st sel CONFIG_LOCK_WAIT_MS_def\<close>)
  then have "?R (sys ?W ?W old)" by (rule step) (use begun [of "sys ?W LIdle old" 2] in \<open>simp add: st sel CONFIG_LOCK_WAIT_MS_def\<close>)
  then have "?R (sys ?S ?W old)" by (rule step) (use found_stale [of "sys ?W ?W old" 1] stale in \<open>simp add: st sel\<close>)
  then have "?R (sys ?S ?S old)" by (rule step) (use found_stale [of "sys ?S ?W old" 2] stale in \<open>simp add: st sel\<close>)
  then have "?R (sys ?W ?S NoLock)" by (rule step) (use stolen [of "sys ?S ?S old" 1] in \<open>simp add: st sel steal_def\<close>)
  then obtain f where "?R (sys LHolding ?S f)"
    using lock_run [of "{}" "idle_lock old" "sys ?W ?S NoLock" 1 80000] st(1) by (auto simp: sel stage_to_def sys_def fun_upd_twist)
  then have "?R (sys LHolding ?W NoLock)" by (rule step) (use stolen [of "sys LHolding ?S f" 2] in \<open>simp add: st sel steal_def\<close>)
  then obtain g where "?R (sys LHolding LHolding g)"
    using lock_run [of "{}" "idle_lock old" "sys LHolding ?W NoLock" 2 80000] by (auto simp: sel stage_to_def sys_def)
  then show ?thesis by (intro exI [of _ "idle_lock old"] exI [of _ "sys LHolding LHolding g"]) (simp add: sel, simp add: idle_lock_def)
qed

end
