(* ===== verification/Relay_Codec.thy ===== *)
theory Relay_Codec
  imports Prelude "HOL-Library.Word"
begin

text \<open>
  The tunnel codec of the relay (\<open>lib/relay/tunnel-codec.ts\<close>): frames of one type byte, a
  big-endian stream id and a payload, chunking and fragmentation of messages, the assembler
  that puts fragments together again, and the guards on the JSON payloads. A \<open>Buffer\<close> is a
  list of \<open>8 word\<close>, a JavaScript number that the code treats as an integer is an \<open>int\<close>.
  Lemmas: encoding and decoding of frames are inverse, chunks are bounded and concatenate to
  the payload, the assembler stays within its limits and returns every fragmented message
  however the streams interleave.
\<close>

unbundle bit_operations_syntax

section \<open>Buffers\<close>

type_synonym bytes = "8 word list"

text \<open>\<open>Buffer.writeUInt32BE\<close> and \<open>Buffer.readUInt32BE\<close>.\<close>

definition writeUInt32BE :: "32 word \<Rightarrow> bytes" where
  "writeUInt32BE w = [ucast (drop_bit 24 w), ucast (drop_bit 16 w), ucast (drop_bit 8 w), ucast w]"

definition readUInt32BE :: "8 word \<Rightarrow> 8 word \<Rightarrow> 8 word \<Rightarrow> 8 word \<Rightarrow> 32 word" where
  "readUInt32BE a b c d = push_bit 24 (ucast a) OR push_bit 16 (ucast b) OR push_bit 8 (ucast c) OR ucast d"

lemma readUInt32BE_write [simp]:
  "readUInt32BE (ucast (drop_bit 24 w)) (ucast (drop_bit 16 w)) (ucast (drop_bit 8 w)) (ucast w) = w"
proof (rule bit_word_eqI)
  fix n assume "n < LENGTH(32)"
  then consider "n < 8" | "8 \<le> n" "n < 16" | "16 \<le> n" "n < 24" | "24 \<le> n" "n < 32" by (simp, linarith)
  then show "bit (readUInt32BE (ucast (drop_bit 24 w)) (ucast (drop_bit 16 w)) (ucast (drop_bit 8 w)) (ucast w)) n = bit w n"
    by cases (auto simp: readUInt32BE_def bit_simps)
qed

lemma writeUInt32BE_read [simp]: "writeUInt32BE (readUInt32BE a b c d) = [a, b, c, d]"
  by (auto simp: writeUInt32BE_def readUInt32BE_def bit_simps intro!: bit_word_eqI; drule bit_imp_le_length; simp)

lemma length_writeUInt32BE [simp]: "length (writeUInt32BE w) = 4"
  by (simp add: writeUInt32BE_def)

section \<open>Frames\<close>

definition TUNNEL_FRAME_HEADER_BYTES :: nat where "TUNNEL_FRAME_HEADER_BYTES = 5"
definition MAX_ASSEMBLED_MESSAGE_BYTES :: nat where "MAX_ASSEMBLED_MESSAGE_BYTES = 16 * 1024 * 1024"
definition MAX_PENDING_FRAGMENT_STREAMS :: nat where "MAX_PENDING_FRAGMENT_STREAMS = 256"
definition MAX_PLAINTEXT_FRAME_BYTES :: nat where "MAX_PLAINTEXT_FRAME_BYTES = 64 * 1024"
definition MAX_TUNNEL_PAYLOAD_BYTES :: nat where "MAX_TUNNEL_PAYLOAD_BYTES = MAX_PLAINTEXT_FRAME_BYTES - 5 - 5"
definition HAS_MORE_FLAG :: int where "HAS_MORE_FLAG = 0x80"

datatype TunnelFrameType =
    HttpRequest | HttpBody | HttpResponse | StreamEnd | StreamAbort | WsOpen | WsOpened
  | WsText | WsBinary | WsClose | Ping | Pong | DeliveryAck

fun frame_numeral :: "TunnelFrameType \<Rightarrow> int" where
  "frame_numeral HttpRequest = 1"
| "frame_numeral HttpBody = 2"
| "frame_numeral HttpResponse = 3"
| "frame_numeral StreamEnd = 4"
| "frame_numeral StreamAbort = 5"
| "frame_numeral WsOpen = 6"
| "frame_numeral WsOpened = 7"
| "frame_numeral WsText = 8"
| "frame_numeral WsBinary = 9"
| "frame_numeral WsClose = 10"
| "frame_numeral Ping = 11"
| "frame_numeral Pong = 12"
| "frame_numeral DeliveryAck = 13"

text \<open>The values of the constant object, in declaration order (\<open>Object.values\<close>).\<close>

instantiation TunnelFrameType :: enum
begin

definition enum_TunnelFrameType :: "TunnelFrameType list" where
  "enum_TunnelFrameType = [HttpRequest, HttpBody, HttpResponse, StreamEnd, StreamAbort, WsOpen, WsOpened,
     WsText, WsBinary, WsClose, Ping, Pong, DeliveryAck]"

definition enum_all_TunnelFrameType :: "(TunnelFrameType \<Rightarrow> bool) \<Rightarrow> bool" where
  "enum_all_TunnelFrameType P = list_all P Enum.enum"

definition enum_ex_TunnelFrameType :: "(TunnelFrameType \<Rightarrow> bool) \<Rightarrow> bool" where
  "enum_ex_TunnelFrameType P = list_ex P Enum.enum"

instance
proof
  have u: "x \<in> set (Enum.enum :: TunnelFrameType list)" for x
    by (cases x) (simp_all add: enum_TunnelFrameType_def)
  then show "UNIV = set (Enum.enum :: TunnelFrameType list)" by auto
  show "distinct (Enum.enum :: TunnelFrameType list)" by (simp add: enum_TunnelFrameType_def)
  show "enum_class.enum_all P = Ball UNIV P" "enum_class.enum_ex P = Bex UNIV P" for P :: "TunnelFrameType \<Rightarrow> bool"
    using u by (auto simp: enum_all_TunnelFrameType_def enum_ex_TunnelFrameType_def list_all_iff list_ex_iff)
qed

end

definition KNOWN_FRAME_TYPES :: "int list" where
  "KNOWN_FRAME_TYPES = map frame_numeral Enum.enum"

record TunnelFrame =
  tf_type :: int
  tf_streamId :: int
  tf_hasMore :: bool
  tf_payload :: bytes

datatype codec_error =
    HeaderTruncated
  | UnknownFrameType int
  | BadChunkSize
  | ChunkOverBudget
  | NotFragmentable
  | ArrivedFragmented int
  | AssembledTooLarge
  | TooManyPartials

definition encodeTunnelFrame :: "TunnelFrame \<Rightarrow> bytes" where
  "encodeTunnelFrame frame =
     (let head = (tf_type frame AND 0x7f) OR (if tf_hasMore frame then HAS_MORE_FLAG else 0)
      in word_of_int head # writeUInt32BE (word_of_int (tf_streamId frame)) @ tf_payload frame)"

fun decodeTunnelFrame :: "bytes \<Rightarrow> codec_error + TunnelFrame" where
  "decodeTunnelFrame (head # a # b # c # d # payload) =
     (let type = uint (head AND 0x7f)
      in if type \<notin> set KNOWN_FRAME_TYPES then Inl (UnknownFrameType type)
         else Inr \<lparr>tf_type = type, tf_streamId = uint (readUInt32BE a b c d),
                tf_hasMore = (head AND word_of_int HAS_MORE_FLAG \<noteq> 0), tf_payload = payload\<rparr>)"
| "decodeTunnelFrame _ = Inl HeaderTruncated"

definition isFragmentableType :: "int \<Rightarrow> bool" where
  "isFragmentableType type \<longleftrightarrow> type = frame_numeral WsText \<or> type = frame_numeral WsBinary"

text \<open>The allocator's only state is the next id.\<close>

definition createStreamIdAllocator :: "int \<Rightarrow> int" where
  "createStreamIdAllocator start = (if start mod 2 = 0 then start + 1 else start)"

definition allocator_next :: "int \<Rightarrow> int \<times> int" where
  "allocator_next current = (current, current + 2)"

section \<open>Chunks and fragments\<close>

text \<open>The \<open>for\<close> loop over offsets, on the bytes that are left.\<close>

fun chunk_loop :: "nat \<Rightarrow> bytes \<Rightarrow> bytes list" where
  "chunk_loop n bs = (if bs = [] \<or> n = 0 then [] else take n bs # chunk_loop n (drop n bs))"

declare chunk_loop.simps [simp del]

definition chunkPayload :: "bytes \<Rightarrow> int \<Rightarrow> codec_error + bytes list" where
  "chunkPayload payload chunkSize =
     (if chunkSize > 2 ^ 53 - 1 \<or> chunkSize \<le> 0 then Inl BadChunkSize
      else if chunkSize > int MAX_TUNNEL_PAYLOAD_BYTES then Inl ChunkOverBudget
      else if payload = [] then Inr [[]]
      else Inr (chunk_loop (nat chunkSize) payload))"

definition fragment_frame :: "int \<Rightarrow> int \<Rightarrow> bytes list \<Rightarrow> nat \<Rightarrow> TunnelFrame" where
  "fragment_frame type streamId chunks index =
     \<lparr>tf_type = type, tf_streamId = streamId, tf_hasMore = Suc index < length chunks, tf_payload = chunks ! index\<rparr>"

definition encodeFragmentedMessage :: "TunnelFrameType \<Rightarrow> int \<Rightarrow> bytes \<Rightarrow> int \<Rightarrow> codec_error + bytes list" where
  "encodeFragmentedMessage type streamId payload chunkSize =
     (if \<not> isFragmentableType (frame_numeral type) then Inl NotFragmentable
      else rbind (chunkPayload payload chunkSize)
        (\<lambda>chunks. Inr (map (\<lambda>index. encodeTunnelFrame (fragment_frame (frame_numeral type) streamId chunks index)) [0..<length chunks])))"

section \<open>The fragment assembler\<close>

record partial_group =
  pg_type :: int
  pg_streamId :: int
  pg_chunks :: "bytes list"
  pg_bytes :: nat

record AssembledMessage =
  am_type :: int
  am_streamId :: int
  am_payload :: bytes

type_synonym partials = "(string \<times> partial_group) list"

definition group_key :: "int \<Rightarrow> int \<Rightarrow> string" where
  "group_key streamId type = show_int streamId @ '':'' @ show_int type"

definition keyFor :: "TunnelFrame \<Rightarrow> string" where
  "keyFor frame = group_key (tf_streamId frame) (tf_type frame)"

definition complete :: "TunnelFrame \<Rightarrow> partials \<Rightarrow> (codec_error + AssembledMessage) \<times> partials" where
  "complete frame parts =
     (let key = keyFor frame; rest = AList.delete key parts
      in case map_of parts key of
           None \<Rightarrow>
             (if length (tf_payload frame) > MAX_ASSEMBLED_MESSAGE_BYTES then Inl AssembledTooLarge
              else Inr \<lparr>am_type = tf_type frame, am_streamId = tf_streamId frame, am_payload = tf_payload frame\<rparr>, rest)
         | Some pending \<Rightarrow>
             (if pg_bytes pending + length (tf_payload frame) > MAX_ASSEMBLED_MESSAGE_BYTES then Inl AssembledTooLarge
              else Inr \<lparr>am_type = tf_type frame, am_streamId = tf_streamId frame,
                     am_payload = concat (pg_chunks pending @ [tf_payload frame])\<rparr>, rest))"

definition push :: "TunnelFrame \<Rightarrow> partials \<Rightarrow> (codec_error + AssembledMessage option) \<times> partials" where
  "push frame parts =
     (if tf_hasMore frame \<and> \<not> isFragmentableType (tf_type frame) then (Inl (ArrivedFragmented (tf_type frame)), parts)
      else if \<not> tf_hasMore frame then
        (case complete frame parts of
           (Inl e, parts') \<Rightarrow> (Inl e, parts')
         | (Inr m, parts') \<Rightarrow> (Inr (Some m), parts'))
      else
        (let key = keyFor frame
         in if map_of parts key = None \<and> length parts \<ge> MAX_PENDING_FRAGMENT_STREAMS then (Inl TooManyPartials, parts)
            else
              (let old = (case map_of parts key of Some e \<Rightarrow> e
                          | None \<Rightarrow> \<lparr>pg_type = tf_type frame, pg_streamId = tf_streamId frame, pg_chunks = [], pg_bytes = 0\<rparr>);
                   entry = old\<lparr>pg_chunks := pg_chunks old @ [tf_payload frame],
                               pg_bytes := pg_bytes old + length (tf_payload frame)\<rparr>
               in if pg_bytes entry > MAX_ASSEMBLED_MESSAGE_BYTES then (Inl AssembledTooLarge, AList.delete key parts)
                  else (Inr None, AList.update key entry parts))))"

definition assembler_reset :: "int option \<Rightarrow> partials \<Rightarrow> partials" where
  "assembler_reset streamId parts =
     (case streamId of
        None \<Rightarrow> []
      | Some s \<Rightarrow> filter (\<lambda>(key, _). \<not> starts_with key (show_int s @ '':'')) parts)"

section \<open>Payload guards\<close>

definition safe_integer :: "unknown \<Rightarrow> int option" where
  "safe_integer v = (case v of
      Some (JNum (Fin q)) \<Rightarrow> (if q = of_int \<lfloor>q\<rfloor> \<and> \<bar>\<lfloor>q\<rfloor>\<bar> \<le> 2 ^ 53 - 1 then Some \<lfloor>q\<rfloor> else None)
    | _ \<Rightarrow> None)"

fun parseJsonPayload :: "(bytes \<Rightarrow> json option) \<Rightarrow> bytes \<Rightarrow> (unknown \<Rightarrow> bool) \<Rightarrow> json option" where
  "parseJsonPayload parse payload guard =
     (case parse payload of Some v \<Rightarrow> if guard (Some v) then Some v else None | None \<Rightarrow> None)"

fun isRecord :: "unknown \<Rightarrow> bool" where
  "isRecord (Some (JObj _)) = True"
| "isRecord _ = False"

fun is_str :: "unknown \<Rightarrow> bool" where
  "is_str (Some (JStr _)) = True"
| "is_str _ = False"

fun is_boolean :: "unknown \<Rightarrow> bool" where
  "is_boolean (Some (JBool _)) = True"
| "is_boolean _ = False"

fun stringMap :: "unknown \<Rightarrow> bool" where
  "stringMap (Some (JObj kvs)) = list_all (\<lambda>(_, v). is_str (Some v)) kvs"
| "stringMap _ = False"

text \<open>\<open>value ?? {}\<close>: the empty object for \<open>undefined\<close> and \<open>null\<close>.\<close>

fun or_empty :: "unknown \<Rightarrow> unknown" where
  "or_empty None = Some (JObj [])"
| "or_empty (Some JNull) = Some (JObj [])"
| "or_empty v = v"

definition get :: "unknown \<Rightarrow> string \<Rightarrow> unknown" where
  "get v k = (case v of Some j \<Rightarrow> prop_of j k | None \<Rightarrow> None)"

definition isHttpRequestPayload :: "unknown \<Rightarrow> bool" where
  "isHttpRequestPayload value \<longleftrightarrow> isRecord value \<and>
     is_str (get value ''method'') \<and> is_str (get value ''path'') \<and>
     stringMap (or_empty (get value ''query'')) \<and> stringMap (or_empty (get value ''headers'')) \<and>
     (get value ''hasBody'' = None \<or> is_boolean (get value ''hasBody''))"

definition isHttpResponsePayload :: "unknown \<Rightarrow> bool" where
  "isHttpResponsePayload value \<longleftrightarrow> isRecord value \<and>
     (case safe_integer (get value ''status'') of Some status \<Rightarrow> 100 \<le> status \<and> status \<le> 599 | None \<Rightarrow> False) \<and>
     stringMap (or_empty (get value ''headers''))"

definition isStreamAbortPayload :: "unknown \<Rightarrow> bool" where
  "isStreamAbortPayload value \<longleftrightarrow> isRecord value \<and> is_str (get value ''reason'')"

definition isWsOpenPayload :: "unknown \<Rightarrow> bool" where
  "isWsOpenPayload value \<longleftrightarrow> isRecord value \<and> is_str (get value ''path'') \<and>
     stringMap (or_empty (get value ''query'')) \<and>
     (case get value ''protocols'' of None \<Rightarrow> True
      | Some (JArr ps) \<Rightarrow> list_all (\<lambda>p. is_str (Some p)) ps
      | Some _ \<Rightarrow> False)"

definition isWsOpenedPayload :: "unknown \<Rightarrow> bool" where
  "isWsOpenedPayload value \<longleftrightarrow> isRecord value \<and> (get value ''protocol'' = None \<or> is_str (get value ''protocol''))"

definition isWsClosePayload :: "unknown \<Rightarrow> bool" where
  "isWsClosePayload value \<longleftrightarrow> isRecord value \<and> safe_integer (get value ''code'') \<noteq> None \<and>
     (get value ''reason'' = None \<or> is_str (get value ''reason''))"

section \<open>Frames decode to what was encoded\<close>

lemmas frame_numerals = KNOWN_FRAME_TYPES_def enum_TunnelFrameType_def

lemma known_type: "t \<in> set KNOWN_FRAME_TYPES \<longleftrightarrow> (\<exists>ty. t = frame_numeral ty)"
  by (auto simp: KNOWN_FRAME_TYPES_def enum_UNIV)

lemma known_type_bound: "t \<in> set KNOWN_FRAME_TYPES \<Longrightarrow> 1 \<le> t \<and> t \<le> 13"
  by (auto simp: frame_numerals)

lemma known_frame_numeral [simp]: "frame_numeral ty \<in> set KNOWN_FRAME_TYPES"
  by (auto simp: known_type)

text \<open>The head byte and its two parts.\<close>

lemma head_parts:
  assumes "t \<in> set KNOWN_FRAME_TYPES"
    and h: "h = (word_of_int ((t AND 0x7f) OR (if m then HAS_MORE_FLAG else 0)) :: 8 word)"
  shows "uint (h AND 0x7f) = t" "(h AND word_of_int HAS_MORE_FLAG \<noteq> 0) = m"
  using assms by (cases m; auto simp: frame_numerals HAS_MORE_FLAG_def)+

lemma head_again:
  "word_of_int ((uint (h AND 0x7f) AND 0x7f) OR (if h AND word_of_int HAS_MORE_FLAG \<noteq> 0 then HAS_MORE_FLAG else 0)) = (h :: 8 word)"
proof -
  have flag: "h AND 0x80 \<noteq> 0 \<longleftrightarrow> bit h 7"
    using and_exp_eq_0_iff_not_bit [of h 7] by simp
  have "word_of_int ((uint (h AND 0x7f) AND 0x7f) OR (if bit h 7 then 0x80 else 0)) =
      ((h AND mask 7) AND mask 7) OR (if bit h 7 then push_bit 7 1 else 0)"
    by (simp add: of_int_or_eq of_int_and_eq mask_eq_exp_minus_1 push_bit_eq_mult)
  also have "\<dots> = h"
  proof (rule bit_word_eqI)
    fix n assume "n < LENGTH(8)"
    then have "n < 7 \<or> n = 7" by simp linarith
    moreover have "bit (push_bit 7 1 :: 8 word) n \<longleftrightarrow> n = 7" using \<open>n < LENGTH(8)\<close>
      by (subst bit_push_bit_iff) (auto simp: bit_1_iff)
    ultimately show "bit (((h AND mask 7) AND mask 7) OR (if bit h 7 then push_bit 7 1 else 0)) n = bit h n"
      by (auto simp: bit_or_iff bit_and_iff bit_mask_iff simp del: push_bit_of_1)
  qed
  finally show ?thesis by (auto simp: flag HAS_MORE_FLAG_def split: if_splits)
qed

lemma decode_encode:
  assumes "tf_type f \<in> set KNOWN_FRAME_TYPES" "0 \<le> tf_streamId f" "tf_streamId f < 2 ^ 32"
  shows "decodeTunnelFrame (encodeTunnelFrame f) = Inr f"
proof -
  have "uint (word_of_int (tf_streamId f) :: 32 word) = tf_streamId f"
    using assms(2,3) by (simp add: uint_word_of_int)
  then show ?thesis
    using head_parts [OF assms(1) refl, of "tf_hasMore f"] assms(1)
    by (simp add: encodeTunnelFrame_def writeUInt32BE_def Let_def)
qed

lemma encode_decode:
  assumes "decodeTunnelFrame bs = Inr f"
  shows "bs = encodeTunnelFrame f \<and> tf_type f \<in> set KNOWN_FRAME_TYPES \<and> 0 \<le> tf_streamId f \<and> tf_streamId f < 2 ^ 32"
proof -
  from assms obtain h a b c d p where bs: "bs = h # a # b # c # d # p"
    by (cases bs rule: decodeTunnelFrame.cases) auto
  have "uint (readUInt32BE a b c d) < 2 ^ 32" using uint_bounded [of "readUInt32BE a b c d"] by simp
  then show ?thesis
    using assms head_again [of h] writeUInt32BE_read [of a b c d] unfolding bs
    by (auto simp: encodeTunnelFrame_def Let_def split: if_splits)
qed

text \<open>C24.
  The frame codec is a bijection between frames and byte strings: a byte string decodes to a
  frame exactly when it is the encoding of that frame, and the frames that arise so are the ones
  with a known type and a 32-bit stream id.
\<close>

theorem frame_codec_is_bijective:
  "decodeTunnelFrame bs = Inr f \<longleftrightarrow>
     bs = encodeTunnelFrame f \<and> tf_type f \<in> set KNOWN_FRAME_TYPES \<and> 0 \<le> tf_streamId f \<and> tf_streamId f < 2 ^ 32"
  using encode_decode decode_encode by blast

section \<open>Chunks\<close>

lemma chunk_loop_props:
  assumes "n > 0"
  shows "concat (chunk_loop n bs) = bs \<and> (chunk_loop n bs = [] \<longleftrightarrow> bs = []) \<and>
    (\<forall>c \<in> set (chunk_loop n bs). c \<noteq> [] \<and> length c \<le> n)"
  using assms
proof (induction n bs rule: chunk_loop.induct)
  case (1 n bs)
  show ?case
  proof (cases "bs = []")
    case True
    then show ?thesis using 1(2) by (subst chunk_loop.simps, subst chunk_loop.simps) (simp add: chunk_loop.simps)
  next
    case False
    then have l: "chunk_loop n bs = take n bs # chunk_loop n (drop n bs)" using 1(2) by (subst chunk_loop.simps) simp
    have ih: "concat (chunk_loop n (drop n bs)) = drop n bs" "\<forall>c \<in> set (chunk_loop n (drop n bs)). c \<noteq> [] \<and> length c \<le> n"
      using 1 False by auto
    show ?thesis using False 1(2) ih unfolding l by simp
  qed
qed

lemma chunkPayload_Inr:
  assumes "chunkPayload payload n = Inr cs"
  shows "concat cs = payload" "cs \<noteq> []" "c \<in> set cs \<Longrightarrow> length c \<le> nat n" "n > 0" "n \<le> int MAX_TUNNEL_PAYLOAD_BYTES"
  using assms chunk_loop_props [of "nat n" payload] by (auto simp: chunkPayload_def split: if_splits)

section \<open>The assembler stays within its limits\<close>

text \<open>
  What the assembler may hold: distinct groups, at most 256, each under the key of its stream
  and type, of a fragmentable type, with its byte count right and within 16 MiB.
\<close>

definition group_ok :: "string \<times> partial_group \<Rightarrow> bool" where
  "group_ok kg \<longleftrightarrow> (case kg of (k, g) \<Rightarrow> k = group_key (pg_streamId g) (pg_type g) \<and> isFragmentableType (pg_type g) \<and>
     pg_bytes g = length (concat (pg_chunks g)) \<and> pg_bytes g \<le> MAX_ASSEMBLED_MESSAGE_BYTES)"

definition parts_ok :: "partials \<Rightarrow> bool" where
  "parts_ok parts \<longleftrightarrow> distinct (map fst parts) \<and> length parts \<le> MAX_PENDING_FRAGMENT_STREAMS \<and> list_all group_ok parts"

definition msg_key :: "AssembledMessage \<Rightarrow> string" where
  "msg_key m = group_key (am_streamId m) (am_type m)"

lemma complete_parts [simp]: "snd (complete f parts) = AList.delete (keyFor f) parts"
  by (simp add: complete_def Let_def split: option.splits)

lemma delete_filter: "AList.delete k xs = filter (\<lambda>(k', _). k \<noteq> k') xs"
  by (simp add: AList.delete_eq)

lemma parts_ok_filter: "parts_ok parts \<Longrightarrow> parts_ok (filter P parts)"
  by (auto simp: parts_ok_def distinct_map_filter list_all_iff intro: order_trans [OF length_filter_le])

lemma parts_ok_delete: "parts_ok parts \<Longrightarrow> parts_ok (AList.delete k parts)"
  unfolding delete_filter by (rule parts_ok_filter)

lemma length_update_le:
  "length (AList.update k v xs) = (if k \<in> fst ` set xs then length xs else Suc (length xs))"
  by (induction xs) auto

lemma parts_ok_update:
  assumes "parts_ok parts" "group_ok (k, g)" "k \<in> fst ` set parts \<or> length parts < MAX_PENDING_FRAGMENT_STREAMS"
  shows "parts_ok (AList.update k g parts)"
proof -
  have "set (AList.update k g parts) \<subseteq> insert (k, g) (set parts)" by (induction parts) auto
  then show ?thesis
    using assms by (auto simp: parts_ok_def list_all_iff length_update_le distinct_update)
qed

lemma parts_ok_lookup: "parts_ok parts \<Longrightarrow> map_of parts k = Some g \<Longrightarrow> group_ok (k, g)"
  by (auto simp: parts_ok_def list_all_iff dest: map_of_SomeD)

lemma push_parts_ok:
  assumes ok: "parts_ok parts"
  shows "parts_ok (snd (push f parts))"
proof (cases "tf_hasMore f")
  case False
  then have "snd (push f parts) = snd (complete f parts)" by (simp add: push_def del: complete_parts split: prod.splits sum.splits)
  then show ?thesis using parts_ok_delete [OF ok] by simp
next
  case True
  show ?thesis
  proof (cases "map_of parts (keyFor f)")
    case None
    then show ?thesis using True ok
      by (auto simp: push_def Let_def group_ok_def keyFor_def intro!: parts_ok_update parts_ok_delete)
  next
    case (Some g)
    then have "keyFor f \<in> fst ` set parts" by (force dest: map_of_SomeD)
    then show ?thesis using True ok Some parts_ok_lookup [OF ok Some]
      by (auto simp: push_def Let_def group_ok_def intro!: parts_ok_update parts_ok_delete)
  qed
qed

lemma push_message:
  assumes ok: "parts_ok parts" and m: "fst (push f parts) = Inr (Some m)"
  shows "msg_key m = keyFor f" "length (am_payload m) \<le> MAX_ASSEMBLED_MESSAGE_BYTES"
proof -
  have c: "fst (complete f parts) = Inr m" using m
    by (auto simp: push_def Let_def split: if_splits prod.splits sum.splits option.splits)
  have "msg_key m = keyFor f \<and> length (am_payload m) \<le> MAX_ASSEMBLED_MESSAGE_BYTES"
  proof (cases "map_of parts (keyFor f)")
    case None
    then show ?thesis using c by (auto simp: complete_def Let_def msg_key_def keyFor_def split: if_splits)
  next
    case (Some g)
    show ?thesis using c Some parts_ok_lookup [OF ok Some]
      by (auto simp: complete_def Let_def msg_key_def keyFor_def group_ok_def split: if_splits)
  qed
  then show "msg_key m = keyFor f" "length (am_payload m) \<le> MAX_ASSEMBLED_MESSAGE_BYTES" by auto
qed

lemma bytes_held_bound:
  assumes "list_all group_ok parts"
  shows "sum_list (map (\<lambda>(_, g). length (concat (pg_chunks g))) parts) \<le> length parts * MAX_ASSEMBLED_MESSAGE_BYTES"
  using assms by (induction parts) (auto simp: group_ok_def)

text \<open>
  The memory of the assembler is bounded whatever frames arrive: from a state within the limits
  every push, accepted or refused, and every reset stays within them, so at most 256 groups and
  4 GiB are held, and a message that is returned has at most 16 MiB.
\<close>

theorem assembler_memory_bounded:
  assumes "parts_ok parts"
  shows "parts_ok (snd (push f parts)) \<and> parts_ok (assembler_reset s parts) \<and>
    length parts \<le> 256 \<and> sum_list (map (\<lambda>(_, g). length (concat (pg_chunks g))) parts) \<le> 256 * (16 * 1024 * 1024) \<and>
    (case fst (push f parts) of Inr (Some m) \<Rightarrow> length (am_payload m) \<le> 16 * 1024 * 1024 | _ \<Rightarrow> True)"
proof -
  have l: "length parts \<le> 256" and g: "list_all group_ok parts"
    using assms by (auto simp: parts_ok_def MAX_PENDING_FRAGMENT_STREAMS_def)
  have "length parts * MAX_ASSEMBLED_MESSAGE_BYTES \<le> 256 * (16 * 1024 * 1024)"
    using l by (simp add: MAX_ASSEMBLED_MESSAGE_BYTES_def)
  moreover have "parts_ok (assembler_reset s parts)"
    using assms by (cases s) (simp_all add: assembler_reset_def parts_ok_filter, simp add: parts_ok_def)
  moreover have "case fst (push f parts) of Inr (Some m) \<Rightarrow> length (am_payload m) \<le> 16 * 1024 * 1024 | _ \<Rightarrow> True"
    using push_message(2) [OF assms] by (auto simp: MAX_ASSEMBLED_MESSAGE_BYTES_def split: sum.splits option.splits)
  ultimately show ?thesis
    using l push_parts_ok [OF assms] bytes_held_bound [OF g] by auto
qed

theorem assembler_memory_bounded_witness:
  "length (am_payload \<lparr>am_type = 8, am_streamId = 1, am_payload = [1, 2, 3]\<rparr>) \<le> 16 * 1024 * 1024 \<and>
   fst (push \<lparr>tf_type = 8, tf_streamId = 1, tf_hasMore = False, tf_payload = [2, 3]\<rparr>
     [(''1:8'', \<lparr>pg_type = 8, pg_streamId = 1, pg_chunks = [[1]], pg_bytes = 1\<rparr>)]) =
   Inr (Some \<lparr>am_type = 8, am_streamId = 1, am_payload = [1, 2, 3]\<rparr>)"
proof -
  let ?p = "[(''1:8'', \<lparr>pg_type = 8, pg_streamId = 1, pg_chunks = [[1]], pg_bytes = 1\<rparr>)]"
  let ?f = "\<lparr>tf_type = 8, tf_streamId = 1, tf_hasMore = False, tf_payload = [2, 3]\<rparr>"
  have k: "group_key 1 8 = ''1:8''" by code_simp
  then have "parts_ok ?p"
    by (simp add: parts_ok_def group_ok_def isFragmentableType_def MAX_PENDING_FRAGMENT_STREAMS_def MAX_ASSEMBLED_MESSAGE_BYTES_def)
  moreover have "fst (push ?f ?p) = Inr (Some \<lparr>am_type = 8, am_streamId = 1, am_payload = [1, 2, 3]\<rparr>)"
    by (simp add: push_def complete_def keyFor_def k MAX_ASSEMBLED_MESSAGE_BYTES_def)
  ultimately show ?thesis using assembler_memory_bounded [of ?p ?f None] by simp
qed

section \<open>Interleaved messages are reassembled\<close>

text \<open>Frames of one connection in arrival order; the first refused frame ends the channel.\<close>

fun push_all :: "TunnelFrame list \<Rightarrow> partials \<Rightarrow> codec_error + AssembledMessage list \<times> partials" where
  "push_all [] parts = Inr ([], parts)"
| "push_all (f # fs) parts =
     (case push f parts of
        (Inl e, _) \<Rightarrow> Inl e
      | (Inr r, parts') \<Rightarrow> rbind (push_all fs parts') (\<lambda>(ms, parts''). Inr (case r of Some m \<Rightarrow> m # ms | None \<Rightarrow> ms, parts'')))"

definition only :: "string \<Rightarrow> partials \<Rightarrow> partials" where
  "only k parts = filter (\<lambda>(k', _). k' = k) parts"

lemma map_of_only: "map_of (only k parts) k = map_of parts k"
  by (induction parts) (auto simp: only_def)

lemma only_delete: "only k (AList.delete k' parts) = (if k' = k then [] else only k parts)"
  unfolding only_def delete_filter by (auto simp: filter_empty_conv intro!: filter_cong)

lemma only_update_same: "only k (AList.update k g parts) = AList.update k g (only k parts)"
  by (induction parts) (auto simp: only_def filter_empty_conv)

lemma only_update_other: "k' \<noteq> k \<Longrightarrow> only k (AList.update k' g parts) = only k parts"
  by (induction parts) (auto simp: only_def)

lemma only_short: "distinct (map fst parts) \<Longrightarrow> length (only k parts) \<le> 1"
proof (induction parts)
  case (Cons p parts)
  have "only k parts = []" if "fst p = k"
    using Cons.prems that by (cases p) (auto simp: only_def filter_empty_conv image_iff)
  then show ?case using Cons by (auto simp: only_def split: prod.splits)
qed (simp add: only_def)

lemmas only_rules = map_of_only only_delete only_update_same only_update_other

lemma delete_only [simp]: "AList.delete k (only k parts) = []"
  by (auto simp: delete_filter only_def filter_empty_conv)

lemma push_other_key:
  assumes "push f parts = (Inr r, parts')" "keyFor f \<noteq> k"
  shows "only k parts' = only k parts"
  using assms complete_parts [of f parts]
  by (auto simp: push_def Let_def only_rules simp del: complete_parts split: if_splits prod.splits sum.splits option.splits)

lemma push_same_key:
  assumes "push f parts = (Inr r, parts')" "parts_ok parts"
  shows "push f (only (keyFor f) parts) = (Inr r, only (keyFor f) parts')"
proof (cases "tf_hasMore f")
  case False
  then have "fst (complete f (only (keyFor f) parts)) = fst (complete f parts)"
    by (simp add: complete_def Let_def map_of_only split: option.splits)
  then show ?thesis using assms False complete_parts [of f parts] complete_parts [of f "only (keyFor f) parts"]
    by (auto simp: push_def only_rules simp del: complete_parts split: prod.splits sum.splits)
next
  case True
  have "length (only (keyFor f) parts) < MAX_PENDING_FRAGMENT_STREAMS"
    using only_short [of parts "keyFor f"] assms(2) by (simp add: parts_ok_def MAX_PENDING_FRAGMENT_STREAMS_def)
  then show ?thesis using assms(1) True
    by (auto simp: push_def Let_def only_rules split: if_splits)
qed

text \<open>A run on one connection, seen by one group, is the run of that group's frames alone.\<close>

lemma push_all_only:
  assumes "push_all fs parts = Inr (ms, parts')" "parts_ok parts"
  shows "push_all (filter (\<lambda>f. keyFor f = k) fs) (only k parts) = Inr (filter (\<lambda>m. msg_key m = k) ms, only k parts')"
  using assms
proof (induction fs arbitrary: parts ms)
  case (Cons f fs)
  from Cons.prems(1) obtain r p1 ms1 where p: "push f parts = (Inr r, p1)" and rec: "push_all fs p1 = Inr (ms1, parts')"
    and ms: "ms = (case r of Some m \<Rightarrow> m # ms1 | None \<Rightarrow> ms1)"
    by (auto split: prod.splits sum.splits)
  have ok: "parts_ok p1" using push_parts_ok [OF Cons.prems(2), of f] p by simp
  note ih = Cons.IH [OF rec ok]
  have key: "msg_key m = keyFor f" if "r = Some m" for m
    using push_message(1) [OF Cons.prems(2), of f m] p that by simp
  show ?case
  proof (cases "keyFor f = k")
    case True
    then show ?thesis using push_same_key [OF p Cons.prems(2)] ih key ms by (auto split: option.splits)
  next
    case False
    then show ?thesis using push_other_key [OF p] ih key ms by (auto split: option.splits)
  qed
qed simp

text \<open>The fragments of one message, from a state that holds the chunks before them.\<close>

lemma push_all_fragments:
  assumes "isFragmentableType ty" "length (concat (done @ cs)) \<le> MAX_ASSEMBLED_MESSAGE_BYTES" "cs \<noteq> []"
    and "parts = (if done = [] then [] else [(group_key sid ty, \<lparr>pg_type = ty, pg_streamId = sid, pg_chunks = done, pg_bytes = length (concat done)\<rparr>)])"
  shows "push_all (map (fragment_frame ty sid (done @ cs)) [length done ..< length (done @ cs)]) parts =
    Inr ([\<lparr>am_type = ty, am_streamId = sid, am_payload = concat (done @ cs)\<rparr>], [])"
  using assms
proof (induction cs arbitrary: "done" parts)
  case (Cons c cs)
  let ?f = "fragment_frame ty sid (done @ c # cs)"
  have f: "?f (length done) = \<lparr>tf_type = ty, tf_streamId = sid, tf_hasMore = cs \<noteq> [], tf_payload = c\<rparr>"
    by (auto simp: fragment_frame_def)
  have up: "[length done ..< length (done @ c # cs)] = length done # [length (done @ [c]) ..< length (done @ c # cs)]"
    by (simp add: upt_conv_Cons del: upt_Suc)
  have g: "(done @ [c]) @ cs = done @ c # cs" by simp
  show ?case
  proof (cases "cs = []")
    case True
    have "push (?f (length done)) parts = (Inr (Some \<lparr>am_type = ty, am_streamId = sid, am_payload = concat (done @ c # cs)\<rparr>), [])"
      unfolding f using Cons.prems True by (cases "done = []") (simp_all add: push_def complete_def keyFor_def)
    then show ?thesis using True unfolding up list.map push_all.simps by simp
  next
    case False
    have "push (?f (length done)) parts = (Inr None,
        [(group_key sid ty, \<lparr>pg_type = ty, pg_streamId = sid, pg_chunks = done @ [c], pg_bytes = length (concat (done @ [c]))\<rparr>)])"
      unfolding f using Cons.prems False by (cases "done = []") (simp_all add: push_def keyFor_def MAX_PENDING_FRAGMENT_STREAMS_def)
    moreover have "push_all (map ?f [length (done @ [c]) ..< length (done @ c # cs)])
        [(group_key sid ty, \<lparr>pg_type = ty, pg_streamId = sid, pg_chunks = done @ [c], pg_bytes = length (concat (done @ [c]))\<rparr>)] =
        Inr ([\<lparr>am_type = ty, am_streamId = sid, am_payload = concat (done @ c # cs)\<rparr>], [])"
      using Cons.IH [of "done @ [c]"] Cons.prems False unfolding g by simp
    ultimately show ?thesis unfolding up list.map push_all.simps by simp
  qed
qed simp

lemma group_key_inj: "group_key s t = group_key s' t' \<longleftrightarrow> s = s' \<and> t = t'"
proof -
  have "takeWhile (\<lambda>c. c \<noteq> CHR '':'') (group_key s t) = show_int s" for s t
    using show_int_chars [of "CHR '':''" s] by (subst group_key_def, subst takeWhile_append2) auto
  then show ?thesis by (metis (no_types, lifting) append_same_eq same_append_eq group_key_def show_int_inj)
qed

text \<open>Where a run stops, and why a frame is refused.\<close>

lemma push_all_Inl:
  assumes "push_all fs parts = Inl e" "parts_ok parts"
  shows "\<exists>pre f post ms p. fs = pre @ f # post \<and> push_all pre parts = Inr (ms, p) \<and> parts_ok p \<and> fst (push f p) = Inl e"
  using assms
proof (induction fs arbitrary: parts)
  case (Cons f fs)
  obtain r p where p: "push f parts = (r, p)" by fastforce
  have ok: "parts_ok p" using push_parts_ok [OF Cons.prems(2), of f] p by simp
  show ?case
  proof (cases r)
    case (Inl e')
    then have "f # fs = [] @ f # fs \<and> push_all [] parts = Inr ([], parts) \<and> parts_ok parts \<and> fst (push f parts) = Inl e"
      using Cons.prems p by simp
    then show ?thesis by blast
  next
    case (Inr m)
    then have "push_all fs p = Inl e" using Cons.prems(1) p by (cases "push_all fs p") auto
    from Cons.IH [OF this ok] obtain pre g post ms q where "fs = pre @ g # post" "push_all pre p = Inr (ms, q)" "parts_ok q" "fst (push g q) = Inl e"
      by blast
    then have "f # fs = (f # pre) @ g # post" "\<exists>ms. push_all (f # pre) parts = Inr (ms, q)" "parts_ok q" "fst (push g q) = Inl e"
      using p Inr by simp_all
    then show ?thesis by blast
  qed
qed simp

lemma push_all_middle:
  assumes "push_all (xs @ f # ys) parts = Inr r" "push_all xs parts = Inr (ms, p)"
  shows "\<exists>m. fst (push f p) = Inr m"
  using assms
proof (induction xs arbitrary: parts ms r)
  case Nil
  then show ?case by (auto split: prod.splits sum.splits)
next
  case (Cons x xs)
  from Cons.prems(2) obtain m q ms1 where q: "push x parts = (Inr m, q)" "push_all xs q = Inr (ms1, p)"
    by (auto split: prod.splits sum.splits)
  then obtain r1 where "push_all (xs @ f # ys) q = Inr r1" using Cons.prems(1) by (cases "push_all (xs @ f # ys) q") auto
  then show ?case using Cons.IH q(2) by blast
qed

definition held_bytes :: "partials \<Rightarrow> string \<Rightarrow> nat" where
  "held_bytes parts k = (case map_of parts k of Some g \<Rightarrow> length (concat (pg_chunks g)) | None \<Rightarrow> 0)"

definition refused :: "TunnelFrame \<Rightarrow> partials \<Rightarrow> codec_error \<Rightarrow> bool" where
  "refused f parts e \<longleftrightarrow>
     e = ArrivedFragmented (tf_type f) \<and> tf_hasMore f \<and> \<not> isFragmentableType (tf_type f) \<or>
     e = TooManyPartials \<and> tf_hasMore f \<and> map_of parts (keyFor f) = None \<and> length parts = MAX_PENDING_FRAGMENT_STREAMS \<or>
     e = AssembledTooLarge \<and> held_bytes parts (keyFor f) + length (tf_payload f) > MAX_ASSEMBLED_MESSAGE_BYTES"

lemma push_Inl:
  assumes "fst (push f parts) = Inl e" "parts_ok parts"
  shows "refused f parts e"
proof -
  have b: "pg_bytes g = length (concat (pg_chunks g))" if "map_of parts (keyFor f) = Some g" for g
    using parts_ok_lookup [OF assms(2) that] by (simp add: group_ok_def)
  show ?thesis
  proof (cases "map_of parts (keyFor f)")
    case None
    then show ?thesis using assms
      by (auto simp: push_def complete_def refused_def held_bytes_def parts_ok_def Let_def split: if_splits)
  next
    case (Some g)
    then show ?thesis using assms b [OF Some]
      by (auto simp: push_def complete_def refused_def held_bytes_def Let_def split: if_splits)
  qed
qed

lemma own_frame_accepted:
  assumes "push_all (filter (\<lambda>f. keyFor f = k) (pre @ f # post)) (only k parts) = Inr r" "keyFor f = k"
    and "push_all pre parts = Inr (ms, p)" "parts_ok parts" "refused f p e" "parts_ok p"
  shows "e = TooManyPartials"
proof -
  have "\<exists>m. fst (push f (only k p)) = Inr m"
    by (rule push_all_middle [of "filter (\<lambda>f. keyFor f = k) pre"]) (use assms push_all_only [OF assms(3,4), of k] in simp_all)
  moreover have "pg_bytes g = length (concat (pg_chunks g))" if "map_of p k = Some g" for g
    using parts_ok_lookup [OF assms(6) that] by (simp add: group_ok_def)
  ultimately show ?thesis using assms(2,5)
    by (auto simp: refused_def push_def complete_def held_bytes_def Let_def map_of_only split: if_splits option.splits)
qed

text \<open>C23.
  A fragmented message of at most 16 MiB arrives whole. Let any frames of other streams or types
  come between its fragments, on a connection that holds no group of this stream and type. Either
  the assembler accepts all frames: then it returns, for this stream and type, exactly one message
  with exactly the payload that was sent, and forgets the group. Or it stops at a first frame it
  refuses, for one of three reasons: a frame of a type that may not be fragmented says that more
  follows; a first fragment of a group comes while 256 other groups are pending; a message of
  another stream or type grows beyond 16 MiB.
\<close>

theorem interleaved_fragments_reassemble:
  assumes "encodeFragmentedMessage ty sid payload n = Inr frags" "0 \<le> sid" "sid < 2 ^ 32"
    and "length payload \<le> MAX_ASSEMBLED_MESSAGE_BYTES"
    and "map decodeTunnelFrame frags = map Inr (filter (\<lambda>f. tf_streamId f = sid \<and> tf_type f = frame_numeral ty) fs)"
    and "parts_ok parts" "map_of parts (group_key sid (frame_numeral ty)) = None"
  shows "(\<exists>ms parts'. push_all fs parts = Inr (ms, parts') \<and>
      filter (\<lambda>m. am_streamId m = sid \<and> am_type m = frame_numeral ty) ms =
        [\<lparr>am_type = frame_numeral ty, am_streamId = sid, am_payload = payload\<rparr>] \<and>
      map_of parts' (group_key sid (frame_numeral ty)) = None) \<or>
    (\<exists>pre f post ms p e. fs = pre @ f # post \<and> push_all pre parts = Inr (ms, p) \<and> push_all fs parts = Inl e \<and>
      fst (push f p) = Inl e \<and> refused f p e \<and>
      (tf_streamId f = sid \<and> tf_type f = frame_numeral ty \<longrightarrow> e = TooManyPartials))"
proof -
  let ?k = "group_key sid (frame_numeral ty)"
  have key: "keyFor f = ?k \<longleftrightarrow> tf_streamId f = sid \<and> tf_type f = frame_numeral ty" for f
    by (simp add: keyFor_def group_key_inj)
  have mkey: "msg_key m = ?k \<longleftrightarrow> am_streamId m = sid \<and> am_type m = frame_numeral ty" for m
    by (simp add: msg_key_def group_key_inj)
  from assms(1) obtain cs where cs: "chunkPayload payload n = Inr cs" and frag: "isFragmentableType (frame_numeral ty)"
    and frags: "frags = map (\<lambda>i. encodeTunnelFrame (fragment_frame (frame_numeral ty) sid cs i)) [0..<length cs]"
    by (auto simp: encodeFragmentedMessage_def split: if_splits)
  have "map decodeTunnelFrame frags = map Inr (map (fragment_frame (frame_numeral ty) sid cs) [0..<length cs])"
    unfolding frags using assms(2,3) by (auto intro!: decode_encode simp: fragment_frame_def)
  moreover have "map decodeTunnelFrame frags = map Inr (filter (\<lambda>f. keyFor f = ?k) fs)" unfolding key by (rule assms(5))
  ultimately have fs: "filter (\<lambda>f. keyFor f = ?k) fs = map (fragment_frame (frame_numeral ty) sid cs) [0..<length cs]"
    by (metis inj_map_eq_map inj_Inr)
  have none: "only ?k parts = []"
    using assms(7) by (force simp: only_def filter_empty_conv map_of_eq_None_iff)
  have "push_all (filter (\<lambda>f. keyFor f = ?k) fs) [] =
      Inr ([\<lparr>am_type = frame_numeral ty, am_streamId = sid, am_payload = payload\<rparr>], [])"
    using push_all_fragments [OF frag, of "[]" cs "[]" sid] chunkPayload_Inr [OF cs] assms(4) unfolding fs by simp
  then have own: "push_all (filter (\<lambda>f. keyFor f = ?k) fs) (only ?k parts) =
      Inr ([\<lparr>am_type = frame_numeral ty, am_streamId = sid, am_payload = payload\<rparr>], [])"
    unfolding none .
  show ?thesis
  proof (cases "push_all fs parts")
    case (Inr r)
    obtain ms parts' where r: "push_all fs parts = Inr (ms, parts')" using Inr by (cases r) auto
    have "only ?k parts' = []" "filter (\<lambda>m. msg_key m = ?k) ms = [\<lparr>am_type = frame_numeral ty, am_streamId = sid, am_payload = payload\<rparr>]"
      using push_all_only [OF r assms(6), of ?k] own by simp_all
    then show ?thesis using map_of_only [of ?k parts'] r by (simp add: mkey)
  next
    case (Inl e)
    then obtain pre f post ms p where f: "fs = pre @ f # post" "push_all pre parts = Inr (ms, p)" "parts_ok p" "fst (push f p) = Inl e"
      using push_all_Inl assms(6) by blast
    have "keyFor f = ?k \<longrightarrow> e = TooManyPartials"
      using own_frame_accepted [OF own [unfolded f(1)] _ f(2) assms(6) push_Inl [OF f(4,3)] f(3)] by blast
    then show ?thesis using f Inl push_Inl [OF f(4,3)] by (auto simp: key)
  qed
qed

theorem interleaved_fragments_reassemble_witness:
  "\<exists>ms parts'. push_all
     [\<lparr>tf_type = 8, tf_streamId = 1, tf_hasMore = True, tf_payload = [1, 2]\<rparr>,
      \<lparr>tf_type = 9, tf_streamId = 3, tf_hasMore = True, tf_payload = [9]\<rparr>,
      \<lparr>tf_type = 8, tf_streamId = 1, tf_hasMore = False, tf_payload = [3]\<rparr>] [] = Inr (ms, parts') \<and>
     filter (\<lambda>m. am_streamId m = 1 \<and> am_type m = 8) ms = [\<lparr>am_type = 8, am_streamId = 1, am_payload = [1, 2, 3]\<rparr>]"
proof -
  let ?a = "\<lparr>tf_type = 8, tf_streamId = 1, tf_hasMore = True, tf_payload = [1, 2]\<rparr>"
  let ?b = "\<lparr>tf_type = 9, tf_streamId = 3, tf_hasMore = True, tf_payload = [9]\<rparr>"
  let ?c = "\<lparr>tf_type = 8, tf_streamId = 1, tf_hasMore = False, tf_payload = [3]\<rparr>"
  have k: "group_key 1 8 = ''1:8''" "group_key 3 9 = ''3:9''" by code_simp+
  let ?ms = "[\<lparr>am_type = 8, am_streamId = 1, am_payload = [1, 2, 3]\<rparr>]"
  have run: "push_all [?a, ?b, ?c] [] = Inr (?ms, [(''3:9'', \<lparr>pg_type = 9, pg_streamId = 3, pg_chunks = [[9]], pg_bytes = 1\<rparr>)])"
    by (simp add: push_def complete_def keyFor_def k isFragmentableType_def MAX_PENDING_FRAGMENT_STREAMS_def MAX_ASSEMBLED_MESSAGE_BYTES_def)
  have cs: "chunk_loop 2 [1, 2, 3] = [[1, 2], [3 :: 8 word]]" by (simp add: chunk_loop.simps)
  have enc: "encodeFragmentedMessage WsText 1 [1, 2, 3] 2 = Inr [encodeTunnelFrame ?a, encodeTunnelFrame ?c]"
    by (simp add: encodeFragmentedMessage_def chunkPayload_def cs isFragmentableType_def fragment_frame_def
        MAX_TUNNEL_PAYLOAD_BYTES_def MAX_PLAINTEXT_FRAME_BYTES_def)
  have dec: "map decodeTunnelFrame [encodeTunnelFrame ?a, encodeTunnelFrame ?c] = map Inr [?a, ?c]"
    using decode_encode [of ?a] decode_encode [of ?c] by (simp add: frame_numerals)
  have "\<exists>ms parts'. push_all [?a, ?b, ?c] [] = Inr (ms, parts') \<and>
      filter (\<lambda>m. am_streamId m = 1 \<and> am_type m = frame_numeral WsText) ms = [\<lparr>am_type = frame_numeral WsText, am_streamId = 1, am_payload = [1, 2, 3]\<rparr>]"
    using interleaved_fragments_reassemble [OF enc, of "[?a, ?b, ?c]" "[]"] dec run
    by (simp add: MAX_ASSEMBLED_MESSAGE_BYTES_def parts_ok_def del: push_all.simps)
  then show ?thesis by simp
qed

section \<open>A request head without headers\<close>

text \<open>
  The guard admits a request head with no \<open>headers\<close> (and with \<open>query\<close> null), although the
  payload type promises both: \<open>?? {}\<close> fills them in for the check only. The dispatcher reads
  \<open>head.headers\<close> and \<open>head.query\<close> of the value as it arrived.
\<close>

theorem request_guard_admits_missing_headers:
  "let head = Some (JObj [(''method'', JStr ''GET''), (''path'', JStr ''/api''), (''query'', JNull)])
   in isHttpRequestPayload head \<and> get head ''headers'' = None \<and> get head ''query'' = Some JNull"
  by (simp add: isHttpRequestPayload_def get_def)

end
