(* ===== verification/Relay_Batch.thy ===== *)
theory Relay_Batch
  imports Relay_Codec "HOL-Library.Sublist"
begin

text \<open>
  Batching of tunnel frames (\<open>lib/relay/batch.ts\<close>) and the ingress of a leg
  (\<open>lib/relay/leg-host.ts\<close>): the container format, the demultiplexer that tells a container
  from a bare frame, and the outbound batcher with its promise chain, its window timer and its
  caps. A link of the chain is cut at its awaits: while it waits for the carrier, calls and a
  teardown may come in between. Lemmas: what the batcher sends, the receiver takes apart into exactly the frames that
  were offered, in order; the batcher refines a plain first-in first-out channel; no buffered
  frame is left without a timer or a pending flush.
\<close>

unbundle bit_operations_syntax

section \<open>Containers\<close>

definition BATCH_ENVELOPE_RESERVED_BYTES :: nat where "BATCH_ENVELOPE_RESERVED_BYTES = 1 + 4"
definition DEFAULT_BATCH_WINDOW_MS :: int where "DEFAULT_BATCH_WINDOW_MS = 150"
definition DEFAULT_MAX_BATCH_BYTES :: nat where "DEFAULT_MAX_BATCH_BYTES = 24 * 1024"
definition DEFAULT_MAX_BATCH_FRAMES :: nat where "DEFAULT_MAX_BATCH_FRAMES = 32"

definition BATCH_BUFFERED_TYPES :: "int list" where
  "BATCH_BUFFERED_TYPES = map frame_numeral [HttpBody, WsText, WsBinary]"

definition encodeBatchContainer :: "bytes list \<Rightarrow> bytes" where
  "encodeBatchContainer frames =
     (case frames of
        [frame] \<Rightarrow> 0x00 # frame
      | _ \<Rightarrow> 0x01 # concat (map (\<lambda>frame. writeUInt32BE (word_of_nat (length frame)) @ frame) frames))"

datatype demuxed = Single bytes | Batch "bytes list"

text \<open>The loop over length-prefixed segments, on the bytes after the cursor.\<close>

fun segments :: "bytes \<Rightarrow> bytes list option" where
  "segments (a # b # c # d # rest) =
     (let len = unat (readUInt32BE a b c d)
      in if len > length rest then None
         else map_option (Cons (take len rest)) (segments (drop len rest)))"
| "segments rest = (if rest = [] then Some [] else None)"

fun decodeBatchContainer :: "bytes \<Rightarrow> demuxed option" where
  "decodeBatchContainer [] = None"
| "decodeBatchContainer (tag # rest) =
     (if tag = 0x00 then Some (Single rest)
      else if tag \<noteq> 0x01 then None
      else map_option Batch (segments rest))"

text \<open>\<open>frame[0] & 0x7f\<close>, which is 0 for an empty buffer.\<close>

fun type_of_bytes :: "bytes \<Rightarrow> int" where
  "type_of_bytes (h # _) = uint (h AND 0x7f)"
| "type_of_bytes [] = 0"

fun strict_loop :: "bytes \<Rightarrow> nat \<Rightarrow> bool" where
  "strict_loop (a # b # c # d # rest) n =
     (let len = unat (readUInt32BE a b c d)
      in if len < TUNNEL_FRAME_HEADER_BYTES \<or> len > length rest then False
         else if type_of_bytes (take len rest) \<notin> set BATCH_BUFFERED_TYPES then False
         else strict_loop (drop len rest) (n + 1))"
| "strict_loop rest n \<longleftrightarrow> rest = [] \<and> n \<ge> 1"

definition isStrictBatchContainer :: "bytes \<Rightarrow> bool" where
  "isStrictBatchContainer bytes = strict_loop (tl bytes) 0"

definition decodeFrameOrContainer :: "bytes \<Rightarrow> demuxed option" where
  "decodeFrameOrContainer bytes =
     (case bytes of
        [] \<Rightarrow> None
      | tag # _ \<Rightarrow>
          if tag = 0x00 then decodeBatchContainer bytes
          else if tag = 0x01 \<and> isStrictBatchContainer bytes then decodeBatchContainer bytes
          else if length bytes < TUNNEL_FRAME_HEADER_BYTES then None
          else Some (Single bytes))"

text \<open>The ingress of a leg: one plaintext message to its frames; \<open>None\<close> is the thrown error.\<close>

definition acceptPlainBytes :: "bytes \<Rightarrow> bytes list option" where
  "acceptPlainBytes plaintext =
     (case decodeFrameOrContainer plaintext of
        None \<Rightarrow> None
      | Some (Single frame) \<Rightarrow> Some [frame]
      | Some (Batch frames) \<Rightarrow> Some frames)"

section \<open>The outbound batcher\<close>

record BatcherOptions =
  bo_windowMs :: int
  bo_maxBatchBytes :: nat
  bo_maxBatchFrames :: nat

definition default_batcher_options :: BatcherOptions where
  "default_batcher_options = \<lparr>bo_windowMs = DEFAULT_BATCH_WINDOW_MS,
     bo_maxBatchBytes = DEFAULT_MAX_BATCH_BYTES, bo_maxBatchFrames = DEFAULT_MAX_BATCH_FRAMES\<rparr>"

text \<open>A step of the promise chain.\<close>

datatype chain_step = OfferStep bytes | FlushStep

text \<open>
  The fields of \<open>OutboundFrameBatcherImpl\<close>; the timer carries the time it fires at, the chain
  the steps that have not started, \<open>bt_awaiting\<close> the await the running link is suspended at, with
  the answer it will get and the frame it sends next if the answer is not a rejection, and
  \<open>bt_sent\<close> the messages the carrier accepted.
\<close>

record OutboundFrameBatcher =
  bt_buffered :: "bytes list"
  bt_bufferedBytes :: nat
  bt_chain :: "chain_step list"
  bt_timer :: "int option"
  bt_disposed :: bool
  bt_lastFlushStamp :: int
  bt_awaiting :: "(bool \<times> bytes option) option"
  bt_sent :: "bytes list"

definition createOutboundFrameBatcher :: "int \<Rightarrow> OutboundFrameBatcher" where
  "createOutboundFrameBatcher now = \<lparr>bt_buffered = [], bt_bufferedBytes = 0, bt_chain = [], bt_timer = None,
     bt_disposed = False, bt_lastFlushStamp = now, bt_awaiting = None, bt_sent = []\<rparr>"

definition enqueueStep :: "chain_step \<Rightarrow> OutboundFrameBatcher \<Rightarrow> OutboundFrameBatcher" where
  "enqueueStep step b = b\<lparr>bt_chain := bt_chain b @ [step]\<rparr>"

definition offer :: "TunnelFrame \<Rightarrow> OutboundFrameBatcher \<Rightarrow> OutboundFrameBatcher" where
  "offer frame = enqueueStep (OfferStep (encodeTunnelFrame frame))"

definition offerEncoded :: "bytes \<Rightarrow> OutboundFrameBatcher \<Rightarrow> OutboundFrameBatcher" where
  "offerEncoded frameBytes = enqueueStep (OfferStep frameBytes)"

definition flush :: "OutboundFrameBatcher \<Rightarrow> OutboundFrameBatcher" where
  "flush = enqueueStep FlushStep"

definition cancelWindow :: "OutboundFrameBatcher \<Rightarrow> OutboundFrameBatcher" where
  "cancelWindow b = b\<lparr>bt_timer := None\<rparr>"

definition disposeBatcher :: "OutboundFrameBatcher \<Rightarrow> OutboundFrameBatcher" where
  "disposeBatcher b = (cancelWindow (b\<lparr>bt_disposed := True\<rparr>))\<lparr>bt_buffered := [], bt_bufferedBytes := 0\<rparr>"

definition scheduleWindow :: "BatcherOptions \<Rightarrow> int \<Rightarrow> OutboundFrameBatcher \<Rightarrow> OutboundFrameBatcher" where
  "scheduleWindow opts now b =
     (case bt_timer b of Some _ \<Rightarrow> b | None \<Rightarrow> b\<lparr>bt_timer := Some (now + max 1 (bo_windowMs opts))\<rparr>)"

text \<open>The timer callback.\<close>

definition window_fired :: "OutboundFrameBatcher \<Rightarrow> OutboundFrameBatcher" where
  "window_fired b = flush (b\<lparr>bt_timer := None\<rparr>)"

definition capsReached :: "BatcherOptions \<Rightarrow> OutboundFrameBatcher \<Rightarrow> bool" where
  "capsReached opts b \<longleftrightarrow> length (bt_buffered b) \<ge> bo_maxBatchFrames opts \<or>
     bt_bufferedBytes b \<ge> bo_maxBatchBytes opts \<or>
     bt_bufferedBytes b + BATCH_ENVELOPE_RESERVED_BYTES \<ge> MAX_PLAINTEXT_FRAME_BYTES"

text \<open>The call \<open>this.send(...)\<close>; the result is the answer of the carrier, which is awaited.\<close>

definition send :: "(bytes \<Rightarrow> bool) \<Rightarrow> bytes \<Rightarrow> OutboundFrameBatcher \<Rightarrow> bool \<times> OutboundFrameBatcher" where
  "send carrier message b = (if carrier message then (True, b\<lparr>bt_sent := bt_sent b @ [message]\<rparr>) else (False, b))"

definition flushBuffer :: "(bytes \<Rightarrow> bool) \<Rightarrow> int \<Rightarrow> OutboundFrameBatcher \<Rightarrow> bool \<times> OutboundFrameBatcher" where
  "flushBuffer carrier now b0 =
     (let b = cancelWindow b0
      in if bt_buffered b = [] then (True, b)
         else send carrier (encodeBatchContainer (bt_buffered b))
                (b\<lparr>bt_buffered := [], bt_bufferedBytes := 0, bt_lastFlushStamp := now\<rparr>))"

text \<open>A link of the chain waits for a flush or a send, and may have a frame to send after it.\<close>

definition awaits :: "bytes option \<Rightarrow> bool \<times> OutboundFrameBatcher \<Rightarrow> OutboundFrameBatcher" where
  "awaits following r = (snd r)\<lparr>bt_awaiting := Some (fst r, following)\<rparr>"

definition offerNowBytes :: "BatcherOptions \<Rightarrow> (bytes \<Rightarrow> bool) \<Rightarrow> int \<Rightarrow> bytes \<Rightarrow> OutboundFrameBatcher \<Rightarrow> OutboundFrameBatcher" where
  "offerNowBytes opts carrier now bytes b =
     (if bt_disposed b then b
      else if type_of_bytes bytes \<notin> set BATCH_BUFFERED_TYPES then awaits (Some bytes) (flushBuffer carrier now b)
      else
        (let b' = b\<lparr>bt_buffered := bt_buffered b @ [bytes],
                    bt_bufferedBytes := bt_bufferedBytes b + length bytes + BATCH_ENVELOPE_RESERVED_BYTES\<rparr>
         in if capsReached opts b' then awaits None (flushBuffer carrier now b')
            else if now - bt_lastFlushStamp b' \<ge> bo_windowMs opts then awaits None (flushBuffer carrier now b')
            else scheduleWindow opts now b'))"

text \<open>The next link of the chain starts when none is under way.\<close>

definition run_chain :: "BatcherOptions \<Rightarrow> (bytes \<Rightarrow> bool) \<Rightarrow> int \<Rightarrow> OutboundFrameBatcher \<Rightarrow> OutboundFrameBatcher" where
  "run_chain opts carrier now b =
     (if bt_awaiting b \<noteq> None then b
      else case bt_chain b of
        [] \<Rightarrow> b
      | OfferStep bytes # rest \<Rightarrow> offerNowBytes opts carrier now bytes (b\<lparr>bt_chain := rest\<rparr>)
      | FlushStep # rest \<Rightarrow> awaits None (flushBuffer carrier now (b\<lparr>bt_chain := rest\<rparr>)))"

text \<open>
  The link goes on after its await: a rejection is passed to the caller of the link and ends it,
  the frame that waited for the flush is sent, without another look at \<open>disposed\<close>.
\<close>

definition resume_link :: "(bytes \<Rightarrow> bool) \<Rightarrow> OutboundFrameBatcher \<Rightarrow> OutboundFrameBatcher" where
  "resume_link carrier b =
     (case bt_awaiting b of
        Some (True, Some bytes) \<Rightarrow> awaits None (send carrier bytes b)
      | _ \<Rightarrow> b\<lparr>bt_awaiting := None\<rparr>)"

section \<open>What a container holds comes out again\<close>

text \<open>A frame the demultiplexer cannot take for something else.\<close>

definition buffered_frame :: "bytes \<Rightarrow> bool" where
  "buffered_frame bs \<longleftrightarrow> TUNNEL_FRAME_HEADER_BYTES \<le> length bs \<and> length bs < 2 ^ 32 \<and> type_of_bytes bs \<in> set BATCH_BUFFERED_TYPES"

definition bare_frame :: "bytes \<Rightarrow> bool" where
  "bare_frame bs \<longleftrightarrow> TUNNEL_FRAME_HEADER_BYTES \<le> length bs \<and> type_of_bytes bs \<notin> set BATCH_BUFFERED_TYPES \<and>
     hd bs \<noteq> 0 \<and> (hd bs = 1 \<longrightarrow> \<not> isStrictBatchContainer bs)"

abbreviation wire_frame :: "bytes \<Rightarrow> bool" where
  "wire_frame bs \<equiv> buffered_frame bs \<or> bare_frame bs"

definition segment_bytes :: "bytes list \<Rightarrow> bytes" where
  "segment_bytes frames = concat (map (\<lambda>frame. writeUInt32BE (word_of_nat (length frame)) @ frame) frames)"

lemma read_length: "n < 2 ^ 32 \<Longrightarrow> writeUInt32BE (word_of_nat n) = [a, b, c, d] \<Longrightarrow> unat (readUInt32BE a b c d) = n"
  using readUInt32BE_write [of "word_of_nat n"] by (auto simp: writeUInt32BE_def unat_of_nat)

lemma write4: obtains a b c d where "writeUInt32BE w = [a, b, c, d]"
  by (simp add: writeUInt32BE_def)

lemma segments_bytes: "\<forall>f \<in> set fs. length f < 2 ^ 32 \<Longrightarrow> segments (segment_bytes fs) = Some fs"
proof (induction fs)
  case (Cons f fs)
  obtain a b c d where w: "writeUInt32BE (word_of_nat (length f)) = [a, b, c, d]" by (rule write4)
  then have "unat (readUInt32BE a b c d) = length f" using read_length Cons.prems by simp
  then show ?case using Cons by (simp add: segment_bytes_def w)
qed (simp add: segment_bytes_def)

lemma strict_loop_bytes: "\<forall>f \<in> set fs. buffered_frame f \<Longrightarrow> strict_loop (segment_bytes fs) n \<longleftrightarrow> fs \<noteq> [] \<or> n \<ge> 1"
proof (induction fs arbitrary: n)
  case (Cons f fs)
  obtain a b c d where w: "writeUInt32BE (word_of_nat (length f)) = [a, b, c, d]" by (rule write4)
  then have "unat (readUInt32BE a b c d) = length f" using read_length Cons.prems by (simp add: buffered_frame_def)
  then show ?case using Cons by (simp add: segment_bytes_def w buffered_frame_def not_less)
qed (simp add: segment_bytes_def)

lemma container_bytes: "\<nexists>f. fs = [f] \<Longrightarrow> encodeBatchContainer fs = 0x01 # segment_bytes fs"
  by (cases fs rule: remdups_adj.cases) (auto simp: encodeBatchContainer_def segment_bytes_def)

lemma container_accepted:
  assumes "fs \<noteq> []" "\<forall>f \<in> set fs. buffered_frame f"
  shows "acceptPlainBytes (encodeBatchContainer fs) = Some fs"
proof -
  have s: "segments (segment_bytes fs) = Some fs" "strict_loop (segment_bytes fs) 0"
    using segments_bytes [of fs] strict_loop_bytes [of fs 0] assms by (auto simp: buffered_frame_def)
  show ?thesis
  proof (cases "\<exists>f. fs = [f]")
    case True
    then show ?thesis by (auto simp: acceptPlainBytes_def decodeFrameOrContainer_def encodeBatchContainer_def)
  next
    case False
    then show ?thesis using s container_bytes [of fs] by (simp add: acceptPlainBytes_def decodeFrameOrContainer_def isStrictBatchContainer_def)
  qed
qed

lemma bare_accepted: "bare_frame bs \<Longrightarrow> acceptPlainBytes bs = Some [bs]"
  by (cases bs) (auto simp: bare_frame_def acceptPlainBytes_def decodeFrameOrContainer_def TUNNEL_FRAME_HEADER_BYTES_def)

text \<open>
  The demultiplexer is right on every message the batcher can build: a container of frames of
  the buffered types comes apart into these frames, a frame of another type comes out as
  itself, and so does a request frame whenever its payload is a JSON object, whatever its stream
  id looks like as a segment length.
\<close>

theorem demux_inverts_batching:
  "(fs \<noteq> [] \<longrightarrow> (\<forall>f \<in> set fs. buffered_frame f) \<longrightarrow> acceptPlainBytes (encodeBatchContainer fs) = Some fs) \<and>
   (tf_type fr \<in> set KNOWN_FRAME_TYPES \<longrightarrow> tf_type fr \<notin> set BATCH_BUFFERED_TYPES \<longrightarrow>
     (tf_type fr = frame_numeral HttpRequest \<longrightarrow> (\<exists>json. tf_payload fr = 0x7b # json)) \<longrightarrow>
     acceptPlainBytes (encodeTunnelFrame fr) = Some [encodeTunnelFrame fr])"
proof (intro conjI impI)
  show "acceptPlainBytes (encodeBatchContainer fs) = Some fs" if "fs \<noteq> []" "\<forall>f \<in> set fs. buffered_frame f"
    by (rule container_accepted [OF that])
next
  assume k: "tf_type fr \<in> set KNOWN_FRAME_TYPES" "tf_type fr \<notin> set BATCH_BUFFERED_TYPES"
    and json: "tf_type fr = frame_numeral HttpRequest \<longrightarrow> (\<exists>json. tf_payload fr = 0x7b # json)"
  obtain h where h: "h = (word_of_int ((tf_type fr AND 0x7f) OR (if tf_hasMore fr then HAS_MORE_FLAG else 0)) :: 8 word)" by simp
  note parts = head_parts [OF k(1) h]
  obtain a b c d where w: "writeUInt32BE (word_of_int (tf_streamId fr)) = [a, b, c, d]" by (rule write4)
  have enc: "encodeTunnelFrame fr = h # a # b # c # d # tf_payload fr" by (simp add: encodeTunnelFrame_def Let_def h w)
  have "h \<noteq> 0" using parts(1) known_type_bound [OF k(1)] by auto
  moreover have "\<not> isStrictBatchContainer (encodeTunnelFrame fr)" if "h = 1"
  proof -
    have "tf_type fr = 1" using parts(1) that by simp
    then obtain js where p: "tf_payload fr = 0x7b # js" using json by auto
    have "type_of_bytes (take n (tf_payload fr)) \<notin> set BATCH_BUFFERED_TYPES" for n
      by (cases n) (simp_all add: p BATCH_BUFFERED_TYPES_def)
    then show ?thesis by (simp add: enc isStrictBatchContainer_def Let_def)
  qed
  ultimately have "bare_frame (encodeTunnelFrame fr)"
    using k(2) parts(1) by (auto simp: bare_frame_def enc TUNNEL_FRAME_HEADER_BYTES_def)
  then show "acceptPlainBytes (encodeTunnelFrame fr) = Some [encodeTunnelFrame fr]" by (rule bare_accepted)
qed

theorem demux_inverts_batching_witness:
  "acceptPlainBytes (encodeBatchContainer [[2, 0, 0, 0, 1, 65], [9, 0, 0, 0, 3]]) = Some [[2, 0, 0, 0, 1, 65], [9, 0, 0, 0, 3]] \<and>
   acceptPlainBytes (encodeTunnelFrame \<lparr>tf_type = 1, tf_streamId = 5, tf_hasMore = False, tf_payload = [0x7b, 0x7d]\<rparr>) =
     Some [encodeTunnelFrame \<lparr>tf_type = 1, tf_streamId = 5, tf_hasMore = False, tf_payload = [0x7b, 0x7d]\<rparr>]"
proof -
  let ?fs = "[[2, 0, 0, 0, 1, 65], [9, 0, 0, 0, 3]] :: bytes list"
  let ?fr = "\<lparr>tf_type = 1, tf_streamId = 5, tf_hasMore = False, tf_payload = [0x7b, 0x7d]\<rparr>"
  have "\<forall>f \<in> set ?fs. buffered_frame f"
    by (simp add: buffered_frame_def TUNNEL_FRAME_HEADER_BYTES_def BATCH_BUFFERED_TYPES_def)
  moreover have "tf_type ?fr \<in> set KNOWN_FRAME_TYPES" "tf_type ?fr \<notin> set BATCH_BUFFERED_TYPES"
    by (simp_all add: frame_numerals BATCH_BUFFERED_TYPES_def)
  ultimately show ?thesis using demux_inverts_batching [of ?fs ?fr] by auto
qed

section \<open>The channel the batcher implements\<close>

text \<open>
  The contract: a first-in first-out channel. Frames that were sent wait in order, a prefix of
  them is delivered at a time, a lossy channel may drop a prefix instead, and closing it drops
  all that wait but the first, which may be on its way already.
\<close>

record channel =
  ch_open :: bool
  ch_pending :: "bytes list"
  ch_delivered :: "bytes list"
  ch_log :: "bytes list" \<comment> \<open>all frames handed in while the channel was open\<close>

inductive channel_step :: "bool \<Rightarrow> channel \<Rightarrow> channel \<Rightarrow> bool" for lossy where
  ch_send: "ch_open c \<Longrightarrow> channel_step lossy c (c\<lparr>ch_pending := ch_pending c @ [x], ch_log := ch_log c @ [x]\<rparr>)"
| ch_deliver: "ch_pending c = xs @ ys \<Longrightarrow>
    channel_step lossy c (c\<lparr>ch_pending := ys, ch_delivered := ch_delivered c @ xs\<rparr>)"
| ch_lose: "lossy \<Longrightarrow> ch_pending c = xs @ ys \<Longrightarrow> channel_step lossy c (c\<lparr>ch_pending := ys\<rparr>)"
| ch_close: "ch_pending c = xs @ ys \<Longrightarrow> length xs \<le> 1 \<Longrightarrow> channel_step lossy c (c\<lparr>ch_open := False, ch_pending := xs\<rparr>)"

inductive_cases channel_stepE: "channel_step lossy c c'"

text \<open>What the receiver has got, and the batcher as a channel.\<close>

definition received :: "bytes list \<Rightarrow> bytes list" where
  "received messages = concat (map (\<lambda>m. case acceptPlainBytes m of Some frames \<Rightarrow> frames | None \<Rightarrow> []) messages)"

fun offers :: "chain_step list \<Rightarrow> bytes list" where
  "offers [] = []"
| "offers (OfferStep bs # steps) = bs # offers steps"
| "offers (FlushStep # steps) = offers steps"

text \<open>The frame of the running link that waits for the flush before it.\<close>

definition under_way :: "OutboundFrameBatcher \<Rightarrow> bytes list" where
  "under_way b = (case bt_awaiting b of Some (True, Some bs) \<Rightarrow> [bs] | _ \<Rightarrow> [])"

definition abs_channel :: "bytes list \<Rightarrow> OutboundFrameBatcher \<Rightarrow> channel" where
  "abs_channel l b = \<lparr>ch_open = \<not> bt_disposed b,
     ch_pending = under_way b @ (if bt_disposed b then [] else bt_buffered b @ offers (bt_chain b)),
     ch_delivered = received (bt_sent b), ch_log = l\<rparr>"

text \<open>
  The steps of a batcher: calls, the timer, the chain; any carrier, any clock. The label holds
  the frame an open batcher was given.
\<close>

inductive batcher_step :: "BatcherOptions \<Rightarrow> (bytes \<Rightarrow> bool) \<Rightarrow> OutboundFrameBatcher \<Rightarrow> bytes list \<Rightarrow> OutboundFrameBatcher \<Rightarrow> bool"
  for opts carrier where
  step_offer: "wire_frame bs \<Longrightarrow> batcher_step opts carrier b (if bt_disposed b then [] else [bs]) (offerEncoded bs b)"
| step_flush: "batcher_step opts carrier b [] (flush b)"
| step_fired: "bt_timer b = Some t \<Longrightarrow> batcher_step opts carrier b [] (window_fired b)"
| step_run: "batcher_step opts carrier b [] (run_chain opts carrier now b)"
| step_resume: "batcher_step opts carrier b [] (resume_link carrier b)"
| step_dispose: "batcher_step opts carrier b [] (disposeBatcher b)"

inductive batcher_run :: "BatcherOptions \<Rightarrow> (bytes \<Rightarrow> bool) \<Rightarrow> bytes list \<Rightarrow> OutboundFrameBatcher \<Rightarrow> bool"
  for opts carrier where
  run_start: "batcher_run opts carrier [] (createOutboundFrameBatcher now)"
| run_next: "batcher_run opts carrier l b \<Longrightarrow> batcher_step opts carrier b given b' \<Longrightarrow> batcher_run opts carrier (l @ given) b'"

definition batcher_ok :: "BatcherOptions \<Rightarrow> OutboundFrameBatcher \<Rightarrow> bool" where
  "batcher_ok opts b \<longleftrightarrow> list_all buffered_frame (bt_buffered b) \<and> list_all wire_frame (offers (bt_chain b)) \<and>
     bt_bufferedBytes b = sum_list (map (\<lambda>f. length f + BATCH_ENVELOPE_RESERVED_BYTES) (bt_buffered b)) \<and>
     (bt_disposed b \<longrightarrow> bt_buffered b = []) \<and>
     (\<forall>ok bs. bt_awaiting b = Some (ok, Some bs) \<longrightarrow> bare_frame bs \<and> bt_buffered b = []) \<and>
     (bt_buffered b \<noteq> [] \<longrightarrow> \<not> capsReached opts b \<and> (bt_timer b \<noteq> None \<or> FlushStep \<in> set (bt_chain b)))"

lemmas batcher_defs = offerEncoded_def enqueueStep_def flush_def cancelWindow_def disposeBatcher_def window_fired_def

lemma offers_append [simp]: "offers (xs @ ys) = offers xs @ offers ys"
  by (induction xs rule: offers.induct) auto

lemma received_append [simp]: "received (xs @ ys) = received xs @ received ys"
  by (simp add: received_def)

lemma received_Nil [simp]: "received [] = []"
  by (simp add: received_def)

lemma flush_buffered:
  "bt_buffered (snd (flushBuffer carrier now b)) = []" "bt_timer (snd (flushBuffer carrier now b)) = None"
  "bt_chain (snd (flushBuffer carrier now b)) = bt_chain b" "bt_disposed (snd (flushBuffer carrier now b)) = bt_disposed b"
  "bt_awaiting (snd (flushBuffer carrier now b)) = bt_awaiting b"
  "bt_bufferedBytes b = sum_list (map (\<lambda>f. length f + BATCH_ENVELOPE_RESERVED_BYTES) (bt_buffered b)) \<Longrightarrow>
   bt_bufferedBytes (snd (flushBuffer carrier now b)) = 0"
  by (auto simp: flushBuffer_def send_def cancelWindow_def Let_def)

lemma flush_sent:
  "bt_sent (snd (flushBuffer carrier now b)) =
     (if bt_buffered b = [] \<or> \<not> carrier (encodeBatchContainer (bt_buffered b)) then bt_sent b
      else bt_sent b @ [encodeBatchContainer (bt_buffered b)])"
  "fst (flushBuffer carrier now b) \<longleftrightarrow> bt_buffered b = [] \<or> carrier (encodeBatchContainer (bt_buffered b))"
  by (auto simp: flushBuffer_def send_def cancelWindow_def Let_def)

lemma flush_received:
  assumes "list_all buffered_frame (bt_buffered b)"
  shows "received (bt_sent (snd (flushBuffer carrier now b))) =
    received (bt_sent b) @ (if fst (flushBuffer carrier now b) then bt_buffered b else [])"
  using assms container_accepted [of "bt_buffered b"]
  by (auto simp: flush_sent received_def list_all_iff)

lemma awaits_fields [simp]:
  "bt_buffered (awaits x r) = bt_buffered (snd r)" "bt_chain (awaits x r) = bt_chain (snd r)"
  "bt_bufferedBytes (awaits x r) = bt_bufferedBytes (snd r)" "bt_disposed (awaits x r) = bt_disposed (snd r)"
  "bt_timer (awaits x r) = bt_timer (snd r)" "bt_sent (awaits x r) = bt_sent (snd r)"
  "bt_awaiting (awaits x r) = Some (fst r, x)" "capsReached opts (awaits x r) = capsReached opts (snd r)"
  by (simp_all add: awaits_def capsReached_def)

lemma under_way_awaits: "under_way (awaits x r) = (case x of Some bs \<Rightarrow> if fst r then [bs] else [] | None \<Rightarrow> [])"
  by (auto simp: under_way_def split: option.split bool.split)

lemma flush_ok:
  assumes "list_all buffered_frame (bt_buffered b)" "list_all wire_frame (offers (bt_chain b))"
    "bt_bufferedBytes b = sum_list (map (\<lambda>f. length f + BATCH_ENVELOPE_RESERVED_BYTES) (bt_buffered b))"
    "\<forall>bs. x = Some bs \<longrightarrow> bare_frame bs"
  shows "batcher_ok opts (awaits x (flushBuffer carrier now b))"
  using assms by (simp add: batcher_ok_def flush_buffered)

text \<open>Offering a frame: the frame that joins the buffer, and the frame that goes out bare.\<close>

abbreviation with_frame :: "bytes \<Rightarrow> OutboundFrameBatcher \<Rightarrow> OutboundFrameBatcher" where
  "with_frame bs b \<equiv> b\<lparr>bt_buffered := bt_buffered b @ [bs],
     bt_bufferedBytes := bt_bufferedBytes b + length bs + BATCH_ENVELOPE_RESERVED_BYTES\<rparr>"

lemma offer_buffered:
  assumes "\<not> bt_disposed b" "type_of_bytes bs \<in> set BATCH_BUFFERED_TYPES"
  shows "offerNowBytes opts carrier now bs b = awaits None (flushBuffer carrier now (with_frame bs b)) \<or>
    \<not> capsReached opts (with_frame bs b) \<and> offerNowBytes opts carrier now bs b = scheduleWindow opts now (with_frame bs b)"
  using assms by (simp add: offerNowBytes_def Let_def)

lemma offer_bare:
  assumes "\<not> bt_disposed b" "type_of_bytes bs \<notin> set BATCH_BUFFERED_TYPES"
  shows "offerNowBytes opts carrier now bs b = awaits (Some bs) (flushBuffer carrier now b)"
  using assms by (simp add: offerNowBytes_def)

lemma send_fields [simp]:
  "bt_buffered (snd (send carrier m b)) = bt_buffered b" "bt_chain (snd (send carrier m b)) = bt_chain b"
  "bt_bufferedBytes (snd (send carrier m b)) = bt_bufferedBytes b" "bt_disposed (snd (send carrier m b)) = bt_disposed b"
  "bt_timer (snd (send carrier m b)) = bt_timer b" "bt_awaiting (snd (send carrier m b)) = bt_awaiting b"
  "bt_sent (snd (send carrier m b)) = bt_sent b @ (if carrier m then [m] else [])"
  by (simp_all add: send_def)

lemma scheduled_fields [simp]:
  "bt_buffered (scheduleWindow opts now b) = bt_buffered b" "bt_chain (scheduleWindow opts now b) = bt_chain b"
  "bt_bufferedBytes (scheduleWindow opts now b) = bt_bufferedBytes b" "bt_disposed (scheduleWindow opts now b) = bt_disposed b"
  "bt_timer (scheduleWindow opts now b) \<noteq> None" "bt_sent (scheduleWindow opts now b) = bt_sent b"
  "capsReached opts (scheduleWindow opts now b) = capsReached opts b" "bt_awaiting (scheduleWindow opts now b) = bt_awaiting b"
  by (auto simp: scheduleWindow_def capsReached_def split: option.splits)

lemma caps_fields [simp]:
  "capsReached opts (b\<lparr>bt_chain := c\<rparr>) = capsReached opts b" "capsReached opts (b\<lparr>bt_awaiting := a\<rparr>) = capsReached opts b"
  "capsReached opts (snd (send carrier m b)) = capsReached opts b"
  by (simp_all add: capsReached_def)

lemma offer_step_ok:
  assumes ok: "batcher_ok opts b" and chain: "bt_chain b = OfferStep bs # rest" "bt_awaiting b = None"
  shows "batcher_ok opts (offerNowBytes opts carrier now bs (b\<lparr>bt_chain := rest\<rparr>))"
proof (cases "bt_disposed b")
  case True
  then show ?thesis using ok chain by (auto simp: offerNowBytes_def batcher_ok_def)
next
  case open': False
  let ?b = "b\<lparr>bt_chain := rest\<rparr>"
  show ?thesis
  proof (cases "type_of_bytes bs \<in> set BATCH_BUFFERED_TYPES")
    case True
    have f: "buffered_frame bs" using ok chain True by (auto simp: batcher_ok_def bare_frame_def)
    have "batcher_ok opts (awaits None (flushBuffer carrier now (with_frame bs ?b)))"
      using ok chain f by (intro flush_ok) (auto simp: batcher_ok_def)
    moreover have "batcher_ok opts (scheduleWindow opts now (with_frame bs ?b))" if "\<not> capsReached opts (with_frame bs ?b)"
      using ok chain f that open' unfolding batcher_ok_def scheduled_fields by simp
    ultimately show ?thesis using offer_buffered [of ?b bs opts carrier now] True open' by auto
  next
    case False
    have "bare_frame bs" using ok chain False by (auto simp: batcher_ok_def buffered_frame_def)
    then have "batcher_ok opts (awaits (Some bs) (flushBuffer carrier now ?b))"
      using ok chain by (intro flush_ok) (auto simp: batcher_ok_def)
    then show ?thesis using offer_bare [of ?b bs opts carrier now] open' False by simp
  qed
qed

lemma chain_cases:
  obtains (stay) "run_chain opts carrier now b = b" "bt_awaiting b \<noteq> None \<or> bt_chain b = []"
  | (offered) bs rest where "bt_awaiting b = None" "bt_chain b = OfferStep bs # rest"
      "run_chain opts carrier now b = offerNowBytes opts carrier now bs (b\<lparr>bt_chain := rest\<rparr>)"
  | (flushed) rest where "bt_awaiting b = None" "bt_chain b = FlushStep # rest"
      "run_chain opts carrier now b = awaits None (flushBuffer carrier now (b\<lparr>bt_chain := rest\<rparr>))"
  by (cases "bt_chain b" rule: offers.cases; cases "bt_awaiting b") (auto simp: run_chain_def)

lemma resume_cases:
  obtains (follow) bs where "bt_awaiting b = Some (True, Some bs)" "resume_link carrier b = awaits None (send carrier bs b)"
  | (ends) "under_way b = []" "resume_link carrier b = b\<lparr>bt_awaiting := None\<rparr>"
proof (cases "\<exists>bs. bt_awaiting b = Some (True, Some bs)")
  case False
  then have "under_way b = []" "resume_link carrier b = b\<lparr>bt_awaiting := None\<rparr>"
    by (auto simp: resume_link_def under_way_def split: option.split bool.split)
  then show thesis by (rule ends)
qed (auto simp: resume_link_def intro: follow)

lemma batcher_step_ok:
  assumes "batcher_step opts carrier b given b'" "batcher_ok opts b"
  shows "batcher_ok opts b'"
  using assms
proof (cases rule: batcher_step.cases)
  case (step_run now)
  show ?thesis
  proof (cases rule: chain_cases [of opts carrier now b])
    case (offered bs rest)
    then show ?thesis using step_run offer_step_ok [OF assms(2)] by simp
  next
    case (flushed rest)
    have "batcher_ok opts (awaits None (flushBuffer carrier now (b\<lparr>bt_chain := rest\<rparr>)))"
      using assms(2) flushed by (intro flush_ok) (auto simp: batcher_ok_def)
    then show ?thesis using flushed step_run by simp
  qed (use assms(2) step_run in simp)
next
  case step_resume
  then show ?thesis using assms(2) by (cases rule: resume_cases [of b carrier]) (simp_all add: batcher_ok_def)
qed (auto simp: batcher_ok_def batcher_defs capsReached_def)

lemma chan_move:
  assumes "ch_pending c = xs @ ys" "ok \<or> lossy"
  shows "channel_step lossy c (c\<lparr>ch_pending := ys, ch_delivered := ch_delivered c @ (if ok then xs else [])\<rparr>)"
  using ch_deliver [OF assms(1), of lossy] ch_lose [OF _ assms(1), of lossy] assms(2) by auto

lemma abs_flush:
  assumes "list_all buffered_frame (bt_buffered b)" "\<not> bt_disposed b" "bt_awaiting b = None"
    and x: "case x of Some bs \<Rightarrow> pre = [bs] | None \<Rightarrow> pre = []"
    and c: "c = (abs_channel l b)\<lparr>ch_pending := bt_buffered b @ pre @ offers (bt_chain b)\<rparr>"
  shows "(channel_step (\<exists>m. \<not> carrier m))\<^sup>*\<^sup>* c (abs_channel l (awaits x (flushBuffer carrier now b)))" (is "?S\<^sup>*\<^sup>* _ _")
proof -
  let ?f = "flushBuffer carrier now b"
  define c1 where "c1 = c\<lparr>ch_pending := pre @ offers (bt_chain b),
      ch_delivered := ch_delivered c @ (if fst ?f then bt_buffered b else [])\<rparr>"
  have "?S c c1" unfolding c1_def
    by (rule chan_move) (use c in \<open>auto simp: flush_sent\<close>)
  moreover have "?S\<^sup>*\<^sup>* c1 (c1\<lparr>ch_pending := (if fst ?f then pre else []) @ offers (bt_chain b)\<rparr>)"
  proof (cases "fst ?f")
    case True
    then have "c1\<lparr>ch_pending := (if fst ?f then pre else []) @ offers (bt_chain b)\<rparr> = c1" by (simp add: c1_def)
    then show ?thesis by simp
  next
    case False
    then have "\<exists>m. \<not> carrier m" by (auto simp: flush_sent)
    then have "?S c1 (c1\<lparr>ch_pending := offers (bt_chain b)\<rparr>)" by (intro ch_lose [of _ _ pre]) (simp_all add: c1_def)
    then show ?thesis using False by simp
  qed
  moreover have "c1\<lparr>ch_pending := (if fst ?f then pre else []) @ offers (bt_chain b)\<rparr> = abs_channel l (awaits x ?f)"
    using assms by (auto simp: c1_def abs_channel_def flush_buffered flush_received under_way_awaits split: option.split_asm)
  ultimately show ?thesis by (metis converse_rtranclp_into_rtranclp)
qed

lemma offer_step_sim:
  assumes ok: "batcher_ok opts b" and chain: "bt_chain b = OfferStep bs # rest" "bt_awaiting b = None"
  shows "(channel_step (\<exists>m. \<not> carrier m))\<^sup>*\<^sup>* (abs_channel l b)
    (abs_channel l (offerNowBytes opts carrier now bs (b\<lparr>bt_chain := rest\<rparr>)))" (is "?S\<^sup>*\<^sup>* _ _")
proof (cases "bt_disposed b")
  case True
  then show ?thesis using chain by (simp add: offerNowBytes_def abs_channel_def under_way_def)
next
  case open': False
  let ?b = "b\<lparr>bt_chain := rest\<rparr>"
  have buf: "list_all buffered_frame (bt_buffered b)" using ok by (simp add: batcher_ok_def)
  show ?thesis
  proof (cases "type_of_bytes bs \<in> set BATCH_BUFFERED_TYPES")
    case True
    have f: "buffered_frame bs" using ok chain True by (auto simp: batcher_ok_def bare_frame_def)
    have "abs_channel l (scheduleWindow opts now (with_frame bs ?b)) = abs_channel l b"
      using open' chain by (simp add: abs_channel_def under_way_def)
    moreover have "?S\<^sup>*\<^sup>* (abs_channel l b) (abs_channel l (awaits None (flushBuffer carrier now (with_frame bs ?b))))"
      using buf f open' chain by (intro abs_flush [where pre = "[]"]) (auto simp: abs_channel_def under_way_def)
    ultimately show ?thesis using offer_buffered [of ?b bs opts carrier now] True open' by auto
  next
    case False
    have "?S\<^sup>*\<^sup>* (abs_channel l b) (abs_channel l (awaits (Some bs) (flushBuffer carrier now ?b)))"
      using buf open' chain by (intro abs_flush [where pre = "[bs]"]) (auto simp: abs_channel_def under_way_def)
    then show ?thesis using offer_bare [of ?b bs opts carrier now] False open' by simp
  qed
qed

lemma resume_sim:
  assumes ok: "batcher_ok opts b"
  shows "(channel_step (\<exists>m. \<not> carrier m))\<^sup>*\<^sup>* (abs_channel l b) (abs_channel l (resume_link carrier b))"
proof (cases rule: resume_cases [of b carrier])
  case (follow bs)
  have bare: "bare_frame bs" using ok follow by (auto simp: batcher_ok_def)
  have "channel_step (\<exists>m. \<not> carrier m) (abs_channel l b) ((abs_channel l b)\<lparr>
      ch_pending := (if bt_disposed b then [] else bt_buffered b @ offers (bt_chain b)),
      ch_delivered := ch_delivered (abs_channel l b) @ (if carrier bs then [bs] else [])\<rparr>)"
    by (rule chan_move) (use follow in \<open>auto simp: abs_channel_def under_way_def\<close>)
  moreover have "abs_channel l (resume_link carrier b) = (abs_channel l b)\<lparr>
      ch_pending := (if bt_disposed b then [] else bt_buffered b @ offers (bt_chain b)),
      ch_delivered := ch_delivered (abs_channel l b) @ (if carrier bs then [bs] else [])\<rparr>"
    using follow bare_accepted [OF bare] by (simp add: abs_channel_def under_way_awaits received_def [of "[_]"])
  ultimately show ?thesis by auto
next
  case ends
  then show ?thesis by (simp add: abs_channel_def under_way_def)
qed

lemma batcher_step_sim:
  assumes "batcher_step opts carrier b given b'" "batcher_ok opts b"
  shows "(channel_step (\<exists>m. \<not> carrier m))\<^sup>*\<^sup>* (abs_channel l b) (abs_channel (l @ given) b')" (is "?S\<^sup>*\<^sup>* _ _")
  using assms
proof (cases rule: batcher_step.cases)
  case (step_offer bs)
  then show ?thesis using ch_send [of "abs_channel l b" "\<exists>m. \<not> carrier m" bs]
    by (cases "bt_disposed b") (auto simp: abs_channel_def under_way_def batcher_defs intro: r_into_rtranclp)
next
  case (step_run now)
  show ?thesis
  proof (cases rule: chain_cases [of opts carrier now b])
    case (offered bs rest)
    then show ?thesis using step_run offer_step_sim [OF assms(2)] by simp
  next
    case (flushed rest)
    have buf: "list_all buffered_frame (bt_buffered b)" using assms(2) by (simp add: batcher_ok_def)
    show ?thesis
    proof (cases "bt_disposed b")
      case True
      then have "abs_channel (l @ given) b' = abs_channel l b"
        using flushed step_run assms(2)
        by (simp add: batcher_ok_def abs_channel_def flush_buffered flush_sent under_way_def)
      then show ?thesis by simp
    next
      case False
      have "?S\<^sup>*\<^sup>* (abs_channel l b) (abs_channel l (awaits None (flushBuffer carrier now (b\<lparr>bt_chain := rest\<rparr>))))"
        using buf False flushed by (intro abs_flush [where pre = "[]"]) (auto simp: abs_channel_def under_way_def)
      then show ?thesis using flushed step_run by simp
    qed
  qed (simp add: step_run)
next
  case step_resume
  then show ?thesis using resume_sim [OF assms(2)] by simp
next
  case step_dispose
  have "length (under_way b) \<le> 1" by (auto simp: under_way_def split: option.split bool.split)
  moreover have "abs_channel (l @ given) b' = (abs_channel l b)\<lparr>ch_open := False, ch_pending := under_way b\<rparr>"
    using step_dispose by (simp add: abs_channel_def batcher_defs under_way_def)
  ultimately show ?thesis using ch_close [of "abs_channel l b" "under_way b"] by (auto simp: abs_channel_def)
qed (auto simp: abs_channel_def batcher_defs under_way_def)

definition empty_channel :: channel where
  "empty_channel = \<lparr>ch_open = True, ch_pending = [], ch_delivered = [], ch_log = []\<rparr>"

lemma batcher_run_sim:
  assumes "batcher_run opts carrier l b"
  shows "(channel_step (\<exists>m. \<not> carrier m))\<^sup>*\<^sup>* empty_channel (abs_channel l b) \<and> batcher_ok opts b"
  using assms
proof (induction rule: batcher_run.induct)
  case (run_start now)
  then show ?case by (simp add: abs_channel_def empty_channel_def createOutboundFrameBatcher_def batcher_ok_def under_way_def)
next
  case (run_next l b given b')
  then show ?case using batcher_step_sim batcher_step_ok by (meson rtranclp_trans)
qed

lemma channel_history:
  assumes "(channel_step lossy)\<^sup>*\<^sup>* empty_channel c"
  shows "subseq (ch_delivered c @ ch_pending c) (ch_log c) \<and>
    (\<not> lossy \<longrightarrow> prefix (ch_delivered c @ ch_pending c) (ch_log c) \<and> (ch_open c \<longrightarrow> ch_delivered c @ ch_pending c = ch_log c))"
  using assms
proof (induction rule: rtranclp_induct)
  case (step c c')
  have drop: "subseq (d @ ys) (d @ xs @ ys)" for d xs ys :: "bytes list"
    by (simp add: subseq_append_le_same_iff list_emb_append2 subseq_append')
  show ?case using step(2,3)
  proof (cases rule: channel_step.cases)
    case (ch_send x)
    then show ?thesis using step(3) list_emb_append_mono [of "(=)" "ch_delivered c @ ch_pending c" "ch_log c" "[x]" "[x]"] by auto
  next
    case (ch_lose xs ys)
    then show ?thesis using step(3) drop [of "ch_delivered c" ys xs] by (auto intro: subseq_order.trans)
  next
    case (ch_close xs ys)
    have "\<not> lossy \<longrightarrow> prefix (ch_delivered c @ xs) (ch_log c)"
      using step(3) ch_close(2) by (metis append.assoc append_prefixD)
    moreover have "subseq (ch_delivered c @ xs) (ch_delivered c @ xs @ ys)" by (simp add: prefix_imp_subseq)
    ultimately show ?thesis using ch_close step(3) by (auto intro: subseq_order.trans)
  qed (auto intro: prefix_order.trans)
qed (simp add: empty_channel_def)

text \<open>C3.
  The batcher with the receiver's demultiplexer refines a first-in first-out channel: every run,
  whatever calls, timers, clock readings and rejections of the carrier it meets, is a run of the
  channel, where a frame waits from the offer until its container is taken apart; the channel is
  lossy only if the carrier can reject.
\<close>

theorem batcher_refines_fifo_channel:
  assumes "batcher_run opts carrier l b"
  shows "(channel_step (\<exists>m. \<not> carrier m))\<^sup>*\<^sup>* empty_channel (abs_channel l b)"
  using batcher_run_sim [OF assms] by blast

text \<open>
  The receiver sees the frames in the order they were offered: never one twice, out of order or
  altered; with a carrier that takes every message what has arrived is a prefix of what was
  offered, and until teardown nothing is missing between the two ends.
\<close>

theorem receiver_sees_offered_frames:
  assumes "batcher_run opts carrier l b"
  shows "subseq (received (bt_sent b)) l \<and>
    ((\<forall>m. carrier m) \<longrightarrow> prefix (received (bt_sent b)) l \<and>
      (\<not> bt_disposed b \<longrightarrow> received (bt_sent b) @ under_way b @ bt_buffered b @ offers (bt_chain b) = l))"
proof -
  note h = channel_history [OF conjunct1 [OF batcher_run_sim [OF assms]]]
  have "subseq (received (bt_sent b)) (ch_delivered (abs_channel l b) @ ch_pending (abs_channel l b))"
    by (simp add: abs_channel_def list_emb_prefix)
  then show ?thesis using h append_prefixD by (fastforce simp: abs_channel_def intro: subseq_order.trans)
qed

text \<open>
  Teardown does not stop the link that is under way. A control frame that waits for the flush
  before it is sent after \<open>dispose()\<close>, while the frames offered behind it are dropped.
\<close>

theorem frame_sent_after_dispose:
  "let b0 = offerEncoded [3, 0, 0, 0, 1] (createOutboundFrameBatcher 0);
       b1 = disposeBatcher (run_chain default_batcher_options (\<lambda>_. True) 10 b0);
       b2 = resume_link (\<lambda>_. True) b1
   in bt_disposed b1 \<and> bt_sent b1 = [] \<and> bt_sent b2 = [[3, 0, 0, 0, 1]]"
  by (simp add: run_chain_def batcher_defs offerNowBytes_def BATCH_BUFFERED_TYPES_def flushBuffer_def send_def
      awaits_def resume_link_def createOutboundFrameBatcher_def)

section \<open>No frame is left behind\<close>

text \<open>A link of the chain from its start to its end: at most two awaits.\<close>

definition finish_link :: "(bytes \<Rightarrow> bool) \<Rightarrow> OutboundFrameBatcher \<Rightarrow> OutboundFrameBatcher" where
  "finish_link carrier b = resume_link carrier (resume_link carrier b)"

definition run_all :: "BatcherOptions \<Rightarrow> (bytes \<Rightarrow> bool) \<Rightarrow> int \<Rightarrow> OutboundFrameBatcher \<Rightarrow> OutboundFrameBatcher" where
  "run_all opts carrier now b =
     ((\<lambda>b. finish_link carrier (run_chain opts carrier now b)) ^^ length (bt_chain b)) (finish_link carrier b)"

lemma offer_chain: "bt_chain (offerNowBytes opts carrier now bs b) = bt_chain b"
  "bt_disposed (offerNowBytes opts carrier now bs b) = bt_disposed b"
  using offer_buffered [of b bs opts carrier now] offer_bare [of b bs opts carrier now]
  by (cases "bt_disposed b"; cases "type_of_bytes bs \<in> set BATCH_BUFFERED_TYPES";
      auto simp: flush_buffered offerNowBytes_def [of _ _ _ _ "b"])+

lemma run_chain_pops: "bt_awaiting b = None \<Longrightarrow> bt_chain (run_chain opts carrier now b) = tl (bt_chain b)"
  by (cases "bt_chain b" rule: offers.cases) (auto simp: run_chain_def offer_chain flush_buffered)

lemma chain_disposed: "bt_disposed (run_chain opts carrier now b) = bt_disposed b"
  by (cases rule: chain_cases [of opts carrier now b]) (simp_all add: offer_chain flush_buffered)

lemma resume_fields [simp]: "bt_buffered (resume_link carrier b) = bt_buffered b" "bt_chain (resume_link carrier b) = bt_chain b" "bt_disposed (resume_link carrier b) = bt_disposed b"
  by (cases rule: resume_cases [of b carrier]; simp)+

lemma finish_link_fields:
  "bt_awaiting (finish_link carrier b) = None" "bt_chain (finish_link carrier b) = bt_chain b"
  "bt_disposed (finish_link carrier b) = bt_disposed b" "bt_buffered (finish_link carrier b) = bt_buffered b"
proof -
  show "bt_awaiting (finish_link carrier b) = None"
    by (cases rule: resume_cases [of b carrier]) (auto simp: finish_link_def resume_link_def split: bool.split)
qed (simp_all add: finish_link_def)

lemma finish_link_idle: "bt_awaiting b = None \<Longrightarrow> finish_link carrier b = b"
  by (simp add: finish_link_def resume_link_def)

lemma run_all_flush:
  "bt_chain b = [FlushStep] \<Longrightarrow> bt_awaiting b = None \<Longrightarrow> bt_buffered (run_all opts carrier now b) = []"
  by (simp add: run_all_def finish_link_idle finish_link_fields) (simp add: run_chain_def flush_buffered)

lemma finish_link_run: "batcher_run opts carrier l b \<Longrightarrow> batcher_run opts carrier l (finish_link carrier b)"
  using run_next [OF run_next [OF _ step_resume] step_resume, of opts carrier l b] by (simp add: finish_link_def)

lemma run_all_props:
  assumes "batcher_run opts carrier l b"
  shows "batcher_run opts carrier l (run_all opts carrier now b) \<and> bt_chain (run_all opts carrier now b) = [] \<and>
    bt_awaiting (run_all opts carrier now b) = None \<and> bt_disposed (run_all opts carrier now b) = bt_disposed b"
proof -
  let ?f = "\<lambda>b. finish_link carrier (run_chain opts carrier now b)"
  have "batcher_run opts carrier l ((?f ^^ n) (finish_link carrier b)) \<and>
      bt_chain ((?f ^^ n) (finish_link carrier b)) = drop n (bt_chain b) \<and>
      bt_awaiting ((?f ^^ n) (finish_link carrier b)) = None \<and>
      bt_disposed ((?f ^^ n) (finish_link carrier b)) = bt_disposed b" for n
  proof (induction n)
    case (Suc n)
    then have "batcher_run opts carrier (l @ []) (run_chain opts carrier now ((?f ^^ n) (finish_link carrier b)))" by (meson run_next step_run)
    then show ?case using Suc finish_link_run by (simp add: finish_link_fields run_chain_pops chain_disposed drop_Suc tl_drop)
  qed (simp add: assms finish_link_run finish_link_fields)
  then show ?thesis unfolding run_all_def by simp
qed

text \<open>Every message that went out is a container of buffered frames or a bare frame.\<close>

definition message_ok :: "bytes \<Rightarrow> bool" where
  "message_ok m \<longleftrightarrow> (\<exists>fs. fs \<noteq> [] \<and> list_all buffered_frame fs \<and> m = encodeBatchContainer fs) \<or> bare_frame m"

lemma message_accepted: "message_ok m \<Longrightarrow> acceptPlainBytes m \<noteq> None"
  using container_accepted bare_accepted by (fastforce simp: message_ok_def list_all_iff)

lemma flush_messages:
  assumes "list_all buffered_frame (bt_buffered b)" "list_all message_ok (bt_sent b)"
  shows "list_all message_ok (bt_sent (snd (flushBuffer carrier now b)))"
  using assms by (auto simp: flush_sent message_ok_def)

lemma offer_messages:
  assumes ok: "batcher_ok opts b" "bt_chain b = OfferStep bs # rest" "list_all message_ok (bt_sent b)"
  shows "list_all message_ok (bt_sent (offerNowBytes opts carrier now bs (b\<lparr>bt_chain := rest\<rparr>)))"
proof (cases "bt_disposed b")
  case open': False
  let ?b = "b\<lparr>bt_chain := rest\<rparr>"
  have buf: "list_all buffered_frame (bt_buffered ?b)" using ok by (simp add: batcher_ok_def)
  show ?thesis
  proof (cases "type_of_bytes bs \<in> set BATCH_BUFFERED_TYPES")
    case True
    have "buffered_frame bs" using ok True by (auto simp: batcher_ok_def bare_frame_def)
    then have "list_all message_ok (bt_sent (snd (flushBuffer carrier now (with_frame bs ?b))))"
      using buf ok(3) by (intro flush_messages) auto
    then show ?thesis using offer_buffered [of ?b bs opts carrier now] True open' ok(3) by auto
  next
    case False
    then show ?thesis using offer_bare [of ?b bs opts carrier now] open' flush_messages [OF buf] ok(3) by simp
  qed
qed (simp add: offerNowBytes_def ok(3))

lemma sent_messages:
  assumes "batcher_run opts carrier l b"
  shows "list_all message_ok (bt_sent b)"
  using assms
proof (induction rule: batcher_run.induct)
  case (run_next l b given b')
  note ok = conjunct2 [OF batcher_run_sim [OF run_next.hyps(1)]]
  show ?case using run_next.hyps(2)
  proof (cases rule: batcher_step.cases)
    case (step_run now)
    show ?thesis
    proof (cases rule: chain_cases [of opts carrier now b])
      case (offered bs rest)
      then show ?thesis using step_run offer_messages [OF ok offered(2) run_next.IH] by simp
    next
      case (flushed rest)
      then show ?thesis using step_run flush_messages [of "b\<lparr>bt_chain := rest\<rparr>" carrier now] ok run_next.IH
        by (simp add: batcher_ok_def)
    qed (simp add: step_run run_next.IH)
  next
    case step_resume
    then show ?thesis using ok run_next.IH
      by (cases rule: resume_cases [of b carrier]) (auto simp: batcher_ok_def message_ok_def)
  qed (auto simp: batcher_defs run_next.IH)
qed (simp add: createOutboundFrameBatcher_def)

section \<open>Message sizes\<close>

lemma length_container: "length (encodeBatchContainer fs) \<le> 1 + sum_list (map (\<lambda>f. length f + BATCH_ENVELOPE_RESERVED_BYTES) fs)"
proof -
  have "length (segment_bytes fs) \<le> sum_list (map (\<lambda>f. length f + BATCH_ENVELOPE_RESERVED_BYTES) fs)" for fs
    by (induction fs) (auto simp: segment_bytes_def BATCH_ENVELOPE_RESERVED_BYTES_def)
  then show ?thesis using container_bytes [of fs]
    by (cases "\<exists>f. fs = [f]") (auto simp: encodeBatchContainer_def)
qed

definition sizes_ok :: "nat \<Rightarrow> nat \<Rightarrow> OutboundFrameBatcher \<Rightarrow> bool" where
  "sizes_ok F M b \<longleftrightarrow> (\<not> bt_disposed b \<longrightarrow> list_all (\<lambda>f. length f \<le> F) (offers (bt_chain b))) \<and>
     list_all (\<lambda>f. length f \<le> F) (under_way b) \<and> list_all (\<lambda>m. length m \<le> M) (bt_sent b)"

lemma buffered_bytes_bound:
  assumes "batcher_ok opts b" "bo_maxBatchBytes opts > 0"
  shows "bt_bufferedBytes b < bo_maxBatchBytes opts"
  using assms by (cases "bt_buffered b = []") (auto simp: batcher_ok_def capsReached_def)

lemma container_small:
  assumes "1 + bt_bufferedBytes b \<le> M" "bt_bufferedBytes b = sum_list (map (\<lambda>f. length f + BATCH_ENVELOPE_RESERVED_BYTES) (bt_buffered b))"
  shows "length (encodeBatchContainer (bt_buffered b)) \<le> M"
  using assms length_container [of "bt_buffered b"] by simp

lemma flush_sizes:
  assumes "sizes_ok F M b" "length (encodeBatchContainer (bt_buffered b)) \<le> M" "\<forall>bs. x = Some bs \<longrightarrow> length bs \<le> F"
  shows "sizes_ok F M (awaits x (flushBuffer carrier now b))"
  using assms by (auto simp: sizes_ok_def flush_buffered flush_sent under_way_awaits split: option.split)

text \<open>
  Within the limits a carrier that takes every message of this size is as good as one that takes
  every message.
\<close>

lemma flush_same:
  assumes "length (encodeBatchContainer (bt_buffered b)) \<le> M" "\<forall>m. length m \<le> M \<longrightarrow> carrier m"
  shows "flushBuffer carrier now b = flushBuffer (\<lambda>_. True) now b"
  using assms by (simp add: flushBuffer_def send_def cancelWindow_def Let_def)

definition same_when_small :: "nat \<Rightarrow> (bytes \<Rightarrow> bool) \<Rightarrow> bool" where
  "same_when_small M carrier \<longleftrightarrow> (\<forall>m. length m \<le> M \<longrightarrow> carrier m)"

lemma offer_sizes:
  assumes ok: "batcher_ok opts b" "bt_chain b = OfferStep bs # rest" "bt_awaiting b = None" "bo_maxBatchBytes opts > 0"
    and sz: "sizes_ok F M b" and M: "bo_maxBatchBytes opts + F + 5 \<le> M"
  shows "sizes_ok F M (offerNowBytes opts carrier now bs (b\<lparr>bt_chain := rest\<rparr>)) \<and>
    (same_when_small M carrier \<longrightarrow>
       offerNowBytes opts carrier now bs (b\<lparr>bt_chain := rest\<rparr>) = offerNowBytes opts (\<lambda>_. True) now bs (b\<lparr>bt_chain := rest\<rparr>))"
proof (cases "bt_disposed b")
  case True
  then show ?thesis using sz ok(2) by (simp add: sizes_ok_def offerNowBytes_def under_way_def)
next
  case open': False
  let ?b = "b\<lparr>bt_chain := rest\<rparr>"
  have small: "length bs \<le> F" "bt_bufferedBytes b < bo_maxBatchBytes opts"
    using sz ok(2) buffered_bytes_bound [OF ok(1,4)] open' by (auto simp: sizes_ok_def)
  have s: "sizes_ok F M ?b" "sizes_ok F M (with_frame bs ?b)" using sz ok(2) by (auto simp: sizes_ok_def under_way_def)
  have c: "length (encodeBatchContainer (bt_buffered ?b)) \<le> M" "length (encodeBatchContainer (bt_buffered (with_frame bs ?b))) \<le> M"
    by (rule container_small; use ok(1) small M in \<open>simp add: batcher_ok_def BATCH_ENVELOPE_RESERVED_BYTES_def\<close>)+
  have eq: "flushBuffer carrier now ?b = flushBuffer (\<lambda>_. True) now ?b"
    "flushBuffer carrier now (with_frame bs ?b) = flushBuffer (\<lambda>_. True) now (with_frame bs ?b)" if "same_when_small M carrier"
    using flush_same [OF c(1)] flush_same [OF c(2)] that unfolding same_when_small_def by blast+
  show ?thesis
  proof (cases "type_of_bytes bs \<in> set BATCH_BUFFERED_TYPES")
    case True
    have "sizes_ok F M (scheduleWindow opts now (with_frame bs ?b))" using s(2) by (simp add: sizes_ok_def under_way_def)
    then have "sizes_ok F M (offerNowBytes opts carrier now bs ?b)"
      using offer_buffered [of ?b bs opts carrier now] True open' flush_sizes [OF s(2) c(2), of None] by auto
    then show ?thesis using eq(2) True open' by (simp add: offerNowBytes_def Let_def)
  next
    case False
    then show ?thesis using offer_bare [of ?b bs opts] open' flush_sizes [OF s(1) c(1), of "Some bs"] small eq(1) by simp
  qed
qed

lemma step_sizes:
  assumes "batcher_step opts carrier b given b'" "batcher_ok opts b" "sizes_ok F M b" "list_all (\<lambda>f. length f \<le> F) given"
    and "bo_maxBatchBytes opts > 0" "bo_maxBatchBytes opts + F + 5 \<le> M"
  shows "sizes_ok F M b' \<and> (same_when_small M carrier \<longrightarrow> batcher_step opts (\<lambda>_. True) b given b')"
  using assms
proof (cases rule: batcher_step.cases)
  case (step_run now)
  have t: "batcher_step opts (\<lambda>_. True) b [] (run_chain opts (\<lambda>_. True) now b)" by (rule batcher_step.step_run)
  show ?thesis
  proof (cases rule: chain_cases [of opts carrier now b])
    case stay
    then have "run_chain opts (\<lambda>_. True) now b = b" by (auto simp: run_chain_def)
    then show ?thesis using t step_run stay assms(3) by simp
  next
    case (offered bs rest)
    note o = offer_sizes [OF assms(2) offered(2,1) assms(5,3,6), of carrier now]
    have "run_chain opts (\<lambda>_. True) now b = b'" if "same_when_small M carrier"
      using o that step_run offered by (simp add: run_chain_def)
    then show ?thesis using t step_run offered o by auto
  next
    case (flushed rest)
    have c: "length (encodeBatchContainer (bt_buffered (b\<lparr>bt_chain := rest\<rparr>))) \<le> M"
      using assms(2,6) buffered_bytes_bound [OF assms(2,5)] by (intro container_small) (auto simp: batcher_ok_def)
    have "sizes_ok F M (b\<lparr>bt_chain := rest\<rparr>)" using assms(3) flushed by (auto simp: sizes_ok_def under_way_def)
    then have "sizes_ok F M b'" using step_run flushed flush_sizes [OF _ c, of F None] by simp
    moreover have "run_chain opts (\<lambda>_. True) now b = b'" if "same_when_small M carrier"
    proof -
      have "flushBuffer carrier now (b\<lparr>bt_chain := rest\<rparr>) = flushBuffer (\<lambda>_. True) now (b\<lparr>bt_chain := rest\<rparr>)"
        by (rule flush_same [OF c]) (use that in \<open>simp add: same_when_small_def\<close>)
      then show ?thesis using step_run flushed by (simp add: run_chain_def)
    qed
    ultimately show ?thesis using t step_run by auto
  qed
next
  case step_resume
  have t: "batcher_step opts (\<lambda>_. True) b [] (resume_link (\<lambda>_. True) b)" by (rule batcher_step.step_resume)
  show ?thesis
  proof (cases rule: resume_cases [of b carrier])
    case (follow bs)
    then have "length bs \<le> F" using assms(3) by (simp add: sizes_ok_def under_way_def)
    then show ?thesis using t step_resume follow assms(3,6)
      by (auto simp: sizes_ok_def under_way_awaits resume_link_def send_def same_when_small_def under_way_def)
  next
    case ends
    then show ?thesis using t step_resume assms(3)
      by (auto simp: sizes_ok_def under_way_def resume_link_def split: option.splits bool.splits)
  qed
next
  case (step_fired tm)
  then show ?thesis using assms(3) batcher_step.step_fired [OF step_fired(3)]
    by (auto simp: sizes_ok_def under_way_def window_fired_def flush_def enqueueStep_def)
next
  case (step_offer bs)
  then show ?thesis using assms(3,4) batcher_step.step_offer [of bs opts "\<lambda>_. True" b]
    by (auto simp: sizes_ok_def under_way_def offerEncoded_def enqueueStep_def)
next
  case step_flush
  then show ?thesis using assms(3) batcher_step.step_flush [of opts "\<lambda>_. True" b]
    by (auto simp: sizes_ok_def under_way_def flush_def enqueueStep_def)
next
  case step_dispose
  then show ?thesis using assms(3) batcher_step.step_dispose [of opts "\<lambda>_. True" b]
    by (auto simp: sizes_ok_def under_way_def disposeBatcher_def cancelWindow_def)
qed

lemma run_sizes:
  assumes "batcher_run opts carrier l b" "\<forall>f \<in> set l. length f \<le> F"
    and "bo_maxBatchBytes opts > 0" "bo_maxBatchBytes opts + F + 5 \<le> M"
  shows "sizes_ok F M b \<and> (same_when_small M carrier \<longrightarrow> batcher_run opts (\<lambda>_. True) l b)"
  using assms
proof (induction rule: batcher_run.induct)
  case (run_next l b given b')
  then show ?case using step_sizes [OF run_next.hyps(2) conjunct2 [OF batcher_run_sim [OF run_next.hyps(1)]]]
    by (auto simp: list_all_iff intro: batcher_run.run_next)
next
  case (run_start now)
  show ?case using batcher_run.run_start [of opts "\<lambda>_. True" now]
    by (simp add: sizes_ok_def createOutboundFrameBatcher_def under_way_def)
qed

text \<open>C25.
  Everything that is offered is delivered without further traffic. Take an open batcher in any
  state, frames of at most \<open>F\<close> bytes offered to it, and a carrier that takes every message of at
  most \<open>maxBatchBytes + F + 5\<close> bytes (with the default limits and frames within 40955 bytes, every
  message within the 64 KiB of an encrypted frame). Then running the chain, letting the window
  timer fire if one is armed and running the chain again brings every offered frame to the
  receiver.
\<close>

theorem batcher_delivers_everything:
  assumes "batcher_run opts carrier l b" "\<not> bt_disposed b" "\<forall>f \<in> set l. length f \<le> F"
    and "0 < bo_maxBatchBytes opts" "\<forall>m. length m \<le> bo_maxBatchBytes opts + F + 5 \<longrightarrow> carrier m"
  shows "let b1 = run_all opts carrier now b;
             b2 = (if bt_timer b1 = None then b1 else run_all opts carrier later (window_fired b1))
         in received (bt_sent b2) = l"
proof -
  define b1 where "b1 = run_all opts carrier now b"
  define b2 where "b2 = run_all opts carrier later (window_fired b1)"
  have r1: "batcher_run opts carrier l b1" and c1: "bt_chain b1 = []" "bt_awaiting b1 = None" and d1: "\<not> bt_disposed b1"
    using run_all_props [OF assms(1)] assms(2) by (auto simp: b1_def)
  have all: "received (bt_sent b) @ bt_buffered b @ offers (bt_chain b) = l"
    if "batcher_run opts carrier l b" "\<not> bt_disposed b" "bt_awaiting b = None" for b
  proof -
    have "same_when_small (bo_maxBatchBytes opts + F + 5) carrier" using assms(5) by (simp add: same_when_small_def)
    then have "batcher_run opts (\<lambda>_. True) l b" using run_sizes [OF that(1) assms(3,4) order_refl] by blast
    then show ?thesis
      using channel_history [OF conjunct1 [OF batcher_run_sim]] that(2,3) by (fastforce simp: abs_channel_def under_way_def)
  qed
  show ?thesis
  proof (cases "bt_timer b1")
    case None
    then have "bt_buffered b1 = []" using batcher_run_sim [OF r1] c1 by (auto simp: batcher_ok_def)
    then show ?thesis using all [OF r1 d1 c1(2)] c1 None by (simp add: b1_def [symmetric])
  next
    case (Some t)
    have "batcher_run opts carrier (l @ []) (window_fired b1)" by (rule run_next [OF r1 step_fired [OF Some]])
    then have r2: "batcher_run opts carrier l b2" "bt_chain b2 = []" "bt_awaiting b2 = None" "\<not> bt_disposed b2"
      using run_all_props [of opts carrier l "window_fired b1" later] d1 by (auto simp: b2_def batcher_defs)
    have "bt_buffered b2 = []" using c1 unfolding b2_def by (intro run_all_flush) (simp_all add: batcher_defs)
    then show ?thesis using all [OF r2(1,4,3)] r2(2) Some by (simp add: b1_def [symmetric] b2_def [symmetric])
  qed
qed

section \<open>A small run\<close>

definition demo_frame :: bytes where "demo_frame = [2, 0, 0, 0, 1, 65]"

definition demo_batcher :: OutboundFrameBatcher where
  "demo_batcher = offerEncoded demo_frame (run_chain default_batcher_options (\<lambda>_. True) 10
     (offerEncoded demo_frame (createOutboundFrameBatcher 0)))"

lemma demo_frame_ok: "buffered_frame demo_frame"
  by (simp add: buffered_frame_def demo_frame_def TUNNEL_FRAME_HEADER_BYTES_def BATCH_BUFFERED_TYPES_def)

lemma demo_run: "batcher_run default_batcher_options (\<lambda>_. True) [demo_frame, demo_frame] demo_batcher"
proof -
  let ?R = "batcher_run default_batcher_options (\<lambda>_. True)"
  have offer: "?R (l @ [demo_frame]) (offerEncoded demo_frame b)" if "?R l b" "\<not> bt_disposed b" for l b
    using run_next [OF that(1) step_offer [of demo_frame _ _ b]] that(2) demo_frame_ok by simp
  have "?R ([] @ [demo_frame]) (offerEncoded demo_frame (createOutboundFrameBatcher 0))"
    by (intro offer run_start) (simp add: createOutboundFrameBatcher_def)
  from run_next [OF this step_run [of _ _ _ 10]]
  have "?R [demo_frame] (run_chain default_batcher_options (\<lambda>_. True) 10 (offerEncoded demo_frame (createOutboundFrameBatcher 0)))"
    by simp
  from offer [OF this] show ?thesis
    unfolding demo_batcher_def by (simp add: chain_disposed batcher_defs createOutboundFrameBatcher_def)
qed

lemmas batch_eval = run_chain_def batcher_defs offerNowBytes_def capsReached_def BATCH_BUFFERED_TYPES_def scheduleWindow_def
  default_batcher_options_def DEFAULT_MAX_BATCH_BYTES_def DEFAULT_MAX_BATCH_FRAMES_def DEFAULT_BATCH_WINDOW_MS_def
  BATCH_ENVELOPE_RESERVED_BYTES_def flushBuffer_def send_def MAX_PLAINTEXT_FRAME_BYTES_def
  awaits_def finish_link_def resume_link_def

lemma demo_waits:
  "run_chain default_batcher_options carrier 10 (offerEncoded demo_frame (createOutboundFrameBatcher 0)) =
     \<lparr>bt_buffered = [demo_frame], bt_bufferedBytes = 11, bt_chain = [], bt_timer = Some 160,
       bt_disposed = False, bt_lastFlushStamp = 0, bt_awaiting = None, bt_sent = []\<rparr>"
  by (simp add: batch_eval demo_frame_def createOutboundFrameBatcher_def)

lemma demo_open: "\<not> bt_disposed demo_batcher"
  by (simp add: demo_batcher_def chain_disposed batcher_defs createOutboundFrameBatcher_def)

theorem batcher_refines_fifo_channel_witness:
  "(channel_step (\<exists>m :: bytes. \<not> True))\<^sup>*\<^sup>* empty_channel (abs_channel [demo_frame, demo_frame] demo_batcher)"
  using batcher_refines_fifo_channel [OF demo_run] by simp

theorem receiver_sees_offered_frames_witness:
  "received (bt_sent demo_batcher) @ under_way demo_batcher @ bt_buffered demo_batcher @ offers (bt_chain demo_batcher) = [demo_frame, demo_frame]"
  using receiver_sees_offered_frames [OF demo_run] demo_open by simp

text \<open>The carrier of a session takes what fits the plaintext of an encrypted frame.\<close>

definition fits_plaintext :: "bytes \<Rightarrow> bool" where
  "fits_plaintext m \<longleftrightarrow> length m \<le> MAX_PLAINTEXT_FRAME_BYTES"

lemma demo_run_fits: "batcher_run default_batcher_options fits_plaintext [demo_frame, demo_frame] demo_batcher"
proof -
  let ?R = "batcher_run default_batcher_options fits_plaintext"
  have offer: "?R (l @ [demo_frame]) (offerEncoded demo_frame b)" if "?R l b" "\<not> bt_disposed b" for l b
    using run_next [OF that(1) step_offer [of demo_frame _ _ b]] that(2) demo_frame_ok by simp
  have "?R ([] @ [demo_frame]) (offerEncoded demo_frame (createOutboundFrameBatcher 0))"
    by (intro offer run_start) (simp add: createOutboundFrameBatcher_def)
  from run_next [OF this step_run [of _ _ _ 10]]
  have "?R [demo_frame] (run_chain default_batcher_options fits_plaintext 10 (offerEncoded demo_frame (createOutboundFrameBatcher 0)))"
    by simp
  from offer [OF this] show ?thesis unfolding demo_batcher_def demo_waits by simp
qed

theorem batcher_delivers_everything_witness:
  "let b1 = run_all default_batcher_options fits_plaintext 20 demo_batcher;
       b2 = (if bt_timer b1 = None then b1 else run_all default_batcher_options fits_plaintext 160 (window_fired b1))
   in received (bt_sent b2) = [demo_frame, demo_frame]"
  by (intro batcher_delivers_everything [OF demo_run_fits demo_open, of 40955])
    (auto simp: demo_frame_def default_batcher_options_def DEFAULT_MAX_BATCH_BYTES_def fits_plaintext_def MAX_PLAINTEXT_FRAME_BYTES_def)

section \<open>Messages beyond the limit\<close>

lemma default_sizes:
  assumes "batcher_run default_batcher_options carrier l b" "\<forall>f \<in> set l. length f \<le> 40955" "m \<in> set (bt_sent b)"
  shows "length m \<le> MAX_PLAINTEXT_FRAME_BYTES"
  using run_sizes [OF assms(1,2), of MAX_PLAINTEXT_FRAME_BYTES] assms(3)
  by (auto simp: sizes_ok_def list_all_iff default_batcher_options_def DEFAULT_MAX_BATCH_BYTES_def MAX_PLAINTEXT_FRAME_BYTES_def)

text \<open>
  Every message of a batcher with the default limits fits the 64 KiB of an encrypted frame when
  no frame that is offered exceeds 40955 bytes; frames of the flow-controlled downstream (8 KiB
  and a header) are well within.
\<close>

theorem batch_messages_fit_for_small_frames:
  assumes "batcher_run default_batcher_options carrier l b" "\<forall>f \<in> set l. length f \<le> 40955" "m \<in> set (bt_sent b)"
  shows "length m \<le> MAX_PLAINTEXT_FRAME_BYTES"
  by (rule default_sizes [OF assms])

theorem batch_messages_fit_for_small_frames_witness:
  "\<exists>m. m \<in> set (bt_sent (run_all default_batcher_options (\<lambda>_. True) 500 demo_batcher)) \<and> length m \<le> MAX_PLAINTEXT_FRAME_BYTES"
proof -
  let ?b = "run_all default_batcher_options (\<lambda>_. True) 500 demo_batcher"
  have r: "batcher_run default_batcher_options (\<lambda>_. True) [demo_frame, demo_frame] ?b" using run_all_props [OF demo_run] by blast
  have "bt_sent ?b \<noteq> []"
    by (simp add: demo_batcher_def demo_waits run_all_def) (simp add: batch_eval demo_frame_def)
  then obtain m where "m \<in> set (bt_sent ?b)" by (cases "bt_sent ?b") auto
  then show ?thesis using batch_messages_fit_for_small_frames [OF r] by (auto simp: demo_frame_def)
qed

text \<open>
  The caps are checked only after a frame has joined the buffer. A short message that waits for
  its window, followed by a message chunk of the largest size the codec allows, makes a container
  beyond 64 KiB; the carrier refuses it and both frames are lost.
\<close>

definition full_frame :: bytes where
  "full_frame = [8, 0, 0, 0, 1] @ replicate MAX_TUNNEL_PAYLOAD_BYTES 65"

theorem full_frame_overflows_container:
  "let b = run_chain default_batcher_options fits_plaintext 10 (offerEncoded demo_frame (createOutboundFrameBatcher 0));
       b' = run_chain default_batcher_options fits_plaintext 20 (offerEncoded full_frame b)
   in bt_buffered b = [demo_frame] \<and> fits_plaintext full_frame \<and> bt_awaiting b' = Some (False, None) \<and>
     bt_buffered b' = [] \<and> bt_sent b' = []"
proof -
  let ?b = "\<lparr>bt_buffered = [demo_frame], bt_bufferedBytes = 11, bt_chain = [], bt_timer = Some 160,
       bt_disposed = False, bt_lastFlushStamp = 0, bt_awaiting = None, bt_sent = []\<rparr>"
  have len: "length (encodeBatchContainer [demo_frame, full_frame]) = 65546"
    by (simp add: encodeBatchContainer_def demo_frame_def full_frame_def MAX_TUNNEL_PAYLOAD_BYTES_def MAX_PLAINTEXT_FRAME_BYTES_def)
  have ty: "type_of_bytes full_frame = 8" "length full_frame = 65531"
    by (simp_all add: full_frame_def MAX_TUNNEL_PAYLOAD_BYTES_def MAX_PLAINTEXT_FRAME_BYTES_def)
  have "run_chain default_batcher_options fits_plaintext 20 (offerEncoded full_frame ?b) =
      ?b\<lparr>bt_buffered := [], bt_bufferedBytes := 0, bt_timer := None, bt_lastFlushStamp := 20, bt_awaiting := Some (False, None)\<rparr>"
    using len ty by (simp add: batch_eval fits_plaintext_def)
  then show ?thesis unfolding demo_waits using ty(2) by (simp add: fits_plaintext_def MAX_PLAINTEXT_FRAME_BYTES_def)
qed

end
