(* ===== verification/Relay_Session.thy ===== *)
theory Relay_Session
  imports Relay_Batch
begin

text \<open>
  The encrypted channel of the relay (\<open>lib/relay/crypto.ts\<close>) and the ingress of a leg
  (\<open>lib/relay/leg-host.ts\<close>). AES-GCM of the platform is a pair of functions, encryption and
  decryption under a key and an initialisation vector, that the definitions take as arguments;
  \<open>gcm_correct\<close> states what is used of it. Lemmas: an initialisation vector is never used twice
  in one direction, the receiver accepts strictly increasing counters whatever is sent to it, an
  honest run arrives whole and in order, and the tunnel frames that go into the batcher on one
  side come out of the ingress on the other.
\<close>

unbundle bit_operations_syntax

section \<open>Frame encryption\<close>

definition RELAY_PROTOCOL_VERSION :: "8 word" where "RELAY_PROTOCOL_VERSION = 1"
definition ENCRYPTED_FRAME_HEADER_BYTES :: nat where "ENCRYPTED_FRAME_HEADER_BYTES = 13"
definition GCM_TAG_BYTES :: nat where "GCM_TAG_BYTES = 16"
definition MIN_ENCRYPTED_FRAME_BYTES :: nat where
  "MIN_ENCRYPTED_FRAME_BYTES = ENCRYPTED_FRAME_HEADER_BYTES + GCM_TAG_BYTES"
definition MAX_SAFE_FRAME_COUNTER :: nat where "MAX_SAFE_FRAME_COUNTER = 2 ^ 53 - 1"

record 'k SessionDirection =
  sd_key :: 'k
  sd_ivPrefix :: bytes
  sd_counter :: nat
  sd_lastCounter :: nat

definition newDirection :: "'k \<Rightarrow> bytes \<Rightarrow> 'k SessionDirection" where
  "newDirection key ivPrefix = \<lparr>sd_key = key, sd_ivPrefix = ivPrefix, sd_counter = 1, sd_lastCounter = 0\<rparr>"

text \<open>\<open>Buffer.writeBigUInt64BE\<close> and \<open>Buffer.readBigUInt64BE\<close>.\<close>

definition writeBigUInt64BE :: "64 word \<Rightarrow> bytes" where
  "writeBigUInt64BE w = writeUInt32BE (ucast (drop_bit 32 w)) @ writeUInt32BE (ucast w)"

definition readBigUInt64BE :: "bytes \<Rightarrow> 64 word" where
  "readBigUInt64BE bs = push_bit 32 (ucast (readUInt32BE (bs ! 0) (bs ! 1) (bs ! 2) (bs ! 3))) OR
     ucast (readUInt32BE (bs ! 4) (bs ! 5) (bs ! 6) (bs ! 7))"

definition ivFor :: "'k SessionDirection \<Rightarrow> nat \<Rightarrow> bytes" where
  "ivFor direction counter = sd_ivPrefix direction @ writeBigUInt64BE (word_of_nat counter)"

type_synonym 'k gcm_encrypt = "'k \<Rightarrow> bytes \<Rightarrow> bytes \<Rightarrow> bytes"
type_synonym 'k gcm_decrypt = "'k \<Rightarrow> bytes \<Rightarrow> bytes \<Rightarrow> bytes option"

datatype frame_error =
  PlaintextTooLong | FrameTooShort | BadVersion | CounterOutOfRange | CounterReplay | GcmFailed

text \<open>
  The counter is a JavaScript number. From \<open>2\<^sup>5\<^sup>3\<close> on adding one changes nothing: the sum is not
  representable and rounds back to the even number it came from.
\<close>

definition next_counter :: "nat \<Rightarrow> nat" where
  "next_counter counter = (if counter < 2 ^ 53 then counter + 1 else counter)"

definition encryptFrame :: "'k gcm_encrypt \<Rightarrow> bytes \<Rightarrow> 'k SessionDirection \<Rightarrow> (frame_error + bytes) \<times> 'k SessionDirection" where
  "encryptFrame gcm plaintext direction =
     (if length plaintext > MAX_PLAINTEXT_FRAME_BYTES then (Inl PlaintextTooLong, direction)
      else
        (let counter = sd_counter direction;
             iv = ivFor direction counter
         in (Inr (RELAY_PROTOCOL_VERSION # iv @ gcm (sd_key direction) iv plaintext),
             direction\<lparr>sd_counter := next_counter counter\<rparr>)))"

definition wire_counter :: "bytes \<Rightarrow> nat" where
  "wire_counter bs = unat (readBigUInt64BE (take 8 (drop 5 bs)))"

definition decryptFrame :: "'k gcm_decrypt \<Rightarrow> bytes \<Rightarrow> 'k SessionDirection \<Rightarrow> (frame_error + bytes) \<times> 'k SessionDirection" where
  "decryptFrame gcm bs direction =
     (if length bs < MIN_ENCRYPTED_FRAME_BYTES then (Inl FrameTooShort, direction)
      else if bs ! 0 \<noteq> RELAY_PROTOCOL_VERSION then (Inl BadVersion, direction)
      else if wire_counter bs > MAX_SAFE_FRAME_COUNTER then (Inl CounterOutOfRange, direction)
      else if wire_counter bs \<le> sd_lastCounter direction then (Inl CounterReplay, direction)
      else
        (case gcm (sd_key direction) (take 12 (drop 1 bs)) (drop 13 bs) of
           None \<Rightarrow> (Inl GcmFailed, direction)
         | Some plaintext \<Rightarrow> (Inr plaintext, direction\<lparr>sd_lastCounter := wire_counter bs\<rparr>)))"

text \<open>Messages one after the other; the first error ends a direction.\<close>

fun encrypt_all :: "'k gcm_encrypt \<Rightarrow> bytes list \<Rightarrow> 'k SessionDirection \<Rightarrow> frame_error + bytes list" where
  "encrypt_all gcm [] d = Inr []"
| "encrypt_all gcm (m # ms) d =
     (case encryptFrame gcm m d of
        (Inl e, _) \<Rightarrow> Inl e
      | (Inr f, d') \<Rightarrow> rbind (encrypt_all gcm ms d') (\<lambda>fs. Inr (f # fs)))"

fun decrypt_all :: "'k gcm_decrypt \<Rightarrow> bytes list \<Rightarrow> 'k SessionDirection \<Rightarrow> frame_error + bytes list" where
  "decrypt_all gcm [] d = Inr []"
| "decrypt_all gcm (f # fs) d =
     (case decryptFrame gcm f d of
        (Inl e, _) \<Rightarrow> Inl e
      | (Inr m, d') \<Rightarrow> rbind (decrypt_all gcm fs d') (\<lambda>ms. Inr (m # ms)))"

text \<open>Frames pushed at a receiver that goes on after an error: the ones it accepts.\<close>

fun accepted_frames :: "'k gcm_decrypt \<Rightarrow> bytes list \<Rightarrow> 'k SessionDirection \<Rightarrow> bytes list" where
  "accepted_frames gcm [] d = []"
| "accepted_frames gcm (f # fs) d =
     (case decryptFrame gcm f d of
        (Inl e, d') \<Rightarrow> accepted_frames gcm fs d'
      | (Inr m, d') \<Rightarrow> f # accepted_frames gcm fs d')"

section \<open>The ingress of a leg\<close>

text \<open>The leg's own fields; what it hands to the dispatcher is recorded in order.\<close>

record RelayLegHost =
  lg_failed :: bool
  lg_parts :: partials
  lg_ingress :: "bytes list"
  lg_handled :: "TunnelFrame list"

definition leg_fail :: "RelayLegHost \<Rightarrow> RelayLegHost" where
  "leg_fail leg = leg\<lparr>lg_failed := True\<rparr>"

definition acceptPlaintext :: "bytes \<Rightarrow> RelayLegHost \<Rightarrow> RelayLegHost" where
  "acceptPlaintext plaintext leg =
     (if lg_failed leg then leg else leg\<lparr>lg_ingress := lg_ingress leg @ [plaintext]\<rparr>)"

fun ingest_frames :: "bytes list \<Rightarrow> RelayLegHost \<Rightarrow> RelayLegHost" where
  "ingest_frames [] leg = leg"
| "ingest_frames (frameBytes # rest) leg =
     (case decodeTunnelFrame frameBytes of
        Inl _ \<Rightarrow> leg_fail leg
      | Inr frame \<Rightarrow>
          (case push frame (lg_parts leg) of
             (Inl _, parts) \<Rightarrow> leg_fail (leg\<lparr>lg_parts := parts\<rparr>)
           | (Inr None, parts) \<Rightarrow> ingest_frames rest (leg\<lparr>lg_parts := parts\<rparr>)
           | (Inr (Some m), parts) \<Rightarrow>
               ingest_frames rest (leg\<lparr>lg_parts := parts,
                 lg_handled := lg_handled leg @ [\<lparr>tf_type = am_type m, tf_streamId = am_streamId m,
                   tf_hasMore = False, tf_payload = am_payload m\<rparr>]\<rparr>)))"

definition ingestPlaintext :: "bytes \<Rightarrow> RelayLegHost \<Rightarrow> RelayLegHost" where
  "ingestPlaintext plaintext leg =
     (case acceptPlainBytes plaintext of None \<Rightarrow> leg_fail leg | Some frames \<Rightarrow> ingest_frames frames leg)"

text \<open>The next link of the ingress chain.\<close>

definition run_ingress :: "RelayLegHost \<Rightarrow> RelayLegHost" where
  "run_ingress leg =
     (case lg_ingress leg of [] \<Rightarrow> leg | m # rest \<Rightarrow> ingestPlaintext m (leg\<lparr>lg_ingress := rest\<rparr>))"

section \<open>Counters and initialisation vectors\<close>

text \<open>What is used of AES-GCM: decryption inverts encryption and the tag has its length.\<close>

definition gcm_correct :: "'k gcm_encrypt \<Rightarrow> 'k gcm_decrypt \<Rightarrow> bool" where
  "gcm_correct enc dec \<longleftrightarrow> (\<forall>key iv p. dec key iv (enc key iv p) = Some p \<and> GCM_TAG_BYTES \<le> length (enc key iv p))"

lemma read_write_64: "readBigUInt64BE (writeBigUInt64BE w) = w"
proof (rule bit_word_eqI)
  fix n assume "n < LENGTH(64)"
  then have "n < 32 \<or> 32 \<le> n \<and> n < 64" by simp linarith
  then show "bit (readBigUInt64BE (writeBigUInt64BE w)) n = bit w n"
    by (auto simp: readBigUInt64BE_def writeBigUInt64BE_def writeUInt32BE_def bit_simps)
qed

lemma length_write_64 [simp]: "length (writeBigUInt64BE w) = 8"
  by (simp add: writeBigUInt64BE_def)

lemma counter_of_frame:
  assumes "length p = 4" "n < 2 ^ 64"
  shows "wire_counter (v # p @ writeBigUInt64BE (word_of_nat n) @ c) = n"
proof -
  have "take 8 (drop 5 (v # p @ writeBigUInt64BE (word_of_nat n) @ c)) = writeBigUInt64BE (word_of_nat n)"
    using assms(1) by simp
  then show ?thesis using assms(2) by (simp add: wire_counter_def read_write_64 unat_of_nat)
qed

lemma encryptFrame_ok:
  assumes "length p \<le> MAX_PLAINTEXT_FRAME_BYTES"
  shows "encryptFrame gcm p d = (Inr (RELAY_PROTOCOL_VERSION # sd_ivPrefix d @ writeBigUInt64BE (word_of_nat (sd_counter d)) @
      gcm (sd_key d) (ivFor d (sd_counter d)) p), d\<lparr>sd_counter := next_counter (sd_counter d)\<rparr>)"
  using assms by (simp add: encryptFrame_def ivFor_def Let_def)

lemma encryptFrame_Inr:
  assumes "encryptFrame gcm p d = (Inr f, d')"
  shows "length p \<le> MAX_PLAINTEXT_FRAME_BYTES" "d' = d\<lparr>sd_counter := next_counter (sd_counter d)\<rparr>"
    "f = RELAY_PROTOCOL_VERSION # sd_ivPrefix d @ writeBigUInt64BE (word_of_nat (sd_counter d)) @ gcm (sd_key d) (ivFor d (sd_counter d)) p"
  using assms by (auto simp: encryptFrame_def ivFor_def Let_def split: if_splits)

lemma encrypted_counters:
  assumes "encrypt_all gcm ms d = Inr fs" "length (sd_ivPrefix d) = 4" "sd_counter d + length ms \<le> 2 ^ 53 + 1"
  shows "map wire_counter fs = [sd_counter d ..< sd_counter d + length ms] \<and>
    (\<forall>f \<in> set fs. take 12 (drop 1 f) = ivFor d (wire_counter f))"
  using assms
proof (induction ms arbitrary: d fs)
  case (Cons m ms)
  from Cons.prems(1) obtain f d' fs' where e: "encryptFrame gcm m d = (Inr f, d')" "encrypt_all gcm ms d' = Inr fs'" "fs = f # fs'"
    by (auto split: prod.splits sum.splits)
  note f = encryptFrame_Inr [OF e(1)]
  have c: "wire_counter f = sd_counter d" unfolding f(3) using Cons.prems by (intro counter_of_frame) auto
  have iv: "take 12 (drop 1 f) = ivFor d (sd_counter d)" using Cons.prems(2) by (simp add: f(3) ivFor_def)
  have "ivFor d' = ivFor d" by (auto simp: f(2) ivFor_def)
  moreover have n: "sd_counter d' + length ms \<le> 2 ^ 53 + 1" "ms \<noteq> [] \<longrightarrow> sd_counter d' = Suc (sd_counter d)"
    using Cons.prems(3) by (cases ms; simp add: f(2) next_counter_def)+
  moreover have "fs' = []" if "ms = []" using e(2) that by simp
  ultimately show ?case using Cons.IH [OF e(2)] Cons.prems(2) c iv f(2) e(3)
    by (cases "ms = []") (simp_all add: upt_rec [of "sd_counter d"] del: upt_Suc)
qed simp

text \<open>C21.
  An initialisation vector is used once among the first \<open>2\<^sup>5\<^sup>3\<close> messages of a direction: the
  frames encrypted in it carry the counters from 1 upwards, one each, and pairwise different
  vectors. The bound is the range in which a JavaScript number counts.
\<close>

theorem ivs_never_repeat:
  assumes "encrypt_all gcm ms (newDirection key ivPrefix) = Inr fs" "length ivPrefix = 4" "length ms \<le> 2 ^ 53"
  shows "map wire_counter fs = [1 ..< 1 + length ms] \<and> distinct (map (\<lambda>f. take 12 (drop 1 f)) fs)"
proof -
  let ?d = "newDirection key ivPrefix"
  have c: "map wire_counter fs = [1 ..< 1 + length ms]" "\<forall>f \<in> set fs. take 12 (drop 1 f) = ivFor ?d (wire_counter f)"
    using encrypted_counters [OF assms(1)] assms(2,3) by (simp_all add: newDirection_def)
  have "inj_on (ivFor ?d) {1 ..< 1 + length ms}"
  proof (rule inj_on_inverseI [where g = "\<lambda>iv. unat (readBigUInt64BE (drop 4 iv))"])
    fix n assume "n \<in> {1 ..< 1 + length ms}"
    then show "unat (readBigUInt64BE (drop 4 (ivFor ?d n))) = n"
      using assms(2,3) by (simp add: ivFor_def newDirection_def read_write_64 unat_of_nat)
  qed
  then have "distinct (map (ivFor ?d) (map wire_counter fs))" unfolding c(1) by (simp add: distinct_map del: upt_Suc)
  moreover have "map (\<lambda>f. take 12 (drop 1 f)) fs = map (ivFor ?d) (map wire_counter fs)" using c(2) by simp
  ultimately show ?thesis using c(1) by (simp only:)
qed

text \<open>
  The bound is exact and nothing on the sending side enforces it: once the counter has reached
  \<open>2\<^sup>5\<^sup>3\<close> it stays there, and every further message is encrypted under the same vector.
\<close>

theorem iv_repeats_when_counter_sticks:
  assumes "sd_counter d = 2 ^ 53" "length (sd_ivPrefix d) = 4" "length m \<le> MAX_PLAINTEXT_FRAME_BYTES" "length m' \<le> MAX_PLAINTEXT_FRAME_BYTES"
  shows "\<exists>f f'. encrypt_all gcm [m, m'] d = Inr [f, f'] \<and> take 12 (drop 1 f) = take 12 (drop 1 f')"
proof -
  have "d\<lparr>sd_counter := next_counter (sd_counter d)\<rparr> = d" using assms(1) by (cases d) (simp add: next_counter_def)
  then show ?thesis using assms(2) encryptFrame_ok [OF assms(3), of gcm d] encryptFrame_ok [OF assms(4), of gcm d] by simp
qed

theorem iv_repeats_when_counter_sticks_witness:
  "\<exists>f f'. encrypt_all (\<lambda>_ _ p. p) [[7], [8]] ((newDirection () [1, 2, 3, 4])\<lparr>sd_counter := 2 ^ 53\<rparr>) = Inr [f, f'] \<and>
    take 12 (drop 1 f) = take 12 (drop 1 f')"
  by (rule iv_repeats_when_counter_sticks) (simp_all add: newDirection_def MAX_PLAINTEXT_FRAME_BYTES_def)

text \<open>C12.
  A receiver never takes a frame twice: whatever frames are pushed at it, in whatever order,
  with replays and forgeries among them and errors ignored, the ones it accepts carry strictly
  increasing counters beyond the last one accepted before.
\<close>

theorem accepted_counters_increase:
  "sorted_wrt (<) (sd_lastCounter d # map wire_counter (accepted_frames gcm fs d)) \<and> distinct (accepted_frames gcm fs d)"
proof -
  have "sorted_wrt (<) (sd_lastCounter d # map wire_counter (accepted_frames gcm fs d))"
  proof (induction fs arbitrary: d)
    case (Cons f fs)
    obtain r d' where r: "decryptFrame gcm f d = (r, d')" by fastforce
    show ?case
    proof (cases r)
      case (Inl e)
      then have "d' = d" using r by (auto simp: decryptFrame_def split: if_splits option.splits)
      then show ?thesis using Cons.IH [of d] r Inl by simp
    next
      case (Inr m)
      then have "sd_lastCounter d' = wire_counter f" "sd_lastCounter d < wire_counter f"
        using r by (auto simp: decryptFrame_def split: if_splits option.splits)
      then show ?thesis using Cons.IH [of d'] r Inr by auto
    qed
  qed simp
  moreover from this have "distinct (map wire_counter (accepted_frames gcm fs d))"
    by (metis sorted_wrt.simps(2) strict_sorted_iff)
  ultimately show ?thesis by (auto simp: distinct_map)
qed

lemma decrypt_encrypted:
  assumes "gcm_correct enc dec" "length (sd_ivPrefix d) = 4" "sd_key r = sd_key d" "length p \<le> MAX_PLAINTEXT_FRAME_BYTES"
    and "sd_lastCounter r < sd_counter d" "sd_counter d \<le> MAX_SAFE_FRAME_COUNTER" "encryptFrame enc p d = (Inr f, d')"
  shows "decryptFrame dec f r = (Inr p, r\<lparr>sd_lastCounter := sd_counter d\<rparr>)"
proof -
  note f = encryptFrame_Inr [OF assms(7)]
  have c: "wire_counter f = sd_counter d" unfolding f(3) using assms(2,6)
    by (intro counter_of_frame) (auto simp: MAX_SAFE_FRAME_COUNTER_def)
  have g: "dec (sd_key d) (ivFor d (sd_counter d)) (enc (sd_key d) (ivFor d (sd_counter d)) p) = Some p"
    "GCM_TAG_BYTES \<le> length (enc (sd_key d) (ivFor d (sd_counter d)) p)"
    using assms(1) by (auto simp: gcm_correct_def)
  have "take 12 (drop 1 f) = ivFor d (sd_counter d)" "drop 13 f = enc (sd_key d) (ivFor d (sd_counter d)) p" "f ! 0 = RELAY_PROTOCOL_VERSION"
    "MIN_ENCRYPTED_FRAME_BYTES \<le> length f"
    using assms(2) g(2) by (simp_all add: f(3) ivFor_def MIN_ENCRYPTED_FRAME_BYTES_def ENCRYPTED_FRAME_HEADER_BYTES_def)
  then show ?thesis using c g(1) assms(3,5,6) by (simp add: decryptFrame_def)
qed

lemma honest_run:
  assumes "gcm_correct enc dec" "length (sd_ivPrefix d) = 4" "sd_key r = sd_key d" "\<forall>m \<in> set ms. length m \<le> MAX_PLAINTEXT_FRAME_BYTES"
    and "sd_lastCounter r < sd_counter d" "sd_counter d + length ms \<le> Suc MAX_SAFE_FRAME_COUNTER"
  shows "\<exists>fs. encrypt_all enc ms d = Inr fs \<and> decrypt_all dec fs r = Inr ms"
  using assms
proof (induction ms arbitrary: d r)
  case (Cons m ms)
  let ?d = "d\<lparr>sd_counter := next_counter (sd_counter d)\<rparr>" and ?r = "r\<lparr>sd_lastCounter := sd_counter d\<rparr>"
  obtain f where e: "encryptFrame enc m d = (Inr f, ?d)" using encryptFrame_ok [of m enc d] Cons.prems(4) by simp
  have d: "decryptFrame dec f r = (Inr m, ?r)"
    using decrypt_encrypted [OF Cons.prems(1-3) _ Cons.prems(5) _ e] Cons.prems(4,6) by simp
  have "\<exists>fs. encrypt_all enc ms ?d = Inr fs \<and> decrypt_all dec fs ?r = Inr ms"
    using Cons.prems by (intro Cons.IH) (auto simp: next_counter_def MAX_SAFE_FRAME_COUNTER_def)
  then show ?case using e d by auto
qed simp

text \<open>
  An honest run arrives: messages within 64 KiB, encrypted in order by one end and decrypted in
  order by the other under the same key, come out unchanged and complete, as long as the counter
  stays in the exact range of a JavaScript number.
\<close>

theorem encrypted_messages_arrive:
  assumes "gcm_correct enc dec" "length ivPrefix = 4" "\<forall>m \<in> set ms. length m \<le> MAX_PLAINTEXT_FRAME_BYTES"
    and "length ms \<le> MAX_SAFE_FRAME_COUNTER"
  shows "\<exists>fs. encrypt_all enc ms (newDirection key ivPrefix) = Inr fs \<and> decrypt_all dec fs (newDirection key ivPrefix') = Inr ms"
  using honest_run [of enc dec "newDirection key ivPrefix" "newDirection key ivPrefix'" ms] assms
  by (simp add: newDirection_def)

section \<open>From the batcher to the dispatcher\<close>

lemma ingest_frames_append:
  "\<not> lg_failed (ingest_frames fs leg) \<Longrightarrow> \<not> lg_failed leg \<Longrightarrow>
   ingest_frames (fs @ gs) leg = ingest_frames gs (ingest_frames fs leg)"
proof (induction fs arbitrary: leg)
  case (Cons f fs)
  show ?case
  proof (cases "decodeTunnelFrame f")
    case (Inr frame)
    obtain r p where r: "push frame (lg_parts leg) = (r, p)" by fastforce
    then show ?thesis using Cons Inr by (auto simp: leg_fail_def split: sum.splits option.splits)
  qed (use Cons in \<open>simp add: leg_fail_def\<close>)
qed simp

definition handled_of :: "AssembledMessage \<Rightarrow> TunnelFrame" where
  "handled_of m = \<lparr>tf_type = am_type m, tf_streamId = am_streamId m, tf_hasMore = False, tf_payload = am_payload m\<rparr>"

lemma ingest_push_all:
  assumes "map decodeTunnelFrame bss = map Inr frames" "push_all frames (lg_parts leg) = Inr (ms, parts')"
  shows "ingest_frames bss leg = leg\<lparr>lg_parts := parts', lg_handled := lg_handled leg @ map handled_of ms\<rparr>"
  using assms
proof (induction frames arbitrary: bss leg ms)
  case (Cons f fs)
  from Cons.prems(1) obtain b bss' where bss: "bss = b # bss'" "decodeTunnelFrame b = Inr f" "map decodeTunnelFrame bss' = map Inr fs"
    by auto
  from Cons.prems(2) obtain r p ms1 where p: "push f (lg_parts leg) = (Inr r, p)" "push_all fs p = Inr (ms1, parts')"
    and ms: "ms = (case r of Some m \<Rightarrow> m # ms1 | None \<Rightarrow> ms1)"
    by (auto split: prod.splits sum.splits)
  show ?case
    using Cons.IH [OF bss(3), of "leg\<lparr>lg_parts := p\<rparr>"] p
      Cons.IH [OF bss(3), of "leg\<lparr>lg_parts := p, lg_handled := lg_handled leg @ [handled_of (the r)]\<rparr>"]
    by (cases r) (simp_all add: bss ms handled_of_def)
qed simp

text \<open>The messages of the carrier, one link of the ingress chain each.\<close>

definition ingest_messages :: "bytes list \<Rightarrow> RelayLegHost \<Rightarrow> RelayLegHost" where
  "ingest_messages messages leg = (run_ingress ^^ length messages) (fold acceptPlaintext messages leg)"

lemma fold_accept: "\<not> lg_failed leg \<Longrightarrow> fold acceptPlaintext ms leg = leg\<lparr>lg_ingress := lg_ingress leg @ ms\<rparr>"
  by (induction ms arbitrary: leg) (simp_all add: acceptPlaintext_def)

lemma ingest_frames_ingress: "ingest_frames fs (leg\<lparr>lg_ingress := q\<rparr>) = (ingest_frames fs leg)\<lparr>lg_ingress := q\<rparr>"
proof -
  have c: "x\<lparr>lg_ingress := q, lg_parts := p\<rparr> = x\<lparr>lg_parts := p, lg_ingress := q\<rparr>"
    "x\<lparr>lg_ingress := q, lg_handled := h\<rparr> = x\<lparr>lg_handled := h, lg_ingress := q\<rparr>"
    "x\<lparr>lg_ingress := q, lg_failed := t\<rparr> = x\<lparr>lg_failed := t, lg_ingress := q\<rparr>" for x p h t by simp_all
  show ?thesis
    by (induction fs arbitrary: leg) (auto simp: leg_fail_def c split: sum.splits prod.splits option.splits)
qed

lemma ingest_chain:
  assumes "\<forall>m \<in> set ms. acceptPlainBytes m \<noteq> None" "\<not> lg_failed (ingest_frames (received ms) leg)" "\<not> lg_failed leg"
  shows "(run_ingress ^^ length ms) (leg\<lparr>lg_ingress := ms\<rparr>) = (ingest_frames (received ms) leg)\<lparr>lg_ingress := []\<rparr>"
  using assms
proof (induction ms arbitrary: leg)
  case (Cons m ms)
  from Cons.prems(1) obtain fs where fs: "acceptPlainBytes m = Some fs" by auto
  have rec: "received (m # ms) = fs @ received ms" by (simp add: received_def fs)
  have mono: "lg_failed leg \<Longrightarrow> lg_failed (ingest_frames gs leg)" for gs leg
    by (induction gs arbitrary: leg) (auto simp: leg_fail_def split: sum.splits prod.splits option.splits)
  have n1: "\<not> lg_failed (ingest_frames fs leg)"
  proof
    assume f: "lg_failed (ingest_frames fs leg)"
    have "lg_failed (ingest_frames (fs @ gs) leg)" for gs
      using f Cons.prems(3)
    proof (induction fs arbitrary: leg)
      case (Cons a fs)
      then show ?case by (auto simp: leg_fail_def split: sum.splits prod.splits option.splits)
    qed simp
    then show False using Cons.prems(2) rec by simp
  qed
  have "run_ingress (leg\<lparr>lg_ingress := m # ms\<rparr>) = (ingest_frames fs leg)\<lparr>lg_ingress := ms\<rparr>"
    by (simp add: run_ingress_def ingestPlaintext_def fs ingest_frames_ingress)
  then show ?case
    using Cons.IH [of "ingest_frames fs leg"] Cons.prems n1 ingest_frames_append [OF n1 Cons.prems(3), of "received ms"] rec
    by (simp add: funpow_swap1)
qed simp

definition fresh_leg :: RelayLegHost where
  "fresh_leg = \<lparr>lg_failed = False, lg_parts = [], lg_ingress = [], lg_handled = []\<rparr>"

text \<open>C1.
  The tunnel end to end. Frames of at most 40955 bytes each, which the assembler accepts, go into
  an open batcher with the default limits; its carrier takes every message that fits the 64 KiB of
  an encrypted frame. Once the batcher has sent what it buffered (at most \<open>2\<^sup>5\<^sup>3 - 1\<close> messages in
  all), encrypting its messages, decrypting them and ingesting them in order at the other end
  succeeds, and the dispatcher there gets what the assembler makes of the frames: every message
  whole, in order, none twice, and the leg does not fail. Larger frames can be lost: see
  \<open>full_frame_overflows_container\<close>.
\<close>

theorem tunnel_end_to_end:
  assumes run: "batcher_run default_batcher_options carrier l b" "\<not> bt_disposed b"
      "bt_buffered b = []" "bt_chain b = []" "bt_awaiting b = None"
    and carrier: "\<forall>m. length m \<le> MAX_PLAINTEXT_FRAME_BYTES \<longrightarrow> carrier m"
    and small: "\<forall>f \<in> set l. length f \<le> 40955" "length (bt_sent b) \<le> MAX_SAFE_FRAME_COUNTER"
    and gcm: "gcm_correct enc dec" "length ivPrefix = 4"
    and frames: "map decodeTunnelFrame l = map Inr frames" "push_all frames [] = Inr (ms, parts)"
  shows "\<exists>wire plain. encrypt_all enc (bt_sent b) (newDirection key ivPrefix) = Inr wire \<and>
    decrypt_all dec wire (newDirection key ivPrefix') = Inr plain \<and>
    ingest_messages plain fresh_leg = fresh_leg\<lparr>lg_parts := parts, lg_handled := map handled_of ms\<rparr>"
proof -
  have "same_when_small MAX_PLAINTEXT_FRAME_BYTES carrier" using carrier by (simp add: same_when_small_def)
  then have r': "batcher_run default_batcher_options (\<lambda>_. True) l b"
    using run_sizes [OF run(1) small(1), of MAX_PLAINTEXT_FRAME_BYTES]
    by (simp add: default_batcher_options_def DEFAULT_MAX_BATCH_BYTES_def MAX_PLAINTEXT_FRAME_BYTES_def)
  have rec: "received (bt_sent b) = l"
    using channel_history [OF conjunct1 [OF batcher_run_sim [OF r']]] run(2-5) by (simp add: abs_channel_def under_way_def)
  have acc: "\<forall>m \<in> set (bt_sent b). acceptPlainBytes m \<noteq> None"
    using sent_messages [OF run(1)] message_accepted by (auto simp: list_all_iff)
  have ing: "ingest_frames l fresh_leg = fresh_leg\<lparr>lg_parts := parts, lg_handled := map handled_of ms\<rparr>"
    using ingest_push_all [OF frames(1), of fresh_leg ms parts] frames(2) by (simp add: fresh_leg_def)
  have "ingest_messages (bt_sent b) fresh_leg = fresh_leg\<lparr>lg_parts := parts, lg_handled := map handled_of ms\<rparr>"
    using ingest_chain [OF acc, of fresh_leg] ing unfolding rec ingest_messages_def
    by (simp add: fold_accept fresh_leg_def)
  then show ?thesis
    using honest_run [OF gcm(1), of "newDirection key ivPrefix" "newDirection key ivPrefix'" "bt_sent b"] gcm(2)
      default_sizes [OF run(1) small(1)] small(2) by (auto simp: newDirection_def)
qed

section \<open>A concrete channel\<close>

text \<open>Stand-in functions with the laws of AES-GCM: the plaintext and sixteen bytes of tag.\<close>

definition pad_encrypt :: "unit gcm_encrypt" where
  "pad_encrypt key iv p = replicate 16 0 @ p"

definition pad_decrypt :: "unit gcm_decrypt" where
  "pad_decrypt key iv c = Some (drop 16 c)"

lemma pad_correct: "gcm_correct pad_encrypt pad_decrypt"
  by (simp add: gcm_correct_def pad_encrypt_def pad_decrypt_def GCM_TAG_BYTES_def)

theorem ivs_never_repeat_witness:
  "\<exists>fs. encrypt_all pad_encrypt [[7], [7]] (newDirection () [1, 2, 3, 4]) = Inr fs \<and> map wire_counter fs = [1, 2] \<and>
    distinct (map (\<lambda>f. take 12 (drop 1 f)) fs)"
proof -
  obtain fs where fs: "encrypt_all pad_encrypt [[7], [7]] (newDirection () [1, 2, 3, 4]) = Inr fs"
    using encryptFrame_ok [of "[7]" pad_encrypt] by (simp add: MAX_PLAINTEXT_FRAME_BYTES_def)
  show ?thesis using ivs_never_repeat [OF fs] fs by (auto simp: upt_rec)
qed

theorem encrypted_messages_arrive_witness:
  "\<exists>fs. encrypt_all pad_encrypt [[7], []] (newDirection () [1, 2, 3, 4]) = Inr fs \<and>
    decrypt_all pad_decrypt fs (newDirection () [9, 9, 9, 9]) = Inr [[7], []]"
  using encrypted_messages_arrive [OF pad_correct, of "[1, 2, 3, 4]" "[[7], []]" "()" "[9, 9, 9, 9]"]
  by (simp add: MAX_PLAINTEXT_FRAME_BYTES_def MAX_SAFE_FRAME_COUNTER_def)

definition flushed_demo :: OutboundFrameBatcher where
  "flushed_demo = run_all default_batcher_options fits_plaintext 500 demo_batcher"

theorem tunnel_end_to_end_witness:
  "\<exists>wire plain. encrypt_all pad_encrypt (bt_sent flushed_demo) (newDirection () [1, 2, 3, 4]) = Inr wire \<and>
    decrypt_all pad_decrypt wire (newDirection () [5, 6, 7, 8]) = Inr plain \<and>
    map tf_payload (lg_handled (ingest_messages plain fresh_leg)) = [[65], [65]]"
proof -
  let ?f = "\<lparr>tf_type = 2, tf_streamId = 1, tf_hasMore = False, tf_payload = [65]\<rparr>"
  let ?m = "\<lparr>am_type = 2, am_streamId = 1, am_payload = [65]\<rparr>"
  have run: "batcher_run default_batcher_options fits_plaintext [demo_frame, demo_frame] flushed_demo"
    "\<not> bt_disposed flushed_demo" "bt_awaiting flushed_demo = None"
    using run_all_props [OF demo_run_fits, of 500] demo_open unfolding flushed_demo_def by auto
  have st: "bt_buffered flushed_demo = []" "bt_chain flushed_demo = []" "length (bt_sent flushed_demo) = 1"
    unfolding flushed_demo_def by (simp_all add: demo_batcher_def demo_waits run_all_def) (simp_all add: batch_eval demo_frame_def fits_plaintext_def encodeBatchContainer_def)
  have "demo_frame = encodeTunnelFrame ?f" by (simp add: demo_frame_def encodeTunnelFrame_def writeUInt32BE_def)
  then have "decodeTunnelFrame demo_frame = Inr ?f" using decode_encode [of ?f] by (simp add: frame_numerals)
  then have dec: "map decodeTunnelFrame [demo_frame, demo_frame] = map Inr [?f, ?f]" by simp
  have push: "push_all [?f, ?f] [] = Inr ([?m, ?m], [])"
    by (simp add: push_def complete_def MAX_ASSEMBLED_MESSAGE_BYTES_def)
  show ?thesis
    using tunnel_end_to_end [OF run(1,2) st(1,2) run(3) _ _ _ pad_correct _ dec push, of "[1, 2, 3, 4]" "()" "[5, 6, 7, 8]"] st(3)
    by (auto simp: demo_frame_def handled_of_def MAX_SAFE_FRAME_COUNTER_def fits_plaintext_def)
qed

end
