(* ===== verification/Relay_Client.thy ===== *)
theory Relay_Client
  imports Relay_Session
begin

text \<open>
  The client side of the tunnel in the browser (\<open>ui/src/lib/relay/bytes.ts\<close>,
  \<open>tunnel-codec.ts\<close>, \<open>protocol.ts\<close>, \<open>tunnel-acks.ts\<close>): the same wire format written a
  second time over \<open>Uint8Array\<close>, and the ledger of delivery acknowledgements. The functions carry
  the prefix \<open>client\<close> where the host has one of the same name. Lemmas: the client's codec, its
  container format, its demultiplexer and its assembler agree with the host's, and what the ledger
  acknowledges.
\<close>

unbundle bit_operations_syntax

section \<open>Byte helpers\<close>

text \<open>Shifts and masks of JavaScript numbers: \<open>>>>\<close> and \<open>&\<close> work on the low 32 bits.\<close>

definition u8WriteUInt32BE :: "int \<Rightarrow> bytes" where
  "u8WriteUInt32BE value = map (\<lambda>k. word_of_int (drop_bit k (take_bit 32 value) AND 0xff)) [24, 16, 8, 0]"

definition u8ReadUInt32BE :: "8 word \<Rightarrow> 8 word \<Rightarrow> 8 word \<Rightarrow> 8 word \<Rightarrow> int" where
  "u8ReadUInt32BE a b c d = take_bit 32 (push_bit 24 (uint a) OR push_bit 16 (uint b) OR push_bit 8 (uint c) OR uint d)"

definition u8WriteBigUInt64BE :: "int \<Rightarrow> bytes" where
  "u8WriteBigUInt64BE value = u8WriteUInt32BE (drop_bit 32 value AND 0xffffffff) @ u8WriteUInt32BE (value AND 0xffffffff)"

definition u8Concat :: "bytes list \<Rightarrow> bytes" where
  "u8Concat parts = concat parts"

section \<open>The codec\<close>

definition clientEncodeTunnelFrame :: "TunnelFrame \<Rightarrow> bytes" where
  "clientEncodeTunnelFrame frame =
     (let head = (tf_type frame AND 0x7f) OR (if tf_hasMore frame then HAS_MORE_FLAG else 0)
      in word_of_int (head AND 0xff) # u8WriteUInt32BE (tf_streamId frame) @ tf_payload frame)"

fun clientDecodeTunnelFrame :: "bytes \<Rightarrow> codec_error + TunnelFrame" where
  "clientDecodeTunnelFrame (h # a # b # c # d # payload) =
     (let type = uint h AND 0x7f
      in if type \<notin> set KNOWN_FRAME_TYPES then Inl (UnknownFrameType type)
         else Inr \<lparr>tf_type = type, tf_streamId = u8ReadUInt32BE a b c d,
                tf_hasMore = (uint h AND HAS_MORE_FLAG \<noteq> 0), tf_payload = payload\<rparr>)"
| "clientDecodeTunnelFrame _ = Inl HeaderTruncated"

definition clientEncodeFragmentedMessage :: "TunnelFrameType \<Rightarrow> int \<Rightarrow> bytes \<Rightarrow> int \<Rightarrow> codec_error + bytes list" where
  "clientEncodeFragmentedMessage type streamId payload chunkSize =
     (if \<not> isFragmentableType (frame_numeral type) then Inl NotFragmentable
      else rbind (chunkPayload payload chunkSize)
        (\<lambda>chunks. Inr (map (\<lambda>index. clientEncodeTunnelFrame (fragment_frame (frame_numeral type) streamId chunks index)) [0..<length chunks])))"

definition clientEncodeBatchContainer :: "bytes list \<Rightarrow> bytes" where
  "clientEncodeBatchContainer frames =
     (case frames of
        [frame] \<Rightarrow> u8Concat [[0x00], frame]
      | _ \<Rightarrow> u8Concat ([0x01] # concat (map (\<lambda>frame. [u8WriteUInt32BE (int (length frame)), frame]) frames)))"

text \<open>The assembler; only its completion differs from the host's text.\<close>

definition clientComplete :: "TunnelFrame \<Rightarrow> partials \<Rightarrow> (codec_error + AssembledMessage) \<times> partials" where
  "clientComplete frame parts =
     (let payload = (case map_of parts (keyFor frame) of
                       None \<Rightarrow> tf_payload frame
                     | Some pending \<Rightarrow> u8Concat (pg_chunks pending @ [tf_payload frame]))
      in (if length payload > MAX_ASSEMBLED_MESSAGE_BYTES then Inl AssembledTooLarge
          else Inr \<lparr>am_type = tf_type frame, am_streamId = tf_streamId frame, am_payload = payload\<rparr>,
          AList.delete (keyFor frame) parts))"

definition clientPush :: "TunnelFrame \<Rightarrow> partials \<Rightarrow> (codec_error + AssembledMessage option) \<times> partials" where
  "clientPush frame parts =
     (if tf_hasMore frame \<and> \<not> isFragmentableType (tf_type frame) then (Inl (ArrivedFragmented (tf_type frame)), parts)
      else if \<not> tf_hasMore frame then
        (case clientComplete frame parts of
           (Inl e, parts') \<Rightarrow> (Inl e, parts')
         | (Inr m, parts') \<Rightarrow> (Inr (Some m), parts'))
      else
        (let key = keyFor frame
         in if map_of parts key = None \<and> length parts \<ge> MAX_PENDING_FRAGMENT_STREAMS then (Inl TooManyPartials, parts)
            else
              (let old = (case map_of parts key of Some e \<Rightarrow> e
                          | None \<Rightarrow> \<lparr>pg_type = tf_type frame, pg_streamId = tf_streamId frame, pg_chunks = [], pg_bytes = 0\<rparr>);
                   entry = old\<lparr>pg_chunks := pg_chunks old @ [tf_payload frame],
                               pg_bytes := pg_bytes old + length (tf_payload frame)\<rparr>
               in if pg_bytes entry > MAX_ASSEMBLED_MESSAGE_BYTES then (Inl AssembledTooLarge, AList.delete key parts)
                  else (Inr None, AList.update key entry parts))))"

section \<open>The demultiplexer\<close>

fun client_strict_loop :: "bytes \<Rightarrow> nat \<Rightarrow> bool" where
  "client_strict_loop (a # b # c # d # rest) n =
     (let len = nat (u8ReadUInt32BE a b c d)
      in if len < TUNNEL_FRAME_HEADER_BYTES \<or> len > length rest then False
         else if (case rest of h # _ \<Rightarrow> uint h AND 0x7f | [] \<Rightarrow> 0) \<notin> set BATCH_BUFFERED_TYPES then False
         else client_strict_loop (drop len rest) (n + 1))"
| "client_strict_loop rest n \<longleftrightarrow> rest = [] \<and> n \<ge> 1"

definition clientIsStrictBatchContainer :: "bytes \<Rightarrow> bool" where
  "clientIsStrictBatchContainer bs = client_strict_loop (tl bs) 0"

text \<open>Frames are decoded as they are cut out; a frame that does not decode throws.\<close>

fun client_segments :: "bytes \<Rightarrow> codec_error + TunnelFrame list option" where
  "client_segments (a # b # c # d # rest) =
     (let len = nat (u8ReadUInt32BE a b c d)
      in if len > length rest then Inr None
         else rbind (clientDecodeTunnelFrame (take len rest))
           (\<lambda>frame. rbind (client_segments (drop len rest)) (\<lambda>frames. Inr (map_option (Cons frame) frames))))"
| "client_segments rest = Inr (if rest = [] then Some [] else None)"

fun decodeBatchContainerBytes :: "bytes \<Rightarrow> codec_error + TunnelFrame list option" where
  "decodeBatchContainerBytes (tag # rest) =
     (if tag = 0x00 then
        (if length (tag # rest) < 1 + TUNNEL_FRAME_HEADER_BYTES then Inr None
         else rbind (clientDecodeTunnelFrame rest) (\<lambda>frame. Inr (Some [frame])))
      else client_segments rest)"
| "decodeBatchContainerBytes [] = Inr None"

definition clientDecodeFrameOrContainer :: "bytes \<Rightarrow> codec_error + TunnelFrame list option" where
  "clientDecodeFrameOrContainer bs =
     (case bs of
        [] \<Rightarrow> Inr None
      | tag # _ \<Rightarrow>
          if tag = 0x00 then decodeBatchContainerBytes bs
          else if tag = 0x01 \<and> clientIsStrictBatchContainer bs then decodeBatchContainerBytes bs
          else if length bs < TUNNEL_FRAME_HEADER_BYTES then Inr None
          else rbind (clientDecodeTunnelFrame bs) (\<lambda>frame. Inr (Some [frame])))"

section \<open>The ledger of acknowledgements\<close>

definition ACK_INLINE_THRESHOLD_BYTES :: nat where "ACK_INLINE_THRESHOLD_BYTES = 16 * 1024"
definition ACK_TAIL_TIMER_MS :: int where "ACK_TAIL_TIMER_MS = 10"

text \<open>The variables of the closure; \<open>al_acks\<close> are the payloads that were sent.\<close>

record AckLedger =
  al_receivedBytes :: nat
  al_acknowledged :: nat
  al_tailTimer :: bool
  al_disposed :: bool
  al_acks :: "bytes list"

definition createAckLedger :: AckLedger where
  "createAckLedger = \<lparr>al_receivedBytes = 0, al_acknowledged = 0, al_tailTimer = False, al_disposed = False, al_acks = []\<rparr>"

definition cancelTail :: "AckLedger \<Rightarrow> AckLedger" where
  "cancelTail l = l\<lparr>al_tailTimer := False\<rparr>"

definition flushInline :: "AckLedger \<Rightarrow> AckLedger" where
  "flushInline l0 =
     (let l = cancelTail l0
      in if al_acknowledged l = al_receivedBytes l then l
         else l\<lparr>al_acknowledged := al_receivedBytes l,
                al_acks := al_acks l @ [u8WriteBigUInt64BE (int (al_receivedBytes l))]\<rparr>)"

definition noteFrame :: "TunnelFrame \<Rightarrow> AckLedger \<Rightarrow> AckLedger" where
  "noteFrame frame l =
     (if al_disposed l \<or> tf_streamId frame = 0 then l
      else l\<lparr>al_receivedBytes := al_receivedBytes l + TUNNEL_FRAME_HEADER_BYTES + length (tf_payload frame)\<rparr>)"

definition afterBatch :: "nat \<Rightarrow> AckLedger \<Rightarrow> AckLedger" where
  "afterBatch threshold l =
     (if al_disposed l then l
      else
        (let delta = al_receivedBytes l - al_acknowledged l
         in if delta \<ge> threshold then flushInline l
            else if delta > 0 \<and> \<not> al_tailTimer l then l\<lparr>al_tailTimer := True\<rparr>
            else l))"

definition tail_fired :: "AckLedger \<Rightarrow> AckLedger" where
  "tail_fired l = flushInline (l\<lparr>al_tailTimer := False\<rparr>)"

definition ledger_reset :: "AckLedger \<Rightarrow> AckLedger" where
  "ledger_reset l = (cancelTail l)\<lparr>al_receivedBytes := 0, al_acknowledged := 0\<rparr>"

definition ledger_dispose :: "AckLedger \<Rightarrow> AckLedger" where
  "ledger_dispose l = cancelTail (l\<lparr>al_disposed := True\<rparr>)"

section \<open>The client speaks the host's format\<close>

lemma low_byte [simp]: "(word_of_int (x AND 0xff) :: 8 word) = word_of_int x"
proof -
  have "x AND 0xff = take_bit 8 x" by (simp add: take_bit_eq_mask mask_eq_exp_minus_1)
  then show ?thesis by (simp add: word_of_int_eq_iff)
qed

lemma u8Write_eq: "u8WriteUInt32BE v = writeUInt32BE (word_of_int v)"
proof -
  have "(word_of_int (drop_bit k (take_bit 32 v)) :: 8 word) = ucast (drop_bit k (word_of_int v :: 32 word))" for k
    by (rule bit_word_eqI) (auto simp: bit_simps)
  from this [of 24] this [of 16] this [of 8] this [of 0] show ?thesis
    by (simp add: u8WriteUInt32BE_def writeUInt32BE_def)
qed

lemma u8Read_eq: "u8ReadUInt32BE a b c d = uint (readUInt32BE a b c d)"
  by (rule bit_eqI) (auto simp: u8ReadUInt32BE_def readUInt32BE_def bit_simps dest: bit_imp_le_length)

lemma client_encode_eq: "clientEncodeTunnelFrame f = encodeTunnelFrame f"
  by (simp add: clientEncodeTunnelFrame_def encodeTunnelFrame_def u8Write_eq Let_def)

lemma client_head:
  "uint h AND 0x7f = uint (h AND 0x7f)" "(uint h AND HAS_MORE_FLAG \<noteq> 0) = (h AND word_of_int HAS_MORE_FLAG \<noteq> 0)"
  for h :: "8 word"
proof -
  have "uint (h AND 0x80) = uint h AND 0x80" by (simp add: uint_and)
  then have "uint h AND 0x80 = 0 \<longleftrightarrow> h AND 0x80 = 0" by (metis uint_0_iff)
  then show "(uint h AND HAS_MORE_FLAG \<noteq> 0) = (h AND word_of_int HAS_MORE_FLAG \<noteq> 0)" by (simp add: HAS_MORE_FLAG_def)
qed (simp add: uint_and)

lemma client_decode_eq: "clientDecodeTunnelFrame bs = decodeTunnelFrame bs"
  by (cases bs rule: decodeTunnelFrame.cases) (simp_all add: Let_def u8Read_eq client_head)

lemma client_fragments_eq: "clientEncodeFragmentedMessage = encodeFragmentedMessage"
  by (intro ext) (simp add: clientEncodeFragmentedMessage_def encodeFragmentedMessage_def client_encode_eq)

lemma client_segment_bytes:
  "concat (concat (map (\<lambda>frame. [u8WriteUInt32BE (int (length frame)), frame]) fs)) = segment_bytes fs"
  by (induction fs) (simp_all add: segment_bytes_def u8Write_eq)

lemma client_container_eq: "clientEncodeBatchContainer fs = encodeBatchContainer fs"
proof (cases "\<exists>f. fs = [f]")
  case True
  then show ?thesis by (auto simp: clientEncodeBatchContainer_def encodeBatchContainer_def u8Concat_def)
next
  case False
  then have "clientEncodeBatchContainer fs =
      [0x01] @ concat (concat (map (\<lambda>frame. [u8WriteUInt32BE (int (length frame)), frame]) fs))"
    by (cases fs rule: remdups_adj.cases) (auto simp: clientEncodeBatchContainer_def u8Concat_def)
  then show ?thesis using container_bytes [of fs] False by (simp only: client_segment_bytes) simp
qed

lemma client_push_eq:
  assumes "parts_ok parts"
  shows "clientPush f parts = push f parts"
proof -
  have "clientComplete f parts = complete f parts"
    using parts_ok_lookup [OF assms, of "keyFor f"]
    by (auto simp: clientComplete_def complete_def u8Concat_def group_ok_def Let_def split: option.splits)
  then show ?thesis by (simp add: clientPush_def push_def)
qed

text \<open>The two demultiplexers: the client decodes what the host cuts out.\<close>

lemma client_strict_type:
  "len \<ge> TUNNEL_FRAME_HEADER_BYTES \<Longrightarrow>
    (case rest of h # _ \<Rightarrow> uint h AND 0x7f | [] \<Rightarrow> 0) = type_of_bytes (take len rest)"
  by (cases rest; cases len) (simp_all add: client_head TUNNEL_FRAME_HEADER_BYTES_def)

lemma client_strict_eq: "client_strict_loop bs n = strict_loop bs n"
proof (induction bs n rule: client_strict_loop.induct)
  case (1 a b c d rest n)
  define len where "len = nat (u8ReadUInt32BE a b c d)"
  have len: "unat (readUInt32BE a b c d) = len" by (simp add: len_def u8Read_eq)
  show ?case
  proof (cases "len < TUNNEL_FRAME_HEADER_BYTES \<or> len > length rest")
    case True
    then show ?thesis by (auto simp: Let_def len simp flip: len_def)
  next
    case False
    then show ?thesis using 1 [OF len_def] client_strict_type [of len rest]
      by (auto simp: Let_def len simp flip: len_def)
  qed
qed simp_all

lemma client_segments_iff:
  "client_segments bs = Inr (Some frames) \<longleftrightarrow> (\<exists>bss. segments bs = Some bss \<and> map decodeTunnelFrame bss = map Inr frames)"
proof (induction bs arbitrary: frames rule: client_segments.induct)
  case (1 a b c d rest)
  define len where "len = nat (u8ReadUInt32BE a b c d)"
  have len: "unat (readUInt32BE a b c d) = len" by (simp add: len_def u8Read_eq)
  show ?case
  proof (cases "len > length rest")
    case True
    then show ?thesis by (simp add: Let_def len flip: len_def)
  next
    case False
    then show ?thesis using 1 [OF len_def]
      by (cases frames; cases "decodeTunnelFrame (take len rest)"; cases "client_segments (drop len rest)")
        (auto simp: Let_def len client_decode_eq Cons_eq_map_conv simp flip: len_def)
  qed
qed auto

lemma short_frame: "length bs < TUNNEL_FRAME_HEADER_BYTES \<Longrightarrow> decodeTunnelFrame bs = Inl HeaderTruncated"
  by (cases bs rule: decodeTunnelFrame.cases) (simp_all add: TUNNEL_FRAME_HEADER_BYTES_def)

lemma client_demux_iff:
  "clientDecodeFrameOrContainer bs = Inr (Some frames) \<longleftrightarrow>
     (\<exists>bss. acceptPlainBytes bs = Some bss \<and> map decodeTunnelFrame bss = map Inr frames)"
proof (cases bs)
  case Nil
  then show ?thesis by (simp add: clientDecodeFrameOrContainer_def acceptPlainBytes_def decodeFrameOrContainer_def)
next
  case (Cons tag rest)
  consider (zero) "tag = 0x00" | (container) "tag = 0x01" "strict_loop rest 0"
    | (bare) "tag \<noteq> 0x00" "\<not> (tag = 0x01 \<and> strict_loop rest 0)" by blast
  then show ?thesis
  proof cases
    case zero
    then show ?thesis using short_frame [of rest]
      by (cases "decodeTunnelFrame rest")
        (auto simp: Cons clientDecodeFrameOrContainer_def acceptPlainBytes_def decodeFrameOrContainer_def client_decode_eq)
  next
    case container
    then show ?thesis
      by (auto simp: Cons clientDecodeFrameOrContainer_def acceptPlainBytes_def decodeFrameOrContainer_def
          clientIsStrictBatchContainer_def isStrictBatchContainer_def client_strict_eq client_segments_iff split: option.splits)
  next
    case bare
    then show ?thesis using short_frame [of bs]
      by (cases "decodeTunnelFrame bs")
        (auto simp: Cons clientDecodeFrameOrContainer_def acceptPlainBytes_def decodeFrameOrContainer_def
          clientIsStrictBatchContainer_def isStrictBatchContainer_def client_strict_eq client_decode_eq)
  qed
qed

text \<open>C22.
  The wire format was written twice, and the two agree: the browser's codec encodes and decodes
  frames, fragments messages and builds containers byte for byte as the host's does, its
  assembler takes every step the host's takes from every state within the limits, and it
  demultiplexes a message into frames exactly when the host cuts it into byte strings that all
  decode, to the same frames.
\<close>

theorem client_and_host_codecs_agree:
  "clientEncodeTunnelFrame f = encodeTunnelFrame f \<and>
   clientDecodeTunnelFrame bs = decodeTunnelFrame bs \<and>
   clientEncodeFragmentedMessage ty s payload n = encodeFragmentedMessage ty s payload n \<and>
   clientEncodeBatchContainer fs = encodeBatchContainer fs \<and>
   (parts_ok parts \<longrightarrow> clientPush f parts = push f parts) \<and>
   (clientDecodeFrameOrContainer bs = Inr (Some frames) \<longleftrightarrow>
      (\<exists>bss. acceptPlainBytes bs = Some bss \<and> map decodeTunnelFrame bss = map Inr frames))"
  by (intro conjI impI client_encode_eq client_decode_eq client_container_eq client_push_eq client_demux_iff)
    (simp add: client_fragments_eq)

theorem client_and_host_codecs_agree_witness:
  "clientPush \<lparr>tf_type = 8, tf_streamId = 1, tf_hasMore = True, tf_payload = [65]\<rparr> [] =
     push \<lparr>tf_type = 8, tf_streamId = 1, tf_hasMore = True, tf_payload = [65]\<rparr> []"
  using client_and_host_codecs_agree [where parts = "[]" and f = "\<lparr>tf_type = 8, tf_streamId = 1, tf_hasMore = True, tf_payload = [65]\<rparr>"]
  by (simp add: parts_ok_def)

section \<open>What the ledger acknowledges\<close>

text \<open>The client's events between two handshakes: frames arrive, a batch ends, the tail timer fires.\<close>

inductive ledger_run :: "nat \<Rightarrow> TunnelFrame list \<Rightarrow> AckLedger \<Rightarrow> bool" for threshold where
  lr_start: "ledger_run threshold [] createAckLedger"
| lr_frame: "ledger_run threshold fs l \<Longrightarrow> ledger_run threshold (fs @ [f]) (noteFrame f l)"
| lr_batch: "ledger_run threshold fs l \<Longrightarrow> ledger_run threshold fs (afterBatch threshold l)"
| lr_tail: "ledger_run threshold fs l \<Longrightarrow> al_tailTimer l \<Longrightarrow> ledger_run threshold fs (tail_fired l)"

definition credit_bytes :: "TunnelFrame \<Rightarrow> nat" where
  "credit_bytes f = (if tf_streamId f = 0 then 0 else TUNNEL_FRAME_HEADER_BYTES + length (tf_payload f))"

definition credit_total :: "TunnelFrame list \<Rightarrow> nat" where
  "credit_total fs = sum_list (map credit_bytes fs)"

text \<open>The counts behind the payloads: increasing, each the total of some prefix of the frames.\<close>

definition ledger_ok :: "TunnelFrame list \<Rightarrow> AckLedger \<Rightarrow> nat list \<Rightarrow> bool" where
  "ledger_ok fs l counts \<longleftrightarrow>
     \<not> al_disposed l \<and> al_receivedBytes l = credit_total fs \<and> al_acknowledged l \<le> al_receivedBytes l \<and>
     al_acks l = map (\<lambda>n. u8WriteBigUInt64BE (int n)) counts \<and> sorted_wrt (<) (0 # counts) \<and>
     last (0 # counts) = al_acknowledged l \<and> (\<forall>n \<in> set counts. \<exists>k. n = credit_total (take k fs))"

lemmas ledger_defs = flushInline_def cancelTail_def noteFrame_def afterBatch_def tail_fired_def

lemma credit_total_append [simp]: "credit_total (fs @ gs) = credit_total fs + credit_total gs"
  by (simp add: credit_total_def)

lemma strict_last: "sorted_wrt (<) xs \<Longrightarrow> n \<in> set xs \<Longrightarrow> n \<le> last xs" for n :: nat
  by (induction xs) (auto simp: less_imp_le)

lemma credit_take: "\<exists>k. credit_total (take j fs) = credit_total (take k (fs @ gs))"
  by (rule exI [of _ "min j (length fs)"]) (simp add: min_def del: credit_total_append)

lemma ledger_ok_flush:
  assumes "ledger_ok fs l counts"
  shows "\<exists>more. ledger_ok fs (flushInline l) (counts @ more) \<and> al_acknowledged (flushInline l) = al_receivedBytes l"
proof (cases "al_acknowledged l = al_receivedBytes l")
  case True
  then show ?thesis using assms by (intro exI [of _ "[]"]) (simp add: ledger_ok_def ledger_defs)
next
  case False
  have "n \<le> last (0 # counts)" if "n \<in> set (0 # counts)" for n
    using strict_last [OF _ that] assms by (simp add: ledger_ok_def)
  then have "sorted_wrt (<) (0 # counts @ [al_receivedBytes l])"
    using assms False by (fastforce simp: ledger_ok_def sorted_wrt_append)
  then have "ledger_ok fs (flushInline l) (counts @ [al_receivedBytes l])"
    using assms False by (auto simp: ledger_ok_def ledger_defs Let_def intro: exI [of _ "length fs"])
  then show ?thesis using False by (auto simp: ledger_defs Let_def)
qed

lemma ledger_ok_frame:
  assumes "ledger_ok fs l counts"
  shows "ledger_ok (fs @ [f]) (noteFrame f l) counts"
proof -
  have "\<forall>n \<in> set counts. \<exists>k. n = credit_total (take k (fs @ [f]))"
    using assms credit_take [of _ fs "[f]"] by (metis ledger_ok_def)
  then show ?thesis using assms
    by (auto simp: ledger_ok_def noteFrame_def credit_total_def credit_bytes_def)
qed

lemma ledger_ok_batch: "ledger_ok fs l counts \<Longrightarrow> \<exists>more. ledger_ok fs (afterBatch threshold l) (counts @ more)"
  using ledger_ok_flush [of fs l counts]
  by (auto simp: afterBatch_def Let_def) (auto simp: ledger_ok_def intro: exI [of _ "[]"])

lemma ledger_ok_tail: "ledger_ok fs l counts \<Longrightarrow> \<exists>more. ledger_ok fs (tail_fired l) (counts @ more) \<and> al_acknowledged (tail_fired l) = al_receivedBytes l"
  using ledger_ok_flush [of fs "l\<lparr>al_tailTimer := False\<rparr>" counts] by (auto simp: tail_fired_def ledger_ok_def)

lemma ledger_run_ok: "ledger_run threshold fs l \<Longrightarrow> \<exists>counts. ledger_ok fs l counts"
proof (induction rule: ledger_run.induct)
  case lr_start
  show ?case by (rule exI [of _ "[]"]) (simp add: ledger_ok_def createAckLedger_def credit_total_def)
next
  case (lr_frame fs l f)
  then show ?case using ledger_ok_frame by blast
next
  case (lr_batch fs l)
  then show ?case using ledger_ok_batch by metis
next
  case (lr_tail fs l)
  then show ?case using ledger_ok_tail by metis
qed

lemma batch_settles:
  assumes "\<not> al_disposed l" "al_acknowledged l \<le> al_receivedBytes l"
  shows "al_receivedBytes (afterBatch threshold l) = al_acknowledged (afterBatch threshold l) \<or> al_tailTimer (afterBatch threshold l)"
  using assms by (auto simp: afterBatch_def flushInline_def cancelTail_def Let_def)

text \<open>
  What the client acknowledges: in every run of the ledger after a handshake the payloads sent are
  the eight-byte encodings of strictly increasing positive counts, each the total of the
  nonzero-stream bytes of a prefix of the received frames, headers included and stream zero left
  out. No credit is stranded: after every batch all bytes are acknowledged or the tail timer is
  armed, and when the timer fires everything received is acknowledged.
\<close>

theorem acknowledgements_cover_whole_frames:
  assumes "ledger_run threshold fs l"
  shows "(\<exists>counts. al_acks l = map (\<lambda>n. u8WriteBigUInt64BE (int n)) counts \<and> sorted_wrt (<) (0 # counts) \<and>
      (\<forall>n \<in> set counts. \<exists>k. n = credit_total (take k fs))) \<and>
    (al_receivedBytes (afterBatch threshold l) = al_acknowledged (afterBatch threshold l) \<or> al_tailTimer (afterBatch threshold l)) \<and>
    al_acknowledged (tail_fired l) = credit_total fs"
proof -
  obtain counts where ok: "ledger_ok fs l counts" using ledger_run_ok [OF assms] by blast
  then have "al_receivedBytes (afterBatch threshold l) = al_acknowledged (afterBatch threshold l) \<or> al_tailTimer (afterBatch threshold l)"
    by (intro batch_settles) (simp_all add: ledger_ok_def)
  moreover have "al_acknowledged (tail_fired l) = credit_total fs"
    using ledger_ok_tail [OF ok] ok by (auto simp: ledger_ok_def)
  ultimately show ?thesis using ok unfolding ledger_ok_def by blast
qed

theorem acknowledgements_cover_whole_frames_witness:
  "al_acknowledged (tail_fired (noteFrame \<lparr>tf_type = 2, tf_streamId = 1, tf_hasMore = False, tf_payload = [65, 66]\<rparr> createAckLedger)) = 7"
proof -
  let ?f = "\<lparr>tf_type = 2, tf_streamId = 1, tf_hasMore = False, tf_payload = [65, 66]\<rparr>"
  have "ledger_run 16384 ([] @ [?f]) (noteFrame ?f createAckLedger)" by (intro lr_frame lr_start)
  from acknowledgements_cover_whole_frames [OF this] show ?thesis
    by (simp add: credit_total_def credit_bytes_def TUNNEL_FRAME_HEADER_BYTES_def)
qed

end
