(* ===== verification/Relay_Credit.thy ===== *)
theory Relay_Credit
  imports Relay_Client
begin

text \<open>
  The downstream scheduler of the relay (\<open>lib/relay/downstream.ts\<close>): per-stream queues, the
  round-robin pump under a credit window, cumulative acknowledgements and the adaptive window,
  and its composition with the client's ledger (\<open>Relay_Client\<close>). Promises of \<open>send\<close> are tickets
  whose settlements are logged, the callbacks \<open>emit\<close>, \<open>streamZeroEmit\<close> and \<open>onError\<close> append to
  logs, the first two unless they throw. The clock does not move during one synchronous run.
  Lemmas: the queue of every stream is a first-in first-out channel that \<open>sendNow\<close> bypasses, the pump ends and is exhaustive, credit
  stays within its bounds, and a client that keeps the ledger is never failed.
\<close>

section \<open>The scheduler\<close>

definition STREAM_ZERO :: int where "STREAM_ZERO = 0"
definition INITIAL_WINDOW_BYTES :: int where "INITIAL_WINDOW_BYTES = 64 * 1024"
definition MAX_WINDOW_BYTES :: int where "MAX_WINDOW_BYTES = 1024 * 1024"
definition MAX_QUEUE_BYTES :: int where "MAX_QUEUE_BYTES = 4 * 1024 * 1024"
definition MAX_QUEUE_FRAMES :: int where "MAX_QUEUE_FRAMES = 4096"
definition MAX_OUTSTANDING_FRAMES :: nat where "MAX_OUTSTANDING_FRAMES = 4096"
definition QUEUE_DELAY_TARGET_MS :: int where "QUEUE_DELAY_TARGET_MS = 100"
definition WINDOW_GROW_RTT_SLACK_MS :: int where "WINDOW_GROW_RTT_SLACK_MS = 50"

datatype SchedulerError =
    SchedulerClosed | QueueCapExceeded | AckTooShort | AckRegression | AckBeyondSent | AckOffBoundary
  | StreamCancelled | SchedulerDisposed | ZeroSendFailed | OutstandingCapExceeded | SendFailed

record QueuedEntry =
  qe_bytes :: bytes
  qe_ticket :: nat

record OutstandingFrame =
  of_streamId :: int
  of_bytes :: nat
  of_sentAt :: int

text \<open>A ticket is settled with \<open>None\<close> when its promise resolves; \<open>ds_minRttMs\<close> is \<open>None\<close> for infinity.\<close>

record DownstreamScheduler =
  ds_queues :: "(int \<times> QueuedEntry list) list"
  ds_outstanding :: "OutstandingFrame list"
  ds_windowBytes :: int
  ds_queuedBytes :: int
  ds_queuedFrames :: int
  ds_ackedBytes :: int
  ds_outstandingBytes :: int
  ds_minRttMs :: "int option"
  ds_adjustCheckpointBytes :: int
  ds_windowLimitedSinceAdjust :: bool
  ds_closed :: bool
  ds_pumpScheduled :: bool
  ds_tickets :: nat
  ds_settled :: "(nat \<times> SchedulerError option) list"
  ds_emitted :: "(int \<times> bytes) list"
  ds_zeroEmitted :: "bytes list"
  ds_errors :: "SchedulerError list"

definition createDownstreamScheduler :: DownstreamScheduler where
  "createDownstreamScheduler = \<lparr>ds_queues = [], ds_outstanding = [], ds_windowBytes = INITIAL_WINDOW_BYTES,
     ds_queuedBytes = 0, ds_queuedFrames = 0, ds_ackedBytes = 0, ds_outstandingBytes = 0, ds_minRttMs = None,
     ds_adjustCheckpointBytes = 0, ds_windowLimitedSinceAdjust = False, ds_closed = False, ds_pumpScheduled = False,
     ds_tickets = 0, ds_settled = [], ds_emitted = [], ds_zeroEmitted = [], ds_errors = []\<rparr>"

definition settle_entry :: "QueuedEntry \<Rightarrow> SchedulerError option \<Rightarrow> DownstreamScheduler \<Rightarrow> DownstreamScheduler" where
  "settle_entry entry outcome s = s\<lparr>ds_settled := ds_settled s @ [(qe_ticket entry, outcome)]\<rparr>"

definition reject_all :: "SchedulerError \<Rightarrow> DownstreamScheduler \<Rightarrow> DownstreamScheduler" where
  "reject_all e s = s\<lparr>ds_settled := ds_settled s @ map (\<lambda>entry. (qe_ticket entry, Some e)) (concat (map snd (ds_queues s))),
     ds_queues := [], ds_queuedBytes := 0, ds_queuedFrames := 0\<rparr>"

definition failChannel :: "SchedulerError \<Rightarrow> DownstreamScheduler \<Rightarrow> DownstreamScheduler" where
  "failChannel e s =
     (if ds_closed s then s
      else (reject_all e (s\<lparr>ds_closed := True\<rparr>))\<lparr>ds_errors := ds_errors s @ [e]\<rparr>)"

definition schedulePump :: "DownstreamScheduler \<Rightarrow> DownstreamScheduler" where
  "schedulePump s = (if ds_pumpScheduled s \<or> ds_closed s then s else s\<lparr>ds_pumpScheduled := True\<rparr>)"

definition stream_queue :: "int \<Rightarrow> DownstreamScheduler \<Rightarrow> QueuedEntry list" where
  "stream_queue k s = (case map_of (ds_queues s) k of Some q \<Rightarrow> q | None \<Rightarrow> [])"

definition downstream_send :: "TunnelFrame \<Rightarrow> DownstreamScheduler \<Rightarrow> (SchedulerError + nat) \<times> DownstreamScheduler" where
  "downstream_send frame s =
     (let bs = encodeTunnelFrame frame
      in if ds_closed s then (Inl SchedulerClosed, s)
         else if ds_queuedFrames s + 1 > MAX_QUEUE_FRAMES \<or> ds_queuedBytes s + int (length bs) > MAX_QUEUE_BYTES
         then (Inl QueueCapExceeded, failChannel QueueCapExceeded s)
         else
           (Inr (ds_tickets s),
            schedulePump (s\<lparr>ds_queuedBytes := ds_queuedBytes s + int (length bs), ds_queuedFrames := ds_queuedFrames s + 1,
              ds_tickets := ds_tickets s + 1,
              ds_queues := AList.update (tf_streamId frame)
                (stream_queue (tf_streamId frame) s @ [\<lparr>qe_bytes = bs, qe_ticket = ds_tickets s\<rparr>]) (ds_queues s)\<rparr>)))"

text \<open>The callback of \<open>sendNow\<close> is taken not to throw.\<close>

definition sendNow :: "int \<Rightarrow> TunnelFrame \<Rightarrow> DownstreamScheduler \<Rightarrow> DownstreamScheduler" where
  "sendNow now frame s =
     (let bs = encodeTunnelFrame frame
      in if ds_closed s then s
         else if tf_streamId frame \<noteq> STREAM_ZERO
         then s\<lparr>ds_outstanding := ds_outstanding s @ [\<lparr>of_streamId = tf_streamId frame, of_bytes = length bs, of_sentAt = now\<rparr>],
                ds_outstandingBytes := ds_outstandingBytes s + int (length bs),
                ds_emitted := ds_emitted s @ [(tf_streamId frame, bs)]\<rparr>
         else s\<lparr>ds_zeroEmitted := ds_zeroEmitted s @ [bs]\<rparr>)"

section \<open>Acknowledgements\<close>

text \<open>The loop over outstanding frames: what is left to consume, and whether a boundary was missed.\<close>

fun consume :: "int \<Rightarrow> OutstandingFrame list \<Rightarrow> int \<times> OutstandingFrame list \<times> bool" where
  "consume left [] = (left, [], left \<noteq> 0)"
| "consume left (f # fs) =
     (if left \<le> 0 then (left, f # fs, left \<noteq> 0)
      else if int (of_bytes f) > left then (left, f # fs, True)
      else consume (left - int (of_bytes f)) fs)"

definition onAckTelemetry :: "int \<Rightarrow> int option \<Rightarrow> DownstreamScheduler \<Rightarrow> DownstreamScheduler" where
  "onAckTelemetry now oldestSentAt s0 =
     (case oldestSentAt of
        None \<Rightarrow> s0
      | Some sentAt \<Rightarrow>
          (let delay = max 0 (now - sentAt);
               minRtt = (case ds_minRttMs s0 of None \<Rightarrow> delay | Some r \<Rightarrow> min r delay);
               s = s0\<lparr>ds_minRttMs := Some minRtt\<rparr>
           in if ds_ackedBytes s < ds_adjustCheckpointBytes s then s
              else
                (let window =
                       (if ds_windowLimitedSinceAdjust s \<and> delay \<le> minRtt + WINDOW_GROW_RTT_SLACK_MS
                        then min MAX_WINDOW_BYTES (ds_windowBytes s * 2)
                        else if delay > minRtt + QUEUE_DELAY_TARGET_MS then max INITIAL_WINDOW_BYTES (ds_windowBytes s div 2)
                        else ds_windowBytes s)
                 in s\<lparr>ds_windowBytes := window, ds_adjustCheckpointBytes := ds_ackedBytes s + window,
                      ds_windowLimitedSinceAdjust := False\<rparr>)))"

definition ack_count :: "bytes \<Rightarrow> int" where
  "ack_count payload = uint (readBigUInt64BE payload)"

text \<open>
  \<open>Number\<close> of a 64-bit value is safe exactly when the value is at most \<open>2\<^sup>5\<^sup>3 - 1\<close>. The frames consumed
  before a missed boundary stay consumed.
\<close>

definition onAck :: "int \<Rightarrow> bytes \<Rightarrow> DownstreamScheduler \<Rightarrow> DownstreamScheduler" where
  "onAck now payload s =
     (if length payload < 8 then failChannel AckTooShort s
      else
        (let count = ack_count payload
         in if count > 2 ^ 53 - 1 \<or> count \<le> ds_ackedBytes s then failChannel AckRegression s
            else if count > ds_ackedBytes s + ds_outstandingBytes s then failChannel AckBeyondSent s
            else
              (case consume (count - ds_ackedBytes s) (ds_outstanding s) of
                 (left, rest, missed) \<Rightarrow>
                   (let s1 = s\<lparr>ds_ackedBytes := count, ds_outstanding := rest,
                               ds_outstandingBytes := ds_outstandingBytes s - (count - ds_ackedBytes s - left)\<rparr>;
                        oldest = (if rest = ds_outstanding s then None else Some (of_sentAt (hd (ds_outstanding s))))
                    in if missed then failChannel AckOffBoundary s1
                       else schedulePump (onAckTelemetry now oldest s1)))))"

definition cancelStream :: "int \<Rightarrow> DownstreamScheduler \<Rightarrow> DownstreamScheduler" where
  "cancelStream k s =
     (case map_of (ds_queues s) k of
        None \<Rightarrow> s
      | Some q \<Rightarrow> s\<lparr>ds_settled := ds_settled s @ map (\<lambda>entry. (qe_ticket entry, Some StreamCancelled)) q,
                    ds_queuedBytes := ds_queuedBytes s - sum_list (map (\<lambda>entry. int (length (qe_bytes entry))) q),
                    ds_queuedFrames := ds_queuedFrames s - int (length q),
                    ds_queues := AList.delete k (ds_queues s)\<rparr>)"

definition downstream_dispose :: "DownstreamScheduler \<Rightarrow> DownstreamScheduler" where
  "downstream_dispose s = reject_all SchedulerDisposed (s\<lparr>ds_closed := True\<rparr>)"

section \<open>The pump\<close>

text \<open>The two emitting callbacks: whether they return without throwing.\<close>

record ports =
  po_emit :: "bytes \<Rightarrow> bool"
  po_zero :: "bytes \<Rightarrow> bool"

definition dispatch_entry :: "ports \<Rightarrow> int \<Rightarrow> int \<Rightarrow> QueuedEntry \<Rightarrow> DownstreamScheduler \<Rightarrow> DownstreamScheduler" where
  "dispatch_entry ports now k entry s0 =
     (let bs = qe_bytes entry;
          s = s0\<lparr>ds_queuedBytes := ds_queuedBytes s0 - int (length bs), ds_queuedFrames := ds_queuedFrames s0 - 1\<rparr>
      in if k = STREAM_ZERO then
           (if po_zero ports bs then settle_entry entry None (s\<lparr>ds_zeroEmitted := ds_zeroEmitted s @ [bs]\<rparr>)
            else failChannel ZeroSendFailed (settle_entry entry (Some ZeroSendFailed) s))
         else if length (ds_outstanding s) \<ge> MAX_OUTSTANDING_FRAMES
         then failChannel OutstandingCapExceeded (settle_entry entry (Some OutstandingCapExceeded) s)
         else
           (let s1 = s\<lparr>ds_outstanding := ds_outstanding s @ [\<lparr>of_streamId = k, of_bytes = length bs, of_sentAt = now\<rparr>],
                       ds_outstandingBytes := ds_outstandingBytes s + int (length bs)\<rparr>
            in if po_emit ports bs then settle_entry entry None (s1\<lparr>ds_emitted := ds_emitted s1 @ [(k, bs)]\<rparr>)
               else failChannel SendFailed (settle_entry entry (Some SendFailed) s1)))"

text \<open>\<open>queue.shift()\<close> on the array the map holds; no effect on a cleared map.\<close>

definition shift_queue :: "int \<Rightarrow> DownstreamScheduler \<Rightarrow> DownstreamScheduler" where
  "shift_queue k s = s\<lparr>ds_queues := AList.map_entry k tl (ds_queues s)\<rparr>"

text \<open>The loop over a snapshot of the entries, which goes on when the channel fails on the way.\<close>

fun pump_streams :: "ports \<Rightarrow> int \<Rightarrow> (int \<times> QueuedEntry list) list \<Rightarrow> bool \<Rightarrow> DownstreamScheduler \<Rightarrow> bool \<times> DownstreamScheduler" where
  "pump_streams ports now [] took s = (took, s)"
| "pump_streams ports now ((k, q) # snap) took s =
     (case q of
        [] \<Rightarrow> pump_streams ports now snap took (s\<lparr>ds_queues := AList.delete k (ds_queues s)\<rparr>)
      | entry # _ \<Rightarrow>
          if k = STREAM_ZERO then pump_streams ports now snap took s
          else if ds_outstandingBytes s + int (length (qe_bytes entry)) > ds_windowBytes s
          then pump_streams ports now snap took (s\<lparr>ds_windowLimitedSinceAdjust := True\<rparr>)
          else pump_streams ports now snap True (dispatch_entry ports now k entry (shift_queue k s)))"

definition pumpRound :: "ports \<Rightarrow> int \<Rightarrow> DownstreamScheduler \<Rightarrow> bool \<times> DownstreamScheduler" where
  "pumpRound ports now s =
     (case stream_queue STREAM_ZERO s of
        [] \<Rightarrow> pump_streams ports now (ds_queues s) False s
      | entry # _ \<Rightarrow>
          (let s1 = dispatch_entry ports now STREAM_ZERO entry (shift_queue STREAM_ZERO s)
           in pump_streams ports now (ds_queues s1) True s1))"

partial_function (option) pump_rounds :: "ports \<Rightarrow> int \<Rightarrow> DownstreamScheduler \<Rightarrow> DownstreamScheduler option" where
  "pump_rounds ports now s =
     (if fst (pumpRound ports now s) then pump_rounds ports now (snd (pumpRound ports now s))
      else Some (snd (pumpRound ports now s)))"

declare pump_rounds.simps [code]

definition downstream_pump :: "ports \<Rightarrow> int \<Rightarrow> DownstreamScheduler \<Rightarrow> DownstreamScheduler option" where
  "downstream_pump ports now s0 =
     (let s = s0\<lparr>ds_pumpScheduled := False\<rparr> in if ds_closed s then Some s else pump_rounds ports now s)"

section \<open>Rounds of the pump\<close>

lemmas dispatch_defs = dispatch_entry_def settle_entry_def failChannel_def reject_all_def shift_queue_def STREAM_ZERO_def

text \<open>A scheduler in the middle of a round: cleared, or with the visited entries before the snapshot's.\<close>

definition mid_round :: "(int \<times> QueuedEntry list) list \<Rightarrow> (int \<times> QueuedEntry list) list \<Rightarrow> DownstreamScheduler \<Rightarrow> bool" where
  "mid_round visited snap s \<longleftrightarrow> (if ds_closed s then ds_queues s = [] else ds_queues s = visited @ snap)"

definition queues_ok :: "DownstreamScheduler \<Rightarrow> bool" where
  "queues_ok s \<longleftrightarrow> distinct (map fst (ds_queues s)) \<and> (ds_closed s \<longrightarrow> ds_queues s = [])"

lemma dispatch_queues:
  "ds_closed (dispatch_entry po now k e s) = ds_closed s \<and> ds_queues (dispatch_entry po now k e s) = ds_queues s \<or>
   ds_closed (dispatch_entry po now k e s) \<and> ds_queues (dispatch_entry po now k e s) = []"
  by (auto simp: dispatch_defs Let_def)

lemma map_entry_split: "k \<notin> fst ` set xs \<Longrightarrow> AList.map_entry k f (xs @ (k, q) # ys) = xs @ (k, f q) # ys"
  by (induction xs) auto

lemma delete_split: "distinct (map fst (xs @ (k, q) # ys)) \<Longrightarrow> AList.delete k (xs @ (k, q) # ys) = xs @ ys"
  by (induction xs) (auto simp: AList.delete_id)

lemma mid_delete:
  assumes "mid_round visited ((k, q) # snap) s" "distinct (map fst (visited @ (k, q) # snap))"
  shows "mid_round visited snap (s\<lparr>ds_queues := AList.delete k (ds_queues s)\<rparr>)"
  using assms delete_split [OF assms(2)] by (auto simp: mid_round_def split: if_splits)

lemma mid_skip: "mid_round visited ((k, q) # snap) s \<Longrightarrow> mid_round (visited @ [(k, q)]) snap s"
  by (simp add: mid_round_def)

lemma mid_limited: "mid_round visited snap (s\<lparr>ds_windowLimitedSinceAdjust := b\<rparr>) = mid_round visited snap s"
  by (simp add: mid_round_def)

lemma mid_shift:
  assumes "mid_round visited ((k, q) # snap) s" "distinct (map fst (visited @ (k, q) # snap))"
  shows "mid_round (visited @ [(k, tl q)]) snap (dispatch_entry po now k e (shift_queue k s))"
  using dispatch_queues [of po now k e "shift_queue k s"] assms map_entry_split [of k visited tl q snap]
  by (auto simp: mid_round_def shift_queue_def split: if_splits)

text \<open>
  Invariants of a round: what every visit keeps holds at its end. A visit deletes an empty entry,
  passes over stream zero, passes over a head that does not fit, or takes a head.
\<close>

lemma pump_streams_inv:
  assumes "I visited snap took s" "mid_round visited snap s" "distinct (map fst (visited @ snap))"
    and empty: "\<And>v k sn t s. I v ((k, []) # sn) t s \<Longrightarrow> mid_round v ((k, []) # sn) s \<Longrightarrow> distinct (map fst (v @ (k, []) # sn)) \<Longrightarrow>
      I v sn t (s\<lparr>ds_queues := AList.delete k (ds_queues s)\<rparr>)"
    and zero: "\<And>v e q sn t s. I v ((0, e # q) # sn) t s \<Longrightarrow> mid_round v ((0, e # q) # sn) s \<Longrightarrow> I (v @ [(0, e # q)]) sn t s"
    and full: "\<And>v k e q sn t s. I v ((k, e # q) # sn) t s \<Longrightarrow> mid_round v ((k, e # q) # sn) s \<Longrightarrow> k \<noteq> 0 \<Longrightarrow>
      ds_outstandingBytes s + int (length (qe_bytes e)) > ds_windowBytes s \<Longrightarrow>
      I (v @ [(k, e # q)]) sn t (s\<lparr>ds_windowLimitedSinceAdjust := True\<rparr>)"
    and fits: "\<And>v k e q sn t s. I v ((k, e # q) # sn) t s \<Longrightarrow> mid_round v ((k, e # q) # sn) s \<Longrightarrow>
      distinct (map fst (v @ (k, e # q) # sn)) \<Longrightarrow> k \<noteq> 0 \<Longrightarrow>
      ds_outstandingBytes s + int (length (qe_bytes e)) \<le> ds_windowBytes s \<Longrightarrow>
      I (v @ [(k, q)]) sn True (dispatch_entry po now k e (shift_queue k s))"
  shows "\<exists>v. I v [] (fst (pump_streams po now snap took s)) (snd (pump_streams po now snap took s)) \<and>
    mid_round v [] (snd (pump_streams po now snap took s)) \<and> distinct (map fst v)"
  using assms(1-3)
proof (induction snap arbitrary: visited took s)
  case (Cons kq snap)
  obtain k q where kq: "kq = (k, q)" by (cases kq)
  show ?case
  proof (cases q)
    case Nil
    then show ?thesis
      using Cons.IH [OF empty mid_delete, of visited k took s "[]"] Cons.prems by (simp add: kq)
  next
    case (Cons e r)
    note IH = Cons.IH and prems = Cons.prems [unfolded kq Cons]
    consider (z) "k = 0" | (f) "k \<noteq> 0" "ds_outstandingBytes s + int (length (qe_bytes e)) > ds_windowBytes s"
      | (t) "k \<noteq> 0" "ds_outstandingBytes s + int (length (qe_bytes e)) \<le> ds_windowBytes s" by linarith
    then show ?thesis
    proof cases
      case z
      then show ?thesis using IH [OF zero mid_skip] prems by (simp add: kq Cons STREAM_ZERO_def)
    next
      case f
      then show ?thesis using IH [OF full [OF prems(1,2) f]] mid_skip [OF prems(2)] prems(3)
        by (simp add: kq Cons STREAM_ZERO_def mid_limited)
    next
      case t
      then show ?thesis using IH [OF fits [OF prems t]] mid_shift [OF prems(2,3), of po now e] prems(3)
        by (simp add: kq Cons STREAM_ZERO_def)
    qed
  qed
qed auto

section \<open>The pump ends\<close>

definition total_queued :: "DownstreamScheduler \<Rightarrow> nat" where
  "total_queued s = length (concat (map snd (ds_queues s)))"

lemma total_delete: "total_queued (s\<lparr>ds_queues := AList.delete k (ds_queues s)\<rparr>) \<le> total_queued s"
proof -
  have "length (concat (map snd (AList.delete k xs))) \<le> length (concat (map snd xs))" for xs :: "(int \<times> QueuedEntry list) list"
    by (induction xs) auto
  then show ?thesis by (simp add: total_queued_def)
qed

lemma total_shift: "total_queued (shift_queue k s) \<le> total_queued s"
  "map_of (ds_queues s) k = Some (e # r) \<Longrightarrow> total_queued (shift_queue k s) < total_queued s"
proof -
  have "length (concat (map snd (AList.map_entry k tl xs))) \<le> length (concat (map snd xs))"
    and "map_of xs k = Some (e # r) \<Longrightarrow> length (concat (map snd (AList.map_entry k tl xs))) < length (concat (map snd xs))"
    for xs :: "(int \<times> QueuedEntry list) list"
    by (induction xs) (auto split: if_splits)
  then show "total_queued (shift_queue k s) \<le> total_queued s"
    "map_of (ds_queues s) k = Some (e # r) \<Longrightarrow> total_queued (shift_queue k s) < total_queued s"
    by (simp_all add: total_queued_def shift_queue_def)
qed

lemma total_dispatch: "total_queued (dispatch_entry po now k e s) \<le> total_queued s"
  using dispatch_queues [of po now k e s] by (auto simp: total_queued_def)

lemma mid_lookup:
  "mid_round v ((k, q) # sn) s \<Longrightarrow> \<not> ds_closed s \<Longrightarrow> distinct (map fst (v @ (k, q) # sn)) \<Longrightarrow> map_of (ds_queues s) k = Some q"
  by (auto simp: mid_round_def map_add_Some_iff) force

lemma streams_total:
  assumes "mid_round [] (ds_queues s) s" "distinct (map fst (ds_queues s))" "took \<or> \<not> ds_closed s"
  shows "total_queued (snd (pump_streams po now (ds_queues s) took s)) +
      (if fst (pump_streams po now (ds_queues s) took s) \<and> \<not> took then 1 else 0) \<le> total_queued s \<and>
    queues_ok (snd (pump_streams po now (ds_queues s) took s))"
proof -
  let ?I = "\<lambda>v sn t s'. total_queued s' + (if t \<and> \<not> took then 1 else 0) \<le> total_queued s \<and> (t \<or> \<not> ds_closed s')"
  have "\<exists>v. ?I v [] (fst (pump_streams po now (ds_queues s) took s)) (snd (pump_streams po now (ds_queues s) took s)) \<and>
    mid_round v [] (snd (pump_streams po now (ds_queues s) took s)) \<and> distinct (map fst v)"
  proof (rule pump_streams_inv [where I = ?I and visited = "[]"])
    fix v k sn t s'
    assume "?I v ((k, []) # sn) t s'"
    then show "?I v sn t (s'\<lparr>ds_queues := AList.delete k (ds_queues s')\<rparr>)" using total_delete [of k s'] by (auto split: if_splits)
  next
    fix v k e q sn t s'
    assume I: "?I v ((k, e # q) # sn) t s'" and m: "mid_round v ((k, e # q) # sn) s'" "distinct (map fst (v @ (k, e # q) # sn))"
    note le = order_trans [OF total_dispatch [of po now k e "shift_queue k s'"]]
    show "?I (v @ [(k, q)]) sn True (dispatch_entry po now k e (shift_queue k s'))"
    proof (cases "ds_closed s'")
      case True
      then show ?thesis using I le [OF total_shift(1)] by (auto split: if_splits)
    next
      case False
      then show ?thesis using I total_shift(2) [OF mid_lookup [OF m(1) False m(2)]] total_dispatch [of po now k e "shift_queue k s'"]
        by (auto split: if_splits)
    qed
  qed (use assms in \<open>auto simp: total_queued_def split: if_splits\<close>)
  then show ?thesis by (auto simp: mid_round_def queues_ok_def split: if_splits)
qed

lemma queues_ok_dispatch: "queues_ok s \<Longrightarrow> queues_ok (dispatch_entry po now k e (shift_queue k s))"
  using dispatch_queues [of po now k e "shift_queue k s"] distinct_map_entry [of "ds_queues s" k tl]
  by (auto simp: queues_ok_def shift_queue_def)

lemma round_total:
  assumes "queues_ok s" "\<not> ds_closed s"
  shows "queues_ok (snd (pumpRound po now s))" "fst (pumpRound po now s) \<Longrightarrow> total_queued (snd (pumpRound po now s)) < total_queued s"
proof -
  have "queues_ok (snd (pumpRound po now s)) \<and> (fst (pumpRound po now s) \<longrightarrow> total_queued (snd (pumpRound po now s)) < total_queued s)"
  proof (cases "stream_queue STREAM_ZERO s")
    case Nil
    then show ?thesis using streams_total [of s False po now] assms
      by (auto simp: pumpRound_def mid_round_def queues_ok_def)
  next
    case (Cons e r)
    define s1 where "s1 = dispatch_entry po now STREAM_ZERO e (shift_queue STREAM_ZERO s)"
    have "map_of (ds_queues s) STREAM_ZERO = Some (e # r)" using Cons by (simp add: stream_queue_def split: option.splits)
    then have "total_queued s1 < total_queued s"
      using total_shift(2) total_dispatch [of po now STREAM_ZERO e "shift_queue STREAM_ZERO s"] unfolding s1_def by force
    moreover have "queues_ok s1" unfolding s1_def by (rule queues_ok_dispatch [OF assms(1)])
    ultimately show ?thesis using streams_total [of s1 True po now] Cons
      by (auto simp: pumpRound_def mid_round_def queues_ok_def Let_def simp flip: s1_def)
  qed
  then show "queues_ok (snd (pumpRound po now s))" "fst (pumpRound po now s) \<Longrightarrow> total_queued (snd (pumpRound po now s)) < total_queued s"
    by auto
qed

text \<open>A closed scheduler has nothing to pump.\<close>

lemma round_closed: "ds_queues s = [] \<Longrightarrow> pumpRound po now s = (False, s)"
  by (simp add: pumpRound_def stream_queue_def)

text \<open>Induction over the rounds of a pump.\<close>

lemma pump_rounds_inv:
  assumes "queues_ok s" "I s" and step: "\<And>s. I s \<Longrightarrow> queues_ok s \<Longrightarrow> \<not> ds_closed s \<Longrightarrow> I (snd (pumpRound po now s))"
  shows "\<exists>s0 s'. pump_rounds po now s = Some s' \<and> I s' \<and> queues_ok s' \<and> queues_ok s0 \<and> pumpRound po now s0 = (False, s')"
  using assms(1,2)
proof (induction "total_queued s" arbitrary: s rule: less_induct)
  case less
  show ?case
  proof (cases "ds_closed s")
    case True
    then have "pumpRound po now s = (False, s)" using less.prems(1) by (intro round_closed) (simp add: queues_ok_def)
    moreover from this have "pump_rounds po now s = Some s" by (subst pump_rounds.simps) simp
    ultimately show ?thesis using less.prems by auto
  next
    case False
    note r = round_total [OF less.prems(1) False, of po now] step [OF less.prems(2,1) False]
    show ?thesis
    proof (cases "fst (pumpRound po now s)")
      case True
      then show ?thesis using less.hyps [OF r(2) r(1) r(3)] by (subst pump_rounds.simps) simp
    next
      case idle: False
      then show ?thesis using r less.prems by (subst pump_rounds.simps) (auto intro!: exI [of _ s] simp: prod_eq_iff)
    qed
  qed
qed

section \<open>What the pump does to a stream\<close>

definition emitted_of :: "int \<Rightarrow> DownstreamScheduler \<Rightarrow> bytes list" where
  "emitted_of k s = map snd (filter (\<lambda>(i, _). i = k) (ds_emitted s))"

definition queued_of :: "int \<Rightarrow> DownstreamScheduler \<Rightarrow> bytes list" where
  "queued_of k s = map qe_bytes (stream_queue k s)"

lemma dispatch_nonzero:
  assumes "k \<noteq> 0" "d = dispatch_entry po now k e s"
  obtains
    (sent) "ds_emitted d = ds_emitted s @ [(k, qe_bytes e)]" "ds_closed d = ds_closed s" "ds_queues d = ds_queues s"
      "ds_outstanding d = ds_outstanding s @ [\<lparr>of_streamId = k, of_bytes = length (qe_bytes e), of_sentAt = now\<rparr>]"
      "ds_outstandingBytes d = ds_outstandingBytes s + int (length (qe_bytes e))" "ds_errors d = ds_errors s"
      "ds_queuedBytes d = ds_queuedBytes s - int (length (qe_bytes e))" "ds_queuedFrames d = ds_queuedFrames s - 1"
  | (failed) "ds_emitted d = ds_emitted s" "ds_closed d" "ds_queues d = (if ds_closed s then ds_queues s else [])"
      "ds_outstanding d = ds_outstanding s \<and> ds_outstandingBytes d = ds_outstandingBytes s \<or>
       ds_outstanding d = ds_outstanding s @ [\<lparr>of_streamId = k, of_bytes = length (qe_bytes e), of_sentAt = now\<rparr>] \<and>
       ds_outstandingBytes d = ds_outstandingBytes s + int (length (qe_bytes e))"
      "set (ds_errors d) \<subseteq> {OutstandingCapExceeded, SendFailed} \<union> set (ds_errors s)"
proof (cases "length (ds_outstanding s) < MAX_OUTSTANDING_FRAMES \<and> po_emit po (qe_bytes e)")
  case True
  then show thesis using assms by (intro sent) (auto simp: dispatch_defs Let_def)
next
  case False
  then show thesis using assms by (intro failed) (auto simp: dispatch_defs Let_def)
qed

lemma dispatch_zero:
  assumes "d = dispatch_entry po now 0 e s"
  shows "ds_emitted d = ds_emitted s" "ds_outstanding d = ds_outstanding s" "ds_outstandingBytes d = ds_outstandingBytes s"
    "set (ds_errors d) \<subseteq> insert ZeroSendFailed (set (ds_errors s))"
    "ds_closed d \<longrightarrow> \<not> ds_closed s \<longrightarrow> ds_queues d = []"
    "\<not> ds_closed d \<Longrightarrow> ds_queuedBytes d = ds_queuedBytes s - int (length (qe_bytes e)) \<and> ds_queuedFrames d = ds_queuedFrames s - 1 \<and>
      ds_queues d = ds_queues s"
  unfolding assms by (auto simp: dispatch_defs Let_def split: if_splits)

lemma dispatch_frame [simp]:
  "ds_windowBytes (dispatch_entry po now k e s) = ds_windowBytes s" "ds_ackedBytes (dispatch_entry po now k e s) = ds_ackedBytes s"
  by (simp_all add: dispatch_defs Let_def)

lemma shift_frame [simp]:
  "ds_windowBytes (shift_queue k s) = ds_windowBytes s" "ds_ackedBytes (shift_queue k s) = ds_ackedBytes s"
  "ds_emitted (shift_queue k s) = ds_emitted s" "ds_closed (shift_queue k s) = ds_closed s" "ds_errors (shift_queue k s) = ds_errors s"
  "ds_outstanding (shift_queue k s) = ds_outstanding s" "ds_outstandingBytes (shift_queue k s) = ds_outstandingBytes s"
  "ds_queuedBytes (shift_queue k s) = ds_queuedBytes s" "ds_queuedFrames (shift_queue k s) = ds_queuedFrames s"
  "stream_queue i (shift_queue k s) = (if i = k then tl (stream_queue i s) else stream_queue i s)"
  by (auto simp: shift_queue_def stream_queue_def map_of_map_entry split: option.splits)

text \<open>From one state to a later one, a stream emits a prefix of its queue; the rest waits, or is gone when the channel closed.\<close>

definition delivers :: "int \<Rightarrow> DownstreamScheduler \<Rightarrow> DownstreamScheduler \<Rightarrow> bytes list \<Rightarrow> bool" where
  "delivers k s s' rest \<longleftrightarrow> (\<exists>pre. queued_of k s = pre @ rest \<and> emitted_of k s' = emitted_of k s @ pre) \<and>
     queued_of k s' = (if ds_closed s' then [] else rest)"

lemma delivers_trans:
  assumes "delivers k s s1 r1" "delivers k s1 s2 r2" "ds_closed s1 \<longrightarrow> ds_closed s2"
  shows "\<exists>r. delivers k s s2 r"
proof (cases "ds_closed s1")
  case True
  then show ?thesis using assms by (auto simp: delivers_def)
next
  case False
  then show ?thesis using assms by (intro exI [of _ r2]) (auto simp: delivers_def)
qed

lemma fits_delivers:
  assumes I: "delivers k s s' rest" "\<forall>q. (k, q) \<in> set ((i, e # r) # sn) \<longrightarrow> map qe_bytes q = rest"
    and m: "mid_round v ((i, e # r) # sn) s'" "distinct (map fst (v @ (i, e # r) # sn))" and i: "i \<noteq> 0"
  shows "\<exists>rest. delivers k s (dispatch_entry po now i e (shift_queue i s')) rest \<and> (\<forall>q. (k, q) \<in> set sn \<longrightarrow> map qe_bytes q = rest)"
proof -
  define d where "d = dispatch_entry po now i e (shift_queue i s')"
  have q0: "queued_of k s' = (if ds_closed s' then [] else rest)" using I(1) by (simp add: delivers_def)
  let ?goal = "\<exists>rest. delivers k s d rest \<and> (\<forall>q. (k, q) \<in> set sn \<longrightarrow> map qe_bytes q = rest)"
  have ?goal
  proof (rule dispatch_nonzero [OF i d_def])
    assume d: "ds_emitted d = ds_emitted (shift_queue i s') @ [(i, qe_bytes e)]" "ds_closed d = ds_closed (shift_queue i s')"
      "ds_queues d = ds_queues (shift_queue i s')"
    then have q: "stream_queue k d = (if k = i then tl (stream_queue k s') else stream_queue k s')"
      using shift_frame(10) [of k i s'] by (simp add: stream_queue_def)
    show ?goal
    proof (cases "k = i")
      case True
      then have rest: "rest = qe_bytes e # map qe_bytes r" using I(2) by auto
      have "queued_of k d = (if ds_closed d then [] else map qe_bytes r)"
        using q True d(2) q0 rest by (cases "stream_queue k s'") (auto simp: queued_of_def)
      moreover have "(k, q) \<notin> set sn" for q using m(2) True by force
      ultimately show ?goal using I(1) rest d(1) True
        by (intro exI [of _ "map qe_bytes r"]) (auto simp: delivers_def emitted_of_def)
    next
      case False
      then show ?goal using I q d(1,2) q0 by (intro exI [of _ rest]) (auto simp: delivers_def emitted_of_def queued_of_def)
    qed
  next
    assume d: "ds_emitted d = ds_emitted (shift_queue i s')" "ds_closed d"
      "ds_queues d = (if ds_closed (shift_queue i s') then ds_queues (shift_queue i s') else [])"
    have "ds_queues d = []" using d(3) m(1) by (auto simp: mid_round_def shift_queue_def)
    then have "queued_of k d = []" by (simp add: queued_of_def stream_queue_def)
    then show ?goal using I d(1,2) by (intro exI [of _ rest]) (auto simp: delivers_def emitted_of_def)
  qed
  then show ?thesis by (simp add: d_def)
qed

lemma streams_closed: "ds_closed s \<longrightarrow> ds_closed (snd (pump_streams po now snap took s))"
proof (induction snap arbitrary: took s)
  case (Cons kq snap)
  have "ds_closed s' \<longrightarrow> ds_closed (dispatch_entry po now k e (shift_queue k s'))" for k e s'
    using dispatch_queues [of po now k e "shift_queue k s'"] by auto
  then show ?case using Cons by (cases kq) (auto split: list.splits)
qed simp

lemma took_stays: "fst (pump_streams po now snap True s)"
  by (induction snap arbitrary: s) (auto split: list.splits)

lemma delivers_refl: "ds_closed s \<longrightarrow> ds_queues s = [] \<Longrightarrow> delivers k s s (queued_of k s)"
  by (auto simp: delivers_def queued_of_def stream_queue_def)

lemma queued_delete: "queued_of k (s\<lparr>ds_queues := AList.delete i (ds_queues s)\<rparr>) = (if k = i then [] else queued_of k s)"
  by (simp add: queued_of_def stream_queue_def delete_conv')

lemma streams_deliver:
  assumes ok: "queues_ok s"
  shows "\<exists>rest. delivers k s (snd (pump_streams po now (ds_queues s) took s)) rest"
proof -
  let ?I = "\<lambda>(v :: (int \<times> QueuedEntry list) list) (sn :: (int \<times> QueuedEntry list) list) (t :: bool) s'. \<exists>rest. delivers k s s' rest \<and> (\<forall>q. (k, q) \<in> set sn \<longrightarrow> map qe_bytes q = rest)"
  have "map qe_bytes q = queued_of k s" if "(k, q) \<in> set (ds_queues s)" for q
    using that ok by (simp add: queued_of_def stream_queue_def queues_ok_def)
  then have start: "?I [] (ds_queues s) took s" using ok delivers_refl [of s k] by (auto simp: queues_ok_def)
  have "\<exists>v. ?I v [] (fst (pump_streams po now (ds_queues s) took s)) (snd (pump_streams po now (ds_queues s) took s)) \<and>
    mid_round v [] (snd (pump_streams po now (ds_queues s) took s)) \<and> distinct (map fst v)"
  proof (rule pump_streams_inv [where I = ?I and visited = "[]"])
    fix v i sn t s'
    assume I: "?I v ((i, []) # sn) t s'" and m: "mid_round v ((i, []) # sn) s'"
    then obtain rest where r: "delivers k s s' rest" "\<forall>q. (k, q) \<in> set ((i, []) # sn) \<longrightarrow> map qe_bytes q = rest" by blast
    then have "delivers k s (s'\<lparr>ds_queues := AList.delete i (ds_queues s')\<rparr>) rest"
      by (auto simp: delivers_def emitted_of_def queued_delete)
    then show "?I v sn t (s'\<lparr>ds_queues := AList.delete i (ds_queues s')\<rparr>)" using r(2) by auto
  next
    fix v i e q sn t s'
    assume "?I v ((i, e # q) # sn) t s'" "mid_round v ((i, e # q) # sn) s'"
      "distinct (map fst (v @ (i, e # q) # sn))" "i \<noteq> 0"
    then show "?I (v @ [(i, q)]) sn True (dispatch_entry po now i e (shift_queue i s'))"
      using fits_delivers by blast
  next
    show "mid_round [] (ds_queues s) s" "distinct (map fst ([] @ ds_queues s))" using ok by (auto simp: mid_round_def queues_ok_def)
  qed (use start in \<open>auto simp: delivers_def emitted_of_def queued_of_def stream_queue_def\<close>)
  then show ?thesis by blast
qed

lemma round_deliver:
  assumes ok: "queues_ok s" "\<not> ds_closed s" and k: "k \<noteq> 0"
  shows "\<exists>rest. delivers k s (snd (pumpRound po now s)) rest"
proof (cases "stream_queue STREAM_ZERO s")
  case Nil
  then show ?thesis using streams_deliver [OF ok(1)] by (simp add: pumpRound_def)
next
  case (Cons e r)
  define s1 where "s1 = dispatch_entry po now STREAM_ZERO e (shift_queue STREAM_ZERO s)"
  have q1: "queues_ok s1" unfolding s1_def by (rule queues_ok_dispatch [OF ok(1)])
  have "delivers k s s1 (queued_of k s)"
    using dispatch_queues [of po now STREAM_ZERO e "shift_queue STREAM_ZERO s"] shift_frame(10) [of k STREAM_ZERO s] ok(2) k
    by (auto simp: delivers_def emitted_of_def queued_of_def stream_queue_def s1_def STREAM_ZERO_def
        dispatch_zero(1) [OF refl])
  then have "\<exists>rest. delivers k s (snd (pump_streams po now (ds_queues s1) True s1)) rest"
    using streams_deliver [OF q1] streams_closed delivers_trans by blast
  then show ?thesis using Cons by (simp add: pumpRound_def flip: s1_def)
qed

section \<open>The accounts of the scheduler\<close>

definition sent_sizes :: "DownstreamScheduler \<Rightarrow> nat list" where
  "sent_sizes s = map (\<lambda>(_, bs). length bs) (ds_emitted s)"

definition queued_size :: "DownstreamScheduler \<Rightarrow> nat" where
  "queued_size s = sum_list (map (length \<circ> qe_bytes) (concat (map snd (ds_queues s))))"

text \<open>
  The outstanding bytes are those of the outstanding frames and the window is within its limits.
  While the channel is open, the acknowledged bytes and the outstanding frames split what was
  emitted, and the queue counters are right and within the caps.
\<close>

definition credit_ok :: "DownstreamScheduler \<Rightarrow> bool" where
  "credit_ok s \<longleftrightarrow> ds_outstandingBytes s = int (sum_list (map of_bytes (ds_outstanding s))) \<and>
     INITIAL_WINDOW_BYTES \<le> ds_windowBytes s \<and> ds_windowBytes s \<le> MAX_WINDOW_BYTES \<and>
     (\<not> ds_closed s \<longrightarrow>
       (\<exists>n. ds_ackedBytes s = int (sum_list (take n (sent_sizes s))) \<and> map of_bytes (ds_outstanding s) = drop n (sent_sizes s)) \<and>
       ds_queuedFrames s = int (total_queued s) \<and> ds_queuedBytes s = int (queued_size s) \<and>
       ds_queuedFrames s \<le> MAX_QUEUE_FRAMES \<and> ds_queuedBytes s \<le> MAX_QUEUE_BYTES)"

text \<open>Every frame in the queue of a stream, or emitted for it, decodes to a frame of that stream.\<close>

definition good_bytes :: "int \<Rightarrow> bytes \<Rightarrow> bool" where
  "good_bytes k bs \<longleftrightarrow> (\<exists>f. decodeTunnelFrame bs = Inr f \<and> tf_streamId f = k)"

definition good_queues :: "(int \<times> QueuedEntry list) list \<Rightarrow> bool" where
  "good_queues qs \<longleftrightarrow> (\<forall>(k, q) \<in> set qs. \<forall>e \<in> set q. good_bytes k (qe_bytes e))"

definition wire_ok :: "DownstreamScheduler \<Rightarrow> bool" where
  "wire_ok s \<longleftrightarrow> good_queues (ds_queues s) \<and> (\<forall>(k, bs) \<in> set (ds_emitted s). k \<noteq> 0 \<and> good_bytes k bs)"

definition ack_errors :: "SchedulerError set" where
  "ack_errors = {AckTooShort, AckRegression, AckBeyondSent, AckOffBoundary}"

lemma split_extend:
  assumes "\<exists>n. a = int (sum_list (take n xs)) \<and> ys = drop n xs"
  shows "\<exists>n. a = int (sum_list (take n (xs @ [x]))) \<and> ys @ [x] = drop n (xs @ [x])"
proof -
  from assms obtain n where n: "a = int (sum_list (take n xs))" "ys = drop n xs" by blast
  then show ?thesis by (intro exI [of _ "min n (length xs)"]) (auto simp: min_def)
qed

lemma fits_credit:
  assumes ok: "credit_ok s" "wire_ok s" and m: "mid_round v ((k, e # q) # sn) s" "distinct (map fst (v @ (k, e # q) # sn))"
    and k: "k \<noteq> 0" and good: "good_bytes k (qe_bytes e)" and d: "d = dispatch_entry po now k e (shift_queue k s)"
  shows "credit_ok d \<and> wire_ok d"
proof (rule dispatch_nonzero [OF k d])
  assume s: "ds_emitted d = ds_emitted (shift_queue k s) @ [(k, qe_bytes e)]" "ds_closed d = ds_closed (shift_queue k s)"
    "ds_queues d = ds_queues (shift_queue k s)"
    "ds_outstanding d = ds_outstanding (shift_queue k s) @ [\<lparr>of_streamId = k, of_bytes = length (qe_bytes e), of_sentAt = now\<rparr>]"
    "ds_outstandingBytes d = ds_outstandingBytes (shift_queue k s) + int (length (qe_bytes e))"
    "ds_queuedBytes d = ds_queuedBytes (shift_queue k s) - int (length (qe_bytes e))" "ds_queuedFrames d = ds_queuedFrames (shift_queue k s) - 1"
  have wire: "wire_ok d"
    using ok(2) m(1) map_entry_split [of k v tl "e # q" sn] m(2) k good s(1,3)
    by (auto simp: wire_ok_def good_queues_def mid_round_def shift_queue_def split: if_splits)
  show ?thesis
  proof (cases "ds_closed s")
    case True
    then show ?thesis using ok(1) wire s d by (simp add: credit_ok_def)
  next
    case False
    then have q: "ds_queues s = v @ (k, e # q) # sn" "ds_queues d = v @ (k, q) # sn"
      using m map_entry_split [of k v tl "e # q" sn] s(3) by (auto simp: mid_round_def shift_queue_def)
    have "\<exists>n. ds_ackedBytes d = int (sum_list (take n (sent_sizes d))) \<and> map of_bytes (ds_outstanding d) = drop n (sent_sizes d)"
      using ok(1) False split_extend [of "ds_ackedBytes s" "sent_sizes s" "map of_bytes (ds_outstanding s)" "length (qe_bytes e)"] s(1,4) d
      by (simp add: credit_ok_def sent_sizes_def)
    moreover have "total_queued s = total_queued d + 1" "queued_size s = queued_size d + length (qe_bytes e)"
      by (simp_all add: total_queued_def queued_size_def q)
    ultimately show ?thesis using ok(1) False wire s(2,5-7) s(4) d by (simp add: credit_ok_def)
  qed
next
  assume s: "ds_emitted d = ds_emitted (shift_queue k s)" "ds_closed d"
    "ds_queues d = (if ds_closed (shift_queue k s) then ds_queues (shift_queue k s) else [])"
    "ds_outstanding d = ds_outstanding (shift_queue k s) \<and> ds_outstandingBytes d = ds_outstandingBytes (shift_queue k s) \<or>
     ds_outstanding d = ds_outstanding (shift_queue k s) @ [\<lparr>of_streamId = k, of_bytes = length (qe_bytes e), of_sentAt = now\<rparr>] \<and>
     ds_outstandingBytes d = ds_outstandingBytes (shift_queue k s) + int (length (qe_bytes e))"
  have "ds_queues d = []" using s(3) m(1) by (auto simp: mid_round_def shift_queue_def)
  then show ?thesis using ok s(1,2,4) d by (auto simp: credit_ok_def wire_ok_def good_queues_def)
qed

text \<open>What a round keeps, relative to the state it started from.\<close>

definition accounts_kept :: "DownstreamScheduler \<Rightarrow> DownstreamScheduler \<Rightarrow> bool" where
  "accounts_kept s s' \<longleftrightarrow> credit_ok s' \<and> wire_ok s' \<and> ds_windowBytes s' = ds_windowBytes s \<and> ds_ackedBytes s' = ds_ackedBytes s \<and>
     ds_outstandingBytes s' \<le> max (ds_outstandingBytes s) (ds_windowBytes s) \<and>
     set (ds_errors s') \<inter> ack_errors \<subseteq> set (ds_errors s) \<and> prefix (ds_emitted s) (ds_emitted s')"

lemma accounts_trans: "accounts_kept s s1 \<Longrightarrow> accounts_kept s1 s2 \<Longrightarrow> accounts_kept s s2"
  by (auto simp: accounts_kept_def intro: prefix_order.trans)

lemma accounts_refl: "credit_ok s \<Longrightarrow> wire_ok s \<Longrightarrow> accounts_kept s s"
  by (simp add: accounts_kept_def)

lemma fits_accounts:
  assumes "accounts_kept s s'" "mid_round v ((k, e # q) # sn) s'" "distinct (map fst (v @ (k, e # q) # sn))" "k \<noteq> 0"
    and fit: "ds_outstandingBytes s' + int (length (qe_bytes e)) \<le> ds_windowBytes s'" and "good_bytes k (qe_bytes e)"
  shows "accounts_kept s (dispatch_entry po now k e (shift_queue k s'))"
proof -
  define d where "d = dispatch_entry po now k e (shift_queue k s')"
  have "credit_ok d \<and> wire_ok d" using assms fits_credit [OF _ _ assms(2,3,4,6) d_def] by (simp add: accounts_kept_def)
  moreover have "ds_outstandingBytes d \<le> max (ds_outstandingBytes s) (ds_windowBytes s) \<and> set (ds_errors d) \<inter> ack_errors \<subseteq> set (ds_errors s) \<and>
      prefix (ds_emitted s) (ds_emitted d)"
    by (rule dispatch_nonzero [OF assms(4) d_def]) (use assms(1) fit in \<open>auto simp: accounts_kept_def ack_errors_def\<close>)
  ultimately show ?thesis using assms(1) by (simp add: accounts_kept_def d_def)
qed

lemma credit_queues:
  "concat (map snd qs) = concat (map snd (ds_queues s)) \<Longrightarrow> credit_ok (s\<lparr>ds_queues := qs\<rparr>) = credit_ok s"
  by (simp add: credit_ok_def sent_sizes_def total_queued_def queued_size_def)

lemma delete_accounts:
  assumes "accounts_kept s s'" "mid_round v ((k, []) # sn) s'" "distinct (map fst (v @ (k, []) # sn))"
  shows "accounts_kept s (s'\<lparr>ds_queues := AList.delete k (ds_queues s')\<rparr>)"
proof -
  have "concat (map snd (AList.delete k (ds_queues s'))) = concat (map snd (ds_queues s'))"
    using assms(2) delete_split [OF assms(3)] by (auto simp: mid_round_def split: if_splits)
  moreover have "good_queues (ds_queues s') \<Longrightarrow> good_queues (AList.delete k (ds_queues s'))"
    by (auto simp: delete_filter good_queues_def)
  ultimately show ?thesis using assms(1) by (simp add: accounts_kept_def wire_ok_def credit_queues)
qed

lemma limited_accounts: "accounts_kept s (s'\<lparr>ds_windowLimitedSinceAdjust := b\<rparr>) = accounts_kept s s'"
  by (simp add: accounts_kept_def credit_ok_def wire_ok_def sent_sizes_def total_queued_def queued_size_def)

lemma streams_accounts:
  assumes ok: "queues_ok s" "credit_ok s" "wire_ok s"
  shows "accounts_kept s (snd (pump_streams po now (ds_queues s) took s))"
proof -
  let ?I = "\<lambda>(v :: (int \<times> QueuedEntry list) list) sn (t :: bool) s'. accounts_kept s s' \<and> good_queues sn"
  have "\<exists>v. ?I v [] (fst (pump_streams po now (ds_queues s) took s)) (snd (pump_streams po now (ds_queues s) took s)) \<and>
    mid_round v [] (snd (pump_streams po now (ds_queues s) took s)) \<and> distinct (map fst v)"
  proof (rule pump_streams_inv [where I = ?I and visited = "[]"])
    fix v i sn t s'
    assume "?I v ((i, []) # sn) t s'" "mid_round v ((i, []) # sn) s'" "distinct (map fst (v @ (i, []) # sn))"
    then show "?I v sn t (s'\<lparr>ds_queues := AList.delete i (ds_queues s')\<rparr>)"
      using delete_accounts by (auto simp: good_queues_def)
  next
    fix v i e q sn t s'
    assume a: "?I v ((i, e # q) # sn) t s'" "mid_round v ((i, e # q) # sn) s'"
      "distinct (map fst (v @ (i, e # q) # sn))" "i \<noteq> 0" "ds_outstandingBytes s' + int (length (qe_bytes e)) \<le> ds_windowBytes s'"
    then have "good_bytes i (qe_bytes e)" by (simp add: good_queues_def)
    then show "?I (v @ [(i, q)]) sn True (dispatch_entry po now i e (shift_queue i s'))"
      using fits_accounts [OF _ a(2-5)] a(1) by (auto simp: good_queues_def)
  next
    show "mid_round [] (ds_queues s) s" "distinct (map fst ([] @ ds_queues s))" using ok by (auto simp: mid_round_def queues_ok_def)
    show "?I [] (ds_queues s) took s" using ok accounts_refl by (simp add: wire_ok_def)
  qed (auto simp: good_queues_def limited_accounts)
  then show ?thesis by blast
qed

lemma zero_accounts:
  assumes "queues_ok s" "credit_ok s" "wire_ok s" "\<not> ds_closed s" "map_of (ds_queues s) 0 = Some (e # r)"
  shows "accounts_kept s (dispatch_entry po now 0 e (shift_queue 0 s))"
proof -
  define d where "d = dispatch_entry po now 0 e (shift_queue 0 s)"
  note z = dispatch_zero [OF d_def]
  from assms(5) obtain v sn where q: "ds_queues s = v @ (0, e # r) # sn" by (meson map_of_SomeD split_list)
  have sh: "ds_queues (shift_queue 0 s) = v @ (0, r) # sn"
    using map_entry_split [of 0 v tl "e # r" sn] assms(1) q by (simp add: shift_queue_def queues_ok_def)
  have "wire_ok d"
    using assms(3,4) z(1,5,6) sh q by (cases "ds_closed d") (auto simp: wire_ok_def good_queues_def)
  moreover have "credit_ok d"
  proof (cases "ds_closed d")
    case True
    then show ?thesis using assms(2) z(2,3) d_def by (simp add: credit_ok_def)
  next
    case False
    then have "total_queued s = total_queued d + 1" "queued_size s = queued_size d + length (qe_bytes e)"
      using z(6) sh by (simp_all add: total_queued_def queued_size_def q)
    then show ?thesis using assms(2,4) False z(1,2,3,6) d_def by (simp add: credit_ok_def sent_sizes_def)
  qed
  ultimately show ?thesis using z(1,3,4) by (auto simp: accounts_kept_def d_def ack_errors_def)
qed

lemma round_accounts:
  assumes ok: "queues_ok s" "credit_ok s" "wire_ok s" "\<not> ds_closed s"
  shows "accounts_kept s (snd (pumpRound po now s))"
proof (cases "stream_queue STREAM_ZERO s")
  case Nil
  then show ?thesis using streams_accounts [OF ok(1-3)] by (simp add: pumpRound_def)
next
  case (Cons e r)
  define s1 where "s1 = dispatch_entry po now STREAM_ZERO e (shift_queue STREAM_ZERO s)"
  have "map_of (ds_queues s) 0 = Some (e # r)" using Cons by (simp add: stream_queue_def STREAM_ZERO_def split: option.splits)
  then have a: "accounts_kept s s1" unfolding s1_def STREAM_ZERO_def by (rule zero_accounts [OF ok])
  moreover have "accounts_kept s1 (snd (pump_streams po now (ds_queues s1) True s1))"
    using a queues_ok_dispatch [OF ok(1)] by (intro streams_accounts) (auto simp: accounts_kept_def s1_def)
  ultimately show ?thesis using Cons accounts_trans by (auto simp: pumpRound_def simp flip: s1_def)
qed

text \<open>After a round that took nothing, every entry left has a head that does not fit.\<close>

definition exhausted :: "DownstreamScheduler \<Rightarrow> bool" where
  "exhausted s \<longleftrightarrow> (\<forall>(k, q) \<in> set (ds_queues s). k \<noteq> 0 \<and>
     (\<exists>e r. q = e # r \<and> ds_outstandingBytes s + int (length (qe_bytes e)) > ds_windowBytes s))"

lemma idle_round:
  assumes ok: "queues_ok s" and idle: "pumpRound po now s = (False, s')"
  shows "exhausted s'"
proof -
  let ?r = "pump_streams po now (ds_queues s) False s"
  have z: "stream_queue STREAM_ZERO s = []"
  proof (rule ccontr)
    assume "stream_queue STREAM_ZERO s \<noteq> []"
    then obtain e q where "stream_queue STREAM_ZERO s = e # q" by (cases "stream_queue STREAM_ZERO s") auto
    then have "fst (pumpRound po now s)" by (simp add: pumpRound_def Let_def took_stays)
    then show False using idle by simp
  qed
  then have nz: "(0, e # q) \<notin> set (ds_queues s)" for e q
    using ok map_of_is_SomeI [of "ds_queues s" 0 "e # q"] by (auto simp: stream_queue_def STREAM_ZERO_def queues_ok_def)
  let ?I = "\<lambda>v sn t s'. \<not> t \<longrightarrow> (set sn \<subseteq> set (ds_queues s)) \<and> (\<forall>(k, q) \<in> set v. k \<noteq> 0 \<and>
     (\<exists>e r. q = e # r \<and> ds_outstandingBytes s' + int (length (qe_bytes e)) > ds_windowBytes s'))"
  have "\<exists>v. ?I v [] (fst ?r) (snd ?r) \<and> mid_round v [] (snd ?r) \<and> distinct (map fst v)"
    by (rule pump_streams_inv [where I = ?I and visited = "[]"]) (use ok nz in \<open>auto simp: mid_round_def queues_ok_def\<close>)
  then show ?thesis using idle z by (auto simp: pumpRound_def exhausted_def mid_round_def split: if_splits)
qed

definition sched_ok :: "DownstreamScheduler \<Rightarrow> bool" where
  "sched_ok s \<longleftrightarrow> queues_ok s \<and> credit_ok s \<and> wire_ok s"

lemma sched_ok_init: "sched_ok createDownstreamScheduler"
  by (simp add: sched_ok_def queues_ok_def credit_ok_def wire_ok_def good_queues_def createDownstreamScheduler_def
      sent_sizes_def total_queued_def queued_size_def INITIAL_WINDOW_BYTES_def MAX_WINDOW_BYTES_def MAX_QUEUE_FRAMES_def MAX_QUEUE_BYTES_def)

lemma unscheduled_ok: "sched_ok (s\<lparr>ds_pumpScheduled := b\<rparr>) = sched_ok s"
  by (simp add: sched_ok_def queues_ok_def credit_ok_def wire_ok_def sent_sizes_def total_queued_def queued_size_def)

lemma round_closed_stays: "queues_ok s \<Longrightarrow> ds_closed s \<Longrightarrow> ds_closed (snd (pumpRound po now s))"
  by (subst round_closed) (simp_all add: queues_ok_def)

lemma pump_spec:
  assumes ok: "sched_ok s"
  shows "\<exists>s'. downstream_pump po now s = Some s' \<and> queues_ok s' \<and> accounts_kept s s' \<and> exhausted s' \<and>
    (\<forall>k. k \<noteq> 0 \<longrightarrow> (\<exists>rest. delivers k s s' rest)) \<and> (ds_closed s \<longrightarrow> ds_closed s')"
proof -
  let ?s = "s\<lparr>ds_pumpScheduled := False\<rparr>"
  let ?I = "\<lambda>s'. accounts_kept ?s s' \<and> (\<forall>k. k \<noteq> 0 \<longrightarrow> (\<exists>rest. delivers k ?s s' rest))"
  have q: "queues_ok ?s" "credit_ok ?s" "wire_ok ?s" using ok unscheduled_ok [of False s] by (simp_all add: sched_ok_def)
  have I0: "?I ?s" using q accounts_refl delivers_refl [of ?s] by (auto simp: queues_ok_def)
  have same: "accounts_kept ?s = accounts_kept s" "delivers k ?s = delivers k s" for k
    by (intro ext, simp add: accounts_kept_def delivers_def queued_of_def emitted_of_def stream_queue_def)+
  show ?thesis
  proof (cases "ds_closed s")
    case True
    then have "downstream_pump po now s = Some ?s" by (simp add: downstream_pump_def)
    then show ?thesis using I0 q True by (auto simp: same exhausted_def queues_ok_def)
  next
    case False
    have step: "?I (snd (pumpRound po now s1))" if I: "?I s1" "queues_ok s1" "\<not> ds_closed s1" for s1
    proof -
      have "accounts_kept s1 (snd (pumpRound po now s1))"
        using I by (intro round_accounts) (simp_all add: accounts_kept_def)
      then have "accounts_kept ?s (snd (pumpRound po now s1))" using I(1) accounts_trans by blast
      moreover have "\<exists>rest. delivers k ?s (snd (pumpRound po now s1)) rest" if k: "k \<noteq> 0" for k
      proof -
        obtain r1 r2 where "delivers k ?s s1 r1" "delivers k s1 (snd (pumpRound po now s1)) r2"
          using I(1) k round_deliver [OF I(2,3) k] by blast
        then show ?thesis using delivers_trans I(3) by blast
      qed
      ultimately show ?thesis by blast
    qed
    from pump_rounds_inv [where I = ?I and po = po and now = now, OF q(1) I0 step] obtain s0 s'
      where s': "pump_rounds po now ?s = Some s'" "?I s'" "queues_ok s'" "queues_ok s0" "pumpRound po now s0 = (False, s')" by blast
    then show ?thesis using idle_round [OF s'(4,5)] False by (auto simp: downstream_pump_def same)
  qed
qed

text \<open>C11.
  The pump always ends: from every well-kept state its rounds stop, and the state they stop in is
  well kept. The window is respected: outstanding bytes grow only as far as the window. The pump is
  exhaustive: every stream that still waits has a head that does not fit, nothing waits on stream
  zero, and when no queued frame exceeds 64 KiB the queues are empty or some frame is outstanding,
  so that an acknowledgement will start the pump again.
\<close>

theorem pump_ends_exhausted:
  assumes "sched_ok s"
  shows "\<exists>s'. downstream_pump po now s = Some s' \<and> sched_ok s' \<and>
    ds_outstandingBytes s' \<le> max (ds_outstandingBytes s) (ds_windowBytes s) \<and>
    (\<forall>(k, q) \<in> set (ds_queues s'). k \<noteq> 0 \<and> q \<noteq> [] \<and>
      ds_outstandingBytes s' + int (length (qe_bytes (hd q))) > ds_windowBytes s') \<and>
    ((\<forall>(k, q) \<in> set (ds_queues s'). \<forall>e \<in> set q. length (qe_bytes e) \<le> 65536) \<longrightarrow> ds_queues s' = [] \<or> ds_outstanding s' \<noteq> [])"
proof -
  obtain s' where s': "downstream_pump po now s = Some s'" "queues_ok s'" "accounts_kept s s'" "exhausted s'"
    using pump_spec [OF assms] by blast
  have "ds_outstandingBytes s' = int (sum_list (map of_bytes (ds_outstanding s')))" "65536 \<le> ds_windowBytes s'"
    using s'(3) by (auto simp: accounts_kept_def credit_ok_def INITIAL_WINDOW_BYTES_def)
  then have "ds_queues s' = []" if "\<forall>(k, q) \<in> set (ds_queues s'). \<forall>e \<in> set q. length (qe_bytes e) \<le> 65536" "ds_outstanding s' = []"
    using that s'(4) by (cases "ds_queues s'") (auto simp: exhausted_def)
  moreover have "\<forall>(k, q) \<in> set (ds_queues s'). k \<noteq> 0 \<and> q \<noteq> [] \<and> ds_outstandingBytes s' + int (length (qe_bytes (hd q))) > ds_windowBytes s'"
    using s'(4) by (auto simp: exhausted_def)
  ultimately show ?thesis using s' by (auto simp: sched_ok_def accounts_kept_def)
qed

section \<open>The other operations keep the accounts\<close>

text \<open>A frame the dispatcher sends: of a known type, with a 32-bit stream id.\<close>

definition frame_ok :: "TunnelFrame \<Rightarrow> bool" where
  "frame_ok f \<longleftrightarrow> tf_type f \<in> set KNOWN_FRAME_TYPES \<and> 0 \<le> tf_streamId f \<and> tf_streamId f < 2 ^ 32"

lemma good_encode: "frame_ok f \<Longrightarrow> good_bytes (tf_streamId f) (encodeTunnelFrame f)"
  using decode_encode [of f] by (auto simp: good_bytes_def frame_ok_def)

lemma closed_ok:
  assumes "credit_ok s" "wire_ok s" "ds_closed s'" "ds_queues s' = []" "ds_emitted s' = ds_emitted s"
    "ds_windowBytes s' = ds_windowBytes s" "ds_outstanding s' = ds_outstanding s" "ds_outstandingBytes s' = ds_outstandingBytes s"
  shows "sched_ok s'"
  using assms by (auto simp: sched_ok_def queues_ok_def credit_ok_def wire_ok_def good_queues_def)

lemma failChannel_ok:
  assumes "sched_ok s"
  shows "sched_ok (failChannel e s)"
proof (cases "ds_closed s")
  case False
  then show ?thesis using assms by (intro closed_ok [of s]) (simp_all add: sched_ok_def failChannel_def reject_all_def)
qed (use assms in \<open>simp add: failChannel_def\<close>)

lemma schedulePump_ok [simp]: "sched_ok (schedulePump s) = sched_ok s"
  by (simp add: schedulePump_def unscheduled_ok)


lemma update_total:
  fixes g :: "'a \<Rightarrow> nat"
  assumes "q = (case map_of qs k of Some q \<Rightarrow> q | None \<Rightarrow> [])"
  shows "sum_list (map g (concat (map snd (AList.update k (q @ [e]) qs)))) = sum_list (map g (concat (map snd qs))) + g e"
  using assms by (induction qs) auto

lemma good_stream: "good_queues (ds_queues s) \<Longrightarrow> e \<in> set (stream_queue k s) \<Longrightarrow> good_bytes k (qe_bytes e)"
  by (cases "map_of (ds_queues s) k") (auto simp: stream_queue_def good_queues_def dest!: map_of_SomeD)

lemma set_update_subset: "set (AList.update k v xs) \<subseteq> insert (k, v) (set xs)"
  by (induction xs) auto

lemma good_update:
  assumes "good_queues qs" "\<forall>e \<in> set q. good_bytes k (qe_bytes e)"
  shows "good_queues (AList.update k q qs)"
  using assms set_update_subset [of k q qs] unfolding good_queues_def by blast

lemma send_ok:
  assumes ok: "sched_ok s" and f: "frame_ok f"
  shows "sched_ok (snd (downstream_send f s))"
proof -
  let ?q = "stream_queue (tf_streamId f) s"
  let ?e = "\<lparr>qe_bytes = encodeTunnelFrame f, qe_ticket = ds_tickets s\<rparr>"
  define qs where "qs = AList.update (tf_streamId f) (?q @ [?e]) (ds_queues s)"
  have m: "sum_list (map g (concat (map snd qs))) = sum_list (map g (concat (map snd (ds_queues s)))) + g ?e" for g :: "QueuedEntry \<Rightarrow> nat"
    unfolding qs_def by (rule update_total) (simp add: stream_queue_def)
  have n: "length (concat (map snd qs)) = Suc (total_queued s)"
    using m [of "\<lambda>_. 1"] by (simp add: total_queued_def sum_list_triv)
  have z: "sum_list (map (length \<circ> qe_bytes) (concat (map snd qs))) = queued_size s + length (encodeTunnelFrame f)"
    using m [of "length \<circ> qe_bytes"] by (simp add: queued_size_def)
  have old: "good_queues (ds_queues s)" using ok by (simp add: sched_ok_def wire_ok_def)
  then have "\<forall>e \<in> set (?q @ [?e]). good_bytes (tf_streamId f) (qe_bytes e)"
    using good_encode [OF f] good_stream by auto
  then have "good_queues qs" unfolding qs_def by (rule good_update [OF old])
  then have "sched_ok (s\<lparr>ds_queuedBytes := ds_queuedBytes s + int (length (encodeTunnelFrame f)), ds_queuedFrames := ds_queuedFrames s + 1,
      ds_tickets := ds_tickets s + 1, ds_queues := qs\<rparr>)"
    if "\<not> ds_closed s" "ds_queuedFrames s + 1 \<le> MAX_QUEUE_FRAMES" "ds_queuedBytes s + int (length (encodeTunnelFrame f)) \<le> MAX_QUEUE_BYTES"
    using ok that n z distinct_update [of "ds_queues s"]
    by (simp add: sched_ok_def queues_ok_def credit_ok_def wire_ok_def sent_sizes_def total_queued_def queued_size_def qs_def)
  then show ?thesis using failChannel_ok [OF ok] ok by (auto simp: downstream_send_def Let_def simp flip: qs_def)
qed

lemma sendNow_ok:
  assumes "sched_ok s" "frame_ok f"
  shows "sched_ok (sendNow now f s)"
  using assms split_extend [of "ds_ackedBytes s" "sent_sizes s" "map of_bytes (ds_outstanding s)" "length (encodeTunnelFrame f)"] good_encode [OF assms(2)]
  by (auto simp: sendNow_def Let_def STREAM_ZERO_def sched_ok_def queues_ok_def credit_ok_def wire_ok_def
      sent_sizes_def total_queued_def queued_size_def)

lemma delete_total:
  fixes g :: "'a \<Rightarrow> nat"
  assumes "map_of qs k = Some q" "distinct (map fst qs)"
  shows "sum_list (map g (concat (map snd qs))) = sum_list (map g (concat (map snd (AList.delete k qs)))) + sum_list (map g q)"
  using assms by (induction qs) (auto simp: AList.delete_id)

lemma cancelStream_ok:
  assumes ok: "sched_ok s"
  shows "sched_ok (cancelStream k s)"
proof (cases "map_of (ds_queues s) k")
  case (Some q)
  have d: "distinct (map fst (ds_queues s))" "ds_queues s \<noteq> []" using ok Some by (auto simp: sched_ok_def queues_ok_def)
  have n: "total_queued s = length (concat (map snd (AList.delete k (ds_queues s)))) + length q"
    using delete_total [OF Some d(1), of "\<lambda>_. 1"] by (simp add: total_queued_def sum_list_triv)
  have z: "queued_size s = sum_list (map (length \<circ> qe_bytes) (concat (map snd (AList.delete k (ds_queues s))))) + sum_list (map (length \<circ> qe_bytes) q)"
    using delete_total [OF Some d(1), of "length \<circ> qe_bytes"] by (simp add: queued_size_def)
  have "good_queues (AList.delete k (ds_queues s))"
    using ok by (auto simp: sched_ok_def wire_ok_def good_queues_def delete_filter)
  moreover have "sum_list (map (\<lambda>entry. int (length (qe_bytes entry))) q) = int (sum_list (map (length \<circ> qe_bytes) q))"
    by (induction q) auto
  ultimately show ?thesis using ok n z d distinct_delete [of "ds_queues s" k]
    by (auto simp: cancelStream_def Some sched_ok_def queues_ok_def credit_ok_def wire_ok_def sent_sizes_def total_queued_def queued_size_def)
qed (use ok in \<open>simp add: cancelStream_def\<close>)

lemma dispose_ok: "sched_ok s \<Longrightarrow> sched_ok (downstream_dispose s)"
  by (rule closed_ok [of s]) (simp_all add: sched_ok_def downstream_dispose_def reject_all_def)

text \<open>Acknowledging: what the loop consumes.\<close>

lemma consume_spec:
  assumes "0 \<le> left" "consume left fs = (left', rest, missed)"
  shows "\<exists>m. rest = drop m fs \<and> left - left' = int (sum_list (map of_bytes (take m fs))) \<and> (\<not> missed \<longrightarrow> left' = 0)"
  using assms
proof (induction left fs rule: consume.induct)
  case (2 left f fs)
  show ?case
  proof (cases "left \<le> 0 \<or> int (of_bytes f) > left")
    case True
    then show ?thesis using 2 by (intro exI [of _ 0]) (auto split: if_splits)
  next
    case False
    then obtain m where "rest = drop m fs" "left - int (of_bytes f) - left' = int (sum_list (map of_bytes (take m fs)))" "\<not> missed \<longrightarrow> left' = 0"
      using 2 by auto
    then show ?thesis by (intro exI [of _ "Suc m"]) simp
  qed
qed auto

lemma telemetry_window:
  assumes "INITIAL_WINDOW_BYTES \<le> ds_windowBytes s" "ds_windowBytes s \<le> MAX_WINDOW_BYTES"
  shows "INITIAL_WINDOW_BYTES \<le> ds_windowBytes (onAckTelemetry now old s)" "ds_windowBytes (onAckTelemetry now old s) \<le> MAX_WINDOW_BYTES"
  using assms by (auto simp: onAckTelemetry_def Let_def INITIAL_WINDOW_BYTES_def MAX_WINDOW_BYTES_def split: option.splits)

lemma telemetry_frame [simp]:
  "ds_queues (onAckTelemetry now old s) = ds_queues s" "ds_outstanding (onAckTelemetry now old s) = ds_outstanding s"
  "ds_outstandingBytes (onAckTelemetry now old s) = ds_outstandingBytes s" "ds_ackedBytes (onAckTelemetry now old s) = ds_ackedBytes s"
  "ds_queuedBytes (onAckTelemetry now old s) = ds_queuedBytes s" "ds_queuedFrames (onAckTelemetry now old s) = ds_queuedFrames s"
  "ds_closed (onAckTelemetry now old s) = ds_closed s" "ds_emitted (onAckTelemetry now old s) = ds_emitted s"
  "ds_errors (onAckTelemetry now old s) = ds_errors s"
  by (auto simp: onAckTelemetry_def Let_def split: option.splits)

lemma telemetry_ok: "sched_ok s \<Longrightarrow> sched_ok (onAckTelemetry now old s)"
  using telemetry_window [of s now old]
  by (auto simp: sched_ok_def queues_ok_def credit_ok_def wire_ok_def sent_sizes_def total_queued_def queued_size_def)

lemma consumed_ok:
  assumes ok: "sched_ok s" and c: "consume (count - ds_ackedBytes s) (ds_outstanding s) = (left, rest, missed)" "count > ds_ackedBytes s"
    and s1: "s1 = s\<lparr>ds_ackedBytes := count, ds_outstanding := rest, ds_outstandingBytes := ds_outstandingBytes s - (count - ds_ackedBytes s - left)\<rparr>"
  shows "sched_ok (if missed then failChannel AckOffBoundary s1 else s1)"
proof -
  from consume_spec [OF _ c(1)] c(2) obtain m where
    m: "rest = drop m (ds_outstanding s)" "count - ds_ackedBytes s - left = int (sum_list (map of_bytes (take m (ds_outstanding s))))" "\<not> missed \<longrightarrow> left = 0"
    by auto
  have sum: "sum_list (map of_bytes (ds_outstanding s)) = sum_list (map of_bytes (take m (ds_outstanding s))) + sum_list (map of_bytes rest)"
    unfolding m(1) by (subst append_take_drop_id [of m, symmetric]) (simp only: map_append sum_list_append)
  have out: "ds_outstandingBytes s1 = int (sum_list (map of_bytes (ds_outstanding s1)))"
    using ok sum m(2) by (simp add: s1 sched_ok_def credit_ok_def)
  show ?thesis
  proof (cases "missed \<or> ds_closed s")
    case True
    then show ?thesis using ok out
      by (auto simp: s1 sched_ok_def queues_ok_def credit_ok_def wire_ok_def failChannel_def reject_all_def good_queues_def)
  next
    case False
    then obtain n where n: "ds_ackedBytes s = int (sum_list (take n (sent_sizes s)))" "map of_bytes (ds_outstanding s) = drop n (sent_sizes s)"
      using ok by (auto simp: sched_ok_def credit_ok_def)
    have "count = int (sum_list (take (n + m) (sent_sizes s)))"
      using m(2,3) False n by (simp add: take_map take_add flip: take_map)
    moreover have "map of_bytes rest = drop (n + m) (sent_sizes s)" using n(2) m(1) by (simp add: drop_map add.commute flip: drop_map)
    ultimately show ?thesis using ok out False
      by (auto simp: s1 sched_ok_def queues_ok_def credit_ok_def wire_ok_def sent_sizes_def total_queued_def queued_size_def)
  qed
qed

lemma onAck_ok:
  assumes ok: "sched_ok s"
  shows "sched_ok (onAck now payload s)"
proof -
  obtain left rest missed where c: "consume (ack_count payload - ds_ackedBytes s) (ds_outstanding s) = (left, rest, missed)"
    by (cases "consume (ack_count payload - ds_ackedBytes s) (ds_outstanding s)") auto
  show ?thesis
    using consumed_ok [OF ok c _ refl] telemetry_ok failChannel_ok [OF ok]
    by (auto simp: onAck_def Let_def c)
qed

section \<open>Every stream is a first-in first-out channel\<close>

text \<open>
  Runs of the scheduler as one stream sees them: the frames accepted for its queue, the frames
  sent past the queue while the scheduler was open, and every frame emitted for it with the mark
  whether it was sent past the queue. The stream itself is cancelled only in a lossy run.
\<close>

inductive stream_run :: "ports \<Rightarrow> bool \<Rightarrow> int \<Rightarrow> bytes list \<Rightarrow> bytes list \<Rightarrow> (bool \<times> bytes) list \<Rightarrow> DownstreamScheduler \<Rightarrow> bool" for po lossy k where
  sr_start: "stream_run po lossy k [] [] [] createDownstreamScheduler"
| sr_send: "stream_run po lossy k l n m s \<Longrightarrow> frame_ok f \<Longrightarrow> downstream_send f s = (r, s') \<Longrightarrow>
    stream_run po lossy k (if tf_streamId f = k \<and> (\<exists>ticket. r = Inr ticket) then l @ [encodeTunnelFrame f] else l) n m s'"
| sr_now: "stream_run po lossy k l n m s \<Longrightarrow> frame_ok f \<Longrightarrow> given = (if tf_streamId f = k \<and> \<not> ds_closed s then [encodeTunnelFrame f] else []) \<Longrightarrow>
    stream_run po lossy k l (n @ given) (m @ map (Pair True) given) (sendNow now f s)"
| sr_ack: "stream_run po lossy k l n m s \<Longrightarrow> stream_run po lossy k l n m (onAck now payload s)"
| sr_cancel: "stream_run po lossy k l n m s \<Longrightarrow> lossy \<or> i \<noteq> k \<Longrightarrow> stream_run po lossy k l n m (cancelStream i s)"
| sr_pump: "stream_run po lossy k l n m s \<Longrightarrow> downstream_pump po now s = Some s' \<Longrightarrow>
    stream_run po lossy k l n (m @ map (Pair False) (drop (length m) (emitted_of k s'))) s'"
| sr_dispose: "stream_run po lossy k l n m s \<Longrightarrow> stream_run po lossy k l n m (downstream_dispose s)"

text \<open>The emitted frames that went through the queue, and the queue as a channel.\<close>

definition through_queue :: "(bool \<times> bytes) list \<Rightarrow> bytes list" where
  "through_queue m = map snd (filter (\<lambda>(past, _). \<not> past) m)"

definition past_queue :: "(bool \<times> bytes) list \<Rightarrow> bytes list" where
  "past_queue m = map snd (filter fst m)"

definition abs_stream :: "int \<Rightarrow> bytes list \<Rightarrow> bytes list \<Rightarrow> DownstreamScheduler \<Rightarrow> channel" where
  "abs_stream k l d s = \<lparr>ch_open = \<not> ds_closed s, ch_pending = queued_of k s, ch_delivered = d, ch_log = l\<rparr>"

lemma stream_run_ok: "stream_run po lossy k l n m s \<Longrightarrow> sched_ok s"
proof (induction rule: stream_run.induct)
  case (sr_send l n m s f r s')
  then show ?case using send_ok [of s f] by simp
next
  case (sr_pump l n m s now s')
  then show ?case using pump_spec [of s po now] by (auto simp: sched_ok_def accounts_kept_def)
qed (auto intro: sched_ok_init sendNow_ok onAck_ok cancelStream_ok dispose_ok)

lemma abs_closed:
  assumes "ds_closed s'" "ds_queues s' = []"
  shows "(channel_step lossy)\<^sup>*\<^sup>* (abs_stream k l d s) (abs_stream k l d s')"
proof -
  have "abs_stream k l d s' = (abs_stream k l d s)\<lparr>ch_open := False, ch_pending := []\<rparr>"
    using assms by (simp add: abs_stream_def queued_of_def stream_queue_def)
  then show ?thesis using ch_close [of "abs_stream k l d s" "[]" _ lossy] by (simp add: r_into_rtranclp)
qed

lemma abs_fail:
  assumes "sched_ok s"
  shows "(channel_step lossy)\<^sup>*\<^sup>* (abs_stream k l d s) (abs_stream k l d (failChannel e s))"
proof (cases "ds_closed s")
  case False
  then show ?thesis by (intro abs_closed) (simp_all add: failChannel_def reject_all_def)
qed (simp add: failChannel_def)

lemma abs_deliver:
  assumes "queued_of k s = pre @ rest" "queued_of k s' = (if ds_closed s' then [] else rest)" and stays: "ds_closed s \<longrightarrow> ds_closed s'"
  shows "(channel_step lossy)\<^sup>*\<^sup>* (abs_stream k l d s) (abs_stream k l (d @ pre) s')"
proof -
  let ?c = "(abs_stream k l d s)\<lparr>ch_pending := rest, ch_delivered := d @ pre\<rparr>"
  have d: "channel_step lossy (abs_stream k l d s) ?c"
    using ch_deliver [of "abs_stream k l d s" pre rest lossy] assms(1) by (simp add: abs_stream_def)
  show ?thesis
  proof (cases "ds_closed s'")
    case True
    then have "abs_stream k l (d @ pre) s' = ?c\<lparr>ch_open := False, ch_pending := []\<rparr>" using assms by (simp add: abs_stream_def)
    then show ?thesis using d ch_close [of ?c "[]" _ lossy] by (simp add: converse_rtranclp_into_rtranclp)
  next
    case False
    then have "abs_stream k l (d @ pre) s' = ?c" using assms by (simp add: abs_stream_def)
    then show ?thesis using d by simp
  qed
qed

lemma abs_send:
  assumes ok: "sched_ok s" and send: "downstream_send f s = (r, s')"
  shows "(channel_step lossy)\<^sup>*\<^sup>* (abs_stream k l d s)
    (abs_stream k (if tf_streamId f = k \<and> (\<exists>ticket. r = Inr ticket) then l @ [encodeTunnelFrame f] else l) d s')"
proof (cases r)
  case (Inl e)
  then have "s' = s \<or> s' = failChannel QueueCapExceeded s" using send by (auto simp: downstream_send_def Let_def split: if_splits)
  then show ?thesis using Inl abs_fail [OF ok] by auto
next
  case (Inr ticket)
  then have s': "\<not> ds_closed s" "ds_closed s' = ds_closed s" "ds_emitted s' = ds_emitted s"
    "ds_queues s' = AList.update (tf_streamId f) (stream_queue (tf_streamId f) s @ [\<lparr>qe_bytes = encodeTunnelFrame f, qe_ticket = ds_tickets s\<rparr>]) (ds_queues s)"
    using send by (auto simp: downstream_send_def Let_def schedulePump_def split: if_splits)
  have q: "queued_of k s' = (if tf_streamId f = k then queued_of k s @ [encodeTunnelFrame f] else queued_of k s)"
    by (auto simp: queued_of_def stream_queue_def s'(4) update_conv')
  show ?thesis
  proof (cases "tf_streamId f = k")
    case True
    then have "abs_stream k (l @ [encodeTunnelFrame f]) d s' =
        (abs_stream k l d s)\<lparr>ch_pending := ch_pending (abs_stream k l d s) @ [encodeTunnelFrame f], ch_log := ch_log (abs_stream k l d s) @ [encodeTunnelFrame f]\<rparr>"
      using q s' by (simp add: abs_stream_def emitted_of_def)
    then show ?thesis using ch_send [of "abs_stream k l d s" lossy "encodeTunnelFrame f"] s'(1) True Inr by (simp add: abs_stream_def r_into_rtranclp)
  next
    case False
    then show ?thesis using q s' by (simp add: abs_stream_def emitted_of_def)
  qed
qed

lemma onAck_keeps:
  assumes ok: "sched_ok s"
  shows "ds_emitted (onAck now payload s) = ds_emitted s \<and>
    (ds_queues (onAck now payload s) = ds_queues s \<and> ds_closed (onAck now payload s) = ds_closed s \<or>
     ds_queues (onAck now payload s) = [] \<and> ds_closed (onAck now payload s))"
  using ok by (auto simp: onAck_def Let_def failChannel_def reject_all_def schedulePump_def sched_ok_def queues_ok_def split: prod.splits)

lemma abs_cancel:
  assumes "sched_ok s" "lossy \<or> i \<noteq> k"
  shows "(channel_step lossy)\<^sup>*\<^sup>* (abs_stream k l d s) (abs_stream k l d (cancelStream i s))"
proof (cases "i = k \<and> map_of (ds_queues s) i \<noteq> None")
  case True
  then have "abs_stream k l d (cancelStream i s) = (abs_stream k l d s)\<lparr>ch_pending := []\<rparr>"
    by (auto simp: abs_stream_def cancelStream_def queued_of_def stream_queue_def emitted_of_def delete_conv')
  moreover have "channel_step lossy (abs_stream k l d s) ((abs_stream k l d s)\<lparr>ch_pending := []\<rparr>)"
    using assms(2) True by (intro ch_lose [of _ _ "ch_pending (abs_stream k l d s)"]) auto
  ultimately show ?thesis by simp
next
  case False
  then have "abs_stream k l d (cancelStream i s) = abs_stream k l d s"
    by (auto simp: abs_stream_def cancelStream_def queued_of_def stream_queue_def emitted_of_def delete_conv' split: option.splits)
  then show ?thesis by simp
qed

lemma emitted_const:
  "downstream_send f s = (r, s') \<Longrightarrow> emitted_of k s' = emitted_of k s" "emitted_of k (cancelStream i s) = emitted_of k s"
  "emitted_of k (downstream_dispose s) = emitted_of k s"
  "emitted_of k (sendNow now f s) = emitted_of k s @ (if tf_streamId f = k \<and> tf_streamId f \<noteq> 0 \<and> \<not> ds_closed s then [encodeTunnelFrame f] else [])"
  by (auto simp: emitted_of_def downstream_send_def cancelStream_def downstream_dispose_def reject_all_def sendNow_def
      failChannel_def schedulePump_def Let_def STREAM_ZERO_def split: if_splits option.splits)

lemma marks_append [simp]:
  "through_queue (m @ m') = through_queue m @ through_queue m'" "past_queue (m @ m') = past_queue m @ past_queue m'"
  "through_queue (map (Pair b) xs) = (if b then [] else xs)" "past_queue (map (Pair b) xs) = (if b then xs else [])"
  by (simp_all add: through_queue_def past_queue_def comp_def)

lemma stream_sim:
  assumes "stream_run po lossy k l n m s" "k \<noteq> 0"
  shows "(channel_step lossy)\<^sup>*\<^sup>* empty_channel (abs_stream k l (through_queue m) s) \<and> map snd m = emitted_of k s \<and> past_queue m = n"
  using assms(1)
proof (induction rule: stream_run.induct)
  case sr_start
  show ?case by (simp add: abs_stream_def empty_channel_def createDownstreamScheduler_def queued_of_def stream_queue_def emitted_of_def
      through_queue_def past_queue_def)
next
  case (sr_send l n m s f r s')
  then show ?case using abs_send [OF stream_run_ok [OF sr_send(1)] sr_send(3), of lossy k l "through_queue m"] emitted_const(1) [OF sr_send(3)]
    by (auto intro: rtranclp_trans)
next
  case (sr_now l n m s f given now)
  then have "abs_stream k l (through_queue m) (sendNow now f s) = abs_stream k l (through_queue m) s"
    by (simp add: abs_stream_def sendNow_def Let_def queued_of_def stream_queue_def)
  then show ?case using sr_now assms(2) emitted_const(4) [of k now f s] by auto
next
  case (sr_ack l n m s now payload)
  have "(channel_step lossy)\<^sup>*\<^sup>* (abs_stream k l (through_queue m) s) (abs_stream k l (through_queue m) (onAck now payload s))"
    using onAck_keeps [OF stream_run_ok [OF sr_ack(1)], of now payload]
      abs_closed [of "onAck now payload s" lossy k l "through_queue m" s]
    by (auto simp: abs_stream_def queued_of_def stream_queue_def)
  then show ?case using sr_ack onAck_keeps [OF stream_run_ok [OF sr_ack(1)], of now payload]
    by (auto simp: emitted_of_def intro: rtranclp_trans)
next
  case (sr_cancel l n m s i)
  then show ?case using abs_cancel [OF stream_run_ok [OF sr_cancel(1)] sr_cancel(2), of l "through_queue m"]
    by (auto simp: emitted_const intro: rtranclp_trans)
next
  case (sr_pump l n m s now s')
  obtain pre rest where p: "queued_of k s = pre @ rest" "emitted_of k s' = emitted_of k s @ pre"
    "queued_of k s' = (if ds_closed s' then [] else rest)" "ds_closed s \<longrightarrow> ds_closed s'"
    using pump_spec [OF stream_run_ok [OF sr_pump(1)], of po now] sr_pump(2) assms(2) by (auto simp: delivers_def)
  have "length m = length (emitted_of k s)" using sr_pump.IH by (metis length_map)
  then have pre: "drop (length m) (emitted_of k s') = pre" using p(2) by simp
  show ?case using sr_pump.IH p(2) abs_deliver [OF p(1,3,4), of lossy l "through_queue m"] unfolding pre
    by (auto simp: comp_def intro: rtranclp_trans)
next
  case (sr_dispose l n m s)
  have "(channel_step lossy)\<^sup>*\<^sup>* (abs_stream k l (through_queue m) s) (abs_stream k l (through_queue m) (downstream_dispose s))"
    by (rule abs_closed) (simp_all add: downstream_dispose_def reject_all_def)
  then show ?case using sr_dispose by (auto simp: emitted_const intro: rtranclp_trans)
qed

text \<open>C2.
  Every nonzero stream of the scheduler refines a first-in first-out channel, whatever is sent on
  this and the other streams, in whichever way, acknowledged, cancelled, failed or disposed. What
  was emitted for the stream is the frames of its queue and the frames sent past it with
  \<open>sendNow\<close>. The latter go out at once, all of them and in order. The former make a run of the
  channel, without loss unless the stream itself is cancelled: they are a prefix of the frames
  accepted for the queue, and while the scheduler is open what was emitted through the queue and
  what waits are exactly what was accepted. A cancelled stream may lose frames of its queue but
  never reorders or repeats them.
\<close>

theorem streams_refine_fifo_channels:
  assumes "stream_run po lossy k l n m s" "k \<noteq> 0"
  shows "emitted_of k s = map snd m \<and> past_queue m = n \<and>
    (channel_step lossy)\<^sup>*\<^sup>* empty_channel (abs_stream k l (through_queue m) s) \<and> subseq (through_queue m) l \<and>
    (\<not> lossy \<longrightarrow> prefix (through_queue m) l \<and> (\<not> ds_closed s \<longrightarrow> through_queue m @ queued_of k s = l))"
proof -
  note sim = stream_sim [OF assms]
  have "subseq (through_queue m) (ch_delivered (abs_stream k l (through_queue m) s) @ ch_pending (abs_stream k l (through_queue m) s))"
    by (simp add: abs_stream_def list_emb_prefix)
  then show ?thesis using sim channel_history [OF conjunct1 [OF sim]] append_prefixD
    by (fastforce simp: abs_stream_def intro: subseq_order.trans)
qed

text \<open>A small run: two frames of stream 1 and one of stream 3, pumped.\<close>

definition demo_ports :: ports where "demo_ports = \<lparr>po_emit = \<lambda>_. True, po_zero = \<lambda>_. True\<rparr>"

definition demo_body :: "int \<Rightarrow> 8 word \<Rightarrow> TunnelFrame" where
  "demo_body k b = \<lparr>tf_type = 2, tf_streamId = k, tf_hasMore = False, tf_payload = [b]\<rparr>"

definition demo_sched :: DownstreamScheduler where
  "demo_sched = snd (downstream_send (demo_body 1 66) (snd (downstream_send (demo_body 3 67) (snd (downstream_send (demo_body 1 65) createDownstreamScheduler)))))"

lemma demo_sends: "fst (downstream_send (demo_body 1 65) createDownstreamScheduler) = Inr 0"
  "fst (downstream_send (demo_body 1 66) (snd (downstream_send (demo_body 3 67) (snd (downstream_send (demo_body 1 65) createDownstreamScheduler))))) = Inr 2"
  by code_simp+

lemma demo_body_ok: "frame_ok (demo_body 1 b)" "frame_ok (demo_body 3 b)"
  by (simp_all add: frame_ok_def demo_body_def frame_numerals)

lemma demo_stream_run:
  "stream_run demo_ports False 1 [encodeTunnelFrame (demo_body 1 65), encodeTunnelFrame (demo_body 1 66)] [] [] demo_sched"
proof -
  let ?s1 = "snd (downstream_send (demo_body 1 65) createDownstreamScheduler)"
  let ?s2 = "snd (downstream_send (demo_body 3 67) ?s1)"
  have id: "tf_streamId (demo_body k b) = k" for k b by (simp add: demo_body_def)
  have "downstream_send (demo_body 1 65) createDownstreamScheduler = (Inr 0, ?s1)" using demo_sends(1) by (simp add: prod_eq_iff)
  from sr_send [OF sr_start demo_body_ok(1) this, of demo_ports False 1]
  have r1: "stream_run demo_ports False 1 [encodeTunnelFrame (demo_body 1 65)] [] [] ?s1" by (simp add: id)
  from sr_send [OF r1 demo_body_ok(2), of 67]
  have r2: "stream_run demo_ports False 1 [encodeTunnelFrame (demo_body 1 65)] [] [] ?s2" by (simp add: id prod_eq_iff)
  have "downstream_send (demo_body 1 66) ?s2 = (Inr 2, demo_sched)" using demo_sends(2) by (simp add: prod_eq_iff demo_sched_def)
  from sr_send [OF r2 demo_body_ok(1) this] show ?thesis by (simp add: id)
qed

text \<open>A frame sent past the queue goes out before the two that wait.\<close>

theorem streams_refine_fifo_channels_witness:
  "let s = sendNow 5 (demo_body 1 67) demo_sched
   in emitted_of 1 s = [[2, 0, 0, 0, 1, 67]] \<and> queued_of 1 s = [[2, 0, 0, 0, 1, 65], [2, 0, 0, 0, 1, 66]]"
proof -
  have v: "encodeTunnelFrame (demo_body 1 65) = [2, 0, 0, 0, 1, 65]" "encodeTunnelFrame (demo_body 1 66) = [2, 0, 0, 0, 1, 66]"
    "encodeTunnelFrame (demo_body 1 67) = [2, 0, 0, 0, 1, 67]" "\<not> ds_closed demo_sched" "\<not> ds_closed (sendNow 5 (demo_body 1 67) demo_sched)"
    by code_simp+
  have "stream_run demo_ports False 1 [[2, 0, 0, 0, 1, 65], [2, 0, 0, 0, 1, 66]] [[2, 0, 0, 0, 1, 67]] [(True, [2, 0, 0, 0, 1, 67])]
      (sendNow 5 (demo_body 1 67) demo_sched)"
    using sr_now [OF demo_stream_run demo_body_ok(1), of "[[2, 0, 0, 0, 1, 67]]" 67 5] v(1-4) by (simp add: demo_body_def)
  from streams_refine_fifo_channels [OF this] show ?thesis using v(5) by (simp add: through_queue_def)
qed

theorem pump_ends_exhausted_witness:
  "\<exists>s'. downstream_pump demo_ports 7 demo_sched = Some s' \<and> ds_outstandingBytes s' \<le> 65536"
proof -
  have "ds_outstandingBytes demo_sched = 0" "ds_windowBytes demo_sched = 65536" by code_simp+
  then show ?thesis using pump_ends_exhausted [OF stream_run_ok [OF demo_stream_run], of demo_ports 7] by auto
qed

section \<open>The scheduler and the client's ledger\<close>

lemma low_word [simp]: "(word_of_int (x AND 0xffffffff) :: 32 word) = word_of_int x"
proof -
  have "x AND 0xffffffff = take_bit 32 x" by (simp add: take_bit_eq_mask mask_eq_exp_minus_1)
  then show ?thesis by (simp add: word_of_int_eq_iff)
qed

lemma u8Write64_eq: "u8WriteBigUInt64BE v = writeBigUInt64BE (word_of_int v)"
proof -
  have "(ucast (drop_bit 32 (word_of_int v :: 64 word)) :: 32 word) = word_of_int (drop_bit 32 v)"
    by (rule bit_word_eqI) (auto simp: bit_simps)
  moreover have "(ucast (word_of_int v :: 64 word) :: 32 word) = word_of_int v"
    by (rule bit_word_eqI) (auto simp: bit_simps)
  ultimately show ?thesis by (simp add: u8WriteBigUInt64BE_def writeBigUInt64BE_def u8Write_eq)
qed

lemma ack_count_eq: "n < 2 ^ 64 \<Longrightarrow> ack_count (u8WriteBigUInt64BE (int n)) = int n"
  by (simp add: ack_count_def u8Write64_eq read_write_64 uint_nat unat_of_nat)

lemma consume_exact:
  assumes "\<forall>f \<in> set fs. of_bytes f > 0"
  shows "consume (int (sum_list (map of_bytes (take m fs)))) fs = (0, drop m fs, False)"
  using assms
proof (induction fs arbitrary: m)
  case (Cons f fs)
  then show ?case by (cases m) auto
qed simp

text \<open>An acknowledgement at a frame boundary beyond the last one is accepted.\<close>

lemma onAck_lawful:
  assumes ok: "sched_ok s" and open': "\<not> ds_closed s" and n: "n = sum_list (take j (sent_sizes s))" "n \<le> 2 ^ 53 - 1" "ds_ackedBytes s < int n"
  shows "\<not> ds_closed (onAck now (u8WriteBigUInt64BE (int n)) s)" "ds_errors (onAck now (u8WriteBigUInt64BE (int n)) s) = ds_errors s"
    "ds_ackedBytes (onAck now (u8WriteBigUInt64BE (int n)) s) = int n"
proof -
  let ?p = "u8WriteBigUInt64BE (int n)"
  obtain i where i: "ds_ackedBytes s = int (sum_list (take i (sent_sizes s)))" "map of_bytes (ds_outstanding s) = drop i (sent_sizes s)"
    using ok open' by (auto simp: sched_ok_def credit_ok_def)
  have ij: "i \<le> j"
  proof (rule ccontr)
    assume "\<not> i \<le> j"
    then have "sum_list (take i (sent_sizes s)) = n + sum_list (take (i - j) (drop j (sent_sizes s)))"
      using take_add [of j "i - j" "sent_sizes s"] n(1) by simp
    then show False using i(1) n(3) by simp
  qed
  then have "take j (sent_sizes s) = take i (sent_sizes s) @ take (j - i) (drop i (sent_sizes s))"
    using take_add [of i "j - i" "sent_sizes s"] by simp
  then have "n = sum_list (take i (sent_sizes s)) + sum_list (take (j - i) (map of_bytes (ds_outstanding s)))"
    unfolding n(1) i(2) by (metis sum_list_append)
  then have left: "int n - ds_ackedBytes s = int (sum_list (map of_bytes (take (j - i) (ds_outstanding s))))"
    unfolding i(1) by (simp add: take_map)
  have pos: "\<forall>f \<in> set (ds_outstanding s). of_bytes f > 0"
  proof
    fix f assume "f \<in> set (ds_outstanding s)"
    then have "of_bytes f \<in> set (sent_sizes s)" using i(2) by (metis image_eqI in_set_dropD list.set_map)
    then obtain k bs where "(k, bs) \<in> set (ds_emitted s)" "of_bytes f = length bs" by (auto simp: sent_sizes_def)
    then show "of_bytes f > 0" using ok by (cases bs) (auto simp: sched_ok_def wire_ok_def good_bytes_def)
  qed
  have c: "consume (int n - ds_ackedBytes s) (ds_outstanding s) = (0, drop (j - i) (ds_outstanding s), False)"
    unfolding left by (rule consume_exact [OF pos])
  have "sum_list (map of_bytes (take (j - i) (ds_outstanding s))) \<le> sum_list (map of_bytes (ds_outstanding s))"
    by (subst (2) append_take_drop_id [of "j - i", symmetric]) (simp del: append_take_drop_id)
  then have beyond: "int n \<le> ds_ackedBytes s + ds_outstandingBytes s" using ok left by (simp add: sched_ok_def credit_ok_def)
  have cnt: "ack_count ?p = int n" "length ?p = 8" using n(2) ack_count_eq [of n] by (simp_all add: u8Write64_eq)
  have safe: "\<not> int n > 2 ^ 53 - 1" using n(2) by simp
  show "\<not> ds_closed (onAck now ?p s)" "ds_errors (onAck now ?p s) = ds_errors s" "ds_ackedBytes (onAck now ?p s) = int n"
    using open' n(3) beyond safe by (simp_all add: onAck_def Let_def cnt c schedulePump_def del: of_nat_diff)
qed

text \<open>
  Host and client together: the client gets the emitted frames in order, with keepalives in between,
  and the host the acknowledgements in order, both with any delay.
\<close>

record credit_sys =
  cs_host :: DownstreamScheduler
  cs_client :: AckLedger
  cs_got :: "TunnelFrame list"
  cs_acked :: nat \<comment> \<open>acknowledgements that have reached the host\<close>

abbreviation credited :: "TunnelFrame list \<Rightarrow> TunnelFrame list" where
  "credited got \<equiv> filter (\<lambda>f. tf_streamId f \<noteq> 0) got"

inductive credit_run :: "ports \<Rightarrow> nat \<Rightarrow> credit_sys \<Rightarrow> bool" for po threshold where
  cr_start: "credit_run po threshold \<lparr>cs_host = createDownstreamScheduler, cs_client = createAckLedger, cs_got = [], cs_acked = 0\<rparr>"
| cr_send: "credit_run po threshold c \<Longrightarrow> frame_ok f \<Longrightarrow> credit_run po threshold (c\<lparr>cs_host := snd (downstream_send f (cs_host c))\<rparr>)"
| cr_now: "credit_run po threshold c \<Longrightarrow> frame_ok f \<Longrightarrow> credit_run po threshold (c\<lparr>cs_host := sendNow now f (cs_host c)\<rparr>)"
| cr_cancel: "credit_run po threshold c \<Longrightarrow> credit_run po threshold (c\<lparr>cs_host := cancelStream k (cs_host c)\<rparr>)"
| cr_dispose: "credit_run po threshold c \<Longrightarrow> credit_run po threshold (c\<lparr>cs_host := downstream_dispose (cs_host c)\<rparr>)"
| cr_pump: "credit_run po threshold c \<Longrightarrow> downstream_pump po now (cs_host c) = Some s' \<Longrightarrow> credit_run po threshold (c\<lparr>cs_host := s'\<rparr>)"
| cr_frame: "credit_run po threshold c \<Longrightarrow> length (credited (cs_got c)) < length (ds_emitted (cs_host c)) \<Longrightarrow>
    decodeTunnelFrame (snd (ds_emitted (cs_host c) ! length (credited (cs_got c)))) = Inr f \<Longrightarrow>
    credit_run po threshold (c\<lparr>cs_client := noteFrame f (cs_client c), cs_got := cs_got c @ [f]\<rparr>)"
| cr_keepalive: "credit_run po threshold c \<Longrightarrow> tf_streamId f = 0 \<Longrightarrow>
    credit_run po threshold (c\<lparr>cs_client := noteFrame f (cs_client c), cs_got := cs_got c @ [f]\<rparr>)"
| cr_batch: "credit_run po threshold c \<Longrightarrow> credit_run po threshold (c\<lparr>cs_client := afterBatch threshold (cs_client c)\<rparr>)"
| cr_tail: "credit_run po threshold c \<Longrightarrow> al_tailTimer (cs_client c) \<Longrightarrow> credit_run po threshold (c\<lparr>cs_client := tail_fired (cs_client c)\<rparr>)"
| cr_ack: "credit_run po threshold c \<Longrightarrow> cs_acked c < length (al_acks (cs_client c)) \<Longrightarrow>
    credit_run po threshold (c\<lparr>cs_host := onAck now (al_acks (cs_client c) ! cs_acked c) (cs_host c), cs_acked := cs_acked c + 1\<rparr>)"

text \<open>
  The agreement of the two sides: the client has counted a prefix of what was emitted, and while the
  channel is open the host stands at the last acknowledgement it got.
\<close>

definition credit_inv :: "credit_sys \<Rightarrow> nat list \<Rightarrow> bool" where
  "credit_inv c counts \<longleftrightarrow> sched_ok (cs_host c) \<and> set (ds_errors (cs_host c)) \<inter> ack_errors = {} \<and>
     ledger_ok (cs_got c) (cs_client c) counts \<and> cs_acked c \<le> length counts \<and>
     prefix (map credit_bytes (credited (cs_got c))) (sent_sizes (cs_host c)) \<and>
     (\<not> ds_closed (cs_host c) \<longrightarrow> ds_ackedBytes (cs_host c) = int (last (0 # take (cs_acked c) counts)))"

lemma credit_total_credited: "credit_total fs = sum_list (map credit_bytes (credited fs))"
  by (induction fs) (auto simp: credit_total_def credit_bytes_def)

lemma inv_host:
  assumes "credit_inv c counts" "sched_ok s'" "prefix (ds_emitted (cs_host c)) (ds_emitted s')"
    "set (ds_errors s') \<inter> ack_errors \<subseteq> set (ds_errors (cs_host c))"
    "\<not> ds_closed s' \<longrightarrow> \<not> ds_closed (cs_host c) \<and> ds_ackedBytes s' = ds_ackedBytes (cs_host c)"
  shows "credit_inv (c\<lparr>cs_host := s'\<rparr>) counts"
proof -
  have "prefix (sent_sizes (cs_host c)) (sent_sizes s')" using assms(3) by (auto simp: sent_sizes_def prefix_def)
  then show ?thesis using assms by (auto simp: credit_inv_def intro: prefix_order.trans)
qed

lemma inv_client:
  assumes "credit_inv c counts" "\<exists>more. ledger_ok (cs_got c) l' (counts @ more)"
  shows "\<exists>counts. credit_inv (c\<lparr>cs_client := l'\<rparr>) counts"
proof -
  from assms(2) obtain more where "ledger_ok (cs_got c) l' (counts @ more)" by blast
  then show ?thesis using assms(1) by (intro exI [of _ "counts @ more"]) (simp add: credit_inv_def)
qed

lemma prefix_snoc_nth:
  assumes "prefix xs ys" "length xs < length ys"
  shows "prefix (xs @ [ys ! length xs]) ys"
proof -
  obtain zs where "ys = xs @ zs" using assms(1) by (auto simp: prefix_def)
  then show ?thesis using assms(2) by (cases zs) auto
qed

lemma sorted_step:
  assumes "sorted_wrt (<) (0 # counts)" "i < length counts"
  shows "last (0 # take i counts) < counts ! i"
proof (cases i)
  case 0
  then show ?thesis using assms by (cases counts) auto
next
  case (Suc m)
  then have "last (0 # take i counts) = counts ! m" using assms(2) by (simp add: take_Suc_conv_app_nth)
  then show ?thesis using Suc assms sorted_wrt_nth_less [of "(<)" counts m i] by simp
qed

lemma inv_frame:
  assumes inv: "credit_inv c counts" and n: "length (credited (cs_got c)) < length (ds_emitted (cs_host c))"
    and f: "decodeTunnelFrame (snd (ds_emitted (cs_host c) ! length (credited (cs_got c)))) = Inr f"
  shows "credit_inv (c\<lparr>cs_client := noteFrame f (cs_client c), cs_got := cs_got c @ [f]\<rparr>) counts"
proof -
  let ?g = "credited (cs_got c)"
  obtain k bs where e: "ds_emitted (cs_host c) ! length ?g = (k, bs)" by (cases "ds_emitted (cs_host c) ! length ?g")
  then have "(k, bs) \<in> set (ds_emitted (cs_host c))" using n nth_mem by metis
  then have k: "k \<noteq> 0" "good_bytes k bs" using inv by (auto simp: credit_inv_def sched_ok_def wire_ok_def)
  have dec: "decodeTunnelFrame bs = Inr f" using f e by simp
  have nz: "tf_streamId f \<noteq> 0" using k dec by (auto simp: good_bytes_def)
  have "credit_bytes f = length bs" using encode_decode [OF dec] nz
    by (simp add: credit_bytes_def encodeTunnelFrame_def Let_def TUNNEL_FRAME_HEADER_BYTES_def)
  then have "sent_sizes (cs_host c) ! length ?g = credit_bytes f" using n e by (simp add: sent_sizes_def)
  moreover have "length ?g < length (sent_sizes (cs_host c))" using n by (simp add: sent_sizes_def)
  moreover have "prefix (map credit_bytes ?g) (sent_sizes (cs_host c))" using inv by (simp add: credit_inv_def)
  ultimately have "prefix (map credit_bytes ?g @ [credit_bytes f]) (sent_sizes (cs_host c))"
    using prefix_snoc_nth [of "map credit_bytes ?g" "sent_sizes (cs_host c)"] by simp
  then show ?thesis using inv nz ledger_ok_frame [of "cs_got c" "cs_client c" counts f] by (simp add: credit_inv_def)
qed

lemma inv_ack:
  assumes inv: "credit_inv c counts" and n: "cs_acked c < length (al_acks (cs_client c))"
    and safe: "sum_list (sent_sizes (cs_host c)) \<le> 2 ^ 53 - 1"
  shows "credit_inv (c\<lparr>cs_host := onAck now (al_acks (cs_client c) ! cs_acked c) (cs_host c), cs_acked := cs_acked c + 1\<rparr>) counts"
proof -
  let ?h = "cs_host c" and ?i = "cs_acked c"
  have l: "ledger_ok (cs_got c) (cs_client c) counts" and ok: "sched_ok ?h" using inv by (simp_all add: credit_inv_def)
  have len: "?i < length counts" and ack: "al_acks (cs_client c) ! ?i = u8WriteBigUInt64BE (int (counts ! ?i))"
    using n l by (auto simp: ledger_ok_def)
  have next': "last (0 # take (Suc ?i) counts) = counts ! ?i" using len by (simp add: take_Suc_conv_app_nth)
  have grows: "last (0 # take ?i counts) < counts ! ?i"
    using l len by (intro sorted_step) (auto simp: ledger_ok_def)
  have "counts ! ?i \<in> set counts" using len by simp
  then obtain k where "counts ! ?i = credit_total (take k (cs_got c))" using l unfolding ledger_ok_def by blast
  moreover have "prefix (map credit_bytes (credited (take k (cs_got c)))) (map credit_bytes (credited (cs_got c)))"
    by (metis append_take_drop_id filter_append map_append prefixI)
  then have "prefix (map credit_bytes (credited (take k (cs_got c)))) (sent_sizes ?h)"
    using inv prefix_order.trans unfolding credit_inv_def by blast
  then obtain j where "map credit_bytes (credited (take k (cs_got c))) = take j (sent_sizes ?h)"
    by (metis append_eq_conv_conj prefix_def)
  ultimately have j: "counts ! ?i = sum_list (take j (sent_sizes ?h))" by (simp add: credit_total_credited)
  have "counts ! ?i \<le> sum_list (sent_sizes ?h)" unfolding j
    by (subst (2) append_take_drop_id [of j, symmetric]) (simp del: append_take_drop_id)
  then have le: "counts ! ?i \<le> 2 ^ 53 - 1" using safe by linarith
  have h: "sched_ok (onAck now (u8WriteBigUInt64BE (int (counts ! ?i))) ?h)" by (rule onAck_ok [OF ok])
  show ?thesis
  proof (cases "ds_closed ?h")
    case True
    then have "ds_closed (onAck now p ?h)" "ds_errors (onAck now p ?h) = ds_errors ?h" for p
      by (auto simp: onAck_def Let_def failChannel_def schedulePump_def split: prod.splits)
    then show ?thesis using inv h len onAck_keeps [OF ok, of now] unfolding ack by (simp add: credit_inv_def sent_sizes_def)
  next
    case False
    then have "ds_ackedBytes ?h < int (counts ! ?i)" using inv grows by (simp add: credit_inv_def)
    note a = onAck_lawful [OF ok False j le this, of now]
    show ?thesis using inv h len a next' onAck_keeps [OF ok, of now] unfolding ack by (simp add: credit_inv_def sent_sizes_def)
  qed
qed

lemma emitted_grows: "prefix (ds_emitted s) (ds_emitted (sendNow now f s))" "ds_emitted (snd (downstream_send f s)) = ds_emitted s"
  "ds_emitted (cancelStream k s) = ds_emitted s"
  by (auto simp: sendNow_def Let_def downstream_send_def failChannel_def reject_all_def schedulePump_def cancelStream_def split: option.splits)

lemma send_keeps:
  "set (ds_errors (snd (downstream_send f s))) \<inter> ack_errors \<subseteq> set (ds_errors s)"
  "\<not> ds_closed (snd (downstream_send f s)) \<longrightarrow> \<not> ds_closed s \<and> ds_ackedBytes (snd (downstream_send f s)) = ds_ackedBytes s"
  by (auto simp: downstream_send_def Let_def failChannel_def reject_all_def schedulePump_def ack_errors_def)

lemma now_keeps:
  "ds_errors (sendNow now f s) = ds_errors s" "ds_closed (sendNow now f s) = ds_closed s" "ds_ackedBytes (sendNow now f s) = ds_ackedBytes s"
  "ds_errors (cancelStream k s) = ds_errors s" "ds_closed (cancelStream k s) = ds_closed s" "ds_ackedBytes (cancelStream k s) = ds_ackedBytes s"
  by (auto simp: sendNow_def Let_def cancelStream_def split: option.splits)

text \<open>What was emitted only grows, so a bound on it held before.\<close>

lemma sum_prefix: "prefix xs ys \<Longrightarrow> sum_list xs \<le> sum_list ys" for xs :: "nat list"
  by (auto simp: prefix_def)

lemma credit_run_ok: "credit_run po threshold c \<Longrightarrow> sched_ok (cs_host c)"
proof (induction rule: credit_run.induct)
  case (cr_pump c now s')
  then show ?case using pump_spec [of "cs_host c" po now] by (auto simp: sched_ok_def accounts_kept_def)
qed (auto intro: sched_ok_init sendNow_ok onAck_ok cancelStream_ok dispose_ok send_ok)

text \<open>A step of the host other than an acknowledgement.\<close>

definition host_step :: "DownstreamScheduler \<Rightarrow> DownstreamScheduler \<Rightarrow> bool" where
  "host_step s s' \<longleftrightarrow> sched_ok s' \<and> prefix (ds_emitted s) (ds_emitted s') \<and> set (ds_errors s') \<inter> ack_errors \<subseteq> set (ds_errors s) \<and>
     (\<not> ds_closed s' \<longrightarrow> \<not> ds_closed s \<and> ds_ackedBytes s' = ds_ackedBytes s)"

lemma host_steps:
  assumes "sched_ok s"
  shows "frame_ok f \<Longrightarrow> host_step s (snd (downstream_send f s))" "frame_ok f \<Longrightarrow> host_step s (sendNow now f s)"
    "host_step s (cancelStream k s)" "host_step s (downstream_dispose s)"
    "downstream_pump po now s = Some s' \<Longrightarrow> host_step s s'"
proof -
  show "frame_ok f \<Longrightarrow> host_step s (snd (downstream_send f s))" "frame_ok f \<Longrightarrow> host_step s (sendNow now f s)" "host_step s (cancelStream k s)"
    using send_keeps [of f s] emitted_grows [where s = s]
    by (simp_all add: host_step_def send_ok [OF assms] sendNow_ok [OF assms] cancelStream_ok [OF assms] now_keeps)
  show "host_step s (downstream_dispose s)"
    using dispose_ok [OF assms] by (simp add: host_step_def) (simp add: downstream_dispose_def reject_all_def)
  show "host_step s s'" if "downstream_pump po now s = Some s'"
    using pump_spec [OF assms, of po now] that by (auto simp: host_step_def sched_ok_def accounts_kept_def)
qed

lemma inv_host_step:
  assumes "host_step (cs_host c) s'" "sum_list (sent_sizes s') \<le> b" "sum_list (sent_sizes (cs_host c)) \<le> b \<Longrightarrow> \<exists>counts. credit_inv c counts"
  shows "\<exists>counts. credit_inv (c\<lparr>cs_host := s'\<rparr>) counts"
proof -
  have "prefix (sent_sizes (cs_host c)) (sent_sizes s')" using assms(1) by (auto simp: host_step_def sent_sizes_def prefix_def)
  then have "sum_list (sent_sizes (cs_host c)) \<le> b" using sum_prefix assms(2) by (meson order_trans)
  then obtain counts where "credit_inv c counts" using assms(3) by blast
  then have "credit_inv (c\<lparr>cs_host := s'\<rparr>) counts" using assms(1) by (intro inv_host) (simp_all add: host_step_def)
  then show ?thesis by blast
qed

lemma open_accounts:
  assumes "sched_ok s" "\<not> ds_closed s"
  shows "ds_ackedBytes s + ds_outstandingBytes s = int (sum_list (sent_sizes s))"
proof -
  obtain n where "ds_ackedBytes s = int (sum_list (take n (sent_sizes s)))" "map of_bytes (ds_outstanding s) = drop n (sent_sizes s)"
    using assms by (auto simp: sched_ok_def credit_ok_def)
  moreover have "sum_list (take n (sent_sizes s)) + sum_list (drop n (sent_sizes s)) = sum_list (sent_sizes s)"
    by (metis append_take_drop_id sum_list_append)
  ultimately show ?thesis using assms(1) by (simp add: sched_ok_def credit_ok_def)
qed

lemma credit_run_inv:
  assumes "credit_run po threshold c" "sum_list (sent_sizes (cs_host c)) \<le> 2 ^ 53 - 1"
  shows "\<exists>counts. credit_inv c counts"
  using assms
proof (induction rule: credit_run.induct)
  case cr_start
  have "ledger_ok [] createAckLedger []" by (simp add: ledger_ok_def createAckLedger_def credit_total_def)
  then show ?case using sched_ok_init by (intro exI [of _ "[]"]) (simp add: credit_inv_def createDownstreamScheduler_def)
next
  case (cr_send c f)
  then show ?case using inv_host_step [OF host_steps(1) [OF credit_run_ok]] by simp
next
  case (cr_now c f now)
  then show ?case using inv_host_step [OF host_steps(2) [OF credit_run_ok]] by simp
next
  case (cr_cancel c k)
  then show ?case using inv_host_step [OF host_steps(3) [OF credit_run_ok]] by simp
next
  case (cr_dispose c)
  then show ?case using inv_host_step [OF host_steps(4) [OF credit_run_ok]] by simp
next
  case (cr_pump c now s')
  then show ?case using inv_host_step [OF host_steps(5) [OF credit_run_ok]] by simp
next
  case (cr_frame c f)
  then obtain counts where "credit_inv c counts" by auto
  then show ?case using inv_frame cr_frame(2,3) by blast
next
  case (cr_keepalive c f)
  then obtain counts where "credit_inv c counts" by auto
  then have "credit_inv (c\<lparr>cs_client := noteFrame f (cs_client c), cs_got := cs_got c @ [f]\<rparr>) counts"
    using ledger_ok_frame [of "cs_got c" "cs_client c" counts f] cr_keepalive(2) by (simp add: credit_inv_def)
  then show ?case by blast
next
  case (cr_batch c)
  then obtain counts where i: "credit_inv c counts" by auto
  then have "ledger_ok (cs_got c) (cs_client c) counts" by (simp add: credit_inv_def)
  then show ?case using inv_client [OF i ledger_ok_batch] by blast
next
  case (cr_tail c)
  then obtain counts where i: "credit_inv c counts" by auto
  then have "ledger_ok (cs_got c) (cs_client c) counts" by (simp add: credit_inv_def)
  then show ?case using inv_client [OF i] ledger_ok_tail by blast
next
  case (cr_ack c now)
  have "sum_list (sent_sizes (cs_host c)) \<le> 2 ^ 53 - 1"
    using cr_ack(4) onAck_keeps [OF credit_run_ok [OF cr_ack(1)], of now] by (simp add: sent_sizes_def)
  then show ?case using cr_ack inv_ack by blast
qed

text \<open>C10.
  Host and client agree on credit: whatever the host sends, cancels and pumps, however frames,
  keepalives and acknowledgements are delayed, an acknowledgement of a client that keeps the ledger
  never fails the channel, as long as less than \<open>2\<^sup>5\<^sup>3\<close> bytes were sent in all. While the channel is open
  acknowledged and outstanding bytes are together exactly what was sent, and the client has never
  counted more than that.
\<close>

theorem honest_client_is_never_failed:
  assumes "credit_run po threshold c" "sum_list (sent_sizes (cs_host c)) \<le> 2 ^ 53 - 1"
  shows "set (ds_errors (cs_host c)) \<inter> {AckTooShort, AckRegression, AckBeyondSent, AckOffBoundary} = {} \<and>
    al_receivedBytes (cs_client c) \<le> sum_list (sent_sizes (cs_host c)) \<and>
    (\<not> ds_closed (cs_host c) \<longrightarrow> ds_ackedBytes (cs_host c) + ds_outstandingBytes (cs_host c) = int (sum_list (sent_sizes (cs_host c))))"
proof -
  obtain counts where i: "credit_inv c counts" using credit_run_inv [OF assms] by blast
  then have "al_receivedBytes (cs_client c) \<le> sum_list (sent_sizes (cs_host c))"
    by (auto simp: credit_inv_def ledger_ok_def credit_total_credited intro: sum_prefix)
  moreover have "set (ds_errors (cs_host c)) \<inter> {AckTooShort, AckRegression, AckBeyondSent, AckOffBoundary} = {}"
    using i by (simp add: credit_inv_def ack_errors_def)
  ultimately show ?thesis using i open_accounts [of "cs_host c"] by (simp add: credit_inv_def)
qed

text \<open>A frame is sent, pumped, received, acknowledged by the tail timer, and the acknowledgement arrives.\<close>

definition demo_host :: DownstreamScheduler where
  "demo_host = the (downstream_pump demo_ports 7 (snd (downstream_send (demo_body 1 65) createDownstreamScheduler)))"

definition demo_client :: AckLedger where
  "demo_client = tail_fired (afterBatch 16 (noteFrame (demo_body 1 65) createAckLedger))"

definition demo_credit :: credit_sys where
  "demo_credit = \<lparr>cs_host = onAck 9 (al_acks demo_client ! 0) demo_host, cs_client = demo_client, cs_got = [demo_body 1 65], cs_acked = 1\<rparr>"

lemma demo_host_emitted: "map_option ds_emitted (downstream_pump demo_ports 7 (snd (downstream_send (demo_body 1 65) createDownstreamScheduler))) = Some [(1, [2, 0, 0, 0, 1, 65])]"
  by code_simp

lemma demo_values:
  "ds_emitted demo_host = [(1, [2, 0, 0, 0, 1, 65])]" "length (al_acks demo_client) = 1"
  "al_tailTimer (afterBatch 16 (noteFrame (demo_body 1 65) createAckLedger))"
  "ds_emitted (cs_host demo_credit) = [(1, [2, 0, 0, 0, 1, 65])]" "ds_closed (cs_host demo_credit) = False" "ds_ackedBytes (cs_host demo_credit) = 6"
  by code_simp+

lemma demo_credit_run: "credit_run demo_ports 16 demo_credit"
proof -
  let ?h1 = "snd (downstream_send (demo_body 1 65) createDownstreamScheduler)"
  let ?c = "\<lambda>h l got n. \<lparr>cs_host = h, cs_client = l, cs_got = got, cs_acked = n\<rparr>"
  have r1: "credit_run demo_ports 16 (?c ?h1 createAckLedger [] 0)" using cr_send [OF cr_start demo_body_ok(1)] by simp
  have "downstream_pump demo_ports 7 ?h1 = Some demo_host"
    using pump_spec [OF send_ok [OF sched_ok_init demo_body_ok(1) [of 65]], of demo_ports 7] by (auto simp: demo_host_def)
  then have r2: "credit_run demo_ports 16 (?c demo_host createAckLedger [] 0)" using cr_pump [OF r1, of 7 demo_host] by simp
  have "decodeTunnelFrame [2, 0, 0, 0, 1, 65] = Inr (demo_body 1 65)" by code_simp
  then have r3: "credit_run demo_ports 16 (?c demo_host (noteFrame (demo_body 1 65) createAckLedger) [demo_body 1 65] 0)"
    using cr_frame [OF r2, of "demo_body 1 65"] by (simp add: demo_values(1))
  have r4: "credit_run demo_ports 16 (?c demo_host demo_client [demo_body 1 65] 0)"
    using cr_tail [OF cr_batch [OF r3]] demo_values(3) by (simp add: demo_client_def)
  show ?thesis using cr_ack [OF r4, of 9] demo_values(2) by (simp add: demo_credit_def)
qed

theorem honest_client_is_never_failed_witness:
  "ds_ackedBytes (cs_host demo_credit) = 6 \<and> ds_outstandingBytes (cs_host demo_credit) = 0 \<and> al_receivedBytes (cs_client demo_credit) \<le> 6"
proof -
  have "sent_sizes (cs_host demo_credit) = [6]" by (simp add: sent_sizes_def demo_values(4))
  then show ?thesis using honest_client_is_never_failed [OF demo_credit_run] demo_values(5,6) by simp
qed

text \<open>
  The caps hold in every run: the window lies between 64 KiB and 1 MiB, the counter of outstanding
  bytes is the sum over the outstanding frames, and while the channel is open the queue counters
  count exactly what is queued, at most 4096 frames and 4 MiB.
\<close>

theorem scheduler_counters_exact:
  assumes "stream_run po lossy k l n m s"
  shows "64 * 1024 \<le> ds_windowBytes s \<and> ds_windowBytes s \<le> 1024 * 1024 \<and>
    ds_outstandingBytes s = int (sum_list (map of_bytes (ds_outstanding s))) \<and>
    (\<not> ds_closed s \<longrightarrow> ds_queuedFrames s = int (length (concat (map snd (ds_queues s)))) \<and> ds_queuedFrames s \<le> 4096 \<and>
      ds_queuedBytes s = int (sum_list (map (length \<circ> qe_bytes) (concat (map snd (ds_queues s))))) \<and> ds_queuedBytes s \<le> 4 * 1024 * 1024)"
  using stream_run_ok [OF assms]
  by (auto simp: sched_ok_def credit_ok_def INITIAL_WINDOW_BYTES_def MAX_WINDOW_BYTES_def MAX_QUEUE_FRAMES_def MAX_QUEUE_BYTES_def
      total_queued_def queued_size_def)

theorem scheduler_counters_exact_witness:
  "ds_queuedFrames demo_sched = 3 \<and> ds_queuedFrames demo_sched \<le> 4096 \<and> ds_queuedBytes demo_sched \<le> 4 * 1024 * 1024"
proof -
  have "ds_queuedFrames demo_sched = 3" "\<not> ds_closed demo_sched" by code_simp+
  then show ?thesis using scheduler_counters_exact [OF demo_stream_run] by simp
qed

section \<open>Where the window and the end of a channel are not respected\<close>

text \<open>
  The header of the source says that unacknowledged bytes never exceed the window. A late
  acknowledgement halves the window without regard to what is outstanding, which then exceeds it.
\<close>

definition big_bytes :: bytes where "big_bytes = [2, 0, 0, 0, 1] @ replicate 59995 65"

definition wide_sched :: DownstreamScheduler where
  "wide_sched = createDownstreamScheduler\<lparr>ds_windowBytes := 131072, ds_minRttMs := Some 5, ds_outstandingBytes := 120006,
     ds_outstanding := [\<lparr>of_streamId = 1, of_bytes = 6, of_sentAt = 0\<rparr>, \<lparr>of_streamId = 1, of_bytes = 60000, of_sentAt = 1\<rparr>,
       \<lparr>of_streamId = 1, of_bytes = 60000, of_sentAt = 2\<rparr>],
     ds_emitted := [(1, [2, 0, 0, 0, 1, 65]), (1, big_bytes), (1, big_bytes)]\<rparr>"

lemma wide_sched_ok: "sched_ok wide_sched"
proof -
  have "good_bytes 1 ([2, 0, 0, 0, 1] @ p)" for p
    by (simp add: good_bytes_def frame_numerals readUInt32BE_def)
  from this [of "[65]"] this [of "replicate 59995 65"] have w: "wire_ok wide_sched"
    by (simp add: wire_ok_def wide_sched_def createDownstreamScheduler_def good_queues_def big_bytes_def)
  have "sent_sizes wide_sched = [6, 60000, 60000]" by (simp add: sent_sizes_def wide_sched_def big_bytes_def)
  then have "credit_ok wide_sched"
    by (auto simp: credit_ok_def wide_sched_def createDownstreamScheduler_def INITIAL_WINDOW_BYTES_def MAX_WINDOW_BYTES_def
        MAX_QUEUE_FRAMES_def MAX_QUEUE_BYTES_def total_queued_def queued_size_def intro: exI [of _ 0])
  then show ?thesis using w by (simp add: sched_ok_def queues_ok_def wide_sched_def createDownstreamScheduler_def)
qed

theorem halved_window_is_exceeded:
  "let s = wide_sched; s' = onAck 1000 (u8WriteBigUInt64BE 6) s
   in sched_ok s \<and> ds_outstandingBytes s \<le> ds_windowBytes s \<and> \<not> ds_closed s' \<and> ds_outstandingBytes s' = 120000 \<and> ds_windowBytes s' = 65536"
proof -
  have a: "ack_count (u8WriteBigUInt64BE 6) = 6" "length (u8WriteBigUInt64BE 6) = 8" using ack_count_eq [of 6] by (simp_all add: u8Write64_eq)
  show ?thesis using wide_sched_ok
    by (simp add: onAck_def a) (simp add: wide_sched_def createDownstreamScheduler_def onAckTelemetry_def schedulePump_def
        WINDOW_GROW_RTT_SLACK_MS_def QUEUE_DELAY_TARGET_MS_def INITIAL_WINDOW_BYTES_def Let_def)
qed

text \<open>
  A round goes on over its snapshot after a dispatch has failed the channel: with an emitter that
  throws for the first stream, the frame of the second is emitted on the closed channel, its promise
  is rejected first and resolved later, and the queue counters drop below zero.
\<close>

definition failing_ports :: ports where
  "failing_ports = \<lparr>po_emit = \<lambda>bs. bs ! 4 \<noteq> 1, po_zero = \<lambda>_. True\<rparr>"

theorem round_continues_after_failure:
  "map_option (\<lambda>s. (ds_closed s, ds_errors s, ds_emitted s, ds_settled s, ds_queuedFrames s)) (downstream_pump failing_ports 7 demo_sched) =
     Some (True, [SendFailed], [(3, [2, 0, 0, 0, 3, 67])], [(0, Some SendFailed), (2, Some SendFailed), (1, Some SendFailed), (1, None)], -1)"
  by code_simp

end
