(* ===== verification/Auth_Limits.thy ===== *)
theory Auth_Limits
  imports Prelude
begin

text \<open>
  The attempt limiters (\<open>lib/auth/rate-limit.ts\<close>): the login limiter with its lockout, the
  limiter of pairing redemptions, the response headers and the environment overrides. Both
  limiters implement one interface; what a caller relies on is the locale
  \<open>sliding_window\<close>, proved of each. Lemmas: no more failures than the cap within any window,
  a lockout that lasts whatever else happens, and limits of different keys that do not touch.
  Times are epoch milliseconds; every operation takes the clock reading it uses.
\<close>

section \<open>The login limiter\<close>

record LoginRateLimitConfig =
  windowMs :: int
  maxAttempts :: nat
  noIpMaxAttempts :: nat
  lockoutMs :: int

record LoginRateLimitResult =
  rl_allowed :: bool
  rl_limit :: nat
  rl_remaining :: nat
  rl_resetAt :: int
  rl_locked :: bool
  rl_retryAfterSeconds :: "int option"

definition DEFAULT_RATE_LIMIT_CONFIG :: LoginRateLimitConfig where
  "DEFAULT_RATE_LIMIT_CONFIG = \<lparr>windowMs = 5 * 60000, maxAttempts = 10, noIpMaxAttempts = 3, lockoutMs = 15 * 60000\<rparr>"

record Bucket =
  bk_entries :: "int list"
  bk_lockedUntil :: int

type_synonym buckets = "(string \<times> Bucket) list"

definition capFor :: "LoginRateLimitConfig \<Rightarrow> string \<Rightarrow> nat" where
  "capFor config key = (if key = [] then noIpMaxAttempts config else maxAttempts config)"

text \<open>\<open>Math.ceil(x / 1000)\<close>.\<close>

definition ceil_seconds :: "int \<Rightarrow> int" where
  "ceil_seconds ms = - ((- ms) div 1000)"

definition lockedResult :: "nat \<Rightarrow> int \<Rightarrow> int \<Rightarrow> LoginRateLimitResult" where
  "lockedResult limit lockedUntil stamp = \<lparr>rl_allowed = False, rl_limit = limit, rl_remaining = 0,
     rl_resetAt = lockedUntil, rl_locked = True, rl_retryAfterSeconds = Some (max 1 (ceil_seconds (lockedUntil - stamp)))\<rparr>"

definition pruneBucket :: "string \<Rightarrow> LoginRateLimitConfig \<Rightarrow> int \<Rightarrow> buckets \<Rightarrow> Bucket option \<times> buckets" where
  "pruneBucket key config stamp buckets =
     (case map_of buckets key of
        None \<Rightarrow> (None, buckets)
      | Some bucket \<Rightarrow>
          (let entries = filter (\<lambda>entry. stamp - entry < windowMs config) (bk_entries bucket);
               lockedUntil = (if bk_lockedUntil bucket \<noteq> 0 \<and> bk_lockedUntil bucket \<le> stamp then 0 else bk_lockedUntil bucket);
               bucket' = \<lparr>bk_entries = entries, bk_lockedUntil = lockedUntil\<rparr>
           in if entries = [] \<and> lockedUntil = 0 then (None, AList.delete key buckets)
              else (Some bucket', AList.update key bucket' buckets)))"

definition login_attempt :: "LoginRateLimitConfig \<Rightarrow> string \<Rightarrow> int \<Rightarrow> buckets \<Rightarrow> LoginRateLimitResult \<times> buckets" where
  "login_attempt config key stamp buckets0 =
     (let limit = capFor config key
      in case pruneBucket key config stamp buckets0 of
           (None, buckets) \<Rightarrow>
             (\<lparr>rl_allowed = True, rl_limit = limit, rl_remaining = limit, rl_resetAt = stamp + windowMs config,
               rl_locked = False, rl_retryAfterSeconds = None\<rparr>, buckets)
         | (Some bucket, buckets) \<Rightarrow>
             if bk_lockedUntil bucket > stamp then (lockedResult limit (bk_lockedUntil bucket) stamp, buckets)
             else if length (bk_entries bucket) \<ge> limit then
               (let lockedUntil = stamp + lockoutMs config
                in (lockedResult limit lockedUntil stamp, AList.update key (bucket\<lparr>bk_lockedUntil := lockedUntil\<rparr>) buckets))
             else
               (\<lparr>rl_allowed = True, rl_limit = limit, rl_remaining = limit - length (bk_entries bucket),
                 rl_resetAt = (case bk_entries bucket of e # _ \<Rightarrow> e + windowMs config | [] \<Rightarrow> stamp + windowMs config),
                 rl_locked = False, rl_retryAfterSeconds = None\<rparr>, buckets))"

definition login_record :: "LoginRateLimitConfig \<Rightarrow> string \<Rightarrow> int \<Rightarrow> buckets \<Rightarrow> buckets" where
  "login_record config key now buckets =
     (let bucket = (case map_of buckets key of Some b \<Rightarrow> b | None \<Rightarrow> \<lparr>bk_entries = [], bk_lockedUntil = 0\<rparr>);
          entries = bk_entries bucket @ [now];
          lockedUntil = (if length entries > capFor config key \<and> bk_lockedUntil bucket = 0
                         then now + lockoutMs config else bk_lockedUntil bucket)
      in AList.update key \<lparr>bk_entries = entries, bk_lockedUntil = lockedUntil\<rparr> buckets)"

definition login_clear :: "string \<Rightarrow> buckets \<Rightarrow> buckets" where
  "login_clear key buckets = AList.delete key buckets"

text \<open>
  The environment overrides. \<open>Number(raw)\<close> is the argument \<open>number\<close>; a value counts when it is
  a safe integer and at least 1.
\<close>

definition positiveIntEnv :: "(string \<Rightarrow> jsnum) \<Rightarrow> (string \<rightharpoonup> string) \<Rightarrow> string \<Rightarrow> nat option" where
  "positiveIntEnv number env name =
     (case env name of
        None \<Rightarrow> None
      | Some raw \<Rightarrow>
          if trim raw = [] then None
          else (case number raw of
                  Fin q \<Rightarrow> if q = of_int \<lfloor>q\<rfloor> \<and> \<bar>\<lfloor>q\<rfloor>\<bar> \<le> 2 ^ 53 - 1 \<and> \<lfloor>q\<rfloor> \<ge> 1 then Some (nat \<lfloor>q\<rfloor>) else None
                | _ \<Rightarrow> None))"

definition envRateLimitOverrides :: "(string \<Rightarrow> jsnum) \<Rightarrow> (string \<rightharpoonup> string) \<Rightarrow> nat option \<times> nat option" where
  "envRateLimitOverrides number env =
     (positiveIntEnv number env ''NOTNATIVE_RATE_LIMIT_MAX_ATTEMPTS'',
      positiveIntEnv number env ''NOTNATIVE_RATE_LIMIT_NO_IP_MAX_ATTEMPTS'')"

section \<open>The redeem limiter\<close>

definition REDEEM_RATE_WINDOW_MS :: int where "REDEEM_RATE_WINDOW_MS = 5 * 60000"
definition REDEEM_RATE_MAX_ATTEMPTS :: nat where "REDEEM_RATE_MAX_ATTEMPTS = 10"

type_synonym redeem_buckets = "(string \<times> int list) list"

definition redeem_prune :: "int \<Rightarrow> string \<Rightarrow> int \<Rightarrow> redeem_buckets \<Rightarrow> int list option \<times> redeem_buckets" where
  "redeem_prune window key stamp buckets =
     (case map_of buckets key of
        None \<Rightarrow> (None, buckets)
      | Some entries \<Rightarrow>
          (let alive = filter (\<lambda>entry. stamp - entry < window) entries
           in if alive = [] then (None, AList.delete key buckets) else (Some alive, AList.update key alive buckets)))"

definition redeem_attempt :: "int \<Rightarrow> nat \<Rightarrow> string \<Rightarrow> int \<Rightarrow> redeem_buckets \<Rightarrow> LoginRateLimitResult \<times> redeem_buckets" where
  "redeem_attempt window cap key stamp buckets0 =
     (case redeem_prune window key stamp buckets0 of
        (None, buckets) \<Rightarrow>
          (\<lparr>rl_allowed = True, rl_limit = cap, rl_remaining = cap, rl_resetAt = stamp + window,
            rl_locked = False, rl_retryAfterSeconds = None\<rparr>, buckets)
      | (Some alive, buckets) \<Rightarrow>
          (let resetAt = hd alive + window
           in (if length alive \<ge> cap
               then \<lparr>rl_allowed = False, rl_limit = cap, rl_remaining = 0, rl_resetAt = resetAt, rl_locked = True,
                      rl_retryAfterSeconds = Some (max 1 (ceil_seconds (resetAt - stamp)))\<rparr>
               else \<lparr>rl_allowed = True, rl_limit = cap, rl_remaining = cap - length alive, rl_resetAt = resetAt,
                      rl_locked = False, rl_retryAfterSeconds = None\<rparr>, buckets)))"

definition redeem_record :: "string \<Rightarrow> int \<Rightarrow> redeem_buckets \<Rightarrow> redeem_buckets" where
  "redeem_record key now buckets =
     AList.update key ((case map_of buckets key of Some es \<Rightarrow> es | None \<Rightarrow> []) @ [now]) buckets"

definition redeem_clear :: "string \<Rightarrow> redeem_buckets \<Rightarrow> redeem_buckets" where
  "redeem_clear key buckets = AList.delete key buckets"

section \<open>Headers\<close>

definition rateLimitHeaders :: "LoginRateLimitResult \<Rightarrow> (string \<times> string) list" where
  "rateLimitHeaders result =
     [(''x-ratelimit-limit'', show_nat (rl_limit result)),
      (''x-ratelimit-remaining'', show_nat (rl_remaining result)),
      (''x-ratelimit-reset'', show_int (ceil_seconds (rl_resetAt result)))] @
     (case rl_retryAfterSeconds result of Some s \<Rightarrow> [(''retry-after'', show_int s)] | None \<Rightarrow> [])"

section \<open>A caller of a limiter\<close>

text \<open>
  The route handlers use a limiter in one way: ask, refuse when it does not allow, otherwise
  check the secret and record the failure or clear the key. A test of a secret at time \<open>t\<close> of a
  caller who does not know it; the result are the times at which a secret was tested.
\<close>

fun failed_tests :: "(string \<Rightarrow> int \<Rightarrow> 's \<Rightarrow> LoginRateLimitResult \<times> 's) \<Rightarrow> (string \<Rightarrow> int \<Rightarrow> 's \<Rightarrow> 's) \<Rightarrow> string \<Rightarrow> int list \<Rightarrow> 's \<Rightarrow> int list" where
  "failed_tests attempt record' key [] s = []"
| "failed_tests attempt record' key (t # ts) s =
     (case attempt key t s of
        (r, s') \<Rightarrow> if rl_allowed r then t # failed_tests attempt record' key ts (record' key t s')
                   else failed_tests attempt record' key ts s')"

lemma failed_tests_subset: "set (failed_tests attempt record' k ts s) \<subseteq> set ts"
  by (induction ts arbitrary: s) (auto split: prod.splits if_splits)

lemma failed_tests_sorted: "sorted ts \<Longrightarrow> sorted (failed_tests attempt record' k ts s)"
proof (induction ts arbitrary: s)
  case (Cons t ts)
  have "\<forall>x \<in> set (failed_tests attempt record' k ts s'). t \<le> x" for s'
    using Cons.prems failed_tests_subset [of attempt record' k ts s'] by auto
  then show ?case using Cons by (auto split: prod.splits)
qed simp

text \<open>The interface: what a caller relies on of either limiter.\<close>

locale sliding_window =
  fixes attempt :: "string \<Rightarrow> int \<Rightarrow> 's \<Rightarrow> LoginRateLimitResult \<times> 's"
    and record_failure :: "string \<Rightarrow> int \<Rightarrow> 's \<Rightarrow> 's"
    and clear_key :: "string \<Rightarrow> 's \<Rightarrow> 's"
    and remembered :: "string \<Rightarrow> 's \<Rightarrow> int list"
    and cap :: "string \<Rightarrow> nat"
    and window :: int
  assumes attempt_forgets_expired: "t \<le> t' \<Longrightarrow> filter (\<lambda>e. t' - e < window) (remembered k' (snd (attempt k t s))) =
      filter (\<lambda>e. t' - e < window) (remembered k' s)"
    and allowed_below_cap: "rl_allowed (fst (attempt k t s)) \<Longrightarrow> length (filter (\<lambda>e. t - e < window) (remembered k s)) < max 1 (cap k)"
    and record_remembers: "remembered k' (record_failure k t s) = remembered k' s @ (if k' = k then [t] else [])"
    and clear_forgets: "remembered k' (clear_key k s) = (if k' = k then [] else remembered k' s)"
begin

abbreviation live :: "string \<Rightarrow> int \<Rightarrow> 's \<Rightarrow> int list" where
  "live k t s \<equiv> filter (\<lambda>e. t - e < window) (remembered k s)"

text \<open>What is remembered covers the failures of the past, for every later moment.\<close>

lemma tests_bounded:
  assumes "sorted ts" "\<forall>t \<in> set ts. \<forall>e \<in> set past. e \<le> t"
    and "\<And>t. t \<in> set ts \<Longrightarrow> length (filter (\<lambda>e. t - e < window) past) \<le> length (live k t s)"
    and "failed_tests attempt record_failure k ts s = xs @ x # ys"
  shows "length (filter (\<lambda>e. x - e < window) (past @ xs)) < max 1 (cap k)"
  using assms
proof (induction ts arbitrary: s past xs)
  case (Cons t ts)
  obtain r s' where a: "attempt k t s = (r, s')" by fastforce
  have keep: "live k t' s' = live k t' s" if "t \<le> t'" for t'
    using attempt_forgets_expired [OF that, of k k s] a by simp
  have le: "t \<le> t'" if "t' \<in> set ts" for t' using Cons.prems(1) that by simp
  show ?case
  proof (cases "rl_allowed r")
    case False
    then show ?thesis using Cons.prems a keep le by (intro Cons.IH [of past s' xs]) auto
  next
    case True
    have fewer: "length (filter (\<lambda>e. t - e < window) past) < max 1 (cap k)"
      using allowed_below_cap [of k t s] True a Cons.prems(3) [of t] by simp
    show ?thesis
    proof (cases xs)
      case Nil
      then show ?thesis using Cons.prems(4) a True fewer by simp
    next
      case (Cons y xs')
      then have y: "y = t" and rest: "failed_tests attempt record_failure k ts (record_failure k t s') = xs' @ x # ys"
        using Cons.prems(4) a True by auto
      have "length (filter (\<lambda>e. x - e < window) ((past @ [t]) @ xs')) < max 1 (cap k)"
      proof (rule Cons.IH [OF _ _ _ rest])
        show "sorted ts" using Cons.prems(1) by simp
        show "\<forall>t' \<in> set ts. \<forall>e \<in> set (past @ [t]). e \<le> t'" using Cons.prems(2) le by auto
        show "length (filter (\<lambda>e. t' - e < window) (past @ [t])) \<le> length (live k t' (record_failure k t s'))" if "t' \<in> set ts" for t'
          using Cons.prems(3) [of t'] that keep [OF le [OF that]] by (simp add: record_remembers)
      qed
      then show ?thesis using Cons y by simp
    qed
  qed
qed simp

lemma cap_failures_span_window:
  assumes "sorted ts" "i + max 1 (cap k) < length (failed_tests attempt record_failure k ts s)"
  shows "failed_tests attempt record_failure k ts s ! (i + max 1 (cap k)) - failed_tests attempt record_failure k ts s ! i \<ge> window"
proof -
  let ?f = "failed_tests attempt record_failure k ts s" and ?n = "max 1 (cap k)"
  define x where "x = ?f ! (i + ?n)"
  have split: "?f = take (i + ?n) ?f @ x # drop (Suc (i + ?n)) ?f" unfolding x_def by (rule id_take_nth_drop [OF assms(2)])
  have few: "length (filter (\<lambda>e. x - e < window) (take (i + ?n) ?f)) < ?n"
    using tests_bounded [OF assms(1) _ _ split, of "[]"] by simp
  show ?thesis
  proof (rule ccontr)
    assume "\<not> ?thesis"
    then have near: "x - ?f ! i < window" by (simp add: x_def)
    have "x - e < window" if "e \<in> set (drop i (take (i + ?n) ?f))" for e
    proof -
      from that obtain j where "e = ?f ! (i + j)" "i + j < length ?f"
        by (auto simp: in_set_conv_nth)
      then have "?f ! i \<le> e" using sorted_nth_mono [OF failed_tests_sorted [OF assms(1)], of i "i + j"] by simp
      then show ?thesis using near by simp
    qed
    then have "length (filter (\<lambda>e. x - e < window) (drop i (take (i + ?n) ?f))) = ?n"
      using assms(2) by (simp add: filter_True)
    moreover have "length (filter (\<lambda>e. x - e < window) (drop i (take (i + ?n) ?f))) \<le> length (filter (\<lambda>e. x - e < window) (take (i + ?n) ?f))"
      by (metis append_take_drop_id filter_append length_append le_add2)
    ultimately show False using few by linarith
  qed
qed

end

section \<open>Both limiters keep the interface\<close>

definition login_entries :: "string \<Rightarrow> buckets \<Rightarrow> int list" where
  "login_entries key buckets = (case map_of buckets key of Some b \<Rightarrow> bk_entries b | None \<Rightarrow> [])"

definition redeem_entries :: "string \<Rightarrow> redeem_buckets \<Rightarrow> int list" where
  "redeem_entries key buckets = (case map_of buckets key of Some es \<Rightarrow> es | None \<Rightarrow> [])"

lemmas alist_maps = update_conv' AList.delete_conv'

lemma prune_other: "k' \<noteq> k \<Longrightarrow> map_of (snd (pruneBucket k config t s)) k' = map_of s k'"
  by (auto simp: pruneBucket_def Let_def alist_maps split: option.splits)

lemma prune_same:
  assumes "map_of s k = Some b"
  shows "pruneBucket k config t s =
    (let b' = \<lparr>bk_entries = filter (\<lambda>e. t - e < windowMs config) (bk_entries b),
               bk_lockedUntil = (if bk_lockedUntil b \<noteq> 0 \<and> bk_lockedUntil b \<le> t then 0 else bk_lockedUntil b)\<rparr>
     in if bk_entries b' = [] \<and> bk_lockedUntil b' = 0 then (None, AList.delete k s) else (Some b', AList.update k b' s))"
  using assms by (simp add: pruneBucket_def Let_def)

lemma filter_expired: "t \<le> t' \<Longrightarrow> filter (\<lambda>e. t' - e < w) (filter (\<lambda>e. t - e < w) es) = filter (\<lambda>e. t' - e < w) (es :: int list)"
  by (auto intro: filter_cong)

lemma attempt_other: "k' \<noteq> k \<Longrightarrow> map_of (snd (login_attempt config k t s)) k' = map_of s k'"
  using prune_other [of k' k config t s]
  by (auto simp: login_attempt_def Let_def alist_maps split: prod.splits option.splits)

lemma attempt_same_entries:
  "login_entries k (snd (login_attempt config k t s)) = filter (\<lambda>e. t - e < windowMs config) (login_entries k s)"
proof (cases "map_of s k")
  case None
  then show ?thesis by (simp add: login_attempt_def pruneBucket_def Let_def login_entries_def)
next
  case (Some b)
  then show ?thesis by (simp add: login_attempt_def prune_same [OF Some] Let_def login_entries_def alist_maps)
qed

lemma attempt_entries:
  assumes "t \<le> t'"
  shows "filter (\<lambda>e. t' - e < windowMs config) (login_entries k' (snd (login_attempt config k t s))) =
    filter (\<lambda>e. t' - e < windowMs config) (login_entries k' s)"
proof (cases "k' = k")
  case True
  then show ?thesis by (simp only: attempt_same_entries filter_expired [OF assms])
next
  case False
  then show ?thesis by (simp add: login_entries_def attempt_other)
qed

lemma redeem_same_entries:
  "redeem_entries k (snd (redeem_attempt window cap k t s)) = filter (\<lambda>e. t - e < window) (redeem_entries k s)"
  by (cases "map_of s k") (simp_all add: redeem_attempt_def redeem_prune_def Let_def redeem_entries_def alist_maps)

lemma redeem_other: "k' \<noteq> k \<Longrightarrow> redeem_entries k' (snd (redeem_attempt window cap k t s)) = redeem_entries k' s"
  by (cases "map_of s k") (simp_all add: redeem_attempt_def redeem_prune_def Let_def redeem_entries_def alist_maps)

lemma attempt_allowed:
  assumes "rl_allowed (fst (login_attempt config k t s))"
  shows "length (filter (\<lambda>e. t - e < windowMs config) (login_entries k s)) < max 1 (capFor config k)"
proof (cases "map_of s k")
  case (Some b)
  then show ?thesis using assms
    by (auto simp: login_attempt_def prune_same [OF Some] Let_def login_entries_def lockedResult_def split: if_splits)
qed (simp add: login_entries_def)

interpretation login: sliding_window "login_attempt config" "login_record config" login_clear login_entries "capFor config" "windowMs config"
  for config
proof
  show "t \<le> t' \<Longrightarrow> filter (\<lambda>e. t' - e < windowMs config) (login_entries k' (snd (login_attempt config k t s))) =
      filter (\<lambda>e. t' - e < windowMs config) (login_entries k' s)" for t t' k' k s
    by (rule attempt_entries)
  show "rl_allowed (fst (login_attempt config k t s)) \<Longrightarrow>
      length (filter (\<lambda>e. t - e < windowMs config) (login_entries k s)) < max 1 (capFor config k)" for k t s
    by (rule attempt_allowed)
qed (auto simp: login_record_def login_clear_def login_entries_def Let_def alist_maps split: option.splits)

interpretation redeem: sliding_window "redeem_attempt window cap" redeem_record redeem_clear redeem_entries "\<lambda>_. cap" window
  for window :: int and cap :: nat
proof
  show "t \<le> t' \<Longrightarrow> filter (\<lambda>e. t' - e < window) (redeem_entries k' (snd (redeem_attempt window cap k t s))) =
      filter (\<lambda>e. t' - e < window) (redeem_entries k' s)" for t t' k' k s
    by (cases "k' = k") (simp_all only: redeem_same_entries filter_expired redeem_other not_False_eq_True)
  show "rl_allowed (fst (redeem_attempt window cap k t s)) \<Longrightarrow>
      length (filter (\<lambda>e. t - e < window) (redeem_entries k s)) < max 1 cap" for k t s
    by (auto simp: redeem_attempt_def redeem_prune_def Let_def redeem_entries_def split: option.splits if_splits)
qed (auto simp: redeem_record_def redeem_clear_def redeem_entries_def alist_maps split: option.splits)

text \<open>C26.
  Guessing is bounded. Whoever calls the login or redeem route without knowing the secret, at
  whatever times, from whatever state of the limiter: of the tests of a secret that the limiter
  lets through for one key, any one and the one that is the cap's number of tests later lie at
  least a window apart.
\<close>

theorem guesses_per_window_bounded:
  assumes "sorted ts"
  shows "(\<forall>i. i + max 1 (capFor config k) < length (failed_tests (login_attempt config) (login_record config) k ts s) \<longrightarrow>
      failed_tests (login_attempt config) (login_record config) k ts s ! (i + max 1 (capFor config k)) -
      failed_tests (login_attempt config) (login_record config) k ts s ! i \<ge> windowMs config) \<and>
    (\<forall>i. i + max 1 cap < length (failed_tests (redeem_attempt window cap) redeem_record k ts s') \<longrightarrow>
      failed_tests (redeem_attempt window cap) redeem_record k ts s' ! (i + max 1 cap) -
      failed_tests (redeem_attempt window cap) redeem_record k ts s' ! i \<ge> window)"
  using login.cap_failures_span_window [OF assms] redeem.cap_failures_span_window [OF assms] by blast

definition small_config :: LoginRateLimitConfig where
  "small_config = \<lparr>windowMs = 100, maxAttempts = 2, noIpMaxAttempts = 1, lockoutMs = 30\<rparr>"

theorem guesses_per_window_bounded_witness:
  "failed_tests (login_attempt small_config) (login_record small_config) ''ip'' [0, 10, 20, 60, 110] [] = [0, 10, 110] \<and>
   (110 :: int) - 0 \<ge> windowMs small_config"
proof -
  have f: "failed_tests (login_attempt small_config) (login_record small_config) ''ip'' [0, 10, 20, 60, 110] [] = [0, 10, 110]"
    by code_simp
  have "capFor small_config ''ip'' = 2" by (simp add: capFor_def small_config_def)
  then show ?thesis
    using guesses_per_window_bounded [of "[0, 10, 20, 60, 110]" small_config "''ip''" "[]" 1 1 "[]"] f
    by (auto dest: spec [of _ 0])
qed

section \<open>Lockouts\<close>

lemma ceil_seconds_bounds: "d \<le> 1000 * ceil_seconds d \<and> 1000 * ceil_seconds d < d + 1000"
proof -
  have "- d = 1000 * ((- d) div 1000) + (- d) mod 1000" "0 \<le> (- d) mod 1000" "(- d) mod 1000 < 1000" by simp_all
  then show ?thesis unfolding ceil_seconds_def by linarith
qed

text \<open>One operation of the limiter at a moment; a successful login clears its key.\<close>

datatype limiter_op = OpAttempt string int | OpRecord string int | OpClear string

fun limiter_step :: "LoginRateLimitConfig \<Rightarrow> limiter_op \<Rightarrow> buckets \<Rightarrow> buckets" where
  "limiter_step config (OpAttempt k t) s = snd (login_attempt config k t s)"
| "limiter_step config (OpRecord k t) s = login_record config k t s"
| "limiter_step config (OpClear k) s = login_clear k s"

definition locked_until :: "string \<Rightarrow> int \<Rightarrow> buckets \<Rightarrow> bool" where
  "locked_until k u s \<longleftrightarrow> (\<exists>b. map_of s k = Some b \<and> bk_lockedUntil b = u)"

lemma attempt_locked:
  assumes "locked_until k u s" "t < u" "u \<noteq> 0"
  shows "fst (login_attempt config k t s) = lockedResult (capFor config k) u t \<and> locked_until k u (snd (login_attempt config k t s))"
proof -
  from assms(1) obtain b where b: "map_of s k = Some b" "bk_lockedUntil b = u" by (auto simp: locked_until_def)
  show ?thesis using b(2) assms(2,3)
    by (simp add: login_attempt_def prune_same [OF b(1)] Let_def locked_until_def alist_maps)
qed

lemma step_locked:
  assumes "locked_until k u s" "u \<noteq> 0" "case op' of OpAttempt k' t \<Rightarrow> t < u | OpRecord k' t \<Rightarrow> True | OpClear k' \<Rightarrow> k' \<noteq> k"
  shows "locked_until k u (limiter_step config op' s)"
proof (cases op')
  case (OpAttempt k' t)
  then show ?thesis using assms attempt_locked [OF assms(1), of t config] attempt_other [of k k' config t s]
    by (cases "k' = k") (auto simp: locked_until_def)
next
  case (OpRecord k' t)
  then show ?thesis using assms by (auto simp: locked_until_def login_record_def Let_def alist_maps)
next
  case (OpClear k')
  then show ?thesis using assms by (auto simp: locked_until_def login_clear_def alist_maps)
qed

lemma fold_locked:
  assumes "locked_until k u s" "u \<noteq> 0"
    and "\<forall>op' \<in> set ops. case op' of OpAttempt k' t \<Rightarrow> t < u | OpRecord k' t \<Rightarrow> True | OpClear k' \<Rightarrow> k' \<noteq> k"
  shows "locked_until k u (fold (limiter_step config) ops s)"
  using assms
proof (induction ops arbitrary: s)
  case (Cons op' ops)
  then show ?case using step_locked [OF Cons.prems(1,2), of op' config] by simp
qed simp

text \<open>
  A lockout lasts. When an attempt finds the cap reached the key is locked for the lockout time,
  and until then, whatever attempts on this and other keys, recorded failures and cleared other
  keys come in between, every attempt is refused, with the seconds that are left rounded up as
  the time to wait, at least one.
\<close>

theorem lockout_lasts:
  assumes "map_of s k = Some b" "bk_lockedUntil b \<le> t" "length (filter (\<lambda>e. t - e < windowMs config) (bk_entries b)) \<ge> max 1 (capFor config k)"
    and "0 < t" "0 < lockoutMs config" "t' < t + lockoutMs config"
    and "\<forall>op' \<in> set ops. case op' of OpAttempt k' u \<Rightarrow> u < t + lockoutMs config | OpRecord k' u \<Rightarrow> True | OpClear k' \<Rightarrow> k' \<noteq> k"
  shows "fst (login_attempt config k t s) = lockedResult (capFor config k) (t + lockoutMs config) t \<and>
    (let r = fst (login_attempt config k t' (fold (limiter_step config) ops (snd (login_attempt config k t s))))
     in \<not> rl_allowed r \<and> rl_resetAt r = t + lockoutMs config \<and>
        (\<exists>w. rl_retryAfterSeconds r = Some w \<and> w \<ge> 1 \<and> t + lockoutMs config \<le> t' + 1000 * w \<and>
          (t' + 1000 * w < t + lockoutMs config + 1000)))"
proof -
  let ?u = "t + lockoutMs config"
  have ne: "filter (\<lambda>e. t - e < windowMs config) (bk_entries b) \<noteq> []" using assms(3) by auto
  have first: "fst (login_attempt config k t s) = lockedResult (capFor config k) ?u t"
    and lk: "locked_until k ?u (snd (login_attempt config k t s))"
    using assms(2-4) ne by (auto simp: login_attempt_def prune_same [OF assms(1)] Let_def locked_until_def alist_maps)
  have "locked_until k ?u (fold (limiter_step config) ops (snd (login_attempt config k t s)))"
    using fold_locked [OF lk] assms(4,5,7) by simp
  note r = attempt_locked [OF this assms(6), of config]
  note w = ceil_seconds_bounds
  show ?thesis using first r w [of "?u - t'"] assms(4-6)
    by (auto simp: lockedResult_def Let_def max_def)
qed

theorem lockout_lasts_witness:
  "let s = [(''ip'', \<lparr>bk_entries = [90, 95], bk_lockedUntil = 0\<rparr>)];
       s' = fold (limiter_step small_config) [OpAttempt ''other'' 110, OpRecord ''ip'' 111] (snd (login_attempt small_config ''ip'' 100 s));
       r = fst (login_attempt small_config ''ip'' 120 s')
   in \<not> rl_allowed r \<and> rl_resetAt r = 130"
proof -
  have c: "capFor small_config ''ip'' = 2" "windowMs small_config = 100" "lockoutMs small_config = 30"
    by (simp_all add: capFor_def small_config_def)
  show ?thesis
    using lockout_lasts [of "[(''ip'', \<lparr>bk_entries = [90, 95], bk_lockedUntil = 0\<rparr>)]" "''ip''"
        "\<lparr>bk_entries = [90, 95], bk_lockedUntil = 0\<rparr>" 100 small_config 120 "[OpAttempt ''other'' 110, OpRecord ''ip'' 111]"]
    by (simp add: c Let_def)
qed

end
