(* ===== verification/Auth_Pairing.thy ===== *)
theory Auth_Pairing
  imports Prelude
begin

text \<open>
  The store of pairing sessions (\<open>lib/auth/pairing-sessions.ts\<close>): one-time, expiring, revocable
  grants that turn a device into a client. The file is the truth, every operation reads it
  first; the operations of several processes are modelled one after the other, as whole
  operations. A stored date is represented by its \<open>Date.parse\<close> value, \<open>None\<close> for a text that is
  not a date. The hash function, the random ids and secrets, and the minting of the client are
  arguments. Lemmas: a session is redeemed at most once, what a redemption checks and writes, and
  that a failed mint or a failed write leaves the session redeemable.
\<close>

section \<open>Data\<close>

definition PAIRING_ID_PREFIX :: string where "PAIRING_ID_PREFIX = ''pair_''"
definition PAIRING_TTL_MS :: int where "PAIRING_TTL_MS = 10 * 60000"
definition PAIRING_LABEL_MAX :: nat where "PAIRING_LABEL_MAX = 80"
definition KIND_VOCABULARY :: "string list" where "KIND_VOCABULARY = [''mobile'', ''desktop'']"
definition DEFAULT_ALLOWED_CLIENT_KINDS :: "string list" where "DEFAULT_ALLOWED_CLIENT_KINDS = [''mobile'', ''desktop'']"

type_synonym date = "int option"

record PairingSessionRecord =
  ps_id :: string
  ps_secretHash :: string
  ps_createdAt :: date
  ps_expiresAt :: date
  ps_usedAt :: "date option"
  ps_cancelledAt :: "date option"
  ps_clientId :: "string option"
  ps_label :: "string option"
  ps_fingerprint :: string
  ps_allowedClientKinds :: "string list"
  ps_createdByClientId :: "string option"
  ps_usesRelay :: bool

text \<open>The public view has every field but the hash of the secret.\<close>

record PublicPairingSession =
  pub_id :: string
  pub_createdAt :: date
  pub_expiresAt :: date
  pub_usedAt :: "date option"
  pub_cancelledAt :: "date option"
  pub_clientId :: "string option"
  pub_label :: "string option"
  pub_fingerprint :: string
  pub_allowedClientKinds :: "string list"
  pub_createdByClientId :: "string option"
  pub_usesRelay :: bool

definition publicView :: "PairingSessionRecord \<Rightarrow> PublicPairingSession" where
  "publicView r = \<lparr>pub_id = ps_id r, pub_createdAt = ps_createdAt r, pub_expiresAt = ps_expiresAt r,
     pub_usedAt = ps_usedAt r, pub_cancelledAt = ps_cancelledAt r, pub_clientId = ps_clientId r, pub_label = ps_label r,
     pub_fingerprint = ps_fingerprint r, pub_allowedClientKinds = ps_allowedClientKinds r,
     pub_createdByClientId = ps_createdByClientId r, pub_usesRelay = ps_usesRelay r\<rparr>"

record CreatePairingInput =
  ci_label :: unknown
  ci_allowedClientKinds :: unknown
  ci_createdByClientId :: unknown
  ci_usesRelay :: unknown

record RedeemPairingInput =
  ri_pairingId :: unknown
  ri_secret :: unknown
  ri_clientLabel :: unknown
  ri_clientKind :: unknown
  ri_deviceName :: unknown
  ri_devicePlatform :: unknown
  ri_deviceModel :: unknown
  ri_appVersion :: unknown
  ri_dedupeKey :: unknown

record CreateClientInput =
  cc_authMethod :: string
  cc_pairingId :: string
  cc_dedupeKey :: string
  cc_label :: "string option"
  cc_fallbackLabel :: string
  cc_clientKind :: string
  cc_usesRelay :: bool
  cc_deviceName :: "string option"
  cc_devicePlatform :: "string option"
  cc_deviceModel :: "string option"
  cc_appVersion :: "string option"

record CreatedClient =
  cl_id :: string
  cl_token :: string

type_synonym PairingMint = "CreateClientInput \<Rightarrow> string + CreatedClient"

datatype pairing_error = InvalidPairingSession | PairingStoreFault | MintFailure string | StoreWriteError

section \<open>Helpers\<close>

fun stringOf :: "unknown \<Rightarrow> string" where
  "stringOf (Some (JStr s)) = trim s"
| "stringOf _ = []"

fun firstMeaningful :: "string list \<Rightarrow> string" where
  "firstMeaningful [] = []"
| "firstMeaningful (v # vs) = (if v \<noteq> [] then v else firstMeaningful vs)"

text \<open>\<open>a || b\<close> on strings, and \<open>a || undefined\<close>.\<close>

definition or_else :: "string \<Rightarrow> string \<Rightarrow> string" where
  "or_else a b = (if a \<noteq> [] then a else b)"

definition or_undefined :: "string \<Rightarrow> string option" where
  "or_undefined a = (if a \<noteq> [] then Some a else None)"

fun normalizeLabel :: "unknown \<Rightarrow> string option" where
  "normalizeLabel (Some (JStr s)) = (if trim s = [] then None else Some (take PAIRING_LABEL_MAX (trim s)))"
| "normalizeLabel _ = None"

text \<open>\<open>[...new Set(...)]\<close> keeps the first occurrence of each kind.\<close>

definition normalizeKinds :: "unknown \<Rightarrow> string list" where
  "normalizeKinds value =
     (case value of
        Some (JArr vs) \<Rightarrow>
          (let picked = rev (remdups (rev (filter (\<lambda>k. k \<in> set KIND_VOCABULARY)
                 (List.map_filter (\<lambda>v. case v of JStr s \<Rightarrow> Some s | _ \<Rightarrow> None) vs))))
           in if picked \<noteq> [] then picked else DEFAULT_ALLOWED_CLIENT_KINDS)
      | _ \<Rightarrow> DEFAULT_ALLOWED_CLIENT_KINDS)"

definition hex_value :: "char \<Rightarrow> nat option" where
  "hex_value c = (let n = (of_char c :: nat)
     in if 48 \<le> n \<and> n \<le> 57 then Some (n - 48)
        else if 97 \<le> n \<and> n \<le> 102 then Some (n - 87)
        else if 65 \<le> n \<and> n \<le> 70 then Some (n - 55) else None)"

text \<open>\<open>Buffer.from(text, 'hex')\<close> stops at the first pair that is not hexadecimal.\<close>

fun from_hex :: "string \<Rightarrow> nat list" where
  "from_hex (a # b # rest) =
     (case (hex_value a, hex_value b) of (Some x, Some y) \<Rightarrow> (16 * x + y) # from_hex rest | _ \<Rightarrow> [])"
| "from_hex _ = []"

text \<open>\<open>timingSafeEqual\<close> throws on different lengths, which the code turns into \<open>false\<close>.\<close>

definition sameHash :: "string \<Rightarrow> string \<Rightarrow> bool" where
  "sameHash left right \<longleftrightarrow> length left = length right \<and> from_hex left = from_hex right"

section \<open>The store\<close>

text \<open>
  The file: absent or unreadable, or a list of entries, of which the ones that are not usable
  sessions are \<open>None\<close>. \<open>writeOk\<close> arguments say whether a write succeeds.
\<close>

record PairingSessionStore =
  st_sessions :: "PairingSessionRecord list"
  st_file :: "PairingSessionRecord option list option"

definition loadSessions :: "PairingSessionStore \<Rightarrow> PairingSessionStore" where
  "loadSessions store = store\<lparr>st_sessions :=
     (case st_file store of None \<Rightarrow> [] | Some entries \<Rightarrow> List.map_filter id entries)\<rparr>"

definition refreshFromDisk :: "PairingSessionStore \<Rightarrow> PairingSessionStore" where
  "refreshFromDisk store = loadSessions store"

definition save :: "bool \<Rightarrow> PairingSessionStore \<Rightarrow> bool \<times> PairingSessionStore" where
  "save writeOk store = (if writeOk then (True, store\<lparr>st_file := Some (map Some (st_sessions store))\<rparr>) else (False, store))"

text \<open>Comparisons with \<open>NaN\<close> are false.\<close>

definition later_than :: "date \<Rightarrow> int \<Rightarrow> bool" where
  "later_than d stamp = (case d of Some t \<Rightarrow> stamp < t | None \<Rightarrow> False)"

definition survives_sweep :: "int \<Rightarrow> PairingSessionRecord \<Rightarrow> bool" where
  "survives_sweep stamp session =
     (case (case ps_cancelledAt session of Some d \<Rightarrow> Some d | None \<Rightarrow> ps_usedAt session) of
        Some inactive \<Rightarrow> later_than (map_option (\<lambda>t. t + PAIRING_TTL_MS) inactive) stamp
      | None \<Rightarrow> later_than (ps_expiresAt session) stamp)"

definition sweep :: "int \<Rightarrow> PairingSessionStore \<Rightarrow> PairingSessionStore" where
  "sweep stamp store = store\<lparr>st_sessions := filter (survives_sweep stamp) (st_sessions store)\<rparr>"

definition find_session :: "string \<Rightarrow> PairingSessionRecord list \<Rightarrow> PairingSessionRecord option" where
  "find_session sid sessions = List.find (\<lambda>session. ps_id session = sid) sessions"

text \<open>Assignments to the fields of the record that \<open>find\<close> returned.\<close>

fun update_first :: "string \<Rightarrow> (PairingSessionRecord \<Rightarrow> PairingSessionRecord) \<Rightarrow> PairingSessionRecord list \<Rightarrow> PairingSessionRecord list" where
  "update_first sid f [] = []"
| "update_first sid f (s # ss) = (if ps_id s = sid then f s # ss else s # update_first sid f ss)"

record fresh_values =
  fv_id :: string
  fv_secret :: string
  fv_fingerprint :: string

definition createPairingSession ::
  "(string \<Rightarrow> string) \<Rightarrow> fresh_values \<Rightarrow> int \<Rightarrow> bool \<Rightarrow> CreatePairingInput \<Rightarrow> PairingSessionStore
     \<Rightarrow> (pairing_error + PublicPairingSession \<times> string) \<times> PairingSessionStore" where
  "createPairingSession sha256Hex fresh stamp writeOk input store0 =
     (let store = sweep stamp (refreshFromDisk store0);
          record' = \<lparr>ps_id = PAIRING_ID_PREFIX @ fv_id fresh, ps_secretHash = sha256Hex (fv_secret fresh),
            ps_createdAt = Some stamp, ps_expiresAt = Some (stamp + PAIRING_TTL_MS), ps_usedAt = None,
            ps_cancelledAt = None, ps_clientId = None, ps_label = normalizeLabel (ci_label input),
            ps_fingerprint = fv_fingerprint fresh, ps_allowedClientKinds = normalizeKinds (ci_allowedClientKinds input),
            ps_createdByClientId = (case ci_createdByClientId input of
               Some (JStr s) \<Rightarrow> if s \<noteq> [] then Some s else None | _ \<Rightarrow> None),
            ps_usesRelay = (ci_usesRelay input = Some (JBool True))\<rparr>;
          pushed = store\<lparr>st_sessions := st_sessions store @ [record']\<rparr>
      in case save writeOk pushed of
           (True, store') \<Rightarrow> (Inr (publicView record', fv_secret fresh), store')
         | (False, store') \<Rightarrow> (Inl StoreWriteError, store'))"

definition pending :: "int \<Rightarrow> PairingSessionRecord \<Rightarrow> bool" where
  "pending stamp session \<longleftrightarrow> ps_usedAt session = None \<and> ps_cancelledAt session = None \<and> later_than (ps_expiresAt session) stamp"

definition listPendingSessions :: "int \<Rightarrow> PairingSessionStore \<Rightarrow> PublicPairingSession list \<times> PairingSessionStore" where
  "listPendingSessions stamp store0 =
     (let store = refreshFromDisk store0 in (map publicView (filter (pending stamp) (st_sessions store)), store))"

definition hasActiveRelaySession :: "int \<Rightarrow> PairingSessionStore \<Rightarrow> bool \<times> PairingSessionStore" where
  "hasActiveRelaySession stamp store0 =
     (let store = refreshFromDisk store0
      in (list_ex (\<lambda>session. ps_usesRelay session \<and> pending stamp session) (st_sessions store), store))"

definition findSession :: "unknown \<Rightarrow> PairingSessionStore \<Rightarrow> PublicPairingSession option \<times> PairingSessionStore" where
  "findSession sid store0 =
     (let store = refreshFromDisk store0
      in (case sid of
            Some (JStr s) \<Rightarrow> if s = [] then None else map_option publicView (find_session s (st_sessions store))
          | _ \<Rightarrow> None, store))"

definition cancelPairingSession :: "int \<Rightarrow> bool \<Rightarrow> string \<Rightarrow> PairingSessionStore
    \<Rightarrow> (pairing_error + bool \<times> PublicPairingSession option) \<times> PairingSessionStore" where
  "cancelPairingSession now writeOk sid store0 =
     (let store = refreshFromDisk store0
      in case find_session sid (st_sessions store) of
           None \<Rightarrow> (Inr (False, None), store)
         | Some record' \<Rightarrow>
             if ps_cancelledAt record' \<noteq> None \<or> ps_usedAt record' \<noteq> None then (Inr (False, Some (publicView record')), store)
             else
               (let stamped = record'\<lparr>ps_cancelledAt := Some (Some now)\<rparr>;
                    store' = store\<lparr>st_sessions := update_first sid (\<lambda>_. stamped) (st_sessions store)\<rparr>
                in case save writeOk store' of
                     (True, store'') \<Rightarrow> (Inr (True, Some (publicView stamped)), store'')
                   | (False, store'') \<Rightarrow> (Inl StoreWriteError, store'')))"

text \<open>The checks of a redemption, in the order of the code; all fail alike.\<close>

definition redeem_checks :: "(string \<Rightarrow> string) \<Rightarrow> int \<Rightarrow> string \<Rightarrow> string \<Rightarrow> PairingSessionRecord \<Rightarrow> bool" where
  "redeem_checks sha256Hex now secret clientKind record' \<longleftrightarrow>
     ps_cancelledAt record' = None \<and> ps_usedAt record' = None \<and>
     \<not> (case ps_expiresAt record' of Some t \<Rightarrow> t \<le> now | None \<Rightarrow> False) \<and>
     clientKind \<in> set (ps_allowedClientKinds record') \<and> sameHash (sha256Hex secret) (ps_secretHash record')"

definition mint_input :: "RedeemPairingInput \<Rightarrow> PairingSessionRecord \<Rightarrow> CreateClientInput" where
  "mint_input input record' = \<lparr>cc_authMethod = ''pairing'', cc_pairingId = ps_id record',
     cc_dedupeKey = or_else (stringOf (ri_dedupeKey input)) (''pairing:'' @ ps_id record'),
     cc_label = ps_label record',
     cc_fallbackLabel = or_else (firstMeaningful [stringOf (ri_clientLabel input), stringOf (ri_deviceName input)]) ''Remote client'',
     cc_clientKind = or_else (stringOf (ri_clientKind input)) ''mobile'',
     cc_usesRelay = ps_usesRelay record',
     cc_deviceName = or_undefined (stringOf (ri_deviceName input)),
     cc_devicePlatform = or_undefined (stringOf (ri_devicePlatform input)),
     cc_deviceModel = or_undefined (stringOf (ri_deviceModel input)),
     cc_appVersion = or_undefined (stringOf (ri_appVersion input))\<rparr>"

definition redeemPairingSession ::
  "(string \<Rightarrow> string) \<Rightarrow> int \<Rightarrow> bool \<Rightarrow> PairingMint \<Rightarrow> RedeemPairingInput \<Rightarrow> PairingSessionStore
     \<Rightarrow> (pairing_error + PublicPairingSession \<times> CreatedClient) \<times> PairingSessionStore" where
  "redeemPairingSession sha256Hex now writeOk mint input store0 =
     (let pairingId = stringOf (ri_pairingId input);
          secret = stringOf (ri_secret input)
      in if pairingId = [] \<or> secret = [] then (Inl InvalidPairingSession, store0)
         else
           (let store = sweep now (refreshFromDisk store0)
            in case find_session pairingId (st_sessions store) of
                 None \<Rightarrow> (Inl InvalidPairingSession, store)
               | Some record' \<Rightarrow>
                   if \<not> redeem_checks sha256Hex now secret (or_else (stringOf (ri_clientKind input)) ''mobile'') record'
                   then (Inl InvalidPairingSession, store)
                   else
                     (case mint (mint_input input record') of
                        Inl cause \<Rightarrow> (Inl (MintFailure cause), store)
                      | Inr created \<Rightarrow>
                          (let stamped = record'\<lparr>ps_usedAt := Some (Some now), ps_clientId := Some (cl_id created)\<rparr>;
                               store' = store\<lparr>st_sessions := update_first pairingId (\<lambda>_. stamped) (st_sessions store)\<rparr>
                           in case save writeOk store' of
                                (True, store'') \<Rightarrow> (Inr (publicView stamped, created), store'')
                              | (False, store'') \<Rightarrow> (Inl PairingStoreFault,
                                  store''\<lparr>st_sessions := update_first pairingId
                                    (\<lambda>_. record'\<lparr>ps_usedAt := None, ps_clientId := None\<rparr>) (st_sessions store'')\<rparr>)))))"

section \<open>What each operation writes\<close>

text \<open>The usable sessions of the file.\<close>

definition sessions_of :: "PairingSessionStore \<Rightarrow> PairingSessionRecord list" where
  "sessions_of store = (case st_file store of None \<Rightarrow> [] | Some entries \<Rightarrow> List.map_filter id entries)"

lemma map_filter_Some [simp]: "List.map_filter id (map Some xs) = xs"
  by (induction xs) (simp_all add: List.map_filter_simps)

lemma pairing_refreshed [simp]:
  "st_sessions (refreshFromDisk store) = sessions_of store" "st_file (refreshFromDisk store) = st_file store"
  "st_sessions (sweep now s) = filter (survives_sweep now) (st_sessions s)" "st_file (sweep now s) = st_file s"
  by (simp_all add: refreshFromDisk_def loadSessions_def sessions_of_def sweep_def)

lemma sessions_of_simps [simp]:
  "sessions_of (s\<lparr>st_file := Some (map Some xs)\<rparr>) = xs" "sessions_of (s\<lparr>st_sessions := ys\<rparr>) = sessions_of s"
  "sessions_of (refreshFromDisk s) = sessions_of s" "sessions_of (sweep now s) = sessions_of s"
  by (simp_all add: sessions_of_def)

lemma update_first_id [simp]: "(\<And>s. ps_id s = sid \<Longrightarrow> ps_id (f s) = sid) \<Longrightarrow> map ps_id (update_first sid f ss) = map ps_id ss"
  by (induction ss) auto

lemma update_first_set:
  "distinct (map ps_id ss) \<Longrightarrow> set (update_first sid f ss) = (\<lambda>s. if ps_id s = sid then f s else s) ` set ss"
proof (induction ss)
  case (Cons s ss)
  have "(\<lambda>s. if ps_id s = sid then f s else s) ` set ss = set ss" if "ps_id s = sid"
    using Cons.prems that by (force simp: image_iff)
  then show ?case using Cons by auto
qed simp

lemma find_session_Some: "find_session sid ss = Some s \<Longrightarrow> s \<in> set ss \<and> ps_id s = sid"
  by (auto simp: find_session_def find_Some_iff)

lemma find_session_distinct:
  "distinct (map ps_id ss) \<Longrightarrow> s \<in> set ss \<Longrightarrow> find_session (ps_id s) ss = Some s"
  by (induction ss) (auto simp: find_session_def)

lemma find_session_filter:
  "distinct (map ps_id ss) \<Longrightarrow> find_session sid (filter P ss) = (case find_session sid ss of Some s \<Rightarrow> if P s then Some s else None | None \<Rightarrow> None)"
proof (induction ss)
  case (Cons s ss)
  have none: "find_session (ps_id s) (filter P ss) = None" using Cons.prems by (auto simp: find_session_def find_None_iff image_iff)
  then show ?case using Cons by (cases "ps_id s = sid") (auto simp: find_session_def)
qed (simp add: find_session_def)

lemma create_sessions:
  "sessions_of (snd (createPairingSession sha fresh stamp w input store)) =
     (if w then filter (survives_sweep stamp) (sessions_of store) @ [\<lparr>ps_id = PAIRING_ID_PREFIX @ fv_id fresh, ps_secretHash = sha (fv_secret fresh),
            ps_createdAt = Some stamp, ps_expiresAt = Some (stamp + PAIRING_TTL_MS), ps_usedAt = None,
            ps_cancelledAt = None, ps_clientId = None, ps_label = normalizeLabel (ci_label input),
            ps_fingerprint = fv_fingerprint fresh, ps_allowedClientKinds = normalizeKinds (ci_allowedClientKinds input),
            ps_createdByClientId = (case ci_createdByClientId input of
               Some (JStr s) \<Rightarrow> if s \<noteq> [] then Some s else None | _ \<Rightarrow> None),
            ps_usesRelay = (ci_usesRelay input = Some (JBool True))\<rparr>] else sessions_of store)"
  by (cases w) (simp_all add: createPairingSession_def Let_def save_def del: list.map map_append)

lemma cancel_sessions:
  "sessions_of (snd (cancelPairingSession now w sid store)) =
     (case find_session sid (sessions_of store) of
        Some r \<Rightarrow> if w \<and> ps_cancelledAt r = None \<and> ps_usedAt r = None
                  then update_first sid (\<lambda>_. r\<lparr>ps_cancelledAt := Some (Some now)\<rparr>) (sessions_of store) else sessions_of store
      | None \<Rightarrow> sessions_of store)"
  by (cases w) (auto simp: cancelPairingSession_def Let_def save_def split: option.splits)

text \<open>The record a redemption is about, when the input passes every check.\<close>

definition redeemable :: "(string \<Rightarrow> string) \<Rightarrow> int \<Rightarrow> RedeemPairingInput \<Rightarrow> PairingSessionStore \<Rightarrow> PairingSessionRecord option" where
  "redeemable sha now input store =
     (let pairingId = stringOf (ri_pairingId input); secret = stringOf (ri_secret input)
      in if pairingId = [] \<or> secret = [] then None
         else case find_session pairingId (filter (survives_sweep now) (sessions_of store)) of
           None \<Rightarrow> None
         | Some r \<Rightarrow> if redeem_checks sha now secret (or_else (stringOf (ri_clientKind input)) ''mobile'') r then Some r else None)"

lemma redeem_cases:
  "case redeemable sha now input store of
     None \<Rightarrow> fst (redeemPairingSession sha now w mint input store) = Inl InvalidPairingSession \<and>
       sessions_of (snd (redeemPairingSession sha now w mint input store)) = sessions_of store
   | Some r \<Rightarrow>
       (case mint (mint_input input r) of
          Inl cause \<Rightarrow> fst (redeemPairingSession sha now w mint input store) = Inl (MintFailure cause) \<and>
            sessions_of (snd (redeemPairingSession sha now w mint input store)) = sessions_of store
        | Inr created \<Rightarrow>
            (let used = r\<lparr>ps_usedAt := Some (Some now), ps_clientId := Some (cl_id created)\<rparr>
             in if w then fst (redeemPairingSession sha now w mint input store) = Inr (publicView used, created) \<and>
                  sessions_of (snd (redeemPairingSession sha now w mint input store)) =
                    update_first (ps_id r) (\<lambda>_. used) (filter (survives_sweep now) (sessions_of store))
                else fst (redeemPairingSession sha now w mint input store) = Inl PairingStoreFault \<and>
                  sessions_of (snd (redeemPairingSession sha now w mint input store)) = sessions_of store))"
proof -
  let ?p = "stringOf (ri_pairingId input)" and ?ss = "filter (survives_sweep now) (sessions_of store)"
  show ?thesis
  proof (cases "?p = [] \<or> stringOf (ri_secret input) = []")
    case True
    then show ?thesis by (auto simp: redeemable_def redeemPairingSession_def Let_def)
  next
    case ne: False
    show ?thesis
    proof (cases "find_session ?p ?ss")
      case None
      then show ?thesis using ne by (auto simp: redeemable_def redeemPairingSession_def Let_def)
    next
      case (Some r)
      then show ?thesis using ne find_session_Some [OF Some]
        by (cases w) (auto simp: redeemable_def redeemPairingSession_def Let_def save_def split: sum.splits)
    qed
  qed
qed

section \<open>A session is redeemed at most once\<close>

datatype pairing_op =
    PCreate fresh_values int bool CreatePairingInput
  | PCancel int bool string
  | PRedeem int bool PairingMint RedeemPairingInput
  | PList int

text \<open>One operation; the result is the id of the session a successful redemption consumed.\<close>

fun pairing_step :: "(string \<Rightarrow> string) \<Rightarrow> pairing_op \<Rightarrow> PairingSessionStore \<Rightarrow> string option \<times> PairingSessionStore" where
  "pairing_step sha (PCreate fresh t w input) s = (None, snd (createPairingSession sha fresh t w input s))"
| "pairing_step sha (PCancel t w sid) s = (None, snd (cancelPairingSession t w sid s))"
| "pairing_step sha (PRedeem t w mint input) s =
     (case redeemPairingSession sha t w mint input s of
        (Inr (view, _), s') \<Rightarrow> (Some (pub_id view), s')
      | (Inl _, s') \<Rightarrow> (None, s'))"
| "pairing_step sha (PList t) s = (None, snd (listPendingSessions t s))"

fun redeemed :: "(string \<Rightarrow> string) \<Rightarrow> pairing_op list \<Rightarrow> PairingSessionStore \<Rightarrow> string list" where
  "redeemed sha [] s = []"
| "redeemed sha (op' # ops) s =
     (case pairing_step sha op' s of
        (Some sid, s') \<Rightarrow> sid # redeemed sha ops s'
      | (None, s') \<Rightarrow> redeemed sha ops s')"

fun created_ids :: "pairing_op list \<Rightarrow> string list" where
  "created_ids [] = []"
| "created_ids (PCreate fresh t w input # ops) = (PAIRING_ID_PREFIX @ fv_id fresh) # created_ids ops"
| "created_ids (_ # ops) = created_ids ops"

definition spent :: "string \<Rightarrow> PairingSessionStore \<Rightarrow> bool" where
  "spent sid s \<longleftrightarrow> (\<forall>r \<in> set (sessions_of s). ps_id r = sid \<longrightarrow> ps_usedAt r \<noteq> None)"

lemma redeemable_props:
  assumes "redeemable sha now input store = Some r"
  shows "r \<in> set (sessions_of store)" "survives_sweep now r" "ps_id r = stringOf (ri_pairingId input)"
    "redeem_checks sha now (stringOf (ri_secret input)) (or_else (stringOf (ri_clientKind input)) ''mobile'') r"
  using assms by (auto simp: redeemable_def Let_def split: if_splits option.splits dest!: find_session_Some)

lemma redeem_None:
  assumes "redeemable sha now input store = None \<or> fst (pairing_step sha (PRedeem now w mint input) store) = None"
  shows "fst (pairing_step sha (PRedeem now w mint input) store) = None"
    "sessions_of (snd (pairing_step sha (PRedeem now w mint input) store)) = sessions_of store"
proof -
  let ?r = "redeemPairingSession sha now w mint input store"
  have "fst (pairing_step sha (PRedeem now w mint input) store) = (case fst ?r of Inr (view, _) \<Rightarrow> Some (pub_id view) | Inl _ \<Rightarrow> None)"
    "snd (pairing_step sha (PRedeem now w mint input) store) = snd ?r"
    by (auto split: prod.splits sum.splits)
  then show "fst (pairing_step sha (PRedeem now w mint input) store) = None"
    "sessions_of (snd (pairing_step sha (PRedeem now w mint input) store)) = sessions_of store"
    using redeem_cases [where sha = sha and now = now and input = input and store = store and w = w and mint = mint] assms
    by (auto simp: Let_def split: option.splits sum.splits if_splits)
qed

lemma redeem_Some:
  assumes "pairing_step sha (PRedeem now w mint input) store = (Some sid, store')"
  obtains r and created :: CreatedClient where "redeemable sha now input store = Some r" "sid = ps_id r"
    "sessions_of store' = update_first sid (\<lambda>_. r\<lparr>ps_usedAt := Some (Some now), ps_clientId := Some (cl_id created)\<rparr>)
       (filter (survives_sweep now) (sessions_of store))"
proof -
  let ?x = "redeemPairingSession sha now w mint input store"
  from assms obtain view c where x: "?x = (Inr (view, c), store')" "sid = pub_id view" by (auto split: prod.splits sum.splits)
  note c = redeem_cases [where sha = sha and now = now and input = input and store = store and w = w and mint = mint]
  obtain r where r: "redeemable sha now input store = Some r" using c x(1) by (cases "redeemable sha now input store") auto
  obtain created where m: "mint (mint_input input r) = Inr created" using c x(1) r by (cases "mint (mint_input input r)") auto
  have w using c x(1) r m by (auto simp: Let_def split: if_splits)
  then show ?thesis using c x r m by (intro that [of r created]) (auto simp: Let_def publicView_def)
qed

lemma step_spent:
  assumes "spent sid s" "sid \<notin> set (created_ids [op'])" "distinct (map ps_id (sessions_of s))"
  shows "fst (pairing_step sha op' s) \<noteq> Some sid \<and> spent sid (snd (pairing_step sha op' s))"
proof (cases op')
  case (PCreate fresh t w input)
  then show ?thesis using assms by (auto simp: spent_def create_sessions)
next
  case (PCancel t w c)
  then show ?thesis using assms
    by (auto simp: spent_def cancel_sessions update_first_set split: option.splits dest!: find_session_Some)
next
  case (PRedeem t w mint input)
  show ?thesis
  proof (cases "fst (pairing_step sha op' s)")
    case None
    then show ?thesis using redeem_None(2) [of sha t input s w mint] PRedeem assms(1) by (simp add: spent_def)
  next
    case (Some c)
    obtain s' where s': "pairing_step sha (PRedeem t w mint input) s = (Some c, s')" using Some PRedeem by (cases "pairing_step sha op' s") auto
    obtain r and created :: CreatedClient where r: "redeemable sha t input s = Some r" "c = ps_id r"
      and f: "sessions_of s' = update_first c (\<lambda>_. r\<lparr>ps_usedAt := Some (Some t), ps_clientId := Some (cl_id created)\<rparr>)
         (filter (survives_sweep t) (sessions_of s))"
      by (rule redeem_Some [OF s'])
    have "ps_usedAt r = None" using redeemable_props(4) [OF r(1)] by (simp add: redeem_checks_def)
    then have "c \<noteq> sid" using assms(1) redeemable_props(1) [OF r(1)] r(2) by (auto simp: spent_def)
    moreover have "distinct (map ps_id (filter (survives_sweep t) (sessions_of s)))" using assms(3) by (simp add: distinct_map_filter)
    ultimately show ?thesis using Some PRedeem s' assms(1) f r(2) by (auto simp: spent_def update_first_set)
  qed
next
  case (PList t)
  then show ?thesis using assms(1) by (simp add: spent_def listPendingSessions_def Let_def)
qed

lemma step_ids:
  assumes "distinct (map ps_id (sessions_of s) @ created_ids (op' # ops))"
  shows "distinct (map ps_id (sessions_of (snd (pairing_step sha op' s))) @ created_ids ops)"
proof -
  have sub: "distinct (map ps_id (filter P (sessions_of s)) @ created_ids ops)" for P
    using assms by (cases op') (auto simp: distinct_map_filter)
  show ?thesis
  proof (cases op')
    case (PCreate fresh t w input)
    then show ?thesis using assms by (auto simp: create_sessions distinct_map_filter)
  next
    case (PCancel t w c)
    have "map ps_id (sessions_of (snd (cancelPairingSession t w c s))) = map ps_id (sessions_of s)"
      by (auto simp: cancel_sessions split: option.splits dest!: find_session_Some)
    then show ?thesis using assms PCancel by simp
  next
    case (PRedeem t w mint input)
    show ?thesis
    proof (cases "fst (pairing_step sha op' s)")
      case None
      then show ?thesis using redeem_None(2) [of sha t input s w mint] PRedeem assms by simp
    next
      case (Some c)
      obtain s' where s': "pairing_step sha (PRedeem t w mint input) s = (Some c, s')" using Some PRedeem by (cases "pairing_step sha op' s") auto
      obtain r and created :: CreatedClient where r: "redeemable sha t input s = Some r" "c = ps_id r"
        and f: "sessions_of s' = update_first c (\<lambda>_. r\<lparr>ps_usedAt := Some (Some t), ps_clientId := Some (cl_id created)\<rparr>)
           (filter (survives_sweep t) (sessions_of s))"
        by (rule redeem_Some [OF s'])
      have "map ps_id (sessions_of s') = map ps_id (filter (survives_sweep t) (sessions_of s))" unfolding f using r(2) by simp
      then show ?thesis using PRedeem s' sub by simp
    qed
  next
    case (PList t)
    then show ?thesis using assms by (simp add: listPendingSessions_def Let_def)
  qed
qed

lemma spent_never_redeemed:
  assumes "spent sid s" "sid \<notin> set (created_ids ops)" "distinct (map ps_id (sessions_of s) @ created_ids ops)"
  shows "sid \<notin> set (redeemed sha ops s)"
  using assms
proof (induction ops arbitrary: s)
  case (Cons op' ops)
  have c: "sid \<notin> set (created_ids [op'])" "sid \<notin> set (created_ids ops)" using Cons.prems(2) by (cases op'; simp)+
  obtain o' s' where st: "pairing_step sha op' s = (o', s')" by fastforce
  have "o' \<noteq> Some sid" "spent sid s'" using step_spent [OF Cons.prems(1) c(1), of sha] Cons.prems(3) st by auto
  moreover have "distinct (map ps_id (sessions_of s') @ created_ids ops)" using step_ids [OF Cons.prems(3), of sha] st by simp
  ultimately show ?case using Cons.IH [of s'] c(2) st by (auto split: option.splits)
qed simp

text \<open>C9.
  A pairing session is redeemed at most once. In any sequence of creations, cancellations,
  listings and redemptions, with whatever clock readings, wrong secrets, failing mints and failing
  writes, every session id is consumed by at most one successful redemption, as long as the ids
  that are created are fresh.
\<close>

theorem session_redeemed_at_most_once:
  assumes "distinct (map ps_id (sessions_of s) @ created_ids ops)"
  shows "distinct (redeemed sha ops s)"
  using assms
proof (induction ops arbitrary: s)
  case (Cons op' ops)
  obtain o' s' where st: "pairing_step sha op' s = (o', s')" by fastforce
  have d: "distinct (map ps_id (sessions_of s') @ created_ids ops)" using step_ids [OF Cons.prems, of sha] st by simp
  have "sid \<notin> set (redeemed sha ops s')" if o: "o' = Some sid" for sid
  proof -
    from st o obtain t w mint input where op: "op' = PRedeem t w mint input" by (cases op') auto
    obtain r and created :: CreatedClient where r: "redeemable sha t input s = Some r" "sid = ps_id r"
      and f: "sessions_of s' = update_first sid (\<lambda>_. r\<lparr>ps_usedAt := Some (Some t), ps_clientId := Some (cl_id created)\<rparr>)
         (filter (survives_sweep t) (sessions_of s))"
      by (rule redeem_Some [OF st [unfolded op o]])
    have "distinct (map ps_id (filter (survives_sweep t) (sessions_of s)))" using Cons.prems by (simp add: distinct_map_filter)
    then have "spent sid s'" unfolding spent_def f by (auto simp: update_first_set)
    moreover have "sid \<notin> set (created_ids ops)" using redeemable_props(1) [OF r(1)] r(2) Cons.prems op by auto
    ultimately show ?thesis using spent_never_redeemed d by blast
  qed
  then show ?case using Cons.IH [OF d] st by (auto split: option.splits)
qed simp

section \<open>What a redemption checks, and retries\<close>

text \<open>
  A redemption succeeds only for a session of the file that is unused, not cancelled, not
  expired, allows the kind of client and has the hash of the secret; the file then holds the
  session as used by the minted client and every other session that the sweep keeps. Each failed
  check gives the same error. When the mint or the write fails the file is as before, and the
  same redemption, tried again with a mint and a write that work, succeeds.
\<close>

theorem redeem_is_checked_and_retry_safe:
  assumes "distinct (map ps_id (sessions_of s))"
    and res: "res = redeemPairingSession sha now w mint input s"
  shows "(\<forall>view created. fst res = Inr (view, created) \<longrightarrow>
      (\<exists>r \<in> set (sessions_of s). ps_id r = stringOf (ri_pairingId input) \<and> pub_id view = ps_id r \<and> pending now r \<and>
        or_else (stringOf (ri_clientKind input)) ''mobile'' \<in> set (ps_allowedClientKinds r) \<and>
        sameHash (sha (stringOf (ri_secret input))) (ps_secretHash r) \<and> mint (mint_input input r) = Inr created \<and>
        set (sessions_of (snd res)) = {x \<in> set (sessions_of s). survives_sweep now x \<and> x \<noteq> r} \<union>
          {r\<lparr>ps_usedAt := Some (Some now), ps_clientId := Some (cl_id created)\<rparr>})) \<and>
    (\<forall>e. fst res = Inl e \<longrightarrow> sessions_of (snd res) = sessions_of s \<and> e \<in> {InvalidPairingSession, PairingStoreFault} \<union> range MintFailure \<and>
      (e \<noteq> InvalidPairingSession \<longrightarrow> mint' (mint_input input (the (redeemable sha now input s))) = Inr created' \<longrightarrow>
        (\<exists>view. fst (redeemPairingSession sha now True mint' input (snd res)) = Inr (view, created'))))"
proof (intro conjI allI impI)
  note c = redeem_cases [where sha = sha and now = now and input = input and store = s and w = w and mint = mint, folded res]
  {
    fix view created assume x: "fst res = Inr (view, created)"
    obtain r where r: "redeemable sha now input s = Some r" using c x by (cases "redeemable sha now input s") auto
    obtain created1 where m: "mint (mint_input input r) = Inr created1" using c x r by (cases "mint (mint_input input r)") auto
    have w using c x r m by (auto simp: Let_def split: if_splits)
    then have v: "view = publicView (r\<lparr>ps_usedAt := Some (Some now), ps_clientId := Some (cl_id created)\<rparr>)" "created1 = created"
      and f: "sessions_of (snd res) = update_first (ps_id r) (\<lambda>_. r\<lparr>ps_usedAt := Some (Some now), ps_clientId := Some (cl_id created)\<rparr>)
        (filter (survives_sweep now) (sessions_of s))"
      using c x r m by (auto simp: Let_def)
    note p = redeemable_props [OF r]
    have pend: "pending now r" using p(2,4) by (auto simp: pending_def redeem_checks_def survives_sweep_def)
    have same: "x = r" if "x \<in> set (sessions_of s)" "ps_id x = ps_id r" for x
      using assms(1) p(1) that by (metis find_session_distinct option.inject)
    have "set (sessions_of (snd res)) = {x \<in> set (sessions_of s). survives_sweep now x \<and> x \<noteq> r} \<union>
        {r\<lparr>ps_usedAt := Some (Some now), ps_clientId := Some (cl_id created)\<rparr>}"
      unfolding f using assms(1) p(1,2) same by (auto simp: update_first_set distinct_map_filter)
    then show "\<exists>r \<in> set (sessions_of s). ps_id r = stringOf (ri_pairingId input) \<and> pub_id view = ps_id r \<and> pending now r \<and>
        or_else (stringOf (ri_clientKind input)) ''mobile'' \<in> set (ps_allowedClientKinds r) \<and>
        sameHash (sha (stringOf (ri_secret input))) (ps_secretHash r) \<and> mint (mint_input input r) = Inr created \<and>
        set (sessions_of (snd res)) = {x \<in> set (sessions_of s). survives_sweep now x \<and> x \<noteq> r} \<union>
          {r\<lparr>ps_usedAt := Some (Some now), ps_clientId := Some (cl_id created)\<rparr>}"
      using p pend v m by (intro bexI [of _ r]) (auto simp: redeem_checks_def publicView_def)
  }
  fix e assume e: "fst res = Inl e"
  show same: "sessions_of (snd res) = sessions_of s" "e \<in> {InvalidPairingSession, PairingStoreFault} \<union> range MintFailure"
    using c e by (auto simp: Let_def split: option.splits sum.splits if_splits)
  assume ne: "e \<noteq> InvalidPairingSession" and m: "mint' (mint_input input (the (redeemable sha now input s))) = Inr created'"
  have "redeemable sha now input s \<noteq> None" using c e ne by (auto split: option.splits)
  moreover have "redeemable sha now input (snd res) = redeemable sha now input s" using same(1) by (simp add: redeemable_def Let_def)
  ultimately show "\<exists>view. fst (redeemPairingSession sha now True mint' input (snd res)) = Inr (view, created')"
    using redeem_cases [where sha = sha and now = now and input = input and store = "snd res" and w = True and mint = mint'] m
    by (auto simp: Let_def split: option.splits)
qed

section \<open>A pairing\<close>

definition demo_mint :: PairingMint where
  "demo_mint input = Inr \<lparr>cl_id = ''client-1'', cl_token = ''tok''\<rparr>"

definition demo_session :: PairingSessionRecord where
  "demo_session = \<lparr>ps_id = ''pair_a'', ps_secretHash = ''00ff'', ps_createdAt = Some 0, ps_expiresAt = Some 600000,
     ps_usedAt = None, ps_cancelledAt = None, ps_clientId = None, ps_label = None, ps_fingerprint = ''AAAA-BBBB'',
     ps_allowedClientKinds = [''mobile''], ps_createdByClientId = None, ps_usesRelay = False\<rparr>"

definition demo_input :: RedeemPairingInput where
  "demo_input = \<lparr>ri_pairingId = Some (JStr ''pair_a''), ri_secret = Some (JStr ''s''), ri_clientLabel = None, ri_clientKind = None,
     ri_deviceName = None, ri_devicePlatform = None, ri_deviceModel = None, ri_appVersion = None, ri_dedupeKey = None\<rparr>"

definition demo_pairing_store :: PairingSessionStore where
  "demo_pairing_store = \<lparr>st_sessions = [], st_file = Some [None, Some demo_session]\<rparr>"

lemma demo_sessions: "sessions_of demo_pairing_store = [demo_session]"
  by (simp add: sessions_of_def demo_pairing_store_def List.map_filter_simps)

lemma demo_redeemable: "redeemable (\<lambda>_. ''00ff'') 5 demo_input demo_pairing_store = Some demo_session"
  by (simp add: redeemable_def demo_sessions demo_input_def demo_session_def survives_sweep_def later_than_def find_session_def
      redeem_checks_def or_else_def sameHash_def trim_def trim_end_def trim_start_def js_space_def)

theorem session_redeemed_at_most_once_witness:
  "distinct (redeemed (\<lambda>_. ''00ff'') [PRedeem 5 True demo_mint demo_input, PRedeem 6 True demo_mint demo_input] demo_pairing_store) \<and>
   redeemed (\<lambda>_. ''00ff'') [PRedeem 5 True demo_mint demo_input] demo_pairing_store = [''pair_a'']"
proof -
  have "redeemed (\<lambda>_. ''00ff'') [PRedeem 5 True demo_mint demo_input] demo_pairing_store = [''pair_a'']"
    using redeem_cases [where sha = "\<lambda>_. ''00ff''" and now = 5 and input = demo_input and store = demo_pairing_store and w = True and mint = demo_mint]
    by (auto simp: demo_redeemable demo_mint_def publicView_def demo_session_def Let_def split: prod.splits)
  then show ?thesis
    using session_redeemed_at_most_once [of demo_pairing_store "[PRedeem 5 True demo_mint demo_input, PRedeem 6 True demo_mint demo_input]"]
    by (simp add: demo_sessions)
qed

theorem redeem_is_checked_and_retry_safe_witness:
  "fst (redeemPairingSession (\<lambda>_. ''00ff'') 5 False demo_mint demo_input demo_pairing_store) = Inl PairingStoreFault \<and>
   (\<exists>view. fst (redeemPairingSession (\<lambda>_. ''00ff'') 5 True demo_mint demo_input
      (snd (redeemPairingSession (\<lambda>_. ''00ff'') 5 False demo_mint demo_input demo_pairing_store))) =
      Inr (view, \<lparr>cl_id = ''client-1'', cl_token = ''tok''\<rparr>))"
proof -
  have f: "fst (redeemPairingSession (\<lambda>_. ''00ff'') 5 False demo_mint demo_input demo_pairing_store) = Inl PairingStoreFault"
    using redeem_cases [where sha = "\<lambda>_. ''00ff''" and now = 5 and input = demo_input and store = demo_pairing_store and w = False and mint = demo_mint]
    by (simp add: demo_redeemable demo_mint_def Let_def)
  have m: "demo_mint x = Inr \<lparr>cl_id = ''client-1'', cl_token = ''tok''\<rparr>" for x by (simp add: demo_mint_def)
  show ?thesis
    using redeem_is_checked_and_retry_safe [OF _ refl, of demo_pairing_store "\<lambda>_. ''00ff''" 5 False demo_mint demo_input demo_mint] f m
    by (auto simp: demo_sessions)
qed

end
