(* ===== verification/Term_History.thy ===== *)
theory Term_History
  imports Prelude "HOL-Library.Word"
begin

text \<open>
  The sanitizer of terminal history (\<open>terminal/history.ts\<close>): replayed text is cleaned of query
  and reply sequences, with incomplete sequences carried from one chunk to the next. The scan by
  index over the combined text is written as a recursion over the text that is left. Lemmas: the
  chunks do not matter, the carried part is bounded, cleaned text is stable, and what the
  UTF-8-safe tail keeps.
\<close>

unbundle bit_operations_syntax

definition TERMINAL_HISTORY_MAX_BYTES :: nat where "TERMINAL_HISTORY_MAX_BYTES = 512 * 1024"
definition PARTIAL_SEQUENCE_LIMIT :: nat where "PARTIAL_SEQUENCE_LIMIT = 8192"

abbreviation ESC :: char where "ESC \<equiv> CHR 0x1B"
abbreviation BEL :: char where "BEL \<equiv> CHR 0x07"
abbreviation BACKSLASH :: char where "BACKSLASH \<equiv> CHR 0x5C"

section \<open>Ends of sequences\<close>

text \<open>The number of characters up to and with the final byte.\<close>

fun findCsiEnd :: "string \<Rightarrow> nat option" where
  "findCsiEnd [] = None"
| "findCsiEnd (c # cs) = (if 0x40 \<le> (of_char c :: nat) \<and> (of_char c :: nat) \<le> 0x7e then Some 1 else map_option Suc (findCsiEnd cs))"

fun findStringEnd :: "string \<Rightarrow> nat option" where
  "findStringEnd [] = None"
| "findStringEnd (c # cs) =
     (if c = BEL then Some 1
      else if c = ESC \<and> (case cs of d # _ \<Rightarrow> d = BACKSLASH | [] \<Rightarrow> False) then Some 2
      else map_option Suc (findStringEnd cs))"

section \<open>Query exchanges\<close>

definition param_char :: "char \<Rightarrow> bool" where
  "param_char c \<longleftrightarrow> is_digit c \<or> c = CHR '';''"

text \<open>\<open>^P*F$\<close> and \<open>^P*SF$\<close>: parameter characters and a fixed end.\<close>

definition params_then :: "string \<Rightarrow> string \<Rightarrow> bool" where
  "params_then final s \<longleftrightarrow> dropWhile param_char s = final"

definition decrqm_report :: "string \<Rightarrow> bool" where
  "decrqm_report s \<longleftrightarrow> takeWhile is_digit s \<noteq> [] \<and>
     (case dropWhile is_digit s of
        c # rest \<Rightarrow> c = CHR '';'' \<and> takeWhile is_digit rest \<noteq> [] \<and> dropWhile is_digit rest = ''$y''
      | [] \<Rightarrow> False)"

fun isQueryExchange :: "string \<Rightarrow> bool" where
  "isQueryExchange (a # rest) =
     (a = CHR ''['' \<and>
       (case rest of
          [] \<Rightarrow> False
        | q # tail \<Rightarrow>
            q = CHR ''?'' \<and> (params_then ''c'' tail \<or> params_then ''$p'' tail \<or> decrqm_report tail \<or> tail \<in> {''2031h'', ''2031l''}) \<or>
            params_then ''n'' rest \<or> params_then ''R'' rest))"
| "isQueryExchange [] = False"

section \<open>The scan\<close>

definition string_intro :: "char \<Rightarrow> bool" where
  "string_intro c \<longleftrightarrow> c \<in> {CHR '']'', CHR ''P'', CHR ''X'', CHR ''^'', CHR ''_''}"

text \<open>
  The bounded carry: the partial sequence of the state afterwards; an oversized one is abandoned
  with the rest of the chunk.
\<close>

definition carryPartialSequence :: "string \<Rightarrow> string" where
  "carryPartialSequence rest = (if length rest > PARTIAL_SEQUENCE_LIMIT then [] else rest)"

text \<open>
  The scan with the treatment of an unterminated sequence as an argument: text up to the next
  escape is copied, character by character here, in one slice in the code.
\<close>

function scan :: "(string \<Rightarrow> string) \<Rightarrow> string \<Rightarrow> string \<times> string" where
  "scan carry [] = ([], [])"
| "scan carry (c # rest) =
     (if c \<noteq> ESC then (case scan carry rest of (out, partial) \<Rightarrow> (c # out, partial))
      else case rest of
             [] \<Rightarrow> ([], [ESC])
           | intro # body \<Rightarrow>
               if intro = CHR ''['' then
                 (case findCsiEnd body of
                    None \<Rightarrow> ([], carry (c # rest))
                  | Some n \<Rightarrow>
                      (case scan carry (drop n body) of
                         (out, partial) \<Rightarrow> ((if isQueryExchange (intro # take n body) then [] else c # intro # take n body) @ out, partial)))
               else if string_intro intro then
                 (case findStringEnd body of
                    None \<Rightarrow> ([], carry (c # rest))
                  | Some n \<Rightarrow> scan carry (drop n body))
               else if intro = BACKSLASH then scan carry body
               else (case scan carry body of (out, partial) \<Rightarrow> (c # intro # out, partial)))"
  by pat_completeness auto

termination
  by (relation "measure (\<lambda>(_, s). length s)") auto

declare scan.simps [simp del]

text \<open>The scan without a limit, for reference: every unterminated sequence is carried.\<close>

definition keep_partial :: "string \<Rightarrow> string" where
  "keep_partial rest = rest"

definition sanitize :: "string \<Rightarrow> string \<Rightarrow> string \<times> string" where
  "sanitize partial chunk = scan carryPartialSequence (partial @ chunk)"

text \<open>\<open>createHistorySanitizer\<close>: the state is the partial sequence.\<close>

fun push_chunks :: "string \<Rightarrow> string list \<Rightarrow> string \<times> string" where
  "push_chunks partial [] = ([], partial)"
| "push_chunks partial (c # cs) =
     (case sanitize partial c of (out, partial') \<Rightarrow>
        (case push_chunks partial' cs of (outs, final) \<Rightarrow> (out @ outs, final)))"

definition flush_partial :: "string \<Rightarrow> string \<times> string" where
  "flush_partial partial = (partial, [])"

section \<open>The tail of a text in UTF-8\<close>

text \<open>The text as its UTF-8 bytes; the loop that skips continuation bytes.\<close>

definition utf8SafeTail :: "8 word list \<Rightarrow> nat \<Rightarrow> 8 word list" where
  "utf8SafeTail buffer maxBytes =
     (if length buffer \<le> maxBytes then buffer
      else dropWhile (\<lambda>b. b AND 0xc0 = 0x80) (drop (length buffer - maxBytes) buffer))"

section \<open>Chunks do not matter\<close>

lemma findCsiEnd_bound: "findCsiEnd s = Some n \<Longrightarrow> n \<le> length s \<and> findCsiEnd (take n s @ b) = Some n"
  by (induction s arbitrary: n) (auto split: if_splits)

lemma findStringEnd_bound: "findStringEnd s = Some n \<Longrightarrow> n \<le> length s \<and> findStringEnd (s @ b) = Some n"
proof (induction s arbitrary: n)
  case (Cons c cs)
  show ?case
  proof (cases cs)
    case Nil
    then show ?thesis using Cons.prems by (simp split: if_splits)
  next
    case (Cons d ds)
    have rec: "n = Suc m \<Longrightarrow> findStringEnd cs = Some m \<Longrightarrow> m \<le> length cs \<and> findStringEnd (cs @ b) = Some m" for m
      using Cons.IH by simp
    show ?thesis
    proof (cases "c = BEL \<or> c = ESC \<and> d = BACKSLASH")
      case True
      then show ?thesis using Cons.prems Cons by auto
    next
      case False
      then obtain m where m: "n = Suc m" "findStringEnd cs = Some m" using Cons.prems Cons
        by (auto simp: findStringEnd.simps(2) [of c "d # ds"] simp del: findStringEnd.simps)
      then have "findStringEnd (c # cs @ b) = Some n" using False Cons rec [OF m] by (subst findStringEnd.simps(2)) auto
      then show ?thesis using rec [OF m] m(1) by simp
    qed
  qed
qed simp

lemma findCsiEnd_append: "findCsiEnd s = Some n \<Longrightarrow> findCsiEnd (s @ b) = Some n"
  by (induction s arbitrary: n) (auto split: if_splits)

text \<open>The scan at an escape, and over plain text.\<close>

lemma scan_plain: "ESC \<notin> set a \<Longrightarrow> scan carry (a @ b) = (a @ fst (scan carry b), snd (scan carry b))"
  by (induction a) (auto simp: scan.simps(2))

lemma scan_Nil [simp]: "scan carry [] = ([], [])"
  by (simp add: scan.simps)

lemma scan_esc [simp]: "scan carry [ESC] = ([], [ESC])"
  by (simp add: scan.simps)

lemma scan_csi:
  "scan carry (ESC # CHR ''['' # body) =
     (case findCsiEnd body of
        None \<Rightarrow> ([], carry (ESC # CHR ''['' # body))
      | Some n \<Rightarrow> ((if isQueryExchange (CHR ''['' # take n body) then [] else ESC # CHR ''['' # take n body) @ fst (scan carry (drop n body)),
                   snd (scan carry (drop n body))))"
  by (simp add: scan.simps(2) [of _ ESC] case_prod_beta split: option.splits)

lemma scan_string:
  "string_intro i \<Longrightarrow> scan carry (ESC # i # body) =
     (case findStringEnd body of
        None \<Rightarrow> ([], carry (ESC # i # body))
      | Some n \<Rightarrow> scan carry (drop n body))"
  by (auto simp: scan.simps(2) [of _ ESC] string_intro_def split: option.splits)

lemma scan_pair:
  "\<not> string_intro i \<Longrightarrow> i \<noteq> CHR ''['' \<Longrightarrow> scan carry (ESC # i # body) =
     ((if i = BACKSLASH then [] else [ESC, i]) @ fst (scan carry body), snd (scan carry body))"
  by (simp add: scan.simps(2) [of _ ESC] case_prod_beta)

lemma text_cases [case_names plain esc csi string pair]:
  fixes s :: string
  obtains (plain) "ESC \<notin> set s"
  | (esc) a where "ESC \<notin> set a" "s = a @ [ESC]"
  | (csi) a body where "ESC \<notin> set a" "s = a @ ESC # CHR ''['' # body"
  | (string) a i body where "ESC \<notin> set a" "s = a @ ESC # i # body" "string_intro i"
  | (pair) a i body where "ESC \<notin> set a" "s = a @ ESC # i # body" "\<not> string_intro i" "i \<noteq> CHR ''[''"
proof (cases "ESC \<in> set s")
  case True
  then obtain a b where s: "s = a @ ESC # b" "ESC \<notin> set a" by (meson split_list_first)
  show ?thesis
  proof (cases b)
    case Nil
    then show ?thesis using s esc by blast
  next
    case (Cons i body)
    then show ?thesis using s csi string pair by (cases "i = CHR ''[''"; cases "string_intro i") auto
  qed
qed (rule plain)

lemma scan_carry: "scan carryPartialSequence s = (fst (scan keep_partial s), carryPartialSequence (snd (scan keep_partial s)))"
proof (induction "length s" arbitrary: s rule: less_induct)
  case less
  have short: "carryPartialSequence [] = []" "carryPartialSequence [ESC] = [ESC]"
    by (simp_all add: carryPartialSequence_def PARTIAL_SEQUENCE_LIMIT_def)
  show ?case
  proof (cases s rule: text_cases)
    case plain
    then show ?thesis using scan_plain [of s _ "[]"] by (simp add: short)
  next
    case (esc a)
    then show ?thesis by (simp add: scan_plain short)
  next
    case (csi a body)
    then show ?thesis using less [of "drop _ body"] by (auto simp: keep_partial_def [of "ESC # _"] scan_plain scan_csi split: option.splits)
  next
    case (string a i body)
    then show ?thesis using less [of "drop _ body"] by (auto simp: keep_partial_def [of "ESC # _"] scan_plain scan_string split: option.splits)
  next
    case (pair a i body)
    then show ?thesis using less [of body] by (auto simp: scan_plain scan_pair)
  qed
qed

lemma scan_append:
  "scan keep_partial (s @ b) = (fst (scan keep_partial s) @ fst (scan keep_partial (snd (scan keep_partial s) @ b)), snd (scan keep_partial (snd (scan keep_partial s) @ b)))"
proof (induction "length s" arbitrary: s rule: less_induct)
  case less
  show ?case
  proof (cases s rule: text_cases)
    case plain
    then show ?thesis using scan_plain [of s keep_partial "[]"] by (simp add: scan_plain)
  next
    case (esc a)
    then show ?thesis by (simp add: scan_plain)
  next
    case (csi a body)
    show ?thesis
    proof (cases "findCsiEnd body")
      case None
      then show ?thesis using csi by (simp add: keep_partial_def [of "ESC # _"] scan_plain scan_csi [of _ body])
    next
      case (Some n)
      then have n: "n \<le> length body" "findCsiEnd (body @ b) = Some n" using findCsiEnd_bound findCsiEnd_append by blast+
      then show ?thesis using csi Some less [of "drop n body"] by (simp add: scan_plain scan_csi)
    qed
  next
    case (string a i body)
    show ?thesis
    proof (cases "findStringEnd body")
      case None
      then show ?thesis using string by (simp add: keep_partial_def [of "ESC # _"] scan_plain scan_string [of _ _ body])
    next
      case (Some n)
      then have n: "n \<le> length body" "findStringEnd (body @ b) = Some n" using findStringEnd_bound by blast+
      then show ?thesis using string Some less [of "drop n body"] by (simp add: scan_plain scan_string)
    qed
  next
    case (pair a i body)
    then show ?thesis using less [of body] by (simp add: scan_plain scan_pair)
  qed
qed

lemma push_chunks_from:
  assumes "\<forall>k \<le> length cs. length (snd (scan keep_partial (a @ concat (take k cs)))) \<le> PARTIAL_SEQUENCE_LIMIT"
  shows "(fst (scan keep_partial a) @ fst (push_chunks (snd (scan keep_partial a)) cs), snd (push_chunks (snd (scan keep_partial a)) cs)) = scan keep_partial (a @ concat cs)"
  using assms
proof (induction cs arbitrary: a)
  case (Cons c cs)
  let ?p = "snd (scan keep_partial a)"
  have ap: "scan keep_partial (a @ c) = (fst (scan keep_partial a) @ fst (scan keep_partial (?p @ c)), snd (scan keep_partial (?p @ c)))" by (rule scan_append)
  have "length (snd (scan keep_partial (a @ c))) \<le> PARTIAL_SEQUENCE_LIMIT" using Cons.prems [rule_format, of 1] by simp
  then have s: "sanitize ?p c = scan keep_partial (?p @ c)"
    unfolding sanitize_def scan_carry ap by (simp add: carryPartialSequence_def prod_eq_iff)
  have "(fst (scan keep_partial (a @ c)) @ fst (push_chunks (snd (scan keep_partial (a @ c))) cs), snd (push_chunks (snd (scan keep_partial (a @ c))) cs)) =
      scan keep_partial ((a @ c) @ concat cs)"
    by (rule Cons.IH) (use Cons.prems [rule_format, of "Suc _"] in simp)
  then show ?case by (simp add: s ap case_prod_beta)
qed simp

text \<open>C32.
  Within the carry limit the cutting of the output into chunks does not matter: when no escape
  sequence that is still open at the end of a chunk is longer than the 8192 characters that are
  carried over, feeding a text chunk by chunk gives the same cleaned text and leaves the same
  partial sequence as feeding it at once. A longer open sequence is given up with the rest of its
  chunk, and then the cutting does matter.
\<close>

theorem chunks_do_not_matter:
  assumes "\<forall>k \<le> length cs. length (snd (scan keep_partial (concat (take k cs)))) \<le> PARTIAL_SEQUENCE_LIMIT"
  shows "push_chunks [] cs = sanitize [] (concat cs)"
proof -
  have "length (snd (scan keep_partial (concat cs))) \<le> PARTIAL_SEQUENCE_LIMIT" using assms [rule_format, of "length cs"] by simp
  then have "sanitize [] (concat cs) = scan keep_partial (concat cs)"
    by (simp add: sanitize_def scan_carry carryPartialSequence_def)
  then show ?thesis using push_chunks_from [of cs "[]"] assms by simp
qed

theorem chunks_do_not_matter_witness:
  "push_chunks [] [''a'' @ [ESC], ''[6'', ''nb'']  = sanitize [] (''a'' @ ESC # ''[6nb'') \<and>
   sanitize [] (''a'' @ ESC # ''[6nb'') = (''ab'', [])"
proof -
  let ?cs = "[''a'' @ [ESC], ''[6'', ''nb'']"
  have "list_all (\<lambda>k. length (snd (scan keep_partial (concat (take k ?cs)))) \<le> 100) [0, 1, 2, 3]" by code_simp
  moreover have "sanitize [] (''a'' @ ESC # ''[6nb'') = (''ab'', [])"
    unfolding sanitize_def scan_carry by code_simp
  moreover have "k \<in> {0, 1, 2, 3}" if "k \<le> length ?cs" for k using that by auto
  ultimately show ?thesis using chunks_do_not_matter [of ?cs] by (force simp: PARTIAL_SEQUENCE_LIMIT_def)
qed

section \<open>Cleaned text\<close>

lemma scan_stable: "scan carry (fst (scan keep_partial s)) = (fst (scan keep_partial s), [])"
proof (induction "length s" arbitrary: s rule: less_induct)
  case less
  show ?case
  proof (cases s rule: text_cases)
    case plain
    then show ?thesis using scan_plain [of s _ "[]"] by simp
  next
    case (esc a)
    then show ?thesis using scan_plain [of a _ "[]"] by (simp add: scan_plain)
  next
    case (csi a body)
    show ?thesis
    proof (cases "findCsiEnd body")
      case None
      then show ?thesis using csi scan_plain [of a _ "[]"] by (simp add: scan_plain scan_csi)
    next
      case (Some n)
      then have n: "n \<le> length body" "findCsiEnd (take n body @ fst (scan keep_partial (drop n body))) = Some n" using findCsiEnd_bound by blast+
      then show ?thesis using csi Some less [of "drop n body"] by (simp add: scan_plain scan_csi)
    qed
  next
    case (string a i body)
    then show ?thesis using less [of "drop _ body"] scan_plain [of a _ "[]"]
      by (auto simp: scan_plain scan_string split: option.splits)
  next
    case (pair a i body)
    then show ?thesis using less [of body] by (auto simp: scan_plain scan_pair)
  qed
qed

text \<open>
  What is cleaned stays as it is: scanning the output of a push again, in any state of the
  limit, removes nothing and leaves nothing open; and the partial sequence that is carried never
  exceeds its limit.
\<close>

theorem cleaned_text_is_stable:
  "sanitize [] (fst (sanitize p chunk)) = (fst (sanitize p chunk), []) \<and> length (snd (sanitize p chunk)) \<le> PARTIAL_SEQUENCE_LIMIT"
  unfolding sanitize_def scan_carry
  by (simp add: scan_stable carryPartialSequence_def prod_eq_iff)

text \<open>
  The scan pairs an escape with the character after it, another escape included. A terminal that
  restarts a sequence at the second escape still sees the query: a cursor report request behind
  a doubled escape survives the cleaning.
\<close>

theorem doubled_escape_keeps_query:
  "sanitize [] (ESC # ESC # ''[6n'') = (ESC # ESC # ''[6n'', []) \<and> isQueryExchange ''[6n''"
  unfolding sanitize_def scan_carry by code_simp

text \<open>
  The tail of a text keeps at most the given number of bytes, is the end of the text, starts at
  a character boundary, and drops beyond the cut only continuation bytes.
\<close>

theorem utf8_tail_is_bounded_suffix:
  "length (utf8SafeTail buffer n) \<le> n \<and> (\<exists>cut. buffer = cut @ utf8SafeTail buffer n) \<and>
   (n < length buffer \<longrightarrow> (case utf8SafeTail buffer n of [] \<Rightarrow> True | b # _ \<Rightarrow> b AND 0xc0 \<noteq> 0x80))"
proof -
  let ?r = "dropWhile (\<lambda>b. b AND 0xc0 = 0x80) (drop (length buffer - n) buffer)"
  have "length ?r \<le> length (drop (length buffer - n) buffer)" by (rule length_dropWhile_le)
  moreover have "\<exists>cut. buffer = cut @ ?r"
    by (metis append.assoc append_take_drop_id takeWhile_dropWhile_id)
  moreover have "case ?r of [] \<Rightarrow> True | b # _ \<Rightarrow> b AND 0xc0 \<noteq> 0x80"
    using hd_dropWhile [of "\<lambda>b. b AND 0xc0 = 0x80" "drop (length buffer - n) buffer"]
    by (cases ?r) (simp_all del: dropWhile_eq_Nil_conv)
  ultimately show ?thesis by (auto simp: utf8SafeTail_def)
qed

end
