(* ===== verification/Sync_Queues.thy ===== *)
theory Sync_Queues
  imports Prelude
begin

text \<open>
  The event queues of the browser's pipeline (\<open>ui/src/sync/pipeline-queues.ts\<close>), the delivery of
  one event (\<open>createDeliver\<close> of \<open>pipeline-attempts.ts\<close>) and the cursor for the next connection
  (\<open>event-pipeline.ts\<close>). Events are queued per directory; events with a coalescing key share a slot
  that an index finds, barriers empty slots, and a timer publishes the queue. Lemmas: the slots and
  their index compute a coalescing that is defined on the plain list of pending events; events
  without a key are published exactly once and in order; pending events always have a timer; the
  delays of reconnecting are bounded. The text of numbers (\<open>String(n)\<close>) is the argument \<open>sn\<close>.
\<close>

section \<open>Events\<close>

record HarnessEvent =
  ev_id :: "string option"
  ev_type :: string
  ev_properties :: unknown
  ev_directory :: "string option"

definition nullish :: "unknown \<Rightarrow> bool" where
  "nullish v \<longleftrightarrow> v = None \<or> v = Some JNull"

definition or_nullish :: "unknown \<Rightarrow> unknown \<Rightarrow> unknown" where
  "or_nullish a b = (if nullish a then b else a)"

definition loose :: "unknown \<Rightarrow> json" where
  "loose v = (case v of None \<Rightarrow> JObj [] | Some JNull \<Rightarrow> JObj [] | Some j \<Rightarrow> j)"

definition event_props :: "HarnessEvent \<Rightarrow> json" where
  "event_props event = loose (ev_properties event)"

text \<open>\<open>String(value)\<close>; arrays are joined with commas, their empty entries left out.\<close>

fun js_String :: "(jsnum \<Rightarrow> string) \<Rightarrow> json \<Rightarrow> string" where
  "js_String sn JNull = ''null''"
| "js_String sn (JBool b) = (if b then ''true'' else ''false'')"
| "js_String sn (JNum n) = sn n"
| "js_String sn (JStr s) = s"
| "js_String sn (JArr xs) = (case map (\<lambda>x. if x = JNull then [] else js_String sn x) xs of [] \<Rightarrow> []
     | s # ss \<Rightarrow> s @ concat (map (\<lambda>t. '','' @ t) ss))"
| "js_String sn (JObj kvs) = ''[object Object]''"

definition string_or_empty :: "(jsnum \<Rightarrow> string) \<Rightarrow> unknown \<Rightarrow> string" where
  "string_or_empty sn v = (if nullish v then [] else js_String sn (the v))"

text \<open>\<open>/^(.*)\.(\d+)$/\<close>: digits at the end behind a dot; the dot of the pattern matches no line end.\<close>

definition foldEventType :: "string \<Rightarrow> string" where
  "foldEventType type =
     (let digits = takeWhile is_digit (rev type); rest = dropWhile is_digit (rev type)
      in case rest of
           c # p \<Rightarrow> if digits \<noteq> [] \<and> c = CHR ''.'' \<and> LF \<notin> set p \<and> CHR 0x0D \<notin> set p then rev p else type
         | [] \<Rightarrow> type)"

definition isHeartbeatType :: "string \<Rightarrow> bool" where
  "isHeartbeatType type \<longleftrightarrow> type = ''heartbeat'' \<or> type = ''ping''"

fun nonempty_string :: "unknown \<Rightarrow> string option" where
  "nonempty_string (Some (JStr s)) = (if s \<noteq> [] then Some s else None)"
| "nonempty_string _ = None"

definition resolveEventDirectory :: "HarnessEvent \<Rightarrow> string" where
  "resolveEventDirectory event =
     (let props = event_props event
      in case ev_directory event of
           Some (c # d) \<Rightarrow> c # d
         | _ \<Rightarrow> (case nonempty_string (prop_of props ''directory'') of
             Some d \<Rightarrow> d
           | None \<Rightarrow> (case Option.bind (prop_of props ''info'') (\<lambda>info. nonempty_string (prop_of info ''directory'')) of
               Some d \<Rightarrow> d
             | None \<Rightarrow> ''global'')))"

section \<open>Coalescing\<close>

definition delta_key :: "string \<Rightarrow> string \<Rightarrow> string \<Rightarrow> string" where
  "delta_key messageID partID field = ''message.part.delta:'' @ messageID @ '':'' @ partID @ '':'' @ field"

definition coalescingKey :: "HarnessEvent \<Rightarrow> string option" where
  "coalescingKey event =
     (let props = event_props event
      in if ev_type event = ''session.status'' then
           (case prop_of props ''sessionID'' of Some (JStr i) \<Rightarrow> Some (''session.status:'' @ i) | _ \<Rightarrow> None)
         else if ev_type event = ''session.updated'' then
           (case or_nullish (Option.bind (prop_of props ''info'') (\<lambda>info. prop_of info ''id'')) (prop_of props ''sessionID'') of
              Some (JStr i) \<Rightarrow> Some (''session.updated:'' @ i) | _ \<Rightarrow> None)
         else if ev_type event = ''lsp.updated'' then Some ''lsp.updated''
         else if ev_type event = ''message.part.delta'' then
           (case (prop_of props ''messageID'', prop_of props ''partID'', prop_of props ''field'') of
              (Some (JStr m), Some (JStr p), Some (JStr f)) \<Rightarrow> Some (delta_key m p f) | _ \<Rightarrow> None)
         else None)"

record DirectoryQueue =
  dq_queue :: "HarnessEvent option list"
  dq_coalesced :: "(string \<times> nat) list"
  dq_timer :: "int option" \<comment> \<open>when the armed timer fires\<close>
  dq_last :: int

fun spread_delta :: "json \<Rightarrow> string \<Rightarrow> json" where
  "spread_delta (JObj kvs) d = JObj (AList.update ''delta'' (JStr d) kvs)"
| "spread_delta j d = JObj [(''delta'', JStr d)]"

definition mergeCoalesced :: "(jsnum \<Rightarrow> string) \<Rightarrow> HarnessEvent option \<Rightarrow> HarnessEvent \<Rightarrow> HarnessEvent" where
  "mergeCoalesced sn previous event =
     (case previous of
        Some prev \<Rightarrow> if ev_type event = ''message.part.delta''
          then event\<lparr>ev_properties := Some (spread_delta (event_props event)
                 (string_or_empty sn (prop_of (event_props prev) ''delta'') @
                  string_or_empty sn (prop_of (event_props event) ''delta'')))\<rparr>
          else event
      | None \<Rightarrow> event)"

definition enqueueWithCoalescing :: "(jsnum \<Rightarrow> string) \<Rightarrow> HarnessEvent \<Rightarrow> DirectoryQueue \<Rightarrow> DirectoryQueue" where
  "enqueueWithCoalescing sn event dir =
     (case coalescingKey event of
        Some key \<Rightarrow> (case map_of (dq_coalesced dir) key of
            Some slot \<Rightarrow> dir\<lparr>dq_queue := (dq_queue dir)[slot := Some (mergeCoalesced sn (dq_queue dir ! slot) event)]\<rparr>
          | None \<Rightarrow> dir\<lparr>dq_queue := dq_queue dir @ [Some event],
              dq_coalesced := AList.update key (length (dq_queue dir)) (dq_coalesced dir)\<rparr>)
      | None \<Rightarrow> dir\<lparr>dq_queue := dq_queue dir @ [Some event]\<rparr>)"

definition invalidateMatching :: "(string \<Rightarrow> bool) \<Rightarrow> DirectoryQueue \<Rightarrow> DirectoryQueue" where
  "invalidateMatching matches dir =
     dir\<lparr>dq_queue := fold (\<lambda>(key, slot) q. if matches key then q[slot := None] else q) (dq_coalesced dir) (dq_queue dir),
         dq_coalesced := filter (\<lambda>(key, slot). \<not> matches key) (dq_coalesced dir)\<rparr>"

definition dropKey :: "string \<Rightarrow> DirectoryQueue \<Rightarrow> DirectoryQueue" where
  "dropKey exact = invalidateMatching (\<lambda>key. key = exact)"

definition partIdentifiers :: "json \<Rightarrow> (string \<times> string) option" where
  "partIdentifiers props =
     (case prop_of props ''part'' of
        Some part \<Rightarrow> (case (prop_of part ''messageID'', prop_of part ''id'') of
            (Some (JStr m), Some (JStr p)) \<Rightarrow> Some (m, p) | _ \<Rightarrow> None)
      | None \<Rightarrow> None)"

definition dropPartDeltaKeys :: "(string \<times> string) option \<Rightarrow> DirectoryQueue \<Rightarrow> DirectoryQueue" where
  "dropPartDeltaKeys ids dir =
     (case ids of None \<Rightarrow> dir
      | Some (m, p) \<Rightarrow> invalidateMatching (\<lambda>key. starts_with key (''message.part.delta:'' @ m @ '':'' @ p @ '':'')) dir)"

definition STRUCTURAL_SESSION_EVENTS :: "string list" where
  "STRUCTURAL_SESSION_EVENTS = [''session.created'', ''session.deleted'']"

definition SETTLE_SESSION_EVENTS :: "string list" where
  "SETTLE_SESSION_EVENTS = [''session.idle'', ''session.error'']"

definition barrier_session :: "(jsnum \<Rightarrow> string) \<Rightarrow> json \<Rightarrow> string" where
  "barrier_session sn props =
     string_or_empty sn (or_nullish (prop_of props ''sessionID'') (prop_of (loose (prop_of props ''info'')) ''id''))"

definition applyCoalescingBarriers :: "(jsnum \<Rightarrow> string) \<Rightarrow> HarnessEvent \<Rightarrow> DirectoryQueue \<Rightarrow> DirectoryQueue" where
  "applyCoalescingBarriers sn event dir =
     (let props = event_props event; structural = ev_type event \<in> set STRUCTURAL_SESSION_EVENTS
      in if ev_type event = ''message.part.updated'' then dropPartDeltaKeys (partIdentifiers props) dir
         else if structural \<or> ev_type event \<in> set SETTLE_SESSION_EVENTS then
           (let i = barrier_session sn props
            in if i = [] then dir
               else (let dir' = dropKey (''session.status:'' @ i) dir
                     in if structural then dropKey (''session.updated:'' @ i) dir' else dir'))
         else dir)"

section \<open>The queues\<close>

definition FLUSH_FRAME_MS :: int where "FLUSH_FRAME_MS = 33"
definition BACKPRESSURE_FLUSH_FRAME_MS :: int where "BACKPRESSURE_FLUSH_FRAME_MS = 200"
definition BACKPRESSURE_MODE_MS :: int where "BACKPRESSURE_MODE_MS = 10000"

record PipelineQueues =
  pq_dirs :: "(string \<times> DirectoryQueue) list"
  pq_backpressureUntil :: int

definition queues_init :: PipelineQueues where
  "queues_init = \<lparr>pq_dirs = [], pq_backpressureUntil = 0\<rparr>"

definition empty_directory :: DirectoryQueue where
  "empty_directory = \<lparr>dq_queue = [], dq_coalesced = [], dq_timer = None, dq_last = 0\<rparr>"

definition frameMs :: "int \<Rightarrow> PipelineQueues \<Rightarrow> int" where
  "frameMs now q = (if now < pq_backpressureUntil q then BACKPRESSURE_FLUSH_FRAME_MS else FLUSH_FRAME_MS)"

definition scheduleFlush :: "int \<Rightarrow> PipelineQueues \<Rightarrow> DirectoryQueue \<Rightarrow> DirectoryQueue" where
  "scheduleFlush now q dir =
     (let dir' = dir\<lparr>dq_last := now\<rparr>
      in if dq_timer dir \<noteq> None then dir'
         else dir'\<lparr>dq_timer := Some (now + max 0 (dq_last dir' + frameMs now q - now))\<rparr>)"

definition directory_of :: "string \<Rightarrow> PipelineQueues \<Rightarrow> DirectoryQueue" where
  "directory_of directory q = (case map_of (pq_dirs q) directory of Some dir \<Rightarrow> dir | None \<Rightarrow> empty_directory)"

definition queues_push :: "(jsnum \<Rightarrow> string) \<Rightarrow> int \<Rightarrow> HarnessEvent \<Rightarrow> PipelineQueues \<Rightarrow> PipelineQueues" where
  "queues_push sn now event q =
     (let directory = resolveEventDirectory event; dir = directory_of directory q;
          dir' = scheduleFlush now q (enqueueWithCoalescing sn event (applyCoalescingBarriers sn event dir))
      in q\<lparr>pq_dirs := AList.update directory dir' (pq_dirs q)\<rparr>)"

definition live_events :: "HarnessEvent option list \<Rightarrow> HarnessEvent list" where
  "live_events q = List.map_filter id q"

text \<open>The events given to \<open>onFlush\<close>; an empty list stands for no call.\<close>

definition queues_flush :: "string \<Rightarrow> PipelineQueues \<Rightarrow> HarnessEvent list \<times> PipelineQueues" where
  "queues_flush directory q =
     (case map_of (pq_dirs q) directory of
        None \<Rightarrow> ([], q)
      | Some dir \<Rightarrow> (live_events (dq_queue dir),
          q\<lparr>pq_dirs := AList.update directory (dir\<lparr>dq_timer := None, dq_queue := [], dq_coalesced := []\<rparr>) (pq_dirs q)\<rparr>))"

definition queues_flushAll :: "PipelineQueues \<Rightarrow> (string \<times> HarnessEvent list) list \<times> PipelineQueues" where
  "queues_flushAll q =
     fold (\<lambda>directory (outs, q). case queues_flush directory q of
         (events, q') \<Rightarrow> (if events = [] then outs else outs @ [(directory, events)], q')) (map fst (pq_dirs q)) ([], q)"

definition queues_clear :: "PipelineQueues \<Rightarrow> PipelineQueues" where
  "queues_clear q = q\<lparr>pq_dirs := []\<rparr>"

section \<open>Delivery, cursor and reconnection\<close>

definition replayCursorAfterFlush :: "string option \<Rightarrow> HarnessEvent list \<Rightarrow> string option" where
  "replayCursorAfterFlush current events =
     fold (\<lambda>event cursor. if ev_type event \<noteq> ''server.connected'' \<and> ev_id event \<noteq> None then ev_id event else cursor) events current"

text \<open>
  The part of \<open>createDeliver\<close> after the frame was unwrapped and found valid. The cursor is
  \<open>state.lastEventId\<close>, which the callback given to the queues sets as well.
\<close>

definition deliver_event :: "(jsnum \<Rightarrow> string) \<Rightarrow> int \<Rightarrow> string option \<Rightarrow> HarnessEvent
    \<Rightarrow> PipelineQueues \<times> string option \<Rightarrow> PipelineQueues \<times> string option" where
  "deliver_event sn now directoryHint unwrapped st =
     (let event0 = unwrapped\<lparr>ev_type := foldEventType (ev_type unwrapped)\<rparr>;
          event = (case directoryHint of
              Some (c # d) \<Rightarrow> if ev_directory event0 = None then event0\<lparr>ev_directory := Some (c # d)\<rparr> else event0
            | _ \<Rightarrow> event0);
          (q, cursor) = st
      in if isHeartbeatType (ev_type event) then st
         else (queues_push sn now event q,
               case ev_id event of
                 Some (c # i) \<Rightarrow> if ev_type event \<noteq> ''server.connected'' then Some (c # i) else cursor
               | _ \<Rightarrow> cursor))"

definition pipeline_flush :: "string \<Rightarrow> PipelineQueues \<times> string option \<Rightarrow> HarnessEvent list \<times> PipelineQueues \<times> string option" where
  "pipeline_flush directory st =
     (case queues_flush directory (fst st) of
        (events, q) \<Rightarrow> (events, q, if events = [] then snd st else replayCursorAfterFlush (snd st) events))"

definition RETRY_BACKOFF_BASE_MS :: int where "RETRY_BACKOFF_BASE_MS = 250"
definition RETRY_BACKOFF_CAP_VISIBLE_MS :: int where "RETRY_BACKOFF_CAP_VISIBLE_MS = 5000"
definition RETRY_BACKOFF_CAP_HIDDEN_OR_OFFLINE_MS :: int where "RETRY_BACKOFF_CAP_HIDDEN_OR_OFFLINE_MS = 60000"
definition RETRY_BACKOFF_MAX_EXPONENT :: int where "RETRY_BACKOFF_MAX_EXPONENT = 8"
definition DEFAULT_HEARTBEAT_TIMEOUT_MS :: int where "DEFAULT_HEARTBEAT_TIMEOUT_MS = 30000"

definition computeRetryDelay :: "int \<Rightarrow> bool \<Rightarrow> bool \<Rightarrow> bool \<Rightarrow> int" where
  "computeRetryDelay failures visible online permanent4xx =
     (let cap = (if visible \<and> online then RETRY_BACKOFF_CAP_VISIBLE_MS else RETRY_BACKOFF_CAP_HIDDEN_OR_OFFLINE_MS)
      in if permanent4xx then cap
         else min cap (RETRY_BACKOFF_BASE_MS * 2 ^ nat (min (max (failures - 1) 0) RETRY_BACKOFF_MAX_EXPONENT)))"

definition isPermanent4xx :: "int option \<Rightarrow> bool" where
  "isPermanent4xx status = (case status of None \<Rightarrow> False | Some s \<Rightarrow> s \<ge> 400 \<and> s < 500 \<and> s \<noteq> 408 \<and> s \<noteq> 429)"

definition heartbeatExpired :: "int \<Rightarrow> int \<Rightarrow> int \<Rightarrow> bool" where
  "heartbeatExpired lastActivityAt attemptStartedAt now =
     (let activity = max lastActivityAt attemptStartedAt
      in activity \<noteq> 0 \<and> now - activity > DEFAULT_HEARTBEAT_TIMEOUT_MS)"

section \<open>Coalescing on plain lists\<close>

text \<open>
  The reference: the pending events as a list without slots. A barrier removes the events it makes
  obsolete, and an event whose key is pending is merged into that event.
\<close>

definition obsoletes :: "(jsnum \<Rightarrow> string) \<Rightarrow> HarnessEvent \<Rightarrow> string \<Rightarrow> bool" where
  "obsoletes sn event key \<longleftrightarrow>
     (if ev_type event = ''message.part.updated'' then
        (case partIdentifiers (event_props event) of None \<Rightarrow> False
         | Some (m, p) \<Rightarrow> starts_with key (''message.part.delta:'' @ m @ '':'' @ p @ '':''))
      else (let i = barrier_session sn (event_props event); structural = ev_type event \<in> set STRUCTURAL_SESSION_EVENTS
            in i \<noteq> [] \<and> (structural \<or> ev_type event \<in> set SETTLE_SESSION_EVENTS) \<and>
               (key = ''session.status:'' @ i \<or> structural \<and> key = ''session.updated:'' @ i)))"

definition obsolete :: "(jsnum \<Rightarrow> string) \<Rightarrow> HarnessEvent \<Rightarrow> HarnessEvent \<Rightarrow> bool" where
  "obsolete sn event e \<longleftrightarrow> (case coalescingKey e of None \<Rightarrow> False | Some key \<Rightarrow> obsoletes sn event key)"

definition coalesce :: "(jsnum \<Rightarrow> string) \<Rightarrow> HarnessEvent list \<Rightarrow> HarnessEvent \<Rightarrow> HarnessEvent list" where
  "coalesce sn pending event =
     (let kept = filter (\<lambda>e. \<not> obsolete sn event e) pending
      in if coalescingKey event \<noteq> None \<and> (\<exists>e \<in> set kept. coalescingKey e = coalescingKey event)
         then map (\<lambda>e. if coalescingKey e = coalescingKey event then mergeCoalesced sn (Some e) event else e) kept
         else kept @ [event])"

text \<open>The index holds exactly the slots of the pending events with a key.\<close>

definition index_exact :: "DirectoryQueue \<Rightarrow> bool" where
  "index_exact dir \<longleftrightarrow> distinct (map fst (dq_coalesced dir)) \<and>
     (\<forall>key slot. (key, slot) \<in> set (dq_coalesced dir) \<longleftrightarrow>
        slot < length (dq_queue dir) \<and> (\<exists>e. dq_queue dir ! slot = Some e \<and> coalescingKey e = Some key))"

lemma live_simps [simp]:
  "live_events [] = []" "live_events (None # q) = live_events q" "live_events (Some e # q) = e # live_events q"
  by (simp_all add: live_events_def List.map_filter_def)

lemma live_append [simp]: "live_events (q @ q') = live_events q @ live_events q'"
  by (simp add: live_events_def List.map_filter_def)

lemma set_live: "e \<in> set (live_events q) \<longleftrightarrow> Some e \<in> set q"
  by (force simp: live_events_def List.map_filter_def)

lemma live_map_filter: "live_events (map (\<lambda>x. case x of Some e \<Rightarrow> if P e then None else Some e | None \<Rightarrow> None) q) =
    filter (\<lambda>e. \<not> P e) (live_events q)"
  by (induction q) (auto split: option.splits)

lemma live_map_map: "live_events (map (map_option f) q) = map f (live_events q)"
proof (induction q)
  case (Cons x q)
  then show ?case by (cases x) auto
qed simp

lemma index_unique: "index_exact dir \<Longrightarrow> (key, i) \<in> set (dq_coalesced dir) \<Longrightarrow> (key, j) \<in> set (dq_coalesced dir) \<Longrightarrow> i = j"
  by (auto simp: index_exact_def dest: eq_key_imp_eq_value)

lemma fold_nulls:
  fixes q :: "HarnessEvent option list"
  assumes "i < length q"
  shows "length (fold (\<lambda>(key, slot) q. if P key then q[slot := None] else q) kvs q) = length q \<and>
    fold (\<lambda>(key, slot) q. if P key then q[slot := None] else q) kvs q ! i =
      (if \<exists>key. P key \<and> (key, i) \<in> set kvs then None else q ! i)"
  using assms
proof (induction kvs arbitrary: q)
  case (Cons kv kvs)
  obtain k s where kv: "kv = (k, s)" by fastforce
  have "i < length (if P k then q[s := None] else q)" using Cons(2) by simp
  from Cons(1) [OF this] show ?case using Cons(2) by (auto simp: kv nth_list_update)
qed simp

lemma length_fold_nulls [simp]:
  "length (fold (\<lambda>(key, slot) q. if P key then q[slot := None] else q) kvs q) = length q"
  by (induction kvs arbitrary: q) auto

lemma invalidate_queue:
  assumes "index_exact dir"
  shows "dq_queue (invalidateMatching P dir) =
    map (\<lambda>x. case x of Some e \<Rightarrow> if (\<exists>key. coalescingKey e = Some key \<and> P key) then None else Some e | None \<Rightarrow> None) (dq_queue dir)"
proof (rule nth_equalityI)
  show "length (dq_queue (invalidateMatching P dir)) = length (map (\<lambda>x. case x of Some e \<Rightarrow>
      if (\<exists>key. coalescingKey e = Some key \<and> P key) then None else Some e | None \<Rightarrow> None) (dq_queue dir))"
    by (simp add: invalidateMatching_def)
  fix i assume "i < length (dq_queue (invalidateMatching P dir))"
  then have i: "i < length (dq_queue dir)" by (simp add: invalidateMatching_def)
  have "(\<exists>key. P key \<and> (key, i) \<in> set (dq_coalesced dir)) \<longleftrightarrow> (\<exists>e key. dq_queue dir ! i = Some e \<and> coalescingKey e = Some key \<and> P key)"
    using assms i by (auto simp: index_exact_def)
  then show "dq_queue (invalidateMatching P dir) ! i = map (\<lambda>x. case x of Some e \<Rightarrow>
      if (\<exists>key. coalescingKey e = Some key \<and> P key) then None else Some e | None \<Rightarrow> None) (dq_queue dir) ! i"
    using fold_nulls [OF i, of P "dq_coalesced dir"] i by (auto simp: invalidateMatching_def split: option.splits)
qed

lemma invalidate_live:
  assumes "index_exact dir"
  shows "live_events (dq_queue (invalidateMatching P dir)) =
    filter (\<lambda>e. \<not> (\<exists>key. coalescingKey e = Some key \<and> P key)) (live_events (dq_queue dir))"
  unfolding invalidate_queue [OF assms] by (rule live_map_filter)

lemma invalidate_exact:
  assumes "index_exact dir"
  shows "index_exact (invalidateMatching P dir)"
proof -
  have "(key, slot) \<in> set (dq_coalesced (invalidateMatching P dir)) \<longleftrightarrow> slot < length (dq_queue (invalidateMatching P dir)) \<and>
      (\<exists>e. dq_queue (invalidateMatching P dir) ! slot = Some e \<and> coalescingKey e = Some key)" for key slot
  proof -
    have "(key, slot) \<in> set (dq_coalesced (invalidateMatching P dir)) \<longleftrightarrow> \<not> P key \<and> (key, slot) \<in> set (dq_coalesced dir)"
      by (auto simp: invalidateMatching_def)
    also have "\<dots> \<longleftrightarrow> \<not> P key \<and> slot < length (dq_queue dir) \<and> (\<exists>e. dq_queue dir ! slot = Some e \<and> coalescingKey e = Some key)"
      using assms by (simp add: index_exact_def)
    finally show ?thesis unfolding invalidate_queue [OF assms] by (auto split: option.splits if_splits)
  qed
  moreover have "distinct (map fst (dq_coalesced (invalidateMatching P dir)))"
    using assms by (simp add: index_exact_def invalidateMatching_def distinct_map_filter)
  ultimately show ?thesis by (simp add: index_exact_def)
qed

lemma barriers_live:
  assumes "index_exact dir"
  shows "live_events (dq_queue (applyCoalescingBarriers sn event dir)) = filter (\<lambda>e. \<not> obsolete sn event e) (live_events (dq_queue dir))"
    and "index_exact (applyCoalescingBarriers sn event dir)"
proof -
  show "live_events (dq_queue (applyCoalescingBarriers sn event dir)) = filter (\<lambda>e. \<not> obsolete sn event e) (live_events (dq_queue dir))"
    using assms
    by (auto simp: applyCoalescingBarriers_def dropPartDeltaKeys_def dropKey_def invalidate_live invalidate_exact
        obsolete_def obsoletes_def STRUCTURAL_SESSION_EVENTS_def SETTLE_SESSION_EVENTS_def Let_def
        intro!: filter_cong split: option.splits)
  show "index_exact (applyCoalescingBarriers sn event dir)"
    using assms by (auto simp: applyCoalescingBarriers_def dropPartDeltaKeys_def dropKey_def invalidate_exact Let_def split: option.splits)
qed

lemma prop_of_spread: "k \<noteq> ''delta'' \<Longrightarrow> prop_of (spread_delta j d) k = prop_of j k"
  by (cases j) (simp_all add: update_conv')

lemma delta_of_spread [simp]: "prop_of (spread_delta j d) ''delta'' = Some (JStr d)"
  by (cases j) (simp_all add: update_conv')

lemma props_of_spread [simp]: "event_props (event\<lparr>ev_properties := Some (spread_delta j d)\<rparr>) = spread_delta j d"
  by (cases j) (simp_all add: event_props_def loose_def)

lemma merge_key [simp]: "coalescingKey (mergeCoalesced sn previous event) = coalescingKey event"
  by (cases previous) (simp_all add: mergeCoalesced_def coalescingKey_def prop_of_spread Let_def)

lemma merge_type [simp]: "ev_type (mergeCoalesced sn previous event) = ev_type event"
  by (simp add: mergeCoalesced_def split: option.splits)

lemma index_registered:
  assumes "index_exact dir"
  shows "(\<exists>e \<in> set (live_events (dq_queue dir)). coalescingKey e = Some key) \<longleftrightarrow> map_of (dq_coalesced dir) key \<noteq> None"
proof -
  have "(\<exists>e \<in> set (live_events (dq_queue dir)). coalescingKey e = Some key) \<longleftrightarrow>
      (\<exists>slot < length (dq_queue dir). \<exists>e. dq_queue dir ! slot = Some e \<and> coalescingKey e = Some key)"
    unfolding Bex_def set_live by (metis in_set_conv_nth)
  also have "\<dots> \<longleftrightarrow> (\<exists>slot. (key, slot) \<in> set (dq_coalesced dir))" using assms by (auto simp: index_exact_def)
  finally show ?thesis by (force simp: map_of_eq_None_iff)
qed

lemma update_fresh: "map_of kvs key = None \<Longrightarrow> AList.update key v kvs = kvs @ [(key, v)]"
  by (induction kvs) (auto split: if_splits)

lemma append_exact:
  assumes "index_exact dir"
  shows "coalescingKey event = None \<Longrightarrow> index_exact (dir\<lparr>dq_queue := dq_queue dir @ [Some event]\<rparr>)"
    and "coalescingKey event = Some key \<Longrightarrow> map_of (dq_coalesced dir) key = None \<Longrightarrow>
      index_exact (dir\<lparr>dq_queue := dq_queue dir @ [Some event], dq_coalesced := dq_coalesced dir @ [(key, length (dq_queue dir))]\<rparr>)"
  using assms by (auto simp: index_exact_def nth_append map_of_eq_None_iff less_Suc_eq split: if_splits)

lemma slot_update:
  assumes "index_exact dir" "(key, slot) \<in> set (dq_coalesced dir)" "coalescingKey event = Some key"
  shows "(dq_queue dir)[slot := Some (mergeCoalesced sn (dq_queue dir ! slot) event)] =
      map (map_option (\<lambda>e. if coalescingKey e = coalescingKey event then mergeCoalesced sn (Some e) event else e)) (dq_queue dir)"
    (is "?lhs = map ?f _")
    and "index_exact (dir\<lparr>dq_queue := (dq_queue dir)[slot := Some (mergeCoalesced sn (dq_queue dir ! slot) event)]\<rparr>)"
proof -
  obtain e where e: "slot < length (dq_queue dir)" "dq_queue dir ! slot = Some e" "coalescingKey e = Some key"
    using assms(1,2) unfolding index_exact_def by blast
  have only: "i = slot" if "i < length (dq_queue dir)" "dq_queue dir ! i = Some e'" "coalescingKey e' = Some key" for i e'
    using assms(1) that index_unique [OF assms(1,2)] unfolding index_exact_def by blast
  show "?lhs = map ?f (dq_queue dir)"
  proof (rule nth_equalityI)
    fix i assume "i < length ?lhs"
    then have i: "i < length (dq_queue dir)" by simp
    show "?lhs ! i = map ?f (dq_queue dir) ! i"
      using i e only [OF i] assms(3) by (cases "dq_queue dir ! i") (auto simp: nth_list_update)
  qed simp
  show "index_exact (dir\<lparr>dq_queue := ?lhs\<rparr>)"
    using assms(1,3) e unfolding index_exact_def by (auto simp: nth_list_update)
qed

lemma enqueue_live:
  assumes "index_exact dir"
  shows "live_events (dq_queue (enqueueWithCoalescing sn event dir)) =
      (if coalescingKey event \<noteq> None \<and> (\<exists>e \<in> set (live_events (dq_queue dir)). coalescingKey e = coalescingKey event)
       then map (\<lambda>e. if coalescingKey e = coalescingKey event then mergeCoalesced sn (Some e) event else e) (live_events (dq_queue dir))
       else live_events (dq_queue dir) @ [event])" (is ?live)
    and "index_exact (enqueueWithCoalescing sn event dir)" (is ?exact)
proof -
  consider (plain) "coalescingKey event = None" | (fresh) key where "coalescingKey event = Some key" "map_of (dq_coalesced dir) key = None"
    | (merge) key slot where "coalescingKey event = Some key" "map_of (dq_coalesced dir) key = Some slot" by fastforce
  then have "?live \<and> ?exact"
  proof cases
    case plain
    then show ?thesis using append_exact(1) [OF assms] by (simp add: enqueueWithCoalescing_def)
  next
    case fresh
    then show ?thesis
      using append_exact(2) [OF assms fresh] index_registered [OF assms, of key] by (simp add: enqueueWithCoalescing_def update_fresh)
  next
    case merge
    have "(key, slot) \<in> set (dq_coalesced dir)" using merge(2) by (rule map_of_SomeD)
    note s = slot_update [OF assms this merge(1), of sn]
    have "enqueueWithCoalescing sn event dir = dir\<lparr>dq_queue := (dq_queue dir)[slot := Some (mergeCoalesced sn (dq_queue dir ! slot) event)]\<rparr>"
      by (simp add: enqueueWithCoalescing_def merge)
    then show ?thesis using s index_registered [OF assms, of key] merge by (simp add: live_map_map)
  qed
  then show ?live ?exact by simp_all
qed

lemma push_directory:
  fixes now q sn event
  assumes "index_exact dir"
  defines "dir' \<equiv> scheduleFlush now q (enqueueWithCoalescing sn event (applyCoalescingBarriers sn event dir))"
  shows "live_events (dq_queue dir') = coalesce sn (live_events (dq_queue dir)) event" "index_exact dir'"
proof -
  note b = barriers_live [OF assms(1), of sn event] and e = enqueue_live [OF barriers_live(2) [OF assms(1)], of sn event sn event]
  have s: "dq_queue dir' = dq_queue (enqueueWithCoalescing sn event (applyCoalescingBarriers sn event dir))"
    "dq_coalesced dir' = dq_coalesced (enqueueWithCoalescing sn event (applyCoalescingBarriers sn event dir))"
    by (simp_all add: dir'_def scheduleFlush_def Let_def)
  show "live_events (dq_queue dir') = coalesce sn (live_events (dq_queue dir)) event"
    unfolding s e(1) b(1) by (simp add: coalesce_def Let_def)
  show "index_exact dir'" using e(2) by (simp add: index_exact_def s)
qed

section \<open>The queues refine plain lists\<close>

definition pending_events :: "PipelineQueues \<Rightarrow> string \<Rightarrow> HarnessEvent list" where
  "pending_events q directory = live_events (dq_queue (directory_of directory q))"

text \<open>Every index is exact, and a queue that is not empty has a timer.\<close>

definition directories_ok :: "PipelineQueues \<Rightarrow> bool" where
  "directories_ok q \<longleftrightarrow> (\<forall>directory. index_exact (directory_of directory q) \<and>
     (dq_queue (directory_of directory q) \<noteq> [] \<longrightarrow> dq_timer (directory_of directory q) \<noteq> None))"

datatype QueueOp = QPush int HarnessEvent | QFlush string | QFlushAll | QClear | QBackpressure int

fun queues_step :: "(jsnum \<Rightarrow> string) \<Rightarrow> QueueOp \<Rightarrow> PipelineQueues \<Rightarrow> PipelineQueues" where
  "queues_step sn (QPush now event) q = queues_push sn now event q"
| "queues_step sn (QFlush directory) q = snd (queues_flush directory q)"
| "queues_step sn QFlushAll q = snd (queues_flushAll q)"
| "queues_step sn QClear q = queues_clear q"
| "queues_step sn (QBackpressure now) q = q\<lparr>pq_backpressureUntil := now + BACKPRESSURE_MODE_MS\<rparr>"

lemma directory_of_update [simp]:
  "directory_of d (q\<lparr>pq_dirs := AList.update d' dir (pq_dirs q)\<rparr>) = (if d = d' then dir else directory_of d q)"
  by (simp add: directory_of_def update_conv')

lemma empty_directory_ok [simp]: "index_exact empty_directory" "dq_queue empty_directory = []"
  by (simp_all add: index_exact_def empty_directory_def)

lemma flush_pending:
  "fst (queues_flush d q) = pending_events q d" "pending_events (snd (queues_flush d q)) = (pending_events q)(d := [])"
  by (auto simp: queues_flush_def pending_events_def directory_of_def update_conv' empty_directory_def fun_eq_iff split: option.splits)

lemma directory_flush_ok: "directories_ok q \<Longrightarrow> directories_ok (snd (queues_flush d q))"
  by (auto simp: directories_ok_def queues_flush_def index_exact_def Let_def split: option.splits)

lemma flushAll_ok: "directories_ok q \<Longrightarrow> directories_ok (snd (queues_flushAll q))"
proof -
  have "directories_ok q \<Longrightarrow> directories_ok (snd (fold (\<lambda>directory (outs, q). case queues_flush directory q of
      (events, q') \<Rightarrow> (if events = [] then outs else outs @ [(directory, events)], q')) ds (outs, q)))" for ds outs q
    using directory_flush_ok by (induction ds arbitrary: outs q) (auto simp: case_prod_beta)
  then show "directories_ok q \<Longrightarrow> directories_ok (snd (queues_flushAll q))" by (simp add: queues_flushAll_def)
qed

lemma push_pending:
  assumes "directories_ok q"
  shows "pending_events (queues_push sn now event q) =
    (pending_events q)(resolveEventDirectory event := coalesce sn (pending_events q (resolveEventDirectory event)) event)"
  using push_directory(1) [of "directory_of (resolveEventDirectory event) q" now q sn event] assms
  by (auto simp: queues_push_def pending_events_def directories_ok_def Let_def fun_eq_iff)

lemma barriers_timer [simp]:
  "dq_timer (applyCoalescingBarriers sn event dir) = dq_timer dir" "dq_last (applyCoalescingBarriers sn event dir) = dq_last dir"
  "length (dq_queue (applyCoalescingBarriers sn event dir)) = length (dq_queue dir)"
  by (simp_all add: applyCoalescingBarriers_def dropPartDeltaKeys_def dropKey_def invalidateMatching_def Let_def split: option.splits)

lemma enqueue_timer [simp]: "dq_timer (enqueueWithCoalescing sn event dir) = dq_timer dir"
  by (simp add: enqueueWithCoalescing_def split: option.splits)

lemma schedule_timer: "\<exists>fires. dq_timer (scheduleFlush now q dir) = Some fires"
  by (auto simp: scheduleFlush_def Let_def)

lemma push_ok: "directories_ok q \<Longrightarrow> directories_ok (queues_push sn now event q)"
  using push_directory(2) [of "directory_of (resolveEventDirectory event) q" now q sn event]
  by (simp add: directories_ok_def queues_push_def schedule_timer Let_def)

lemma step_ok: "directories_ok q \<Longrightarrow> directories_ok (queues_step sn op q)"
proof (cases op)
  case QClear
  then show ?thesis by (simp add: directories_ok_def queues_clear_def directory_of_def)
qed (simp_all add: push_ok directory_flush_ok flushAll_ok directories_ok_def [of "_\<lparr>pq_backpressureUntil := _\<rparr>"] directories_ok_def [of q] directory_of_def)

definition queues_run :: "(jsnum \<Rightarrow> string) \<Rightarrow> QueueOp list \<Rightarrow> PipelineQueues" where
  "queues_run sn ops = fold (queues_step sn) ops queues_init"

lemma run_ok: "directories_ok (queues_run sn ops)"
proof -
  have "directories_ok q \<Longrightarrow> directories_ok (fold (queues_step sn) ops q)" for q
    by (induction ops arbitrary: q) (simp_all add: step_ok)
  moreover have "directories_ok queues_init" by (simp add: directories_ok_def queues_init_def directory_of_def)
  ultimately show ?thesis by (simp add: queues_run_def)
qed

text \<open>C4.
  The directory queues, with their slots, the index of coalescing keys and the barriers, refine plain
  lists of pending events: in every run a push coalesces the event into the list of its directory and
  touches no other, a flush hands out exactly the list of its directory and empties it, and a list
  that is not empty has a timer armed.
\<close>

theorem slots_refine_plain_coalescing:
  fixes ops sn
  defines "q \<equiv> queues_run sn ops"
  shows "pending_events (queues_push sn now event q) =
      (pending_events q)(resolveEventDirectory event := coalesce sn (pending_events q (resolveEventDirectory event)) event) \<and>
    fst (queues_flush d q) = pending_events q d \<and> pending_events (snd (queues_flush d q)) = (pending_events q)(d := []) \<and>
    (pending_events q d = [] \<or> (\<exists>fires. dq_timer (directory_of d q) = Some fires))"
proof (intro conjI)
  note ok = run_ok [of sn ops, folded q_def]
  show "pending_events (queues_push sn now event q) =
      (pending_events q)(resolveEventDirectory event := coalesce sn (pending_events q (resolveEventDirectory event)) event)"
    by (rule push_pending [OF ok])
  show "pending_events q d = [] \<or> (\<exists>fires. dq_timer (directory_of d q) = Some fires)"
    using ok by (cases "dq_queue (directory_of d q) = []") (simp_all add: directories_ok_def pending_events_def)
qed (rule flush_pending)+

section \<open>What a batch publishes\<close>

text \<open>The events of a key since the last barrier for it.\<close>

definition since_barrier :: "(jsnum \<Rightarrow> string) \<Rightarrow> string \<Rightarrow> HarnessEvent list \<Rightarrow> HarnessEvent list" where
  "since_barrier sn key es =
     foldl (\<lambda>acc e. (if obsoletes sn e key then [] else acc) @ (if coalescingKey e = Some key then [e] else [])) [] es"

fun merge_all :: "(jsnum \<Rightarrow> string) \<Rightarrow> HarnessEvent list \<Rightarrow> HarnessEvent list" where
  "merge_all sn [] = []"
| "merge_all sn (e # es) = [foldl (\<lambda>p. mergeCoalesced sn (Some p)) e es]"

definition delta_text :: "(jsnum \<Rightarrow> string) \<Rightarrow> HarnessEvent \<Rightarrow> string" where
  "delta_text sn e = string_or_empty sn (prop_of (event_props e) ''delta'')"

lemma merge_all_snoc: "merge_all sn (es @ [e]) = (case merge_all sn es of [] \<Rightarrow> [e] | p # _ \<Rightarrow> [mergeCoalesced sn (Some p) e])"
  by (cases es) simp_all

lemma coalesce_unkeyed:
  "filter (\<lambda>e. coalescingKey e = None) (coalesce sn ps e) = filter (\<lambda>e. coalescingKey e = None) (ps @ [e])"
proof -
  have f: "filter (\<lambda>e. coalescingKey e = None) (filter (\<lambda>x. \<not> obsolete sn e x) ps) = filter (\<lambda>e. coalescingKey e = None) ps"
    by (auto simp: obsolete_def intro!: filter_cong)
  have m: "filter (\<lambda>e. coalescingKey e = None) (map (\<lambda>x. if coalescingKey x = coalescingKey e then mergeCoalesced sn (Some x) e else x) xs) =
      filter (\<lambda>e. coalescingKey e = None) xs" if "coalescingKey e \<noteq> None" for xs
    using that by (induction xs) auto
  show ?thesis using f m by (auto simp: coalesce_def Let_def)
qed

lemma coalesce_keyed:
  assumes "length (filter (\<lambda>x. coalescingKey x = Some key) ps) \<le> 1"
  shows "filter (\<lambda>x. coalescingKey x = Some key) (coalesce sn ps e) =
    (let old = (if obsoletes sn e key then [] else filter (\<lambda>x. coalescingKey x = Some key) ps)
     in if coalescingKey e = Some key then (case old of [] \<Rightarrow> [e] | p # _ \<Rightarrow> [mergeCoalesced sn (Some p) e]) else old)"
proof -
  let ?K = "\<lambda>x. coalescingKey x = Some key"
  let ?kept = "filter (\<lambda>x. \<not> obsolete sn e x) ps"
  have kept: "filter ?K ?kept = (if obsoletes sn e key then [] else filter ?K ps)"
    by (auto simp: obsolete_def filter_empty_conv intro!: filter_cong)
  have other: "filter ?K (map (\<lambda>x. if coalescingKey x = coalescingKey e then mergeCoalesced sn (Some x) e else x) xs) = filter ?K xs"
    if "coalescingKey e \<noteq> Some key" for xs using that by (induction xs) auto
  have same: "filter ?K (map (\<lambda>x. if coalescingKey x = coalescingKey e then mergeCoalesced sn (Some x) e else x) xs) =
      map (\<lambda>x. mergeCoalesced sn (Some x) e) (filter ?K xs)"
    if "coalescingKey e = Some key" for xs using that by (induction xs) auto
  show ?thesis
  proof (cases "coalescingKey e = Some key")
    case False
    then show ?thesis using kept other [OF False] by (simp add: coalesce_def Let_def)
  next
    case True
    have "(\<exists>x \<in> set ?kept. ?K x) \<longleftrightarrow> filter ?K ?kept \<noteq> []" by (auto simp: filter_empty_conv)
    moreover have "length (filter ?K ?kept) \<le> 1" using assms kept by simp
    ultimately show ?thesis
      using True kept same [OF True, of ?kept] by (cases "filter ?K ?kept") (auto simp: coalesce_def Let_def)
  qed
qed

lemma keyed_batch:
  "filter (\<lambda>x. coalescingKey x = Some key) (foldl (coalesce sn) [] es) = merge_all sn (since_barrier sn key es)"
proof (induction es rule: rev_induct)
  case (snoc e es)
  have one: "length (merge_all sn xs) \<le> 1" for xs by (cases xs) simp_all
  have nil: "merge_all sn xs = [] \<longleftrightarrow> xs = []" for xs by (cases xs) simp_all
  have "since_barrier sn key (es @ [e]) = (if obsoletes sn e key then [] else since_barrier sn key es) @ (if coalescingKey e = Some key then [e] else [])"
    by (simp add: since_barrier_def)
  then show ?case
    using coalesce_keyed [of key "foldl (coalesce sn) [] es" sn e] snoc one [of "since_barrier sn key es"]
    by (simp add: merge_all_snoc Let_def)
qed (simp add: since_barrier_def)

lemma merge_delta_text:
  "ev_type e = ''message.part.delta'' \<Longrightarrow> delta_text sn (mergeCoalesced sn (Some p) e) = delta_text sn p @ delta_text sn e"
  by (simp add: delta_text_def mergeCoalesced_def string_or_empty_def nullish_def)

lemma merge_all_deltas:
  assumes "\<forall>e \<in> set es. ev_type e = ''message.part.delta''"
  shows "concat (map (delta_text sn) (merge_all sn es)) = concat (map (delta_text sn) es)"
proof -
  have "\<forall>e \<in> set xs. ev_type e = ''message.part.delta'' \<Longrightarrow>
      delta_text sn (foldl (\<lambda>p. mergeCoalesced sn (Some p)) e xs) = delta_text sn e @ concat (map (delta_text sn) xs)" for e xs
    by (induction xs arbitrary: e) (simp_all add: merge_delta_text)
  then show ?thesis using assms by (cases es) simp_all
qed

lemma delta_key_type: "coalescingKey e = Some (delta_key m p f) \<Longrightarrow> ev_type e = ''message.part.delta''"
  by (auto simp: coalescingKey_def delta_key_def Let_def split: if_splits option.splits json.splits)

lemma since_barrier_keys: "e \<in> set (since_barrier sn key es) \<Longrightarrow> coalescingKey e = Some key"
  by (induction es rule: rev_induct) (auto simp: since_barrier_def split: if_splits)

lemma pushes_pending:
  "directories_ok q \<Longrightarrow> pending_events (fold (\<lambda>(now, e). queues_push sn now e) es q) d =
     foldl (coalesce sn) (pending_events q d) (filter (\<lambda>e. resolveEventDirectory e = d) (map snd es))"
  by (induction es arbitrary: q) (auto simp: push_ok push_pending)

text \<open>
  What a flush publishes of the events pushed to a directory since the last flush: the events without
  a coalescing key, each exactly once and in their order; of every key at most one event, which merges
  the events of that key since the last barrier for it; and the text of a merged delta is the
  concatenation of the pushed deltas, so that coalescing loses and reorders no streamed text.
\<close>

theorem flush_publishes_coalesced_batch:
  fixes ops times_events d sn
  defines "q \<equiv> snd (queues_flush d (queues_run sn ops))"
  defines "es \<equiv> filter (\<lambda>e. resolveEventDirectory e = d) (map snd times_events)"
  defines "batch \<equiv> fst (queues_flush d (fold (\<lambda>(now, e). queues_push sn now e) times_events q))"
  shows "filter (\<lambda>e. coalescingKey e = None) batch = filter (\<lambda>e. coalescingKey e = None) es \<and>
    filter (\<lambda>e. coalescingKey e = Some key) batch = merge_all sn (since_barrier sn key es) \<and>
    concat (map (delta_text sn) (filter (\<lambda>e. coalescingKey e = Some (delta_key m p f)) batch)) =
      concat (map (delta_text sn) (since_barrier sn (delta_key m p f) es))"
proof -
  have "directories_ok q" unfolding q_def by (rule directory_flush_ok [OF run_ok])
  moreover have "pending_events q d = []" unfolding q_def flush_pending by simp
  ultimately have batch: "batch = foldl (coalesce sn) [] es"
    unfolding batch_def flush_pending es_def by (simp add: pushes_pending)
  have "filter (\<lambda>e. coalescingKey e = None) (foldl (coalesce sn) [] es) = filter (\<lambda>e. coalescingKey e = None) es" for es
    by (induction es rule: rev_induct) (simp_all add: coalesce_unkeyed)
  moreover have "concat (map (delta_text sn) (merge_all sn (since_barrier sn (delta_key m p f) es))) =
      concat (map (delta_text sn) (since_barrier sn (delta_key m p f) es))"
    using since_barrier_keys delta_key_type by (intro merge_all_deltas) blast
  ultimately show ?thesis unfolding batch keyed_batch by simp
qed

section \<open>Reconnection\<close>

text \<open>
  The delay before a reconnection never exceeds the cap of its visibility, is at least 250 ms, grows
  with the failures, is the cap from the ninth failure on, and a permanent client error waits the
  whole cap.
\<close>

theorem retry_delay_bounded:
  fixes visible online
  defines "cap \<equiv> (if visible \<and> online then 5000 else 60000 :: int)"
  shows "250 \<le> computeRetryDelay n visible online permanent \<and> computeRetryDelay n visible online permanent \<le> cap \<and>
    (n \<le> n' \<longrightarrow> computeRetryDelay n visible online permanent \<le> computeRetryDelay n' visible online permanent) \<and>
    (9 \<le> n \<or> permanent \<longrightarrow> computeRetryDelay n visible online permanent = cap)"
proof -
  define step where "step n = 250 * (2 :: int) ^ nat (min (max (n - 1) 0) 8)" for n :: int
  have delay: "computeRetryDelay n visible online permanent = (if permanent then cap else min cap (step n))" for n
    by (simp add: computeRetryDelay_def cap_def step_def RETRY_BACKOFF_BASE_MS_def RETRY_BACKOFF_CAP_VISIBLE_MS_def
        RETRY_BACKOFF_CAP_HIDDEN_OR_OFFLINE_MS_def RETRY_BACKOFF_MAX_EXPONENT_def Let_def)
  have "n \<le> n' \<Longrightarrow> step n \<le> step n'" unfolding step_def by (intro mult_left_mono power_increasing) auto
  moreover have "250 \<le> step n" unfolding step_def by simp
  moreover have "9 \<le> n \<Longrightarrow> cap \<le> step n" by (simp add: step_def cap_def)
  moreover have "250 \<le> cap" by (simp add: cap_def)
  ultimately show ?thesis unfolding delay by (auto simp: min_def)
qed

theorem retry_delay_bounded_witness:
  "computeRetryDelay 5 True True False \<le> computeRetryDelay 20 True True False \<and> computeRetryDelay 20 True True False = 5000"
  using retry_delay_bounded [of 5 True True False 20] retry_delay_bounded [of 20 True True False 20] by simp

text \<open>
  Merging leaves an event in the slot of the first one but gives it the id of the last one, and the
  cursor is set to the id of the last slot. So after a flush the cursor can lie before an event whose
  text was published: a server that resumes after the cursor sends that text again.
\<close>

definition delta_event :: "string \<Rightarrow> string \<Rightarrow> HarnessEvent" where
  "delta_event i d = \<lparr>ev_id = Some i, ev_type = ''message.part.delta'', ev_properties = Some (JObj [(''messageID'', JStr ''m''),
     (''partID'', JStr ''p''), (''field'', JStr ''text''), (''delta'', JStr d)]), ev_directory = Some ''w''\<rparr>"

definition todo_event :: "string \<Rightarrow> HarnessEvent" where
  "todo_event i = \<lparr>ev_id = Some i, ev_type = ''todo.updated'', ev_properties = Some (JObj []), ev_directory = Some ''w''\<rparr>"

theorem cursor_before_published_delta:
  "case pipeline_flush ''w'' (fold (deliver_event sn 0 None) [delta_event ''1'' ''ab'', todo_event ''2'', delta_event ''3'' ''cd''] (queues_init, None)) of
     (events, q, cursor) \<Rightarrow> map (delta_text sn) events = [''abcd'', []] \<and> map ev_id events = [Some ''3'', Some ''2''] \<and> cursor = Some ''2''"
  by code_simp

end
