(* ===== verification/Sync_Ordering.thy ===== *)
theory Sync_Ordering
  imports Prelude "HOL-Library.Char_ord" "HOL-Library.List_Lexorder" "HOL-Library.Product_Lexorder" "HOL-Library.Multiset"
begin

text \<open>
  Orderings of the browser's event synchronisation: chronology of messages
  (\<open>ui/src/sync/message-ordering.ts\<close>), lists sorted by id with binary search (\<open>event-equality.ts\<close>)
  and the order of session lists by lifecycle ranks (\<open>session-ordering.ts\<close>). The structural types
  the helpers ask for are records that the sessions and messages extend. Lemmas: the binary
  insertion is insertion into a sorted list, the lists sorted by id are finite maps, ranks only
  grow, and the session order is a permutation that puts parents before their children whatever
  cycles the parent links have.
\<close>

section \<open>Lists sorted by id\<close>

record Ided =
  rec_id :: string

text \<open>The loop keeps \<open>low\<close> and \<open>high\<close>; \<open>high\<close> is below 0 for an empty list.\<close>

function search_loop :: "('a Ided_scheme) list \<Rightarrow> string \<Rightarrow> int \<Rightarrow> int \<Rightarrow> bool \<times> int" where
  "search_loop arr i low high =
     (if low \<le> high then
        (let mid = (low + high) div 2; v = rec_id (arr ! nat mid)
         in if v = i then (True, mid)
            else if v < i then search_loop arr i (mid + 1) high
            else search_loop arr i low (mid - 1))
      else (False, low))"
  by pat_completeness auto
termination
  by (relation "measure (\<lambda>(xs, i, low, high). nat (high - low + 1))") auto

declare search_loop.simps [simp del]

definition binarySearchIndex :: "('a Ided_scheme) list \<Rightarrow> string \<Rightarrow> bool \<times> int" where
  "binarySearchIndex arr i = search_loop arr i 0 (int (length arr) - 1)"

definition splice_in :: "nat \<Rightarrow> 'a \<Rightarrow> 'a list \<Rightarrow> 'a list" where
  "splice_in k x xs = take k xs @ x # drop k xs"

definition splice_out :: "nat \<Rightarrow> 'a list \<Rightarrow> 'a list" where
  "splice_out k xs = take k xs @ drop (Suc k) xs"

definition upsertById :: "('a Ided_scheme) list \<Rightarrow> 'a Ided_scheme \<Rightarrow> bool \<times> ('a Ided_scheme) list" where
  "upsertById arr item =
     (case binarySearchIndex arr (rec_id item) of
        (True, index) \<Rightarrow> (False, arr[nat index := item])
      | (False, index) \<Rightarrow> (True, splice_in (nat index) item arr))"

definition removeById :: "('a Ided_scheme) list \<Rightarrow> string \<Rightarrow> bool \<times> ('a Ided_scheme) list" where
  "removeById arr i =
     (case binarySearchIndex arr i of
        (False, _) \<Rightarrow> (False, arr)
      | (True, index) \<Rightarrow> (True, splice_out (nat index) arr))"

section \<open>Chronology of messages\<close>

record Chron = Ided +
  cr_created :: int

definition compareMessagesChronological :: "('a Chron_scheme) \<Rightarrow> ('b Chron_scheme) \<Rightarrow> int" where
  "compareMessagesChronological a b =
     (if cr_created a \<noteq> cr_created b then cr_created a - cr_created b
      else if rec_id a < rec_id b then - 1 else if rec_id a > rec_id b then 1 else 0)"

definition chron_key :: "('a Chron_scheme) \<Rightarrow> int \<times> string" where
  "chron_key m = (cr_created m, rec_id m)"

text \<open>\<open>Array.prototype.sort\<close> is a stable sort.\<close>

definition sortMessagesChronological :: "('a Chron_scheme) list \<Rightarrow> ('a Chron_scheme) list" where
  "sortMessagesChronological messages = sort_key chron_key messages"

function insert_point :: "('a Chron_scheme) list \<Rightarrow> 'a Chron_scheme \<Rightarrow> nat \<Rightarrow> nat \<Rightarrow> nat" where
  "insert_point arr message low high =
     (if low < high then
        (let mid = (low + high) div 2
         in if compareMessagesChronological (arr ! mid) message \<le> 0 then insert_point arr message (mid + 1) high
            else insert_point arr message low mid)
      else low)"
  by pat_completeness auto
termination
  by (relation "measure (\<lambda>(xs, m, low, high). high - low)") auto

declare insert_point.simps [simp del]

definition insertMessageChronological :: "('a Chron_scheme) list \<Rightarrow> 'a Chron_scheme \<Rightarrow> ('a Chron_scheme) list" where
  "insertMessageChronological arr message = splice_in (insert_point arr message 0 (length arr)) message arr"

definition find_index :: "('a \<Rightarrow> bool) \<Rightarrow> 'a list \<Rightarrow> nat option" where
  "find_index P xs = (let k = length (takeWhile (\<lambda>x. \<not> P x) xs) in if k < length xs then Some k else None)"

definition removeMessageById :: "('a Ided_scheme) list \<Rightarrow> string \<Rightarrow> ('a Ided_scheme) option \<times> ('a Ided_scheme) list" where
  "removeMessageById messages i =
     (case find_index (\<lambda>m. rec_id m = i) messages of
        None \<Rightarrow> (None, messages)
      | Some k \<Rightarrow> (Some (messages ! k), splice_out k messages))"

text \<open>A page entry whose fields may be missing.\<close>

record ('m, 'p) MessageEntry =
  en_info :: "'m option"
  en_parts :: "'p list option"

definition normalizeMessageEntries :: "(('a Chron_scheme), 'p) MessageEntry option list \<Rightarrow> (('a Chron_scheme) \<times> 'p list) list" where
  "normalizeMessageEntries entries =
     sort_key (\<lambda>(info, _). chron_key info)
       (List.map_filter (\<lambda>entry. case entry of
            Some e \<Rightarrow> (case (en_info e, en_parts e) of (Some info, Some parts) \<Rightarrow> Some (info, parts) | _ \<Rightarrow> None)
          | None \<Rightarrow> None) entries)"

definition messagesBefore :: "('a Ided_scheme) list \<Rightarrow> string option \<Rightarrow> ('a Ided_scheme) list" where
  "messagesBefore messages revert =
     (case revert of
        None \<Rightarrow> messages
      | Some i \<Rightarrow> if i = [] then messages
          else (case find_index (\<lambda>m. rec_id m = i) messages of None \<Rightarrow> messages | Some k \<Rightarrow> take k messages))"

definition truncateAtMessageId :: "('a Ided_scheme) list \<Rightarrow> string \<Rightarrow> ('a Ided_scheme) list" where
  "truncateAtMessageId messages i =
     (case find_index (\<lambda>m. rec_id m = i) messages of None \<Rightarrow> messages | Some k \<Rightarrow> take k messages)"

section \<open>Session lists\<close>

datatype SessionStatus = StIdle | StBusy | StRetry int string int "json option"

datatype LifecyclePhase = PhUnknown | PhActive | PhSettled

definition phaseOf :: "SessionStatus option \<Rightarrow> LifecyclePhase" where
  "phaseOf status = (case status of None \<Rightarrow> PhUnknown | Some StIdle \<Rightarrow> PhSettled | Some _ \<Rightarrow> PhActive)"

text \<open>The store and the variables of the module.\<close>

record OrderingState =
  os_rankById :: "string \<rightharpoonup> int"
  os_lastRank :: int
  os_baseline :: "string \<rightharpoonup> int"
  os_phases :: "string \<rightharpoonup> LifecyclePhase"

definition ordering_init :: OrderingState where
  "ordering_init = \<lparr>os_rankById = Map.empty, os_lastRank = 0, os_baseline = Map.empty, os_phases = Map.empty\<rparr>"

definition nextRank :: "int \<Rightarrow> OrderingState \<Rightarrow> int \<times> OrderingState" where
  "nextRank now st = (let r = max (os_lastRank st + 1) now in (r, st\<lparr>os_lastRank := r\<rparr>))"

definition freezeBaseline :: "string \<Rightarrow> int \<Rightarrow> OrderingState \<Rightarrow> OrderingState" where
  "freezeBaseline sid updated st =
     (if os_baseline st sid \<noteq> None then st else st\<lparr>os_baseline := (os_baseline st)(sid \<mapsto> updated)\<rparr>)"

definition recorded_phase :: "string \<Rightarrow> OrderingState \<Rightarrow> LifecyclePhase" where
  "recorded_phase sid st = (case os_phases st sid of None \<Rightarrow> PhUnknown | Some p \<Rightarrow> p)"

definition observeStatus :: "int \<Rightarrow> string \<Rightarrow> SessionStatus option \<Rightarrow> OrderingState \<Rightarrow> OrderingState" where
  "observeStatus now sid status st0 =
     (let phase = phaseOf status; previous = recorded_phase sid st0;
          st = st0\<lparr>os_phases := (os_phases st0)(sid \<mapsto> phase)\<rparr>
      in if previous = phase then st
         else if previous = PhUnknown then st
         else if \<not> (previous = PhSettled \<and> phase = PhActive \<or> previous = PhActive \<and> phase = PhSettled) then st
         else (let (r, st') = nextRank now st in st'\<lparr>os_rankById := (os_rankById st')(sid \<mapsto> r)\<rparr>))"

text \<open>The filter of \<open>reconcileSnapshot\<close>, which records the phases as it goes.\<close>

fun missed_entries :: "(string \<times> SessionStatus) list \<Rightarrow> OrderingState \<Rightarrow> string list \<times> OrderingState" where
  "missed_entries [] st = ([], st)"
| "missed_entries ((sid, status) # entries) st =
     (let phase = phaseOf (Some status); previous = recorded_phase sid st;
          (missed, st') = missed_entries entries (st\<lparr>os_phases := (os_phases st)(sid \<mapsto> phase)\<rparr>)
      in (if previous \<noteq> PhUnknown \<and> previous \<noteq> phase then sid # missed else missed, st'))"

definition set_ranks :: "string list \<Rightarrow> int \<Rightarrow> OrderingState \<Rightarrow> OrderingState" where
  "set_ranks sids r st = st\<lparr>os_rankById := fold (\<lambda>sid m. m(sid \<mapsto> r)) sids (os_rankById st)\<rparr>"

definition reconcileSnapshot :: "int \<Rightarrow> (string \<times> SessionStatus) list \<Rightarrow> OrderingState \<Rightarrow> OrderingState" where
  "reconcileSnapshot now entries st0 =
     (case missed_entries entries st0 of
        (missed, st) \<Rightarrow> if missed = [] then st else (let (r, st') = nextRank now st in set_ranks missed r st'))"

definition promoteNow :: "int \<Rightarrow> string list \<Rightarrow> OrderingState \<Rightarrow> OrderingState" where
  "promoteNow now sids st = (let (r, st') = nextRank now st in set_ranks sids r st')"

definition ordering_remove :: "string \<Rightarrow> OrderingState \<Rightarrow> OrderingState" where
  "ordering_remove sid st = st\<lparr>os_phases := (os_phases st)(sid := None), os_baseline := (os_baseline st)(sid := None),
     os_rankById := (os_rankById st)(sid := None)\<rparr>"

definition ordering_reset :: "OrderingState \<Rightarrow> OrderingState" where
  "ordering_reset st = ordering_init"

record OrderingSessionRecord = Ided +
  se_parentID :: "string option"
  se_created :: int
  se_updated :: int

text \<open>The key behind \<open>compareWithinScope\<close>: rank and creation descending, then id.\<close>

definition scope_rank :: "OrderingState \<Rightarrow> string \<Rightarrow> int" where
  "scope_rank st sid = (case os_rankById st sid of Some r \<Rightarrow> r
     | None \<Rightarrow> (case os_baseline st sid of Some b \<Rightarrow> b | None \<Rightarrow> 0))"

definition compareWithinScope :: "OrderingState \<Rightarrow> ('a OrderingSessionRecord_scheme) \<Rightarrow> ('a OrderingSessionRecord_scheme) \<Rightarrow> int" where
  "compareWithinScope st a b =
     (let ra = scope_rank st (rec_id a); rb = scope_rank st (rec_id b)
      in if ra \<noteq> rb then rb - ra
         else if se_created a \<noteq> se_created b then se_created b - se_created a
         else if rec_id a < rec_id b then - 1 else if rec_id a > rec_id b then 1 else 0)"

definition scope_key :: "OrderingState \<Rightarrow> ('a OrderingSessionRecord_scheme) \<Rightarrow> int \<times> int \<times> string" where
  "scope_key st a = (- scope_rank st (rec_id a), - se_created a, rec_id a)"

definition sort_scope :: "OrderingState \<Rightarrow> ('a OrderingSessionRecord_scheme) list \<Rightarrow> ('a OrderingSessionRecord_scheme) list" where
  "sort_scope st xs = sort_key (scope_key st) xs"

definition parent_of :: "('a OrderingSessionRecord_scheme) \<Rightarrow> string option" where
  "parent_of s = (case se_parentID s of Some p \<Rightarrow> if p = [] then None else Some p | None \<Rightarrow> None)"

definition children_of :: "('a OrderingSessionRecord_scheme) list \<Rightarrow> string \<Rightarrow> ('a OrderingSessionRecord_scheme) list" where
  "children_of sessions sid =
     (if sid \<in> set (map rec_id sessions) then filter (\<lambda>s. parent_of s = Some sid) sessions else [])"

text \<open>
  The recursion of \<open>appendBranch\<close> with the sessions still to be appended on a stack: a branch is the
  session followed by the branches of its sorted children.
\<close>

function appendBranches :: "OrderingState \<Rightarrow> ('a OrderingSessionRecord_scheme) list \<Rightarrow> ('a OrderingSessionRecord_scheme) list
    \<Rightarrow> string list \<Rightarrow> ('a OrderingSessionRecord_scheme) list" where
  "appendBranches st sessions [] visited = []"
| "appendBranches st sessions (s # stack) visited =
     (if rec_id s \<in> set visited then appendBranches st sessions stack visited
      else s # appendBranches st sessions (sort_scope st (children_of sessions (rec_id s)) @ stack) (rec_id s # visited))"
  by pat_completeness auto
termination
proof (relation "inv_image (less_than <*lex*> less_than)
    (\<lambda>(st, sessions, stack, visited). (card (set (map rec_id sessions) - set visited), length stack))", goal_cases)
  case (3 st sessions s stack visited)
  show ?case
  proof (cases "rec_id s \<in> set (map rec_id sessions)")
    case True
    then have "card (set (map rec_id sessions) - insert (rec_id s) (set visited)) < card (set (map rec_id sessions) - set visited)"
      using 3 by (intro psubset_card_mono) auto
    then show ?thesis by simp
  next
    case False
    then have "set (map rec_id sessions) - insert (rec_id s) (set visited) = set (map rec_id sessions) - set visited" by auto
    then show ?thesis using False by (simp add: children_of_def sort_scope_def)
  qed
qed auto

definition orderSessionsByLifecycle :: "('a OrderingSessionRecord_scheme) list \<Rightarrow> OrderingState \<Rightarrow> ('a OrderingSessionRecord_scheme) list \<times> OrderingState" where
  "orderSessionsByLifecycle sessions st0 =
     (let st = fold (\<lambda>s. freezeBaseline (rec_id s) (se_updated s)) sessions st0;
          roots = sort_scope st (filter (\<lambda>s. parent_of s = None) sessions);
          ordered = appendBranches st sessions roots [];
          remaining = sort_scope st (filter (\<lambda>s. rec_id s \<notin> set (map rec_id ordered)) sessions)
      in (ordered @ appendBranches st sessions remaining (map rec_id ordered), st))"

section \<open>The comparisons are linear orders\<close>

lemma chron_compare:
  "compareMessagesChronological a b \<le> 0 \<longleftrightarrow> chron_key a \<le> chron_key b"
  "compareMessagesChronological a b = 0 \<longleftrightarrow> chron_key a = chron_key b"
  by (auto simp: compareMessagesChronological_def chron_key_def less_eq_prod_def)

lemma scope_compare:
  "compareWithinScope st a b \<le> 0 \<longleftrightarrow> scope_key st a \<le> scope_key st b"
  by (auto simp: compareWithinScope_def scope_key_def Let_def less_eq_prod_def)

section \<open>Binary insertion\<close>

text \<open>Where a message belongs: behind everything that is not later.\<close>

definition insert_chron :: "('a Chron_scheme) \<Rightarrow> ('a Chron_scheme) list \<Rightarrow> ('a Chron_scheme) list" where
  "insert_chron m xs = takeWhile (\<lambda>x. chron_key x \<le> chron_key m) xs @ m # dropWhile (\<lambda>x. chron_key x \<le> chron_key m) xs"

lemma insert_point_spec:
  assumes "sorted (map chron_key xs)" "low \<le> high" "high \<le> length xs"
    and "\<forall>i < low. chron_key (xs ! i) \<le> chron_key m" "\<forall>i. high \<le> i \<and> i < length xs \<longrightarrow> chron_key m < chron_key (xs ! i)"
  shows "insert_point xs m low high \<le> length xs \<and> (\<forall>i < insert_point xs m low high. chron_key (xs ! i) \<le> chron_key m) \<and>
    (\<forall>i. insert_point xs m low high \<le> i \<and> i < length xs \<longrightarrow> chron_key m < chron_key (xs ! i))"
  using assms
proof (induction xs m low high rule: insert_point.induct)
  case (1 xs m low high)
  let ?mid = "(low + high) div 2"
  have mono: "i \<le> j \<Longrightarrow> j < length xs \<Longrightarrow> chron_key (xs ! i) \<le> chron_key (xs ! j)" for i j
    using 1(3) sorted_nth_mono [of "map chron_key xs" i j] by simp
  show ?case
  proof (cases "low < high")
    case False
    then have e: "insert_point xs m low high = low" by (subst insert_point.simps) auto
    have eq: "low = high" using False 1(4) by simp
    show ?thesis using 1(5,6,7) unfolding e using eq by simp
  next
    case True
    then have mid: "low \<le> ?mid" "?mid < high" "?mid < length xs" using 1(5) by auto
    show ?thesis
    proof (cases "chron_key (xs ! ?mid) \<le> chron_key m")
      case le: True
      then have e: "insert_point xs m low high = insert_point xs m (?mid + 1) high"
        using True by (subst insert_point.simps) (simp add: chron_compare Let_def)
      have "\<forall>i < ?mid + 1. chron_key (xs ! i) \<le> chron_key m" using order_trans [OF mono [of _ ?mid] le] mid(3) by simp
      then show ?thesis unfolding e using 1(1) [OF True refl] 1(3,5,7) mid le by (simp add: chron_compare)
    next
      case gt: False
      then have e: "insert_point xs m low high = insert_point xs m low ?mid"
        using True by (subst insert_point.simps) (simp add: chron_compare Let_def)
      have late: "\<forall>i. ?mid \<le> i \<and> i < length xs \<longrightarrow> chron_key m < chron_key (xs ! i)"
      proof (intro allI impI, elim conjE)
        fix i assume "?mid \<le> i" "i < length xs"
        then have "chron_key (xs ! ?mid) \<le> chron_key (xs ! i)" by (rule mono)
        then show "chron_key m < chron_key (xs ! i)" using gt by (simp only: not_le)
      qed
      have "\<not> compareMessagesChronological (xs ! ?mid) m \<le> 0" using gt by (simp add: chron_compare)
      from 1(2) [OF True refl this 1(3) mid(1) _ 1(6) late] show ?thesis unfolding e using mid(3) by simp
    qed
  qed
qed

lemma split_point:
  assumes "p \<le> length xs" "\<forall>i < p. P (xs ! i)" "\<forall>i. p \<le> i \<and> i < length xs \<longrightarrow> \<not> P (xs ! i)"
  shows "take p xs = takeWhile P xs" "drop p xs = dropWhile P xs"
proof -
  have a: "\<And>x. x \<in> set (take p xs) \<Longrightarrow> P x" using assms(1,2) by (auto simp: in_set_conv_nth)
  have b: "drop p xs = [] \<or> \<not> P (hd (drop p xs))" using assms(3) by (cases "p < length xs") (auto simp: hd_drop_conv_nth)
  have "takeWhile P (take p xs @ drop p xs) = take p xs" using a b by (cases "drop p xs") (auto simp: takeWhile_append2)
  moreover have "dropWhile P (take p xs @ drop p xs) = drop p xs" using a b by (cases "drop p xs") (auto simp: dropWhile_append2)
  ultimately show "take p xs = takeWhile P xs" "drop p xs = dropWhile P xs" by simp_all
qed

lemma insert_chron_eq:
  assumes "sorted (map chron_key xs)"
  shows "insertMessageChronological xs m = insert_chron m xs"
proof -
  let ?p = "insert_point xs m 0 (length xs)"
  have past: "\<forall>i. length xs \<le> i \<and> i < length xs \<longrightarrow> chron_key m < chron_key (xs ! i)" by auto
  have p: "?p \<le> length xs" "\<forall>i < ?p. chron_key (xs ! i) \<le> chron_key m"
    "\<forall>i. ?p \<le> i \<and> i < length xs \<longrightarrow> \<not> chron_key (xs ! i) \<le> chron_key m"
    using insert_point_spec [OF assms le0 order_refl _ past] by (simp_all add: not_le)
  show ?thesis unfolding insertMessageChronological_def insert_chron_def splice_in_def
    using split_point [where P = "\<lambda>x. chron_key x \<le> chron_key m", OF p] by simp
qed

lemma sorted_mid: "sorted (as @ bs) \<Longrightarrow> \<forall>a \<in> set as. a \<le> x \<Longrightarrow> \<forall>b \<in> set bs. x \<le> b \<Longrightarrow> sorted (as @ x # bs)"
  by (auto simp: sorted_append)

lemma sorted_dropWhile_less: "sorted ks \<Longrightarrow> b \<in> set (dropWhile (\<lambda>k. k \<le> x) ks) \<Longrightarrow> x < b" for x :: "'a :: linorder"
  by (induction ks) (auto split: if_splits)

lemma insert_chron_keys:
  "map chron_key (insert_chron m xs) =
     takeWhile (\<lambda>k. k \<le> chron_key m) (map chron_key xs) @ chron_key m # dropWhile (\<lambda>k. k \<le> chron_key m) (map chron_key xs)"
  by (simp add: insert_chron_def takeWhile_map dropWhile_map comp_def)

lemma insert_chron_sorted:
  assumes "sorted (map chron_key xs)"
  shows "sorted (map chron_key (insert_chron m xs))"
  unfolding insert_chron_keys
proof (rule sorted_mid)
  show "sorted (takeWhile (\<lambda>k. k \<le> chron_key m) (map chron_key xs) @ dropWhile (\<lambda>k. k \<le> chron_key m) (map chron_key xs))"
    using assms by (simp only: takeWhile_dropWhile_id)
  show "\<forall>a \<in> set (takeWhile (\<lambda>k. k \<le> chron_key m) (map chron_key xs)). a \<le> chron_key m" by (meson set_takeWhileD)
  show "\<forall>b \<in> set (dropWhile (\<lambda>k. k \<le> chron_key m) (map chron_key xs)). chron_key m \<le> b"
    using sorted_dropWhile_less [OF assms] less_imp_le by blast
qed

section \<open>Lists sorted by id are finite maps\<close>

definition id_sorted :: "('a Ided_scheme) list \<Rightarrow> bool" where
  "id_sorted xs \<longleftrightarrow> sorted_wrt (<) (map rec_id xs)"

definition id_lookup :: "('a Ided_scheme) list \<Rightarrow> string \<rightharpoonup> 'a Ided_scheme" where
  "id_lookup xs i = List.find (\<lambda>x. rec_id x = i) xs"

lemma id_nth_less: "id_sorted xs \<Longrightarrow> i < j \<Longrightarrow> j < length xs \<Longrightarrow> rec_id (xs ! i) < rec_id (xs ! j)"
  using sorted_wrt_nth_less [of "(<)" "map rec_id xs" i j] by (simp add: id_sorted_def)

text \<open>The result of the search: the position of the id, or where it belongs.\<close>

definition found_at :: "('a Ided_scheme) list \<Rightarrow> string \<Rightarrow> bool \<times> int \<Rightarrow> bool" where
  "found_at xs i r \<longleftrightarrow> (case r of
      (True, k) \<Rightarrow> 0 \<le> k \<and> k < int (length xs) \<and> rec_id (xs ! nat k) = i
    | (False, k) \<Rightarrow> 0 \<le> k \<and> k \<le> int (length xs) \<and> (\<forall>j < nat k. rec_id (xs ! j) < i) \<and>
        (\<forall>j. nat k \<le> j \<and> j < length xs \<longrightarrow> i < rec_id (xs ! j)))"

lemma search_loop_spec:
  assumes "id_sorted xs" "0 \<le> low" "low \<le> high + 1" "high < int (length xs)"
    and "\<forall>j < nat low. rec_id (xs ! j) < i" "\<forall>j. high < int j \<and> j < length xs \<longrightarrow> i < rec_id (xs ! j)"
  shows "found_at xs i (search_loop xs i low high)"
  using assms
proof (induction xs i low high rule: search_loop.induct)
  case (1 xs i low high)
  let ?mid = "(low + high) div 2"
  show ?case
  proof (cases "low \<le> high")
    case False
    then have e: "search_loop xs i low high = (False, low)" by (subst search_loop.simps) simp
    have "low = high + 1" using False 1(5) by simp
    then show ?thesis unfolding e found_at_def using 1(4,6,7,8) by auto
  next
    case True
    then have mid: "low \<le> ?mid" "?mid \<le> high" "0 \<le> ?mid" "nat ?mid < length xs" using 1(4,6) by auto
    consider (eq) "rec_id (xs ! nat ?mid) = i" | (less) "rec_id (xs ! nat ?mid) < i" | (greater) "i < rec_id (xs ! nat ?mid)"
      using less_linear by blast
    then show ?thesis
    proof cases
      case eq
      then have "search_loop xs i low high = (True, ?mid)" using True by (subst search_loop.simps) (simp add: Let_def)
      then show ?thesis using eq mid by (simp add: found_at_def)
    next
      case less
      then have e: "search_loop xs i low high = search_loop xs i (?mid + 1) high" using True by (subst search_loop.simps) (auto simp: Let_def)
      have "rec_id (xs ! j) < i" if j: "j < nat (?mid + 1)" for j
      proof (cases "j = nat ?mid")
        case False
        then have "j < nat ?mid" using j mid(3) by linarith
        then show ?thesis using less id_nth_less [OF 1(3) _ mid(4)] order_less_trans by blast
      qed (use less in simp)
      moreover have "rec_id (xs ! nat ?mid) \<noteq> i" using less by simp
      ultimately show ?thesis unfolding e using less mid 1(3,4,6,8) by (intro 1(1) [OF True refl refl]) simp_all
    next
      case greater
      then have e: "search_loop xs i low high = search_loop xs i low (?mid - 1)" using True by (subst search_loop.simps) (auto simp: Let_def)
      have "i < rec_id (xs ! j)" if "?mid - 1 < int j" "j < length xs" for j
      proof (cases "j = nat ?mid")
        case False
        then have "nat ?mid < j" using that(1) mid(3) by linarith
        then show ?thesis using order_less_trans [OF greater id_nth_less [OF 1(3) _ that(2)]] by blast
      qed (use greater in simp)
      moreover have "rec_id (xs ! nat ?mid) \<noteq> i" "\<not> rec_id (xs ! nat ?mid) < i" using greater by simp_all
      ultimately show ?thesis unfolding e using mid 1(3,4,6,7) by (intro 1(2) [OF True refl refl]) simp_all
    qed
  qed
qed

lemma binary_search_spec: "id_sorted xs \<Longrightarrow> found_at xs i (binarySearchIndex xs i)"
  unfolding binarySearchIndex_def by (rule search_loop_spec) auto

lemma id_sorted_distinct: "id_sorted xs \<Longrightarrow> distinct (map rec_id xs)"
  by (simp add: id_sorted_def strict_sorted_iff)

lemma lookup_Some: "distinct (map rec_id xs) \<Longrightarrow> id_lookup xs i = Some x \<longleftrightarrow> x \<in> set xs \<and> rec_id x = i"
  unfolding id_lookup_def by (induction xs) auto

lemma lookup_eqI:
  assumes "distinct (map rec_id xs)" "\<And>x. f (rec_id x) = Some x \<longleftrightarrow> x \<in> set xs" "\<And>i x. f i = Some x \<Longrightarrow> rec_id x = i"
  shows "id_lookup xs = f"
proof
  fix i
  show "id_lookup xs i = f i"
  proof (cases "f i")
    case None
    have "id_lookup xs i \<noteq> Some x" for x using lookup_Some [OF assms(1), of i x] assms(2) [of x] None by auto
    then show ?thesis using None by (cases "id_lookup xs i") auto
  next
    case (Some x)
    then show ?thesis using lookup_Some [OF assms(1), of i x] assms(2) [of x] assms(3) [of i x] by auto
  qed
qed

lemma id_sorted_splice_in:
  assumes "id_sorted xs" "k \<le> length xs" "\<forall>j < k. rec_id (xs ! j) < rec_id x" "\<forall>j. k \<le> j \<and> j < length xs \<longrightarrow> rec_id x < rec_id (xs ! j)"
  shows "id_sorted (splice_in k x xs)" "set (splice_in k x xs) = insert x (set xs)"
proof -
  have "sorted_wrt (<) (map rec_id (take k xs) @ map rec_id (drop k xs))"
    using assms(1) by (simp add: id_sorted_def flip: map_append)
  moreover have "\<forall>y \<in> set (take k xs). rec_id y < rec_id x" "\<forall>y \<in> set (drop k xs). rec_id x < rec_id y"
    using assms(2-4) by (auto simp: in_set_conv_nth)
  ultimately show "id_sorted (splice_in k x xs)" by (auto simp: id_sorted_def splice_in_def sorted_wrt_append)
  show "set (splice_in k x xs) = insert x (set xs)"
    using append_take_drop_id [of k xs] by (metis splice_in_def Un_insert_right list.set(2) set_append)
qed

lemma id_sorted_splice_out:
  assumes "id_sorted xs" "k < length xs"
  shows "id_sorted (splice_out k xs)" "set (splice_out k xs) = set xs - {xs ! k}"
proof -
  have split: "xs = take k xs @ xs ! k # drop (Suc k) xs" using assms(2) by (rule id_take_nth_drop)
  have "id_sorted (take k xs @ xs ! k # drop (Suc k) xs)" using assms(1) split by simp
  then show "id_sorted (splice_out k xs)" by (auto simp: id_sorted_def splice_out_def sorted_wrt_append)
  have "distinct (take k xs @ xs ! k # drop (Suc k) xs)" using id_sorted_distinct [OF assms(1)] split distinct_map by metis
  then have "set (take k xs @ drop (Suc k) xs) = set (take k xs @ xs ! k # drop (Suc k) xs) - {xs ! k}" by auto
  then show "set (splice_out k xs) = set xs - {xs ! k}" using split by (simp add: splice_out_def)
qed

lemma id_sorted_update:
  assumes "id_sorted xs" "k < length xs" "rec_id (xs ! k) = rec_id x"
  shows "id_sorted (xs[k := x])" "set (xs[k := x]) = insert x (set xs - {xs ! k})"
proof -
  have "map rec_id (xs[k := x]) = map rec_id xs" using assms(2,3) by (metis list_update_id map_update nth_map)
  then show "id_sorted (xs[k := x])" using assms(1) by (simp add: id_sorted_def)
  have "distinct xs" using id_sorted_distinct [OF assms(1)] distinct_map by metis
  then show "set (xs[k := x]) = insert x (set xs - {xs ! k})" using assms(2) by (rule set_update_distinct)
qed

lemma found_lookup:
  assumes "id_sorted xs" "found_at xs i r"
  shows "fst r \<longleftrightarrow> id_lookup xs i \<noteq> None" "fst r \<Longrightarrow> id_lookup xs i = Some (xs ! nat (snd r))"
proof -
  note l = lookup_Some [OF id_sorted_distinct [OF assms(1)]]
  have "id_lookup xs i = Some (xs ! nat (snd r))" if "fst r"
    using that assms(2) l by (cases r) (auto simp: found_at_def)
  moreover have "id_lookup xs i = None" if "\<not> fst r"
  proof -
    define k where "k = snd r"
    then have k: "r = (False, k)" using that by (cases r) simp
    have "rec_id x \<noteq> i" if x: "x \<in> set xs" for x
    proof -
      obtain j where "j < length xs" "x = xs ! j" using x by (metis in_set_conv_nth)
      then show ?thesis using assms(2) k by (cases "j < nat k") (auto simp: found_at_def not_less)
    qed
    then show ?thesis using l by (metis not_Some_eq)
  qed
  ultimately show "fst r \<longleftrightarrow> id_lookup xs i \<noteq> None" "fst r \<Longrightarrow> id_lookup xs i = Some (xs ! nat (snd r))"
    by (cases "fst r"; simp)+
qed

lemma upsert_spec:
  assumes s: "id_sorted xs"
  shows "id_sorted (snd (upsertById xs x)) \<and> id_lookup (snd (upsertById xs x)) = (id_lookup xs)(rec_id x \<mapsto> x) \<and>
    (fst (upsertById xs x) \<longleftrightarrow> id_lookup xs (rec_id x) = None)"
proof -
  let ?r = "binarySearchIndex xs (rec_id x)"
  note f = binary_search_spec [OF s, of "rec_id x"] and l = lookup_Some [OF id_sorted_distinct [OF s]]
  note fl = found_lookup [OF s f]
  have "id_sorted (snd (upsertById xs x)) \<and> set (snd (upsertById xs x)) = insert x {y \<in> set xs. rec_id y \<noteq> rec_id x}"
  proof (cases "fst ?r")
    case True
    then obtain k where k: "?r = (True, k)" by (cases ?r) auto
    then have k': "nat k < length xs" "rec_id (xs ! nat k) = rec_id x" using f by (auto simp: found_at_def)
    have "{y \<in> set xs. rec_id y \<noteq> rec_id x} = set xs - {xs ! nat k}"
      using l [of "rec_id x"] fl(2) [OF True] k k' by (auto, metis option.inject snd_conv)
    then show ?thesis using id_sorted_update [OF s k'] by (simp add: upsertById_def k)
  next
    case False
    then obtain k where k: "?r = (False, k)" by (cases ?r) auto
    have "{y \<in> set xs. rec_id y \<noteq> rec_id x} = set xs" using fl(1) False l [of "rec_id x"] by auto
    then show ?thesis using id_sorted_splice_in [OF s, of "nat k" x] f k by (auto simp: upsertById_def found_at_def)
  qed
  moreover have "id_lookup (snd (upsertById xs x)) = (id_lookup xs)(rec_id x \<mapsto> x)"
    using calculation l by (intro lookup_eqI id_sorted_distinct) (auto split: if_splits)
  moreover have "fst (upsertById xs x) \<longleftrightarrow> \<not> fst ?r" by (cases ?r; cases "fst ?r") (auto simp: upsertById_def)
  ultimately show ?thesis using fl(1) by auto
qed

lemma remove_spec:
  assumes s: "id_sorted xs"
  shows "id_sorted (snd (removeById xs i)) \<and> id_lookup (snd (removeById xs i)) = (id_lookup xs)(i := None) \<and>
    (fst (removeById xs i) \<longleftrightarrow> id_lookup xs i \<noteq> None)"
proof -
  let ?r = "binarySearchIndex xs i"
  note f = binary_search_spec [OF s, of i] and l = lookup_Some [OF id_sorted_distinct [OF s]]
  note fl = found_lookup [OF s f]
  have "id_sorted (snd (removeById xs i)) \<and> set (snd (removeById xs i)) = {y \<in> set xs. rec_id y \<noteq> i}"
  proof (cases "fst ?r")
    case True
    then obtain k where k: "?r = (True, k)" by (cases ?r) auto
    then have k': "nat k < length xs" "rec_id (xs ! nat k) = i" using f by (auto simp: found_at_def)
    have "{y \<in> set xs. rec_id y \<noteq> i} = set xs - {xs ! nat k}"
      using l [of i] fl(2) [OF True] k k' by (auto, metis option.inject snd_conv)
    then show ?thesis using id_sorted_splice_out [OF s k'(1)] by (simp add: removeById_def k)
  next
    case False
    then obtain k where k: "?r = (False, k)" by (cases ?r) auto
    have "{y \<in> set xs. rec_id y \<noteq> i} = set xs" using fl(1) False l [of i] by auto
    then show ?thesis using s by (simp add: removeById_def k)
  qed
  moreover have "id_lookup (snd (removeById xs i)) = (id_lookup xs)(i := None)"
    using calculation l by (intro lookup_eqI id_sorted_distinct) (auto split: if_splits)
  moreover have "fst (removeById xs i) \<longleftrightarrow> fst ?r" by (cases ?r; cases "fst ?r") (auto simp: removeById_def)
  ultimately show ?thesis using fl(1) by auto
qed

text \<open>What the reducers rely on: a store of records under their own keys.\<close>

locale keyed_store =
  fixes ok :: "'s \<Rightarrow> bool" and look :: "'s \<Rightarrow> 'k \<Rightarrow> 'v option" and key :: "'v \<Rightarrow> 'k"
    and put :: "'v \<Rightarrow> 's \<Rightarrow> 's" and del :: "'k \<Rightarrow> 's \<Rightarrow> 's"
  assumes put_ok: "ok s \<Longrightarrow> ok (put v s)" and put_look: "ok s \<Longrightarrow> look (put v s) = (look s)(key v \<mapsto> v)"
    and del_ok: "ok s \<Longrightarrow> ok (del k s)" and del_look: "ok s \<Longrightarrow> look (del k s) = (look s)(k := None)"
begin

lemma run_refines:
  "ok s \<Longrightarrow> ok (fold (case_sum put del) ops s) \<and>
     look (fold (case_sum put del) ops s) = fold (case_sum (\<lambda>v m. m(key v \<mapsto> v)) (\<lambda>k m. m(k := None))) ops (look s)"
proof (induction ops arbitrary: s)
  case (Cons op ops)
  show ?case
  proof (cases op)
    case (Inl v)
    show ?thesis using Cons(1) [OF put_ok [OF Cons(2)], of v] by (simp only: Inl put_look [OF Cons(2)] fold_simps sum.case)
  next
    case (Inr k)
    show ?thesis using Cons(1) [OF del_ok [OF Cons(2)], of k] by (simp only: Inr del_look [OF Cons(2)] fold_simps sum.case)
  qed
qed simp

end

interpretation ids: keyed_store id_sorted id_lookup rec_id "\<lambda>x xs. snd (upsertById xs x)" "\<lambda>i xs. snd (removeById xs i)"
  by unfold_locales (simp_all add: upsert_spec remove_spec)

text \<open>C30.
  Lists sorted by id with binary search refine finite maps: after any sequence of upserts and
  removals the list is sorted with one entry per id and looking up an id gives what the same updates
  of a map give; upserting reports whether the id was new, removing whether it was there.
\<close>

theorem id_sorted_lists_refine_maps:
  fixes ops :: "('a Ided_scheme + string) list"
  assumes "id_sorted xs"
  defines "ys \<equiv> fold (case_sum (\<lambda>x xs. snd (upsertById xs x)) (\<lambda>i xs. snd (removeById xs i))) ops xs"
  shows "id_sorted ys \<and> id_lookup ys = fold (case_sum (\<lambda>v m. m(rec_id v \<mapsto> v)) (\<lambda>k m. m(k := None))) ops (id_lookup xs) \<and>
    (fst (upsertById ys x) \<longleftrightarrow> id_lookup ys (rec_id x) = None) \<and> (fst (removeById ys i) \<longleftrightarrow> id_lookup ys i \<noteq> None)"
  using ids.run_refines [OF assms(1), of ops] unfolding ys_def by (simp add: upsert_spec remove_spec)

theorem id_sorted_lists_refine_maps_witness:
  "id_lookup (fold (case_sum (\<lambda>x xs. snd (upsertById xs x)) (\<lambda>i xs. snd (removeById xs i))) [Inl \<lparr>rec_id = ''b''\<rparr>, Inr ''a'']
      [\<lparr>rec_id = ''a''\<rparr>, \<lparr>rec_id = ''c''\<rparr>]) ''b'' = Some \<lparr>rec_id = ''b''\<rparr>"
proof -
  have "id_sorted [\<lparr>rec_id = ''a''\<rparr>, \<lparr>rec_id = ''c''\<rparr>]" by code_simp
  from id_sorted_lists_refine_maps [OF this, of "[Inl \<lparr>rec_id = ''b''\<rparr>, Inr ''a'']"] show ?thesis by (auto simp: id_lookup_def)
qed

section \<open>Chronological insertion\<close>

lemma takeWhile_dropWhile_mset: "mset (takeWhile P xs) + mset (dropWhile P xs) = mset xs"
  by (metis mset_append takeWhile_dropWhile_id)

lemma filter_insert_chron:
  assumes "sorted (map chron_key xs)"
  shows "filter (\<lambda>x. k = chron_key x) (insert_chron m xs) = filter (\<lambda>x. k = chron_key x) (xs @ [m])"
proof -
  let ?P = "\<lambda>x. chron_key x \<le> chron_key m"
  have split: "filter Q xs = filter Q (takeWhile ?P xs) @ filter Q (dropWhile ?P xs)" for Q
    by (metis filter_append takeWhile_dropWhile_id)
  show ?thesis
  proof (cases "k = chron_key m")
    case True
    have "chron_key m < chron_key x" if "x \<in> set (dropWhile ?P xs)" for x
      by (rule sorted_dropWhile_less [OF assms]) (use that in \<open>simp add: dropWhile_map comp_def\<close>)
    then have "filter (\<lambda>x. k = chron_key x) (dropWhile ?P xs) = []"
      unfolding filter_empty_conv using True by (metis order_less_irrefl)
    then show ?thesis unfolding insert_chron_def split [of "\<lambda>x. k = chron_key x"] filter_append using True by simp
  qed (simp add: insert_chron_def split)
qed

lemma mset_insert_chron: "mset (insert_chron m xs) = add_mset m (mset xs)"
  by (simp add: insert_chron_def takeWhile_dropWhile_mset)

text \<open>C31.
  Binary insertion of a message into a chronologically sorted list gives what sorting the list with
  the message appended gives (ties behind the messages already there): the incremental order and
  the order of a refetched page agree, and the list stays sorted with exactly that message added.
\<close>

theorem binary_insertion_is_stable_sort:
  assumes "sorted (map chron_key xs)"
  shows "insertMessageChronological xs m = sortMessagesChronological (xs @ [m]) \<and>
    sorted (map chron_key (insertMessageChronological xs m)) \<and>
    mset (insertMessageChronological xs m) = add_mset m (mset xs)"
proof -
  have e: "insertMessageChronological xs m = insert_chron m xs" using assms by (rule insert_chron_eq)
  have "sort_key chron_key (xs @ [m]) = insert_chron m xs"
    by (rule properties_for_sort_key) (simp_all add: mset_insert_chron insert_chron_sorted [OF assms] filter_insert_chron [OF assms])
  then show ?thesis using mset_insert_chron insert_chron_sorted [OF assms] by (simp add: e sortMessagesChronological_def)
qed

theorem binary_insertion_is_stable_sort_witness:
  "map rec_id (insertMessageChronological [\<lparr>rec_id = ''z'', cr_created = 1\<rparr>, \<lparr>rec_id = ''c'', cr_created = 5\<rparr>]
      \<lparr>rec_id = ''a'', cr_created = 5\<rparr>) = [''z'', ''a'', ''c''] \<and>
   insertMessageChronological [\<lparr>rec_id = ''z'', cr_created = 1\<rparr>, \<lparr>rec_id = ''c'', cr_created = 5\<rparr>]
      \<lparr>rec_id = ''a'', cr_created = 5\<rparr> =
   sortMessagesChronological [\<lparr>rec_id = ''z'', cr_created = 1\<rparr>, \<lparr>rec_id = ''c'', cr_created = 5\<rparr>, \<lparr>rec_id = ''a'', cr_created = 5\<rparr>]"
proof -
  let ?xs = "[\<lparr>rec_id = ''z'', cr_created = 1\<rparr>, \<lparr>rec_id = ''c'', cr_created = 5\<rparr>]"
  have "sorted (map chron_key ?xs)" by code_simp
  from binary_insertion_is_stable_sort [OF this, of "\<lparr>rec_id = ''a'', cr_created = 5\<rparr>"] show ?thesis
    by (intro conjI) (code_simp, simp only: append.simps)
qed

section \<open>Lifecycle ranks\<close>

datatype OrderingOp = OpObserve int string "SessionStatus option" | OpReconcile int "(string \<times> SessionStatus) list"
  | OpPromote int "string list" | OpRemove string | OpReset | OpFreeze string int

fun ordering_step :: "OrderingOp \<Rightarrow> OrderingState \<Rightarrow> OrderingState" where
  "ordering_step (OpObserve now sid status) st = observeStatus now sid status st"
| "ordering_step (OpReconcile now entries) st = reconcileSnapshot now entries st"
| "ordering_step (OpPromote now sids) st = promoteNow now sids st"
| "ordering_step (OpRemove sid) st = ordering_remove sid st"
| "ordering_step OpReset st = ordering_reset st"
| "ordering_step (OpFreeze sid updated) st = freezeBaseline sid updated st"

definition ordering_run :: "OrderingOp list \<Rightarrow> OrderingState" where
  "ordering_run ops = fold ordering_step ops ordering_init"

definition ranks_below :: "OrderingState \<Rightarrow> bool" where
  "ranks_below st \<longleftrightarrow> (\<forall>r \<in> ran (os_rankById st). r \<le> os_lastRank st)"

lemma ranks_below_iff: "ranks_below st \<longleftrightarrow> (\<forall>sid r. os_rankById st sid = Some r \<longrightarrow> r \<le> os_lastRank st)"
  by (auto simp: ranks_below_def ran_def)

lemma missed_entries_frame:
  "os_rankById (snd (missed_entries entries st)) = os_rankById st"
  "os_lastRank (snd (missed_entries entries st)) = os_lastRank st"
  by (induction entries st rule: missed_entries.induct) (simp_all add: Let_def case_prod_beta)

lemma fold_ranks: "fold (\<lambda>sid m. m(sid \<mapsto> r)) sids m x = (if x \<in> set sids then Some r else m x)"
  by (induction sids arbitrary: m) auto

lemma promote_ranks_below:
  assumes "ranks_below st"
  shows "ranks_below (promoteNow now sids st)"
  using assms by (fastforce simp: ranks_below_iff promoteNow_def nextRank_def set_ranks_def fold_ranks Let_def split: if_splits)

lemma reconcile_promotes:
  "reconcileSnapshot now entries st =
     (case missed_entries entries st of (missed, st1) \<Rightarrow> if missed = [] then st1 else promoteNow now missed st1)"
  by (cases "missed_entries entries st") (simp add: reconcileSnapshot_def promoteNow_def)

lemma ordering_step_ranks:
  assumes "ranks_below st"
  shows "ranks_below (ordering_step op st)"
proof (cases op)
  case (OpReconcile now entries)
  have "ranks_below (snd (missed_entries entries st))" using assms by (simp add: ranks_below_iff missed_entries_frame)
  then show ?thesis using promote_ranks_below by (simp add: OpReconcile reconcile_promotes case_prod_beta)
qed (use assms promote_ranks_below in \<open>fastforce simp: ranks_below_iff observeStatus_def nextRank_def
      ordering_remove_def ordering_reset_def ordering_init_def freezeBaseline_def Let_def split: if_splits\<close>)+

lemma ordering_run_ranks: "ranks_below (ordering_run ops)"
proof -
  have "ranks_below st \<Longrightarrow> ranks_below (fold ordering_step ops st)" for st
    by (induction ops arbitrary: st) (simp_all add: ordering_step_ranks)
  then show ?thesis by (simp add: ordering_run_def ordering_init_def ranks_below_def ran_def)
qed

definition crosses :: "LifecyclePhase \<Rightarrow> LifecyclePhase \<Rightarrow> bool" where
  "crosses a b \<longleftrightarrow> (a, b) \<in> {(PhSettled, PhActive), (PhActive, PhSettled)}"

lemma observe_ranks:
  "os_rankById (observeStatus now sid status st) =
     (if crosses (recorded_phase sid st) (phaseOf status)
      then (os_rankById st)(sid \<mapsto> max (os_lastRank st + 1) now) else os_rankById st)"
  by (cases "recorded_phase sid st"; cases "phaseOf status")
    (simp_all add: observeStatus_def crosses_def nextRank_def Let_def)

text \<open>
  After any sequence of observations, snapshots, promotions, removals, resets and freezes, observing
  a status promotes a session exactly when its recorded phase crosses between settled and active:
  then its rank is strictly above the rank of every session and no earlier than the clock, the
  others keep theirs; any other observation, the first one included, changes no rank.
\<close>

theorem promotion_exactly_on_crossing:
  fixes ops now sid status
  defines "st \<equiv> ordering_run ops"
  defines "st' \<equiv> observeStatus now sid status st"
  shows "(crosses (recorded_phase sid st) (phaseOf status) \<longrightarrow>
      (\<exists>r \<ge> now. os_rankById st' = (os_rankById st)(sid \<mapsto> r) \<and> (\<forall>r' \<in> ran (os_rankById st). r' < r))) \<and>
    (\<not> crosses (recorded_phase sid st) (phaseOf status) \<longrightarrow> os_rankById st' = os_rankById st) \<and>
    recorded_phase sid st' = phaseOf status"
proof (intro conjI impI)
  assume c: "crosses (recorded_phase sid st) (phaseOf status)"
  show "\<exists>r \<ge> now. os_rankById st' = (os_rankById st)(sid \<mapsto> r) \<and> (\<forall>r' \<in> ran (os_rankById st). r' < r)"
    using ordering_run_ranks [of ops] c
    by (intro exI [of _ "max (os_lastRank st + 1) now"]) (force simp: st'_def observe_ranks ranks_below_def st_def)
next
  show "recorded_phase sid st' = phaseOf status"
    by (simp add: st'_def observeStatus_def recorded_phase_def nextRank_def Let_def)
qed (simp add: st'_def observe_ranks)

theorem promotion_exactly_on_crossing_witness:
  "\<exists>r \<ge> 7. os_rankById (observeStatus 7 ''s'' (Some StBusy) (ordering_run [OpPromote 9 [''t''], OpObserve 3 ''s'' (Some StIdle)])) =
     (os_rankById (ordering_run [OpPromote 9 [''t''], OpObserve 3 ''s'' (Some StIdle)]))(''s'' \<mapsto> r) \<and> 9 < r"
proof -
  let ?st = "ordering_run [OpPromote 9 [''t''], OpObserve 3 ''s'' (Some StIdle)]"
  have "crosses (recorded_phase ''s'' ?st) (phaseOf (Some StBusy))" "os_rankById ?st ''t'' = Some 9" by code_simp+
  then show ?thesis
    using promotion_exactly_on_crossing [of "''s''" "[OpPromote 9 [''t''], OpObserve 3 ''s'' (Some StIdle)]" "Some StBusy" 7]
    by (metis ranI)
qed

section \<open>The session tree\<close>

lemma set_sort_scope [simp]: "set (sort_scope st xs) = set xs"
  by (simp add: sort_scope_def)

lemma in_children_of:
  "c \<in> set (children_of sessions sid) \<longleftrightarrow> c \<in> set sessions \<and> parent_of c = Some sid \<and> sid \<in> rec_id ` set sessions"
  by (auto simp: children_of_def)

text \<open>Every branch lists sessions of the list, none twice and none that was visited.\<close>

lemma append_branches_set:
  assumes "set stack \<subseteq> set sessions"
  shows "set (appendBranches st sessions stack visited) \<subseteq> set sessions \<and>
    distinct (map rec_id (appendBranches st sessions stack visited)) \<and>
    rec_id ` set (appendBranches st sessions stack visited) \<inter> set visited = {} \<and>
    rec_id ` set stack \<subseteq> set visited \<union> rec_id ` set (appendBranches st sessions stack visited)"
  using assms
proof (induction st sessions stack visited rule: appendBranches.induct)
  case (2 st sessions s stack visited)
  show ?case
  proof (cases "rec_id s \<in> set visited")
    case True
    then show ?thesis using 2(1) [OF True] 2(3) by auto
  next
    case False
    have "set (sort_scope st (children_of sessions (rec_id s)) @ stack) \<subseteq> set sessions"
      using 2(3) by (auto simp: in_children_of)
    from 2(2) [OF False this] show ?thesis using False 2(3) by auto
  qed
qed simp

text \<open>What holds of the stack while the branches below the roots are appended.\<close>

definition stack_ok :: "OrderingState \<Rightarrow> ('a OrderingSessionRecord_scheme) list \<Rightarrow> ('a OrderingSessionRecord_scheme) list \<Rightarrow> string set \<Rightarrow> bool" where
  "stack_ok st sessions stack visited \<longleftrightarrow>
     set stack \<subseteq> set sessions \<and> distinct (map rec_id stack) \<and> rec_id ` set stack \<inter> visited = {} \<and>
     (\<forall>s \<in> set sessions. parent_of s \<in> insert None (Some ` visited) \<longleftrightarrow> rec_id s \<in> visited \<or> s \<in> set stack) \<and>
     (\<forall>p. sorted (map (scope_key st) (filter (\<lambda>s. parent_of s = p) stack)))"

lemma filter_own_children:
  "filter (\<lambda>c. parent_of c = p) (sort_scope st (children_of sessions sid)) =
     (if p = Some sid then sort_scope st (children_of sessions sid) else [])"
  by (auto simp: filter_empty_conv filter_id_conv in_children_of)

lemma stack_ok_step:
  assumes ok: "stack_ok st sessions (s # stack) visited" and d: "distinct (map rec_id sessions)"
  shows "stack_ok st sessions (sort_scope st (children_of sessions (rec_id s)) @ stack) (insert (rec_id s) visited)"
proof -
  let ?cs = "sort_scope st (children_of sessions (rec_id s))"
  have sub: "s \<in> set sessions" "set stack \<subseteq> set sessions" and s: "rec_id s \<notin> visited" "rec_id s \<notin> rec_id ` set stack"
    using ok by (auto simp: stack_ok_def)
  have same: "x = y" if "x \<in> set sessions" "y \<in> set sessions" "rec_id x = rec_id y" for x y
    using d that by (metis distinct_map inj_onD)
  have seen: "parent_of x \<in> insert None (Some ` visited) \<longleftrightarrow> rec_id x \<in> visited \<or> x = s \<or> x \<in> set stack"
    if "x \<in> set sessions" for x using ok that by (simp add: stack_ok_def)
  have cs: "c \<in> set ?cs \<longleftrightarrow> c \<in> set sessions \<and> parent_of c = Some (rec_id s)" for c
    using sub(1) by (auto simp: in_children_of)
  have new: "rec_id c \<notin> visited \<and> c \<noteq> s \<and> c \<notin> set stack" if "c \<in> set ?cs" for c
    using seen [of c] that s(1) unfolding cs by auto
  have dc: "distinct (map rec_id ?cs)" using d by (simp add: sort_scope_def children_of_def distinct_map inj_on_def)
  have apart: "rec_id ` set ?cs \<inter> rec_id ` set stack = {}" using new same cs sub(2) by (auto, metis subsetD)
  have other: "rec_id c \<noteq> rec_id s" if "c \<in> set ?cs" for c using new [OF that] same sub(1) that cs by metis
  have order: "sorted (map (scope_key st) (filter (\<lambda>x. parent_of x = p) (?cs @ stack)))" for p
  proof (cases "p = Some (rec_id s)")
    case True
    have "parent_of x \<noteq> Some (rec_id s)" if "x \<in> set stack" for x
      using seen [OF subsetD [OF sub(2) that]] that s(1) by auto
    then have "filter (\<lambda>x. parent_of x = p) stack = []" using True by (simp add: filter_empty_conv)
    then show ?thesis using True by (simp add: filter_own_children) (simp add: sort_scope_def)
  next
    case False
    have "sorted (map (scope_key st) (filter (\<lambda>x. parent_of x = p) (s # stack)))" using ok by (simp add: stack_ok_def)
    then show ?thesis using False by (auto simp: filter_own_children split: if_splits)
  qed
  have covered: "parent_of x \<in> insert None (Some ` insert (rec_id s) visited) \<longleftrightarrow>
      rec_id x \<in> insert (rec_id s) visited \<or> x \<in> set (?cs @ stack)" if "x \<in> set sessions" for x
    using seen [OF that] cs [of x] that same [OF that sub(1)] by auto
  have ids: "rec_id ` set (?cs @ stack) \<inter> insert (rec_id s) visited = {}"
  proof -
    have "rec_id ` set ?cs \<inter> insert (rec_id s) visited = {}" using other new by blast
    moreover have "rec_id ` set stack \<inter> insert (rec_id s) visited = {}" using s(2) ok by (auto simp: stack_ok_def)
    ultimately show ?thesis by auto
  qed
  have "distinct (map rec_id (?cs @ stack))" using dc apart ok by (simp add: stack_ok_def)
  moreover have "set (?cs @ stack) \<subseteq> set sessions" using cs sub(2) by auto
  ultimately show ?thesis unfolding stack_ok_def using ids covered order by blast
qed

text \<open>The branches list parents before children and siblings in the order of the stack or of their keys.\<close>

lemma append_branches_tree:
  assumes "stack_ok st sessions stack (set visited)" "distinct (map rec_id sessions)"
  shows "(\<forall>p \<in> insert None (Some ` set visited).
        filter (\<lambda>s. parent_of s = p) (appendBranches st sessions stack visited) = filter (\<lambda>s. parent_of s = p) stack) \<and>
    (\<forall>p. sorted (map (scope_key st) (filter (\<lambda>s. parent_of s = p) (appendBranches st sessions stack visited)))) \<and>
    (\<forall>us s vs. appendBranches st sessions stack visited = us @ s # vs \<longrightarrow>
        parent_of s \<in> insert None (Some ` (set visited \<union> rec_id ` set us)))"
  using assms
proof (induction st sessions stack visited rule: appendBranches.induct)
  case (1 st sessions visited)
  then show ?case by simp
next
  case (2 st sessions s stack visited)
  have s: "rec_id s \<notin> set visited" "parent_of s \<in> insert None (Some ` set visited)"
    using 2(3) by (auto simp: stack_ok_def)
  let ?cs = "sort_scope st (children_of sessions (rec_id s))"
  let ?out = "appendBranches st sessions (?cs @ stack) (rec_id s # visited)"
  have out: "appendBranches st sessions (s # stack) visited = s # ?out" using s(1) by simp
  have ok: "stack_ok st sessions (?cs @ stack) (set (rec_id s # visited))" using stack_ok_step [OF 2(3,4)] by simp
  note ih = 2(2) [OF s(1) ok 2(4)]
  have kept: "filter (\<lambda>x. parent_of x = p) (s # ?out) = filter (\<lambda>x. parent_of x = p) (s # stack)"
    if "p \<in> insert None (Some ` set visited)" for p
  proof -
    have "p \<noteq> Some (rec_id s)" using that s(1) by auto
    moreover have "p \<in> insert None (Some ` set (rec_id s # visited))" using that by auto
    ultimately show ?thesis using bspec [OF conjunct1 [OF ih]] by (simp add: filter_own_children)
  qed
  moreover have "sorted (map (scope_key st) (filter (\<lambda>x. parent_of x = p) (s # ?out)))" for p
  proof (cases "p \<in> insert None (Some ` set visited)")
    case True
    then show ?thesis unfolding kept [OF True] using 2(3) by (simp only: stack_ok_def)
  next
    case False
    then have "parent_of s \<noteq> p" using s(2) by auto
    then show ?thesis using ih by simp
  qed
  moreover have "parent_of x \<in> insert None (Some ` (set visited \<union> rec_id ` set us))" if "s # ?out = us @ x # vs" for us x vs
    using that s(2) ih by (cases us) auto
  ultimately show ?case unfolding out by blast
qed

text \<open>The sessions whose chain of parents ends in a session without one.\<close>

inductive rooted :: "('a OrderingSessionRecord_scheme) list \<Rightarrow> 'a OrderingSessionRecord_scheme \<Rightarrow> bool" for sessions where
  root: "s \<in> set sessions \<Longrightarrow> parent_of s = None \<Longrightarrow> rooted sessions s"
| child: "rooted sessions p \<Longrightarrow> s \<in> set sessions \<Longrightarrow> parent_of s = Some (rec_id p) \<Longrightarrow> rooted sessions s"

lemma stack_ok_roots:
  assumes "distinct (map rec_id sessions)"
  shows "stack_ok st sessions (sort_scope st (filter (\<lambda>s. parent_of s = None) sessions)) {}"
proof -
  have "sorted (map (scope_key st) (filter (\<lambda>s. parent_of s = p) (sort_scope st (filter (\<lambda>s. parent_of s = None) sessions))))" for p
  proof (cases p)
    case None
    then have "filter (\<lambda>s. parent_of s = p) (sort_scope st (filter (\<lambda>s. parent_of s = None) sessions)) =
        sort_scope st (filter (\<lambda>s. parent_of s = None) sessions)" by (simp add: filter_id_conv)
    then show ?thesis by (simp add: sort_scope_def)
  next
    case (Some q)
    then have "filter (\<lambda>s. parent_of s = p) (sort_scope st (filter (\<lambda>s. parent_of s = None) sessions)) = []"
      by (simp add: filter_empty_conv)
    then show ?thesis by simp
  qed
  moreover have "distinct (map rec_id (sort_scope st (filter (\<lambda>s. parent_of s = None) sessions)))"
    using assms by (simp add: sort_scope_def distinct_map inj_on_def)
  ultimately show ?thesis by (auto simp: stack_ok_def)
qed

text \<open>Nothing whose parent was listed is left out.\<close>

lemma append_branches_closed:
  assumes "stack_ok st sessions stack (set visited)" "distinct (map rec_id sessions)"
    and "s \<in> set sessions" "parent_of s \<in> insert None (Some ` (set visited \<union> rec_id ` set (appendBranches st sessions stack visited)))"
  shows "rec_id s \<in> set visited \<or> s \<in> set (appendBranches st sessions stack visited)"
  using assms
proof (induction st sessions stack visited rule: appendBranches.induct)
  case (1 st sessions visited)
  then show ?case by (auto simp: stack_ok_def)
next
  case (2 st sessions x stack visited)
  have x: "rec_id x \<notin> set visited" and "x \<in> set sessions" using 2(3) by (auto simp: stack_ok_def)
  let ?st = "sort_scope st (children_of sessions (rec_id x)) @ stack"
  have ok: "stack_ok st sessions ?st (set (rec_id x # visited))" using stack_ok_step [OF 2(3,4)] by simp
  have "parent_of s \<in> insert None (Some ` (set (rec_id x # visited) \<union> rec_id ` set (appendBranches st sessions ?st (rec_id x # visited))))"
    using 2(6) x by auto
  from 2(2) [OF x ok 2(4,5) this] have "rec_id s = rec_id x \<or> rec_id s \<in> set visited \<or> s \<in> set (appendBranches st sessions ?st (rec_id x # visited))"
    by auto
  moreover have "rec_id s = rec_id x \<Longrightarrow> s = x" using 2(4,5) \<open>x \<in> set sessions\<close> by (metis distinct_map inj_onD)
  ultimately show ?case using x by auto
qed

lemma branches_are_rooted:
  assumes "distinct (map rec_id sessions)"
  shows "set (appendBranches st sessions (sort_scope st (filter (\<lambda>s. parent_of s = None) sessions)) []) = {s. rooted sessions s}"
    (is "set ?out = _")
proof (rule set_eqI, unfold mem_Collect_eq, rule iffI)
  fix s
  have ok: "stack_ok st sessions (sort_scope st (filter (\<lambda>s. parent_of s = None) sessions)) (set [])"
    using stack_ok_roots [OF assms] by simp
  have sub: "set ?out \<subseteq> set sessions" using append_branches_set [of "sort_scope st (filter (\<lambda>s. parent_of s = None) sessions)" sessions st "[]"]
    by auto
  show "s \<in> set ?out" if "rooted sessions s"
    using that by induction (use append_branches_closed [OF ok assms] in auto)
  have "rooted sessions (?out ! n)" if "n < length ?out" for n
    using that
  proof (induction n rule: less_induct)
    case (less n)
    have "?out = take n ?out @ ?out ! n # drop (Suc n) ?out" using less(2) by (rule id_take_nth_drop)
    then have "parent_of (?out ! n) \<in> insert None (Some ` rec_id ` set (take n ?out))"
      using append_branches_tree [OF ok assms] by (metis Un_empty_left empty_set)
    moreover have "?out ! n \<in> set sessions" using sub less(2) nth_mem by blast
    moreover have "rooted sessions p" if "p \<in> set (take n ?out)" for p
      using that less by (auto simp: in_set_conv_nth)
    ultimately show ?case by (auto intro: rooted.intros)
  qed
  then show "s \<in> set ?out \<Longrightarrow> rooted sessions s" by (metis in_set_conv_nth)
qed

text \<open>C29.
  For sessions with distinct ids the list order is a permutation of the sessions, whatever cycles or
  missing parents the links have. It starts with exactly the sessions whose chain of parents ends in
  a root; there every child comes after its parent and the children of one parent (and the roots)
  are ordered by rank, creation and id.
\<close>

theorem session_order_respects_tree:
  assumes d: "distinct (map rec_id sessions)"
  shows "mset (fst (orderSessionsByLifecycle sessions st0)) = mset sessions \<and>
    (\<exists>tree others. fst (orderSessionsByLifecycle sessions st0) = tree @ others \<and> set tree = {s. rooted sessions s} \<and>
      (\<forall>us s vs. tree = us @ s # vs \<longrightarrow> parent_of s \<in> insert None (Some ` rec_id ` set us)) \<and>
      (\<forall>p. sorted (map (scope_key (snd (orderSessionsByLifecycle sessions st0))) (filter (\<lambda>s. parent_of s = p) tree))))"
proof -
  define st where "st = snd (orderSessionsByLifecycle sessions st0)"
  define roots where "roots = sort_scope st (filter (\<lambda>s. parent_of s = None) sessions)"
  define tree where "tree = appendBranches st sessions roots []"
  define rest where "rest = sort_scope st (filter (\<lambda>s. rec_id s \<notin> set (map rec_id tree)) sessions)"
  define others where "others = appendBranches st sessions rest (map rec_id tree)"
  have e: "fst (orderSessionsByLifecycle sessions st0) = tree @ others"
    by (simp add: orderSessionsByLifecycle_def st_def roots_def tree_def rest_def others_def Let_def)
  have ok: "stack_ok st sessions roots (set [])" using stack_ok_roots [OF d] by (simp add: roots_def)
  have sub: "set roots \<subseteq> set sessions" "set rest \<subseteq> set sessions" by (auto simp: roots_def rest_def)
  note t = append_branches_set [OF sub(1), of st "[]", folded tree_def]
    and o = append_branches_set [OF sub(2), of st "map rec_id tree", folded others_def]
  have dist: "distinct (map rec_id (tree @ others))" using t o by auto
  have "set sessions \<subseteq> set (tree @ others)"
  proof
    fix s assume s: "s \<in> set sessions"
    then have "rec_id s \<in> rec_id ` set (tree @ others)"
      using o by (cases "rec_id s \<in> rec_id ` set tree") (auto simp: rest_def)
    then obtain y where y: "y \<in> set (tree @ others)" "rec_id s = rec_id y" by blast
    then have "y \<in> set sessions" using t o by auto
    then have "s = y" using d s y(2) by (metis distinct_map inj_onD)
    then show "s \<in> set (tree @ others)" using y(1) by simp
  qed
  then have "set (tree @ others) = set sessions" using t o by auto
  then have "mset (tree @ others) = mset sessions"
    using set_eq_iff_mset_eq_distinct dist d distinct_map by blast
  moreover have "set tree = {s. rooted sessions s}" using branches_are_rooted [OF d] by (simp add: tree_def roots_def)
  moreover note append_branches_tree [OF ok d, folded tree_def]
  ultimately show ?thesis unfolding e st_def [symmetric] by (intro conjI exI [of _ tree] exI [of _ others]) auto
qed

theorem session_order_respects_tree_witness:
  "map rec_id (fst (orderSessionsByLifecycle
      [\<lparr>rec_id = ''c'', se_parentID = Some ''r'', se_created = 3, se_updated = 9\<rparr>, \<lparr>rec_id = ''x'', se_parentID = Some ''y'', se_created = 1, se_updated = 1\<rparr>,
       \<lparr>rec_id = ''y'', se_parentID = Some ''x'', se_created = 1, se_updated = 2\<rparr>, \<lparr>rec_id = ''r'', se_parentID = None, se_created = 1, se_updated = 1\<rparr>]
      ordering_init)) = [''r'', ''c'', ''y'', ''x''] \<and>
   mset (fst (orderSessionsByLifecycle
      [\<lparr>rec_id = ''c'', se_parentID = Some ''r'', se_created = 3, se_updated = 9\<rparr>, \<lparr>rec_id = ''x'', se_parentID = Some ''y'', se_created = 1, se_updated = 1\<rparr>,
       \<lparr>rec_id = ''y'', se_parentID = Some ''x'', se_created = 1, se_updated = 2\<rparr>, \<lparr>rec_id = ''r'', se_parentID = None, se_created = 1, se_updated = 1\<rparr>]
      ordering_init)) = mset
      [\<lparr>rec_id = ''c'', se_parentID = Some ''r'', se_created = 3, se_updated = 9\<rparr>, \<lparr>rec_id = ''x'', se_parentID = Some ''y'', se_created = 1, se_updated = 1\<rparr>,
       \<lparr>rec_id = ''y'', se_parentID = Some ''x'', se_created = 1, se_updated = 2\<rparr>, \<lparr>rec_id = ''r'', se_parentID = None, se_created = 1, se_updated = 1\<rparr>]"
  by (intro conjI, code_simp, rule conjunct1 [OF session_order_respects_tree]) simp

text \<open>
  Among the sessions without a root the order follows the ranks across scopes: a session can come
  before its own parent.
\<close>

theorem orphan_child_before_parent:
  "map rec_id (fst (orderSessionsByLifecycle
      [\<lparr>rec_id = ''p'', se_parentID = Some ''gone'', se_created = 1, se_updated = 1\<rparr>,
       \<lparr>rec_id = ''c'', se_parentID = Some ''p'', se_created = 2, se_updated = 2\<rparr>] ordering_init)) = [''c'', ''p'']"
  by code_simp

end
