(* ===== verification/Sync_Activity.thy ===== *)
theory Sync_Activity
  imports Sync_Queues Sync_Ordering
begin

text \<open>
  The activity log of the browser (\<open>ui/src/sync/activity-log.ts\<close>): which \<open>nnd.activity\<close> events become records, and how
  records are merged into the bounded log. Lemmas: an accepted record is within the bounds the log is
  rendered with; merging keeps one record per session and id, never exceeds 500 records, replaces
  corrections in place and ignores replays.
\<close>

record ToolEvidence =
  te_turnRequestID :: "string option"
  te_target :: "string option"
  te_reviewPath :: "string option"
  te_reviewDirectory :: "string option"
  te_effect :: "string option"
  te_reasonCode :: "string option"
  te_elapsedMs :: "int option"
  te_exitCode :: "int option"

record ActivityRecord =
  ac_id :: string
  ac_sessionID :: string
  ac_time :: rat
  ac_kind :: string
  ac_summary :: string
  ac_status :: string
  ac_evidenceMessageID :: "string option"
  ac_childSessionID :: "string option"
  ac_turnOutcome :: "string option"
  ac_toolEvidence :: "ToolEvidence option"

definition MAX_ACTIVITY_RECORDS :: nat where "MAX_ACTIVITY_RECORDS = 500"
definition MAX_ACTIVITY_SUMMARY_LENGTH :: nat where "MAX_ACTIVITY_SUMMARY_LENGTH = 4000"
definition MAX_ACTIVITY_ID_LENGTH :: nat where "MAX_ACTIVITY_ID_LENGTH = 264"

definition latestTurnRequestID :: "ActivityRecord list \<Rightarrow> string \<Rightarrow> string option" where
  "latestTurnRequestID records sid =
     (case rev (filter (\<lambda>r. ac_sessionID r = sid \<and> ac_kind r = ''turn'') records) of
        [] \<Rightarrow> None | r # _ \<Rightarrow> ac_evidenceMessageID r)"

definition stringProp :: "json \<Rightarrow> string \<Rightarrow> string option" where
  "stringProp props key = (case prop_of props key of Some (JStr s) \<Rightarrow> if length (trim s) > 0 then Some s else None | _ \<Rightarrow> None)"

definition numberProp :: "json \<Rightarrow> string \<Rightarrow> jsnum option" where
  "numberProp props key = (case prop_of props key of Some (JNum n) \<Rightarrow> Some n | _ \<Rightarrow> None)"

text \<open>\<open>Number.isFinite(value) && Math.abs(value) <= 8.64e15\<close>, with the value.\<close>

definition isRenderableTime :: "jsnum \<Rightarrow> rat option" where
  "isRenderableTime v = (case v of Fin q \<Rightarrow> if abs q \<le> 8640000000000000 then Some q else None | _ \<Rightarrow> None)"

definition isKind :: "string \<Rightarrow> bool" where
  "isKind v \<longleftrightarrow> v \<in> set [''turn'', ''tool'', ''notice'', ''state'', ''subagent'']"

definition isStatus :: "string \<Rightarrow> bool" where
  "isStatus v \<longleftrightarrow> v \<in> set [''started'', ''completed'', ''attention'', ''failed'', ''redacted'']"

text \<open>The class \<open>[\u0000-\u001f\u007f]\<close>.\<close>

definition is_control :: "char \<Rightarrow> bool" where
  "is_control c \<longleftrightarrow> (of_char c :: nat) < 32 \<or> (of_char c :: nat) = 127"

definition plain_text :: "nat \<Rightarrow> string \<Rightarrow> bool" where
  "plain_text bound s \<longleftrightarrow> 0 < length s \<and> length s \<le> bound \<and> \<not> list_ex is_control s"

definition validText :: "nat \<Rightarrow> unknown \<Rightarrow> bool" where
  "validText bound item = (case item of None \<Rightarrow> True | Some (JStr s) \<Rightarrow> plain_text bound s | _ \<Rightarrow> False)"

fun split_slash :: "string \<Rightarrow> string list" where
  "split_slash [] = [[]]"
| "split_slash (c # cs) = (if c = CHR ''/'' then [] # split_slash cs
     else (case split_slash cs of [] \<Rightarrow> [[c]] | s # ss \<Rightarrow> (c # s) # ss))"

definition is_letter :: "char \<Rightarrow> bool" where
  "is_letter c \<longleftrightarrow> (let n = (of_char c :: nat) in 65 \<le> n \<and> n \<le> 90 \<or> 97 \<le> n \<and> n \<le> 122)"

text \<open>\<open>/^[a-z]:|^\/|\\|[\u0000-\u001f\u007f]/iu\<close>: a drive, a leading slash, a backslash or a control character.\<close>

definition unsafe_path :: "string \<Rightarrow> bool" where
  "unsafe_path s \<longleftrightarrow> (case s of c # d # _ \<Rightarrow> is_letter c \<and> d = CHR '':'' | _ \<Rightarrow> False) \<or> (case s of c # _ \<Rightarrow> c = CHR ''/'' | [] \<Rightarrow> False) \<or>
     list_ex (\<lambda>c. c = char_of (92 :: nat) \<or> is_control c) s"

definition validReviewPath :: "unknown \<Rightarrow> unknown \<Rightarrow> bool" where
  "validReviewPath v directory =
     (if v = None \<and> directory = None then True
      else (case (v, directory) of
          (Some (JStr p), Some (JStr d)) \<Rightarrow> length p > 0 \<and> length p \<le> 300 \<and> \<not> unsafe_path p \<and>
            list_all (\<lambda>segment. segment \<noteq> [] \<and> segment \<noteq> ''.'' \<and> segment \<noteq> ''..'') (split_slash p) \<and> plain_text 1000 d
        | _ \<Rightarrow> False))"

text \<open>A safe integer in a range that lies within the safe integers.\<close>

definition int_within :: "int \<Rightarrow> int \<Rightarrow> unknown \<Rightarrow> bool" where
  "int_within lo hi item = (case item of None \<Rightarrow> True
     | Some (JNum (Fin q)) \<Rightarrow> q = of_int \<lfloor>q\<rfloor> \<and> lo \<le> \<lfloor>q\<rfloor> \<and> \<lfloor>q\<rfloor> \<le> hi | _ \<Rightarrow> False)"

fun evidence_str :: "unknown \<Rightarrow> string option" where
  "evidence_str (Some (JStr s)) = Some s" | "evidence_str _ = None"

fun evidence_int :: "unknown \<Rightarrow> int option" where
  "evidence_int (Some (JNum (Fin q))) = Some \<lfloor>q\<rfloor>" | "evidence_int _ = None"

definition EVIDENCE_KEYS :: "string list" where
  "EVIDENCE_KEYS = [''target'', ''reviewPath'', ''reviewDirectory'', ''effect'', ''reasonCode'', ''elapsedMs'', ''exitCode'', ''turnRequestID'']"

definition parseToolEvidence :: "unknown \<Rightarrow> ToolEvidence option" where
  "parseToolEvidence v =
     (case v of
        Some (JObj source) \<Rightarrow>
          if list_ex (\<lambda>(key, _). key \<notin> set EVIDENCE_KEYS) source then None
          else if \<not> validText 180 (map_of source ''target'') \<or> \<not> validReviewPath (map_of source ''reviewPath'') (map_of source ''reviewDirectory'') \<or>
            \<not> validText 256 (map_of source ''turnRequestID'') \<or> \<not> validText 48 (map_of source ''effect'') \<or>
            \<not> validText 80 (map_of source ''reasonCode'') \<or> \<not> int_within 0 604800000 (map_of source ''elapsedMs'') \<or>
            \<not> int_within (- 2147483647) 2147483647 (map_of source ''exitCode'') then None
          else if source = [] then None
          else Some \<lparr>te_turnRequestID = evidence_str (map_of source ''turnRequestID''), te_target = evidence_str (map_of source ''target''),
            te_reviewPath = evidence_str (map_of source ''reviewPath''), te_reviewDirectory = evidence_str (map_of source ''reviewDirectory''),
            te_effect = evidence_str (map_of source ''effect''), te_reasonCode = evidence_str (map_of source ''reasonCode''),
            te_elapsedMs = evidence_int (map_of source ''elapsedMs''), te_exitCode = evidence_int (map_of source ''exitCode'')\<rparr>
      | _ \<Rightarrow> None)"

definition TURN_OUTCOMES :: "string list" where
  "TURN_OUTCOMES = [''completed'', ''cancelled'', ''needs_input'', ''failed'', ''unknown'']"

definition bad_evidence :: "string \<Rightarrow> unknown \<Rightarrow> bool" where
  "bad_evidence kind v = (case v of None \<Rightarrow> False
     | Some (JStr s) \<Rightarrow> \<not> plain_text 256 s \<or> kind \<noteq> ''turn'' \<and> kind \<noteq> ''state'' \<and> kind \<noteq> ''subagent'' | _ \<Rightarrow> True)"

definition bad_outcome :: "string \<Rightarrow> unknown \<Rightarrow> bool" where
  "bad_outcome kind v = (case v of None \<Rightarrow> False
     | Some (JStr s) \<Rightarrow> kind \<noteq> ''turn'' \<or> s \<notin> set TURN_OUTCOMES | _ \<Rightarrow> True)"

definition bad_child :: "string \<Rightarrow> unknown \<Rightarrow> bool" where
  "bad_child kind v = (case v of None \<Rightarrow> False
     | Some (JStr s) \<Rightarrow> kind \<noteq> ''subagent'' \<or> \<not> plain_text 128 s | _ \<Rightarrow> True)"

definition activityRecordFromEvent :: "HarnessEvent \<Rightarrow> ActivityRecord option" where
  "activityRecordFromEvent event =
     (if ev_type event \<noteq> ''nnd.activity'' then None
      else (let props = event_props event;
                i = (case stringProp props ''id'' of Some s \<Rightarrow> Some s | None \<Rightarrow> ev_id event);
                evidence = prop_of props ''evidenceMessageID''; outcome = prop_of props ''turnOutcome'';
                tool = prop_of props ''toolEvidence''; child = prop_of props ''childSessionID''
            in case (i, stringProp props ''sessionID'', stringProp props ''summary'', stringProp props ''kind'',
                     stringProp props ''status'', Option.bind (numberProp props ''time'') isRenderableTime) of
                 (Some i, Some sid, Some summary, Some kind, Some status, Some time) \<Rightarrow>
                   if i = [] \<or> length i > MAX_ACTIVITY_ID_LENGTH \<or> length summary > MAX_ACTIVITY_SUMMARY_LENGTH \<or>
                     \<not> isKind kind \<or> \<not> isStatus status then None
                   else if bad_evidence kind evidence then None
                   else if bad_outcome kind outcome then None
                   else if tool \<noteq> None \<and> (kind \<noteq> ''tool'' \<or> parseToolEvidence tool = None) then None
                   else if bad_child kind child then None
                   else Some \<lparr>ac_id = i, ac_sessionID = sid, ac_time = time, ac_kind = kind, ac_summary = summary, ac_status = status,
                     ac_evidenceMessageID = evidence_str evidence, ac_childSessionID = evidence_str child, ac_turnOutcome = evidence_str outcome,
                     ac_toolEvidence = parseToolEvidence tool\<rparr>
               | _ \<Rightarrow> None))"

definition sameToolEvidence :: "ToolEvidence option \<Rightarrow> ToolEvidence option \<Rightarrow> bool" where
  "sameToolEvidence l r = (case (l, r) of
      (Some a, Some b) \<Rightarrow> te_target a = te_target b \<and> te_effect a = te_effect b \<and> te_turnRequestID a = te_turnRequestID b \<and>
        te_reviewPath a = te_reviewPath b \<and> te_reviewDirectory a = te_reviewDirectory b \<and>
        te_reasonCode a = te_reasonCode b \<and> te_elapsedMs a = te_elapsedMs b \<and> te_exitCode a = te_exitCode b
    | (None, None) \<Rightarrow> True
    | _ \<Rightarrow> False)"

definition sameActivityRecord :: "ActivityRecord \<Rightarrow> ActivityRecord \<Rightarrow> bool" where
  "sameActivityRecord l r \<longleftrightarrow> ac_id l = ac_id r \<and> ac_sessionID l = ac_sessionID r \<and> ac_time l = ac_time r \<and> ac_kind l = ac_kind r \<and>
     ac_summary l = ac_summary r \<and> ac_status l = ac_status r \<and> ac_evidenceMessageID l = ac_evidenceMessageID r \<and>
     ac_childSessionID l = ac_childSessionID r \<and> ac_turnOutcome l = ac_turnOutcome r \<and> sameToolEvidence (ac_toolEvidence l) (ac_toolEvidence r)"

definition last_n :: "nat \<Rightarrow> 'a list \<Rightarrow> 'a list" where
  "last_n n xs = drop (length xs - n) xs"

definition activity_key :: "ActivityRecord \<Rightarrow> string \<times> string" where
  "activity_key r = (ac_id r, ac_sessionID r)"

text \<open>\<open>None\<close> stands for returning the same array.\<close>

definition mergeActivityRecord :: "ActivityRecord list \<Rightarrow> ActivityRecord \<Rightarrow> ActivityRecord list option" where
  "mergeActivityRecord records incoming =
     (let index = find_index (\<lambda>r. ac_id r = ac_id incoming \<and> ac_sessionID r = ac_sessionID incoming) records
      in if (case index of Some k \<Rightarrow> sameActivityRecord (records ! k) incoming | None \<Rightarrow> False) then None
         else (let next = (case index of None \<Rightarrow> records @ [incoming] | Some k \<Rightarrow> records[k := incoming])
               in Some (if length next > MAX_ACTIVITY_RECORDS then last_n MAX_ACTIVITY_RECORDS next else next)))"

section \<open>Merging\<close>

lemma same_activity_eq: "sameActivityRecord l r \<longleftrightarrow> l = r"
  by (cases l; cases r) (auto simp: sameActivityRecord_def sameToolEvidence_def split: option.splits)

lemma find_index_Some:
  "find_index P xs = Some k \<longleftrightarrow> k < length xs \<and> P (xs ! k) \<and> (\<forall>j < k. \<not> P (xs ! j))"
proof
  assume "find_index P xs = Some k"
  then have k: "k = length (takeWhile (\<lambda>x. \<not> P x) xs)" "k < length xs" by (auto simp: find_index_def Let_def split: if_splits)
  moreover have "\<not> P (xs ! j)" if "j < k" for j using that k(1) by (metis nth_mem set_takeWhileD takeWhile_nth)
  ultimately show "k < length xs \<and> P (xs ! k) \<and> (\<forall>j < k. \<not> P (xs ! j))" using nth_length_takeWhile by blast
next
  assume a: "k < length xs \<and> P (xs ! k) \<and> (\<forall>j < k. \<not> P (xs ! j))"
  then have "takeWhile (\<lambda>x. \<not> P x) xs = take k xs" by (intro takeWhile_eq_take_P_nth) auto
  then have "length (takeWhile (\<lambda>x. \<not> P x) xs) = k" using a by simp
  then show "find_index P xs = Some k" using a by (simp add: find_index_def Let_def)
qed

lemma find_index_None: "find_index P xs = None \<longleftrightarrow> (\<forall>x \<in> set xs. \<not> P x)"
proof -
  have "length (takeWhile (\<lambda>x. \<not> P x) xs) < length xs \<longleftrightarrow> \<not> (\<forall>x \<in> set xs. \<not> P x)"
    by (induction xs) auto
  then show ?thesis by (auto simp: find_index_def Let_def split: if_splits)
qed

lemma set_last_n_subset: "set (last_n n xs) \<subseteq> set xs"
  by (simp add: last_n_def set_drop_subset)

definition log_ok :: "ActivityRecord list \<Rightarrow> bool" where
  "log_ok records \<longleftrightarrow> distinct (map activity_key records) \<and> length records \<le> MAX_ACTIVITY_RECORDS"

lemma activity_index:
  "find_index (\<lambda>r. ac_id r = ac_id x \<and> ac_sessionID r = ac_sessionID x) records = find_index (\<lambda>r. activity_key r = activity_key x) records"
  by (simp add: activity_key_def)

lemma set_replace:
  assumes "distinct (map activity_key records)" "k < length records" "activity_key (records ! k) = activity_key x"
  shows "set (records[k := x]) = insert x {r \<in> set records. activity_key r \<noteq> activity_key x}"
    and "map activity_key (records[k := x]) = map activity_key records"
proof -
  have "distinct records" using assms(1) by (simp add: distinct_map)
  then have "set (records[k := x]) = insert x (set records - {records ! k})" using assms(2) by (rule set_update_distinct)
  moreover have "r = records ! k" if "r \<in> set records" "activity_key r = activity_key x" for r
    using that assms by (metis distinct_map inj_onD nth_mem)
  ultimately show "set (records[k := x]) = insert x {r \<in> set records. activity_key r \<noteq> activity_key x}" using assms(3) by auto
  show "map activity_key (records[k := x]) = map activity_key records"
    using assms(2,3) by (metis list_update_id map_update)
qed

lemma merge_upsert:
  assumes "log_ok records"
  shows "case mergeActivityRecord records x of
      None \<Rightarrow> x \<in> set records
    | Some next \<Rightarrow> log_ok next \<and> x \<notin> set records \<and>
        (if activity_key x \<in> activity_key ` set records then
           map activity_key next = map activity_key records \<and> set next = insert x {r \<in> set records. activity_key r \<noteq> activity_key x}
         else next = (if length records < 500 then records @ [x] else tl records @ [x]))"
proof (cases "find_index (\<lambda>r. activity_key r = activity_key x) records")
  case None
  then have new: "activity_key x \<notin> activity_key ` set records" by (auto simp: find_index_None)
  let ?next = "if length (records @ [x]) > 500 then last_n 500 (records @ [x]) else records @ [x]"
  have e: "mergeActivityRecord records x = Some ?next"
    using None by (simp add: mergeActivityRecord_def activity_index MAX_ACTIVITY_RECORDS_def)
  have n: "?next = (if length records < 500 then records @ [x] else tl records @ [x])"
    using assms by (cases records) (auto simp: last_n_def log_ok_def MAX_ACTIVITY_RECORDS_def)
  have "distinct (map activity_key (tl records))" using assms by (simp add: log_ok_def map_tl distinct_tl)
  then have "log_ok ?next" unfolding n using assms new by (cases records) (auto simp: log_ok_def MAX_ACTIVITY_RECORDS_def)
  then show ?thesis unfolding e using n new by auto
next
  case (Some k)
  then have k: "k < length records" "activity_key (records ! k) = activity_key x" by (simp_all add: find_index_Some)
  have d: "distinct (map activity_key records)" using assms by (simp add: log_ok_def)
  have x: "x \<in> set records \<longleftrightarrow> records ! k = x" using d k by (metis distinct_map inj_onD nth_mem)
  have "mergeActivityRecord records x = (if records ! k = x then None else Some (records[k := x]))"
    using Some assms by (simp add: mergeActivityRecord_def activity_index same_activity_eq log_ok_def)
  moreover have "activity_key x \<in> activity_key ` set records" using k by (metis image_eqI nth_mem)
  ultimately show ?thesis using set_replace [OF d k] x assms k(1) by (simp add: log_ok_def)
qed

lemma merge_log_ok: "log_ok records \<Longrightarrow> mergeActivityRecord records x = Some next \<Longrightarrow> log_ok next"
  using merge_upsert [of records x] by simp

text \<open>
  Merging a record keeps the activity log at most 500 long with one record per session and id. A
  replay of a stored record changes nothing; a correction takes the place of the record it corrects;
  a new record is added at the end, and only when the log is full the oldest one is dropped for it.
\<close>

theorem activity_log_bounded_upsert:
  assumes "log_ok records"
  shows "case mergeActivityRecord records x of
      None \<Rightarrow> x \<in> set records
    | Some next \<Rightarrow> log_ok next \<and> x \<notin> set records \<and>
        (if activity_key x \<in> activity_key ` set records then
           map activity_key next = map activity_key records \<and> set next = insert x {r \<in> set records. activity_key r \<noteq> activity_key x}
         else next = (if length records < 500 then records @ [x] else tl records @ [x]))"
  using assms by (rule merge_upsert)

theorem activity_log_bounded_upsert_witness:
  "\<exists>next. mergeActivityRecord [] \<lparr>ac_id = ''a'', ac_sessionID = ''s'', ac_time = 0, ac_kind = ''turn'', ac_summary = ''x'', ac_status = ''started'',
     ac_evidenceMessageID = None, ac_childSessionID = None, ac_turnOutcome = None, ac_toolEvidence = None\<rparr> = Some next \<and> log_ok next"
  using activity_log_bounded_upsert [of "[]" "\<lparr>ac_id = ''a'', ac_sessionID = ''s'', ac_time = 0, ac_kind = ''turn'', ac_summary = ''x'',
     ac_status = ''started'', ac_evidenceMessageID = None, ac_childSessionID = None, ac_turnOutcome = None, ac_toolEvidence = None\<rparr>"]
  by (simp add: log_ok_def split: option.splits)

section \<open>Accepted records\<close>

text \<open>What may be rendered: bounded texts, a time the calendar knows, and no path that leaves its directory.\<close>

definition renderable :: "ActivityRecord \<Rightarrow> bool" where
  "renderable r \<longleftrightarrow> ac_id r \<noteq> [] \<and> length (ac_id r) \<le> 264 \<and> ac_sessionID r \<noteq> [] \<and> ac_summary r \<noteq> [] \<and> length (ac_summary r) \<le> 4000 \<and>
     abs (ac_time r) \<le> 8640000000000000 \<and> isKind (ac_kind r) \<and> isStatus (ac_status r) \<and>
     pred_option (plain_text 256) (ac_evidenceMessageID r) \<and> pred_option (plain_text 128) (ac_childSessionID r) \<and>
     (case ac_toolEvidence r of None \<Rightarrow> True | Some e \<Rightarrow> ac_kind r = ''tool'' \<and>
        (case te_reviewPath e of None \<Rightarrow> te_reviewDirectory e = None
         | Some p \<Rightarrow> \<not> unsafe_path p \<and> [] \<notin> set (split_slash p) \<and> ''..'' \<notin> set (split_slash p)) \<and>
        pred_option (plain_text 180) (te_target e) \<and> pred_option (\<lambda>n. 0 \<le> n \<and> n \<le> 604800000) (te_elapsedMs e))"

lemma validText_plain: "validText n v \<Longrightarrow> pred_option (plain_text n) (evidence_str v)"
  by (cases v rule: evidence_str.cases) (simp_all add: validText_def)

lemma int_within_range: "int_within lo hi v \<Longrightarrow> pred_option (\<lambda>n. lo \<le> n \<and> n \<le> hi) (evidence_int v)"
  by (cases v rule: evidence_int.cases) (simp_all add: int_within_def)

lemma review_path_safe:
  "validReviewPath v d \<Longrightarrow> (case evidence_str v of None \<Rightarrow> evidence_str d = None
     | Some p \<Rightarrow> \<not> unsafe_path p \<and> [] \<notin> set (split_slash p) \<and> ''..'' \<notin> set (split_slash p))"
  by (cases v rule: evidence_str.cases; cases d rule: evidence_str.cases) (auto simp: validReviewPath_def list_all_iff)

lemma renderable_time: "isRenderableTime v = Some q \<Longrightarrow> abs q \<le> 8640000000000000"
  by (cases v) (auto simp: isRenderableTime_def split: if_splits)

lemma evidence_safe:
  assumes "parseToolEvidence v = Some e"
  shows "(case te_reviewPath e of None \<Rightarrow> te_reviewDirectory e = None
      | Some p \<Rightarrow> \<not> unsafe_path p \<and> [] \<notin> set (split_slash p) \<and> ''..'' \<notin> set (split_slash p)) \<and>
    pred_option (plain_text 180) (te_target e) \<and> pred_option (\<lambda>n. 0 \<le> n \<and> n \<le> 604800000) (te_elapsedMs e)"
proof -
  obtain source where v: "v = Some (JObj source)" using assms by (auto simp: parseToolEvidence_def split: option.splits json.splits)
  have t: "validText 180 (map_of source ''target'')" "validReviewPath (map_of source ''reviewPath'') (map_of source ''reviewDirectory'')"
    "int_within 0 604800000 (map_of source ''elapsedMs'')"
    and e: "te_target e = evidence_str (map_of source ''target'')" "te_reviewPath e = evidence_str (map_of source ''reviewPath'')"
      "te_reviewDirectory e = evidence_str (map_of source ''reviewDirectory'')" "te_elapsedMs e = evidence_int (map_of source ''elapsedMs'')"
    using assms by (auto simp: parseToolEvidence_def v split: if_splits)
  show ?thesis
    unfolding e using validText_plain [OF t(1)] review_path_safe [OF t(2)] int_within_range [OF t(3)] by blast
qed

lemma stringProp_nonempty: "stringProp props k = Some s \<Longrightarrow> s \<noteq> []"
  by (auto simp: stringProp_def trim_def trim_start_def trim_end_def split: option.splits json.splits if_splits)

text \<open>
  Every activity event that becomes a record is safe to render: its id and summary are present and
  bounded, its time is a date, kind and status are known, references to other records are short
  plain text, and a path for review is relative, without empty or parent segments, drive letters,
  backslashes or control characters.
\<close>

theorem accepted_activity_is_renderable:
  assumes "activityRecordFromEvent event = Some r"
  shows "renderable r"
proof -
  have parts: "ac_id r \<noteq> []" "length (ac_id r) \<le> 264" "stringProp (event_props event) ''sessionID'' = Some (ac_sessionID r)"
    "stringProp (event_props event) ''summary'' = Some (ac_summary r)" "length (ac_summary r) \<le> 4000"
    "isKind (ac_kind r)" "isStatus (ac_status r)" "Option.bind (numberProp (event_props event) ''time'') isRenderableTime = Some (ac_time r)"
    "ac_evidenceMessageID r = evidence_str (prop_of (event_props event) ''evidenceMessageID'')"
    "ac_childSessionID r = evidence_str (prop_of (event_props event) ''childSessionID'')"
    "\<not> bad_evidence (ac_kind r) (prop_of (event_props event) ''evidenceMessageID'')" "\<not> bad_child (ac_kind r) (prop_of (event_props event) ''childSessionID'')"
    "ac_toolEvidence r = parseToolEvidence (prop_of (event_props event) ''toolEvidence'')"
    "prop_of (event_props event) ''toolEvidence'' \<noteq> None \<longrightarrow> ac_kind r = ''tool''"
    using assms
    by (auto simp: activityRecordFromEvent_def Let_def MAX_ACTIVITY_ID_LENGTH_def MAX_ACTIVITY_SUMMARY_LENGTH_def
        split: if_splits option.splits)
  have "abs (ac_time r) \<le> 8640000000000000"
    using parts(8) renderable_time by (auto simp: bind_eq_Some_conv)
  moreover have "pred_option (plain_text 256) (ac_evidenceMessageID r)"
    using parts(9,11) by (auto simp: bad_evidence_def split: option.splits json.splits)
  moreover have "pred_option (plain_text 128) (ac_childSessionID r)"
    using parts(10,12) by (auto simp: bad_child_def split: option.splits json.splits)
  moreover have "ac_kind r = ''tool''" if "ac_toolEvidence r = Some e" for e
    using parts(13,14) that by (auto simp: parseToolEvidence_def split: option.splits)
  ultimately show ?thesis
    unfolding renderable_def using parts(1-7) parts(13) evidence_safe stringProp_nonempty
    by (simp split: option.split)
qed

definition sample_activity :: HarnessEvent where
  "sample_activity = \<lparr>ev_id = Some ''e1'', ev_type = ''nnd.activity'', ev_properties = Some (JObj [
     (''sessionID'', JStr ''s''), (''summary'', JStr ''edited''), (''kind'', JStr ''tool''), (''status'', JStr ''completed''),
     (''time'', JNum (Fin 5)), (''toolEvidence'', JObj [(''reviewPath'', JStr ''a/b''), (''reviewDirectory'', JStr ''w'')])]), ev_directory = None\<rparr>"

theorem accepted_activity_is_renderable_witness:
  "\<exists>r. activityRecordFromEvent sample_activity = Some r \<and> renderable r"
proof -
  have "activityRecordFromEvent sample_activity \<noteq> None" by code_simp
  then show ?thesis using accepted_activity_is_renderable [of sample_activity] by blast
qed

end
