(* ===== verification/Sync_Reducer.thy ===== *)
theory Sync_Reducer
  imports Sync_Activity
begin

text \<open>
  The reducers of the browser's event synchronisation: \<open>ui/src/sync/event-reducer.ts\<close>,
  \<open>transcript-reducer.ts\<close>, \<open>blocking-reducer.ts\<close>, \<open>projection-reducer.ts\<close>, \<open>reducer-core.ts\<close> with the helpers of
  \<open>event-equality.ts\<close>, \<open>sanitize.ts\<close>, \<open>nna-projection.ts\<close> and \<open>activity-log.ts\<close>. A batch holds a draft of the store, the
  fields cloned so far and the outcome; an event either yields a new batch or throws. The payload of
  an event is read at the type the code casts it to, a field that the code tests for absence being
  optional; parts keep all their properties, because deltas address them by name. Objects that the
  code shares between draft and store are values here. Lemmas: the order and identity invariants of the
  store, that a commit publishes what the events wrote, and how deltas add up.
\<close>

section \<open>Data\<close>

datatype reducer_error = TypeError

text \<open>A parsed projection; \<open>pr_retired\<close> is its entry in the weak map \<open>retiredEpochs\<close>.\<close>

record NnaProjection =
  pr_sessionID :: string
  pr_epoch :: string
  pr_revision :: int
  pr_updatedAt :: int
  pr_turnState :: "json option" \<comment> \<open>\<open>None\<close> is \<open>null\<close>\<close>
  pr_activeTools :: "json option"
  pr_context :: "json option"
  pr_retired :: "string list"

text \<open>\<open>se_frame\<close> is the valid projection under \<open>metadata.nnd.projection\<close>, \<open>se_nnd\<close> the other keys there.\<close>

record Session = OrderingSessionRecord +
  se_archived :: "int option"
  se_frame :: "NnaProjection option"
  se_nnd :: "(string \<times> json) list"
  se_rest :: "(string \<times> json) list"

record Message = Chron +
  ms_sessionID :: string
  ms_role :: string
  ms_completed :: "int option"
  ms_fields :: "(string \<times> json) list"

type_synonym Part = "(string \<times> json) list"

record Request = Ided +
  rq_sessionID :: "string option" \<comment> \<open>or \<open>sessionId\<close>\<close>
  rq_body :: "(string \<times> json) list"

text \<open>The fields of the store that events read or write.\<close>

record SyncState =
  sy_session :: "Session list"
  sy_sessionTotal :: int
  sy_sessionListSource :: string
  sy_sessionRevision :: int
  sy_sessionEventRevision :: "(string \<times> int) list"
  sy_sessionDeletedRevision :: "(string \<times> int) list"
  sy_session_status :: "(string \<times> SessionStatus) list"
  sy_session_diff :: "(string \<times> json list) list"
  sy_todo :: "(string \<times> json list) list"
  sy_permission :: "(string \<times> Request list) list"
  sy_question :: "(string \<times> Request list) list"
  sy_vcs :: "string option"
  sy_limit :: int
  sy_message :: "(string \<times> Message list) list"
  sy_part :: "(string \<times> Part list) list"
  sy_activity :: "ActivityRecord list"

datatype Field = FSession | FSessionTotal | FSessionRevision | FSessionEventRevision | FSessionDeletedRevision | FSessionStatus
  | FSessionDiff | FTodo | FPermission | FQuestion | FVcs | FMessage | FPart | FActivity

datatype MaterializationReason = MissingOwningMessage | OrphanDelta | MissingDeltaPart | EmptyAssistantMessage | ChildSessionIdle
  | ChildSessionDiscovered | EnsureSessionMessages | StreamReconnect | TransportSwitch | StaleStatusResync | SettledRunningTool | BootOpen

record BatchOutcome =
  ou_changedCount :: nat
  ou_materializations :: "(MaterializationReason \<times> string \<times> string) list"
  ou_cleanupSessionIds :: "string list"
  ou_sessionRoutes :: "(string \<times> string) list"
  ou_messageRoutes :: "(string \<times> string) list" \<comment> \<open>message, session\<close>
  ou_statusChanges :: "(string \<times> SessionStatus) list"
  ou_settled :: "(string \<times> (json option) option) list" \<comment> \<open>\<open>Some error\<close> for kind error\<close>
  ou_permissionAsks :: "(string \<times> Request) list"
  ou_permissionReplies :: "(string \<times> string) list"
  ou_questionAsks :: "(string \<times> Request) list"
  ou_questionSettled :: "(string \<times> string) list"
  ou_todosPersisted :: "(string \<times> json list) list"
  ou_sessionRemoved :: "string list"
  ou_sessionArchived :: "(string \<times> Session) list"
  ou_messageCompleted :: "(string \<times> string) list"
  ou_projectUpdated :: "json option"
  ou_globalRefresh :: bool
  ou_lspRefresh :: bool
  ou_partChangedMessageIDs :: "string list"

definition emptyOutcome :: BatchOutcome where
  "emptyOutcome = \<lparr>ou_changedCount = 0, ou_materializations = [], ou_cleanupSessionIds = [], ou_sessionRoutes = [], ou_messageRoutes = [], ou_statusChanges = [],
     ou_settled = [], ou_permissionAsks = [], ou_permissionReplies = [], ou_questionAsks = [], ou_questionSettled = [],
     ou_todosPersisted = [], ou_sessionRemoved = [], ou_sessionArchived = [], ou_messageCompleted = [], ou_projectUpdated = None,
     ou_globalRefresh = False, ou_lspRefresh = False, ou_partChangedMessageIDs = []\<rparr>"

record DirectoryEventBatch =
  bt_draft :: SyncState
  bt_cloned :: "Field list"
  bt_out :: BatchOutcome

definition ensure :: "Field \<Rightarrow> DirectoryEventBatch \<Rightarrow> DirectoryEventBatch" where
  "ensure f b = (if f \<in> set (bt_cloned b) then b else b\<lparr>bt_cloned := bt_cloned b @ [f]\<rparr>)"

abbreviation on_draft :: "(SyncState \<Rightarrow> SyncState) \<Rightarrow> DirectoryEventBatch \<Rightarrow> DirectoryEventBatch" where
  "on_draft g b \<equiv> b\<lparr>bt_draft := g (bt_draft b)\<rparr>"

abbreviation on_out :: "(BatchOutcome \<Rightarrow> BatchOutcome) \<Rightarrow> DirectoryEventBatch \<Rightarrow> DirectoryEventBatch" where
  "on_out g b \<equiv> b\<lparr>bt_out := g (bt_out b)\<rparr>"

definition changed :: "DirectoryEventBatch \<Rightarrow> DirectoryEventBatch" where
  "changed b = on_out (\<lambda>u. u\<lparr>ou_changedCount := ou_changedCount u + 1\<rparr>) b"

definition notePartChanged :: "string \<Rightarrow> DirectoryEventBatch \<Rightarrow> DirectoryEventBatch" where
  "notePartChanged messageID b =
     (if messageID \<in> set (ou_partChangedMessageIDs (bt_out b)) then b
      else on_out (\<lambda>u. u\<lparr>ou_partChangedMessageIDs := ou_partChangedMessageIDs u @ [messageID]\<rparr>) b)"

definition push_materialization :: "MaterializationReason \<Rightarrow> string \<Rightarrow> string \<Rightarrow> DirectoryEventBatch \<Rightarrow> DirectoryEventBatch" where
  "push_materialization reason sid mid b = on_out (\<lambda>u. u\<lparr>ou_materializations := ou_materializations u @ [(reason, sid, mid)]\<rparr>) b"

definition push_messageRoute :: "string \<Rightarrow> string \<Rightarrow> DirectoryEventBatch \<Rightarrow> DirectoryEventBatch" where
  "push_messageRoute mid sid b = on_out (\<lambda>u. u\<lparr>ou_messageRoutes := ou_messageRoutes u @ [(mid, sid)]\<rparr>) b"

definition truthy_string :: "string option \<Rightarrow> string option" where
  "truthy_string s = (case s of Some (c # cs) \<Rightarrow> Some (c # cs) | _ \<Rightarrow> None)"

section \<open>Equality and freshness\<close>

definition sessionRecency :: "Session \<Rightarrow> int" where
  "sessionRecency s = max (se_updated s) (se_created s)"

definition staleProjection :: "NnaProjection option \<Rightarrow> NnaProjection \<Rightarrow> bool \<Rightarrow> bool" where
  "staleProjection current incoming equal =
     (case current of None \<Rightarrow> False
      | Some c \<Rightarrow> if pr_epoch c = pr_epoch incoming
          then pr_revision incoming < pr_revision c \<or> equal \<and> pr_revision incoming = pr_revision c
          else pr_epoch incoming \<in> set (pr_retired c))"

definition shouldSkipStaleSessionEvent :: "Session option \<Rightarrow> Session \<Rightarrow> bool" where
  "shouldSkipStaleSessionEvent current incoming =
     (case current of None \<Rightarrow> False
      | Some c \<Rightarrow> (case se_frame incoming of
            None \<Rightarrow> sessionRecency incoming < sessionRecency c
          | Some f \<Rightarrow> if staleProjection (se_frame c) f False then True
              else (case se_frame c of
                  Some g \<Rightarrow> if pr_epoch f \<noteq> pr_epoch g then False else sessionRecency incoming < sessionRecency c
                | None \<Rightarrow> sessionRecency incoming < sessionRecency c)))"

definition areSessionStatusesEqual :: "SessionStatus option \<Rightarrow> SessionStatus \<Rightarrow> bool" where
  "areSessionStatusesEqual a b =
     (case (a, b) of
        (Some StIdle, StIdle) \<Rightarrow> True
      | (Some StBusy, StBusy) \<Rightarrow> True
      | (Some (StRetry n m t _), StRetry n' m' t' _) \<Rightarrow> n = n' \<and> m = m' \<and> t = t'
      | _ \<Rightarrow> False)"

definition MESSAGE_UPDATE_FIELDS :: "string list" where
  "MESSAGE_UPDATE_FIELDS = [''summary'', ''error'', ''cost'', ''tokens'', ''structured'', ''model'', ''tools'', ''format'', ''variant'',
     ''agent'', ''system'']"

definition areMessageUpdateFieldsEqual :: "Message \<Rightarrow> Message \<Rightarrow> bool" where
  "areMessageUpdateFieldsEqual current incoming \<longleftrightarrow>
     ms_role current = ms_role incoming \<and> ms_completed current = ms_completed incoming \<and>
     map_of (ms_fields current) ''finish'' = map_of (ms_fields incoming) ''finish'' \<and>
     list_all (\<lambda>field. map_option json_norm (map_of (ms_fields current) field) = map_option json_norm (map_of (ms_fields incoming) field))
       MESSAGE_UPDATE_FIELDS"

definition str_at :: "string \<Rightarrow> Part \<Rightarrow> string" where
  "str_at k part = (case map_of part k of Some (JStr s) \<Rightarrow> s | _ \<Rightarrow> [])"

definition TERMINAL_TOOL_STATUSES :: "string list" where
  "TERMINAL_TOOL_STATUSES = [''completed'', ''error'', ''aborted'', ''failed'', ''timeout'', ''cancelled'']"

text \<open>No number prints as a status, so the text of numbers does not matter here.\<close>

definition status_in :: "string list \<Rightarrow> json \<Rightarrow> bool" where
  "status_in names state = (case prop_of state ''status'' of None \<Rightarrow> False | Some v \<Rightarrow> js_String (\<lambda>_. []) v \<in> set names)"

definition has_end :: "json \<Rightarrow> bool" where
  "has_end state \<longleftrightarrow> prop_of (loose (prop_of state ''time'')) ''end'' \<noteq> None"

definition state_over :: "Part \<Rightarrow> bool" where
  "state_over part =
     (let state = map_of part ''state''
      in truthy state \<and> (status_in TERMINAL_TOOL_STATUSES (the state) \<or> has_end (the state)))"

definition shouldPreserveExistingPart :: "Part option \<Rightarrow> Part \<Rightarrow> bool" where
  "shouldPreserveExistingPart existing incoming =
     (case existing of None \<Rightarrow> False
      | Some e \<Rightarrow> if str_at ''type'' e \<noteq> ''tool'' \<or> str_at ''type'' incoming \<noteq> ''tool'' then False
          else if \<not> state_over e then False else \<not> state_over incoming)"

definition related :: "unknown \<Rightarrow> unknown \<Rightarrow> bool" where
  "related prev next = (case (prev, next) of
      (Some (JStr a), Some (JStr b)) \<Rightarrow> a \<noteq> b \<and> (starts_with b a \<or> starts_with a b) | _ \<Rightarrow> False)"

definition state_output :: "Part \<Rightarrow> unknown" where
  "state_output part = (case map_of part ''state'' of Some state \<Rightarrow> if truthy (Some state) then prop_of state ''output'' else None | None \<Rightarrow> None)"

definition getUpdatedDeltaFields :: "Part option \<Rightarrow> Part \<Rightarrow> string list" where
  "getUpdatedDeltaFields previous incoming =
     (case previous of None \<Rightarrow> []
      | Some p \<Rightarrow> (if related (map_of p ''text'') (map_of incoming ''text'') then [''text''] else []) @
          (if related (state_output p) (state_output incoming) then [''output''] else []))"

definition js_ends_with :: "string \<Rightarrow> string \<Rightarrow> bool" where
  "js_ends_with s t \<longleftrightarrow> length t \<le> length s \<and> drop (length s - length t) s = t"

fun overlap_size :: "string \<Rightarrow> string \<Rightarrow> nat \<Rightarrow> nat" where
  "overlap_size current delta 0 = 0"
| "overlap_size current delta (Suc n) = (if js_ends_with current (take (Suc n) delta) then Suc n else overlap_size current delta n)"

definition appendNonOverlappingDelta :: "string \<Rightarrow> string \<Rightarrow> string" where
  "appendNonOverlappingDelta current delta =
     (if current = [] then delta else if delta = [] then current
      else current @ drop (overlap_size current delta (min (length current) (length delta))) delta)"

section \<open>Sanitising sessions\<close>

fun delete_keys :: "string list \<Rightarrow> json \<Rightarrow> json" where
  "delete_keys ks (JObj kvs) = JObj (filter (\<lambda>(k, v). k \<notin> set ks) kvs)"
| "delete_keys ks j = j"

text \<open>Deleting a key of \<open>null\<close> throws.\<close>

fun strip_diffs :: "json list \<Rightarrow> reducer_error + json list" where
  "strip_diffs [] = Inr []"
| "strip_diffs (diff # rest) =
     (if diff = JNull then Inl TypeError
      else (case strip_diffs rest of Inl e \<Rightarrow> Inl e
        | Inr ds \<Rightarrow> Inr (delete_keys [''before'', ''after'', ''from'', ''to''] diff # ds)))"

fun is_object :: "json \<Rightarrow> bool" where
  "is_object (JObj _) = True" | "is_object (JArr _) = True" | "is_object _ = False"

definition strip_revert :: "(string \<times> json) list \<Rightarrow> (string \<times> json) list" where
  "strip_revert bag = (case map_of bag ''revert'' of
      None \<Rightarrow> bag
    | Some r \<Rightarrow> if is_object r then AList.update ''revert'' (delete_keys [''snapshot'', ''diff''] r) bag
        else AList.delete ''revert'' bag)"

definition stripSessionDiffSnapshots :: "Session \<Rightarrow> reducer_error + Session" where
  "stripSessionDiffSnapshots s =
     (let bag = strip_revert (se_rest s)
      in case map_of bag ''summary'' of
           Some (JObj kvs) \<Rightarrow> (case map_of kvs ''diffs'' of
               Some (JArr ds0) \<Rightarrow> (case strip_diffs ds0 of
                   Inl e \<Rightarrow> Inl e
                 | Inr ds \<Rightarrow> Inr (s\<lparr>se_rest := AList.update ''summary'' (JObj (AList.update ''diffs'' (JArr ds) kvs)) bag\<rparr>))
             | _ \<Rightarrow> Inr (s\<lparr>se_rest := bag\<rparr>))
         | _ \<Rightarrow> Inr (s\<lparr>se_rest := bag\<rparr>))"

section \<open>Projections\<close>

fun add_new :: "'a list \<Rightarrow> 'a list \<Rightarrow> 'a list" where
  "add_new acc [] = acc"
| "add_new acc (x # xs) = add_new (if x \<in> set acc then acc else acc @ [x]) xs"

text \<open>The test for the same object is a test for equal frames: equal frames have equal entries.\<close>

definition rememberEpochs :: "NnaProjection option \<Rightarrow> NnaProjection \<Rightarrow> NnaProjection" where
  "rememberEpochs current incoming =
     (case current of
        None \<Rightarrow> incoming
      | Some c \<Rightarrow> if c = incoming then incoming
          else (let retired = add_new [] (pr_retired incoming @ pr_retired c);
                    retired' = (if pr_epoch c \<noteq> pr_epoch incoming then add_new retired [pr_epoch c] else retired)
                in incoming\<lparr>pr_retired := last_n 32 retired'\<rparr>))"

definition adoptSessionProjection :: "Session option \<Rightarrow> Session \<Rightarrow> Session" where
  "adoptSessionProjection current incoming =
     (case se_frame incoming of None \<Rightarrow> incoming
      | Some f \<Rightarrow> incoming\<lparr>se_frame := Some (rememberEpochs (Option.bind current se_frame) f)\<rparr>)"

definition set_or_delete :: "string \<Rightarrow> json option \<Rightarrow> (string \<times> json) list \<Rightarrow> (string \<times> json) list" where
  "set_or_delete k v kvs = (case v of None \<Rightarrow> AList.delete k kvs | Some j \<Rightarrow> AList.update k j kvs)"

definition applyNnaProjection :: "Session \<Rightarrow> NnaProjection \<Rightarrow> Session" where
  "applyNnaProjection s frame =
     (let previous = se_frame s; frame' = rememberEpochs previous frame;
          updated = (case previous of
              Some p \<Rightarrow> if pr_epoch p \<noteq> pr_epoch frame then pr_updatedAt frame else max (se_updated s) (pr_updatedAt frame)
            | None \<Rightarrow> max (se_updated s) (pr_updatedAt frame))
      in s\<lparr>se_frame := Some frame', se_updated := updated,
           se_nnd := set_or_delete ''context'' (pr_context frame) (set_or_delete ''activeTools'' (pr_activeTools frame)
             (set_or_delete ''turnState'' (pr_turnState frame) (se_nnd s)))\<rparr>)"

section \<open>The transcript reducer\<close>

definition set_message :: "string \<Rightarrow> Message list \<Rightarrow> DirectoryEventBatch \<Rightarrow> DirectoryEventBatch" where
  "set_message sid ms b = on_draft (\<lambda>d. d\<lparr>sy_message := AList.update sid ms (sy_message d)\<rparr>) b"

definition set_part :: "string \<Rightarrow> Part list \<Rightarrow> DirectoryEventBatch \<Rightarrow> DirectoryEventBatch" where
  "set_part mid ps b = on_draft (\<lambda>d. d\<lparr>sy_part := AList.update mid ps (sy_part d)\<rparr>) b"

definition messages_of :: "string \<Rightarrow> DirectoryEventBatch \<Rightarrow> Message list option" where
  "messages_of sid b = map_of (sy_message (bt_draft b)) sid"

definition parts_of :: "string \<Rightarrow> DirectoryEventBatch \<Rightarrow> Part list option" where
  "parts_of mid b = map_of (sy_part (bt_draft b)) mid"

definition noteAssistantInsert :: "Message \<Rightarrow> DirectoryEventBatch \<Rightarrow> DirectoryEventBatch" where
  "noteAssistantInsert info b =
     changed (push_messageRoute (rec_id info) (ms_sessionID info)
       (if ms_role info = ''assistant'' then push_materialization EmptyAssistantMessage (ms_sessionID info) (rec_id info) b else b))"

definition noteMessageCompleted :: "string \<Rightarrow> string \<Rightarrow> DirectoryEventBatch \<Rightarrow> DirectoryEventBatch" where
  "noteMessageCompleted sid mid b = on_out (\<lambda>u. u\<lparr>ou_messageCompleted := ou_messageCompleted u @ [(sid, mid)]\<rparr>) b"

definition applyMessageUpdated :: "Message option \<Rightarrow> DirectoryEventBatch \<Rightarrow> DirectoryEventBatch" where
  "applyMessageUpdated payload b =
     (case payload of None \<Rightarrow> b
      | Some info \<Rightarrow> if rec_id info = [] \<or> ms_sessionID info = [] then b
          else (case messages_of (ms_sessionID info) b of
              None \<Rightarrow> noteAssistantInsert info (set_message (ms_sessionID info) [info] (ensure FMessage b))
            | Some target \<Rightarrow> (case find_index (\<lambda>m. rec_id m = rec_id info) target of
                None \<Rightarrow> noteAssistantInsert info
                  (set_message (ms_sessionID info) (insertMessageChronological target info) (ensure FMessage b))
              | Some k \<Rightarrow> if areMessageUpdateFieldsEqual (target ! k) info then b
                  else (let b1 = ensure FMessage b;
                            b2 = (if ms_completed info \<noteq> None then noteMessageCompleted (ms_sessionID info) (rec_id info) b1 else b1);
                            target' = (if compareMessagesChronological (target ! k) info = 0 then target[k := info]
                                       else insertMessageChronological (splice_out k target) info)
                        in push_messageRoute (rec_id info) (ms_sessionID info) (set_message (ms_sessionID info) target' b2)))))"

definition applyMessageRemoved :: "string option \<Rightarrow> string option \<Rightarrow> DirectoryEventBatch \<Rightarrow> DirectoryEventBatch" where
  "applyMessageRemoved sessionID messageID b =
     (case (truthy_string sessionID, truthy_string messageID) of
        (Some sid, Some mid) \<Rightarrow>
          (let has = (case messages_of sid b of Some ms \<Rightarrow> list_ex (\<lambda>m. rec_id m = mid) ms | None \<Rightarrow> False)
           in if \<not> has \<and> parts_of mid b = None then b
              else (let b1 = ensure FPart (ensure FMessage b);
                        b2 = (case messages_of sid b1 of Some ms \<Rightarrow> set_message sid (snd (removeMessageById ms mid)) b1 | None \<Rightarrow> b1)
                    in changed (on_draft (\<lambda>d. d\<lparr>sy_part := AList.delete mid (sy_part d)\<rparr>) b2)))
      | _ \<Rightarrow> b)"

definition SKIP_PART_TYPES :: "string list" where
  "SKIP_PART_TYPES = [''patch'', ''step-start'', ''step-finish'']"

definition missingOwnerCheck :: "Part \<Rightarrow> string option \<Rightarrow> DirectoryEventBatch \<Rightarrow> DirectoryEventBatch" where
  "missingOwnerCheck part eventSession b =
     (let sid = (case eventSession of Some s \<Rightarrow> s | None \<Rightarrow> str_at ''sessionID'' part)
      in if sid = [] then b
         else (case messages_of sid b of
             Some ms \<Rightarrow> if list_ex (\<lambda>m. rec_id m = str_at ''messageID'' part) ms then b
               else push_materialization MissingOwningMessage sid (str_at ''messageID'' part) b
           | None \<Rightarrow> push_materialization MissingOwningMessage sid (str_at ''messageID'' part) b))"

definition applyNewPart :: "Part list \<Rightarrow> Part \<Rightarrow> string option \<Rightarrow> DirectoryEventBatch \<Rightarrow> DirectoryEventBatch" where
  "applyNewPart target part eventSession b =
     (let optimistic = (if str_at ''type'' part = ''text'' \<or> str_at ''type'' part = ''file''
            then find_index (\<lambda>p. str_at ''type'' p = str_at ''type'' part \<and> str_at ''sessionID'' p = []) target else None);
          target' = (case optimistic of Some k \<Rightarrow> target[k := part] | None \<Rightarrow> target @ [part]);
          mid = str_at ''messageID'' part
      in changed (missingOwnerCheck part eventSession (notePartChanged mid (set_part mid target' b))))"

definition DEDUPE :: string where "DEDUPE = ''__dedupeNextDeltaFields''"

definition applyPartUpdated :: "Part option \<Rightarrow> string option \<Rightarrow> DirectoryEventBatch \<Rightarrow> DirectoryEventBatch" where
  "applyPartUpdated payload eventSession b =
     (case payload of None \<Rightarrow> b
      | Some part \<Rightarrow>
          (let pid = str_at ''id'' part; mid = str_at ''messageID'' part
           in if pid = [] \<or> mid = [] then b
              else if str_at ''type'' part \<in> set SKIP_PART_TYPES then b
              else (case parts_of mid b of
                  None \<Rightarrow> changed (missingOwnerCheck part eventSession (notePartChanged mid (set_part mid [part] (ensure FPart b))))
                | Some target \<Rightarrow> (case find_index (\<lambda>p. str_at ''id'' p = pid) target of
                    Some k \<Rightarrow> if shouldPreserveExistingPart (Some (target ! k)) part then b
                      else (let fields = getUpdatedDeltaFields (Some (target ! k)) part;
                                next = (if fields \<noteq> [] then AList.update DEDUPE (JArr (map JStr fields)) part else part)
                            in changed (notePartChanged mid (set_part mid (target[k := next]) (ensure FPart b))))
                  | None \<Rightarrow> applyNewPart target part eventSession (ensure FPart b)))))"

definition applyPartRemoved :: "string option \<Rightarrow> string option \<Rightarrow> DirectoryEventBatch \<Rightarrow> DirectoryEventBatch" where
  "applyPartRemoved messageID partID b =
     (case (truthy_string messageID, truthy_string partID) of
        (Some mid, Some pid) \<Rightarrow> (case parts_of mid b of
            None \<Rightarrow> b
          | Some bucket \<Rightarrow> (case find_index (\<lambda>p. str_at ''id'' p = pid) bucket of
              None \<Rightarrow> b
            | Some k \<Rightarrow> (let b1 = ensure FPart b; bucket' = splice_out k bucket;
                  b2 = (if bucket' = [] then on_draft (\<lambda>d. d\<lparr>sy_part := AList.delete mid (sy_part d)\<rparr>) b1 else set_part mid bucket' b1)
                in changed (notePartChanged mid b2))))
      | _ \<Rightarrow> b)"

definition obj_of :: "unknown \<Rightarrow> (string \<times> json) list" where
  "obj_of v = (case v of Some (JObj kvs) \<Rightarrow> kvs | _ \<Rightarrow> [])"

definition readDeltaField :: "Part \<Rightarrow> string \<Rightarrow> string" where
  "readDeltaField part field =
     (if field = ''output'' then (case prop_of (loose (map_of part ''state'')) ''output'' of Some (JStr s) \<Rightarrow> s | _ \<Rightarrow> [])
      else (case map_of part field of Some (JStr s) \<Rightarrow> s | _ \<Rightarrow> []))"

definition writeDeltaField :: "Part \<Rightarrow> string \<Rightarrow> string \<Rightarrow> Part" where
  "writeDeltaField part field v =
     (if field = ''output'' then AList.update ''state'' (JObj (AList.update ''output'' (JStr v) (obj_of (map_of part ''state'')))) part
      else AList.update field (JStr v) part)"

definition dedupe_fields :: "Part \<Rightarrow> string list" where
  "dedupe_fields part = (case map_of part DEDUPE of Some (JArr xs) \<Rightarrow> List.map_filter (\<lambda>x. case x of JStr s \<Rightarrow> Some s | _ \<Rightarrow> None) xs | _ \<Rightarrow> [])"

definition applyDeltaToPart :: "Part \<Rightarrow> string \<Rightarrow> string \<Rightarrow> Part" where
  "applyDeltaToPart part field delta =
     (let dedupe = dedupe_fields part; current = readDeltaField part field
      in if field \<in> set dedupe then
           (let remaining = filter (\<lambda>name. name \<noteq> field) dedupe;
                part' = (if remaining = [] then AList.delete DEDUPE part else AList.update DEDUPE (JArr (map JStr remaining)) part)
            in writeDeltaField part' field (appendNonOverlappingDelta current delta))
         else writeDeltaField part field (current @ delta))"

definition pushDeltaMaterialization :: "string option \<Rightarrow> string \<Rightarrow> bool \<Rightarrow> bool \<Rightarrow> DirectoryEventBatch \<Rightarrow> DirectoryEventBatch" where
  "pushDeltaMaterialization sessionID mid hasBucket hasMessages b =
     (let orphan = (\<not> hasBucket \<or> (if truthy_string sessionID \<noteq> None then \<not> hasMessages else True))
      in push_materialization (if orphan then OrphanDelta else MissingDeltaPart) (case sessionID of Some s \<Rightarrow> s | None \<Rightarrow> []) mid b)"

definition applyPartDelta :: "string option \<Rightarrow> string option \<Rightarrow> string option \<Rightarrow> string option \<Rightarrow> string option
    \<Rightarrow> DirectoryEventBatch \<Rightarrow> DirectoryEventBatch" where
  "applyPartDelta messageID partID field delta sessionID b =
     (case (truthy_string messageID, truthy_string partID, truthy_string field, delta) of
        (Some mid, Some pid, Some f, Some d) \<Rightarrow>
          (let b1 = ensure FPart b;
               lost = pushDeltaMaterialization sessionID mid (parts_of mid b \<noteq> None)
                 (case truthy_string sessionID of Some sid \<Rightarrow> messages_of sid b \<noteq> None | None \<Rightarrow> False) b1
           in case parts_of mid b of
                None \<Rightarrow> lost
              | Some bucket \<Rightarrow> (case find_index (\<lambda>p. str_at ''id'' p = pid) bucket of
                  None \<Rightarrow> lost
                | Some k \<Rightarrow> (let b2 = notePartChanged mid (set_part mid (bucket[k := applyDeltaToPart (bucket ! k) f d]) b1);
                      b3 = (case truthy_string sessionID of Some sid \<Rightarrow> push_messageRoute mid sid b2 | None \<Rightarrow> b2)
                    in changed b3)))
      | _ \<Rightarrow> b)"

section \<open>Blocking requests\<close>

datatype BucketKey = KPermission | KQuestion

definition bucketsOf :: "BucketKey \<Rightarrow> SyncState \<Rightarrow> (string \<times> Request list) list" where
  "bucketsOf key d = (case key of KPermission \<Rightarrow> sy_permission d | KQuestion \<Rightarrow> sy_question d)"

definition key_field :: "BucketKey \<Rightarrow> Field" where
  "key_field key = (case key of KPermission \<Rightarrow> FPermission | KQuestion \<Rightarrow> FQuestion)"

definition writeBuckets :: "BucketKey \<Rightarrow> string \<Rightarrow> Request list \<Rightarrow> SyncState \<Rightarrow> SyncState" where
  "writeBuckets key sid bucket d =
     (let next = (if bucket = [] then AList.delete sid (bucketsOf key d) else AList.update sid bucket (bucketsOf key d))
      in case key of KPermission \<Rightarrow> d\<lparr>sy_permission := next\<rparr> | KQuestion \<Rightarrow> d\<lparr>sy_question := next\<rparr>)"

definition same_request :: "Request \<Rightarrow> Request \<Rightarrow> bool" where
  "same_request a b \<longleftrightarrow> rec_id a = rec_id b \<and> rq_sessionID a = rq_sessionID b \<and>
     map (apsnd json_norm) (rq_body a) = map (apsnd json_norm) (rq_body b)"

definition askRequest :: "Request \<Rightarrow> BucketKey \<Rightarrow> DirectoryEventBatch \<Rightarrow> DirectoryEventBatch" where
  "askRequest request key b =
     (case truthy_string (rq_sessionID request) of None \<Rightarrow> b
      | Some sid \<Rightarrow> if rec_id request = [] then b
          else (let existing = (case map_of (bucketsOf key (bt_draft b)) sid of Some rs \<Rightarrow> rs | None \<Rightarrow> []);
                    prior = List.find (\<lambda>item. rec_id item = rec_id request) existing
                in if (case prior of Some p \<Rightarrow> same_request p request | None \<Rightarrow> False) then b
                   else (let bucket = sort_key rec_id (snd (upsertById existing request));
                             b1 = on_draft (writeBuckets key sid bucket) (ensure (key_field key) b);
                             b2 = (if prior \<noteq> None then b1
                                   else on_out (\<lambda>u. case key of
                                       KPermission \<Rightarrow> u\<lparr>ou_permissionAsks := ou_permissionAsks u @ [(sid, request)]\<rparr>
                                     | KQuestion \<Rightarrow> u\<lparr>ou_questionAsks := ou_questionAsks u @ [(sid, request)]\<rparr>) b1)
                         in changed b2)))"

definition replyRequest :: "string option \<Rightarrow> string option \<Rightarrow> BucketKey \<Rightarrow> DirectoryEventBatch \<Rightarrow> DirectoryEventBatch" where
  "replyRequest sessionID requestID key b =
     (case (truthy_string sessionID, truthy_string requestID) of
        (Some sid, Some rid) \<Rightarrow>
          (let b1 = on_out (\<lambda>u. case key of
                 KPermission \<Rightarrow> u\<lparr>ou_permissionReplies := ou_permissionReplies u @ [(sid, rid)]\<rparr>
               | KQuestion \<Rightarrow> u\<lparr>ou_questionSettled := ou_questionSettled u @ [(sid, rid)]\<rparr>) b
           in case map_of (bucketsOf key (bt_draft b)) sid of
                None \<Rightarrow> b1
              | Some existing \<Rightarrow> if \<not> list_ex (\<lambda>item. rec_id item = rid) existing then b1
                  else (let b2 = ensure (key_field key) b1
                        in case removeById existing rid of
                             (False, _) \<Rightarrow> b2
                           | (True, bucket) \<Rightarrow> changed (on_draft (writeBuckets key sid bucket) b2)))
      | _ \<Rightarrow> b)"

section \<open>Sessions\<close>

definition recordRevision :: "string \<Rightarrow> DirectoryEventBatch \<Rightarrow> DirectoryEventBatch" where
  "recordRevision sid b =
     on_draft (\<lambda>d. d\<lparr>sy_sessionRevision := sy_sessionRevision d + 1,
         sy_sessionEventRevision := AList.update sid (sy_sessionRevision d + 1) (sy_sessionEventRevision d)\<rparr>)
       (ensure FSessionEventRevision (ensure FSessionRevision b))"

definition norm_session :: "Session \<Rightarrow> Session" where
  "norm_session s = s\<lparr>se_frame := map_option (\<lambda>f. f\<lparr>pr_retired := []\<rparr>) (se_frame s),
     se_nnd := map (apsnd json_norm) (se_nnd s), se_rest := map (apsnd json_norm) (se_rest s)\<rparr>"

definition sameSessionRecord :: "Session \<Rightarrow> Session \<Rightarrow> bool" where
  "sameSessionRecord a b \<longleftrightarrow> norm_session a = norm_session b"

definition trim_candidate :: "(string \<times> Request list) list \<Rightarrow> Session \<Rightarrow> bool" where
  "trim_candidate permission s = (case map_of permission (rec_id s) of Some (_ # _) \<Rightarrow> False | _ \<Rightarrow> True)"

function trimSessionList :: "int \<Rightarrow> (string \<times> Request list) list \<Rightarrow> Session list \<Rightarrow> Session list" where
  "trimSessionList limit permission sessions =
     (if int (length sessions) > limit then
        (case find_index (trim_candidate permission) sessions of
           Some k \<Rightarrow> trimSessionList limit permission (splice_out k sessions)
         | None \<Rightarrow> sessions)
      else sessions)"
  by pat_completeness auto
termination
  by (relation "measure (\<lambda>(l, p, ss). length ss)") (auto simp: splice_out_def find_index_Some)

declare trimSessionList.simps [simp del]

definition lower_total :: "DirectoryEventBatch \<Rightarrow> DirectoryEventBatch" where
  "lower_total b = on_draft (\<lambda>d. d\<lparr>sy_sessionTotal := max 0 (sy_sessionTotal d - 1)\<rparr>) (ensure FSessionTotal b)"

definition cleanupSessionCaches :: "string \<Rightarrow> DirectoryEventBatch \<Rightarrow> DirectoryEventBatch" where
  "cleanupSessionCaches sid b =
     (let b1 = fold ensure [FMessage, FPart, FTodo, FSessionDiff, FSessionStatus, FPermission, FQuestion] b;
          b2 = (case messages_of sid b1 of
              None \<Rightarrow> b1
            | Some ms \<Rightarrow> (let retained = concat (map (\<lambda>(i, rows). if i = sid then [] else map rec_id rows) (sy_message (bt_draft b1)))
                in on_draft (\<lambda>d. d\<lparr>
                     sy_part := filter (\<lambda>(mid, ps). mid \<notin> set (map rec_id ms) \<or> mid \<in> set retained) (sy_part d),
                     sy_message := AList.delete sid (sy_message d)\<rparr>) b1))
      in on_draft (\<lambda>d. d\<lparr>sy_todo := AList.delete sid (sy_todo d), sy_session_diff := AList.delete sid (sy_session_diff d),
           sy_session_status := AList.delete sid (sy_session_status d), sy_permission := AList.delete sid (sy_permission d),
           sy_question := AList.delete sid (sy_question d)\<rparr>) b2)"

definition tombstone :: "string \<Rightarrow> DirectoryEventBatch \<Rightarrow> DirectoryEventBatch" where
  "tombstone sid b = on_draft (\<lambda>d. d\<lparr>sy_sessionDeletedRevision := AList.update sid (sy_sessionRevision d) (sy_sessionDeletedRevision d)\<rparr>) b"

definition set_sessions :: "Session list \<Rightarrow> DirectoryEventBatch \<Rightarrow> DirectoryEventBatch" where
  "set_sessions ss b = on_draft (\<lambda>d. d\<lparr>sy_session := ss\<rparr>) b"

definition applyArchiveRemoval :: "Session \<Rightarrow> DirectoryEventBatch \<Rightarrow> DirectoryEventBatch" where
  "applyArchiveRemoval stripped b =
     (case removeById (sy_session (bt_draft b)) (rec_id stripped) of
        (False, _) \<Rightarrow> b
      | (True, ss) \<Rightarrow>
          (let b1 = set_sessions ss b;
               b2 = (if parent_of stripped = None then lower_total b1 else b1);
               b3 = tombstone (rec_id stripped) (recordRevision (rec_id stripped) (ensure FSessionDeletedRevision b2))
           in changed (on_out (\<lambda>u. u\<lparr>ou_sessionArchived := ou_sessionArchived u @ [(rec_id stripped, stripped)]\<rparr>)
                (cleanupSessionCaches (rec_id stripped) b3))))"

definition is_archived :: "Session \<Rightarrow> bool" where
  "is_archived s = (case se_archived s of Some t \<Rightarrow> t \<noteq> 0 | None \<Rightarrow> False)"

definition stored_session :: "string \<Rightarrow> DirectoryEventBatch \<Rightarrow> Session option" where
  "stored_session sid b = List.find (\<lambda>s. rec_id s = sid) (sy_session (bt_draft b))"

definition store_session :: "Session \<Rightarrow> string option \<Rightarrow> DirectoryEventBatch \<Rightarrow> DirectoryEventBatch" where
  "store_session s directory b =
     (case upsertById (sy_session (bt_draft b)) s of
        (inserted, ss) \<Rightarrow>
          (let b1 = set_sessions ss b;
               b2 = (if inserted \<and> parent_of s = None
                     then on_draft (\<lambda>d. d\<lparr>sy_sessionTotal := sy_sessionTotal d + 1\<rparr>) (ensure FSessionTotal b1) else b1);
               b3 = on_draft (\<lambda>d. d\<lparr>sy_sessionListSource := ''live''\<rparr>) (recordRevision (rec_id s) b2);
               b4 = on_draft (\<lambda>d. d\<lparr>sy_session := trimSessionList (sy_limit d) (sy_permission d) (sy_session d)\<rparr>) (ensure FSession b3)
           in changed (on_out (\<lambda>u. u\<lparr>ou_sessionRoutes := ou_sessionRoutes u @
                [(rec_id s, case directory of Some d \<Rightarrow> d | None \<Rightarrow> [])]\<rparr>) b4)))"

definition applySessionUpsert :: "Session option \<Rightarrow> string option \<Rightarrow> DirectoryEventBatch \<Rightarrow> reducer_error + DirectoryEventBatch" where
  "applySessionUpsert payload directory b =
     (case payload of None \<Rightarrow> Inr b
      | Some info \<Rightarrow> if rec_id info = [] then Inr b
          else rbind (stripSessionDiffSnapshots info) (\<lambda>stripped0.
            (let current = stored_session (rec_id stripped0) b
             in if shouldSkipStaleSessionEvent current stripped0 then Inr b
                else (let stripped = adoptSessionProjection current stripped0;
                          b1 = ensure FSessionEventRevision (ensure FSession b)
                      in if is_archived stripped then Inr (applyArchiveRemoval stripped b1)
                         else if (case current of Some c \<Rightarrow> sameSessionRecord c stripped | None \<Rightarrow> False) then Inr b1
                         else Inr (store_session stripped directory b1)))))"

definition applySessionDeleted :: "string option \<Rightarrow> DirectoryEventBatch \<Rightarrow> DirectoryEventBatch" where
  "applySessionDeleted sessionID b =
     (case truthy_string sessionID of None \<Rightarrow> b
      | Some sid \<Rightarrow>
          (let current = stored_session sid b;
               b1 = fold ensure [FSession, FSessionEventRevision, FSessionDeletedRevision] b
           in case removeById (sy_session (bt_draft b1)) sid of
                (removed, ss) \<Rightarrow>
                  (let b2 = set_sessions ss b1;
                       b3 = (if removed \<and> Option.bind current parent_of = None then lower_total b2 else b2);
                       b4 = cleanupSessionCaches sid (tombstone sid (recordRevision sid b3))
                   in changed (on_out (\<lambda>u. u\<lparr>ou_sessionRemoved := ou_sessionRemoved u @ [sid]\<rparr>) b4))))"

definition applySessionDiff :: "string option \<Rightarrow> json list option \<Rightarrow> DirectoryEventBatch \<Rightarrow> DirectoryEventBatch" where
  "applySessionDiff sessionID diff b =
     (case truthy_string sessionID of None \<Rightarrow> b
      | Some sid \<Rightarrow> changed (on_draft (\<lambda>d. d\<lparr>sy_session_diff := AList.update sid (case diff of Some ds \<Rightarrow> ds | None \<Rightarrow> []) (sy_session_diff d)\<rparr>)
          (ensure FSessionDiff b)))"

definition set_status :: "string \<Rightarrow> SessionStatus \<Rightarrow> DirectoryEventBatch \<Rightarrow> DirectoryEventBatch" where
  "set_status sid status b =
     changed (on_out (\<lambda>u. u\<lparr>ou_statusChanges := ou_statusChanges u @ [(sid, status)]\<rparr>)
       (on_draft (\<lambda>d. d\<lparr>sy_session_status := AList.update sid status (sy_session_status d)\<rparr>) (ensure FSessionStatus b)))"

definition applySessionStatus :: "string option \<Rightarrow> SessionStatus option \<Rightarrow> DirectoryEventBatch \<Rightarrow> DirectoryEventBatch" where
  "applySessionStatus sessionID status b =
     (case (truthy_string sessionID, status) of
        (Some sid, Some st) \<Rightarrow> if areSessionStatusesEqual (map_of (sy_session_status (bt_draft b)) sid) st then b else set_status sid st b
      | _ \<Rightarrow> b)"

text \<open>
  The rewriting of one part: reading a property of a missing \<open>state\<close> throws, whatever the type of the part.
\<close>

definition finalize_part :: "int \<Rightarrow> Part \<Rightarrow> reducer_error + Part" where
  "finalize_part now part =
     (if nullish (map_of part ''state'') then Inl TypeError
      else (let state = the (map_of part ''state''); time = loose (prop_of state ''time'');
                settled = (status_in [''completed'', ''error'', ''aborted'', ''failed''] state \<or> prop_of time ''end'' \<noteq> None)
            in if str_at ''type'' part \<noteq> ''tool'' \<or> settled then Inr part
               else (let start = (if nullish (prop_of time ''start'') then JNum (Fin (of_int now)) else the (prop_of time ''start''));
                         time' = AList.update ''end'' (JNum (Fin (of_int now))) (AList.update ''start'' start (obj_of (Some time)));
                         err = (if nullish (prop_of state ''error'') then JStr ''Interrupted'' else the (prop_of state ''error''));
                         state' = AList.update ''time'' (JObj time') (AList.update ''error'' err
                           (AList.update ''status'' (JStr ''error'') (obj_of (Some state))))
                     in Inr (AList.update ''state'' (JObj state') part))))"

definition finalizeRunningToolParts :: "string \<Rightarrow> int \<Rightarrow> DirectoryEventBatch \<Rightarrow> reducer_error + DirectoryEventBatch" where
  "finalizeRunningToolParts mid now b =
     (case parts_of mid b of None \<Rightarrow> Inr b
      | Some ps \<Rightarrow> rbind (map_res (\<lambda>p _. finalize_part now p) 0 ps) (\<lambda>ps'. Inr (set_part mid ps' b)))"

definition pending_none :: "string \<Rightarrow> (string \<times> Request list) list \<Rightarrow> bool" where
  "pending_none sid buckets = (case map_of buckets sid of Some (_ # _) \<Rightarrow> False | _ \<Rightarrow> True)"

definition finalizeEligible :: "string \<Rightarrow> DirectoryEventBatch \<Rightarrow> bool" where
  "finalizeEligible sid b \<longleftrightarrow>
     pending_none sid (sy_question (bt_draft b)) \<and> pending_none sid (sy_permission (bt_draft b)) \<and>
     (case messages_of sid b of None \<Rightarrow> False
      | Some ms \<Rightarrow> ms \<noteq> [] \<and> ms_role (List.last ms) = ''assistant'' \<and> ms_completed (List.last ms) = None)"

definition abort_message :: "int \<Rightarrow> Message \<Rightarrow> Message" where
  "abort_message now m =
     m\<lparr>ms_completed := Some now, ms_fields := AList.update ''error''
         (if nullish (map_of (ms_fields m) ''error'') then JObj [(''name'', JStr ''MessageAbortedError''), (''message'', JStr ''aborted'')]
          else the (map_of (ms_fields m) ''error'')) (ms_fields m)\<rparr>"

definition finalizeInterruptedTurn :: "string \<Rightarrow> int \<Rightarrow> DirectoryEventBatch \<Rightarrow> reducer_error + bool \<times> DirectoryEventBatch" where
  "finalizeInterruptedTurn sid now b =
     (if \<not> finalizeEligible sid b then Inr (False, b)
      else (let ms = the (messages_of sid b); trailing = List.last ms;
                b1 = set_message sid (ms[length ms - 1 := abort_message now trailing]) (ensure FPart (ensure FMessage b))
            in rbind (finalizeRunningToolParts (rec_id trailing) now b1) (\<lambda>b2. Inr (True, changed b2))))"

text \<open>The error of a failed session, or \<open>None\<close> for \<open>session.idle\<close>.\<close>

definition applySessionSettled :: "string option \<Rightarrow> json option option \<Rightarrow> int \<Rightarrow> DirectoryEventBatch \<Rightarrow> reducer_error + DirectoryEventBatch" where
  "applySessionSettled sessionID failure now b =
     (case truthy_string sessionID of None \<Rightarrow> Inr b
      | Some sid \<Rightarrow>
          (let b1 = (if areSessionStatusesEqual (map_of (sy_session_status (bt_draft b)) sid) StIdle then b else set_status sid StIdle b);
               b2 = on_out (\<lambda>u. u\<lparr>ou_settled := ou_settled u @ [(sid, failure)]\<rparr>) b1
           in rbind (finalizeInterruptedTurn sid now b2) (\<lambda>(_, b3). Inr b3)))"

definition applyTodoUpdated :: "string option \<Rightarrow> json list option \<Rightarrow> DirectoryEventBatch \<Rightarrow> DirectoryEventBatch" where
  "applyTodoUpdated sessionID todos b =
     (case (truthy_string sessionID, todos) of
        (Some sid, Some ts) \<Rightarrow> if map_option (map json_norm) (map_of (sy_todo (bt_draft b)) sid) = Some (map json_norm ts) then b
          else changed (on_out (\<lambda>u. u\<lparr>ou_todosPersisted := ou_todosPersisted u @ [(sid, ts)]\<rparr>)
            (on_draft (\<lambda>d. d\<lparr>sy_todo := AList.update sid ts (sy_todo d)\<rparr>) (ensure FTodo b)))
      | _ \<Rightarrow> b)"

section \<open>Events and batches\<close>

datatype DirectoryEvent =
    ProjectionEvent "NnaProjection option" "string option"
  | ActivityEvent "ActivityRecord option"
  | MessageUpdated "Message option"
  | MessageRemoved "string option" "string option"
  | PartUpdated "Part option" "string option"
  | PartRemoved "string option" "string option"
  | PartDelta "string option" "string option" "string option" "string option" "string option"
  | RequestAsked BucketKey Request
  | RequestReplied BucketKey "string option" "string option"
  | SessionUpserted "Session option" "string option"
  | SessionDeleted "string option"
  | SessionDiff "string option" "json list option"
  | SessionStatusChanged "string option" "SessionStatus option"
  | SessionSettled "string option" "json option option"
  | TodoUpdated "string option" "json list option"
  | BranchUpdated "string option"
  | LspUpdated
  | ProjectUpdated json
  | GlobalRefresh
  | OtherEvent

definition applyProjectionEvent :: "NnaProjection option \<Rightarrow> string option \<Rightarrow> DirectoryEventBatch \<Rightarrow> DirectoryEventBatch" where
  "applyProjectionEvent parsed sessionID b =
     (case parsed of None \<Rightarrow> b
      | Some frame \<Rightarrow> if Some (pr_sessionID frame) \<noteq> sessionID then b
          else (case find_index (\<lambda>s. rec_id s = pr_sessionID frame) (sy_session (bt_draft b)) of
              None \<Rightarrow> b
            | Some k \<Rightarrow> (let current = sy_session (bt_draft b) ! k
                in if is_archived current \<or> staleProjection (se_frame current) frame True then b
                   else changed (recordRevision (pr_sessionID frame)
                     (on_draft (\<lambda>d. d\<lparr>sy_session := (sy_session d)[k := applyNnaProjection current frame]\<rparr>) (ensure FSession b))))))"

definition applyActivityEvent :: "ActivityRecord \<Rightarrow> DirectoryEventBatch \<Rightarrow> DirectoryEventBatch" where
  "applyActivityEvent r b =
     (case mergeActivityRecord (sy_activity (bt_draft b)) r of
        None \<Rightarrow> b
      | Some next \<Rightarrow> changed (on_draft (\<lambda>d. d\<lparr>sy_activity := next\<rparr>) (ensure FActivity b)))"

text \<open>Each layer reports whether it owned the event; \<open>None\<close> passes the event on.\<close>

fun applyTranscriptEvent :: "DirectoryEvent \<Rightarrow> DirectoryEventBatch \<Rightarrow> DirectoryEventBatch option" where
  "applyTranscriptEvent (MessageUpdated info) b = Some (applyMessageUpdated info b)"
| "applyTranscriptEvent (MessageRemoved sid mid) b = Some (applyMessageRemoved sid mid b)"
| "applyTranscriptEvent (PartUpdated part sid) b = Some (applyPartUpdated part sid b)"
| "applyTranscriptEvent (PartRemoved mid pid) b = Some (applyPartRemoved mid pid b)"
| "applyTranscriptEvent (PartDelta mid pid field delta sid) b = Some (applyPartDelta mid pid field delta sid b)"
| "applyTranscriptEvent _ b = None"

fun applyBlockingEvent :: "DirectoryEvent \<Rightarrow> DirectoryEventBatch \<Rightarrow> DirectoryEventBatch option" where
  "applyBlockingEvent (RequestAsked key request) b = Some (askRequest request key b)"
| "applyBlockingEvent (RequestReplied key sid rid) b = Some (replyRequest sid rid key b)"
| "applyBlockingEvent _ b = None"

fun applySessionEvent :: "int \<Rightarrow> DirectoryEvent \<Rightarrow> DirectoryEventBatch \<Rightarrow> (reducer_error + DirectoryEventBatch) option" where
  "applySessionEvent now (SessionUpserted info directory) b = Some (applySessionUpsert info directory b)"
| "applySessionEvent now (SessionDeleted sid) b = Some (Inr (applySessionDeleted sid b))"
| "applySessionEvent now (SessionDiff sid diff) b = Some (Inr (applySessionDiff sid diff b))"
| "applySessionEvent now (SessionStatusChanged sid status) b = Some (Inr (applySessionStatus sid status b))"
| "applySessionEvent now (SessionSettled sid failure) b = Some (applySessionSettled sid failure now b)"
| "applySessionEvent now (TodoUpdated sid todos) b = Some (Inr (applyTodoUpdated sid todos b))"
| "applySessionEvent now _ b = None"

fun applyEnrichmentEvent :: "DirectoryEvent \<Rightarrow> DirectoryEventBatch \<Rightarrow> DirectoryEventBatch" where
  "applyEnrichmentEvent (BranchUpdated branch) b =
     (case truthy_string branch of None \<Rightarrow> b
      | Some br \<Rightarrow> if sy_vcs (bt_draft b) = Some br then b
          else changed (on_draft (\<lambda>d. d\<lparr>sy_vcs := Some br\<rparr>) (ensure FVcs b)))"
| "applyEnrichmentEvent LspUpdated b = on_out (\<lambda>u. u\<lparr>ou_lspRefresh := True\<rparr>) b"
| "applyEnrichmentEvent (ProjectUpdated info) b = on_out (\<lambda>u. u\<lparr>ou_projectUpdated := Some info\<rparr>) b"
| "applyEnrichmentEvent GlobalRefresh b = on_out (\<lambda>u. u\<lparr>ou_globalRefresh := True\<rparr>) b"
| "applyEnrichmentEvent _ b = b"

fun projection_layer :: "DirectoryEvent \<Rightarrow> DirectoryEventBatch \<Rightarrow> DirectoryEventBatch option" where
  "projection_layer (ProjectionEvent payload sid) b = Some (applyProjectionEvent payload sid b)"
| "projection_layer _ b = None"

fun activity_layer :: "DirectoryEvent \<Rightarrow> DirectoryEventBatch \<Rightarrow> DirectoryEventBatch option" where
  "activity_layer (ActivityEvent (Some r)) b = Some (applyActivityEvent r b)"
| "activity_layer _ b = None"

definition applyDirectoryEvent :: "int \<Rightarrow> DirectoryEvent \<Rightarrow> DirectoryEventBatch \<Rightarrow> reducer_error + DirectoryEventBatch" where
  "applyDirectoryEvent now event b =
     (case projection_layer event b of Some b' \<Rightarrow> Inr b'
      | None \<Rightarrow> (case activity_layer event b of Some b' \<Rightarrow> Inr b'
      | None \<Rightarrow> (case applyTranscriptEvent event b of Some b' \<Rightarrow> Inr b'
      | None \<Rightarrow> (case applyBlockingEvent event b of Some b' \<Rightarrow> Inr b'
      | None \<Rightarrow> (case applySessionEvent now event b of Some r \<Rightarrow> r
      | None \<Rightarrow> Inr (applyEnrichmentEvent event b))))))"

definition new_batch :: "SyncState \<Rightarrow> DirectoryEventBatch" where
  "new_batch store = \<lparr>bt_draft = store, bt_cloned = [], bt_out = emptyOutcome\<rparr>"

text \<open>\<open>partsApplyDirectoryBatch\<close> applies the events of a flush in order; an exception leaves the loop.\<close>

fun apply_events :: "int \<Rightarrow> DirectoryEvent list \<Rightarrow> DirectoryEventBatch \<Rightarrow> reducer_error + DirectoryEventBatch" where
  "apply_events now [] b = Inr b"
| "apply_events now (e # es) b = rbind (applyDirectoryEvent now e b) (apply_events now es)"

definition patch_field :: "SyncState \<Rightarrow> Field \<Rightarrow> SyncState \<Rightarrow> SyncState" where
  "patch_field d f s = (case f of
      FSession \<Rightarrow> s\<lparr>sy_session := sy_session d\<rparr>
    | FSessionTotal \<Rightarrow> s\<lparr>sy_sessionTotal := sy_sessionTotal d\<rparr>
    | FSessionRevision \<Rightarrow> s\<lparr>sy_sessionRevision := sy_sessionRevision d\<rparr>
    | FSessionEventRevision \<Rightarrow> s\<lparr>sy_sessionEventRevision := sy_sessionEventRevision d\<rparr>
    | FSessionDeletedRevision \<Rightarrow> s\<lparr>sy_sessionDeletedRevision := sy_sessionDeletedRevision d\<rparr>
    | FSessionStatus \<Rightarrow> s\<lparr>sy_session_status := sy_session_status d\<rparr>
    | FSessionDiff \<Rightarrow> s\<lparr>sy_session_diff := sy_session_diff d\<rparr>
    | FTodo \<Rightarrow> s\<lparr>sy_todo := sy_todo d\<rparr>
    | FPermission \<Rightarrow> s\<lparr>sy_permission := sy_permission d\<rparr>
    | FQuestion \<Rightarrow> s\<lparr>sy_question := sy_question d\<rparr>
    | FVcs \<Rightarrow> s\<lparr>sy_vcs := sy_vcs d\<rparr>
    | FMessage \<Rightarrow> s\<lparr>sy_message := sy_message d\<rparr>
    | FPart \<Rightarrow> s\<lparr>sy_part := sy_part d\<rparr>
    | FActivity \<Rightarrow> s\<lparr>sy_activity := sy_activity d\<rparr>)"

definition commit_batch :: "DirectoryEventBatch \<Rightarrow> SyncState \<Rightarrow> nat \<times> SyncState" where
  "commit_batch b store =
     (if bt_cloned b = [] then (0, store)
      else (ou_changedCount (bt_out b), fold (patch_field (bt_draft b)) (bt_cloned b) store))"

end
