(* ===== verification/Sync_Batch.thy ===== *)
theory Sync_Batch
  imports Sync_Reducer
begin

text \<open>
  Properties of the reducers of \<open>Sync_Reducer\<close>: a commit publishes what the events wrote (but for the source of the
  session list), every batch keeps the order and identity invariants of the store, deltas that follow
  each other add up in the same way whether or not the queue merged them, and the settlement of an
  interrupted turn fails when the turn has a part without a tool state.
\<close>

section \<open>Only cloned fields change\<close>

lemma bt_simps [simp]:
  "bt_draft (ensure f b) = bt_draft b" "bt_draft (changed b) = bt_draft b" "bt_draft (notePartChanged mid b) = bt_draft b"
  "bt_draft (push_materialization r s m b) = bt_draft b" "bt_draft (push_messageRoute m s b) = bt_draft b"
  "bt_draft (noteAssistantInsert info b) = bt_draft b" "bt_draft (noteMessageCompleted s m b) = bt_draft b"
  "bt_draft (missingOwnerCheck part t b) = bt_draft b" "bt_draft (pushDeltaMaterialization t m h h' b) = bt_draft b"
  "bt_cloned (changed b) = bt_cloned b" "bt_cloned (notePartChanged mid b) = bt_cloned b"
  "bt_cloned (push_materialization r s m b) = bt_cloned b" "bt_cloned (push_messageRoute m s b) = bt_cloned b"
  "bt_cloned (noteAssistantInsert info b) = bt_cloned b" "bt_cloned (noteMessageCompleted s m b) = bt_cloned b"
  "bt_cloned (missingOwnerCheck part t b) = bt_cloned b" "bt_cloned (pushDeltaMaterialization t m h h' b) = bt_cloned b"
  by (simp_all add: ensure_def changed_def notePartChanged_def push_materialization_def push_messageRoute_def noteAssistantInsert_def
      noteMessageCompleted_def missingOwnerCheck_def pushDeltaMaterialization_def Let_def split: option.splits)

lemma cloned_ensure [simp]: "set (bt_cloned (ensure f b)) = insert f (set (bt_cloned b))"
  by (auto simp: ensure_def)

lemma cloned_fold_ensure [simp]:
  "set (bt_cloned (fold ensure fs b)) = set fs \<union> set (bt_cloned b)" "bt_draft (fold ensure fs b) = bt_draft b"
  by (induction fs arbitrary: b) auto

text \<open>The fields in which two states differ; the source of the session list is not among the fields a batch clones.\<close>

fun differs :: "SyncState \<Rightarrow> SyncState \<Rightarrow> Field \<Rightarrow> bool" where
  "differs d d0 FSession = (sy_session d \<noteq> sy_session d0)"
| "differs d d0 FSessionTotal = (sy_sessionTotal d \<noteq> sy_sessionTotal d0)"
| "differs d d0 FSessionRevision = (sy_sessionRevision d \<noteq> sy_sessionRevision d0)"
| "differs d d0 FSessionEventRevision = (sy_sessionEventRevision d \<noteq> sy_sessionEventRevision d0)"
| "differs d d0 FSessionDeletedRevision = (sy_sessionDeletedRevision d \<noteq> sy_sessionDeletedRevision d0)"
| "differs d d0 FSessionStatus = (sy_session_status d \<noteq> sy_session_status d0)"
| "differs d d0 FSessionDiff = (sy_session_diff d \<noteq> sy_session_diff d0)"
| "differs d d0 FTodo = (sy_todo d \<noteq> sy_todo d0)"
| "differs d d0 FPermission = (sy_permission d \<noteq> sy_permission d0)"
| "differs d d0 FQuestion = (sy_question d \<noteq> sy_question d0)"
| "differs d d0 FVcs = (sy_vcs d \<noteq> sy_vcs d0)"
| "differs d d0 FMessage = (sy_message d \<noteq> sy_message d0)"
| "differs d d0 FPart = (sy_part d \<noteq> sy_part d0)"
| "differs d d0 FActivity = (sy_activity d \<noteq> sy_activity d0)"

definition differing :: "SyncState \<Rightarrow> SyncState \<Rightarrow> Field set" where
  "differing d d0 = {f. differs d d0 f}"

definition confined :: "Field set \<Rightarrow> SyncState \<Rightarrow> SyncState \<Rightarrow> bool" where
  "confined S d0 d \<longleftrightarrow> differing d d0 \<subseteq> S"

definition frame :: "SyncState \<Rightarrow> DirectoryEventBatch \<Rightarrow> bool" where
  "frame d0 b \<longleftrightarrow> confined (set (bt_cloned b)) d0 (bt_draft b) \<and> sy_limit (bt_draft b) = sy_limit d0"

lemma differing_same [simp]: "differing d d = {}"
proof -
  have "\<not> differs d d f" for f by (cases f) simp_all
  then show ?thesis by (simp add: differing_def)
qed

text \<open>Writing a field that is cloned stays confined the cloned fields.\<close>

lemma confined_upd:
  "confined S d0 d \<Longrightarrow> FSession \<in> S \<Longrightarrow> confined S d0 (d\<lparr>sy_session := v_session\<rparr>)"
  "confined S d0 d \<Longrightarrow> FSessionTotal \<in> S \<Longrightarrow> confined S d0 (d\<lparr>sy_sessionTotal := v_sessionTotal\<rparr>)"
  "confined S d0 d \<Longrightarrow> FSessionRevision \<in> S \<Longrightarrow> confined S d0 (d\<lparr>sy_sessionRevision := v_sessionRevision\<rparr>)"
  "confined S d0 d \<Longrightarrow> FSessionEventRevision \<in> S \<Longrightarrow> confined S d0 (d\<lparr>sy_sessionEventRevision := v_sessionEventRevision\<rparr>)"
  "confined S d0 d \<Longrightarrow> FSessionDeletedRevision \<in> S \<Longrightarrow> confined S d0 (d\<lparr>sy_sessionDeletedRevision := v_sessionDeletedRevision\<rparr>)"
  "confined S d0 d \<Longrightarrow> FSessionStatus \<in> S \<Longrightarrow> confined S d0 (d\<lparr>sy_session_status := v_session_status\<rparr>)"
  "confined S d0 d \<Longrightarrow> FSessionDiff \<in> S \<Longrightarrow> confined S d0 (d\<lparr>sy_session_diff := v_session_diff\<rparr>)"
  "confined S d0 d \<Longrightarrow> FTodo \<in> S \<Longrightarrow> confined S d0 (d\<lparr>sy_todo := v_todo\<rparr>)"
  "confined S d0 d \<Longrightarrow> FPermission \<in> S \<Longrightarrow> confined S d0 (d\<lparr>sy_permission := v_permission\<rparr>)"
  "confined S d0 d \<Longrightarrow> FQuestion \<in> S \<Longrightarrow> confined S d0 (d\<lparr>sy_question := v_question\<rparr>)"
  "confined S d0 d \<Longrightarrow> FVcs \<in> S \<Longrightarrow> confined S d0 (d\<lparr>sy_vcs := v_vcs\<rparr>)"
  "confined S d0 d \<Longrightarrow> FMessage \<in> S \<Longrightarrow> confined S d0 (d\<lparr>sy_message := v_message\<rparr>)"
  "confined S d0 d \<Longrightarrow> FPart \<in> S \<Longrightarrow> confined S d0 (d\<lparr>sy_part := v_part\<rparr>)"
  "confined S d0 d \<Longrightarrow> FActivity \<in> S \<Longrightarrow> confined S d0 (d\<lparr>sy_activity := v_activity\<rparr>)"
  "confined S d0 d \<Longrightarrow> confined S d0 (d\<lparr>sy_sessionListSource := v\<rparr>)"
  unfolding confined_def differing_def subset_iff mem_Collect_eq
  by (intro allI; rename_tac f; case_tac f; fastforce)+

lemma confined_mono [simp]:
  "confined S d0 (bt_draft b) \<Longrightarrow> confined (insert f S) d0 (bt_draft b)" "confined S d0 (bt_draft b) \<Longrightarrow> confined (T \<union> S) d0 (bt_draft b)"
  by (auto simp: confined_def)

lemma frame_ensure [simp]: "frame d0 b \<Longrightarrow> frame d0 (ensure f b)" "frame d0 b \<Longrightarrow> frame d0 (fold ensure fs b)"
  by (auto simp: frame_def)

lemma frame_out [simp]: "frame d0 (b\<lparr>bt_out := u\<rparr>) = frame d0 b" "frame d0 (changed b) = frame d0 b"
  by (simp_all add: frame_def)

lemma frame_applyMessageUpdated: "frame d0 b \<Longrightarrow> frame d0 (applyMessageUpdated p b)"
  by (auto simp: frame_def applyMessageUpdated_def set_message_def Let_def intro!: confined_upd split: option.splits BucketKey.splits bool.splits prod.splits)

lemma frame_applyMessageRemoved: "frame d0 b \<Longrightarrow> frame d0 (applyMessageRemoved s m b)"
  by (auto simp: frame_def applyMessageRemoved_def set_message_def Let_def intro!: confined_upd split: option.splits BucketKey.splits bool.splits prod.splits)

lemma frame_applyPartUpdated: "frame d0 b \<Longrightarrow> frame d0 (applyPartUpdated p s b)"
  by (auto simp: frame_def applyPartUpdated_def applyNewPart_def set_part_def Let_def intro!: confined_upd split: option.splits BucketKey.splits bool.splits prod.splits)

lemma frame_applyPartRemoved: "frame d0 b \<Longrightarrow> frame d0 (applyPartRemoved m q b)"
  by (auto simp: frame_def applyPartRemoved_def set_part_def Let_def intro!: confined_upd split: option.splits BucketKey.splits bool.splits prod.splits)

lemma frame_applyPartDelta: "frame d0 b \<Longrightarrow> frame d0 (applyPartDelta m q f t s b)"
  by (auto simp: frame_def applyPartDelta_def set_part_def Let_def intro!: confined_upd split: option.splits BucketKey.splits bool.splits prod.splits)

lemma frame_askRequest: "frame d0 b \<Longrightarrow> frame d0 (askRequest r k b)"
  by (auto simp: frame_def askRequest_def writeBuckets_def key_field_def Let_def intro!: confined_upd split: option.splits BucketKey.splits bool.splits prod.splits)

lemma frame_replyRequest: "frame d0 b \<Longrightarrow> frame d0 (replyRequest s r k b)"
  by (auto simp: frame_def replyRequest_def writeBuckets_def key_field_def Let_def intro!: confined_upd split: option.splits BucketKey.splits bool.splits prod.splits)

lemma frame_recordRevision: "frame d0 b \<Longrightarrow> frame d0 (recordRevision s b)"
  by (auto simp: frame_def recordRevision_def Let_def intro!: confined_upd split: option.splits BucketKey.splits bool.splits prod.splits)

lemma frame_cleanupSessionCaches: "frame d0 b \<Longrightarrow> frame d0 (cleanupSessionCaches s b)"
  by (auto simp: frame_def cleanupSessionCaches_def Let_def intro!: confined_upd split: option.splits BucketKey.splits bool.splits prod.splits)

lemma frame_applySessionDiff: "frame d0 b \<Longrightarrow> frame d0 (applySessionDiff s x b)"
  by (auto simp: frame_def applySessionDiff_def Let_def intro!: confined_upd split: option.splits BucketKey.splits bool.splits prod.splits)

lemma frame_set_status: "frame d0 b \<Longrightarrow> frame d0 (set_status s st b)"
  by (auto simp: frame_def set_status_def Let_def intro!: confined_upd split: option.splits BucketKey.splits bool.splits prod.splits)

lemma frame_applyTodoUpdated: "frame d0 b \<Longrightarrow> frame d0 (applyTodoUpdated s ts b)"
  by (auto simp: frame_def applyTodoUpdated_def Let_def intro!: confined_upd split: option.splits BucketKey.splits bool.splits prod.splits)

lemma frame_applyProjectionEvent: "frame d0 b \<Longrightarrow> frame d0 (applyProjectionEvent fr s b)"
  by (auto simp: frame_def applyProjectionEvent_def recordRevision_def Let_def intro!: confined_upd split: option.splits BucketKey.splits bool.splits prod.splits)

lemma frame_applyActivityEvent: "frame d0 b \<Longrightarrow> frame d0 (applyActivityEvent r b)"
  by (auto simp: frame_def applyActivityEvent_def Let_def intro!: confined_upd split: option.splits BucketKey.splits bool.splits prod.splits)

lemma frame_applyEnrichmentEvent: "frame d0 b \<Longrightarrow> frame d0 (applyEnrichmentEvent e b)"
  by (cases e) (auto simp: frame_def intro!: confined_upd split: option.split)

lemma frame_lower_total: "frame d0 b \<Longrightarrow> frame d0 (lower_total b)"
  by (auto simp: frame_def lower_total_def Let_def intro!: confined_upd split: option.splits BucketKey.splits bool.splits prod.splits)

lemma cloned_session_steps [simp]:
  "set (bt_cloned (recordRevision sid b)) = {FSessionEventRevision, FSessionRevision} \<union> set (bt_cloned b)"
  "set (bt_cloned (lower_total b)) = insert FSessionTotal (set (bt_cloned b))"
  "bt_cloned (set_sessions ss b) = bt_cloned b" "bt_cloned (tombstone sid b) = bt_cloned b"
  by (simp_all add: recordRevision_def lower_total_def set_sessions_def tombstone_def)

lemma frame_session_steps:
  "frame d0 b \<Longrightarrow> FSession \<in> set (bt_cloned b) \<Longrightarrow> frame d0 (set_sessions ss b)"
  "frame d0 b \<Longrightarrow> FSessionDeletedRevision \<in> set (bt_cloned b) \<Longrightarrow> frame d0 (tombstone sid b)"
  by (auto simp: frame_def set_sessions_def tombstone_def intro!: confined_upd)

lemmas frame_intros = frame_session_steps frame_recordRevision frame_lower_total frame_cleanupSessionCaches frame_set_status
  frame_ensure

lemma frame_applyArchiveRemoval: "frame d0 b \<Longrightarrow> FSession \<in> set (bt_cloned b) \<Longrightarrow> frame d0 (applyArchiveRemoval s b)"
  by (auto simp: applyArchiveRemoval_def Let_def intro!: frame_intros split: bool.split prod.split)

lemma frame_applySessionDeleted: "frame d0 b \<Longrightarrow> frame d0 (applySessionDeleted s b)"
  by (auto simp: applySessionDeleted_def Let_def intro!: frame_intros split: option.split prod.split)

lemma frame_store_session:
  assumes "frame d0 b" "FSession \<in> set (bt_cloned b)"
  shows "frame d0 (store_session s directory b)"
proof -
  have total: "frame d0 c \<Longrightarrow> frame d0 (on_draft (\<lambda>d. d\<lparr>sy_sessionTotal := sy_sessionTotal d + 1\<rparr>) (ensure FSessionTotal c))" for c
    by (auto simp: frame_def intro!: confined_upd)
  have source: "frame d0 c \<Longrightarrow> frame d0 (on_draft (\<lambda>d. d\<lparr>sy_sessionListSource := ''live''\<rparr>) c)" for c
    by (auto simp: frame_def intro!: confined_upd)
  have trim: "frame d0 c \<Longrightarrow> frame d0 (on_draft (\<lambda>d. d\<lparr>sy_session := g d\<rparr>) (ensure FSession c))" for c g
    by (auto simp: frame_def intro!: confined_upd)
  have cond: "(P \<Longrightarrow> frame d0 x) \<Longrightarrow> (\<not> P \<Longrightarrow> frame d0 y) \<Longrightarrow> frame d0 (if P then x else y)" for P x y by simp
  obtain i ss where u: "upsertById (sy_session (bt_draft b)) s = (i, ss)" by fastforce
  show ?thesis
    unfolding store_session_def u prod.case Let_def frame_out
    by (intro trim source frame_intros cond total assms)
qed

lemma frame_applySessionUpsert:
  assumes "frame d0 b" "applySessionUpsert info directory b = Inr b'"
  shows "frame d0 b'"
  using assms
  by (auto simp: applySessionUpsert_def Let_def intro!: frame_applyArchiveRemoval frame_store_session split: option.splits if_splits)

lemma frame_applySessionStatus: "frame d0 b \<Longrightarrow> frame d0 (applySessionStatus s st b)"
  by (auto simp: applySessionStatus_def intro!: frame_set_status split: option.split)

lemma frame_set_message: "frame d0 b \<Longrightarrow> FMessage \<in> set (bt_cloned b) \<Longrightarrow> frame d0 (set_message s ms b)"
  by (auto simp: frame_def set_message_def intro!: confined_upd)

lemma frame_set_part: "frame d0 b \<Longrightarrow> FPart \<in> set (bt_cloned b) \<Longrightarrow> frame d0 (set_part s ps b)"
  by (auto simp: frame_def set_part_def intro!: confined_upd)

lemma frame_finalize:
  assumes "frame d0 b" "finalizeInterruptedTurn sid now b = Inr (r, b')"
  shows "frame d0 b'"
  using assms
  by (auto simp: finalizeInterruptedTurn_def finalizeRunningToolParts_def Let_def set_message_def [THEN arg_cong [of _ _ bt_cloned]]
      intro!: frame_set_message frame_set_part split: if_splits option.splits)

lemma frame_applySessionSettled:
  assumes "frame d0 b" "applySessionSettled s failure now b = Inr b'"
  shows "frame d0 b'"
  using assms
  by (auto simp: applySessionSettled_def Let_def intro!: frame_set_status elim!: frame_finalize [rotated] split: option.splits if_splits)

lemma frame_event:
  assumes "frame d0 b" "applyDirectoryEvent now e b = Inr b'"
  shows "frame d0 b'"
proof (cases e)
  case (SessionUpserted info directory)
  then show ?thesis using assms frame_applySessionUpsert by (simp add: applyDirectoryEvent_def)
next
  case (SessionSettled s failure)
  then show ?thesis using assms frame_applySessionSettled by (simp add: applyDirectoryEvent_def)
next
  case (ActivityEvent r)
  then show ?thesis using assms frame_applyActivityEvent by (cases r) (auto simp: applyDirectoryEvent_def)
next
  case (BranchUpdated branch)
  then show ?thesis using assms frame_applyEnrichmentEvent [OF assms(1), of e] by (auto simp: applyDirectoryEvent_def)
qed (use assms in \<open>auto simp: frame_applyMessageUpdated frame_applyMessageRemoved frame_applyPartUpdated frame_applyPartRemoved
      frame_applyPartDelta frame_askRequest frame_replyRequest frame_applySessionDeleted frame_applySessionDiff
      frame_applySessionStatus frame_applyTodoUpdated frame_applyProjectionEvent applyDirectoryEvent_def\<close>)

lemma frame_events: "frame d0 b \<Longrightarrow> apply_events now es b = Inr b' \<Longrightarrow> frame d0 b'"
  by (induction es arbitrary: b) (auto intro: frame_event)

lemma patched_fields:
  "sy_session (fold (patch_field d) fs s) = (if FSession \<in> set fs then sy_session d else sy_session s)"
  "sy_sessionTotal (fold (patch_field d) fs s) = (if FSessionTotal \<in> set fs then sy_sessionTotal d else sy_sessionTotal s)"
  "sy_sessionRevision (fold (patch_field d) fs s) = (if FSessionRevision \<in> set fs then sy_sessionRevision d else sy_sessionRevision s)"
  "sy_sessionEventRevision (fold (patch_field d) fs s) = (if FSessionEventRevision \<in> set fs then sy_sessionEventRevision d else sy_sessionEventRevision s)"
  "sy_sessionDeletedRevision (fold (patch_field d) fs s) = (if FSessionDeletedRevision \<in> set fs then sy_sessionDeletedRevision d else sy_sessionDeletedRevision s)"
  "sy_session_status (fold (patch_field d) fs s) = (if FSessionStatus \<in> set fs then sy_session_status d else sy_session_status s)"
  "sy_session_diff (fold (patch_field d) fs s) = (if FSessionDiff \<in> set fs then sy_session_diff d else sy_session_diff s)"
  "sy_todo (fold (patch_field d) fs s) = (if FTodo \<in> set fs then sy_todo d else sy_todo s)"
  "sy_permission (fold (patch_field d) fs s) = (if FPermission \<in> set fs then sy_permission d else sy_permission s)"
  "sy_question (fold (patch_field d) fs s) = (if FQuestion \<in> set fs then sy_question d else sy_question s)"
  "sy_vcs (fold (patch_field d) fs s) = (if FVcs \<in> set fs then sy_vcs d else sy_vcs s)"
  "sy_message (fold (patch_field d) fs s) = (if FMessage \<in> set fs then sy_message d else sy_message s)"
  "sy_part (fold (patch_field d) fs s) = (if FPart \<in> set fs then sy_part d else sy_part s)"
  "sy_activity (fold (patch_field d) fs s) = (if FActivity \<in> set fs then sy_activity d else sy_activity s)"
  "sy_limit (fold (patch_field d) fs s) = sy_limit s" "sy_sessionListSource (fold (patch_field d) fs s) = sy_sessionListSource s"
  by (induction fs arbitrary: s; simp add: patch_field_def split: Field.splits)+

lemma commit_of_frame:
  assumes "frame d0 b"
  shows "snd (commit_batch b d0) = (bt_draft b)\<lparr>sy_sessionListSource := sy_sessionListSource d0\<rparr>"
proof -
  have c: "f \<notin> set (bt_cloned b) \<Longrightarrow> \<not> differs (bt_draft b) d0 f" for f
    using assms by (auto simp: frame_def confined_def differing_def)
  note fields = c [of FSession, unfolded differs.simps not_not] c [of FSessionTotal, unfolded differs.simps not_not] c [of FSessionRevision, unfolded differs.simps not_not] c [of FSessionEventRevision, unfolded differs.simps not_not] c [of FSessionDeletedRevision, unfolded differs.simps not_not] c [of FSessionStatus, unfolded differs.simps not_not] c [of FSessionDiff, unfolded differs.simps not_not]
    c [of FTodo, unfolded differs.simps not_not] c [of FPermission, unfolded differs.simps not_not] c [of FQuestion, unfolded differs.simps not_not] c [of FVcs, unfolded differs.simps not_not] c [of FMessage, unfolded differs.simps not_not] c [of FPart, unfolded differs.simps not_not] c [of FActivity, unfolded differs.simps not_not]
  have "snd (commit_batch b d0) = fold (patch_field (bt_draft b)) (bt_cloned b) d0" by (simp add: commit_batch_def)
  then show ?thesis
    using assms by (intro SyncState.equality) (auto simp: patched_fields frame_def dest: fields)
qed

text \<open>C13.
  A batch publishes what its events wrote: if no event throws, the store after the commit is the
  draft in every field, because every reducer clones a field before it writes it. The one exception
  is the source of the session list, which an upsert sets in the draft and no commit ever publishes.
\<close>

theorem commit_publishes_draft:
  assumes "apply_events now es (new_batch store) = Inr b"
  shows "snd (commit_batch b store) = (bt_draft b)\<lparr>sy_sessionListSource := sy_sessionListSource store\<rparr>"
proof -
  have "frame store (new_batch store)" by (simp add: frame_def confined_def new_batch_def)
  from frame_events [OF this assms] show ?thesis by (rule commit_of_frame)
qed

definition empty_store :: SyncState where
  "empty_store = \<lparr>sy_session = [], sy_sessionTotal = 0, sy_sessionListSource = ''empty'', sy_sessionRevision = 0, sy_sessionEventRevision = [],
     sy_sessionDeletedRevision = [], sy_session_status = [], sy_session_diff = [], sy_todo = [], sy_permission = [], sy_question = [],
     sy_vcs = None, sy_limit = 5, sy_message = [], sy_part = [], sy_activity = []\<rparr>"

definition sample_session :: Session where
  "sample_session = \<lparr>rec_id = ''s'', se_parentID = None, se_created = 1, se_updated = 2, se_archived = None, se_frame = None, se_nnd = [], se_rest = []\<rparr>"

theorem commit_publishes_draft_witness:
  "\<exists>b. apply_events 9 [SessionUpserted (Some sample_session) None, SessionStatusChanged (Some ''s'') (Some StBusy)] (new_batch empty_store) = Inr b \<and>
     snd (commit_batch b empty_store) = (bt_draft b)\<lparr>sy_sessionListSource := ''empty''\<rparr> \<and> sy_sessionListSource (bt_draft b) = ''live'' \<and>
     sy_session (bt_draft b) = [sample_session]"
proof -
  let ?r = "apply_events 9 [SessionUpserted (Some sample_session) None, SessionStatusChanged (Some ''s'') (Some StBusy)] (new_batch empty_store)"
  have c: "(case ?r of Inr b \<Rightarrow> sy_sessionListSource (bt_draft b) = ''live'' \<and> sy_session (bt_draft b) = [sample_session] | Inl _ \<Rightarrow> False)"
    by code_simp
  then obtain b where b: "?r = Inr b" by (cases ?r) auto
  show ?thesis
    using commit_publishes_draft [OF b] c [unfolded b sum.case] b
    by (intro exI [of _ b]) (simp only: simp_thms, simp add: empty_store_def)
qed

section \<open>Settlement of an interrupted turn\<close>

lemma map_res_fails:
  assumes "p \<in> set ps" "f p = Inl TypeError" "\<And>q e. f q = Inl e \<Longrightarrow> e = TypeError"
  shows "map_res (\<lambda>q _. f q) i ps = Inl TypeError"
  using assms(1)
proof (induction ps arbitrary: i)
  case (Cons q ps)
  then show ?case using assms(2,3) by (cases "f q") (auto simp: assms(3))
qed simp

text \<open>C20.
  The settlement of a session throws when its last assistant message is unfinished and has any part
  without a \<open>state\<close>, as text and reasoning parts are: the rewriting of running tools reads a property
  of the missing state before it looks at the type of the part. The exception ends the
  application of the batch, so that the other events of the flush are lost with it.
\<close>

theorem settling_text_turn_throws:
  assumes "sid \<noteq> []" "finalizeEligible sid b" "messages_of sid b = Some ms"
    and "parts_of (rec_id (List.last ms)) b = Some ps" "p \<in> set ps" "map_of p ''state'' = None"
  shows "apply_events now (SessionSettled (Some sid) failure # es) b = Inl TypeError"
proof -
  let ?b1 = "if areSessionStatusesEqual (map_of (sy_session_status (bt_draft b)) sid) StIdle then b else set_status sid StIdle b"
  let ?b2 = "on_out (\<lambda>u. u\<lparr>ou_settled := ou_settled u @ [(sid, failure)]\<rparr>) ?b1"
  have t: "truthy_string (Some sid) = Some sid" using assms(1) by (cases sid) (simp_all add: truthy_string_def)
  have keep: "messages_of sid ?b2 = messages_of sid b" "parts_of m ?b2 = parts_of m b" "finalizeEligible sid ?b2 = finalizeEligible sid b" for m
    by (simp_all add: messages_of_def parts_of_def finalizeEligible_def set_status_def)
  have "finalize_part now p = Inl TypeError" using assms(6) by (simp add: finalize_part_def nullish_def)
  moreover have "finalize_part now q = Inl e \<Longrightarrow> e = TypeError" for q e by (cases e) simp
  ultimately have "map_res (\<lambda>p _. finalize_part now p) 0 ps = Inl TypeError" using assms(5) by (intro map_res_fails) auto
  then have "finalizeInterruptedTurn sid now ?b2 = Inl TypeError"
    using assms(2-4) keep by (simp add: finalizeInterruptedTurn_def finalizeRunningToolParts_def Let_def parts_of_def set_message_def)
  then show ?thesis by (simp add: applyDirectoryEvent_def applySessionSettled_def t Let_def)
qed

definition streaming_store :: SyncState where
  "streaming_store = empty_store\<lparr>
     sy_message := [(''s'', [\<lparr>rec_id = ''m'', cr_created = 1, ms_sessionID = ''s'', ms_role = ''assistant'', ms_completed = None, ms_fields = []\<rparr>])],
     sy_part := [(''m'', [[(''id'', JStr ''p''), (''messageID'', JStr ''m''), (''type'', JStr ''text''), (''text'', JStr ''Hi'')]])]\<rparr>"

theorem settling_text_turn_throws_witness:
  "apply_events 9 [SessionSettled (Some ''s'') None, TodoUpdated (Some ''s'') (Some [])] (new_batch streaming_store) = Inl TypeError"
  by (rule settling_text_turn_throws [of "''s''" _
        "[\<lparr>rec_id = ''m'', cr_created = 1, ms_sessionID = ''s'', ms_role = ''assistant'', ms_completed = None, ms_fields = []\<rparr>]"
        "[[(''id'', JStr ''p''), (''messageID'', JStr ''m''), (''type'', JStr ''text''), (''text'', JStr ''Hi'')]]"
        "[(''id'', JStr ''p''), (''messageID'', JStr ''m''), (''type'', JStr ''text''), (''text'', JStr ''Hi'')]"])
    (simp_all add: streaming_store_def empty_store_def new_batch_def finalizeEligible_def pending_none_def messages_of_def parts_of_def)

section \<open>Streamed text\<close>

lemma read_write [simp]: "readDeltaField (writeDeltaField part f v) f = v"
  by (simp add: readDeltaField_def writeDeltaField_def update_conv' loose_def)

lemma write_write [simp]: "writeDeltaField (writeDeltaField part f v) f w = writeDeltaField part f w"
  by (simp add: writeDeltaField_def update_conv' obj_of_def)

lemma dedupe_update: "k \<noteq> DEDUPE \<Longrightarrow> dedupe_fields (AList.update k v part) = dedupe_fields part"
  "dedupe_fields (AList.update DEDUPE (JStr s) part) = []"
  by (simp_all add: dedupe_fields_def update_conv')

lemma dedupe_write: "f \<notin> set (dedupe_fields part) \<Longrightarrow> f \<notin> set (dedupe_fields (writeDeltaField part f v))"
proof (cases "f = DEDUPE")
  case True
  then show ?thesis by (simp add: writeDeltaField_def dedupe_update(2)) (simp add: DEDUPE_def)
next
  case False
  moreover have "''state'' \<noteq> DEDUPE" by (simp add: DEDUPE_def)
  ultimately show "f \<notin> set (dedupe_fields part) \<Longrightarrow> ?thesis" by (auto simp: writeDeltaField_def dedupe_update(1))
qed

lemma apply_unflagged: "f \<notin> set (dedupe_fields part) \<Longrightarrow> applyDeltaToPart part f d = writeDeltaField part f (readDeltaField part f @ d)"
  by (simp add: applyDeltaToPart_def Let_def)

lemma delta_append:
  assumes "f \<notin> set (dedupe_fields part)"
  shows "applyDeltaToPart (applyDeltaToPart part f d) f d' = applyDeltaToPart part f (d @ d')"
  using assms dedupe_write [OF assms] by (simp add: apply_unflagged)

lemma delta_keeps_id: "f \<noteq> ''id'' \<Longrightarrow> f \<notin> set (dedupe_fields part) \<Longrightarrow> str_at ''id'' (applyDeltaToPart part f d) = str_at ''id'' part"
  by (simp add: apply_unflagged writeDeltaField_def str_at_def update_conv')

lemma truthy_nonempty [simp]: "s \<noteq> [] \<Longrightarrow> truthy_string (Some s) = Some s"
  by (cases s) (simp_all add: truthy_string_def)

definition unflagged :: "string \<Rightarrow> string \<Rightarrow> string \<Rightarrow> DirectoryEventBatch \<Rightarrow> bool" where
  "unflagged mid pid f b \<longleftrightarrow> (\<forall>ps \<in> set_option (parts_of mid b). \<forall>p \<in> set ps. str_at ''id'' p = pid \<longrightarrow> f \<notin> set (dedupe_fields p))"

lemma applyPartDelta_draft:
  assumes "mid \<noteq> []" "pid \<noteq> []" "f \<noteq> []"
  shows "bt_draft (applyPartDelta (Some mid) (Some pid) (Some f) (Some d) sid b) =
    (case parts_of mid b of None \<Rightarrow> bt_draft b
     | Some ps \<Rightarrow> (case find_index (\<lambda>p. str_at ''id'' p = pid) ps of None \<Rightarrow> bt_draft b
         | Some k \<Rightarrow> (bt_draft b)\<lparr>sy_part := AList.update mid (ps[k := applyDeltaToPart (ps ! k) f d]) (sy_part (bt_draft b))\<rparr>))"
  using assms by (simp add: applyPartDelta_def set_part_def Let_def split: option.split)

lemma parts_of_cong: "bt_draft b = bt_draft b' \<Longrightarrow> parts_of mid b = parts_of mid b'"
  by (simp add: parts_of_def)

lemma two_deltas:
  fixes sid
  assumes ne: "mid \<noteq> []" "pid \<noteq> []" "f \<noteq> []" "f \<noteq> ''id''" and u: "unflagged mid pid f b"
  defines "step \<equiv> \<lambda>d b. applyPartDelta (Some mid) (Some pid) (Some f) (Some d) sid b"
  shows "bt_draft (step d' (step d b)) = bt_draft (step (d @ d') b)" "unflagged mid pid f (step d b)"
proof -
  have draft: "bt_draft (step x c) = (case parts_of mid c of None \<Rightarrow> bt_draft c
     | Some ps \<Rightarrow> (case find_index (\<lambda>p. str_at ''id'' p = pid) ps of None \<Rightarrow> bt_draft c
         | Some k \<Rightarrow> (bt_draft c)\<lparr>sy_part := AList.update mid (ps[k := applyDeltaToPart (ps ! k) f x]) (sy_part (bt_draft c))\<rparr>))" for x c
    unfolding step_def by (rule applyPartDelta_draft [OF ne(1-3)])
  have "bt_draft (step d' (step d b)) = bt_draft (step (d @ d') b) \<and> unflagged mid pid f (step d b)"
  proof (cases "\<exists>ps k. parts_of mid b = Some ps \<and> find_index (\<lambda>p. str_at ''id'' p = pid) ps = Some k")
    case False
    then have "bt_draft (step x b) = bt_draft b" for x by (auto simp: draft split: option.splits)
    then have e: "bt_draft (step x b) = bt_draft b" "parts_of mid (step x b) = parts_of mid b" for x by (auto simp: parts_of_def)
    have "bt_draft (step d' (step d b)) = bt_draft (step d' b)" unfolding draft [of d' "step d b"] e using False by (auto split: option.split)
    then show ?thesis using e u by (simp add: unflagged_def)
  next
    case True
    then obtain ps k where k: "parts_of mid b = Some ps" "find_index (\<lambda>p. str_at ''id'' p = pid) ps = Some k" by blast
    then have at: "k < length ps" "str_at ''id'' (ps ! k) = pid" "\<forall>j < k. str_at ''id'' (ps ! j) \<noteq> pid" by (simp_all add: find_index_Some)
    have fl: "f \<notin> set (dedupe_fields (ps ! k))" using u k(1) at(1,2) by (simp add: unflagged_def)
    have one: "bt_draft (step x b) = (bt_draft b)\<lparr>sy_part := AList.update mid (ps[k := applyDeltaToPart (ps ! k) f x]) (sy_part (bt_draft b))\<rparr>" for x
      by (simp add: draft k)
    have p1: "parts_of mid (step d b) = Some (ps[k := applyDeltaToPart (ps ! k) f d])" by (simp add: parts_of_def one update_conv')
    have "find_index (\<lambda>p. str_at ''id'' p = pid) (ps[k := applyDeltaToPart (ps ! k) f d]) = Some k"
      using at delta_keeps_id [OF ne(4) fl] by (simp add: find_index_Some)
    then have "bt_draft (step d' (step d b)) = bt_draft (step (d @ d') b)"
      unfolding draft [of d' "step d b"] p1 using at(1) by (simp add: one delta_append [OF fl])
    moreover have "f \<notin> set (dedupe_fields (applyDeltaToPart (ps ! k) f d))" using fl dedupe_write [OF fl] by (simp add: apply_unflagged)
    then have "unflagged mid pid f (step d b)"
      using u k(1) set_update_subset_insert [of ps k "applyDeltaToPart (ps ! k) f d"] unfolding unflagged_def p1 by auto
    ultimately show ?thesis by blast
  qed
  then show "bt_draft (step d' (step d b)) = bt_draft (step (d @ d') b)" "unflagged mid pid f (step d b)" by simp_all
qed

lemma deltas_concat:
  assumes "mid \<noteq> []" "pid \<noteq> []" "f \<noteq> []" "f \<noteq> ''id''" "unflagged mid pid f b" "ds \<noteq> []"
  shows "bt_draft (fold (\<lambda>d. applyPartDelta (Some mid) (Some pid) (Some f) (Some d) sid) ds b) =
    bt_draft (applyPartDelta (Some mid) (Some pid) (Some f) (Some (concat ds)) sid b)"
  using assms(5,6)
proof (induction ds arbitrary: b)
  case (Cons d ds)
  show ?case
  proof (cases "ds = []")
    case False
    note two = two_deltas [OF assms(1-4) Cons(2), where sid = sid]
    show ?thesis using Cons(1) [OF two(2) False, of d] two(1) [of "concat ds" d] by simp
  qed simp
qed simp

text \<open>The fields the reducer of deltas reads of an event of the queue.\<close>

definition str_prop :: "json \<Rightarrow> string \<Rightarrow> string option" where
  "str_prop props k = (case prop_of props k of Some (JStr s) \<Rightarrow> Some s | _ \<Rightarrow> None)"

definition deltaEvent :: "HarnessEvent \<Rightarrow> DirectoryEvent" where
  "deltaEvent event =
     (let props = event_props event
      in PartDelta (str_prop props ''messageID'') (str_prop props ''partID'') (str_prop props ''field'') (str_prop props ''delta'')
           (str_prop props ''sessionID''))"

definition delta_for :: "string \<Rightarrow> string \<Rightarrow> string \<Rightarrow> HarnessEvent \<Rightarrow> bool" where
  "delta_for mid pid f e \<longleftrightarrow> ev_type e = ''message.part.delta'' \<and> str_prop (event_props e) ''messageID'' = Some mid \<and>
     str_prop (event_props e) ''partID'' = Some pid \<and> str_prop (event_props e) ''field'' = Some f \<and>
     str_prop (event_props e) ''delta'' \<noteq> None"

lemma delta_draft_cong:
  assumes "mid \<noteq> []" "pid \<noteq> []" "f \<noteq> []" "bt_draft b = bt_draft b'"
  shows "bt_draft (applyPartDelta (Some mid) (Some pid) (Some f) (Some d) sid b) =
    bt_draft (applyPartDelta (Some mid) (Some pid) (Some f) (Some d) sid' b')"
  using assms parts_of_cong [OF assms(4)] by (simp add: applyPartDelta_draft cong: option.case_cong)

lemma delta_for_event:
  assumes "delta_for mid pid f e"
  shows "\<exists>sid. deltaEvent e = PartDelta (Some mid) (Some pid) (Some f) (Some (delta_text sn e)) sid"
proof -
  obtain d where d: "str_prop (event_props e) ''delta'' = Some d" using assms by (auto simp: delta_for_def)
  then have "prop_of (event_props e) ''delta'' = Some (JStr d)" by (auto simp: str_prop_def split: option.splits json.splits)
  then have "delta_text sn e = d" by (simp add: delta_text_def string_or_empty_def nullish_def)
  then show ?thesis using assms d by (simp add: delta_for_def deltaEvent_def Let_def)
qed

lemma delta_events_draft:
  assumes "mid \<noteq> []" "pid \<noteq> []" "f \<noteq> []" "\<forall>e \<in> set es. delta_for mid pid f e" "bt_draft b = bt_draft b'"
  shows "\<exists>b1. apply_events now (map deltaEvent es) b = Inr b1 \<and>
    bt_draft b1 = bt_draft (fold (\<lambda>d. applyPartDelta (Some mid) (Some pid) (Some f) (Some d) None) (map (delta_text sn) es) b')"
  using assms(4,5)
proof (induction es arbitrary: b b')
  case (Cons e es)
  obtain sid where e: "deltaEvent e = PartDelta (Some mid) (Some pid) (Some f) (Some (delta_text sn e)) sid"
    using delta_for_event Cons.prems(1) by (metis list.set_intros(1))
  let ?step = "\<lambda>sid. applyPartDelta (Some mid) (Some pid) (Some f) (Some (delta_text sn e)) sid"
  have "bt_draft (?step sid b) = bt_draft (?step None b')" by (rule delta_draft_cong [OF assms(1-3) Cons.prems(2)])
  from Cons.IH [OF _ this] Cons.prems(1) show ?case by (simp add: e applyDirectoryEvent_def)
qed simp

lemma merge_delta_for:
  assumes "delta_for mid pid f p" "delta_for mid pid f e"
  shows "delta_for mid pid f (mergeCoalesced sn (Some p) e)"
  using assms by (simp add: delta_for_def mergeCoalesced_def str_prop_def prop_of_spread)

text \<open>C18.
  Merging deltas in the queue leaves the transcript as it is: applying deltas of one field of one part
  that arrive with nothing between them one after the other, and applying the single event that
  \<open>mergeCoalesced\<close> makes of them, leave the same draft and both succeed, unless the part is marked for
  overlap removal after a snapshot (or the delta rewrites the id of the part). Deltas that are merged
  across other events are not covered.
\<close>

theorem coalesced_deltas_same_transcript:
  assumes "mid \<noteq> []" "pid \<noteq> []" "f \<noteq> []" "f \<noteq> ''id''" "unflagged mid pid f b" "\<forall>e' \<in> set (e # es). delta_for mid pid f e'"
  shows "\<exists>b1 b2. apply_events now (map deltaEvent (e # es)) b = Inr b1 \<and>
    applyDirectoryEvent now (deltaEvent (foldl (\<lambda>p. mergeCoalesced sn (Some p)) e es)) b = Inr b2 \<and> bt_draft b1 = bt_draft b2"
proof -
  let ?m = "foldl (\<lambda>p. mergeCoalesced sn (Some p)) e es"
  have "delta_for mid pid f (foldl (\<lambda>p. mergeCoalesced sn (Some p)) e es)" if "\<forall>e' \<in> set (e # es). delta_for mid pid f e'" for e es
    using that by (induction es arbitrary: e) (auto intro: merge_delta_for)
  then have m: "\<forall>e' \<in> set [?m]. delta_for mid pid f e'" using assms(6) by simp
  have "\<forall>e' \<in> set (e # es). ev_type e' = ''message.part.delta''" using assms(6) by (auto simp: delta_for_def)
  from merge_all_deltas [OF this, of sn] have dtext: "delta_text sn ?m = concat (map (delta_text sn) (e # es))" by simp
  obtain b1 where b1: "apply_events now (map deltaEvent (e # es)) b = Inr b1"
    "bt_draft b1 = bt_draft (fold (\<lambda>d. applyPartDelta (Some mid) (Some pid) (Some f) (Some d) None) (map (delta_text sn) (e # es)) b)"
    using delta_events_draft [OF assms(1-3,6) refl] by blast
  obtain b2 where b2: "apply_events now (map deltaEvent [?m]) b = Inr b2"
    "bt_draft b2 = bt_draft (fold (\<lambda>d. applyPartDelta (Some mid) (Some pid) (Some f) (Some d) None) (map (delta_text sn) [?m]) b)"
    using delta_events_draft [OF assms(1-3) m refl] by blast
  have "applyDirectoryEvent now (deltaEvent ?m) b = Inr b2" using b2(1) by (cases "applyDirectoryEvent now (deltaEvent ?m) b") auto
  moreover have "bt_draft b1 = bt_draft b2"
    using b1(2) b2(2) deltas_concat [OF assms(1-5), of "map (delta_text sn) (e # es)" None] dtext by simp
  ultimately show ?thesis using b1(1) by blast
qed

definition sample_delta :: "string \<Rightarrow> HarnessEvent" where
  "sample_delta d = \<lparr>ev_id = None, ev_type = ''message.part.delta'', ev_properties = Some (JObj [(''messageID'', JStr ''m''), (''partID'', JStr ''p''),
     (''field'', JStr ''text''), (''delta'', JStr d)]), ev_directory = None\<rparr>"

theorem coalesced_deltas_same_transcript_witness:
  "\<exists>b. applyDirectoryEvent 0 (deltaEvent (mergeCoalesced (\<lambda>_. []) (Some (sample_delta '' th'')) (sample_delta ''ere''))) (new_batch streaming_store) = Inr b \<and>
   sy_part (bt_draft b) = [(''m'', [[(''id'', JStr ''p''), (''messageID'', JStr ''m''), (''type'', JStr ''text''), (''text'', JStr ''Hi there'')]])]"
proof -
  have "unflagged ''m'' ''p'' ''text'' (new_batch streaming_store)"
    by (simp add: unflagged_def new_batch_def streaming_store_def parts_of_def dedupe_fields_def DEDUPE_def)
  moreover have "\<forall>e' \<in> set [sample_delta '' th'', sample_delta ''ere'']. delta_for ''m'' ''p'' ''text'' e'"
    by (simp add: delta_for_def sample_delta_def str_prop_def event_props_def loose_def)
  ultimately obtain b1 b2 where b: "apply_events 0 (map deltaEvent [sample_delta '' th'', sample_delta ''ere'']) (new_batch streaming_store) = Inr b1"
    "applyDirectoryEvent 0 (deltaEvent (mergeCoalesced (\<lambda>_. []) (Some (sample_delta '' th'')) (sample_delta ''ere''))) (new_batch streaming_store) = Inr b2"
    "bt_draft b1 = bt_draft b2"
    using coalesced_deltas_same_transcript [of "''m''" "''p''" "''text''" "new_batch streaming_store" "sample_delta '' th''" "[sample_delta ''ere'']" 0 "\<lambda>_. []"]
    by auto
  have "(case apply_events 0 (map deltaEvent [sample_delta '' th'', sample_delta ''ere'']) (new_batch streaming_store) of
      Inr b1 \<Rightarrow> sy_part (bt_draft b1) | Inl _ \<Rightarrow> []) =
    [(''m'', [[(''id'', JStr ''p''), (''messageID'', JStr ''m''), (''type'', JStr ''text''), (''text'', JStr ''Hi there'')]])]"
    by code_simp
  then have "sy_part (bt_draft b1) = [(''m'', [[(''id'', JStr ''p''), (''messageID'', JStr ''m''), (''type'', JStr ''text''), (''text'', JStr ''Hi there'')]])]"
    unfolding b(1) sum.case .
  then show ?thesis using b(2,3) by auto
qed

text \<open>For a part marked for overlap removal the text depends on how the queue cut the deltas.\<close>

theorem overlap_removal_depends_on_coalescing:
  fixes part defines "part \<equiv> [(''id'', JStr ''p''), (''text'', JStr ''xab''), (DEDUPE, JArr [JStr ''text''])]"
  shows "readDeltaField (applyDeltaToPart (applyDeltaToPart part ''text'' ''a'') ''text'' ''b'') ''text'' = ''xabab'' \<and>
    readDeltaField (applyDeltaToPart part ''text'' ''ab'') ''text'' = ''xab''"
  unfolding part_def by code_simp

section \<open>Invariants of the store\<close>

definition bucket_ok :: "string \<Rightarrow> Message list \<Rightarrow> bool" where
  "bucket_ok sid ms \<longleftrightarrow> sorted (map chron_key ms) \<and> distinct (map rec_id ms) \<and> (\<forall>m \<in> set ms. ms_sessionID m = sid)"

definition messages_ok :: "(string \<times> Message list) list \<Rightarrow> bool" where
  "messages_ok message \<longleftrightarrow> (\<forall>sid ms. map_of message sid = Some ms \<longrightarrow> bucket_ok sid ms)"

definition buckets_ok :: "(string \<times> Request list) list \<Rightarrow> bool" where
  "buckets_ok buckets \<longleftrightarrow> (\<forall>sid rs. map_of buckets sid = Some rs \<longrightarrow> id_sorted rs \<and> rs \<noteq> [])"

definition revisions_ok :: "int \<Rightarrow> (string \<times> int) list \<Rightarrow> (string \<times> int) list \<Rightarrow> bool" where
  "revisions_ok revision events deleted \<longleftrightarrow>
     (\<forall>sid r. map_of events sid = Some r \<or> map_of deleted sid = Some r \<longrightarrow> r \<le> revision)"

definition store_ok :: "SyncState \<Rightarrow> bool" where
  "store_ok d \<longleftrightarrow> messages_ok (sy_message d) \<and> id_sorted (sy_session d) \<and> buckets_ok (sy_permission d) \<and> buckets_ok (sy_question d) \<and>
     revisions_ok (sy_sessionRevision d) (sy_sessionEventRevision d) (sy_sessionDeletedRevision d) \<and> log_ok (sy_activity d)"

lemma messages_update: "messages_ok m \<Longrightarrow> bucket_ok sid ms \<Longrightarrow> messages_ok (AList.update sid ms m)"
  "messages_ok m \<Longrightarrow> messages_ok (AList.delete sid m)"
  by (auto simp: messages_ok_def update_conv' delete_conv' split: if_splits)

lemma buckets_update: "buckets_ok q \<Longrightarrow> id_sorted rs \<Longrightarrow> rs \<noteq> [] \<Longrightarrow> buckets_ok (AList.update sid rs q)"
  "buckets_ok q \<Longrightarrow> buckets_ok (AList.delete sid q)"
  by (auto simp: buckets_ok_def update_conv' delete_conv' split: if_splits)

lemma revisions_update:
  "revisions_ok r es ds \<Longrightarrow> revisions_ok (r + 1) (AList.update sid (r + 1) es) ds"
  "revisions_ok r es ds \<Longrightarrow> revisions_ok r es (AList.update sid r ds)"
  by (auto simp: revisions_ok_def update_conv' split: if_splits) force+

lemma bucket_insert:
  assumes "bucket_ok sid ms" "ms_sessionID m = sid" "rec_id m \<notin> rec_id ` set ms"
  shows "bucket_ok sid (insertMessageChronological ms m)"
proof -
  have s: "sorted (map chron_key ms)" using assms(1) by (simp add: bucket_ok_def)
  note e = insert_chron_eq [OF s, of m]
  have "set_mset (mset (insertMessageChronological ms m)) = insert m (set ms)" unfolding e mset_insert_chron by simp
  moreover have "mset (map rec_id (insertMessageChronological ms m)) = mset (rec_id m # map rec_id ms)"
    unfolding e by (simp add: mset_insert_chron)
  then have "distinct (map rec_id (insertMessageChronological ms m)) \<longleftrightarrow> distinct (rec_id m # map rec_id ms)"
    by (rule mset_eq_imp_distinct_iff)
  moreover have "sorted (map chron_key (insertMessageChronological ms m))" unfolding e by (rule insert_chron_sorted [OF s])
  ultimately show ?thesis using assms by (auto simp: bucket_ok_def)
qed

lemma bucket_splice_out:
  assumes "bucket_ok sid ms" "k < length ms"
  shows "bucket_ok sid (splice_out k ms)" "rec_id ` set (splice_out k ms) = rec_id ` set ms - {rec_id (ms ! k)}"
proof -
  have split: "ms = take k ms @ ms ! k # drop (Suc k) ms" using assms(2) by (rule id_take_nth_drop)
  have "bucket_ok sid (take k ms @ ms ! k # drop (Suc k) ms)" using assms(1) split by simp
  then show "bucket_ok sid (splice_out k ms)" by (auto simp: bucket_ok_def splice_out_def sorted_append)
  have "distinct (map rec_id (take k ms @ ms ! k # drop (Suc k) ms))" using assms(1) split by (simp add: bucket_ok_def)
  then have "rec_id ` set (take k ms @ drop (Suc k) ms) = rec_id ` set (take k ms @ ms ! k # drop (Suc k) ms) - {rec_id (ms ! k)}"
    by (simp add: image_Un)
  then show "rec_id ` set (splice_out k ms) = rec_id ` set ms - {rec_id (ms ! k)}" using split by (simp add: splice_out_def)
qed

lemma bucket_replace:
  assumes "bucket_ok sid ms" "k < length ms" "chron_key m = chron_key (ms ! k)" "ms_sessionID m = sid"
  shows "bucket_ok sid (ms[k := m])"
proof -
  have id: "rec_id m = rec_id (ms ! k)" using assms(3) by (simp add: chron_key_def)
  have "map chron_key (ms[k := m]) = map chron_key ms" "map rec_id (ms[k := m]) = map rec_id ms"
    using assms(2,3) id by (metis list_update_id map_update nth_map)+
  then show ?thesis using assms(1,4) set_update_subset_insert [of ms k m] by (auto simp: bucket_ok_def)
qed

lemma draft_set_message [simp]: "bt_draft (set_message sid ms b) = (bt_draft b)\<lparr>sy_message := AList.update sid ms (sy_message (bt_draft b))\<rparr>"
  by (simp add: set_message_def)

lemma ok_set_message: "store_ok (bt_draft b) \<Longrightarrow> bucket_ok sid ms \<Longrightarrow> store_ok (bt_draft (set_message sid ms b))"
  by (simp add: store_ok_def messages_update)

lemma ok_bucket: "store_ok (bt_draft b) \<Longrightarrow> messages_of sid b = Some ms \<Longrightarrow> bucket_ok sid ms"
  by (simp add: store_ok_def messages_ok_def messages_of_def)

lemma ok_applyMessageUpdated:
  assumes ok: "store_ok (bt_draft b)"
  shows "store_ok (bt_draft (applyMessageUpdated payload b))"
proof (cases payload)
  case (Some info)
  have one: "bucket_ok (ms_sessionID info) [info]" by (simp add: bucket_ok_def)
  have fresh: "bucket_ok (ms_sessionID info) (insertMessageChronological target info)"
    if "messages_of (ms_sessionID info) b = Some target" "find_index (\<lambda>m. rec_id m = rec_id info) target = None" for target
    using that by (intro bucket_insert ok_bucket [OF ok]) (auto simp: find_index_None)
  have move: "bucket_ok (ms_sessionID info) (if compareMessagesChronological (target ! k) info = 0 then target[k := info]
      else insertMessageChronological (splice_out k target) info)"
    if t: "messages_of (ms_sessionID info) b = Some target" "find_index (\<lambda>m. rec_id m = rec_id info) target = Some k" for target k
  proof -
    note bk = ok_bucket [OF ok t(1)]
    have k: "k < length target" "rec_id (target ! k) = rec_id info" using t(2) by (simp_all add: find_index_Some)
    note bs = bucket_splice_out [OF bk k(1)]
    have "bucket_ok (ms_sessionID info) (insertMessageChronological (splice_out k target) info)"
      by (rule bucket_insert [OF bs(1) refl]) (simp add: bs(2) k(2))
    then show ?thesis using bucket_replace [OF bk k(1), of info] by (simp add: chron_compare(2))
  qed
  show ?thesis
    unfolding applyMessageUpdated_def Some option.case Let_def
    using ok one fresh move by (simp split: option.split del: draft_set_message add: ok_set_message)
qed (simp add: applyMessageUpdated_def ok)

lemma ok_draft_cong: "bt_draft b = bt_draft b' \<Longrightarrow> store_ok (bt_draft b') \<Longrightarrow> store_ok (bt_draft b)"
  by simp

lemma ok_part_only [simp]:
  "store_ok (d\<lparr>sy_part := v\<rparr>) = store_ok d" "store_ok (d\<lparr>sy_todo := w\<rparr>) = store_ok d" "store_ok (d\<lparr>sy_session_diff := x\<rparr>) = store_ok d"
  "store_ok (d\<lparr>sy_session_status := y\<rparr>) = store_ok d" "store_ok (d\<lparr>sy_vcs := z\<rparr>) = store_ok d"
  "store_ok (d\<lparr>sy_sessionTotal := n\<rparr>) = store_ok d" "store_ok (d\<lparr>sy_sessionListSource := t\<rparr>) = store_ok d"
  by (simp_all add: store_ok_def)

lemma ok_applyMessageRemoved:
  assumes ok: "store_ok (bt_draft b)"
  shows "store_ok (bt_draft (applyMessageRemoved s m b))"
proof -
  have "bucket_ok sid (snd (removeMessageById ms mid))" if "messages_of sid b = Some ms" for sid ms mid
    using ok_bucket [OF ok that] bucket_splice_out(1) [OF ok_bucket [OF ok that]]
    by (auto simp: removeMessageById_def find_index_Some split: option.split)
  then show ?thesis
    using ok by (auto simp: applyMessageRemoved_def Let_def messages_of_def store_ok_def messages_update split: option.split)
qed

lemma ok_parts:
  assumes "store_ok (bt_draft b)"
  shows "store_ok (bt_draft (applyPartUpdated p s b))" "store_ok (bt_draft (applyPartRemoved m q b))"
    "store_ok (bt_draft (applyPartDelta m' q' f t s' b))"
  using assms by (auto simp: applyPartUpdated_def applyNewPart_def applyPartRemoved_def applyPartDelta_def set_part_def Let_def split: option.split)

lemma id_sorted_sort: "id_sorted rs \<Longrightarrow> sort_key rec_id rs = rs"
  unfolding id_sorted_def by (rule sort_key_id_if_sorted) (simp add: strict_sorted_iff)

lemma ok_writeBuckets:
  "store_ok d \<Longrightarrow> id_sorted rs \<Longrightarrow> store_ok (writeBuckets key sid rs d)"
  by (cases key) (auto simp: writeBuckets_def bucketsOf_def store_ok_def buckets_update Let_def)

lemma ok_bucketsOf: "store_ok d \<Longrightarrow> buckets_ok (bucketsOf key d)"
  by (cases key) (simp_all add: bucketsOf_def store_ok_def)

lemma ok_requests:
  assumes "store_ok (bt_draft b)"
  shows "store_ok (bt_draft (askRequest r key b))" "store_ok (bt_draft (replyRequest s rid key b))"
proof -
  have ex: "id_sorted (case map_of (bucketsOf key (bt_draft b)) sid of Some rs \<Rightarrow> rs | None \<Rightarrow> [])" for sid
    using ok_bucketsOf [OF assms, of key] by (auto simp: buckets_ok_def id_sorted_def split: option.split)
  have "id_sorted (sort_key rec_id (snd (upsertById (case map_of (bucketsOf key (bt_draft b)) sid of Some rs \<Rightarrow> rs | None \<Rightarrow> []) r)))" for sid
    using upsert_spec [OF ex] by (simp add: id_sorted_sort)
  then show "store_ok (bt_draft (askRequest r key b))"
    using assms by (simp add: askRequest_def Let_def ok_writeBuckets split: option.split)
  have "id_sorted bucket" if "map_of (bucketsOf key (bt_draft b)) sid = Some existing" "removeById existing i = (x, bucket)"
    for sid existing i x bucket using remove_spec [of existing i] ex [of sid] that by simp
  then show "store_ok (bt_draft (replyRequest s rid key b))"
    using assms by (auto simp: replyRequest_def Let_def intro!: ok_writeBuckets split: option.split prod.split bool.split)
qed

lemma ok_trim: "id_sorted ss \<Longrightarrow> id_sorted (trimSessionList limit permission ss)"
proof (induction limit permission ss rule: trimSessionList.induct)
  case (1 limit permission ss)
  then show ?case
    by (subst trimSessionList.simps) (auto simp: find_index_Some intro: id_sorted_splice_out split: option.split)
qed

lemma ok_session_steps:
  assumes "store_ok (bt_draft b)"
  shows "store_ok (bt_draft (recordRevision sid b))" "store_ok (bt_draft (tombstone sid b))" "store_ok (bt_draft (lower_total b))"
    "store_ok (bt_draft (cleanupSessionCaches sid b))" "store_ok (bt_draft (set_status sid st b))"
    and "id_sorted ss \<Longrightarrow> store_ok (bt_draft (set_sessions ss b))"
  using assms
  by (auto simp: store_ok_def recordRevision_def tombstone_def lower_total_def cleanupSessionCaches_def set_status_def set_sessions_def
      messages_update buckets_update revisions_update Let_def split: option.split)

lemma ok_applyArchiveRemoval:
  assumes "store_ok (bt_draft b)"
  shows "store_ok (bt_draft (applyArchiveRemoval s b))"
proof -
  obtain r ss where u: "removeById (sy_session (bt_draft b)) (rec_id s) = (r, ss)" by fastforce
  have "id_sorted ss" using remove_spec [of "sy_session (bt_draft b)" "rec_id s"] assms u by (simp add: store_ok_def)
  then show ?thesis
    using assms by (cases r) (simp_all add: applyArchiveRemoval_def u Let_def ok_session_steps)
qed

lemma ok_applySessionDeleted:
  assumes "store_ok (bt_draft b)"
  shows "store_ok (bt_draft (applySessionDeleted s b))"
proof -
  have "id_sorted (snd (removeById (sy_session (bt_draft b)) sid))" for sid
    using remove_spec [of "sy_session (bt_draft b)" sid] assms by (simp add: store_ok_def)
  then show ?thesis
    using assms by (simp add: applySessionDeleted_def Let_def ok_session_steps case_prod_beta split: option.split)
qed

lemma ok_store_session:
  assumes "store_ok (bt_draft b)"
  shows "store_ok (bt_draft (store_session s directory b))"
proof -
  have ss: "id_sorted (snd (upsertById (sy_session (bt_draft b)) s))"
    using upsert_spec [of "sy_session (bt_draft b)" s] assms by (simp add: store_ok_def)
  have trim: "store_ok (bt_draft c) \<Longrightarrow> store_ok (bt_draft (on_draft (\<lambda>d. d\<lparr>sy_session := trimSessionList (sy_limit d) (sy_permission d) (sy_session d)\<rparr>) c))" for c
    by (simp add: store_ok_def ok_trim)
  have source: "store_ok (bt_draft c) \<Longrightarrow> store_ok (bt_draft (on_draft (\<lambda>d. d\<lparr>sy_sessionListSource := ''live''\<rparr>) c))" for c by simp
  have total: "store_ok (bt_draft c) \<Longrightarrow> store_ok (bt_draft (on_draft (\<lambda>d. d\<lparr>sy_sessionTotal := sy_sessionTotal d + 1\<rparr>) c))" for c by simp
  have pass: "store_ok (bt_draft c) \<Longrightarrow> store_ok (bt_draft (ensure f c))" "store_ok (bt_draft c) \<Longrightarrow> store_ok (bt_draft (changed c))"
    "store_ok (bt_draft c) \<Longrightarrow> store_ok (bt_draft (c\<lparr>bt_out := u\<rparr>))" for c f u by simp_all
  have cond: "store_ok (bt_draft x) \<Longrightarrow> store_ok (bt_draft y) \<Longrightarrow> store_ok (bt_draft (if P then x else y))" for P x y by simp
  show ?thesis
    unfolding store_session_def case_prod_beta Let_def
    by (intro pass trim source total cond ok_session_steps assms ss)
qed

lemma frame_id [simp]: "rec_id (adoptSessionProjection c s) = rec_id s" "rec_id (applyNnaProjection s f) = rec_id s"
  by (simp_all add: adoptSessionProjection_def applyNnaProjection_def Let_def split: option.split)

lemma ok_applySessionUpsert:
  assumes "store_ok (bt_draft b)" "applySessionUpsert info directory b = Inr b'"
  shows "store_ok (bt_draft b')"
  using assms ok_applyArchiveRemoval ok_store_session
  by (auto simp: applySessionUpsert_def Let_def split: option.splits if_splits)

lemma ok_applyProjectionEvent:
  assumes "store_ok (bt_draft b)"
  shows "store_ok (bt_draft (applyProjectionEvent payload s b))"
proof -
  have "id_sorted ((sy_session (bt_draft b))[k := applyNnaProjection (sy_session (bt_draft b) ! k) f])"
    if "find_index P (sy_session (bt_draft b)) = Some k" for P k f
    using assms that by (intro id_sorted_update) (simp_all add: store_ok_def find_index_Some)
  then have "store_ok ((bt_draft b)\<lparr>sy_session := (sy_session (bt_draft b))[k := applyNnaProjection (sy_session (bt_draft b) ! k) f]\<rparr>)"
    if "find_index P (sy_session (bt_draft b)) = Some k" for P k f using assms that by (simp add: store_ok_def)
  then show ?thesis using assms by (auto simp: applyProjectionEvent_def Let_def intro!: ok_session_steps(1) split: option.split)
qed

lemma ok_applyActivityEvent:
  assumes "store_ok (bt_draft b)"
  shows "store_ok (bt_draft (applyActivityEvent r b))"
proof -
  have "log_ok log" if "mergeActivityRecord (sy_activity (bt_draft b)) x = Some log" for x log
    using merge_log_ok [of "sy_activity (bt_draft b)" x log] assms that by (simp add: store_ok_def)
  then show ?thesis using assms by (auto simp: applyActivityEvent_def store_ok_def split: option.split)
qed

lemma ok_finalize:
  assumes ok: "store_ok (bt_draft b)" and f: "finalizeInterruptedTurn sid now b = Inr (r, b')"
  shows "store_ok (bt_draft b')"
proof (cases "finalizeEligible sid b")
  case True
  then obtain ms where ms: "messages_of sid b = Some ms" "ms \<noteq> []" by (auto simp: finalizeEligible_def split: option.splits)
  have "bucket_ok sid (ms[length ms - 1 := abort_message now (List.last ms)])"
    using ok_bucket [OF ok ms(1)] ms(2)
    by (intro bucket_replace) (auto simp: last_conv_nth chron_key_def abort_message_def bucket_ok_def)
  then have "store_ok (bt_draft (set_message sid (ms[length ms - 1 := abort_message now (List.last ms)]) (ensure FPart (ensure FMessage b))))"
    using ok by (intro ok_set_message) simp_all
  then show ?thesis
    using f True ms(1) by (auto simp: finalizeInterruptedTurn_def finalizeRunningToolParts_def set_part_def Let_def split: option.splits)
qed (use assms in \<open>simp add: finalizeInterruptedTurn_def\<close>)

lemma ok_applySessionSettled:
  assumes "store_ok (bt_draft b)" "applySessionSettled s failure now b = Inr b'"
  shows "store_ok (bt_draft b')"
  using assms
  by (auto simp: applySessionSettled_def Let_def ok_session_steps(5) elim!: ok_finalize [rotated] split: option.splits if_splits)

lemma ok_event:
  assumes "store_ok (bt_draft b)" "applyDirectoryEvent now e b = Inr b'"
  shows "store_ok (bt_draft b')"
proof (cases e)
  case (SessionUpserted info directory)
  then show ?thesis using assms ok_applySessionUpsert by (simp add: applyDirectoryEvent_def)
next
  case (ActivityEvent r)
  then show ?thesis using assms ok_applyActivityEvent by (cases r) (auto simp: applyDirectoryEvent_def)
next
  case (SessionSettled s failure)
  then show ?thesis using assms ok_applySessionSettled by (simp add: applyDirectoryEvent_def)
qed (use assms in \<open>auto simp: ok_applyMessageUpdated ok_applyMessageRemoved ok_parts ok_requests ok_applySessionDeleted applySessionDiff_def
      applySessionStatus_def ok_session_steps applyTodoUpdated_def ok_applyProjectionEvent
      applyDirectoryEvent_def split: option.splits if_splits\<close>)

text \<open>C5.
  The invariants of the store hold along every sequence of batches: the messages of a session are in
  chronological order, with one message per id and under their own session; sessions and
  pending requests are sorted by id without duplicates and no empty list of requests is kept; the
  revisions recorded for events and deletions never run ahead of the revision of the store; the
  activity log is bounded with one record per id.
\<close>

theorem batches_keep_store_invariants:
  assumes "store_ok store" "apply_events now es (new_batch store) = Inr b"
  shows "store_ok (snd (commit_batch b store))"
proof -
  have "store_ok (bt_draft c) \<Longrightarrow> apply_events now es c = Inr b \<Longrightarrow> store_ok (bt_draft b)" for c
    by (induction es arbitrary: c) (auto intro: ok_event)
  from this [of "new_batch store"] have "store_ok (bt_draft b)" using assms by (simp add: new_batch_def)
  moreover have "frame store (new_batch store)" by (simp add: frame_def confined_def new_batch_def)
  ultimately show ?thesis using commit_of_frame [OF frame_events [OF _ assms(2)]] by simp
qed

theorem batches_keep_store_invariants_witness:
  "\<exists>b. apply_events 9 [SessionUpserted (Some sample_session) None, SessionDeleted (Some ''s'')] (new_batch empty_store) = Inr b \<and>
     store_ok (snd (commit_batch b empty_store))"
proof -
  have "store_ok empty_store"
    by (simp add: store_ok_def empty_store_def messages_ok_def id_sorted_def buckets_ok_def revisions_ok_def log_ok_def)
  moreover have "\<exists>b. apply_events 9 [SessionUpserted (Some sample_session) None, SessionDeleted (Some ''s'')] (new_batch empty_store) = Inr b"
    by (simp add: applyDirectoryEvent_def applySessionUpsert_def sample_session_def stripSessionDiffSnapshots_def strip_revert_def shouldSkipStaleSessionEvent_def
        stored_session_def new_batch_def empty_store_def Let_def is_archived_def adoptSessionProjection_def)
  ultimately show ?thesis using batches_keep_store_invariants by blast
qed

end
