(* ===== verification/Goal_State.thy ===== *)
theory Goal_State
  imports Goal_Constants
begin

text \<open>
  Session goals as data: the payload with its tolerant parser (\<open>goal-payload.ts\<close>),
  its place in the metadata of a session (\<open>goal-metadata.ts\<close>), the state machine of
  a goal (\<open>goal-state.ts\<close>) and the fitting of over-long objectives
  (\<open>goal-distill.ts\<close>). A payload number is an \<open>int\<close>: the parser floors every counter.
  The clock value \<open>Date.now()\<close> and the random bytes of a new id are arguments; a
  refused transition (\<open>null\<close>) is \<open>None\<close>.
\<close>

section \<open>The payload\<close>

datatype GoalStatus = Active | Paused | Blocked | BudgetLimited | Complete

fun goal_status_name :: "GoalStatus \<Rightarrow> string" where
  "goal_status_name Active = ''active''"
| "goal_status_name Paused = ''paused''"
| "goal_status_name Blocked = ''blocked''"
| "goal_status_name BudgetLimited = ''budgetLimited''"
| "goal_status_name Complete = ''complete''"

definition GOAL_STATUSES :: "GoalStatus list" where
  "GOAL_STATUSES = [Active, Paused, Blocked, BudgetLimited, Complete]"

record GoalPayload =
  g_id :: string
  g_objective :: string
  g_objectiveFile :: bool
  g_objectiveFileKey :: "string option"
  g_status :: GoalStatus
  g_tokenBudget :: "int option"
  g_tokensUsed :: int
  g_tokensBaseline :: int
  g_tokensCommitted :: int
  g_turnsUsed :: int
  g_blockedStreak :: int
  g_auditFailStreak :: int
  g_note :: string
  g_statusReason :: string
  g_evaluationProviderID :: string
  g_evaluationModelID :: string
  g_lastAccountedMessageID :: string
  g_createdAt :: int
  g_updatedAt :: int

abbreviation GInt :: "int \<Rightarrow> json" where "GInt n \<equiv> JNum (Fin (of_int n))"

text \<open>The own properties of a payload object, as \<open>JSON.stringify\<close> writes them.\<close>

definition goal_fields :: "GoalPayload \<Rightarrow> (string \<times> json) list" where
  "goal_fields g =
     [(''id'', JStr (g_id g)), (''objective'', JStr (g_objective g)), (''objectiveFile'', JBool (g_objectiveFile g))] @
     (case g_objectiveFileKey g of Some k \<Rightarrow> [(''objectiveFileKey'', JStr k)] | None \<Rightarrow> []) @
     [(''status'', JStr (goal_status_name (g_status g))),
      (''tokenBudget'', case g_tokenBudget g of Some b \<Rightarrow> GInt b | None \<Rightarrow> JNull),
      (''tokensUsed'', GInt (g_tokensUsed g)), (''tokensBaseline'', GInt (g_tokensBaseline g)),
      (''tokensCommitted'', GInt (g_tokensCommitted g)), (''turnsUsed'', GInt (g_turnsUsed g)),
      (''blockedStreak'', GInt (g_blockedStreak g)), (''auditFailStreak'', GInt (g_auditFailStreak g)),
      (''note'', JStr (g_note g)), (''statusReason'', JStr (g_statusReason g)),
      (''evaluationProviderID'', JStr (g_evaluationProviderID g)),
      (''evaluationModelID'', JStr (g_evaluationModelID g)),
      (''lastAccountedMessageID'', JStr (g_lastAccountedMessageID g)),
      (''createdAt'', GInt (g_createdAt g)), (''updatedAt'', GInt (g_updatedAt g))]"

abbreviation goal_json :: "GoalPayload \<Rightarrow> json" where "goal_json g \<equiv> JObj (goal_fields g)"

definition GOAL_NAMESPACE :: string where "GOAL_NAMESPACE = ''nnd''"
definition GOAL_METADATA_KEY :: string where "GOAL_METADATA_KEY = ''goal''"

definition id_class :: "char \<Rightarrow> bool" where
  "id_class c \<longleftrightarrow> is_alnum c \<or> c = CHR ''_'' \<or> c = CHR ''-''"

definition isGoalFileSessionId :: "string \<Rightarrow> bool" where
  "isGoalFileSessionId s \<longleftrightarrow> 4 \<le> length s \<and> length s \<le> 128 \<and> list_all id_class s"

text \<open>\<open>now.toString(36)\<close> of a non-negative integer.\<close>

fun radix36 :: "nat \<Rightarrow> string" where
  "radix36 n = (let d = (if n mod 36 < 10 then char_of (48 + n mod 36) else char_of (87 + n mod 36))
                in if n < 36 then [d] else radix36 (n div 36) @ [d])"

declare radix36.simps [simp del]

definition newGoalId :: "nat list \<Rightarrow> int \<Rightarrow> string" where
  "newGoalId rnd now = radix36 (nat now) @ to_hex rnd"

fun clampText :: "unknown \<Rightarrow> nat \<Rightarrow> string" where
  "clampText (Some (JStr s)) limit = take limit s"
| "clampText _ _ = []"

fun nonNegativeInt :: "unknown \<Rightarrow> int" where
  "nonNegativeInt (Some (JNum (Fin q))) = max 0 \<lfloor>q\<rfloor>"
| "nonNegativeInt _ = 0"

fun goal_timestamp :: "unknown \<Rightarrow> int" where
  "goal_timestamp (Some (JNum (Fin q))) = max 0 \<lfloor>q\<rfloor>"
| "goal_timestamp _ = 0"

fun goal_flag :: "unknown \<Rightarrow> bool" where
  "goal_flag (Some (JBool b)) = b"
| "goal_flag _ = False"

fun parseStatus :: "unknown \<Rightarrow> GoalStatus option" where
  "parseStatus (Some (JStr s)) = find (\<lambda>st. goal_status_name st = s) GOAL_STATUSES"
| "parseStatus _ = None"

definition math_trunc :: "rat \<Rightarrow> int" where
  "math_trunc q = (if 0 \<le> q then \<lfloor>q\<rfloor> else \<lceil>q\<rceil>)"

fun parseTokenBudget :: "unknown \<Rightarrow> int option" where
  "parseTokenBudget (Some (JNum (Fin q))) =
     (let raw = math_trunc q in if raw < 1 \<or> raw > TOKEN_BUDGET_MAX then None else Some raw)"
| "parseTokenBudget _ = None"

definition is_file_key :: "string \<Rightarrow> bool" where
  "is_file_key s \<longleftrightarrow> length s = 64 \<and> list_all (\<lambda>c. is_digit c \<or> (of_char c :: nat) \<in> {97..102}) s"

fun parse_file_key :: "unknown \<Rightarrow> string option" where
  "parse_file_key (Some (JStr s)) = (if is_file_key s then Some s else None)"
| "parse_file_key _ = None"

text \<open>\<open>timestamp(updatedAt) || timestamp(createdAt) || now\<close>.\<close>

definition parse_updated :: "int \<Rightarrow> unknown \<Rightarrow> unknown \<Rightarrow> int" where
  "parse_updated now updated created =
     (if goal_timestamp updated \<noteq> 0 then goal_timestamp updated
      else if goal_timestamp created \<noteq> 0 then goal_timestamp created else now)"

text \<open>The object literal \<open>parseGoalPayload\<close> returns, from the property lookup of the raw value.\<close>

definition goal_of_fields :: "int \<Rightarrow> (string \<rightharpoonup> json) \<Rightarrow> string \<Rightarrow> GoalStatus \<Rightarrow> GoalPayload" where
  "goal_of_fields now val i st =
     \<lparr> g_id = i, g_objective = clampText (val ''objective'') GOAL_OBJECTIVE_CHAR_LIMIT,
       g_objectiveFile = goal_flag (val ''objectiveFile''),
       g_objectiveFileKey = parse_file_key (val ''objectiveFileKey''), g_status = st,
       g_tokenBudget = parseTokenBudget (val ''tokenBudget''),
       g_tokensUsed = nonNegativeInt (val ''tokensUsed''),
       g_tokensBaseline = nonNegativeInt (val ''tokensBaseline''),
       g_tokensCommitted = nonNegativeInt (val ''tokensCommitted''),
       g_turnsUsed = nonNegativeInt (val ''turnsUsed''),
       g_blockedStreak = nonNegativeInt (val ''blockedStreak''),
       g_auditFailStreak = nonNegativeInt (val ''auditFailStreak''),
       g_note = clampText (val ''note'') NOTE_CHAR_LIMIT,
       g_statusReason = clampText (val ''statusReason'') REASON_CHAR_LIMIT,
       g_evaluationProviderID = clampText (val ''evaluationProviderID'') 200,
       g_evaluationModelID = clampText (val ''evaluationModelID'') 200,
       g_lastAccountedMessageID = clampText (val ''lastAccountedMessageID'') 200,
       g_createdAt = goal_timestamp (val ''createdAt''),
       g_updatedAt = parse_updated now (val ''updatedAt'') (val ''createdAt'') \<rparr>"

fun parseGoalPayload :: "int \<Rightarrow> unknown \<Rightarrow> GoalPayload option" where
  "parseGoalPayload now (Some (JObj kvs)) =
     (let val = map_of kvs in
      case val ''id'' of
        Some (JStr i) \<Rightarrow>
          if trim i = [] then None
          else (case parseStatus (val ''status'') of
                  None \<Rightarrow> None
                | Some st \<Rightarrow>
                    let objective = clampText (val ''objective'') GOAL_OBJECTIVE_CHAR_LIMIT;
                        file = goal_flag (val ''objectiveFile'')
                    in if trim objective = [] \<and> \<not> file then None else Some (goal_of_fields now val (trim i) st))
      | _ \<Rightarrow> None)"
| "parseGoalPayload now _ = None"

text \<open>\<open>value?.key\<close> on a value of any shape.\<close>

definition opt_prop :: "unknown \<Rightarrow> string \<Rightarrow> unknown" where
  "opt_prop v k = (case v of Some j \<Rightarrow> prop_of j k | None \<Rightarrow> None)"

text \<open>The guard \<open>value === null || typeof value !== 'object' || Array.isArray(value)\<close>.\<close>

fun plain_object :: "unknown \<Rightarrow> (string \<times> json) list option" where
  "plain_object (Some (JObj kvs)) = Some kvs"
| "plain_object _ = None"

definition getSessionGoal :: "int \<Rightarrow> unknown \<Rightarrow> GoalPayload option" where
  "getSessionGoal now sessionRecord =
     (case plain_object (opt_prop sessionRecord ''metadata'') of
        None \<Rightarrow> None
      | Some metadata \<Rightarrow>
          (case plain_object (map_of metadata GOAL_NAMESPACE) of
             None \<Rightarrow> None
           | Some namespaced \<Rightarrow> parseGoalPayload now (map_of namespaced GOAL_METADATA_KEY)))"

definition buildGoalPayload :: "string \<Rightarrow> string \<Rightarrow> bool \<Rightarrow> string option \<Rightarrow> unknown \<Rightarrow> int \<Rightarrow> GoalPayload" where
  "buildGoalPayload i objective file key budget now =
     \<lparr> g_id = i, g_objective = take GOAL_OBJECTIVE_CHAR_LIMIT objective, g_objectiveFile = file,
       g_objectiveFileKey = (if key = Some [] then None else key), g_status = Active,
       g_tokenBudget = parseTokenBudget budget,
       g_tokensUsed = 0, g_tokensBaseline = 0, g_tokensCommitted = 0, g_turnsUsed = 0,
       g_blockedStreak = 0, g_auditFailStreak = 0, g_note = [], g_statusReason = [],
       g_evaluationProviderID = [], g_evaluationModelID = [], g_lastAccountedMessageID = [],
       g_createdAt = now, g_updatedAt = now \<rparr>"

section \<open>The payload in the metadata of a session\<close>

type_synonym MetadataRecord = "(string \<times> json) list"

definition readMetadata :: "unknown \<Rightarrow> MetadataRecord" where
  "readMetadata sessionRecord = (case plain_object (opt_prop sessionRecord ''metadata'') of Some m \<Rightarrow> m | None \<Rightarrow> [])"

definition readNamespace :: "MetadataRecord \<Rightarrow> MetadataRecord" where
  "readNamespace metadata = (case plain_object (map_of metadata GOAL_NAMESPACE) of Some m \<Rightarrow> m | None \<Rightarrow> [])"

definition mergeGoalIntoMetadata :: "MetadataRecord \<Rightarrow> GoalPayload \<Rightarrow> MetadataRecord" where
  "mergeGoalIntoMetadata metadata goal =
     AList.update GOAL_NAMESPACE (JObj (AList.update GOAL_METADATA_KEY (goal_json goal) (readNamespace metadata))) metadata"

definition removeGoalFromMetadata :: "MetadataRecord \<Rightarrow> MetadataRecord" where
  "removeGoalFromMetadata metadata =
     (let rest = AList.delete GOAL_METADATA_KEY (readNamespace metadata)
      in if rest = [] then AList.delete GOAL_NAMESPACE metadata
         else AList.update GOAL_NAMESPACE (JObj rest) metadata)"

text \<open>\<open>Number.isSafeInteger\<close>, with the integer it found.\<close>

fun safe_int :: "unknown \<Rightarrow> int option" where
  "safe_int (Some (JNum (Fin q))) =
     (if q = of_int \<lfloor>q\<rfloor> \<and> \<bar>\<lfloor>q\<rfloor>\<bar> \<le> 9007199254740991 then Some \<lfloor>q\<rfloor> else None)"
| "safe_int _ = None"

record GoalWriteBody =
  wb_goal :: GoalPayload
  wb_expected_id :: "string option"
  wb_expected_revision :: int

text \<open>\<open>buildGoalWrite\<close>; \<open>None\<close> is the error thrown without a usable revision.\<close>

definition buildGoalWrite :: "int \<Rightarrow> unknown \<Rightarrow> GoalPayload \<Rightarrow> (GoalWriteBody \<times> GoalPayload option) option" where
  "buildGoalWrite now sessionRecord goal =
     (let current = getSessionGoal now sessionRecord
      in case safe_int (opt_prop (map_of (readMetadata sessionRecord) GOAL_NAMESPACE) ''goalRevision'') of
           Some revision \<Rightarrow>
             if revision < 0 then None
             else Some (\<lparr> wb_goal = goal, wb_expected_id = map_option g_id current, wb_expected_revision = revision \<rparr>, current)
         | None \<Rightarrow> None)"

definition idGuardMatches :: "int \<Rightarrow> unknown \<Rightarrow> string \<Rightarrow> bool" where
  "idGuardMatches now sessionRecord expectedGoalId \<longleftrightarrow>
     (case getSessionGoal now sessionRecord of Some current \<Rightarrow> g_id current = expectedGoalId | None \<Rightarrow> False)"

section \<open>The state machine\<close>

datatype SettleStatus = SettleComplete | SettleBlocked | SettleBudgetLimited

fun settle_status :: "SettleStatus \<Rightarrow> GoalStatus" where
  "settle_status SettleComplete = Complete"
| "settle_status SettleBlocked = Blocked"
| "settle_status SettleBudgetLimited = BudgetLimited"

datatype GoalEvent =
    EvArm string "bool option" unknown
  | EvTick
  | EvSettle SettleStatus string "string option"
  | EvPause "string option"
  | EvResume
  | EvReactivate "string option" "bool option"
  | EvContinue

definition isActive :: "GoalPayload \<Rightarrow> bool" where
  "isActive goal \<longleftrightarrow> g_status goal = Active"

definition isResumable :: "GoalPayload \<Rightarrow> bool" where
  "isResumable goal \<longleftrightarrow> g_status goal = Paused \<or> g_status goal = Blocked \<or> g_status goal = BudgetLimited"

definition isFinal :: "GoalPayload \<Rightarrow> bool" where
  "isFinal goal \<longleftrightarrow> g_status goal = Complete"

definition canArmOver :: "GoalPayload option \<Rightarrow> bool" where
  "canArmOver goal \<longleftrightarrow> (case goal of None \<Rightarrow> True | Some g \<Rightarrow> g_status g \<noteq> Complete)"

definition armGoal :: "nat list \<Rightarrow> int \<Rightarrow> string \<Rightarrow> bool option \<Rightarrow> unknown \<Rightarrow> GoalPayload option \<Rightarrow> GoalPayload option" where
  "armGoal rnd now objective file budget existing =
     (if \<not> canArmOver existing then None
      else if file \<noteq> Some True \<and> trim objective = [] then None
      else Some (buildGoalPayload (newGoalId rnd now) objective (file = Some True) None budget now))"

definition pauseGoal :: "GoalPayload \<Rightarrow> string \<Rightarrow> int \<Rightarrow> GoalPayload option" where
  "pauseGoal goal reason now =
     (if g_status goal \<noteq> Active then None
      else Some (goal \<lparr> g_status := Paused, g_statusReason := take REASON_CHAR_LIMIT reason, g_updatedAt := now \<rparr>))"

definition resumeGoal :: "GoalPayload \<Rightarrow> int \<Rightarrow> GoalPayload option" where
  "resumeGoal goal now =
     (if \<not> isResumable goal then None
      else Some (goal \<lparr> g_status := Active, g_statusReason := reason_resumed, g_turnsUsed := 0,
                        g_blockedStreak := 0, g_updatedAt := now \<rparr>))"

definition reactivateGoal :: "GoalPayload \<Rightarrow> string option \<Rightarrow> bool option \<Rightarrow> int \<Rightarrow> GoalPayload option" where
  "reactivateGoal goal objective file now =
     (if isFinal goal then None
      else let n1 = (case objective of Some s \<Rightarrow> goal \<lparr> g_objective := s \<rparr> | None \<Rightarrow> goal);
               n2 = (case file of Some b \<Rightarrow> n1 \<lparr> g_objectiveFile := b \<rparr> | None \<Rightarrow> n1)
           in Some (n2 \<lparr> g_status := Active, g_statusReason := reason_resumed, g_turnsUsed := 0,
                         g_blockedStreak := 0, g_auditFailStreak := 0, g_updatedAt := now \<rparr>))"

definition settleGoal :: "GoalPayload \<Rightarrow> SettleStatus \<Rightarrow> string \<Rightarrow> string option \<Rightarrow> int \<Rightarrow> GoalPayload option" where
  "settleGoal goal status reason nt now =
     (if g_status goal = settle_status status then None
      else let n1 = goal \<lparr> g_status := settle_status status, g_statusReason := take REASON_CHAR_LIMIT reason,
                           g_blockedStreak := 0, g_auditFailStreak := 0 \<rparr>;
               n2 = (case nt of Some s \<Rightarrow> n1 \<lparr> g_note := take NOTE_CHAR_LIMIT s \<rparr> | None \<Rightarrow> n1)
           in Some (n2 \<lparr> g_updatedAt := now \<rparr>))"

definition continueGoal :: "GoalPayload \<Rightarrow> int \<Rightarrow> GoalPayload" where
  "continueGoal goal now = goal \<lparr> g_turnsUsed := g_turnsUsed goal + 1, g_statusReason := [], g_updatedAt := now \<rparr>"

fun applyGoalEvent :: "nat list \<Rightarrow> int \<Rightarrow> GoalPayload option \<Rightarrow> GoalEvent \<Rightarrow> GoalPayload option" where
  "applyGoalEvent rnd now goal (EvArm objective file budget) = armGoal rnd now objective file budget goal"
| "applyGoalEvent rnd now None ev = None"
| "applyGoalEvent rnd now (Some goal) EvTick = (if g_status goal = Active then Some goal else None)"
| "applyGoalEvent rnd now (Some goal) (EvSettle st reason nt) = settleGoal goal st reason nt now"
| "applyGoalEvent rnd now (Some goal) (EvPause reason) =
     pauseGoal goal (case reason of Some r \<Rightarrow> r | None \<Rightarrow> pausedAfterAbort) now"
| "applyGoalEvent rnd now (Some goal) EvResume = resumeGoal goal now"
| "applyGoalEvent rnd now (Some goal) (EvReactivate objective file) = reactivateGoal goal objective file now"
| "applyGoalEvent rnd now (Some goal) EvContinue =
     (if g_status goal = Active then Some (continueGoal goal now) else None)"

fun notificationTitle :: "GoalStatus \<Rightarrow> string option" where
  "notificationTitle Complete = Some ''Goal complete''"
| "notificationTitle BudgetLimited = Some ''Goal reached its token budget''"
| "notificationTitle Blocked = Some ''Goal blocked''"
| "notificationTitle _ = None"

section \<open>Fitting an over-long objective\<close>

definition TRIM_MARKER :: string where
  "TRIM_MARKER = [LF, LF] @ ''[. objective trimmed for the auditor - the full prompt was delivered in the chat message .]'' @ [LF, LF]"

definition headTailExcerpt :: "string \<Rightarrow> nat \<Rightarrow> string \<Rightarrow> string" where
  "headTailExcerpt raw budget marker =
     (let body = budget - length marker;
          head = take (body div 2) raw;
          tailSpan = min (length raw - length head) (body - length head);
          tail = (if tailSpan > 0 then drop (length raw - tailSpan) raw else [])
      in head @ marker @ tail)"

record FittedObjective =
  fo_text :: string
  fo_distilled :: bool
  fo_fallback :: bool

text \<open>The answer of the small-model port: it is absent (\<open>None\<close>), it throws
  (\<open>Inl\<close>), or it answers a string or \<open>null\<close>.\<close>

definition fitObjective :: "(string \<Rightarrow> unit + string option) option \<Rightarrow> string \<Rightarrow> FittedObjective" where
  "fitObjective generate raw =
     (if length raw \<le> GOAL_OBJECTIVE_CHAR_LIMIT then \<lparr> fo_text = raw, fo_distilled = False, fo_fallback = False \<rparr>
      else let criteria = (case generate of
                             Some gen \<Rightarrow> (case gen raw of Inr (Some s) \<Rightarrow> trim s | _ \<Rightarrow> [])
                           | None \<Rightarrow> [])
           in if criteria \<noteq> [] then \<lparr> fo_text = take DISTILLED_OBJECTIVE_CHAR_LIMIT criteria, fo_distilled = True, fo_fallback = False \<rparr>
              else \<lparr> fo_text = headTailExcerpt raw DISTILLED_OBJECTIVE_CHAR_LIMIT TRIM_MARKER, fo_distilled = False, fo_fallback = True \<rparr>)"

section \<open>Well-formed goals\<close>

definition wf_goal :: "GoalPayload \<Rightarrow> bool" where
  "wf_goal g \<longleftrightarrow> g_id g \<noteq> [] \<and> trim (g_id g) = g_id g \<and>
     length (g_objective g) \<le> GOAL_OBJECTIVE_CHAR_LIMIT \<and> (trim (g_objective g) \<noteq> [] \<or> g_objectiveFile g) \<and>
     (case g_objectiveFileKey g of Some k \<Rightarrow> is_file_key k | None \<Rightarrow> True) \<and>
     (case g_tokenBudget g of Some b \<Rightarrow> 1 \<le> b \<and> b \<le> TOKEN_BUDGET_MAX | None \<Rightarrow> True) \<and>
     0 \<le> g_tokensUsed g \<and> 0 \<le> g_tokensBaseline g \<and> 0 \<le> g_tokensCommitted g \<and>
     0 \<le> g_turnsUsed g \<and> 0 \<le> g_blockedStreak g \<and> 0 \<le> g_auditFailStreak g \<and>
     length (g_note g) \<le> NOTE_CHAR_LIMIT \<and> length (g_statusReason g) \<le> REASON_CHAR_LIMIT \<and>
     length (g_evaluationProviderID g) \<le> 200 \<and> length (g_evaluationModelID g) \<le> 200 \<and>
     length (g_lastAccountedMessageID g) \<le> 200 \<and> 0 \<le> g_createdAt g \<and> 0 < g_updatedAt g"

subsection \<open>Trimmed strings\<close>

lemma trim_end_prefix: "\<exists>ws. s = trim_end s @ ws"
  by (metis append_eq_conv_conj rev_append rev_rev_ident takeWhile_dropWhile_id trim_end_def)

lemma trim_end_idem [simp]: "trim_end (trim_end s) = trim_end s"
  by (simp add: trim_end_def)

lemma trim_start_unspaced: "\<not> js_space c \<Longrightarrow> trim_start (c # s) = c # s"
  by (simp add: trim_start_def)

lemma trim_idem [simp]: "trim (trim s) = trim s"
proof (cases "trim s")
  case Nil
  then show ?thesis by (simp only: Nil) (simp add: trim_def trim_start_def trim_end_def)
next
  case (Cons c t)
  obtain ws where ws: "trim_start s = trim s @ ws" using trim_end_prefix [of "trim_start s"] by (auto simp: trim_def)
  then have "trim_start s = c # (t @ ws)" using Cons by simp
  then have "\<not> js_space c" by (metis dropWhile_eq_Cons_conv trim_start_def)
  then have "trim_start (trim s) = trim s" using Cons by (simp add: trim_start_unspaced)
  then show ?thesis by (metis trim_def trim_end_idem)
qed

lemma trim_unspaced: "list_all (\<lambda>c. \<not> js_space c) s \<Longrightarrow> trim s = s"
proof -
  have "dropWhile js_space xs = xs" if "list_all (\<lambda>c. \<not> js_space c) xs" for xs
    using that by (cases xs) auto
  moreover assume "list_all (\<lambda>c. \<not> js_space c) s"
  ultimately show ?thesis by (simp add: trim_def trim_start_def trim_end_def)
qed

lemma trim_Nil_iff: "trim s = [] \<longleftrightarrow> (\<forall>c \<in> set s. js_space c)"
proof -
  have "trim s = [] \<longleftrightarrow> (\<forall>c \<in> set (dropWhile js_space s). js_space c)"
    by (simp add: trim_def trim_start_def trim_end_def)
  also have "\<dots> \<longleftrightarrow> dropWhile js_space s = []"
  proof (cases "dropWhile js_space s")
    case (Cons c r)
    then have "\<not> js_space c" by (metis dropWhile_eq_Cons_conv)
    then show ?thesis unfolding Cons by simp
  next
    case Nil
    show ?thesis unfolding Nil by simp
  qed
  finally show ?thesis by simp
qed

lemma trim_blank [simp]: "trim (replicate n CHR '' '') = []"
  by (simp add: trim_def trim_start_def trim_end_def js_space_def dropWhile_eq_Nil_conv)

lemma alnum_unspaced: "is_alnum c \<Longrightarrow> \<not> js_space c"
  by (auto simp: js_space_def is_alnum_def)

lemma radix36_alnum: "list_all is_alnum (radix36 n)"
proof (induction n rule: radix36.induct)
  case (1 n)
  have "is_alnum (if n mod 36 < 10 then char_of (48 + n mod 36) else char_of (87 + n mod 36))"
  proof -
    have "n mod 36 < 36" by simp
    then show ?thesis by (auto simp: is_alnum_def)
  qed
  then show ?case using 1 by (subst radix36.simps) (auto simp: Let_def)
qed

lemma newGoalId_alnum: "list_all is_alnum (newGoalId rnd now)"
  using radix36_alnum to_hex_alnum by (auto simp: newGoalId_def list_all_iff)

lemma newGoalId_trimmed: "trim (newGoalId rnd now) = newGoalId rnd now" "newGoalId rnd now \<noteq> []"
proof -
  show "trim (newGoalId rnd now) = newGoalId rnd now"
    using newGoalId_alnum by (auto intro!: trim_unspaced simp: list_all_iff alnum_unspaced)
  show "newGoalId rnd now \<noteq> []" by (simp add: newGoalId_def radix36.simps [of "nat now"] Let_def)
qed

subsection \<open>Reading a payload back\<close>

lemma parseStatus_name [simp]: "parseStatus (Some (JStr (goal_status_name st))) = Some st"
  by (cases st) (simp_all add: GOAL_STATUSES_def)

lemma math_trunc_int [simp]: "math_trunc (of_int n) = n"
  by (simp add: math_trunc_def)

lemma goal_field_lookup:
  "map_of (goal_fields g) ''id'' = Some (JStr (g_id g))"
  "map_of (goal_fields g) ''objective'' = Some (JStr (g_objective g))"
  "map_of (goal_fields g) ''objectiveFile'' = Some (JBool (g_objectiveFile g))"
  "map_of (goal_fields g) ''objectiveFileKey'' = map_option JStr (g_objectiveFileKey g)"
  "map_of (goal_fields g) ''status'' = Some (JStr (goal_status_name (g_status g)))"
  "map_of (goal_fields g) ''tokenBudget'' = Some (case g_tokenBudget g of Some b \<Rightarrow> GInt b | None \<Rightarrow> JNull)"
  "map_of (goal_fields g) ''tokensUsed'' = Some (GInt (g_tokensUsed g))"
  "map_of (goal_fields g) ''tokensBaseline'' = Some (GInt (g_tokensBaseline g))"
  "map_of (goal_fields g) ''tokensCommitted'' = Some (GInt (g_tokensCommitted g))"
  "map_of (goal_fields g) ''turnsUsed'' = Some (GInt (g_turnsUsed g))"
  "map_of (goal_fields g) ''blockedStreak'' = Some (GInt (g_blockedStreak g))"
  "map_of (goal_fields g) ''auditFailStreak'' = Some (GInt (g_auditFailStreak g))"
  "map_of (goal_fields g) ''note'' = Some (JStr (g_note g))"
  "map_of (goal_fields g) ''statusReason'' = Some (JStr (g_statusReason g))"
  "map_of (goal_fields g) ''evaluationProviderID'' = Some (JStr (g_evaluationProviderID g))"
  "map_of (goal_fields g) ''evaluationModelID'' = Some (JStr (g_evaluationModelID g))"
  "map_of (goal_fields g) ''lastAccountedMessageID'' = Some (JStr (g_lastAccountedMessageID g))"
  "map_of (goal_fields g) ''createdAt'' = Some (GInt (g_createdAt g))"
  "map_of (goal_fields g) ''updatedAt'' = Some (GInt (g_updatedAt g))"
  by (cases "g_objectiveFileKey g"; simp add: goal_fields_def)+

lemma parse_key_back [simp]:
  "parse_file_key (map_option JStr k) = k \<longleftrightarrow> (case k of Some s \<Rightarrow> is_file_key s | None \<Rightarrow> True)"
  by (cases k) auto

lemma parse_budget_back [simp]:
  "parseTokenBudget (Some (case b of Some n \<Rightarrow> GInt n | None \<Rightarrow> JNull)) = b \<longleftrightarrow>
     (case b of Some n \<Rightarrow> 1 \<le> n \<and> n \<le> TOKEN_BUDGET_MAX | None \<Rightarrow> True)"
  by (cases b) (auto simp: Let_def)

lemma clamp_back [simp]: "clampText (Some (JStr s)) n = s \<longleftrightarrow> length s \<le> n"
  by (simp add: take_all_iff)

lemma int_back [simp]: "nonNegativeInt (Some (GInt n)) = n \<longleftrightarrow> 0 \<le> n" "goal_timestamp (Some (GInt n)) = n \<longleftrightarrow> 0 \<le> n"
  by auto

lemma nonNegativeInt_ge [simp]: "0 \<le> nonNegativeInt v" "0 \<le> goal_timestamp v"
  by (cases v rule: nonNegativeInt.cases; simp)+

lemma clamp_length [simp]: "length (clampText v n) \<le> n"
  by (cases "(v, n)" rule: clampText.cases) auto

lemma parse_key_ok: "case parse_file_key v of Some k \<Rightarrow> is_file_key k | None \<Rightarrow> True"
  by (cases v rule: parse_file_key.cases) auto

lemma parse_budget_ok: "case parseTokenBudget v of Some b \<Rightarrow> 1 \<le> b \<and> b \<le> TOKEN_BUDGET_MAX | None \<Rightarrow> True"
  by (cases v rule: parseTokenBudget.cases) (auto simp: Let_def)

lemma parse_updated_pos: "0 < now \<Longrightarrow> 0 < parse_updated now u c"
  using nonNegativeInt_ge(2) [of u] nonNegativeInt_ge(2) [of c]
  by (simp add: parse_updated_def order_less_le)

lemma parse_updated_back [simp]:
  assumes "0 < now" "0 \<le> c"
  shows "parse_updated now (Some (GInt u)) (Some (GInt c)) = u \<longleftrightarrow> 0 < u"
  using assms by (auto simp: parse_updated_def)

lemma parse_SomeD:
  assumes "parseGoalPayload now raw = Some g"
  shows "\<exists>kvs i st. raw = Some (JObj kvs) \<and> g = goal_of_fields now (map_of kvs) (trim i) st \<and> trim i \<noteq> [] \<and>
     (trim (g_objective g) \<noteq> [] \<or> g_objectiveFile g)"
proof -
  obtain kvs where raw: "raw = Some (JObj kvs)"
    using assms by (cases "(now, raw)" rule: parseGoalPayload.cases) auto
  show ?thesis
    using assms unfolding raw
    by (auto simp: Let_def goal_of_fields_def split: option.split_asm json.split_asm if_split_asm)
qed

lemma parsed_wf:
  assumes now: "0 < now" and parsed: "parseGoalPayload now raw = Some g"
  shows "wf_goal g"
proof -
  obtain kvs i st where g: "g = goal_of_fields now (map_of kvs) (trim i) st" "trim i \<noteq> []"
      "trim (g_objective g) \<noteq> [] \<or> g_objectiveFile g"
    using parse_SomeD [OF parsed] by blast
  show ?thesis
    using g(2,3) parse_updated_pos [OF now] parse_key_ok parse_budget_ok
    by (simp add: wf_goal_def) (simp add: g(1) goal_of_fields_def)
qed

lemma parse_wf_back:
  assumes now: "0 < now" and wf: "wf_goal g"
  shows "parseGoalPayload now (Some (goal_json g)) = Some g"
proof -
  have fields: "goal_of_fields now (map_of (goal_fields g)) (g_id g) (g_status g) = g"
    using wf now
    by (simp add: goal_of_fields_def goal_field_lookup wf_goal_def del: clampText.simps nonNegativeInt.simps
        goal_timestamp.simps parseTokenBudget.simps parse_file_key.simps)
  have "trim (g_id g) = g_id g" "g_id g \<noteq> []" "trim (g_objective g) = [] \<longrightarrow> g_objectiveFile g"
      "length (g_objective g) \<le> GOAL_OBJECTIVE_CHAR_LIMIT"
    using wf by (auto simp: wf_goal_def)
  then show ?thesis using fields
    by (simp add: goal_field_lookup Let_def del: parseStatus.simps)
qed

lemma parse_back: "0 < now \<Longrightarrow> parseGoalPayload now (Some (goal_json g)) = Some g \<longleftrightarrow> wf_goal g"
  using parsed_wf parse_wf_back by blast

text \<open>C27.
  Goals survive storage. Every payload the parser returns is well formed: a trimmed
  id, an objective or an objective file, texts within their limits, counters that are
  not negative, a budget between one and the maximum. And the well-formed payloads
  are exactly those which the parser reads back unchanged from the record they were
  written to, so reading and rewriting a goal never drifts.\<close>

theorem parsed_goals_read_back:
  assumes "0 < now"
  shows "(parseGoalPayload now raw = Some g \<longrightarrow> wf_goal g) \<and>
         (wf_goal g \<longleftrightarrow> parseGoalPayload now (Some (goal_json g)) = Some g)"
  using assms parsed_wf parse_back by blast

definition sample_goal :: GoalPayload where
  "sample_goal = buildGoalPayload ''goal-1'' ''ship it'' False None (Some (GInt 7500)) 1000"

lemma sample_goal_wf [simp]: "wf_goal sample_goal"
  by (simp add: wf_goal_def sample_goal_def buildGoalPayload_def goal_limit_defs trim_def trim_start_def trim_end_def
      js_space_def math_trunc_def)

theorem parsed_goals_read_back_witness:
  "parseGoalPayload 5 (Some (goal_json sample_goal)) = Some sample_goal \<and>
   parseGoalPayload 5 (Some (goal_json (sample_goal \<lparr> g_turnsUsed := -1 \<rparr>))) \<noteq> Some (sample_goal \<lparr> g_turnsUsed := -1 \<rparr>)"
proof -
  have "\<not> wf_goal (sample_goal \<lparr> g_turnsUsed := -1 \<rparr>)" by (simp add: wf_goal_def)
  then show ?thesis
    using parsed_goals_read_back [of 5 None sample_goal]
      parsed_goals_read_back [of 5 None "sample_goal \<lparr> g_turnsUsed := -1 \<rparr>"]
    by (simp del: parseGoalPayload.simps)
qed

section \<open>The goal in the metadata\<close>

lemma merge_lookup:
  "map_of (mergeGoalIntoMetadata md g) GOAL_NAMESPACE =
     Some (JObj (AList.update GOAL_METADATA_KEY (goal_json g) (readNamespace md)))"
  "k \<noteq> GOAL_NAMESPACE \<Longrightarrow> map_of (mergeGoalIntoMetadata md g) k = map_of md k"
  by (simp_all add: mergeGoalIntoMetadata_def update_conv')

text \<open>
  Writing a goal into the metadata of a session and reading it back gives the goal;
  no other key of the metadata or of the namespace changes. Removing it again leaves
  no goal, and of the namespace every other key.\<close>

theorem metadata_merge_is_local:
  assumes wf: "wf_goal g" and now: "0 < now" and md: "opt_prop rec ''metadata'' = Some (JObj (mergeGoalIntoMetadata md g))"
  shows "getSessionGoal now rec = Some g"
    and "k \<noteq> GOAL_NAMESPACE \<Longrightarrow> map_of (mergeGoalIntoMetadata md g) k = map_of md k"
    and "k \<noteq> GOAL_METADATA_KEY \<Longrightarrow> map_of (readNamespace (mergeGoalIntoMetadata md g)) k = map_of (readNamespace md) k"
    and "map_of (readNamespace (removeGoalFromMetadata (mergeGoalIntoMetadata md g))) =
           (map_of (readNamespace md)) (GOAL_METADATA_KEY := None)"
proof -
  show "getSessionGoal now rec = Some g"
    using parse_wf_back [OF now wf] by (simp add: getSessionGoal_def md merge_lookup update_conv')
  show "map_of (mergeGoalIntoMetadata md g) k = map_of md k" if "k \<noteq> GOAL_NAMESPACE"
    using that by (rule merge_lookup)
  show "map_of (readNamespace (mergeGoalIntoMetadata md g)) k = map_of (readNamespace md) k" if "k \<noteq> GOAL_METADATA_KEY"
    using that by (simp add: readNamespace_def [of "mergeGoalIntoMetadata md g"] merge_lookup update_conv')
  let ?rest = "AList.delete GOAL_METADATA_KEY (readNamespace (mergeGoalIntoMetadata md g))"
  have rest: "map_of ?rest = (map_of (readNamespace md)) (GOAL_METADATA_KEY := None)"
    by (simp add: readNamespace_def [of "mergeGoalIntoMetadata md g"] merge_lookup update_conv' delete_conv' restrict_map_def fun_eq_iff)
  show "map_of (readNamespace (removeGoalFromMetadata (mergeGoalIntoMetadata md g))) =
           (map_of (readNamespace md)) (GOAL_METADATA_KEY := None)"
  proof (cases "?rest = []")
    case True
    then have "(map_of (readNamespace md)) (GOAL_METADATA_KEY := None) = Map.empty" using rest by simp
    then show ?thesis using True
      by (simp add: removeGoalFromMetadata_def readNamespace_def [of "AList.delete _ _"] delete_conv')
  next
    case False
    then show ?thesis using rest
      by (simp add: removeGoalFromMetadata_def Let_def readNamespace_def [of "AList.update _ _ _"] update_conv')
  qed
qed

section \<open>Runs of the state machine\<close>

text \<open>A refused event leaves the goal as it is: the caller writes nothing.\<close>

definition goal_step :: "nat list \<times> int \<times> GoalEvent \<Rightarrow> GoalPayload option \<Rightarrow> GoalPayload option" where
  "goal_step e goal = (case e of (rnd, now, ev) \<Rightarrow>
     (case applyGoalEvent rnd now goal ev of Some g \<Rightarrow> Some g | None \<Rightarrow> goal))"

definition goal_run :: "(nat list \<times> int \<times> GoalEvent) list \<Rightarrow> GoalPayload option \<Rightarrow> GoalPayload option" where
  "goal_run es goal = fold goal_step es goal"

text \<open>An objective that still has text after the cut to the limit, or a file in its place.\<close>

definition objective_ok :: "string \<Rightarrow> bool \<Rightarrow> bool" where
  "objective_ok objective file \<longleftrightarrow> trim (take GOAL_OBJECTIVE_CHAR_LIMIT objective) \<noteq> [] \<or> file"

fun event_ok :: "GoalPayload option \<Rightarrow> GoalEvent \<Rightarrow> bool" where
  "event_ok _ (EvArm objective file _) = objective_ok objective (file = Some True)"
| "event_ok (Some g) (EvReactivate objective file) =
     (let s = (case objective of Some s \<Rightarrow> s | None \<Rightarrow> g_objective g);
          f = (case file of Some b \<Rightarrow> b | None \<Rightarrow> g_objectiveFile g)
      in length s \<le> GOAL_OBJECTIVE_CHAR_LIMIT \<and> (trim s \<noteq> [] \<or> f))"
| "event_ok _ _ = True"

fun goal_run_ok :: "(nat list \<times> int \<times> GoalEvent) list \<Rightarrow> GoalPayload option \<Rightarrow> bool" where
  "goal_run_ok [] goal = True"
| "goal_run_ok ((rnd, now, ev) # es) goal = (0 < now \<and> event_ok goal ev \<and> goal_run_ok es (goal_step (rnd, now, ev) goal))"

lemma built_goal_wf:
  assumes "objective_ok objective file" "0 < now"
  shows "wf_goal (buildGoalPayload (newGoalId rnd now) objective file None budget now)"
  using assms parse_budget_ok [of budget] newGoalId_trimmed
  by (simp add: wf_goal_def buildGoalPayload_def objective_ok_def)

lemma settle_wf:
  "wf_goal g \<Longrightarrow> 0 < now \<Longrightarrow> settleGoal g st reason nt now = Some g' \<Longrightarrow> wf_goal g'"
  by (cases nt) (auto simp: settleGoal_def Let_def wf_goal_def split: if_splits)

lemma active_again_wf:
  "wf_goal g \<Longrightarrow> 0 < now \<Longrightarrow>
     wf_goal (g \<lparr> g_status := Active, g_statusReason := reason_resumed, g_turnsUsed := 0, g_blockedStreak := 0, g_updatedAt := now \<rparr>)"
  by (simp add: wf_goal_def reason_resumed_def REASON_CHAR_LIMIT_def)

lemma objective_wf:
  "wf_goal g \<Longrightarrow> length s \<le> GOAL_OBJECTIVE_CHAR_LIMIT \<Longrightarrow> trim s \<noteq> [] \<or> f \<Longrightarrow>
     wf_goal (g \<lparr> g_objective := s, g_objectiveFile := f \<rparr>)"
  by (auto simp: wf_goal_def)

lemma reactivateGoal_eq:
  "reactivateGoal g objective fl now =
     (if isFinal g then None
      else Some (g \<lparr> g_objective := (case objective of Some s \<Rightarrow> s | None \<Rightarrow> g_objective g),
        g_objectiveFile := (case fl of Some b \<Rightarrow> b | None \<Rightarrow> g_objectiveFile g),
        g_status := Active, g_statusReason := reason_resumed, g_turnsUsed := 0, g_blockedStreak := 0,
        g_auditFailStreak := 0, g_updatedAt := now \<rparr>))"
  by (cases objective; cases fl) (simp_all add: reactivateGoal_def Let_def)

lemma reactivate_wf:
  assumes "wf_goal g" "0 < now" "event_ok (Some g) (EvReactivate objective fl)" "reactivateGoal g objective fl now = Some g'"
  shows "wf_goal g'"
proof -
  define s where "s = (case objective of Some s \<Rightarrow> s | None \<Rightarrow> g_objective g)"
  define f where "f = (case fl of Some b \<Rightarrow> b | None \<Rightarrow> g_objectiveFile g)"
  have "length s \<le> GOAL_OBJECTIVE_CHAR_LIMIT" "trim s \<noteq> [] \<or> f"
    using assms(3) by (simp_all add: s_def f_def Let_def)
  then show ?thesis
    using assms(1,2,4) unfolding reactivateGoal_eq s_def [symmetric] f_def [symmetric]
    by (auto simp: wf_goal_def reason_resumed_def REASON_CHAR_LIMIT_def split: if_split_asm)
qed

lemma pause_wf: "wf_goal g \<Longrightarrow> 0 < now \<Longrightarrow> pauseGoal g reason now = Some g' \<Longrightarrow> wf_goal g'"
  by (auto simp: pauseGoal_def wf_goal_def split: if_split_asm)

lemma resume_wf: "wf_goal g \<Longrightarrow> 0 < now \<Longrightarrow> resumeGoal g now = Some g' \<Longrightarrow> wf_goal g'"
  by (auto simp: resumeGoal_def wf_goal_def reason_resumed_def REASON_CHAR_LIMIT_def split: if_split_asm)

lemma continue_wf: "wf_goal g \<Longrightarrow> 0 < now \<Longrightarrow> wf_goal (continueGoal g now)"
  by (auto simp: continueGoal_def wf_goal_def)

lemma event_keeps_wf:
  assumes wf: "\<forall>g. goal = Some g \<longrightarrow> wf_goal g" and now: "0 < now" and ok: "event_ok goal ev"
    and ev: "applyGoalEvent rnd now goal ev = Some g'"
  shows "wf_goal g'"
proof (cases ev)
  case (EvArm objective fl budget)
  then show ?thesis using ok ev built_goal_wf [OF _ now] by (auto simp: armGoal_def split: if_split_asm)
next
  case EvTick
  then show ?thesis using ev wf by (cases goal) (auto split: if_split_asm)
next
  case (EvSettle st reason nt)
  then show ?thesis using ev wf settle_wf [OF _ now] by (cases goal) auto
next
  case (EvPause reason)
  then show ?thesis using ev wf pause_wf [OF _ now] by (cases goal) auto
next
  case EvResume
  then show ?thesis using ev wf resume_wf [OF _ now] by (cases goal) auto
next
  case (EvReactivate objective fl)
  then show ?thesis using ev wf ok reactivate_wf [OF _ now] by (cases goal) (auto simp del: event_ok.simps)
next
  case EvContinue
  then show ?thesis using ev wf continue_wf [OF _ now] by (cases goal) (auto split: if_split_asm)
qed

lemma run_keeps_wf:
  "goal_run_ok es goal \<Longrightarrow> \<forall>g. goal = Some g \<longrightarrow> wf_goal g \<Longrightarrow> \<forall>g. goal_run es goal = Some g \<longrightarrow> wf_goal g"
proof (induction es goal rule: goal_run_ok.induct)
  case (1 goal)
  then show ?case by (simp add: goal_run_def)
next
  case (2 rnd now ev es goal)
  have "\<forall>g. goal_step (rnd, now, ev) goal = Some g \<longrightarrow> wf_goal g"
    using event_keeps_wf [of goal now ev rnd] 2(2,3) by (auto simp: goal_step_def split: option.split_asm)
  then show ?case using 2 by (simp add: goal_run_def)
qed

fun is_arm :: "GoalEvent \<Rightarrow> bool" where
  "is_arm (EvArm _ _ _) = True"
| "is_arm _ = False"

fun is_settle :: "GoalEvent \<Rightarrow> bool" where
  "is_settle (EvSettle _ _ _) = True"
| "is_settle _ = False"

text \<open>What no event but a new arming touches: the identity of the goal and what it
  has spent.\<close>

definition ledger :: "GoalPayload \<Rightarrow> string \<times> int \<times> int option \<times> int \<times> int \<times> int \<times> string" where
  "ledger g = (g_id g, g_createdAt g, g_tokenBudget g, g_tokensUsed g, g_tokensBaseline g, g_tokensCommitted g, g_lastAccountedMessageID g)"

lemma step_keeps_ledger:
  "\<not> is_arm ev \<Longrightarrow> \<exists>g'. goal_step (rnd, now, ev) (Some g) = Some g' \<and> ledger g' = ledger g"
  by (cases ev)
    (auto simp: goal_step_def ledger_def settleGoal_def pauseGoal_def resumeGoal_def reactivateGoal_eq continueGoal_def Let_def
      split: option.splits)

lemma run_keeps_ledger:
  "\<forall>(rnd, now, ev) \<in> set es. \<not> is_arm ev \<Longrightarrow> \<exists>g'. goal_run es (Some g) = Some g' \<and> ledger g' = ledger g"
proof (induction es arbitrary: g)
  case Nil
  then show ?case by (simp add: goal_run_def)
next
  case (Cons e es)
  obtain rnd now ev where e: "e = (rnd, now, ev)" by (cases e)
  obtain g1 where "goal_step e (Some g) = Some g1" "ledger g1 = ledger g"
    using step_keeps_ledger Cons.prems by (fastforce simp: e)
  then show ?case using Cons.IH [of g1] Cons.prems by (auto simp: goal_run_def)
qed

lemma step_complete_final:
  "\<not> is_settle ev \<Longrightarrow> g_status g = Complete \<Longrightarrow> goal_step (rnd, now, ev) (Some g) = Some g"
  by (cases ev)
    (simp_all add: goal_step_def armGoal_def canArmOver_def pauseGoal_def resumeGoal_def isResumable_def reactivateGoal_def isFinal_def)

lemma run_complete_final:
  "\<forall>(rnd, now, ev) \<in> set es. \<not> is_settle ev \<Longrightarrow> g_status g = Complete \<Longrightarrow> goal_run es (Some g) = Some g"
  by (induction es) (auto simp: goal_run_def step_complete_final)

text \<open>C28.
  The state machine of a goal, over any sequence of events of which the refused ones
  write nothing. The payload stays well formed, so the parser never loses a goal, as
  long as the objectives given to it have text within the limit. No event except a new
  arming changes the id, the budget or the accounting of a goal. And a complete goal is
  left as it is by every event that does not settle it again.\<close>

theorem goal_runs_keep_payload:
  assumes start: "\<forall>g. goal = Some g \<longrightarrow> wf_goal g" and ok: "goal_run_ok es goal"
  shows "(\<forall>g'. goal_run es goal = Some g' \<longrightarrow> wf_goal g') \<and>
         (\<forall>g. goal = Some g \<longrightarrow> (\<forall>(rnd, now, ev) \<in> set es. \<not> is_arm ev) \<longrightarrow>
            (\<exists>g'. goal_run es goal = Some g' \<and> ledger g' = ledger g)) \<and>
         (\<forall>g. goal = Some g \<longrightarrow> (\<forall>(rnd, now, ev) \<in> set es. \<not> is_settle ev) \<longrightarrow> g_status g = Complete \<longrightarrow>
            goal_run es goal = Some g)"
  using run_keeps_wf [OF ok start] run_keeps_ledger run_complete_final by blast

theorem goal_runs_keep_payload_witness:
  "\<exists>g'. goal_run [([], 1, EvContinue), ([], 2, EvPause None), ([], 3, EvResume)] (Some sample_goal) = Some g' \<and>
     wf_goal g' \<and> ledger g' = ledger sample_goal"
proof -
  let ?es = "[([], 1, EvContinue), ([], 2, EvPause None), ([], 3, EvResume)] :: (nat list \<times> int \<times> GoalEvent) list"
  have "goal_run_ok ?es (Some sample_goal)" by simp
  then show ?thesis using goal_runs_keep_payload [of "Some sample_goal" ?es] by auto
qed

text \<open>
  Arming tests the whole objective for text, but stores only its first 5000
  characters: a goal whose text begins later is armed although the parser will read
  its record as no goal at all.\<close>

theorem armed_goal_is_not_parsed:
  "\<exists>g. armGoal rnd now (replicate 5000 CHR '' '' @ ''fix the build'') None None None = Some g \<and>
       parseGoalPayload now' (Some (goal_json g)) = None"
proof -
  let ?o = "replicate 5000 CHR '' '' @ ''fix the build''"
  have "CHR ''f'' \<in> set ?o" "\<not> js_space CHR ''f''" by (simp_all add: js_space_def)
  then have "trim ?o \<noteq> []" unfolding trim_Nil_iff by blast
  then have arm: "armGoal rnd now ?o None None None = Some (buildGoalPayload (newGoalId rnd now) ?o False None None now)"
    by (simp add: armGoal_def canArmOver_def)
  have "parseGoalPayload now' (Some (goal_json (buildGoalPayload i ?o False None None now))) \<noteq> Some g" for i g
  proof
    assume "parseGoalPayload now' (Some (goal_json (buildGoalPayload i ?o False None None now))) = Some g"
    from parse_SomeD [OF this] show False
      by (auto simp: goal_of_fields_def goal_field_lookup buildGoalPayload_def GOAL_OBJECTIVE_CHAR_LIMIT_def)
  qed
  then have "parseGoalPayload now' (Some (goal_json (buildGoalPayload (newGoalId rnd now) ?o False None None now))) = None"
    by (metis not_None_eq)
  then show ?thesis using arm by blast
qed

text \<open>
  The status \<open>complete\<close> is called final, but a settlement with another status is not
  refused: a completed goal can become blocked and then be resumed.\<close>

theorem complete_goal_is_settled_again:
  assumes "g_status g = Complete"
  shows "\<exists>g1 g2. applyGoalEvent rnd now (Some g) (EvSettle SettleBlocked reason nt) = Some g1 \<and> g_status g1 = Blocked \<and>
           applyGoalEvent rnd now (Some g1) EvResume = Some g2 \<and> g_status g2 = Active"
  using assms by (cases nt) (simp_all add: settleGoal_def resumeGoal_def isResumable_def)

section \<open>The excerpt of an objective\<close>

lemma length_marker: "length TRIM_MARKER = 95"
  by (simp add: TRIM_MARKER_def)

text \<open>
  An objective that fits is passed on untouched; of a longer one the auditor gets a
  text of at most 4000 characters that is not empty: either what the model distilled
  or, when that is absent, empty or failed, exactly 4000 characters of which the first
  part is the beginning of the objective and the last part its end, around the marker,
  without overlap.\<close>

theorem fitted_objective_bounded:
  "length (fo_text (fitObjective gen raw)) \<le> GOAL_OBJECTIVE_CHAR_LIMIT \<and>
   (length raw \<le> GOAL_OBJECTIVE_CHAR_LIMIT \<longrightarrow> fo_text (fitObjective gen raw) = raw) \<and>
   (length raw > GOAL_OBJECTIVE_CHAR_LIMIT \<longrightarrow>
      fo_text (fitObjective gen raw) \<noteq> [] \<and> length (fo_text (fitObjective gen raw)) \<le> DISTILLED_OBJECTIVE_CHAR_LIMIT \<and>
      fo_fallback (fitObjective gen raw) = (\<not> fo_distilled (fitObjective gen raw)) \<and>
      (fo_fallback (fitObjective gen raw) \<longrightarrow>
         length (fo_text (fitObjective gen raw)) = DISTILLED_OBJECTIVE_CHAR_LIMIT \<and>
         (\<exists>h t. h + t \<le> length raw \<and>
            fo_text (fitObjective gen raw) = take h raw @ TRIM_MARKER @ drop (length raw - t) raw)))"
proof (cases "length raw \<le> GOAL_OBJECTIVE_CHAR_LIMIT")
  case True
  then show ?thesis by (simp add: fitObjective_def)
next
  case False
  let ?f = "fitObjective gen raw"
  let ?h = 1952 and ?t = 1953
  have long: "5000 < length raw" using False by (simp add: GOAL_OBJECTIVE_CHAR_LIMIT_def)
  have ex: "headTailExcerpt raw DISTILLED_OBJECTIVE_CHAR_LIMIT TRIM_MARKER = take ?h raw @ TRIM_MARKER @ drop (length raw - ?t) raw"
    using long by (auto simp: headTailExcerpt_def DISTILLED_OBJECTIVE_CHAR_LIMIT_def length_marker Let_def min_def)
  have len: "length (take ?h raw @ TRIM_MARKER @ drop (length raw - ?t) raw) = 4000"
    using long by (simp add: length_marker)
  consider c where "c \<noteq> []" "?f = \<lparr> fo_text = take DISTILLED_OBJECTIVE_CHAR_LIMIT c, fo_distilled = True, fo_fallback = False \<rparr>"
    | "?f = \<lparr> fo_text = headTailExcerpt raw DISTILLED_OBJECTIVE_CHAR_LIMIT TRIM_MARKER, fo_distilled = False, fo_fallback = True \<rparr>"
    using False by (simp add: fitObjective_def Let_def) (metis)
  then show ?thesis
  proof cases
    case 1
    then show ?thesis using False by (simp add: DISTILLED_OBJECTIVE_CHAR_LIMIT_def GOAL_OBJECTIVE_CHAR_LIMIT_def)
  next
    case 2
    have "?h + ?t \<le> length raw" using long by simp
    then have "\<exists>h t. h + t \<le> length raw \<and> fo_text ?f = take h raw @ TRIM_MARKER @ drop (length raw - t) raw"
      using 2 ex by (metis FittedObjective.select_convs(1))
    then show ?thesis using False 2 ex len
      by (simp add: DISTILLED_OBJECTIVE_CHAR_LIMIT_def GOAL_OBJECTIVE_CHAR_LIMIT_def TRIM_MARKER_def)
  qed
qed

theorem fitted_objective_bounded_witness:
  "length (fo_text (fitObjective None (replicate 6000 CHR ''x''))) = 4000"
  using fitted_objective_bounded [of None "replicate 6000 CHR ''x''"]
  by (simp add: GOAL_OBJECTIVE_CHAR_LIMIT_def DISTILLED_OBJECTIVE_CHAR_LIMIT_def fitObjective_def Let_def)

end
