(* ===== verification/Goal_Evidence.thy ===== *)
theory Goal_Evidence
  imports Goal_State
begin

text \<open>
  Accounting of a goal from the turn receipts of the harness
  (\<open>nna-goal-evidence.ts\<close>). The evidence is raw JSON; \<open>validEvidence\<close> is the
  type guard of the code and returns the narrowed value. The decision says what the
  loop does next: wait, audit the latest turn, continue without an audit, or settle.
  \<open>settleGoal\<close> and \<open>pauseGoal\<close> may answer \<open>null\<close> and the code asserts they do not,
  so a settling decision carries an optional payload.
\<close>

section \<open>Receipts\<close>

record NnaGoalTurnReceipt =
  rc_request_id :: string
  rc_outcome :: string
  rc_tokens :: unknown
  rc_measurement :: string

record NnaGoalEvidence =
  ev_turns :: "NnaGoalTurnReceipt list"
  ev_truncated :: bool

definition PROVIDER_PROFILE_ID :: "string \<Rightarrow> bool" where
  "PROVIDER_PROFILE_ID s \<longleftrightarrow> 1 \<le> length s \<and> length s \<le> 64 \<and> list_all id_class s"

definition CONTROL_CHARACTER :: "string \<Rightarrow> bool" where
  "CONTROL_CHARACTER s \<longleftrightarrow> list_ex (\<lambda>c. (of_char c :: nat) \<le> 31 \<or> (of_char c :: nat) \<in> {127..159}) s"

definition validAffinity :: "json \<Rightarrow> bool" where
  "validAffinity turn \<longleftrightarrow>
     (case (prop_of turn ''provider_profile'', prop_of turn ''model'') of
        (None, None) \<Rightarrow> True
      | (Some (JStr profile), Some (JStr model)) \<Rightarrow>
          PROVIDER_PROFILE_ID profile \<and> length model > 0 \<and> length model \<le> 256 \<and>
          length (trim model) > 0 \<and> \<not> CONTROL_CHARACTER model
      | _ \<Rightarrow> False)"

text \<open>One round of the loop over the turns: the receipt when it passes the checks.\<close>

definition valid_turn :: "string list \<Rightarrow> json \<Rightarrow> NnaGoalTurnReceipt option" where
  "valid_turn seen turn =
     (case (prop_of turn ''request_id'', prop_of turn ''outcome'', prop_of turn ''measurement'') of
        (Some (JStr rid), Some (JStr outcome), Some (JStr measurement)) \<Rightarrow>
          if length rid = 0 \<or> length rid > 128 \<or> rid \<in> set seen \<or> \<not> validAffinity turn then None
          else Some \<lparr> rc_request_id = rid, rc_outcome = outcome, rc_tokens = prop_of turn ''tokens'', rc_measurement = measurement \<rparr>
      | _ \<Rightarrow> None)"

fun valid_turns :: "string list \<Rightarrow> json list \<Rightarrow> NnaGoalTurnReceipt list option" where
  "valid_turns seen [] = Some []"
| "valid_turns seen (turn # turns) =
     (case valid_turn seen turn of
        None \<Rightarrow> None
      | Some r \<Rightarrow> map_option ((#) r) (valid_turns (rc_request_id r # seen) turns))"

definition latest_id :: "NnaGoalTurnReceipt list \<Rightarrow> json" where
  "latest_id turns = (if turns = [] then JNull else JStr (rc_request_id (last turns)))"

definition validEvidence :: "unknown \<Rightarrow> string \<Rightarrow> NnaGoalEvidence option" where
  "validEvidence raw sessionId =
     (case plain_object raw of
        None \<Rightarrow> None
      | Some kvs \<Rightarrow>
          (case (map_of kvs ''session_id'', map_of kvs ''turns'', map_of kvs ''window_truncated'') of
             (Some (JStr sid), Some (JArr turns), Some (JBool truncated)) \<Rightarrow>
               if sid \<noteq> sessionId \<or> length turns > 200 then None
               else (case valid_turns [] turns of
                       None \<Rightarrow> None
                     | Some rs \<Rightarrow> if map_of kvs ''latest_request_id'' = Some (latest_id rs)
                                  then Some \<lparr> ev_turns = rs, ev_truncated = truncated \<rparr> else None)
           | _ \<Rightarrow> None))"

section \<open>The decision\<close>

datatype GoalEvidenceDecision =
    DWait GoalPayload
  | DAudit GoalPayload NnaGoalTurnReceipt
  | DContinue GoalPayload
  | DSettle "GoalPayload option"

definition evidence_blocked :: "GoalPayload \<Rightarrow> string \<Rightarrow> int \<Rightarrow> GoalEvidenceDecision" where
  "evidence_blocked goal reason now = DSettle (settleGoal goal SettleBlocked reason None now)"

definition is_safe :: "int \<Rightarrow> bool" where
  "is_safe n \<longleftrightarrow> \<bar>n\<bar> \<le> 9007199254740991"

text \<open>The accounting loop; \<open>None\<close> is its early return.\<close>

fun add_receipts :: "int \<Rightarrow> NnaGoalTurnReceipt list \<Rightarrow> int option" where
  "add_receipts acc [] = Some acc"
| "add_receipts acc (r # rs) =
     (case safe_int (rc_tokens r) of
        Some t \<Rightarrow>
          if \<not> is_safe acc \<or> t < 0 \<or> rc_measurement r \<notin> {''provider'', ''estimated'', ''mixed''} \<or> \<not> is_safe (acc + t)
          then None else add_receipts (acc + t) rs
      | None \<Rightarrow> None)"

fun index_of :: "string \<Rightarrow> NnaGoalTurnReceipt list \<Rightarrow> nat option" where
  "index_of c [] = None"
| "index_of c (r # rs) = (if rc_request_id r = c then Some 0 else map_option Suc (index_of c rs))"

definition cursor_index :: "GoalPayload \<Rightarrow> NnaGoalEvidence \<Rightarrow> nat option" where
  "cursor_index goal ev = (if g_lastAccountedMessageID goal \<noteq> [] then index_of (g_lastAccountedMessageID goal) (ev_turns ev) else None)"

definition fresh_turns :: "nat option \<Rightarrow> NnaGoalEvidence \<Rightarrow> NnaGoalTurnReceipt list" where
  "fresh_turns index ev = (case index of Some i \<Rightarrow> drop (Suc i) (ev_turns ev) | None \<Rightarrow> ev_turns ev)"

definition charge :: "GoalPayload \<Rightarrow> NnaGoalTurnReceipt list \<Rightarrow> int \<Rightarrow> int \<Rightarrow> GoalPayload" where
  "charge goal fresh used now =
     (if fresh \<noteq> [] \<or> g_tokensUsed goal \<noteq> used
      then let n1 = goal \<lparr> g_tokensUsed := used, g_tokensCommitted := used, g_tokensBaseline := 0 \<rparr>;
               n2 = (if fresh \<noteq> [] then n1 \<lparr> g_lastAccountedMessageID := rc_request_id (last fresh) \<rparr> else n1)
           in n2 \<lparr> g_updatedAt := now \<rparr>
      else goal)"

definition turn_failed :: "NnaGoalTurnReceipt \<Rightarrow> bool" where
  "turn_failed r \<longleftrightarrow> rc_outcome r \<notin> {''completed'', ''cancelled''}"

definition turn_cancelled :: "NnaGoalTurnReceipt \<Rightarrow> bool" where
  "turn_cancelled r \<longleftrightarrow> rc_outcome r = ''cancelled''"

text \<open>The part after the accounting: hard stops first, then the one-shot resume.\<close>

definition decide_charged ::
  "GoalPayload \<Rightarrow> NnaGoalEvidence \<Rightarrow> nat option \<Rightarrow> NnaGoalTurnReceipt list \<Rightarrow> int \<Rightarrow> GoalEvidenceDecision" where
  "decide_charged goal ev index fresh now =
     (if list_ex turn_failed fresh then evidence_blocked goal assistantTurnFailed now
      else if list_ex turn_cancelled fresh \<and> g_statusReason goal \<noteq> reason_resumed then DSettle (pauseGoal goal pausedAfterAbort now)
      else if (case g_tokenBudget goal of Some b \<Rightarrow> g_tokensUsed goal \<ge> b | None \<Rightarrow> False)
        then DSettle (settleGoal goal SettleBudgetLimited budgetReached None now)
      else if g_turnsUsed goal \<ge> MAX_AUTO_TURNS then evidence_blocked goal turnLimit now
      else if g_statusReason goal = reason_resumed \<and> fresh = [] \<and> index \<noteq> None then
        (case index of Some i \<Rightarrow>
           if i < length (ev_turns ev) \<and> (rc_outcome (ev_turns ev ! i) = ''cancelled'' \<or> rc_outcome (ev_turns ev ! i) = ''completed'')
           then DContinue goal else evidence_blocked goal assistantTurnFailed now)
      else if list_ex turn_cancelled fresh then DContinue goal
      else if fresh \<noteq> [] then DAudit goal (last fresh) else DWait goal)"

definition decideNnaGoalEvidence :: "GoalPayload \<Rightarrow> string \<Rightarrow> unknown \<Rightarrow> int \<Rightarrow> GoalEvidenceDecision" where
  "decideNnaGoalEvidence goal sessionId evidence now =
     (if g_status goal \<noteq> Active then DWait goal
      else case validEvidence evidence sessionId of
        None \<Rightarrow> evidence_blocked goal evidenceUnavailable now
      | Some ev \<Rightarrow>
          let cursor = g_lastAccountedMessageID goal; index = cursor_index goal ev
          in if cursor \<noteq> [] \<and> index = None \<or> cursor = [] \<and> ev_truncated ev then evidence_blocked goal evidenceGap now
             else let fresh = fresh_turns index ev; before = max (g_tokensUsed goal) (g_tokensCommitted goal)
                  in if \<not> is_safe before then evidence_blocked goal usageUnavailable now
                     else case add_receipts before fresh of
                            None \<Rightarrow> evidence_blocked goal usageUnavailable now
                          | Some used \<Rightarrow> decide_charged (charge goal fresh used now) ev index fresh now)"

section \<open>Receipts are charged once\<close>

definition tokens_of :: "NnaGoalTurnReceipt \<Rightarrow> int" where
  "tokens_of r = (case safe_int (rc_tokens r) of Some t \<Rightarrow> t | None \<Rightarrow> 0)"

definition goal_spent :: "GoalPayload \<Rightarrow> int" where
  "goal_spent g = max (g_tokensUsed g) (g_tokensCommitted g)"

lemma add_receipts_sum: "add_receipts n rs = Some m \<Longrightarrow> m = n + sum_list (map tokens_of rs) \<and> n \<le> m"
  by (induction n rs rule: add_receipts.induct) (auto simp: tokens_of_def split: option.split_asm if_split_asm)

lemma index_of_nth:
  "distinct (map rc_request_id rs) \<Longrightarrow> i < length rs \<Longrightarrow> index_of (rc_request_id (rs ! i)) rs = Some i"
  by (induction rs arbitrary: i) (auto simp: nth_Cons image_iff split: nat.splits)

lemma index_of_SomeD: "index_of c rs = Some i \<Longrightarrow> i < length rs \<and> rc_request_id (rs ! i) = c"
  by (induction rs arbitrary: i) (auto split: if_split_asm)

lemma charge_simps [simp]:
  "g_id (charge g fresh m now) = g_id g" "g_status (charge g fresh m now) = g_status g"
  "g_statusReason (charge g fresh m now) = g_statusReason g" "g_turnsUsed (charge g fresh m now) = g_turnsUsed g"
  "g_tokenBudget (charge g fresh m now) = g_tokenBudget g" "g_objective (charge g fresh m now) = g_objective g"
  "g_objectiveFile (charge g fresh m now) = g_objectiveFile g"
  "g_tokensUsed (charge g fresh m now) = m"
  "g_lastAccountedMessageID (charge g fresh m now) =
     (if fresh = [] then g_lastAccountedMessageID g else rc_request_id (last fresh))"
  by (auto simp: charge_def Let_def)

lemma goal_spent_charge: "fresh \<noteq> [] \<or> goal_spent g = m \<Longrightarrow> goal_spent (charge g fresh m now) = m"
  by (auto simp: charge_def goal_spent_def Let_def)

text \<open>The goal a decision hands on to the exchange, and the goal a decision has written, the
  settlements included.\<close>

fun persisted_goal :: "GoalEvidenceDecision \<Rightarrow> GoalPayload option" where
  "persisted_goal (DAudit g r) = Some g"
| "persisted_goal (DContinue g) = Some g"
| "persisted_goal _ = None"

fun written_goal :: "GoalEvidenceDecision \<Rightarrow> GoalPayload option" where
  "written_goal (DAudit g r) = Some g"
| "written_goal (DContinue g) = Some g"
| "written_goal (DSettle x) = x"
| "written_goal (DWait g) = None"

lemma decide_charged_persisted:
  "persisted_goal (decide_charged g ev index fresh now) = Some g' \<Longrightarrow> g' = g"
  by (auto simp: decide_charged_def evidence_blocked_def split: if_split_asm option.split_asm)

lemma decide_persistedD:
  assumes "persisted_goal (decideNnaGoalEvidence g sid raw now) = Some g'"
  shows "\<exists>ev used. g_status g = Active \<and> validEvidence raw sid = Some ev \<and>
           (g_lastAccountedMessageID g \<noteq> [] \<longrightarrow> cursor_index g ev \<noteq> None) \<and>
           (g_lastAccountedMessageID g = [] \<longrightarrow> \<not> ev_truncated ev) \<and> is_safe (goal_spent g) \<and>
           add_receipts (goal_spent g) (fresh_turns (cursor_index g ev) ev) = Some used \<and>
           g' = charge g (fresh_turns (cursor_index g ev) ev) used now \<and>
           decideNnaGoalEvidence g sid raw now =
             decide_charged g' ev (cursor_index g ev) (fresh_turns (cursor_index g ev) ev) now"
  using assms
  by (auto simp: decideNnaGoalEvidence_def evidence_blocked_def Let_def goal_spent_def
      split: if_split_asm option.split_asm dest: decide_charged_persisted)

text \<open>A window of the history of turns, as the harness reports it: it starts at or
  before the receipt charged last and ends after it.\<close>

definition shows_window :: "NnaGoalTurnReceipt list \<Rightarrow> string \<Rightarrow> unknown \<Rightarrow> nat \<Rightarrow> nat \<Rightarrow> nat \<Rightarrow> bool" where
  "shows_window h sid raw a q b \<longleftrightarrow> a \<le> q \<and> q < b \<and> b \<le> length h \<and>
     (case validEvidence raw sid of Some ev \<Rightarrow> ev_turns ev = drop a (take b h) | None \<Rightarrow> False)"

definition same_accounting :: "GoalPayload \<Rightarrow> GoalPayload \<Rightarrow> bool" where
  "same_accounting g g' \<longleftrightarrow> g_tokensUsed g' = g_tokensUsed g \<and> g_tokensCommitted g' = g_tokensCommitted g \<and>
     g_lastAccountedMessageID g' = g_lastAccountedMessageID g"

text \<open>Evidence that says nothing about the cursor: it is invalid, or it does not hold the cursor.\<close>

definition blind_evidence :: "GoalPayload \<Rightarrow> string \<Rightarrow> unknown \<Rightarrow> bool" where
  "blind_evidence g sid raw \<longleftrightarrow> (case validEvidence raw sid of None \<Rightarrow> True | Some ev \<Rightarrow> cursor_index g ev = None)"

text \<open>The receipts of a window that come after the cursor can be added up.\<close>

definition countable_window :: "NnaGoalTurnReceipt list \<Rightarrow> GoalPayload \<Rightarrow> nat \<Rightarrow> nat \<Rightarrow> bool" where
  "countable_window h g q b \<longleftrightarrow> is_safe (goal_spent g) \<and> add_receipts (goal_spent g) (drop (Suc q) (take b h)) \<noteq> None"

text \<open>Ticks over one history, those that settle the goal included; a tick that waits writes
  nothing. Between two ticks the other fields of the goal may change in any way, so that a settled
  goal may be active again. The position is that of the receipt charged last.\<close>

inductive accounting_run :: "NnaGoalTurnReceipt list \<Rightarrow> string \<Rightarrow> GoalPayload \<Rightarrow> nat \<Rightarrow> GoalPayload \<Rightarrow> nat \<Rightarrow> bool"
  for h sid g p where
  run_start: "accounting_run h sid g p g p"
| run_tick: "accounting_run h sid g p g1 q \<Longrightarrow> same_accounting g1 g2 \<Longrightarrow> shows_window h sid raw a q b \<Longrightarrow>
    written_goal (decideNnaGoalEvidence g2 sid raw now) = Some g3 \<Longrightarrow>
    accounting_run h sid g p g3 (if countable_window h g2 q b then b - 1 else q)"
| run_blind: "accounting_run h sid g p g1 q \<Longrightarrow> same_accounting g1 g2 \<Longrightarrow> blind_evidence g2 sid raw \<Longrightarrow>
    written_goal (decideNnaGoalEvidence g2 sid raw now) = Some g3 \<Longrightarrow> accounting_run h sid g p g3 q"

lemma fresh_of_window:
  assumes "shows_window h sid raw a q b" "validEvidence raw sid = Some ev" "distinct (map rc_request_id h)"
    "g_lastAccountedMessageID g = rc_request_id (h ! q)" "rc_request_id (h ! q) \<noteq> []"
  shows "fresh_turns (cursor_index g ev) ev = drop (Suc q) (take b h)"
proof -
  let ?w = "drop a (take b h)"
  have w: "ev_turns ev = ?w" "a \<le> q" "q < b" "b \<le> length h" using assms(1,2) by (auto simp: shows_window_def)
  have "?w ! (q - a) = h ! q" "q - a < length ?w" using w by auto
  moreover have "distinct (map rc_request_id ?w)" using assms(3) by (simp add: drop_map [symmetric] take_map [symmetric])
  ultimately have "cursor_index g ev = Some (q - a)"
    using index_of_nth [of ?w "q - a"] assms(4,5) w(1) by (simp add: cursor_index_def)
  then show ?thesis using w by (simp add: fresh_turns_def)
qed

lemma settle_accounting:
  "settleGoal g st reason None now = Some g' \<Longrightarrow> same_accounting g g'" "pauseGoal g reason now = Some g' \<Longrightarrow> same_accounting g g'"
  by (auto simp: settleGoal_def pauseGoal_def same_accounting_def Let_def split: if_split_asm)

lemma same_accounting_refl [simp]: "same_accounting g g"
  by (simp add: same_accounting_def)

lemma blocked_accounting: "written_goal (evidence_blocked g reason now) = Some g' \<Longrightarrow> same_accounting g g'"
  by (auto simp: evidence_blocked_def dest: settle_accounting)

lemma charged_accounting:
  "written_goal (decide_charged g ev index fresh now) = Some g' \<Longrightarrow> same_accounting g g'"
  by (auto simp: decide_charged_def dest: settle_accounting blocked_accounting split: if_split_asm option.split_asm)

lemma same_accounting_spent: "same_accounting g g' \<Longrightarrow> goal_spent g' = goal_spent g \<and> g_lastAccountedMessageID g' = g_lastAccountedMessageID g"
  by (simp add: same_accounting_def goal_spent_def)

lemma blind_accounts:
  assumes "blind_evidence g sid raw" "g_lastAccountedMessageID g \<noteq> []" "written_goal (decideNnaGoalEvidence g sid raw now) = Some g'"
  shows "same_accounting g g'"
proof -
  have "\<exists>reason. decideNnaGoalEvidence g sid raw now = evidence_blocked g reason now"
    using assms by (auto simp: blind_evidence_def decideNnaGoalEvidence_def Let_def split: option.split_asm if_split_asm)
  then show ?thesis using assms(3) blocked_accounting by auto
qed

lemma tick_accounts:
  assumes win: "shows_window h sid raw a q b" and dist: "distinct (map rc_request_id h)"
    and ids: "\<forall>r \<in> set h. rc_request_id r \<noteq> []" and cur: "g_lastAccountedMessageID g = rc_request_id (h ! q)"
    and dec: "written_goal (decideNnaGoalEvidence g sid raw now) = Some g'"
  shows "if countable_window h g q b
    then g_lastAccountedMessageID g' = rc_request_id (h ! (b - 1)) \<and>
      goal_spent g' = goal_spent g + sum_list (map tokens_of (drop (Suc q) (take b h)))
    else same_accounting g g'"
proof -
  have qb: "q < b" "b \<le> length h" using win by (auto simp: shows_window_def)
  obtain ev where ev: "validEvidence raw sid = Some ev" using win by (auto simp: shows_window_def split: option.split_asm)
  define fresh where "fresh = drop (Suc q) (take b h)"
  have ne: "rc_request_id (h ! q) \<noteq> []" using ids qb by simp
  have fresh: "fresh_turns (cursor_index g ev) ev = fresh"
    using fresh_of_window [OF win ev dist cur ne] by (simp add: fresh_def)
  have idx: "cursor_index g ev \<noteq> None"
  proof -
    have "rc_request_id (h ! q) \<in> rc_request_id ` set (ev_turns ev)"
      using win ev qb by (auto simp: shows_window_def in_set_conv_nth intro!: image_eqI [of _ _ "h ! q"] exI [of _ "q - a"])
    moreover have "c \<in> rc_request_id ` set rs \<Longrightarrow> index_of c rs \<noteq> None" for c rs by (induction rs) auto
    ultimately show ?thesis using cur ne by (simp add: cursor_index_def)
  qed
  have active: "g_status g = Active" using dec by (auto simp: decideNnaGoalEvidence_def split: if_split_asm)
  show ?thesis
  proof (cases "countable_window h g q b")
    case False
    then have "decideNnaGoalEvidence g sid raw now = evidence_blocked g usageUnavailable now"
      using active ev idx cur ne fresh unfolding countable_window_def fresh_def [symmetric]
      by (auto simp: decideNnaGoalEvidence_def Let_def goal_spent_def)
    then show ?thesis using dec blocked_accounting False by simp
  next
    case True
    then obtain used where u: "add_receipts (goal_spent g) fresh = Some used" "is_safe (goal_spent g)"
      unfolding countable_window_def fresh_def [symmetric] by auto
    then have "decideNnaGoalEvidence g sid raw now = decide_charged (charge g fresh used now) ev (cursor_index g ev) fresh now"
      using active ev idx cur ne fresh by (cases "cursor_index g ev") (simp_all add: decideNnaGoalEvidence_def Let_def goal_spent_def)
    then have same: "same_accounting (charge g fresh used now) g'" using dec charged_accounting by metis
    have used: "used = goal_spent g + sum_list (map tokens_of fresh)" using add_receipts_sum [OF u(1)] by simp
    have last: "rc_request_id (last fresh) = rc_request_id (h ! (b - 1))" if "fresh \<noteq> []"
      using that qb by (auto simp: fresh_def last_drop last_conv_nth Suc_diff_le intro!: arg_cong [of _ _ "\<lambda>i. rc_request_id (h ! i)"])
    have "b - 1 = q" if "fresh = []" using that qb by (simp add: fresh_def)
    then show ?thesis
      using used last cur goal_spent_charge [of fresh g used now] same_accounting_spent [OF same] True
      by (cases "fresh = []") (auto simp: fresh_def [symmetric])
  qed
qed

text \<open>C14.
  Every turn is charged to the goal exactly once. Take any sequence of ticks that write the
  goal, those that settle it included, whatever windows of the history of turns the harness shows
  to them, with windows whose receipts cannot be added up and evidence that is invalid or misses
  the cursor among them, and whatever happens to the other fields of the goal in between. Then
  the cursor has not moved back, and the tokens spent have grown by the tokens of exactly the
  receipts between the first and the last cursor.\<close>

theorem receipts_charged_once:
  assumes run: "accounting_run h sid g p g' q" and dist: "distinct (map rc_request_id h)"
    and ids: "\<forall>r \<in> set h. rc_request_id r \<noteq> []"
    and start: "p < length h" "g_lastAccountedMessageID g = rc_request_id (h ! p)"
  shows "p \<le> q \<and> q < length h \<and> g_lastAccountedMessageID g' = rc_request_id (h ! q) \<and>
     goal_spent g' = goal_spent g + sum_list (map tokens_of (drop (Suc p) (take (Suc q) h)))"
  using run
proof (induction rule: accounting_run.induct)
  case run_start
  then show ?case using start by simp
next
  case (run_tick g1 q g2 raw a b now g3)
  have q: "p \<le> q" "q < b" "b \<le> length h" using run_tick(3,5) by (auto simp: shows_window_def)
  have g2: "g_lastAccountedMessageID g2 = rc_request_id (h ! q)" "goal_spent g2 = goal_spent g1"
    using run_tick(2,5) by (auto simp: same_accounting_def goal_spent_def)
  have split: "drop (Suc p) (take b h) = drop (Suc p) (take (Suc q) h) @ drop (Suc q) (take b h)"
  proof -
    have "drop (Suc p) (take b h) = take (q - p) (drop (Suc p) (take b h)) @ drop (q - p) (drop (Suc p) (take b h))"
      by (rule append_take_drop_id [symmetric])
    then show ?thesis using q by (simp add: take_drop drop_drop min_def add.commute)
  qed
  have "p \<le> b - 1" "b - 1 < length h" "Suc (b - 1) = b" using q by linarith+
  then show ?case
    using tick_accounts [OF run_tick(3) dist ids g2(1) run_tick(4)] same_accounting_spent [of g2 g3] run_tick(5) g2 split
    by (cases "countable_window h g2 q b") simp_all
next
  case (run_blind g1 q g2 raw now g3)
  have "g_lastAccountedMessageID g2 = rc_request_id (h ! q)" "goal_spent g2 = goal_spent g1" "rc_request_id (h ! q) \<noteq> []"
    using run_blind(2,5) ids by (auto simp: same_accounting_def goal_spent_def)
  then show ?case using blind_accounts [OF run_blind(3) _ run_blind(4)] same_accounting_spent [of g2 g3] run_blind(5) by simp
qed

definition sample_turn :: "string \<Rightarrow> string \<Rightarrow> int \<Rightarrow> json" where
  "sample_turn i outcome n = JObj [(''request_id'', JStr i), (''outcome'', JStr outcome), (''tokens'', GInt n), (''measurement'', JStr ''provider'')]"

definition sample_receipt :: "string \<Rightarrow> string \<Rightarrow> int \<Rightarrow> NnaGoalTurnReceipt" where
  "sample_receipt i outcome n = \<lparr> rc_request_id = i, rc_outcome = outcome, rc_tokens = Some (GInt n), rc_measurement = ''provider'' \<rparr>"

definition sample_evidence :: unknown where
  "sample_evidence = Some (JObj [(''session_id'', JStr ''ses''), (''turns'', JArr [sample_turn ''a'' ''completed'' 5, sample_turn ''b'' ''completed'' 70]),
     (''latest_request_id'', JStr ''b''), (''window_truncated'', JBool False)])"

lemma sample_evidence_valid:
  "validEvidence sample_evidence ''ses'' =
     Some \<lparr> ev_turns = [sample_receipt ''a'' ''completed'' 5, sample_receipt ''b'' ''completed'' 70], ev_truncated = False \<rparr>"
  by (simp add: validEvidence_def sample_evidence_def valid_turn_def validAffinity_def sample_turn_def sample_receipt_def latest_id_def)

definition resumed_sample :: GoalPayload where
  "resumed_sample = sample_goal \<lparr> g_lastAccountedMessageID := ''a'', g_tokensUsed := 5, g_tokensCommitted := 5 \<rparr>"

lemmas decide_sample_defs = sample_goal_def buildGoalPayload_def resumed_sample_def decideNnaGoalEvidence_def
  sample_evidence_valid cursor_index_def sample_receipt_def fresh_turns_def is_safe_def Let_def decide_charged_def
  turn_failed_def turn_cancelled_def charge_def MAX_AUTO_TURNS_def math_trunc_def TOKEN_BUDGET_MAX_def

theorem receipts_charged_once_witness:
  "\<exists>g'. accounting_run [sample_receipt ''a'' ''completed'' 5, sample_receipt ''b'' ''completed'' 70] ''ses'' resumed_sample 0 g' 1 \<and>
     goal_spent g' = 75 \<and> g_lastAccountedMessageID g' = ''b''"
proof -
  let ?h = "[sample_receipt ''a'' ''completed'' 5, sample_receipt ''b'' ''completed'' 70]"
  obtain g' where dec: "written_goal (decideNnaGoalEvidence resumed_sample ''ses'' sample_evidence 9) = Some g'"
    by (simp add: decide_sample_defs)
  have win: "shows_window ?h ''ses'' sample_evidence 0 0 2"
    by (simp add: shows_window_def sample_evidence_valid)
  have run: "accounting_run ?h ''ses'' resumed_sample 0 g' 1"
  proof -
    have "countable_window ?h resumed_sample 0 2"
      by (simp add: countable_window_def is_safe_def goal_spent_def resumed_sample_def sample_receipt_def)
    then show ?thesis using accounting_run.run_tick [OF accounting_run.run_start same_accounting_refl win dec] by simp
  qed
  have "resumed_sample = resumed_sample" "g_lastAccountedMessageID resumed_sample = ''a''" "goal_spent resumed_sample = 5"
    by (simp_all add: resumed_sample_def goal_spent_def)
  then show ?thesis using receipts_charged_once [OF run] run
    by (auto simp: sample_receipt_def tokens_of_def)
qed

section \<open>Hard stops\<close>

lemma settle_active:
  assumes "g_status g = Active"
  shows "\<exists>g'. settleGoal g st reason nt now = Some g' \<and> g_status g' = settle_status st \<and> g_id g' = g_id g \<and>
     g_tokensUsed g' = g_tokensUsed g \<and> g_statusReason g' = take REASON_CHAR_LIMIT reason \<and>
     g_blockedStreak g' = 0 \<and> g_auditFailStreak g' = 0"
  using assms by (cases nt; cases st) (auto simp: settleGoal_def Let_def)

text \<open>What a goal must be for the loop to act on it again: its turns charged, neither
  its budget nor its turns used up.\<close>

definition within_limits :: "GoalPayload \<Rightarrow> bool" where
  "within_limits g \<longleftrightarrow> (case g_tokenBudget g of Some b \<Rightarrow> g_tokensUsed g < b | None \<Rightarrow> True) \<and> g_turnsUsed g < MAX_AUTO_TURNS"

text \<open>The evidence is valid, the cursor is found in it and the fresh turns can be charged.\<close>

definition chargeable :: "GoalPayload \<Rightarrow> string \<Rightarrow> unknown \<Rightarrow> NnaGoalTurnReceipt list \<Rightarrow> int \<Rightarrow> bool" where
  "chargeable g sid raw fresh used \<longleftrightarrow>
     (case validEvidence raw sid of
        None \<Rightarrow> False
      | Some ev \<Rightarrow> (if g_lastAccountedMessageID g = [] then \<not> ev_truncated ev else cursor_index g ev \<noteq> None) \<and>
          is_safe (goal_spent g) \<and> fresh = fresh_turns (cursor_index g ev) ev \<and> add_receipts (goal_spent g) fresh = Some used)"

lemma chargeable_decision:
  assumes "g_status g = Active" "chargeable g sid raw fresh used"
  shows "\<exists>ev. validEvidence raw sid = Some ev \<and> decideNnaGoalEvidence g sid raw now =
           decide_charged (charge g fresh used now) ev (cursor_index g ev) fresh now"
  using assms by (auto simp: chargeable_def decideNnaGoalEvidence_def Let_def goal_spent_def split: option.split_asm if_split_asm)

lemma unchargeable_decision:
  assumes "g_status g = Active" "\<nexists>fresh used. chargeable g sid raw fresh used"
  shows "\<exists>reason. decideNnaGoalEvidence g sid raw now = evidence_blocked g reason now"
proof (cases "validEvidence raw sid")
  case None
  then show ?thesis using assms(1) by (auto simp: decideNnaGoalEvidence_def)
next
  case (Some ev)
  let ?gap = "g_lastAccountedMessageID g \<noteq> [] \<and> cursor_index g ev = None \<or> g_lastAccountedMessageID g = [] \<and> ev_truncated ev"
  have "?gap \<or> \<not> is_safe (goal_spent g) \<or> add_receipts (goal_spent g) (fresh_turns (cursor_index g ev) ev) = None"
    using assms(2) Some by (auto simp: chargeable_def split: if_split_asm)
  then show ?thesis using assms(1) Some by (auto simp: decideNnaGoalEvidence_def Let_def goal_spent_def)
qed

lemma all_completed_iff:
  "list_all (\<lambda>r. rc_outcome r = ''completed'') rs \<longleftrightarrow> \<not> list_ex turn_failed rs \<and> \<not> list_ex turn_cancelled rs"
  by (induction rs) (auto simp: turn_failed_def turn_cancelled_def)

lemma decide_charged_audit_iff:
  "decide_charged g ev index fresh now = DAudit g' r \<longleftrightarrow>
     g' = g \<and> fresh \<noteq> [] \<and> r = last fresh \<and> list_all (\<lambda>r. rc_outcome r = ''completed'') fresh \<and> within_limits g"
  by (auto simp: decide_charged_def evidence_blocked_def within_limits_def all_completed_iff not_le split: option.splits if_splits)

lemma decide_charged_continue:
  "decide_charged g ev index fresh now = DContinue g' \<Longrightarrow>
     g' = g \<and> g_statusReason g = reason_resumed \<and> within_limits g \<and> \<not> list_ex turn_failed fresh"
  by (auto simp: decide_charged_def evidence_blocked_def within_limits_def not_le split: option.split_asm if_split_asm)

lemma decide_charged_settle:
  assumes "g_status g = Active" "decide_charged g ev index fresh now = DSettle x"
  shows "\<exists>g'. x = Some g' \<and> g_id g' = g_id g \<and> g_status g' \<in> {Blocked, Paused, BudgetLimited} \<and> g_tokensUsed g' = g_tokensUsed g"
proof -
  have settled: "\<exists>g'. settleGoal g st reason None now = Some g' \<and> g_id g' = g_id g \<and> g_status g' \<in> {Blocked, Paused, BudgetLimited} \<and>
      g_tokensUsed g' = g_tokensUsed g" if "st \<noteq> SettleComplete" for st reason
    using that assms(1) by (cases st) (simp_all add: settleGoal_def)
  have paused: "\<exists>g'. pauseGoal g reason now = Some g' \<and> g_id g' = g_id g \<and> g_status g' \<in> {Blocked, Paused, BudgetLimited} \<and>
      g_tokensUsed g' = g_tokensUsed g" for reason
    using assms(1) by (simp add: pauseGoal_def)
  have "(\<exists>st reason. st \<noteq> SettleComplete \<and> x = settleGoal g st reason None now) \<or> (\<exists>reason. x = pauseGoal g reason now)"
    using assms(2) by (simp add: decide_charged_def evidence_blocked_def split: option.split_asm if_split_asm) (metis SettleStatus.distinct(1,3))+
  then show ?thesis using settled paused by blast
qed

lemma decided_settlement:
  assumes "decideNnaGoalEvidence g sid raw now = DSettle x"
  shows "\<exists>g'. x = Some g' \<and> g_id g' = g_id g \<and> g_status g' \<in> {Blocked, Paused, BudgetLimited}"
proof -
  have active: "g_status g = Active" using assms by (auto simp: decideNnaGoalEvidence_def split: if_split_asm)
  show ?thesis
  proof (cases "\<exists>fresh used. chargeable g sid raw fresh used")
    case False
    then obtain reason where "decideNnaGoalEvidence g sid raw now = evidence_blocked g reason now"
      using unchargeable_decision [OF active False] by blast
    then show ?thesis using assms settle_active [OF active, of SettleBlocked reason None now] by (auto simp: evidence_blocked_def)
  next
    case True
    then obtain fresh used ev where "decideNnaGoalEvidence g sid raw now =
        decide_charged (charge g fresh used now) ev (cursor_index g ev) fresh now"
      using chargeable_decision [OF active] by blast
    then have d: "decide_charged (charge g fresh used now) ev (cursor_index g ev) fresh now = DSettle x" using assms by simp
    have "g_status (charge g fresh used now) = Active" using active by simp
    from decide_charged_settle [OF this d] show ?thesis by auto
  qed
qed

text \<open>C15.
  The hard stops of the goal loop. An active goal is handed to the auditor exactly when
  its new turns can be charged, there is one, all of them completed, and with them
  neither the token budget nor the limit of automatic turns is reached; it continues
  without an audit only after an explicit resume and under the same limits. In all other
  cases in which the loop settles the goal the payload to write exists, has the same id
  and is blocked, paused or out of budget. A goal that is not active is left alone.\<close>

theorem loop_acts_only_within_limits:
  "((\<exists>g' r. decideNnaGoalEvidence g sid raw now = DAudit g' r) \<longleftrightarrow>
      g_status g = Active \<and> (\<exists>fresh used. chargeable g sid raw fresh used \<and> fresh \<noteq> [] \<and>
        list_all (\<lambda>r. rc_outcome r = ''completed'') fresh \<and> within_limits (charge g fresh used now))) \<and>
   (\<forall>g'. decideNnaGoalEvidence g sid raw now = DContinue g' \<longrightarrow>
      g_status g = Active \<and> g_statusReason g = reason_resumed \<and> within_limits g' \<and>
      (\<exists>fresh used. chargeable g sid raw fresh used \<and> \<not> list_ex turn_failed fresh \<and> g' = charge g fresh used now)) \<and>
   (\<forall>x. decideNnaGoalEvidence g sid raw now = DSettle x \<longrightarrow>
      g_status g = Active \<and> (\<exists>g'. x = Some g' \<and> g_id g' = g_id g \<and> g_status g' \<in> {Blocked, Paused, BudgetLimited})) \<and>
   (g_status g \<noteq> Active \<longrightarrow> decideNnaGoalEvidence g sid raw now = DWait g)"
proof (cases "g_status g = Active")
  case False
  then show ?thesis by (simp add: decideNnaGoalEvidence_def)
next
  case active: True
  show ?thesis
  proof (cases "\<exists>fresh used. chargeable g sid raw fresh used")
    case False
    obtain reason where "decideNnaGoalEvidence g sid raw now = evidence_blocked g reason now"
      using unchargeable_decision [OF active False] by blast
    then show ?thesis using False active settle_active [OF active, of SettleBlocked reason None now]
      by (auto simp: evidence_blocked_def)
  next
    case True
    then obtain fresh used where c: "chargeable g sid raw fresh used" by blast
    have unique: "fresh' = fresh \<and> used' = used" if "chargeable g sid raw fresh' used'" for fresh' used'
      using that c by (auto simp: chargeable_def split: option.split_asm)
    let ?g = "charge g fresh used now"
    obtain ev where d: "decideNnaGoalEvidence g sid raw now = decide_charged ?g ev (cursor_index g ev) fresh now"
      using chargeable_decision [OF active c] by blast
    have audit: "(\<exists>g' r. decideNnaGoalEvidence g sid raw now = DAudit g' r) \<longleftrightarrow>
        fresh \<noteq> [] \<and> list_all (\<lambda>r. rc_outcome r = ''completed'') fresh \<and> within_limits ?g"
      by (simp add: d decide_charged_audit_iff)
    have cont: "g_statusReason g = reason_resumed \<and> within_limits g' \<and> \<not> list_ex turn_failed fresh \<and> g' = ?g"
      if "decideNnaGoalEvidence g sid raw now = DContinue g'" for g'
      using decide_charged_continue [of ?g ev "cursor_index g ev" fresh now g'] that by (simp add: d)
    show ?thesis using audit cont decided_settlement active c unique by blast
  qed
qed

theorem loop_acts_only_within_limits_witness:
  "\<exists>g' r. decideNnaGoalEvidence resumed_sample ''ses'' sample_evidence 9 = DAudit g' r"
proof -
  have "chargeable resumed_sample ''ses'' sample_evidence [sample_receipt ''b'' ''completed'' 70] 75"
    by (simp add: chargeable_def sample_evidence_valid resumed_sample_def cursor_index_def sample_receipt_def is_safe_def goal_spent_def fresh_turns_def)
  moreover have "g_status resumed_sample = Active" "list_all (\<lambda>r. rc_outcome r = ''completed'') [sample_receipt ''b'' ''completed'' 70]"
      "within_limits (charge resumed_sample [sample_receipt ''b'' ''completed'' 70] 75 9)"
    by (simp_all add: resumed_sample_def sample_goal_def buildGoalPayload_def sample_receipt_def within_limits_def MAX_AUTO_TURNS_def
        math_trunc_def TOKEN_BUDGET_MAX_def)
  ultimately show ?thesis using loop_acts_only_within_limits [of resumed_sample "''ses''" sample_evidence 9] by blast
qed

end
