(* ===== verification/Goal_Server.thy ===== *)
theory Goal_Server
  imports Goal_Exchange
begin

text \<open>
  The goal loop and the harness together. The interface is a locale: what a port call
  may do to the goal and the revision the harness keeps, while other clients write at
  any moment. It holds for the harness of \<open>desktop-goal.js\<close>, whose goal write is a
  compare-and-set on id and revision, under any script of other writes and failing
  calls. From it follow what an exchange of the loop can do: it never overwrites what a
  user changed, and it sends at most one prompt, for a turn that it has counted before.
\<close>

section \<open>Payload comparisons\<close>

lemma goal_status_name_inj [simp]: "goal_status_name a = goal_status_name b \<longleftrightarrow> a = b"
  by (cases a; cases b) simp_all

lemma budget_json_inj [simp]:
  "(case a of Some n \<Rightarrow> GInt n | None \<Rightarrow> JNull) = (case b of Some n \<Rightarrow> GInt n | None \<Rightarrow> JNull) \<longleftrightarrow> a = b"
  by (cases a; cases b) simp_all

lemma no_drift_fields:
  "\<not> accountingDrift current basis \<longleftrightarrow>
     g_id current = g_id basis \<and> g_objective current = g_objective basis \<and> g_objectiveFile current = g_objectiveFile basis \<and>
     (g_objectiveFileKey basis = None \<or> g_objectiveFileKey current = g_objectiveFileKey basis) \<and>
     g_status current = g_status basis \<and> g_tokenBudget current = g_tokenBudget basis \<and>
     g_turnsUsed current = g_turnsUsed basis \<and> g_blockedStreak current = g_blockedStreak basis \<and>
     g_auditFailStreak current = g_auditFailStreak basis \<and> g_note current = g_note basis \<and>
     g_statusReason current = g_statusReason basis \<and> g_evaluationProviderID current = g_evaluationProviderID basis \<and>
     g_evaluationModelID current = g_evaluationModelID basis \<and> g_createdAt current = g_createdAt basis"
  by (cases "g_objectiveFileKey basis")
    (auto simp: accountingDrift_def goal_fields_def [of basis] goal_field_lookup ACCOUNTING_FIELDS_def)

lemma sameGoalPayload_iff [simp]: "sameGoalPayload a b \<longleftrightarrow> a = b"
proof
  assume s: "sameGoalPayload a b"
  then have len: "(g_objectiveFileKey a = None) = (g_objectiveFileKey b = None)"
    by (auto simp: sameGoalPayload_def goal_fields_def split: option.split_asm)
  have "list_all (\<lambda>(k, v). map_of (goal_fields b) k = Some v) (goal_fields a)"
    using s by (simp add: sameGoalPayload_def)
  then show "a = b" using len
    by (cases "g_objectiveFileKey a"; cases "g_objectiveFileKey b")
      (auto simp: goal_fields_def [of a] goal_field_lookup intro!: GoalPayload.equality)
next
  assume "a = b"
  have "list_all (\<lambda>(k, v). map_of (goal_fields b) k = Some v) (goal_fields b)"
    by (cases "g_objectiveFileKey b") (simp_all add: goal_fields_def [of b] goal_field_lookup)
  then show "sameGoalPayload a b" using \<open>a = b\<close> by (simp add: sameGoalPayload_def)
qed

section \<open>Reasoning about port calls\<close>

definition spec :: "'w \<Rightarrow> ('w, 'a) io \<Rightarrow> (PortError + 'a \<Rightarrow> 'w \<Rightarrow> bool) \<Rightarrow> bool" where
  "spec w m Q \<longleftrightarrow> (case m w of (r, w') \<Rightarrow> Q r w')"

lemma spec_return [simp]: "spec w (io_return x) Q = Q (Inr x) w"
  by (simp add: spec_def io_return_def)

lemma spec_throw [simp]: "spec w (io_throw e) Q = Q (Inl e) w"
  by (simp add: spec_def io_throw_def)

lemma spec_clock [simp]: "spec w (io_clock P) Q = Q (Inr (p_now P w)) w"
  by (simp add: spec_def io_clock_def)

lemma spec_bind:
  "spec w (io_bind m f) Q \<longleftrightarrow>
     spec w m (\<lambda>r w1. case r of Inl e \<Rightarrow> Q (Inl e) w1 | Inr x \<Rightarrow> spec w1 (f x) Q)"
  by (simp add: spec_def io_bind_def split: prod.splits sum.splits)

lemma spec_catch:
  "spec w (io_catch m h) Q \<longleftrightarrow>
     spec w m (\<lambda>r w1. case r of Inl e \<Rightarrow> spec w1 (h e) Q | Inr x \<Rightarrow> Q (Inr x) w1)"
  by (simp add: spec_def io_catch_def split: prod.splits sum.splits)

lemma spec_clock_bind [simp]: "spec w (io_bind (io_clock P) f) Q = spec w (f (p_now P w)) Q"
  by (simp add: spec_bind)

lemma spec_return_bind [simp]: "spec w (io_bind (io_return x) f) Q = spec w (f x) Q"
  by (simp add: spec_bind)

lemma clock_bind: "io_bind (io_clock P) f w = f (p_now P w) w"
  by (simp add: io_bind_def io_clock_def)

lemma spec_mono: "spec w m Q \<Longrightarrow> (\<And>r w'. Q r w' \<Longrightarrow> R r w') \<Longrightarrow> spec w m R"
  by (auto simp: spec_def)

lemma specD: "spec w m Q \<Longrightarrow> m w = (r, w') \<Longrightarrow> Q r w'"
  by (simp add: spec_def)

lemma spec_bind_mono:
  assumes "spec w m R" "\<And>e w1. R (Inl e) w1 \<Longrightarrow> Q (Inl e) w1" "\<And>x w1. R (Inr x) w1 \<Longrightarrow> spec w1 (f x) Q"
  shows "spec w (io_bind m f) Q"
  using assms(1) unfolding spec_bind by (rule spec_mono) (auto intro: assms(2,3) split: sum.split)

lemma spec_catch_mono:
  assumes "spec w m R" "\<And>e w1. R (Inl e) w1 \<Longrightarrow> spec w1 (h e) Q" "\<And>x w1. R (Inr x) w1 \<Longrightarrow> Q (Inr x) w1"
  shows "spec w (io_catch m h) Q"
  using assms(1) unfolding spec_catch by (rule spec_mono) (auto intro: assms(2,3) split: sum.split)

section \<open>What the loop may do\<close>

datatype Act = Applied "GoalPayload option" GoalPayload | Sent string

type_synonym Served = "GoalPayload option \<times> int"

definition before :: "(GoalPayload option \<Rightarrow> GoalPayload option \<Rightarrow> bool) \<Rightarrow> Served \<Rightarrow> Served \<Rightarrow> bool" where
  "before env x y \<longleftrightarrow> x = y \<or> snd x < snd y \<and> env (fst x) (fst y)"

text \<open>A session record that shows a goal and its revision.\<close>

definition reports :: "unknown \<Rightarrow> Served \<Rightarrow> bool" where
  "reports session x \<longleftrightarrow> (\<forall>now > 0. getSessionGoal now session = fst x) \<and>
     readGoalRevision session = (if is_safe (snd x) \<and> 0 \<le> snd x then Some (snd x) else None)"

definition keeps_user :: "GoalPayload \<Rightarrow> GoalPayload \<Rightarrow> bool" where
  "keeps_user old new \<longleftrightarrow> g_id new = g_id old \<and> g_objective new = g_objective old \<and> g_objectiveFile new = g_objectiveFile old \<and>
     (g_objectiveFileKey new = g_objectiveFileKey old \<or> g_objectiveFileKey new = None) \<and>
     g_tokenBudget new = g_tokenBudget old \<and> g_createdAt new = g_createdAt old \<and>
     g_status new \<in> {Active, Blocked, Complete}"

fun good_write :: "Act \<Rightarrow> bool" where
  "good_write (Applied (Some old) new) = (g_status old = Active \<and> keeps_user old new)"
| "good_write _ = False"

definition turns :: "GoalPayload option \<Rightarrow> int" where
  "turns g = (case g of Some x \<Rightarrow> g_turnsUsed x | None \<Rightarrow> 0)"

text \<open>The actions of one exchange: writes over an active goal that keep what the user
  owns, and at the end perhaps a prompt, right after the write that counts its turn.\<close>

definition exchange_acts :: "string \<Rightarrow> string \<Rightarrow> Act list \<Rightarrow> bool" where
  "exchange_acts rules objective acts \<longleftrightarrow>
     list_all good_write acts \<or>
     (\<exists>ws old new. acts = ws @ [Applied (Some old) new, Sent (buildGoalContinuationPrompt rules new objective)] \<and>
        list_all good_write ws \<and> good_write (Applied (Some old) new) \<and> g_status new = Active \<and>
        g_turnsUsed new = g_turnsUsed old + 1 \<and> g_turnsUsed new \<le> MAX_AUTO_TURNS)"

fun is_send :: "Act \<Rightarrow> bool" where
  "is_send (Sent _) = True"
| "is_send _ = False"

definition sends :: "Act list \<Rightarrow> int" where
  "sends acts = int (length (filter is_send acts))"

lemma sends_append [simp]: "sends (xs @ ys) = sends xs + sends ys"
  by (simp add: sends_def)

lemma sends_writes: "list_all good_write acts \<Longrightarrow> sends acts = 0"
proof (induction acts)
  case (Cons a acts)
  then show ?case by (cases a) (auto simp: sends_def)
qed (simp add: sends_def)

lemma exchange_acts_writes: "list_all good_write acts \<Longrightarrow> exchange_acts rules objective acts"
  by (simp add: exchange_acts_def)

lemma exchange_acts_prepend:
  assumes "list_all good_write ws" "exchange_acts rules objective acts"
  shows "exchange_acts rules objective (ws @ acts)"
proof (cases "list_all good_write acts")
  case True
  then show ?thesis using assms(1) by (simp add: exchange_acts_def)
next
  case False
  then obtain us old new where u: "acts = us @ [Applied (Some old) new, Sent (buildGoalContinuationPrompt rules new objective)]"
      "list_all good_write us" "good_write (Applied (Some old) new)" "g_status new = Active"
      "g_turnsUsed new = g_turnsUsed old + 1" "g_turnsUsed new \<le> MAX_AUTO_TURNS"
    using assms(2) unfolding exchange_acts_def by blast
  have "ws @ acts = (ws @ us) @ [Applied (Some old) new, Sent (buildGoalContinuationPrompt rules new objective)]"
    "list_all good_write (ws @ us)" using u(1,2) assms(1) by simp_all
  then show ?thesis using u(3-6) unfolding exchange_acts_def by blast
qed

lemma buildGoalWrite_revision:
  "buildGoalWrite now session g =
     map_option (\<lambda>n. (\<lparr> wb_goal = g, wb_expected_id = map_option g_id (getSessionGoal now session), wb_expected_revision = n \<rparr>,
       getSessionGoal now session)) (readGoalRevision session)"
proof (cases "plain_object (opt_prop session ''metadata'')")
  case None
  then show ?thesis by (simp add: readGoalRevision_def buildGoalWrite_def readMetadata_def opt_prop_def)
next
  case (Some md)
  have "opt_prop v k = (case plain_object v of Some ns \<Rightarrow> map_of ns k | None \<Rightarrow> None)" for v k
    by (cases v rule: plain_object.cases) (auto simp: opt_prop_def)
  then show ?thesis using Some
    by (auto simp: readGoalRevision_def buildGoalWrite_def readMetadata_def Let_def split: option.split)
qed

lemma buildGoalWrite_reports:
  assumes "reports session x" "0 < now"
  shows "buildGoalWrite now session g = None \<or> buildGoalWrite now session g =
     Some (\<lparr> wb_goal = g, wb_expected_id = map_option g_id (fst x), wb_expected_revision = snd x \<rparr>, fst x)"
  using assms by (simp add: buildGoalWrite_revision reports_def)

section \<open>The interface of the harness\<close>

locale goal_server =
  fixes P :: "'w GoalPorts" and srv :: "'w \<Rightarrow> Served" and acted :: "'w \<Rightarrow> Act list"
    and env :: "GoalPayload option \<Rightarrow> GoalPayload option \<Rightarrow> bool"
  assumes env_trans: "env a b \<Longrightarrow> env b c \<Longrightarrow> env a c"
    and clock: "0 < p_now P w"
    and read_session: "spec w (p_readSession P s d) (\<lambda>r w'. acted w' = acted w \<and> before env (srv w) (srv w') \<and>
          (\<forall>session. r = Inr session \<longrightarrow> (\<exists>x. before env (srv w) x \<and> before env x (srv w') \<and> reports session x)))"
    and read_messages: "spec w (p_readMessages P s d n) (\<lambda>r w'. acted w' = acted w \<and> before env (srv w) (srv w'))"
    and run_audit: "spec w (p_runAudit P s d ab) (\<lambda>r w'. acted w' = acted w \<and> before env (srv w) (srv w'))"
    and write_goal: "spec w (p_writeGoal P s d body) (\<lambda>r w'.
          acted w' = acted w \<and> before env (srv w) (srv w') \<and> r \<noteq> Inr True \<or>
          (\<exists>old new. acted w' = acted w @ [Applied old (wb_goal body)] \<and> before env (srv w) (old, wb_expected_revision body) \<and>
             before env (Some new, wb_expected_revision body + 1) (srv w') \<and> g_turnsUsed new = g_turnsUsed (wb_goal body)))"
    and send_prompt: "spec w (p_sendPrompt P s d msg) (\<lambda>r w'. before env (srv w) (srv w') \<and>
          (acted w' = acted w @ [Sent msg] \<and> r \<noteq> Inl RuntimeInactive \<or> acted w' = acted w \<and> (\<exists>e. r = Inl e)))"
begin

lemma before_refl [simp]: "before env x x"
  by (simp add: before_def)

lemma before_trans [trans]: "before env x y \<Longrightarrow> before env y z \<Longrightarrow> before env x z"
  using env_trans by (auto simp: before_def)

lemma before_snd: "before env x y \<Longrightarrow> snd x \<le> snd y"
  by (auto simp: before_def)

lemma before_same: "before env x y \<Longrightarrow> snd y \<le> snd x \<Longrightarrow> y = x"
  by (auto simp: before_def)

text \<open>Other clients never take back a counted turn.\<close>

definition no_reset :: bool where
  "no_reset \<longleftrightarrow> (\<forall>a b. env a b \<longrightarrow> turns a \<le> turns b)"

lemma before_turns: "no_reset \<Longrightarrow> before env x y \<Longrightarrow> turns (fst x) \<le> turns (fst y)"
  by (auto simp: before_def no_reset_def)

text \<open>The loop got from one world to another with these actions, and counted at least
  this many turns on balance if nobody else took any back.\<close>

definition moved :: "'w \<Rightarrow> 'w \<Rightarrow> Act list \<Rightarrow> int \<Rightarrow> bool" where
  "moved w w' acts k \<longleftrightarrow> acted w' = acted w @ acts \<and> snd (srv w) \<le> snd (srv w') \<and>
     (no_reset \<longrightarrow> turns (fst (srv w)) + k \<le> turns (fst (srv w')))"

lemma moved_quiet: "acted w' = acted w \<Longrightarrow> before env (srv w) (srv w') \<Longrightarrow> moved w w' [] 0"
  using before_snd before_turns by (auto simp: moved_def)

lemma moved_trans: "moved w w1 a k \<Longrightarrow> moved w1 w2 b l \<Longrightarrow> moved w w2 (a @ b) (k + l)"
  by (auto simp: moved_def)

lemma moved_refl [simp]: "moved w w [] 0"
  by (simp add: moved_def)

abbreviation G :: "('w \<Rightarrow> bool) \<Rightarrow> 'w GoalPorts" where
  "G cur \<equiv> guardGoalAuditExchangePorts P cur"

lemma guarded [simp]:
  "p_readSession (G cur) = p_readSession P" "p_readMessages (G cur) = p_readMessages P" "p_now (G cur) = p_now P"
  "p_recoverSkippedSend (G cur) = Some (recover_skipped P)"
  by (simp_all add: guardGoalAuditExchangePorts_def)

lemma reading:
  "spec w (p_readSession P s d) (\<lambda>r w'. moved w w' [] 0 \<and>
     (\<forall>session. r = Inr session \<longrightarrow> (\<exists>x. before env (srv w) x \<and> before env x (srv w') \<and> reports session x)))"
  by (rule spec_mono [OF read_session]) (blast intro: moved_quiet)

lemma messages_quiet: "spec w (p_readMessages P s d n) (\<lambda>r w'. moved w w' [] 0 \<and> before env (srv w) (srv w'))"
  by (rule spec_mono [OF read_messages]) (auto intro: moved_quiet)

text \<open>A write under the revision of a report replaces what the report showed.\<close>

lemma base_write:
  assumes rep: "before env x (srv w)" and body: "wb_expected_revision body = snd x"
  shows "spec w (p_writeGoal P s d body) (\<lambda>r w'. moved w w' [] 0 \<and> r \<noteq> Inr True \<or>
           moved w w' [Applied (fst x) (wb_goal body)] (g_turnsUsed (wb_goal body) - turns (fst x)))"
proof (rule spec_mono [OF write_goal], elim disjE exE conjE, goal_cases)
  case (1 r w')
  then show ?case using moved_quiet by blast
next
  case (2 r w' old new)
  have "(old, snd x) = x"
    using before_trans [OF rep 2(2)] body by (simp add: before_same)
  then have old: "old = fst x" by (metis fst_conv)
  have "snd (srv w) \<le> snd x" using before_snd [OF 2(2)] body by simp
  then have srv: "srv w = x" by (rule before_same [OF rep])
  have "snd (srv w) \<le> snd (srv w')" using before_snd [OF 2(3)] srv body by simp
  moreover have "turns (fst (srv w)) + (g_turnsUsed (wb_goal body) - turns (fst x)) \<le> turns (fst (srv w'))" if "no_reset"
    using before_turns [OF that 2(3)] srv 2(4) by (simp add: turns_def)
  ultimately show ?case using 2(1) old by (auto simp: moved_def)
qed

lemma guarded_write:
  assumes "before env x (srv w)" "wb_expected_revision body = snd x"
  shows "spec w (p_writeGoal (G cur) s d body) (\<lambda>r w'. moved w w' [] 0 \<and> r \<noteq> Inr True \<or>
           moved w w' [Applied (fst x) (wb_goal body)] (g_turnsUsed (wb_goal body) - turns (fst x)))"
proof (cases "cur w")
  case True
  then show ?thesis using base_write [OF assms, of s d] by (simp add: guardGoalAuditExchangePorts_def spec_def)
next
  case False
  then show ?thesis by (simp add: guardGoalAuditExchangePorts_def spec_def)
qed

lemma candidate_write:
  assumes rep: "reports session x" and ord: "before env x (srv w)"
  shows "spec w (writeCandidate (G cur) s d session new) (\<lambda>r w'.
           moved w w' [] 0 \<and> r \<noteq> Inr Written \<and> (r = Inr Unchanged \<longrightarrow> fst x = Some new) \<or>
           (\<exists>old. fst x = Some old \<and> moved w w' [Applied (Some old) new] (g_turnsUsed new - g_turnsUsed old) \<and> r \<noteq> Inr Unchanged))"
proof (cases "fst x")
  case None
  then show ?thesis using buildGoalWrite_reports [OF rep clock, of w new] by (auto simp: writeCandidate_def)
next
  case (Some old)
  let ?body = "\<lparr> wb_goal = new, wb_expected_id = Some (g_id old), wb_expected_revision = snd x \<rparr>"
  show ?thesis
  proof (cases "g_id old \<noteq> g_id new \<or> old = new \<or> buildGoalWrite (p_now P w) session new = None")
    case True
    then show ?thesis using buildGoalWrite_reports [OF rep clock, of w new] Some by (auto simp: writeCandidate_def)
  next
    case False
    have "buildGoalWrite (p_now P w) session new = Some (?body, Some old)"
      using buildGoalWrite_reports [OF rep clock, of w new] Some False by auto
    then have eq: "writeCandidate (G cur) s d session new w =
        io_bind (p_writeGoal (G cur) s d ?body) (\<lambda>ok. io_return (if ok then Written else Refused)) w"
      using False by (simp add: writeCandidate_def clock_bind)
    have "spec w (p_writeGoal (G cur) s d ?body) (\<lambda>r w'. moved w w' [] 0 \<and> r \<noteq> Inr True \<or>
           moved w w' [Applied (Some old) new] (g_turnsUsed new - g_turnsUsed old))"
      using guarded_write [OF ord, of ?body cur s d] Some by (simp add: turns_def)
    then have "spec w (io_bind (p_writeGoal (G cur) s d ?body) (\<lambda>ok. io_return (if ok then Written else Refused)))
        (\<lambda>r w'. moved w w' [] 0 \<and> r \<noteq> Inr Written \<and> (r = Inr Unchanged \<longrightarrow> fst x = Some new) \<or>
           (\<exists>old. fst x = Some old \<and> moved w w' [Applied (Some old) new] (g_turnsUsed new - g_turnsUsed old) \<and> r \<noteq> Inr Unchanged))"
      by (rule spec_bind_mono) (auto simp: Some)
    then show ?thesis by (simp only: spec_def eq)
  qed
qed

lemma recovery:
  "spec w (recover_skipped P s d stored prior n) (\<lambda>r w'. moved w w' [] 0 \<or>
     (\<exists>now. moved w w' [Applied (Some stored) (prior \<lparr> g_statusReason := reason_resumed, g_updatedAt := now \<rparr>)] (g_turnsUsed prior - g_turnsUsed stored)))"
  (is "spec w _ ?Q")
  unfolding recover_skipped_def
proof (rule spec_bind_mono [OF reading], goal_cases)
  case (1 e w1)
  then show ?case by simp
next
  case (2 session w1)
  then obtain x where x: "moved w w1 [] 0" "before env x (srv w1)" "reports session x" by blast
  let ?now = "p_now P w1"
  let ?new = "prior \<lparr> g_statusReason := reason_resumed, g_updatedAt := ?now \<rparr>"
  have goal: "getSessionGoal ?now session = fst x" using x(3) clock [of w1] by (auto simp: reports_def)
  show ?case
  proof (cases "fst x = Some stored \<and> readGoalRevision session = Some n")
    case True
    then have "snd x = n" using x(3) by (simp add: reports_def split: if_split_asm)
    let ?body = "\<lparr> wb_goal = ?new, wb_expected_id = map_option g_id (fst x), wb_expected_revision = snd x \<rparr>"
    have "spec w1 (p_writeGoal P s d ?body) ?Q"
    proof (rule spec_mono [OF base_write [OF x(2), of ?body s d]], goal_cases)
      case 1
      then show ?case by simp
    next
      case (2 r w')
      then show ?case using x(1) moved_trans [OF x(1)] True by (fastforce simp: turns_def)
    qed
    then show ?thesis using True goal \<open>snd x = n\<close> by (simp add: buildGoalWrite_revision)
  next
    case False
    then show ?thesis using x(1) goal by (auto split: option.split)
  qed
qed

lemma trying_recovery:
  "spec w (try_recover (G cur) s d stored prior n) (\<lambda>r w'. r = Inr () \<and> (moved w w' [] 0 \<or>
     (\<exists>now. moved w w' [Applied (Some stored) (prior \<lparr> g_statusReason := reason_resumed, g_updatedAt := now \<rparr>)] (g_turnsUsed prior - g_turnsUsed stored))))"
proof (cases n)
  case None
  then show ?thesis by (simp add: try_recover_def)
next
  case (Some m)
  show ?thesis unfolding try_recover_def Some guarded
    by (simp add: spec_catch spec_bind) (rule spec_mono [OF recovery], auto split: sum.split)
qed

lemma sending:
  "spec w (refuseOrSend E (G cur) s d new objective) (\<lambda>r w'.
     moved w w' [] 0 \<and> (\<exists>reason. r = Inr (Inl reason)) \<or>
     moved w w' [Sent (buildGoalContinuationPrompt (ae_rules E) new objective)] 0 \<and>
       (\<exists>a. r = Inr a \<and> a \<noteq> Inl ''goal runtime inactive before send''))"
proof -
  let ?msg = "buildGoalContinuationPrompt (ae_rules E) new objective"
  have send: "spec w (p_sendPrompt (G cur) s d ?msg) (\<lambda>r w'.
      moved w w' [] 0 \<and> (\<exists>e. r = Inl e) \<or> moved w w' [Sent ?msg] 0 \<and> r \<noteq> Inl RuntimeInactive)"
  proof (cases "cur w")
    case True
    have "spec w (p_sendPrompt P s d ?msg) (\<lambda>r w'.
      moved w w' [] 0 \<and> (\<exists>e. r = Inl e) \<or> moved w w' [Sent ?msg] 0 \<and> r \<noteq> Inl RuntimeInactive)"
    proof (rule spec_mono [OF send_prompt], elim conjE disjE, goal_cases)
      case (1 r w')
      then show ?case using before_snd before_turns by (auto simp: moved_def)
    next
      case (2 r w')
      then show ?case using moved_quiet by blast
    qed
    then show ?thesis using True by (simp add: guardGoalAuditExchangePorts_def spec_def)
  next
    case False
    then show ?thesis by (simp add: guardGoalAuditExchangePorts_def spec_def)
  qed
  show ?thesis unfolding refuseOrSend_def
    by (simp add: spec_catch spec_bind) (rule spec_mono [OF send], auto split: sum.split)
qed

lemma slot_send:
  "spec w (send_slot E (G cur) s d current new rvn audited objective) (\<lambda>r w'.
     moved w w' [] 0 \<or> moved w w' [Sent (buildGoalContinuationPrompt (ae_rules E) new objective)] 0 \<or>
     (\<exists>now. moved w w' [Applied (Some new) (current \<lparr> g_statusReason := reason_resumed, g_updatedAt := now \<rparr>)] (g_turnsUsed current - g_turnsUsed new)))"
  (is "spec w _ (\<lambda>r w'. ?Q w')")
  unfolding send_slot_def
proof (rule spec_bind_mono [OF sending], goal_cases)
  case (1 e w1)
  then show ?case by auto
next
  case (2 a w1)
  show ?case
  proof (cases "a = Inl ''goal runtime inactive before send''")
    case True
    then have "moved w w1 [] 0" using 2 by blast
    then have "spec w1 (try_recover (G cur) s d new current (map_option (\<lambda>r. r + 1) rvn)) (\<lambda>r w'. ?Q w')"
      by (intro spec_mono [OF trying_recovery]) (use moved_trans in fastforce)
    then show ?thesis using True by (simp add: spec_bind) (erule spec_mono, simp split: sum.split)
  next
    case False
    then show ?thesis using 2 by (cases a) auto
  qed
qed

definition fine :: "string \<Rightarrow> string \<Rightarrow> 'w \<Rightarrow> 'w \<Rightarrow> bool" where
  "fine rules objective w w' \<longleftrightarrow> (\<exists>acts k. moved w w' acts k \<and> exchange_acts rules objective acts \<and> sends acts \<le> k \<and>
     (no_reset \<longrightarrow> 0 < sends acts \<longrightarrow> turns (fst (srv w)) < MAX_AUTO_TURNS))"

lemma fine_writes: "moved w w' acts k \<Longrightarrow> list_all good_write acts \<Longrightarrow> 0 \<le> k \<Longrightarrow> fine rules objective w w'"
  unfolding fine_def using exchange_acts_writes sends_writes by (metis less_irrefl)

lemma fine_quiet: "moved w w' [] 0 \<Longrightarrow> fine rules objective w w'"
  using fine_writes [of w w' "[]" 0] by simp

lemma fine_after:
  assumes "moved w w1 ws k" "list_all good_write ws" "0 \<le> k" "fine rules objective w1 w2"
  shows "fine rules objective w w2"
proof -
  obtain acts l where a: "moved w1 w2 acts l" "exchange_acts rules objective acts" "sends acts \<le> l"
      "no_reset \<longrightarrow> 0 < sends acts \<longrightarrow> turns (fst (srv w1)) < MAX_AUTO_TURNS"
    using assms(4) by (auto simp: fine_def)
  have "turns (fst (srv w)) < MAX_AUTO_TURNS" if "no_reset" "0 < sends (ws @ acts)"
    using that a(4) assms(1,3) sends_writes [OF assms(2)] by (auto simp: moved_def)
  moreover have "sends (ws @ acts) \<le> k + l" using assms(3) a(3) sends_writes [OF assms(2)] by simp
  ultimately show ?thesis
    using moved_trans [OF assms(1) a(1)] exchange_acts_prepend [OF assms(2) a(2)] unfolding fine_def by blast
qed

lemma continue_keeps: "g_status g = Active \<Longrightarrow> good_write (Applied (Some g) (continueGoal g now))"
  by (simp add: keeps_user_def continueGoal_def)

lemma restore_keeps:
  "g_status g = Active \<Longrightarrow>
     good_write (Applied (Some (continueGoal g now)) (g \<lparr> g_statusReason := reason_resumed, g_updatedAt := now' \<rparr>)) \<and>
     good_write (Applied (Some g) (g \<lparr> g_statusReason := reason_resumed, g_updatedAt := now' \<rparr>))"
  by (simp add: keeps_user_def continueGoal_def)

lemma slot_sent_fine:
  assumes slot: "moved w w1 [Applied (Some g) (continueGoal g now)] 1"
    and g: "g_status g = Active" "g_turnsUsed g < MAX_AUTO_TURNS" "no_reset \<longrightarrow> turns (fst (srv w)) \<le> g_turnsUsed g"
  shows "spec w1 (send_slot E (G cur) s d g (continueGoal g now) rvn audited objective) (\<lambda>r w'. fine (ae_rules E) objective w w')"
proof (rule spec_mono [OF slot_send], elim disjE exE, goal_cases)
  case (1 r w')
  then show ?case using moved_trans [OF slot] fine_writes continue_keeps [OF g(1)] by fastforce
next
  case (2 r w')
  let ?n = "continueGoal g now"
  let ?acts = "[Applied (Some g) ?n, Sent (buildGoalContinuationPrompt (ae_rules E) ?n objective)]"
  have "g_status ?n = Active" "g_turnsUsed ?n = g_turnsUsed g + 1" "g_turnsUsed ?n \<le> MAX_AUTO_TURNS"
    using g by (simp_all add: continueGoal_def)
  then have "exchange_acts (ae_rules E) objective ?acts"
    using continue_keeps [OF g(1)] unfolding exchange_acts_def
    by (intro disjI2 exI [of _ "[]"] exI [of _ g] exI [of _ ?n]) simp
  moreover have "moved w w' ?acts 1" using moved_trans [OF slot 2] by simp
  moreover have "sends ?acts \<le> 1" by (simp add: sends_def)
  moreover have "no_reset \<longrightarrow> turns (fst (srv w)) < MAX_AUTO_TURNS" using g(2,3) by auto
  ultimately show ?case unfolding fine_def by blast
next
  case (3 r w' now')
  then have "moved w w' [Applied (Some g) (continueGoal g now), Applied (Some (continueGoal g now)) (g \<lparr> g_statusReason := reason_resumed, g_updatedAt := now' \<rparr>)] 0"
    using moved_trans [OF slot 3] by (simp add: continueGoal_def)
  then show ?case
    by (rule fine_writes) (use continue_keeps [OF g(1)] restore_keeps [OF g(1)] in simp_all)
qed

lemma settle_keeps:
  "g_status g = Active \<Longrightarrow> st \<noteq> SettleBudgetLimited \<Longrightarrow> settleGoal g st reason nt now = Some g' \<Longrightarrow>
     good_write (Applied (Some g) g') \<and> g_turnsUsed g' = g_turnsUsed g"
  by (cases st; cases nt) (auto simp: settleGoal_def Let_def keeps_user_def)

lemma candidate_fine:
  assumes x: "reports session x" "before env x (srv w1)" "fst x = Some old" and w: "moved w w1 [] 0"
    and keep: "good_write (Applied (Some old) new)" "g_turnsUsed new = g_turnsUsed old"
  shows "spec w1 (writeCandidate (G cur) s d session new) (\<lambda>r w'. \<exists>ws. moved w w' ws 0 \<and> list_all good_write ws)"
proof (rule spec_mono [OF candidate_write [OF x(1,2)]], elim disjE exE conjE, goal_cases)
  case (1 r w')
  then have "moved w w' [] 0" using moved_trans [OF w] by fastforce
  then show ?case by (intro exI [of _ "[]"]) simp
next
  case (2 r w' old')
  then have "moved w w' [Applied (Some old) new] 0" using moved_trans [OF w] keep(2) x(3) by fastforce
  then show ?case using keep(1) by (intro exI [of _ "[Applied (Some old) new]"]) simp
qed

text \<open>Reading the session first: what the record shows may be outdated, never wrong.\<close>

lemma after_read:
  assumes "\<And>session w1 x. moved w w1 [] 0 \<Longrightarrow> before env x (srv w1) \<Longrightarrow> reports session x \<Longrightarrow>
    before env (srv w) x \<Longrightarrow> getSessionGoal (p_now P w1) session = fst x \<Longrightarrow> spec w1 (f session) (\<lambda>r w'. fine rules objective w w')"
  shows "spec w (io_bind (p_readSession P s d) f) (\<lambda>r w'. fine rules objective w w')"
proof (rule spec_bind_mono [OF reading], goal_cases)
  case (1 e w1)
  then show ?case using fine_quiet by blast
next
  case (2 session w1)
  then obtain x where x: "moved w w1 [] 0" "before env x (srv w1)" "reports session x" "before env (srv w) x" by blast
  then show ?case using assms clock [of w1] by (simp add: reports_def)
qed

lemma dispatch_slot:
  assumes x: "reports session x" "before env x (srv w1)" "fst x = Some g" and w: "moved w w1 [] 0"
    and g: "g_status g = Active" "g_turnsUsed g < MAX_AUTO_TURNS" "no_reset \<longrightarrow> turns (fst (srv w)) \<le> g_turnsUsed g"
  shows "spec w1 (io_bind (io_catch (io_bind (writeCandidate (G cur) s d session (continueGoal g now)) (\<lambda>outcome. io_return (Some outcome)))
                  (\<lambda>e. if e = RuntimeInactive
                        then io_bind (try_recover (G cur) s d g g rvn) (\<lambda>_. io_return None)
                        else io_throw e)) (\<lambda>slotWrite.
                case slotWrite of
                  None \<Rightarrow> io_return (XDropped a)
                | Some Refused \<Rightarrow> io_return (XDropped b)
                | Some _ \<Rightarrow> send_slot E (G cur) s d g (continueGoal g now) rvn audited objective))
           (\<lambda>r w'. fine (ae_rules E) objective w w')"
proof -
  let ?n = "continueGoal g now"
  let ?Q = "\<lambda>r w'. fine (ae_rules E) objective w w' \<and>
      (\<forall>oc. r = Inr (Some oc) \<longrightarrow> oc = Refused \<or> moved w w' [Applied (Some g) ?n] 1)"
  have "g_turnsUsed ?n \<noteq> g_turnsUsed g" by (simp add: continueGoal_def)
  then have ne: "g \<noteq> ?n" by metis
  have slot: "spec w1 (writeCandidate (G cur) s d session ?n) (\<lambda>r w'.
      (\<exists>ws k. moved w w' ws k \<and> list_all good_write ws \<and> 0 \<le> k) \<and>
      (\<forall>oc. r = Inr oc \<longrightarrow> oc = Refused \<or> moved w w' [Applied (Some g) ?n] 1))"
  proof (rule spec_mono [OF candidate_write [OF x(1,2)]], elim disjE exE conjE, goal_cases)
    case (1 r w')
    then have "moved w w' [] 0" using moved_trans [OF w] by fastforce
    moreover have "oc = Refused" if "r = Inr oc" for oc using that 1(2,3) x(3) ne by (cases oc) auto
    ultimately show ?case by (intro conjI exI [of _ "[]"] exI [of _ 0]) auto
  next
    case (2 r w' old)
    then have "moved w w' [Applied (Some g) ?n] 1"
      using moved_trans [OF w] x(3) by (fastforce simp: continueGoal_def)
    then show ?case using continue_keeps [OF g(1), of now] by (intro conjI exI [of _ "[Applied (Some g) ?n]"] exI [of _ 1]) auto
  qed
  have "spec w1 (io_catch (io_bind (writeCandidate (G cur) s d session ?n) (\<lambda>outcome. io_return (Some outcome)))
      (\<lambda>e. if e = RuntimeInactive then io_bind (try_recover (G cur) s d g g rvn) (\<lambda>_. io_return None) else io_throw e)) ?Q"
  proof (rule spec_catch_mono)
    let ?R = "\<lambda>r w'. (\<exists>ws k. moved w w' ws k \<and> list_all good_write ws \<and> 0 \<le> k) \<and>
      (\<forall>oc. r = Inr oc \<longrightarrow> oc = Some Refused \<or> oc \<noteq> None \<and> moved w w' [Applied (Some g) ?n] 1)"
    show "spec w1 (io_bind (writeCandidate (G cur) s d session ?n) (\<lambda>outcome. io_return (Some outcome))) ?R"
      by (rule spec_bind_mono [OF slot]) auto
    show "?Q (Inr oc) w2" if "?R (Inr oc) w2" for oc w2
      using that fine_writes by auto
    show "spec w2 (if e = RuntimeInactive then io_bind (try_recover (G cur) s d g g rvn) (\<lambda>_. io_return None) else io_throw e) ?Q"
      if R: "?R (Inl e) w2" for e w2
    proof -
      obtain ws k where ws: "moved w w2 ws k" "list_all good_write ws" "0 \<le> k" using R by blast
      have "spec w2 (try_recover (G cur) s d g g rvn) (\<lambda>r w'. r = Inr () \<and> fine (ae_rules E) objective w w')"
      proof (rule spec_mono [OF trying_recovery], elim conjE disjE exE, goal_cases)
        case (1 r w')
        then show ?case using fine_after [OF ws] fine_quiet by simp
      next
        case (2 r w' now')
        then have "fine (ae_rules E) objective w2 w'" using restore_keeps [OF g(1)] by (intro fine_writes [of w2 w']) auto
        then show ?case using 2 fine_after [OF ws] by simp
      qed
      then have "spec w2 (io_bind (try_recover (G cur) s d g g rvn) (\<lambda>_. io_return None)) ?Q"
        by (rule spec_bind_mono) auto
      then show ?thesis using fine_writes [OF ws] by simp
    qed
  qed
  then show ?thesis
    by (rule spec_bind_mono) (auto intro!: slot_sent_fine g split: option.split WriteOutcome.split)
qed

lemma dispatch_fine:
  "spec w (dispatchGoalContinuation E (G cur) s d basis audited objective tailId now) (\<lambda>r w'. fine (ae_rules E) objective w w')"
  unfolding dispatchGoalContinuation_def guarded
proof (rule after_read, goal_cases)
  case (1 session w1 x)
  note x = 1(1,2,3) and goal = 1(5) and quiet = fine_quiet [OF 1(1)]
  show ?case
  proof (cases "fst x")
    case None
    then show ?thesis using goal quiet by simp
  next
    case (Some g)
    show ?thesis
    proof (cases "g_id g \<noteq> g_id basis \<or> g_status g \<noteq> Active \<or> accountingDrift g basis")
      case True
      then show ?thesis using goal Some quiet by auto
    next
      case False
      then have g: "g_status g = Active" and pass: "\<not> (g_id g \<noteq> g_id basis \<or> g_status g \<noteq> Active)" "\<not> accountingDrift g basis" by auto
      show ?thesis
      proof (cases "MAX_AUTO_TURNS \<le> g_turnsUsed g")
        case True
        obtain g' where settled: "settleGoal g SettleBlocked turnLimit None now = Some g'" using settle_active [OF g] by blast
        have keep: "good_write (Applied (Some g) g')" "g_turnsUsed g' = g_turnsUsed g" using settle_keeps [OF g _ settled] by auto
        have "spec w1 (io_bind (writeCandidate (G cur) s d session g') (\<lambda>outcome. io_return (if outcome = Refused
            then XDropped ''goal CAS write was refused'' else XSettled g' Blocked))) (\<lambda>r w'. fine (ae_rules E) objective w w')"
          by (rule spec_bind_mono [OF candidate_fine [OF x(3,2) Some x(1) keep]]) (auto intro: fine_writes)
        then show ?thesis using goal Some pass True settled by simp
      next
        case turns: False
        then have turns': "g_turnsUsed g < MAX_AUTO_TURNS" by simp
        have count: "no_reset \<longrightarrow> turns (fst (srv w)) \<le> g_turnsUsed g"
          using before_turns [OF _ 1(4)] Some by (simp add: turns_def)
        have "spec w1 (io_bind (p_readMessages P s d MESSAGE_FETCH_LIMIT) f) (\<lambda>r w'. fine (ae_rules E) objective w w')"
          if f: "\<And>m w2. moved w w2 [] 0 \<Longrightarrow> before env x (srv w2) \<Longrightarrow> spec w2 (f m) (\<lambda>r w'. fine (ae_rules E) objective w w')" for f
        proof (rule spec_bind_mono [OF messages_quiet], goal_cases)
          case (1 e w2)
          then show ?case using moved_trans [OF x(1)] fine_quiet by fastforce
        next
          case (2 m w2)
          then have "moved w w2 [] 0" using moved_trans [OF x(1)] by fastforce
          then show ?case using f 2 before_trans [OF x(2)] by blast
        qed
        note messages = this
        show ?thesis
          using goal Some pass turns
          by (auto simp: Let_def intro!: messages dispatch_slot [OF x(3) _ Some _ g turns' count] fine_quiet split: option.split prod.split)
      qed
    qed
  qed
qed

lemma no_drift_keeps:
  assumes "g_status c = Active" "\<not> accountingDrift c n"
  shows "good_write (Applied (Some c) n)" "g_turnsUsed n = g_turnsUsed c" "g_status n = Active"
  using assms unfolding no_drift_fields by (auto simp: keeps_user_def)

lemma keeps_user_trans: "keeps_user a b \<Longrightarrow> keeps_user b c \<Longrightarrow> keeps_user a c"
  by (auto simp: keeps_user_def)

lemma verdict_keeps:
  assumes "g_status g = Active" "applyGoalAuditVerdict g v nt attr now = (g', st)"
  shows "keeps_user g g'" "g_turnsUsed g' = g_turnsUsed g"
  using assms
  by (cases v; auto simp: applyGoalAuditVerdict_def settleGoal_def Let_def keeps_user_def split: if_split_asm option.split_asm prod.split_asm)+

lemma unavailable_keeps:
  assumes "g_status g = Active" "applyGoalAuditUnavailable g now = (g', st)"
  shows "good_write (Applied (Some g) g')" "g_turnsUsed g' = g_turnsUsed g"
  using assms
  by (auto simp: applyGoalAuditUnavailable_def settleGoal_def Let_def keeps_user_def split: if_split_asm)

lemma written_then_dispatch:
  assumes "moved w w1 ws 0" "list_all good_write ws"
  shows "spec w1 (dispatchGoalContinuation E (G cur) s d basis audited objective tailId now) (\<lambda>r w'. fine (ae_rules E) objective w w')"
  by (rule spec_mono [OF dispatch_fine]) (rule fine_after [OF assms], simp_all)

lemma persist_fine:
  "spec w (persistAccountingCandidate E (G cur) ready s d) (\<lambda>r w'. fine (ae_rules E) (rt_objective ready) w w')"
  unfolding persistAccountingCandidate_def guarded
proof (rule after_read, goal_cases)
  case (1 session w1 x)
  note quiet = fine_quiet [OF 1(1)]
  show ?case
  proof (cases "\<exists>c. fst x = Some c \<and> g_id c = g_id (rt_goal ready) \<and> g_status c = Active \<and> \<not> accountingDrift c (rt_goal ready)")
    case False
    then show ?thesis using 1(5) quiet by (auto split: option.split)
  next
    case True
    then obtain c where c: "fst x = Some c" "g_id c = g_id (rt_goal ready)" "g_status c = Active" "\<not> accountingDrift c (rt_goal ready)" by blast
    note keep = no_drift_keeps [OF c(3,4)]
    have "spec w1 (io_bind (writeCandidate (G cur) s d session (rt_goal ready)) (\<lambda>written.
         if written = Refused then io_return (XDropped ''goal CAS write was refused'')
         else io_bind (io_clock (G cur)) (\<lambda>now.
           dispatchGoalContinuation E (G cur) s d (rt_goal ready) False (rt_objective ready) (rt_tailId ready) now)))
        (\<lambda>r w'. fine (ae_rules E) (rt_objective ready) w w')"
      by (rule spec_bind_mono [OF candidate_fine [OF 1(3,2) c(1) 1(1) keep(1,2)]])
        (auto intro: fine_writes written_then_dispatch)
    then show ?thesis using 1(5) c by simp
  qed
qed

lemma after_audit_fine:
  assumes basis: "g_status basis = Active" "\<not> accountingDrift basis (rt_goal ready)" and w: "moved w0 w [] 0"
  shows "spec w (after_audit E (G cur) ready s d basis revision call) (\<lambda>r w'. fine (ae_rules E) (rt_objective ready) w0 w')"
proof -
  have "spec w (after_audit E (G cur) ready s d basis revision call) (\<lambda>r w'. fine (ae_rules E) (rt_objective ready) w w')"
    unfolding after_audit_def guarded
  proof (rule after_read, goal_cases)
    case (1 session w1 x)
    note quiet = fine_quiet [OF 1(1)]
    show ?case
    proof (cases "\<exists>c. fst x = Some c \<and> g_id c = g_id (rt_goal ready) \<and> g_status c = Active \<and> readGoalRevision session = Some revision \<and> \<not> accountingDrift c basis")
      case False
      then show ?thesis using 1(5) quiet by (auto split: option.split)
    next
      case True
      then obtain c where c: "fst x = Some c" "g_id c = g_id (rt_goal ready)" "g_status c = Active"
          "readGoalRevision session = Some revision" "\<not> accountingDrift c basis" by blast
      note cb = no_drift_keeps [OF c(3,5)] and br = no_drift_keeps [OF basis]
      let ?now = "p_now P w1"
      show ?thesis
      proof (cases call)
        case CallRace
        then show ?thesis using 1(5) c quiet by simp
      next
        case CallUnavailable
        obtain g st where u: "applyGoalAuditUnavailable c ?now = (g, st)" by fastforce
        have "spec w1 (io_bind (writeCandidate (G cur) s d session g) (\<lambda>outcome.
                io_return (if outcome = Refused then XDropped ''goal CAS write was refused''
                           else if st then XSettled g Blocked else XProcessed g None)))
            (\<lambda>r w'. fine (ae_rules E) (rt_objective ready) w w')"
          by (rule spec_bind_mono [OF candidate_fine [OF 1(3,2) c(1) 1(1) unavailable_keeps [OF c(3) u]]]) (auto intro: fine_writes)
        then show ?thesis using CallUnavailable 1(5) c quiet u by simp
      next
        case (CallVerdict v nt pr mo)
        obtain g st where u: "applyGoalAuditVerdict (rt_goal ready) v nt (Some (pr, mo)) ?now = (g, st)" by fastforce
        note vk = verdict_keeps [OF br(3) u]
        have keep: "good_write (Applied (Some c) g)" "g_turnsUsed g = g_turnsUsed c"
          using cb br vk keeps_user_trans by (auto intro: keeps_user_trans)
        have "spec w1 (io_bind (writeCandidate (G cur) s d session g) (\<lambda>outcome.
                if outcome = Refused then io_return (XDropped ''goal CAS write was refused'')
                else case st of
                  Some st \<Rightarrow> io_return (XSettled g st)
                | None \<Rightarrow>
                    if v \<noteq> VContinue then io_return (XProcessed g (Some v))
                    else dispatchGoalContinuation E (G cur) s d g True (rt_objective ready) (rt_tailId ready) ?now))
            (\<lambda>r w'. fine (ae_rules E) (rt_objective ready) w w')"
          by (rule spec_bind_mono [OF candidate_fine [OF 1(3,2) c(1) 1(1) keep]])
            (auto intro: fine_writes written_then_dispatch split: option.split)
        then show ?thesis using CallVerdict 1(5) c u by (simp cong: if_cong option.case_cong)
      qed
    qed
  qed
  then show ?thesis by (rule spec_mono) (rule fine_after [OF w], simp_all)
qed

lemma auditing: "spec w (callAuditor E (G cur) s d ab objective text) (\<lambda>r w'. moved w w' [] 0 \<and> (\<exists>c. r = Inr c))"
proof -
  have "spec w (p_runAudit (G cur) s d ab) (\<lambda>r w'. moved w w' [] 0)"
  proof (cases "cur w")
    case True
    have "spec w (p_runAudit P s d ab) (\<lambda>r w'. moved w w' [] 0)"
      by (rule spec_mono [OF run_audit]) (auto intro: moved_quiet)
    then show ?thesis using True by (simp add: guardGoalAuditExchangePorts_def spec_def)
  next
    case False
    then show ?thesis by (simp add: guardGoalAuditExchangePorts_def spec_def)
  qed
  then show ?thesis unfolding callAuditor_def
    by (simp add: spec_catch spec_bind) (erule spec_mono, auto split: sum.split)
qed

lemma audit_fine:
  "spec w (auditExchange E (G cur) ready s d) (\<lambda>r w'. fine (ae_rules E) (rt_objective ready) w w')"
  unfolding auditExchange_def guarded
proof (rule after_read, goal_cases)
  case (1 session w1 x)
  note quiet = fine_quiet [OF 1(1)]
  have call: "spec w1 (io_bind (callAuditor E (G cur) s d ab obj tx) (after_audit E (G cur) ready s d basis n))
      (\<lambda>r w'. fine (ae_rules E) (rt_objective ready) w w')"
    if "g_status basis = Active" "\<not> accountingDrift basis (rt_goal ready)" for ab obj tx basis n
    by (rule spec_bind_mono [OF auditing])
      (use moved_trans [OF 1(1)] in \<open>fastforce intro: after_audit_fine [OF that]\<close>)+
  show ?case
    using 1(5) quiet by (auto intro!: call split: option.split)
qed

lemma exchange_fine:
  "spec w (runGoalAuditExchange E (G cur) ready s d) (\<lambda>r w'. fine (ae_rules E) (rt_objective ready) w w' \<and> (\<exists>x. r = Inr x))"
  unfolding runGoalAuditExchange_def
  by (rule spec_catch_mono [where R = "\<lambda>r w'. fine (ae_rules E) (rt_objective ready) w w'"])
    (auto intro: persist_fine audit_fine)

end

section \<open>The harness\<close>

definition FILE_KEY :: "string \<Rightarrow> bool" where
  "FILE_KEY s \<longleftrightarrow> s = [] \<or> is_file_key s"

definition safe_counter :: "int \<Rightarrow> bool" where
  "safe_counter n \<longleftrightarrow> 0 \<le> n \<and> is_safe n"

definition validatedDesktopGoal :: "GoalPayload \<Rightarrow> bool" where
  "validatedDesktopGoal g \<longleftrightarrow> isGoalFileSessionId (g_id g) \<and>
     (case g_objectiveFileKey g of Some k \<Rightarrow> FILE_KEY k | None \<Rightarrow> True) \<and>
     length (g_objective g) \<le> 5000 \<and> length (g_note g) \<le> 280 \<and> length (g_statusReason g) \<le> 200 \<and>
     length (g_evaluationProviderID g) \<le> 200 \<and> length (g_evaluationModelID g) \<le> 200 \<and>
     length (g_lastAccountedMessageID g) \<le> 200 \<and>
     (trim (g_objective g) \<noteq> [] \<or> g_objectiveFile g) \<and>
     (case g_tokenBudget g of Some b \<Rightarrow> 1 \<le> b \<and> b \<le> 100000000 | None \<Rightarrow> True) \<and>
     list_all safe_counter [g_tokensUsed g, g_tokensBaseline g, g_tokensCommitted g, g_turnsUsed g,
       g_blockedStreak g, g_auditFailStreak g, g_createdAt g, g_updatedAt g] \<and>
     g_createdAt g \<noteq> 0 \<and> g_createdAt g \<le> g_updatedAt g"

text \<open>The change of a goal write: refused when the session is closing, when the id or the
  revision has moved on, or when a goal would be armed while a turn is running.\<close>

definition goalCatalogMutation ::
  "bool \<Rightarrow> bool \<Rightarrow> GoalPayload option \<Rightarrow> int \<Rightarrow> GoalPayload option \<Rightarrow> string option \<Rightarrow> int \<Rightarrow> (GoalPayload option \<times> int) option" where
  "goalCatalogMutation closing busy current revision goal expectedId expectedRevision =
     (if (case expectedId of Some i \<Rightarrow> \<not> isGoalFileSessionId i | None \<Rightarrow> False) \<or> \<not> safe_counter expectedRevision then None
      else if closing then None
      else if map_option g_id current \<noteq> expectedId \<or> revision \<noteq> expectedRevision then None
      else if goal \<noteq> None \<and> current = None \<and> busy then None
      else Some (goal, revision + 1))"

text \<open>What the world does around one port call: writes of other clients before and after
  it, a call that never arrives, an answer that is lost or comes with a later revision, and
  the data the other routes answer with.\<close>

record CallScript =
  cs_before :: "GoalPayload option list"
  cs_fails :: bool
  cs_closing :: bool
  cs_busy :: bool
  cs_ack :: bool
  cs_status :: int
  cs_reply :: unknown
  cs_after :: "GoalPayload option list"
  cs_lost :: bool

definition plain_call :: CallScript where
  "plain_call = \<lparr> cs_before = [], cs_fails = False, cs_closing = False, cs_busy = False, cs_ack = True,
     cs_status = 200, cs_reply = None, cs_after = [], cs_lost = False \<rparr>"

record Harness =
  hs_goal :: "GoalPayload option"
  hs_revision :: int
  hs_script :: "CallScript list"
  hs_acts :: "Act list"
  hs_now :: int

text \<open>The catalog holds validated goals only: a restored record with another one is refused.\<close>

definition catalog_goal :: "Harness \<Rightarrow> GoalPayload option" where
  "catalog_goal w = (case hs_goal w of Some g \<Rightarrow> if validatedDesktopGoal g then Some g else None | None \<Rightarrow> None)"

text \<open>The fields of the session record the goal loop reads, in the namespace the adapter
  gives to the desktop projection.\<close>

definition describe_session :: "string \<Rightarrow> Harness \<Rightarrow> json" where
  "describe_session sid w = JObj [(''id'', JStr sid),
     (''metadata'', JObj [(GOAL_NAMESPACE, JObj (
        (case catalog_goal w of Some g \<Rightarrow> [(GOAL_METADATA_KEY, goal_json g)] | None \<Rightarrow> []) @
        [(''goalRevision'', GInt (hs_revision w))]))])]"

text \<open>A goal as a reader of the record sees it: the parser drops an empty file key.\<close>

definition shown :: "GoalPayload \<Rightarrow> GoalPayload" where
  "shown g = (if g_objectiveFileKey g = Some [] then g \<lparr> g_objectiveFileKey := None \<rparr> else g)"

definition served :: "Harness \<Rightarrow> Served" where
  "served w = (map_option shown (catalog_goal w), hs_revision w)"

definition other_write :: "(GoalPayload option \<Rightarrow> GoalPayload option \<Rightarrow> bool) \<Rightarrow> GoalPayload option \<Rightarrow> Harness \<Rightarrow> Harness" where
  "other_write allow g w =
     (if (case g of Some x \<Rightarrow> validatedDesktopGoal x | None \<Rightarrow> True) \<and> allow (fst (served w)) (map_option shown g)
      then w \<lparr> hs_goal := g, hs_revision := hs_revision w + 1 \<rparr> else w)"

definition port_call ::
  "(GoalPayload option \<Rightarrow> GoalPayload option \<Rightarrow> bool) \<Rightarrow> (CallScript \<Rightarrow> Harness \<Rightarrow> 'a \<times> Harness) \<Rightarrow> (Harness, 'a) io" where
  "port_call allow body w =
     (let c = (case hs_script w of c # cs \<Rightarrow> c | [] \<Rightarrow> plain_call);
          w1 = fold (other_write allow) (cs_before c) (w \<lparr> hs_script := tl (hs_script w) \<rparr>)
      in if cs_fails c then (Inl OtherError, w1)
         else case body c w1 of (x, w2) \<Rightarrow>
                (if cs_lost c then Inl OtherError else Inr x, fold (other_write allow) (cs_after c) w2))"

definition put_goal :: "GoalWriteBody \<Rightarrow> CallScript \<Rightarrow> Harness \<Rightarrow> bool \<times> Harness" where
  "put_goal body c w =
     (if \<not> validatedDesktopGoal (wb_goal body) then (False, w)
      else case goalCatalogMutation (cs_closing c) (cs_busy c) (catalog_goal w) (hs_revision w) (Some (wb_goal body))
                  (wb_expected_id body) (wb_expected_revision body) of
             None \<Rightarrow> (False, w)
           | Some (g, n) \<Rightarrow>
               (cs_ack c, w \<lparr> hs_goal := g, hs_revision := n, hs_acts := hs_acts w @ [Applied (fst (served w)) (wb_goal body)] \<rparr>))"

definition answer :: "CallScript \<Rightarrow> GoalAuditWire" where
  "answer c = \<lparr> aw_status = cs_status c, aw_body = cs_reply c \<rparr>"

definition harness_ports :: "(GoalPayload option \<Rightarrow> GoalPayload option \<Rightarrow> bool) \<Rightarrow> Harness GoalPorts" where
  "harness_ports allow =
     \<lparr> p_now = (\<lambda>w. max 1 (hs_now w)),
       p_readSession = (\<lambda>sid _. port_call allow (\<lambda>c w. (Some (describe_session sid w), w))),
       p_readObjective = (\<lambda>_ _. port_call allow (\<lambda>c w. (case cs_reply c of Some (JStr s) \<Rightarrow> Some s | _ \<Rightarrow> None, w))),
       p_readStatus = (\<lambda>_. port_call allow (\<lambda>c w. (cs_reply c, w))),
       p_readChildren = (\<lambda>_ _. port_call allow (\<lambda>c w. (cs_reply c, w))),
       p_readMessages = (\<lambda>_ _ _. port_call allow (\<lambda>c w. (cs_reply c, w))),
       p_readEvidence = (\<lambda>_ _. port_call allow (\<lambda>c w. (cs_reply c, w))),
       p_writeGoal = (\<lambda>_ _ body. port_call allow (put_goal body)),
       p_runAudit = (\<lambda>_ _ _. port_call allow (\<lambda>c w. (answer c, w))),
       p_sendPrompt = (\<lambda>_ _ msg. port_call allow (\<lambda>c w. (answer c, w \<lparr> hs_acts := hs_acts w @ [Sent msg] \<rparr>))),
       p_recoverSkippedSend = None \<rparr>"

subsection \<open>The harness keeps the interface\<close>

lemma id_class_unspaced: "id_class c \<Longrightarrow> \<not> js_space c"
  using alnum_unspaced by (auto simp: id_class_def js_space_def)

lemma validated_wf: "validatedDesktopGoal g \<Longrightarrow> wf_goal (shown g)"
proof -
  assume v: "validatedDesktopGoal g"
  then have "list_all id_class (g_id g)" "4 \<le> length (g_id g)"
    by (simp_all add: validatedDesktopGoal_def isGoalFileSessionId_def)
  then have "trim (g_id g) = g_id g" "g_id g \<noteq> []"
    using id_class_unspaced by (auto intro!: trim_unspaced simp: list_all_iff)
  moreover have "case g_objectiveFileKey (shown g) of Some k \<Rightarrow> is_file_key k | None \<Rightarrow> True"
    using v by (auto simp: validatedDesktopGoal_def shown_def FILE_KEY_def split: option.split)
  moreover have "case g_tokenBudget g of Some b \<Rightarrow> 1 \<le> b \<and> b \<le> TOKEN_BUDGET_MAX | None \<Rightarrow> True"
    using v by (cases "g_tokenBudget g") (simp_all add: validatedDesktopGoal_def TOKEN_BUDGET_MAX_def)
  ultimately show ?thesis using v
    by (auto simp: wf_goal_def validatedDesktopGoal_def shown_def safe_counter_def GOAL_OBJECTIVE_CHAR_LIMIT_def NOTE_CHAR_LIMIT_def REASON_CHAR_LIMIT_def)
qed

lemma parse_shown: "parseGoalPayload now (Some (goal_json g)) = parseGoalPayload now (Some (goal_json (shown g)))"
  by (auto simp: goal_field_lookup Let_def goal_of_fields_def shown_def is_file_key_def split: option.split)

lemma parse_validated: "validatedDesktopGoal g \<Longrightarrow> 0 < now \<Longrightarrow> parseGoalPayload now (Some (goal_json g)) = Some (shown g)"
  using parse_shown [of now g] parse_wf_back validated_wf by metis

lemma safe_int_JInt [simp]: "safe_int (Some (GInt n)) = (if is_safe n then Some n else None)"
  by (simp add: is_safe_def)

lemma described_reports: "reports (Some (describe_session sid w)) (served w)"
proof -
  have "getSessionGoal now (Some (describe_session sid w)) = fst (served w)" if "0 < now" for now
  proof (cases "catalog_goal w")
    case None
    then show ?thesis by (simp add: getSessionGoal_def describe_session_def opt_prop_def served_def GOAL_METADATA_KEY_def)
  next
    case (Some g)
    then have "validatedDesktopGoal g" by (simp add: catalog_goal_def split: option.split_asm if_split_asm)
    then show ?thesis using Some parse_validated [OF _ that]
      by (simp add: getSessionGoal_def describe_session_def opt_prop_def served_def del: parseGoalPayload.simps)
  qed
  moreover have "readGoalRevision (Some (describe_session sid w)) = (if is_safe (hs_revision w) \<and> 0 \<le> hs_revision w then Some (hs_revision w) else None)"
    by (cases "catalog_goal w") (auto simp: readGoalRevision_def describe_session_def opt_prop_def GOAL_METADATA_KEY_def simp del: safe_int.simps)
  ultimately show ?thesis by (simp add: reports_def served_def)
qed

lemma served_script [simp]: "served (w \<lparr> hs_script := cs \<rparr>) = served w" "served (w \<lparr> hs_acts := as \<rparr>) = served w"
  by (simp_all add: served_def catalog_goal_def)

lemma other_writes:
  "before (allow\<^sup>*\<^sup>*) (served w) (served (fold (other_write allow) gs w)) \<and> hs_acts (fold (other_write allow) gs w) = hs_acts w"
proof (induction gs arbitrary: w)
  case Nil
  then show ?case by (simp add: before_def)
next
  case (Cons g gs)
  let ?w = "other_write allow g w"
  have step: "before (allow\<^sup>*\<^sup>*) (served w) (served ?w)" "hs_acts ?w = hs_acts w"
    by (auto simp: other_write_def before_def served_def catalog_goal_def split: option.split)
  have "before (allow\<^sup>*\<^sup>*) (served w) y" if "before (allow\<^sup>*\<^sup>*) (served ?w) y" for y
    using step(1) that by (auto simp: before_def)
  then show ?case using Cons.IH [of ?w] step(2) by simp
qed

text \<open>Every port call is a step of the harness between writes of other clients.\<close>

lemma port_call_spec:
  "spec w (port_call allow body) (\<lambda>r w'. \<exists>c w1. before (allow\<^sup>*\<^sup>*) (served w) (served w1) \<and> hs_acts w1 = hs_acts w \<and>
     ((\<exists>e. r = Inl e \<and> e \<noteq> RuntimeInactive) \<and> w' = w1 \<or>
      (\<exists>x w2. body c w1 = (x, w2) \<and> before (allow\<^sup>*\<^sup>*) (served w2) (served w') \<and> hs_acts w' = hs_acts w2 \<and> (r = Inr x \<or> r = Inl OtherError))))"
proof -
  let ?c = "case hs_script w of c # cs \<Rightarrow> c | [] \<Rightarrow> plain_call"
  let ?w1 = "fold (other_write allow) (cs_before ?c) (w \<lparr> hs_script := tl (hs_script w) \<rparr>)"
  have w1: "before (allow\<^sup>*\<^sup>*) (served w) (served ?w1)" "hs_acts ?w1 = hs_acts w"
    using other_writes [of allow "w \<lparr> hs_script := tl (hs_script w) \<rparr>" "cs_before ?c"] by simp_all
  show ?thesis
  proof (cases "cs_fails ?c")
    case True
    then have "port_call allow body w = (Inl OtherError, ?w1)" by (simp add: port_call_def Let_def)
    then show ?thesis using w1 by (auto simp: spec_def)
  next
    case False
    obtain x w2 where b: "body ?c ?w1 = (x, w2)" by fastforce
    then have "port_call allow body w = (if cs_lost ?c then Inl OtherError else Inr x, fold (other_write allow) (cs_after ?c) w2)"
      using False by (simp add: port_call_def Let_def)
    then show ?thesis using w1 b other_writes [of allow w2 "cs_after ?c"]
      by (simp add: spec_def) (blast intro: sym)
  qed
qed

lemma harness_before_trans: "before (allow\<^sup>*\<^sup>*) x y \<Longrightarrow> before (allow\<^sup>*\<^sup>*) y z \<Longrightarrow> before (allow\<^sup>*\<^sup>*) x z"
  by (auto simp: before_def)

lemma quiet_call:
  assumes "\<And>c w. snd (body c w) = w"
  shows "spec w (port_call allow body) (\<lambda>r w'. hs_acts w' = hs_acts w \<and> before (allow\<^sup>*\<^sup>*) (served w) (served w') \<and>
     (\<forall>x. r = Inr x \<longrightarrow> (\<exists>c w1. before (allow\<^sup>*\<^sup>*) (served w) (served w1) \<and> before (allow\<^sup>*\<^sup>*) (served w1) (served w') \<and> x = fst (body c w1))))"
proof (rule spec_mono [OF port_call_spec], elim exE conjE disjE, goal_cases)
  case (1 r w' c w1 e)
  then show ?case by simp
next
  case (2 r w' c w1 x w2)
  then have "w2 = w1" "x = fst (body c w1)" using assms [of c w1] by auto
  then show ?case using 2 harness_before_trans [OF 2(1), of "served w'"] by (auto intro!: exI [of _ c] exI [of _ w1])
next
  case (3 r w' c w1 x w2)
  then have "w2 = w1" using assms [of c w1] by auto
  then show ?case using 3 harness_before_trans [OF 3(1)] by auto
qed

lemma put_goal_cases:
  assumes "put_goal body c w = (x, w2)"
  shows "x = False \<and> w2 = w \<or>
    (served w = (fst (served w), wb_expected_revision body) \<and> hs_acts w2 = hs_acts w @ [Applied (fst (served w)) (wb_goal body)] \<and>
     served w2 = (Some (shown (wb_goal body)), wb_expected_revision body + 1))"
  using assms
  by (auto simp: put_goal_def goalCatalogMutation_def served_def catalog_goal_def split: if_split_asm)

lemma put_goal_call:
  "spec w (port_call allow (put_goal body)) (\<lambda>r w'.
     hs_acts w' = hs_acts w \<and> before (allow\<^sup>*\<^sup>*) (served w) (served w') \<and> r \<noteq> Inr True \<or>
     (\<exists>old new. hs_acts w' = hs_acts w @ [Applied old (wb_goal body)] \<and> before (allow\<^sup>*\<^sup>*) (served w) (old, wb_expected_revision body) \<and>
        before (allow\<^sup>*\<^sup>*) (Some new, wb_expected_revision body + 1) (served w') \<and> g_turnsUsed new = g_turnsUsed (wb_goal body)))"
proof (rule spec_mono [OF port_call_spec], elim exE conjE, goal_cases)
  case (1 r w' c w1)
  consider (refused) e where "r = Inl e" "w' = w1"
    | (reached) x w2 where "put_goal body c w1 = (x, w2)" "before (allow\<^sup>*\<^sup>*) (served w2) (served w')" "hs_acts w' = hs_acts w2"
        "r = Inr x \<or> r = Inl OtherError"
    using 1(3) by blast
  then show ?case
  proof cases
    case refused
    then show ?thesis using 1(1,2) by simp
  next
    case reached
    from put_goal_cases [OF reached(1)] show ?thesis
    proof
      assume "x = False \<and> w2 = w1"
      then show ?thesis using reached harness_before_trans [OF 1(1), of "served w'"] 1(2) by auto
    next
      assume "served w1 = (fst (served w1), wb_expected_revision body) \<and> hs_acts w2 = hs_acts w1 @ [Applied (fst (served w1)) (wb_goal body)] \<and>
        served w2 = (Some (shown (wb_goal body)), wb_expected_revision body + 1)"
      moreover have "g_turnsUsed (shown (wb_goal body)) = g_turnsUsed (wb_goal body)" by (simp add: shown_def)
      ultimately show ?thesis using reached 1(1,2) by metis
    qed
  qed
qed

lemma send_call:
  "spec w (port_call allow (\<lambda>c w. (answer c, w \<lparr> hs_acts := hs_acts w @ [Sent msg] \<rparr>))) (\<lambda>r w'.
     before (allow\<^sup>*\<^sup>*) (served w) (served w') \<and>
     (hs_acts w' = hs_acts w @ [Sent msg] \<and> r \<noteq> Inl RuntimeInactive \<or> hs_acts w' = hs_acts w \<and> (\<exists>e. r = Inl e)))"
  by (rule spec_mono [OF port_call_spec]) (auto intro: harness_before_trans)

interpretation hs: goal_server "harness_ports allow" served hs_acts "allow\<^sup>*\<^sup>*"
  for allow :: "GoalPayload option \<Rightarrow> GoalPayload option \<Rightarrow> bool"
proof (unfold_locales, goal_cases)
  case (1 a b c)
  then show ?case by (rule rtranclp_trans)
next
  case (2 w)
  then show ?case by (simp add: harness_ports_def)
next
  case (3 w s d)
  have "spec w (port_call allow (\<lambda>c w. (Some (describe_session s w), w))) (\<lambda>r w'. hs_acts w' = hs_acts w \<and>
      before (allow\<^sup>*\<^sup>*) (served w) (served w') \<and> (\<forall>session. r = Inr session \<longrightarrow>
        (\<exists>x. before (allow\<^sup>*\<^sup>*) (served w) x \<and> before (allow\<^sup>*\<^sup>*) x (served w') \<and> reports session x)))"
    by (rule spec_mono [OF quiet_call]) (simp, metis described_reports fst_conv)
  then show ?case by (simp add: harness_ports_def)
next
  case (4 w s d n)
  have "spec w (port_call allow (\<lambda>c w. (cs_reply c, w))) (\<lambda>r w'. hs_acts w' = hs_acts w \<and> before (allow\<^sup>*\<^sup>*) (served w) (served w'))"
    by (rule spec_mono [OF quiet_call]) auto
  then show ?case by (simp add: harness_ports_def)
next
  case (5 w s d ab)
  have "spec w (port_call allow (\<lambda>c w. (answer c, w))) (\<lambda>r w'. hs_acts w' = hs_acts w \<and> before (allow\<^sup>*\<^sup>*) (served w) (served w'))"
    by (rule spec_mono [OF quiet_call]) auto
  then show ?case by (simp add: harness_ports_def)
next
  case (6 w s d body)
  then show ?case using put_goal_call by (simp add: harness_ports_def)
next
  case (7 w s d msg)
  then show ?case using send_call by (simp add: harness_ports_def)
qed

section \<open>What exchanges do\<close>

definition run_exchange ::
  "(GoalPayload option \<Rightarrow> GoalPayload option \<Rightarrow> bool) \<Rightarrow> string \<Rightarrow> string \<Rightarrow> AuditEnv \<times> (Harness \<Rightarrow> bool) \<times> ReadyTick \<Rightarrow> Harness \<Rightarrow>
     (PortError + ExchangeResult) \<times> Harness" where
  "run_exchange allow s d x w = (case x of (E, cur, ready) \<Rightarrow>
     runGoalAuditExchange E (guardGoalAuditExchangePorts (harness_ports allow) cur) ready s d w)"

text \<open>C6.
  An exchange of the goal loop never undoes what somebody else wrote. Whatever other
  clients write before, between and after its calls, and whichever calls fail or lose their
  answer: every write of the exchange that the harness accepts replaces an active goal by
  one with the same id, objective, objective file and budget, the file key apart, that is
  active, blocked or complete; so a pause, an edit or a replacement can only refuse the
  write. It sends at most one prompt, as its last action and right after the accepted
  write that counts the turn, at most the twentieth, and the prompt is the one for that
  payload. And it always answers.\<close>

theorem exchange_never_undoes_user_changes:
  "\<exists>r acts. fst (run_exchange allow s d (E, cur, ready) w) = Inr r \<and>
     hs_acts (snd (run_exchange allow s d (E, cur, ready) w)) = hs_acts w @ acts \<and>
     exchange_acts (ae_rules E) (rt_objective ready) acts"
proof -
  obtain r w' where run: "run_exchange allow s d (E, cur, ready) w = (r, w')" by fastforce
  then have "hs.fine allow (ae_rules E) (rt_objective ready) w w' \<and> (\<exists>x. r = Inr x)"
    using specD [OF hs.exchange_fine] by (fastforce simp: run_exchange_def)
  then show ?thesis using run by (auto simp: hs.fine_def hs.moved_def)
qed

lemma turns_mono_star:
  "\<forall>a b. allow a b \<longrightarrow> turns a \<le> turns b \<Longrightarrow> allow\<^sup>*\<^sup>* x y \<Longrightarrow> turns x \<le> turns y"
  by (erule rtranclp_induct) (auto intro: order_trans)

lemma exchange_counts:
  assumes "\<forall>a b. allow a b \<longrightarrow> turns a \<le> turns b"
  shows "\<exists>acts. hs_acts (snd (run_exchange allow s d x w)) = hs_acts w @ acts \<and> sends acts \<le> 1 \<and>
     turns (fst (served w)) + sends acts \<le> turns (fst (served (snd (run_exchange allow s d x w)))) \<and>
     (0 < sends acts \<longrightarrow> turns (fst (served w)) < MAX_AUTO_TURNS)"
proof -
  obtain E cur ready where x: "x = (E, cur, ready)" by (cases x)
  obtain r w' where run: "run_exchange allow s d x w = (r, w')" by fastforce
  then have "hs.fine allow (ae_rules E) (rt_objective ready) w w'"
    using specD [OF hs.exchange_fine] by (fastforce simp: run_exchange_def x)
  moreover have "hs.no_reset allow" using turns_mono_star [OF assms] by (simp add: hs.no_reset_def)
  moreover have "sends acts \<le> 1" if "exchange_acts rules objective acts" for rules objective acts
    using that sends_writes by (fastforce simp: exchange_acts_def sends_def)
  ultimately show ?thesis using run by (fastforce simp: hs.fine_def hs.moved_def)
qed

text \<open>C7.
  Autonomy is bounded. As long as nobody else takes back a counted turn, by a resume, an
  edit or a new goal, any number of exchanges, with any evidence, auditor answers, failures
  and lost replies, sends at most as many prompts as the goal has turns left of its twenty.\<close>

theorem automatic_prompts_bounded:
  assumes "\<forall>a b. allow a b \<longrightarrow> turns a \<le> turns b"
  shows "\<exists>acts. hs_acts (fold (\<lambda>x w. snd (run_exchange allow s d x w)) xs w) = hs_acts w @ acts \<and>
     sends acts \<le> max 0 (MAX_AUTO_TURNS - turns (fst (served w)))"
proof (induction xs arbitrary: w)
  case Nil
  then show ?case by (simp add: sends_def)
next
  case (Cons x xs)
  obtain a where a: "hs_acts (snd (run_exchange allow s d x w)) = hs_acts w @ a" "sends a \<le> 1"
      "turns (fst (served w)) + sends a \<le> turns (fst (served (snd (run_exchange allow s d x w))))"
      "0 < sends a \<longrightarrow> turns (fst (served w)) < MAX_AUTO_TURNS"
    using exchange_counts [OF assms] by blast
  obtain b where b: "hs_acts (fold (\<lambda>x w. snd (run_exchange allow s d x w)) (x # xs) w) = hs_acts w @ a @ b"
      "sends b \<le> max 0 (MAX_AUTO_TURNS - turns (fst (served (snd (run_exchange allow s d x w)))))"
    using Cons.IH [of "snd (run_exchange allow s d x w)"] a(1) by auto
  have "0 \<le> sends a" by (simp add: sends_def)
  then have "sends (a @ b) \<le> max 0 (MAX_AUTO_TURNS - turns (fst (served w)))"
    using a(2-4) b(2) by (auto simp: max_def split: if_split_asm)
  then show ?case using b(1) by blast
qed

text \<open>A call that nothing disturbs.\<close>

lemma plain_port_call:
  "hs_script w = [] \<Longrightarrow> port_call allow body w = (case body plain_call (w \<lparr> hs_script := [] \<rparr>) of (x, w') \<Rightarrow> (Inr x, w'))"
  "hs_script w = (plain_call \<lparr> cs_reply := v \<rparr>) # cs \<Longrightarrow>
     port_call allow body w = (case body (plain_call \<lparr> cs_reply := v \<rparr>) (w \<lparr> hs_script := cs \<rparr>) of (x, w') \<Rightarrow> (Inr x, w'))"
  by (simp_all add: port_call_def plain_call_def)

lemma harness_port_simps [simp]:
  "p_now (harness_ports allow) = (\<lambda>w. max 1 (hs_now w))"
  "p_readSession (harness_ports allow) = (\<lambda>sid _. port_call allow (\<lambda>c w. (Some (describe_session sid w), w)))"
  "p_readMessages (harness_ports allow) = (\<lambda>_ _ _. port_call allow (\<lambda>c w. (cs_reply c, w)))"
  "p_writeGoal (harness_ports allow) = (\<lambda>_ _ body. port_call allow (put_goal body))"
  "p_sendPrompt (harness_ports allow) = (\<lambda>_ _ msg. port_call allow (\<lambda>c w. (answer c, w \<lparr> hs_acts := hs_acts w @ [Sent msg] \<rparr>)))"
  by (simp_all add: harness_ports_def)

lemma guard_open [simp]:
  "p_writeGoal (guardGoalAuditExchangePorts P (\<lambda>_. True)) = p_writeGoal P"
  "p_sendPrompt (guardGoalAuditExchangePorts P (\<lambda>_. True)) = p_sendPrompt P"
  "p_readSession (guardGoalAuditExchangePorts P cur) = p_readSession P"
  "p_readMessages (guardGoalAuditExchangePorts P cur) = p_readMessages P"
  "p_now (guardGoalAuditExchangePorts P cur) = p_now P"
  by (simp_all add: guardGoalAuditExchangePorts_def)

lemma described_goal:
  assumes "catalog_goal w = Some g" "g_objectiveFileKey g \<noteq> Some []" "0 < now"
  shows "getSessionGoal now (Some (describe_session s w)) = Some g"
  using described_reports [of s w] assms by (simp add: reports_def served_def shown_def)

lemma described_write:
  assumes "catalog_goal w = Some g" "g_objectiveFileKey g \<noteq> Some []" "0 < now" "safe_counter (hs_revision w)"
  shows "buildGoalWrite now (Some (describe_session s w)) n =
     Some (\<lparr> wb_goal = n, wb_expected_id = Some (g_id g), wb_expected_revision = hs_revision w \<rparr>, Some g)"
  using described_reports [of s w] described_goal [OF assms(1-3)] assms(4)
  by (simp add: buildGoalWrite_revision reports_def served_def safe_counter_def)

text \<open>C17.
  The loop does act. When a resumed goal is active with turns left, nobody else writes, no
  call fails and the last message is the closed one the tick saw, then the exchange counts
  the turn in the harness and sends exactly the continuation prompt for it.\<close>

theorem undisturbed_exchange_dispatches:
  assumes goal: "hs_goal w = Some g" "validatedDesktopGoal g" "g_objectiveFileKey g \<noteq> Some []"
    and live: "g_status g = Active" "g_turnsUsed g < MAX_AUTO_TURNS" "safe_counter (hs_revision w)"
    and clock: "g_createdAt g \<le> hs_now w" "is_safe (hs_now w)"
    and ready: "rt_goal ready = g" "rt_skipAudit ready"
    and script: "hs_script w = [plain_call \<lparr> cs_reply := None \<rparr>, plain_call \<lparr> cs_reply := None \<rparr>, plain_call \<lparr> cs_reply := messages \<rparr>]"
    and tail: "lastMessageTail messages = Some (rt_tailId ready, False)"
  shows "run_exchange allow s d (E, \<lambda>_. True, ready) w =
     (Inr (XDispatched (continueGoal g (hs_now w)) False),
      w \<lparr> hs_goal := Some (continueGoal g (hs_now w)), hs_revision := hs_revision w + 1, hs_script := [],
          hs_acts := hs_acts w @ [Applied (Some g) (continueGoal g (hs_now w)),
            Sent (buildGoalContinuationPrompt (ae_rules E) (continueGoal g (hs_now w)) (rt_objective ready))] \<rparr>)"
proof -
  let ?n = "continueGoal g (hs_now w)"
  have pos: "0 < hs_now w" using goal(2) clock(1) by (simp add: validatedDesktopGoal_def safe_counter_def)
  then have now: "max 1 (hs_now w) = hs_now w" by simp
  have n: "validatedDesktopGoal ?n" using goal(2) live clock pos
    by (auto simp: validatedDesktopGoal_def continueGoal_def safe_counter_def is_safe_def MAX_AUTO_TURNS_def)
  have "g_turnsUsed ?n \<noteq> g_turnsUsed g" by (simp add: continueGoal_def)
  then have ne: "g \<noteq> ?n" by metis
  have id: "isGoalFileSessionId (g_id g)" "g_id ?n = g_id g" using goal(2) by (simp_all add: validatedDesktopGoal_def continueGoal_def)
  have cat: "catalog_goal (w \<lparr> hs_script := cs \<rparr>) = Some g" for cs using goal by (simp add: catalog_goal_def)
  have drift: "\<not> accountingDrift g g" by (simp add: no_drift_fields)
  let ?P = "guardGoalAuditExchangePorts (harness_ports allow) (\<lambda>_. True)"
  let ?body = "\<lparr> wb_goal = ?n, wb_expected_id = Some (g_id g), wb_expected_revision = hs_revision w \<rparr>"
  let ?w4 = "w \<lparr> hs_goal := Some ?n, hs_revision := hs_revision w + 1, hs_script := [], hs_acts := hs_acts w @ [Applied (Some g) ?n] \<rparr>"
  have put: "put_goal ?body plain_call (w \<lparr> hs_script := [] \<rparr>) = (True, ?w4)"
    using n live(3) id goal(3) cat [of "[]"]
    by (simp add: put_goal_def goalCatalogMutation_def plain_call_def served_def shown_def)
  have same: "writeCandidate ?P s d (Some (describe_session s w)) g w1 = (Inr Unchanged, w1)" if "w1 = w \<lparr> hs_script := cs \<rparr>" for w1 cs
    using described_write [of w g "hs_now w" s g] goal live(3) pos now cat [of "hs_script w"] that
    by (simp add: writeCandidate_def clock_bind io_return_def)
  have slot: "writeCandidate ?P s d (Some (describe_session s w)) ?n (w \<lparr> hs_script := [] \<rparr>) = (Inr Written, ?w4)"
    using described_write [of w g "hs_now w" s ?n] goal live(3) pos now cat [of "hs_script w"] ne id put
    by (simp add: writeCandidate_def clock_bind io_return_def io_bind_def [of "port_call _ _"] plain_port_call)
  let ?msg = "buildGoalContinuationPrompt (ae_rules E) ?n (rt_objective ready)"
  let ?w5 = "?w4 \<lparr> hs_acts := hs_acts w @ [Applied (Some g) ?n, Sent ?msg] \<rparr>"
  have send: "refuseOrSend E ?P s d ?n (rt_objective ready) ?w4 = (Inr (Inr 200), ?w5)"
    by (simp add: refuseOrSend_def io_catch_def io_bind_def io_return_def plain_port_call answer_def) (simp add: plain_call_def)
  have msg: "send_slot E ?P s d g ?n rvn False (rt_objective ready) ?w4 = (Inr (XDispatched ?n False), ?w5)" for rvn
    by (simp add: send_slot_def io_bind_def send io_return_def)
  have desc: "describe_session s (w \<lparr> hs_script := cs \<rparr>) = describe_session s w" for cs
    by (simp add: describe_session_def catalog_goal_def)
  have read: "getSessionGoal (hs_now w) (Some (describe_session s w)) = Some g"
    using described_goal [of w g "hs_now w" s] goal pos cat [of "hs_script w"] by simp
  let ?c = "plain_call \<lparr> cs_reply := None \<rparr>"
  have disp: "dispatchGoalContinuation E ?P s d g False (rt_objective ready) (rt_tailId ready) (hs_now w)
      (w \<lparr> hs_script := [?c, plain_call \<lparr> cs_reply := messages \<rparr>] \<rparr>) = (Inr (XDispatched ?n False), ?w5)"
    using live drift tail
    by (simp add: dispatchGoalContinuation_def io_bind_def [of "port_call _ _"] clock_bind plain_port_call desc now read Let_def)
      (simp add: io_bind_def io_catch_def io_return_def slot msg)
  have "persistAccountingCandidate E ?P ready s d w = (Inr (XDispatched ?n False), ?w5)"
    using live drift ready script
    by (simp add: persistAccountingCandidate_def io_bind_def [of "port_call _ _"] clock_bind plain_port_call desc now read
        io_bind_def [of "writeCandidate _ _ _ _ _"] same disp)
  then show ?thesis using ready(2) by (simp add: run_exchange_def runGoalAuditExchange_def io_catch_def)
qed

definition sample_goal_harness :: "CallScript list \<Rightarrow> Harness" where
  "sample_goal_harness cs = \<lparr> hs_goal = Some sample_goal, hs_revision = 3, hs_script = cs, hs_acts = [], hs_now = 2000 \<rparr>"

definition sample_audit_env :: AuditEnv where
  "sample_audit_env = \<lparr> ae_parse = (\<lambda>_. None), ae_scripts = [], ae_rules = ''Keep going.'' \<rparr>"

definition sample_ready :: ReadyTick where
  "sample_ready = \<lparr> rt_goal = sample_goal, rt_objective = ''ship it'', rt_assistantText = [], rt_tailId = ''m1'', rt_skipAudit = True \<rparr>"

definition sample_messages :: unknown where
  "sample_messages = Some (JArr [JObj [(''info'', JObj [(''id'', JStr ''m1''), (''role'', JStr ''user'')])]])"

lemmas sample_eval = validatedDesktopGoal_def sample_goal_def buildGoalPayload_def isGoalFileSessionId_def id_class_def is_alnum_def
  goal_limit_defs trim_def trim_start_def trim_end_def js_space_def math_trunc_def safe_counter_def is_safe_def

lemma sample_goal_valid:
  "validatedDesktopGoal sample_goal" "g_status sample_goal = Active" "g_turnsUsed sample_goal = 0" "g_objectiveFileKey sample_goal = None"
  "g_createdAt sample_goal = 1000"
  by (simp_all add: sample_eval)

theorem undisturbed_exchange_dispatches_witness:
  "fst (run_exchange (\<lambda>_ _. False) ''ses'' ''/d'' (sample_audit_env, \<lambda>_. True, sample_ready)
     (sample_goal_harness [plain_call \<lparr> cs_reply := None \<rparr>, plain_call \<lparr> cs_reply := None \<rparr>, plain_call \<lparr> cs_reply := sample_messages \<rparr>])) =
   Inr (XDispatched (continueGoal sample_goal 2000) False)"
proof -
  let ?w = "sample_goal_harness [plain_call \<lparr> cs_reply := None \<rparr>, plain_call \<lparr> cs_reply := None \<rparr>, plain_call \<lparr> cs_reply := sample_messages \<rparr>]"
  have "lastMessageTail sample_messages = Some (rt_tailId sample_ready, False)"
    by (simp add: lastMessageTail_def last_info_def last_message_def sample_messages_def opt_prop_def sample_ready_def)
  then show ?thesis
    using undisturbed_exchange_dispatches [of ?w sample_goal sample_ready sample_messages "\<lambda>_ _. False" "''ses''" "''/d''" sample_audit_env] sample_goal_valid
    by (simp add: sample_goal_harness_def sample_ready_def MAX_AUTO_TURNS_def safe_counter_def is_safe_def)
qed

theorem automatic_prompts_bounded_witness:
  "\<exists>acts. hs_acts (fold (\<lambda>x w. snd (run_exchange (\<lambda>a b. turns a \<le> turns b) ''ses'' ''/d'' x w))
       (replicate 100 (sample_audit_env, \<lambda>_. True, sample_ready)) (sample_goal_harness [])) = acts \<and> sends acts \<le> 20"
proof -
  have "turns (fst (served (sample_goal_harness []))) = 0"
    using sample_goal_valid by (simp add: served_def catalog_goal_def sample_goal_harness_def turns_def shown_def)
  then show ?thesis
    using automatic_prompts_bounded [of "\<lambda>a b. turns a \<le> turns b" "''ses''" "''/d''"
        "replicate 100 (sample_audit_env, \<lambda>_. True, sample_ready)" "sample_goal_harness []"]
    by (simp add: MAX_AUTO_TURNS_def sample_goal_harness_def)
qed

section \<open>The safety tick\<close>

lemma io_bind_Inr: "io_bind m f w = (Inr y, w') \<longleftrightarrow> (\<exists>x w1. m w = (Inr x, w1) \<and> f x w1 = (Inr y, w'))"
  by (auto simp: io_bind_def split: prod.splits sum.splits)

lemma io_return_eq: "io_return x w = (r, w') \<longleftrightarrow> r = Inr x \<and> w' = w"
  by (auto simp: io_return_def)

lemma io_clock_eq: "io_clock P w = (r, w') \<longleftrightarrow> r = Inr (p_now P w) \<and> w' = w"
  by (auto simp: io_clock_def)

text \<open>The reads of a tick that found everything quiet.\<close>

definition quiet_session :: "'w GoalPorts \<Rightarrow> string \<Rightarrow> string \<Rightarrow> 'w \<Rightarrow> unknown \<Rightarrow> GoalPayload \<Rightarrow> unknown \<Rightarrow> int \<Rightarrow> bool" where
  "quiet_session P s d w session goal evidence now \<longleftrightarrow>
     (\<exists>w1 w2 w3 w4 st status children.
        p_readSession P s d w = (Inr session, w1) \<and> sessionRoot session \<and> opt_prop session ''id'' = Some (JStr s) \<and>
        getSessionGoal (p_now P w1) session = Some goal \<and> g_status goal = Active \<and>
        p_readStatus P d w1 = (Inr st, w2) \<and> plain_object st = Some status \<and> map_of status s = None \<and>
        p_readChildren P s d w2 = (Inr children, w3) \<and> childBusy children status = Some False \<and>
        p_readEvidence P s d w3 = (Inr evidence, w4) \<and> now = p_now P w4)"

lemma tick_work_ready:
  assumes "tick_work P s d goal charged skip w = (Inr (TickAnswer (TReady rt)), w')"
  shows "rt_goal rt = charged \<and> rt_objective rt \<noteq> [] \<and> rt_skipAudit rt = skip"
  using assms
  by (auto simp: tick_work_def tick_tail_def io_bind_Inr io_return_eq Let_def split: if_split_asm option.split_asm)

lemma tick_work_answers: "tick_work P s d goal charged skip w = (Inr (TickSettle session g), w') \<Longrightarrow> False"
  by (auto simp: tick_work_def io_bind_Inr io_return_eq Let_def split: if_split_asm)

lemma tick_body_quiet:
  assumes "tick_body P s d w = (Inr b, w')" "b = TickAnswer (TReady rt) \<or> b = TickSettle session g"
  shows "\<exists>session goal evidence now. quiet_session P s d w session goal evidence now \<and>
     (b = TickAnswer (TReady rt) \<longrightarrow>
        persisted_goal (decideNnaGoalEvidence goal s evidence now) = Some (rt_goal rt) \<and> rt_objective rt \<noteq> [] \<and>
        (rt_skipAudit rt \<longleftrightarrow> (\<exists>g. decideNnaGoalEvidence goal s evidence now = DContinue g))) \<and>
     (\<forall>session' g. b = TickSettle session' g \<longrightarrow> session' = session \<and> decideNnaGoalEvidence goal s evidence now = DSettle g)"
proof -
  obtain session w1 goal where r: "p_readSession P s d w = (Inr session, w1)" "sessionRoot session"
      "opt_prop session ''id'' = Some (JStr s)" "getSessionGoal (p_now P w1) session = Some goal" "g_status goal = Active"
      "tick_quiescence P s d session goal w1 = (Inr b, w')"
    using assms by (auto simp: tick_body_def io_bind_Inr io_return_eq io_clock_eq split: if_split_asm option.split_asm)
  obtain st w2 where st: "p_readStatus P d w1 = (Inr st, w2)"
      "(case plain_object st of None \<Rightarrow> io_return (TickAnswer (TWait ''status unavailable''))
        | Some status \<Rightarrow> if map_of status s \<noteq> None then io_return (TickAnswer (TWait ''session busy''))
            else io_bind (p_readChildren P s d) (\<lambda>children. case childBusy children status of
              None \<Rightarrow> io_return (TickAnswer (TWait ''children unavailable''))
            | Some busy \<Rightarrow> if busy then io_return (TickAnswer (TWait ''child busy''))
                else tick_evidence P s d session goal)) w2 = (Inr b, w')"
    using r(6) unfolding tick_quiescence_def io_bind_Inr by blast
  obtain status where status: "plain_object st = Some status" "map_of status s = None"
    using st(2) assms(2) by (auto simp: io_return_eq split: option.split_asm if_split_asm)
  obtain children w3 where ch: "p_readChildren P s d w2 = (Inr children, w3)"
      "(case childBusy children status of None \<Rightarrow> io_return (TickAnswer (TWait ''children unavailable''))
        | Some busy \<Rightarrow> if busy then io_return (TickAnswer (TWait ''child busy'')) else tick_evidence P s d session goal) w3 = (Inr b, w')"
    using st(2) status by (auto simp: io_bind_Inr)
  have "childBusy children status = Some False"
    using ch(2) assms(2) by (auto simp: io_return_eq split: option.split_asm if_split_asm)
  note q = st(1) status ch(1) this
  have q6: "tick_evidence P s d session goal w3 = (Inr b, w')" using ch(2) q(5) by simp
  obtain evidence w4 where e: "p_readEvidence P s d w3 = (Inr evidence, w4)"
    using q6 by (auto simp: tick_evidence_def io_bind_Inr)
  let ?d = "decideNnaGoalEvidence goal s evidence (p_now P w4)"
  have "quiet_session P s d w session goal evidence (p_now P w4)"
    using r q e unfolding quiet_session_def by blast
  moreover have "(b = TickAnswer (TReady rt) \<longrightarrow> persisted_goal ?d = Some (rt_goal rt) \<and> rt_objective rt \<noteq> [] \<and>
        (rt_skipAudit rt \<longleftrightarrow> (\<exists>g. ?d = DContinue g))) \<and> (\<forall>session' g. b = TickSettle session' g \<longrightarrow> session' = session \<and> ?d = DSettle g)"
    using q6 e
    by (cases ?d) (auto simp: tick_evidence_def io_bind_Inr io_return_eq io_clock_eq dest: tick_work_ready tick_work_answers)
  ultimately show ?thesis by blast
qed

definition never :: "('w, TickBody) io \<Rightarrow> GoalPayload \<Rightarrow> bool" where
  "never m g \<longleftrightarrow> (\<forall>w w'. m w \<noteq> (Inr (TickAnswer (TSettled g)), w'))"

lemma never_bind: "(\<And>x. never (f x) g) \<Longrightarrow> never (io_bind m f) g"
  by (auto simp: never_def io_bind_Inr)

lemma never_return: "r \<noteq> TickAnswer (TSettled g) \<Longrightarrow> never (io_return r) g"
  by (auto simp: never_def io_return_def)

lemma tick_tail_unsettled: "tick_tail charged skip objective messages \<noteq> TSettled g"
  by (simp add: tick_tail_def split: option.split)

lemma never_answers_settled: "tick_body P s d w \<noteq> (Inr (TickAnswer (TSettled g)), w')"
proof -
  have "never (tick_work P s d goal charged skip) g" for goal charged skip
    using tick_tail_unsettled by (auto simp: tick_work_def Let_def intro!: never_bind never_return split: option.split)
  then have "never (tick_evidence P s d session goal) g" for session goal
    by (auto simp: tick_evidence_def intro!: never_bind never_return split: GoalEvidenceDecision.split)
  then have "never (tick_quiescence P s d session goal) g" for session goal
    by (auto simp: tick_quiescence_def intro!: never_bind never_return split: option.split)
  then have "never (tick_body P s d) g"
    by (auto simp: tick_body_def intro!: never_bind never_return split: option.split)
  then show ?thesis by (simp add: never_def)
qed

lemma tick_body_of_run:
  assumes "runNnaGoalSafetyTick P s d w = (Inr r, w')" "r = TReady rt \<or> r = TSettled g"
  shows "\<exists>b w1. tick_body P s d w = (Inr b, w1) \<and>
     (r = TReady rt \<longrightarrow> b = TickAnswer (TReady rt)) \<and> (r = TSettled g \<longrightarrow> (\<exists>session. b = TickSettle session (Some g)))"
proof -
  have settled: "r' = TConflict \<or> r' = TSettled g'" if "settleWithCas P s d session g' w1 = (Inr r', w2)" for session g' w1 r' w2
    using that
    by (auto simp: settleWithCas_def io_bind_Inr io_return_eq io_clock_eq io_throw_def split: option.split_asm prod.split_asm if_split_asm)
  obtain b w1 where b: "io_catch (tick_body P s d) (\<lambda>_. io_return (TickAnswer (TWait ''goal tick dependency unavailable''))) w = (Inr b, w1)"
      "(case b of TickAnswer r \<Rightarrow> io_return r
        | TickSettle session (Some goal) \<Rightarrow> settleWithCas P s d session goal
        | TickSettle session None \<Rightarrow> io_throw OtherError) w1 = (Inr r, w')"
    using assms(1) unfolding runNnaGoalSafetyTick_def io_bind_Inr by blast
  have body: "tick_body P s d w = (Inr b, w1) \<or> b = TickAnswer (TWait ''goal tick dependency unavailable'')"
    using b(1) by (auto simp: io_catch_def io_return_eq split: prod.split_asm sum.split_asm)
  show ?thesis
  proof (cases b)
    case (TickAnswer a)
    then show ?thesis using assms(2) b(2) body never_answers_settled [of P s d w g w1] by (auto simp: io_return_eq)
  next
    case (TickSettle session x)
    then obtain a where x: "x = Some a" "settleWithCas P s d session a w1 = (Inr r, w')"
      using b(2) by (cases x) (auto simp: io_throw_def)
    then show ?thesis using assms(2) TickSettle body settled [OF x(2)] by auto
  qed
qed

text \<open>C16.
  The safety tick lets the loop act only on a quiet session. When it hands a goal on or
  settles it, the session it read was a root session with an active goal, neither the
  session nor a child of it was busy, and the payload is what the evidence decided: for a
  goal handed on, charged, active, within its budget and turns, and with an objective.\<close>

theorem tick_acts_only_when_quiet:
  assumes "runNnaGoalSafetyTick P s d w = (Inr r, w')" "r = TReady rt \<or> r = TSettled g"
  shows "\<exists>session goal evidence now. quiet_session P s d w session goal evidence now \<and>
     (r = TReady rt \<longrightarrow> persisted_goal (decideNnaGoalEvidence goal s evidence now) = Some (rt_goal rt) \<and>
        g_status (rt_goal rt) = Active \<and> within_limits (rt_goal rt) \<and> rt_objective rt \<noteq> []) \<and>
     (r = TSettled g \<longrightarrow> decideNnaGoalEvidence goal s evidence now = DSettle (Some g) \<and> g_status g \<in> {Blocked, Paused, BudgetLimited})"
proof -
  obtain b w1 where b: "tick_body P s d w = (Inr b, w1)" "r = TReady rt \<longrightarrow> b = TickAnswer (TReady rt)"
      "r = TSettled g \<longrightarrow> (\<exists>session. b = TickSettle session (Some g))"
    using tick_body_of_run [OF assms] by blast
  then obtain session where "b = TickAnswer (TReady rt) \<or> b = TickSettle session (Some g)" using b(2,3) assms(2) by blast
  from tick_body_quiet [OF b(1) this]
  obtain session goal evidence now where q: "quiet_session P s d w session goal evidence now"
      "b = TickAnswer (TReady rt) \<longrightarrow> persisted_goal (decideNnaGoalEvidence goal s evidence now) = Some (rt_goal rt) \<and> rt_objective rt \<noteq> []"
      "\<forall>session' g. b = TickSettle session' g \<longrightarrow> decideNnaGoalEvidence goal s evidence now = DSettle g"
    by blast
  have ready: "g_status g' = Active \<and> within_limits g'" if "persisted_goal (decideNnaGoalEvidence goal s evidence now) = Some g'" for g'
    using decide_persistedD [OF that] that decide_charged_audit_iff decide_charged_continue
    by (cases "decideNnaGoalEvidence goal s evidence now") fastforce+
  have "g_status g' \<in> {Blocked, Paused, BudgetLimited}" if "decideNnaGoalEvidence goal s evidence now = DSettle (Some g')" for g'
    using decided_settlement [OF that] by blast
  then show ?thesis using q ready b by metis
qed

text \<open>A tick on the harness whose calls answer in turn: the session, its status, its
  children, the evidence.\<close>

definition tick_script :: "CallScript list" where
  "tick_script = map (\<lambda>v. plain_call \<lparr> cs_reply := v \<rparr>) [None, Some (JObj []), Some (JArr []), sample_evidence]"

definition tick_harness :: "GoalPayload \<Rightarrow> CallScript list \<Rightarrow> Harness" where
  "tick_harness g cs = \<lparr> hs_goal = Some g, hs_revision = 3, hs_script = tick_script @ cs, hs_acts = [], hs_now = 2000 \<rparr>"

lemma more_port_simps [simp]:
  "p_readStatus (harness_ports allow) = (\<lambda>_. port_call allow (\<lambda>c w. (cs_reply c, w)))"
  "p_readChildren (harness_ports allow) = (\<lambda>_ _. port_call allow (\<lambda>c w. (cs_reply c, w)))"
  "p_readEvidence (harness_ports allow) = (\<lambda>_ _. port_call allow (\<lambda>c w. (cs_reply c, w)))"
  "p_readObjective (harness_ports allow) = (\<lambda>_ _. port_call allow (\<lambda>c w. (case cs_reply c of Some (JStr s) \<Rightarrow> Some s | _ \<Rightarrow> None, w)))"
  by (simp_all add: harness_ports_def)

lemma tick_reaches_evidence:
  assumes g: "validatedDesktopGoal g" "g_objectiveFileKey g \<noteq> Some []" "g_status g = Active"
  shows "tick_body (harness_ports allow) ''ses'' d (tick_harness g cs) =
     (case decideNnaGoalEvidence g ''ses'' sample_evidence 2000 of
        DSettle x \<Rightarrow> io_return (TickSettle (Some (describe_session ''ses'' (tick_harness g cs))) x)
      | DWait _ \<Rightarrow> io_return (TickAnswer (TWait ''no new completed turn''))
      | DAudit charged _ \<Rightarrow> tick_work (harness_ports allow) ''ses'' d g charged False
      | DContinue charged \<Rightarrow> tick_work (harness_ports allow) ''ses'' d g charged True) ((tick_harness g cs) \<lparr> hs_script := cs \<rparr>)"
proof -
  let ?w = "tick_harness g cs"
  have cat: "catalog_goal (?w \<lparr> hs_script := xs \<rparr>) = Some g" for xs using g by (simp add: catalog_goal_def tick_harness_def)
  have desc: "describe_session ''ses'' (?w \<lparr> hs_script := xs \<rparr>) = describe_session ''ses'' ?w" for xs
    by (simp add: describe_session_def catalog_goal_def)
  have goal: "getSessionGoal 2000 (Some (describe_session ''ses'' ?w)) = Some g"
    using described_goal [of ?w g 2000 "''ses''"] g(2) cat [of "hs_script ?w"] by simp
  have root: "sessionRoot (Some (describe_session ''ses'' ?w))" "opt_prop (Some (describe_session ''ses'' ?w)) ''id'' = Some (JStr ''ses'')"
    by (simp_all add: sessionRoot_def describe_session_def opt_prop_def)
  have now: "hs_now ?w = 2000" by (simp add: tick_harness_def)
  have script: "hs_script ?w = tick_script @ cs" by (simp add: tick_harness_def)
  show ?thesis
    using script g(3)
    by (simp add: tick_body_def tick_quiescence_def tick_evidence_def tick_script_def io_bind_def [of "port_call _ _"] clock_bind
        plain_port_call desc goal root now split: GoalEvidenceDecision.split)
qed

lemma resumed_sample_valid:
  "validatedDesktopGoal (resumed_sample \<lparr> g_tokenBudget := Some 50 \<rparr>)" "validatedDesktopGoal resumed_sample"
  "g_objectiveFileKey resumed_sample = None" "g_status resumed_sample = Active"
  by (simp_all add: resumed_sample_def sample_eval)

theorem tick_acts_only_when_quiet_witness:
  "\<exists>rt w'. runNnaGoalSafetyTick (harness_ports (\<lambda>_ _. False)) ''ses'' ''/d''
       (tick_harness resumed_sample (map (\<lambda>v. plain_call \<lparr> cs_reply := v \<rparr>) [Some (JStr ''ship it''),
          Some (JArr [JObj [(''info'', JObj [(''id'', JStr ''m2''), (''role'', JStr ''assistant''), (''time'', JObj [(''completed'', GInt 7)])]), (''parts'', JArr [])]])])) =
     (Inr (TReady rt), w') \<and> within_limits (rt_goal rt)"
proof -
  let ?w = "tick_harness resumed_sample (map (\<lambda>v. plain_call \<lparr> cs_reply := v \<rparr>) [Some (JStr ''ship it''),
          Some (JArr [JObj [(''info'', JObj [(''id'', JStr ''m2''), (''role'', JStr ''assistant''), (''time'', JObj [(''completed'', GInt 7)])]), (''parts'', JArr [])]])])"
  have "\<exists>rt w'. runNnaGoalSafetyTick (harness_ports (\<lambda>_ _. False)) ''ses'' ''/d'' ?w = (Inr (TReady rt), w')"
    using resumed_sample_valid
    by (simp add: runNnaGoalSafetyTick_def io_bind_def io_catch_def tick_reaches_evidence decide_sample_defs tick_work_def tick_tail_def
        plain_port_call io_return_def trim_def trim_start_def trim_end_def js_space_def assistantTail_def last_info_def last_message_def opt_prop_def)
  then obtain rt w' where run: "runNnaGoalSafetyTick (harness_ports (\<lambda>_ _. False)) ''ses'' ''/d'' ?w = (Inr (TReady rt), w')" by blast
  show ?thesis using tick_acts_only_when_quiet [OF run, of rt] run by blast
qed

lemma settlement_not_caught:
  "tick_body P s d w = (Inr (TickSettle session (Some g)), w1) \<Longrightarrow> settleWithCas P s d session g w1 = (Inl e, w2) \<Longrightarrow>
     runNnaGoalSafetyTick P s d w = (Inl e, w2)"
  by (simp add: runNnaGoalSafetyTick_def io_bind_def io_catch_def io_return_def)

lemma settle_read_fails:
  "buildGoalWrite (p_now P w) session g \<noteq> None \<Longrightarrow> p_readSession P s d w = (Inl e, w') \<Longrightarrow>
     settleWithCas P s d session g w = (Inl e, w')"
  by (auto simp: settleWithCas_def clock_bind) (simp add: io_bind_def)

text \<open>A settling decision is returned without being awaited, so an error of the settlement is not
  caught as the errors of the reads are: a tick over a goal that has used up its budget fails when
  the read before the settlement fails, and with it the promise the runtime started without a
  handler.\<close>

theorem settlement_error_escapes_tick:
  "\<exists>w'. runNnaGoalSafetyTick (harness_ports (\<lambda>_ _. False)) ''ses'' ''/d''
     (tick_harness (resumed_sample \<lparr> g_tokenBudget := Some 50 \<rparr>) [plain_call \<lparr> cs_fails := True \<rparr>]) = (Inl OtherError, w')"
proof -
  let ?g = "resumed_sample \<lparr> g_tokenBudget := Some 50 \<rparr>"
  let ?w = "tick_harness ?g [plain_call \<lparr> cs_fails := True \<rparr>]"
  let ?w1 = "?w \<lparr> hs_script := [plain_call \<lparr> cs_fails := True \<rparr>] \<rparr>"
  obtain g' where "decideNnaGoalEvidence ?g ''ses'' sample_evidence 2000 = DSettle (Some g')"
    by (simp add: decide_sample_defs settleGoal_def)
  then have body: "tick_body (harness_ports (\<lambda>_ _. False)) ''ses'' ''/d'' ?w =
      (Inr (TickSettle (Some (describe_session ''ses'' ?w)) (Some g')), ?w1)"
    using tick_reaches_evidence [of ?g] resumed_sample_valid by (simp add: io_return_def)
  have "buildGoalWrite 2000 (Some (describe_session ''ses'' ?w)) g' \<noteq> None"
    using described_write [of ?w ?g 2000 "''ses''" g'] resumed_sample_valid
    by (simp add: tick_harness_def catalog_goal_def safe_counter_def is_safe_def)
  moreover have "\<exists>w2. p_readSession (harness_ports (\<lambda>_ _. False)) ''ses'' ''/d'' ?w1 = (Inl OtherError, w2)"
    by (simp add: port_call_def plain_call_def)
  ultimately have "\<exists>w2. settleWithCas (harness_ports (\<lambda>_ _. False)) ''ses'' ''/d'' (Some (describe_session ''ses'' ?w)) g' ?w1 = (Inl OtherError, w2)"
    using settle_read_fails [of "harness_ports (\<lambda>_ _. False)" ?w1] by (auto simp: tick_harness_def)
  then show ?thesis using settlement_not_caught [OF body] by blast
qed

section \<open>A blind spot of the drift check\<close>

text \<open>
  The comparison that is to detect a user edit looks only at the keys of the older payload.
  A file key that the user has added since is not seen, and the exchange writes the payload
  without it: the goal then points at the legacy objective file again.\<close>

theorem drift_misses_added_file_key:
  assumes "g_objectiveFileKey basis = None"
  shows "\<not> accountingDrift (basis \<lparr> g_objectiveFileKey := Some key, g_updatedAt := now \<rparr>) basis \<and>
         accountingDrift basis (basis \<lparr> g_objectiveFileKey := Some key, g_updatedAt := now \<rparr>)"
proof -
  have "\<not> accountingDrift (basis \<lparr> g_objectiveFileKey := Some key, g_updatedAt := now \<rparr>) basis"
    using assms by (simp add: no_drift_fields)
  moreover have "\<not> \<not> accountingDrift basis (basis \<lparr> g_objectiveFileKey := Some key, g_updatedAt := now \<rparr>)"
    using assms unfolding no_drift_fields by simp
  ultimately show ?thesis by blast
qed

end
