(* ===== verification/Goal_Runtime.thy ===== *)
theory Goal_Runtime
  imports Goal_Exchange
begin

text \<open>
  The event-driven runner of the goal loop (\<open>nna-goal-runtime.ts\<close>): timers, ticks in
  flight, generations and pending wake-ups per session. The clock and the feature gate
  are arguments; a change of the gate and the call of \<open>settingsChanged\<close> that the settings
  make for it are one step, and the answer of \<open>listSessions\<close> in \<open>reconcile\<close> is a step of
  its own. A tick is cut at its awaits, so that events, timers of other sessions,
  setting changes and a disposal may come in between; a running tick keeps what its
  closures captured. The steps are labelled, and the state carries one ghost flag per
  running tick: whether since its start the session was reported busy, deleted or without
  an active goal, the gate was closed, or the runtime was disposed.
\<close>

section \<open>State\<close>

record GoalTiming =
  gt_idleMs :: int
  gt_kickoffMs :: int
  gt_resumeMs :: int

definition DEFAULT_TIMING :: GoalTiming where
  "DEFAULT_TIMING = \<lparr> gt_idleMs = IDLE_QUIET_MS, gt_kickoffMs = KICKOFF_QUIET_MS, gt_resumeMs = RESUME_KICKOFF_MS \<rparr>"

record GoalRuntime =
  gr_timers :: "(string \<times> int) list"
  gr_directories :: "(string \<times> string) list"
  gr_inFlight :: "string list"
  gr_generations :: "(string \<times> nat) list"
  gr_exchangeGenerations :: "(string \<times> nat) list"
  gr_pending :: "(string \<times> int) list"
  gr_stopped :: bool

definition fresh_runtime :: GoalRuntime where
  "fresh_runtime = \<lparr> gr_timers = [], gr_directories = [], gr_inFlight = [], gr_generations = [],
     gr_exchangeGenerations = [], gr_pending = [], gr_stopped = False \<rparr>"

definition count_of :: "(string \<times> nat) list \<Rightarrow> string \<Rightarrow> nat" where
  "count_of m i = (case map_of m i of Some n \<Rightarrow> n | None \<Rightarrow> 0)"

section \<open>Operations\<close>

definition goal_clear :: "string \<Rightarrow> GoalRuntime \<Rightarrow> GoalRuntime" where
  "goal_clear i rt = rt \<lparr> gr_timers := AList.delete i (gr_timers rt) \<rparr>"

definition goal_invalidate :: "string \<Rightarrow> GoalRuntime \<Rightarrow> GoalRuntime" where
  "goal_invalidate i rt =
     goal_clear i (rt \<lparr> gr_generations := AList.update i (count_of (gr_generations rt) i + 1) (gr_generations rt),
                        gr_pending := AList.delete i (gr_pending rt) \<rparr>)"

definition invalidateExchange :: "string \<Rightarrow> GoalRuntime \<Rightarrow> GoalRuntime" where
  "invalidateExchange i rt =
     rt \<lparr> gr_exchangeGenerations := AList.update i (count_of (gr_exchangeGenerations rt) i + 1) (gr_exchangeGenerations rt) \<rparr>"

definition remember_directory :: "string \<Rightarrow> unknown \<Rightarrow> GoalRuntime \<Rightarrow> GoalRuntime \<times> bool" where
  "remember_directory i directory rt =
     (let rt' = (case directory of
                   Some (JStr d) \<Rightarrow> if d \<noteq> [] then rt \<lparr> gr_directories := AList.update i d (gr_directories rt) \<rparr> else rt
                 | _ \<Rightarrow> rt)
      in (rt', map_of (gr_directories rt') i \<noteq> None))"

text \<open>\<open>Math.min(delay, this.pending.get(id) ?? Infinity)\<close>.\<close>

definition set_pending :: "string \<Rightarrow> int \<Rightarrow> GoalRuntime \<Rightarrow> GoalRuntime" where
  "set_pending i delay rt =
     rt \<lparr> gr_pending := AList.update i (case map_of (gr_pending rt) i of Some p \<Rightarrow> min delay p | None \<Rightarrow> delay) (gr_pending rt) \<rparr>"

definition goal_arm :: "int \<Rightarrow> string \<Rightarrow> int \<Rightarrow> GoalRuntime \<Rightarrow> GoalRuntime" where
  "goal_arm now i delay rt =
     (if i \<in> set (gr_inFlight rt) then set_pending i delay rt
      else let due = now + max 0 delay
           in case map_of (gr_timers rt) i of
                Some prev \<Rightarrow> if prev \<le> due then rt else rt \<lparr> gr_timers := AList.update i due (gr_timers rt) \<rparr>
              | None \<Rightarrow> rt \<lparr> gr_timers := AList.update i due (gr_timers rt) \<rparr>)"

definition goal_delay :: "GoalTiming \<Rightarrow> GoalPayload \<Rightarrow> int" where
  "goal_delay T goal = (if g_statusReason goal = reason_resumed then gt_resumeMs T
     else if g_turnsUsed goal = 0 then gt_kickoffMs T else gt_idleMs T)"

record GoalEnvelope =
  ge_type :: string
  ge_properties :: unknown
  ge_directory :: unknown

text \<open>\<open>a ?? b\<close>.\<close>

fun first_defined :: "unknown \<Rightarrow> unknown \<Rightarrow> unknown" where
  "first_defined None b = b"
| "first_defined (Some JNull) b = b"
| "first_defined a b = a"

definition envelope_session :: "GoalEnvelope \<Rightarrow> string option" where
  "envelope_session e =
     (case plain_object (ge_properties e) of
        None \<Rightarrow> None
      | Some p \<Rightarrow> (case first_defined (map_of p ''sessionID'') (map_of p ''sessionId'') of
                     Some (JStr i) \<Rightarrow> if i = [] then None else Some i | _ \<Rightarrow> None))"

definition envelope_info :: "GoalEnvelope \<Rightarrow> (string \<times> json) list option" where
  "envelope_info e = (case plain_object (ge_properties e) of Some p \<Rightarrow> plain_object (map_of p ''info'') | None \<Rightarrow> None)"

definition status_type :: "GoalEnvelope \<Rightarrow> unknown" where
  "status_type e = (case plain_object (ge_properties e) of
     Some p \<Rightarrow> (case plain_object (map_of p ''status'') of Some st \<Rightarrow> map_of st ''type'' | None \<Rightarrow> None) | None \<Rightarrow> None)"

definition both_invalid :: "string \<Rightarrow> GoalRuntime \<Rightarrow> GoalRuntime" where
  "both_invalid i rt = invalidateExchange i (goal_invalidate i rt)"

definition on_status :: "GoalTiming \<Rightarrow> int \<Rightarrow> string \<Rightarrow> unknown \<Rightarrow> GoalRuntime \<Rightarrow> GoalRuntime" where
  "on_status T now i ty rt =
     (if ty = Some (JStr ''idle'') then goal_arm now i (gt_idleMs T) rt
      else if ty = Some (JStr ''busy'') \<or> ty = Some (JStr ''retry'') then both_invalid i rt else rt)"

definition active_goal :: "int \<Rightarrow> (string \<times> json) list \<Rightarrow> GoalPayload option" where
  "active_goal now info = (case getSessionGoal now (Some (JObj info)) of
     Some g \<Rightarrow> if g_status g = Active then Some g else None | None \<Rightarrow> None)"

definition on_updated :: "GoalTiming \<Rightarrow> int \<Rightarrow> string \<Rightarrow> (string \<times> json) list \<Rightarrow> GoalRuntime \<Rightarrow> GoalRuntime" where
  "on_updated T now i info rt =
     (case active_goal now info of
        None \<Rightarrow> both_invalid i rt
      | Some goal \<Rightarrow>
          if i \<in> set (gr_inFlight rt) then
            goal_arm now i (goal_delay T goal)
              (rt \<lparr> gr_generations := AList.update i (count_of (gr_generations rt) i + 1) (gr_generations rt) \<rparr>)
          else if g_statusReason goal = reason_resumed then goal_arm now i (gt_resumeMs T) rt
          else if g_turnsUsed goal = 0 then goal_arm now i (gt_kickoffMs T) rt
          else rt)"

definition goal_onEvent :: "GoalTiming \<Rightarrow> bool \<Rightarrow> int \<Rightarrow> GoalEnvelope \<Rightarrow> GoalRuntime \<Rightarrow> GoalRuntime" where
  "goal_onEvent T enabled now e rt =
     (if gr_stopped rt then rt
      else case envelope_session e of
        None \<Rightarrow> rt
      | Some i \<Rightarrow>
          if ge_type e = ''session.deleted'' then
            (let rt' = both_invalid i rt in rt' \<lparr> gr_directories := AList.delete i (gr_directories rt') \<rparr>)
          else case remember_directory i (first_defined (ge_directory e) (case envelope_info e of Some info \<Rightarrow> map_of info ''directory'' | None \<Rightarrow> None)) rt of
            (rt1, known) \<Rightarrow>
              if \<not> known then rt1
              else if \<not> enabled then both_invalid i rt1
              else let rt2 = (if ge_type e = ''session.status'' then on_status T now i (status_type e) rt1 else rt1)
                   in (case envelope_info e of
                         Some info \<Rightarrow> if ge_type e = ''session.updated'' \<and> \<not> truthy (map_of info ''parentID'')
                                      then on_updated T now i info rt2 else rt2
                       | None \<Rightarrow> rt2))"

definition goal_settingsChanged :: "bool \<Rightarrow> GoalRuntime \<Rightarrow> GoalRuntime" where
  "goal_settingsChanged enabled rt =
     (if gr_stopped rt \<or> enabled then rt else fold both_invalid (map fst (gr_directories rt)) rt)"

definition goal_dispose :: "GoalRuntime \<Rightarrow> GoalRuntime" where
  "goal_dispose rt = rt \<lparr> gr_stopped := True, gr_timers := [], gr_directories := [], gr_generations := [],
     gr_exchangeGenerations := [], gr_pending := [] \<rparr>"

text \<open>One session of the answer of \<open>listSessions\<close> in \<open>reconcile\<close>.\<close>

definition reconcile_session :: "GoalTiming \<Rightarrow> int \<Rightarrow> json \<Rightarrow> GoalRuntime \<Rightarrow> GoalRuntime" where
  "reconcile_session T now raw rt =
     (case plain_object (Some raw) of
        None \<Rightarrow> rt
      | Some item \<Rightarrow>
          (case map_of item ''id'' of
             Some (JStr i) \<Rightarrow>
               if truthy (map_of item ''parentID'') then rt
               else (case remember_directory i (map_of item ''directory'') rt of
                       (rt1, known) \<Rightarrow>
                         if \<not> known then rt1
                         else (case active_goal now item of
                                 None \<Rightarrow> rt1
                               | Some goal \<Rightarrow> if map_of (gr_timers rt1) i \<noteq> None then rt1
                                              else goal_arm now i (goal_delay T goal) rt1))
           | _ \<Rightarrow> rt))"

definition goal_reconcile :: "GoalTiming \<Rightarrow> int \<Rightarrow> unknown \<Rightarrow> GoalRuntime \<Rightarrow> GoalRuntime" where
  "goal_reconcile T now sessions rt =
     (if gr_stopped rt then rt
      else case sessions of Some (JArr items) \<Rightarrow> fold (reconcile_session T now) items rt | _ \<Rightarrow> rt)"

section \<open>Ticks\<close>

text \<open>A tick in flight with what it captured; in its second phase it waits for the
  exchange, under the exchange generation of its start.\<close>

record RunningTick =
  rn_id :: string
  rn_generation :: nat
  rn_directory :: string
  rn_exchange :: "nat option"

definition tick_start :: "GoalTiming \<Rightarrow> bool \<Rightarrow> string \<Rightarrow> GoalRuntime \<Rightarrow> GoalRuntime \<times> RunningTick option" where
  "tick_start T enabled i rt =
     (if gr_stopped rt \<or> \<not> enabled then (rt, None)
      else if i \<in> set (gr_inFlight rt) then (set_pending i (gt_idleMs T) rt, None)
      else case map_of (gr_directories rt) i of
             None \<Rightarrow> (rt, None)
           | Some d \<Rightarrow>
               if d = [] then (rt, None)
               else (rt \<lparr> gr_inFlight := i # gr_inFlight rt \<rparr>,
                     Some \<lparr> rn_id = i, rn_generation = count_of (gr_generations rt) i, rn_directory = d, rn_exchange = None \<rparr>))"

definition stillCurrent :: "bool \<Rightarrow> RunningTick \<Rightarrow> GoalRuntime \<Rightarrow> bool" where
  "stillCurrent enabled t rt \<longleftrightarrow> \<not> gr_stopped rt \<and> enabled \<and> rn_generation t = count_of (gr_generations rt) (rn_id t) \<and>
     map_of (gr_directories rt) (rn_id t) = Some (rn_directory t)"

definition exchangeCurrent :: "bool \<Rightarrow> RunningTick \<Rightarrow> nat \<Rightarrow> GoalRuntime \<Rightarrow> bool" where
  "exchangeCurrent enabled t n rt \<longleftrightarrow> \<not> gr_stopped rt \<and> enabled \<and> n = count_of (gr_exchangeGenerations rt) (rn_id t) \<and>
     map_of (gr_directories rt) (rn_id t) = Some (rn_directory t)"

text \<open>The answer of the safety tick: \<open>Some\<close> a tick that goes on to its exchange, \<open>None\<close> one
  that is over.\<close>

definition tick_answer :: "GoalTiming \<Rightarrow> bool \<Rightarrow> int \<Rightarrow> PortError + GoalSafetyTickResult \<Rightarrow> RunningTick \<Rightarrow> GoalRuntime \<Rightarrow>
    GoalRuntime \<times> RunningTick option" where
  "tick_answer T enabled now r t rt =
     (case r of
        Inl e \<Rightarrow> (rt, None)
      | Inr a \<Rightarrow>
          if \<not> stillCurrent enabled t rt then (rt, None)
          else (case a of
                  TReady x \<Rightarrow> (rt, Some (t \<lparr> rn_exchange := Some (count_of (gr_exchangeGenerations rt) (rn_id t)) \<rparr>))
                | TWait reason \<Rightarrow>
                    (if reason \<in> {''status unavailable'', ''goal tick dependency unavailable''} then goal_arm now (rn_id t) (gt_idleMs T) rt else rt, None)
                | _ \<Rightarrow> (rt, None)))"

definition tick_finally :: "int \<Rightarrow> string \<Rightarrow> GoalRuntime \<Rightarrow> GoalRuntime" where
  "tick_finally now i rt =
     (let rt1 = rt \<lparr> gr_inFlight := removeAll i (gr_inFlight rt), gr_pending := AList.delete i (gr_pending rt) \<rparr>
      in case map_of (gr_pending rt) i of
           Some p \<Rightarrow> if \<not> gr_stopped rt \<and> map_of (gr_directories rt) i \<noteq> None then goal_arm now i p rt1 else rt1
         | None \<Rightarrow> rt1)"

section \<open>Interleaving\<close>

record RtSystem =
  sy_rt :: GoalRuntime
  sy_running :: "(RunningTick \<times> bool) list"
  sy_enabled :: bool
  sy_now :: int

text \<open>An event after which nothing more may be done for the session.\<close>

definition stop_event :: "bool \<Rightarrow> int \<Rightarrow> GoalEnvelope \<Rightarrow> string \<Rightarrow> bool" where
  "stop_event enabled now e i \<longleftrightarrow> envelope_session e = Some i \<and>
     (ge_type e = ''session.deleted'' \<or> \<not> enabled \<or>
      ge_type e = ''session.status'' \<and> (status_type e = Some (JStr ''busy'') \<or> status_type e = Some (JStr ''retry'')) \<or>
      ge_type e = ''session.updated'' \<and>
        (case envelope_info e of Some info \<Rightarrow> \<not> truthy (map_of info ''parentID'') \<and> active_goal now info = None | None \<Rightarrow> False))"

datatype RtLabel =
    OnEvent GoalEnvelope
  | OnSettings bool
  | TimePasses int
  | TimerFires string
  | ExchangeStarts string
  | TickEnds string
  | OnSessions unknown
  | Dispose

fun stops :: "RtLabel \<Rightarrow> RtSystem \<Rightarrow> string \<Rightarrow> bool" where
  "stops (OnEvent e) s i = stop_event (sy_enabled s) (sy_now s) e i"
| "stops (OnSettings b) s i = (\<not> b)"
| "stops Dispose s i = True"
| "stops _ s i = False"

definition mark_stopped :: "RtLabel \<Rightarrow> RtSystem \<Rightarrow> (RunningTick \<times> bool) list" where
  "mark_stopped l s = map (\<lambda>(t, c). (t, c \<or> stops l s (rn_id t))) (sy_running s)"

text \<open>What ends a tick: its answer, when that starts no exchange, or the end of its exchange.\<close>

definition tick_over :: "GoalTiming \<Rightarrow> RtSystem \<Rightarrow> RunningTick \<Rightarrow> GoalRuntime \<Rightarrow> bool" where
  "tick_over T s t rt \<longleftrightarrow> (case rn_exchange t of
     None \<Rightarrow> (\<exists>r. tick_answer T (sy_enabled s) (sy_now s) r t (sy_rt s) = (rt, None))
   | Some n \<Rightarrow> rt = sy_rt s)"

inductive goal_rt_step :: "GoalTiming \<Rightarrow> RtLabel \<Rightarrow> RtSystem \<Rightarrow> RtSystem \<Rightarrow> bool" for T where
  rs_event: "goal_rt_step T (OnEvent e) s (s \<lparr> sy_rt := goal_onEvent T (sy_enabled s) (sy_now s) e (sy_rt s),
      sy_running := mark_stopped (OnEvent e) s \<rparr>)"
| rs_settings: "goal_rt_step T (OnSettings b) s (s \<lparr> sy_enabled := b, sy_rt := goal_settingsChanged b (sy_rt s),
      sy_running := mark_stopped (OnSettings b) s \<rparr>)"
| rs_wait: "sy_now s \<le> n \<Longrightarrow> goal_rt_step T (TimePasses n) s (s \<lparr> sy_now := n \<rparr>)"
| rs_fire: "map_of (gr_timers (sy_rt s)) i = Some due \<Longrightarrow> due \<le> sy_now s \<Longrightarrow>
    tick_start T (sy_enabled s) i (goal_clear i (sy_rt s)) = (rt, started) \<Longrightarrow>
    goal_rt_step T (TimerFires i) s (s \<lparr> sy_rt := rt, sy_running := (case started of Some t \<Rightarrow> [(t, False)] | None \<Rightarrow> []) @ sy_running s \<rparr>)"
| rs_ready: "(t, c) \<in> set (sy_running s) \<Longrightarrow> rn_exchange t = None \<Longrightarrow>
    tick_answer T (sy_enabled s) (sy_now s) r t (sy_rt s) = (rt, Some t') \<Longrightarrow>
    goal_rt_step T (ExchangeStarts (rn_id t)) s
      (s \<lparr> sy_rt := rt, sy_running := map (\<lambda>x. if rn_id (fst x) = rn_id t then (t', c) else x) (sy_running s) \<rparr>)"
| rs_over: "(t, c) \<in> set (sy_running s) \<Longrightarrow> tick_over T s t rt \<Longrightarrow>
    goal_rt_step T (TickEnds (rn_id t)) s
      (s \<lparr> sy_rt := tick_finally (sy_now s) (rn_id t) rt, sy_running := filter (\<lambda>x. rn_id (fst x) \<noteq> rn_id t) (sy_running s) \<rparr>)"
| rs_reconcile: "goal_rt_step T (OnSessions sessions) s (s \<lparr> sy_rt := goal_reconcile T (sy_now s) sessions (sy_rt s) \<rparr>)"
| rs_dispose: "goal_rt_step T Dispose s (s \<lparr> sy_rt := goal_dispose (sy_rt s), sy_running := mark_stopped Dispose s \<rparr>)"

inductive goal_rt_run :: "GoalTiming \<Rightarrow> RtSystem \<Rightarrow> bool" for T where
  run_start: "sy_rt s = fresh_runtime \<Longrightarrow> sy_running s = [] \<Longrightarrow> goal_rt_run T s"
| run_step: "goal_rt_run T s \<Longrightarrow> goal_rt_step T l s s' \<Longrightarrow> goal_rt_run T s'"

text \<open>The fence of a running tick, and the ports it calls: the tick itself writes its
  settlement through them, its exchange writes, asks the auditor and sends. The recovery of a
  skipped send is not fenced.\<close>

definition fence_open :: "RtSystem \<Rightarrow> RunningTick \<Rightarrow> bool" where
  "fence_open s t \<longleftrightarrow> (case rn_exchange t of
     None \<Rightarrow> stillCurrent (sy_enabled s) t (sy_rt s)
   | Some n \<Rightarrow> exchangeCurrent (sy_enabled s) t n (sy_rt s))"

definition guardTickPorts :: "'w GoalPorts \<Rightarrow> ('w \<Rightarrow> bool) \<Rightarrow> 'w GoalPorts" where
  "guardTickPorts P isCurrent =
     P \<lparr> p_writeGoal := (\<lambda>i d body w. if isCurrent w then p_writeGoal P i d body w else (Inr False, w)) \<rparr>"

definition ports_of :: "'w GoalPorts \<Rightarrow> RtSystem \<Rightarrow> RunningTick \<Rightarrow> 'w GoalPorts" where
  "ports_of P s t = (if rn_exchange t = None then guardTickPorts P (\<lambda>_. fence_open s t)
     else guardGoalAuditExchangePorts P (\<lambda>_. fence_open s t))"

text \<open>What the recovery of a skipped send does to the world: it reads the session, and writes at
  most once. It writes the payload from before the exchange, marked as resumed, and only when the
  session it read still holds what the exchange had stored, under the revision expected for it.\<close>

definition restores_only ::
  "'w GoalPorts \<Rightarrow> string \<Rightarrow> string \<Rightarrow> GoalPayload \<Rightarrow> GoalPayload \<Rightarrow> int \<Rightarrow> 'w \<Rightarrow> 'w \<Rightarrow> bool" where
  "restores_only P i d stored prior expected w w' \<longleftrightarrow> (\<exists>x w1. p_readSession P i d w = (x, w1) \<and>
     (w' = w1 \<or> (\<exists>session current body. x = Inr session \<and> getSessionGoal (p_now P w1) session = Some current \<and>
        sameGoalPayload current stored \<and> readGoalRevision session = Some expected \<and>
        wb_goal body = prior \<lparr> g_statusReason := reason_resumed, g_updatedAt := p_now P w1 \<rparr> \<and>
        wb_expected_id body = Some (g_id current) \<and> w' = snd (p_writeGoal P i d body w1))))"

lemma recover_restores: "restores_only P i d stored prior expected w (snd (recover_skipped P i d stored prior expected w))"
proof -
  obtain x w1 where r: "p_readSession P i d w = (x, w1)" by fastforce
  show ?thesis
  proof (cases "\<exists>session current body old. x = Inr session \<and> getSessionGoal (p_now P w1) session = Some current \<and>
      readGoalRevision session = Some expected \<and> sameGoalPayload current stored \<and>
      buildGoalWrite (p_now P w1) session (prior \<lparr> g_statusReason := reason_resumed, g_updatedAt := p_now P w1 \<rparr>) = Some (body, old)")
    case True
    then obtain session current body old where *: "x = Inr session" "getSessionGoal (p_now P w1) session = Some current"
      "readGoalRevision session = Some expected" "sameGoalPayload current stored"
      "buildGoalWrite (p_now P w1) session (prior \<lparr> g_statusReason := reason_resumed, g_updatedAt := p_now P w1 \<rparr>) = Some (body, old)"
      by blast
    then have "wb_goal body = prior \<lparr> g_statusReason := reason_resumed, g_updatedAt := p_now P w1 \<rparr>"
      "wb_expected_id body = Some (g_id current)"
      by (auto simp: buildGoalWrite_def Let_def split: option.splits if_splits)
    moreover have "snd (recover_skipped P i d stored prior expected w) = snd (p_writeGoal P i d body w1)"
      using * r by (simp add: recover_skipped_def io_bind_def io_clock_def)
    ultimately show ?thesis using * r unfolding restores_only_def by blast
  next
    case False
    then have "snd (recover_skipped P i d stored prior expected w) = w1"
      using r by (auto simp: recover_skipped_def io_bind_def io_clock_def io_return_def io_throw_def split: sum.split option.split)
    then show ?thesis using r unfolding restores_only_def by blast
  qed
qed

lemma closed_fence:
  assumes "\<not> fence_open s t"
  shows "rn_exchange t = None \<Longrightarrow> p_writeGoal (ports_of P s t) i d body w = (Inr False, w)"
    "rn_exchange t \<noteq> None \<Longrightarrow> p_writeGoal (ports_of P s t) i d body w = (Inl RuntimeInactive, w)"
    "rn_exchange t \<noteq> None \<Longrightarrow> \<exists>wire. p_runAudit (ports_of P s t) i d audit w = (Inr wire, w) \<and> aw_status wire = 409"
    "rn_exchange t \<noteq> None \<Longrightarrow> p_sendPrompt (ports_of P s t) i d prompt w = (Inl RuntimeInactive, w)"
    "rn_exchange t \<noteq> None \<Longrightarrow> p_recoverSkippedSend (ports_of P s t) = Some (recover_skipped P)"
  using assms by (cases "rn_exchange t"; simp add: ports_of_def guardTickPorts_def guardGoalAuditExchangePorts_def)+

subsection \<open>The invariant\<close>

definition rt_core :: "GoalRuntime \<Rightarrow> bool" where
  "rt_core rt \<longleftrightarrow>
     (\<forall>i. map_of (gr_timers rt) i \<noteq> None \<longrightarrow> i \<notin> set (gr_inFlight rt) \<and> map_of (gr_directories rt) i \<noteq> None) \<and>
     (\<forall>i. map_of (gr_pending rt) i \<noteq> None \<longrightarrow> i \<in> set (gr_inFlight rt) \<and> map_of (gr_directories rt) i \<noteq> None) \<and>
     (\<forall>i. map_of (gr_directories rt) i \<noteq> Some []) \<and>
     (gr_stopped rt \<longrightarrow> gr_timers rt = [] \<and> gr_pending rt = [] \<and> gr_directories rt = [])"

definition tick_ok :: "GoalRuntime \<Rightarrow> RunningTick \<times> bool \<Rightarrow> bool" where
  "tick_ok rt x \<longleftrightarrow> (case x of (t, c) \<Rightarrow>
     (\<not> gr_stopped rt \<longrightarrow> rn_generation t \<le> count_of (gr_generations rt) (rn_id t) \<and>
        (case rn_exchange t of Some n \<Rightarrow> n \<le> count_of (gr_exchangeGenerations rt) (rn_id t) | None \<Rightarrow> True)) \<and>
     (c \<longrightarrow> gr_stopped rt \<or> (case rn_exchange t of
        Some n \<Rightarrow> n < count_of (gr_exchangeGenerations rt) (rn_id t)
      | None \<Rightarrow> rn_generation t < count_of (gr_generations rt) (rn_id t))) \<and>
     (\<not> c \<longrightarrow> \<not> gr_stopped rt \<and> map_of (gr_directories rt) (rn_id t) \<noteq> None \<and>
        (case rn_exchange t of Some n \<Rightarrow> n = count_of (gr_exchangeGenerations rt) (rn_id t) | None \<Rightarrow> True)))"

definition goal_rt_inv :: "RtSystem \<Rightarrow> bool" where
  "goal_rt_inv s \<longleftrightarrow> rt_core (sy_rt s) \<and> distinct (map (rn_id \<circ> fst) (sy_running s)) \<and>
     set (gr_inFlight (sy_rt s)) = rn_id ` fst ` set (sy_running s) \<and> (\<forall>x \<in> set (sy_running s). tick_ok (sy_rt s) x \<and> (snd x \<or> sy_enabled s))"

lemma count_update [simp]: "count_of (AList.update i n m) j = (if j = i then n else count_of m j)"
  by (simp add: count_of_def update_conv')

text \<open>The operations leave ticks in flight alone and let counters only grow.\<close>

definition counters_grow :: "GoalRuntime \<Rightarrow> GoalRuntime \<Rightarrow> bool" where
  "counters_grow rt rt' \<longleftrightarrow> gr_inFlight rt' = gr_inFlight rt \<and> gr_stopped rt' = gr_stopped rt \<and>
     (\<forall>i. count_of (gr_generations rt) i \<le> count_of (gr_generations rt') i \<and>
          count_of (gr_exchangeGenerations rt) i \<le> count_of (gr_exchangeGenerations rt') i)"

lemma counters_grow_refl [simp]: "counters_grow rt rt"
  by (simp add: counters_grow_def)

lemma counters_grow_trans: "counters_grow a b \<Longrightarrow> counters_grow b c \<Longrightarrow> counters_grow a c"
  unfolding counters_grow_def by (auto intro: order_trans)

lemma arm_counters [simp]: "counters_grow rt (goal_arm now i delay rt)" "gr_directories (goal_arm now i delay rt) = gr_directories rt"
  by (auto simp: goal_arm_def counters_grow_def set_pending_def Let_def split: option.split)

lemma invalid_counters [simp]: "counters_grow rt (both_invalid i rt)" "gr_directories (both_invalid i rt) = gr_directories rt"
  by (auto simp: both_invalid_def invalidateExchange_def goal_invalidate_def goal_clear_def counters_grow_def)

lemma invalid_strict:
  "count_of (gr_generations rt) i < count_of (gr_generations (both_invalid i rt)) i"
  "count_of (gr_exchangeGenerations rt) i < count_of (gr_exchangeGenerations (both_invalid i rt)) i"
  by (auto simp: both_invalid_def invalidateExchange_def goal_invalidate_def goal_clear_def)

lemma remember_keeps:
  "remember_directory i d rt = (rt', known) \<Longrightarrow> counters_grow rt rt' \<and> known = (map_of (gr_directories rt') i \<noteq> None) \<and>
     (\<forall>j. map_of (gr_directories rt) j \<noteq> None \<longrightarrow> map_of (gr_directories rt') j \<noteq> None) \<and>
     (rt_core rt \<longrightarrow> \<not> gr_stopped rt \<longrightarrow> rt_core rt') \<and> gr_exchangeGenerations rt' = gr_exchangeGenerations rt"
  by (auto simp: remember_directory_def Let_def counters_grow_def rt_core_def update_conv' split: option.split_asm json.split_asm if_split_asm)

lemma same_exchanges [simp]:
  "gr_exchangeGenerations (goal_arm now i delay rt) = gr_exchangeGenerations rt"
  "count_of (gr_exchangeGenerations (both_invalid i rt)) j = count_of (gr_exchangeGenerations rt) j + (if j = i then 1 else 0)"
  by (auto simp: goal_arm_def set_pending_def Let_def both_invalid_def invalidateExchange_def goal_invalidate_def goal_clear_def split: option.split)

lemma arm_core: "rt_core rt \<Longrightarrow> map_of (gr_directories rt) i \<noteq> None \<Longrightarrow> rt_core (goal_arm now i delay rt)"
  by (auto simp: rt_core_def goal_arm_def set_pending_def Let_def update_conv' split: option.split)

lemma invalid_core: "rt_core rt \<Longrightarrow> rt_core (both_invalid i rt)"
  by (auto simp: rt_core_def both_invalid_def invalidateExchange_def goal_invalidate_def goal_clear_def delete_conv')

lemma tick_ok_keep:
  assumes "tick_ok rt (t, c)" "counters_grow rt rt'" "\<not> c \<longrightarrow> map_of (gr_directories rt') (rn_id t) \<noteq> None \<and>
     count_of (gr_exchangeGenerations rt') (rn_id t) = count_of (gr_exchangeGenerations rt) (rn_id t)"
  shows "tick_ok rt' (t, c)"
  using assms unfolding tick_ok_def counters_grow_def
  by (auto split: option.split_asm option.split intro: order_trans less_le_trans)

lemma tick_ok_cancel:
  assumes "tick_ok rt (t, c)" "gr_stopped rt' = gr_stopped rt"
    "count_of (gr_generations rt) (rn_id t) < count_of (gr_generations rt') (rn_id t)"
    "count_of (gr_exchangeGenerations rt) (rn_id t) < count_of (gr_exchangeGenerations rt') (rn_id t)"
  shows "tick_ok rt' (t, True)"
  using assms unfolding tick_ok_def by (auto split: option.split_asm option.split)

lemma tick_ok_dir: "tick_ok rt (t, False) \<Longrightarrow> map_of (gr_directories rt) (rn_id t) \<noteq> None \<and> \<not> gr_stopped rt"
  by (simp add: tick_ok_def)

lemma invalid_after:
  "counters_grow rt rt1 \<Longrightarrow> count_of (gr_generations rt) i < count_of (gr_generations (both_invalid i rt1)) i"
  "counters_grow rt rt1 \<Longrightarrow> count_of (gr_exchangeGenerations rt) i < count_of (gr_exchangeGenerations (both_invalid i rt1)) i"
  using invalid_strict [of rt1 i] unfolding counters_grow_def by (meson le_less_trans)+

lemma status_effect:
  assumes "rt_core rt" "map_of (gr_directories rt) i \<noteq> None"
  shows "counters_grow rt (on_status T now i ty rt)" "rt_core (on_status T now i ty rt)" "gr_directories (on_status T now i ty rt) = gr_directories rt"
  using assms arm_core invalid_core by (auto simp: on_status_def)

lemma bump_core:
  "rt_core rt \<Longrightarrow> rt_core (rt \<lparr> gr_generations := m \<rparr>)"
  by (simp add: rt_core_def)

lemma updated_effect:
  assumes "rt_core rt" "map_of (gr_directories rt) i \<noteq> None"
  shows "counters_grow rt (on_updated T now i info rt)" "rt_core (on_updated T now i info rt)" "gr_directories (on_updated T now i info rt) = gr_directories rt"
proof -
  let ?rt = "rt \<lparr> gr_generations := AList.update i (count_of (gr_generations rt) i + 1) (gr_generations rt) \<rparr>"
  have b: "counters_grow rt ?rt" by (simp add: counters_grow_def)
  have c: "rt_core ?rt" using assms(1) by (rule bump_core)
  show "counters_grow rt (on_updated T now i info rt)"
    using counters_grow_trans [OF b] by (auto simp: on_updated_def split: option.split)
  show "rt_core (on_updated T now i info rt)"
    using assms arm_core [OF c] arm_core invalid_core by (auto simp: on_updated_def split: option.split)
  show "gr_directories (on_updated T now i info rt) = gr_directories rt"
    by (auto simp: on_updated_def split: option.split)
qed

text \<open>What a synchronous operation guarantees to the ticks in flight: counters only grow,
  known sessions stay known, and for a stopped session both counters have grown.\<close>

definition op_effect :: "(string \<Rightarrow> bool) \<Rightarrow> GoalRuntime \<Rightarrow> GoalRuntime \<Rightarrow> bool" where
  "op_effect stop rt rt' \<longleftrightarrow> counters_grow rt rt' \<and> rt_core rt' \<and>
     (\<forall>j. \<not> stop j \<longrightarrow> map_of (gr_directories rt) j \<noteq> None \<longrightarrow> map_of (gr_directories rt') j \<noteq> None \<and>
        count_of (gr_exchangeGenerations rt') j = count_of (gr_exchangeGenerations rt) j) \<and>
     (\<forall>i. stop i \<longrightarrow> map_of (gr_directories rt) i \<noteq> None \<longrightarrow>
        count_of (gr_generations rt) i < count_of (gr_generations rt') i \<and>
        count_of (gr_exchangeGenerations rt) i < count_of (gr_exchangeGenerations rt') i)"

lemma op_effect_invalid:
  assumes "counters_grow rt rt1" "rt_core rt1" "\<forall>j. map_of (gr_directories rt) j \<noteq> None \<longrightarrow> map_of (gr_directories rt1) j \<noteq> None"
    "\<forall>j. stop j \<longleftrightarrow> j = i" "gr_exchangeGenerations rt1 = gr_exchangeGenerations rt"
  shows "op_effect stop rt (both_invalid i rt1)"
  using assms invalid_after [OF assms(1)] invalid_core [OF assms(2)] counters_grow_trans [OF assms(1) invalid_counters(1)]
  unfolding op_effect_def by auto

lemma op_effect_quiet:
  assumes "counters_grow rt rt1" "rt_core rt1" "\<forall>j. map_of (gr_directories rt) j \<noteq> None \<longrightarrow> map_of (gr_directories rt1) j \<noteq> None"
    "\<forall>j. map_of (gr_directories rt) j \<noteq> None \<longrightarrow> \<not> stop j" "gr_exchangeGenerations rt1 = gr_exchangeGenerations rt"
  shows "op_effect stop rt rt1"
  using assms unfolding op_effect_def by auto

lemma event_of_known:
  assumes rem: "remember_directory i (first_defined (ge_directory e) (case envelope_info e of Some info \<Rightarrow> map_of info ''directory'' | None \<Rightarrow> None)) rt = (rt1, True)"
    and e: "envelope_session e = Some i" "ge_type e \<noteq> ''session.deleted''" and live: "\<not> gr_stopped rt" and core: "rt_core rt"
  shows "op_effect (stop_event True now e) rt (goal_onEvent T True now e rt)"
proof -
  note r1 = remember_keeps [OF rem]
  have core1: "rt_core rt1" and known: "map_of (gr_directories rt1) i \<noteq> None" using r1 core live by auto
  have inv: "op_effect (stop_event True now e) rt (both_invalid i rt1)" if "stop_event True now e i"
    using r1 core1 that e by (intro op_effect_invalid) (auto simp: stop_event_def)
  consider (status) "ge_type e = ''session.status''"
    | (updated) info where "ge_type e = ''session.updated''" "envelope_info e = Some info" "\<not> truthy (map_of info ''parentID'')"
    | (other) "ge_type e \<noteq> ''session.status''" "ge_type e = ''session.updated'' \<longrightarrow> (\<forall>info. envelope_info e = Some info \<longrightarrow> truthy (map_of info ''parentID''))"
    by blast
  then show ?thesis
  proof cases
    case status
    then have eq: "goal_onEvent T True now e rt = on_status T now i (status_type e) rt1"
      using rem e live by (auto simp: goal_onEvent_def Let_def split: option.split)
    show ?thesis
    proof (cases "status_type e = Some (JStr ''busy'') \<or> status_type e = Some (JStr ''retry'')")
      case True
      then have "on_status T now i (status_type e) rt1 = both_invalid i rt1" by (auto simp: on_status_def)
      then show ?thesis using inv True status e eq by (simp add: stop_event_def)
    next
      case False
      then have "\<not> stop_event True now e j" "gr_exchangeGenerations (on_status T now i (status_type e) rt1) = gr_exchangeGenerations rt1" for j
        using status e by (simp_all add: stop_event_def on_status_def)
      then show ?thesis unfolding eq using status_effect [OF core1 known] r1 counters_grow_trans [OF conjunct1 [OF r1]]
        by (intro op_effect_quiet) simp_all
    qed
  next
    case updated
    then have eq: "goal_onEvent T True now e rt = on_updated T now i info rt1"
      using rem e live by (simp add: goal_onEvent_def)
    show ?thesis
    proof (cases "active_goal now info")
      case None
      then have "on_updated T now i info rt1 = both_invalid i rt1" by (simp add: on_updated_def)
      then show ?thesis using inv None updated e eq by (simp add: stop_event_def)
    next
      case Some
      then have "\<not> stop_event True now e j" "gr_exchangeGenerations (on_updated T now i info rt1) = gr_exchangeGenerations rt1" for j
        using updated e by (simp_all add: stop_event_def on_updated_def)
      then show ?thesis unfolding eq using updated_effect [OF core1 known] r1 counters_grow_trans [OF conjunct1 [OF r1]]
        by (intro op_effect_quiet) simp_all
    qed
  next
    case other
    then have "goal_onEvent T True now e rt = rt1"
      using rem e live by (auto simp: goal_onEvent_def split: option.split)
    moreover have "\<not> stop_event True now e j" for j using other e by (auto simp: stop_event_def split: option.split)
    ultimately show ?thesis using r1 core1 by (intro op_effect_quiet) simp_all
  qed
qed

lemma event_effect:
  assumes core: "rt_core rt" and live: "\<not> gr_stopped rt"
  shows "op_effect (stop_event enabled now e) rt (goal_onEvent T enabled now e rt)"
proof (cases "envelope_session e")
  case None
  then show ?thesis using core live by (intro op_effect_quiet) (simp_all add: goal_onEvent_def stop_event_def)
next
  case (Some i)
  show ?thesis
  proof (cases "ge_type e = ''session.deleted''")
    case True
    let ?b = "both_invalid i rt"
    have eq: "goal_onEvent T enabled now e rt = ?b \<lparr> gr_directories := AList.delete i (gr_directories ?b) \<rparr>"
      using True Some live by (simp add: goal_onEvent_def Let_def)
    have "rt_core (?b \<lparr> gr_directories := AList.delete i (gr_directories ?b) \<rparr>)" using core
      by (auto simp: rt_core_def both_invalid_def invalidateExchange_def goal_invalidate_def goal_clear_def delete_conv')
    moreover have "op_effect (stop_event enabled now e) rt ?b"
      using core Some True by (intro op_effect_invalid) (auto simp: stop_event_def)
    ultimately show ?thesis using True Some unfolding eq
      by (auto simp: stop_event_def delete_conv' op_effect_def counters_grow_def)
  next
    case False
    obtain rt1 known where rem: "remember_directory i (first_defined (ge_directory e)
        (case envelope_info e of Some info \<Rightarrow> map_of info ''directory'' | None \<Rightarrow> None)) rt = (rt1, known)" by fastforce
    note r1 = remember_keeps [OF rem]
    have core1: "rt_core rt1" using r1 core live by blast
    consider "\<not> known" | "known" "\<not> enabled" | "known" "enabled" by blast
    then show ?thesis
    proof cases
      case 1
      then have eq: "goal_onEvent T enabled now e rt = rt1" using rem False Some live by (simp add: goal_onEvent_def)
      show ?thesis unfolding eq using r1 core1 1 Some by (intro op_effect_quiet) (auto simp: stop_event_def)
    next
      case 2
      then have eq: "goal_onEvent T enabled now e rt = both_invalid i rt1" using rem False Some live by (simp add: goal_onEvent_def)
      show ?thesis unfolding eq using r1 core1 Some 2 by (intro op_effect_invalid) (auto simp: stop_event_def)
    next
      case 3
      then show ?thesis using event_of_known [OF _ Some False live core] rem by simp
    qed
  qed
qed

lemma invalid_all_effect:
  "rt_core rt \<Longrightarrow> counters_grow rt (fold both_invalid ids rt) \<and> rt_core (fold both_invalid ids rt) \<and>
     gr_directories (fold both_invalid ids rt) = gr_directories rt \<and>
     (\<forall>i \<in> set ids. count_of (gr_generations rt) i < count_of (gr_generations (fold both_invalid ids rt)) i \<and>
        count_of (gr_exchangeGenerations rt) i < count_of (gr_exchangeGenerations (fold both_invalid ids rt)) i)"
proof (induction ids arbitrary: rt)
  case (Cons i ids)
  let ?b = "both_invalid i rt"
  note IH = Cons.IH [OF invalid_core [OF Cons.prems, of i]]
  have g: "counters_grow ?b (fold both_invalid ids ?b)" using IH by blast
  have "count_of (gr_generations rt) j < count_of (gr_generations (fold both_invalid ids ?b)) j \<and>
      count_of (gr_exchangeGenerations rt) j < count_of (gr_exchangeGenerations (fold both_invalid ids ?b)) j"
    if "j = i \<or> j \<in> set ids" for j
  proof (cases "j = i")
    case True
    then show ?thesis using invalid_strict [of rt i] g unfolding counters_grow_def by (meson less_le_trans)
  next
    case False
    then show ?thesis using that IH invalid_counters(1) [of rt i] unfolding counters_grow_def by (meson le_less_trans)
  qed
  then show ?case using IH counters_grow_trans [OF invalid_counters(1) g] by simp
qed simp

lemma settings_effect:
  assumes "rt_core rt" "\<not> gr_stopped rt"
  shows "op_effect (\<lambda>_. \<not> b) rt (goal_settingsChanged b rt)"
  using assms invalid_all_effect [OF assms(1), of "map fst (gr_directories rt)"]
  by (auto simp: op_effect_def goal_settingsChanged_def map_of_eq_None_iff)

lemma reconcile_session_effect:
  assumes "rt_core rt" "\<not> gr_stopped rt"
  shows "op_effect (\<lambda>_. False) rt (reconcile_session T now raw rt)"
proof -
  have quiet: "op_effect (\<lambda>_. False) rt rt1 \<and> (known \<longrightarrow> op_effect (\<lambda>_. False) rt (goal_arm now i delay rt1))"
    if rem: "remember_directory i d rt = (rt1, known)" for i d rt1 known delay
  proof -
    note r = remember_keeps [OF rem]
    have core: "rt_core rt1" using r assms by blast
    have "op_effect (\<lambda>_. False) rt rt1" using r core by (simp add: op_effect_def)
    moreover have "op_effect (\<lambda>_. False) rt (goal_arm now i delay rt1)" if known
      using r arm_core [OF core, of i now delay] that counters_grow_trans [OF conjunct1 [OF r]] by (simp add: op_effect_def)
    ultimately show ?thesis by blast
  qed
  have same: "op_effect (\<lambda>_. False) rt rt" using assms by (simp add: op_effect_def)
  show ?thesis
    using same quiet unfolding reconcile_session_def
    by (auto split: option.split json.split prod.split)
qed

lemma op_effect_trans:
  "op_effect (\<lambda>_. False) a b \<Longrightarrow> op_effect (\<lambda>_. False) b c \<Longrightarrow> op_effect (\<lambda>_. False) a c"
  unfolding op_effect_def using counters_grow_trans [of a b c] by auto

lemma reconcile_effect:
  assumes "rt_core rt" "\<not> gr_stopped rt"
  shows "op_effect (\<lambda>_. False) rt (goal_reconcile T now sessions rt)"
proof -
  have "op_effect (\<lambda>_. False) rt (fold (reconcile_session T now) items rt)" for items
    using assms
  proof (induction items arbitrary: rt)
    case (Cons x xs)
    have x: "op_effect (\<lambda>_. False) rt (reconcile_session T now x rt)" using Cons.prems by (rule reconcile_session_effect)
    then have "rt_core (reconcile_session T now x rt)" "\<not> gr_stopped (reconcile_session T now x rt)"
      using Cons.prems by (simp_all add: op_effect_def counters_grow_def)
    from op_effect_trans [OF x Cons.IH [OF this]] show ?case by simp
  qed (simp add: op_effect_def)
  then show ?thesis using assms by (auto simp: goal_reconcile_def op_effect_def split: option.split json.split)
qed

lemma effect_tick:
  assumes "op_effect stop rt rt'" "tick_ok rt (t, c)"
  shows "tick_ok rt' (t, c \<or> stop (rn_id t))"
proof (cases "\<not> c \<and> stop (rn_id t)")
  case True
  then have "map_of (gr_directories rt) (rn_id t) \<noteq> None" using assms(2) by (simp add: tick_ok_def)
  then show ?thesis using tick_ok_cancel [OF assms(2)] assms(1) True by (simp add: op_effect_def counters_grow_def)
next
  case False
  then show ?thesis using tick_ok_keep [OF assms(2), of rt'] assms(1) tick_ok_dir [of rt t] assms(2)
    by (cases c) (auto simp: op_effect_def)
qed

lemma mark_ids:
  "map (rn_id \<circ> fst) (mark_stopped l s) = map (rn_id \<circ> fst) (sy_running s)"
  "rn_id ` fst ` set (mark_stopped l s) = rn_id ` fst ` set (sy_running s)"
  by (force simp: mark_stopped_def)+

text \<open>The steps that run one operation to its end.\<close>

lemma inv_operation:
  assumes inv: "goal_rt_inv s" and rt': "gr_stopped (sy_rt s) \<Longrightarrow> rt' = sy_rt s"
    and eff: "\<not> gr_stopped (sy_rt s) \<Longrightarrow> op_effect (stops l s) (sy_rt s) rt'"
    and gate: "b = sy_enabled s \<or> b \<or> (\<forall>i. stops l s i)"
  shows "goal_rt_inv (s \<lparr> sy_enabled := b, sy_rt := rt', sy_running := mark_stopped l s \<rparr>)"
proof -
  note ids = mark_ids [of l s]
  have ok: "tick_ok rt' (t, c \<or> stops l s (rn_id t))" if "(t, c) \<in> set (sy_running s)" for t c
  proof (cases "gr_stopped (sy_rt s)")
    case True
    then show ?thesis using inv that rt' by (auto simp: goal_rt_inv_def tick_ok_def)
  next
    case False
    then show ?thesis using effect_tick [OF eff] inv that by (auto simp: goal_rt_inv_def)
  qed
  have "rt_core rt' \<and> gr_inFlight rt' = gr_inFlight (sy_rt s)"
    using inv rt' eff by (cases "gr_stopped (sy_rt s)") (auto simp: goal_rt_inv_def op_effect_def counters_grow_def)
  moreover have "\<forall>x \<in> set (mark_stopped l s). tick_ok rt' x \<and> (snd x \<or> b)"
    using ok gate inv by (auto simp: mark_stopped_def goal_rt_inv_def)
  ultimately show ?thesis using inv unfolding goal_rt_inv_def by (simp add: ids)
qed

lemma mark_nothing: "(\<And>i. \<not> stops l s i) \<Longrightarrow> mark_stopped l s = sy_running s"
  by (simp add: mark_stopped_def case_prod_beta)


lemma start_effect:
  assumes core: "rt_core rt" and start: "tick_start T enabled i (goal_clear i rt) = (rt', started)" and timer: "map_of (gr_timers rt) i \<noteq> None"
  shows "rt_core rt' \<and> counters_grow rt (rt' \<lparr> gr_inFlight := gr_inFlight rt \<rparr>) \<and> gr_directories rt' = gr_directories rt \<and>
     gr_exchangeGenerations rt' = gr_exchangeGenerations rt \<and> i \<notin> set (gr_inFlight rt) \<and>
     (case started of None \<Rightarrow> \<not> enabled \<and> gr_inFlight rt' = gr_inFlight rt
      | Some t \<Rightarrow> enabled \<and> gr_inFlight rt' = i # gr_inFlight rt \<and> rn_id t = i \<and> tick_ok rt' (t, False))"
proof -
  have known: "map_of (gr_directories rt) i \<noteq> None" "map_of (gr_directories rt) i \<noteq> Some []" "i \<notin> set (gr_inFlight rt)" "\<not> gr_stopped rt"
    using core timer by (auto simp: rt_core_def)
  then show ?thesis using core start
    by (auto simp: tick_start_def goal_clear_def counters_grow_def tick_ok_def rt_core_def delete_conv' split: if_split_asm option.split_asm)
qed

lemma answer_over:
  assumes "tick_answer T enabled now r t rt = (rt', None)" "rn_id t \<in> set (gr_inFlight rt)"
  shows "rt' = rt \<or> rt' = set_pending (rn_id t) (gt_idleMs T) rt \<and> map_of (gr_directories rt) (rn_id t) \<noteq> None"
  using assms by (auto simp: tick_answer_def goal_arm_def stillCurrent_def split: sum.split_asm if_split_asm GoalSafetyTickResult.split_asm)

lemma answer_exchange:
  assumes "tick_answer T enabled now r t rt = (rt', Some t')"
  shows "rt' = rt \<and> stillCurrent enabled t rt \<and> t' = t \<lparr> rn_exchange := Some (count_of (gr_exchangeGenerations rt) (rn_id t)) \<rparr>"
  using assms by (auto simp: tick_answer_def split: sum.split_asm if_split_asm GoalSafetyTickResult.split_asm)

lemma tick_over_cases:
  assumes "tick_over T s t rt" "rn_id t \<in> set (gr_inFlight (sy_rt s))"
  shows "rt = sy_rt s \<or> rt = set_pending (rn_id t) (gt_idleMs T) (sy_rt s) \<and> map_of (gr_directories (sy_rt s)) (rn_id t) \<noteq> None"
  using assms answer_over by (fastforce simp: tick_over_def split: option.split_asm)

lemma set_pending_core:
  "rt_core rt \<Longrightarrow> i \<in> set (gr_inFlight rt) \<Longrightarrow> map_of (gr_directories rt) i \<noteq> None \<Longrightarrow> rt_core (set_pending i d rt)"
  by (auto simp: rt_core_def set_pending_def update_conv')

lemma finally_effect:
  assumes "rt_core rt" "i \<in> set (gr_inFlight rt)"
  shows "rt_core (tick_finally now i rt)" "set (gr_inFlight (tick_finally now i rt)) = set (gr_inFlight rt) - {i}"
    "gr_stopped (tick_finally now i rt) = gr_stopped rt" "gr_generations (tick_finally now i rt) = gr_generations rt"
    "gr_exchangeGenerations (tick_finally now i rt) = gr_exchangeGenerations rt" "gr_directories (tick_finally now i rt) = gr_directories rt"
proof -
  let ?r = "rt \<lparr> gr_inFlight := removeAll i (gr_inFlight rt), gr_pending := AList.delete i (gr_pending rt) \<rparr>"
  have core: "rt_core ?r" using assms(1) by (auto simp: rt_core_def delete_conv')
  show "rt_core (tick_finally now i rt)"
    using core arm_core [OF core, of i] by (auto simp: tick_finally_def Let_def split: option.split)
qed (auto simp: tick_finally_def goal_arm_def Let_def split: option.split)

lemma tick_ok_cong:
  assumes "gr_stopped rt' = gr_stopped rt" "gr_generations rt' = gr_generations rt"
    "gr_exchangeGenerations rt' = gr_exchangeGenerations rt" "gr_directories rt' = gr_directories rt"
  shows "tick_ok rt' x = tick_ok rt x"
  unfolding tick_ok_def assms ..

lemma inv_fire:
  assumes inv: "goal_rt_inv s" and timer: "map_of (gr_timers (sy_rt s)) i = Some due"
    and start: "tick_start T (sy_enabled s) i (goal_clear i (sy_rt s)) = (rt, started)"
  shows "goal_rt_inv (s \<lparr> sy_rt := rt, sy_running := (case started of Some t \<Rightarrow> [(t, False)] | None \<Rightarrow> []) @ sy_running s \<rparr>)"
proof -
  have core: "rt_core (sy_rt s)" using inv by (simp add: goal_rt_inv_def)
  note e = start_effect [OF core start]
  have grow: "counters_grow (sy_rt s) (rt \<lparr> gr_inFlight := gr_inFlight (sy_rt s) \<rparr>)" and dirs: "gr_directories rt = gr_directories (sy_rt s)"
    and exch: "gr_exchangeGenerations rt = gr_exchangeGenerations (sy_rt s)"
    using e timer by auto
  have "tick_ok (rt \<lparr> gr_inFlight := gr_inFlight (sy_rt s) \<rparr>) (t, c)" if "(t, c) \<in> set (sy_running s)" for t c
  proof -
    have ok: "tick_ok (sy_rt s) (t, c)" using inv that by (auto simp: goal_rt_inv_def)
    then have "\<not> c \<longrightarrow> map_of (gr_directories rt) (rn_id t) \<noteq> None \<and>
        count_of (gr_exchangeGenerations rt) (rn_id t) = count_of (gr_exchangeGenerations (sy_rt s)) (rn_id t)"
      using dirs exch by (simp add: tick_ok_def)
    then show ?thesis using tick_ok_keep [OF ok grow] by simp
  qed
  then have "\<forall>x \<in> set (sy_running s). tick_ok rt x"
    by (auto simp: tick_ok_cong [of rt "rt \<lparr> gr_inFlight := gr_inFlight (sy_rt s) \<rparr>"])
  then show ?thesis using inv e timer unfolding goal_rt_inv_def by (cases started) auto
qed

lemma inv_ready:
  assumes inv: "goal_rt_inv s" and t: "(t, c) \<in> set (sy_running s)" "rn_exchange t = None"
    and ans: "tick_answer T (sy_enabled s) (sy_now s) r t (sy_rt s) = (rt, Some t')"
  shows "goal_rt_inv (s \<lparr> sy_rt := rt, sy_running := map (\<lambda>x. if rn_id (fst x) = rn_id t then (t', c) else x) (sy_running s) \<rparr>)"
proof -
  let ?f = "\<lambda>x. if rn_id (fst x) = rn_id t then (t', c) else x"
  note a = answer_exchange [OF ans]
  have id: "rn_id t' = rn_id t" using a by simp
  have ids: "rn_id (fst (?f x)) = rn_id (fst x)" for x using id by simp
  have "tick_ok (sy_rt s) (t, c)" using inv t by (auto simp: goal_rt_inv_def)
  then have "tick_ok rt (t', c)" using a t(2) by (auto simp: tick_ok_def stillCurrent_def)
  then have "\<forall>x \<in> set (map ?f (sy_running s)). tick_ok rt x \<and> (snd x \<or> sy_enabled s)"
    using inv a by (auto simp: goal_rt_inv_def stillCurrent_def)
  moreover have "map (rn_id \<circ> fst) (map ?f (sy_running s)) = map (rn_id \<circ> fst) (sy_running s)" using ids by simp
  moreover from arg_cong [OF this, of set] have "rn_id ` fst ` set (map ?f (sy_running s)) = rn_id ` fst ` set (sy_running s)"
    by (simp only: set_map image_comp comp_assoc)
  ultimately show ?thesis using inv a unfolding goal_rt_inv_def by (simp del: map_map set_map)
qed

lemma inv_over:
  assumes inv: "goal_rt_inv s" and t: "(t, c) \<in> set (sy_running s)" and over: "tick_over T s t rt"
  shows "goal_rt_inv (s \<lparr> sy_rt := tick_finally (sy_now s) (rn_id t) rt, sy_running := filter (\<lambda>x. rn_id (fst x) \<noteq> rn_id t) (sy_running s) \<rparr>)"
proof -
  have core: "rt_core (sy_rt s)" and fl: "rn_id t \<in> set (gr_inFlight (sy_rt s))"
    using inv t by (force simp: goal_rt_inv_def)+
  have rt: "rt_core rt" "gr_inFlight rt = gr_inFlight (sy_rt s)" "gr_stopped rt = gr_stopped (sy_rt s)" "gr_generations rt = gr_generations (sy_rt s)"
     "gr_exchangeGenerations rt = gr_exchangeGenerations (sy_rt s)" "gr_directories rt = gr_directories (sy_rt s)"
    using tick_over_cases [OF over fl] core set_pending_core [OF core fl] by (auto simp: set_pending_def)
  have f: "rn_id t \<in> set (gr_inFlight rt)" using rt(2) fl by simp
  note e = finally_effect [OF rt(1) f, of "sy_now s"]
  have "tick_ok (tick_finally (sy_now s) (rn_id t) rt) x = tick_ok (sy_rt s) x" for x
    using e rt by (intro tick_ok_cong) simp_all
  then show ?thesis using inv e rt(2) unfolding goal_rt_inv_def by (auto simp: distinct_map_filter)
qed

lemma goal_dispose_ok: "tick_ok (goal_dispose rt) (t, True)"
  by (simp add: tick_ok_def goal_dispose_def)

lemma stopped_operations [simp]:
  "gr_stopped rt \<Longrightarrow> goal_onEvent T enabled now e rt = rt"
  "gr_stopped rt \<Longrightarrow> goal_settingsChanged b rt = rt"
  "gr_stopped rt \<Longrightarrow> goal_reconcile T now sessions rt = rt"
  by (simp_all add: goal_onEvent_def goal_settingsChanged_def goal_reconcile_def)

lemma stops_eq:
  "stops (OnEvent e) s = stop_event (sy_enabled s) (sy_now s) e" "stops (OnSettings b) s = (\<lambda>_. \<not> b)" "stops (OnSessions v) s = (\<lambda>_. False)"
  by (auto intro: ext)

lemma goal_step_inv:
  assumes "goal_rt_step T l s s'" "goal_rt_inv s"
  shows "goal_rt_inv s'"
  using assms(1)
proof cases
  case (rs_event e)
  have "goal_rt_inv (s \<lparr> sy_enabled := sy_enabled s, sy_rt := goal_onEvent T (sy_enabled s) (sy_now s) e (sy_rt s), sy_running := mark_stopped (OnEvent e) s \<rparr>)"
    using event_effect [of "sy_rt s" "sy_enabled s" "sy_now s" e T] assms(2)
    by (intro inv_operation) (simp_all add: goal_rt_inv_def stops_eq)
  then show ?thesis using rs_event by simp
next
  case (rs_settings b)
  have "goal_rt_inv (s \<lparr> sy_enabled := b, sy_rt := goal_settingsChanged b (sy_rt s), sy_running := mark_stopped (OnSettings b) s \<rparr>)"
    using settings_effect [of "sy_rt s" b] assms(2)
    by (intro inv_operation) (simp_all add: goal_rt_inv_def stops_eq)
  then show ?thesis using rs_settings by simp
next
  case (rs_wait n)
  then show ?thesis using assms(2) by (simp add: goal_rt_inv_def)
next
  case (rs_fire i due rt started)
  then show ?thesis using inv_fire [OF assms(2)] by simp
next
  case (rs_ready t c r rt t')
  then show ?thesis using inv_ready [OF assms(2)] by simp
next
  case (rs_over t c rt)
  then show ?thesis using inv_over [OF assms(2)] by simp
next
  case (rs_reconcile sessions)
  have "goal_rt_inv (s \<lparr> sy_enabled := sy_enabled s, sy_rt := goal_reconcile T (sy_now s) sessions (sy_rt s), sy_running := mark_stopped (OnSessions sessions) s \<rparr>)"
    using reconcile_effect [of "sy_rt s" T "sy_now s" sessions] assms(2)
    by (intro inv_operation) (simp_all add: goal_rt_inv_def stops_eq)
  then show ?thesis using rs_reconcile by (simp add: mark_nothing)
next
  case rs_dispose
  have "\<forall>x \<in> set (mark_stopped Dispose s). snd x" by (auto simp: mark_stopped_def)
  then have "\<forall>x \<in> set (mark_stopped Dispose s). tick_ok (goal_dispose (sy_rt s)) x"
    by (metis (full_types) goal_dispose_ok prod.collapse)
  moreover have "rt_core (goal_dispose (sy_rt s))" "gr_inFlight (goal_dispose (sy_rt s)) = gr_inFlight (sy_rt s)"
    by (simp_all add: rt_core_def goal_dispose_def)
  ultimately show ?thesis using rs_dispose assms(2) mark_ids [of Dispose s] \<open>\<forall>x \<in> set (mark_stopped Dispose s). snd x\<close>
    unfolding goal_rt_inv_def by simp
qed

lemma run_inv: "goal_rt_run T s \<Longrightarrow> goal_rt_inv s"
proof (induction rule: goal_rt_run.induct)
  case (run_start s)
  then show ?case by (simp add: goal_rt_inv_def rt_core_def fresh_runtime_def)
next
  case (run_step s l s')
  then show ?case using goal_step_inv by blast
qed


text \<open>C8.
  What was stopped stays stopped. Whatever events, timers, setting changes and answers
  interleave, there is at most one tick per session, and for a tick whose session was reported
  busy, deleted or without an active goal since it started, or during which the gate was
  closed or the runtime disposed, the fence is closed, even when the session or the gate is
  back: its writes and prompts are refused and its audits answered with a conflict, without
  reaching the harness. The one port the fence leaves open is the recovery of a skipped send,
  which runs just then: it puts back the payload from before the exchange, at most once, and only
  over what the exchange itself had stored. And nothing else closes the fence of a running exchange
  but a change of the session's directory.\<close>

theorem stopped_ticks_never_act:
  assumes "goal_rt_run T s"
  shows "distinct (map (rn_id \<circ> fst) (sy_running s)) \<and>
     (\<forall>(t, stopped) \<in> set (sy_running s).
        (stopped \<longrightarrow> \<not> fence_open s t \<and>
           (rn_exchange t = None \<longrightarrow> p_writeGoal (ports_of P s t) i d body w = (Inr False, w)) \<and>
           (rn_exchange t \<noteq> None \<longrightarrow> p_writeGoal (ports_of P s t) i d body w = (Inl RuntimeInactive, w) \<and>
              (\<exists>wire. p_runAudit (ports_of P s t) i d audit w = (Inr wire, w) \<and> aw_status wire = 409) \<and>
              p_sendPrompt (ports_of P s t) i d prompt w = (Inl RuntimeInactive, w) \<and>
              (\<exists>recover. p_recoverSkippedSend (ports_of P s t) = Some recover \<and>
                 restores_only P i d stored prior expected w (snd (recover i d stored prior expected w))))) \<and>
        (rn_exchange t \<noteq> None \<longrightarrow>
           (fence_open s t \<longleftrightarrow> \<not> stopped \<and> map_of (gr_directories (sy_rt s)) (rn_id t) = Some (rn_directory t))))"
proof -
  have inv: "goal_rt_inv s" using assms by (rule run_inv)
  have "(c \<longrightarrow> \<not> fence_open s t) \<and> (rn_exchange t \<noteq> None \<longrightarrow>
      (fence_open s t \<longleftrightarrow> \<not> c \<and> map_of (gr_directories (sy_rt s)) (rn_id t) = Some (rn_directory t)))"
    if "(t, c) \<in> set (sy_running s)" for t c
  proof -
    have ok: "tick_ok (sy_rt s) (t, c)" "c \<or> sy_enabled s" using inv that by (auto simp: goal_rt_inv_def)
    then show ?thesis
      by (cases "rn_exchange t") (auto simp: tick_ok_def fence_open_def stillCurrent_def exchangeCurrent_def)
  qed
  moreover have "(rn_exchange t = None \<longrightarrow> p_writeGoal (ports_of P s t) i d body w = (Inr False, w)) \<and>
      (rn_exchange t \<noteq> None \<longrightarrow> p_writeGoal (ports_of P s t) i d body w = (Inl RuntimeInactive, w) \<and>
         (\<exists>wire. p_runAudit (ports_of P s t) i d audit w = (Inr wire, w) \<and> aw_status wire = 409) \<and>
         p_sendPrompt (ports_of P s t) i d prompt w = (Inl RuntimeInactive, w) \<and>
         (\<exists>recover. p_recoverSkippedSend (ports_of P s t) = Some recover \<and>
            restores_only P i d stored prior expected w (snd (recover i d stored prior expected w))))"
    if "\<not> fence_open s t" for t
    using closed_fence [OF that] recover_restores by (intro conjI impI) (auto intro!: exI [of _ "recover_skipped P"])
  moreover have "distinct (map (rn_id \<circ> fst) (sy_running s))" using inv by (simp add: goal_rt_inv_def)
  ultimately show ?thesis by (auto simp del: not_None_eq)
qed

section \<open>Wake-ups\<close>

definition awake :: "string \<Rightarrow> GoalRuntime \<Rightarrow> bool" where
  "awake i rt \<longleftrightarrow> map_of (gr_timers rt) i \<noteq> None \<or> map_of (gr_pending rt) i \<noteq> None"

text \<open>A timer that is due within the delay, or a tick in flight that arms one when it ends.\<close>

definition wakes_within :: "string \<Rightarrow> int \<Rightarrow> int \<Rightarrow> GoalRuntime \<Rightarrow> bool" where
  "wakes_within i delay now rt \<longleftrightarrow>
     (case map_of (gr_timers rt) i of Some due \<Rightarrow> due \<le> now + max 0 delay | None \<Rightarrow> False) \<or>
     i \<in> set (gr_inFlight rt) \<and> (case map_of (gr_pending rt) i of Some p \<Rightarrow> p \<le> delay | None \<Rightarrow> False)"

lemma arm_awake: "awake j rt \<Longrightarrow> awake j (goal_arm now i delay rt)"
  by (auto simp: awake_def goal_arm_def set_pending_def Let_def update_conv' split: option.split)

lemma arm_wakes: "wakes_within i delay now (goal_arm now i delay rt)"
  by (auto simp: wakes_within_def goal_arm_def set_pending_def Let_def update_conv' split: option.split)

lemma invalid_awake: "j \<noteq> i \<Longrightarrow> awake j (both_invalid i rt) = awake j rt"
  by (simp add: awake_def both_invalid_def invalidateExchange_def goal_invalidate_def goal_clear_def delete_conv')

lemma remember_awake: "awake j (fst (remember_directory i d rt)) = awake j rt"
  by (auto simp: remember_directory_def awake_def Let_def split: option.split json.split)

lemma updated_awake: "awake j rt \<Longrightarrow> j \<noteq> i \<or> active_goal now info \<noteq> None \<Longrightarrow> awake j (on_updated T now i info rt)"
  by (auto simp: on_updated_def invalid_awake awake_def [of _ "rt \<lparr> gr_generations := m \<rparr>" for m] split: option.split
      intro!: arm_awake) (auto simp: awake_def)

lemma status_awake:
  "awake j rt \<Longrightarrow> j \<noteq> i \<or> ty \<noteq> Some (JStr ''busy'') \<and> ty \<noteq> Some (JStr ''retry'') \<Longrightarrow> awake j (on_status T now i ty rt)"
  by (auto simp: on_status_def invalid_awake arm_awake)

lemma event_awake:
  assumes "awake j rt" "\<not> stop_event enabled now e j"
  shows "awake j (goal_onEvent T enabled now e rt)"
proof (cases "gr_stopped rt \<or> envelope_session e = None")
  case True
  then show ?thesis using assms(1) by (auto simp: goal_onEvent_def)
next
  case False
  then obtain i where i: "envelope_session e = Some i" "\<not> gr_stopped rt" by auto
  show ?thesis
  proof (cases "ge_type e = ''session.deleted''")
    case True
    then have "j \<noteq> i" using i assms(2) by (auto simp: stop_event_def)
    then have "awake j (both_invalid i rt)" using assms(1) invalid_awake by blast
    then show ?thesis using True i by (simp add: goal_onEvent_def Let_def awake_def)
  next
    case False
    obtain rt1 known where rem: "remember_directory i (first_defined (ge_directory e)
        (case envelope_info e of Some info \<Rightarrow> map_of info ''directory'' | None \<Rightarrow> None)) rt = (rt1, known)" by fastforce
    have a1: "awake j rt1" using remember_awake [of j i _ rt] rem assms(1) by (metis fst_conv)
    have a2: "awake j (if ge_type e = ''session.status'' then on_status T now i (status_type e) rt1 else rt1)" if enabled
      using a1 assms(2) i that status_awake [OF a1] by (auto simp: stop_event_def)
    show ?thesis
    proof (cases enabled)
      case True
      then show ?thesis using False i rem a1 a2 [OF True] assms(2)
        by (auto simp: goal_onEvent_def Let_def stop_event_def split: option.split intro!: updated_awake)
    next
      case not: False
      then have "j \<noteq> i" using i assms(2) by (auto simp: stop_event_def)
      then show ?thesis using not False i rem a1 invalid_awake by (auto simp: goal_onEvent_def)
    qed
  qed
qed

lemma reconcile_awake: "awake j rt \<Longrightarrow> awake j (goal_reconcile T now sessions rt)"
proof -
  have one: "awake j (reconcile_session T now x rt)" if "awake j rt" for x rt
    using that remember_awake [of j] unfolding reconcile_session_def
    by (auto split: option.split json.split prod.split intro!: arm_awake) (metis fst_conv)+
  have "awake j rt \<Longrightarrow> awake j (fold (reconcile_session T now) items rt)" for items
    by (induction items arbitrary: rt) (simp_all add: one)
  then show "awake j rt \<Longrightarrow> awake j (goal_reconcile T now sessions rt)"
    by (auto simp: goal_reconcile_def split: option.split json.split)
qed

lemma finally_awake:
  assumes core: "rt_core rt" and a: "awake i rt" and j: "j \<in> set (gr_inFlight rt)"
  shows "awake i (tick_finally now j rt)"
    and "map_of (gr_pending rt) j = Some p \<Longrightarrow> wakes_within j p now (tick_finally now j rt) \<and> map_of (gr_pending (tick_finally now j rt)) j = None"
proof -
  let ?r = "rt \<lparr> gr_inFlight := removeAll j (gr_inFlight rt), gr_pending := AList.delete j (gr_pending rt) \<rparr>"
  have pending: "tick_finally now j rt = goal_arm now j p ?r" if "map_of (gr_pending rt) j = Some p" for p
  proof -
    have "\<not> gr_stopped rt" "map_of (gr_directories rt) j \<noteq> None" using core that by (auto simp: rt_core_def)
    then show ?thesis using that by (simp add: tick_finally_def)
  qed
  show "map_of (gr_pending rt) j = Some p \<Longrightarrow> wakes_within j p now (tick_finally now j rt) \<and> map_of (gr_pending (tick_finally now j rt)) j = None"
    using pending arm_wakes [of j p now ?r] by (auto simp: goal_arm_def Let_def delete_conv' split: option.split)
  show "awake i (tick_finally now j rt)"
  proof (cases "map_of (gr_pending rt) j")
    case None
    then have "awake i ?r" using a by (auto simp: awake_def delete_conv')
    then show ?thesis using None by (simp add: tick_finally_def)
  next
    case (Some p)
    have "awake i (goal_arm now j p ?r)"
    proof (cases "i = j")
      case True
      then show ?thesis by (auto simp: awake_def goal_arm_def Let_def update_conv' split: option.split)
    next
      case False
      then show ?thesis using a by (intro arm_awake) (simp add: awake_def delete_conv')
    qed
    then show ?thesis using pending [OF Some] by simp
  qed
qed


lemma set_pending_awake: "awake i rt \<Longrightarrow> awake i (set_pending j d rt)"
  by (auto simp: awake_def set_pending_def update_conv')

lemma idle_event_wakes:
  assumes "envelope_session e = Some i" "ge_type e = ''session.status''" "status_type e = Some (JStr ''idle'')"
    "\<not> gr_stopped rt" "map_of (gr_directories (goal_onEvent T True now e rt)) i \<noteq> None"
  shows "wakes_within i (gt_idleMs T) now (goal_onEvent T True now e rt)"
proof -
  obtain rt1 known where rem: "remember_directory i (first_defined (ge_directory e)
        (case envelope_info e of Some info \<Rightarrow> map_of info ''directory'' | None \<Rightarrow> None)) rt = (rt1, known)" by fastforce
  have eq: "goal_onEvent T True now e rt = (if known then goal_arm now i (gt_idleMs T) rt1 else rt1)"
    using rem assms(1-4) by (auto simp: goal_onEvent_def Let_def on_status_def split: option.split)
  have known using assms(5) remember_keeps [OF rem] unfolding eq by (auto split: if_split_asm)
  then show ?thesis using eq arm_wakes by simp
qed

lemma over_awake:
  assumes inv: "goal_rt_inv s" and t: "(t, c) \<in> set (sy_running s)" and over: "tick_over T s t rt"
  shows "awake i (sy_rt s) \<Longrightarrow> awake i (tick_finally now (rn_id t) rt)"
    and "map_of (gr_pending (sy_rt s)) (rn_id t) = Some p \<Longrightarrow> wakes_within (rn_id t) p now (tick_finally now (rn_id t) rt)"
proof -
  have core: "rt_core (sy_rt s)" and fl: "rn_id t \<in> set (gr_inFlight (sy_rt s))"
    using inv t by (force simp: goal_rt_inv_def)+
  have rt: "rt_core rt" "rn_id t \<in> set (gr_inFlight rt)" "awake j (sy_rt s) \<Longrightarrow> awake j rt" for j
    using tick_over_cases [OF over fl] core fl set_pending_core [OF core fl] set_pending_awake [of j "sy_rt s"] by (auto simp: set_pending_def)
  show "awake i (sy_rt s) \<Longrightarrow> awake i (tick_finally now (rn_id t) rt)"
    using finally_awake(1) [OF rt(1) rt(3) rt(2)] .
  assume p: "map_of (gr_pending (sy_rt s)) (rn_id t) = Some p"
  then obtain q where q: "map_of (gr_pending rt) (rn_id t) = Some q" "q \<le> p"
    using tick_over_cases [OF over fl] by (auto simp: set_pending_def update_conv')
  have "awake (rn_id t) rt" using q by (simp add: awake_def)
  from finally_awake(2) [OF rt(1) this rt(2) q(1), of now] show "wakes_within (rn_id t) p now (tick_finally now (rn_id t) rt)"
    using q(2) by (auto simp: wakes_within_def split: option.split_asm)
qed

lemma fire_awake:
  assumes inv: "goal_rt_inv s" and timer: "map_of (gr_timers (sy_rt s)) j = Some due"
    and start: "tick_start T True j (goal_clear j (sy_rt s)) = (rt, started)" and a: "awake i (sy_rt s)"
  shows "awake i rt \<or> i = j \<and> (\<exists>t. started = Some t \<and> rn_id t = j)"
proof (cases "i = j")
  case True
  have "rt_core (sy_rt s)" using inv by (simp add: goal_rt_inv_def)
  from start_effect [OF this start] timer True show ?thesis by (cases started) auto
next
  case False
  then show ?thesis using a start
    by (auto simp: tick_start_def goal_clear_def awake_def set_pending_def delete_conv' update_conv' split: if_split_asm option.split_asm)
qed

text \<open>C19.
  No wake-up is lost. While the gate is open, a session that is due for a look keeps its
  timer, or the note of the tick in flight, through every step that does not stop it; only
  the firing of its timer uses it up, and that starts a tick. A session that becomes idle is
  looked at within the quiet time, or as soon after the end of the running tick; a tick that
  ends with a note arms the timer for it.\<close>

theorem wakeups_are_not_lost:
  assumes run: "goal_rt_run T s" and step: "goal_rt_step T l s s'" and gate: "sy_enabled s" and live: "\<not> stops l s i"
  shows "(awake i (sy_rt s) \<longrightarrow> awake i (sy_rt s') \<or> l = TimerFires i \<and> i \<in> rn_id ` fst ` set (sy_running s')) \<and>
     (\<forall>e. l = OnEvent e \<longrightarrow> envelope_session e = Some i \<longrightarrow> ge_type e = ''session.status'' \<longrightarrow> status_type e = Some (JStr ''idle'') \<longrightarrow>
        \<not> gr_stopped (sy_rt s) \<longrightarrow> map_of (gr_directories (sy_rt s')) i \<noteq> None \<longrightarrow> wakes_within i (gt_idleMs T) (sy_now s) (sy_rt s')) \<and>
     (\<forall>p. l = TickEnds i \<longrightarrow> map_of (gr_pending (sy_rt s)) i = Some p \<longrightarrow> wakes_within i p (sy_now s) (sy_rt s'))"
proof -
  have inv: "goal_rt_inv s" using run by (rule run_inv)
  from step show ?thesis
  proof cases
    case (rs_event e)
    then show ?thesis using live gate event_awake [of i "sy_rt s"] idle_event_wakes [of e i "sy_rt s" T "sy_now s"] by simp
  next
    case (rs_settings b)
    then show ?thesis using live by (simp add: goal_settingsChanged_def)
  next
    case (rs_fire j due rt started)
    then show ?thesis using fire_awake [OF inv, of j due T rt started i] gate by auto
  next
    case (rs_ready t c r rt t')
    then show ?thesis using answer_exchange [of T "sy_enabled s" "sy_now s" r t "sy_rt s" rt t'] by auto
  next
    case (rs_over t c rt)
    then show ?thesis using over_awake [OF inv, of t c T rt] by auto
  next
    case (rs_reconcile sessions)
    then show ?thesis using reconcile_awake by simp
  qed (use live in simp_all)
qed


subsection \<open>A run\<close>

definition status_event :: "string \<Rightarrow> GoalEnvelope" where
  "status_event ty = \<lparr> ge_type = ''session.status'', ge_properties = Some (JObj [(''sessionID'', JStr ''ses''), (''status'', JObj [(''type'', JStr ty)])]),
     ge_directory = Some (JStr ''/d'') \<rparr>"

definition armed_runtime :: GoalRuntime where
  "armed_runtime = fresh_runtime \<lparr> gr_timers := [(''ses'', 15000)], gr_directories := [(''ses'', ''/d'')] \<rparr>"

definition sample_system :: "int \<Rightarrow> GoalRuntime \<Rightarrow> (RunningTick \<times> bool) list \<Rightarrow> RtSystem" where
  "sample_system now rt rs = \<lparr> sy_rt = rt, sy_running = rs, sy_enabled = True, sy_now = now \<rparr>"

lemmas sample_run_defs = status_event_def armed_runtime_def sample_system_def fresh_runtime_def DEFAULT_TIMING_def IDLE_QUIET_MS_def

lemma status_event_parts:
  "envelope_session (status_event ty) = Some ''ses''" "envelope_info (status_event ty) = None"
  "status_type (status_event ty) = Some (JStr ty)" "ge_type (status_event ty) = ''session.status''"
  by (simp_all add: status_event_def envelope_session_def envelope_info_def status_type_def)

lemma idle_arms: "goal_onEvent DEFAULT_TIMING True 0 (status_event ''idle'') fresh_runtime = armed_runtime"
  by (simp add: goal_onEvent_def status_event_parts remember_directory_def on_status_def goal_arm_def Let_def)
     (simp add: sample_run_defs)

lemma sample_step_idle:
  "goal_rt_run DEFAULT_TIMING (sample_system 0 fresh_runtime [])"
  "goal_rt_step DEFAULT_TIMING (OnEvent (status_event ''idle'')) (sample_system 0 fresh_runtime []) (sample_system 0 armed_runtime [])"
proof -
  show "goal_rt_run DEFAULT_TIMING (sample_system 0 fresh_runtime [])" by (rule run_start) (simp_all add: sample_system_def)
  show "goal_rt_step DEFAULT_TIMING (OnEvent (status_event ''idle'')) (sample_system 0 fresh_runtime []) (sample_system 0 armed_runtime [])"
    using rs_event [of DEFAULT_TIMING "status_event ''idle''" "sample_system 0 fresh_runtime []"]
    by (simp add: sample_system_def idle_arms mark_stopped_def)
qed

definition sample_tick :: RunningTick where
  "sample_tick = \<lparr> rn_id = ''ses'', rn_generation = 0, rn_directory = ''/d'', rn_exchange = None \<rparr>"

lemma sample_run_busy:
  "\<exists>rt. goal_rt_run DEFAULT_TIMING (sample_system 15000 rt [(sample_tick, True)])"
proof -
  let ?r = "armed_runtime \<lparr> gr_timers := [], gr_inFlight := [''ses''] \<rparr>"
  have 1: "goal_rt_run DEFAULT_TIMING (sample_system 0 armed_runtime [])"
    using run_step sample_step_idle by blast
  have "goal_rt_step DEFAULT_TIMING (TimePasses 15000) (sample_system 0 armed_runtime []) (sample_system 15000 armed_runtime [])"
    using rs_wait [of "sample_system 0 armed_runtime []" 15000 DEFAULT_TIMING] by (simp add: sample_system_def)
  with 1 have 2: "goal_rt_run DEFAULT_TIMING (sample_system 15000 armed_runtime [])" by (rule run_step)
  have "goal_rt_step DEFAULT_TIMING (TimerFires ''ses'') (sample_system 15000 armed_runtime []) (sample_system 15000 ?r [(sample_tick, False)])"
    using rs_fire [of "sample_system 15000 armed_runtime []" "''ses''" 15000 DEFAULT_TIMING ?r "Some sample_tick"]
    by (simp add: sample_system_def armed_runtime_def fresh_runtime_def tick_start_def goal_clear_def sample_tick_def count_of_def)
  with 2 have 3: "goal_rt_run DEFAULT_TIMING (sample_system 15000 ?r [(sample_tick, False)])" by (rule run_step)
  have "goal_rt_step DEFAULT_TIMING (OnEvent (status_event ''busy'')) (sample_system 15000 ?r [(sample_tick, False)])
      (sample_system 15000 (goal_onEvent DEFAULT_TIMING True 15000 (status_event ''busy'') ?r) [(sample_tick, True)])"
    using rs_event [of DEFAULT_TIMING "status_event ''busy''" "sample_system 15000 ?r [(sample_tick, False)]"]
    by (simp add: sample_system_def mark_stopped_def stop_event_def status_event_parts sample_tick_def)
  with 3 show ?thesis using run_step by blast
qed

theorem stopped_ticks_never_act_witness:
  "\<exists>s. sy_enabled s \<and> (sample_tick, True) \<in> set (sy_running s) \<and> \<not> fence_open s sample_tick"
proof -
  obtain rt where run: "goal_rt_run DEFAULT_TIMING (sample_system 15000 rt [(sample_tick, True)])" using sample_run_busy by blast
  from stopped_ticks_never_act [OF run, where P = "undefined :: unit GoalPorts" and i = "[]" and d = "[]" and body = undefined
      and audit = undefined and prompt = "[]" and stored = undefined and prior = undefined and expected = 0 and w = "()"]
  have "\<not> fence_open (sample_system 15000 rt [(sample_tick, True)]) sample_tick"
    by (simp add: sample_system_def)
  then show ?thesis by (intro exI [of _ "sample_system 15000 rt [(sample_tick, True)]"]) (simp add: sample_system_def)
qed

theorem wakeups_are_not_lost_witness:
  "wakes_within ''ses'' 15000 0 armed_runtime"
proof -
  have "\<not> stops (OnEvent (status_event ''idle'')) (sample_system 0 fresh_runtime []) ''ses''"
    by (simp add: stop_event_def status_event_parts sample_system_def)
  from wakeups_are_not_lost [OF sample_step_idle _ this]
  show ?thesis by (simp add: sample_system_def status_event_parts fresh_runtime_def DEFAULT_TIMING_def IDLE_QUIET_MS_def armed_runtime_def)
qed

end
