(* ===== verification/Spec2Isabelle.thy ===== *)
theory Spec2Isabelle
  imports Queue_Delivery Queue_Expansion Sched_Run Sched_Store Sched_Pump Sched_Lock Relay_Credit Auth_Limits Auth_Pairing Term_History Sync_Batch Goal_Server Goal_Runtime
begin

text \<open>
  Verification of the stateful core of NotNative Desktop: the TypeScript server under
  \<open>desktop/packages/web/src/server\<close> and, of the browser client under \<open>desktop/packages/ui/src\<close>, the
  parts that speak the server's wire format and that turn the server's events into the state on screen.

  \<^bold>\<open>The program.\<close> A desktop server stands between an agent engine (the harness) and browser or
  mobile clients. The parts that keep state of their own are modelled here.

  \<^item> The \<^emph>\<open>message queue\<close> (\<open>queue/\<close>) holds prompts per session, persists them in a file shared by
  processes, and sends the head of a queue when its session is idle. Claims in files keep two
  processes from sending one item twice.
  \<^item> The \<^emph>\<open>scheduler\<close> (\<open>scheduled/\<close>) runs tasks at their slots: it computes the next slot, arms
  timers, limits concurrent runs, claims an occurrence in the task's configuration file before it
  creates a session, resumes after a crash, and reads tasks from loop files as well.
  \<^item> The \<^emph>\<open>relay\<close> (\<open>lib/relay/\<close>, with its mirror in \<open>ui/src/lib/relay/\<close>) carries HTTP and
  WebSocket traffic through an encrypted tunnel: the downstream scheduler gives streams their turn
  under a credit window, the batcher packs frames into containers, the session encrypts them, and
  the other leg decrypts, takes containers apart, reassembles fragments and acknowledges.
  \<^item> \<^emph>\<open>Authentication\<close> (\<open>lib/auth/\<close>) limits guesses and redeems one-time pairing sessions; the
  \<^emph>\<open>terminal\<close> (\<open>terminal/\<close>) keeps a replay of its output without device queries.
  \<^item> The \<^emph>\<open>goal loop\<close> (\<open>goals/\<close>) pursues a goal of a session on its own: when the session is quiet it charges
  the turns since the last look, has an independent auditor judge the progress, and sends the prompt to
  continue, until the goal is reached, blocked, out of budget or out of turns. The goal lives in the catalog
  of the harness, where user and loop change it under a compare-and-set of id and revision.
  \<^item> The \<^emph>\<open>event synchronisation\<close> of the browser (\<open>ui/src/sync/\<close>) receives the events of all sessions,
  queues them per directory and coalesces them, applies the events of a flush to a draft of the
  directory's store and commits the fields they cloned; lists of messages and sessions are kept in order.

  \<^bold>\<open>The model.\<close> Every definition carries the name of the function it translates where that is
  free; helper loops and prefixed names are documented where they stand. A class or closure with
  fields is a record and its methods are functions on the record; a \<open>Map\<close> whose order matters is an
  association list; a thrown error is \<open>Inl\<close> or \<open>None\<close>; \<open>Buffer\<close> is a list of \<open>8 word\<close>; JavaScript
  numbers are \<open>int\<close> where the code treats them as integers and \<open>jsnum\<close> (with infinities and NaN)
  where it inspects them; \<open>unknown\<close> is an optional \<open>json\<close>. Files, clocks, random values, hashes, AES-GCM, the
  harness and process liveness are arguments of the functions that use them. An operation that
  awaits is cut at its awaits, and the pieces are steps of a relation in which they interleave with
  everything else. Timers are fields that hold when they fire, and their callbacks are operations.

  \<^bold>\<open>The theories.\<close>

  \<^item> \<open>Prelude\<close>: JavaScript values and strings, results, decimal numerals, generic lemmas.
  \<^item> \<open>Queue_Item\<close> (\<open>queue-item.ts\<close>): the parser of items, the comparison of payloads, the preview and
  the public projection. Admitted items are deliverable; the projection hides data URLs.
  \<^item> \<open>Queue_Expansion\<close> (\<open>queue-expansion.ts\<close>): slash command templates.
  \<^item> \<open>Queue_Store\<close> (\<open>queue-store.ts\<close>): sessions, limits, eviction, the write chain and the file. The
  locale \<open>pinned_queues\<close> states what the runtime relies on.
  \<^item> \<open>Queue_Claims\<close> (\<open>queue-dispatch-claims.ts\<close>): claim files; mutual exclusion of processes.
  \<^item> \<open>Queue_Dispatch\<close> (\<open>queue-dispatch.ts\<close>): the prompt of one item and its outcome.
  \<^item> \<open>Queue_Runtime\<close> and \<open>Queue_Delivery\<close> (\<open>queue-runtime.ts\<close> with its timing and utilities): the
  operations, then the runtime as a state machine \<open>rt_step\<close> with its invariant. The locale
  \<open>shared_mutation\<close> is the contract of an operation run under the shared lock, interpreted for each.
  \<^item> \<open>Sched_Time\<close> (\<open>next-run.ts\<close>): calendar arithmetic and the next slot.
  \<^item> \<open>Sched_Schema\<close> (\<open>task-schema.ts\<close>), \<open>Sched_Loops\<close> (\<open>loops.ts\<close>), \<open>Sched_Store\<close> (\<open>task-config.ts\<close> and
  \<open>consumeOnce\<close> of \<open>scheduled-service.ts\<close>): normalisation of tasks, loop files, the configuration file.
  \<^item> \<open>Sched_Claims\<close> (\<open>scheduled-claims.ts\<close>) and \<open>Sched_Run\<close> (\<open>scheduled-occurrence.ts\<close>,
  \<open>scheduled-settle.ts\<close>): dispatch records and the life of an occurrence as the relation
  \<open>sched_step\<close> with crashes, resumes and failed writes.
  \<^item> \<open>Sched_Pump\<close> (\<open>scheduled-state.ts\<close>, \<open>scheduled-run.ts\<close>, \<open>scheduled-runtime.ts\<close>): timers, queue and
  slots; the locale \<open>slot_keeping\<close> is the contract of a synchronisation step. \<open>Sched_Lock\<close>
  (\<open>config-lock.ts\<close>): the lock file as a relation between processes.
  \<^item> \<open>Relay_Codec\<close> (\<open>tunnel-codec.ts\<close>), \<open>Relay_Batch\<close> (\<open>batch.ts\<close>), \<open>Relay_Session\<close> (\<open>crypto.ts\<close>,
  \<open>leg-host.ts\<close>), \<open>Relay_Client\<close> (the browser's \<open>tunnel-codec.ts\<close>, \<open>bytes.ts\<close>, \<open>tunnel-acks.ts\<close>) and
  \<open>Relay_Credit\<close> (\<open>downstream.ts\<close>). The abstract specification of both the batcher and each stream of
  the downstream scheduler is one transition system, \<open>channel_step\<close>, a first-in first-out channel.
  \<^item> \<open>Auth_Limits\<close> (\<open>rate-limit.ts\<close>), with the locale \<open>sliding_window\<close> that both limiters implement, and
  \<open>Auth_Pairing\<close> (\<open>pairing-sessions.ts\<close>).
  \<^item> \<open>Term_History\<close> (\<open>terminal/history.ts\<close>).
  \<^item> \<open>Sync_Queues\<close> (\<open>pipeline-queues.ts\<close>, delivery and cursor of \<open>pipeline-attempts.ts\<close> and
  \<open>event-pipeline.ts\<close>): the directory queues; their abstract specification is a coalescing of plain lists.
  \<open>Sync_Ordering\<close> (\<open>message-ordering.ts\<close>, \<open>session-ordering.ts\<close>, the list operations of \<open>event-equality.ts\<close>), with the
  locale \<open>keyed_store\<close> that the lists sorted by id implement. \<open>Sync_Activity\<close> (\<open>activity-log.ts\<close>).
  \<open>Sync_Reducer\<close> (\<open>event-reducer.ts\<close>, \<open>transcript-reducer.ts\<close>, \<open>blocking-reducer.ts\<close>, \<open>projection-reducer.ts\<close> and
  their helpers): the model of a batch; \<open>Sync_Batch\<close>: its properties.
  \<^item> \<open>Goal_Constants\<close> (\<open>goal-constants.ts\<close>) and \<open>Goal_State\<close> (\<open>goal-payload.ts\<close>, \<open>goal-metadata.ts\<close>, \<open>goal-state.ts\<close>,
  \<open>goal-distill.ts\<close>): payload, parser and state machine of a goal. \<open>Goal_Evidence\<close> (\<open>nna-goal-evidence.ts\<close>): the charging of
  receipts and the hard stops. \<open>Goal_Exchange\<close> (\<open>nna-goal-safety-tick.ts\<close>, \<open>goal-audit.ts\<close>, \<open>nna-goal-auditor.ts\<close>,
  \<open>nna-goal-dispatch.ts\<close>, the fence of \<open>nna-goal-runtime.ts\<close>): tick and exchange as programs over ports, in a monad of state
  and failure whose world is a parameter, so that others may act at every call. \<open>Goal_Server\<close>: the locale
  \<open>goal_server\<close> states what the exchange relies on at its ports, and is interpreted on a model of the goal catalog of
  the harness (\<open>src/desktop-goal.js\<close>) in which a script decides who else writes and which calls fail or lose their answer.
  \<open>Goal_Runtime\<close> (\<open>nna-goal-runtime.ts\<close>): the runtime class as the labelled step relation \<open>goal_rt_step\<close>, with the
  awaits of a tick as steps of their own.

  \<^bold>\<open>What is proved.\<close> For the relay: frames, fragments and containers round trip; client and host
  implement the same format; batcher and streams refine the channel; initialisation vectors never
  repeat and replays are refused; frames offered at one end reach the dispatcher at the other; the
  pump ends, respects the window and never stalls; a client that keeps the ledger is never
  failed. For the queue: the item in flight stays the head whatever interleaves, a delivered item leaves
  queue and file, retries are idempotent, claims exclude, the store keeps its limits. For
  the scheduler: at most one session is created per occurrence and a fault-free one settles, slots are
  correct and limits hold, stored tasks read back. For authentication: guesses per window are bounded,
  a pairing session is redeemed at most once. For the terminal: cleaning does not depend on how the
  output was cut. For the browser: the queues refine plain lists and lose no text, coalescing does
  not change the transcript, batches publish what they wrote and keep the invariants of the store, orders
  are permutations that respect the tree. For the goal loop: it acts on quiet sessions within budget and turns only,
  charges every turn once, never undoes what the user wrote, sends a bounded number of prompts, and does send one when
  nothing interferes; what was stopped cannot act and no wake-up is lost; goals read back and stay well formed. Theorems with a name that states a defect (an acknowledged item lost after a failed
  write, a slot claimed twice, a container beyond the size limit, a window that is exceeded, a settlement
  that throws, a cursor before a published delta, and so on) prove behaviour of the code that its comments exclude.

  \<^bold>\<open>Loops and bounds.\<close> Loops are structural recursion or functions with a measure. Two may a priori
  run on: the trimming loop of the queue store, which is a \<open>partial_function\<close> with an exact
  criterion for its return, and the rounds of the downstream pump, a \<open>partial_function\<close> that is
  shown to return from every well-kept state. No fuel is used. Byte order and head bytes are computed
  on words; counters on the wire are 64-bit words, and theorems that need it assume fewer
  than \<open>2\<^sup>5\<^sup>3\<close> bytes or \<open>2\<^sup>6\<^sup>4\<close> messages.

  \<^bold>\<open>Not modelled.\<close> React components, translations, themes, settings and the Electron shell: rendering
  and configuration. HTTP routes, sockets, pseudo terminals, tunnel providers and process
  management: input and output around the modelled state. Key agreement and key
  derivation, passkeys, JWT and cookies: calls of WebCrypto and \<open>node:crypto\<close>. The harness adapters and the
  agent engine itself: their answers are arguments, but for the goal catalog. Of the goal loop the HTTP ports and
  the files of objectives. Session orchestration, notifications, and
  of the browser's synchronisation the connection loop, the loading of pages and optimistic sends
  are sequences of calls of those, with little state of their own. Object identity in the browser's
  store is not modelled: arrays that draft and store share are values.
\<close>

end
